(* ===== verification/Prelude.thy ===== *)
theory Prelude
  imports Main "HOL-Library.Word" "HOL-Library.Signed_Division"
begin

text \<open>
  What the component theories share: names for the machine integers, the value that stands for
  the process leaving through \<open>EXIT\<close>, \<open>EXIT_IF\<close> and \<open>EXIT_NOT_IMPLEMENTED\<close> of
  src/src/common/assert.h, reachability over a step relation with its invariant rule as a locale,
  and generic lemmas on lists.
\<close>

unbundle bit_operations_syntax

type_synonym u8 = "8 word"
type_synonym u16 = "16 word"
type_synonym u32 = "32 word"
type_synonym u64 = "64 word"

text \<open>Guest and host addresses, where the code only compares and stores them.\<close>

type_synonym addr = nat

definition UINT64_MAX :: nat where
  "UINT64_MAX = 0xffffffffffffffff"

text \<open>Sums and differences of 64-bit numbers, which wrap.\<close>

definition add64 :: "nat \<Rightarrow> nat \<Rightarrow> nat" where
  "add64 a b = (a + b) mod 18446744073709551616"

definition sub64 :: "nat \<Rightarrow> nat \<Rightarrow> nat" where
  "sub64 a b = (a + (18446744073709551616 - b)) mod 18446744073709551616"

lemma add64_ident: "a + b \<le> UINT64_MAX \<Longrightarrow> add64 a b = a + b"
  by (simp add: add64_def UINT64_MAX_def)

lemma sub64_ident: "b \<le> a \<Longrightarrow> a \<le> UINT64_MAX \<Longrightarrow> sub64 a b = a - b"
proof -
  assume "b \<le> a" "a \<le> UINT64_MAX"
  then have "a + (18446744073709551616 - b) = (a - b) + 18446744073709551616" "a - b < 18446744073709551616"
    by (simp_all add: UINT64_MAX_def)
  then show ?thesis by (simp only: sub64_def mod_add_self2) simp
qed

text \<open>
  Signed 32- and 64-bit arithmetic on \<open>int\<close>: the value after two's complement wrap-around. \<open>sdiv\<close> and
  \<open>smod\<close> of HOL-Library.Signed_Division are the truncating division and remainder of C++.
\<close>

definition i32 :: "int \<Rightarrow> int" where
  "i32 x = signed_take_bit 31 x"

definition i64 :: "int \<Rightarrow> int" where
  "i64 x = signed_take_bit 63 x"

lemma i64_ident: "- 9223372036854775808 \<le> x \<Longrightarrow> x < 9223372036854775808 \<Longrightarrow> i64 x = x"
  by (simp add: i64_def signed_take_bit_int_eq_self)

lemma i32_ident: "- 2147483648 \<le> x \<Longrightarrow> x < 2147483648 \<Longrightarrow> i32 x = x"
  by (simp add: i32_def signed_take_bit_int_eq_self)

lemma i32_range: "- 2147483648 \<le> i32 x" "i32 x < 2147483648"
  by (simp_all add: i32_def signed_take_bit_int_greater_eq_minus_exp [of 31 x, simplified]
      signed_take_bit_int_less_exp [of 31 x, simplified])

lemma i32_cong: "4294967296 dvd i32 x - x"
proof -
  have "i32 x - x = take_bit 32 (x + 2147483648) - (x + 2147483648)"
    by (simp add: i32_def signed_take_bit_eq_take_bit_shift)
  then show ?thesis by (simp add: take_bit_eq_mod minus_mult_div_eq_mod [symmetric])
qed

lemma sint_word32: "- 2147483648 \<le> x \<Longrightarrow> x < 2147483648 \<Longrightarrow> sint (word_of_int x :: u32) = x"
  by (simp add: sint_sbintrunc' signed_take_bit_int_eq_self)

lemma uint_word32: "0 \<le> x \<Longrightarrow> x < 4294967296 \<Longrightarrow> uint (word_of_int x :: u32) = x"
  by (simp add: uint_word_of_int)

lemma sint_small: "uint v < 2147483648 \<Longrightarrow> sint (v :: u32) = uint v"
  using sint_word32 [of "uint v"] uint_ge_0 [of v] by simp

lemma word_of_nat_pos: "0 < n \<Longrightarrow> n < 2 ^ LENGTH('a) \<Longrightarrow> 0 < (word_of_nat n :: 'a::len word)"
  by (simp add: word_greater_zero_iff word_of_nat_eq_0_iff nat_dvd_not_less)

section \<open>Process exit as a value\<close>

text \<open>
  \<open>EXIT(...)\<close>, \<open>EXIT_IF(c)\<close> and \<open>EXIT_NOT_IMPLEMENTED(c)\<close> end the process. A function
  that can reach one returns \<open>Inl EXIT\<close> there and \<open>Inr\<close> of its result elsewhere.
\<close>

datatype process_exit = EXIT

type_synonym 'a outcome = "process_exit + 'a"

definition exit_if :: "bool \<Rightarrow> 'a outcome \<Rightarrow> 'a outcome" where
  "exit_if c k = (if c then Inl EXIT else k)"

lemma exit_if_Inr [simp]: "exit_if c k = Inr v \<longleftrightarrow> \<not> c \<and> k = Inr v"
  by (simp add: exit_if_def)

lemma exit_if_False [simp]: "exit_if False k = k"
  by (simp add: exit_if_def)

lemma exit_if_True [simp]: "exit_if True k = Inl EXIT"
  by (simp add: exit_if_def)

fun bind_outcome :: "'a outcome \<Rightarrow> ('a \<Rightarrow> 'b outcome) \<Rightarrow> 'b outcome" where
  "bind_outcome (Inl e) k = Inl e"
| "bind_outcome (Inr v) k = k v"

lemma bind_outcome_Inr: "bind_outcome m k = Inr v \<longleftrightarrow> (\<exists>u. m = Inr u \<and> k u = Inr v)"
  by (cases m) auto

section \<open>Reachable states\<close>

inductive reachable :: "('s \<Rightarrow> bool) \<Rightarrow> ('s \<Rightarrow> 's \<Rightarrow> bool) \<Rightarrow> 's \<Rightarrow> bool"
  for ini :: "'s \<Rightarrow> bool" and stp :: "'s \<Rightarrow> 's \<Rightarrow> bool" where
  reachable_init: "ini s \<Longrightarrow> reachable ini stp s"
| reachable_step: "reachable ini stp s \<Longrightarrow> stp s t \<Longrightarrow> reachable ini stp t"

text \<open>
  The contract every state machine of the development has with its invariant: the invariant
  holds initially and every step keeps it. The client facts are that it holds in every
  reachable state and along every finite run.
\<close>

locale step_invariant =
  fixes ini :: "'s \<Rightarrow> bool"
    and stp :: "'s \<Rightarrow> 's \<Rightarrow> bool"
    and inv :: "'s \<Rightarrow> bool"
  assumes inv_init: "ini s \<Longrightarrow> inv s"
    and inv_step: "inv s \<Longrightarrow> stp s t \<Longrightarrow> inv t"
begin

lemma reachable_inv: "reachable ini stp s \<Longrightarrow> inv s"
  by (induction rule: reachable.induct) (auto intro: inv_init inv_step)

lemma run_inv: "stp\<^sup>*\<^sup>* s t \<Longrightarrow> inv s \<Longrightarrow> inv t"
  by (induction rule: rtranclp_induct) (auto intro: inv_step)

end

lemma reachable_run: "reachable ini stp s \<Longrightarrow> stp\<^sup>*\<^sup>* s t \<Longrightarrow> reachable ini stp t"
  by (rotate_tac, induction rule: rtranclp_induct) (auto intro: reachable_step)

section \<open>Lists\<close>

lemma distinct_map_filter_key:
  "distinct (map f xs) \<Longrightarrow> distinct (map f (filter P xs))"
  by (induction xs) auto

lemma int_card_remove:
  "finite A \<Longrightarrow> t \<in> A \<Longrightarrow> int (card (A - {t})) = int (card A) - 1"
  using card_gt_0_iff [of A] by (auto simp: of_nat_diff Suc_le_eq)

section \<open>Ranges of numbers\<close>

text \<open>Nonempty runs in increasing order with a gap between any two.\<close>

fun separated :: "nat \<Rightarrow> (nat \<times> nat) list \<Rightarrow> bool" where
  "separated s [] \<longleftrightarrow> True"
| "separated s ((a, b) # rs) \<longleftrightarrow> s \<le> a \<and> a < b \<and> separated (b + 1) rs"

definition covered :: "(nat \<times> nat) list \<Rightarrow> nat set" where
  "covered rs = (\<Union>(a, b)\<in>set rs. {a..<b})"

lemma covered_simps [simp]: "covered [] = {}" "covered ((a, b) # rs) = {a..<b} \<union> covered rs"
  by (simp_all add: covered_def)


lemma covered_append [simp]: "covered (xs @ ys) = covered xs \<union> covered ys"
  by (auto simp: covered_def)

lemma covered_iff: "x \<in> covered rs \<longleftrightarrow> (\<exists>a b. (a, b) \<in> set rs \<and> a \<le> x \<and> x < b)"
  unfolding covered_def by fastforce

lemma separated_mono: "separated s rs \<Longrightarrow> s' \<le> s \<Longrightarrow> separated s' rs"
  by (cases rs) auto

lemma separated_bound: "separated s rs \<Longrightarrow> (a, b) \<in> set rs \<Longrightarrow> s \<le> a \<and> a < b"
  by (induction s rs rule: separated.induct) fastforce+

lemma covered_bound: "separated s rs \<Longrightarrow> x \<in> covered rs \<Longrightarrow> s \<le> x"
  using separated_bound by (fastforce simp: covered_def)

lemma separated_append:
  "separated s (xs @ ys) \<longleftrightarrow> separated s xs \<and> separated (if xs = [] then s else snd (last xs) + 1) ys"
  by (induction s xs rule: separated.induct) auto

text \<open>A set of numbers is covered by at most one separated list.\<close>

lemma separated_head:
  assumes "separated s ((a, b) # rs)"
  shows "x \<in> {a..<b} \<union> covered rs \<Longrightarrow> a \<le> x" "b \<notin> {a..<b} \<union> covered rs" "a \<in> {a..<b} \<union> covered rs"
proof -
  have "b + 1 \<le> x" if "x \<in> covered rs" for x using covered_bound [OF _ that, of "b + 1"] assms by simp
  then show "x \<in> {a..<b} \<union> covered rs \<Longrightarrow> a \<le> x" "b \<notin> {a..<b} \<union> covered rs" "a \<in> {a..<b} \<union> covered rs"
    using assms by fastforce+
qed

lemma separated_unique: "separated s xs \<Longrightarrow> separated s ys \<Longrightarrow> covered xs = covered ys \<Longrightarrow> xs = ys"
proof (induction s xs arbitrary: ys rule: separated.induct)
  case (1 s)
  then show ?case by (cases ys) auto
next
  case (2 s a b xs)
  from 2(2,4) obtain c d ys' where ys: "ys = (c, d) # ys'"
    by (cases ys) auto
  have cov: "{a..<b} \<union> covered xs = {c..<d} \<union> covered ys'" using 2(4) ys by simp
  note hx = separated_head [OF 2(2)] and hy = separated_head [OF 2(3) [unfolded ys]]
  have "a = c" using hx(1) [of c] hy(1) [of a] hx(3) hy(3) unfolding cov by simp
  moreover have "b = d"
  proof (rule ccontr)
    assume "b \<noteq> d"
    then have "b < d \<or> d < b" by auto
    then show False
      using hx(2) hy(2) cov \<open>a = c\<close> 2(2,3) ys by auto
  qed
  moreover have "covered rs = ({p..<q} \<union> covered rs) \<inter> {q..}" if "separated (q + 1) rs" for p q rs
    using covered_bound [OF that] by force
  then have "covered xs = ({a..<b} \<union> covered xs) \<inter> {b..}" "covered ys' = ({c..<d} \<union> covered ys') \<inter> {d..}"
    using 2(2,3) ys by simp_all
  ultimately have "covered xs = covered ys'" using cov by simp
  with 2 ys \<open>a = c\<close> \<open>b = d\<close> show ?case by simp
qed

end
