(* ===== verification/KernelErrors.thy ===== *)
theory KernelErrors
  imports Prelude
begin

text \<open>
  The error numbers of src/src/libs/errno.h that the modelled kernel objects return, and the two
  conversions between the POSIX numbers and the kernel's \<open>0x8002xxxx\<close> codes.
\<close>

named_theorems errno_defs

definition OK :: int where [errno_defs]: "OK = 0"

definition POSIX_EPERM :: int where [errno_defs]: "POSIX_EPERM = 1"
definition POSIX_EINVAL :: int where [errno_defs]: "POSIX_EINVAL = 22"
definition POSIX_EAGAIN :: int where [errno_defs]: "POSIX_EAGAIN = 35"
definition POSIX_ETIMEDOUT :: int where [errno_defs]: "POSIX_ETIMEDOUT = 60"
definition POSIX_EOVERFLOW :: int where [errno_defs]: "POSIX_EOVERFLOW = 84"

definition KERNEL_ERROR_EPERM :: int where [errno_defs]: "KERNEL_ERROR_EPERM = -2147352575"
definition KERNEL_ERROR_ENOENT :: int where [errno_defs]: "KERNEL_ERROR_ENOENT = -2147352574"
definition KERNEL_ERROR_ESRCH :: int where [errno_defs]: "KERNEL_ERROR_ESRCH = -2147352573"
definition KERNEL_ERROR_EDEADLK :: int where [errno_defs]: "KERNEL_ERROR_EDEADLK = -2147352565"
definition KERNEL_ERROR_ENOMEM :: int where [errno_defs]: "KERNEL_ERROR_ENOMEM = -2147352564"
definition KERNEL_ERROR_EBADF :: int where [errno_defs]: "KERNEL_ERROR_EBADF = -2147352567"
definition KERNEL_ERROR_EACCES :: int where [errno_defs]: "KERNEL_ERROR_EACCES = -2147352563"
definition KERNEL_ERROR_EFAULT :: int where [errno_defs]: "KERNEL_ERROR_EFAULT = -2147352562"
definition KERNEL_ERROR_EBUSY :: int where [errno_defs]: "KERNEL_ERROR_EBUSY = -2147352560"
definition KERNEL_ERROR_EINVAL :: int where [errno_defs]: "KERNEL_ERROR_EINVAL = -2147352554"
definition KERNEL_ERROR_EAGAIN :: int where [errno_defs]: "KERNEL_ERROR_EAGAIN = -2147352541"
definition KERNEL_ERROR_ETIMEDOUT :: int where [errno_defs]: "KERNEL_ERROR_ETIMEDOUT = -2147352516"
definition KERNEL_ERROR_ECANCELED :: int where [errno_defs]: "KERNEL_ERROR_ECANCELED = -2147352491"

definition KernelToPosix :: "int \<Rightarrow> int" where
  "KernelToPosix kernel_errno =
     (if kernel_errno > -2147352576 \<and> kernel_errno \<le> -2147352475
      then kernel_errno + 2147352576 else 1062)"

definition PosixToKernel :: "int \<Rightarrow> int" where
  "PosixToKernel posix_errno =
     (if posix_errno \<ge> 0 \<and> posix_errno \<le> 102
      then posix_errno - 2147352576 else KERNEL_ERROR_EINVAL)"

lemma KernelToPosix_PosixToKernel:
  "1 \<le> e \<Longrightarrow> e \<le> 101 \<Longrightarrow> KernelToPosix (PosixToKernel e) = e"
  by (simp add: KernelToPosix_def PosixToKernel_def)

end
