(* ===== verification/Semaphore.thy ===== *)
theory Semaphore
  imports KernelErrors
begin

text \<open>
  The counting semaphore of src/src/kernel/semaphore.cpp (class \<open>KernelSemaPrivate\<close> and the
  \<open>Kernel*Sema\<close> entry points). Every method runs under \<open>m_mutex\<close>; a method that releases the
  mutex (\<open>Wait\<close> in its condition variable) is split there into the part before and the part
  after. The vector of pointers to the waiters' stack objects is a list of those objects,
  identified by their address.
\<close>

section \<open>State\<close>

datatype sema_result = Sema_Ok | Sema_TimedOut | Sema_Canceled | Sema_Deleted | Sema_InvalCount

datatype sema_status = Sema_Status_Set | Sema_Status_Deleted

record waiting_thread =
  wt_addr :: addr
  wt_id :: int
  wt_priority :: int
  wt_need_count :: int
  wt_result :: sema_result
  wt_ready :: bool

record sema =
  sem_status :: sema_status
  sem_waiting_threads :: "waiting_thread list"
  sem_fifo_order :: bool
  sem_count :: int
  sem_init_count :: int
  sem_max_count :: int

definition new_sema :: "bool \<Rightarrow> int \<Rightarrow> int \<Rightarrow> sema" where
  "new_sema fifo init_count max_count =
     \<lparr>sem_status = Sema_Status_Set, sem_waiting_threads = [], sem_fifo_order = fifo,
      sem_count = init_count, sem_init_count = init_count, sem_max_count = max_count\<rparr>"

section \<open>The waiter list\<close>

fun insert_by_priority :: "waiting_thread \<Rightarrow> waiting_thread list \<Rightarrow> waiting_thread list" where
  "insert_by_priority waiter [] = [waiter]"
| "insert_by_priority waiter (it # its) =
     (if wt_priority it \<le> wt_priority waiter then it # insert_by_priority waiter its
      else waiter # it # its)"

definition AddWaiter :: "sema \<Rightarrow> waiting_thread \<Rightarrow> sema" where
  "AddWaiter s waiter =
     (if sem_fifo_order s
      then s\<lparr>sem_waiting_threads := sem_waiting_threads s @ [waiter]\<rparr>
      else s\<lparr>sem_waiting_threads := insert_by_priority waiter (sem_waiting_threads s)\<rparr>)"

fun erase_waiter :: "addr \<Rightarrow> waiting_thread list \<Rightarrow> waiting_thread list" where
  "erase_waiter a [] = []"
| "erase_waiter a (w # ws) = (if wt_addr w = a then ws else w # erase_waiter a ws)"

definition RemoveWaiter :: "sema \<Rightarrow> addr \<Rightarrow> sema" where
  "RemoveWaiter s a = s\<lparr>sem_waiting_threads := erase_waiter a (sem_waiting_threads s)\<rparr>"

fun wake_loop :: "int \<Rightarrow> waiting_thread list \<Rightarrow> int \<times> waiting_thread list" where
  "wake_loop count [] = (count, [])"
| "wake_loop count (w # ws) =
     (if \<not> wt_ready w \<and> wt_need_count w \<le> count
      then let (count', ws') = wake_loop (count - wt_need_count w) ws
           in (count', w\<lparr>wt_result := Sema_Ok, wt_ready := True\<rparr> # ws')
      else let (count', ws') = wake_loop count ws in (count', w # ws'))"

definition WakeWaiters :: "sema \<Rightarrow> sema" where
  "WakeWaiters s =
     (let (count', ws') = wake_loop (sem_count s) (sem_waiting_threads s)
      in s\<lparr>sem_count := count', sem_waiting_threads := ws'\<rparr>)"

definition finish_waiter :: "sema_result \<Rightarrow> waiting_thread \<Rightarrow> waiting_thread" where
  "finish_waiter r w = (if \<not> wt_ready w then w\<lparr>wt_result := r, wt_ready := True\<rparr> else w)"

section \<open>The methods\<close>

text \<open>
  The destructor up to its last loop: it runs once the status is \<open>Set\<close> (the spin before it
  waits for that) and the loop after it waits until the waiter list is empty.
\<close>

definition sema_destroy :: "sema \<Rightarrow> sema" where
  "sema_destroy s = s\<lparr>sem_status := Sema_Status_Deleted,
     sem_waiting_threads := map (finish_waiter Sema_Deleted) (sem_waiting_threads s)\<rparr>"

text \<open>\<open>Cancel\<close>: the third component is what it stores through \<open>num_waiting_threads\<close>, if it does.\<close>

definition sema_Cancel :: "sema \<Rightarrow> int \<Rightarrow> sema \<times> sema_result \<times> int option" where
  "sema_Cancel s set_count =
     (if set_count > sem_max_count s then (s, Sema_InvalCount, None)
      else if sem_status s = Sema_Status_Deleted then (s, Sema_Deleted, None)
      else (s\<lparr>sem_count := (if set_count < 0 then sem_init_count s else set_count),
              sem_waiting_threads := map (finish_waiter Sema_Canceled) (sem_waiting_threads s)\<rparr>,
            Sema_Ok,
            Some (int (length (filter (\<lambda>w. \<not> wt_ready w) (sem_waiting_threads s))))))"

text \<open>
  \<open>Signal\<close>: the sum is a 32-bit \<open>int\<close>, taken to wrap where it overflows. The sign of the count is
  not tested (nor by \<open>KernelSignalSema\<close>).
\<close>

definition sema_Signal :: "sema \<Rightarrow> int \<Rightarrow> sema \<times> sema_result" where
  "sema_Signal s signal_count =
     (if sem_status s = Sema_Status_Deleted then (s, Sema_Deleted)
      else if i32 (sem_count s + signal_count) > sem_max_count s then (s, Sema_InvalCount)
      else (WakeWaiters (s\<lparr>sem_count := i32 (sem_count s + signal_count)\<rparr>), Sema_Ok))"

text \<open>
  \<open>Wait\<close> either returns a result, with the value left in \<open>*ptr_micros\<close>, or blocks in the condition
  variable. \<open>sema_wait_loop\<close> is the loop's test with what follows it; the waiter of a call in
  progress is always in the list, so its first case is not reached (\<open>sema_resume_known\<close>).
\<close>

datatype sema_wait_outcome = Sema_Returned sema_result "u32 option" | Sema_Blocked

definition remaining_micros :: "u32 \<Rightarrow> u32 \<Rightarrow> u32" where
  "remaining_micros micros elapsed = (if elapsed \<ge> micros then 0 else micros - elapsed)"

definition find_waiter :: "sema \<Rightarrow> addr \<Rightarrow> waiting_thread option" where
  "find_waiter s a = find (\<lambda>w. wt_addr w = a) (sem_waiting_threads s)"

definition sema_wait_loop :: "sema \<Rightarrow> addr \<Rightarrow> u32 option \<Rightarrow> u32 \<Rightarrow> sema \<times> sema_wait_outcome" where
  "sema_wait_loop s a ptr_micros elapsed =
     (case find_waiter s a of
        None \<Rightarrow> (s, Sema_Blocked)
      | Some w \<Rightarrow>
          if wt_ready w
          then (RemoveWaiter s a,
                Sema_Returned (wt_result w)
                  (map_option (\<lambda>micros. remaining_micros micros elapsed) ptr_micros))
          else (case ptr_micros of
                  None \<Rightarrow> (s, Sema_Blocked)
                | Some micros \<Rightarrow>
                    if elapsed \<ge> micros
                    then (RemoveWaiter s a, Sema_Returned Sema_TimedOut (Some 0))
                    else (s, Sema_Blocked)))"

definition sema_wait_enter ::
    "sema \<Rightarrow> addr \<Rightarrow> int \<Rightarrow> int \<Rightarrow> int \<Rightarrow> u32 option \<Rightarrow> sema \<times> sema_wait_outcome" where
  "sema_wait_enter s a tid current_priority need_count ptr_micros =
     (if need_count < 1 \<or> need_count > sem_max_count s
      then (s, Sema_Returned Sema_InvalCount ptr_micros)
      else if sem_status s = Sema_Status_Deleted then (s, Sema_Returned Sema_Deleted ptr_micros)
      else if sem_count s \<ge> need_count
      then (s\<lparr>sem_count := sem_count s - need_count\<rparr>, Sema_Returned Sema_Ok ptr_micros)
      else if ptr_micros = Some 0 then (s, Sema_Returned Sema_TimedOut ptr_micros)
      else sema_wait_loop
             (AddWaiter s
                \<lparr>wt_addr = a, wt_id = tid,
                 wt_priority = (if sem_fifo_order s then 0 else current_priority),
                 wt_need_count = need_count, wt_result = Sema_TimedOut, wt_ready = False\<rparr>)
             a ptr_micros 0)"

definition sema_Poll :: "sema \<Rightarrow> addr \<Rightarrow> int \<Rightarrow> int \<Rightarrow> int \<Rightarrow> sema \<times> sema_wait_outcome" where
  "sema_Poll s a tid current_priority need_count =
     sema_wait_enter s a tid current_priority need_count (Some 0)"

section \<open>Entry points\<close>

text \<open>Null pointers are \<open>None\<close>; a created semaphore is returned beside the code.\<close>

definition KernelCreateSema ::
    "bool \<Rightarrow> string option \<Rightarrow> u32 \<Rightarrow> int \<Rightarrow> int \<Rightarrow> (sema option \<times> int) outcome" where
  "KernelCreateSema sem_is_null name attr init_count max_count =
     exit_if sem_is_null
       (if name = None \<or> attr > 2 \<or> init_count < 0 \<or> max_count \<le> 0 \<or> init_count > max_count
        then Inr (None, KERNEL_ERROR_EINVAL)
        else Inr (Some (new_sema (attr = 1) init_count max_count), OK))"

definition wait_sema_code :: "sema_result \<Rightarrow> int" where
  "wait_sema_code r =
     (case r of
        Sema_Ok \<Rightarrow> OK
      | Sema_InvalCount \<Rightarrow> KERNEL_ERROR_EINVAL
      | Sema_TimedOut \<Rightarrow> KERNEL_ERROR_ETIMEDOUT
      | Sema_Canceled \<Rightarrow> KERNEL_ERROR_ECANCELED
      | Sema_Deleted \<Rightarrow> KERNEL_ERROR_EACCES)"

definition poll_sema_code :: "sema_result \<Rightarrow> int" where
  "poll_sema_code r =
     (case r of
        Sema_Ok \<Rightarrow> OK
      | Sema_InvalCount \<Rightarrow> KERNEL_ERROR_EINVAL
      | Sema_TimedOut \<Rightarrow> KERNEL_ERROR_EBUSY
      | Sema_Canceled \<Rightarrow> KERNEL_ERROR_EBUSY
      | Sema_Deleted \<Rightarrow> KERNEL_ERROR_EBUSY)"

definition signal_sema_code :: "sema_result \<Rightarrow> int" where
  "signal_sema_code r =
     (case r of
        Sema_Ok \<Rightarrow> OK
      | Sema_InvalCount \<Rightarrow> KERNEL_ERROR_EINVAL
      | Sema_TimedOut \<Rightarrow> KERNEL_ERROR_EINVAL
      | Sema_Canceled \<Rightarrow> KERNEL_ERROR_EINVAL
      | Sema_Deleted \<Rightarrow> KERNEL_ERROR_EINVAL)"

text \<open>
  \<open>KernelWaitSema\<close> and \<open>KernelPollSema\<close> up to the point where \<open>Wait\<close> returns or blocks:
  \<open>None\<close> as the code while the call is blocked.
\<close>

definition KernelWaitSema ::
    "sema option \<Rightarrow> addr \<Rightarrow> int \<Rightarrow> int \<Rightarrow> int \<Rightarrow> u32 option \<Rightarrow> sema option \<times> int option" where
  "KernelWaitSema sem a tid prio need time =
     (case sem of
        None \<Rightarrow> (None, Some KERNEL_ERROR_ESRCH)
      | Some s \<Rightarrow>
          (case sema_wait_enter s a tid prio need time of
             (s', Sema_Returned r p) \<Rightarrow> (Some s', Some (wait_sema_code r))
           | (s', Sema_Blocked) \<Rightarrow> (Some s', None)))"

definition KernelPollSema ::
    "sema option \<Rightarrow> addr \<Rightarrow> int \<Rightarrow> int \<Rightarrow> int \<Rightarrow> sema option \<times> int option" where
  "KernelPollSema sem a tid prio need =
     (case sem of
        None \<Rightarrow> (None, Some KERNEL_ERROR_ESRCH)
      | Some s \<Rightarrow>
          (case sema_Poll s a tid prio need of
             (s', Sema_Returned r p) \<Rightarrow> (Some s', Some (poll_sema_code r))
           | (s', Sema_Blocked) \<Rightarrow> (Some s', None)))"

definition KernelSignalSema :: "sema option \<Rightarrow> int \<Rightarrow> sema option \<times> int" where
  "KernelSignalSema sem count =
     (case sem of
        None \<Rightarrow> (None, KERNEL_ERROR_ESRCH)
      | Some s \<Rightarrow> (let (s', r) = sema_Signal s count in (Some s', signal_sema_code r)))"

definition KernelCancelSema :: "sema option \<Rightarrow> int \<Rightarrow> sema option \<times> int \<times> int option" where
  "KernelCancelSema sem count =
     (case sem of
        None \<Rightarrow> (None, KERNEL_ERROR_ESRCH, None)
      | Some s \<Rightarrow> (let (s', r, n) = sema_Cancel s count in (Some s', signal_sema_code r, n)))"

definition KernelDeleteSema :: "sema option \<Rightarrow> sema option \<times> int" where
  "KernelDeleteSema sem =
     (case sem of
        None \<Rightarrow> (None, KERNEL_ERROR_ESRCH)
      | Some s \<Rightarrow> (Some (sema_destroy s), OK))"

section \<open>Lemmas on the waiter list\<close>

definition in_flight :: "waiting_thread list \<Rightarrow> int" where
  "in_flight ws = (\<Sum>w\<leftarrow>ws. if wt_ready w \<and> wt_result w = Sema_Ok then wt_need_count w else 0)"

definition waiter_shape :: "waiting_thread \<Rightarrow> addr \<times> int \<times> int" where
  "waiter_shape w = (wt_addr w, wt_priority w, wt_need_count w)"

lemma in_flight_simps [simp]:
  "in_flight [] = 0"
  "in_flight (w # ws) =
     (if wt_ready w \<and> wt_result w = Sema_Ok then wt_need_count w else 0) + in_flight ws"
  "in_flight (ws @ ws') = in_flight ws + in_flight ws'"
  by (simp_all add: in_flight_def)

lemma in_flight_insert [simp]:
  "in_flight (insert_by_priority w ws) = in_flight [w] + in_flight ws"
  by (induction ws) auto

lemma set_insert_by_priority [simp]: "set (insert_by_priority w ws) = insert w (set ws)"
  by (induction ws) auto

lemma distinct_insert_by_priority [simp]:
  "distinct (map wt_addr (insert_by_priority w ws)) \<longleftrightarrow>
     wt_addr w \<notin> wt_addr ` set ws \<and> distinct (map wt_addr ws)"
  by (induction ws) auto

lemma sorted_insert_by_priority:
  "sorted (map wt_priority ws) \<Longrightarrow> sorted (map wt_priority (insert_by_priority w ws))"
  by (induction ws) (auto simp: not_le intro: less_imp_le)

lemma set_erase_eq:
  "distinct (map wt_addr ws) \<Longrightarrow> set (erase_waiter a ws) = {w \<in> set ws. wt_addr w \<noteq> a}"
  by (induction ws) (auto simp: image_iff)

lemma set_erase_subset: "set (erase_waiter a ws) \<subseteq> set ws"
  by (induction ws) auto

lemma addrs_erase_waiter:
  "distinct (map wt_addr ws) \<Longrightarrow> wt_addr ` set (erase_waiter a ws) = wt_addr ` set ws - {a}"
  by (auto simp: set_erase_eq)

lemma distinct_erase_waiter:
  "distinct (map wt_addr ws) \<Longrightarrow> distinct (map wt_addr (erase_waiter a ws))"
  by (induction ws) (use set_erase_subset in \<open>fastforce+\<close>)

lemma sorted_erase_waiter:
  "sorted (map wt_priority ws) \<Longrightarrow> sorted (map wt_priority (erase_waiter a ws))"
  by (induction ws) (use set_erase_subset in \<open>fastforce+\<close>)

lemma in_flight_erase:
  "find (\<lambda>w. wt_addr w = a) ws = Some w \<Longrightarrow>
     in_flight ws = in_flight [w] + in_flight (erase_waiter a ws)"
  by (induction ws) (auto split: if_splits)

lemma length_erase_waiter:
  "find (\<lambda>w. wt_addr w = a) ws = Some w \<Longrightarrow> length ws = Suc (length (erase_waiter a ws))"
  by (induction ws) (auto split: if_splits)

lemma find_waiter_iff:
  assumes "distinct (map wt_addr ws)"
  shows "find (\<lambda>w. wt_addr w = a) ws = Some w \<longleftrightarrow> w \<in> set ws \<and> wt_addr w = a"
  using assms by (induction ws) force+

lemma wake_loop_shape:
  "wake_loop c ws = (c', ws') \<Longrightarrow> map waiter_shape ws' = map waiter_shape ws"
  by (induction c ws arbitrary: c' ws' rule: wake_loop.induct)
     (auto simp: waiter_shape_def split: if_splits prod.splits)

lemma wake_loop_conserves:
  "wake_loop c ws = (c', ws') \<Longrightarrow> c' + in_flight ws' = c + in_flight ws"
  by (induction c ws arbitrary: c' ws' rule: wake_loop.induct)
     (fastforce split: if_splits prod.splits)+

lemma wake_loop_le:
  "wake_loop c ws = (c', ws') \<Longrightarrow> \<forall>w\<in>set ws. 0 \<le> wt_need_count w \<Longrightarrow> c' \<le> c"
  by (induction c ws arbitrary: c' ws' rule: wake_loop.induct)
     (fastforce split: if_splits prod.splits)+

lemma wake_loop_nonneg: "wake_loop c ws = (c', ws') \<Longrightarrow> 0 \<le> c \<Longrightarrow> 0 \<le> c'"
  by (induction c ws arbitrary: c' ws' rule: wake_loop.induct)
     (fastforce split: if_splits prod.splits)+

lemma wake_loop_negative:
  "wake_loop c ws = (c', ws') \<Longrightarrow> \<forall>w\<in>set ws. 0 \<le> wt_need_count w \<Longrightarrow> c < 0 \<Longrightarrow> c' = c"
  by (induction c ws arbitrary: c' ws' rule: wake_loop.induct)
     (fastforce split: if_splits prod.splits)+

text \<open>Where an entry of the woken list comes from: unchanged, or granted.\<close>

lemma wake_loop_entries:
  "wake_loop c ws = (c', ws') \<Longrightarrow> w' \<in> set ws' \<Longrightarrow>
     \<exists>w\<in>set ws. w' = w \<or> \<not> wt_ready w \<and> w' = w\<lparr>wt_result := Sema_Ok, wt_ready := True\<rparr>"
  by (induction c ws arbitrary: c' ws' rule: wake_loop.induct)
     (fastforce split: if_splits prod.splits)+

lemma wake_loop_starved:
  "wake_loop c ws = (c', ws') \<Longrightarrow> \<forall>w\<in>set ws. 0 \<le> wt_need_count w \<Longrightarrow>
     w' \<in> set ws' \<Longrightarrow> \<not> wt_ready w' \<Longrightarrow> c' < wt_need_count w'"
proof (induction c ws arbitrary: c' ws' rule: wake_loop.induct)
  case (1 c)
  then show ?case by simp
next
  case (2 c w ws)
  show ?case
  proof (cases "\<not> wt_ready w \<and> wt_need_count w \<le> c")
    case True
    with 2 show ?thesis by (auto split: prod.splits)
  next
    case False
    then obtain d vs where d: "wake_loop c ws = (d, vs)" "c' = d" "ws' = w # vs"
      using "2.prems"(1) by (auto split: prod.splits)
    moreover have "d \<le> c"
      using d(1) "2.prems"(2) by (auto intro: wake_loop_le)
    ultimately show ?thesis
      using 2 False by auto
  qed
qed

section \<open>The object invariant\<close>

definition waiter_ok :: "sema \<Rightarrow> waiting_thread \<Rightarrow> bool" where
  "waiter_ok s w \<longleftrightarrow>
     1 \<le> wt_need_count w \<and> wt_need_count w \<le> sem_max_count s \<and>
     (\<not> wt_ready w \<longrightarrow> sem_count s < wt_need_count w \<and> wt_result w = Sema_TimedOut) \<and>
     (wt_ready w \<longrightarrow> wt_result w \<in> {Sema_Ok, Sema_Canceled, Sema_Deleted})"

definition sema_ok :: "sema \<Rightarrow> bool" where
  "sema_ok s \<longleftrightarrow>
     - 2147483648 \<le> sem_count s \<and> sem_count s \<le> sem_max_count s \<and>
     0 \<le> sem_init_count s \<and> sem_init_count s \<le> sem_max_count s \<and>
     distinct (map wt_addr (sem_waiting_threads s)) \<and>
     (\<forall>w\<in>set (sem_waiting_threads s). waiter_ok s w) \<and>
     (sem_status s = Sema_Status_Deleted \<longrightarrow> (\<forall>w\<in>set (sem_waiting_threads s). wt_ready w)) \<and>
     (\<not> sem_fifo_order s \<longrightarrow> sorted (map wt_priority (sem_waiting_threads s)))"

abbreviation sema_addrs :: "sema \<Rightarrow> addr set" where
  "sema_addrs s \<equiv> wt_addr ` set (sem_waiting_threads s)"

lemma create_sema_ok:
  "KernelCreateSema n name attr i m = Inr (Some s, c) \<Longrightarrow>
     sema_ok s \<and> sem_waiting_threads s = [] \<and> sem_count s = i \<and> 0 \<le> i"
  by (auto simp: KernelCreateSema_def new_sema_def sema_ok_def split: if_splits)

lemma map_shapeD:
  assumes "map waiter_shape ws' = map waiter_shape ws"
  shows "map wt_addr ws' = map wt_addr ws" and "map wt_priority ws' = map wt_priority ws"
    and "map wt_need_count ws' = map wt_need_count ws"
  using arg_cong [OF assms, of "map fst"] arg_cong [OF assms, of "map (fst \<circ> snd)"]
    arg_cong [OF assms, of "map (snd \<circ> snd)"]
  by (simp_all add: comp_def waiter_shape_def)

lemma finish_waiter_simps [simp]:
  "wt_addr (finish_waiter r w) = wt_addr w"
  "wt_priority (finish_waiter r w) = wt_priority w"
  "wt_need_count (finish_waiter r w) = wt_need_count w"
  "wt_ready (finish_waiter r w)"
  "wt_result (finish_waiter r w) = (if wt_ready w then wt_result w else r)"
  by (simp_all add: finish_waiter_def)

lemma in_flight_finish:
  "r \<noteq> Sema_Ok \<Longrightarrow> in_flight (map (finish_waiter r) ws) = in_flight ws"
  by (induction ws) (auto simp: finish_waiter_def)

lemma sema_Signal_accepted:
  assumes ok: "sema_ok s" and sig: "sema_Signal s n = (s', Sema_Ok)"
  obtains c' ws' where "wake_loop (i32 (sem_count s + n)) (sem_waiting_threads s) = (c', ws')"
    and "s' = s\<lparr>sem_count := c', sem_waiting_threads := ws'\<rparr>"
    and "i32 (sem_count s + n) \<le> sem_max_count s" and "sem_status s = Sema_Status_Set"
    and "\<forall>w\<in>set (sem_waiting_threads s). 0 \<le> wt_need_count w"
proof -
  obtain c' ws' where wl: "wake_loop (i32 (sem_count s + n)) (sem_waiting_threads s) = (c', ws')"
    by fastforce
  have "\<forall>w\<in>set (sem_waiting_threads s). 0 \<le> wt_need_count w"
    using ok by (auto simp: sema_ok_def waiter_ok_def)
  with wl that sig show thesis
    by (cases "sem_status s") (auto simp: sema_Signal_def WakeWaiters_def split: if_splits)
qed

lemma sema_Signal_ok:
  assumes ok: "sema_ok s" and sig: "sema_Signal s n = (s', r)"
  shows "sema_ok s'"
proof (cases "r = Sema_Ok")
  case False
  with ok sig show ?thesis by (auto simp: sema_Signal_def split: if_splits)
next
  case True
  let ?c = "i32 (sem_count s + n)"
  obtain c' ws' where wl: "wake_loop ?c (sem_waiting_threads s) = (c', ws')"
    and s': "s' = s\<lparr>sem_count := c', sem_waiting_threads := ws'\<rparr>"
    and le: "?c \<le> sem_max_count s" and st: "sem_status s = Sema_Status_Set"
    and pos: "\<forall>w\<in>set (sem_waiting_threads s). 0 \<le> wt_need_count w"
    using sema_Signal_accepted [OF ok] sig True by metis
  have bounds: "- 2147483648 \<le> c'" "c' \<le> ?c"
    using wake_loop_nonneg [OF wl] wake_loop_negative [OF wl pos] wake_loop_le [OF wl pos]
      i32_range [of "sem_count s + n"] by linarith+
  have "waiter_ok s' w" if w: "w \<in> set ws'" for w
    using wake_loop_entries [OF wl w] wake_loop_starved [OF wl pos w] ok s'
    by (auto simp: sema_ok_def waiter_ok_def)
  then show ?thesis
    using ok s' le st bounds map_shapeD [OF wake_loop_shape [OF wl]] by (auto simp: sema_ok_def)
qed

text \<open>A signal that is neither negative nor overflowing keeps the count from going below zero.\<close>

definition regular_signal :: "sema \<Rightarrow> int \<Rightarrow> sema_result \<Rightarrow> bool" where
  "regular_signal s n r \<longleftrightarrow> (r = Sema_Ok \<longrightarrow> 0 \<le> n \<and> sem_count s + n \<le> 2147483647)"

lemma sema_Signal_nonneg:
  assumes "sema_Signal s n = (s', r)" "0 \<le> sem_count s" "regular_signal s n r"
  shows "0 \<le> sem_count s'"
  using assms wake_loop_nonneg
  by (auto simp: sema_Signal_def WakeWaiters_def regular_signal_def i32_ident
      split: if_splits prod.splits)

lemma sema_Signal_addrs: "sema_Signal s n = (s', r) \<Longrightarrow>
    map wt_addr (sem_waiting_threads s') = map wt_addr (sem_waiting_threads s) \<and>
    map wt_need_count (sem_waiting_threads s') = map wt_need_count (sem_waiting_threads s)"
  by (auto simp: sema_Signal_def WakeWaiters_def split: if_splits prod.splits
      dest!: wake_loop_shape dest: map_shapeD)

lemma sema_Signal_conserves:
  "sema_Signal s n = (s', r) \<Longrightarrow>
     sem_count s' + in_flight (sem_waiting_threads s') =
     (if r = Sema_Ok then i32 (sem_count s + n) else sem_count s) + in_flight (sem_waiting_threads s)"
  by (auto simp: sema_Signal_def WakeWaiters_def split: if_splits prod.splits
      dest!: wake_loop_conserves)

lemma waiter_ok_finish:
  "waiter_ok s w \<Longrightarrow> sem_max_count s' = sem_max_count s \<Longrightarrow> r \<in> {Sema_Canceled, Sema_Deleted} \<Longrightarrow>
     waiter_ok s' (finish_waiter r w)"
  by (auto simp: waiter_ok_def)

lemma sema_Cancel_ok: "sema_ok s \<Longrightarrow> sema_Cancel s c = (s', r, k) \<Longrightarrow> sema_ok s'"
  by (auto simp: sema_Cancel_def sema_ok_def comp_def split: if_splits
      intro!: waiter_ok_finish [where s = s])

lemma sema_Cancel_frame:
  "sema_Cancel s c = (s', r, k) \<Longrightarrow>
     map wt_addr (sem_waiting_threads s') = map wt_addr (sem_waiting_threads s) \<and>
     map wt_need_count (sem_waiting_threads s') = map wt_need_count (sem_waiting_threads s) \<and>
     in_flight (sem_waiting_threads s') = in_flight (sem_waiting_threads s)"
  by (auto simp: sema_Cancel_def comp_def in_flight_finish split: if_splits)

lemma sema_destroy_ok: "sema_ok s \<Longrightarrow> sema_ok (sema_destroy s)"
  by (auto simp: sema_destroy_def sema_ok_def comp_def intro!: waiter_ok_finish [where s = s])

lemma RemoveWaiter_ok: "sema_ok s \<Longrightarrow> sema_ok (RemoveWaiter s a)"
  using set_erase_subset [of a "sem_waiting_threads s"]
  by (auto simp: RemoveWaiter_def sema_ok_def waiter_ok_def distinct_erase_waiter
      sorted_erase_waiter subset_iff)

lemma AddWaiter_ok:
  assumes "sema_ok s" "wt_addr w \<notin> sema_addrs s" "waiter_ok s w"
    and "sem_status s \<noteq> Sema_Status_Deleted"
  shows "sema_ok (AddWaiter s w)"
  using assms
  by (auto simp: AddWaiter_def sema_ok_def waiter_ok_def intro!: sorted_insert_by_priority)

lemma sema_wait_loop_ok:
  "sema_ok s \<Longrightarrow> sema_wait_loop s a p e = (s', out) \<Longrightarrow> sema_ok s'"
  by (auto simp: sema_wait_loop_def split: option.splits if_splits intro: RemoveWaiter_ok)

lemma sema_wait_enter_ok:
  assumes "sema_ok s" "a \<notin> sema_addrs s" "sema_wait_enter s a tid prio need p = (s', out)"
  shows "sema_ok s'"
  using assms
  by (auto simp: sema_wait_enter_def split: if_splits
      elim!: sema_wait_loop_ok [rotated] intro!: AddWaiter_ok)
     (auto simp: sema_ok_def waiter_ok_def)

section \<open>The semaphore among its callers\<close>

text \<open>
  The state of a run: the object, the calls blocked in \<open>Wait\<close> (by the address of their waiter,
  with the count they need and their timeout), and what only the statements read:
  the units put into the semaphore (its initial count, accepted signals, and the changes made by
  \<open>Cancel\<close>) and the units handed to calls that returned \<open>Ok\<close>. A blocked call may look at its
  waiter again at any time and with any elapsed time: the condition variable is signalled,
  polls every \<open>SIGNAL_APC_POLL_MICROS\<close> or times out. Signals carry any count; \<open>sys_regular\<close> tells
  whether every signal accepted so far was non-negative and did not overflow the count.
\<close>

record sema_sys =
  sys_sema :: sema
  sys_pending :: "addr \<rightharpoonup> (int \<times> u32 option)"
  sys_posted :: int
  sys_acquired :: int
  sys_regular :: bool

definition acquired_by :: "sema_result \<Rightarrow> int \<Rightarrow> int" where
  "acquired_by r need = (if r = Sema_Ok then need else 0)"

definition sema_init :: "sema_sys \<Rightarrow> bool" where
  "sema_init y \<longleftrightarrow>
     (\<exists>name attr i m. KernelCreateSema False (Some name) attr i m = Inr (Some (sys_sema y), OK)
        \<and> sys_posted y = i) \<and>
     sys_pending y = Map.empty \<and> sys_acquired y = 0 \<and> sys_regular y"

inductive sema_step :: "sema_sys \<Rightarrow> sema_sys \<Rightarrow> bool" where
  call_return:
    "sys_pending y a = None \<Longrightarrow>
     sema_wait_enter (sys_sema y) a tid prio need p = (s', Sema_Returned r p') \<Longrightarrow>
     sema_step y (y\<lparr>sys_sema := s', sys_acquired := sys_acquired y + acquired_by r need\<rparr>)"
| call_block:
    "sys_pending y a = None \<Longrightarrow>
     sema_wait_enter (sys_sema y) a tid prio need p = (s', Sema_Blocked) \<Longrightarrow>
     sema_step y (y\<lparr>sys_sema := s', sys_pending := (sys_pending y)(a \<mapsto> (need, p))\<rparr>)"
| resume_return:
    "sys_pending y a = Some (need, p) \<Longrightarrow>
     sema_wait_loop (sys_sema y) a p elapsed = (s', Sema_Returned r p') \<Longrightarrow>
     sema_step y (y\<lparr>sys_sema := s', sys_pending := (sys_pending y)(a := None),
                    sys_acquired := sys_acquired y + acquired_by r need\<rparr>)"
| resume_block:
    "sys_pending y a = Some (need, p) \<Longrightarrow>
     sema_wait_loop (sys_sema y) a p elapsed = (s', Sema_Blocked) \<Longrightarrow>
     sema_step y (y\<lparr>sys_sema := s'\<rparr>)"
| signal:
    "sema_Signal (sys_sema y) n = (s', r) \<Longrightarrow>
     sema_step y (y\<lparr>sys_sema := s', sys_posted := sys_posted y + acquired_by r n,
                    sys_regular := sys_regular y \<and> regular_signal (sys_sema y) n r\<rparr>)"
| cancel:
    "sema_Cancel (sys_sema y) c = (s', r, k) \<Longrightarrow>
     sema_step y (y\<lparr>sys_sema := s',
                    sys_posted := sys_posted y + (sem_count s' - sem_count (sys_sema y))\<rparr>)"
| destroy:
    "sem_status (sys_sema y) = Sema_Status_Set \<Longrightarrow>
     sema_step y (y\<lparr>sys_sema := sema_destroy (sys_sema y)\<rparr>)"

definition waiter_keys :: "waiting_thread list \<Rightarrow> (addr \<times> int) set" where
  "waiter_keys ws = (\<lambda>w. (wt_addr w, wt_need_count w)) ` set ws"

definition units_out :: "sema_sys \<Rightarrow> int" where
  "units_out y =
     sem_count (sys_sema y) + in_flight (sem_waiting_threads (sys_sema y)) + sys_acquired y"

definition sema_sys_inv :: "sema_sys \<Rightarrow> bool" where
  "sema_sys_inv y \<longleftrightarrow>
     sema_ok (sys_sema y) \<and>
     waiter_keys (sem_waiting_threads (sys_sema y)) = Map.graph (map_option fst \<circ> sys_pending y) \<and>
     4294967296 dvd units_out y - sys_posted y \<and>
     (sys_regular y \<longrightarrow> 0 \<le> sem_count (sys_sema y) \<and> units_out y = sys_posted y)"

lemma waiter_keys_maps:
  assumes "map wt_addr ws' = map wt_addr ws" "map wt_need_count ws' = map wt_need_count ws"
  shows "waiter_keys ws' = waiter_keys ws"
proof -
  have "zip (map wt_addr ws') (map wt_need_count ws') = zip (map wt_addr ws) (map wt_need_count ws)"
    using assms by simp
  then have "map (\<lambda>w. (wt_addr w, wt_need_count w)) ws' = map (\<lambda>w. (wt_addr w, wt_need_count w)) ws"
    by (simp add: zip_map_map zip_same_conv_map comp_def)
  then show ?thesis
    unfolding waiter_keys_def by (metis list.set_map)
qed

lemma waiter_keys_erase:
  "distinct (map wt_addr ws) \<Longrightarrow>
     waiter_keys (erase_waiter a ws) = {k \<in> waiter_keys ws. fst k \<noteq> a}"
  unfolding waiter_keys_def by (simp only: set_erase_eq) force

lemma waiter_keys_addrs: "wt_addr ` set ws = fst ` waiter_keys ws"
  by (simp add: waiter_keys_def image_image)

lemma sema_sys_addrs:
  "sema_sys_inv y \<Longrightarrow> sema_addrs (sys_sema y) = dom (sys_pending y)"
  by (auto simp: sema_sys_inv_def waiter_keys_addrs Map.graph_def image_iff dom_def)

text \<open>A call in progress finds its waiter in the list, with the count it asked for.\<close>

lemma sema_resume_known:
  assumes "sema_sys_inv y" "sys_pending y a = Some (need, p)"
  obtains w where "find_waiter (sys_sema y) a = Some w" "wt_need_count w = need" "wt_addr w = a"
    and "w \<in> set (sem_waiting_threads (sys_sema y))"
proof -
  have "(a, need) \<in> waiter_keys (sem_waiting_threads (sys_sema y))"
    using assms by (auto simp: sema_sys_inv_def Map.graph_def)
  then obtain w where "w \<in> set (sem_waiting_threads (sys_sema y))" "wt_addr w = a"
    "wt_need_count w = need"
    by (auto simp: waiter_keys_def)
  with assms(1) that show thesis
    by (auto simp: find_waiter_def find_waiter_iff sema_sys_inv_def sema_ok_def)
qed

text \<open>What a return of a blocked call does to the object.\<close>

lemma sema_wait_loop_returned:
  assumes "sema_ok s" "find_waiter s a = Some w" "sema_wait_loop s a p e = (s', Sema_Returned r p')"
  shows "s' = RemoveWaiter s a" and "r = (if wt_ready w then wt_result w else Sema_TimedOut)"
    and "sem_count s' = sem_count s"
    and "in_flight (sem_waiting_threads s) =
           acquired_by r (wt_need_count w) + in_flight (sem_waiting_threads s')"
  using assms in_flight_erase [of a "sem_waiting_threads s" w]
  by (auto simp: sema_wait_loop_def RemoveWaiter_def find_waiter_def acquired_by_def
      split: if_splits option.splits)

lemma sema_wait_loop_blocked: "sema_wait_loop s a p e = (s', Sema_Blocked) \<Longrightarrow> s' = s"
  by (auto simp: sema_wait_loop_def split: if_splits option.splits)

lemma find_added:
  assumes "sema_ok s" "a \<notin> sema_addrs s" "wt_addr w = a"
  shows "find_waiter (AddWaiter s w) a = Some w"
  using assms by (auto simp: find_waiter_def AddWaiter_def find_waiter_iff sema_ok_def)

lemma AddWaiter_simps [simp]:
  "set (sem_waiting_threads (AddWaiter s w)) = insert w (set (sem_waiting_threads s))"
  "in_flight (sem_waiting_threads (AddWaiter s w)) =
     in_flight [w] + in_flight (sem_waiting_threads s)"
  "sem_count (AddWaiter s w) = sem_count s"
  by (auto simp: AddWaiter_def)

lemma waiter_keys_Add [simp]:
  "waiter_keys (sem_waiting_threads (AddWaiter s w)) =
     insert (wt_addr w, wt_need_count w) (waiter_keys (sem_waiting_threads s))"
  by (simp add: waiter_keys_def)

lemma sema_wait_enter_cases:
  assumes "sema_ok s" "a \<notin> sema_addrs s" "sema_wait_enter s a tid prio need p = (s', out)"
  obtains (returned) r where "out = Sema_Returned r p" "r \<noteq> Sema_Ok" "s' = s"
  | (taken) "out = Sema_Returned Sema_Ok p" "s' = s\<lparr>sem_count := sem_count s - need\<rparr>"
      "need \<le> sem_count s"
  | (queued) w where "out = Sema_Blocked" "s' = AddWaiter s w" "wt_addr w = a"
      "wt_need_count w = need" "\<not> wt_ready w" "p \<noteq> Some 0"
proof -
  have "sema_wait_loop (AddWaiter s w) a p 0 = (AddWaiter s w, Sema_Blocked)"
    if "wt_addr w = a" "\<not> wt_ready w" "p \<noteq> Some 0" for w
    using that find_added [OF assms(1,2) that(1)]
    by (auto simp: sema_wait_loop_def split: option.splits)
  with assms(3) returned taken queued show thesis
    by (auto simp: sema_wait_enter_def split: if_splits)
qed

lemma graph_upd_fresh:
  "m a = None \<Longrightarrow>
     Map.graph (map_option fst \<circ> m(a \<mapsto> v)) = insert (a, fst v) (Map.graph (map_option fst \<circ> m))"
  by (auto simp: Map.graph_def split: if_splits)

lemma comp_drop_none: "m a = None \<Longrightarrow> (map_option f \<circ> m)(a := None) = map_option f \<circ> m"
  by auto

lemma graph_del:
  "Map.graph (map_option fst \<circ> m(a := None)) =
     {k \<in> Map.graph (map_option fst \<circ> m). fst k \<noteq> a}"
  by (auto simp: Map.graph_def split: if_splits)

lemma sema_Cancel_nonneg:
  "sema_ok s \<Longrightarrow> sema_Cancel s c = (s', r, k) \<Longrightarrow> 0 \<le> sem_count s \<Longrightarrow> 0 \<le> sem_count s'"
  by (auto simp: sema_Cancel_def sema_ok_def split: if_splits)

lemma sema_Signal_units:
  assumes sig: "sema_Signal (sys_sema y) n = (s', r)"
    and z: "z = y\<lparr>sys_sema := s', sys_posted := sys_posted y + acquired_by r n, sys_regular := b\<rparr>"
  shows "4294967296 dvd units_out y - sys_posted y \<Longrightarrow> 4294967296 dvd units_out z - sys_posted z"
    and "units_out y = sys_posted y \<Longrightarrow> regular_signal (sys_sema y) n r \<Longrightarrow>
           0 \<le> sem_count (sys_sema y) \<Longrightarrow> units_out z = sys_posted z"
proof -
  let ?c = "sem_count (sys_sema y) + n"
  have z_eq: "units_out z - sys_posted z =
      units_out y - sys_posted y + (if r = Sema_Ok then i32 ?c - ?c else 0)"
    using sema_Signal_conserves [OF sig] z by (simp add: units_out_def acquired_by_def)
  then show "4294967296 dvd units_out y - sys_posted y \<Longrightarrow> 4294967296 dvd units_out z - sys_posted z"
    using i32_cong [of ?c] by (simp add: dvd_add)
  show "units_out z = sys_posted z" if "units_out y = sys_posted y"
    "regular_signal (sys_sema y) n r" "0 \<le> sem_count (sys_sema y)"
    using z_eq that i32_ident [of ?c] by (auto simp: regular_signal_def split: if_splits)
qed

lemma sema_step_inv:
  assumes inv: "sema_sys_inv y" and step: "sema_step y z"
  shows "sema_sys_inv z"
  using step
proof cases
  case (call_return a tid prio need p s' r p')
  from inv call_return(2) have fresh: "a \<notin> sema_addrs (sys_sema y)"
    by (auto simp: sema_sys_addrs)
  from inv have ok: "sema_ok (sys_sema y)" by (simp add: sema_sys_inv_def)
  note ok' = sema_wait_enter_ok [OF ok fresh call_return(3)]
  show ?thesis
    using sema_wait_enter_cases [OF ok fresh call_return(3)] call_return(1) inv ok'
    by cases (auto simp: sema_sys_inv_def units_out_def acquired_by_def algebra_simps)
next
  case (call_block a tid prio need p s')
  from inv call_block(2) have fresh: "a \<notin> sema_addrs (sys_sema y)"
    by (auto simp: sema_sys_addrs)
  moreover from inv have ok: "sema_ok (sys_sema y)" by (simp add: sema_sys_inv_def)
  ultimately obtain w where "s' = AddWaiter (sys_sema y) w" "wt_addr w = a"
    "wt_need_count w = need" "\<not> wt_ready w"
    using sema_wait_enter_cases [OF _ _ call_block(3)] by blast
  with inv call_block sema_wait_enter_ok [OF ok fresh call_block(3)] show ?thesis
    by (simp add: sema_sys_inv_def units_out_def graph_upd_fresh comp_drop_none)
next
  case (resume_return a need p elapsed s' r p')
  from inv have ok: "sema_ok (sys_sema y)" by (simp add: sema_sys_inv_def)
  obtain w where w: "find_waiter (sys_sema y) a = Some w" "wt_need_count w = need"
    using sema_resume_known [OF inv resume_return(2)] by blast
  note ret = sema_wait_loop_returned [OF ok w(1) resume_return(3)]
  show ?thesis
    using inv resume_return ret w(2) sema_wait_loop_ok [OF ok resume_return(3)]
    by (auto simp: sema_sys_inv_def units_out_def graph_del RemoveWaiter_def waiter_keys_erase
        sema_ok_def algebra_simps)
next
  case (resume_block a need p elapsed s')
  with inv show ?thesis
    using sema_wait_loop_blocked [OF resume_block(3)] by (simp add: sema_sys_inv_def units_out_def)
next
  case (signal n s' r)
  from inv have ok: "sema_ok (sys_sema y)" by (simp add: sema_sys_inv_def)
  have "waiter_keys (sem_waiting_threads s') = waiter_keys (sem_waiting_threads (sys_sema y))"
    using sema_Signal_addrs [OF signal(2)] by (intro waiter_keys_maps) auto
  moreover have "4294967296 dvd units_out z - sys_posted z"
    and "sys_regular z \<longrightarrow> 0 \<le> sem_count (sys_sema z) \<and> units_out z = sys_posted z"
    using sema_Signal_units [OF signal(2)] sema_Signal_nonneg [OF signal(2)] inv signal(1)
    by (auto simp: sema_sys_inv_def)
  ultimately show ?thesis
    using inv signal(1) sema_Signal_ok [OF ok signal(2)] by (simp add: sema_sys_inv_def)
next
  case (cancel c s' r k)
  from inv have ok: "sema_ok (sys_sema y)" by (simp add: sema_sys_inv_def)
  have "waiter_keys (sem_waiting_threads s') = waiter_keys (sem_waiting_threads (sys_sema y))"
    using sema_Cancel_frame [OF cancel(2)] by (intro waiter_keys_maps) auto
  then show ?thesis
    using inv cancel(1) sema_Cancel_ok [OF ok cancel(2)] sema_Cancel_frame [OF cancel(2)]
      sema_Cancel_nonneg [OF ok cancel(2)]
    by (simp add: sema_sys_inv_def units_out_def algebra_simps)
next
  case destroy
  let ?s = "sys_sema y"
  have "waiter_keys (sem_waiting_threads (sema_destroy ?s)) = waiter_keys (sem_waiting_threads ?s)"
    by (rule waiter_keys_maps) (simp_all add: sema_destroy_def comp_def)
  moreover have "in_flight (sem_waiting_threads (sema_destroy ?s)) = in_flight (sem_waiting_threads ?s)"
    and "sem_count (sema_destroy ?s) = sem_count ?s"
    by (simp_all add: sema_destroy_def in_flight_finish)
  ultimately show ?thesis
    using inv destroy sema_destroy_ok [of ?s] by (simp add: sema_sys_inv_def units_out_def)
qed

lemma sema_init_inv: "sema_init y \<Longrightarrow> sema_sys_inv y"
  by (auto simp: sema_init_def sema_sys_inv_def units_out_def waiter_keys_def Map.graph_def
      dest!: create_sema_ok)

interpretation semaphore: step_invariant sema_init sema_step sema_sys_inv
  by unfold_locales (auto intro: sema_init_inv sema_step_inv)

abbreviation sema_reachable :: "sema_sys \<Rightarrow> bool" where
  "sema_reachable \<equiv> reachable sema_init sema_step"

text \<open>With unit needs, waking drops the first unfinished waiters, in queue order.\<close>

lemma wake_loop_units:
  "wake_loop c ws = (c', ws') \<Longrightarrow> \<forall>w\<in>set ws. wt_need_count w = 1 \<Longrightarrow> 0 \<le> c \<Longrightarrow>
     map wt_addr (filter (\<lambda>w. \<not> wt_ready w) ws') =
     drop (nat c) (map wt_addr (filter (\<lambda>w. \<not> wt_ready w) ws))"
proof (induction c ws arbitrary: c' ws' rule: wake_loop.induct)
  case (1 c)
  then show ?case by simp
next
  case (2 c w ws)
  show ?case
  proof (cases "\<not> wt_ready w \<and> wt_need_count w \<le> c")
    case True
    with "2.prems" have "1 \<le> c" by simp
    then obtain k where k: "nat c = Suc k" "nat (c - 1) = k"
      by (metis Suc_nat_eq_nat_zadd1 diff_add_cancel diff_ge_0_iff_ge add.commute)
    with True 2 show ?thesis by (auto split: prod.splits)
  next
    case False
    with 2 show ?thesis by (auto split: prod.splits)
  qed
qed

section \<open>Properties\<close>

text \<open>A run used by the witnesses: a semaphore of at most 2 units, empty, with one blocked call.\<close>

definition sema_example_waiter :: waiting_thread where
  "sema_example_waiter = \<lparr>wt_addr = 7, wt_id = 1, wt_priority = 0, wt_need_count = 1,
     wt_result = Sema_TimedOut, wt_ready = False\<rparr>"

definition sema_example :: sema_sys where
  "sema_example = \<lparr>sys_sema = AddWaiter (new_sema True 0 2) sema_example_waiter,
     sys_pending = [7 \<mapsto> (1, None)], sys_posted = 0, sys_acquired = 0, sys_regular = True\<rparr>"

lemma sema_example_start: "sema_init \<lparr>sys_sema = new_sema True 0 2, sys_pending = Map.empty,
     sys_posted = 0, sys_acquired = 0, sys_regular = True\<rparr>"
proof -
  have "KernelCreateSema False (Some []) 1 0 2 = Inr (Some (new_sema True 0 2), OK)"
    by (simp add: KernelCreateSema_def)
  then show ?thesis
    unfolding sema_init_def by force
qed

lemma sema_example_reachable: "sema_reachable sema_example"
proof -
  let ?y = "\<lparr>sys_sema = new_sema True 0 2, sys_pending = Map.empty,
     sys_posted = 0, sys_acquired = 0, sys_regular = True\<rparr>"
  have "sema_wait_enter (sys_sema ?y) 7 1 700 1 None = (sys_sema sema_example, Sema_Blocked)"
    by (simp add: sema_wait_enter_def new_sema_def sema_wait_loop_def find_waiter_def
        AddWaiter_def sema_example_def sema_example_waiter_def)
  then have "sema_step ?y sema_example"
    using call_block [of ?y 7 1 700 1 None "sys_sema sema_example"]
    by (simp add: sema_example_def)
  with sema_example_start show ?thesis
    by (blast intro: reachable.intros)
qed

text \<open>
  C3: no lost wakeup. In every reachable state, a waiter that has not been released needs more
  units than the semaphore holds: whatever signals, cancels, timeouts and competing waits came
  before, no blocked call could have been satisfied from the current count.
\<close>

theorem sema_no_lost_wakeup:
  assumes "sema_reachable y" and "w \<in> set (sem_waiting_threads (sys_sema y))" and "\<not> wt_ready w"
  shows "sem_count (sys_sema y) < wt_need_count w"
  using semaphore.reachable_inv [OF assms(1)] assms(2,3)
  by (auto simp: sema_sys_inv_def sema_ok_def waiter_ok_def)

theorem sema_no_lost_wakeup_witness:
  "sem_count (sys_sema sema_example) < wt_need_count sema_example_waiter"
  by (rule sema_no_lost_wakeup [OF sema_example_reachable])
     (simp_all add: sema_example_def sema_example_waiter_def)

text \<open>
  C18: units are conserved. In every reachable state the count is at most the maximum and not below
  the smallest \<open>int\<close>, and the units in the semaphore, the units granted to waiters that have not
  returned yet and the units of calls that returned \<open>OK\<close> add up, modulo \<open>2 ^ 32\<close>, to the units put
  in. They add up exactly and the count is not negative as long as no accepted signal was negative
  or overflowed the count (\<open>sys_regular\<close>): \<open>KernelSignalSema\<close> refuses neither.
\<close>

theorem sema_units_conserved:
  assumes "sema_reachable y"
  shows "- 2147483648 \<le> sem_count (sys_sema y) \<and>
         sem_count (sys_sema y) \<le> sem_max_count (sys_sema y) \<and>
         4294967296 dvd sem_count (sys_sema y) + in_flight (sem_waiting_threads (sys_sema y)) +
           sys_acquired y - sys_posted y \<and>
         (sys_regular y \<longrightarrow>
            0 \<le> sem_count (sys_sema y) \<and>
            sem_count (sys_sema y) + in_flight (sem_waiting_threads (sys_sema y)) + sys_acquired y =
              sys_posted y)"
  using semaphore.reachable_inv [OF assms] by (simp add: sema_sys_inv_def sema_ok_def units_out_def)

theorem sema_units_conserved_witness:
  "sem_count (sys_sema sema_example) + in_flight (sem_waiting_threads (sys_sema sema_example)) +
     sys_acquired sema_example = sys_posted sema_example"
  using sema_units_conserved [OF sema_example_reachable] by (simp add: sema_example_def)

text \<open>
  A signal serves the queue in order. When every waiter needs one unit, an accepted signal of
  \<open>n\<close> leaves blocked exactly the waiters behind the first \<open>count + n\<close> unfinished ones.
\<close>

theorem sema_signal_in_order:
  assumes "sema_Signal s n = (s', Sema_Ok)" and "0 \<le> sem_count s + n" "sem_count s + n \<le> 2147483647"
    and "\<forall>w\<in>set (sem_waiting_threads s). wt_need_count w = 1"
  shows "map wt_addr (filter (\<lambda>w. \<not> wt_ready w) (sem_waiting_threads s')) =
         drop (nat (sem_count s + n))
           (map wt_addr (filter (\<lambda>w. \<not> wt_ready w) (sem_waiting_threads s)))"
  using assms wake_loop_units
  by (auto simp: sema_Signal_def WakeWaiters_def i32_ident split: if_splits prod.splits)

theorem sema_signal_in_order_witness:
  "map wt_addr (filter (\<lambda>w. \<not> wt_ready w)
     (sem_waiting_threads (fst (sema_Signal (sys_sema sema_example) 1)))) = []"
  using sema_signal_in_order [of "sys_sema sema_example" 1
      "fst (sema_Signal (sys_sema sema_example) 1)"]
  by (simp add: sema_example_def sema_example_waiter_def new_sema_def AddWaiter_def
      sema_Signal_def WakeWaiters_def i32_ident)

text \<open>
  Deletion drains the queue. Once the destructor has marked the object deleted, every call
  still blocked returns at its next look, with the result it was released with, and takes its
  waiter out of the list the destructor is waiting on.
\<close>

theorem sema_delete_drains:
  assumes "sema_reachable y" and "sem_status (sys_sema y) = Sema_Status_Deleted"
    and "sys_pending y a = Some (need, p)"
  shows "\<exists>r p' s'. sema_wait_loop (sys_sema y) a p elapsed = (s', Sema_Returned r p') \<and>
           r \<in> {Sema_Ok, Sema_Canceled, Sema_Deleted} \<and>
           Suc (length (sem_waiting_threads s')) = length (sem_waiting_threads (sys_sema y))"
proof -
  from assms(1) have inv: "sema_sys_inv y" by (rule semaphore.reachable_inv)
  then obtain w where w: "find_waiter (sys_sema y) a = Some w"
    "w \<in> set (sem_waiting_threads (sys_sema y))"
    using assms(3) by (rule sema_resume_known)
  with inv assms(2) have "wt_ready w" "wt_result w \<in> {Sema_Ok, Sema_Canceled, Sema_Deleted}"
    by (auto simp: sema_sys_inv_def sema_ok_def waiter_ok_def)
  with w(1) show ?thesis
    using length_erase_waiter [of a "sem_waiting_threads (sys_sema y)" w]
    by (simp add: sema_wait_loop_def RemoveWaiter_def find_waiter_def)
qed

theorem sema_delete_drains_witness:
  "\<exists>r p' s'. sema_wait_loop (sema_destroy (sys_sema sema_example)) 7 None 0 =
       (s', Sema_Returned r p') \<and> r \<in> {Sema_Ok, Sema_Canceled, Sema_Deleted} \<and>
     Suc (length (sem_waiting_threads s')) =
       length (sem_waiting_threads (sema_destroy (sys_sema sema_example)))"
proof -
  let ?z = "sema_example\<lparr>sys_sema := sema_destroy (sys_sema sema_example)\<rparr>"
  have "sema_step sema_example ?z"
    by (rule sema_step.destroy) (simp add: sema_example_def new_sema_def AddWaiter_def)
  then have "sema_reachable ?z"
    by (rule reachable_step [OF sema_example_reachable])
  from sema_delete_drains [OF this, of 7 1 None 0] show ?thesis
    by (simp add: sema_destroy_def sema_example_def)
qed

text \<open>
  \<open>KernelSignalSema\<close> does not refuse a negative count, which takes the count below zero, nor a
  count that overflows: a semaphore that is full at 2147483647 units accepts one more and is left
  with the smallest \<open>int\<close>.
\<close>

theorem sema_signal_negative:
  "KernelSignalSema (Some (new_sema True 0 1)) (-1) =
     (Some ((new_sema True 0 1)\<lparr>sem_count := -1\<rparr>), OK)"
  by (simp add: KernelSignalSema_def sema_Signal_def WakeWaiters_def new_sema_def i32_ident
      signal_sema_code_def)

theorem sema_signal_overflow:
  "KernelSignalSema (Some (new_sema True 2147483647 2147483647)) 1 =
     (Some ((new_sema True 2147483647 2147483647)\<lparr>sem_count := - 2147483648\<rparr>), OK)"
proof -
  have "i32 2147483648 = - 2147483648" by code_simp
  then show ?thesis
    by (simp add: KernelSignalSema_def sema_Signal_def WakeWaiters_def new_sema_def
        signal_sema_code_def)
qed

end
