(* ===== verification/PosixSem.thy ===== *)
theory PosixSem
  imports KernelErrors
begin

text \<open>
  The POSIX semaphores of src/src/kernel/semaphore.cpp: the host object \<open>PosixSemPrivate\<close>, its mirror
  \<open>PosixSemGuest\<close> in guest memory, the table \<open>g_posix_sems\<close> from guest addresses to host objects, and
  the \<open>sem_*\<close> and \<open>PthreadSem*\<close> entry points over them. Address 0 is the null pointer. A wait that
  sleeps is split at its condition variable.
\<close>

section \<open>State\<close>

definition POSIX_SEM_MAGIC :: u16 where "POSIX_SEM_MAGIC = 0x09fa"
definition POSIX_SEM_VALUE_MAX :: int where "POSIX_SEM_VALUE_MAX = 0x7fffffff"
definition NO_FLAGS :: u32 where "NO_FLAGS = 0xffffffff"

record posix_sem_guest =
  g_magic :: u16
  g_nameid :: u16
  g_has_waiters :: u32
  g_count :: u32
  g_flags :: u32

record posix_sem =
  p_count :: int
  p_waiters :: u32

record posix_world =
  w_sems :: "addr \<Rightarrow> posix_sem option"
  w_guests :: "addr \<Rightarrow> posix_sem_guest"
  w_errno :: int

section \<open>The object\<close>

definition SyncGuest :: "posix_sem \<Rightarrow> u32 \<Rightarrow> posix_sem_guest \<Rightarrow> posix_sem_guest" where
  "SyncGuest o1 flags g =
     \<lparr>g_magic = POSIX_SEM_MAGIC, g_nameid = 0,
      g_has_waiters = (if p_waiters o1 > 0 then 1 else 0),
      g_count = word_of_int (p_count o1),
      g_flags = (if flags \<noteq> NO_FLAGS then flags else g_flags g)\<rparr>"

datatype posix_outcome = Posix_Returned int | Posix_Blocked

definition posix_wait_loop ::
    "posix_sem \<Rightarrow> posix_sem_guest \<Rightarrow> u32 option \<Rightarrow> u32 \<Rightarrow> posix_sem \<times> posix_sem_guest \<times> posix_outcome" where
  "posix_wait_loop o1 g micros elapsed =
     (if p_count o1 \<le> 0
      then (if (case micros of None \<Rightarrow> False | Some m \<Rightarrow> elapsed \<ge> m)
            then (o1, SyncGuest o1 NO_FLAGS g, Posix_Returned POSIX_ETIMEDOUT)
            else (let o2 = o1\<lparr>p_waiters := p_waiters o1 + 1\<rparr>
                  in (o2, SyncGuest o2 NO_FLAGS g, Posix_Blocked)))
      else (let o2 = o1\<lparr>p_count := p_count o1 - 1\<rparr>
            in (o2, SyncGuest o2 NO_FLAGS g, Posix_Returned OK)))"

definition posix_wait_enter ::
    "posix_sem \<Rightarrow> posix_sem_guest \<Rightarrow> u32 option \<Rightarrow> posix_sem \<times> posix_sem_guest \<times> posix_outcome" where
  "posix_wait_enter o1 g micros = posix_wait_loop o1 g micros 0"

definition posix_wait_wake ::
    "posix_sem \<Rightarrow> posix_sem_guest \<Rightarrow> u32 option \<Rightarrow> u32 \<Rightarrow> posix_sem \<times> posix_sem_guest \<times> posix_outcome" where
  "posix_wait_wake o1 g micros elapsed =
     posix_wait_loop (o1\<lparr>p_waiters := p_waiters o1 - 1\<rparr>) g micros elapsed"

definition posix_TryWait :: "posix_sem \<Rightarrow> posix_sem_guest \<Rightarrow> posix_sem \<times> posix_sem_guest \<times> int" where
  "posix_TryWait o1 g =
     (if p_count o1 \<le> 0 then (o1, SyncGuest o1 NO_FLAGS g, POSIX_EAGAIN)
      else (let o2 = o1\<lparr>p_count := p_count o1 - 1\<rparr> in (o2, SyncGuest o2 NO_FLAGS g, OK)))"

definition posix_Post :: "posix_sem \<Rightarrow> posix_sem_guest \<Rightarrow> posix_sem \<times> posix_sem_guest \<times> int" where
  "posix_Post o1 g =
     (if p_count o1 = POSIX_SEM_VALUE_MAX then (o1, g, POSIX_EOVERFLOW)
      else (let o2 = o1\<lparr>p_count := p_count o1 + 1\<rparr> in (o2, SyncGuest o2 NO_FLAGS g, OK)))"

section \<open>The table\<close>

definition GetSem :: "posix_world \<Rightarrow> addr \<Rightarrow> posix_sem option" where
  "GetSem w sem = (if sem = 0 then None else w_sems w sem)"

definition put_sem :: "posix_world \<Rightarrow> addr \<Rightarrow> posix_sem \<Rightarrow> posix_sem_guest \<Rightarrow> posix_world" where
  "put_sem w sem o1 g =
     w\<lparr>w_sems := (w_sems w)(sem \<mapsto> o1), w_guests := (w_guests w)(sem := g)\<rparr>"

definition SetErrnoReturn :: "posix_world \<Rightarrow> int \<Rightarrow> posix_world \<times> int" where
  "SetErrnoReturn w posix_errno = (w\<lparr>w_errno := posix_errno\<rparr>, -1)"

definition SemInitImpl :: "posix_world \<Rightarrow> addr \<Rightarrow> int \<Rightarrow> u32 \<Rightarrow> posix_world \<times> int" where
  "SemInitImpl w sem pshared value =
     (if sem = 0 \<or> uint value > POSIX_SEM_VALUE_MAX then (w, POSIX_EINVAL)
      else (let o1 = \<lparr>p_count = sint value, p_waiters = 0\<rparr>
            in (put_sem w sem o1 (SyncGuest o1 (word_of_int pshared) (w_guests w sem)), OK)))"

definition SemDestroyImpl :: "posix_world \<Rightarrow> addr \<Rightarrow> posix_world \<times> int" where
  "SemDestroyImpl w sem =
     (if sem = 0 then (w, POSIX_EINVAL)
      else (case w_sems w sem of
              None \<Rightarrow> (w, POSIX_EINVAL)
            | Some o1 \<Rightarrow>
                (w\<lparr>w_sems := (w_sems w)(sem := None),
                   w_guests := (w_guests w)(sem := (w_guests w sem)
                     \<lparr>g_magic := 0, g_has_waiters := 0, g_count := 0, g_flags := 0\<rparr>)\<rparr>, OK)))"

definition SemTimedwaitImpl :: "posix_world \<Rightarrow> addr \<Rightarrow> u32 option \<Rightarrow> posix_world \<times> posix_outcome" where
  "SemTimedwaitImpl w sem micros =
     (case GetSem w sem of
        None \<Rightarrow> (w, Posix_Returned POSIX_EINVAL)
      | Some o1 \<Rightarrow>
          (let (o2, g, out) = posix_wait_enter o1 (w_guests w sem) micros in (put_sem w sem o2 g, out)))"

text \<open>A sleeping call that looks again.\<close>

definition sem_resume :: "posix_world \<Rightarrow> addr \<Rightarrow> u32 option \<Rightarrow> u32 \<Rightarrow> posix_world \<times> posix_outcome" where
  "sem_resume w sem micros elapsed =
     (case w_sems w sem of
        None \<Rightarrow> (w, Posix_Blocked)
      | Some o1 \<Rightarrow>
          (let (o2, g, out) = posix_wait_wake o1 (w_guests w sem) micros elapsed
           in (put_sem w sem o2 g, out)))"

text \<open>\<open>now\<close> is what the real-time clock reads, \<open>None\<close> when it cannot be read.\<close>

record timespec =
  tv_sec :: int
  tv_nsec :: int

definition AbsTimespecToMicros :: "timespec option \<Rightarrow> timespec option \<Rightarrow> u32 option" where
  "AbsTimespecToMicros now abstime =
     (case abstime of
        None \<Rightarrow> None
      | Some t \<Rightarrow>
          if tv_sec t < 0 \<or> tv_nsec t < 0 \<or> tv_nsec t \<ge> 1000000000 then None
          else (case now of
                  None \<Rightarrow> None
                | Some n \<Rightarrow>
                    let sec_delta = i64 (tv_sec t - tv_sec n);
                        nsec_delta = i64 (tv_nsec t - tv_nsec n);
                        usec_delta = i64 (i64 (sec_delta * 1000000) + nsec_delta sdiv 1000)
                    in Some (if usec_delta \<le> 0 then 0
                             else if usec_delta > 0xffffffff then 0xffffffff
                             else word_of_int usec_delta)))"

section \<open>Entry points\<close>

definition errno_return :: "posix_world \<times> int \<Rightarrow> posix_world \<times> int" where
  "errno_return r = (if snd r = OK then (fst r, 0) else SetErrnoReturn (fst r) (snd r))"

definition errno_wait :: "posix_world \<times> posix_outcome \<Rightarrow> posix_world \<times> int option" where
  "errno_wait r =
     (case r of
        (w, Posix_Blocked) \<Rightarrow> (w, None)
      | (w, Posix_Returned e) \<Rightarrow> (let (w', v) = errno_return (w, e) in (w', Some v)))"

definition sem_init :: "posix_world \<Rightarrow> addr \<Rightarrow> int \<Rightarrow> u32 \<Rightarrow> posix_world \<times> int" where
  "sem_init w sem pshared value = errno_return (SemInitImpl w sem pshared value)"

definition sem_destroy :: "posix_world \<Rightarrow> addr \<Rightarrow> posix_world \<times> int" where
  "sem_destroy w sem = errno_return (SemDestroyImpl w sem)"

definition sem_wait :: "posix_world \<Rightarrow> addr \<Rightarrow> posix_world \<times> int option" where
  "sem_wait w sem = errno_wait (SemTimedwaitImpl w sem None)"

definition sem_trywait :: "posix_world \<Rightarrow> addr \<Rightarrow> posix_world \<times> int" where
  "sem_trywait w sem =
     (case GetSem w sem of
        None \<Rightarrow> SetErrnoReturn w POSIX_EINVAL
      | Some o1 \<Rightarrow>
          (let (o2, g, e) = posix_TryWait o1 (w_guests w sem)
           in errno_return (put_sem w sem o2 g, e)))"

definition sem_reltimedwait_np :: "posix_world \<Rightarrow> addr \<Rightarrow> u32 \<Rightarrow> posix_world \<times> int option" where
  "sem_reltimedwait_np w sem usec = errno_wait (SemTimedwaitImpl w sem (Some usec))"

definition sem_timedwait ::
    "posix_world \<Rightarrow> timespec option \<Rightarrow> addr \<Rightarrow> timespec option \<Rightarrow> posix_world \<times> int option" where
  "sem_timedwait w now sem abstime =
     (case AbsTimespecToMicros now abstime of
        None \<Rightarrow> (let (w', v) = SetErrnoReturn w POSIX_EINVAL in (w', Some v))
      | Some micros \<Rightarrow> errno_wait (SemTimedwaitImpl w sem (Some micros)))"

definition sem_post :: "posix_world \<Rightarrow> addr \<Rightarrow> posix_world \<times> int" where
  "sem_post w sem =
     (case GetSem w sem of
        None \<Rightarrow> SetErrnoReturn w POSIX_EINVAL
      | Some o1 \<Rightarrow>
          (let (o2, g, e) = posix_Post o1 (w_guests w sem)
           in errno_return (put_sem w sem o2 g, e)))"

definition sem_getvalue :: "posix_world \<Rightarrow> addr \<Rightarrow> bool \<Rightarrow> posix_world \<times> int \<times> int option" where
  "sem_getvalue w sem value_is_null =
     (case GetSem w sem of
        Some o1 \<Rightarrow>
          if value_is_null then (let (w', v) = SetErrnoReturn w POSIX_EINVAL in (w', v, None))
          else (w, 0, Some (p_count o1))
      | None \<Rightarrow> (let (w', v) = SetErrnoReturn w POSIX_EINVAL in (w', v, None)))"

definition kernel_return :: "posix_world \<times> int \<Rightarrow> posix_world \<times> int" where
  "kernel_return r = (fst r, if snd r = OK then OK else PosixToKernel (snd r))"

definition kernel_wait :: "posix_world \<times> posix_outcome \<Rightarrow> posix_world \<times> int option" where
  "kernel_wait r =
     (case r of
        (w, Posix_Blocked) \<Rightarrow> (w, None)
      | (w, Posix_Returned e) \<Rightarrow> (let (w', v) = kernel_return (w, e) in (w', Some v)))"

definition PthreadSemInit :: "posix_world \<Rightarrow> addr \<Rightarrow> int \<Rightarrow> u32 \<Rightarrow> posix_world \<times> int" where
  "PthreadSemInit w sem flag value =
     (if flag \<noteq> 0 then (w, KERNEL_ERROR_EINVAL) else kernel_return (SemInitImpl w sem 0 value))"

definition PthreadSemDestroy :: "posix_world \<Rightarrow> addr \<Rightarrow> posix_world \<times> int" where
  "PthreadSemDestroy w sem = kernel_return (SemDestroyImpl w sem)"

definition PthreadSemWait :: "posix_world \<Rightarrow> addr \<Rightarrow> posix_world \<times> int option" where
  "PthreadSemWait w sem = kernel_wait (SemTimedwaitImpl w sem None)"

definition PthreadSemTrywait :: "posix_world \<Rightarrow> addr \<Rightarrow> posix_world \<times> int" where
  "PthreadSemTrywait w sem =
     (case GetSem w sem of
        None \<Rightarrow> (w, KERNEL_ERROR_EINVAL)
      | Some o1 \<Rightarrow>
          (let (o2, g, e) = posix_TryWait o1 (w_guests w sem)
           in kernel_return (put_sem w sem o2 g, e)))"

definition PthreadSemTimedwait :: "posix_world \<Rightarrow> addr \<Rightarrow> u32 \<Rightarrow> posix_world \<times> int option" where
  "PthreadSemTimedwait w sem usec = kernel_wait (SemTimedwaitImpl w sem (Some usec))"

definition PthreadSemPost :: "posix_world \<Rightarrow> addr \<Rightarrow> posix_world \<times> int" where
  "PthreadSemPost w sem =
     (case GetSem w sem of
        None \<Rightarrow> (w, KERNEL_ERROR_EINVAL)
      | Some o1 \<Rightarrow>
          (let (o2, g, e) = posix_Post o1 (w_guests w sem)
           in kernel_return (put_sem w sem o2 g, e)))"

definition PthreadSemGetvalue :: "posix_world \<Rightarrow> addr \<Rightarrow> bool \<Rightarrow> int \<times> int option" where
  "PthreadSemGetvalue w sem value_is_null =
     (case GetSem w sem of
        Some o1 \<Rightarrow>
          if value_is_null then (KERNEL_ERROR_EINVAL, None) else (OK, Some (p_count o1))
      | None \<Rightarrow> (KERNEL_ERROR_EINVAL, None))"

section \<open>The objects with their callers\<close>

text \<open>
  \<open>px_waits\<close> holds the calls asleep in \<open>Wait\<close>: the semaphore and the time-out they were given. A
  semaphore is not initialised again or destroyed while a call sleeps on it, which POSIX leaves
  undefined and the code turns into a use of a freed object.
\<close>

record posix_sys =
  px_world :: posix_world
  px_waits :: "nat \<Rightarrow> (addr \<times> u32 option) option"

definition waiters_on :: "(nat \<Rightarrow> (addr \<times> u32 option) option) \<Rightarrow> addr \<Rightarrow> nat set" where
  "waiters_on ws a = {t. \<exists>m. ws t = Some (a, m)}"

inductive posix_step :: "posix_sys \<Rightarrow> posix_sys \<Rightarrow> bool" where
  px_init:
    "waiters_on (px_waits y) a = {} \<Longrightarrow>
       posix_step y (y\<lparr>px_world := fst (sem_init (px_world y) a pshared v)\<rparr>)"
| px_destroy:
    "waiters_on (px_waits y) a = {} \<Longrightarrow>
       posix_step y (y\<lparr>px_world := fst (sem_destroy (px_world y) a)\<rparr>)"
| px_trywait: "posix_step y (y\<lparr>px_world := fst (sem_trywait (px_world y) a)\<rparr>)"
| px_post: "posix_step y (y\<lparr>px_world := fst (sem_post (px_world y) a)\<rparr>)"
| px_wait_return:
    "SemTimedwaitImpl (px_world y) a m = (w', Posix_Returned r) \<Longrightarrow>
       posix_step y (y\<lparr>px_world := fst (errno_return (w', r))\<rparr>)"
| px_wait_block:
    "px_waits y t = None \<Longrightarrow> SemTimedwaitImpl (px_world y) a m = (w', Posix_Blocked) \<Longrightarrow>
       posix_step y (y\<lparr>px_world := w', px_waits := (px_waits y)(t \<mapsto> (a, m))\<rparr>)"
| px_resume_return:
    "px_waits y t = Some (a, m) \<Longrightarrow>
       sem_resume (px_world y) a m elapsed = (w', Posix_Returned r) \<Longrightarrow>
       posix_step y (y\<lparr>px_world := fst (errno_return (w', r)), px_waits := (px_waits y)(t := None)\<rparr>)"
| px_resume_block:
    "px_waits y t = Some (a, m) \<Longrightarrow> sem_resume (px_world y) a m elapsed = (w', Posix_Blocked) \<Longrightarrow>
       posix_step y (y\<lparr>px_world := w'\<rparr>)"

definition posix_init :: "posix_sys \<Rightarrow> bool" where
  "posix_init y \<longleftrightarrow> w_sems (px_world y) = Map.empty \<and> px_waits y = Map.empty"

section \<open>Lemmas\<close>

definition guest_agrees :: "posix_sem \<Rightarrow> posix_sem_guest \<Rightarrow> bool" where
  "guest_agrees o1 g \<longleftrightarrow>
     g_magic g = POSIX_SEM_MAGIC \<and> g_has_waiters g = (if p_waiters o1 > 0 then 1 else 0) \<and>
     sint (g_count g) = p_count o1"

definition sem_ok :: "posix_sem \<Rightarrow> posix_sem_guest \<Rightarrow> nat \<Rightarrow> bool" where
  "sem_ok o1 g n \<longleftrightarrow>
     0 \<le> p_count o1 \<and> p_count o1 \<le> POSIX_SEM_VALUE_MAX \<and> p_waiters o1 = word_of_nat n \<and>
     guest_agrees o1 g"

definition posix_sys_inv :: "posix_sys \<Rightarrow> bool" where
  "posix_sys_inv y \<longleftrightarrow>
     finite (dom (px_waits y)) \<and>
     (\<forall>a o1. w_sems (px_world y) a = Some o1 \<longrightarrow>
        sem_ok o1 (w_guests (px_world y) a) (card (waiters_on (px_waits y) a))) \<and>
     (\<forall>a. waiters_on (px_waits y) a \<noteq> {} \<longrightarrow> w_sems (px_world y) a \<noteq> None)"

lemma SyncGuest_agrees:
  "0 \<le> p_count o1 \<Longrightarrow> p_count o1 \<le> POSIX_SEM_VALUE_MAX \<Longrightarrow> guest_agrees o1 (SyncGuest o1 flags g)"
  by (simp add: guest_agrees_def SyncGuest_def POSIX_SEM_VALUE_MAX_def sint_word32)

lemma posix_wait_loop_ok:
  assumes "0 \<le> p_count o1" "p_count o1 \<le> POSIX_SEM_VALUE_MAX"
    and "posix_wait_loop o1 g m e = (o2, g', out)"
  shows "0 \<le> p_count o2" "p_count o2 \<le> POSIX_SEM_VALUE_MAX" "guest_agrees o2 g'"
    "p_waiters o2 = (if out = Posix_Blocked then p_waiters o1 + 1 else p_waiters o1)"
  using assms by (auto simp: posix_wait_loop_def SyncGuest_agrees Let_def split: if_splits)

lemma posix_TryWait_ok:
  assumes "sem_ok o1 g n" and "posix_TryWait o1 g = (o2, g', e)"
  shows "sem_ok o2 g' n"
  using assms by (auto simp: posix_TryWait_def sem_ok_def SyncGuest_agrees Let_def split: if_splits)

lemma posix_Post_ok:
  assumes "sem_ok o1 g n" and "posix_Post o1 g = (o2, g', e)"
  shows "sem_ok o2 g' n"
  using assms by (auto simp: posix_Post_def sem_ok_def SyncGuest_agrees Let_def split: if_splits)

lemma errno_return_frame [simp]:
  "w_sems (fst (errno_return r)) = w_sems (fst r)"
  "w_guests (fst (errno_return r)) = w_guests (fst r)"
  by (simp_all add: errno_return_def SetErrnoReturn_def)

lemma put_sem_frame [simp]:
  "w_sems (put_sem w a o1 g) = (w_sems w)(a \<mapsto> o1)"
  "w_guests (put_sem w a o1 g) = (w_guests w)(a := g)"
  by (simp_all add: put_sem_def)

lemma posix_inv_put:
  assumes "posix_sys_inv y"
    and "sem_ok o1 g (card (waiters_on ws a))" and "finite (dom ws)"
    and "\<forall>b. b \<noteq> a \<longrightarrow> waiters_on ws b = waiters_on (px_waits y) b"
    and "w_sems w' = (w_sems (px_world y))(a \<mapsto> o1)" "w_guests w' = (w_guests (px_world y))(a := g)"
  shows "posix_sys_inv (y\<lparr>px_world := w', px_waits := ws\<rparr>)"
  using assms by (auto simp: posix_sys_inv_def)

lemma posix_inv_same:
  assumes "posix_sys_inv y" "w_sems w' = w_sems (px_world y)" "w_guests w' = w_guests (px_world y)"
  shows "posix_sys_inv (y\<lparr>px_world := w'\<rparr>)"
  using assms by (simp add: posix_sys_inv_def)

lemma posix_inv_update:
  assumes "posix_sys_inv y" and "w_sems (px_world y) a = Some o1"
    and "\<And>n. sem_ok o1 (w_guests (px_world y) a) n \<Longrightarrow> sem_ok o2 g n"
    and "w_sems w' = (w_sems (px_world y))(a \<mapsto> o2)" "w_guests w' = (w_guests (px_world y))(a := g)"
  shows "posix_sys_inv (y\<lparr>px_world := w'\<rparr>)"
  using posix_inv_put [OF assms(1), of o2 g "px_waits y" a w'] assms by (auto simp: posix_sys_inv_def)

lemma waiters_on_add:
  "ws t = None \<Longrightarrow> waiters_on (ws(t \<mapsto> (a, m))) b =
     (if b = a then insert t (waiters_on ws b) else waiters_on ws b)"
  by (auto simp: waiters_on_def)

lemma waiters_on_del:
  "ws t = Some (a, m) \<Longrightarrow> waiters_on (ws(t := None)) b =
     (if b = a then waiters_on ws b - {t} else waiters_on ws b)"
  by (auto simp: waiters_on_def)

lemma finite_waiters_on: "finite (dom ws) \<Longrightarrow> finite (waiters_on ws a)"
  by (rule finite_subset [of _ "dom ws"]) (auto simp: waiters_on_def)

lemma card_waiters_del:
  assumes "finite (dom ws)" "ws t = Some (a, m)"
  shows "card (waiters_on ws a) = Suc (card (waiters_on ws a - {t}))"
  using assms by (intro card.remove finite_waiters_on) (auto simp: waiters_on_def)

lemma posix_step_inv:
  assumes inv: "posix_sys_inv y" and step: "posix_step y z"
  shows "posix_sys_inv z"
  using step
proof cases
  case (px_init a pshared v)
  show ?thesis
  proof (cases "a = 0 \<or> uint v > POSIX_SEM_VALUE_MAX")
    case True
    with inv px_init(1) show ?thesis
      by (auto simp: sem_init_def SemInitImpl_def intro!: posix_inv_same)
  next
    case False
    let ?o = "\<lparr>p_count = sint v, p_waiters = 0\<rparr>"
    from False have "0 \<le> sint v \<and> sint v \<le> POSIX_SEM_VALUE_MAX"
      by (simp add: POSIX_SEM_VALUE_MAX_def sint_small)
    then have "sem_ok ?o (SyncGuest ?o k g) (card (waiters_on (px_waits y) a))" for k g
      using px_init(2) by (simp add: sem_ok_def SyncGuest_agrees)
    with posix_inv_put [OF inv, of ?o _ "px_waits y" a] inv False px_init(1) show ?thesis
      by (simp add: sem_init_def SemInitImpl_def Let_def posix_sys_inv_def)
  qed
next
  case (px_destroy a)
  with inv show ?thesis
    by (auto simp: sem_destroy_def SemDestroyImpl_def posix_sys_inv_def split: option.splits)
next
  case (px_trywait a)
  show ?thesis
  proof (cases "GetSem (px_world y) a")
    case None
    with inv px_trywait show ?thesis
      by (auto simp: sem_trywait_def SetErrnoReturn_def intro!: posix_inv_same)
  next
    case (Some o1)
    obtain o2 g e where r: "posix_TryWait o1 (w_guests (px_world y) a) = (o2, g, e)"
      by (metis prod_cases3)
    from Some have o1: "w_sems (px_world y) a = Some o1" by (simp add: GetSem_def split: if_splits)
    show ?thesis
      unfolding px_trywait
      by (rule posix_inv_update [OF inv o1 posix_TryWait_ok [OF _ r]]) (simp_all add: sem_trywait_def Some r)
  qed
next
  case (px_post a)
  show ?thesis
  proof (cases "GetSem (px_world y) a")
    case None
    with inv px_post show ?thesis
      by (auto simp: sem_post_def SetErrnoReturn_def intro!: posix_inv_same)
  next
    case (Some o1)
    obtain o2 g e where r: "posix_Post o1 (w_guests (px_world y) a) = (o2, g, e)"
      by (metis prod_cases3)
    from Some have o1: "w_sems (px_world y) a = Some o1" by (simp add: GetSem_def split: if_splits)
    show ?thesis
      unfolding px_post
      by (rule posix_inv_update [OF inv o1 posix_Post_ok [OF _ r]]) (simp_all add: sem_post_def Some r)
  qed
next
  case (px_wait_return a m w' r)
  show ?thesis
  proof (cases "GetSem (px_world y) a")
    case None
    with inv px_wait_return show ?thesis
      by (auto simp: SemTimedwaitImpl_def intro!: posix_inv_same)
  next
    case (Some o1)
    obtain o2 g out where l: "posix_wait_loop o1 (w_guests (px_world y) a) m 0 = (o2, g, out)"
      by (metis prod_cases3)
    with Some px_wait_return(2) have w': "w' = put_sem (px_world y) a o2 g" "out = Posix_Returned r"
      by (simp_all add: SemTimedwaitImpl_def posix_wait_enter_def)
    from Some have "w_sems (px_world y) a = Some o1" by (simp add: GetSem_def split: if_splits)
    then show ?thesis
      unfolding px_wait_return(1)
      by (rule posix_inv_update [OF inv]) (use posix_wait_loop_ok [OF _ _ l] w' in
          \<open>auto simp: sem_ok_def\<close>)
  qed
next
  case (px_wait_block t a m w')
  then obtain o1 where o1: "GetSem (px_world y) a = Some o1"
    by (cases "GetSem (px_world y) a") (auto simp: SemTimedwaitImpl_def)
  obtain o2 g out where l: "posix_wait_loop o1 (w_guests (px_world y) a) m 0 = (o2, g, out)"
    by (metis prod_cases3)
  with o1 px_wait_block(3) have w': "w' = put_sem (px_world y) a o2 g" "out = Posix_Blocked"
    by (simp_all add: SemTimedwaitImpl_def posix_wait_enter_def)
  have fin: "finite (dom (px_waits y))" using inv by (simp add: posix_sys_inv_def)
  have notin: "t \<notin> waiters_on (px_waits y) a" using px_wait_block(2) by (simp add: waiters_on_def)
  from o1 inv have ok: "sem_ok o1 (w_guests (px_world y) a) (card (waiters_on (px_waits y) a))"
    by (auto simp: GetSem_def posix_sys_inv_def split: if_splits)
  have "sem_ok o2 g (card (waiters_on ((px_waits y)(t \<mapsto> (a, m))) a))"
    using posix_wait_loop_ok [OF _ _ l] ok w'(2) notin finite_waiters_on [OF fin]
    by (simp add: sem_ok_def waiters_on_add px_wait_block(2))
  then show ?thesis
    unfolding px_wait_block(1)
    by (rule posix_inv_put [OF inv]) (use fin w' px_wait_block(2) in \<open>auto simp: waiters_on_add\<close>)
next
  case (px_resume_return t a m elapsed w' r)
  have fin: "finite (dom (px_waits y))" using inv by (simp add: posix_sys_inv_def)
  have "t \<in> waiters_on (px_waits y) a" using px_resume_return(2) by (auto simp: waiters_on_def)
  with inv obtain o1 where o1: "w_sems (px_world y) a = Some o1"
    by (auto simp: posix_sys_inv_def)
  obtain o2 g out where l: "posix_wait_wake o1 (w_guests (px_world y) a) m elapsed = (o2, g, out)"
    by (metis prod_cases3)
  with o1 px_resume_return(3) have w': "w' = put_sem (px_world y) a o2 g" "out = Posix_Returned r"
    by (simp_all add: sem_resume_def)
  from o1 inv have ok: "sem_ok o1 (w_guests (px_world y) a) (card (waiters_on (px_waits y) a))"
    by (simp add: posix_sys_inv_def)
  have "sem_ok o2 g (card (waiters_on ((px_waits y)(t := None)) a))"
    using posix_wait_loop_ok [OF _ _ l [unfolded posix_wait_wake_def]] ok w'(2)
      card_waiters_del [OF fin px_resume_return(2)]
    by (simp add: sem_ok_def waiters_on_del [where ws = "px_waits y" and b = a and a = a] px_resume_return(2))
  then show ?thesis
    unfolding px_resume_return(1)
    by (rule posix_inv_put [OF inv])
       (use fin w' in \<open>simp_all add: waiters_on_del [where t = t and a = a and m = m and ws = "px_waits y"] px_resume_return(2)\<close>)
next
  case (px_resume_block t a m elapsed w')
  have "t \<in> waiters_on (px_waits y) a" using px_resume_block(2) by (auto simp: waiters_on_def)
  with inv obtain o1 where o1: "w_sems (px_world y) a = Some o1"
    by (auto simp: posix_sys_inv_def)
  obtain o2 g out where l: "posix_wait_wake o1 (w_guests (px_world y) a) m elapsed = (o2, g, out)"
    by (metis prod_cases3)
  with o1 px_resume_block(3) have w': "w' = put_sem (px_world y) a o2 g" "out = Posix_Blocked"
    by (simp_all add: sem_resume_def)
  show ?thesis
    unfolding px_resume_block(1)
    by (rule posix_inv_update [OF inv o1])
       (use posix_wait_loop_ok [OF _ _ l [unfolded posix_wait_wake_def]] w' in \<open>auto simp: sem_ok_def\<close>)
qed

lemma posix_init_inv: "posix_init y \<Longrightarrow> posix_sys_inv y"
  by (simp add: posix_init_def posix_sys_inv_def waiters_on_def)

interpretation posix_sem: step_invariant posix_init posix_step posix_sys_inv
  by unfold_locales (auto intro: posix_init_inv posix_step_inv)

abbreviation posix_reachable :: "posix_sys \<Rightarrow> bool" where
  "posix_reachable \<equiv> reachable posix_init posix_step"

section \<open>Properties\<close>

definition posix_blank_guest :: posix_sem_guest where
  "posix_blank_guest = \<lparr>g_magic = 0, g_nameid = 0, g_has_waiters = 0, g_count = 0, g_flags = 0\<rparr>"

definition posix_blank :: posix_world where
  "posix_blank = \<lparr>w_sems = Map.empty, w_guests = (\<lambda>_. posix_blank_guest), w_errno = 0\<rparr>"

text \<open>
  C22: the guest sees what the host holds. In every reachable state, for every initialised semaphore,
  the mirror in guest memory has the magic number, a waiter flag set exactly when calls sleep on it and
  the host's count, which lies between zero and \<open>SEM_VALUE_MAX\<close>.
\<close>

theorem posix_guest_mirror:
  assumes "posix_reachable y" and "w_sems (px_world y) a = Some o1"
    and "card (waiters_on (px_waits y) a) < 2 ^ 32"
  shows "g_magic (w_guests (px_world y) a) = POSIX_SEM_MAGIC \<and>
         (g_has_waiters (w_guests (px_world y) a) = 1 \<longleftrightarrow> waiters_on (px_waits y) a \<noteq> {}) \<and>
         sint (g_count (w_guests (px_world y) a)) = p_count o1 \<and>
         0 \<le> p_count o1 \<and> p_count o1 \<le> POSIX_SEM_VALUE_MAX"
proof -
  from posix_sem.reachable_inv [OF assms(1)] assms(2)
  have ok: "sem_ok o1 (w_guests (px_world y) a) (card (waiters_on (px_waits y) a))"
    and fin: "finite (waiters_on (px_waits y) a)"
    by (auto simp: posix_sys_inv_def finite_waiters_on)
  have "p_waiters o1 > 0 \<longleftrightarrow> waiters_on (px_waits y) a \<noteq> {}"
    using ok fin assms(3) word_of_nat_pos [of "card (waiters_on (px_waits y) a)", where 'a = 32]
    by (cases "waiters_on (px_waits y) a = {}") (simp_all add: sem_ok_def card_gt_0_iff)
  with ok show ?thesis by (simp add: sem_ok_def guest_agrees_def)
qed

theorem posix_guest_mirror_witness:
  "sint (g_count (w_guests (fst (sem_init posix_blank 64 0 5)) 64)) = 5"
proof -
  let ?y = "\<lparr>px_world = posix_blank, px_waits = Map.empty\<rparr>"
  let ?z = "\<lparr>px_world = fst (sem_init posix_blank 64 0 5), px_waits = Map.empty\<rparr>"
  have "posix_step ?y ?z"
    using px_init [of ?y 64 0 5] by (simp add: waiters_on_def)
  moreover have "posix_init ?y" by (simp add: posix_init_def posix_blank_def)
  ultimately have "posix_reachable ?z" by (blast intro: reachable.intros)
  moreover have "w_sems (px_world ?z) 64 = Some \<lparr>p_count = 5, p_waiters = 0\<rparr>"
    by (simp add: sem_init_def SemInitImpl_def POSIX_SEM_VALUE_MAX_def Let_def)
  ultimately show ?thesis
    using posix_guest_mirror [of ?z 64 "\<lparr>p_count = 5, p_waiters = 0\<rparr>"] by (simp add: waiters_on_def)
qed

definition same_objects :: "posix_world \<Rightarrow> posix_world \<Rightarrow> bool" where
  "same_objects v w \<longleftrightarrow> w_sems v = w_sems w \<and> w_guests v = w_guests w"

definition interfaces_agree :: "posix_world \<times> int \<Rightarrow> posix_world \<times> int \<Rightarrow> bool" where
  "interfaces_agree p s \<longleftrightarrow>
     same_objects (fst p) (fst s) \<and>
     (if snd s = 0 then snd p = OK
      else snd s = -1 \<and> snd p = PosixToKernel (w_errno (fst s)) \<and> snd p \<noteq> OK)"

lemmas posix_codes = POSIX_EINVAL_def POSIX_EAGAIN_def POSIX_EOVERFLOW_def KERNEL_ERROR_EINVAL_def
  OK_def PosixToKernel_def

lemma interfaces_agree_return:
  "0 \<le> e \<Longrightarrow> e \<le> 102 \<Longrightarrow> interfaces_agree (kernel_return (w, e)) (errno_return (w, e))"
  by (simp add: interfaces_agree_def same_objects_def kernel_return_def errno_return_def
      SetErrnoReturn_def posix_codes)

lemma interfaces_agree_missing:
  "interfaces_agree (w, KERNEL_ERROR_EINVAL) (SetErrnoReturn w POSIX_EINVAL)"
  by (simp add: interfaces_agree_def same_objects_def SetErrnoReturn_def posix_codes)

text \<open>
  The two interfaces agree. On every semaphore, \<open>PthreadSemPost\<close>, \<open>PthreadSemTrywait\<close> and
  \<open>PthreadSemDestroy\<close> do to the objects and the guest memory what \<open>sem_post\<close>, \<open>sem_trywait\<close> and
  \<open>sem_destroy\<close> do, and return the kernel code of the number the latter leave in \<open>errno\<close> with \<open>-1\<close>.
\<close>

theorem posix_interfaces_agree:
  "interfaces_agree (PthreadSemPost w a) (sem_post w a) \<and>
   interfaces_agree (PthreadSemTrywait w a) (sem_trywait w a) \<and>
   interfaces_agree (PthreadSemDestroy w a) (sem_destroy w a)"
proof (intro conjI)
  show "interfaces_agree (PthreadSemPost w a) (sem_post w a)"
    by (auto simp: PthreadSemPost_def sem_post_def interfaces_agree_missing posix_Post_def Let_def
        interfaces_agree_return posix_codes(3,5) split: option.split prod.split)
  show "interfaces_agree (PthreadSemTrywait w a) (sem_trywait w a)"
    by (auto simp: PthreadSemTrywait_def sem_trywait_def interfaces_agree_missing
        posix_TryWait_def Let_def interfaces_agree_return posix_codes(2,5)
        split: option.split prod.split)
  show "interfaces_agree (PthreadSemDestroy w a) (sem_destroy w a)"
    unfolding PthreadSemDestroy_def sem_destroy_def
    by (cases "SemDestroyImpl w a")
       (auto simp: SemDestroyImpl_def posix_codes(1,5) interfaces_agree_return
         split: if_splits option.splits)
qed

text \<open>
  A deadline becomes a time-out. For a well-formed deadline up to about 285,000 years ahead of a
  well-formed clock, \<open>AbsTimespecToMicros\<close> gives the microseconds left, zero when it has passed and the
  largest 32-bit value when they do not fit; a deadline near the end of \<open>int64_t\<close> overflows and gives
  zero, so the wait times out at once.
\<close>

theorem posix_deadline:
  "(\<forall>s n s0 n0. 0 \<le> s \<and> s \<le> 9000000000000 \<and> 0 \<le> n \<and> n < 1000000000 \<and>
      0 \<le> s0 \<and> s0 \<le> 9000000000000 \<and> 0 \<le> n0 \<and> n0 < 1000000000 \<longrightarrow>
      map_option uint (AbsTimespecToMicros (Some \<lparr>tv_sec = s0, tv_nsec = n0\<rparr>)
                         (Some \<lparr>tv_sec = s, tv_nsec = n\<rparr>)) =
        Some (max 0 (min 4294967295 ((s - s0) * 1000000 + (n - n0) sdiv 1000)))) \<and>
   AbsTimespecToMicros (Some \<lparr>tv_sec = 0, tv_nsec = 0\<rparr>)
     (Some \<lparr>tv_sec = 9223372036854, tv_nsec = 999999999\<rparr>) = Some 0"
proof (intro conjI allI impI)
  fix s n s0 n0 :: int
  assume a: "0 \<le> s \<and> s \<le> 9000000000000 \<and> 0 \<le> n \<and> n < 1000000000 \<and>
      0 \<le> s0 \<and> s0 \<le> 9000000000000 \<and> 0 \<le> n0 \<and> n0 < 1000000000"
  let ?q = "(n - n0) sdiv 1000"
  have q: "\<bar>?q\<bar> \<le> 1000000"
    using a by (auto simp: signed_divide_int_def sgn_if abs_mult)
  define d where "d = (s - s0) * 1000000 + ?q"
  from a q have "i64 (s - s0) = s - s0" "i64 (n - n0) = n - n0"
    "i64 ((s - s0) * 1000000) = (s - s0) * 1000000" "i64 ((s - s0) * 1000000 + ?q) = d"
    unfolding d_def by (auto intro!: i64_ident)
  then have "AbsTimespecToMicros (Some \<lparr>tv_sec = s0, tv_nsec = n0\<rparr>) (Some \<lparr>tv_sec = s, tv_nsec = n\<rparr>) =
      Some (if d \<le> 0 then 0 else if d > 4294967295 then 4294967295 else word_of_int d)"
    using a by (simp only: AbsTimespecToMicros_def Let_def option.case timespec.simps) simp
  then show "map_option uint (AbsTimespecToMicros (Some \<lparr>tv_sec = s0, tv_nsec = n0\<rparr>)
                         (Some \<lparr>tv_sec = s, tv_nsec = n\<rparr>)) =
        Some (max 0 (min 4294967295 ((s - s0) * 1000000 + ?q)))"
    unfolding d_def [symmetric]
    by (simp add: d_def [symmetric] uint_word32 max_def min_def)
next
  show "AbsTimespecToMicros (Some \<lparr>tv_sec = 0, tv_nsec = 0\<rparr>)
     (Some \<lparr>tv_sec = 9223372036854, tv_nsec = 999999999\<rparr>) = Some 0"
    by (simp add: AbsTimespecToMicros_def i64_def signed_divide_int_def signed_take_bit_int_eq_self
        signed_take_bit_eq_take_bit_shift take_bit_eq_mod)
qed

theorem posix_deadline_witness:
  "map_option uint (AbsTimespecToMicros (Some \<lparr>tv_sec = 10, tv_nsec = 500\<rparr>)
     (Some \<lparr>tv_sec = 12, tv_nsec = 0\<rparr>)) = Some 2000000"
  using posix_deadline [THEN conjunct1, rule_format, of 12 0 10 500]
  by (simp add: signed_divide_int_def)

end
