(* ===== verification/EventFlag.thy ===== *)
theory EventFlag
  imports KernelErrors
begin

text \<open>
  The event flag of src/src/kernel/eventFlag.cpp (class \<open>KernelEventFlagPrivate\<close> and the
  \<open>Kernel*EventFlag\<close> entry points). Every method runs under \<open>m_mutex\<close>; \<open>Wait\<close> is split at its
  condition variable into what runs on entry and what runs after each wake-up, and the loops
  that release the mutex and sleep (\<open>while (m_status != Status::Set)\<close>, \<open>while (m_waiting_threads > 0)\<close>)
  are attempts that return \<open>None\<close> while they spin.
\<close>

section \<open>State\<close>

datatype ef_result = Flag_Ok | Flag_AlreadyWaiting | Flag_TimedOut | Flag_Canceled | Flag_Deleted
datatype clear_mode = Clear_None | Clear_All | Clear_Bits
datatype wait_mode = Wait_And | Wait_Or
datatype ef_status = Status_Set | Status_Canceled | Status_Deleted

record event_flag =
  ef_status :: ef_status
  ef_waiting_threads :: int
  ef_single_thread :: bool
  ef_bits :: u64

definition new_event_flag :: "bool \<Rightarrow> u64 \<Rightarrow> event_flag" where
  "new_event_flag single bits =
     \<lparr>ef_status = Status_Set, ef_waiting_threads = 0, ef_single_thread = single, ef_bits = bits\<rparr>"

definition DecodeEventFlagWaitMode :: "u32 \<Rightarrow> (wait_mode \<times> clear_mode) outcome" where
  "DecodeEventFlagWaitMode mode =
     bind_outcome
       (if mode AND 0xf = 0x01 then Inr Wait_And
        else if mode AND 0xf = 0x02 then Inr Wait_Or
        else Inl EXIT)
       (\<lambda>wait. bind_outcome
         (if mode AND 0xf0 = 0x00 then Inr Clear_None
          else if mode AND 0xf0 = 0x10 then Inr Clear_All
          else if mode AND 0xf0 = 0x20 then Inr Clear_Bits
          else Inl EXIT)
         (\<lambda>clear. Inr (wait, clear)))"

section \<open>The methods\<close>

definition ef_satisfied :: "wait_mode \<Rightarrow> u64 \<Rightarrow> u64 \<Rightarrow> bool" where
  "ef_satisfied mode bits m_bits \<longleftrightarrow>
     (mode = Wait_And \<and> m_bits AND bits = bits) \<or> (mode = Wait_Or \<and> m_bits AND bits \<noteq> 0)"

definition ef_clear :: "clear_mode \<Rightarrow> u64 \<Rightarrow> u64 \<Rightarrow> u64" where
  "ef_clear mode bits m_bits =
     (case mode of Clear_All \<Rightarrow> 0 | Clear_Bits \<Rightarrow> m_bits AND NOT bits | Clear_None \<Rightarrow> m_bits)"

definition update_timeout :: "u32 option \<Rightarrow> u32 \<Rightarrow> u32 option" where
  "update_timeout ptr_micros elapsed =
     map_option (\<lambda>micros. if elapsed \<ge> micros then 0 else micros - elapsed) ptr_micros"

text \<open>
  A return carries the value stored to \<open>*result\<close> (\<open>None\<close>: nothing is stored) and the final
  \<open>*ptr_micros\<close>.
\<close>

datatype ef_outcome = Flag_Returned ef_result "u64 option" "u32 option" | Flag_Blocked

text \<open>The \<open>while\<close> loop of \<open>Wait\<close> from its test to the condition variable or to the return.\<close>

definition ef_wait_loop ::
    "event_flag \<Rightarrow> u64 \<Rightarrow> wait_mode \<Rightarrow> clear_mode \<Rightarrow> u32 option \<Rightarrow> u32 \<Rightarrow> event_flag \<times> ef_outcome" where
  "ef_wait_loop f bits wait clear ptr_micros elapsed =
     (if \<not> ef_satisfied wait bits (ef_bits f)
      then (if (case ptr_micros of None \<Rightarrow> False | Some micros \<Rightarrow> elapsed \<ge> micros)
            then (f, Flag_Returned Flag_TimedOut (Some (ef_bits f))
                       (update_timeout ptr_micros elapsed))
            else (f\<lparr>ef_waiting_threads := ef_waiting_threads f + 1\<rparr>, Flag_Blocked))
      else (f\<lparr>ef_bits := ef_clear clear bits (ef_bits f)\<rparr>,
            Flag_Returned Flag_Ok (Some (ef_bits f)) (update_timeout ptr_micros elapsed)))"

definition ef_wait_enter ::
    "event_flag \<Rightarrow> u64 \<Rightarrow> wait_mode \<Rightarrow> clear_mode \<Rightarrow> u32 option \<Rightarrow> event_flag \<times> ef_outcome" where
  "ef_wait_enter f bits wait clear ptr_micros =
     (if ef_single_thread f \<and> ef_waiting_threads f > 0
      then (f, Flag_Returned Flag_AlreadyWaiting None ptr_micros)
      else ef_wait_loop f bits wait clear ptr_micros 0)"

definition ef_wait_wake ::
    "event_flag \<Rightarrow> u64 \<Rightarrow> wait_mode \<Rightarrow> clear_mode \<Rightarrow> u32 option \<Rightarrow> u32 \<Rightarrow> event_flag \<times> ef_outcome" where
  "ef_wait_wake f bits wait clear ptr_micros elapsed =
     (let f = f\<lparr>ef_waiting_threads := ef_waiting_threads f - 1\<rparr>
      in case ef_status f of
           Status_Canceled \<Rightarrow>
             (f, Flag_Returned Flag_Canceled (Some (ef_bits f)) (update_timeout ptr_micros elapsed))
         | Status_Deleted \<Rightarrow>
             (f, Flag_Returned Flag_Deleted (Some (ef_bits f)) (update_timeout ptr_micros elapsed))
         | Status_Set \<Rightarrow> ef_wait_loop f bits wait clear ptr_micros elapsed)"

definition ef_Poll ::
    "event_flag \<Rightarrow> u64 \<Rightarrow> wait_mode \<Rightarrow> clear_mode \<Rightarrow> event_flag \<times> ef_outcome" where
  "ef_Poll f bits wait clear = ef_wait_enter f bits wait clear (Some 0)"

text \<open>The bodies after the spin on \<open>m_status\<close>, and the check before it.\<close>

definition ef_check_deleted :: "event_flag \<Rightarrow> unit outcome" where
  "ef_check_deleted f = exit_if (ef_status f = Status_Deleted) (Inr ())"

definition ef_Set :: "event_flag \<Rightarrow> u64 \<Rightarrow> event_flag option" where
  "ef_Set f bits =
     (if ef_status f \<noteq> Status_Set then None else Some (f\<lparr>ef_bits := ef_bits f OR bits\<rparr>))"

definition ef_Clear :: "event_flag \<Rightarrow> u64 \<Rightarrow> event_flag option" where
  "ef_Clear f bits =
     (if ef_status f \<noteq> Status_Set then None else Some (f\<lparr>ef_bits := ef_bits f AND bits\<rparr>))"

text \<open>\<open>Cancel\<close> up to its second loop, with the value stored to \<open>*num_waiting_threads\<close>; its end.\<close>

definition ef_Cancel :: "event_flag \<Rightarrow> u64 \<Rightarrow> (event_flag \<times> int) option" where
  "ef_Cancel f bits =
     (if ef_status f \<noteq> Status_Set then None
      else Some (f\<lparr>ef_status := Status_Canceled, ef_bits := bits\<rparr>, ef_waiting_threads f))"

definition ef_Cancel_end :: "event_flag \<Rightarrow> event_flag option" where
  "ef_Cancel_end f =
     (if ef_waiting_threads f > 0 then None else Some (f\<lparr>ef_status := Status_Set\<rparr>))"

definition ef_destroy :: "event_flag \<Rightarrow> event_flag option" where
  "ef_destroy f =
     (if ef_status f \<noteq> Status_Set then None else Some (f\<lparr>ef_status := Status_Deleted\<rparr>))"

section \<open>Entry points\<close>

definition KernelCreateEventFlag ::
    "bool \<Rightarrow> string option \<Rightarrow> u32 \<Rightarrow> u64 \<Rightarrow> bool \<Rightarrow> event_flag option \<times> int" where
  "KernelCreateEventFlag ef_is_null name attr init_pattern param_given =
     (if ef_is_null \<or> name = None then (None, KERNEL_ERROR_EINVAL)
      else if param_given \<or> attr AND NOT 0x33 \<noteq> 0 then (None, KERNEL_ERROR_EINVAL)
      else if attr AND 0x0f \<notin> {0x00, 0x01, 0x02} then (None, KERNEL_ERROR_EINVAL)
      else if attr AND 0xf0 \<in> {0x00, 0x10}
      then (Some (new_event_flag True init_pattern), OK)
      else if attr AND 0xf0 = 0x20
      then (Some (new_event_flag False init_pattern), OK)
      else (None, KERNEL_ERROR_EINVAL))"

definition wait_flag_code :: "ef_result \<Rightarrow> int" where
  "wait_flag_code r =
     (case r of
        Flag_Ok \<Rightarrow> OK
      | Flag_AlreadyWaiting \<Rightarrow> KERNEL_ERROR_EPERM
      | Flag_TimedOut \<Rightarrow> KERNEL_ERROR_ETIMEDOUT
      | Flag_Canceled \<Rightarrow> KERNEL_ERROR_ECANCELED
      | Flag_Deleted \<Rightarrow> KERNEL_ERROR_EACCES)"

definition poll_flag_code :: "ef_result \<Rightarrow> int" where
  "poll_flag_code r =
     (case r of
        Flag_Ok \<Rightarrow> OK
      | Flag_AlreadyWaiting \<Rightarrow> KERNEL_ERROR_EPERM
      | Flag_TimedOut \<Rightarrow> KERNEL_ERROR_EBUSY
      | Flag_Canceled \<Rightarrow> KERNEL_ERROR_EBUSY
      | Flag_Deleted \<Rightarrow> KERNEL_ERROR_EBUSY)"

text \<open>
  The waiting entry points up to the return or the block of \<open>Wait\<close> (\<open>None\<close> as the code while
  blocked), with the pattern stored through \<open>result_pat\<close>.
\<close>

type_synonym flag_call = "event_flag option \<times> int option \<times> u64 option"

definition KernelWaitEventFlag ::
    "event_flag option \<Rightarrow> u64 \<Rightarrow> u32 \<Rightarrow> u32 option \<Rightarrow> flag_call outcome" where
  "KernelWaitEventFlag ef bit_pattern mode timeout =
     (case ef of
        None \<Rightarrow> Inr (None, Some KERNEL_ERROR_ESRCH, None)
      | Some f \<Rightarrow>
          if bit_pattern = 0 then Inr (Some f, Some KERNEL_ERROR_EINVAL, None)
          else bind_outcome (DecodeEventFlagWaitMode mode) (\<lambda>(wait, clear).
            case ef_wait_enter f bit_pattern wait clear timeout of
              (f', Flag_Returned r res p) \<Rightarrow> Inr (Some f', Some (wait_flag_code r), res)
            | (f', Flag_Blocked) \<Rightarrow> Inr (Some f', None, None)))"

definition KernelPollEventFlag ::
    "event_flag option \<Rightarrow> u64 \<Rightarrow> u32 \<Rightarrow> flag_call outcome" where
  "KernelPollEventFlag ef bit_pattern mode =
     (case ef of
        None \<Rightarrow> Inr (None, Some KERNEL_ERROR_ESRCH, None)
      | Some f \<Rightarrow>
          if bit_pattern = 0 then Inr (Some f, Some KERNEL_ERROR_EINVAL, None)
          else bind_outcome (DecodeEventFlagWaitMode mode) (\<lambda>(wait, clear).
            case ef_Poll f bit_pattern wait clear of
              (f', Flag_Returned r res p) \<Rightarrow> Inr (Some f', Some (poll_flag_code r), res)
            | (f', Flag_Blocked) \<Rightarrow> Inr (Some f', None, None)))"

text \<open>
  The entry points that change the flag: an exit on a deleted flag, \<open>None\<close> as the code while the
  call spins.
\<close>

definition flag_update ::
    "event_flag option \<Rightarrow> (event_flag \<Rightarrow> event_flag option) \<Rightarrow> (event_flag option \<times> int option) outcome" where
  "flag_update ef upd =
     (case ef of
        None \<Rightarrow> Inr (None, Some KERNEL_ERROR_ESRCH)
      | Some f \<Rightarrow> bind_outcome (ef_check_deleted f) (\<lambda>_.
          case upd f of None \<Rightarrow> Inr (Some f, None) | Some f' \<Rightarrow> Inr (Some f', Some OK)))"

definition KernelSetEventFlag ::
    "event_flag option \<Rightarrow> u64 \<Rightarrow> (event_flag option \<times> int option) outcome" where
  "KernelSetEventFlag ef bit_pattern = flag_update ef (\<lambda>f. ef_Set f bit_pattern)"

definition KernelClearEventFlag ::
    "event_flag option \<Rightarrow> u64 \<Rightarrow> (event_flag option \<times> int option) outcome" where
  "KernelClearEventFlag ef bit_pattern = flag_update ef (\<lambda>f. ef_Clear f bit_pattern)"

definition KernelCancelEventFlag ::
    "event_flag option \<Rightarrow> u64 \<Rightarrow> (event_flag option \<times> int option) outcome" where
  "KernelCancelEventFlag ef set_pattern =
     flag_update ef (\<lambda>f. map_option fst (ef_Cancel f set_pattern))"

definition KernelDeleteEventFlag :: "event_flag option \<Rightarrow> event_flag option \<times> int option" where
  "KernelDeleteEventFlag ef =
     (case ef of
        None \<Rightarrow> (None, Some KERNEL_ERROR_ESRCH)
      | Some f \<Rightarrow>
          (case ef_destroy f of None \<Rightarrow> (Some f, None) | Some f' \<Rightarrow> (Some f', Some OK)))"

section \<open>The object with its callers\<close>

text \<open>
  \<open>fs_waits\<close> holds the calls blocked in \<open>Wait\<close>: their arguments and whether a \<open>SignalAll\<close> came
  since they blocked. A blocked call may look again at any time (the condition variable polls,
  and a timed wait expires), signalled or not. \<open>fs_cancelling\<close>: a call of \<open>Cancel\<close> is in its
  second loop.
\<close>

type_synonym flag_wait = "u64 \<times> wait_mode \<times> clear_mode \<times> u32 option \<times> bool"

record flag_sys =
  fs_flag :: event_flag
  fs_waits :: "nat \<Rightarrow> flag_wait option"
  fs_cancelling :: bool

definition signal_all :: "(nat \<Rightarrow> flag_wait option) \<Rightarrow> nat \<Rightarrow> flag_wait option" where
  "signal_all ws t = map_option (\<lambda>(bits, wait, clear, p, n). (bits, wait, clear, p, True)) (ws t)"

inductive flag_step :: "flag_sys \<Rightarrow> flag_sys \<Rightarrow> bool" where
  flag_wait_return:
    "ef_wait_enter (fs_flag y) bits wait clear p = (f', Flag_Returned r res p') \<Longrightarrow>
       flag_step y (y\<lparr>fs_flag := f'\<rparr>)"
| flag_wait_block:
    "fs_waits y t = None \<Longrightarrow> ef_wait_enter (fs_flag y) bits wait clear p = (f', Flag_Blocked) \<Longrightarrow>
       flag_step y (y\<lparr>fs_flag := f', fs_waits := (fs_waits y)(t \<mapsto> (bits, wait, clear, p, False))\<rparr>)"
| flag_wake_return:
    "fs_waits y t = Some (bits, wait, clear, p, n) \<Longrightarrow>
       ef_wait_wake (fs_flag y) bits wait clear p elapsed = (f', Flag_Returned r res p') \<Longrightarrow>
       flag_step y (y\<lparr>fs_flag := f', fs_waits := (fs_waits y)(t := None)\<rparr>)"
| flag_wake_block:
    "fs_waits y t = Some (bits, wait, clear, p, n) \<Longrightarrow>
       ef_wait_wake (fs_flag y) bits wait clear p elapsed = (f', Flag_Blocked) \<Longrightarrow>
       flag_step y (y\<lparr>fs_flag := f', fs_waits := (fs_waits y)(t \<mapsto> (bits, wait, clear, p, False))\<rparr>)"
| flag_set:
    "ef_Set (fs_flag y) bits = Some f' \<Longrightarrow>
       flag_step y (y\<lparr>fs_flag := f', fs_waits := signal_all (fs_waits y)\<rparr>)"
| flag_clear:
    "ef_Clear (fs_flag y) bits = Some f' \<Longrightarrow> flag_step y (y\<lparr>fs_flag := f'\<rparr>)"
| flag_cancel:
    "ef_Cancel (fs_flag y) bits = Some (f', k) \<Longrightarrow>
       flag_step y (y\<lparr>fs_flag := f', fs_waits := signal_all (fs_waits y), fs_cancelling := True\<rparr>)"
| flag_cancel_end:
    "fs_cancelling y \<Longrightarrow> ef_Cancel_end (fs_flag y) = Some f' \<Longrightarrow>
       flag_step y (y\<lparr>fs_flag := f', fs_cancelling := False\<rparr>)"
| flag_destroy:
    "ef_destroy (fs_flag y) = Some f' \<Longrightarrow>
       flag_step y (y\<lparr>fs_flag := f', fs_waits := signal_all (fs_waits y)\<rparr>)"

definition flag_init :: "flag_sys \<Rightarrow> bool" where
  "flag_init y \<longleftrightarrow>
     (\<exists>name attr pat f. KernelCreateEventFlag False name attr pat False = (Some f, OK) \<and>
        y = \<lparr>fs_flag = f, fs_waits = Map.empty, fs_cancelling = False\<rparr>)"

definition flag_sys_inv :: "flag_sys \<Rightarrow> bool" where
  "flag_sys_inv y \<longleftrightarrow>
     finite (dom (fs_waits y)) \<and>
     ef_waiting_threads (fs_flag y) = int (card (dom (fs_waits y))) \<and>
     (ef_single_thread (fs_flag y) \<longrightarrow> card (dom (fs_waits y)) \<le> 1) \<and>
     (ef_status (fs_flag y) = Status_Canceled \<longleftrightarrow> fs_cancelling y) \<and>
     (\<forall>t bits wait clear p. fs_waits y t = Some (bits, wait, clear, p, False) \<longrightarrow>
        \<not> ef_satisfied wait bits (ef_bits (fs_flag y)))"

section \<open>Lemmas\<close>

lemma dom_signal_all [simp]: "dom (signal_all ws) = dom ws"
  by (auto simp: signal_all_def)

lemma signal_all_flagged [simp]: "signal_all ws t \<noteq> Some (bits, wait, clear, p, False)"
  by (auto simp: signal_all_def)

lemma ef_satisfied_and:
  assumes "\<not> ef_satisfied wait bits m"
  shows "\<not> ef_satisfied wait bits (m AND k)"
proof
  assume sat: "ef_satisfied wait bits (m AND k)"
  then have "wait = Wait_Or \<and> (m AND k) AND bits \<noteq> 0 \<or> wait = Wait_And \<and> (m AND k) AND bits = bits"
    by (auto simp: ef_satisfied_def)
  then show False
  proof
    assume "wait = Wait_Or \<and> (m AND k) AND bits \<noteq> 0"
    then have "wait = Wait_Or" "(m AND bits) AND k \<noteq> 0"
      by (simp_all add: ac_simps)
    with assms show False by (auto simp: ef_satisfied_def)
  next
    assume l: "wait = Wait_And \<and> (m AND k) AND bits = bits"
    then have "m AND bits = m AND ((m AND k) AND bits)" by simp
    also have "\<dots> = (m AND k) AND bits" by (metis and.assoc and.left_idem)
    finally show False using assms l by (simp add: ef_satisfied_def)
  qed
qed

lemma ef_satisfied_zero: "\<not> ef_satisfied wait bits m \<Longrightarrow> \<not> ef_satisfied wait bits 0"
  using ef_satisfied_and [of wait bits m 0] by simp

lemma ef_satisfied_clear:
  "\<not> ef_satisfied wait bits m \<Longrightarrow> \<not> ef_satisfied wait bits (ef_clear clear k m)"
  by (auto simp: ef_clear_def ef_satisfied_and ef_satisfied_zero split: clear_mode.splits)

lemma ef_wait_loop_cases:
  assumes "ef_wait_loop f bits wait clear p elapsed = (f', out)"
  obtains (timed_out) "out = Flag_Returned Flag_TimedOut (Some (ef_bits f)) (update_timeout p elapsed)"
      "f' = f" "\<not> ef_satisfied wait bits (ef_bits f)"
  | (blocked) "out = Flag_Blocked" "f' = f\<lparr>ef_waiting_threads := ef_waiting_threads f + 1\<rparr>"
      "\<not> ef_satisfied wait bits (ef_bits f)"
  | (granted) "out = Flag_Returned Flag_Ok (Some (ef_bits f)) (update_timeout p elapsed)"
      "f' = f\<lparr>ef_bits := ef_clear clear bits (ef_bits f)\<rparr>" "ef_satisfied wait bits (ef_bits f)"
proof (cases "ef_satisfied wait bits (ef_bits f)")
  case True
  with assms show thesis by (intro granted) (simp_all add: ef_wait_loop_def)
next
  case False
  show thesis
  proof (cases "\<exists>micros. p = Some micros \<and> elapsed \<ge> micros")
    case True
    with assms False show thesis by (intro timed_out) (auto simp: ef_wait_loop_def)
  next
    case no: False
    with assms False show thesis
      by (intro blocked) (simp_all add: ef_wait_loop_def split: option.splits)
  qed
qed

lemma ef_wait_enter_cases:
  assumes "ef_wait_enter f bits wait clear p = (f', out)"
  obtains (busy) "out = Flag_Returned Flag_AlreadyWaiting None p" "f' = f"
      "ef_single_thread f" "ef_waiting_threads f > 0"
  | (loop) "ef_wait_loop f bits wait clear p 0 = (f', out)"
      "ef_single_thread f \<longrightarrow> ef_waiting_threads f \<le> 0"
  using assms busy loop
  by (cases "ef_single_thread f \<and> ef_waiting_threads f > 0") (simp_all add: ef_wait_enter_def, linarith)

lemma ef_wait_wake_cases:
  assumes "ef_wait_wake f bits wait clear p elapsed = (f', out)"
  obtains (ended) r where "out = Flag_Returned r (Some (ef_bits f)) (update_timeout p elapsed)"
      "f' = f\<lparr>ef_waiting_threads := ef_waiting_threads f - 1\<rparr>"
      "(ef_status f, r) \<in> {(Status_Canceled, Flag_Canceled), (Status_Deleted, Flag_Deleted)}"
  | (loop) "ef_status f = Status_Set"
      "ef_wait_loop (f\<lparr>ef_waiting_threads := ef_waiting_threads f - 1\<rparr>) bits wait clear p elapsed = (f', out)"
  using assms ended loop by (cases "ef_status f") (simp_all add: ef_wait_wake_def Let_def)

lemma flag_step_inv:
  assumes inv: "flag_sys_inv y" and step: "flag_step y z"
  shows "flag_sys_inv z"
  using step
proof cases
  case (flag_wait_return bits wait clear p f' r res p')
  show ?thesis using flag_wait_return(2)
  proof (cases rule: ef_wait_enter_cases)
    case busy
    with inv flag_wait_return(1) show ?thesis by simp
  next
    case loop
    from loop(1) inv flag_wait_return(1) show ?thesis
      by (cases rule: ef_wait_loop_cases) (simp_all add: flag_sys_inv_def ef_satisfied_clear)
  qed
next
  case (flag_wait_block t bits wait clear p f')
  from flag_wait_block(3) obtain l: "ef_wait_loop (fs_flag y) bits wait clear p 0 = (f', Flag_Blocked)"
    and single: "ef_single_thread (fs_flag y) \<longrightarrow> ef_waiting_threads (fs_flag y) \<le> 0"
    by (cases rule: ef_wait_enter_cases) simp_all
  from l inv single flag_wait_block(1,2) show ?thesis
    by (cases rule: ef_wait_loop_cases) (auto simp: flag_sys_inv_def domIff)
next
  case (flag_wake_return t bits wait clear p n elapsed f' r res p')
  then have t: "t \<in> dom (fs_waits y)" by auto
  have fin: "finite (dom (fs_waits y))"
    and cnt: "ef_waiting_threads (fs_flag y) = int (card (dom (fs_waits y)))"
    using inv by (simp_all add: flag_sys_inv_def)
  have card: "int (card (dom (fs_waits y) - {t})) = ef_waiting_threads (fs_flag y) - 1"
    using int_card_remove [OF fin t] cnt by simp
  have le: "card (dom (fs_waits y) - {t}) \<le> card (dom (fs_waits y))"
    using fin by (simp add: card_mono)
  show ?thesis using flag_wake_return(3)
  proof (cases rule: ef_wait_wake_cases)
    case (ended r)
    with inv card le flag_wake_return(1) show ?thesis by (auto simp: flag_sys_inv_def simp del: card_Diff_insert)
  next
    case loop
    from loop(2) inv card le flag_wake_return(1) show ?thesis
      by (cases rule: ef_wait_loop_cases)
         (auto simp: flag_sys_inv_def ef_satisfied_clear simp del: card_Diff_insert)
  qed
next
  case (flag_wake_block t bits wait clear p n elapsed f')
  from flag_wake_block(3) have l: "ef_wait_loop (fs_flag y\<lparr>ef_waiting_threads :=
    ef_waiting_threads (fs_flag y) - 1\<rparr>) bits wait clear p elapsed = (f', Flag_Blocked)"
    by (cases rule: ef_wait_wake_cases) simp_all
  have "insert t (dom (fs_waits y)) = dom (fs_waits y)" using flag_wake_block(2) by auto
  with l inv flag_wake_block(1) show ?thesis
    by (cases rule: ef_wait_loop_cases) (auto simp: flag_sys_inv_def)
next
  case (flag_set bits f')
  with inv show ?thesis by (auto simp: flag_sys_inv_def ef_Set_def split: if_splits)
next
  case (flag_clear bits f')
  then have "ef_status (fs_flag y) = Status_Set"
    "f' = fs_flag y\<lparr>ef_bits := ef_bits (fs_flag y) AND bits\<rparr>"
    by (simp_all add: ef_Clear_def split: if_splits)
  with inv flag_clear(1) show ?thesis
    by (simp add: flag_sys_inv_def) (metis ef_satisfied_and)
next
  case (flag_cancel bits f' k)
  with inv show ?thesis by (auto simp: flag_sys_inv_def ef_Cancel_def split: if_splits)
next
  case (flag_cancel_end f')
  with inv show ?thesis by (auto simp: flag_sys_inv_def ef_Cancel_end_def split: if_splits)
next
  case (flag_destroy f')
  with inv show ?thesis by (auto simp: flag_sys_inv_def ef_destroy_def split: if_splits)
qed

lemma flag_init_inv: "flag_init y \<Longrightarrow> flag_sys_inv y"
  by (auto simp: flag_init_def flag_sys_inv_def KernelCreateEventFlag_def new_event_flag_def
      split: if_splits)

interpretation event_flag: step_invariant flag_init flag_step flag_sys_inv
  by unfold_locales (auto intro: flag_init_inv flag_step_inv)

abbreviation flag_reachable :: "flag_sys \<Rightarrow> bool" where
  "flag_reachable \<equiv> reachable flag_init flag_step"

section \<open>Properties\<close>

text \<open>A run used by the witnesses: one call blocked, waiting for both low bits.\<close>

definition flag_example :: flag_sys where
  "flag_example = \<lparr>fs_flag = (new_event_flag True 1)\<lparr>ef_waiting_threads := 1\<rparr>,
     fs_waits = [5 \<mapsto> (3, Wait_And, Clear_All, None, False)], fs_cancelling = False\<rparr>"

lemma flag_example_reachable: "flag_reachable flag_example"
proof -
  let ?y = "\<lparr>fs_flag = new_event_flag True 1, fs_waits = Map.empty, fs_cancelling = False\<rparr>"
  have "KernelCreateEventFlag False (Some []) 1 1 False = (Some (new_event_flag True 1), OK)"
    by (simp add: KernelCreateEventFlag_def)
  then have "flag_init ?y" unfolding flag_init_def by blast
  moreover have "flag_step ?y flag_example"
    using flag_wait_block [of ?y 5 3 Wait_And Clear_All None "fs_flag flag_example"]
    by (simp add: flag_example_def ef_wait_enter_def ef_wait_loop_def ef_satisfied_def
        new_event_flag_def)
  ultimately show ?thesis by (blast intro: reachable.intros)
qed

text \<open>
  C17: no lost wakeup. In every reachable state of an event flag, a call that is blocked and has not
  been signalled since it blocked waits for a pattern the current bits do not satisfy.
\<close>

theorem flag_no_lost_wakeup:
  assumes "flag_reachable y" and "fs_waits y t = Some (bits, wait, clear, p, False)"
  shows "\<not> ef_satisfied wait bits (ef_bits (fs_flag y))"
  using event_flag.reachable_inv [OF assms(1)] assms(2) by (simp add: flag_sys_inv_def) blast

theorem flag_no_lost_wakeup_witness:
  "\<not> ef_satisfied Wait_And 3 (ef_bits (fs_flag flag_example))"
  by (rule flag_no_lost_wakeup [OF flag_example_reachable, of 5 3 Wait_And Clear_All None])
     (simp add: flag_example_def)

text \<open>
  The waiter count and the single-thread rule. In every reachable state \<open>m_waiting_threads\<close> is
  the number of blocked calls, and on a flag created for a single thread there is at most one.
\<close>

theorem flag_waiters_counted:
  assumes "flag_reachable y"
  shows "ef_waiting_threads (fs_flag y) = int (card (dom (fs_waits y))) \<and>
         (ef_single_thread (fs_flag y) \<longrightarrow> card (dom (fs_waits y)) \<le> 1)"
  using event_flag.reachable_inv [OF assms] by (simp add: flag_sys_inv_def)

theorem flag_waiters_counted_witness:
  "ef_waiting_threads (fs_flag flag_example) = int (card (dom (fs_waits flag_example)))"
  using flag_waiters_counted [OF flag_example_reachable] by simp

text \<open>
  C23: cancellation drains. While a flag is being cancelled, every blocked call returns \<open>Canceled\<close>
  at its next look, with the cancelled bits, and lowers the count the canceller waits on; at zero the
  canceller goes on and the flag is set again, its bits those of the cancel.
\<close>

theorem flag_cancel_drains:
  assumes "flag_reachable y" and "fs_cancelling y"
  shows "(\<forall>t bits wait clear p n elapsed. fs_waits y t = Some (bits, wait, clear, p, n) \<longrightarrow>
            (\<exists>f' p'. ef_wait_wake (fs_flag y) bits wait clear p elapsed =
               (f', Flag_Returned Flag_Canceled (Some (ef_bits (fs_flag y))) p') \<and>
               ef_waiting_threads f' = int (card (dom (fs_waits y) - {t})))) \<and>
         (dom (fs_waits y) = {} \<longrightarrow>
            ef_Cancel_end (fs_flag y) = Some (fs_flag y\<lparr>ef_status := Status_Set\<rparr>))"
proof -
  from assms have inv: "flag_sys_inv y" "ef_status (fs_flag y) = Status_Canceled"
    using event_flag.reachable_inv [OF assms(1)] by (auto simp: flag_sys_inv_def)
  have "int (card (dom (fs_waits y) - {t})) = ef_waiting_threads (fs_flag y) - 1"
    if "fs_waits y t = Some v" for t v
    using inv(1) int_card_remove [of "dom (fs_waits y)" t] domI [of "fs_waits y" t v, OF that]
    by (simp add: flag_sys_inv_def)
  with inv show ?thesis
    by (simp add: ef_wait_wake_def Let_def ef_Cancel_end_def flag_sys_inv_def del: card_Diff_insert)
qed

theorem flag_cancel_drains_witness:
  "\<exists>f' p'. ef_wait_wake (fst (the (ef_Cancel (fs_flag flag_example) 8))) 3 Wait_And Clear_All None 9 =
     (f', Flag_Returned Flag_Canceled (Some 8) p') \<and> ef_waiting_threads f' = 0"
proof -
  let ?f = "fst (the (ef_Cancel (fs_flag flag_example) 8))"
  let ?z = "\<lparr>fs_flag = ?f, fs_waits = signal_all (fs_waits flag_example), fs_cancelling = True\<rparr>"
  have "ef_Cancel (fs_flag flag_example) 8 = Some (?f, 1)"
    by (simp add: ef_Cancel_def flag_example_def new_event_flag_def)
  then have "flag_step flag_example
      (flag_example\<lparr>fs_flag := ?f, fs_waits := signal_all (fs_waits flag_example),
                    fs_cancelling := True\<rparr>)"
    by (rule flag_cancel)
  then have "flag_step flag_example ?z" by (simp add: flag_example_def)
  then have "flag_reachable ?z"
    by (rule reachable_step [OF flag_example_reachable])
  moreover have "fs_waits ?z 5 = Some (3, Wait_And, Clear_All, None, True)"
    by (simp add: signal_all_def flag_example_def)
  ultimately have "\<exists>f' p'. ef_wait_wake (fs_flag ?z) 3 Wait_And Clear_All None 9 =
      (f', Flag_Returned Flag_Canceled (Some (ef_bits (fs_flag ?z))) p') \<and>
      ef_waiting_threads f' = int (card (dom (fs_waits ?z) - {5}))"
    using flag_cancel_drains [of ?z] by simp blast
  then show ?thesis
    by (simp add: flag_example_def ef_Cancel_def new_event_flag_def)
qed

text \<open>
  A wait takes the bits atomically. \<open>Wait\<close> on a flag nobody else blocks returns \<open>Ok\<close> exactly when
  the pattern is there, with the bits before clearing as its result and the clear mode applied, and
  \<open>Poll\<close> never blocks: without the pattern it returns \<open>TimedOut\<close> and leaves the flag as it was.
\<close>

theorem flag_poll_atomic:
  assumes "\<not> (ef_single_thread f \<and> ef_waiting_threads f > 0)"
  shows "ef_Poll f bits wait clear =
           (if ef_satisfied wait bits (ef_bits f)
            then (f\<lparr>ef_bits := ef_clear clear bits (ef_bits f)\<rparr>,
                  Flag_Returned Flag_Ok (Some (ef_bits f)) (Some 0))
            else (f, Flag_Returned Flag_TimedOut (Some (ef_bits f)) (Some 0))) \<and>
         (fst (ef_Poll f bits wait Clear_Bits) = f\<lparr>ef_bits := ef_bits f AND NOT bits\<rparr> \<or>
          snd (ef_Poll f bits wait Clear_Bits) = Flag_Returned Flag_TimedOut (Some (ef_bits f)) (Some 0))"
  using assms by (auto simp: ef_Poll_def ef_wait_enter_def ef_wait_loop_def update_timeout_def ef_clear_def)

theorem flag_poll_atomic_witness:
  "ef_Poll (new_event_flag True 7) 3 Wait_And Clear_Bits =
     ((new_event_flag True 7)\<lparr>ef_bits := 4\<rparr>, Flag_Returned Flag_Ok (Some 7) (Some 0))"
  using flag_poll_atomic [of "new_event_flag True 7" 3 Wait_And Clear_Bits]
  by (simp add: new_event_flag_def ef_satisfied_def ef_clear_def)

end
