(* ===== verification/EventQueue.thy ===== *)
theory EventQueue
  imports KernelErrors
begin

text \<open>
  The event queues of src/src/kernel/eventQueue.cpp (class \<open>KernelEqueuePrivate\<close>, the handle table and
  the \<open>Kernel*\<close> entry points), with the event kinds that graphics interrupts (host_gpu/renderer/sync.cpp)
  and video output (presentation/videoOut.cpp) register through their callbacks. The pointers to
  callbacks are names of the callbacks the sources install. Every method runs under \<open>m_mutex\<close>;
  \<open>WaitForEvents\<close> is split at its condition variable.
\<close>

section \<open>Events\<close>

definition EV_ADD :: u16 where "EV_ADD = 0x01"
definition EV_ONESHOT :: u16 where "EV_ONESHOT = 0x10"
definition EV_CLEAR :: u16 where "EV_CLEAR = 0x20"
definition EV_ERROR :: u16 where "EV_ERROR = 0x4000"

definition KERNEL_EVFILT_USER :: int where "KERNEL_EVFILT_USER = -11"
definition KERNEL_EVFILT_GRAPHICS :: int where "KERNEL_EVFILT_GRAPHICS = -14"
definition KERNEL_EVFILT_VIDEO_OUT :: int where "KERNEL_EVFILT_VIDEO_OUT = -13"
definition KERNEL_EVFILT_HRTIMER :: int where "KERNEL_EVFILT_HRTIMER = -15"

lemmas event_constants = EV_ADD_def EV_ONESHOT_def EV_CLEAR_def EV_ERROR_def
  KERNEL_EVFILT_USER_def KERNEL_EVFILT_GRAPHICS_def KERNEL_EVFILT_VIDEO_OUT_def
  KERNEL_EVFILT_HRTIMER_def

record kevent =
  ke_ident :: u64
  ke_filter :: int
  ke_flags :: u16
  ke_fflags :: u32
  ke_data :: u64
  ke_udata :: u64

datatype trigger_func = TF_User | TF_Ampr | TF_Interrupt | TF_VideoOut
datatype reset_func = RF_User | RF_Interrupt | RF_VideoOut
datatype delete_func = DF_VideoOut

record eq_event =
  e_triggered :: bool
  e_deadline_ns :: u64
  e_event :: kevent
  e_trigger_func :: "trigger_func option"
  e_reset_func :: "reset_func option"
  e_delete_func :: "delete_func option"
  e_pending :: "kevent list"

section \<open>Callbacks\<close>

definition UserEventTriggerFunc :: "eq_event \<Rightarrow> u64 \<Rightarrow> eq_event" where
  "UserEventTriggerFunc e trigger_data =
     e\<lparr>e_triggered := True,
       e_event := (e_event e)\<lparr>ke_data := trigger_data, ke_udata := trigger_data\<rparr>\<rparr>"

definition push_triggered :: "eq_event \<Rightarrow> kevent \<Rightarrow> eq_event" where
  "push_triggered e k =
     (if e_triggered e then e\<lparr>e_pending := e_pending e @ [k]\<rparr>
      else e\<lparr>e_event := k, e_triggered := True\<rparr>)"

definition AmprEventTriggerFunc :: "eq_event \<Rightarrow> u64 \<Rightarrow> eq_event" where
  "AmprEventTriggerFunc e trigger_data =
     push_triggered e ((e_event e)\<lparr>ke_data := trigger_data\<rparr>)"

definition InterruptEventTriggerFunc :: "eq_event \<Rightarrow> u64 \<Rightarrow> eq_event" where
  "InterruptEventTriggerFunc e trigger_data =
     push_triggered e ((e_event e)\<lparr>ke_fflags := ke_fflags (e_event e) + 1, ke_data := trigger_data\<rparr>)"

text \<open>\<open>tsc\<close> is the time-stamp counter \<open>KernelReadTsc\<close> returns.\<close>

definition MakeVideoOutEventData :: "u64 \<Rightarrow> u64 \<Rightarrow> u64 \<Rightarrow> u64" where
  "MakeVideoOutEventData tsc current_data trigger_data =
     (let counter = drop_bit 12 current_data AND 0xf;
          counter = (if counter \<noteq> 0xf then counter + 1 else counter);
          time = tsc AND 0xfff
      in time OR push_bit 12 counter OR push_bit 16 (trigger_data AND 0x0000ffffffffffff))"

definition TriggerVideoOutEvent :: "u64 \<Rightarrow> eq_event \<Rightarrow> u64 \<Rightarrow> eq_event" where
  "TriggerVideoOutEvent tsc e trigger_data =
     (let k = e_event e
      in push_triggered e
           (k\<lparr>ke_fflags := (if ke_fflags k < 0xf then ke_fflags k + 1 else ke_fflags k),
              ke_data := MakeVideoOutEventData tsc (ke_data k) trigger_data\<rparr>))"

definition clear_event :: "eq_event \<Rightarrow> eq_event" where
  "clear_event e =
     e\<lparr>e_triggered := False, e_event := (e_event e)\<lparr>ke_fflags := 0, ke_data := 0\<rparr>\<rparr>"

definition UserEventResetFunc :: "eq_event \<Rightarrow> eq_event" where
  "UserEventResetFunc e = (if ke_flags (e_event e) AND EV_CLEAR \<noteq> 0 then clear_event e else e)"

definition InterruptEventResetFunc :: "eq_event \<Rightarrow> eq_event" where
  "InterruptEventResetFunc e = clear_event e"

definition ResetVideoOutEvent :: "eq_event \<Rightarrow> eq_event" where
  "ResetVideoOutEvent e = clear_event e"

definition call_trigger :: "u64 \<Rightarrow> eq_event \<Rightarrow> u64 \<Rightarrow> eq_event" where
  "call_trigger tsc e trigger_data =
     (case e_trigger_func e of
        None \<Rightarrow> e\<lparr>e_triggered := True\<rparr>
      | Some TF_User \<Rightarrow> UserEventTriggerFunc e trigger_data
      | Some TF_Ampr \<Rightarrow> AmprEventTriggerFunc e trigger_data
      | Some TF_Interrupt \<Rightarrow> InterruptEventTriggerFunc e trigger_data
      | Some TF_VideoOut \<Rightarrow> TriggerVideoOutEvent tsc e trigger_data)"

definition call_reset :: "eq_event \<Rightarrow> eq_event" where
  "call_reset e =
     (case e_reset_func e of
        None \<Rightarrow> if ke_flags (e_event e) AND EV_CLEAR \<noteq> 0 then clear_event e else e
      | Some RF_User \<Rightarrow> UserEventResetFunc e
      | Some RF_Interrupt \<Rightarrow> InterruptEventResetFunc e
      | Some RF_VideoOut \<Rightarrow> ResetVideoOutEvent e)"

section \<open>The queue\<close>

record equeue =
  q_handle :: int
  q_closed :: bool
  q_events :: "eq_event list"

definition new_equeue :: "int \<Rightarrow> equeue" where
  "new_equeue h = \<lparr>q_handle = h, q_closed = False, q_events = []\<rparr>"

text \<open>\<open>Close\<close>, with the events whose delete callback it calls.\<close>

definition Close :: "equeue \<Rightarrow> equeue \<times> eq_event list" where
  "Close q =
     (if q_closed q then (q, [])
      else (q\<lparr>q_closed := True, q_events := []\<rparr>,
            filter (\<lambda>e. e_delete_func e \<noteq> None) (q_events q)))"

definition TriggerExpiredTimers :: "u64 \<Rightarrow> eq_event list \<Rightarrow> eq_event list" where
  "TriggerExpiredTimers now_ns es =
     map (\<lambda>e. if \<not> e_triggered e \<and> e_deadline_ns e \<noteq> 0 \<and> e_deadline_ns e \<le> now_ns
              then e\<lparr>e_triggered := True\<rparr> else e) es"

definition pop_pending :: "eq_event \<Rightarrow> eq_event" where
  "pop_pending e =
     (case e_pending e of
        [] \<Rightarrow> e
      | k # ks \<Rightarrow> e\<lparr>e_event := k, e_pending := ks, e_triggered := True\<rparr>)"

text \<open>
  The inner \<open>while\<close> of \<open>GetTriggeredEvents\<close> on one event, with room for so many more: what it stores,
  the event after it, and whether the event is erased. Then the loop over the events.
\<close>

fun drain_event :: "nat \<Rightarrow> eq_event \<Rightarrow> kevent list \<times> eq_event \<times> bool" where
  "drain_event 0 e = ([], e, False)"
| "drain_event (Suc room) e =
     (if \<not> e_triggered e then ([], e, False)
      else if ke_flags (e_event e) AND EV_ONESHOT \<noteq> 0 then ([e_event e], e, True)
      else let (ks, e', erase) = drain_event room (pop_pending (call_reset e))
           in (e_event e # ks, e', erase))"

fun scan_events :: "nat \<Rightarrow> eq_event list \<Rightarrow> kevent list \<times> eq_event list" where
  "scan_events room [] = ([], [])"
| "scan_events room (e # es) =
     (let (ks, e', erase) = drain_event room e;
          kept = (if erase then [] else [e'])
      in if length ks \<ge> room then (ks, kept @ es)
         else let (ks', es') = scan_events (room - length ks) es in (ks @ ks', kept @ es'))"

definition GetTriggeredEvents :: "equeue \<Rightarrow> u64 \<Rightarrow> int \<Rightarrow> (equeue \<times> int \<times> kevent list) outcome" where
  "GetTriggeredEvents q now_ns num =
     exit_if (num < 1)
       (if q_closed q then Inr (q, KERNEL_ERROR_EBADF, [])
        else let (ks, es) = scan_events (nat num) (TriggerExpiredTimers now_ns (q_events q))
             in Inr (q\<lparr>q_events := es\<rparr>, int (length ks), ks))"

fun nearest_deadline :: "eq_event list \<Rightarrow> u64" where
  "nearest_deadline [] = 0xffffffffffffffff"
| "nearest_deadline (e # es) =
     (if \<not> e_triggered e \<and> e_deadline_ns e \<noteq> 0 then min (e_deadline_ns e) (nearest_deadline es)
      else nearest_deadline es)"

definition GetNextTimerWaitMicros :: "equeue \<Rightarrow> u64 \<Rightarrow> u32 option" where
  "GetNextTimerWaitMicros q now_ns =
     (let nearest = nearest_deadline (q_events q)
      in if nearest = 0xffffffffffffffff then None
         else let remaining_ns = (if nearest > now_ns then nearest - now_ns else 0);
                  rounded_us = max 1 ((remaining_ns + 999) div 1000)
              in Some (ucast (min rounded_us 0xffffffff)))"

text \<open>
  One turn of the loop of \<open>WaitForEvents\<close>: it returns, or sleeps on the condition variable for some
  microseconds (\<open>None\<close>: until signalled). \<open>now\<close> and \<open>now'\<close> are the two clock readings.
\<close>

datatype wait_turn_result = Turn_Returned int "kevent list" | Turn_Sleeps "u32 option"

definition wait_turn :: "equeue \<Rightarrow> int \<Rightarrow> u32 \<Rightarrow> u32 \<Rightarrow> u64 \<Rightarrow> u64 \<Rightarrow> (equeue \<times> wait_turn_result) outcome" where
  "wait_turn q num micros elapsed now now' =
     bind_outcome (GetTriggeredEvents q now num) (\<lambda>(q, ret, ks).
       if ret \<noteq> 0 \<or> (elapsed \<ge> micros \<and> micros \<noteq> 0) then Inr (q, Turn_Returned ret ks)
       else let timer = GetNextTimerWaitMicros q now'
            in if micros = 0 \<and> timer = None then Inr (q, Turn_Sleeps None)
               else let external_wait = (if micros \<noteq> 0 then micros - elapsed else 0xffffffff)
                    in Inr (q, Turn_Sleeps (Some
                         (case timer of None \<Rightarrow> external_wait | Some t \<Rightarrow> min external_wait t))))"

definition WaitForEvents_enter ::
    "equeue \<Rightarrow> int \<Rightarrow> u32 \<Rightarrow> u64 \<Rightarrow> u64 \<Rightarrow> (equeue \<times> wait_turn_result) outcome" where
  "WaitForEvents_enter q num micros now now' =
     exit_if (num < 1)
       (if q_closed q then Inr (q, Turn_Returned KERNEL_ERROR_EBADF [])
        else wait_turn q num micros 0 now now')"

definition same_event :: "u64 \<Rightarrow> int \<Rightarrow> eq_event \<Rightarrow> bool" where
  "same_event ident filt e \<longleftrightarrow> ke_ident (e_event e) = ident \<and> ke_filter (e_event e) = filt"

text \<open>Applies an update to the event \<open>find_if\<close> finds, \<open>None\<close> when there is none.\<close>

fun update_event :: "u64 \<Rightarrow> int \<Rightarrow> (eq_event \<Rightarrow> eq_event) \<Rightarrow> eq_event list \<Rightarrow> eq_event list option" where
  "update_event ident filt f [] = None"
| "update_event ident filt f (e # es) =
     (if same_event ident filt e then Some (f e # es)
      else map_option ((#) e) (update_event ident filt f es))"

definition readd_event :: "eq_event \<Rightarrow> eq_event \<Rightarrow> eq_event" where
  "readd_event ev e =
     e\<lparr>e_deadline_ns := e_deadline_ns ev, e_event := (e_event e)\<lparr>ke_udata := ke_udata (e_event ev)\<rparr>,
       e_pending := map (\<lambda>k. k\<lparr>ke_udata := ke_udata (e_event ev)\<rparr>) (e_pending e)\<rparr>"

definition AddEvent :: "equeue \<Rightarrow> eq_event \<Rightarrow> equeue \<times> int" where
  "AddEvent q ev =
     (if q_closed q then (q, KERNEL_ERROR_EBADF)
      else (case update_event (ke_ident (e_event ev)) (ke_filter (e_event ev)) (readd_event ev)
                   (q_events q) of
              Some es \<Rightarrow> (q\<lparr>q_events := es\<rparr>, OK)
            | None \<Rightarrow> (q\<lparr>q_events := q_events q @ [ev]\<rparr>, OK)))"

definition TriggerEvent :: "u64 \<Rightarrow> equeue \<Rightarrow> u64 \<Rightarrow> int \<Rightarrow> u64 \<Rightarrow> equeue \<times> int" where
  "TriggerEvent tsc q ident filt trigger_data =
     (if q_closed q then (q, KERNEL_ERROR_EBADF)
      else (case update_event ident filt (\<lambda>e. call_trigger tsc e trigger_data) (q_events q) of
              Some es \<Rightarrow> (q\<lparr>q_events := es\<rparr>, OK)
            | None \<Rightarrow> (q, KERNEL_ERROR_ENOENT)))"

fun erase_event :: "u64 \<Rightarrow> int \<Rightarrow> eq_event list \<Rightarrow> (eq_event \<times> eq_event list) option" where
  "erase_event ident filt [] = None"
| "erase_event ident filt (e # es) =
     (if same_event ident filt e then Some (e, es)
      else map_option (\<lambda>(x, xs). (x, e # xs)) (erase_event ident filt es))"

text \<open>\<open>DeleteEvent\<close>, with the event whose delete callback it calls.\<close>

definition DeleteEvent :: "equeue \<Rightarrow> u64 \<Rightarrow> int \<Rightarrow> equeue \<times> int \<times> eq_event option" where
  "DeleteEvent q ident filt =
     (if q_closed q then (q, KERNEL_ERROR_EBADF, None)
      else (case erase_event ident filt (q_events q) of
              Some (e, es) \<Rightarrow>
                (q\<lparr>q_events := es\<rparr>, OK, if e_delete_func e \<noteq> None then Some e else None)
            | None \<Rightarrow> (q, KERNEL_ERROR_ENOENT, None)))"

section \<open>The handle table\<close>

text \<open>
  \<open>g_equeues\<close> as the list of its entries, so that the call over all queues can walk it. A pinned queue
  is the queue of its handle: every entry point pins, calls one method and lets go.
\<close>

record equeues =
  g_equeues :: "(int \<times> equeue) list"
  g_next_equeue :: u64

definition KernelPinEqueue :: "equeues \<Rightarrow> int \<Rightarrow> equeue option" where
  "KernelPinEqueue g eq = (if eq = 0 then None else map_of (g_equeues g) eq)"

definition store_equeue :: "equeues \<Rightarrow> int \<Rightarrow> equeue \<Rightarrow> equeues" where
  "store_equeue g eq q =
     g\<lparr>g_equeues := map (\<lambda>(h, p). if h = eq then (h, q) else (h, p)) (g_equeues g)\<rparr>"

definition KernelCreateEqueue :: "equeues \<Rightarrow> bool \<Rightarrow> string option \<Rightarrow> (equeues \<times> int \<times> int option) outcome" where
  "KernelCreateEqueue g eq_is_null name =
     (if eq_is_null \<or> name = None then Inr (g, KERNEL_ERROR_EINVAL, None)
      else exit_if (uint (g_next_equeue g) > 9223372036854775807)
        (let h = uint (g_next_equeue g)
         in Inr (\<lparr>g_equeues = (h, new_equeue h) # g_equeues g, g_next_equeue = g_next_equeue g + 1\<rparr>,
                 OK, Some h)))"

definition KernelAddEvent :: "equeues \<Rightarrow> int \<Rightarrow> eq_event \<Rightarrow> equeues \<times> int" where
  "KernelAddEvent g eq ev =
     (case KernelPinEqueue g eq of
        None \<Rightarrow> (g, KERNEL_ERROR_EBADF)
      | Some q \<Rightarrow> (let (q', r) = AddEvent q ev in (store_equeue g eq q', r)))"

definition KernelTriggerEvent :: "u64 \<Rightarrow> equeues \<Rightarrow> int \<Rightarrow> u64 \<Rightarrow> int \<Rightarrow> u64 \<Rightarrow> equeues \<times> int" where
  "KernelTriggerEvent tsc g eq ident filt trigger_data =
     (case KernelPinEqueue g eq of
        None \<Rightarrow> (g, KERNEL_ERROR_EBADF)
      | Some q \<Rightarrow> (let (q', r) = TriggerEvent tsc q ident filt trigger_data in (store_equeue g eq q', r)))"

definition KernelDeleteEvent :: "equeues \<Rightarrow> int \<Rightarrow> u64 \<Rightarrow> int \<Rightarrow> equeues \<times> int \<times> eq_event option" where
  "KernelDeleteEvent g eq ident filt =
     (case KernelPinEqueue g eq of
        None \<Rightarrow> (g, KERNEL_ERROR_EBADF, None)
      | Some q \<Rightarrow> (let (q', r, c) = DeleteEvent q ident filt in (store_equeue g eq q', r, c)))"

text \<open>\<open>KernelDeleteEqueue\<close>: the third component is the events whose delete callbacks \<open>Close\<close> calls.\<close>

definition KernelDeleteEqueue :: "equeues \<Rightarrow> int \<Rightarrow> equeues \<times> int \<times> eq_event list" where
  "KernelDeleteEqueue g eq =
     (case map_of (g_equeues g) eq of
        None \<Rightarrow> (g, KERNEL_ERROR_EBADF, [])
      | Some q \<Rightarrow>
          (g\<lparr>g_equeues := filter (\<lambda>(h, p). h \<noteq> eq) (g_equeues g)\<rparr>, OK, snd (Close q)))"

text \<open>
  \<open>KernelWaitEqueue\<close> up to the return or the first sleep (\<open>None\<close> as the code), with \<open>*out\<close> and the
  events stored to \<open>ev\<close>.
\<close>

definition wait_code :: "int \<Rightarrow> int" where
  "wait_code out =
     (if out = KERNEL_ERROR_EBADF then KERNEL_ERROR_EBADF
      else if out = 0 then KERNEL_ERROR_ETIMEDOUT else OK)"

definition KernelWaitEqueue ::
    "equeues \<Rightarrow> int \<Rightarrow> bool \<Rightarrow> int \<Rightarrow> bool \<Rightarrow> u32 option \<Rightarrow> u64 \<Rightarrow> u64 \<Rightarrow>
       (equeues \<times> int option \<times> int option \<times> kevent list) outcome" where
  "KernelWaitEqueue g eq ev_is_null num out_is_null timo now now' =
     (case KernelPinEqueue g eq of
        None \<Rightarrow> Inr (g, Some KERNEL_ERROR_EBADF, None, [])
      | Some q \<Rightarrow>
          if ev_is_null then Inr (g, Some KERNEL_ERROR_EFAULT, None, [])
          else if num < 1 then Inr (g, Some KERNEL_ERROR_EINVAL, None, [])
          else exit_if out_is_null
            (if timo = Some 0
             then bind_outcome (GetTriggeredEvents q now num) (\<lambda>(q', ret, ks).
                    Inr (store_equeue g eq q', Some (wait_code ret), Some ret, ks))
             else bind_outcome
                    (WaitForEvents_enter q num (case timo of None \<Rightarrow> 0 | Some t \<Rightarrow> t) now now')
                    (\<lambda>(q', t). case t of
                       Turn_Returned ret ks \<Rightarrow>
                         Inr (store_equeue g eq q', Some (wait_code ret), Some ret, ks)
                     | Turn_Sleeps w \<Rightarrow> Inr (store_equeue g eq q', None, None, []))))"

section \<open>Event kinds\<close>

definition blank_event :: "u64 \<Rightarrow> int \<Rightarrow> u16 \<Rightarrow> u64 \<Rightarrow> eq_event" where
  "blank_event ident filt flags udata =
     \<lparr>e_triggered = False, e_deadline_ns = 0,
      e_event = \<lparr>ke_ident = ident, ke_filter = filt, ke_flags = flags, ke_fflags = 0, ke_data = 0,
                 ke_udata = udata\<rparr>,
      e_trigger_func = None, e_reset_func = None, e_delete_func = None, e_pending = []\<rparr>"

definition user_event :: "int \<Rightarrow> u16 \<Rightarrow> eq_event" where
  "user_event id1 flags =
     (blank_event (word_of_int id1) KERNEL_EVFILT_USER flags 0)
       \<lparr>e_trigger_func := Some TF_User, e_reset_func := Some RF_User\<rparr>"

definition KernelAddUserEvent :: "equeues \<Rightarrow> int \<Rightarrow> int \<Rightarrow> equeues \<times> int" where
  "KernelAddUserEvent g eq id1 = KernelAddEvent g eq (user_event id1 EV_ADD)"

definition KernelAddUserEventEdge :: "equeues \<Rightarrow> int \<Rightarrow> int \<Rightarrow> equeues \<times> int" where
  "KernelAddUserEventEdge g eq id1 = KernelAddEvent g eq (user_event id1 (EV_ADD OR EV_CLEAR))"

definition KernelTriggerUserEvent :: "equeues \<Rightarrow> int \<Rightarrow> int \<Rightarrow> u64 \<Rightarrow> equeues \<times> int" where
  "KernelTriggerUserEvent g eq id1 udata =
     KernelTriggerEvent 0 g eq (word_of_int id1) KERNEL_EVFILT_USER udata"

definition KernelTriggerUserEventForAll :: "equeues \<Rightarrow> int \<Rightarrow> u64 \<Rightarrow> equeues \<times> int" where
  "KernelTriggerUserEventForAll g id1 udata =
     (let results = map (\<lambda>(h, q). (h, TriggerEvent 0 q (word_of_int id1) KERNEL_EVFILT_USER udata))
                        (g_equeues g);
          triggered = length (filter (\<lambda>(h, q, r). r = OK) results)
      in (g\<lparr>g_equeues := map (\<lambda>(h, q, r). (h, q)) results\<rparr>,
          if triggered > 0 then OK else KERNEL_ERROR_ENOENT))"

definition KernelDeleteUserEvent :: "equeues \<Rightarrow> int \<Rightarrow> int \<Rightarrow> equeues \<times> int" where
  "KernelDeleteUserEvent g eq id1 =
     (let (g', r, c) = KernelDeleteEvent g eq (word_of_int id1) KERNEL_EVFILT_USER in (g', r))"

record hr_timespec =
  hr_sec :: int
  hr_nsec :: int

definition hrtimer_event :: "int \<Rightarrow> u64 \<Rightarrow> u64 \<Rightarrow> u64 \<Rightarrow> eq_event" where
  "hrtimer_event id1 delay_ns now_ns udata =
     (blank_event (word_of_int id1) KERNEL_EVFILT_HRTIMER (EV_ADD OR EV_ONESHOT) udata)
       \<lparr>e_deadline_ns := (if delay_ns \<le> 0xffffffffffffffff - now_ns then now_ns + delay_ns
                          else 0xffffffffffffffff)\<rparr>"

definition KernelAddHRTimerEvent ::
    "equeues \<Rightarrow> int \<Rightarrow> int \<Rightarrow> hr_timespec option \<Rightarrow> u64 \<Rightarrow> u64 \<Rightarrow> equeues \<times> int" where
  "KernelAddHRTimerEvent g eq id1 ts udata now_ns =
     (case ts of
        None \<Rightarrow> (g, KERNEL_ERROR_EFAULT)
      | Some t \<Rightarrow>
          if hr_sec t < 0 \<or> hr_nsec t < 0 \<or> hr_nsec t \<ge> 1000000000 \<or>
             hr_sec t > (0xffffffffffffffff - hr_nsec t) div 1000000000
          then (g, KERNEL_ERROR_EINVAL)
          else KernelAddEvent g eq
                 (hrtimer_event id1 (word_of_int (hr_sec t) * 1000000000 + word_of_int (hr_nsec t))
                    now_ns udata))"

definition KernelDeleteHRTimerEvent :: "equeues \<Rightarrow> int \<Rightarrow> int \<Rightarrow> equeues \<times> int" where
  "KernelDeleteHRTimerEvent g eq id1 =
     (let (g', r, c) = KernelDeleteEvent g eq (word_of_int id1) KERNEL_EVFILT_HRTIMER in (g', r))"

definition KernelAddAmprEvent :: "equeues \<Rightarrow> int \<Rightarrow> int \<Rightarrow> u64 \<Rightarrow> equeues \<times> int" where
  "KernelAddAmprEvent g eq id1 udata =
     (if eq \<noteq> 0
      then (fst (KernelAddEvent g eq
              ((blank_event (word_of_int id1) KERNEL_EVFILT_USER (EV_ADD OR EV_CLEAR) udata)
                 \<lparr>e_trigger_func := Some TF_Ampr, e_reset_func := Some RF_User\<rparr>)), OK)
      else (g, OK))"

definition KernelAddAmprSystemEvent :: "equeues \<Rightarrow> int \<Rightarrow> int \<Rightarrow> u64 \<Rightarrow> equeues \<times> int" where
  "KernelAddAmprSystemEvent g eq id1 udata = KernelAddAmprEvent g eq id1 udata"

definition KernelDeleteAmprEvent :: "equeues \<Rightarrow> int \<Rightarrow> int \<Rightarrow> equeues \<times> int" where
  "KernelDeleteAmprEvent g eq id1 =
     (if eq \<noteq> 0 then (fst (KernelDeleteEvent g eq (word_of_int id1) KERNEL_EVFILT_USER), OK)
      else (g, OK))"

definition KernelDeleteAmprSystemEvent :: "equeues \<Rightarrow> int \<Rightarrow> int \<Rightarrow> equeues \<times> int" where
  "KernelDeleteAmprSystemEvent g eq id1 = KernelDeleteAmprEvent g eq id1"

text \<open>The event of \<open>AddEqEvent\<close> (renderer/sync.cpp).\<close>

definition interrupt_event :: "int \<Rightarrow> u64 \<Rightarrow> eq_event" where
  "interrupt_event id1 udata =
     (let e = blank_event (word_of_int id1) KERNEL_EVFILT_GRAPHICS 0 udata
      in e\<lparr>e_event := (e_event e)\<lparr>ke_data := word_of_int id1\<rparr>,
           e_reset_func := Some RF_Interrupt, e_trigger_func := Some TF_Interrupt\<rparr>)"

text \<open>The event of \<open>RegisterVideoOutEvent\<close>; \<open>output_mode\<close> is given for the output-mode kind.\<close>

definition video_out_event :: "u64 \<Rightarrow> u64 \<Rightarrow> u64 option \<Rightarrow> u64 \<Rightarrow> eq_event" where
  "video_out_event tsc kind output_mode udata =
     (let e = blank_event kind KERNEL_EVFILT_VIDEO_OUT 0 udata
      in e\<lparr>e_triggered := (output_mode \<noteq> None),
           e_event := (e_event e)
             \<lparr>ke_fflags := (if output_mode \<noteq> None then 1 else 0),
              ke_data := (case output_mode of None \<Rightarrow> 0 | Some m \<Rightarrow> MakeVideoOutEventData tsc 0 m)\<rparr>,
           e_delete_func := Some DF_VideoOut, e_reset_func := Some RF_VideoOut,
           e_trigger_func := Some TF_VideoOut\<rparr>)"

section \<open>Accessors\<close>

definition KernelGetEventData :: "kevent option \<Rightarrow> u64" where
  "KernelGetEventData ev = (case ev of None \<Rightarrow> 0 | Some k \<Rightarrow> ke_data k)"

definition KernelGetEventFflags :: "kevent option \<Rightarrow> u64" where
  "KernelGetEventFflags ev = (case ev of None \<Rightarrow> 0 | Some k \<Rightarrow> ucast (ke_fflags k))"

definition KernelGetEventFilter :: "kevent option \<Rightarrow> int" where
  "KernelGetEventFilter ev = (case ev of None \<Rightarrow> 0 | Some k \<Rightarrow> ke_filter k)"

definition KernelGetEventId :: "kevent option \<Rightarrow> u64" where
  "KernelGetEventId ev = (case ev of None \<Rightarrow> 0 | Some k \<Rightarrow> ke_ident k)"

definition KernelGetEventUserData :: "kevent option \<Rightarrow> u64" where
  "KernelGetEventUserData ev = (case ev of None \<Rightarrow> 0 | Some k \<Rightarrow> ke_udata k)"

definition KernelGetEventError :: "kevent option \<Rightarrow> int" where
  "KernelGetEventError ev =
     (case ev of
        None \<Rightarrow> 0
      | Some k \<Rightarrow> if ke_flags k AND EV_ERROR \<noteq> 0 then sint (ucast (ke_data k) :: u32) else 0)"

section \<open>Queueing events as a channel\<close>

text \<open>
  The contract of an event whose callbacks queue what it is triggered with: \<open>contents\<close> is what is
  still to be delivered, a trigger adds at the end, a drain with room for \<open>n\<close> delivers the first
  \<open>n\<close>. The client fact is on any sequence of triggers and drains: what was delivered with what is
  still held is what was put in, in order.
\<close>

datatype 'd channel_op = Put 'd | Take nat

fun puts :: "'d channel_op list \<Rightarrow> 'd list" where
  "puts [] = []"
| "puts (Put d # ops) = d # puts ops"
| "puts (Take n # ops) = puts ops"

fun perform ::
    "('e \<Rightarrow> 'd \<Rightarrow> 'e) \<Rightarrow> (nat \<Rightarrow> 'e \<Rightarrow> 'v list \<times> 'e) \<Rightarrow> 'd channel_op list \<Rightarrow> 'e \<Rightarrow> 'v list \<times> 'e" where
  "perform trig drain [] e = ([], e)"
| "perform trig drain (Put d # ops) e = perform trig drain ops (trig e d)"
| "perform trig drain (Take n # ops) e =
     (let (vs, e') = drain n e; (ws, e'') = perform trig drain ops e' in (vs @ ws, e''))"

locale event_channel =
  fixes wf :: "'e \<Rightarrow> bool"
    and trig :: "'e \<Rightarrow> 'd \<Rightarrow> 'e"
    and drain :: "nat \<Rightarrow> 'e \<Rightarrow> 'v list \<times> 'e"
    and contents :: "'e \<Rightarrow> 'v list"
    and val :: "'d \<Rightarrow> 'v"
  assumes trig_wf: "wf e \<Longrightarrow> wf (trig e d)"
    and drain_wf: "wf e \<Longrightarrow> wf (snd (drain n e))"
    and trig_contents: "wf e \<Longrightarrow> contents (trig e d) = contents e @ [val d]"
    and drain_out: "wf e \<Longrightarrow> fst (drain n e) = take n (contents e)"
    and drain_contents: "wf e \<Longrightarrow> contents (snd (drain n e)) = drop n (contents e)"
begin

lemma perform_in_order:
  "wf e \<Longrightarrow> fst (perform trig drain ops e) @ contents (snd (perform trig drain ops e)) =
     contents e @ map val (puts ops)"
proof (induction ops arbitrary: e)
  case Nil
  then show ?case by simp
next
  case (Cons opn ops)
  show ?case
  proof (cases opn)
    case (Put d)
    with Cons.IH [of "trig e d"] Cons.prems show ?thesis
      by (simp add: trig_wf trig_contents)
  next
    case (Take n)
    with Cons.IH [of "snd (drain n e)"] Cons.prems show ?thesis
      by (simp add: drain_wf drain_out drain_contents split_beta)
  qed
qed

end

definition outstanding :: "eq_event \<Rightarrow> kevent list" where
  "outstanding e = (if e_triggered e then e_event e # e_pending e else [])"

definition event_payload :: "trigger_func \<Rightarrow> kevent \<Rightarrow> u64" where
  "event_payload kind k = (if kind = TF_VideoOut then drop_bit 16 (ke_data k) else ke_data k)"

definition trigger_payload :: "trigger_func \<Rightarrow> u64 \<times> u64 \<Rightarrow> u64" where
  "trigger_payload kind d =
     (if kind = TF_VideoOut then snd d AND 0x0000ffffffffffff else snd d)"

definition kind_reset :: "trigger_func \<Rightarrow> reset_func" where
  "kind_reset kind =
     (case kind of TF_Interrupt \<Rightarrow> RF_Interrupt | TF_VideoOut \<Rightarrow> RF_VideoOut | _ \<Rightarrow> RF_User)"

definition queueing_event :: "trigger_func \<Rightarrow> eq_event \<Rightarrow> bool" where
  "queueing_event kind e \<longleftrightarrow>
     kind \<noteq> TF_User \<and> e_trigger_func e = Some kind \<and> e_reset_func e = Some (kind_reset kind) \<and>
     (\<not> e_triggered e \<longrightarrow> e_pending e = []) \<and>
     (\<forall>k\<in>insert (e_event e) (set (e_pending e)). ke_flags k AND EV_ONESHOT = 0 \<and>
        (kind = TF_Ampr \<longrightarrow> ke_flags k AND EV_CLEAR \<noteq> 0))"

definition event_trigger :: "eq_event \<Rightarrow> u64 \<times> u64 \<Rightarrow> eq_event" where
  "event_trigger e d = call_trigger (fst d) e (snd d)"

definition event_drain :: "trigger_func \<Rightarrow> nat \<Rightarrow> eq_event \<Rightarrow> u64 list \<times> eq_event" where
  "event_drain kind n e =
     (let (ks, e', erase) = drain_event n e in (map (event_payload kind) ks, e'))"

lemma video_out_payload:
  "drop_bit 16 (MakeVideoOutEventData tsc old d) = d AND 0x0000ffffffffffff"
proof -
  have c: "drop_bit 4 (if c \<noteq> 0xf then c + 1 else c) = 0" if "c = x AND 0xf" for c x :: u64
  proof -
    have "c \<le> 0xf" unfolding that by (rule word_and_le1)
    then have "unat c \<le> 15" by (simp add: word_le_nat_alt)
    then have "unat (if c \<noteq> 0xf then c + 1 else c) \<le> 15"
      by (auto simp: unat_word_ariths word_unat_eq_iff)
    then show ?thesis
      by (simp only: drop_bit_eq_div word_arith_nat_div) simp
  qed
  have t: "drop_bit 16 (tsc AND 0xfff) = 0"
    by (rule bit_word_eqI) (auto simp: bit_simps)
  have p12: "drop_bit 16 (push_bit 12 x) = 0" if "drop_bit 4 x = 0" for x :: u64
  proof (rule bit_word_eqI)
    fix n assume "n < LENGTH(64)"
    have "\<not> bit (drop_bit 4 x) n" using that by simp
    then show "bit (drop_bit 16 (push_bit 12 x)) n = bit (0 :: u64) n"
      by (auto simp: bit_simps add.commute)
  qed
  have m: "(0x0000ffffffffffff :: u64) = mask 48" by (simp add: mask_eq_exp_minus_1)
  have p16: "drop_bit 16 (push_bit 16 (d AND mask 48)) = d AND mask 48"
    by (rule bit_word_eqI) (auto simp: bit_simps)
  show ?thesis
    unfolding MakeVideoOutEventData_def Let_def m drop_bit_or t p16
    using p12 [OF c [OF refl]] by simp
qed

lemma call_reset_queueing:
  assumes "queueing_event kind e" and "e_triggered e"
  shows "queueing_event kind (pop_pending (call_reset e))"
    and "outstanding (pop_pending (call_reset e)) = e_pending e"
proof -
  have "call_reset e = clear_event e"
    using assms(1) by (cases kind) (auto simp: queueing_event_def call_reset_def kind_reset_def
        UserEventResetFunc_def InterruptEventResetFunc_def ResetVideoOutEvent_def)
  with assms show "queueing_event kind (pop_pending (call_reset e))"
    and "outstanding (pop_pending (call_reset e)) = e_pending e"
    by (auto simp: queueing_event_def outstanding_def pop_pending_def clear_event_def
        split: list.splits)
qed

lemma drain_event_queueing:
  "queueing_event kind e \<Longrightarrow> drain_event n e = (ks, e', erase) \<Longrightarrow>
     queueing_event kind e' \<and> \<not> erase \<and> ks = take n (outstanding e) \<and>
     outstanding e' = drop n (outstanding e)"
proof (induction n e arbitrary: ks e' erase rule: drain_event.induct)
  case (1 e)
  then show ?case by simp
next
  case (2 room e)
  show ?case
  proof (cases "e_triggered e")
    case False
    with "2.prems" show ?thesis by (simp add: outstanding_def)
  next
    case True
    with "2.prems"(1) have keep: "ke_flags (e_event e) AND EV_ONESHOT = 0"
      by (simp add: queueing_event_def)
    obtain ks1 e1 er1 where d: "drain_event room (pop_pending (call_reset e)) = (ks1, e1, er1)"
      by (metis prod_cases3)
    note next_event = call_reset_queueing [OF "2.prems"(1) True]
    from "2.IH" [OF _ _ next_event(1) d] True keep
    have "queueing_event kind e1 \<and> \<not> er1 \<and> ks1 = take room (e_pending e) \<and>
        outstanding e1 = drop room (e_pending e)"
      by (simp add: next_event(2))
    with True keep d "2.prems"(2) show ?thesis by (auto simp: outstanding_def)
  qed
qed

lemma event_trigger_queueing:
  assumes "queueing_event kind e"
  shows "queueing_event kind (event_trigger e d)"
    and "map (event_payload kind) (outstanding (event_trigger e d)) =
           map (event_payload kind) (outstanding e) @ [trigger_payload kind d]"
  using assms
  by (cases kind; auto simp: queueing_event_def event_trigger_def call_trigger_def
      AmprEventTriggerFunc_def InterruptEventTriggerFunc_def TriggerVideoOutEvent_def Let_def
      push_triggered_def outstanding_def event_payload_def trigger_payload_def video_out_payload)+

lemma event_channel_laws:
  "event_channel (queueing_event kind) event_trigger (event_drain kind)
     (\<lambda>e. map (event_payload kind) (outstanding e)) (trigger_payload kind)"
proof
  fix e n
  assume "queueing_event kind e"
  moreover obtain ks e' er where d: "drain_event n e = (ks, e', er)" by (metis prod_cases3)
  ultimately have "queueing_event kind e' \<and> ks = take n (outstanding e) \<and>
      outstanding e' = drop n (outstanding e)"
    using drain_event_queueing by blast
  then show "queueing_event kind (snd (event_drain kind n e))"
    and "fst (event_drain kind n e) = take n (map (event_payload kind) (outstanding e))"
    and "map (event_payload kind) (outstanding (snd (event_drain kind n e))) =
      drop n (map (event_payload kind) (outstanding e))"
    by (simp_all add: event_drain_def d take_map drop_map)
qed (rule event_trigger_queueing; assumption)+

interpretation queued: event_channel "queueing_event kind" event_trigger "event_drain kind"
    "\<lambda>e. map (event_payload kind) (outstanding e)" "trigger_payload kind" for kind
  by (rule event_channel_laws)

section \<open>The events of a queue\<close>

definition event_key :: "eq_event \<Rightarrow> u64 \<times> int" where
  "event_key e = (ke_ident (e_event e), ke_filter (e_event e))"

definition key_stable :: "eq_event \<Rightarrow> bool" where
  "key_stable e \<longleftrightarrow> (\<forall>k\<in>set (e_pending e). (ke_ident k, ke_filter k) = event_key e)"

definition equeue_ok :: "equeue \<Rightarrow> bool" where
  "equeue_ok q \<longleftrightarrow>
     distinct (map event_key (q_events q)) \<and> (\<forall>e\<in>set (q_events q). key_stable e) \<and>
     (q_closed q \<longrightarrow> q_events q = [])"

lemma same_event_key: "same_event i f e \<longleftrightarrow> event_key e = (i, f)"
  by (simp add: same_event_def event_key_def)

lemma update_event_None: "update_event i f g es = None \<longleftrightarrow> (i, f) \<notin> event_key ` set es"
  by (induction es) (auto simp: same_event_key)

lemma update_event_keys:
  "update_event i f g es = Some es' \<Longrightarrow> \<forall>e. event_key (g e) = event_key e \<Longrightarrow>
     map event_key es' = map event_key es"
  by (induction es arbitrary: es') (auto split: if_splits)

lemma update_event_set:
  "update_event i f g es = Some es' \<Longrightarrow> e' \<in> set es' \<Longrightarrow> e' \<in> set es \<or> (\<exists>e\<in>set es. e' = g e)"
  by (induction es arbitrary: es') (auto split: if_splits)

lemma erase_event_split:
  "erase_event i f es = Some (e, es') \<Longrightarrow>
     \<exists>xs ys. es = xs @ e # ys \<and> es' = xs @ ys \<and> event_key e = (i, f)"
proof (induction es arbitrary: es')
  case (Cons x xs)
  show ?case
  proof (cases "same_event i f x")
    case True
    with Cons.prems have "x # xs = [] @ e # es' \<and> event_key e = (i, f)" "es' = [] @ es'"
      by (auto simp: same_event_key)
    then show ?thesis by blast
  next
    case False
    with Cons.prems obtain es1 where es1: "erase_event i f xs = Some (e, es1)" "es' = x # es1"
      by auto
    from Cons.IH [OF es1(1)] obtain us vs where "xs = us @ e # vs" "es1 = us @ vs" "event_key e = (i, f)"
      by blast
    with es1(2) have "x # xs = (x # us) @ e # vs" "es' = (x # us) @ vs" "event_key e = (i, f)"
      by simp_all
    then show ?thesis by blast
  qed
qed simp

lemma call_trigger_key: "event_key (call_trigger tsc e d) = event_key e"
  by (auto simp: event_key_def call_trigger_def UserEventTriggerFunc_def AmprEventTriggerFunc_def
      InterruptEventTriggerFunc_def TriggerVideoOutEvent_def Let_def push_triggered_def
      split: option.splits trigger_func.splits)

lemma call_trigger_stable: "key_stable e \<Longrightarrow> key_stable (call_trigger tsc e d)"
  by (auto simp: key_stable_def event_key_def call_trigger_def UserEventTriggerFunc_def
      AmprEventTriggerFunc_def InterruptEventTriggerFunc_def TriggerVideoOutEvent_def Let_def
      push_triggered_def split: option.splits trigger_func.splits)

lemma readd_event_key: "event_key (readd_event ev e) = event_key e"
  by (simp add: readd_event_def event_key_def)

lemma readd_event_stable: "key_stable e \<Longrightarrow> key_stable (readd_event ev e)"
  by (auto simp: readd_event_def key_stable_def event_key_def)

lemma call_reset_frame: "event_key (call_reset e) = event_key e" "e_pending (call_reset e) = e_pending e"
  by (auto simp: event_key_def call_reset_def UserEventResetFunc_def InterruptEventResetFunc_def
      ResetVideoOutEvent_def clear_event_def split: option.splits reset_func.splits)

lemma pop_pending_key:
  "key_stable e \<Longrightarrow> event_key (pop_pending e) = event_key e \<and> key_stable (pop_pending e)"
  by (cases "e_pending e") (simp_all add: pop_pending_def key_stable_def event_key_def)

lemma drain_step:
  assumes "e_triggered e" and "ke_flags (e_event e) AND EV_ONESHOT = 0"
    and "drain_event (Suc n) e = (ks, e', er)"
  obtains ks1 where "drain_event n (pop_pending (call_reset e)) = (ks1, e', er)" "ks = e_event e # ks1"
  using assms by (auto split: prod.splits)

lemma drain_event_key:
  "key_stable e \<Longrightarrow> drain_event n e = (ks, e', er) \<Longrightarrow> event_key e' = event_key e \<and> key_stable e'"
proof (induction n arbitrary: e ks)
  case (Suc n)
  show ?case
  proof (cases "e_triggered e \<and> ke_flags (e_event e) AND EV_ONESHOT = 0")
    case True
    then obtain ks1 where d: "drain_event n (pop_pending (call_reset e)) = (ks1, e', er)"
      using drain_step Suc.prems(2) by metis
    have "event_key (pop_pending (call_reset e)) = event_key e" "key_stable (pop_pending (call_reset e))"
      using pop_pending_key [of "call_reset e"] Suc.prems(1) call_reset_frame [of e]
      by (simp_all add: key_stable_def)
    with Suc.IH [OF _ d] show ?thesis by simp
  next
    case False
    with Suc.prems show ?thesis by (auto split: if_splits)
  qed
qed simp

lemma drain_event_room: "drain_event n e = (ks, e', er) \<Longrightarrow> length ks \<le> n"
proof (induction n arbitrary: e ks)
  case (Suc n)
  show ?case
  proof (cases "e_triggered e \<and> ke_flags (e_event e) AND EV_ONESHOT = 0")
    case True
    then show ?thesis using drain_step Suc.prems Suc.IH by (metis Suc_le_mono length_Cons)
  next
    case False
    with Suc.prems show ?thesis by (auto split: if_splits)
  qed
qed simp

lemma drain_event_left:
  "drain_event n e = (ks, e', er) \<Longrightarrow> length ks < n \<Longrightarrow> \<not> er \<Longrightarrow> \<not> e_triggered e'"
proof (induction n arbitrary: e ks)
  case (Suc n)
  show ?case
  proof (cases "e_triggered e \<and> ke_flags (e_event e) AND EV_ONESHOT = 0")
    case True
    then show ?thesis using drain_step [OF _ _ Suc.prems(1)] Suc.IH Suc.prems(2,3) by fastforce
  next
    case False
    with Suc.prems show ?thesis by (auto split: if_splits)
  qed
qed simp

lemma drain_event_idle: "\<not> e_triggered e \<Longrightarrow> drain_event n e = ([], e, False)"
  by (cases n) auto

lemma scan_step:
  assumes "drain_event n e = (k1, e1, er)" and "scan_events n (e # es) = (ks, es')"
  obtains (full) "n \<le> length k1" "ks = k1" "es' = (if er then [] else [e1]) @ es"
  | (more) k2 es2 where "length k1 < n" "scan_events (n - length k1) es = (k2, es2)"
      "ks = k1 @ k2" "es' = (if er then [] else [e1]) @ es2"
proof (cases "n \<le> length k1")
  case True
  with assms show thesis by (intro full) (simp_all add: Let_def)
next
  case False
  obtain k2 es2 where "scan_events (n - length k1) es = (k2, es2)" by (metis surj_pair)
  with False assms show thesis by (intro more) (auto simp: Let_def)
qed

lemma scan_events_room: "scan_events n es = (ks, es') \<Longrightarrow> length ks \<le> n"
proof (induction es arbitrary: n ks es')
  case (Cons e es)
  obtain k1 e1 er where d: "drain_event n e = (k1, e1, er)" by (metis prod_cases3)
  from d Cons.prems show ?case
  proof (cases rule: scan_step)
    case full
    with drain_event_room [OF d] show ?thesis by simp
  next
    case (more k2 es2)
    with Cons.IH [OF more(2)] show ?thesis by simp
  qed
qed simp

lemma scan_events_left:
  "scan_events n es = (ks, es') \<Longrightarrow> length ks < n \<Longrightarrow> e \<in> set es' \<Longrightarrow> \<not> e_triggered e"
proof (induction es arbitrary: n ks es')
  case (Cons x es)
  obtain k1 e1 er where d: "drain_event n x = (k1, e1, er)" by (metis prod_cases3)
  from d Cons.prems(1) show ?case
  proof (cases rule: scan_step)
    case full
    with Cons.prems(2) show ?thesis by simp
  next
    case (more k2 es2)
    then have "length k2 < n - length k1" using Cons.prems(2) by simp
    with Cons.IH [OF more(2)] more(4) Cons.prems(3) drain_event_left [OF d more(1)] show ?thesis
      by (cases er) auto
  qed
qed simp

lemma scan_events_keys:
  "scan_events n es = (ks, es') \<Longrightarrow> \<forall>e\<in>set es. key_stable e \<Longrightarrow> distinct (map event_key es) \<Longrightarrow>
     (\<forall>e\<in>set es'. key_stable e) \<and> distinct (map event_key es') \<and>
     event_key ` set es' \<subseteq> event_key ` set es"
proof (induction es arbitrary: n ks es')
  case (Cons e es)
  obtain k1 e1 er where d: "drain_event n e = (k1, e1, er)" by (metis prod_cases3)
  have e1: "event_key e1 = event_key e" "key_stable e1"
    using drain_event_key [OF _ d] Cons.prems(2) by auto
  from d Cons.prems(1) show ?case
  proof (cases rule: scan_step)
    case full
    with Cons.prems e1 show ?thesis by (cases er) auto
  next
    case (more k2 es2)
    have "(\<forall>e\<in>set es2. key_stable e) \<and> distinct (map event_key es2) \<and>
        event_key ` set es2 \<subseteq> event_key ` set es"
      using Cons.IH [OF more(2)] Cons.prems(2,3) by simp
    with more(4) Cons.prems e1 show ?thesis by (cases er) auto
  qed
qed simp

lemma TriggerExpiredTimers_keys:
  "map event_key (TriggerExpiredTimers now es) = map event_key es"
  by (simp add: TriggerExpiredTimers_def event_key_def)

lemma TriggerExpiredTimers_stable:
  "\<forall>e\<in>set es. key_stable e \<Longrightarrow> \<forall>e\<in>set (TriggerExpiredTimers now es). key_stable e"
  by (auto simp: TriggerExpiredTimers_def key_stable_def event_key_def)

lemma GetTriggeredEvents_ok:
  assumes "equeue_ok q" and "GetTriggeredEvents q now num = Inr (q', ret, ks)"
  shows "equeue_ok q'" and "q_handle q' = q_handle q"
proof -
  show "equeue_ok q'"
  proof (cases "q_closed q")
    case True
    with assms show ?thesis by (simp add: GetTriggeredEvents_def)
  next
    case False
    obtain es where s: "scan_events (nat num) (TriggerExpiredTimers now (q_events q)) = (ks, es)"
      "q' = q\<lparr>q_events := es\<rparr>"
      using False assms(2) by (auto simp: GetTriggeredEvents_def split: prod.splits)
    have "distinct (map event_key (TriggerExpiredTimers now (q_events q)))"
      using assms(1) by (simp add: equeue_ok_def TriggerExpiredTimers_keys)
    with scan_events_keys [OF s(1) TriggerExpiredTimers_stable] assms(1) s(2) False show ?thesis
      by (simp add: equeue_ok_def)
  qed
  show "q_handle q' = q_handle q"
    using assms(2) by (auto simp: GetTriggeredEvents_def split: if_splits prod.splits)
qed

lemma AddEvent_ok:
  assumes "equeue_ok q" and "key_stable ev" and "AddEvent q ev = (q', r)"
  shows "equeue_ok q'" and "q_handle q' = q_handle q"
proof -
  show "equeue_ok q'"
  proof (cases "update_event (ke_ident (e_event ev)) (ke_filter (e_event ev)) (readd_event ev) (q_events q)")
    case None
    then have "event_key ev \<notin> event_key ` set (q_events q)"
      by (simp add: update_event_None event_key_def)
    with None assms show ?thesis by (auto simp: AddEvent_def equeue_ok_def split: if_splits)
  next
    case (Some es)
    have "map event_key es = map event_key (q_events q)"
      by (rule update_event_keys [OF Some]) (simp add: readd_event_key)
    moreover have "\<forall>e\<in>set es. key_stable e"
      using assms(1) by (auto simp: equeue_ok_def dest!: update_event_set [OF Some] intro: readd_event_stable)
    ultimately show ?thesis
      using Some assms by (auto simp: AddEvent_def equeue_ok_def split: if_splits)
  qed
  show "q_handle q' = q_handle q"
    using assms(3) by (auto simp: AddEvent_def split: if_splits option.splits)
qed

lemma TriggerEvent_ok:
  assumes "equeue_ok q" and "TriggerEvent tsc q i f d = (q', r)"
  shows "equeue_ok q'" and "q_handle q' = q_handle q"
proof -
  show "equeue_ok q'"
  proof (cases "update_event i f (\<lambda>e. call_trigger tsc e d) (q_events q)")
    case None
    with assms show ?thesis by (auto simp: TriggerEvent_def split: if_splits)
  next
    case (Some es)
    have "map event_key es = map event_key (q_events q)"
      by (rule update_event_keys [OF Some]) (simp add: call_trigger_key)
    moreover have "\<forall>e\<in>set es. key_stable e"
      using assms(1) by (auto simp: equeue_ok_def dest!: update_event_set [OF Some] intro: call_trigger_stable)
    ultimately show ?thesis
      using Some assms by (auto simp: TriggerEvent_def equeue_ok_def split: if_splits)
  qed
  show "q_handle q' = q_handle q"
    using assms(2) by (auto simp: TriggerEvent_def split: if_splits option.splits)
qed

lemma DeleteEvent_ok:
  assumes "equeue_ok q" and "DeleteEvent q i f = (q', r, c)"
  shows "equeue_ok q'" and "q_handle q' = q_handle q"
proof -
  show "equeue_ok q'"
  proof (cases "erase_event i f (q_events q)")
    case None
    with assms show ?thesis by (auto simp: DeleteEvent_def split: if_splits)
  next
    case (Some r)
    obtain e es where "r = (e, es)" by (cases r)
    with erase_event_split [of i f "q_events q" e es] Some obtain xs ys where
      "q_events q = xs @ e # ys" "es = xs @ ys" by blast
    with Some assms \<open>r = (e, es)\<close> show ?thesis
      by (auto simp: DeleteEvent_def equeue_ok_def split: if_splits)
  qed
  show "q_handle q' = q_handle q"
    using assms(2) by (auto simp: DeleteEvent_def split: if_splits option.splits)
qed

section \<open>The handle table as a state machine\<close>

inductive eqs_step :: "equeues \<Rightarrow> equeues \<Rightarrow> bool" where
  eqs_create: "KernelCreateEqueue g nul name = Inr (g', r, h) \<Longrightarrow> eqs_step g g'"
| eqs_add: "e_pending ev = [] \<Longrightarrow> KernelAddEvent g eq ev = (g', r) \<Longrightarrow> eqs_step g g'"
| eqs_trigger: "KernelTriggerEvent tsc g eq i f d = (g', r) \<Longrightarrow> eqs_step g g'"
| eqs_trigger_all: "KernelTriggerUserEventForAll g i d = (g', r) \<Longrightarrow> eqs_step g g'"
| eqs_delete_event: "KernelDeleteEvent g eq i f = (g', r, c) \<Longrightarrow> eqs_step g g'"
| eqs_delete: "KernelDeleteEqueue g eq = (g', r, cs) \<Longrightarrow> eqs_step g g'"
| eqs_wait: "KernelWaitEqueue g eq en num on timo now now' = Inr (g', r, out, ks) \<Longrightarrow> eqs_step g g'"
| eqs_wake: "KernelPinEqueue g eq = Some q \<Longrightarrow> wait_turn q num micros elapsed now now' = Inr (q', t) \<Longrightarrow>
     eqs_step g (store_equeue g eq q')"

definition eqs_init :: "equeues \<Rightarrow> bool" where
  "eqs_init g \<longleftrightarrow> g = \<lparr>g_equeues = [], g_next_equeue = 1\<rparr>"

definition handles_fresh :: "equeues \<Rightarrow> bool" where
  "handles_fresh g \<longleftrightarrow>
     distinct (map fst (g_equeues g)) \<and> 1 \<le> uint (g_next_equeue g) \<and>
     (\<forall>h\<in>fst ` set (g_equeues g). 1 \<le> h \<and> h < uint (g_next_equeue g))"

definition queues_ok :: "equeues \<Rightarrow> bool" where
  "queues_ok g \<longleftrightarrow> (\<forall>(h, q)\<in>set (g_equeues g). equeue_ok q \<and> q_handle q = h)"

definition equeues_inv :: "equeues \<Rightarrow> bool" where
  "equeues_inv g \<longleftrightarrow> handles_fresh g \<and> queues_ok g"

lemma store_equeue_handles [simp]:
  "map fst (g_equeues (store_equeue g eq q)) = map fst (g_equeues g)"
  "g_next_equeue (store_equeue g eq q) = g_next_equeue g"
  by (auto simp: store_equeue_def)

lemma store_equeue_inv:
  assumes "equeues_inv g" and "KernelPinEqueue g eq = Some q"
    and "equeue_ok q \<Longrightarrow> equeue_ok q' \<and> q_handle q' = q_handle q"
  shows "equeues_inv (store_equeue g eq q')"
proof -
  have "(eq, q) \<in> set (g_equeues g)"
    using assms(2) by (auto simp: KernelPinEqueue_def split: if_splits dest: map_of_SomeD)
  with assms(1,3) have "equeue_ok q'" "q_handle q' = eq"
    by (auto simp: equeues_inv_def queues_ok_def)
  moreover have "set (g_equeues (store_equeue g eq q')) \<subseteq> insert (eq, q') (set (g_equeues g))"
    by (auto simp: store_equeue_def split: if_splits)
  ultimately have "queues_ok (store_equeue g eq q')"
    using assms(1) unfolding equeues_inv_def queues_ok_def by blast
  moreover have "fst ` set (g_equeues (store_equeue g eq q')) = fst ` set (g_equeues g)"
    by (metis list.set_map store_equeue_handles(1))
  then have "handles_fresh (store_equeue g eq q')"
    using assms(1) unfolding equeues_inv_def handles_fresh_def
    by (simp only: store_equeue_handles) blast
  ultimately show ?thesis by (simp add: equeues_inv_def)
qed

lemma wait_turn_queue:
  "wait_turn q num micros elapsed now now' = Inr (q', t) \<Longrightarrow>
     \<exists>ret ks. GetTriggeredEvents q now num = Inr (q', ret, ks)"
  by (auto simp: wait_turn_def bind_outcome_Inr Let_def split: if_splits)

lemma WaitForEvents_enter_queue:
  "WaitForEvents_enter q num micros now now' = Inr (q', t) \<Longrightarrow>
     q' = q \<or> (\<exists>ret ks. GetTriggeredEvents q now num = Inr (q', ret, ks))"
  by (auto simp: WaitForEvents_enter_def dest: wait_turn_queue split: if_splits)

lemma KernelWaitEqueue_queue:
  assumes "KernelWaitEqueue g eq en num on timo now now' = Inr (g', r, out, ks)"
  shows "g' = g \<or> (\<exists>q q'. KernelPinEqueue g eq = Some q \<and> g' = store_equeue g eq q' \<and>
           (q' = q \<or> (\<exists>ret ks. GetTriggeredEvents q now num = Inr (q', ret, ks))))"
proof (cases "KernelPinEqueue g eq")
  case None
  with assms show ?thesis by (simp add: KernelWaitEqueue_def)
next
  case (Some q)
  show ?thesis
  proof (cases "en \<or> num < 1")
    case True
    with assms Some show ?thesis by (cases en) (simp_all add: KernelWaitEqueue_def)
  next
    case False
    show ?thesis
    proof (cases "timo = Some 0")
      case True
      with False assms Some show ?thesis by (auto simp: KernelWaitEqueue_def bind_outcome_Inr)
    next
      case timed: False
      let ?w = "WaitForEvents_enter q num (case timo of None \<Rightarrow> 0 | Some t \<Rightarrow> t) now now'"
      from timed False assms Some obtain q' t where
        w: "?w = Inr (q', t)" "(case t of
                       Turn_Returned ret ks \<Rightarrow>
                         Inr (store_equeue g eq q', Some (wait_code ret), Some ret, ks)
                     | Turn_Sleeps w \<Rightarrow> Inr (store_equeue g eq q', None, None, [])) =
                   (Inr (g', r, out, ks) :: (equeues \<times> int option \<times> int option \<times> kevent list) outcome)"
        by (auto simp: KernelWaitEqueue_def bind_outcome_Inr)
      from w(2) have "g' = store_equeue g eq q'" by (cases t) simp_all
      with WaitForEvents_enter_queue [OF w(1)] Some show ?thesis by blast
    qed
  qed
qed

lemma eqs_step_inv:
  assumes inv: "equeues_inv g" and step: "eqs_step g g'"
  shows "equeues_inv g'"
  using step
proof cases
  case (eqs_create nul name r h)
  show ?thesis
  proof (cases "g' = g")
    case False
    with eqs_create have g': "uint (g_next_equeue g) \<le> 9223372036854775807"
      "g' = \<lparr>g_equeues = (uint (g_next_equeue g), new_equeue (uint (g_next_equeue g))) # g_equeues g,
             g_next_equeue = g_next_equeue g + 1\<rparr>"
      by (auto simp: KernelCreateEqueue_def Let_def split: if_splits)
    from g'(1) have "uint (g_next_equeue g + 1) = uint (g_next_equeue g) + 1"
      by (simp add: uint_word_ariths)
    with inv g'(2) show ?thesis
      by (force simp: equeues_inv_def handles_fresh_def queues_ok_def new_equeue_def equeue_ok_def)
  qed (use inv in simp)
next
  case (eqs_add ev eq r)
  show ?thesis
  proof (cases "KernelPinEqueue g eq")
    case (Some q)
    obtain q' r' where a: "AddEvent q ev = (q', r')" by (metis surj_pair)
    with eqs_add Some show ?thesis
      using store_equeue_inv [OF inv Some, of q'] AddEvent_ok [OF _ _ a]
      by (simp add: KernelAddEvent_def key_stable_def)
  qed (use inv eqs_add in \<open>simp add: KernelAddEvent_def\<close>)
next
  case (eqs_trigger tsc eq i f d r)
  show ?thesis
  proof (cases "KernelPinEqueue g eq")
    case (Some q)
    obtain q' r' where a: "TriggerEvent tsc q i f d = (q', r')" by (metis surj_pair)
    with eqs_trigger Some show ?thesis
      using store_equeue_inv [OF inv Some, of q'] TriggerEvent_ok [OF _ a]
      by (simp add: KernelTriggerEvent_def)
  qed (use inv eqs_trigger in \<open>simp add: KernelTriggerEvent_def\<close>)
next
  case (eqs_trigger_all i d r)
  then have g': "g_equeues g' = map (\<lambda>(h, q). (h, fst (TriggerEvent 0 q (word_of_int i) KERNEL_EVFILT_USER d)))
      (g_equeues g)" "g_next_equeue g' = g_next_equeue g"
    by (auto simp: KernelTriggerUserEventForAll_def Let_def split_beta)
  have handles: "map fst (g_equeues g') = map fst (g_equeues g)"
    by (simp add: g' comp_def split_beta)
  then have sets: "fst ` set (g_equeues g') = fst ` set (g_equeues g)"
    by (metis list.set_map)
  have "equeue_ok (fst (TriggerEvent 0 q x y d)) \<and> q_handle (fst (TriggerEvent 0 q x y d)) = q_handle q"
    if "equeue_ok q" for q x y
    using TriggerEvent_ok [OF that] by (metis prod.collapse)
  then have "queues_ok g'"
    using inv by (auto simp: equeues_inv_def queues_ok_def g' split_beta)
  with inv show ?thesis
    by (simp add: equeues_inv_def handles_fresh_def g'(2) handles sets)
next
  case (eqs_delete_event eq i f r c)
  show ?thesis
  proof (cases "KernelPinEqueue g eq")
    case (Some q)
    obtain q' r' c' where a: "DeleteEvent q i f = (q', r', c')" by (metis prod_cases3)
    with eqs_delete_event Some show ?thesis
      using store_equeue_inv [OF inv Some, of q'] DeleteEvent_ok [OF _ a]
      by (simp add: KernelDeleteEvent_def)
  qed (use inv eqs_delete_event in \<open>simp add: KernelDeleteEvent_def\<close>)
next
  case (eqs_delete eq r cs)
  then have "g' = g \<or> g' = g\<lparr>g_equeues := filter (\<lambda>(h, p). h \<noteq> eq) (g_equeues g)\<rparr>"
    by (auto simp: KernelDeleteEqueue_def split: option.splits)
  moreover have "equeues_inv (g\<lparr>g_equeues := filter P (g_equeues g)\<rparr>)" for P
    using inv by (simp add: equeues_inv_def handles_fresh_def queues_ok_def distinct_map_filter_key)
  ultimately show ?thesis using inv by auto
next
  case (eqs_wait eq en num on timo now now' r out ks)
  from KernelWaitEqueue_queue [OF this] show ?thesis
    using store_equeue_inv [OF inv] GetTriggeredEvents_ok inv by blast
next
  case (eqs_wake eq q num micros elapsed now now' q' t)
  from wait_turn_queue [OF eqs_wake(3)] show ?thesis
    unfolding eqs_wake(1)
    using store_equeue_inv [OF inv eqs_wake(2)] GetTriggeredEvents_ok by blast
qed

lemma eqs_init_inv: "eqs_init g \<Longrightarrow> equeues_inv g"
  by (simp add: eqs_init_def equeues_inv_def handles_fresh_def queues_ok_def)

interpretation event_queues: step_invariant eqs_init eqs_step equeues_inv
  by unfold_locales (auto intro: eqs_init_inv eqs_step_inv)

abbreviation eqs_reachable :: "equeues \<Rightarrow> bool" where
  "eqs_reachable \<equiv> reachable eqs_init eqs_step"

text \<open>A handle that has been given out and is not in the table stays out of it.\<close>

definition handle_dead :: "int \<Rightarrow> equeues \<Rightarrow> bool" where
  "handle_dead h g \<longleftrightarrow> h \<notin> fst ` set (g_equeues g) \<and> h < uint (g_next_equeue g)"

lemma eqs_step_handles:
  assumes "eqs_step g g'" and "h \<in> fst ` set (g_equeues g')"
  shows "h \<in> fst ` set (g_equeues g) \<or> h = uint (g_next_equeue g)"
proof -
  have store: "fst ` set (g_equeues (store_equeue g eq q)) = fst ` set (g_equeues g)" for eq q
    by (metis list.set_map store_equeue_handles(1))
  then have stored: "h \<in> fst ` set (g_equeues g)"
    if "(h, b) \<in> set (g_equeues (store_equeue g eq q))" for b eq q
    using that by (metis fst_conv imageI)
  from assms(1) show ?thesis
  proof cases
    case (eqs_create nul name r h')
    with assms(2) show ?thesis
      by (auto simp: KernelCreateEqueue_def Let_def split: if_splits)
  next
    case (eqs_wait eq en num on timo now now' r out ks)
    from KernelWaitEqueue_queue [OF this] assms(2) store show ?thesis by blast
  next
    case (eqs_trigger_all i d r)
    with assms(2) show ?thesis
      by (auto simp: KernelTriggerUserEventForAll_def Let_def split_beta image_image)
  next
    case (eqs_delete eq r cs)
    then have "set (g_equeues g') \<subseteq> set (g_equeues g)"
      by (auto simp: KernelDeleteEqueue_def split: option.splits)
    with assms(2) show ?thesis by blast
  qed (use assms(2) in \<open>auto simp: KernelAddEvent_def KernelTriggerEvent_def KernelDeleteEvent_def
      split: option.splits prod.splits dest: stored\<close>)
qed

lemma eqs_step_next:
  assumes "eqs_step g g'" shows "g_next_equeue g' = g_next_equeue g \<or>
    g_next_equeue g' = g_next_equeue g + 1 \<and> uint (g_next_equeue g) \<le> 9223372036854775807"
  using assms
proof cases
  case (eqs_wait eq en num on timo now now' r out ks)
  from KernelWaitEqueue_queue [OF this] show ?thesis by auto
next
  case (eqs_create nul name r h)
  then show ?thesis by (auto simp: KernelCreateEqueue_def Let_def split: if_splits)
qed (auto simp: KernelAddEvent_def KernelTriggerEvent_def KernelDeleteEvent_def KernelDeleteEqueue_def
      KernelTriggerUserEventForAll_def Let_def split: option.splits prod.splits)

lemma handle_dead_step:
  assumes "handle_dead h g" and "eqs_step g g'"
  shows "handle_dead h g'"
proof -
  have "uint (g_next_equeue g) \<le> uint (g_next_equeue g')"
    using eqs_step_next [OF assms(2)] by (auto simp: uint_word_ariths)
  with assms eqs_step_handles [OF assms(2), of h] show ?thesis by (auto simp: handle_dead_def)
qed

lemma handle_dead_run: "eqs_step\<^sup>*\<^sup>* g g' \<Longrightarrow> handle_dead h g \<Longrightarrow> handle_dead h g'"
  by (induction rule: rtranclp_induct) (auto intro: handle_dead_step)

lemma handle_dead_pin: "handle_dead h g \<Longrightarrow> KernelPinEqueue g h = None"
  by (auto simp: handle_dead_def KernelPinEqueue_def map_of_eq_None_iff)

section \<open>Properties\<close>

definition equeue_example :: equeues where
  "equeue_example =
     \<lparr>g_equeues = [(1, (new_equeue 1)\<lparr>q_events := [user_event 5 (EV_ADD OR EV_CLEAR)]\<rparr>)],
      g_next_equeue = 2\<rparr>"

lemma equeue_example_reachable: "eqs_reachable equeue_example"
proof -
  let ?g = "\<lparr>g_equeues = [], g_next_equeue = 1\<rparr>"
  let ?h = "\<lparr>g_equeues = [(1, new_equeue 1)], g_next_equeue = 2\<rparr>"
  have "KernelCreateEqueue ?g False (Some []) = Inr (?h, OK, Some 1)"
    by (simp add: KernelCreateEqueue_def)
  then have "eqs_step ?g ?h" by (rule eqs_create)
  moreover have "KernelAddEvent ?h 1 (user_event 5 (EV_ADD OR EV_CLEAR)) = (equeue_example, OK)"
    by (simp add: KernelAddEvent_def KernelPinEqueue_def AddEvent_def new_equeue_def
        equeue_example_def store_equeue_def)
  then have "eqs_step ?h equeue_example"
    by (rule eqs_add [rotated]) (simp add: user_event_def blank_event_def)
  ultimately show ?thesis
    by (meson eqs_init_def reachable.intros)
qed

text \<open>
  C16: queued events arrive in order. For an event of a queueing kind (AMPR completions, graphics
  interrupts, video output), over any sequence of triggers and waits with any room, what the waits
  delivered followed by what the event still holds is what it held before followed by what it was
  triggered with: nothing is lost, repeated or reordered (a video-output event keeps 48 bits of the value).
\<close>

theorem queued_events_in_order:
  assumes "queueing_event kind e"
    and "perform event_trigger (event_drain kind) ops e = (delivered, e')"
  shows "delivered @ map (event_payload kind) (outstanding e') =
         map (event_payload kind) (outstanding e) @ map (trigger_payload kind) (puts ops)"
  using queued.perform_in_order [OF assms(1), of ops] assms(2) by simp

theorem queued_events_in_order_witness:
  "fst (perform event_trigger (event_drain TF_Interrupt) [Put (0, 8), Put (0, 9), Take 1, Put (0, 7), Take 5]
     (interrupt_event 2 0)) = [8, 9, 7]"
proof -
  let ?p = "perform event_trigger (event_drain TF_Interrupt)
    [Put (0, 8), Put (0, 9), Take 1, Put (0, 7), Take 5] (interrupt_event 2 0)"
  have "queueing_event TF_Interrupt (interrupt_event 2 0)"
    by (simp add: queueing_event_def interrupt_event_def blank_event_def kind_reset_def Let_def)
  from queued_events_in_order [OF this prod.collapse [symmetric, of ?p]]
  have "fst ?p @ map (event_payload TF_Interrupt) (outstanding (snd ?p)) = [8, 9, 7]"
    by (simp add: outstanding_def interrupt_event_def blank_event_def Let_def trigger_payload_def)
  moreover have "outstanding (snd ?p) = []"
    by (simp add: outstanding_def interrupt_event_def blank_event_def Let_def event_drain_def
        event_trigger_def call_trigger_def InterruptEventTriggerFunc_def push_triggered_def
        numeral_eq_Suc call_reset_def InterruptEventResetFunc_def clear_event_def pop_pending_def)
  ultimately show ?thesis by simp
qed

text \<open>
  Registrations are unique and handles are never given out twice. In every reachable state of
  the handle table the handles are distinct and below the next one, and each queue has at most one
  event per identifier and filter; a deleted handle is refused by every later call.
\<close>

theorem equeue_registry:
  assumes "eqs_reachable g"
  shows "distinct (map fst (g_equeues g)) \<and>
         (\<forall>(h, q)\<in>set (g_equeues g). 1 \<le> h \<and> h < uint (g_next_equeue g) \<and>
            distinct (map event_key (q_events q))) \<and>
         (\<forall>eq g' cs g''. KernelDeleteEqueue g eq = (g', OK, cs) \<and> eqs_step\<^sup>*\<^sup>* g' g'' \<longrightarrow>
            KernelAddEvent g'' eq ev = (g'', KERNEL_ERROR_EBADF) \<and>
            KernelTriggerEvent tsc g'' eq i f d = (g'', KERNEL_ERROR_EBADF) \<and>
            KernelDeleteEqueue g'' eq = (g'', KERNEL_ERROR_EBADF, []))"
proof -
  from assms have inv: "equeues_inv g" by (rule event_queues.reachable_inv)
  have dead: "handle_dead eq g'" if "KernelDeleteEqueue g eq = (g', OK, cs)" for eq g' cs
  proof -
    from that obtain q where q: "map_of (g_equeues g) eq = Some q"
      "g' = g\<lparr>g_equeues := filter (\<lambda>(h, p). h \<noteq> eq) (g_equeues g)\<rparr>"
      by (auto simp: KernelDeleteEqueue_def OK_def KERNEL_ERROR_EBADF_def split: option.splits)
    from map_of_SomeD [OF q(1)] have "eq \<in> fst ` set (g_equeues g)" by force
    with inv q(2) show ?thesis by (auto simp: handle_dead_def equeues_inv_def handles_fresh_def)
  qed
  have "KernelAddEvent g'' eq ev = (g'', KERNEL_ERROR_EBADF) \<and>
      KernelTriggerEvent tsc g'' eq i f d = (g'', KERNEL_ERROR_EBADF) \<and>
      KernelDeleteEqueue g'' eq = (g'', KERNEL_ERROR_EBADF, [])"
    if "KernelDeleteEqueue g eq = (g', OK, cs)" "eqs_step\<^sup>*\<^sup>* g' g''" for eq g' cs g''
  proof -
    from handle_dead_run [OF that(2) dead [OF that(1)]] have d: "handle_dead eq g''" .
    then have "map_of (g_equeues g'') eq = None" by (simp add: handle_dead_def map_of_eq_None_iff)
    with handle_dead_pin [OF d] show ?thesis
      by (simp add: KernelAddEvent_def KernelTriggerEvent_def KernelDeleteEqueue_def)
  qed
  moreover have "\<forall>(h, q)\<in>set (g_equeues g). 1 \<le> h \<and> h < uint (g_next_equeue g) \<and>
      distinct (map event_key (q_events q))"
    using inv by (force simp: equeues_inv_def handles_fresh_def queues_ok_def equeue_ok_def)
  ultimately show ?thesis
    using inv by (auto simp: equeues_inv_def handles_fresh_def)
qed

theorem equeue_registry_witness:
  "KernelTriggerEvent 0 (fst (KernelDeleteEqueue equeue_example 1)) 1 5 KERNEL_EVFILT_USER 9 =
     (fst (KernelDeleteEqueue equeue_example 1), KERNEL_ERROR_EBADF)"
proof -
  obtain g' cs where d: "KernelDeleteEqueue equeue_example 1 = (g', OK, cs)"
    by (simp add: KernelDeleteEqueue_def equeue_example_def)
  from equeue_registry [OF equeue_example_reachable, of undefined 0 5 KERNEL_EVFILT_USER 9] d
  have "KernelTriggerEvent 0 g' 1 5 KERNEL_EVFILT_USER 9 = (g', KERNEL_ERROR_EBADF)" by blast
  with d show ?thesis by simp
qed

lemma nearest_deadline_min:
  "\<lbrakk>e \<in> set es; \<not> e_triggered e; e_deadline_ns e \<noteq> 0\<rbrakk> \<Longrightarrow> nearest_deadline es \<le> e_deadline_ns e"
  by (induction es) (auto simp: min_le_iff_disj)

lemma nearest_deadline_in:
  "nearest_deadline es \<noteq> 0xffffffffffffffff \<Longrightarrow>
     \<exists>e\<in>set es. \<not> e_triggered e \<and> e_deadline_ns e \<noteq> 0 \<and> nearest_deadline es = e_deadline_ns e"
  by (induction es) (auto simp: min_def)

text \<open>
  A wait sleeps until the nearest timer. When a timer is pending within \<open>2^32\<close> microseconds, the
  sleep is at least one microsecond, reaches the nearest deadline and overshoots it by less than two:
  at that time some timer expires, and no timer could expire two microseconds earlier.
\<close>

theorem timer_sleep_exact:
  assumes "GetNextTimerWaitMicros q now = Some w"
    and "uint (nearest_deadline (q_events q)) - uint now < 4294967000000"
    and "uint now < 18000000000000000000"
  shows "1 \<le> uint w \<and>
         (\<exists>e\<in>set (q_events q). \<not> e_triggered e \<and> e_deadline_ns e \<noteq> 0 \<and>
            uint (e_deadline_ns e) \<le> uint now + 1000 * uint w) \<and>
         (\<forall>e\<in>set (q_events q). \<not> e_triggered e \<and> e_deadline_ns e \<noteq> 0 \<longrightarrow>
            uint now + 1000 * (uint w - 1) < max (uint (e_deadline_ns e)) (uint now + 1))"
proof -
  let ?n = "nearest_deadline (q_events q)"
  let ?r = "max 0 (uint ?n - uint now)"
  from assms(1) have n: "?n \<noteq> 0xffffffffffffffff"
    by (auto simp: GetNextTimerWaitMicros_def Let_def split: if_splits)
  have r: "uint (if ?n > now then ?n - now else 0) = ?r"
    by (auto simp: word_less_def uint_sub_lem [THEN iffD1] max_def)
  then have "uint ((if ?n > now then ?n - now else 0) + 999) = ?r + 999"
    using assms(2) by (simp add: uint_word_ariths r)
  then have "uint (max 1 (((if ?n > now then ?n - now else 0) + 999) div 1000)) =
      max 1 ((?r + 999) div 1000)"
    by (simp add: max_def word_le_def uint_div_distrib)
  moreover have "max 1 ((?r + 999) div 1000) \<le> 4294967000"
    using assms(2) by auto
  ultimately have m: "uint (min (max 1 (((if ?n > now then ?n - now else 0) + 999) div 1000)) 0xffffffff) =
      max 1 ((?r + 999) div 1000)" and small: "max 1 ((?r + 999) div 1000) < 2 ^ 32"
    by (auto simp: min_def word_le_def)
  have "w = ucast (min (max 1 (((if ?n > now then ?n - now else 0) + 999) div 1000)) 0xffffffff)"
    using assms(1) n by (simp add: GetNextTimerWaitMicros_def Let_def)
  then have "uint w = uint (min (max 1 (((if ?n > now then ?n - now else 0) + 999) div 1000)) 0xffffffff) mod 2 ^ 32"
    by (simp add: unsigned_ucast_eq take_bit_eq_mod)
  then have "uint w = max 1 ((?r + 999) div 1000) mod 2 ^ 32"
    by (simp only: m)
  then have w: "uint w = max 1 ((?r + 999) div 1000)"
    by (subst (asm) mod_pos_pos_trivial [OF _ small]) simp_all
  show ?thesis
  proof (intro conjI)
    show "1 \<le> uint w" by (simp add: w)
    from nearest_deadline_in [OF n] obtain e where
      "e \<in> set (q_events q)" "\<not> e_triggered e" "e_deadline_ns e \<noteq> 0" "?n = e_deadline_ns e" by blast
    moreover have "uint ?n \<le> uint now + 1000 * uint w" unfolding w by auto
    ultimately show "\<exists>e\<in>set (q_events q). \<not> e_triggered e \<and> e_deadline_ns e \<noteq> 0 \<and>
        uint (e_deadline_ns e) \<le> uint now + 1000 * uint w" by auto
    have "uint now + 1000 * (uint w - 1) < max (uint ?n) (uint now + 1)" unfolding w by auto
    then show "\<forall>e\<in>set (q_events q). \<not> e_triggered e \<and> e_deadline_ns e \<noteq> 0 \<longrightarrow>
        uint now + 1000 * (uint w - 1) < max (uint (e_deadline_ns e)) (uint now + 1)"
      using nearest_deadline_min [of _ "q_events q"] by (fastforce simp: word_le_def)
  qed
qed

theorem timer_sleep_exact_witness:
  "\<exists>w. GetNextTimerWaitMicros ((new_equeue 1)\<lparr>q_events := [hrtimer_event 3 5500 100 0]\<rparr>) 100 = Some w \<and>
       1 \<le> uint w"
proof -
  let ?q = "(new_equeue 1)\<lparr>q_events := [hrtimer_event 3 5500 100 0]\<rparr>"
  have e: "GetNextTimerWaitMicros ?q 100 = Some 6" "nearest_deadline (q_events ?q) = 5600"
    by (simp_all add: GetNextTimerWaitMicros_def hrtimer_event_def blank_event_def new_equeue_def)
  from timer_sleep_exact [OF e(1)] show ?thesis by (simp add: e)
qed

lemma level_drain:
  assumes "e_triggered e" "e_pending e = []" "e_reset_func e = Some RF_User"
    "ke_flags (e_event e) AND EV_CLEAR = 0" "ke_flags (e_event e) AND EV_ONESHOT = 0"
  shows "drain_event n e = (replicate n (e_event e), e, False)"
proof (induction n)
  case (Suc n)
  have "pop_pending (call_reset e) = e"
    using assms by (simp add: call_reset_def UserEventResetFunc_def pop_pending_def)
  with Suc assms show ?case by simp
qed simp

text \<open>
  A level-triggered user event fills the buffer. \<open>KernelAddUserEvent\<close> registers without
  \<open>EV_CLEAR\<close>, so its reset callback leaves it triggered, and one wait with room for \<open>n\<close> events stores
  the same event \<open>n\<close> times; with \<open>EV_CLEAR\<close> it is stored once.
\<close>

theorem level_event_repeats:
  "scan_events (Suc n) [(user_event id1 EV_ADD)\<lparr>e_triggered := True\<rparr>] =
     (replicate (Suc n) (e_event (user_event id1 EV_ADD)),
      [(user_event id1 EV_ADD)\<lparr>e_triggered := True\<rparr>]) \<and>
   scan_events (Suc n) [(user_event id1 (EV_ADD OR EV_CLEAR))\<lparr>e_triggered := True\<rparr>] =
     ([e_event (user_event id1 (EV_ADD OR EV_CLEAR))], [user_event id1 (EV_ADD OR EV_CLEAR)])"
proof
  have "drain_event (Suc n) ((user_event id1 EV_ADD)\<lparr>e_triggered := True\<rparr>) =
      (replicate (Suc n) (e_event (user_event id1 EV_ADD)),
       (user_event id1 EV_ADD)\<lparr>e_triggered := True\<rparr>, False)"
    using level_drain [of "(user_event id1 EV_ADD)\<lparr>e_triggered := True\<rparr>" "Suc n"]
    by (simp add: user_event_def blank_event_def event_constants)
  then show "scan_events (Suc n) [(user_event id1 EV_ADD)\<lparr>e_triggered := True\<rparr>] =
     (replicate (Suc n) (e_event (user_event id1 EV_ADD)),
      [(user_event id1 EV_ADD)\<lparr>e_triggered := True\<rparr>])"
    by (simp del: drain_event.simps replicate.simps)
next
  let ?e = "user_event id1 (EV_ADD OR EV_CLEAR)"
  have "drain_event (Suc n) (?e\<lparr>e_triggered := True\<rparr>) = ([e_event ?e], ?e, False)"
    using drain_event_idle [of ?e n]
    by (simp add: user_event_def blank_event_def event_constants call_reset_def
        UserEventResetFunc_def clear_event_def pop_pending_def)
  then show "scan_events (Suc n) [?e\<lparr>e_triggered := True\<rparr>] = ([e_event ?e], [?e])"
    by (simp del: drain_event.simps add: Let_def)
qed

end
