(* ===== verification/BitArray.thy ===== *)
theory BitArray
  imports Prelude
begin

text \<open>
  The bit array of src/src/common/bitArray.h: \<open>N\<close> bits in an array of 64-bit words, with the masked
  updates of a range and the two word-at-a-time searches for a run of set bits. The array of words is
  a list; \<open>N\<close> is 64 times its length. The abstraction is the set of the indexes of the set bits.
\<close>

section \<open>Words\<close>

definition countr_zero :: "u64 \<Rightarrow> nat" where
  "countr_zero w = length (takeWhile (\<lambda>i. \<not> bit w i) [0..<64])"

definition countr_one :: "u64 \<Rightarrow> nat" where
  "countr_one w = length (takeWhile (bit w) [0..<64])"

definition countl_zero :: "u64 \<Rightarrow> nat" where
  "countl_zero w = length (takeWhile (\<lambda>i. \<not> bit w (63 - i)) [0..<64])"

definition countl_one :: "u64 \<Rightarrow> nat" where
  "countl_one w = length (takeWhile (\<lambda>i. bit w (63 - i)) [0..<64])"

definition low_mask :: "nat \<Rightarrow> u64" where
  "low_mask end_bit = (if end_bit = 63 then NOT 0 else push_bit (end_bit + 1) 1 - 1)"

section \<open>The array\<close>

type_synonym bit_array = "u64 list"

definition bit_size :: "bit_array \<Rightarrow> nat" where
  "bit_size m = 64 * length m"

definition Get :: "bit_array \<Rightarrow> nat \<Rightarrow> bool" where
  "Get m index = (m ! (index div 64) AND push_bit (index mod 64) 1 \<noteq> 0)"

definition Set :: "bit_array \<Rightarrow> nat \<Rightarrow> bit_array" where
  "Set m index = m[index div 64 := m ! (index div 64) OR push_bit (index mod 64) 1]"

definition Unset :: "bit_array \<Rightarrow> nat \<Rightarrow> bit_array" where
  "Unset m index = m[index div 64 := m ! (index div 64) AND NOT (push_bit (index mod 64) 1)]"

text \<open>The loop \<open>for (word = i; word < j; word++) m_data[word] = src[word]\<close>.\<close>

fun copy_words :: "(nat \<Rightarrow> u64) \<Rightarrow> nat \<Rightarrow> nat \<Rightarrow> bit_array \<Rightarrow> bit_array" where
  "copy_words src i 0 m = m"
| "copy_words src i (Suc n) m = copy_words src (i + 1) n (m[i := src i])"

definition SetRange :: "bit_array \<Rightarrow> nat \<Rightarrow> nat \<Rightarrow> bit_array" where
  "SetRange m start end1 =
     (if start \<ge> end1 \<or> end1 > bit_size m then m
      else let first_word = start div 64; last_word = (end1 - 1) div 64;
               start_bit = start mod 64; end_bit = (end1 - 1) mod 64;
               start_mask = push_bit start_bit (NOT 0); end_mask = low_mask end_bit
           in if first_word = last_word
              then m[first_word := m ! first_word OR (start_mask AND end_mask)]
              else let m = m[first_word := m ! first_word OR start_mask];
                       m = copy_words (\<lambda>word. NOT 0) (first_word + 1) (last_word - (first_word + 1)) m
                   in m[last_word := m ! last_word OR end_mask])"

definition UnsetRange :: "bit_array \<Rightarrow> nat \<Rightarrow> nat \<Rightarrow> bit_array" where
  "UnsetRange m start end1 =
     (if start \<ge> end1 \<or> end1 > bit_size m then m
      else let first_word = start div 64; last_word = (end1 - 1) div 64;
               start_bit = start mod 64; end_bit = (end1 - 1) mod 64;
               start_mask = push_bit start_bit 1 - 1;
               end_mask = (if end_bit = 63 then 0 else NOT (push_bit (end_bit + 1) 1 - 1))
           in if first_word = last_word
              then m[first_word := m ! first_word AND (start_mask OR end_mask)]
              else let m = m[first_word := m ! first_word AND start_mask];
                       m = copy_words (\<lambda>word. 0) (first_word + 1) (last_word - (first_word + 1)) m
                   in m[last_word := m ! last_word AND end_mask])"

text \<open>The constructor that copies the bits of a range.\<close>

definition SubRange :: "bit_array \<Rightarrow> nat \<Rightarrow> nat \<Rightarrow> bit_array" where
  "SubRange other start end1 =
     (let m = replicate (length other) 0
      in if start \<ge> end1 \<or> end1 > bit_size other then m
         else let first_word = start div 64; last_word = (end1 - 1) div 64;
                  start_bit = start mod 64; end_bit = (end1 - 1) mod 64;
                  start_mask = push_bit start_bit (NOT 0); end_mask = low_mask end_bit
              in if first_word = last_word
                 then m[first_word := other ! first_word AND start_mask AND end_mask]
                 else let m = m[first_word := other ! first_word AND start_mask];
                          m = copy_words (\<lambda>word. other ! word) (first_word + 1)
                                (last_word - (first_word + 1)) m
                      in m[last_word := other ! last_word AND end_mask])"

definition Fill :: "bit_array \<Rightarrow> bit_array" where
  "Fill m = replicate (length m) (NOT 0)"

definition Clear :: "bit_array \<Rightarrow> bit_array" where
  "Clear m = replicate (length m) 0"

definition None_set :: "bit_array \<Rightarrow> bool" where
  "None_set m \<longleftrightarrow> foldl (OR) 0 m = 0"

definition Any_set :: "bit_array \<Rightarrow> bool" where
  "Any_set m \<longleftrightarrow> \<not> None_set m"

definition xor_bits :: "bit_array \<Rightarrow> bit_array \<Rightarrow> bit_array" where
  "xor_bits m other = map2 (XOR) m other"

definition not_bits :: "bit_array \<Rightarrow> bit_array" where
  "not_bits m = map NOT m"

section \<open>Searches\<close>

text \<open>The first word that differs from \<open>skip\<close>, from index \<open>i\<close> on.\<close>

fun next_word :: "u64 \<Rightarrow> u64 list \<Rightarrow> nat \<Rightarrow> (nat \<times> u64) option" where
  "next_word skip [] i = None"
| "next_word skip (w # ws) i = (if w \<noteq> skip then Some (i, w) else next_word skip ws (i + 1))"

text \<open>
  \<open>FirstRangeFrom\<close>: the search for a word with a set bit from \<open>start\<close> on, then the end of the run that
  begins at the lowest bit of that word.
\<close>

definition first_word_from :: "bit_array \<Rightarrow> nat \<Rightarrow> (nat \<times> u64) option" where
  "first_word_from m start =
     (let word_index = start div 64;
          word = m ! word_index AND push_bit (start mod 64) (NOT 0)
      in next_word 0 (word # drop (word_index + 1) m) word_index)"

definition run_from_word :: "bit_array \<Rightarrow> nat \<Rightarrow> u64 \<Rightarrow> nat \<times> nat" where
  "run_from_word m word_index word =
     (let first = word_index * 64 + countr_zero word;
          first_bit = first mod 64;
          first_ones = countr_one (drop_bit first_bit (m ! word_index))
      in if first_bit + first_ones < 64 then (first, first + first_ones)
         else case next_word (NOT 0) (drop (word_index + 1) m) (word_index + 1) of
                Some (j, w) \<Rightarrow> (first, j * 64 + countr_one w)
              | None \<Rightarrow> (first, bit_size m))"

definition FirstRangeFrom :: "bit_array \<Rightarrow> nat \<Rightarrow> nat \<times> nat" where
  "FirstRangeFrom m start =
     (if start \<ge> bit_size m then (bit_size m, bit_size m)
      else case first_word_from m start of
             None \<Rightarrow> (bit_size m, bit_size m)
           | Some (word_index, word) \<Rightarrow> run_from_word m word_index word)"

text \<open>The word before index \<open>i\<close> that differs from \<open>skip\<close>, going down.\<close>

fun prev_word :: "u64 \<Rightarrow> u64 list \<Rightarrow> nat \<Rightarrow> (nat \<times> u64) option" where
  "prev_word skip m 0 = None"
| "prev_word skip m (Suc i) = (if m ! i \<noteq> skip then Some (i, m ! i) else prev_word skip m i)"

text \<open>
  \<open>LastRangeFrom\<close>: the search down for a word with a set bit below \<open>end\<close>, then the begin of the run
  that ends at the highest bit of that word.
\<close>

definition last_word_from :: "bit_array \<Rightarrow> nat \<Rightarrow> (nat \<times> u64) option" where
  "last_word_from m end1 =
     (let word_index = (end1 - 1) div 64;
          word = m ! word_index AND low_mask ((end1 - 1) mod 64)
      in if word \<noteq> 0 then Some (word_index, word) else prev_word 0 m word_index)"

definition run_down_from_word :: "bit_array \<Rightarrow> nat \<Rightarrow> u64 \<Rightarrow> nat \<times> nat" where
  "run_down_from_word m word_index word =
     (let empty_bits = countl_zero word;
          ones = countl_one (push_bit empty_bits word);
          last1 = (word_index + 1) * 64 - empty_bits
      in if empty_bits + ones < 64 then (last1 - ones, last1)
         else case prev_word (NOT 0) m word_index of
                Some (j, w) \<Rightarrow> ((j + 1) * 64 - countl_one w, last1)
              | None \<Rightarrow> (0, last1))"

definition LastRangeFrom :: "bit_array \<Rightarrow> nat \<Rightarrow> nat \<times> nat" where
  "LastRangeFrom m end1 =
     (if end1 = 0 then (0, 0)
      else case last_word_from m (if end1 > bit_size m then bit_size m else end1) of
             None \<Rightarrow> (0, 0)
           | Some (word_index, word) \<Rightarrow> run_down_from_word m word_index word)"

definition FirstRange :: "bit_array \<Rightarrow> nat \<times> nat" where
  "FirstRange m = FirstRangeFrom m 0"

definition LastRange :: "bit_array \<Rightarrow> nat \<times> nat" where
  "LastRange m = LastRangeFrom m (bit_size m)"

section \<open>Abstraction\<close>

definition bits_of :: "bit_array \<Rightarrow> nat set" where
  "bits_of m = {i. i < bit_size m \<and> bit (m ! (i div 64)) (i mod 64)}"

lemma bits_of_lt: "i \<in> bits_of m \<Longrightarrow> i < bit_size m"
  by (simp add: bits_of_def)

lemma word_index_lt: "i < bit_size m \<longleftrightarrow> i div 64 < length m"
  by (auto simp: bit_size_def)

lemma bits_of_iff: "i \<in> bits_of m \<longleftrightarrow> i div 64 < length m \<and> bit (m ! (i div 64)) (i mod 64)"
  by (simp add: bits_of_def word_index_lt)

lemma bits_of_eqI:
  assumes "length m' = length m"
    and "\<And>k b. k < length m \<Longrightarrow> b < 64 \<Longrightarrow> bit (m' ! k) b \<longleftrightarrow> (64 * k + b \<in> A)"
  shows "bits_of m' = A \<inter> {..<bit_size m}"
proof -
  have "i \<in> bits_of m' \<longleftrightarrow> i \<in> A" if "i < bit_size m" for i
    using assms(2) [of "i div 64" "i mod 64"] that
    by (simp add: bits_of_def word_index_lt assms(1))
  then show ?thesis by (auto simp: bits_of_def bit_size_def assms(1))
qed

lemma push_bit_minus_1: "push_bit n 1 - 1 = (mask n :: u64)"
  by (simp add: mask_eq_exp_minus_1 push_bit_eq_mult)

lemma bit_low_mask: "b < 64 \<Longrightarrow> e < 64 \<Longrightarrow> bit (low_mask e) b \<longleftrightarrow> b \<le> e"
  unfolding low_mask_def push_bit_minus_1 by (auto simp: bit_simps)

lemma bit_ones_from: "b < 64 \<Longrightarrow> bit (push_bit s (NOT 0) :: u64) b \<longleftrightarrow> s \<le> b"
  by (auto simp: bit_simps)

lemma bit_below: "b < 64 \<Longrightarrow> bit (push_bit s 1 - 1 :: u64) b \<longleftrightarrow> b < s"
  unfolding push_bit_minus_1 by (auto simp: bit_simps)

lemma length_copy_words [simp]: "length (copy_words src i n m) = length m"
  by (induction src i n m rule: copy_words.induct) auto

lemma nth_copy_words:
  "k < length m \<Longrightarrow> copy_words src i n m ! k = (if i \<le> k \<and> k < i + n then src k else m ! k)"
  by (induction src i n m rule: copy_words.induct)
     (auto simp: nth_list_update not_less_eq_eq dest: le_antisym)

text \<open>The three ways a word meets the range \<open>[start, end)\<close>, by its index.\<close>

lemma range_word:
  fixes s e k b :: nat
  assumes "s < e" "b < 64"
  shows "64 * k + b \<in> {s..<e} \<longleftrightarrow>
     (if k < s div 64 \<or> (e - 1) div 64 < k then False
      else (k = s div 64 \<longrightarrow> s mod 64 \<le> b) \<and> (k = (e - 1) div 64 \<longrightarrow> b \<le> (e - 1) mod 64))"
proof -
  obtain q r where q: "s div 64 = q" "s mod 64 = r" "s = 64 * q + r" "r < 64"
    by (metis mod_less_divisor mult_div_mod_eq zero_less_numeral)
  obtain p t where p: "(e - 1) div 64 = p" "(e - 1) mod 64 = t" "e - 1 = 64 * p + t" "t < 64"
    by (metis mod_less_divisor mult_div_mod_eq zero_less_numeral)
  from p(3) assms(1) have e: "e = 64 * p + t + 1" by simp
  show ?thesis
    unfolding q(1,2) p(1,2)
    using assms(2) q(4) p(4)
    by (cases k q rule: linorder_cases; cases k p rule: linorder_cases; simp add: q(3) e; linarith)
qed

definition word_span :: "nat \<Rightarrow> nat \<Rightarrow> nat \<Rightarrow> nat \<Rightarrow> bool" where
  "word_span s e k b \<longleftrightarrow> s div 64 \<le> k \<and> k \<le> (e - 1) div 64 \<and>
     (k = s div 64 \<longrightarrow> s mod 64 \<le> b) \<and> (k = (e - 1) div 64 \<longrightarrow> b \<le> (e - 1) mod 64)"

lemma word_span_iff: "s < e \<Longrightarrow> b < 64 \<Longrightarrow> 64 * k + b \<in> {s..<e} \<longleftrightarrow> word_span s e k b"
  by (subst range_word) (auto simp: word_span_def)

lemma div_order: "s < e \<Longrightarrow> s div 64 \<le> (e - 1) div (64::nat)"
  by (rule div_le_mono) simp

lemma last_word_lt: "s < e \<Longrightarrow> e \<le> bit_size m \<Longrightarrow> (e - 1) div 64 < length m"
  by (auto simp: bit_size_def)

lemma member_word: "b < 64 \<Longrightarrow> k < length m \<Longrightarrow> 64 * k + b \<in> bits_of m \<longleftrightarrow> bit (m ! k) b"
  by (simp add: bits_of_iff)

lemma bits_of_subset: "bits_of m \<subseteq> {..<bit_size m}"
  by (auto simp: bits_of_def)

lemma length_SetRange [simp]: "length (SetRange m s e) = length m"
  by (simp add: SetRange_def Let_def)

lemma length_UnsetRange [simp]: "length (UnsetRange m s e) = length m"
  by (simp add: UnsetRange_def Let_def)

lemma length_SubRange [simp]: "length (SubRange m s e) = length m"
  by (simp add: SubRange_def Let_def)

lemma SetRange_word:
  assumes "s < e" "e \<le> bit_size m" "k < length m" "b < 64"
  shows "bit (SetRange m s e ! k) b \<longleftrightarrow> bit (m ! k) b \<or> word_span s e k b"
proof -
  note lt = last_word_lt [OF assms(1,2)] div_order [OF assms(1)]
  have bits: "bit (push_bit (s mod 64) (NOT 0) :: u64) b \<longleftrightarrow> s mod 64 \<le> b"
    "bit (low_mask ((e - 1) mod 64)) b \<longleftrightarrow> b \<le> (e - 1) mod 64"
    using assms(4) by (simp_all only: bit_ones_from bit_low_mask mod_less_divisor zero_less_numeral)
  show ?thesis
  proof (cases "s div 64 = (e - 1) div 64")
    case True
    with assms lt bits show ?thesis
      by (auto simp: SetRange_def Let_def word_span_def nth_list_update bit_or_iff bit_and_iff)
  next
    case False
    with assms lt bits show ?thesis
      by (auto simp: SetRange_def Let_def word_span_def nth_list_update nth_copy_words bit_or_iff
          bit_not_iff)
  qed
qed

lemma UnsetRange_word:
  assumes "s < e" "e \<le> bit_size m" "k < length m" "b < 64"
  shows "bit (UnsetRange m s e ! k) b \<longleftrightarrow> bit (m ! k) b \<and> \<not> word_span s e k b"
proof -
  note lt = last_word_lt [OF assms(1,2)] div_order [OF assms(1)]
  have "bit (if t = 63 then 0 else NOT (push_bit (t + 1) 1 - 1) :: u64) b \<longleftrightarrow> t < b" for t
    using assms(4) unfolding push_bit_minus_1 by (auto simp: bit_simps)
  then have bits: "bit (push_bit (s mod 64) 1 - 1 :: u64) b \<longleftrightarrow> b < s mod 64"
    "bit (if (e - 1) mod 64 = 63 then 0 else NOT (push_bit ((e - 1) mod 64 + 1) 1 - 1) :: u64) b \<longleftrightarrow>
       (e - 1) mod 64 < b"
    using assms(4) by (simp_all only: bit_below)
  show ?thesis
  proof (cases "s div 64 = (e - 1) div 64")
    case True
    with assms lt bits show ?thesis
      by (simp add: UnsetRange_def Let_def word_span_def nth_list_update bit_or_iff bit_and_iff
          del: push_bit_of_1 One_nat_def) linarith
  next
    case False
    with assms lt bits show ?thesis
      by (simp add: UnsetRange_def Let_def word_span_def nth_list_update nth_copy_words bit_and_iff
          del: push_bit_of_1 One_nat_def) linarith
  qed
qed

lemma SubRange_word:
  assumes "s < e" "e \<le> bit_size m" "k < length m" "b < 64"
  shows "bit (SubRange m s e ! k) b \<longleftrightarrow> bit (m ! k) b \<and> word_span s e k b"
proof -
  note lt = last_word_lt [OF assms(1,2)] div_order [OF assms(1)]
  have bits: "bit (push_bit (s mod 64) (NOT 0) :: u64) b \<longleftrightarrow> s mod 64 \<le> b"
    "bit (low_mask ((e - 1) mod 64)) b \<longleftrightarrow> b \<le> (e - 1) mod 64"
    using assms(4) by (simp_all only: bit_ones_from bit_low_mask mod_less_divisor zero_less_numeral)
  show ?thesis
  proof (cases "s div 64 = (e - 1) div 64")
    case True
    with assms lt bits show ?thesis
      by (auto simp: SubRange_def Let_def word_span_def nth_list_update bit_and_iff)
  next
    case False
    with assms lt bits show ?thesis
      by (auto simp: SubRange_def Let_def word_span_def nth_list_update nth_copy_words bit_and_iff)
  qed
qed

lemma bits_of_SetRange:
  assumes "e \<le> bit_size m"
  shows "bits_of (SetRange m s e) = bits_of m \<union> {s..<e}"
proof (cases "s < e")
  case True
  have "bits_of (SetRange m s e) = (bits_of m \<union> {s..<e}) \<inter> {..<bit_size m}"
    by (rule bits_of_eqI)
       (simp_all only: length_SetRange SetRange_word [OF True assms] Un_iff member_word
         word_span_iff [OF True])
  with assms bits_of_subset [of m] show ?thesis by auto
qed (simp add: SetRange_def)

lemma bits_of_UnsetRange:
  assumes "e \<le> bit_size m"
  shows "bits_of (UnsetRange m s e) = bits_of m - {s..<e}"
proof (cases "s < e")
  case True
  have "bits_of (UnsetRange m s e) = (bits_of m - {s..<e}) \<inter> {..<bit_size m}"
    by (rule bits_of_eqI)
       (simp_all only: length_UnsetRange UnsetRange_word [OF True assms] Diff_iff member_word
         word_span_iff [OF True])
  with bits_of_subset [of m] show ?thesis by auto
qed (simp add: UnsetRange_def)

lemma bits_of_zeros [simp]: "bits_of (replicate n 0) = {}"
  by (auto simp: bits_of_iff)

lemma bits_of_SubRange:
  assumes "e \<le> bit_size m"
  shows "bits_of (SubRange m s e) = bits_of m \<inter> {s..<e}"
proof (cases "s < e")
  case True
  have "bits_of (SubRange m s e) = (bits_of m \<inter> {s..<e}) \<inter> {..<bit_size m}"
    by (rule bits_of_eqI)
       (simp_all only: length_SubRange SubRange_word [OF True assms] Int_iff member_word
         word_span_iff [OF True])
  with bits_of_subset [of m] show ?thesis by auto
qed (simp add: SubRange_def Let_def)

lemma bits_of_Fill: "bits_of (Fill m) = {..<bit_size m}"
  by (auto simp: bits_of_iff Fill_def bit_size_def bit_not_iff)

lemma bits_of_Clear: "bits_of (Clear m) = {}"
  by (simp add: Clear_def)

lemma bits_of_not: "bits_of (not_bits m) = {..<bit_size m} - bits_of m"
  by (auto simp: bits_of_iff not_bits_def bit_size_def bit_not_iff)

lemma bits_of_xor:
  "length m' = length m \<Longrightarrow> bits_of (xor_bits m m') = (bits_of m - bits_of m') \<union> (bits_of m' - bits_of m)"
  by (auto simp: bits_of_iff xor_bits_def bit_xor_iff)

lemma foldl_or: "foldl (OR) a ws = (0::u64) \<longleftrightarrow> a = 0 \<and> (\<forall>w\<in>set ws. w = 0)"
proof (induction ws arbitrary: a)
  case (Cons w ws)
  have "a OR w = 0 \<longleftrightarrow> a = 0 \<and> w = 0"
    by (metis or.right_neutral or_eq_0_iff)
  with Cons show ?case by auto
qed simp

lemma bits_of_empty: "bits_of m = {} \<longleftrightarrow> (\<forall>w\<in>set m. w = 0)"
proof
  assume e: "bits_of m = {}"
  show "\<forall>w\<in>set m. w = 0"
  proof
    fix w assume "w \<in> set m"
    then obtain k where k: "k < length m" "w = m ! k" by (metis in_set_conv_nth)
    show "w = 0"
    proof (rule bit_word_eqI)
      fix b assume "b < LENGTH(64)"
      with e k member_word [of b k m] show "bit w b = bit (0 :: u64) b" by auto
    qed
  qed
next
  assume "\<forall>w\<in>set m. w = 0"
  then have "m ! k = 0" if "k < length m" for k using that by simp
  then show "bits_of m = {}" by (simp add: bits_of_iff set_eq_iff)
qed

lemma None_set_iff: "None_set m \<longleftrightarrow> bits_of m = {}"
  by (simp add: None_set_def foldl_or bits_of_empty)

lemma Any_set_iff: "Any_set m \<longleftrightarrow> bits_of m \<noteq> {}"
  by (simp add: Any_set_def None_set_iff)

lemma bit_single: "b < 64 \<Longrightarrow> bit (push_bit n 1 :: u64) b \<longleftrightarrow> b = n"
  by (auto simp: bit_simps)

lemma Get_iff: "i < bit_size m \<Longrightarrow> Get m i \<longleftrightarrow> i \<in> bits_of m"
proof -
  have "(w AND push_bit (i mod 64) 1 \<noteq> 0) = bit w (i mod 64)" for w :: u64
    by (simp add: push_bit_eq_mult and_exp_eq_0_iff_not_bit)
  then show "i < bit_size m \<Longrightarrow> Get m i \<longleftrightarrow> i \<in> bits_of m"
    by (simp add: Get_def bits_of_def)
qed

lemma index_word: "b < 64 \<Longrightarrow> 64 * k + b = i \<longleftrightarrow> k = i div 64 \<and> b = i mod (64::nat)"
  by auto

lemma bits_of_Set: "i < bit_size m \<Longrightarrow> bits_of (Set m i) = insert i (bits_of m)"
proof -
  assume i: "i < bit_size m"
  have "bits_of (Set m i) = insert i (bits_of m) \<inter> {..<bit_size m}"
    using i by (intro bits_of_eqI)
      (auto simp: Set_def word_index_lt nth_list_update bit_or_iff bit_single
         index_word member_word simp del: push_bit_of_1 split: if_splits)
  with i bits_of_subset [of m] show ?thesis by auto
qed

lemma bits_of_Unset: "i < bit_size m \<Longrightarrow> bits_of (Unset m i) = bits_of m - {i}"
proof -
  assume i: "i < bit_size m"
  have "bits_of (Unset m i) = (bits_of m - {i}) \<inter> {..<bit_size m}"
    using i by (intro bits_of_eqI)
      (auto simp: Unset_def word_index_lt nth_list_update bit_and_iff bit_not_iff bit_single
         index_word member_word simp del: push_bit_of_1 split: if_splits)
  with bits_of_subset [of m] show ?thesis by auto
qed

section \<open>Searches, specified\<close>

lemma length_takeWhile_upt:
  assumes "c = length (takeWhile P [0..<n])"
  shows "c \<le> n" "\<And>i. i < c \<Longrightarrow> P i" "c < n \<Longrightarrow> \<not> P c"
proof -
  show le: "c \<le> n" using length_takeWhile_le [of P "[0..<n]"] by (simp add: assms)
  show "P i" if "i < c" for i
    using that le nth_mem [of i "takeWhile P [0..<n]"]
    by (auto simp: assms takeWhile_nth dest: set_takeWhileD)
  show "\<not> P c" if "c < n"
    using nth_length_takeWhile [of P "[0..<n]"] that by (simp add: assms)
qed

lemma countr_zero_props:
  assumes "w \<noteq> 0"
  shows "countr_zero w < 64" "bit w (countr_zero w)" "\<And>i. i < countr_zero w \<Longrightarrow> \<not> bit w i"
proof -
  note tw = length_takeWhile_upt [OF countr_zero_def [of w]]
  show below: "\<And>i. i < countr_zero w \<Longrightarrow> \<not> bit w i" by (rule tw(2))
  show lt: "countr_zero w < 64"
  proof (rule ccontr)
    assume "\<not> countr_zero w < 64"
    then have "w = 0" using below by (intro bit_word_eqI) simp
    with assms show False by simp
  qed
  with tw(3) show "bit w (countr_zero w)" by simp
qed

lemma countr_one_props:
  shows "countr_one w \<le> 64" "\<And>i. i < countr_one w \<Longrightarrow> bit w i" "\<not> bit w (countr_one w)"
proof -
  note tw = length_takeWhile_upt [OF countr_one_def [of w]]
  show "countr_one w \<le> 64" by (rule tw(1))
  show "\<And>i. i < countr_one w \<Longrightarrow> bit w i" by (rule tw(2))
  show "\<not> bit w (countr_one w)"
    using tw(3) bit_imp_le_length [of w "countr_one w"] by (cases "countr_one w < 64") auto
qed

lemma countr_one_lt: "w \<noteq> NOT 0 \<Longrightarrow> countr_one w < 64"
proof (rule ccontr)
  assume "w \<noteq> NOT 0" and "\<not> countr_one w < 64"
  then have "w = NOT 0"
    using countr_one_props(2) [of _ w] by (intro bit_word_eqI) (simp add: bit_simps)
  with \<open>w \<noteq> NOT 0\<close> show False by simp
qed

lemma next_word_Some:
  "next_word skip ws i = Some (j, w) \<Longrightarrow>
     i \<le> j \<and> j - i < length ws \<and> w = ws ! (j - i) \<and> w \<noteq> skip \<and> (\<forall>k<j - i. ws ! k = skip)"
proof (induction ws arbitrary: i)
  case (Cons v ws)
  show ?case
  proof (cases "v = skip")
    case True
    with Cons.prems have "next_word skip ws (i + 1) = Some (j, w)" by simp
    from Cons.IH [OF this] have w: "w = ws ! (j - Suc i)" and "i < j" "j - Suc i < length ws"
      and skips: "\<forall>k<j - Suc i. ws ! k = skip" and "w \<noteq> skip"
      unfolding Suc_eq_plus1 [symmetric] Suc_le_eq by blast+
    moreover have "(v # ws) ! k = skip" if "k < j - i" for k
      using that skips True by (cases k) auto
    moreover have "w = (v # ws) ! (j - i)" using w \<open>i < j\<close> by (simp add: nth_Cons')
    ultimately show ?thesis by auto
  next
    case False
    with Cons.prems show ?thesis by auto
  qed
qed simp

lemma next_word_None: "next_word skip ws i = None \<longleftrightarrow> (\<forall>w\<in>set ws. w = skip)"
  by (induction ws arbitrary: i) auto

text \<open>A maximal run of \<open>A\<close> that is the first from \<open>start\<close> on, \<open>(N, N)\<close> when there is none.\<close>

definition first_run :: "nat set \<Rightarrow> nat \<Rightarrow> nat \<Rightarrow> nat \<times> nat \<Rightarrow> bool" where
  "first_run A N start r \<longleftrightarrow>
     (if \<forall>i\<in>A. i < start then r = (N, N)
      else start \<le> fst r \<and> fst r < snd r \<and> snd r \<le> N \<and> {fst r..<snd r} \<subseteq> A \<and> snd r \<notin> A \<and>
           (\<forall>i\<in>A. i < start \<or> fst r \<le> i))"

lemma split_index: obtains k b where "i = 64 * k + b" "b < (64::nat)"
  using that [of "i div 64" "i mod 64"] by simp

lemma run_to_word_end:
  assumes "\<And>t. c \<le> t \<Longrightarrow> t < 64 \<Longrightarrow> bit (m ! j) t" "j < length m"
    and "\<And>k. j < k \<Longrightarrow> k < j' \<Longrightarrow> m ! k = NOT 0" "j' \<le> length m"
    and "j' < length m \<Longrightarrow> \<forall>t<u. bit (m ! j') t" "j' = length m \<longrightarrow> u = 0" "u \<le> 64"
  shows "{64 * j + c..<64 * j' + u} \<subseteq> bits_of m"
proof
  fix i assume i: "i \<in> {64 * j + c..<64 * j' + u}"
  obtain k t where k: "i = 64 * k + t" "t < 64" by (rule split_index)
  consider "k = j" | "j < k" "k < j'" | "k = j'" "j < k"
    using i k assms(7) by force
  then show "i \<in> bits_of m"
  proof cases
    case 1
    with assms(1,2) i k show ?thesis by (simp add: member_word)
  next
    case 2
    with assms(3) [of k] assms(4) k show ?thesis by (simp add: member_word bit_not_iff)
  next
    case 3
    with i k assms(4,5,6) show ?thesis by (cases "j' = length m") (auto simp: member_word)
  qed
qed

text \<open>The word found holds the first set bit from \<open>start\<close> on.\<close>

lemma first_word_view:
  fixes start :: nat
  assumes "start div 64 \<le> k" "k < length m" "b < 64"
  shows "bit (if k = start div 64 then m ! (start div 64) AND push_bit (start mod 64) (NOT 0) else m ! k) b \<longleftrightarrow>
           64 * k + b \<in> bits_of m \<and> start \<le> 64 * k + b"
proof -
  have "start = 64 * (start div 64) + start mod 64" by simp
  moreover have "64 * k + b \<ge> start" if "k \<noteq> start div 64" using that assms(1) by auto
  moreover have "bit (push_bit (start mod 64) (NOT 0) :: u64) b \<longleftrightarrow> start mod 64 \<le> b"
    using assms(3) by (rule bit_ones_from)
  ultimately show ?thesis
    using assms by (auto simp only: member_word bit_and_iff split: if_splits)
qed

lemma first_word_None:
  assumes "start < bit_size m" and "first_word_from m start = None" and "x \<in> bits_of m"
  shows "x < start"
proof (rule ccontr)
  assume ge: "\<not> x < start"
  let ?i = "start div 64"
  let ?ws = "(m ! ?i AND push_bit (start mod 64) (NOT 0)) # drop (?i + 1) m"
  from assms(2) have zero: "\<forall>w\<in>set ?ws. w = 0"
    unfolding first_word_from_def Let_def by (rule next_word_None [THEN iffD1])
  obtain k b where k: "x = 64 * k + b" "b < 64" by (rule split_index)
  with ge assms(3) have kl: "?i \<le> k" "k < length m"
    using bits_of_lt [OF assms(3)] by (auto simp: bit_size_def)
  then have "?ws ! (k - ?i) \<in> set ?ws" by (intro nth_mem) auto
  then have "(if k = ?i then m ! ?i AND push_bit (start mod 64) (NOT 0) else m ! k) = 0"
    using zero kl by (auto simp: nth_Cons')
  with first_word_view [OF kl k(2)] assms(3) ge k(1) show False by simp
qed

lemma first_word_Some:
  assumes "start < bit_size m" and "first_word_from m start = Some (j, w)"
  defines "c \<equiv> countr_zero w"
  shows "j < length m" "c < 64" "64 * j + c \<in> bits_of m" "start \<le> 64 * j + c"
    and "\<And>x. x \<in> bits_of m \<Longrightarrow> x < start \<or> 64 * j + c \<le> x"
proof -
  let ?i = "start div 64"
  let ?v = "\<lambda>k. if k = ?i then m ! ?i AND push_bit (start mod 64) (NOT 0) else m ! k"
  let ?ws = "(m ! ?i AND push_bit (start mod 64) (NOT 0)) # drop (?i + 1) m"
  have i: "?i < length m" using assms(1) by (simp add: word_index_lt)
  have ws: "?ws ! (k - ?i) = ?v k" if "?i \<le> k" "k < length m" for k
    using that by (auto simp: nth_Cons')
  note nw = next_word_Some [OF assms(2) [unfolded first_word_from_def Let_def]]
  show j: "j < length m" using nw i by auto
  with nw ws have w: "?i \<le> j" "w = ?v j" "w \<noteq> 0" by auto
  note cz = countr_zero_props [OF w(3), folded c_def]
  show "c < 64" by (rule cz(1))
  show "64 * j + c \<in> bits_of m" "start \<le> 64 * j + c"
    using first_word_view [OF w(1) j cz(1)] cz(2) w(2) by auto
  have before: "?v k = 0" if "?i \<le> k" "k < j" for k
  proof -
    have "k - ?i < j - ?i" using that by simp
    then have "?ws ! (k - ?i) = 0" using nw by blast
    moreover have "k < length m" using that j by simp
    ultimately show ?thesis using ws [OF that(1)] by metis
  qed
  show "x < start \<or> 64 * j + c \<le> x" if x: "x \<in> bits_of m" for x
  proof (rule ccontr)
    assume ge: "\<not> (x < start \<or> 64 * j + c \<le> x)"
    obtain k b where k: "x = 64 * k + b" "b < 64" by (rule split_index)
    with ge cz(1) have kl: "?i \<le> k" "k \<le> j" "k = j \<longrightarrow> b < c" by auto
    then have "bit (?v k) b" using first_word_view [OF kl(1) _ k(2), of m] j x ge k(1) by simp
    with kl before [OF kl(1)] cz(3) [of b] w(2) show False by (cases "k = j") auto
  qed
qed

text \<open>From a set bit, the run is maximal above.\<close>

lemma run_from_word_spec:
  assumes "j < length m" "c < 64" "64 * j + c \<in> bits_of m" "c = countr_zero w"
  shows "\<exists>e. run_from_word m j w = (64 * j + c, e) \<and> 64 * j + c < e \<and> e \<le> bit_size m \<and>
           {64 * j + c..<e} \<subseteq> bits_of m \<and> e \<notin> bits_of m"
proof -
  let ?n = "countr_one (drop_bit c (m ! j))"
  have ones: "bit (m ! j) t" if "c \<le> t" "t < c + ?n" for t
    using countr_one_props(2) [of "t - c" "drop_bit c (m ! j)"] that by (simp add: bit_simps)
  have stop: "\<not> bit (m ! j) (c + ?n)"
    using countr_one_props(3) [of "drop_bit c (m ! j)"] by (simp add: bit_simps)
  have "bit (m ! j) c" using assms by (simp add: member_word)
  with stop have n: "0 < ?n" by (cases ?n) auto
  with ones [of "c + ?n - 1"] have cn: "c + ?n \<le> 64"
    using bit_imp_le_length [of "m ! j" "c + ?n - 1"] by simp
  have a: "(j * 64 + c) mod 64 = c" using assms(2) by simp
  show ?thesis
  proof (cases "c + ?n < 64")
    case True
    have "{64 * j + c..<64 * j + (c + ?n)} \<subseteq> bits_of m"
    proof
      fix x assume x: "x \<in> {64 * j + c..<64 * j + (c + ?n)}"
      with ones [of "x - 64 * j"] True assms(1) member_word [of "x - 64 * j" j m] show "x \<in> bits_of m"
        by auto
    qed
    moreover have "64 * j + (c + ?n) \<notin> bits_of m" using stop True assms(1) by (simp add: member_word)
    moreover have "64 * j + (c + ?n) \<le> bit_size m" using True assms(1) by (simp add: bit_size_def)
    ultimately show ?thesis
      using True n a assms(4) by (auto simp: run_from_word_def Let_def mult.commute add.assoc)
  next
    case False
    with cn have top: "c + ?n = 64" by simp
    show ?thesis
    proof (cases "next_word (NOT 0) (drop (j + 1) m) (j + 1)")
      case None
      then have "\<forall>v\<in>set (drop (j + 1) m). v = NOT 0" by (rule next_word_None [THEN iffD1])
      then have "m ! k = NOT 0" if "j < k" "k < length m" for k
        using that nth_mem [of "k - (j + 1)" "drop (j + 1) m"] by auto
      then have "{64 * j + c..<64 * length m + 0} \<subseteq> bits_of m"
        using ones top assms(1) by (intro run_to_word_end) auto
      moreover have "bit_size m \<notin> bits_of m" using bits_of_lt by blast
      ultimately show ?thesis
        using None False a assms bits_of_lt [OF assms(3)]
        by (simp add: run_from_word_def Let_def mult.commute bit_size_def)
    next
      case (Some r)
      obtain k v where r: "r = (k, v)" by (cases r)
      note nx = next_word_Some [OF Some [unfolded r]]
      then have k: "j < k" "k < length m" "v = m ! k" "v \<noteq> NOT 0" by auto
      have mid: "m ! x = NOT 0" if "j < x" "x < k" for x
      proof -
        have "drop (j + 1) m ! (x - (j + 1)) = NOT 0" using nx that by auto
        with that k show ?thesis by simp
      qed
      note cv = countr_one_props [where w = v] countr_one_lt [OF k(4)]
      have "{64 * j + c..<64 * k + countr_one v} \<subseteq> bits_of m"
        using ones top k cv mid assms(1) by (intro run_to_word_end) auto
      moreover have "64 * k + countr_one v \<notin> bits_of m" using cv k by (simp add: member_word)
      moreover have "64 * k + countr_one v \<le> bit_size m" "64 * j + c < 64 * k + countr_one v"
        using cv(4) k(1,2) assms(2) by (auto simp: bit_size_def)
      ultimately show ?thesis
        using False Some r a assms(4) by (simp add: run_from_word_def Let_def mult.commute)
    qed
  qed
qed

lemma FirstRangeFrom_first_run: "first_run (bits_of m) (bit_size m) start (FirstRangeFrom m start)"
proof (cases "start < bit_size m")
  case False
  then have "\<forall>i\<in>bits_of m. i < start" using bits_of_lt by fastforce
  with False show ?thesis by (simp add: first_run_def FirstRangeFrom_def)
next
  case True
  show ?thesis
  proof (cases "first_word_from m start")
    case None
    with True first_word_None [OF True None] show ?thesis
      by (simp add: first_run_def FirstRangeFrom_def)
  next
    case (Some r)
    obtain j w where r: "r = (j, w)" by (cases r)
    note found = first_word_Some [OF True Some [unfolded r]]
    from run_from_word_spec [OF found(1,2,3) refl] obtain e where e:
      "run_from_word m j w = (64 * j + countr_zero w, e)" "64 * j + countr_zero w < e"
      "e \<le> bit_size m" "{64 * j + countr_zero w..<e} \<subseteq> bits_of m" "e \<notin> bits_of m" by blast
    have "\<not> (\<forall>i\<in>bits_of m. i < start)" using found(3,4) by (meson not_le)
    with e found True Some r show ?thesis by (simp add: first_run_def FirstRangeFrom_def)
  qed
qed

text \<open>The dual search, for the last maximal run below \<open>e\<close>.\<close>

definition last_run :: "nat set \<Rightarrow> nat \<Rightarrow> nat \<times> nat \<Rightarrow> bool" where
  "last_run A e r \<longleftrightarrow>
     (if \<forall>i\<in>A. e \<le> i then r = (0, 0)
      else fst r < snd r \<and> snd r \<le> e \<and> {fst r..<snd r} \<subseteq> A \<and> (fst r = 0 \<or> fst r - 1 \<notin> A) \<and>
           (\<forall>i\<in>A. i < snd r \<or> e \<le> i))"

lemma countl_zero_props:
  assumes "w \<noteq> 0"
  shows "countl_zero w < 64" "bit w (63 - countl_zero w)" "\<And>i. 63 - countl_zero w < i \<Longrightarrow> \<not> bit w i"
proof -
  note tw = length_takeWhile_upt [OF countl_zero_def [of w]]
  have above: "\<not> bit w (63 - i)" if "i < countl_zero w" for i using tw(2) that by blast
  show lt: "countl_zero w < 64"
  proof (rule ccontr)
    assume "\<not> countl_zero w < 64"
    then have "\<not> bit w i" if "i < 64" for i using above [of "63 - i"] that by simp
    then have "w = 0" by (intro bit_word_eqI) simp
    with assms show False by simp
  qed
  with tw(3) show "bit w (63 - countl_zero w)" by simp
  show "\<not> bit w i" if "63 - countl_zero w < i" for i
  proof (cases "i < 64")
    case True
    with above [of "63 - i"] that show ?thesis by simp
  next
    case False
    then show ?thesis using bit_imp_le_length [of w i] by auto
  qed
qed

lemma countl_one_props:
  shows "countl_one w \<le> 64" "\<And>i. 64 - countl_one w \<le> i \<Longrightarrow> i < 64 \<Longrightarrow> bit w i"
    "countl_one w < 64 \<Longrightarrow> \<not> bit w (63 - countl_one w)"
proof -
  note tw = length_takeWhile_upt [OF countl_one_def [of w]]
  show "countl_one w \<le> 64" by (rule tw(1))
  show "bit w i" if "64 - countl_one w \<le> i" "i < 64" for i
    using tw(2) [of "63 - i"] that by simp
  show "countl_one w < 64 \<Longrightarrow> \<not> bit w (63 - countl_one w)" by (rule tw(3))
qed

lemma countl_one_lt: "w \<noteq> NOT 0 \<Longrightarrow> countl_one w < 64"
proof (rule ccontr)
  assume "w \<noteq> NOT 0" and "\<not> countl_one w < 64"
  then have "w = NOT 0"
    using countl_one_props(2) [of w] by (intro bit_word_eqI) (simp add: bit_simps)
  with \<open>w \<noteq> NOT 0\<close> show False by simp
qed

lemma prev_word_Some:
  "prev_word skip m i = Some (j, w) \<Longrightarrow>
     j < i \<and> w = m ! j \<and> w \<noteq> skip \<and> (\<forall>k. j < k \<and> k < i \<longrightarrow> m ! k = skip)"
proof (induction i)
  case (Suc i)
  show ?case
  proof (cases "m ! i = skip")
    case True
    with Suc.prems have "prev_word skip m i = Some (j, w)" by simp
    from Suc.IH [OF this] True show ?thesis by (auto simp: less_Suc_eq)
  next
    case False
    with Suc.prems show ?thesis by auto
  qed
qed simp

lemma prev_word_None: "prev_word skip m i = None \<longleftrightarrow> (\<forall>k<i. m ! k = skip)"
  by (induction i) (auto simp: less_Suc_eq)

lemma last_word_view:
  fixes e :: nat
  assumes "0 < e" "k \<le> (e - 1) div 64" "k < length m" "b < 64"
  shows "bit (if k = (e - 1) div 64 then m ! ((e - 1) div 64) AND low_mask ((e - 1) mod 64) else m ! k) b \<longleftrightarrow>
           64 * k + b \<in> bits_of m \<and> 64 * k + b < e"
proof -
  obtain q r where q: "(e - 1) div 64 = q" "(e - 1) mod 64 = r" "e = 64 * q + r + 1" "r < 64"
    using assms(1) by (metis Suc_diff_1 Suc_eq_plus1 mod_less_divisor mult_div_mod_eq zero_less_numeral)
  have "bit (low_mask r) b \<longleftrightarrow> b \<le> r" using assms(4) q(4) by (rule bit_low_mask)
  moreover have "64 * k + b < e" if "k \<noteq> q"
  proof -
    have "64 * Suc k \<le> 64 * q" using that assms(2) q(1) by (intro mult_le_mono2) simp
    with assms(4) q(3) show ?thesis by simp
  qed
  ultimately show ?thesis
    unfolding q(1,2) using assms(3,4) q(3)
    by (cases "k = q") (auto simp: member_word bit_and_iff)
qed

lemma last_word_None:
  assumes "0 < e" "e \<le> bit_size m" and "last_word_from m e = None" and "x \<in> bits_of m"
  shows "e \<le> x"
proof (rule ccontr)
  assume ge: "\<not> e \<le> x"
  let ?i = "(e - 1) div 64"
  let ?v = "\<lambda>k. if k = ?i then m ! ?i AND low_mask ((e - 1) mod 64) else m ! k"
  obtain k b where k: "x = 64 * k + b" "b < 64" by (rule split_index)
  from ge k have "x \<le> e - 1" "k = x div 64" by auto
  then have kl: "k \<le> ?i" by (simp add: div_le_mono)
  have "k < length m" using bits_of_lt [OF assms(4)] k by (simp add: bit_size_def)
  with last_word_view [OF assms(1) kl _ k(2)] assms(4) ge k have "bit (?v k) b" by simp
  moreover have "m ! ?i AND low_mask ((e - 1) mod 64) = 0" and "prev_word 0 m ?i = None"
    using assms(3) by (simp_all add: last_word_from_def Let_def split: if_splits)
  then have "?v k = 0" using kl by (simp add: prev_word_None)
  ultimately show False by simp
qed

lemma last_word_Some:
  assumes "0 < e" "e \<le> bit_size m" and "last_word_from m e = Some (j, w)"
  defines "c \<equiv> 63 - countl_zero w"
  shows "j < length m" "64 * j + c \<in> bits_of m" "64 * j + c < e" "countl_zero w < 64"
    and "\<And>x. x \<in> bits_of m \<Longrightarrow> x \<le> 64 * j + c \<or> e \<le> x"
    and "\<And>t. t \<le> c \<Longrightarrow> bit w t \<longleftrightarrow> bit (m ! j) t"
proof -
  let ?i = "(e - 1) div 64"
  let ?v = "\<lambda>k. if k = ?i then m ! ?i AND low_mask ((e - 1) mod 64) else m ! k"
  have i: "?i < length m" using assms(1,2) by (auto simp: bit_size_def)
  have w: "j \<le> ?i" "w = ?v j" "w \<noteq> 0" "\<forall>k. j < k \<and> k \<le> ?i \<longrightarrow> ?v k = 0"
    using assms(3) prev_word_Some [of 0 m ?i j w]
    by (auto simp: last_word_from_def Let_def split: if_splits)
  show j: "j < length m" using w(1) i by simp
  note cz = countl_zero_props [OF w(3), folded c_def]
  have c: "c < 64" by (simp add: c_def)
  show "countl_zero w < 64" by (rule cz(1))
  show jc: "64 * j + c \<in> bits_of m" "64 * j + c < e"
    using last_word_view [OF assms(1) w(1) j c] cz(2) w(2) by auto
  show "x \<le> 64 * j + c \<or> e \<le> x" if x: "x \<in> bits_of m" for x
  proof (rule ccontr)
    assume ge: "\<not> (x \<le> 64 * j + c \<or> e \<le> x)"
    obtain k b where k: "x = 64 * k + b" "b < 64" by (rule split_index)
    with ge c have kl: "j \<le> k" "k = j \<longrightarrow> c < b" by auto
    have "x \<le> e - 1" "k = x div 64" using ge k by auto
    then have ki: "k \<le> ?i" by (simp add: div_le_mono)
    then have "bit (?v k) b"
      using last_word_view [OF assms(1) ki _ k(2), of m] i x ge k(1) by simp
    with kl ki w(2,4) cz(3) [of b] show False by (cases "k = j") auto
  qed
  show "bit w t \<longleftrightarrow> bit (m ! j) t" if t: "t \<le> c" for t
  proof -
    have "64 * j + t < e" "t < 64" using jc(2) t c by auto
    with last_word_view [OF assms(1) w(1) j, of t] w(2) j show ?thesis by (simp add: member_word)
  qed
qed

lemma run_from_start:
  assumes "\<And>t. t \<le> c \<Longrightarrow> bit (m ! j) t" "c < 64" "j < length m"
    and "\<And>k. k < j \<Longrightarrow> m ! k = NOT 0"
  shows "{0..<64 * j + (c + 1)} \<subseteq> bits_of m"
proof
  fix x assume x: "x \<in> {0..<64 * j + (c + 1)}"
  obtain k b where k: "x = 64 * k + b" "b < 64" by (rule split_index)
  with x assms(2) consider "k < j" | "k = j" "b \<le> c" by force
  then show "x \<in> bits_of m"
    using k assms by cases (auto simp: member_word bit_not_iff)
qed

lemma run_from_word_start:
  assumes "\<And>t. t \<le> c \<Longrightarrow> bit (m ! j) t" "c < 64" "j < length m" "k < j"
    and "\<And>q. k < q \<Longrightarrow> q < j \<Longrightarrow> m ! q = NOT 0"
    and "\<And>t. 64 - u \<le> t \<Longrightarrow> t < 64 \<Longrightarrow> bit (m ! k) t"
  shows "{64 * k + (64 - u)..<64 * j + (c + 1)} \<subseteq> bits_of m"
proof
  fix x assume x: "x \<in> {64 * k + (64 - u)..<64 * j + (c + 1)}"
  obtain q b where q: "x = 64 * q + b" "b < 64" by (rule split_index)
  with x assms(2,4) consider "q = k" "64 - u \<le> b" | "k < q" "q < j" | "q = j" "b \<le> c" by force
  then show "x \<in> bits_of m"
    using q assms by cases (auto simp: member_word bit_not_iff)
qed

lemma run_down_spec:
  assumes "j < length m" "countl_zero w < 64" "c = 63 - countl_zero w" "64 * j + c \<in> bits_of m"
    and "\<And>t. t \<le> c \<Longrightarrow> bit w t \<longleftrightarrow> bit (m ! j) t"
  shows "\<exists>b. run_down_from_word m j w = (b, 64 * j + c + 1) \<and> b \<le> 64 * j + c \<and>
           {b..<64 * j + c + 1} \<subseteq> bits_of m \<and> (b = 0 \<or> b - 1 \<notin> bits_of m)"
proof -
  let ?z = "countl_zero w"
  let ?n = "countl_one (push_bit ?z w)"
  have c: "c < 64" "?z + c = 63" using assms(2,3) by auto
  note co = countl_one_props [of "push_bit ?z w"]
  have pb: "bit (push_bit ?z w) (?z + t) \<longleftrightarrow> bit (m ! j) t" if "t \<le> c" for t
    using assms(5) [OF that] that c by (simp add: bit_push_bit_iff)
  have ones: "bit (m ! j) t" if "c < t + ?n" "t \<le> c" for t
    using co(2) [of "?z + t"] pb [OF that(2)] that c by simp
  have nc: "?n \<le> c + 1"
  proof (rule ccontr)
    assume "\<not> ?n \<le> c + 1"
    then have "64 - ?n < ?z" "64 - ?n < 64" using c co(1) by auto
    then show False using co(2) [of "64 - ?n"] by (simp add: bit_push_bit_iff)
  qed
  have n0: "0 < ?n"
  proof (rule ccontr)
    assume "\<not> 0 < ?n"
    then have "\<not> bit (push_bit ?z w) 63" using co(3) by simp
    with pb [of c] c assms(1,4) show False by (simp add: member_word)
  qed
  have last1: "(j + 1) * 64 - ?z = 64 * j + c + 1" using c by simp
  show ?thesis
  proof (cases "?z + ?n < 64")
    case True
    then have lt: "?n \<le> c" using c by simp
    have "{64 * j + c + 1 - ?n..<64 * j + c + 1} \<subseteq> bits_of m"
    proof
      fix x assume x: "x \<in> {64 * j + c + 1 - ?n..<64 * j + c + 1}"
      with lt c ones [of "x - 64 * j"] assms(1) member_word [of "x - 64 * j" j m]
      show "x \<in> bits_of m" by auto
    qed
    moreover have "64 * j + c + 1 - ?n - 1 \<notin> bits_of m"
    proof -
      have "\<not> bit (m ! j) (c - ?n)"
        using co(3) pb [of "c - ?n"] c lt n0 True by simp
      with member_word [of "c - ?n" j m] c assms(1) lt show ?thesis by simp
    qed
    ultimately show ?thesis
      using True n0 last1 by (auto simp: run_down_from_word_def Let_def)
  next
    case False
    with nc c have n: "?n = c + 1" by simp
    have low: "bit (m ! j) t" if "t \<le> c" for t using ones [of t] that n by simp
    show ?thesis
    proof (cases "prev_word (NOT 0) m j")
      case None
      then have "\<forall>k<j. m ! k = NOT 0" by (simp only: prev_word_None)
      then have "{0..<64 * j + (c + 1)} \<subseteq> bits_of m"
        using low c(1) assms(1) by (intro run_from_start) auto
      with None False last1 show ?thesis by (simp add: run_down_from_word_def Let_def)
    next
      case (Some r)
      obtain k v where r: "r = (k, v)" by (cases r)
      note pv = prev_word_Some [OF Some [unfolded r]]
      then have v: "v \<noteq> NOT 0" "k < j" "m ! k = v" by auto
      note cv = countl_one_props [of v] countl_one_lt [OF v(1)]
      have "{64 * k + (64 - countl_one v)..<64 * j + (c + 1)} \<subseteq> bits_of m"
        using low c v(2,3) pv cv assms(1) by (intro run_from_word_start) auto
      moreover have "64 * k + (64 - countl_one v) - 1 \<notin> bits_of m"
      proof -
        have "\<not> bit (m ! k) (63 - countl_one v)" using cv(3,4) v by simp
        moreover have "64 * k + (64 - countl_one v) - 1 = 64 * k + (63 - countl_one v)"
          using cv(4) by simp
        ultimately show ?thesis
          using member_word [of "63 - countl_one v" k m] v(2) assms(1) by simp
      qed
      moreover have "64 * k + (64 - countl_one v) \<le> 64 * j + c" using v(2) by simp
      moreover have "(k + 1) * 64 - countl_one v = 64 * k + (64 - countl_one v)" using cv(1) by simp
      ultimately show ?thesis
        using False Some r last1 by (simp add: run_down_from_word_def Let_def add.assoc)
    qed
  qed
qed

lemma LastRangeFrom_last_run:
  assumes "e \<le> bit_size m"
  shows "last_run (bits_of m) e (LastRangeFrom m e)"
proof (cases "e = 0")
  case True
  then show ?thesis by (simp add: last_run_def LastRangeFrom_def)
next
  case False
  then have e: "0 < e" by simp
  show ?thesis
  proof (cases "last_word_from m e")
    case None
    with last_word_None [OF e assms None] assms False show ?thesis
      by (simp add: last_run_def LastRangeFrom_def)
  next
    case (Some r)
    obtain j w where r: "r = (j, w)" by (cases r)
    note found = last_word_Some [OF e assms Some [unfolded r]]
    from run_down_spec [OF found(1,4) refl found(2,6)] obtain b where b:
      "run_down_from_word m j w = (b, 64 * j + (63 - countl_zero w) + 1)"
      "b \<le> 64 * j + (63 - countl_zero w)"
      "{b..<64 * j + (63 - countl_zero w) + 1} \<subseteq> bits_of m" "b = 0 \<or> b - 1 \<notin> bits_of m" by blast
    have "\<not> (\<forall>i\<in>bits_of m. e \<le> i)" using found(2,3) by (meson not_le)
    moreover have "\<forall>i\<in>bits_of m. i < 64 * j + (63 - countl_zero w) + 1 \<or> e \<le> i"
      using found(5) by (auto simp: less_Suc_eq_le)
    ultimately show ?thesis
      using b found(3) False assms Some r by (simp add: last_run_def LastRangeFrom_def)
  qed
qed

section \<open>Iteration\<close>

text \<open>What a range-based \<open>for\<close> over the array visits: from each range the iterator restarts at its end.\<close>

lemma FirstRangeFrom_progress:
  "FirstRangeFrom m start \<noteq> (bit_size m, bit_size m) \<Longrightarrow>
     start \<le> fst (FirstRangeFrom m start) \<and> fst (FirstRangeFrom m start) < snd (FirstRangeFrom m start) \<and>
     snd (FirstRangeFrom m start) \<le> bit_size m"
  using FirstRangeFrom_first_run [of m start] by (auto simp: first_run_def split: if_splits)

function ranges_from :: "bit_array \<Rightarrow> nat \<Rightarrow> (nat \<times> nat) list" where
  "ranges_from m start =
     (if FirstRangeFrom m start = (bit_size m, bit_size m) then []
      else FirstRangeFrom m start # ranges_from m (snd (FirstRangeFrom m start)))"
  by auto
termination
  by (relation "measure (\<lambda>(m, start). bit_size m - start)")
     (use FirstRangeFrom_progress in \<open>fastforce+\<close>)

declare ranges_from.simps [simp del]

definition ranges :: "bit_array \<Rightarrow> (nat \<times> nat) list" where
  "ranges m = ranges_from m 0"

lemma ranges_from_spec:
  "covered (ranges_from m start) = {i \<in> bits_of m. start \<le> i} \<and>
   separated (if start \<in> bits_of m then start else start + 1) (ranges_from m start)"
proof (induction m start rule: ranges_from.induct)
  case (1 m start)
  note run = FirstRangeFrom_first_run [of m start, unfolded first_run_def]
  show ?case
  proof (cases "\<forall>i\<in>bits_of m. i < start")
    case True
    with run have "ranges_from m start = []" by (simp add: ranges_from.simps)
    with True show ?thesis by auto
  next
    case False
    obtain a b where ab: "FirstRangeFrom m start = (a, b)" by (metis surj_pair)
    with run False have r: "start \<le> a" "a < b" "b \<le> bit_size m" "{a..<b} \<subseteq> bits_of m" "b \<notin> bits_of m"
      "\<forall>i\<in>bits_of m. i < start \<or> a \<le> i" by auto
    then have ne: "FirstRangeFrom m start \<noteq> (bit_size m, bit_size m)" by (auto simp: ab)
    from "1.IH" [OF ne] r(5) have IH: "covered (ranges_from m b) = {i \<in> bits_of m. b \<le> i}"
      "separated (b + 1) (ranges_from m b)" by (simp_all add: ab)
    have eq: "ranges_from m start = (a, b) # ranges_from m b"
      using ne by (subst ranges_from.simps) (simp add: ab)
    have "a \<in> bits_of m" using r(2,4) by auto
    with r(1) have "(if start \<in> bits_of m then start else start + 1) \<le> a"
      by (auto simp: Suc_le_eq le_less)
    with IH r eq show ?thesis by force
  qed
qed

section \<open>The interface the trackers use\<close>

text \<open>
  What the region manager and the page manager rely on: arrays of a fixed size as sets of indexes,
  with fill, range updates, a range copy, symmetric difference, complement, the emptiness test and
  the list of runs. \<open>changed_runs\<close> is how a change between two arrays is reported.
\<close>

locale index_set =
  fixes valid :: "'s \<Rightarrow> bool"
    and size1 :: nat
    and members :: "'s \<Rightarrow> nat set"
    and set_range :: "'s \<Rightarrow> nat \<Rightarrow> nat \<Rightarrow> 's"
    and unset_range :: "'s \<Rightarrow> nat \<Rightarrow> nat \<Rightarrow> 's"
    and sub_range :: "'s \<Rightarrow> nat \<Rightarrow> nat \<Rightarrow> 's"
    and xor1 :: "'s \<Rightarrow> 's \<Rightarrow> 's"
    and not1 :: "'s \<Rightarrow> 's"
    and none1 :: "'s \<Rightarrow> bool"
    and runs :: "'s \<Rightarrow> (nat \<times> nat) list"
  assumes members_bound: "valid s \<Longrightarrow> members s \<subseteq> {..<size1}"
    and valid_ops: "valid s \<Longrightarrow> valid t \<Longrightarrow> valid (set_range s a b) \<and> valid (unset_range s a b) \<and>
          valid (sub_range s a b) \<and> valid (xor1 s t) \<and> valid (not1 s)"
    and members_set: "valid s \<Longrightarrow> b \<le> size1 \<Longrightarrow> members (set_range s a b) = members s \<union> {a..<b}"
    and members_unset: "valid s \<Longrightarrow> b \<le> size1 \<Longrightarrow> members (unset_range s a b) = members s - {a..<b}"
    and members_sub: "valid s \<Longrightarrow> b \<le> size1 \<Longrightarrow> members (sub_range s a b) = members s \<inter> {a..<b}"
    and members_xor: "valid s \<Longrightarrow> valid t \<Longrightarrow>
          members (xor1 s t) = (members s - members t) \<union> (members t - members s)"
    and members_not: "valid s \<Longrightarrow> members (not1 s) = {..<size1} - members s"
    and none_iff: "valid s \<Longrightarrow> none1 s \<longleftrightarrow> members s = {}"
    and covered_runs: "valid s \<Longrightarrow> covered (runs s) = members s"
begin

lemma sub_any: "valid s \<Longrightarrow> b \<le> size1 \<Longrightarrow> \<not> none1 (sub_range s a b) \<longleftrightarrow> members s \<inter> {a..<b} \<noteq> {}"
  using valid_ops [of s s] by (simp add: none_iff members_sub)

lemma none_xor: "valid s \<Longrightarrow> valid t \<Longrightarrow> none1 (xor1 s t) \<longleftrightarrow> members s = members t"
  using valid_ops [of s t] by (auto simp: none_iff members_xor)

lemma xor_not: "valid s \<Longrightarrow> valid t \<Longrightarrow>
    members (xor1 (not1 s) t) = {i. i < size1 \<and> (i \<in> members t \<longleftrightarrow> i \<in> members s)}"
  using valid_ops [of s t] members_bound [of s] members_bound [of t]
  by (auto simp: members_xor members_not)

lemma changed_runs: "valid s \<Longrightarrow> valid t \<Longrightarrow>
    covered (runs (xor1 s t)) = (members s - members t) \<union> (members t - members s)"
  using valid_ops [of s t] by (simp add: covered_runs members_xor)

lemma sub_runs: "valid s \<Longrightarrow> b \<le> size1 \<Longrightarrow> covered (runs (sub_range s a b)) = members s \<inter> {a..<b}"
  using valid_ops [of s s] by (simp add: covered_runs members_sub)

end

definition words_valid :: "nat \<Rightarrow> bit_array \<Rightarrow> bool" where
  "words_valid n m \<longleftrightarrow> length m = n"

lemma covered_ranges: "covered (ranges m) = bits_of m"
  using ranges_from_spec [of m 0] by (simp add: ranges_def)

lemma length_xor_bits [simp]: "length t = length s \<Longrightarrow> length (xor_bits s t) = length s"
  by (simp add: xor_bits_def)

lemma length_not_bits [simp]: "length (not_bits s) = length s"
  by (simp add: not_bits_def)

interpretation bit_words: index_set "words_valid n" "64 * n" bits_of SetRange UnsetRange SubRange
    xor_bits not_bits None_set ranges for n
  by unfold_locales
     (auto simp: words_valid_def bits_of_SetRange bits_of_UnsetRange bits_of_SubRange bits_of_xor
       bits_of_not None_set_iff covered_ranges bit_size_def
       dest: bits_of_lt)

section \<open>Properties\<close>

text \<open>
  C19: the word-level updates are the set operations. On an array of any length, setting, unsetting and
  copying a range of bits within it are union, difference and intersection with the range, whichever
  words the range starts and ends in; a range that leaves the array changes nothing.
\<close>

theorem bit_ranges_refine_sets:
  "bits_of (SetRange m s e) = (if e \<le> bit_size m then bits_of m \<union> {s..<e} else bits_of m) \<and>
   bits_of (UnsetRange m s e) = (if e \<le> bit_size m then bits_of m - {s..<e} else bits_of m) \<and>
   bits_of (SubRange m s e) = (if e \<le> bit_size m then bits_of m \<inter> {s..<e} else {})"
  by (auto simp: bits_of_SetRange bits_of_UnsetRange bits_of_SubRange)
     (auto simp: SetRange_def UnsetRange_def SubRange_def Let_def)

text \<open>
  C20: the searches find maximal runs. \<open>FirstRangeFrom\<close> gives the first maximal run of set bits at or
  after a start, \<open>LastRange\<close> the last one, across any number of words, and iterating the array visits
  every maximal run once, in order.
\<close>

theorem bit_searches_find_runs:
  "first_run (bits_of m) (bit_size m) start (FirstRangeFrom m start) \<and>
   last_run (bits_of m) (bit_size m) (LastRange m) \<and>
   covered (ranges m) = bits_of m \<and> separated 0 (ranges m)"
proof (intro conjI)
  show "last_run (bits_of m) (bit_size m) (LastRange m)"
    unfolding LastRange_def by (rule LastRangeFrom_last_run) simp
  have "separated (if 0 \<in> bits_of m then 0 else 0 + 1) rs \<Longrightarrow> separated 0 rs" for rs
    by (cases rs) auto
  then show "separated 0 (ranges m)"
    using ranges_from_spec [of m 0] by (simp add: ranges_def)
qed (rule FirstRangeFrom_first_run covered_ranges)+

end
