(* ===== verification/PageManager.thy ===== *)
theory PageManager
  imports BitArray
begin

text \<open>
  The page manager of src/src/graphics/host_gpu/pageManager.cpp with the constants of
  regionDefinitions.h: per guest page, the counts of write and access watchers, and the protection of
  the host page that follows from them. Protections are applied in batches of consecutive pages. The
  state has the host protection of every page, so that the agreement of the batches with the counts
  can be stated. A range is given by 64-bit numbers that \<open>ValidateRange\<close> bounds by \<open>2^40\<close>, so that
  no address computation wraps; they are \<open>nat\<close> here.
\<close>

section \<open>Constants and ranges\<close>

definition PAGE_SIZE :: nat where "PAGE_SIZE = 4096"
definition REGION_SIZE :: nat where "REGION_SIZE = 4194304"
definition ADDRESS_SIZE :: nat where "ADDRESS_SIZE = 1099511627776"
definition REGION_PAGES :: nat where "REGION_PAGES = 1024"

lemmas tracker_sizes = PAGE_SIZE_def REGION_SIZE_def ADDRESS_SIZE_def REGION_PAGES_def

lemma tracker_sizes_pos [simp]: "0 < PAGE_SIZE" "0 < REGION_PAGES" "0 < REGION_SIZE"
  by (simp_all add: tracker_sizes)

record guest_range =
  gr_address :: nat
  gr_size :: nat

definition range_Empty :: "guest_range \<Rightarrow> bool" where
  "range_Empty r \<longleftrightarrow> gr_address r = 0 \<and> gr_size r = 0"

definition range_Valid :: "guest_range \<Rightarrow> bool" where
  "range_Valid r \<longleftrightarrow> gr_address r \<noteq> 0 \<and> gr_size r \<noteq> 0 \<and> gr_address r < ADDRESS_SIZE \<and>
     gr_size r \<le> ADDRESS_SIZE - gr_address r"

definition range_ValidOrEmpty :: "guest_range \<Rightarrow> bool" where
  "range_ValidOrEmpty r \<longleftrightarrow> range_Empty r \<or> range_Valid r"

definition range_End :: "guest_range \<Rightarrow> nat" where
  "range_End r = gr_address r + gr_size r"

definition PageStart :: "nat \<Rightarrow> nat" where
  "PageStart vaddr = vaddr div PAGE_SIZE * PAGE_SIZE"

definition PageEnd :: "nat \<Rightarrow> nat \<Rightarrow> nat outcome" where
  "PageEnd vaddr bytes =
     exit_if (\<not> range_Valid \<lparr>gr_address = vaddr, gr_size = bytes\<rparr>)
       (Inr (PageStart (vaddr + bytes - 1) + PAGE_SIZE))"

section \<open>Pages\<close>

datatype protection = NO_ACCESS | READ_ONLY | READ_WRITE

record page_state =
  write_watchers :: nat
  access_watchers :: nat

definition new_page :: page_state where
  "new_page = \<lparr>write_watchers = 0, access_watchers = 0\<rparr>"

definition Perms :: "page_state \<Rightarrow> protection" where
  "Perms p =
     (if access_watchers p \<noteq> 0 then NO_ACCESS
      else if write_watchers p \<noteq> 0 then READ_ONLY else READ_WRITE)"

definition AddDelta :: "int \<Rightarrow> bool \<Rightarrow> page_state \<Rightarrow> (page_state \<times> nat) outcome" where
  "AddDelta delta is_read p =
     (if is_read
      then if delta = 1
           then exit_if (access_watchers p \<noteq> 0)
                  (let n = access_watchers p + 1 in Inr (p\<lparr>access_watchers := n\<rparr>, n))
           else if delta = -1
           then exit_if (access_watchers p = 0)
                  (let n = access_watchers p - 1 in Inr (p\<lparr>access_watchers := n\<rparr>, n))
           else Inr (p, access_watchers p)
      else if delta = 1
           then exit_if (write_watchers p = 0x7f)
                  (let n = write_watchers p + 1 in Inr (p\<lparr>write_watchers := n\<rparr>, n))
           else if delta = -1
           then exit_if (write_watchers p = 0)
                  (let n = write_watchers p - 1 in Inr (p\<lparr>write_watchers := n\<rparr>, n))
           else Inr (p, write_watchers p))"

section \<open>State\<close>

text \<open>
  \<open>pm_regions\<close> by region index; \<open>pm_host\<close> and \<open>pm_mapped\<close> by page number: the protection of the host
  page and whether the guest address space maps it, without which \<open>ProtectGuestHostMemory\<close> fails.
\<close>

record page_manager =
  pm_regions :: "nat \<Rightarrow> page_state list option"
  pm_host :: "nat \<Rightarrow> protection"
  pm_mapped :: "nat \<Rightarrow> bool"

definition new_page_manager :: "(nat \<Rightarrow> bool) \<Rightarrow> page_manager" where
  "new_page_manager mapped =
     \<lparr>pm_regions = (\<lambda>_. None), pm_host = (\<lambda>_. READ_WRITE), pm_mapped = mapped\<rparr>"

definition FindRegion :: "page_manager \<Rightarrow> nat \<Rightarrow> page_state list option" where
  "FindRegion pm vaddr = (if vaddr < ADDRESS_SIZE then pm_regions pm (vaddr div REGION_SIZE) else None)"

definition GetOrCreateRegion :: "page_manager \<Rightarrow> nat \<Rightarrow> page_state list" where
  "GetOrCreateRegion pm vaddr =
     (case pm_regions pm (vaddr div REGION_SIZE) of
        Some pages \<Rightarrow> pages
      | None \<Rightarrow> replicate REGION_PAGES new_page)"

definition Protect ::
    "(nat \<Rightarrow> bool) \<Rightarrow> (nat \<Rightarrow> protection) \<Rightarrow> nat \<Rightarrow> nat \<Rightarrow> protection \<Rightarrow> (nat \<Rightarrow> protection) outcome" where
  "Protect mapped host vaddr bytes perms =
     (let first = vaddr div PAGE_SIZE; last1 = (vaddr + bytes) div PAGE_SIZE
      in exit_if (\<not> list_all mapped [first..<last1])
           (Inr (\<lambda>page. if first \<le> page \<and> page < last1 then perms else host page)))"

section \<open>The batched update\<close>

record batch =
  b_pages :: "page_state list"
  b_host :: "nat \<Rightarrow> protection"
  b_perms :: protection
  b_range_begin :: nat
  b_range_bytes :: nat
  b_potential :: nat

definition release_pending :: "(nat \<Rightarrow> bool) \<Rightarrow> nat \<Rightarrow> batch \<Rightarrow> batch outcome" where
  "release_pending mapped base_addr u =
     (if b_range_bytes u \<noteq> 0
      then bind_outcome
             (Protect mapped (b_host u) (base_addr + b_range_begin u * PAGE_SIZE) (b_range_bytes u)
                (b_perms u))
             (\<lambda>host. Inr (u\<lparr>b_host := host, b_range_bytes := 0, b_potential := 0\<rparr>))
      else Inr u)"

text \<open>
  One turn of the loop of \<open>UpdateRegionWatchers<track, is_read, masked>\<close>; the msk is \<open>None\<close> when the
  instance is not masked.
\<close>

definition batch_page ::
    "bool \<Rightarrow> bool \<Rightarrow> bit_array option \<Rightarrow> (nat \<Rightarrow> bool) \<Rightarrow> nat \<Rightarrow> nat \<Rightarrow> batch \<Rightarrow> batch outcome" where
  "batch_page track is_read msk mapped base_addr page_index u =
     (let page = b_pages u ! page_index;
          update = (case msk of None \<Rightarrow> True | Some m \<Rightarrow> Get m page_index);
          old_perms = Perms page
      in bind_outcome (AddDelta (if update then (if track then 1 else -1) else 0) is_read page)
           (\<lambda>(page', new_count).
             let new_perms = Perms page';
                 u = u\<lparr>b_pages := (b_pages u)[page_index := page']\<rparr>
             in bind_outcome
                  (if new_perms \<noteq> b_perms u
                   then bind_outcome (release_pending mapped base_addr u)
                          (\<lambda>u. Inr (u\<lparr>b_perms := new_perms\<rparr>))
                   else if b_range_bytes u \<noteq> 0
                   then Inr (u\<lparr>b_potential := b_potential u + PAGE_SIZE\<rparr>)
                   else Inr u)
                  (\<lambda>u. if \<not> update then Inr u
                    else let watcher_edge = (track \<and> new_count = 1) \<or> (\<not> track \<and> new_count = 0)
                         in if watcher_edge \<and> old_perms \<noteq> new_perms
                            then let u = (if b_range_bytes u = 0
                                          then u\<lparr>b_range_begin := page_index, b_potential := PAGE_SIZE\<rparr>
                                          else u)
                                 in Inr (u\<lparr>b_range_bytes := b_potential u\<rparr>)
                            else Inr u)))"

fun batch_loop ::
    "bool \<Rightarrow> bool \<Rightarrow> bit_array option \<Rightarrow> (nat \<Rightarrow> bool) \<Rightarrow> nat \<Rightarrow> nat \<Rightarrow> nat \<Rightarrow> batch \<Rightarrow> batch outcome" where
  "batch_loop track is_read msk mapped base_addr page_index 0 u = Inr u"
| "batch_loop track is_read msk mapped base_addr page_index (Suc n) u =
     bind_outcome (batch_page track is_read msk mapped base_addr page_index u)
       (batch_loop track is_read msk mapped base_addr (page_index + 1) n)"

definition UpdateRegionWatchers ::
    "bool \<Rightarrow> bool \<Rightarrow> bit_array option \<Rightarrow> page_manager \<Rightarrow> page_state list \<Rightarrow> nat \<Rightarrow> nat \<Rightarrow> nat \<Rightarrow>
       page_manager outcome" where
  "UpdateRegionWatchers track is_read msk pm pages base_addr first last1 =
     bind_outcome
       (batch_loop track is_read msk (pm_mapped pm) base_addr first (last1 - first)
          \<lparr>b_pages = pages, b_host = pm_host pm, b_perms = Perms (pages ! first),
           b_range_begin = 0, b_range_bytes = 0, b_potential = 0\<rparr>)
       (\<lambda>u. bind_outcome (release_pending (pm_mapped pm) base_addr u)
         (\<lambda>u. Inr (pm\<lparr>pm_regions := (pm_regions pm)(base_addr div REGION_SIZE \<mapsto> b_pages u),
                     pm_host := b_host u\<rparr>)))"

lemma chunk_progress: "chunk_begin < (chunk_begin div REGION_SIZE + 1) * REGION_SIZE"
  by (simp add: REGION_SIZE_def)

function update_chunks :: "bool \<Rightarrow> bool \<Rightarrow> page_manager \<Rightarrow> nat \<Rightarrow> nat \<Rightarrow> page_manager outcome" where
  "update_chunks track is_read pm chunk_begin end1 =
     (if chunk_begin < end1
      then let chunk_end = min end1 ((chunk_begin div REGION_SIZE + 1) * REGION_SIZE);
               region_base = chunk_begin div REGION_SIZE * REGION_SIZE
           in case (if track then Some (GetOrCreateRegion pm chunk_begin) else FindRegion pm chunk_begin) of
                None \<Rightarrow> Inl EXIT
              | Some pages \<Rightarrow>
                  (case UpdateRegionWatchers track is_read None pm pages region_base
                          ((chunk_begin - region_base) div PAGE_SIZE)
                          ((chunk_end - region_base) div PAGE_SIZE) of
                     Inl e \<Rightarrow> Inl e
                   | Inr pm' \<Rightarrow> update_chunks track is_read pm' chunk_end end1)
      else Inr pm)"
  by auto
termination
  by (relation "measure (\<lambda>(_, _, _, chunk_begin, end1). end1 - chunk_begin)")
     (use chunk_progress in \<open>auto intro: diff_less_mono2\<close>)

declare update_chunks.simps [simp del]

definition UpdatePageWatchers_impl :: "bool \<Rightarrow> bool \<Rightarrow> page_manager \<Rightarrow> nat \<Rightarrow> nat \<Rightarrow> page_manager outcome" where
  "UpdatePageWatchers_impl track is_read pm vaddr bytes =
     bind_outcome (PageEnd vaddr bytes) (\<lambda>end1. update_chunks track is_read pm (PageStart vaddr) end1)"

definition UpdatePageWatchers :: "bool \<Rightarrow> page_manager \<Rightarrow> nat \<Rightarrow> nat \<Rightarrow> page_manager outcome" where
  "UpdatePageWatchers track pm vaddr bytes = UpdatePageWatchers_impl track False pm vaddr bytes"

definition UpdatePageWatchersForRegion ::
    "bool \<Rightarrow> bool \<Rightarrow> page_manager \<Rightarrow> nat \<Rightarrow> bit_array \<Rightarrow> page_manager outcome" where
  "UpdatePageWatchersForRegion track is_read pm base_addr msk =
     exit_if (base_addr mod REGION_SIZE \<noteq> 0 \<or> base_addr \<ge> ADDRESS_SIZE \<or>
              REGION_SIZE > ADDRESS_SIZE - base_addr)
       (let start_range = FirstRange msk; end_range = LastRange msk;
            first = fst start_range; last1 = snd end_range
        in exit_if (first = REGION_PAGES)
             (if snd start_range = snd end_range
              then UpdatePageWatchers_impl track is_read pm (base_addr + first * PAGE_SIZE)
                     ((last1 - first) * PAGE_SIZE)
              else case (if track then Some (GetOrCreateRegion pm base_addr) else FindRegion pm base_addr) of
                     None \<Rightarrow> Inl EXIT
                   | Some pages \<Rightarrow>
                       UpdateRegionWatchers track is_read (Some msk) pm pages base_addr first last1))"

section \<open>One region\<close>

text \<open>
  What a watcher update does to one page, and when it does not abort. Then the invariant of the batch:
  outside the pending pages the host protection is that of the counts, and every page from the begin of
  the pending range up to the current one has the pending protection.
\<close>

definition delta_ok :: "bool \<Rightarrow> bool \<Rightarrow> page_state \<Rightarrow> bool" where
  "delta_ok track is_read p \<longleftrightarrow>
     (if is_read then (access_watchers p = 0 \<longleftrightarrow> track)
      else if track then write_watchers p \<noteq> 0x7f else write_watchers p \<noteq> 0)"

definition apply_delta :: "bool \<Rightarrow> bool \<Rightarrow> page_state \<Rightarrow> page_state" where
  "apply_delta track is_read p =
     (if is_read then p\<lparr>access_watchers := (if track then access_watchers p + 1 else access_watchers p - 1)\<rparr>
      else p\<lparr>write_watchers := (if track then write_watchers p + 1 else write_watchers p - 1)\<rparr>)"

definition edge :: "bool \<Rightarrow> nat \<Rightarrow> bool" where
  "edge track n \<longleftrightarrow> (track \<and> n = 1) \<or> (\<not> track \<and> n = 0)"

lemma AddDelta_update:
  assumes "delta_ok track is_read p"
  shows "\<exists>n. AddDelta (if track then 1 else -1) is_read p = Inr (apply_delta track is_read p, n) \<and>
             (Perms (apply_delta track is_read p) \<noteq> Perms p \<longrightarrow> edge track n)"
  using assms
  by (cases track; cases is_read)
     (auto simp: AddDelta_def delta_ok_def apply_delta_def edge_def Perms_def Let_def)

lemma AddDelta_none: "\<exists>n. AddDelta 0 is_read p = Inr (p, n)"
  by (simp add: AddDelta_def)

definition batch_inv :: "nat \<Rightarrow> nat \<Rightarrow> nat \<Rightarrow> batch \<Rightarrow> nat \<Rightarrow> nat \<Rightarrow> bool" where
  "batch_inv b first i u k l \<longleftrightarrow>
     b_range_bytes u = k * PAGE_SIZE \<and>
     (k \<noteq> 0 \<longrightarrow> b_potential u = l * PAGE_SIZE \<and> k \<le> l \<and> first \<le> b_range_begin u \<and>
        b_range_begin u + l = i \<and>
        (\<forall>j. b_range_begin u \<le> j \<and> j < i \<longrightarrow> Perms (b_pages u ! j) = b_perms u)) \<and>
     (\<forall>j<length (b_pages u). \<not> (b_range_begin u \<le> j \<and> j < b_range_begin u + k) \<longrightarrow>
        b_host u (b + j) = Perms (b_pages u ! j))"

lemma release_pending_ok:
  assumes "batch_inv b first i u k l" and "\<And>j. first \<le> j \<Longrightarrow> j < i \<Longrightarrow> mapped (b + j)"
    and "i \<le> length (b_pages u)"
  shows "\<exists>h. release_pending mapped (b * PAGE_SIZE) u =
             Inr (u\<lparr>b_host := h, b_range_bytes := 0, b_potential := (if k = 0 then b_potential u else 0)\<rparr>) \<and>
           (\<forall>j<length (b_pages u). h (b + j) = Perms (b_pages u ! j)) \<and>
           (\<forall>page. page < b \<or> b + length (b_pages u) \<le> page \<longrightarrow> h page = b_host u page)"
proof (cases "k = 0")
  case True
  with assms(1) have "release_pending mapped (b * PAGE_SIZE) u =
      Inr (u\<lparr>b_host := b_host u, b_range_bytes := 0, b_potential := b_potential u\<rparr>)"
    by (simp add: release_pending_def batch_inv_def)
  with True assms(1) show ?thesis by (intro exI [of _ "b_host u"]) (simp add: batch_inv_def)
next
  case False
  let ?r = "b_range_begin u"
  let ?h = "\<lambda>page. if b + ?r \<le> page \<and> page < b + ?r + k then b_perms u else b_host u page"
  from False assms(1) have r: "first \<le> ?r" "?r + k \<le> i" "b_range_bytes u = k * PAGE_SIZE"
    "\<And>j. ?r \<le> j \<Longrightarrow> j < ?r + k \<Longrightarrow> Perms (b_pages u ! j) = b_perms u"
    by (auto simp: batch_inv_def)
  have div1: "(b * PAGE_SIZE + ?r * PAGE_SIZE) div PAGE_SIZE = b + ?r"
    "(b * PAGE_SIZE + ?r * PAGE_SIZE + k * PAGE_SIZE) div PAGE_SIZE = b + ?r + k"
    unfolding add_mult_distrib [symmetric] by (simp_all add: PAGE_SIZE_def)
  have "mapped page" if "b + ?r \<le> page" "page < b + ?r + k" for page
    using assms(2) [of "page - b"] that r(1,2) by simp
  then have "list_all mapped [b + ?r..<b + ?r + k]"
    by (auto simp: list_all_iff)
  with False r(3) div1 have "release_pending mapped (b * PAGE_SIZE) u =
      Inr (u\<lparr>b_host := ?h, b_range_bytes := 0, b_potential := 0\<rparr>)"
    by (simp add: release_pending_def Protect_def Let_def PAGE_SIZE_def)
  moreover have "\<forall>j<length (b_pages u). ?h (b + j) = Perms (b_pages u ! j)"
    using assms(1) r(4) by (auto simp: batch_inv_def)
  moreover have "\<forall>page. page < b \<or> b + length (b_pages u) \<le> page \<longrightarrow> ?h page = b_host u page"
    using r(2) assms(3) by auto
  ultimately show ?thesis using False by (intro exI [of _ ?h]) simp
qed

definition page_update :: "bool \<Rightarrow> bool \<Rightarrow> bit_array option \<Rightarrow> nat \<Rightarrow> page_state \<Rightarrow> page_state" where
  "page_update track is_read msk j p =
     (if (case msk of None \<Rightarrow> True | Some m \<Rightarrow> Get m j) then apply_delta track is_read p else p)"

definition page_update_ok :: "bool \<Rightarrow> bool \<Rightarrow> bit_array option \<Rightarrow> nat \<Rightarrow> page_state \<Rightarrow> bool" where
  "page_update_ok track is_read msk j p \<longleftrightarrow>
     ((case msk of None \<Rightarrow> True | Some m \<Rightarrow> Get m j) \<longrightarrow> delta_ok track is_read p)"

text \<open>The end of a turn, for a page that did or did not change its protection.\<close>

definition mark_page :: "nat \<Rightarrow> bool \<Rightarrow> batch \<Rightarrow> batch" where
  "mark_page i changed u =
     (if changed
      then let u3 = (if b_range_bytes u = 0
                     then u\<lparr>b_range_begin := i, b_potential := PAGE_SIZE\<rparr> else u)
           in u3\<lparr>b_range_bytes := b_potential u3\<rparr>
      else u)"

lemma batch_page_eq:
  assumes "page_update_ok track is_read msk i (b_pages u ! i)"
  shows "\<exists>n. let p = b_pages u ! i; p' = page_update track is_read msk i p;
             u1 = u\<lparr>b_pages := (b_pages u)[i := p']\<rparr>
         in batch_page track is_read msk mapped base i u =
            bind_outcome
              (if Perms p' \<noteq> b_perms u1
               then bind_outcome (release_pending mapped base u1) (\<lambda>u. Inr (u\<lparr>b_perms := Perms p'\<rparr>))
               else if b_range_bytes u1 \<noteq> 0
               then Inr (u1\<lparr>b_potential := b_potential u1 + PAGE_SIZE\<rparr>)
               else Inr u1)
              (\<lambda>u2. Inr (mark_page i (Perms p \<noteq> Perms p') u2))"
proof (cases "case msk of None \<Rightarrow> True | Some m \<Rightarrow> Get m i")
  case True
  with assms obtain n where n:
    "AddDelta (if track then 1 else -1) is_read (b_pages u ! i) =
       Inr (apply_delta track is_read (b_pages u ! i), n)"
    "Perms (apply_delta track is_read (b_pages u ! i)) \<noteq> Perms (b_pages u ! i) \<longrightarrow> edge track n"
    using AddDelta_update by (fastforce simp: page_update_ok_def)
  have "((track \<and> n = 1) \<or> (\<not> track \<and> n = 0)) \<and> Perms (b_pages u ! i) \<noteq> Perms (apply_delta track is_read (b_pages u ! i)) \<longleftrightarrow>
      Perms (b_pages u ! i) \<noteq> Perms (apply_delta track is_read (b_pages u ! i))"
    using n(2) by (auto simp: edge_def)
  with True n(1) show ?thesis
    by (simp only: batch_page_def Let_def page_update_def if_True bind_outcome.simps prod.case
        simp_thms mark_page_def) (simp add: if_distrib [of Inr])
next
  case False
  obtain n where "AddDelta 0 is_read (b_pages u ! i) = Inr (b_pages u ! i, n)"
    using AddDelta_none by blast
  with False show ?thesis
    by (simp only: batch_page_def Let_def page_update_def if_False bind_outcome.simps prod.case
        simp_thms mark_page_def) simp
qed

lemma release_pending_pages:
  "release_pending mapped base u = Inr v \<Longrightarrow>
     release_pending mapped base (u\<lparr>b_pages := ps\<rparr>) = Inr (v\<lparr>b_pages := ps\<rparr>)"
  by (auto simp: release_pending_def bind_outcome_Inr split: if_splits)

text \<open>
  A page that joins a batch: with the host as it was (\<open>old\<close>) and the new protection the batch's, the
  batch after the page satisfies the invariant whether or not the page changed.
\<close>

lemma batch_close:
  assumes "b_range_bytes u = k * PAGE_SIZE" "b_perms u = Perms (b_pages u ! i)" "i < length (b_pages u)"
    and "first \<le> i"
    and "k \<noteq> 0 \<Longrightarrow> b_potential u = l * PAGE_SIZE \<and> k < l \<and> first \<le> b_range_begin u \<and>
           b_range_begin u + l = i + 1 \<and>
           (\<forall>j. b_range_begin u \<le> j \<and> j < i \<longrightarrow> Perms (b_pages u ! j) = b_perms u)"
    and "\<And>j. j < length (b_pages u) \<Longrightarrow> j \<noteq> i \<Longrightarrow>
           \<not> (b_range_begin u \<le> j \<and> j < b_range_begin u + k) \<Longrightarrow>
           b_host u (b + j) = Perms (b_pages u ! j)"
    and "b_host u (b + i) = old"
  defines "u' \<equiv> mark_page i (old \<noteq> Perms (b_pages u ! i)) u"
  shows "\<exists>k' l'. batch_inv b first (i + 1) u' k' l'" "b_pages u' = b_pages u" "b_host u' = b_host u"
proof -
  show "b_pages u' = b_pages u" "b_host u' = b_host u" by (simp_all add: u'_def mark_page_def Let_def)
  show "\<exists>k' l'. batch_inv b first (i + 1) u' k' l'"
  proof (cases "old \<noteq> Perms (b_pages u ! i)")
    case changed: True
    show ?thesis
    proof (cases "k = 0")
      case True
      then have u': "u' = u\<lparr>b_range_begin := i, b_potential := PAGE_SIZE, b_range_bytes := PAGE_SIZE\<rparr>"
        using changed assms(1) by (simp add: u'_def mark_page_def)
      have "batch_inv b first (i + 1) u' 1 1"
        unfolding u' batch_inv_def using assms(2,3,4,6) True by (auto simp: less_Suc_eq_le)
      then show ?thesis by blast
    next
      case False
      then have u': "u' = u\<lparr>b_range_bytes := b_potential u\<rparr>"
        using changed assms(1) by (simp add: u'_def mark_page_def PAGE_SIZE_def)
      have "batch_inv b first (i + 1) u' l l"
        unfolding u' batch_inv_def using assms(2,5,6) False by (auto simp: less_Suc_eq)
      then show ?thesis by blast
    qed
  next
    case False
    have "batch_inv b first (i + 1) u k l"
      unfolding batch_inv_def using assms(1,2,5,6,7) False by (auto simp: less_Suc_eq)
    with False show ?thesis by (auto simp: u'_def mark_page_def)
  qed
qed

definition host_frame :: "nat \<Rightarrow> nat \<Rightarrow> (nat \<Rightarrow> protection) \<Rightarrow> (nat \<Rightarrow> protection) \<Rightarrow> bool" where
  "host_frame b n h h' \<longleftrightarrow> (\<forall>page. page < b \<or> b + n \<le> page \<longrightarrow> h' page = h page)"

lemma batch_page_ok:
  assumes inv: "batch_inv b first i u k l" and i: "first \<le> i" "i < length (b_pages u)"
    and mapped: "\<And>j. first \<le> j \<Longrightarrow> j < i \<Longrightarrow> mapped (b + j)"
    and ok: "page_update_ok track is_read msk i (b_pages u ! i)"
  shows "\<exists>u' k' l'. batch_page track is_read msk mapped (b * PAGE_SIZE) i u = Inr u' \<and>
           batch_inv b first (i + 1) u' k' l' \<and>
           b_pages u' = (b_pages u)[i := page_update track is_read msk i (b_pages u ! i)] \<and>
           host_frame b (length (b_pages u)) (b_host u) (b_host u')"
proof -
  let ?p = "b_pages u ! i"
  let ?p' = "page_update track is_read msk i ?p"
  let ?ps = "(b_pages u)[i := ?p']"
  have old: "b_host u (b + i) = Perms ?p" using inv i by (cases "k = 0") (auto simp: batch_inv_def)
  have nth: "?ps ! j = (if j = i then ?p' else b_pages u ! j)" for j using i(2) by (simp add: nth_list_update)
  note eq = batch_page_eq [OF ok, unfolded Let_def, where mapped = mapped and base = "b * PAGE_SIZE"]
  consider (turn) "Perms ?p' \<noteq> b_perms u" | (grow) "Perms ?p' = b_perms u" "k \<noteq> 0"
    | (idle) "Perms ?p' = b_perms u" "k = 0" by blast
  then show ?thesis
  proof cases
    case turn
    obtain h where h: "release_pending mapped (b * PAGE_SIZE) u =
        Inr (u\<lparr>b_host := h, b_range_bytes := 0, b_potential := (if k = 0 then b_potential u else 0)\<rparr>)"
      "\<And>j. j < length (b_pages u) \<Longrightarrow> h (b + j) = Perms (b_pages u ! j)"
      "host_frame b (length (b_pages u)) (b_host u) h"
      using release_pending_ok [OF inv, where mapped = mapped] mapped i(2)
      unfolding host_frame_def by (metis less_imp_le)
    let ?v = "u\<lparr>b_host := h, b_range_bytes := 0, b_potential := (if k = 0 then b_potential u else 0),
                b_pages := ?ps, b_perms := Perms ?p'\<rparr>"
    note close = batch_close [where u = ?v and k = 0 and i = i and old = "Perms ?p" and b = b and first = first]
    from eq turn release_pending_pages [OF h(1)] show ?thesis
      using close h(2,3) i by (simp add: nth)
  next
    case grow
    let ?v = "u\<lparr>b_pages := ?ps, b_potential := b_potential u + PAGE_SIZE\<rparr>"
    note close = batch_close [where u = ?v and k = k and l = "l + 1" and i = i and old = "Perms ?p"
        and b = b and first = first]
    have "b_range_bytes u \<noteq> 0" using inv grow by (simp add: batch_inv_def PAGE_SIZE_def)
    with eq grow show ?thesis
      using close inv i old by (simp add: nth batch_inv_def host_frame_def)
  next
    case idle
    let ?v = "u\<lparr>b_pages := ?ps\<rparr>"
    note close = batch_close [where u = ?v and k = 0 and i = i and old = "Perms ?p" and b = b and first = first]
    have "b_range_bytes u = 0" using inv idle by (simp add: batch_inv_def)
    with eq idle show ?thesis
      using close inv i old by (simp add: nth batch_inv_def host_frame_def)
  qed
qed

lemma host_frame_trans:
  "host_frame b n h h' \<Longrightarrow> host_frame b n h' h'' \<Longrightarrow> host_frame b n h h''"
  by (simp add: host_frame_def)

lemma batch_loop_ok:
  assumes "batch_inv b first i u k l" and "first \<le> i" and "i + n \<le> length (b_pages u)"
    and "\<And>j. first \<le> j \<Longrightarrow> j < i + n \<Longrightarrow> mapped (b + j)"
    and "\<And>j. i \<le> j \<Longrightarrow> j < i + n \<Longrightarrow> page_update_ok track is_read msk j (b_pages u ! j)"
  shows "\<exists>u' k' l'. batch_loop track is_read msk mapped (b * PAGE_SIZE) i n u = Inr u' \<and>
           batch_inv b first (i + n) u' k' l' \<and> length (b_pages u') = length (b_pages u) \<and>
           (\<forall>j<length (b_pages u). b_pages u' ! j =
              (if i \<le> j \<and> j < i + n then page_update track is_read msk j (b_pages u ! j)
               else b_pages u ! j)) \<and>
           host_frame b (length (b_pages u)) (b_host u) (b_host u')"
  using assms
proof (induction n arbitrary: i u k l)
  case 0
  then show ?case by (auto simp: host_frame_def)
next
  case (Suc n)
  obtain u1 k1 l1 where u1: "batch_page track is_read msk mapped (b * PAGE_SIZE) i u = Inr u1"
    "batch_inv b first (i + 1) u1 k1 l1"
    "b_pages u1 = (b_pages u)[i := page_update track is_read msk i (b_pages u ! i)]"
    "host_frame b (length (b_pages u)) (b_host u) (b_host u1)"
  proof -
    have "i < length (b_pages u)" "page_update_ok track is_read msk i (b_pages u ! i)"
      using Suc.prems(3) Suc.prems(5) [of i] by simp_all
    moreover have "mapped (b + j)" if "first \<le> j" "j < i" for j using Suc.prems(4) that by simp
    ultimately show thesis
      using that batch_page_ok [OF Suc.prems(1,2), where mapped = mapped] by blast
  qed
  have nth: "b_pages u1 ! j = b_pages u ! j" if "i < j" for j using that u1(3) by simp
  obtain u' k' l' where u': "batch_loop track is_read msk mapped (b * PAGE_SIZE) (i + 1) n u1 = Inr u'"
    "batch_inv b first (i + 1 + n) u' k' l'" "length (b_pages u') = length (b_pages u1)"
    "\<forall>j<length (b_pages u1). b_pages u' ! j =
       (if i + 1 \<le> j \<and> j < i + 1 + n then page_update track is_read msk j (b_pages u1 ! j)
        else b_pages u1 ! j)"
    "host_frame b (length (b_pages u1)) (b_host u1) (b_host u')"
    using Suc.IH [OF u1(2)] Suc.prems(2-5) u1(3) nth by fastforce
  have "b_pages u' ! j = (if i \<le> j \<and> j < i + Suc n then page_update track is_read msk j (b_pages u ! j)
      else b_pages u ! j)" if "j < length (b_pages u)" for j
    using u'(4) u1(3) that nth by (cases "j = i") auto
  with u' u1 host_frame_trans show ?case by fastforce
qed

section \<open>The page manager as counts per page\<close>

definition page_of :: "page_manager \<Rightarrow> nat \<Rightarrow> page_state" where
  "page_of pm pg =
     (case pm_regions pm (pg div REGION_PAGES) of
        None \<Rightarrow> new_page
      | Some ps \<Rightarrow> ps ! (pg mod REGION_PAGES))"

text \<open>The invariant: the host protects every page the way the counts of the page say.\<close>

definition pm_ok :: "page_manager \<Rightarrow> bool" where
  "pm_ok pm \<longleftrightarrow>
     (\<forall>idx ps. pm_regions pm idx = Some ps \<longrightarrow> length ps = REGION_PAGES) \<and>
     (\<forall>pg. pm_host pm pg = Perms (page_of pm pg))"

definition pages_updated :: "bool \<Rightarrow> bool \<Rightarrow> nat set \<Rightarrow> page_manager \<Rightarrow> page_manager \<Rightarrow> bool" where
  "pages_updated track is_read S pm pm' \<longleftrightarrow>
     (\<forall>pg. page_of pm' pg =
        (if pg \<in> S then apply_delta track is_read (page_of pm pg) else page_of pm pg)) \<and>
     pm_mapped pm' = pm_mapped pm"

definition update_bit :: "bit_array option \<Rightarrow> nat \<Rightarrow> bool" where
  "update_bit msk j = (case msk of None \<Rightarrow> True | Some m \<Rightarrow> Get m j)"

definition region_pages :: "page_manager \<Rightarrow> nat \<Rightarrow> page_state list" where
  "region_pages pm idx =
     (case pm_regions pm idx of Some ps \<Rightarrow> ps | None \<Rightarrow> replicate REGION_PAGES new_page)"

lemma page_of_region: "j < REGION_PAGES \<Longrightarrow> page_of pm (idx * REGION_PAGES + j) = region_pages pm idx ! j"
  by (simp add: page_of_def region_pages_def REGION_PAGES_def split: option.split)

lemma length_region_pages: "pm_ok pm \<Longrightarrow> length (region_pages pm idx) = REGION_PAGES"
  by (auto simp: pm_ok_def region_pages_def split: option.split)

lemma region_split: obtains idx j where "pg = idx * REGION_PAGES + j" "j < REGION_PAGES"
  using that [of "pg div REGION_PAGES" "pg mod REGION_PAGES"] by (simp add: REGION_PAGES_def)

lemma region_unique:
  "j < REGION_PAGES \<Longrightarrow> j' < REGION_PAGES \<Longrightarrow>
     idx * REGION_PAGES + j = idx' * REGION_PAGES + j' \<longleftrightarrow> idx = idx' \<and> j = j'"
proof -
  assume j: "j < REGION_PAGES" "j' < REGION_PAGES"
  have "(x * REGION_PAGES + y) div REGION_PAGES = x" "(x * REGION_PAGES + y) mod REGION_PAGES = y"
    if "y < REGION_PAGES" for x y
    using that by (simp_all add: REGION_PAGES_def)
  with j show ?thesis by metis
qed

lemma page_of_upd:
  assumes "length ps = REGION_PAGES" "pm_regions pm' = (pm_regions pm)(idx \<mapsto> ps)" "j < REGION_PAGES"
  shows "page_of pm' (i * REGION_PAGES + j) = (if i = idx then ps ! j else page_of pm (i * REGION_PAGES + j))"
  using assms by (simp add: page_of_def REGION_PAGES_def)

lemma region_update_ok:
  assumes ok: "pm_ok pm" and range: "first \<le> last1" "last1 \<le> REGION_PAGES"
    and mapped: "\<And>j. first \<le> j \<Longrightarrow> j < last1 \<Longrightarrow> pm_mapped pm (idx * REGION_PAGES + j)"
    and legal: "\<And>j. first \<le> j \<Longrightarrow> j < last1 \<Longrightarrow> update_bit msk j \<Longrightarrow>
                  delta_ok track is_read (page_of pm (idx * REGION_PAGES + j))"
  shows "\<exists>pm'. UpdateRegionWatchers track is_read msk pm (region_pages pm idx) (idx * REGION_SIZE) first last1 =
             Inr pm' \<and> pm_ok pm' \<and>
           pages_updated track is_read {idx * REGION_PAGES + j |j. first \<le> j \<and> j < last1 \<and> update_bit msk j}
             pm pm'"
proof -
  let ?b = "idx * REGION_PAGES"
  let ?ps = "region_pages pm idx"
  let ?u = "\<lparr>b_pages = ?ps, b_host = pm_host pm, b_perms = Perms (?ps ! first),
             b_range_begin = 0, b_range_bytes = 0, b_potential = 0\<rparr>"
  have base: "idx * REGION_SIZE = ?b * PAGE_SIZE" "idx * REGION_SIZE div REGION_SIZE = idx"
    by (simp_all add: tracker_sizes)
  have len: "length ?ps = REGION_PAGES" using ok by (rule length_region_pages)
  have host: "pm_host pm (?b + j) = Perms (?ps ! j)" if "j < REGION_PAGES" for j
    using ok that page_of_region [of j pm idx] by (simp add: pm_ok_def)
  have "batch_inv ?b first first ?u 0 0" using host len by (simp add: batch_inv_def)
  moreover have "page_update_ok track is_read msk j (?ps ! j)" if "first \<le> j" "j < last1" for j
    using legal [OF that] that range page_of_region [of j pm idx]
    by (simp add: page_update_ok_def update_bit_def)
  ultimately obtain u k l where u:
    "batch_loop track is_read msk (pm_mapped pm) (?b * PAGE_SIZE) first (last1 - first) ?u = Inr u"
    "batch_inv ?b first last1 u k l" "length (b_pages u) = REGION_PAGES"
    "\<forall>j<REGION_PAGES. b_pages u ! j = (if first \<le> j \<and> j < last1
       then page_update track is_read msk j (?ps ! j) else ?ps ! j)"
    "host_frame ?b REGION_PAGES (pm_host pm) (b_host u)"
    using batch_loop_ok [of ?b first first ?u 0 0 "last1 - first" "pm_mapped pm" track is_read msk]
      range len mapped by auto
  obtain h where h: "release_pending (pm_mapped pm) (?b * PAGE_SIZE) u =
      Inr (u\<lparr>b_host := h, b_range_bytes := 0, b_potential := (if k = 0 then b_potential u else 0)\<rparr>)"
    "\<forall>j<REGION_PAGES. h (?b + j) = Perms (b_pages u ! j)"
    "host_frame ?b REGION_PAGES (b_host u) h"
    using release_pending_ok [OF u(2), where mapped = "pm_mapped pm"] mapped range u(3)
    unfolding host_frame_def by fastforce
  let ?pm = "pm\<lparr>pm_regions := (pm_regions pm)(idx \<mapsto> b_pages u), pm_host := h\<rparr>"
  have eq: "UpdateRegionWatchers track is_read msk pm ?ps (idx * REGION_SIZE) first last1 = Inr ?pm"
    unfolding UpdateRegionWatchers_def base(2) unfolding base(1) using u(1) h(1) by simp
  have page: "page_of ?pm (i * REGION_PAGES + j) =
      (if i = idx then b_pages u ! j else page_of pm (i * REGION_PAGES + j))" if "j < REGION_PAGES" for i j
    using u(3) that by (intro page_of_upd) simp_all
  have "pm_host ?pm pg = Perms (page_of ?pm pg)" for pg
  proof -
    obtain i j where pg: "pg = i * REGION_PAGES + j" "j < REGION_PAGES" by (rule region_split)
    show ?thesis
    proof (cases "i = idx")
      case True
      with page [OF pg(2)] h(2) pg show ?thesis by simp
    next
      case False
      then have "pg < ?b \<or> ?b + REGION_PAGES \<le> pg"
        using pg by (auto simp: REGION_PAGES_def neq_iff)
      then have "h pg = pm_host pm pg"
        using host_frame_trans [OF u(5) h(3)] by (auto simp: host_frame_def)
      with ok page [OF pg(2)] pg False show ?thesis by (simp add: pm_ok_def)
    qed
  qed
  then have "pm_ok ?pm" using ok u(3) by (simp add: pm_ok_def)
  moreover have "pages_updated track is_read {?b + j |j. first \<le> j \<and> j < last1 \<and> update_bit msk j} pm ?pm"
    unfolding pages_updated_def
  proof (intro conjI allI)
    fix pg
    obtain i j where pg: "pg = i * REGION_PAGES + j" "j < REGION_PAGES" by (rule region_split)
    have "pg \<in> {?b + j |j. first \<le> j \<and> j < last1 \<and> update_bit msk j} \<longleftrightarrow>
        i = idx \<and> first \<le> j \<and> j < last1 \<and> update_bit msk j"
      using pg range region_unique [OF pg(2)] by auto
    then show "page_of ?pm pg = (if pg \<in> {?b + j |j. first \<le> j \<and> j < last1 \<and> update_bit msk j}
        then apply_delta track is_read (page_of pm pg) else page_of pm pg)"
      using page [OF pg(2), of i] u(4) pg page_of_region [OF pg(2), of pm idx]
      by (auto simp: page_update_def update_bit_def)
  qed simp
  ultimately show ?thesis using eq by blast
qed

lemma pages_updated_trans:
  assumes "pages_updated track is_read S pm pm1" "pages_updated track is_read T pm1 pm2" "S \<inter> T = {}"
  shows "pages_updated track is_read (S \<union> T) pm pm2"
  using assms by (auto simp: pages_updated_def)

lemma pages_updated_refl: "pages_updated track is_read {} pm pm"
  by (simp add: pages_updated_def)

lemma region_found:
  assumes "pm_ok pm" "vaddr < ADDRESS_SIZE" and "idx = vaddr div REGION_SIZE"
    and "\<exists>j<REGION_PAGES. delta_ok track is_read (page_of pm (idx * REGION_PAGES + j))"
  shows "(if track then Some (GetOrCreateRegion pm vaddr) else FindRegion pm vaddr) =
         Some (region_pages pm idx)"
proof (cases "pm_regions pm idx")
  case None
  have "\<not> delta_ok False is_read new_page" by (simp add: delta_ok_def new_page_def)
  with assms(4) None have track by (cases track) (auto simp: page_of_def REGION_PAGES_def)
  with None assms(3) show ?thesis by (simp add: GetOrCreateRegion_def region_pages_def)
next
  case (Some ps)
  with assms show ?thesis by (simp add: GetOrCreateRegion_def FindRegion_def region_pages_def)
qed

text \<open>Where a chunk of whole pages lies in its region.\<close>

lemma chunk_pages:
  fixes p e :: nat
  assumes "p < e"
  defines "idx \<equiv> p div REGION_PAGES" and "q \<equiv> min e ((p div REGION_PAGES + 1) * REGION_PAGES)"
  shows "p * PAGE_SIZE div REGION_SIZE = idx"
    and "(p * PAGE_SIZE - idx * REGION_SIZE) div PAGE_SIZE = p - idx * REGION_PAGES"
    and "min (e * PAGE_SIZE) ((idx + 1) * REGION_SIZE) = q * PAGE_SIZE"
    and "(q * PAGE_SIZE - idx * REGION_SIZE) div PAGE_SIZE = q - idx * REGION_PAGES"
    and "p < q" "q \<le> e" "idx * REGION_PAGES \<le> p" "q - idx * REGION_PAGES \<le> REGION_PAGES"
proof -
  show idx: "p * PAGE_SIZE div REGION_SIZE = idx"
    by (simp add: idx_def tracker_sizes div_mult2_eq [of _ 4096 1024, simplified] flip: div_mult2_eq)
  show "p < q" using assms(1) by (simp add: q_def REGION_PAGES_def)
  show "q \<le> e" by (simp add: q_def)
  show le: "idx * REGION_PAGES \<le> p" by (simp add: idx_def REGION_PAGES_def)
  show "q - idx * REGION_PAGES \<le> REGION_PAGES" by (simp add: q_def idx_def REGION_PAGES_def)
  have rs: "n * REGION_SIZE = n * REGION_PAGES * PAGE_SIZE" for n by (simp add: tracker_sizes)
  show "(p * PAGE_SIZE - idx * REGION_SIZE) div PAGE_SIZE = p - idx * REGION_PAGES"
    unfolding rs diff_mult_distrib [symmetric] by (simp add: PAGE_SIZE_def)
  show "(q * PAGE_SIZE - idx * REGION_SIZE) div PAGE_SIZE = q - idx * REGION_PAGES"
    unfolding rs diff_mult_distrib [symmetric] by (simp add: PAGE_SIZE_def)
  show "min (e * PAGE_SIZE) ((idx + 1) * REGION_SIZE) = q * PAGE_SIZE"
    unfolding rs q_def idx_def by (simp add: min_def PAGE_SIZE_def)
qed

lemma update_chunks_ok:
  assumes "pm_ok pm" "e * PAGE_SIZE \<le> ADDRESS_SIZE"
    and "\<And>pg. p \<le> pg \<Longrightarrow> pg < e \<Longrightarrow> pm_mapped pm pg \<and> delta_ok track is_read (page_of pm pg)"
  shows "\<exists>pm'. update_chunks track is_read pm (p * PAGE_SIZE) (e * PAGE_SIZE) = Inr pm' \<and> pm_ok pm' \<and>
           pages_updated track is_read {p..<e} pm pm'"
  using assms
proof (induction "e - p" arbitrary: p pm rule: less_induct)
  case less
  show ?case
  proof (cases "p < e")
    case False
    then show ?thesis
      using less.prems(1) pages_updated_refl [of track is_read pm]
      by (subst update_chunks.simps) (simp add: PAGE_SIZE_def)
  next
    case True
    define idx where "idx = p div REGION_PAGES"
    define q where "q = min e ((idx + 1) * REGION_PAGES)"
    note c = chunk_pages [OF True, folded idx_def, folded q_def]
    let ?j = "p - idx * REGION_PAGES" and ?l = "q - idx * REGION_PAGES"
    have pg: "p \<le> idx * REGION_PAGES + j \<and> idx * REGION_PAGES + j < e" if "?j \<le> j" "j < ?l" for j
      using that c(5-8) by auto
    have jl: "?j < ?l" using c(5,7) by auto
    have S: "{idx * REGION_PAGES + j |j. ?j \<le> j \<and> j < ?l \<and> update_bit None j} = {p..<q}"
    proof -
      have "x \<in> {idx * REGION_PAGES + j |j. ?j \<le> j \<and> j < ?l}" if "x \<in> {p..<q}" for x
        using that c(7) by (intro CollectI exI [of _ "x - idx * REGION_PAGES"]) auto
      then show ?thesis using c(7) by (auto simp: update_bit_def)
    qed
    have addr: "p * PAGE_SIZE < ADDRESS_SIZE"
      using True less.prems(2) by (auto simp: tracker_sizes)
    have "delta_ok track is_read (page_of pm (idx * REGION_PAGES + ?j))"
      using less.prems(3) pg [of ?j] jl by blast
    moreover have "?j < REGION_PAGES" using jl c(8) by simp
    ultimately have found: "(if track then Some (GetOrCreateRegion pm (p * PAGE_SIZE))
        else FindRegion pm (p * PAGE_SIZE)) = Some (region_pages pm idx)"
      using region_found [OF less.prems(1) addr c(1) [symmetric]] by blast
    obtain pm1 where pm1: "UpdateRegionWatchers track is_read None pm (region_pages pm idx)
        (idx * REGION_SIZE) ?j ?l = Inr pm1" "pm_ok pm1" "pages_updated track is_read {p..<q} pm pm1"
      using region_update_ok [OF less.prems(1) less_imp_le [OF jl] c(8), of idx None track is_read]
        less.prems(3) pg unfolding S by blast
    have "pm_mapped pm1 pg \<and> delta_ok track is_read (page_of pm1 pg)" if "q \<le> pg" "pg < e" for pg
      using that pm1(3) less.prems(3) [of pg] c(5) by (auto simp: pages_updated_def)
    moreover have "e - q < e - p" using c(5) True by simp
    ultimately obtain pm2 where pm2:
      "update_chunks track is_read pm1 (q * PAGE_SIZE) (e * PAGE_SIZE) = Inr pm2" "pm_ok pm2"
      "pages_updated track is_read {q..<e} pm1 pm2"
      using less.hyps [of q pm1] pm1(2) less.prems(2) by blast
    have "{p..<q} \<union> {q..<e} = {p..<e}" "{p..<q} \<inter> {q..<e} = {}" using c(5,6) by auto
    with pages_updated_trans [OF pm1(3) pm2(3)] have "pages_updated track is_read {p..<e} pm pm2" by simp
    moreover have "update_chunks track is_read pm (p * PAGE_SIZE) (e * PAGE_SIZE) = Inr pm2"
      using True found pm1(1) pm2(1)
      by (subst update_chunks.simps) (simp add: c Let_def del: One_nat_def)
    ultimately show ?thesis using pm2(2) by blast
  qed
qed

lemma UpdatePageWatchers_impl_ok:
  assumes "pm_ok pm" and valid: "range_Valid \<lparr>gr_address = vaddr, gr_size = bytes\<rparr>"
  defines "S \<equiv> {vaddr div PAGE_SIZE..<(vaddr + bytes - 1) div PAGE_SIZE + 1}"
  assumes "\<And>pg. pg \<in> S \<Longrightarrow> pm_mapped pm pg \<and> delta_ok track is_read (page_of pm pg)"
  shows "\<exists>pm'. UpdatePageWatchers_impl track is_read pm vaddr bytes = Inr pm' \<and> pm_ok pm' \<and>
           pages_updated track is_read S pm pm'"
proof -
  let ?e = "(vaddr + bytes - 1) div PAGE_SIZE + 1"
  have "?e * PAGE_SIZE \<le> ADDRESS_SIZE"
    using valid by (auto simp: range_Valid_def tracker_sizes)
  then obtain pm' where pm': "update_chunks track is_read pm (vaddr div PAGE_SIZE * PAGE_SIZE) (?e * PAGE_SIZE) =
      Inr pm'" "pm_ok pm'" "pages_updated track is_read S pm pm'"
    using update_chunks_ok [OF assms(1), of ?e "vaddr div PAGE_SIZE" track is_read] assms(4)
    unfolding S_def by auto
  have "PageEnd vaddr bytes = Inr (?e * PAGE_SIZE)"
    using valid by (simp add: PageEnd_def PageStart_def)
  with pm' show ?thesis by (simp add: UpdatePageWatchers_impl_def PageStart_def)
qed

text \<open>The hull of a set of bits, which is what the batch walks over.\<close>

definition hull :: "nat set \<Rightarrow> nat set" where
  "hull A = {j. \<exists>a\<in>A. \<exists>z\<in>A. a \<le> j \<and> j \<le> z}"

lemma mask_runs:
  assumes "bits_of m \<noteq> {}"
  obtains a b c z where "FirstRange m = (a, b)" "LastRange m = (c, z)" "a < b" "c < z" "b \<le> z"
    "a < bit_size m" "z \<le> bit_size m" "hull (bits_of m) = {a..<z}" "bits_of m \<subseteq> {a..<z}" "{a..<b} \<subseteq> bits_of m"
proof -
  obtain a b where ab: "FirstRange m = (a, b)" by (metis surj_pair)
  obtain c z where cz: "LastRange m = (c, z)" by (metis surj_pair)
  obtain x where x: "x \<in> bits_of m" using assms by blast
  have first: "a < b" "{a..<b} \<subseteq> bits_of m" "b \<notin> bits_of m" "\<forall>i\<in>bits_of m. a \<le> i"
    using FirstRangeFrom_first_run [of m 0] ab assms by (simp_all add: first_run_def FirstRange_def)
  have some: "(\<forall>i\<in>bits_of m. bit_size m \<le> i) = False" by (meson x bits_of_lt [OF x] not_le)
  have lrun: "c < z \<and> z \<le> bit_size m \<and> {c..<z} \<subseteq> bits_of m \<and> (\<forall>i\<in>bits_of m. i < z \<or> bit_size m \<le> i)"
    using LastRangeFrom_last_run [of "bit_size m" m, OF order_refl] cz
    unfolding last_run_def LastRange_def by (simp only: some if_False fst_conv snd_conv) blast
  moreover have "\<forall>i\<in>bits_of m. i < z" using lrun bits_of_lt [of _ m] by (meson not_le)
  ultimately have last: "c < z" "z \<le> bit_size m" "{c..<z} \<subseteq> bits_of m" "\<forall>i\<in>bits_of m. i < z"
    by simp_all
  have a: "a \<in> bits_of m" using first(1,2) by auto
  have z: "z - 1 \<in> bits_of m" using last(1,3) by auto
  have "b - 1 \<in> bits_of m" using first(1,2) by auto
  then have "b \<le> z" using last(4) first(1) by force
  moreover have "hull (bits_of m) = {a..<z}"
  proof (rule set_eqI)
    fix j
    show "j \<in> hull (bits_of m) \<longleftrightarrow> j \<in> {a..<z}"
    proof
      assume "j \<in> hull (bits_of m)"
      then obtain p q where "p \<in> bits_of m" "q \<in> bits_of m" "p \<le> j" "j \<le> q" by (auto simp: hull_def)
      with first(4) last(4) show "j \<in> {a..<z}" by fastforce
    next
      assume "j \<in> {a..<z}"
      then have "a \<le> j" "j \<le> z - 1" by auto
      with a z show "j \<in> hull (bits_of m)" by (auto simp: hull_def)
    qed
  qed
  moreover have "bits_of m \<subseteq> {a..<z}" using first(4) last(4) by auto
  ultimately show thesis using that ab cz first last(1,2) bits_of_lt [OF a] by blast
qed

lemma UpdatePageWatchersForRegion_ok:
  assumes ok: "pm_ok pm" and idx: "idx * REGION_SIZE < ADDRESS_SIZE"
    and m: "words_valid 16 m" "bits_of m \<noteq> {}"
    and mapped: "\<And>j. j \<in> hull (bits_of m) \<Longrightarrow> pm_mapped pm (idx * REGION_PAGES + j)"
    and legal: "\<And>j. j \<in> bits_of m \<Longrightarrow>
      0 < idx * REGION_PAGES + j \<and> delta_ok track is_read (page_of pm (idx * REGION_PAGES + j))"
  shows "\<exists>pm'. UpdatePageWatchersForRegion track is_read pm (idx * REGION_SIZE) m = Inr pm' \<and> pm_ok pm' \<and>
           pages_updated track is_read ((\<lambda>j. idx * REGION_PAGES + j) ` bits_of m) pm pm'"
proof -
  have size: "bit_size m = REGION_PAGES" using m(1) by (simp add: words_valid_def bit_size_def REGION_PAGES_def)
  obtain a b c z where r: "FirstRange m = (a, b)" "LastRange m = (c, z)" "a < b" "c < z" "b \<le> z"
    "a < bit_size m" "z \<le> bit_size m" "hull (bits_of m) = {a..<z}" "bits_of m \<subseteq> {a..<z}" "{a..<b} \<subseteq> bits_of m"
    by (rule mask_runs [OF m(2)])
  have base: "\<not> (idx * REGION_SIZE mod REGION_SIZE \<noteq> 0 \<or> idx * REGION_SIZE \<ge> ADDRESS_SIZE \<or>
      REGION_SIZE > ADDRESS_SIZE - idx * REGION_SIZE)" "a \<noteq> REGION_PAGES"
    using idx r(6) size by (auto simp: tracker_sizes)
  let ?f = "\<lambda>j. idx * REGION_PAGES + j"
  show ?thesis
  proof (cases "b = z")
    case True
    with r have bits: "bits_of m = {a..<z}" by auto
    let ?v = "idx * REGION_SIZE + a * PAGE_SIZE" and ?n = "(z - a) * PAGE_SIZE"
    have v: "?v = ?f a * PAGE_SIZE" by (simp add: tracker_sizes)
    have az: "a < z" using r(3) True by simp
    have sum: "?v + ?n = ?f z * PAGE_SIZE"
      using az by (simp add: v flip: add_mult_distrib)
    have pages: "?v div PAGE_SIZE = ?f a" "(?v + ?n - 1) div PAGE_SIZE + 1 = ?f z"
      unfolding sum v using az by (auto simp: PAGE_SIZE_def)
    have valid: "range_Valid \<lparr>gr_address = ?v, gr_size = ?n\<rparr>"
      using legal [of a] bits az idx r(7) size by (auto simp: range_Valid_def tracker_sizes)
    have S: "{?f a..<?f z} = ?f ` bits_of m" by (simp add: bits add.commute)
    have "pm_mapped pm pg \<and> delta_ok track is_read (page_of pm pg)" if "pg \<in> {?f a..<?f z}" for pg
    proof -
      from that obtain j where "pg = ?f j" "j \<in> bits_of m" unfolding S by blast
      then show ?thesis using mapped [of j] legal [of j] r(8) bits by simp
    qed
    then obtain pm' where "UpdatePageWatchers_impl track is_read pm ?v ?n = Inr pm'" "pm_ok pm'"
      "pages_updated track is_read (?f ` bits_of m) pm pm'"
      using UpdatePageWatchers_impl_ok [OF ok valid, of track is_read, unfolded pages, unfolded S]
      unfolding S by blast
    with True base r show ?thesis by (simp add: UpdatePageWatchersForRegion_def Let_def)
  next
    case False
    have upd: "update_bit (Some m) j \<longleftrightarrow> j \<in> bits_of m" if "j < z" for j
      using that r(7) Get_iff [of j m] by (simp add: update_bit_def)
    have aA: "a \<in> bits_of m" using r(3,10) by auto
    have found: "(if track then Some (GetOrCreateRegion pm (idx * REGION_SIZE))
        else FindRegion pm (idx * REGION_SIZE)) = Some (region_pages pm idx)"
      using legal [OF aA] r(6) size by (intro region_found [OF ok idx]) auto
    have S: "{?f j |j. a \<le> j \<and> j < z \<and> update_bit (Some m) j} = ?f ` bits_of m"
      using upd r(9) by auto
    obtain pm' where "UpdateRegionWatchers track is_read (Some m) pm (region_pages pm idx) (idx * REGION_SIZE) a z =
        Inr pm'" "pm_ok pm'" "pages_updated track is_read (?f ` bits_of m) pm pm'"
      using region_update_ok [OF ok, of a z idx "Some m" track is_read] mapped legal upd r(3,5,7,8) size
      unfolding S by auto
    with False base r found show ?thesis by (simp add: UpdatePageWatchersForRegion_def Let_def)
  qed
qed

section \<open>The interface the region manager uses\<close>

text \<open>
  A watcher service: counts per page, an update of the pages of a mask in a region, and the promise that
  a legal update succeeds, keeps the service consistent and changes exactly the masked pages. The client
  fact is that untracking undoes tracking.
\<close>

locale watcher_service =
  fixes consistent :: "'pm \<Rightarrow> bool"
    and page :: "'pm \<Rightarrow> nat \<Rightarrow> page_state"
    and mapped :: "'pm \<Rightarrow> nat \<Rightarrow> bool"
    and update :: "bool \<Rightarrow> bool \<Rightarrow> 'pm \<Rightarrow> nat \<Rightarrow> bit_array \<Rightarrow> 'pm outcome"
  assumes update_ok: "consistent pm \<Longrightarrow> idx * REGION_SIZE < ADDRESS_SIZE \<Longrightarrow> words_valid 16 m \<Longrightarrow>
      bits_of m \<noteq> {} \<Longrightarrow> (\<And>j. j \<in> hull (bits_of m) \<Longrightarrow> mapped pm (idx * REGION_PAGES + j)) \<Longrightarrow>
      (\<And>j. j \<in> bits_of m \<Longrightarrow> 0 < idx * REGION_PAGES + j \<and>
         delta_ok track is_read (page pm (idx * REGION_PAGES + j))) \<Longrightarrow>
      \<exists>pm'. update track is_read pm (idx * REGION_SIZE) m = Inr pm' \<and> consistent pm' \<and>
            mapped pm' = mapped pm \<and>
            (\<forall>pg. page pm' pg = (if pg \<in> (\<lambda>j. idx * REGION_PAGES + j) ` bits_of m
                                 then apply_delta track is_read (page pm pg) else page pm pg))"
begin

lemma track_untrack:
  assumes "consistent pm" "idx * REGION_SIZE < ADDRESS_SIZE" "words_valid 16 m" "bits_of m \<noteq> {}"
    and "\<And>j. j \<in> hull (bits_of m) \<Longrightarrow> mapped pm (idx * REGION_PAGES + j)"
    and "\<And>j. j \<in> bits_of m \<Longrightarrow> 0 < idx * REGION_PAGES + j \<and>
           delta_ok True is_read (page pm (idx * REGION_PAGES + j))"
  shows "\<exists>pm' pm''. update True is_read pm (idx * REGION_SIZE) m = Inr pm' \<and> consistent pm' \<and>
           (\<forall>pg. page pm' pg = (if pg \<in> (\<lambda>j. idx * REGION_PAGES + j) ` bits_of m
                                then apply_delta True is_read (page pm pg) else page pm pg)) \<and>
           update False is_read pm' (idx * REGION_SIZE) m = Inr pm'' \<and> consistent pm'' \<and>
           page pm'' = page pm"
proof -
  obtain pm' where pm': "update True is_read pm (idx * REGION_SIZE) m = Inr pm'" "consistent pm'"
    "mapped pm' = mapped pm"
    "\<forall>pg. page pm' pg = (if pg \<in> (\<lambda>j. idx * REGION_PAGES + j) ` bits_of m
       then apply_delta True is_read (page pm pg) else page pm pg)"
    using update_ok [OF assms(1-4), of True is_read] assms(5,6) by blast
  have legal: "delta_ok False is_read (apply_delta True is_read p)" for p
    by (auto simp: delta_ok_def apply_delta_def)
  have undo: "apply_delta False is_read (apply_delta True is_read p) = p" for p
    by (cases p) (auto simp: apply_delta_def)
  have "0 < idx * REGION_PAGES + j \<and> delta_ok False is_read (page pm' (idx * REGION_PAGES + j))"
    if "j \<in> bits_of m" for j
    using that assms(6) pm'(4) legal by auto
  then obtain pm'' where pm'': "update False is_read pm' (idx * REGION_SIZE) m = Inr pm''" "consistent pm''"
    "\<forall>pg. page pm'' pg = (if pg \<in> (\<lambda>j. idx * REGION_PAGES + j) ` bits_of m
       then apply_delta False is_read (page pm' pg) else page pm' pg)"
    using update_ok [OF pm'(2) assms(2-4), of False is_read] assms(5) pm'(3) by force
  have "page pm'' = page pm"
    using pm'(4) pm''(3) undo by (intro ext) simp
  with pm' pm'' show ?thesis by blast
qed

end

interpretation page_watchers: watcher_service pm_ok page_of pm_mapped UpdatePageWatchersForRegion
proof
  fix pm idx m track is_read
  assume "pm_ok pm" "idx * REGION_SIZE < ADDRESS_SIZE" "words_valid 16 m" "bits_of m \<noteq> {}"
    "\<And>j. j \<in> hull (bits_of m) \<Longrightarrow> pm_mapped pm (idx * REGION_PAGES + j)"
    "\<And>j. j \<in> bits_of m \<Longrightarrow> 0 < idx * REGION_PAGES + j \<and>
       delta_ok track is_read (page_of pm (idx * REGION_PAGES + j))"
  from UpdatePageWatchersForRegion_ok [OF this]
  show "\<exists>pm'. UpdatePageWatchersForRegion track is_read pm (idx * REGION_SIZE) m = Inr pm' \<and>
      pm_ok pm' \<and> pm_mapped pm' = pm_mapped pm \<and>
      (\<forall>pg. page_of pm' pg = (if pg \<in> (\<lambda>j. idx * REGION_PAGES + j) ` bits_of m
         then apply_delta track is_read (page_of pm pg) else page_of pm pg))"
    unfolding pages_updated_def by blast
qed

section \<open>Properties\<close>

lemma new_page_manager_ok: "pm_ok (new_page_manager mapped)"
  by (simp add: pm_ok_def new_page_manager_def page_of_def Perms_def new_page_def)

text \<open>
  C2: the batches protect every page the way its counts say. From a state where the host protection of
  every page follows from its watcher counts, watching or unwatching a valid range whose pages are mapped
  and whose counts admit it succeeds, counts each page of the range once and no other, and leaves a state
  where the host protection of every page again follows from its counts, over any number of regions.
\<close>

theorem page_watchers_exact:
  assumes "pm_ok pm" and "range_Valid \<lparr>gr_address = vaddr, gr_size = bytes\<rparr>"
    and "\<And>pg. vaddr div PAGE_SIZE \<le> pg \<Longrightarrow> pg \<le> (vaddr + bytes - 1) div PAGE_SIZE \<Longrightarrow>
           pm_mapped pm pg \<and> delta_ok track False (page_of pm pg)"
  shows "\<exists>pm'. UpdatePageWatchers track pm vaddr bytes = Inr pm' \<and>
           (\<forall>pg. pm_host pm' pg = Perms (page_of pm' pg) \<and>
              page_of pm' pg =
                (if vaddr div PAGE_SIZE \<le> pg \<and> pg \<le> (vaddr + bytes - 1) div PAGE_SIZE
                 then apply_delta track False (page_of pm pg) else page_of pm pg))"
proof -
  have S: "pg \<in> {vaddr div PAGE_SIZE..<(vaddr + bytes - 1) div PAGE_SIZE + 1} \<longleftrightarrow>
      vaddr div PAGE_SIZE \<le> pg \<and> pg \<le> (vaddr + bytes - 1) div PAGE_SIZE" for pg by auto
  obtain pm' where "UpdatePageWatchers_impl track False pm vaddr bytes = Inr pm'" "pm_ok pm'"
    "pages_updated track False {vaddr div PAGE_SIZE..<(vaddr + bytes - 1) div PAGE_SIZE + 1} pm pm'"
    using UpdatePageWatchers_impl_ok [OF assms(1,2), of track False] assms(3) unfolding S by blast
  then show ?thesis
    unfolding UpdatePageWatchers_def pages_updated_def pm_ok_def S by blast
qed

theorem page_watchers_exact_witness:
  "\<exists>pm'. UpdatePageWatchers True (new_page_manager (\<lambda>_. True)) 20480 4097 = Inr pm' \<and>
     pm_host pm' 6 = READ_ONLY \<and> pm_host pm' 7 = READ_WRITE"
proof -
  let ?pm = "new_page_manager (\<lambda>_. True)"
  have page: "page_of ?pm pg = new_page" for pg by (simp add: page_of_def new_page_manager_def)
  have "range_Valid \<lparr>gr_address = 20480, gr_size = 4097\<rparr>"
    by (simp add: range_Valid_def ADDRESS_SIZE_def)
  moreover have "pm_mapped ?pm pg \<and> delta_ok True False (page_of ?pm pg)" for pg
    by (simp add: page new_page_manager_def) (simp add: page_of_def delta_ok_def new_page_def)
  ultimately obtain pm' where pm': "UpdatePageWatchers True ?pm 20480 4097 = Inr pm'"
    "\<forall>pg. pm_host pm' pg = Perms (page_of pm' pg) \<and>
       page_of pm' pg = (if 20480 div PAGE_SIZE \<le> pg \<and> pg \<le> (20480 + 4097 - 1) div PAGE_SIZE
         then apply_delta True False (page_of ?pm pg) else page_of ?pm pg)"
    using page_watchers_exact [OF new_page_manager_ok, of 20480 4097 "\<lambda>_. True" True] by blast
  have "page_of pm' 6 = apply_delta True False new_page" "page_of pm' 7 = new_page"
    using pm'(2) by (simp_all add: page PAGE_SIZE_def)
  with pm' have "pm_host pm' 6 = READ_ONLY" "pm_host pm' 7 = READ_WRITE"
    by (simp_all add: Perms_def apply_delta_def new_page_def)
  with pm'(1) show ?thesis by blast
qed

text \<open>
  C21: watching a mask of a region and unwatching it again, with the mask any set of pages of the region,
  contiguous or not. After the watch exactly the pages of the mask are counted once more, every other page of
  memory keeps its counts, and the host protection of every page is the one its counts ask for; after the
  unwatch every count and every host protection is what it was.
\<close>

theorem region_watch_unwatch:
  assumes "pm_ok pm" and "idx * REGION_SIZE < ADDRESS_SIZE" and "words_valid 16 m" and "bits_of m \<noteq> {}"
    and "\<And>j. j \<in> hull (bits_of m) \<Longrightarrow> pm_mapped pm (idx * REGION_PAGES + j)"
    and "\<And>j. j \<in> bits_of m \<Longrightarrow>
           0 < idx * REGION_PAGES + j \<and> delta_ok True is_read (page_of pm (idx * REGION_PAGES + j))"
  shows "\<exists>pm' pm''. UpdatePageWatchersForRegion True is_read pm (idx * REGION_SIZE) m = Inr pm' \<and>
           (\<forall>pg. page_of pm' pg = (if pg \<in> (\<lambda>j. idx * REGION_PAGES + j) ` bits_of m
                                   then apply_delta True is_read (page_of pm pg) else page_of pm pg) \<and>
                 pm_host pm' pg = Perms (page_of pm' pg)) \<and>
           UpdatePageWatchersForRegion False is_read pm' (idx * REGION_SIZE) m = Inr pm'' \<and>
           pm_ok pm'' \<and> page_of pm'' = page_of pm \<and> pm_host pm'' = pm_host pm"
proof -
  obtain pm' pm'' where u: "UpdatePageWatchersForRegion True is_read pm (idx * REGION_SIZE) m = Inr pm'" "pm_ok pm'"
    "\<forall>pg. page_of pm' pg = (if pg \<in> (\<lambda>j. idx * REGION_PAGES + j) ` bits_of m
       then apply_delta True is_read (page_of pm pg) else page_of pm pg)"
    "UpdatePageWatchersForRegion False is_read pm' (idx * REGION_SIZE) m = Inr pm''"
    "pm_ok pm''" "page_of pm'' = page_of pm"
    using page_watchers.track_untrack [OF assms] by blast
  have "pm_host pm' pg = Perms (page_of pm' pg)" for pg using u(2) by (simp add: pm_ok_def)
  moreover have "pm_host pm'' = pm_host pm" using u(5,6) assms(1) by (auto simp: pm_ok_def)
  ultimately show ?thesis using u by blast
qed

theorem region_watch_unwatch_witness:
  "\<exists>pm' pm''. UpdatePageWatchersForRegion True True (new_page_manager (\<lambda>_. True)) 4194304
       (SetRange (SetRange (replicate 16 0) 3 4) 5 130) = Inr pm' \<and>
     UpdatePageWatchersForRegion False True pm' 4194304
       (SetRange (SetRange (replicate 16 0) 3 4) 5 130) = Inr pm'' \<and>
     page_of pm'' = page_of (new_page_manager (\<lambda>_. True))"
proof -
  let ?m = "SetRange (SetRange (replicate 16 0) 3 4) 5 130"
  let ?pm = "new_page_manager (\<lambda>_. True)"
  have "bits_of ?m = {3} \<union> {5..<130}"
    by (subst bits_of_SetRange, simp add: bit_size_def, subst bits_of_SetRange) (auto simp: bit_size_def)
  moreover have "pm_mapped ?pm pg" "delta_ok True True (page_of ?pm pg)" for pg
    by (simp_all add: new_page_manager_def page_of_def delta_ok_def new_page_def)
  ultimately show ?thesis
    using region_watch_unwatch [OF new_page_manager_ok, of 1 ?m "\<lambda>_. True" True]
    by (force simp: words_valid_def tracker_sizes)
qed

end
