(* ===== verification/RegionManager.thy ===== *)
theory RegionManager
  imports PageManager
begin

text \<open>
  The region manager of src/src/graphics/host_gpu/regionManager.h: for the 1024 pages of a region, which
  are dirty for the CPU and which for the GPU, as bit arrays, and the two protections that follow. Pages
  that are not CPU-dirty are watched for writes, pages that are GPU-dirty are watched for accesses; the
  changes go to the page manager. An operation runs under the region's lock.
\<close>

section \<open>State and operations\<close>

datatype dirty_source = Cpu | Gpu

record region_manager =
  rm_cpu_addr :: nat
  rm_cpu_dirty :: bit_array
  rm_gpu_dirty :: bit_array
  rm_writable :: bit_array
  rm_readable :: bit_array

definition new_region_bits :: bit_array where
  "new_region_bits = replicate 16 0"

definition new_region_manager :: "nat \<Rightarrow> region_manager outcome" where
  "new_region_manager cpu_addr =
     exit_if (cpu_addr mod REGION_SIZE \<noteq> 0)
       (Inr \<lparr>rm_cpu_addr = cpu_addr, rm_cpu_dirty = Fill new_region_bits,
             rm_gpu_dirty = new_region_bits, rm_writable = Fill new_region_bits,
             rm_readable = Fill new_region_bits\<rparr>)"

definition GetBits :: "dirty_source \<Rightarrow> region_manager \<Rightarrow> bit_array" where
  "GetBits source rm = (case source of Cpu \<Rightarrow> rm_cpu_dirty rm | Gpu \<Rightarrow> rm_gpu_dirty rm)"

definition PutBits :: "dirty_source \<Rightarrow> bit_array \<Rightarrow> region_manager \<Rightarrow> region_manager" where
  "PutBits source bits rm =
     (case source of Cpu \<Rightarrow> rm\<lparr>rm_cpu_dirty := bits\<rparr> | Gpu \<Rightarrow> rm\<lparr>rm_gpu_dirty := bits\<rparr>)"

definition GetPageRange :: "region_manager \<Rightarrow> nat \<Rightarrow> nat \<Rightarrow> (nat \<times> nat) outcome" where
  "GetPageRange rm vaddr bytes =
     exit_if (bytes = 0 \<or> vaddr < rm_cpu_addr rm \<or> vaddr \<ge> rm_cpu_addr rm + REGION_SIZE \<or>
              bytes > rm_cpu_addr rm + REGION_SIZE - vaddr)
       (let offset = vaddr - rm_cpu_addr rm
        in Inr (offset div PAGE_SIZE, (offset + bytes + PAGE_SIZE - 1) div PAGE_SIZE))"

definition IsModified :: "dirty_source \<Rightarrow> region_manager \<Rightarrow> nat \<Rightarrow> nat \<Rightarrow> bool outcome" where
  "IsModified source rm offset bytes =
     bind_outcome (GetPageRange rm (rm_cpu_addr rm + offset) bytes)
       (\<lambda>(start, end1). Inr (Any_set (SubRange (GetBits source rm) start end1)))"

definition UpdateCpuProtection ::
    "bool \<Rightarrow> region_manager \<Rightarrow> page_manager \<Rightarrow> (region_manager \<times> page_manager) outcome" where
  "UpdateCpuProtection track rm pm =
     (let m = xor_bits (rm_cpu_dirty rm) (rm_writable rm);
          rm = rm\<lparr>rm_writable := rm_cpu_dirty rm\<rparr>
      in if None_set m then Inr (rm, pm)
         else bind_outcome (UpdatePageWatchersForRegion track False pm (rm_cpu_addr rm) m)
                (\<lambda>pm. Inr (rm, pm)))"

definition UpdateGpuProtection ::
    "bool \<Rightarrow> region_manager \<Rightarrow> page_manager \<Rightarrow> (region_manager \<times> page_manager) outcome" where
  "UpdateGpuProtection track rm pm =
     (let readable = not_bits (rm_gpu_dirty rm);
          m = xor_bits readable (rm_readable rm);
          rm = rm\<lparr>rm_readable := readable\<rparr>
      in if None_set m then Inr (rm, pm)
         else bind_outcome (UpdatePageWatchersForRegion track True pm (rm_cpu_addr rm) m)
                (\<lambda>pm. Inr (rm, pm)))"

definition ChangeState ::
    "dirty_source \<Rightarrow> bool \<Rightarrow> region_manager \<Rightarrow> page_manager \<Rightarrow> nat \<Rightarrow> nat \<Rightarrow>
       (region_manager \<times> page_manager) outcome" where
  "ChangeState source enable rm pm vaddr bytes =
     bind_outcome (GetPageRange rm vaddr bytes) (\<lambda>(start, end1).
       exit_if (source = Cpu \<and> enable \<and> Any_set (SubRange (rm_gpu_dirty rm) start end1))
         (exit_if (source = Gpu \<and> enable \<and> Any_set (SubRange (rm_cpu_dirty rm) start end1))
           (let bits = GetBits source rm;
                rm = PutBits source
                       (if enable then SetRange bits start end1 else UnsetRange bits start end1) rm
            in case source of
                 Cpu \<Rightarrow> UpdateCpuProtection (\<not> enable) rm pm
               | Gpu \<Rightarrow> UpdateGpuProtection enable rm pm)))"

definition ForEachRange :: "region_manager \<Rightarrow> bit_array \<Rightarrow> (nat \<times> nat) list" where
  "ForEachRange rm bits =
     map (\<lambda>(start, end1). (rm_cpu_addr rm + start * PAGE_SIZE, (end1 - start) * PAGE_SIZE)) (ranges bits)"

text \<open>The result starts with the address and size of every call of \<open>func\<close>, in order.\<close>

definition ForEachModifiedRange ::
    "dirty_source \<Rightarrow> bool \<Rightarrow> region_manager \<Rightarrow> page_manager \<Rightarrow> nat \<Rightarrow> nat \<Rightarrow>
       ((nat \<times> nat) list \<times> region_manager \<times> page_manager) outcome" where
  "ForEachModifiedRange source clear rm pm vaddr bytes =
     bind_outcome (GetPageRange rm vaddr bytes) (\<lambda>(start, end1).
       let m = SubRange (GetBits source rm) start end1;
           rm = (if clear then PutBits source (UnsetRange (GetBits source rm) start end1) rm else rm)
       in bind_outcome
            (if clear
             then (case source of
                     Cpu \<Rightarrow> UpdateCpuProtection True rm pm
                   | Gpu \<Rightarrow> UpdateGpuProtection False rm pm)
             else Inr (rm, pm))
            (\<lambda>(rm, pm). Inr (ForEachRange rm m, rm, pm)))"

section \<open>The invariant\<close>

text \<open>
  A region with the page manager: the protections are those of the dirty sets, no page is dirty for
  both sides, and the watcher counts of the page manager are the region's plus \<open>base\<close>, the write
  watchers other users placed on the page.
\<close>

abbreviation rb_valid :: "bit_array \<Rightarrow> bool" where
  "rb_valid \<equiv> words_valid 16"

definition watched :: "(nat \<Rightarrow> nat) \<Rightarrow> nat \<Rightarrow> nat set \<Rightarrow> nat set \<Rightarrow> page_manager \<Rightarrow> bool" where
  "watched base idx C G pm \<longleftrightarrow>
     (\<forall>j<REGION_PAGES. page_of pm (idx * REGION_PAGES + j) =
        \<lparr>write_watchers = base (idx * REGION_PAGES + j) + (if j \<in> C then 0 else 1),
         access_watchers = (if j \<in> G then 1 else 0)\<rparr>)"

definition region_ok :: "nat \<Rightarrow> region_manager \<Rightarrow> bool" where
  "region_ok idx rm \<longleftrightarrow>
     rm_cpu_addr rm = idx * REGION_SIZE \<and> idx * REGION_SIZE < ADDRESS_SIZE \<and>
     rb_valid (rm_cpu_dirty rm) \<and> rb_valid (rm_gpu_dirty rm) \<and> rb_valid (rm_writable rm) \<and>
     rb_valid (rm_readable rm) \<and>
     bits_of (rm_writable rm) = bits_of (rm_cpu_dirty rm) \<and>
     bits_of (rm_readable rm) = {..<REGION_PAGES} - bits_of (rm_gpu_dirty rm) \<and>
     bits_of (rm_cpu_dirty rm) \<inter> bits_of (rm_gpu_dirty rm) = {}"

definition region_inv :: "(nat \<Rightarrow> nat) \<Rightarrow> nat \<Rightarrow> region_manager \<Rightarrow> page_manager \<Rightarrow> bool" where
  "region_inv base idx rm pm \<longleftrightarrow>
     region_ok idx rm \<and> pm_ok pm \<and>
     watched base idx (bits_of (rm_cpu_dirty rm)) (bits_of (rm_gpu_dirty rm)) pm"

definition same_elsewhere :: "nat \<Rightarrow> page_manager \<Rightarrow> page_manager \<Rightarrow> bool" where
  "same_elsewhere idx pm pm' \<longleftrightarrow>
     pm_mapped pm' = pm_mapped pm \<and>
     (\<forall>i j. i \<noteq> idx \<longrightarrow> j < REGION_PAGES \<longrightarrow>
        page_of pm' (i * REGION_PAGES + j) = page_of pm (i * REGION_PAGES + j))"

lemma region_bits_size: "rb_valid m \<Longrightarrow> bit_size m = REGION_PAGES"
  by (simp add: words_valid_def bit_size_def REGION_PAGES_def)

lemma region_bits_subset: "rb_valid m \<Longrightarrow> bits_of m \<subseteq> {..<REGION_PAGES}"
  using bits_of_subset [of m] by (simp add: region_bits_size)

lemma hull_bound: "A \<subseteq> {s..<e} \<Longrightarrow> hull A \<subseteq> {s..<e}"
  by (fastforce simp: hull_def)

lemma in_region_image: "j < REGION_PAGES \<Longrightarrow> A \<subseteq> {..<REGION_PAGES} \<Longrightarrow>
    i * REGION_PAGES + j \<in> (\<lambda>j. idx * REGION_PAGES + j) ` A \<longleftrightarrow> i = idx \<and> j \<in> A"
  using region_unique [of j _ i idx] by (auto simp: image_iff)

text \<open>One update of the watchers, for a mask of pages between \<open>s\<close> and \<open>e\<close>.\<close>

lemma region_watch:
  assumes "pm_ok pm" "idx * REGION_SIZE < ADDRESS_SIZE" "rb_valid m" "bits_of m \<noteq> {}"
    and "bits_of m \<subseteq> {s..<e}"
    and "\<And>j. s \<le> j \<Longrightarrow> j < e \<Longrightarrow> pm_mapped pm (idx * REGION_PAGES + j)"
    and "0 < idx * REGION_PAGES + s"
    and "\<And>j. j \<in> bits_of m \<Longrightarrow> delta_ok track is_read (page_of pm (idx * REGION_PAGES + j))"
  shows "\<exists>pm'. UpdatePageWatchersForRegion track is_read pm (idx * REGION_SIZE) m = Inr pm' \<and> pm_ok pm' \<and>
           same_elsewhere idx pm pm' \<and>
           (\<forall>j<REGION_PAGES. page_of pm' (idx * REGION_PAGES + j) =
              (if j \<in> bits_of m then apply_delta track is_read (page_of pm (idx * REGION_PAGES + j))
               else page_of pm (idx * REGION_PAGES + j)))"
proof -
  have "\<And>j. j \<in> hull (bits_of m) \<Longrightarrow> pm_mapped pm (idx * REGION_PAGES + j)"
    using hull_bound [OF assms(5)] assms(6) by auto
  moreover have "\<And>j. j \<in> bits_of m \<Longrightarrow> 0 < idx * REGION_PAGES + j \<and>
      delta_ok track is_read (page_of pm (idx * REGION_PAGES + j))"
    using assms(5,7,8) by fastforce
  ultimately obtain pm' where pm':
    "UpdatePageWatchersForRegion track is_read pm (idx * REGION_SIZE) m = Inr pm'" "pm_ok pm'"
    "pm_mapped pm' = pm_mapped pm"
    "\<forall>pg. page_of pm' pg = (if pg \<in> (\<lambda>j. idx * REGION_PAGES + j) ` bits_of m
       then apply_delta track is_read (page_of pm pg) else page_of pm pg)"
    using page_watchers.update_ok [OF assms(1-4), of track is_read] by blast
  note img = in_region_image [OF _ region_bits_subset [OF assms(3)]]
  from pm'(3,4) have "same_elsewhere idx pm pm'" by (simp add: same_elsewhere_def img)
  with pm' show ?thesis by (simp add: img)
qed

lemma same_elsewhere_refl [simp]: "same_elsewhere idx pm pm"
  by (simp add: same_elsewhere_def)

lemma UpdateCpuProtection_ok:
  assumes "rm_cpu_addr rm = idx * REGION_SIZE" "idx * REGION_SIZE < ADDRESS_SIZE"
    and valid: "rb_valid (rm_cpu_dirty rm)" "rb_valid (rm_writable rm)"
    and "pm_ok pm" and w: "watched base idx (bits_of (rm_writable rm)) G pm"
    and dir: "if track then bits_of (rm_cpu_dirty rm) \<subseteq> bits_of (rm_writable rm)
              else bits_of (rm_writable rm) \<subseteq> bits_of (rm_cpu_dirty rm)"
    and span: "(bits_of (rm_cpu_dirty rm) - bits_of (rm_writable rm)) \<union>
               (bits_of (rm_writable rm) - bits_of (rm_cpu_dirty rm)) \<subseteq> {s..<e}"
    and "\<And>j. s \<le> j \<Longrightarrow> j < e \<Longrightarrow> pm_mapped pm (idx * REGION_PAGES + j)"
    and "0 < idx * REGION_PAGES + s" and room: "\<And>pg. base pg < 0x7f"
  shows "\<exists>pm'. UpdateCpuProtection track rm pm = Inr (rm\<lparr>rm_writable := rm_cpu_dirty rm\<rparr>, pm') \<and>
           pm_ok pm' \<and> same_elsewhere idx pm pm' \<and> watched base idx (bits_of (rm_cpu_dirty rm)) G pm'"
proof -
  let ?m = "xor_bits (rm_cpu_dirty rm) (rm_writable rm)"
  note m = bit_words.members_xor [OF valid] bit_words.valid_ops [OF valid]
  show ?thesis
  proof (cases "None_set ?m")
    case True
    then have "bits_of (rm_cpu_dirty rm) = bits_of (rm_writable rm)"
      using bit_words.none_xor [OF valid] by simp
    with True assms(5) w show ?thesis by (simp add: UpdateCpuProtection_def)
  next
    case False
    then have ne: "bits_of ?m \<noteq> {}" using m bit_words.none_iff by blast
    have page: "page_of pm (idx * REGION_PAGES + j) =
        \<lparr>write_watchers = base (idx * REGION_PAGES + j) + (if j \<in> bits_of (rm_writable rm) then 0 else 1),
         access_watchers = (if j \<in> G then 1 else 0)\<rparr>" if "j < REGION_PAGES" for j
      using w that by (simp add: watched_def)
    have sub: "j < REGION_PAGES" if "j \<in> bits_of ?m" for j
      using that m region_bits_subset by blast
    have track: "track \<longleftrightarrow> j \<in> bits_of (rm_writable rm)" if "j \<in> bits_of ?m" for j
      using that dir m(1) by (auto split: if_splits)
    have "delta_ok track False (page_of pm (idx * REGION_PAGES + j))" if "j \<in> bits_of ?m" for j
      using track [OF that] page [OF sub [OF that]] room [of "idx * REGION_PAGES + j"]
      by (auto simp: delta_ok_def)
    then obtain pm' where pm': "UpdatePageWatchersForRegion track False pm (idx * REGION_SIZE) ?m = Inr pm'"
      "pm_ok pm'" "same_elsewhere idx pm pm'"
      "\<forall>j<REGION_PAGES. page_of pm' (idx * REGION_PAGES + j) =
         (if j \<in> bits_of ?m then apply_delta track False (page_of pm (idx * REGION_PAGES + j))
          else page_of pm (idx * REGION_PAGES + j))"
      using region_watch [OF assms(5,2) _ ne, of s e track False] m span assms(9,10) by blast
    have "watched base idx (bits_of (rm_cpu_dirty rm)) G pm'"
      unfolding watched_def
    proof (intro allI impI)
      fix j assume j: "j < REGION_PAGES"
      show "page_of pm' (idx * REGION_PAGES + j) =
          \<lparr>write_watchers = base (idx * REGION_PAGES + j) + (if j \<in> bits_of (rm_cpu_dirty rm) then 0 else 1),
           access_watchers = (if j \<in> G then 1 else 0)\<rparr>"
        using pm'(4) j page [OF j] track [of j] m(1) by (auto simp: apply_delta_def)
    qed
    with False pm' assms(1) show ?thesis by (simp add: UpdateCpuProtection_def Let_def)
  qed
qed

lemma UpdateGpuProtection_ok:
  assumes "rm_cpu_addr rm = idx * REGION_SIZE" "idx * REGION_SIZE < ADDRESS_SIZE"
    and valid: "rb_valid (rm_gpu_dirty rm)" "rb_valid (rm_readable rm)"
    and old: "bits_of (rm_readable rm) = {..<REGION_PAGES} - G" "G \<subseteq> {..<REGION_PAGES}"
    and "pm_ok pm" and w: "watched base idx C G pm"
    and dir: "if track then G \<subseteq> bits_of (rm_gpu_dirty rm) else bits_of (rm_gpu_dirty rm) \<subseteq> G"
    and span: "(bits_of (rm_gpu_dirty rm) - G) \<union> (G - bits_of (rm_gpu_dirty rm)) \<subseteq> {s..<e}"
    and "\<And>j. s \<le> j \<Longrightarrow> j < e \<Longrightarrow> pm_mapped pm (idx * REGION_PAGES + j)"
    and "0 < idx * REGION_PAGES + s"
  shows "\<exists>pm'. UpdateGpuProtection track rm pm = Inr (rm\<lparr>rm_readable := not_bits (rm_gpu_dirty rm)\<rparr>, pm') \<and>
           pm_ok pm' \<and> same_elsewhere idx pm pm' \<and> watched base idx C (bits_of (rm_gpu_dirty rm)) pm'"
proof -
  let ?D = "bits_of (rm_gpu_dirty rm)"
  let ?m = "xor_bits (not_bits (rm_gpu_dirty rm)) (rm_readable rm)"
  have nv: "rb_valid (not_bits (rm_gpu_dirty rm))" using bit_words.valid_ops [OF valid] by simp
  have D: "?D \<subseteq> {..<REGION_PAGES}" using valid(1) by (rule region_bits_subset)
  have mv: "rb_valid ?m" using bit_words.valid_ops [OF nv valid(2)] by simp
  have m: "bits_of ?m = (?D - G) \<union> (G - ?D)"
    using bit_words.members_xor [OF nv valid(2)] bit_words.members_not [OF valid(1)] old D
    by (auto simp: REGION_PAGES_def)
  show ?thesis
  proof (cases "None_set ?m")
    case True
    then have "?D = G" using m bit_words.none_iff [OF mv] by auto
    with True assms(7) w show ?thesis by (simp add: UpdateGpuProtection_def Let_def)
  next
    case False
    then have ne: "bits_of ?m \<noteq> {}" using mv bit_words.none_iff by blast
    have page: "page_of pm (idx * REGION_PAGES + j) =
        \<lparr>write_watchers = base (idx * REGION_PAGES + j) + (if j \<in> C then 0 else 1),
         access_watchers = (if j \<in> G then 1 else 0)\<rparr>" if "j < REGION_PAGES" for j
      using w that by (simp add: watched_def)
    have track: "track \<longleftrightarrow> j \<notin> G" if "j \<in> bits_of ?m" for j
      using that dir m by (auto split: if_splits)
    have "delta_ok track True (page_of pm (idx * REGION_PAGES + j))" if "j \<in> bits_of ?m" for j
    proof -
      have "j < REGION_PAGES" using that region_bits_subset [OF mv] by blast
      from page [OF this] track [OF that] show ?thesis by (simp add: delta_ok_def)
    qed
    then obtain pm' where pm': "UpdatePageWatchersForRegion track True pm (idx * REGION_SIZE) ?m = Inr pm'"
      "pm_ok pm'" "same_elsewhere idx pm pm'"
      "\<forall>j<REGION_PAGES. page_of pm' (idx * REGION_PAGES + j) =
         (if j \<in> bits_of ?m then apply_delta track True (page_of pm (idx * REGION_PAGES + j))
          else page_of pm (idx * REGION_PAGES + j))"
      using region_watch [OF assms(7,2) mv ne, of s e track True] m span assms(11,12) by blast
    have "watched base idx C ?D pm'"
      unfolding watched_def
    proof (intro allI impI)
      fix j assume j: "j < REGION_PAGES"
      show "page_of pm' (idx * REGION_PAGES + j) =
          \<lparr>write_watchers = base (idx * REGION_PAGES + j) + (if j \<in> C then 0 else 1),
           access_watchers = (if j \<in> ?D then 1 else 0)\<rparr>"
        using pm'(4) j page [OF j] track [of j] m by (auto simp: apply_delta_def)
    qed
    with False pm' assms(1) show ?thesis by (simp add: UpdateGpuProtection_def Let_def)
  qed
qed

section \<open>The operations keep the invariant\<close>

text \<open>What a caller has to provide: a byte range inside the region, off page zero, on mapped pages.\<close>

definition in_region :: "nat \<Rightarrow> page_manager \<Rightarrow> nat \<Rightarrow> nat \<Rightarrow> bool" where
  "in_region idx pm vaddr bytes \<longleftrightarrow>
     0 < bytes \<and> idx * REGION_SIZE \<le> vaddr \<and> vaddr + bytes \<le> (idx + 1) * REGION_SIZE \<and>
     PAGE_SIZE \<le> vaddr \<and>
     (\<forall>pg. vaddr div PAGE_SIZE \<le> pg \<and> pg \<le> (vaddr + bytes - 1) div PAGE_SIZE \<longrightarrow> pm_mapped pm pg)"

definition page_first :: "nat \<Rightarrow> nat \<Rightarrow> nat" where
  "page_first idx vaddr = (vaddr - idx * REGION_SIZE) div PAGE_SIZE"

definition page_last :: "nat \<Rightarrow> nat \<Rightarrow> nat \<Rightarrow> nat" where
  "page_last idx vaddr bytes = (vaddr - idx * REGION_SIZE + bytes + PAGE_SIZE - 1) div PAGE_SIZE"

lemma GetPageRange_ok:
  assumes "rm_cpu_addr rm = idx * REGION_SIZE" and "in_region idx pm vaddr bytes"
  shows "GetPageRange rm vaddr bytes = Inr (page_first idx vaddr, page_last idx vaddr bytes)"
  using assms by (auto simp: GetPageRange_def in_region_def page_first_def page_last_def Let_def REGION_SIZE_def)

lemma page_span:
  assumes "in_region idx pm vaddr bytes"
  shows "page_first idx vaddr < page_last idx vaddr bytes" "page_last idx vaddr bytes \<le> REGION_PAGES"
    and "0 < idx * REGION_PAGES + page_first idx vaddr"
    and "\<And>j. page_first idx vaddr \<le> j \<Longrightarrow> j < page_last idx vaddr bytes \<Longrightarrow>
           pm_mapped pm (idx * REGION_PAGES + j)"
proof -
  define v where "v = vaddr - idx * REGION_SIZE"
  have v: "vaddr = idx * REGION_SIZE + v" using assms by (simp add: v_def in_region_def)
  have b: "0 < bytes" "v + bytes \<le> REGION_SIZE" using assms v by (auto simp: in_region_def)
  have idx: "idx * REGION_SIZE = (idx * REGION_PAGES) * PAGE_SIZE" by (simp add: tracker_sizes)
  have first: "vaddr div PAGE_SIZE = idx * REGION_PAGES + page_first idx vaddr"
    unfolding page_first_def v_def [symmetric] v idx by simp
  have last1: "(vaddr + bytes - 1) div PAGE_SIZE = idx * REGION_PAGES + (v + bytes - 1) div PAGE_SIZE"
  proof -
    have "vaddr + bytes - 1 = (idx * REGION_PAGES) * PAGE_SIZE + (v + bytes - 1)"
      using b(1) unfolding v idx by simp
    then show ?thesis by simp
  qed
  have up: "page_last idx vaddr bytes = (v + bytes - 1) div PAGE_SIZE + 1"
    unfolding page_last_def v_def [symmetric] using b(1) by (simp add: PAGE_SIZE_def)
  have fv: "page_first idx vaddr = v div PAGE_SIZE" by (simp add: page_first_def v_def)
  show "page_first idx vaddr < page_last idx vaddr bytes"
  proof -
    have "v \<le> v + bytes - 1" using b(1) by simp
    then show ?thesis unfolding up fv by (simp only: Suc_eq_plus1 [symmetric] less_Suc_eq_le div_le_mono)
  qed
  show "page_last idx vaddr bytes \<le> REGION_PAGES" unfolding up using b by (simp add: tracker_sizes)
  have "0 < vaddr div PAGE_SIZE" using assms by (simp add: in_region_def div_greater_zero_iff)
  with first show "0 < idx * REGION_PAGES + page_first idx vaddr" by simp
  show "pm_mapped pm (idx * REGION_PAGES + j)"
    if "page_first idx vaddr \<le> j" "j < page_last idx vaddr bytes" for j
    using assms that first last1 up unfolding in_region_def by simp
qed

definition page_range :: "nat \<Rightarrow> nat \<Rightarrow> nat \<Rightarrow> nat set" where
  "page_range idx vaddr bytes = {page_first idx vaddr..<page_last idx vaddr bytes}"

lemma Any_SubRange:
  assumes "rb_valid m" "in_region idx pm vaddr bytes"
  shows "Any_set (SubRange m (page_first idx vaddr) (page_last idx vaddr bytes)) \<longleftrightarrow>
         bits_of m \<inter> page_range idx vaddr bytes \<noteq> {}"
  using page_span(2) [OF assms(2)] region_bits_size [OF assms(1)]
  by (simp add: Any_set_iff bits_of_SubRange page_range_def)

lemma IsModified_iff:
  assumes "region_ok idx rm" "in_region idx pm vaddr bytes"
  shows "IsModified source rm (vaddr - idx * REGION_SIZE) bytes =
         Inr (bits_of (GetBits source rm) \<inter> page_range idx vaddr bytes \<noteq> {})"
proof -
  have a: "rm_cpu_addr rm = idx * REGION_SIZE" "rb_valid (GetBits source rm)"
    using assms(1) by (cases source; simp add: region_ok_def GetBits_def)+
  have "rm_cpu_addr rm + (vaddr - idx * REGION_SIZE) = vaddr"
    using a(1) assms(2) by (simp add: in_region_def)
  with GetPageRange_ok [OF a(1) assms(2)] Any_SubRange [OF a(2) assms(2)]
  show ?thesis by (simp add: IsModified_def)
qed

text \<open>The abstract effect: the dirty set of one source changes by the pages of the range.\<close>

definition range_update :: "bool \<Rightarrow> nat set \<Rightarrow> nat set \<Rightarrow> nat set" where
  "range_update enable R S = (if enable then S \<union> R else S - R)"

lemma bits_of_range_update:
  assumes "rb_valid m" "in_region idx pm vaddr bytes"
  defines "s \<equiv> page_first idx vaddr" and "e \<equiv> page_last idx vaddr bytes"
  shows "bits_of (if enable then SetRange m s e else UnsetRange m s e) =
           range_update enable (page_range idx vaddr bytes) (bits_of m)"
    and "rb_valid (if enable then SetRange m s e else UnsetRange m s e)"
  using page_span(2) [OF assms(2)] region_bits_size [OF assms(1)] assms(1)
  by (auto simp: s_def e_def bits_of_SetRange bits_of_UnsetRange page_range_def range_update_def
      words_valid_def)

lemma range_update_span: "range_update enable R S - S \<subseteq> R" "S - range_update enable R S \<subseteq> R"
  by (auto simp: range_update_def)

lemma ChangeCpu_ok:
  assumes inv: "region_inv base idx rm pm" and r: "in_region idx pm vaddr bytes"
    and room: "\<And>pg. base pg < 0x7f" and "rb_valid bits"
    and bits: "bits_of bits = range_update enable (page_range idx vaddr bytes) (bits_of (rm_cpu_dirty rm))"
    and free: "enable \<Longrightarrow> bits_of (rm_gpu_dirty rm) \<inter> page_range idx vaddr bytes = {}"
  shows "\<exists>rm' pm'. UpdateCpuProtection (\<not> enable) (PutBits Cpu bits rm) pm = Inr (rm', pm') \<and>
           region_inv base idx rm' pm' \<and> same_elsewhere idx pm pm' \<and>
           bits_of (rm_cpu_dirty rm') = bits_of bits \<and> rm_gpu_dirty rm' = rm_gpu_dirty rm"
proof -
  let ?rm = "rm\<lparr>rm_cpu_dirty := bits\<rparr>"
  let ?R = "page_range idx vaddr bytes"
  have ok: "region_ok idx rm" "pm_ok pm"
    and w: "watched base idx (bits_of (rm_writable rm)) (bits_of (rm_gpu_dirty rm)) pm"
    using inv by (auto simp: region_inv_def region_ok_def)
  have dir: "if \<not> enable then bits_of (rm_cpu_dirty ?rm) \<subseteq> bits_of (rm_writable ?rm)
      else bits_of (rm_writable ?rm) \<subseteq> bits_of (rm_cpu_dirty ?rm)"
    using ok(1) by (auto simp: bits region_ok_def range_update_def)
  have span: "(bits_of (rm_cpu_dirty ?rm) - bits_of (rm_writable ?rm)) \<union>
      (bits_of (rm_writable ?rm) - bits_of (rm_cpu_dirty ?rm)) \<subseteq> ?R"
    using ok(1) range_update_span by (simp add: bits region_ok_def)
  have fields: "rm_cpu_addr ?rm = idx * REGION_SIZE" "idx * REGION_SIZE < ADDRESS_SIZE"
    "rb_valid (rm_cpu_dirty ?rm)" "rb_valid (rm_writable ?rm)"
    "watched base idx (bits_of (rm_writable ?rm)) (bits_of (rm_gpu_dirty rm)) pm"
    using ok(1) w assms(4) by (simp_all add: region_ok_def)
  obtain pm' where pm': "UpdateCpuProtection (\<not> enable) ?rm pm = Inr (?rm\<lparr>rm_writable := bits\<rparr>, pm')"
    "pm_ok pm'" "same_elsewhere idx pm pm'"
    "watched base idx (bits_of bits) (bits_of (rm_gpu_dirty rm)) pm'"
    using UpdateCpuProtection_ok [OF fields(1-4) ok(2) fields(5) dir span [unfolded page_range_def]
        page_span(4,3) [OF r] room] by auto
  have "region_ok idx (?rm\<lparr>rm_writable := bits\<rparr>)"
    using ok(1) assms(4) free by (auto simp: region_ok_def bits range_update_def split: if_splits)
  with pm' show ?thesis by (simp add: region_inv_def PutBits_def)
qed

lemma ChangeGpu_ok:
  assumes inv: "region_inv base idx rm pm" and r: "in_region idx pm vaddr bytes"
    and "rb_valid bits"
    and bits: "bits_of bits = range_update enable (page_range idx vaddr bytes) (bits_of (rm_gpu_dirty rm))"
    and free: "enable \<Longrightarrow> bits_of (rm_cpu_dirty rm) \<inter> page_range idx vaddr bytes = {}"
  shows "\<exists>rm' pm'. UpdateGpuProtection enable (PutBits Gpu bits rm) pm = Inr (rm', pm') \<and>
           region_inv base idx rm' pm' \<and> same_elsewhere idx pm pm' \<and>
           bits_of (rm_gpu_dirty rm') = bits_of bits \<and> rm_cpu_dirty rm' = rm_cpu_dirty rm"
proof -
  let ?rm = "rm\<lparr>rm_gpu_dirty := bits\<rparr>"
  let ?R = "page_range idx vaddr bytes" and ?G = "bits_of (rm_gpu_dirty rm)"
  have ok: "region_ok idx rm" "pm_ok pm"
    and w: "watched base idx (bits_of (rm_cpu_dirty rm)) ?G pm"
    using inv by (auto simp: region_inv_def)
  have G: "?G \<subseteq> {..<REGION_PAGES}" using ok(1) region_bits_subset by (auto simp: region_ok_def)
  have dir: "if enable then ?G \<subseteq> bits_of (rm_gpu_dirty ?rm) else bits_of (rm_gpu_dirty ?rm) \<subseteq> ?G"
    by (auto simp: bits range_update_def)
  have span: "(bits_of (rm_gpu_dirty ?rm) - ?G) \<union> (?G - bits_of (rm_gpu_dirty ?rm)) \<subseteq> ?R"
    using range_update_span by (simp add: bits)
  have fields: "rm_cpu_addr ?rm = idx * REGION_SIZE" "idx * REGION_SIZE < ADDRESS_SIZE"
    "rb_valid (rm_gpu_dirty ?rm)" "rb_valid (rm_readable ?rm)"
    "bits_of (rm_readable ?rm) = {..<REGION_PAGES} - ?G"
    using ok(1) assms(3) by (simp_all add: region_ok_def)
  obtain pm' where pm': "UpdateGpuProtection enable ?rm pm = Inr (?rm\<lparr>rm_readable := not_bits bits\<rparr>, pm')"
    "pm_ok pm'" "same_elsewhere idx pm pm'"
    "watched base idx (bits_of (rm_cpu_dirty rm)) (bits_of bits) pm'"
    using UpdateGpuProtection_ok [OF fields G ok(2) w dir span [unfolded page_range_def]
        page_span(4,3) [OF r]] by auto
  have "bits_of (not_bits bits) = {..<REGION_PAGES} - bits_of bits" "rb_valid (not_bits bits)"
    using bits_of_not [of bits] region_bits_size [OF assms(3)] assms(3) by (simp_all add: words_valid_def)
  then have "region_ok idx (?rm\<lparr>rm_readable := not_bits bits\<rparr>)"
    using ok(1) assms(3) free by (auto simp: region_ok_def bits range_update_def split: if_splits)
  with pm' show ?thesis by (simp add: region_inv_def PutBits_def)
qed

definition other_source :: "dirty_source \<Rightarrow> dirty_source" where
  "other_source source = (case source of Cpu \<Rightarrow> Gpu | Gpu \<Rightarrow> Cpu)"

definition dirty :: "dirty_source \<Rightarrow> region_manager \<Rightarrow> nat set" where
  "dirty source rm = bits_of (GetBits source rm)"

lemma dirty_simps [simp]: "dirty Cpu rm = bits_of (rm_cpu_dirty rm)" "dirty Gpu rm = bits_of (rm_gpu_dirty rm)"
  by (simp_all add: dirty_def GetBits_def)

lemma region_inv_bits: "region_inv base idx rm pm \<Longrightarrow> rb_valid (GetBits source rm)"
  by (cases source) (simp_all add: region_inv_def region_ok_def GetBits_def)

lemma ChangeState_ok:
  assumes inv: "region_inv base idx rm pm" and r: "in_region idx pm vaddr bytes"
    and room: "\<And>pg. base pg < 0x7f"
    and free: "enable \<Longrightarrow> dirty (other_source source) rm \<inter> page_range idx vaddr bytes = {}"
  shows "\<exists>rm' pm'. ChangeState source enable rm pm vaddr bytes = Inr (rm', pm') \<and>
           region_inv base idx rm' pm' \<and> same_elsewhere idx pm pm' \<and>
           dirty source rm' = range_update enable (page_range idx vaddr bytes) (dirty source rm) \<and>
           dirty (other_source source) rm' = dirty (other_source source) rm"
proof -
  let ?s = "page_first idx vaddr" and ?e = "page_last idx vaddr bytes"
  define bits where
    "bits = (if enable then SetRange (GetBits source rm) ?s ?e else UnsetRange (GetBits source rm) ?s ?e)"
  have addr: "rm_cpu_addr rm = idx * REGION_SIZE" using inv by (simp add: region_inv_def region_ok_def)
  note valid = region_inv_bits [OF inv]
  have b: "rb_valid bits" "bits_of bits = range_update enable (page_range idx vaddr bytes) (dirty source rm)"
    unfolding bits_def dirty_def by (rule bits_of_range_update [OF valid r])+
  have no_exit: "\<not> (source = Cpu \<and> enable \<and> Any_set (SubRange (rm_gpu_dirty rm) ?s ?e))"
    "\<not> (source = Gpu \<and> enable \<and> Any_set (SubRange (rm_cpu_dirty rm) ?s ?e))"
    using free Any_SubRange [OF valid r, of Gpu] Any_SubRange [OF valid r, of Cpu]
    by (auto simp: GetBits_def other_source_def dirty_def)
  then have eq: "ChangeState source enable rm pm vaddr bytes =
      (case source of Cpu \<Rightarrow> UpdateCpuProtection (\<not> enable) (PutBits source bits rm) pm
       | Gpu \<Rightarrow> UpdateGpuProtection enable (PutBits source bits rm) pm)"
    by (simp only: ChangeState_def GetPageRange_ok [OF addr r] bind_outcome.simps prod.case Let_def
        exit_if_def if_False bits_def)
  show ?thesis
  proof (cases source)
    case Cpu
    with ChangeCpu_ok [OF inv r room b(1), of enable] b(2) free eq
    show ?thesis by (simp add: other_source_def) metis
  next
    case Gpu
    with ChangeGpu_ok [OF inv r b(1), of enable] b(2) free eq
    show ?thesis by (simp add: other_source_def) metis
  qed
qed

lemma ChangeState_conflict:
  assumes inv: "region_inv base idx rm pm" and r: "in_region idx pm vaddr bytes"
    and "dirty (other_source source) rm \<inter> page_range idx vaddr bytes \<noteq> {}"
  shows "ChangeState source True rm pm vaddr bytes = Inl EXIT"
proof -
  have addr: "rm_cpu_addr rm = idx * REGION_SIZE" using inv by (simp add: region_inv_def region_ok_def)
  note valid = region_inv_bits [OF inv]
  show ?thesis
    using assms(3) Any_SubRange [OF valid r, of Gpu] Any_SubRange [OF valid r, of Cpu]
    by (cases source) (auto simp: ChangeState_def GetPageRange_ok [OF addr r] GetBits_def
        other_source_def dirty_def)
qed

text \<open>The bytes of a list of calls.\<close>

definition bytes_of :: "(nat \<times> nat) list \<Rightarrow> nat set" where
  "bytes_of calls = (\<Union>(a, n)\<in>set calls. {a..<a + n})"

definition page_bytes :: "nat \<Rightarrow> nat set \<Rightarrow> nat set" where
  "page_bytes idx P = {x. idx * REGION_SIZE \<le> x \<and> (x - idx * REGION_SIZE) div PAGE_SIZE \<in> P}"

lemma bytes_of_ForEachRange:
  assumes "rm_cpu_addr rm = idx * REGION_SIZE"
  shows "bytes_of (ForEachRange rm bits) = page_bytes idx (bits_of bits)"
proof (rule set_eqI)
  fix x
  have run: "x \<in> {idx * REGION_SIZE + a * PAGE_SIZE..<idx * REGION_SIZE + a * PAGE_SIZE + (b - a) * PAGE_SIZE} \<longleftrightarrow>
      idx * REGION_SIZE \<le> x \<and> (x - idx * REGION_SIZE) div PAGE_SIZE \<in> {a..<b}" if "a < b" for a b
  proof -
    have len: "a * PAGE_SIZE + (b - a) * PAGE_SIZE = b * PAGE_SIZE"
      using that by (simp flip: add_mult_distrib)
    have y: "y div PAGE_SIZE \<in> {a..<b} \<longleftrightarrow> a * PAGE_SIZE \<le> y \<and> y < b * PAGE_SIZE" for y
      by (simp add: less_eq_div_iff_mult_less_eq div_less_iff_less_mult)
    have "x \<in> {r + a * PAGE_SIZE..<r + (a * PAGE_SIZE + (b - a) * PAGE_SIZE)} \<longleftrightarrow>
        r \<le> x \<and> (x - r) div PAGE_SIZE \<in> {a..<b}" for r
      unfolding y len by auto
    then show ?thesis by (simp only: add.assoc)
  qed
  have pos: "a < b" if "(a, b) \<in> set (ranges bits)" for a b
  proof -
    have "separated s rs \<Longrightarrow> (a, b) \<in> set rs \<Longrightarrow> a < b" for s rs
      by (induction s rs rule: separated.induct) auto
    with ranges_from_spec [of bits 0] that show ?thesis by (auto simp: ranges_def)
  qed
  have "x \<in> bytes_of (ForEachRange rm bits) \<longleftrightarrow>
      (\<exists>(a, b)\<in>set (ranges bits). x \<in> {idx * REGION_SIZE + a * PAGE_SIZE..<
         idx * REGION_SIZE + a * PAGE_SIZE + (b - a) * PAGE_SIZE})"
    by (simp add: bytes_of_def ForEachRange_def assms split_beta)
  also have "\<dots> \<longleftrightarrow> idx * REGION_SIZE \<le> x \<and> (x - idx * REGION_SIZE) div PAGE_SIZE \<in> covered (ranges bits)"
    using run pos unfolding covered_def by blast
  finally show "x \<in> bytes_of (ForEachRange rm bits) \<longleftrightarrow> x \<in> page_bytes idx (bits_of bits)"
    by (simp add: page_bytes_def covered_ranges)
qed

lemma ForEachModifiedRange_ok:
  assumes inv: "region_inv base idx rm pm" and r: "in_region idx pm vaddr bytes"
    and room: "\<And>pg. base pg < 0x7f"
  shows "\<exists>calls rm' pm'. ForEachModifiedRange source clear rm pm vaddr bytes = Inr (calls, rm', pm') \<and>
           bytes_of calls = page_bytes idx (dirty source rm \<inter> page_range idx vaddr bytes) \<and>
           region_inv base idx rm' pm' \<and> same_elsewhere idx pm pm' \<and>
           dirty source rm' = (if clear then dirty source rm - page_range idx vaddr bytes else dirty source rm) \<and>
           dirty (other_source source) rm' = dirty (other_source source) rm"
proof -
  let ?s = "page_first idx vaddr" and ?e = "page_last idx vaddr bytes"
  define bits where "bits = UnsetRange (GetBits source rm) ?s ?e"
  define m where "m = SubRange (GetBits source rm) ?s ?e"
  have addr: "rm_cpu_addr rm = idx * REGION_SIZE" using inv by (simp add: region_inv_def region_ok_def)
  note valid = region_inv_bits [OF inv]
  have b: "rb_valid bits" "bits_of bits = range_update False (page_range idx vaddr bytes) (dirty source rm)"
    unfolding bits_def dirty_def using bits_of_range_update [OF valid r, of False] by simp_all
  have mbits: "bits_of m = dirty source rm \<inter> page_range idx vaddr bytes"
    using page_span(2) [OF r] region_bits_size [OF valid]
    by (simp add: m_def bits_of_SubRange page_range_def dirty_def)
  have eq: "ForEachModifiedRange source clear rm pm vaddr bytes =
      bind_outcome
        (if clear
         then (case source of Cpu \<Rightarrow> UpdateCpuProtection True (PutBits source bits rm) pm
               | Gpu \<Rightarrow> UpdateGpuProtection False (PutBits source bits rm) pm)
         else Inr (rm, pm))
        (\<lambda>(rm, pm). Inr (ForEachRange rm m, rm, pm))"
    unfolding bits_def m_def
    by (cases clear) (simp_all add: ForEachModifiedRange_def GetPageRange_ok [OF addr r] Let_def)
  show ?thesis
  proof (cases clear)
    case False
    with eq inv bytes_of_ForEachRange [OF addr, of m] mbits show ?thesis by simp
  next
    case True
    have "\<exists>rm' pm'. (case source of Cpu \<Rightarrow> UpdateCpuProtection True (PutBits source bits rm) pm
               | Gpu \<Rightarrow> UpdateGpuProtection False (PutBits source bits rm) pm) = Inr (rm', pm') \<and>
        region_inv base idx rm' pm' \<and> same_elsewhere idx pm pm' \<and>
        dirty source rm' = dirty source rm - page_range idx vaddr bytes \<and>
        dirty (other_source source) rm' = dirty (other_source source) rm"
    proof (cases source)
      case Cpu
      with ChangeCpu_ok [OF inv r room b(1), of False] b(2) show ?thesis
        by (simp add: other_source_def range_update_def) metis
    next
      case Gpu
      with ChangeGpu_ok [OF inv r b(1), of False] b(2) show ?thesis
        by (simp add: other_source_def range_update_def) metis
    qed
    then obtain rm' pm' where "(case source of Cpu \<Rightarrow> UpdateCpuProtection True (PutBits source bits rm) pm
               | Gpu \<Rightarrow> UpdateGpuProtection False (PutBits source bits rm) pm) = Inr (rm', pm')"
      and after: "region_inv base idx rm' pm'" "same_elsewhere idx pm pm'"
        "dirty source rm' = dirty source rm - page_range idx vaddr bytes"
        "dirty (other_source source) rm' = dirty (other_source source) rm" by blast
    with eq True have "ForEachModifiedRange source clear rm pm vaddr bytes = Inr (ForEachRange rm' m, rm', pm')"
      by simp
    moreover have "rm_cpu_addr rm' = idx * REGION_SIZE"
      using after(1) by (simp add: region_inv_def region_ok_def)
    then have "bytes_of (ForEachRange rm' m) = page_bytes idx (dirty source rm \<inter> page_range idx vaddr bytes)"
      using bytes_of_ForEachRange [of rm' idx m] mbits by simp
    ultimately show ?thesis using after True by simp
  qed
qed

end
