(* ===== verification/MemoryTracker.thy ===== *)
theory MemoryTracker
  imports RegionManager
begin

text \<open>
  The memory tracker of src/src/graphics/host_gpu/memoryTracker.h and memoryTracker.cpp: the region
  managers of the guest address space, created on demand, and the operations that walk a byte range
  region by region. An operation that takes callbacks has the calls it makes of them in its result;
  \<open>mt_in_upload\<close> is that the current thread is inside an upload of this tracker (\<open>s_upload_owner\<close>).
\<close>

section \<open>State and iteration\<close>

record tracker =
  mt_regions :: "nat \<Rightarrow> region_manager option"
  mt_pages :: page_manager
  mt_in_upload :: bool

definition new_tracker :: "page_manager \<Rightarrow> tracker" where
  "new_tracker pm = \<lparr>mt_regions = (\<lambda>_. None), mt_pages = pm, mt_in_upload = False\<rparr>"

definition CheckNotInUploadCallback :: "tracker \<Rightarrow> unit outcome" where
  "CheckNotInUploadCallback t = exit_if (mt_in_upload t) (Inr ())"

definition ValidateRange :: "nat \<Rightarrow> nat \<Rightarrow> unit outcome" where
  "ValidateRange vaddr bytes =
     exit_if (\<not> range_Valid \<lparr>gr_address = vaddr, gr_size = bytes\<rparr>) (Inr ())"

definition tracker_GetOrCreateRegion :: "tracker \<Rightarrow> nat \<Rightarrow> tracker outcome" where
  "tracker_GetOrCreateRegion t index =
     (case mt_regions t index of
        Some rm \<Rightarrow> Inr t
      | None \<Rightarrow> bind_outcome (new_region_manager (index * REGION_SIZE))
                  (\<lambda>rm. Inr (t\<lparr>mt_regions := (mt_regions t)(index \<mapsto> rm)\<rparr>)))"

text \<open>The pieces of a range, one per region: the region's index, the offset in it, the bytes.\<close>

function range_chunks :: "nat \<Rightarrow> nat \<Rightarrow> nat \<Rightarrow> (nat \<times> nat \<times> nat) list" where
  "range_chunks index offset remaining =
     (if remaining \<noteq> 0
      then let bytes = min (REGION_SIZE - offset) remaining
           in (index, offset, bytes) # range_chunks (index + 1) 0 (remaining - bytes)
      else [])"
  by auto
termination
  by (relation "measure (\<lambda>(index, offset, remaining). 2 * remaining + (if offset \<ge> REGION_SIZE then 1 else 0))")
     auto

declare range_chunks.simps [simp del]

text \<open>
  \<open>Iterate<create, Func>\<close>: with a function that returns nothing, which threads what its callbacks
  record, and with a predicate, which stops at the first region it holds for.
\<close>

fun iterate ::
    "bool \<Rightarrow> ('a \<Rightarrow> tracker \<Rightarrow> nat \<Rightarrow> region_manager \<Rightarrow> nat \<Rightarrow> nat \<Rightarrow> ('a \<times> tracker) outcome) \<Rightarrow>
       (nat \<times> nat \<times> nat) list \<Rightarrow> 'a \<Rightarrow> tracker \<Rightarrow> ('a \<times> tracker) outcome" where
  "iterate create func [] acc t = Inr (acc, t)"
| "iterate create func ((index, offset, bytes) # cs) acc t =
     bind_outcome (if create then tracker_GetOrCreateRegion t index else Inr t) (\<lambda>t.
       case mt_regions t index of
         None \<Rightarrow> iterate create func cs acc t
       | Some rm \<Rightarrow>
           bind_outcome (func acc t index rm offset bytes)
             (\<lambda>(acc, t). iterate create func cs acc t))"

fun iterate_until ::
    "bool \<Rightarrow> (region_manager \<Rightarrow> nat \<Rightarrow> nat \<Rightarrow> bool outcome) \<Rightarrow>
       (nat \<times> nat \<times> nat) list \<Rightarrow> tracker \<Rightarrow> (bool \<times> tracker) outcome" where
  "iterate_until create pred [] t = Inr (False, t)"
| "iterate_until create pred ((index, offset, bytes) # cs) t =
     bind_outcome (if create then tracker_GetOrCreateRegion t index else Inr t) (\<lambda>t.
       case mt_regions t index of
         None \<Rightarrow> iterate_until create pred cs t
       | Some rm \<Rightarrow>
           bind_outcome (pred rm offset bytes)
             (\<lambda>b. if b then Inr (True, t) else iterate_until create pred cs t))"

definition Iterate ::
    "bool \<Rightarrow> ('a \<Rightarrow> tracker \<Rightarrow> nat \<Rightarrow> region_manager \<Rightarrow> nat \<Rightarrow> nat \<Rightarrow> ('a \<times> tracker) outcome) \<Rightarrow>
       nat \<Rightarrow> nat \<Rightarrow> 'a \<Rightarrow> tracker \<Rightarrow> ('a \<times> tracker) outcome" where
  "Iterate create func vaddr bytes acc t =
     bind_outcome (ValidateRange vaddr bytes)
       (\<lambda>_. iterate create func (range_chunks (vaddr div REGION_SIZE) (vaddr mod REGION_SIZE) bytes) acc t)"

definition Iterate_until ::
    "bool \<Rightarrow> (region_manager \<Rightarrow> nat \<Rightarrow> nat \<Rightarrow> bool outcome) \<Rightarrow> nat \<Rightarrow> nat \<Rightarrow> tracker \<Rightarrow>
       (bool \<times> tracker) outcome" where
  "Iterate_until create pred vaddr bytes t =
     bind_outcome (ValidateRange vaddr bytes)
       (\<lambda>_. iterate_until create pred (range_chunks (vaddr div REGION_SIZE) (vaddr mod REGION_SIZE) bytes) t)"

section \<open>Operations\<close>

definition put_region :: "tracker \<Rightarrow> nat \<Rightarrow> region_manager \<Rightarrow> page_manager \<Rightarrow> tracker" where
  "put_region t index rm pm = t\<lparr>mt_regions := (mt_regions t)(index \<mapsto> rm), mt_pages := pm\<rparr>"

definition change_region ::
    "dirty_source \<Rightarrow> bool \<Rightarrow> unit \<Rightarrow> tracker \<Rightarrow> nat \<Rightarrow> region_manager \<Rightarrow> nat \<Rightarrow> nat \<Rightarrow> (unit \<times> tracker) outcome" where
  "change_region source enable acc t index rm offset bytes =
     bind_outcome (ChangeState source enable rm (mt_pages t) (rm_cpu_addr rm + offset) bytes)
       (\<lambda>(rm, pm). Inr (acc, put_region t index rm pm))"

definition visit_region ::
    "dirty_source \<Rightarrow> bool \<Rightarrow> (nat \<times> nat) list \<Rightarrow> tracker \<Rightarrow> nat \<Rightarrow> region_manager \<Rightarrow> nat \<Rightarrow> nat \<Rightarrow>
       ((nat \<times> nat) list \<times> tracker) outcome" where
  "visit_region source clear acc t index rm offset bytes =
     bind_outcome (ForEachModifiedRange source clear rm (mt_pages t) (rm_cpu_addr rm + offset) bytes)
       (\<lambda>(calls, rm, pm). Inr (acc @ calls, put_region t index rm pm))"

definition IsRegionCpuModified :: "tracker \<Rightarrow> nat \<Rightarrow> nat \<Rightarrow> (bool \<times> tracker) outcome" where
  "IsRegionCpuModified t vaddr bytes =
     bind_outcome (CheckNotInUploadCallback t) (\<lambda>_. Iterate_until True (IsModified Cpu) vaddr bytes t)"

definition IsRegionGpuModified :: "tracker \<Rightarrow> nat \<Rightarrow> nat \<Rightarrow> (bool \<times> tracker) outcome" where
  "IsRegionGpuModified t vaddr bytes =
     bind_outcome (CheckNotInUploadCallback t) (\<lambda>_. Iterate_until False (IsModified Gpu) vaddr bytes t)"

definition MarkRegionAsCpuModified :: "tracker \<Rightarrow> nat \<Rightarrow> nat \<Rightarrow> (unit \<times> tracker) outcome" where
  "MarkRegionAsCpuModified t vaddr bytes =
     bind_outcome (CheckNotInUploadCallback t) (\<lambda>_. Iterate True (change_region Cpu True) vaddr bytes () t)"

definition MarkRegionAsGpuModified :: "tracker \<Rightarrow> nat \<Rightarrow> nat \<Rightarrow> (unit \<times> tracker) outcome" where
  "MarkRegionAsGpuModified t vaddr bytes =
     bind_outcome (CheckNotInUploadCallback t) (\<lambda>_. Iterate True (change_region Gpu True) vaddr bytes () t)"

definition UnmarkRegionAsGpuModified :: "tracker \<Rightarrow> nat \<Rightarrow> nat \<Rightarrow> (unit \<times> tracker) outcome" where
  "UnmarkRegionAsGpuModified t vaddr bytes =
     bind_outcome (CheckNotInUploadCallback t) (\<lambda>_. Iterate False (change_region Gpu False) vaddr bytes () t)"

definition UntrackMemoryImpl :: "tracker \<Rightarrow> nat \<Rightarrow> nat \<Rightarrow> (unit \<times> tracker) outcome" where
  "UntrackMemoryImpl t vaddr bytes =
     bind_outcome (Iterate_until False (IsModified Gpu) vaddr bytes t) (\<lambda>(gpu, t).
       exit_if gpu (Iterate False (change_region Cpu True) vaddr bytes () t))"

definition UntrackMemory :: "tracker \<Rightarrow> nat \<Rightarrow> nat \<Rightarrow> (unit \<times> tracker) outcome" where
  "UntrackMemory t vaddr bytes =
     bind_outcome (CheckNotInUploadCallback t) (\<lambda>_. UntrackMemoryImpl t vaddr bytes)"

text \<open>\<open>on_flush\<close> is the caller's function; the number of its calls is counted.\<close>

definition invalidate_region ::
    "(tracker \<Rightarrow> tracker outcome) \<Rightarrow> nat \<Rightarrow> tracker \<Rightarrow> nat \<Rightarrow> region_manager \<Rightarrow> nat \<Rightarrow> nat \<Rightarrow>
       (nat \<times> tracker) outcome" where
  "invalidate_region on_flush acc t index rm offset bytes =
     bind_outcome (IsModified Gpu rm offset bytes) (\<lambda>should_flush.
       if should_flush then bind_outcome (on_flush t) (\<lambda>t. Inr (acc + 1, t))
       else bind_outcome (change_region Cpu True () t index rm offset bytes) (\<lambda>(_, t). Inr (acc, t)))"

definition InvalidateRegion ::
    "(tracker \<Rightarrow> tracker outcome) \<Rightarrow> tracker \<Rightarrow> nat \<Rightarrow> nat \<Rightarrow> (nat \<times> tracker) outcome" where
  "InvalidateRegion on_flush t vaddr bytes =
     bind_outcome (CheckNotInUploadCallback t) (\<lambda>_.
       bind_outcome (ValidateRange vaddr bytes) (\<lambda>_.
         Iterate False (invalidate_region on_flush) vaddr bytes 0 t))"

text \<open>The calls of \<open>preflight\<close>, the calls of \<open>func\<close>.\<close>

definition ForEachDownloadRange ::
    "bool \<Rightarrow> tracker \<Rightarrow> nat \<Rightarrow> nat \<Rightarrow> (((nat \<times> nat) list \<times> (nat \<times> nat) list) \<times> tracker) outcome" where
  "ForEachDownloadRange clear t vaddr bytes =
     bind_outcome (CheckNotInUploadCallback t) (\<lambda>_.
       bind_outcome (Iterate False (visit_region Gpu False) vaddr bytes [] t) (\<lambda>(preflight, t).
         bind_outcome (Iterate False (visit_region Gpu False) vaddr bytes [] t) (\<lambda>(calls, t).
           if clear
           then bind_outcome (Iterate False (visit_region Gpu True) vaddr bytes [] t)
                  (\<lambda>(_, t). Inr ((preflight, calls), t))
           else Inr ((preflight, calls), t))))"

text \<open>The calls of \<open>range_func\<close>; \<open>upload_func\<close> is called once between the two walks.\<close>

definition ForEachUploadRange ::
    "bool \<Rightarrow> tracker \<Rightarrow> nat \<Rightarrow> nat \<Rightarrow> ((nat \<times> nat) list \<times> tracker) outcome" where
  "ForEachUploadRange is_written t vaddr bytes =
     bind_outcome (CheckNotInUploadCallback t) (\<lambda>_.
       bind_outcome (Iterate True (\<lambda>acc t _ _ _ _. Inr (acc, t)) vaddr bytes () t) (\<lambda>(_, t).
         bind_outcome (Iterate False (visit_region Cpu True) vaddr bytes [] (t\<lparr>mt_in_upload := True\<rparr>))
           (\<lambda>(calls, t).
             bind_outcome
               (if is_written then Iterate False (change_region Gpu True) vaddr bytes () t else Inr ((), t))
               (\<lambda>(_, t). Inr (calls, t\<lparr>mt_in_upload := False\<rparr>)))))"

section \<open>Ranges as bytes and pages\<close>

definition touched :: "nat \<Rightarrow> nat \<Rightarrow> nat set" where
  "touched vaddr bytes = (\<lambda>x. x div PAGE_SIZE) ` {vaddr..<vaddr + bytes}"

lemma touched_interval:
  assumes "0 < bytes"
  shows "touched vaddr bytes = {vaddr div PAGE_SIZE..<(vaddr + bytes - 1) div PAGE_SIZE + 1}"
proof (intro equalityI subsetI)
  fix p assume "p \<in> touched vaddr bytes"
  then obtain x where "p = x div PAGE_SIZE" "vaddr \<le> x" "x \<le> vaddr + bytes - 1"
    using assms by (auto simp: touched_def)
  then show "p \<in> {vaddr div PAGE_SIZE..<(vaddr + bytes - 1) div PAGE_SIZE + 1}"
    by (simp add: div_le_mono less_Suc_eq_le)
next
  fix p assume p: "p \<in> {vaddr div PAGE_SIZE..<(vaddr + bytes - 1) div PAGE_SIZE + 1}"
  then have "p * PAGE_SIZE \<le> vaddr + bytes - 1" by (simp add: less_Suc_eq_le less_eq_div_iff_mult_less_eq)
  then have "max vaddr (p * PAGE_SIZE) \<in> {vaddr..<vaddr + bytes}" using assms by auto
  moreover have "max vaddr (p * PAGE_SIZE) div PAGE_SIZE = p"
  proof (cases "vaddr \<le> p * PAGE_SIZE")
    case False
    then have "p \<le> vaddr div PAGE_SIZE" by (simp add: less_eq_div_iff_mult_less_eq)
    with p False show ?thesis by simp
  qed (simp add: max_def)
  ultimately show "p \<in> touched vaddr bytes" unfolding touched_def by (metis image_eqI)
qed

definition chunk_address :: "nat \<times> nat \<times> nat \<Rightarrow> nat" where
  "chunk_address c = (case c of (index, offset, bytes) \<Rightarrow> index * REGION_SIZE + offset)"

definition chunk_bytes :: "nat \<times> nat \<times> nat \<Rightarrow> nat set" where
  "chunk_bytes c = {chunk_address c..<chunk_address c + snd (snd c)}"

definition chunk_pages :: "(nat \<times> nat \<times> nat) list \<Rightarrow> nat set" where
  "chunk_pages cs = (\<Union>c\<in>set cs. touched (chunk_address c) (snd (snd c)))"

lemma chunk_pages_simps [simp]:
  "chunk_pages [] = {}"
  "chunk_pages (cs @ ds) = chunk_pages cs \<union> chunk_pages ds"
  "chunk_pages [c] = touched (chunk_address c) (snd (snd c))"
  by (auto simp: chunk_pages_def)

lemma range_chunks_spec:
  assumes "offset < REGION_SIZE"
  shows "(\<Union>c\<in>set (range_chunks index offset remaining). chunk_bytes c) =
           {index * REGION_SIZE + offset..<index * REGION_SIZE + offset + remaining}"
    and "\<And>i k b. (i, k, b) \<in> set (range_chunks index offset remaining) \<Longrightarrow>
           0 < b \<and> k + b \<le> REGION_SIZE \<and> index * REGION_SIZE + offset \<le> i * REGION_SIZE + k \<and>
           i * REGION_SIZE + k + b \<le> index * REGION_SIZE + offset + remaining"
  using assms
proof (induction index offset remaining rule: range_chunks.induct)
  case (1 index offset remaining)
  let ?b = "min (REGION_SIZE - offset) remaining"
  {
    case 1
    show ?case
    proof (cases "remaining = 0")
      case False
      have next1: "(index + 1) * REGION_SIZE + (remaining - ?b) = index * REGION_SIZE + offset + remaining"
        if "remaining \<noteq> ?b"
        using that 1 by (auto simp: min_def split: if_splits)
      have "(\<Union>c\<in>set (range_chunks (index + 1) 0 (remaining - ?b)). chunk_bytes c) =
          {(index + 1) * REGION_SIZE..<(index + 1) * REGION_SIZE + (remaining - ?b)}"
        using "1.IH"(1) [OF False refl] by simp
      moreover have "{index * REGION_SIZE + offset..<index * REGION_SIZE + offset + ?b} \<union>
          {(index + 1) * REGION_SIZE..<(index + 1) * REGION_SIZE + (remaining - ?b)} =
          {index * REGION_SIZE + offset..<index * REGION_SIZE + offset + remaining}"
        using 1 by (auto simp: min_def)
      ultimately show ?thesis using False
        by (subst range_chunks.simps) (simp add: Let_def chunk_bytes_def chunk_address_def)
    qed (simp add: range_chunks.simps)
  next
    case (2 i k b)
    then have rem: "remaining \<noteq> 0" by (auto simp: range_chunks.simps)
    have "(i, k, b) = (index, offset, ?b) \<or>
        (i, k, b) \<in> set (range_chunks (index + 1) 0 (remaining - ?b))"
      using 2(1) rem by (subst (asm) range_chunks.simps) (simp add: Let_def)
    then show ?case
    proof
      assume "(i, k, b) = (index, offset, ?b)"
      with 2(2) rem show ?thesis by auto
    next
      assume m: "(i, k, b) \<in> set (range_chunks (index + 1) 0 (remaining - ?b))"
      then have "remaining - ?b \<noteq> 0" by (auto simp: range_chunks.simps)
      with "1.IH"(2) [OF rem refl m] 2(2) show ?thesis by (auto simp: min_def split: if_splits)
    qed
  }
qed

definition chunks_of :: "nat \<Rightarrow> nat \<Rightarrow> (nat \<times> nat \<times> nat) list" where
  "chunks_of vaddr bytes = range_chunks (vaddr div REGION_SIZE) (vaddr mod REGION_SIZE) bytes"

lemma chunk_pages_of: "chunk_pages (chunks_of vaddr bytes) = touched vaddr bytes"
proof -
  have "chunk_pages cs = (\<lambda>x. x div PAGE_SIZE) ` (\<Union>c\<in>set cs. chunk_bytes c)" for cs
    by (auto simp: chunk_pages_def touched_def chunk_bytes_def)
  then show ?thesis
    using range_chunks_spec(1) [of "vaddr mod REGION_SIZE" "vaddr div REGION_SIZE" bytes]
    by (simp add: chunks_of_def touched_def)
qed

text \<open>What a caller of the tracker has to provide.\<close>

definition usable :: "(nat \<Rightarrow> bool) \<Rightarrow> nat \<Rightarrow> nat \<Rightarrow> bool" where
  "usable mapped vaddr bytes \<longleftrightarrow>
     range_Valid \<lparr>gr_address = vaddr, gr_size = bytes\<rparr> \<and> PAGE_SIZE \<le> vaddr \<and>
     (\<forall>pg\<in>touched vaddr bytes. mapped pg)"

lemma chunk_in_region:
  assumes "usable (pm_mapped pm) vaddr bytes" "(i, k, b) \<in> set (chunks_of vaddr bytes)"
  shows "in_region i pm (i * REGION_SIZE + k) b" "i * REGION_SIZE < ADDRESS_SIZE"
proof -
  note c = range_chunks_spec(2) [OF _ assms(2) [unfolded chunks_of_def], simplified]
  have "vaddr \<le> i * REGION_SIZE + k" "i * REGION_SIZE + k + b - 1 \<le> vaddr + bytes - 1" "0 < bytes" using c by auto
  then have mapped: "pm_mapped pm pg" if "(i * REGION_SIZE + k) div PAGE_SIZE \<le> pg"
      "pg \<le> (i * REGION_SIZE + k + b - 1) div PAGE_SIZE" for pg
    using assms(1) that div_le_mono [of vaddr "i * REGION_SIZE + k" PAGE_SIZE]
      div_le_mono [of "i * REGION_SIZE + k + b - 1" "vaddr + bytes - 1" PAGE_SIZE]
    by (simp add: usable_def touched_interval)
  with c assms(1) show "in_region i pm (i * REGION_SIZE + k) b"
    by (auto simp: in_region_def usable_def)
  show "i * REGION_SIZE < ADDRESS_SIZE"
    using c assms(1) by (auto simp: usable_def range_Valid_def)
qed

section \<open>The invariant and the abstract page sets\<close>

definition page_dirty :: "dirty_source \<Rightarrow> tracker \<Rightarrow> nat \<Rightarrow> bool" where
  "page_dirty source t pg =
     (case mt_regions t (pg div REGION_PAGES) of
        None \<Rightarrow> source = Cpu
      | Some rm \<Rightarrow> pg mod REGION_PAGES \<in> dirty source rm)"

definition dirty_pages :: "dirty_source \<Rightarrow> tracker \<Rightarrow> nat set" where
  "dirty_pages source t = {pg. page_dirty source t pg}"

definition tracker_inv :: "(nat \<Rightarrow> nat) \<Rightarrow> tracker \<Rightarrow> bool" where
  "tracker_inv base t \<longleftrightarrow>
     pm_ok (mt_pages t) \<and>
     (\<forall>idx. case mt_regions t idx of
              None \<Rightarrow> watched base idx {..<REGION_PAGES} {} (mt_pages t)
            | Some rm \<Rightarrow> region_inv base idx rm (mt_pages t))"

lemma tracker_inv_region: "tracker_inv base t \<Longrightarrow> mt_regions t i = Some rm \<Longrightarrow> region_inv base i rm (mt_pages t)"
  unfolding tracker_inv_def by (metis option.simps(5))

lemma in_region_image_pages:
  "P \<subseteq> {..<REGION_PAGES} \<Longrightarrow>
   pg \<in> (\<lambda>j. i * REGION_PAGES + j) ` P \<longleftrightarrow> pg div REGION_PAGES = i \<and> pg mod REGION_PAGES \<in> P"
proof
  assume "pg div REGION_PAGES = i \<and> pg mod REGION_PAGES \<in> P"
  then show "pg \<in> (\<lambda>j. i * REGION_PAGES + j) ` P"
    using div_mult_mod_eq [of pg REGION_PAGES] by (metis image_eqI)
next
  assume P: "P \<subseteq> {..<REGION_PAGES}" and "pg \<in> (\<lambda>j. i * REGION_PAGES + j) ` P"
  then obtain j where j: "j \<in> P" "j < REGION_PAGES" "pg = i * REGION_PAGES + j" by blast
  then show "pg div REGION_PAGES = i \<and> pg mod REGION_PAGES \<in> P" by simp
qed

text \<open>The pages a range touches inside one region are the pages its region manager updates.\<close>

lemma touched_region:
  assumes r: "in_region i pm vaddr bytes"
  shows "touched vaddr bytes = (\<lambda>j. i * REGION_PAGES + j) ` page_range i vaddr bytes"
proof -
  define v where "v = vaddr - i * REGION_SIZE"
  have v: "vaddr = i * REGION_PAGES * PAGE_SIZE + v" and b: "0 < bytes"
    using r by (auto simp: v_def in_region_def tracker_sizes)
  have up: "page_last i vaddr bytes = (v + bytes - 1) div PAGE_SIZE + 1"
    unfolding page_last_def v_def [symmetric] using b by (simp add: PAGE_SIZE_def)
  have fv: "page_first i vaddr = v div PAGE_SIZE" by (simp add: page_first_def v_def)
  note pages = touched_interval [OF b, of v, unfolded touched_def]
  have shift: "{vaddr..<vaddr + bytes} = (\<lambda>x. i * REGION_PAGES * PAGE_SIZE + x) ` {v..<v + bytes}"
    unfolding v image_add_atLeastLessThan by (simp add: ac_simps)
  have "touched vaddr bytes = (\<lambda>x. i * REGION_PAGES + x div PAGE_SIZE) ` {v..<v + bytes}"
    unfolding touched_def shift image_image by (rule image_cong) simp_all
  also have "\<dots> = (\<lambda>j. i * REGION_PAGES + j) ` (\<lambda>x. x div PAGE_SIZE) ` {v..<v + bytes}"
    by (simp add: image_image)
  finally show ?thesis by (simp add: pages page_range_def up fv)
qed

lemma page_range_subset: "in_region i pm vaddr bytes \<Longrightarrow> page_range i vaddr bytes \<subseteq> {..<REGION_PAGES}"
  using page_span(2) [of i pm vaddr bytes] by (auto simp: page_range_def)

lemma touched_region_iff:
  "in_region i pm vaddr bytes \<Longrightarrow>
   pg \<in> touched vaddr bytes \<longleftrightarrow> pg div REGION_PAGES = i \<and> pg mod REGION_PAGES \<in> page_range i vaddr bytes"
  by (simp only: touched_region in_region_image_pages [OF page_range_subset])

text \<open>A region's part of the dirty pages.\<close>

lemma dirty_region:
  assumes "mt_regions t i = Some rm" "in_region i pm vaddr bytes"
  shows "dirty_pages source t \<inter> touched vaddr bytes =
         (\<lambda>j. i * REGION_PAGES + j) ` (dirty source rm \<inter> page_range i vaddr bytes)"
proof (rule set_eqI)
  fix pg
  have sub: "dirty source rm \<inter> page_range i vaddr bytes \<subseteq> {..<REGION_PAGES}"
    using page_range_subset [OF assms(2)] by blast
  show "pg \<in> dirty_pages source t \<inter> touched vaddr bytes \<longleftrightarrow>
      pg \<in> (\<lambda>j. i * REGION_PAGES + j) ` (dirty source rm \<inter> page_range i vaddr bytes)"
    using assms(1)
    by (auto simp: touched_region_iff [OF assms(2)] in_region_image_pages [OF sub] dirty_pages_def page_dirty_def)
qed

text \<open>Replacing one region's manager.\<close>

lemma put_region_simps [simp]:
  "mt_regions (put_region t i rm pm) = (mt_regions t)(i \<mapsto> rm)"
  "mt_pages (put_region t i rm pm) = pm"
  "mt_in_upload (put_region t i rm pm) = mt_in_upload t"
  by (simp_all add: put_region_def)

lemma put_region_inv:
  assumes inv: "tracker_inv base t" and "region_inv base i rm' pm'" "same_elsewhere i (mt_pages t) pm'"
  shows "tracker_inv base (put_region t i rm' pm')"
proof -
  have other: "watched base k C G (mt_pages t) \<Longrightarrow> watched base k C G pm'" if "k \<noteq> i" for k C G
    using assms(3) that by (simp add: watched_def same_elsewhere_def)
  have "pm_ok pm'" using assms(2) by (simp add: region_inv_def)
  moreover have "case mt_regions (put_region t i rm' pm') k of
        None \<Rightarrow> watched base k {..<REGION_PAGES} {} pm' | Some rm \<Rightarrow> region_inv base k rm pm'" for k
  proof (cases "k = i")
    case True
    with assms(2) show ?thesis by (simp add: put_region_def)
  next
    case False
    from inv have "case mt_regions t k of None \<Rightarrow> watched base k {..<REGION_PAGES} {} (mt_pages t)
        | Some rm \<Rightarrow> region_inv base k rm (mt_pages t)" by (simp add: tracker_inv_def)
    with False other \<open>pm_ok pm'\<close> show ?thesis
      by (auto simp: put_region_def region_inv_def split: option.splits)
  qed
  ultimately show ?thesis unfolding tracker_inv_def by (simp only: put_region_simps) blast
qed

lemma put_region_dirty:
  assumes "mt_regions t i = Some rm" "in_region i pm0 vaddr bytes"
    and "dirty source rm' = range_update enable (page_range i vaddr bytes) (dirty source rm)"
  shows "dirty_pages source (put_region t i rm' pm) =
         range_update enable (touched vaddr bytes) (dirty_pages source t)"
proof (rule set_eqI)
  fix pg
  show "pg \<in> dirty_pages source (put_region t i rm' pm) \<longleftrightarrow>
      pg \<in> range_update enable (touched vaddr bytes) (dirty_pages source t)"
    using assms(1,3) touched_region_iff [OF assms(2), of pg]
    by (cases "pg div REGION_PAGES = i")
      (simp_all add: dirty_pages_def page_dirty_def range_update_def)
qed

lemma put_region_dirty_same:
  assumes "mt_regions t i = Some rm" "dirty source rm' = dirty source rm"
  shows "dirty_pages source (put_region t i rm' pm) = dirty_pages source t"
  unfolding dirty_pages_def page_dirty_def using assms by (auto split: option.splits)

text \<open>A new region: all its pages are CPU-dirty, as a missing one's are.\<close>

lemma new_region_ok:
  assumes "i * REGION_SIZE < ADDRESS_SIZE"
  shows "\<exists>rm. new_region_manager (i * REGION_SIZE) = Inr rm \<and> region_ok i rm \<and>
           dirty Cpu rm = {..<REGION_PAGES} \<and> dirty Gpu rm = {}"
proof -
  have len: "length new_region_bits = 16" by (simp add: new_region_bits_def)
  have f: "bits_of (Fill new_region_bits) = {..<REGION_PAGES}" "rb_valid (Fill new_region_bits)"
    "bits_of new_region_bits = {}" "rb_valid new_region_bits"
    unfolding bits_of_Fill
    by (simp_all add: new_region_bits_def bit_size_def REGION_PAGES_def words_valid_def Fill_def)
  show ?thesis using f assms by (simp add: new_region_manager_def region_ok_def)
qed

section \<open>Walking a range\<close>

lemma iterate_append:
  "iterate create func (cs @ ds) acc t =
   bind_outcome (iterate create func cs acc t) (\<lambda>(acc, t). iterate create func ds acc t)"
proof (induction create func cs acc t rule: iterate.induct)
  case (2 create func index offset bytes cs acc t)
  show ?case
  proof (cases "if create then tracker_GetOrCreateRegion t index else Inr t")
    case (Inr t1)
    show ?thesis
    proof (cases "mt_regions t1 index")
      case None
      with Inr 2(1) show ?thesis by simp
    next
      case (Some rm)
      show ?thesis
      proof (cases "func acc t1 index rm offset bytes")
        case (Inr r)
        obtain acc2 t2 where r: "r = (acc2, t2)" by (cases r)
        show ?thesis
          using 2(2) [OF Some, of acc2 t2] \<open>_ = Inr t1\<close> Some Inr r by simp
      qed (simp add: Some Inr)
    qed
  qed simp
qed simp

lemma iterate_rule:
  assumes "Q [] acc t"
    and step: "\<And>pre c post acc t. cs = pre @ c # post \<Longrightarrow> Q pre acc t \<Longrightarrow>
           \<exists>acc' t'. iterate create func [c] acc t = Inr (acc', t') \<and> Q (pre @ [c]) acc' t'"
  shows "\<exists>acc' t'. iterate create func cs acc t = Inr (acc', t') \<and> Q cs acc' t'"
proof -
  have "cs = pre @ post \<Longrightarrow> \<exists>acc' t'. iterate create func pre acc t = Inr (acc', t') \<and> Q pre acc' t'" for pre post
  proof (induction pre arbitrary: post rule: rev_induct)
    case (snoc c pre)
    then obtain acc1 t1 where 1: "iterate create func pre acc t = Inr (acc1, t1)" "Q pre acc1 t1" by fastforce
    from snoc.prems have "cs = pre @ c # post" by simp
    then obtain acc2 t2 where "iterate create func [c] acc1 t1 = Inr (acc2, t2)" "Q (pre @ [c]) acc2 t2"
      using step [OF _ 1(2)] by blast
    with 1 show ?case by (simp add: iterate_append del: iterate.simps)
  qed (simp add: assms(1))
  then show ?thesis by simp
qed

text \<open>What every step keeps.\<close>

definition tracker_frame :: "(nat \<Rightarrow> nat) \<Rightarrow> tracker \<Rightarrow> tracker \<Rightarrow> bool" where
  "tracker_frame base t t' \<longleftrightarrow>
     tracker_inv base t' \<and> pm_mapped (mt_pages t') = pm_mapped (mt_pages t) \<and>
     mt_in_upload t' = mt_in_upload t \<and> dom (mt_regions t) \<subseteq> dom (mt_regions t')"

lemma tracker_frame_refl: "tracker_inv base t \<Longrightarrow> tracker_frame base t t"
  by (simp add: tracker_frame_def)

lemma tracker_frame_trans: "tracker_frame base t t' \<Longrightarrow> tracker_frame base t' t'' \<Longrightarrow> tracker_frame base t t''"
  unfolding tracker_frame_def by (metis subset_trans)

lemma put_region_frame:
  assumes "tracker_inv base t" "mt_regions t i = Some rm" "region_inv base i rm' pm'"
    "same_elsewhere i (mt_pages t) pm'"
  shows "tracker_frame base t (put_region t i rm' pm')"
  using put_region_inv [OF assms(1,3,4)] assms(4) by (auto simp: tracker_frame_def same_elsewhere_def)

lemma create_region_ok:
  assumes inv: "tracker_inv base t" and i: "i * REGION_SIZE < ADDRESS_SIZE"
  shows "\<exists>t' rm. tracker_GetOrCreateRegion t i = Inr t' \<and> mt_regions t' i = Some rm \<and>
           tracker_frame base t t' \<and> (\<forall>source. dirty_pages source t' = dirty_pages source t)"
proof (cases "mt_regions t i")
  case (Some rm)
  then show ?thesis using tracker_frame_refl [OF inv] by (simp add: tracker_GetOrCreateRegion_def)
next
  case None
  obtain rm where rm: "new_region_manager (i * REGION_SIZE) = Inr rm" "region_ok i rm"
    "dirty Cpu rm = {..<REGION_PAGES}" "dirty Gpu rm = {}"
    using new_region_ok [OF i] by blast
  let ?t = "t\<lparr>mt_regions := (mt_regions t)(i \<mapsto> rm)\<rparr>"
  have put: "?t = put_region t i rm (mt_pages t)" by (simp add: put_region_def)
  have "watched base i {..<REGION_PAGES} {} (mt_pages t)" "pm_ok (mt_pages t)"
    using inv None unfolding tracker_inv_def by (metis option.simps(4), simp)
  with rm have "region_inv base i rm (mt_pages t)" by (simp add: region_inv_def)
  then have "tracker_inv base ?t" unfolding put by (rule put_region_inv [OF inv]) simp
  then have "tracker_frame base t ?t" by (auto simp: tracker_frame_def)
  moreover have "dirty_pages source ?t = dirty_pages source t" for source
    using None rm(3,4) by (cases source) (auto simp: dirty_pages_def page_dirty_def split: option.splits)
  ultimately show ?thesis using None rm(1) by (simp add: tracker_GetOrCreateRegion_def)
qed

text \<open>A region no one created yet: every page is CPU-dirty.\<close>

lemma missing_region:
  assumes "mt_regions t i = None" "in_region i pm vaddr bytes"
  shows "touched vaddr bytes \<subseteq> dirty_pages Cpu t" "touched vaddr bytes \<inter> dirty_pages Gpu t = {}"
  using assms(1) touched_region_iff [OF assms(2)] by (auto simp: dirty_pages_def page_dirty_def)

text \<open>One chunk, for the two functions a walk calls.\<close>

lemma change_chunk_found:
  assumes inv: "tracker_inv base t" and u: "usable (pm_mapped (mt_pages t)) vaddr bytes"
    and c: "(i, k, b) \<in> set (chunks_of vaddr bytes)" and room: "\<And>pg. base pg < 0x7f"
    and some: "mt_regions t i = Some rm"
    and free: "enable \<Longrightarrow> dirty_pages (other_source source) t \<inter> chunk_pages [(i, k, b)] = {}"
  shows "\<exists>t'. change_region source enable () t i rm k b = Inr ((), t') \<and> tracker_frame base t t' \<and>
           dirty_pages source t' = range_update enable (chunk_pages [(i, k, b)]) (dirty_pages source t) \<and>
           dirty_pages (other_source source) t' = dirty_pages (other_source source) t"
proof -
  note r = chunk_in_region(1) [OF u c]
  have pages: "chunk_pages [(i, k, b)] = touched (i * REGION_SIZE + k) b"
    by (simp add: chunk_address_def)
  note ri = tracker_inv_region [OF inv some]
  have addr: "rm_cpu_addr rm = i * REGION_SIZE" using ri by (simp add: region_inv_def region_ok_def)
  have free': "dirty (other_source source) rm \<inter> page_range i (i * REGION_SIZE + k) b = {}" if enable
    using free [OF that] dirty_region [OF some r, of "other_source source"] unfolding pages by simp
  obtain rm' pm' where
    res: "ChangeState source enable rm (mt_pages t) (i * REGION_SIZE + k) b = Inr (rm', pm')"
      "region_inv base i rm' pm'" "same_elsewhere i (mt_pages t) pm'"
      "dirty source rm' = range_update enable (page_range i (i * REGION_SIZE + k) b) (dirty source rm)"
      "dirty (other_source source) rm' = dirty (other_source source) rm"
    using ChangeState_ok [OF ri r room free'] by blast
  have "change_region source enable () t i rm k b = Inr ((), put_region t i rm' pm')"
    by (simp add: change_region_def addr res(1))
  moreover note put_region_frame [OF inv some res(2,3)] put_region_dirty [OF some r res(4), of pm']
    put_region_dirty_same [OF some res(5), of pm']
  ultimately show ?thesis unfolding pages by blast
qed

lemma change_chunk:
  assumes inv: "tracker_inv base t" and u: "usable (pm_mapped (mt_pages t)) vaddr bytes"
    and c: "c \<in> set (chunks_of vaddr bytes)" and room: "\<And>pg. base pg < 0x7f"
    and free: "enable \<Longrightarrow> dirty_pages (other_source source) t \<inter> chunk_pages [c] = {}"
    and found: "create \<or> mt_regions t (fst c) \<noteq> None \<or> source = (if enable then Cpu else Gpu)"
  shows "\<exists>t'. iterate create (change_region source enable) [c] () t = Inr ((), t') \<and> tracker_frame base t t' \<and>
           dirty_pages source t' = range_update enable (chunk_pages [c]) (dirty_pages source t) \<and>
           dirty_pages (other_source source) t' = dirty_pages (other_source source) t"
proof -
  obtain i k b where eq: "c = (i, k, b)" by (cases c)
  note r = chunk_in_region [OF u c [unfolded eq]]
  show ?thesis
  proof (cases "create \<or> mt_regions t i \<noteq> None")
    case True
    have "\<exists>t1 rm. (if create then tracker_GetOrCreateRegion t i else Inr t) = Inr t1 \<and>
        mt_regions t1 i = Some rm \<and> tracker_frame base t t1 \<and>
        (\<forall>source. dirty_pages source t1 = dirty_pages source t)"
      using True create_region_ok [OF inv r(2)] tracker_frame_refl [OF inv] by (cases create) auto
    then obtain t1 rm where t1: "(if create then tracker_GetOrCreateRegion t i else Inr t) = Inr t1"
      "mt_regions t1 i = Some rm" "tracker_frame base t t1"
      "\<forall>source. dirty_pages source t1 = dirty_pages source t" by blast
    have inv1: "tracker_inv base t1" and u1: "usable (pm_mapped (mt_pages t1)) vaddr bytes"
      using t1(3) u by (simp_all add: tracker_frame_def)
    have free1: "enable \<Longrightarrow> dirty_pages (other_source source) t1 \<inter> chunk_pages [(i, k, b)] = {}"
      using free t1(4) by (simp add: eq)
    obtain t' where t': "change_region source enable () t1 i rm k b = Inr ((), t')" "tracker_frame base t1 t'"
      "dirty_pages source t' = range_update enable (chunk_pages [(i, k, b)]) (dirty_pages source t1)"
      "dirty_pages (other_source source) t' = dirty_pages (other_source source) t1"
      using change_chunk_found [OF inv1 u1 c [unfolded eq] room t1(2) free1] by blast
    have "iterate create (change_region source enable) [c] () t = Inr ((), t')"
      by (simp only: eq iterate.simps t1(1,2) t'(1) bind_outcome.simps option.case prod.case)
    moreover have "dirty_pages source t' = range_update enable (chunk_pages [c]) (dirty_pages source t)"
      "dirty_pages (other_source source) t' = dirty_pages (other_source source) t"
      unfolding eq using t'(3,4) t1(4) by metis+
    ultimately show ?thesis using tracker_frame_trans [OF t1(3) t'(2)] by blast
  next
    case False
    with found have none: "mt_regions t i = None" "\<not> create" "source = (if enable then Cpu else Gpu)"
      by (simp_all add: eq)
    have "chunk_pages [c] = touched (i * REGION_SIZE + k) b" by (simp add: eq chunk_address_def)
    then have "range_update enable (chunk_pages [c]) (dirty_pages source t) = dirty_pages source t"
      using missing_region [OF none(1) r(1)] none(3) by (auto simp: range_update_def)
    with none tracker_frame_refl [OF inv] show ?thesis by (simp add: eq del: chunk_pages_simps)
  qed
qed

lemma change_chunk_conflict:
  assumes inv: "tracker_inv base t" and u: "usable (pm_mapped (mt_pages t)) vaddr bytes"
    and c: "c \<in> set (chunks_of vaddr bytes)"
    and clash: "dirty_pages (other_source source) t \<inter> chunk_pages [c] \<noteq> {}"
  shows "iterate True (change_region source True) [c] () t = Inl EXIT"
proof -
  obtain i k b where eq: "c = (i, k, b)" by (cases c)
  note r = chunk_in_region [OF u c [unfolded eq]]
  obtain t1 rm where t1: "tracker_GetOrCreateRegion t i = Inr t1" "mt_regions t1 i = Some rm"
    "tracker_frame base t t1" "\<forall>source. dirty_pages source t1 = dirty_pages source t"
    using create_region_ok [OF inv r(2)] by blast
  have inv1: "tracker_inv base t1" and u1: "usable (pm_mapped (mt_pages t1)) vaddr bytes"
    using t1(3) u by (simp_all add: tracker_frame_def)
  note r1 = chunk_in_region(1) [OF u1 c [unfolded eq]]
  note ri = tracker_inv_region [OF inv1 t1(2)]
  have addr: "rm_cpu_addr rm = i * REGION_SIZE" using ri by (simp add: region_inv_def region_ok_def)
  have "dirty_pages (other_source source) t1 \<inter> touched (i * REGION_SIZE + k) b \<noteq> {}"
    using clash t1(4) by (simp add: eq chunk_address_def)
  then have "dirty (other_source source) rm \<inter> page_range i (i * REGION_SIZE + k) b \<noteq> {}"
    unfolding dirty_region [OF t1(2) r1] by blast
  note ex = ChangeState_conflict [OF ri r1 this]
  have "change_region source True () t1 i rm k b = Inl EXIT"
    by (simp add: change_region_def addr ex)
  then show ?thesis
    by (simp only: eq iterate.simps t1(1,2) if_True bind_outcome.simps option.case prod.case)
qed

text \<open>The bytes of a set of pages.\<close>

definition page_cover :: "nat set \<Rightarrow> nat set" where
  "page_cover S = {x. x div PAGE_SIZE \<in> S}"

lemma page_bytes_cover:
  assumes "P \<subseteq> {..<REGION_PAGES}"
  shows "page_bytes i P = page_cover ((\<lambda>j. i * REGION_PAGES + j) ` P)"
proof (rule set_eqI)
  fix x
  have rs: "i * REGION_SIZE = i * REGION_PAGES * PAGE_SIZE" by (simp add: tracker_sizes)
  show "x \<in> page_bytes i P \<longleftrightarrow> x \<in> page_cover ((\<lambda>j. i * REGION_PAGES + j) ` P)"
  proof (cases "i * REGION_PAGES * PAGE_SIZE \<le> x")
    case True
    then obtain y where y: "x = i * REGION_PAGES * PAGE_SIZE + y" using le_Suc_ex by blast
    have "x div PAGE_SIZE = i * REGION_PAGES + y div PAGE_SIZE" unfolding y by simp
    then show ?thesis by (auto simp: page_bytes_def page_cover_def rs y)
  next
    case False
    have "x div PAGE_SIZE < i * REGION_PAGES" using False by (simp add: div_less_iff_less_mult)
    then show ?thesis using False by (auto simp: page_bytes_def page_cover_def rs)
  qed
qed

lemma page_cover_Un: "page_cover (A \<union> B) = page_cover A \<union> page_cover B"
  by (auto simp: page_cover_def)

lemma bytes_of_append [simp]: "bytes_of (xs @ ys) = bytes_of xs \<union> bytes_of ys" "bytes_of [] = {}"
  by (auto simp: bytes_of_def)

lemma visit_chunk:
  assumes inv: "tracker_inv base t" and u: "usable (pm_mapped (mt_pages t)) vaddr bytes"
    and c: "c \<in> set (chunks_of vaddr bytes)" and room: "\<And>pg. base pg < 0x7f"
    and found: "mt_regions t (fst c) \<noteq> None \<or> source = Gpu"
  shows "\<exists>calls t'. iterate False (visit_region source clear) [c] acc t = Inr (acc @ calls, t') \<and>
           bytes_of calls = page_cover (dirty_pages source t \<inter> chunk_pages [c]) \<and> tracker_frame base t t' \<and>
           dirty_pages source t' =
             (if clear then dirty_pages source t - chunk_pages [c] else dirty_pages source t) \<and>
           dirty_pages (other_source source) t' = dirty_pages (other_source source) t"
proof -
  obtain i k b where eq: "c = (i, k, b)" by (cases c)
  note r = chunk_in_region [OF u c [unfolded eq]]
  have pages: "chunk_pages [c] = touched (i * REGION_SIZE + k) b" by (simp add: eq chunk_address_def)
  show ?thesis
  proof (cases "mt_regions t i")
    case None
    then have "source = Gpu" using found by (simp add: eq)
    with missing_region(2) [OF None r(1)]
    have "dirty_pages source t \<inter> chunk_pages [c] = {}" unfolding pages by blast
    moreover from this have "dirty_pages source t - chunk_pages [c] = dirty_pages source t" by blast
    ultimately show ?thesis using None tracker_frame_refl [OF inv]
      by (intro exI [of _ "[]"] exI [of _ t])
        (simp add: eq page_cover_def del: chunk_pages_simps)
  next
    case (Some rm)
    note ri = tracker_inv_region [OF inv Some]
    have addr: "rm_cpu_addr rm = i * REGION_SIZE" using ri by (simp add: region_inv_def region_ok_def)
    obtain calls rm' pm' where
      res: "ForEachModifiedRange source clear rm (mt_pages t) (i * REGION_SIZE + k) b = Inr (calls, rm', pm')"
        "bytes_of calls = page_bytes i (dirty source rm \<inter> page_range i (i * REGION_SIZE + k) b)"
        "region_inv base i rm' pm'" "same_elsewhere i (mt_pages t) pm'"
        "dirty source rm' = (if clear then dirty source rm - page_range i (i * REGION_SIZE + k) b
           else dirty source rm)"
        "dirty (other_source source) rm' = dirty (other_source source) rm"
      using ForEachModifiedRange_ok [OF ri r(1) room, of source clear] by blast
    have "visit_region source clear acc t i rm k b = Inr (acc @ calls, put_region t i rm' pm')"
      by (simp add: visit_region_def addr res(1))
    then have it: "iterate False (visit_region source clear) [c] acc t = Inr (acc @ calls, put_region t i rm' pm')"
      by (simp only: eq iterate.simps Some if_False bind_outcome.simps option.case prod.case)
    have cover: "bytes_of calls = page_cover (dirty_pages source t \<inter> chunk_pages [c])"
      unfolding pages dirty_region [OF Some r(1)] res(2)
      using page_range_subset [OF r(1)] by (intro page_bytes_cover) blast
    have "dirty_pages source (put_region t i rm' pm') =
        (if clear then dirty_pages source t - chunk_pages [c] else dirty_pages source t)"
    proof (cases clear)
      case True
      with put_region_dirty [OF Some r(1), of source rm' False pm'] res(5) show ?thesis
        by (simp add: range_update_def pages del: chunk_pages_simps)
    next
      case False
      with put_region_dirty_same [OF Some, of source rm' pm'] res(5) show ?thesis by simp
    qed
    with it cover put_region_frame [OF inv Some res(3,4)] put_region_dirty_same [OF Some res(6), of pm']
    show ?thesis by blast
  qed
qed

text \<open>The queries.\<close>

lemma iterate_until_ok:
  assumes "set cs \<subseteq> set (chunks_of vaddr bytes)" "create \<or> source = Gpu"
    and "tracker_inv base t" "usable (pm_mapped (mt_pages t)) vaddr bytes"
  shows "\<exists>t'. iterate_until create (IsModified source) cs t =
             Inr (dirty_pages source t \<inter> chunk_pages cs \<noteq> {}, t') \<and>
           tracker_frame base t t' \<and> (\<forall>s. dirty_pages s t' = dirty_pages s t)"
  using assms
proof (induction cs arbitrary: t)
  case Nil
  then show ?case using tracker_frame_refl by simp
next
  case (Cons c cs)
  obtain i k b where eq: "c = (i, k, b)" by (cases c)
  have c: "(i, k, b) \<in> set (chunks_of vaddr bytes)" "set cs \<subseteq> set (chunks_of vaddr bytes)"
    using Cons.prems(1) by (auto simp: eq)
  note r = chunk_in_region [OF Cons.prems(4) c(1)]
  have pages: "chunk_pages (c # cs) = touched (i * REGION_SIZE + k) b \<union> chunk_pages cs"
    by (simp add: chunk_pages_def eq chunk_address_def)
  obtain t1 where t1: "(if create then tracker_GetOrCreateRegion t i else Inr t) = Inr t1"
    "tracker_frame base t t1" "\<forall>s. dirty_pages s t1 = dirty_pages s t" "create \<longrightarrow> mt_regions t1 i \<noteq> None"
    using create_region_ok [OF Cons.prems(3) r(2)] tracker_frame_refl [OF Cons.prems(3)]
    by (cases create) auto
  have inv1: "tracker_inv base t1" and u1: "usable (pm_mapped (mt_pages t1)) vaddr bytes"
    using t1(2) Cons.prems(4) by (simp_all add: tracker_frame_def)
  obtain t2 where t2: "iterate_until create (IsModified source) cs t1 =
      Inr (dirty_pages source t1 \<inter> chunk_pages cs \<noteq> {}, t2)"
    "tracker_frame base t1 t2" "\<forall>s. dirty_pages s t2 = dirty_pages s t1"
    using Cons.IH [OF c(2) Cons.prems(2) inv1 u1] by blast
  note r1 = chunk_in_region(1) [OF u1 c(1)]
  show ?case
  proof (cases "mt_regions t1 i")
    case None
    then have "source = Gpu" using t1(4) Cons.prems(2) by auto
    with missing_region(2) [OF None r1] t1(3)
    have "dirty_pages source t \<inter> touched (i * REGION_SIZE + k) b = {}" by auto
    with t2 t1(3) have "iterate_until create (IsModified source) (c # cs) t =
        Inr (dirty_pages source t \<inter> chunk_pages (c # cs) \<noteq> {}, t2)"
      unfolding pages Int_Un_distrib by (simp only: eq iterate_until.simps t1(1) None bind_outcome.simps option.case Un_empty_left)
    with t1(3) t2(3) tracker_frame_trans [OF t1(2) t2(2)] show ?thesis by metis
  next
    case (Some rm)
    have ok: "region_ok i rm" using tracker_inv_region [OF inv1 Some] by (simp add: region_inv_def)
    have m: "IsModified source rm k b = Inr (dirty_pages source t \<inter> touched (i * REGION_SIZE + k) b \<noteq> {})"
      using IsModified_iff [OF ok r1, of source] dirty_region [OF Some r1, of source] t1(3)
      by (simp add: dirty_def)
    show ?thesis
    proof (cases "dirty_pages source t \<inter> touched (i * REGION_SIZE + k) b = {}")
      case True
      with t2 t1(3) m have "iterate_until create (IsModified source) (c # cs) t =
          Inr (dirty_pages source t \<inter> chunk_pages (c # cs) \<noteq> {}, t2)"
        unfolding pages Int_Un_distrib
        by (simp only: eq iterate_until.simps t1(1) Some bind_outcome.simps option.case if_False simp_thms
            Un_empty_left)
      with t1(3) t2(3) tracker_frame_trans [OF t1(2) t2(2)] show ?thesis by metis
    next
      case False
      with m have "iterate_until create (IsModified source) (c # cs) t =
          Inr (dirty_pages source t \<inter> chunk_pages (c # cs) \<noteq> {}, t1)"
        unfolding pages Int_Un_distrib
        by (simp only: eq iterate_until.simps t1(1) Some bind_outcome.simps option.case if_True simp_thms
            Un_empty)
      with t1 show ?thesis by metis
    qed
  qed
qed

section \<open>Whole ranges\<close>

lemma Iterate_usable:
  "usable mapped vaddr bytes \<Longrightarrow>
   Iterate create func vaddr bytes acc t = iterate create func (chunks_of vaddr bytes) acc t"
  by (simp add: Iterate_def ValidateRange_def usable_def chunks_of_def)

lemma Iterate_until_usable:
  "usable mapped vaddr bytes \<Longrightarrow>
   Iterate_until create pred vaddr bytes t = iterate_until create pred (chunks_of vaddr bytes) t"
  by (simp add: Iterate_until_def ValidateRange_def usable_def chunks_of_def)

lemma frame_usable: "tracker_frame base t t' \<Longrightarrow> usable (pm_mapped (mt_pages t')) = usable (pm_mapped (mt_pages t))"
  by (simp add: tracker_frame_def)

definition regions_exist :: "(nat \<times> nat \<times> nat) list \<Rightarrow> tracker \<Rightarrow> bool" where
  "regions_exist cs t \<longleftrightarrow> (\<forall>c\<in>set cs. mt_regions t (fst c) \<noteq> None)"

lemma regions_exist_frame: "regions_exist cs t \<Longrightarrow> tracker_frame base t t' \<Longrightarrow> regions_exist cs t'"
  by (fastforce simp: regions_exist_def tracker_frame_def)

lemma range_update_Un: "range_update e A (range_update e B S) = range_update e (B \<union> A) S"
  by (auto simp: range_update_def)

lemma change_walk:
  assumes inv: "tracker_inv base t" and u: "usable (pm_mapped (mt_pages t)) vaddr bytes"
    and sub: "set cs \<subseteq> set (chunks_of vaddr bytes)" and room: "\<And>pg. base pg < 0x7f"
    and free: "enable \<Longrightarrow> dirty_pages (other_source source) t \<inter> chunk_pages cs = {}"
    and found: "create \<or> source = (if enable then Cpu else Gpu) \<or> regions_exist cs t"
  shows "\<exists>t'. iterate create (change_region source enable) cs () t = Inr ((), t') \<and> tracker_frame base t t' \<and>
           dirty_pages source t' = range_update enable (chunk_pages cs) (dirty_pages source t) \<and>
           dirty_pages (other_source source) t' = dirty_pages (other_source source) t"
proof -
  define Q where "Q pre acc t' \<longleftrightarrow> tracker_frame base t t' \<and>
      dirty_pages source t' = range_update enable (chunk_pages pre) (dirty_pages source t) \<and>
      dirty_pages (other_source source) t' = dirty_pages (other_source source) t" for pre and acc :: unit and t'
  have "\<exists>acc' t'. iterate create (change_region source enable) cs () t = Inr (acc', t') \<and> Q cs acc' t'"
  proof (rule iterate_rule)
    show "Q [] () t" using tracker_frame_refl [OF inv] by (simp add: Q_def range_update_def)
    fix pre c post acc t1
    assume cs: "cs = pre @ c # post" and q: "Q pre acc t1"
    have inv1: "tracker_inv base t1" and u1: "usable (pm_mapped (mt_pages t1)) vaddr bytes"
      using q u by (simp_all add: Q_def tracker_frame_def)
    have free1: "enable \<Longrightarrow> dirty_pages (other_source source) t1 \<inter> chunk_pages [c] = {}"
      using free q by (auto simp: Q_def cs chunk_pages_def)
    have "regions_exist cs t \<Longrightarrow> regions_exist cs t1" using q regions_exist_frame by (auto simp: Q_def)
    then have found1: "create \<or> mt_regions t1 (fst c) \<noteq> None \<or> source = (if enable then Cpu else Gpu)"
      using found by (auto simp: regions_exist_def cs)
    obtain t2 where "iterate create (change_region source enable) [c] () t1 = Inr ((), t2)"
      "tracker_frame base t1 t2"
      "dirty_pages source t2 = range_update enable (chunk_pages [c]) (dirty_pages source t1)"
      "dirty_pages (other_source source) t2 = dirty_pages (other_source source) t1"
      using change_chunk [OF inv1 u1 _ room free1 found1] sub by (auto simp: cs)
    then have "iterate create (change_region source enable) [c] acc t1 = Inr ((), t2)" "Q (pre @ [c]) () t2"
      using q tracker_frame_trans [of base t t1 t2]
      by (simp_all add: Q_def range_update_Un del: iterate.simps chunk_pages_simps(3))
    then show "\<exists>acc' t'. iterate create (change_region source enable) [c] acc t1 = Inr (acc', t') \<and>
        Q (pre @ [c]) acc' t'" by blast
  qed
  then show ?thesis by (simp add: Q_def)
qed

lemma change_walk_conflict:
  assumes inv: "tracker_inv base t" and u: "usable (pm_mapped (mt_pages t)) vaddr bytes"
    and room: "\<And>pg. base pg < 0x7f"
    and clash: "dirty_pages (other_source source) t \<inter> chunk_pages (chunks_of vaddr bytes) \<noteq> {}"
  shows "iterate True (change_region source True) (chunks_of vaddr bytes) () t = Inl EXIT"
proof -
  let ?P = "\<lambda>c. dirty_pages (other_source source) t \<inter> chunk_pages [c] \<noteq> {}"
  have "\<exists>c\<in>set (chunks_of vaddr bytes). ?P c" using clash by (auto simp: chunk_pages_def)
  then obtain pre c post where cs: "chunks_of vaddr bytes = pre @ c # post" "?P c" "\<forall>d\<in>set pre. \<not> ?P d"
    using split_list_first_prop [of "chunks_of vaddr bytes" ?P] by blast
  have "dirty_pages (other_source source) t \<inter> chunk_pages pre = {}" using cs(3) by (auto simp: chunk_pages_def)
  then obtain t1 where t1: "iterate True (change_region source True) pre () t = Inr ((), t1)"
    "tracker_frame base t t1" "dirty_pages (other_source source) t1 = dirty_pages (other_source source) t"
    using change_walk [OF inv u _ room, of pre True source True] cs(1) by auto
  have inv1: "tracker_inv base t1" and u1: "usable (pm_mapped (mt_pages t1)) vaddr bytes"
    using t1(2) u by (simp_all add: tracker_frame_def)
  have "iterate True (change_region source True) [c] () t1 = Inl EXIT"
    by (rule change_chunk_conflict [OF inv1 u1]) (use cs t1(3) in simp_all)
  moreover have "chunks_of vaddr bytes = (pre @ [c]) @ post" by (simp add: cs(1))
  ultimately show ?thesis using t1(1) by (simp only: iterate_append bind_outcome.simps prod.case)
qed

lemma visit_walk:
  assumes inv: "tracker_inv base t" and u: "usable (pm_mapped (mt_pages t)) vaddr bytes"
    and room: "\<And>pg. base pg < 0x7f" and found: "source = Gpu \<or> regions_exist (chunks_of vaddr bytes) t"
  shows "\<exists>calls t'. iterate False (visit_region source clear) (chunks_of vaddr bytes) [] t = Inr (calls, t') \<and>
           bytes_of calls = page_cover (dirty_pages source t \<inter> touched vaddr bytes) \<and> tracker_frame base t t' \<and>
           dirty_pages source t' =
             (if clear then dirty_pages source t - touched vaddr bytes else dirty_pages source t) \<and>
           dirty_pages (other_source source) t' = dirty_pages (other_source source) t"
proof -
  let ?cs = "chunks_of vaddr bytes"
  define Q where "Q pre acc t' \<longleftrightarrow>
      bytes_of acc = page_cover (dirty_pages source t \<inter> chunk_pages pre) \<and> tracker_frame base t t' \<and>
      dirty_pages source t' = (if clear then dirty_pages source t - chunk_pages pre else dirty_pages source t) \<and>
      dirty_pages (other_source source) t' = dirty_pages (other_source source) t" for pre acc t'
  have "\<exists>acc' t'. iterate False (visit_region source clear) ?cs [] t = Inr (acc', t') \<and> Q ?cs acc' t'"
  proof (rule iterate_rule)
    show "Q [] [] t" using tracker_frame_refl [OF inv] by (simp add: Q_def page_cover_def)
    fix pre c post acc t1
    assume cs: "?cs = pre @ c # post" and q: "Q pre acc t1"
    have inv1: "tracker_inv base t1" and u1: "usable (pm_mapped (mt_pages t1)) vaddr bytes"
      using q u by (simp_all add: Q_def tracker_frame_def)
    have "regions_exist ?cs t \<Longrightarrow> regions_exist ?cs t1" using q regions_exist_frame by (auto simp: Q_def)
    then have found1: "mt_regions t1 (fst c) \<noteq> None \<or> source = Gpu"
      using found by (auto simp: regions_exist_def cs)
    have mem: "c \<in> set ?cs" by (simp add: cs)
    obtain calls t2 where 2: "iterate False (visit_region source clear) [c] acc t1 = Inr (acc @ calls, t2)"
      "bytes_of calls = page_cover (dirty_pages source t1 \<inter> chunk_pages [c])" "tracker_frame base t1 t2"
      "dirty_pages source t2 = (if clear then dirty_pages source t1 - chunk_pages [c] else dirty_pages source t1)"
      "dirty_pages (other_source source) t2 = dirty_pages (other_source source) t1"
      using visit_chunk [OF inv1 u1 mem room found1, of clear acc] by blast
    have "page_cover (dirty_pages source t \<inter> chunk_pages pre) \<union>
        page_cover (dirty_pages source t1 \<inter> chunk_pages [c]) =
        page_cover (dirty_pages source t \<inter> chunk_pages (pre @ [c]))"
      using q by (auto simp: Q_def page_cover_def split: if_splits)
    then have "bytes_of (acc @ calls) = page_cover (dirty_pages source t \<inter> chunk_pages (pre @ [c]))"
      using q 2(2) by (simp add: Q_def)
    moreover have "dirty_pages source t2 =
        (if clear then dirty_pages source t - chunk_pages (pre @ [c]) else dirty_pages source t)"
      using q 2(4) by (auto simp: Q_def)
    ultimately have "Q (pre @ [c]) (acc @ calls) t2"
      using q 2(3,5) tracker_frame_trans [of base t t1 t2] by (simp only: Q_def)
    with 2(1) show "\<exists>acc' t'. iterate False (visit_region source clear) [c] acc t1 = Inr (acc', t') \<and>
        Q (pre @ [c]) acc' t'" by blast
  qed
  then show ?thesis unfolding Q_def chunk_pages_of .
qed

lemma create_walk:
  assumes inv: "tracker_inv base t" and u: "usable (pm_mapped (mt_pages t)) vaddr bytes"
  shows "\<exists>t'. iterate True (\<lambda>acc t _ _ _ _. Inr (acc, t)) (chunks_of vaddr bytes) () t = Inr ((), t') \<and>
           tracker_frame base t t' \<and> (\<forall>s. dirty_pages s t' = dirty_pages s t) \<and>
           regions_exist (chunks_of vaddr bytes) t'"
proof -
  let ?f = "\<lambda>acc t _ _ _ _. Inr (acc, t)" and ?cs = "chunks_of vaddr bytes"
  define Q where "Q pre acc t' \<longleftrightarrow> tracker_frame base t t' \<and> (\<forall>s. dirty_pages s t' = dirty_pages s t) \<and>
      regions_exist pre t'" for pre and acc :: unit and t'
  have "\<exists>acc' t'. iterate True ?f ?cs () t = Inr (acc', t') \<and> Q ?cs acc' t'"
  proof (rule iterate_rule)
    show "Q [] () t" using tracker_frame_refl [OF inv] by (simp add: Q_def regions_exist_def)
    fix pre c post acc t1
    assume cs: "?cs = pre @ c # post" and q: "Q pre acc t1"
    obtain i k b where eq: "c = (i, k, b)" by (cases c)
    have inv1: "tracker_inv base t1" using q by (simp add: Q_def tracker_frame_def)
    have "i * REGION_SIZE < ADDRESS_SIZE" using chunk_in_region(2) [OF u, of i k b] by (simp add: cs eq)
    then obtain t2 rm where 2: "tracker_GetOrCreateRegion t1 i = Inr t2" "mt_regions t2 i = Some rm"
      "tracker_frame base t1 t2" "\<forall>s. dirty_pages s t2 = dirty_pages s t1"
      using create_region_ok [OF inv1] by blast
    have "iterate True ?f [c] acc t1 = Inr ((), t2)" by (simp add: eq 2(1,2))
    moreover have "regions_exist (pre @ [c]) t2"
      using q regions_exist_frame [OF _ 2(3), of pre] 2(2) by (auto simp: Q_def regions_exist_def eq)
    then have "Q (pre @ [c]) () t2" using q 2(4) tracker_frame_trans [OF _ 2(3)] by (simp add: Q_def)
    ultimately show "\<exists>acc' t'. iterate True ?f [c] acc t1 = Inr (acc', t') \<and> Q (pre @ [c]) acc' t'" by blast
  qed
  then show ?thesis by (simp add: Q_def)
qed

section \<open>The tracker implements two sets of pages\<close>

text \<open>
  The abstract machine: the CPU-dirty pages and the GPU-dirty pages. Marking one source ends the
  process when the other holds a page of the range.
\<close>

definition mark_spec :: "dirty_source \<Rightarrow> nat set \<Rightarrow> nat set \<times> nat set \<Rightarrow> (nat set \<times> nat set) outcome" where
  "mark_spec source P = (\<lambda>(C, G).
     case source of
       Cpu \<Rightarrow> exit_if (G \<inter> P \<noteq> {}) (Inr (C \<union> P, G))
     | Gpu \<Rightarrow> exit_if (C \<inter> P \<noteq> {}) (Inr (C, G \<union> P)))"

definition tracker_abs :: "tracker \<Rightarrow> nat set \<times> nat set" where
  "tracker_abs t = (dirty_pages Cpu t, dirty_pages Gpu t)"

definition implements ::
    "(nat \<Rightarrow> nat) \<Rightarrow> tracker \<Rightarrow> ('a \<times> tracker) outcome \<Rightarrow> 'a \<Rightarrow> (nat set \<times> nat set) outcome \<Rightarrow> bool" where
  "implements base t r v spec \<longleftrightarrow>
     (case spec of
        Inl e \<Rightarrow> r = Inl e
      | Inr s \<Rightarrow> \<exists>t'. r = Inr (v, t') \<and> tracker_frame base t t' \<and> tracker_abs t' = s)"

lemma mark_implements:
  assumes "tracker_inv base t" and u: "usable (pm_mapped (mt_pages t)) vaddr bytes"
    and room: "\<And>pg. base pg < 0x7f"
  shows "implements base t (Iterate True (change_region source True) vaddr bytes () t) ()
           (mark_spec source (touched vaddr bytes) (tracker_abs t))"
proof (cases "dirty_pages (other_source source) t \<inter> touched vaddr bytes = {}")
  case True
  then obtain t' where "iterate True (change_region source True) (chunks_of vaddr bytes) () t = Inr ((), t')"
    "tracker_frame base t t'"
    "dirty_pages source t' = range_update True (touched vaddr bytes) (dirty_pages source t)"
    "dirty_pages (other_source source) t' = dirty_pages (other_source source) t"
    using change_walk [OF assms(1) u order_refl room, of True source True] by (auto simp: chunk_pages_of)
  with True show ?thesis
    by (cases source)
      (simp_all add: implements_def mark_spec_def tracker_abs_def Iterate_usable [OF u] other_source_def
        range_update_def)
next
  case False
  with change_walk_conflict [OF assms(1) u room, of source] show ?thesis
    by (cases source)
      (simp_all add: implements_def mark_spec_def tracker_abs_def Iterate_usable [OF u] other_source_def
        chunk_pages_of)
qed

text \<open>Walks that create no region: what they cannot see they need not change.\<close>

lemma clear_implements:
  assumes "tracker_inv base t" and u: "usable (pm_mapped (mt_pages t)) vaddr bytes"
    and room: "\<And>pg. base pg < 0x7f" and "enable \<Longrightarrow> dirty_pages Gpu t \<inter> touched vaddr bytes = {}"
    and "source = (if enable then Cpu else Gpu)"
  shows "implements base t (Iterate False (change_region source enable) vaddr bytes () t) ()
           (Inr (if enable then (dirty_pages Cpu t \<union> touched vaddr bytes, dirty_pages Gpu t)
                 else (dirty_pages Cpu t, dirty_pages Gpu t - touched vaddr bytes)))"
proof -
  have "enable \<Longrightarrow> dirty_pages (other_source source) t \<inter> chunk_pages (chunks_of vaddr bytes) = {}"
    using assms(4,5) by (simp add: other_source_def chunk_pages_of)
  then obtain t' where "iterate False (change_region source enable) (chunks_of vaddr bytes) () t = Inr ((), t')"
    "tracker_frame base t t'"
    "dirty_pages source t' = range_update enable (touched vaddr bytes) (dirty_pages source t)"
    "dirty_pages (other_source source) t' = dirty_pages (other_source source) t"
    using change_walk [OF assms(1) u order_refl room, of enable source False] assms(5)
    by (auto simp: chunk_pages_of)
  then show ?thesis using assms(5)
    by (cases enable)
      (simp_all add: implements_def tracker_abs_def Iterate_usable [OF u] other_source_def range_update_def)
qed

lemma query_implements:
  assumes "tracker_inv base t" and u: "usable (pm_mapped (mt_pages t)) vaddr bytes"
    and "create \<or> source = Gpu"
  shows "implements base t (Iterate_until create (IsModified source) vaddr bytes t)
           (dirty_pages source t \<inter> touched vaddr bytes \<noteq> {}) (Inr (tracker_abs t))"
  using iterate_until_ok [OF order_refl assms(3,1) u]
  by (auto simp: implements_def tracker_abs_def Iterate_until_usable [OF u] chunk_pages_of)

lemma UntrackMemoryImpl_implements:
  assumes inv: "tracker_inv base t" and u: "usable (pm_mapped (mt_pages t)) vaddr bytes"
    and room: "\<And>pg. base pg < 0x7f"
  shows "implements base t (UntrackMemoryImpl t vaddr bytes) ()
           (mark_spec Cpu (touched vaddr bytes) (tracker_abs t))"
proof -
  obtain t1 where t1: "Iterate_until False (IsModified Gpu) vaddr bytes t =
      Inr (dirty_pages Gpu t \<inter> touched vaddr bytes \<noteq> {}, t1)" "tracker_frame base t t1"
    "tracker_abs t1 = tracker_abs t"
    using query_implements [OF inv u, where create = False and source = Gpu] by (auto simp: implements_def)
  then have inv1: "tracker_inv base t1" and u1: "usable (pm_mapped (mt_pages t1)) vaddr bytes"
    using u by (simp_all add: tracker_frame_def)
  show ?thesis
  proof (cases "dirty_pages Gpu t \<inter> touched vaddr bytes = {}")
    case True
    with t1(3) have "dirty_pages Gpu t1 \<inter> touched vaddr bytes = {}" by (simp add: tracker_abs_def)
    from clear_implements [OF inv1 u1 room this, where enable = True and source = Cpu] obtain t2 where
      "Iterate False (change_region Cpu True) vaddr bytes () t1 = Inr ((), t2)" "tracker_frame base t1 t2"
      "tracker_abs t2 = (dirty_pages Cpu t1 \<union> touched vaddr bytes, dirty_pages Gpu t1)"
      by (auto simp: implements_def)
    with True t1 tracker_frame_trans [OF t1(2)] show ?thesis
      by (simp add: UntrackMemoryImpl_def implements_def mark_spec_def tracker_abs_def)
  next
    case False
    with t1 show ?thesis
      by (simp add: UntrackMemoryImpl_def implements_def mark_spec_def tracker_abs_def)
  qed
qed

text \<open>
  C1: on the pages of a range, the tracker is a pair of page sets. Marking a source adds the pages or
  ends the process when the other source holds one of them; untracking does what a CPU mark does without
  creating regions; unmarking removes them from the GPU set; the two queries say whether the source
  holds one. Whatever the tracker creates or splits by region on the way is not visible in the sets.
\<close>

theorem tracker_refines_page_sets:
  assumes "tracker_inv base t" and "usable (pm_mapped (mt_pages t)) vaddr bytes"
    and "\<not> mt_in_upload t" and "\<And>pg. base pg < 0x7f"
  shows "implements base t (MarkRegionAsCpuModified t vaddr bytes) ()
           (mark_spec Cpu (touched vaddr bytes) (tracker_abs t)) \<and>
         implements base t (MarkRegionAsGpuModified t vaddr bytes) ()
           (mark_spec Gpu (touched vaddr bytes) (tracker_abs t)) \<and>
         implements base t (UntrackMemory t vaddr bytes) ()
           (mark_spec Cpu (touched vaddr bytes) (tracker_abs t)) \<and>
         implements base t (UnmarkRegionAsGpuModified t vaddr bytes) ()
           (Inr (dirty_pages Cpu t, dirty_pages Gpu t - touched vaddr bytes)) \<and>
         implements base t (IsRegionCpuModified t vaddr bytes)
           (dirty_pages Cpu t \<inter> touched vaddr bytes \<noteq> {}) (Inr (tracker_abs t)) \<and>
         implements base t (IsRegionGpuModified t vaddr bytes)
           (dirty_pages Gpu t \<inter> touched vaddr bytes \<noteq> {}) (Inr (tracker_abs t))"
proof -
  have check: "CheckNotInUploadCallback t = Inr ()" using assms(3) by (simp add: CheckNotInUploadCallback_def)
  note mark = mark_implements [OF assms(1,2,4)]
  note unmark = clear_implements [OF assms(1,2,4), where enable = False and source = Gpu]
  show ?thesis
    using mark [of Cpu] mark [of Gpu] unmark UntrackMemoryImpl_implements [OF assms(1,2,4)]
      query_implements [OF assms(1,2), where create = True and source = Cpu]
      query_implements [OF assms(1,2), where create = False and source = Gpu]
    by (simp add: MarkRegionAsCpuModified_def MarkRegionAsGpuModified_def UntrackMemory_def
        UnmarkRegionAsGpuModified_def IsRegionCpuModified_def IsRegionGpuModified_def check)
qed

lemma new_tracker_inv: "tracker_inv (\<lambda>_. 0) (new_tracker (new_page_manager mapped))"
  using new_page_manager_ok [of mapped]
  by (simp add: tracker_inv_def new_tracker_def watched_def page_of_def new_page_manager_def new_page_def)

lemma new_tracker_pages: "dirty_pages Cpu (new_tracker pm) = UNIV" "dirty_pages Gpu (new_tracker pm) = {}"
  by (simp_all add: dirty_pages_def page_dirty_def new_tracker_def)

text \<open>A range over the first two regions, on a fresh tracker: a GPU mark conflicts, a CPU mark does not.\<close>

lemma tracker_example:
  "tracker_inv (\<lambda>_. 0) (new_tracker (new_page_manager (\<lambda>_. True)))"
  "usable (pm_mapped (mt_pages (new_tracker (new_page_manager (\<lambda>_. True))))) 4190208 8192"
  "\<not> mt_in_upload (new_tracker (new_page_manager (\<lambda>_. True)))"
  by (rule new_tracker_inv)
    (simp_all add: usable_def new_tracker_def new_page_manager_def range_Valid_def tracker_sizes)

lemma touched_nonempty: "0 < bytes \<Longrightarrow> touched vaddr bytes \<noteq> {}"
  by (simp add: touched_def)

lemma tracker_refines_page_sets_witness:
  "\<exists>t'. MarkRegionAsCpuModified (new_tracker (new_page_manager (\<lambda>_. True))) 4190208 8192 = Inr ((), t') \<and>
     dirty_pages Gpu t' = {} \<and>
     MarkRegionAsGpuModified (new_tracker (new_page_manager (\<lambda>_. True))) 4190208 8192 = Inl EXIT"
  using tracker_refines_page_sets [OF tracker_example] touched_nonempty [of 8192 4190208]
  by (auto simp: implements_def mark_spec_def tracker_abs_def new_tracker_pages)

section \<open>Uploads, downloads and faults\<close>

lemma in_upload_simps [simp]:
  "tracker_inv base (t\<lparr>mt_in_upload := b\<rparr>) = tracker_inv base t"
  "dirty_pages source (t\<lparr>mt_in_upload := b\<rparr>) = dirty_pages source t"
  "regions_exist cs (t\<lparr>mt_in_upload := b\<rparr>) = regions_exist cs t"
  by (simp_all add: tracker_inv_def dirty_pages_def page_dirty_def regions_exist_def cong: option.case_cong)

lemma frame_upload:
  "tracker_frame base (t\<lparr>mt_in_upload := True\<rparr>) t' \<Longrightarrow> \<not> mt_in_upload t \<Longrightarrow>
   tracker_frame base t (t'\<lparr>mt_in_upload := False\<rparr>)"
  by (simp add: tracker_frame_def)

lemma ForEachUploadRange_ok:
  assumes "tracker_inv base t" and "usable (pm_mapped (mt_pages t)) vaddr bytes"
    and "\<not> mt_in_upload t" and "\<And>pg. base pg < 0x7f"
  shows "\<exists>calls t'. ForEachUploadRange is_written t vaddr bytes = Inr (calls, t') \<and>
           bytes_of calls = page_cover (dirty_pages Cpu t \<inter> touched vaddr bytes) \<and>
           tracker_frame base t t' \<and>
           tracker_abs t' = (dirty_pages Cpu t - touched vaddr bytes,
             if is_written then dirty_pages Gpu t \<union> touched vaddr bytes else dirty_pages Gpu t)"
proof -
  let ?cs = "chunks_of vaddr bytes"
  note u = assms(2)
  have check: "CheckNotInUploadCallback t = Inr ()" using assms(3) by (simp add: CheckNotInUploadCallback_def)
  obtain t1 where t1: "iterate True (\<lambda>acc t _ _ _ _. Inr (acc, t)) ?cs () t = Inr ((), t1)"
    "tracker_frame base t t1" "\<forall>s. dirty_pages s t1 = dirty_pages s t" "regions_exist ?cs t1"
    using create_walk [OF assms(1) u] by blast
  let ?t1 = "t1\<lparr>mt_in_upload := True\<rparr>"
  have inv1: "tracker_inv base ?t1" and u1: "usable (pm_mapped (mt_pages ?t1)) vaddr bytes"
    and ex1: "Cpu = Gpu \<or> regions_exist ?cs ?t1"
    using t1(2,4) u by (simp_all add: tracker_frame_def)
  obtain calls t2 where t2: "iterate False (visit_region Cpu True) ?cs [] ?t1 = Inr (calls, t2)"
    "bytes_of calls = page_cover (dirty_pages Cpu t \<inter> touched vaddr bytes)" "tracker_frame base ?t1 t2"
    "dirty_pages Cpu t2 = dirty_pages Cpu t - touched vaddr bytes" "dirty_pages Gpu t2 = dirty_pages Gpu t"
    using visit_walk [OF inv1 u1 assms(4) ex1, of True] t1(3) by (auto simp: other_source_def)
  have inv2: "tracker_inv base t2" and u2: "usable (pm_mapped (mt_pages t2)) vaddr bytes"
    using t2(3) u1 by (simp_all add: tracker_frame_def)
  have "regions_exist ?cs t2" using regions_exist_frame [OF _ t2(3)] t1(4) by simp
  moreover have "dirty_pages (other_source Gpu) t2 \<inter> chunk_pages ?cs = {}"
    using t2(4) by (auto simp: other_source_def chunk_pages_of)
  ultimately obtain t3 where t3: "iterate False (change_region Gpu True) ?cs () t2 = Inr ((), t3)"
    "tracker_frame base t2 t3" "dirty_pages Gpu t3 = dirty_pages Gpu t2 \<union> touched vaddr bytes"
    "dirty_pages Cpu t3 = dirty_pages Cpu t2"
    using change_walk [OF inv2 u2 order_refl assms(4), where enable = True and source = Gpu and create = False]
    by (auto simp: range_update_def other_source_def chunk_pages_of)
  note fin = tracker_frame_trans [OF t1(2) frame_upload]
  have not1: "\<not> mt_in_upload t1" using t1(2) assms(3) by (simp add: tracker_frame_def)
  show ?thesis
  proof (cases is_written)
    case True
    then have "ForEachUploadRange is_written t vaddr bytes = Inr (calls, t3\<lparr>mt_in_upload := False\<rparr>)"
      using t1(1) t2(1) t3(1) by (simp add: ForEachUploadRange_def check Iterate_usable [OF u])
    with True t2 t3 fin [OF tracker_frame_trans [OF t2(3) t3(2)] not1] show ?thesis
      by (simp add: tracker_abs_def)
  next
    case False
    then have "ForEachUploadRange is_written t vaddr bytes = Inr (calls, t2\<lparr>mt_in_upload := False\<rparr>)"
      using t1(1) t2(1) by (simp add: ForEachUploadRange_def check Iterate_usable [OF u])
    with False t2 fin [OF t2(3) not1] show ?thesis by (simp add: tracker_abs_def)
  qed
qed

text \<open>
  C35: an upload covers exactly the CPU-dirty pages. \<open>ForEachUploadRange\<close> calls back for the bytes of
  exactly the CPU-dirty pages of the range, leaves none of them CPU-dirty, makes all of the range
  GPU-dirty when it is written, touches no other page and cannot end the process, whatever regions the
  range spans and whether they exist before.
\<close>

theorem tracker_upload_exact:
  assumes "tracker_inv base t" and "usable (pm_mapped (mt_pages t)) vaddr bytes"
    and "\<not> mt_in_upload t" and "\<And>pg. base pg < 0x7f"
  shows "\<exists>calls t'. ForEachUploadRange is_written t vaddr bytes = Inr (calls, t') \<and>
           bytes_of calls = page_cover (dirty_pages Cpu t \<inter> touched vaddr bytes) \<and>
           tracker_frame base t t' \<and>
           tracker_abs t' = (dirty_pages Cpu t - touched vaddr bytes,
             if is_written then dirty_pages Gpu t \<union> touched vaddr bytes else dirty_pages Gpu t)"
  by (rule ForEachUploadRange_ok [OF assms])

lemma tracker_upload_exact_witness:
  "\<exists>calls t'. ForEachUploadRange True (new_tracker (new_page_manager (\<lambda>_. True))) 4190208 8192 = Inr (calls, t') \<and>
     bytes_of calls = page_cover (touched 4190208 8192) \<and> dirty_pages Gpu t' = touched 4190208 8192"
  using tracker_upload_exact [OF tracker_example, of True] by (auto simp: tracker_abs_def new_tracker_pages)

text \<open>
  A download covers exactly the GPU-dirty pages. \<open>ForEachDownloadRange\<close> calls \<open>preflight\<close> and then
  \<open>func\<close> for the bytes of exactly the GPU-dirty pages of the range, clears them when asked to, and changes
  nothing else.
\<close>

theorem tracker_download_exact:
  assumes "tracker_inv base t" and "usable (pm_mapped (mt_pages t)) vaddr bytes"
    and "\<not> mt_in_upload t" and "\<And>pg. base pg < 0x7f"
  shows "\<exists>preflight calls t'. ForEachDownloadRange clear t vaddr bytes = Inr ((preflight, calls), t') \<and>
           bytes_of preflight = page_cover (dirty_pages Gpu t \<inter> touched vaddr bytes) \<and>
           bytes_of calls = bytes_of preflight \<and> tracker_frame base t t' \<and>
           tracker_abs t' = (dirty_pages Cpu t,
             if clear then dirty_pages Gpu t - touched vaddr bytes else dirty_pages Gpu t)"
proof -
  let ?cs = "chunks_of vaddr bytes"
  note u = assms(2)
  have check: "CheckNotInUploadCallback t = Inr ()" using assms(3) by (simp add: CheckNotInUploadCallback_def)
  have visit: "\<exists>calls t'. iterate False (visit_region Gpu c) ?cs [] s = Inr (calls, t') \<and>
      bytes_of calls = page_cover (dirty_pages Gpu s \<inter> touched vaddr bytes) \<and> tracker_frame base t t' \<and>
      dirty_pages Gpu t' = (if c then dirty_pages Gpu s - touched vaddr bytes else dirty_pages Gpu s) \<and>
      dirty_pages Cpu t' = dirty_pages Cpu s" if s: "tracker_frame base t s" for s c
  proof -
    have inv: "tracker_inv base s" "usable (pm_mapped (mt_pages s)) vaddr bytes"
      using s u by (simp_all add: tracker_frame_def)
    obtain calls t' where "iterate False (visit_region Gpu c) ?cs [] s = Inr (calls, t')"
      "bytes_of calls = page_cover (dirty_pages Gpu s \<inter> touched vaddr bytes)" "tracker_frame base s t'"
      "dirty_pages Gpu t' = (if c then dirty_pages Gpu s - touched vaddr bytes else dirty_pages Gpu s)"
      "dirty_pages Cpu t' = dirty_pages Cpu s"
      using visit_walk [OF inv assms(4), of Gpu c] by (auto simp: other_source_def)
    with tracker_frame_trans [OF s] show ?thesis by blast
  qed
  from visit [OF tracker_frame_refl [OF assms(1)], of False] obtain c1 t1 where
    1: "iterate False (visit_region Gpu False) ?cs [] t = Inr (c1, t1)"
      "bytes_of c1 = page_cover (dirty_pages Gpu t \<inter> touched vaddr bytes)" "tracker_frame base t t1"
      "dirty_pages Gpu t1 = dirty_pages Gpu t" "dirty_pages Cpu t1 = dirty_pages Cpu t" by auto
  from visit [OF 1(3), of False] 1(4,5) obtain c2 t2 where
    2: "iterate False (visit_region Gpu False) ?cs [] t1 = Inr (c2, t2)"
      "bytes_of c2 = page_cover (dirty_pages Gpu t \<inter> touched vaddr bytes)" "tracker_frame base t t2"
      "dirty_pages Gpu t2 = dirty_pages Gpu t" "dirty_pages Cpu t2 = dirty_pages Cpu t" by auto
  from visit [OF 2(3), of True] 2(4,5) obtain c3 t3 where
    3: "iterate False (visit_region Gpu True) ?cs [] t2 = Inr (c3, t3)" "tracker_frame base t t3"
      "dirty_pages Gpu t3 = dirty_pages Gpu t - touched vaddr bytes" "dirty_pages Cpu t3 = dirty_pages Cpu t"
    by auto
  have "ForEachDownloadRange clear t vaddr bytes = Inr ((c1, c2), if clear then t3 else t2)"
    by (simp add: ForEachDownloadRange_def check Iterate_usable [OF u] 1(1) 2(1) 3(1))
  then show ?thesis
    using 1(2) 2(2-5) 3(2-4) by (cases clear) (simp_all add: tracker_abs_def)
qed


text \<open>After a written upload of pages of two regions, the download gives them all back.\<close>

lemma tracker_download_exact_witness:
  "\<exists>uploads t preflight calls t'.
     ForEachUploadRange True (new_tracker (new_page_manager (\<lambda>_. True))) 4190208 8192 = Inr (uploads, t) \<and>
     ForEachDownloadRange True t 4190208 8192 = Inr ((preflight, calls), t') \<and>
     bytes_of calls = page_cover (touched 4190208 8192) \<and> dirty_pages Gpu t' = {}"
proof -
  let ?t = "new_tracker (new_page_manager (\<lambda>_. True))"
  obtain uploads t where t: "ForEachUploadRange True ?t 4190208 8192 = Inr (uploads, t)"
    "tracker_frame (\<lambda>_. 0) ?t t" "dirty_pages Gpu t = touched 4190208 8192"
    using ForEachUploadRange_ok [OF tracker_example, of True] by (auto simp: tracker_abs_def new_tracker_pages)
  have "tracker_inv (\<lambda>_. 0) t" "usable (pm_mapped (mt_pages t)) 4190208 8192" "\<not> mt_in_upload t"
    using t(2) tracker_example by (simp_all add: tracker_frame_def)
  from tracker_download_exact [OF this, of True] t show ?thesis by (auto simp: tracker_abs_def)
qed

text \<open>What a flush callback of \<open>InvalidateRegion\<close> has to do: give the range back to the CPU.\<close>

definition flushes :: "(nat \<Rightarrow> nat) \<Rightarrow> nat set \<Rightarrow> tracker \<Rightarrow> (tracker \<Rightarrow> tracker outcome) \<Rightarrow> bool" where
  "flushes base P t0 on_flush \<longleftrightarrow>
     (\<forall>t. tracker_frame base t0 t \<longrightarrow>
        (\<exists>t'. on_flush t = Inr t' \<and> tracker_frame base t t' \<and>
              tracker_abs t' = (dirty_pages Cpu t \<union> P, dirty_pages Gpu t - P)))"

lemma invalidate_chunk:
  assumes inv: "tracker_inv base t" and u: "usable (pm_mapped (mt_pages t)) vaddr bytes"
    and c: "c \<in> set (chunks_of vaddr bytes)" and room: "\<And>pg. base pg < 0x7f"
  shows "(dirty_pages Gpu t \<inter> chunk_pages [c] \<noteq> {} \<longrightarrow>
            iterate False (invalidate_region on_flush) [c] acc t =
              bind_outcome (on_flush t) (\<lambda>t. Inr (acc + 1, t))) \<and>
         (dirty_pages Gpu t \<inter> chunk_pages [c] = {} \<longrightarrow>
            (\<exists>t'. iterate False (invalidate_region on_flush) [c] acc t = Inr (acc, t') \<and> tracker_frame base t t' \<and>
               dirty_pages Cpu t' = dirty_pages Cpu t \<union> chunk_pages [c] \<and> dirty_pages Gpu t' = dirty_pages Gpu t))"
proof -
  obtain i k b where eq: "c = (i, k, b)" by (cases c)
  note ci = c [unfolded eq]
  note r = chunk_in_region [OF u ci]
  have pages: "chunk_pages [c] = touched (i * REGION_SIZE + k) b" by (simp add: eq chunk_address_def)
  show ?thesis
  proof (cases "mt_regions t i")
    case None
    from missing_region [OF None r(1)] have "dirty_pages Gpu t \<inter> chunk_pages [c] = {}"
      "dirty_pages Cpu t \<union> chunk_pages [c] = dirty_pages Cpu t" unfolding pages by blast+
    moreover have "iterate False (invalidate_region on_flush) [c] acc t = Inr (acc, t)" by (simp add: eq None)
    ultimately show ?thesis using tracker_frame_refl [OF inv] by auto
  next
    case (Some rm)
    have ok: "region_ok i rm" using tracker_inv_region [OF inv Some] by (simp add: region_inv_def)
    have m: "IsModified Gpu rm k b = Inr (dirty_pages Gpu t \<inter> chunk_pages [c] \<noteq> {})"
      using IsModified_iff [OF ok r(1), of Gpu] dirty_region [OF Some r(1), of Gpu]
      unfolding pages by (simp add: dirty_def)
    have it: "iterate False (invalidate_region on_flush) [c] acc t =
        (if dirty_pages Gpu t \<inter> chunk_pages [c] \<noteq> {} then bind_outcome (on_flush t) (\<lambda>t. Inr (acc + 1, t))
         else bind_outcome (change_region Cpu True () t i rm k b) (\<lambda>(_, t). Inr (acc, t)))"
      unfolding eq using Some m
      by (cases "on_flush t"; cases "change_region Cpu True () t i rm k b")
        (auto simp: invalidate_region_def eq)
    show ?thesis
    proof (cases "dirty_pages Gpu t \<inter> chunk_pages [c] = {}")
      case False
      then show ?thesis using it by simp
    next
      case True
      then have free: "dirty_pages (other_source Cpu) t \<inter> chunk_pages [(i, k, b)] = {}"
        by (simp add: other_source_def eq)
      from change_chunk_found [OF inv u ci room Some, where enable = True and source = Cpu, OF free]
      obtain t' where
        "change_region Cpu True () t i rm k b = Inr ((), t')" "tracker_frame base t t'"
        "dirty_pages Cpu t' = dirty_pages Cpu t \<union> chunk_pages [c]" "dirty_pages Gpu t' = dirty_pages Gpu t"
        by (auto simp: eq range_update_def other_source_def)
      with True it show ?thesis by simp
    qed
  qed
qed

text \<open>
  A write fault hands the range back to the CPU. With a flush callback that moves the whole range
  from the GPU to the CPU, \<open>InvalidateRegion\<close> ends with every page of the range CPU-dirty and none
  GPU-dirty, calls the callback once when some page of the range was GPU-dirty and never otherwise, and
  cannot end the process on the conflict of the two sources.
\<close>

theorem tracker_invalidate:
  assumes "tracker_inv base t" and "usable (pm_mapped (mt_pages t)) vaddr bytes"
    and "\<not> mt_in_upload t" and "\<And>pg. base pg < 0x7f"
    and "flushes base (touched vaddr bytes) t on_flush"
  shows "\<exists>t'. InvalidateRegion on_flush t vaddr bytes =
           Inr (if dirty_pages Gpu t \<inter> touched vaddr bytes = {} then 0 else 1, t') \<and>
           tracker_frame base t t' \<and>
           tracker_abs t' = (dirty_pages Cpu t \<union> touched vaddr bytes, dirty_pages Gpu t - touched vaddr bytes)"
proof -
  let ?P = "touched vaddr bytes" and ?cs = "chunks_of vaddr bytes"
  let ?G = "dirty_pages Gpu t" and ?C = "dirty_pages Cpu t"
  note u = assms(2)
  define Q where "Q pre n t' \<longleftrightarrow> tracker_frame base t t' \<and>
      (if ?G \<inter> chunk_pages pre = {} then n = (0::nat) \<and> tracker_abs t' = (?C \<union> chunk_pages pre, ?G)
       else n = 1 \<and> tracker_abs t' = (?C \<union> ?P, ?G - ?P))" for pre n t'
  have "\<exists>n t'. iterate False (invalidate_region on_flush) ?cs 0 t = Inr (n, t') \<and> Q ?cs n t'"
  proof (rule iterate_rule)
    show "Q [] 0 t" using tracker_frame_refl [OF assms(1)] by (simp add: Q_def tracker_abs_def)
    fix pre c post n t1
    assume cs: "?cs = pre @ c # post" and q: "Q pre n t1"
    have fr: "tracker_frame base t t1" using q by (simp add: Q_def)
    have inv1: "tracker_inv base t1" and u1: "usable (pm_mapped (mt_pages t1)) vaddr bytes"
      using fr u by (simp_all add: tracker_frame_def)
    have mem: "c \<in> set ?cs" by (simp add: cs)
    have sub: "chunk_pages [c] \<subseteq> ?P"
      unfolding chunk_pages_of [symmetric] cs by (auto simp: chunk_pages_def)
    note ch = invalidate_chunk [OF inv1 u1 mem assms(4), of on_flush n]
    show "\<exists>n' t'. iterate False (invalidate_region on_flush) [c] n t1 = Inr (n', t') \<and> Q (pre @ [c]) n' t'"
    proof (cases "dirty_pages Gpu t1 \<inter> chunk_pages [c] = {}")
      case True
      with ch obtain t2 where t2: "iterate False (invalidate_region on_flush) [c] n t1 = Inr (n, t2)"
        "tracker_frame base t1 t2" "dirty_pages Cpu t2 = dirty_pages Cpu t1 \<union> chunk_pages [c]"
        "dirty_pages Gpu t2 = dirty_pages Gpu t1" by blast
      have "Q (pre @ [c]) n t2"
        using q True t2(3,4) sub tracker_frame_trans [OF fr t2(2)]
        unfolding Q_def tracker_abs_def chunk_pages_simps(2) Int_Un_distrib
        by (cases "?G \<inter> chunk_pages pre = {}") (auto simp del: chunk_pages_simps)
      with t2(1) show ?thesis by blast
    next
      case False
      then have pre: "?G \<inter> chunk_pages pre = {}" using q sub by (auto simp: Q_def tracker_abs_def split: if_splits)
      obtain t2 where t2: "on_flush t1 = Inr t2" "tracker_frame base t1 t2"
        "tracker_abs t2 = (dirty_pages Cpu t1 \<union> ?P, dirty_pages Gpu t1 - ?P)"
        using assms(5) fr unfolding flushes_def by blast
      have "chunk_pages pre \<subseteq> ?P"
        unfolding chunk_pages_of [symmetric] cs by (auto simp: chunk_pages_def)
      then have "Q (pre @ [c]) (n + 1) t2"
        using q pre False t2(3) tracker_frame_trans [OF fr t2(2)]
        unfolding Q_def tracker_abs_def chunk_pages_simps(2) Int_Un_distrib
        by (auto simp del: chunk_pages_simps)
      moreover have "iterate False (invalidate_region on_flush) [c] n t1 = Inr (n + 1, t2)"
        using ch False t2(1) by simp
      ultimately show ?thesis by blast
    qed
  qed
  then obtain n t' where "iterate False (invalidate_region on_flush) ?cs 0 t = Inr (n, t')" "Q ?cs n t'" by blast
  moreover have "InvalidateRegion on_flush t vaddr bytes = iterate False (invalidate_region on_flush) ?cs 0 t"
    using assms(3) u
    by (simp add: InvalidateRegion_def CheckNotInUploadCallback_def ValidateRange_def usable_def
        Iterate_usable [OF u])
  ultimately show ?thesis by (cases "?G \<inter> ?P = {}") (auto simp: Q_def chunk_pages_of)
qed

text \<open>A callback that downloads nothing: it unmarks the range and marks it for the CPU.\<close>

definition give_back :: "nat \<Rightarrow> nat \<Rightarrow> tracker \<Rightarrow> tracker outcome" where
  "give_back vaddr bytes t =
     bind_outcome (UnmarkRegionAsGpuModified t vaddr bytes) (\<lambda>(_, t).
       bind_outcome (MarkRegionAsCpuModified t vaddr bytes) (\<lambda>(_, t). Inr t))"

lemma give_back_flushes:
  assumes "usable (pm_mapped (mt_pages t0)) vaddr bytes" "\<not> mt_in_upload t0" and room: "\<And>pg. base pg < 0x7f"
  shows "flushes base (touched vaddr bytes) t0 (give_back vaddr bytes)"
  unfolding flushes_def
proof (intro allI impI)
  fix t assume fr: "tracker_frame base t0 t"
  let ?P = "touched vaddr bytes"
  have inv: "tracker_inv base t" "usable (pm_mapped (mt_pages t)) vaddr bytes" and up: "\<not> mt_in_upload t"
    using fr assms by (simp_all add: tracker_frame_def)
  from clear_implements [OF inv room, where enable = False and source = Gpu] obtain t1 where
    1: "UnmarkRegionAsGpuModified t vaddr bytes = Inr ((), t1)" "tracker_frame base t t1"
      "tracker_abs t1 = (dirty_pages Cpu t, dirty_pages Gpu t - ?P)"
    using up by (auto simp: implements_def UnmarkRegionAsGpuModified_def CheckNotInUploadCallback_def)
  have inv1: "tracker_inv base t1" "usable (pm_mapped (mt_pages t1)) vaddr bytes" and up1: "\<not> mt_in_upload t1"
    using 1(2) inv up by (simp_all add: tracker_frame_def)
  have none: "(dirty_pages Gpu t - ?P) \<inter> ?P = {}" by blast
  from mark_implements [OF inv1 room, of Cpu] 1(3) obtain t2 where
    2: "MarkRegionAsCpuModified t1 vaddr bytes = Inr ((), t2)" "tracker_frame base t1 t2"
      "tracker_abs t2 = (dirty_pages Cpu t \<union> ?P, dirty_pages Gpu t - ?P)"
    using up1 none
    by (auto simp: implements_def mark_spec_def MarkRegionAsCpuModified_def CheckNotInUploadCallback_def)
  have "give_back vaddr bytes t = Inr t2" by (simp add: give_back_def 1(1) 2(1))
  with 2(3) tracker_frame_trans [OF 1(2) 2(2)]
  show "\<exists>t'. give_back vaddr bytes t = Inr t' \<and> tracker_frame base t t' \<and>
      tracker_abs t' = (dirty_pages Cpu t \<union> ?P, dirty_pages Gpu t - ?P)" by blast
qed

lemma tracker_invalidate_witness:
  "\<exists>uploads t t'.
     ForEachUploadRange True (new_tracker (new_page_manager (\<lambda>_. True))) 4190208 8192 = Inr (uploads, t) \<and>
     InvalidateRegion (give_back 4190208 8192) t 4190208 8192 = Inr (1, t') \<and> dirty_pages Gpu t' = {}"
proof -
  let ?t = "new_tracker (new_page_manager (\<lambda>_. True))"
  obtain uploads t where t: "ForEachUploadRange True ?t 4190208 8192 = Inr (uploads, t)"
    "tracker_frame (\<lambda>_. 0) ?t t" "dirty_pages Gpu t = touched 4190208 8192"
    using ForEachUploadRange_ok [OF tracker_example, of True] by (auto simp: tracker_abs_def new_tracker_pages)
  have ok: "tracker_inv (\<lambda>_. 0) t" "usable (pm_mapped (mt_pages t)) 4190208 8192" "\<not> mt_in_upload t"
    using t(2) tracker_example by (simp_all add: tracker_frame_def)
  have "flushes (\<lambda>_. 0) (touched 4190208 8192) t (give_back 4190208 8192)"
    by (rule give_back_flushes [OF ok(2,3)]) simp
  from tracker_invalidate [OF ok _ this] t touched_nonempty [of 8192 4190208] show ?thesis
    by (auto simp: tracker_abs_def)
qed

section \<open>Reachable trackers\<close>

text \<open>
  The operations on usable ranges, as steps. The flush function of \<open>InvalidateRegion\<close> is the caller's: any run of
  operations of the tracker, which may depend on the state it is called in.
\<close>

inductive tracker_step :: "tracker \<Rightarrow> tracker \<Rightarrow> bool" where
  ts_mark_cpu: "usable (pm_mapped (mt_pages t)) vaddr bytes \<Longrightarrow>
      MarkRegionAsCpuModified t vaddr bytes = Inr (u, t') \<Longrightarrow> tracker_step t t'"
| ts_mark_gpu: "usable (pm_mapped (mt_pages t)) vaddr bytes \<Longrightarrow>
      MarkRegionAsGpuModified t vaddr bytes = Inr (u, t') \<Longrightarrow> tracker_step t t'"
| ts_unmark: "usable (pm_mapped (mt_pages t)) vaddr bytes \<Longrightarrow>
      UnmarkRegionAsGpuModified t vaddr bytes = Inr (u, t') \<Longrightarrow> tracker_step t t'"
| ts_untrack: "usable (pm_mapped (mt_pages t)) vaddr bytes \<Longrightarrow>
      UntrackMemory t vaddr bytes = Inr (u, t') \<Longrightarrow> tracker_step t t'"
| ts_query_cpu: "usable (pm_mapped (mt_pages t)) vaddr bytes \<Longrightarrow>
      IsRegionCpuModified t vaddr bytes = Inr (r, t') \<Longrightarrow> tracker_step t t'"
| ts_query_gpu: "usable (pm_mapped (mt_pages t)) vaddr bytes \<Longrightarrow>
      IsRegionGpuModified t vaddr bytes = Inr (r, t') \<Longrightarrow> tracker_step t t'"
| ts_upload: "usable (pm_mapped (mt_pages t)) vaddr bytes \<Longrightarrow>
      ForEachUploadRange is_written t vaddr bytes = Inr (calls, t') \<Longrightarrow> tracker_step t t'"
| ts_download: "usable (pm_mapped (mt_pages t)) vaddr bytes \<Longrightarrow>
      ForEachDownloadRange clear t vaddr bytes = Inr (found, t') \<Longrightarrow> tracker_step t t'"
| ts_invalidate: "usable (pm_mapped (mt_pages t)) vaddr bytes \<Longrightarrow>
      (\<forall>s s'. on_flush s = Inr s' \<longrightarrow> tracker_step\<^sup>*\<^sup>* s s') \<Longrightarrow>
      InvalidateRegion on_flush t vaddr bytes = Inr (flushed, t') \<Longrightarrow> tracker_step t t'"

definition tracker_init :: "tracker \<Rightarrow> bool" where
  "tracker_init t \<longleftrightarrow> (\<exists>mapped. t = new_tracker (new_page_manager mapped))"

definition tracker_sys_inv :: "tracker \<Rightarrow> bool" where
  "tracker_sys_inv t \<longleftrightarrow> tracker_inv (\<lambda>_. 0) t \<and> \<not> mt_in_upload t"

lemma sys_inv_frame: "tracker_sys_inv t \<Longrightarrow> tracker_frame (\<lambda>_. 0) t t' \<Longrightarrow> tracker_sys_inv t'"
  by (simp add: tracker_sys_inv_def tracker_frame_def)

lemma implements_frame:
  "implements base t r v spec \<Longrightarrow> r = Inr (u, t') \<Longrightarrow> tracker_frame base t t'"
  by (cases spec) (auto simp: implements_def)

text \<open>An invalidation whose flushes keep the frame keeps it, whatever they flush.\<close>

lemma invalidate_frame:
  assumes i: "tracker_sys_inv t" and u: "usable (pm_mapped (mt_pages t)) vaddr bytes"
    and flush: "\<And>s s'. on_flush s = Inr s' \<Longrightarrow> tracker_sys_inv s \<Longrightarrow> tracker_frame (\<lambda>_. 0) s s'"
    and run: "InvalidateRegion on_flush t vaddr bytes = Inr (n, t')"
  shows "tracker_frame (\<lambda>_. 0) t t'"
proof -
  have chunk: "tracker_frame (\<lambda>_. 0) s s'"
    if c: "c \<in> set (chunks_of vaddr bytes)" and fr: "tracker_frame (\<lambda>_. 0) t s"
      and it: "iterate False (invalidate_region on_flush) [c] acc s = Inr (acc', s')" for c acc acc' s s'
  proof -
    have s: "tracker_sys_inv s" using sys_inv_frame [OF i fr] .
    then have "tracker_inv (\<lambda>_. 0) s" by (simp add: tracker_sys_inv_def)
    from invalidate_chunk [OF this _ c, of on_flush acc] u fr
    have ch: "dirty_pages Gpu s \<inter> chunk_pages [c] \<noteq> {} \<Longrightarrow>
        iterate False (invalidate_region on_flush) [c] acc s = bind_outcome (on_flush s) (\<lambda>t. Inr (acc + 1, t))"
      "dirty_pages Gpu s \<inter> chunk_pages [c] = {} \<Longrightarrow>
        \<exists>t'. iterate False (invalidate_region on_flush) [c] acc s = Inr (acc, t') \<and> tracker_frame (\<lambda>_. 0) s t'"
      by (simp_all add: tracker_frame_def) blast
    show ?thesis
    proof (cases "dirty_pages Gpu s \<inter> chunk_pages [c] = {}")
      case True
      then show ?thesis using ch(2) it by auto
    next
      case False
      then have "bind_outcome (on_flush s) (\<lambda>t. Inr (acc + 1, t)) = Inr (acc', s')" using ch(1) it by simp
      then have "on_flush s = Inr s'" by (auto simp: bind_outcome_Inr)
      then show ?thesis by (rule flush [OF _ s])
    qed
  qed
  have "set cs \<subseteq> set (chunks_of vaddr bytes) \<Longrightarrow> tracker_frame (\<lambda>_. 0) t s \<Longrightarrow>
      iterate False (invalidate_region on_flush) cs acc s = Inr (acc', s') \<Longrightarrow> tracker_frame (\<lambda>_. 0) t s'" for cs acc acc' s s'
  proof (induction cs arbitrary: acc s)
    case (Cons c cs)
    have "iterate False (invalidate_region on_flush) ([c] @ cs) acc s = Inr (acc', s')" using Cons.prems(3) by simp
    then obtain acc1 s1 where
      s1: "iterate False (invalidate_region on_flush) [c] acc s = Inr (acc1, s1)"
      "iterate False (invalidate_region on_flush) cs acc1 s1 = Inr (acc', s')"
      unfolding iterate_append bind_outcome_Inr by (auto simp del: iterate.simps)
    have "tracker_frame (\<lambda>_. 0) t s1"
      using tracker_frame_trans [OF Cons.prems(2) chunk [OF _ Cons.prems(2) s1(1)]] Cons.prems(1) by simp
    with Cons.IH [OF _ _ s1(2)] Cons.prems(1) show ?case by simp
  qed simp
  moreover have "tracker_frame (\<lambda>_. 0) t t" using i by (simp add: tracker_sys_inv_def tracker_frame_refl)
  moreover have "iterate False (invalidate_region on_flush) (chunks_of vaddr bytes) 0 t = Inr (n, t')"
    using run i u
    by (simp add: InvalidateRegion_def CheckNotInUploadCallback_def ValidateRange_def usable_def
        Iterate_usable [OF u] tracker_sys_inv_def)
  ultimately show ?thesis by blast
qed

lemma tracker_step_frame: "tracker_step t t' \<Longrightarrow> tracker_sys_inv t \<Longrightarrow> tracker_frame (\<lambda>_. 0) t t'"
proof (induction rule: tracker_step.induct)
  case (ts_mark_cpu t vaddr bytes u t')
  then have i: "tracker_inv (\<lambda>_. 0) t" "\<not> mt_in_upload t" by (simp_all add: tracker_sys_inv_def)
  from mark_implements [OF i(1) ts_mark_cpu(1), of Cpu] ts_mark_cpu(2) i(2) show ?case
    by (auto simp: MarkRegionAsCpuModified_def CheckNotInUploadCallback_def intro: implements_frame)
next
  case (ts_mark_gpu t vaddr bytes u t')
  then have i: "tracker_inv (\<lambda>_. 0) t" "\<not> mt_in_upload t" by (simp_all add: tracker_sys_inv_def)
  from mark_implements [OF i(1) ts_mark_gpu(1), of Gpu] ts_mark_gpu(2) i(2) show ?case
    by (auto simp: MarkRegionAsGpuModified_def CheckNotInUploadCallback_def intro: implements_frame)
next
  case (ts_unmark t vaddr bytes u t')
  then have i: "tracker_inv (\<lambda>_. 0) t" "\<not> mt_in_upload t" by (simp_all add: tracker_sys_inv_def)
  from clear_implements [OF i(1) ts_unmark(1), where enable = False and source = Gpu] ts_unmark(2) i(2)
  show ?case by (auto simp: UnmarkRegionAsGpuModified_def CheckNotInUploadCallback_def intro: implements_frame)
next
  case (ts_untrack t vaddr bytes u t')
  then have i: "tracker_inv (\<lambda>_. 0) t" "\<not> mt_in_upload t" by (simp_all add: tracker_sys_inv_def)
  from UntrackMemoryImpl_implements [OF i(1) ts_untrack(1)] ts_untrack(2) i(2) show ?case
    by (auto simp: UntrackMemory_def CheckNotInUploadCallback_def intro: implements_frame)
next
  case (ts_query_cpu t vaddr bytes r t')
  then have i: "tracker_inv (\<lambda>_. 0) t" "\<not> mt_in_upload t" by (simp_all add: tracker_sys_inv_def)
  from query_implements [OF i(1) ts_query_cpu(1), where create = True and source = Cpu] ts_query_cpu(2) i(2)
  show ?case by (auto simp: IsRegionCpuModified_def CheckNotInUploadCallback_def intro: implements_frame)
next
  case (ts_query_gpu t vaddr bytes r t')
  then have i: "tracker_inv (\<lambda>_. 0) t" "\<not> mt_in_upload t" by (simp_all add: tracker_sys_inv_def)
  from query_implements [OF i(1) ts_query_gpu(1), where create = False and source = Gpu] ts_query_gpu(2) i(2)
  show ?case by (auto simp: IsRegionGpuModified_def CheckNotInUploadCallback_def intro: implements_frame)
next
  case (ts_upload t vaddr bytes is_written calls t')
  then have i: "tracker_inv (\<lambda>_. 0) t" "\<not> mt_in_upload t" by (simp_all add: tracker_sys_inv_def)
  from ForEachUploadRange_ok [OF i(1) ts_upload(1) i(2), of is_written] ts_upload(2) show ?case by auto
next
  case (ts_download t vaddr bytes clear found t')
  then have i: "tracker_inv (\<lambda>_. 0) t" "\<not> mt_in_upload t" by (simp_all add: tracker_sys_inv_def)
  obtain a b s where "ForEachDownloadRange clear t vaddr bytes = Inr ((a, b), s)" "tracker_frame (\<lambda>_. 0) t s"
    using tracker_download_exact [OF i(1) ts_download(1) i(2), of clear] by auto
  with ts_download(2) show ?case by simp
next
  case (ts_invalidate t vaddr bytes on_flush flushed t')
  have "tracker_frame (\<lambda>_. 0) s s'" if f: "on_flush s = Inr s'" and s: "tracker_sys_inv s" for s s'
  proof -
    have "(\<lambda>s s'. tracker_step s s' \<and> (tracker_sys_inv s \<longrightarrow> tracker_frame (\<lambda>_. 0) s s'))\<^sup>*\<^sup>* s s'"
      using ts_invalidate.IH f by blast
    then show ?thesis
    proof (induction rule: rtranclp_induct)
      case base
      then show ?case using s by (simp add: tracker_sys_inv_def tracker_frame_refl)
    next
      case (step s1 s2)
      then show ?case using sys_inv_frame [OF s step.IH] tracker_frame_trans [OF step.IH] by blast
    qed
  qed
  from invalidate_frame [OF ts_invalidate.prems ts_invalidate.hyps(1) this ts_invalidate.hyps(2)] show ?case .
qed

lemma tracker_step_inv: "tracker_step t t' \<Longrightarrow> tracker_sys_inv t \<Longrightarrow> tracker_sys_inv t'"
  using tracker_step_frame sys_inv_frame by blast

interpretation memory_tracker: step_invariant tracker_init tracker_step tracker_sys_inv
proof
  show "tracker_init t \<Longrightarrow> tracker_sys_inv t" for t
    using new_tracker_inv by (auto simp: tracker_init_def tracker_sys_inv_def new_tracker_def)
  show "tracker_sys_inv s \<Longrightarrow> tracker_step s t \<Longrightarrow> tracker_sys_inv t" for s t
    by (rule tracker_step_inv)
qed

lemma tracker_inv_page:
  assumes "tracker_inv (\<lambda>_. 0) t"
  shows "pm_host (mt_pages t) pg =
           (if pg \<in> dirty_pages Gpu t then NO_ACCESS else if pg \<in> dirty_pages Cpu t then READ_WRITE else READ_ONLY)"
    and "\<not> (pg \<in> dirty_pages Gpu t \<and> pg \<in> dirty_pages Cpu t)"
proof -
  let ?i = "pg div REGION_PAGES" and ?j = "pg mod REGION_PAGES"
  have j: "?j < REGION_PAGES" and split: "?i * REGION_PAGES + ?j = pg" by simp_all
  have host: "pm_host (mt_pages t) pg = Perms (page_of (mt_pages t) pg)"
    using assms by (simp add: tracker_inv_def pm_ok_def)
  have w: "\<exists>C G. watched (\<lambda>_. 0) ?i C G (mt_pages t) \<and> (?j \<in> C \<longleftrightarrow> pg \<in> dirty_pages Cpu t) \<and>
      (?j \<in> G \<longleftrightarrow> pg \<in> dirty_pages Gpu t) \<and> \<not> (?j \<in> C \<and> ?j \<in> G)"
  proof (cases "mt_regions t ?i")
    case None
    with assms have "watched (\<lambda>_. 0) ?i {..<REGION_PAGES} {} (mt_pages t)"
      unfolding tracker_inv_def by (metis option.simps(4))
    with None j show ?thesis
      by (intro exI [of _ "{..<REGION_PAGES}"] exI [of _ "{}"]) (simp add: dirty_pages_def page_dirty_def)
  next
    case (Some rm)
    from tracker_inv_region [OF assms Some] show ?thesis
      by (intro exI [of _ "dirty Cpu rm"] exI [of _ "dirty Gpu rm"])
        (auto simp: region_inv_def region_ok_def dirty_pages_def page_dirty_def Some)
  qed
  then obtain C G where cg: "watched (\<lambda>_. 0) ?i C G (mt_pages t)" "?j \<in> C \<longleftrightarrow> pg \<in> dirty_pages Cpu t"
    "?j \<in> G \<longleftrightarrow> pg \<in> dirty_pages Gpu t" "\<not> (?j \<in> C \<and> ?j \<in> G)" by blast
  then show "\<not> (pg \<in> dirty_pages Gpu t \<and> pg \<in> dirty_pages Cpu t)" by blast
  have "page_of (mt_pages t) pg =
      \<lparr>write_watchers = (if ?j \<in> C then 0 else 1), access_watchers = (if ?j \<in> G then 1 else 0)\<rparr>"
    using cg(1) [unfolded watched_def, rule_format, OF j] by (simp only: split add_0)
  with host cg(2-4) show "pm_host (mt_pages t) pg =
      (if pg \<in> dirty_pages Gpu t then NO_ACCESS else if pg \<in> dirty_pages Cpu t then READ_WRITE else READ_ONLY)"
    by (simp add: Perms_def)
qed

abbreviation tracker_reachable :: "tracker \<Rightarrow> bool" where
  "tracker_reachable \<equiv> reachable tracker_init tracker_step"

text \<open>
  C36: the faults that keep CPU and GPU memory coherent are armed. In every tracker that any run of its
  operations on usable ranges reaches, invalidations with whatever they flush and downloads included, no page
  is dirty for both sides, every access to a GPU-dirty page faults, every write to a page that is clean
  faults, and CPU-dirty pages are free.
\<close>

theorem tracker_faults_armed:
  assumes "tracker_reachable t"
  shows "dirty_pages Cpu t \<inter> dirty_pages Gpu t = {} \<and>
         pm_host (mt_pages t) pg =
           (if pg \<in> dirty_pages Gpu t then NO_ACCESS else if pg \<in> dirty_pages Cpu t then READ_WRITE else READ_ONLY)"
proof -
  have "tracker_inv (\<lambda>_. 0) t" using memory_tracker.reachable_inv [OF assms] by (simp add: tracker_sys_inv_def)
  from tracker_inv_page [OF this] show ?thesis by blast
qed

lemma tracker_faults_armed_witness:
  "\<exists>uploads t. ForEachUploadRange True (new_tracker (new_page_manager (\<lambda>_. True))) 4190208 8192 = Inr (uploads, t) \<and>
     pm_host (mt_pages t) 1023 = NO_ACCESS \<and> pm_host (mt_pages t) 1025 = READ_WRITE"
proof -
  let ?t = "new_tracker (new_page_manager (\<lambda>_. True))"
  obtain uploads t where t: "ForEachUploadRange True ?t 4190208 8192 = Inr (uploads, t)"
    "tracker_abs t = (UNIV - touched 4190208 8192, touched 4190208 8192)"
    using ForEachUploadRange_ok [OF tracker_example, of True] by (auto simp: new_tracker_pages)
  have "tracker_init ?t" by (auto simp: tracker_init_def)
  with ts_upload [OF tracker_example(2) t(1)] have "tracker_reachable t" by (blast intro: reachable.intros)
  from tracker_faults_armed [OF this, of 1023] tracker_faults_armed [OF this, of 1025]
  have *: "pm_host (mt_pages t) 1023 = (if 1023 \<in> touched 4190208 8192 then NO_ACCESS else READ_WRITE)"
    "pm_host (mt_pages t) 1025 = (if 1025 \<in> touched 4190208 8192 then NO_ACCESS else READ_WRITE)"
    using t(2) by (simp_all add: tracker_abs_def)
  have "1023 \<in> touched 4190208 8192"
    unfolding touched_def by (rule image_eqI [of _ _ 4190208]) (simp_all add: PAGE_SIZE_def)
  moreover have "1025 \<notin> touched 4190208 8192"
    by (auto simp: touched_def PAGE_SIZE_def)
  ultimately show ?thesis using * t(1) by auto
qed

end
