(* ===== verification/RangeSet.thy ===== *)
theory RangeSet
  imports Prelude
begin

text \<open>
  The byte ranges of src/src/graphics/host_gpu/rangeSet.h. The \<open>std::map\<close> from the first byte of a range
  to the byte after its last is the list of its entries in key order, and an iterator into it is the split
  of the list at its position. Addresses are naturals below \<open>2^64\<close>: \<open>End\<close> ends the process where the sum
  would wrap.
\<close>

section \<open>State and operations\<close>

type_synonym range_map = "(nat \<times> nat) list"

definition End :: "nat \<Rightarrow> nat \<Rightarrow> nat outcome" where
  "End address bytes = exit_if (bytes = 0 \<or> bytes > UINT64_MAX - address) (Inr (address + bytes))"

text \<open>\<open>lower_bound\<close> and \<open>upper_bound\<close>: what is before the iterator, and what it points at on.\<close>

definition lower_bound :: "nat \<Rightarrow> range_map \<Rightarrow> range_map \<times> range_map" where
  "lower_bound key m = (takeWhile (\<lambda>r. fst r < key) m, dropWhile (\<lambda>r. fst r < key) m)"

definition upper_bound :: "nat \<Rightarrow> range_map \<Rightarrow> range_map \<times> range_map" where
  "upper_bound key m = (takeWhile (\<lambda>r. fst r \<le> key) m, dropWhile (\<lambda>r. fst r \<le> key) m)"

definition step_back :: "range_map \<times> range_map \<Rightarrow> range_map \<times> range_map" where
  "step_back it = (butlast (fst it), last (fst it) # snd it)"

text \<open>\<open>emplace\<close> keeps an entry that has the key already.\<close>

fun emplace :: "nat \<Rightarrow> nat \<Rightarrow> range_map \<Rightarrow> range_map" where
  "emplace k v [] = [(k, v)]"
| "emplace k v ((a, b) # m) =
     (if k < a then (k, v) # (a, b) # m else if k = a then (a, b) # m else (a, b) # emplace k v m)"

fun absorb :: "nat \<Rightarrow> nat \<Rightarrow> range_map \<Rightarrow> nat \<times> nat \<times> range_map" where
  "absorb begin1 last1 [] = (begin1, last1, [])"
| "absorb begin1 last1 ((a, b) # m) =
     (if a \<le> last1 then absorb (min begin1 a) (max last1 b) m else (begin1, last1, (a, b) # m))"

definition Add :: "nat \<Rightarrow> nat \<Rightarrow> range_map \<Rightarrow> range_map outcome" where
  "Add address bytes m =
     bind_outcome (End address bytes) (\<lambda>end1.
       let it = lower_bound address m;
           it = (if fst it \<noteq> [] \<and> snd (last (fst it)) \<ge> address then step_back it else it);
           (begin1, last1, rest) = absorb address end1 (snd it)
       in Inr (emplace begin1 last1 (fst it @ rest)))"

fun subtract_loop :: "nat \<Rightarrow> nat \<Rightarrow> range_map \<Rightarrow> range_map \<Rightarrow> range_map" where
  "subtract_loop address end1 before [] = before"
| "subtract_loop address end1 before ((a, b) # m) =
     (if a < end1
      then let before = (if a < address then emplace a address before else before)
           in if b > end1 then emplace end1 b (before @ m)
              else subtract_loop address end1 before m
      else before @ (a, b) # m)"

definition Subtract :: "nat \<Rightarrow> nat \<Rightarrow> range_map \<Rightarrow> range_map outcome" where
  "Subtract address bytes m =
     bind_outcome (End address bytes) (\<lambda>end1.
       let it = lower_bound address m;
           it = (if fst it \<noteq> [] \<and> snd (last (fst it)) > address then step_back it else it)
       in Inr (subtract_loop address end1 (fst it) (snd it)))"

definition range_Clear :: "range_map \<Rightarrow> range_map" where
  "range_Clear m = []"

definition range_Empty_map :: "range_map \<Rightarrow> bool" where
  "range_Empty_map m \<longleftrightarrow> m = []"

text \<open>The calls \<open>func(begin, end)\<close> of \<open>ForEach\<close>.\<close>

definition range_ForEach :: "range_map \<Rightarrow> (nat \<times> nat) list" where
  "range_ForEach m = m"

definition Intersects :: "nat \<Rightarrow> nat \<Rightarrow> range_map \<Rightarrow> bool outcome" where
  "Intersects address bytes m =
     bind_outcome (End address bytes) (\<lambda>end1.
       let it = lower_bound address m
       in if fst it \<noteq> [] \<and> snd (last (fst it)) > address then Inr True
          else Inr (snd it \<noteq> [] \<and> fst (hd (snd it)) < end1))"

definition Contains :: "nat \<Rightarrow> nat \<Rightarrow> range_map \<Rightarrow> bool outcome" where
  "Contains address bytes m =
     bind_outcome (End address bytes) (\<lambda>end1.
       let it = upper_bound address m
       in if fst it = [] then Inr False
          else let r = last (fst it) in Inr (fst r \<le> address \<and> snd r \<ge> end1))"

fun intersection_loop :: "nat \<Rightarrow> nat \<Rightarrow> range_map \<Rightarrow> (nat \<times> nat) list" where
  "intersection_loop address end1 [] = []"
| "intersection_loop address end1 ((a, b) # m) =
     (if a < end1
      then let begin1 = max address a; last1 = min end1 b
           in (if begin1 < last1 then [(begin1, last1 - begin1)] else []) @ intersection_loop address end1 m
      else [])"

text \<open>The address and size of every call.\<close>

definition ForEachIntersection :: "nat \<Rightarrow> nat \<Rightarrow> range_map \<Rightarrow> (nat \<times> nat) list outcome" where
  "ForEachIntersection address bytes m =
     bind_outcome (End address bytes) (\<lambda>end1.
       let it = upper_bound address m;
           it = (if fst it \<noteq> [] then step_back it else it)
       in Inr (intersection_loop address end1 (snd it)))"

definition Intersections :: "nat \<Rightarrow> nat \<Rightarrow> range_map \<Rightarrow> (nat \<times> nat) list outcome" where
  "Intersections address bytes m = ForEachIntersection address bytes m"

section \<open>Positions in a separated map\<close>

text \<open>
  \<open>Add\<close> and \<open>Subtract\<close> step back over an entry that reaches the address, \<open>Add\<close> also over one that ends
  there. \<open>R\<close> is that test on the entry's end; either way the iterator is at the first entry that passes it.
\<close>

definition reaches :: "nat \<Rightarrow> (nat \<Rightarrow> bool) \<Rightarrow> bool" where
  "reaches address R \<longleftrightarrow> (\<forall>e. e < address \<longrightarrow> \<not> R e) \<and> (\<forall>e. e > address \<longrightarrow> R e)"

lemma reaches_tests [simp]: "reaches address (\<lambda>e. address \<le> e)" "reaches address (\<lambda>e. address < e)"
  by (simp_all add: reaches_def)

abbreviation until :: "(nat \<Rightarrow> bool) \<Rightarrow> range_map \<Rightarrow> range_map" where
  "until R m \<equiv> takeWhile (\<lambda>r. \<not> R (snd r)) m"

abbreviation from_on :: "(nat \<Rightarrow> bool) \<Rightarrow> range_map \<Rightarrow> range_map" where
  "from_on R m \<equiv> dropWhile (\<lambda>r. \<not> R (snd r)) m"

lemma step_back_split:
  assumes "separated s m" "reaches address R"
  shows "(if fst (lower_bound address m) \<noteq> [] \<and> R (snd (last (fst (lower_bound address m))))
          then step_back (lower_bound address m) else lower_bound address m) = (until R m, from_on R m)"
  using assms(1)
proof (induction s m rule: separated.induct)
  case (2 s a b m)
  then have m: "separated (b + 1) m" and ab: "a < b" by simp_all
  note IH = "2.IH" [OF m] and R = assms(2) [unfolded reaches_def]
  show ?case
  proof (cases "a < address")
    case True
    show ?thesis
    proof (cases "takeWhile (\<lambda>r. fst r < address) m = []")
      case nil: True
      have hd: "m = [] \<or> address \<le> fst (hd m)" using nil by (cases m) (auto split: if_splits)
      then have "m = [] \<or> R (snd (hd m))" using m R by (cases m) auto
      then have "until R m = []" "from_on R m = m" by (cases m; simp)+
      moreover have "dropWhile (\<lambda>r. fst r < address) m = m" using hd by (cases m) auto
      ultimately show ?thesis using True nil by (simp add: lower_bound_def step_back_def)
    next
      case False
      then obtain c d m' where "m = (c, d) # m'" "c < address" by (cases m) (auto split: if_splits)
      then have "\<not> R b" using m R by simp
      with False True IH show ?thesis by (simp add: lower_bound_def step_back_def split: if_splits)
    qed
  qed (use ab R in \<open>simp add: lower_bound_def\<close>)
qed (simp add: lower_bound_def)

lemma split_separated:
  assumes "separated s m" "reaches address R"
  shows "until R m @ from_on R m = m"
    and "separated s (until R m)"
    and "\<forall>r\<in>set (until R m). fst r < snd r \<and> \<not> R (snd r) \<and> snd r \<le> address"
    and "\<forall>r\<in>set (from_on R m). address \<le> snd r \<and> R (snd r)"
    and "separated (if until R m = [] then s else snd (last (until R m)) + 1) (from_on R m)"
proof -
  show m: "until R m @ from_on R m = m" by simp
  then show s: "separated s (until R m)"
    "separated (if until R m = [] then s else snd (last (until R m)) + 1) (from_on R m)"
    using assms(1) separated_append by metis+
  show "\<forall>r\<in>set (until R m). fst r < snd r \<and> \<not> R (snd r) \<and> snd r \<le> address"
  proof
    fix r assume r: "r \<in> set (until R m)"
    then have "\<not> R (snd r)" by (metis (no_types, lifting) set_takeWhileD)
    moreover have "fst r < snd r" using separated_bound [OF s(1), of "fst r" "snd r"] r by simp
    ultimately show "fst r < snd r \<and> \<not> R (snd r) \<and> snd r \<le> address"
      using assms(2) by (meson reaches_def not_le)
  qed
  have "separated s m \<Longrightarrow> \<forall>r\<in>set (from_on R m). R (snd r)" for s
  proof (induction s m rule: separated.induct)
    case (2 s a b m)
    show ?case
    proof (cases "R b")
      case True
      have "R (snd r)" if "r \<in> set m" for r
      proof -
        have "b + 1 \<le> fst r" "fst r < snd r"
          using separated_bound [of "b + 1" m "fst r" "snd r"] 2(2) that by simp_all
        moreover have "address \<le> b" using True assms(2) by (meson reaches_def not_le)
        ultimately have "address < snd r" by simp
        with assms(2) show ?thesis by (simp add: reaches_def)
      qed
      with True show ?thesis by simp
    next
      case False
      then have "from_on R ((a, b) # m) = from_on R m" by simp
      moreover have "\<forall>r\<in>set (from_on R m). R (snd r)" using "2.IH" 2(2) by fastforce
      ultimately show ?thesis by (simp only:)
    qed
  qed simp
  then show "\<forall>r\<in>set (from_on R m). address \<le> snd r \<and> R (snd r)"
    using assms unfolding reaches_def by (meson not_le)
qed

lemma separated_before: "separated s (xs @ (p, l) # ys) \<Longrightarrow> r \<in> set xs \<Longrightarrow> fst r < p \<and> snd r < p"
proof (induction s xs rule: separated.induct)
  case (2 s a b xs)
  from 2(2) have "separated (b + 1) (xs @ (p, l) # ys)" "a < b" by simp_all
  moreover from this have "b + 1 \<le> p" using separated_bound [of "b + 1" "xs @ (p, l) # ys" p l] by simp
  ultimately show ?case using 2(1,3) by auto
qed simp

lemma emplace_between:
  assumes "separated s (xs @ (k, v) # ys)"
  shows "emplace k v (xs @ ys) = xs @ (k, v) # ys"
proof -
  have "\<forall>r\<in>set xs. fst r < k" using separated_before [OF assms] by blast
  moreover have "ys = [] \<or> k < fst (hd ys)" using assms by (cases ys) (auto simp: separated_append)
  ultimately show ?thesis
  proof (induction xs)
    case Nil
    then show ?case by (cases ys) auto
  qed auto
qed

lemma End_ok: "0 < bytes \<Longrightarrow> address + bytes \<le> UINT64_MAX \<Longrightarrow> End address bytes = Inr (address + bytes)"
  by (simp add: End_def)

section \<open>Adding and subtracting\<close>

lemma absorb_spec:
  assumes "separated t m" "p < l" "\<forall>r\<in>set m. p \<le> snd r" "absorb p l m = (p', l', m')"
  shows "{p'..<l'} \<union> covered m' = {p..<l} \<union> covered m \<and> p' < l' \<and> separated (l' + 1) m' \<and>
         min p t \<le> p' \<and> p' \<le> p \<and> l \<le> l'"
  using assms
proof (induction m arbitrary: t p l)
  case (Cons r m)
  obtain a b where r: "r = (a, b)" by (cases r)
  with Cons.prems have ab: "a < b" "t \<le> a" "p \<le> b" "separated (b + 1) m" "\<forall>r\<in>set m. p \<le> snd r" by simp_all
  show ?case
  proof (cases "a \<le> l")
    case True
    have "\<forall>r\<in>set m. min p a \<le> snd r" using ab(5) by auto
    moreover have "min p a < max l b" using Cons.prems(2) by simp
    moreover have "absorb (min p a) (max l b) m = (p', l', m')" using Cons.prems(4) True r by simp
    ultimately have IH: "{p'..<l'} \<union> covered m' = {min p a..<max l b} \<union> covered m" "p' < l'"
        "separated (l' + 1) m'" "min (min p a) (b + 1) \<le> p'" "p' \<le> min p a" "max l b \<le> l'"
      using Cons.IH [OF ab(4)] by blast+
    moreover have "{min p a..<max l b} = {p..<l} \<union> {a..<b}" using True ab Cons.prems(2) by auto
    ultimately show ?thesis using r ab(1-3) by (auto simp: min_def split: if_splits)
  next
    case False
    with Cons.prems r show ?thesis by auto
  qed
qed auto

text \<open>The map after \<open>Add\<close>: everything it touches becomes one range.\<close>

lemma Add_ok:
  assumes m: "separated 0 m" and n: "0 < bytes" "address + bytes \<le> UINT64_MAX"
  shows "\<exists>m'. Add address bytes m = Inr m' \<and> separated 0 m' \<and>
           covered m' = covered m \<union> {address..<address + bytes}"
proof -
  let ?R = "\<lambda>e. address \<le> e"
  let ?xs = "until ?R m" and ?ys = "from_on ?R m"
  let ?t = "if ?xs = [] then 0 else snd (last ?xs) + 1"
  note sp = split_separated [OF m reaches_tests(1) [of address]]
  obtain p l rest where ab: "absorb address (address + bytes) ?ys = (p, l, rest)" by (metis surj_pair)
  have ge: "\<forall>r\<in>set ?ys. address \<le> snd r" using sp(4) by blast
  have a: "{p..<l} \<union> covered rest = {address..<address + bytes} \<union> covered ?ys" "p < l" "separated (l + 1) rest"
    "min address ?t \<le> p"
    using absorb_spec [OF sp(5) _ ge ab] n(1) by simp_all
  have "?t \<le> address" using sp(3) last_in_set [of ?xs] by fastforce
  with a(4) have "?t \<le> p" by simp
  then have sep: "separated 0 (?xs @ (p, l) # rest)"
    unfolding separated_append using sp(2) a(2,3) by auto
  have "Add address bytes m = Inr (emplace p l (?xs @ rest))"
    using step_back_split [OF m reaches_tests(1) [of address]] ab
    by (simp only: Add_def End_ok [OF n] bind_outcome.simps Let_def fst_conv snd_conv prod.case)
  moreover have "covered (?xs @ (p, l) # rest) = covered m \<union> {address..<address + bytes}"
  proof -
    have "covered m = covered ?xs \<union> covered ?ys" by (metis sp(1) covered_append)
    with a(1) show ?thesis by auto
  qed
  ultimately show ?thesis using sep emplace_between [OF sep] by metis
qed

lemma subtract_loop_spec:
  assumes "separated s (xs @ ys)" "\<forall>r\<in>set xs. snd r \<le> p" "\<forall>r\<in>set ys. p < snd r" "p < q"
  shows "separated s (subtract_loop p q xs ys) \<and> covered (subtract_loop p q xs ys) = covered (xs @ ys) - {p..<q}"
  using assms
proof (induction p q xs ys rule: subtract_loop.induct)
  case (1 p q xs)
  have "covered xs \<inter> {p..<q} = {}" using 1(2) by (fastforce simp: covered_iff)
  with 1 show ?case by auto
next
  case (2 p q xs a b ys)
  have ab: "a < b" "p < b" using 2(2,4) separated_bound [OF 2(2), of a b] by auto
  have left: "covered xs \<inter> {p..<q} = {}" using 2(3) by (fastforce simp: covered_iff)
  have seps: "separated s xs" "(if xs = [] then s else snd (last xs) + 1) \<le> a" "separated (b + 1) ys"
    using 2(2) unfolding separated_append by simp_all
  have right: "b + 1 \<le> x" if "x \<in> covered ys" for x using covered_bound [OF seps(3) that] .
  have cov: "covered (xs @ (a, b) # ys) = covered xs \<union> {a..<b} \<union> covered ys" by auto
  show ?case
  proof (cases "a < q")
    case False
    then have "covered ((a, b) # ys) \<inter> {p..<q} = {}" using right ab by fastforce
    with left have "(covered xs \<union> covered ((a, b) # ys)) - {p..<q} = covered xs \<union> covered ((a, b) # ys)" by blast
    with False 2(2) show ?thesis by simp
  next
    case True
    define xs' where "xs' = (if a < p then xs @ [(a, p)] else xs)"
    have sep1: "separated s xs'" and t: "(if xs' = [] then s else snd (last xs') + 1) \<le> max a p + 1"
      using seps by (auto simp: xs'_def separated_append)
    have em: "(if a < p then emplace a p xs else xs) = xs'"
      using emplace_between [of s xs a p "[]"] sep1 by (auto simp: xs'_def)
    have below: "\<forall>r\<in>set xs'. snd r \<le> p" using 2(3) by (simp add: xs'_def)
    have t': "(if xs' = [] then s else snd (last xs') + 1) \<le> max (if a < p then p + 1 else a) s"
      using seps by (auto simp: xs'_def)
    have cov': "covered xs' = covered xs \<union> ({a..<b} - {p..})"
      using ab by (auto simp: xs'_def)
    show ?thesis
    proof (cases "b > q")
      case True
      have "separated s (xs' @ (q, b) # ys)"
        unfolding separated_append using sep1 seps True \<open>a < q\<close> 2(5) by (auto simp: xs'_def)
      from this emplace_between [OF this] True \<open>a < q\<close> em
      have res: "separated s (subtract_loop p q xs ((a, b) # ys))"
        "subtract_loop p q xs ((a, b) # ys) = xs' @ (q, b) # ys" by simp_all
      have "{a..<b} - {p..<q} = ({a..<b} - {p..}) \<union> {q..<b}" using \<open>a < q\<close> 2(5) by auto
      moreover have "covered ys - {p..<q} = covered ys" using right True by fastforce
      ultimately have "covered (xs' @ (q, b) # ys) = covered (xs @ (a, b) # ys) - {p..<q}"
        unfolding cov Un_Diff using left cov' by auto
      with res show ?thesis by simp
    next
      case False
      have "separated (if xs' = [] then s else snd (last xs') + 1) ys"
        by (rule separated_mono [OF seps(3)]) (use seps ab in \<open>auto simp: xs'_def split: if_splits\<close>)
      with sep1 have "separated s (xs' @ ys)" by (simp add: separated_append)
      moreover have "\<forall>r\<in>set ys. p < snd r" using 2(4) by simp
      ultimately have IH: "separated s (subtract_loop p q xs' ys)"
        "covered (subtract_loop p q xs' ys) = covered (xs' @ ys) - {p..<q}"
        using "2.IH" [OF \<open>a < q\<close> em [symmetric] False _ below _ 2(5)] by blast+
      moreover have "subtract_loop p q xs ((a, b) # ys) = subtract_loop p q xs' ys"
        using False \<open>a < q\<close> em by simp
      moreover have "{a..<b} - {p..<q} = {a..<b} - {p..}" using False by auto
      then have "covered (xs @ (a, b) # ys) - {p..<q} = covered (xs' @ ys) - {p..<q}"
        unfolding cov covered_append Un_Diff cov' by auto
      ultimately show ?thesis by simp
    qed
  qed
qed

lemma Subtract_ok:
  assumes m: "separated 0 m" and n: "0 < bytes" "address + bytes \<le> UINT64_MAX"
  shows "\<exists>m'. Subtract address bytes m = Inr m' \<and> separated 0 m' \<and>
           covered m' = covered m - {address..<address + bytes}"
proof -
  let ?R = "\<lambda>e. address < e"
  let ?xs = "until ?R m" and ?ys = "from_on ?R m"
  note sp = split_separated [OF m reaches_tests(2) [of address]]
  have sep: "separated 0 (?xs @ ?ys)" unfolding sp(1) by (rule m)
  have le: "\<forall>r\<in>set ?xs. snd r \<le> address" and gt: "\<forall>r\<in>set ?ys. address < snd r" using sp(3,4) by blast+
  have "address < address + bytes" using n(1) by simp
  from subtract_loop_spec [OF sep le gt this]
  have "separated 0 (subtract_loop address (address + bytes) ?xs ?ys) \<and>
      covered (subtract_loop address (address + bytes) ?xs ?ys) = covered (?xs @ ?ys) - {address..<address + bytes}" .
  moreover have "Subtract address bytes m = Inr (subtract_loop address (address + bytes) ?xs ?ys)"
    using step_back_split [OF m reaches_tests(2) [of address]]
    by (simp only: Subtract_def End_ok [OF n] bind_outcome.simps Let_def fst_conv snd_conv)
  ultimately show ?thesis unfolding sp(1) by blast
qed

section \<open>Queries\<close>

lemma covered_split: "separated s (xs @ ys) \<Longrightarrow> covered (xs @ ys) = covered xs \<union> covered ys"
  by simp

lemma Intersects_ok:
  assumes m: "separated 0 m" and n: "0 < bytes" "address + bytes \<le> UINT64_MAX"
  shows "Intersects address bytes m = Inr (covered m \<inter> {address..<address + bytes} \<noteq> {})"
proof -
  let ?I = "{address..<address + bytes}"
  let ?xs = "takeWhile (\<lambda>r. fst r < address) m" and ?ys = "dropWhile (\<lambda>r. fst r < address) m"
  have split: "separated 0 (?xs @ ?ys)" using m by simp
  have cov: "covered m = covered ?xs \<union> covered ?ys" by (metis takeWhile_dropWhile_id covered_append)
  have lt: "\<forall>r\<in>set ?xs. fst r < address" by (auto dest: set_takeWhileD)
  have xs: "covered ?xs \<inter> ?I \<noteq> {} \<longleftrightarrow> ?xs \<noteq> [] \<and> address < snd (last ?xs)"
  proof (cases "?xs = []")
    case False
    then obtain zs a b where zs: "?xs = zs @ [(a, b)]" by (metis append_butlast_last_id surj_pair)
    have sep: "separated 0 (zs @ (a, b) # [])" using split zs by (simp add: separated_append)
    have a: "a < address" using lt zs by auto
    have "covered zs \<inter> ?I = {}" using separated_before [OF sep] a by (fastforce simp: covered_iff)
    moreover have "{a..<b} \<inter> ?I \<noteq> {} \<longleftrightarrow> address < b" using a n(1) by auto
    ultimately show ?thesis unfolding zs by (simp add: Int_Un_distrib2)
  qed simp
  have ys: "covered ?ys \<inter> ?I \<noteq> {} \<longleftrightarrow> ?ys \<noteq> [] \<and> fst (hd ?ys) < address + bytes"
  proof (cases ?ys)
    case (Cons r zs)
    obtain a b where r: "r = (a, b)" by (cases r)
    have a: "address \<le> a" using hd_dropWhile [of "\<lambda>r. fst r < address" m] Cons r by auto
    have sep: "separated a ((a, b) # zs)" using split Cons r by (auto simp: separated_append)
    have "a \<le> x" if "x \<in> covered ?ys" for x using covered_bound [OF sep] that Cons r by simp
    moreover have "a \<in> covered ?ys" using sep Cons r by simp
    ultimately show ?thesis using a Cons r by fastforce
  next
    case Nil
    show ?thesis unfolding Nil by simp
  qed
  show ?thesis
    unfolding Intersects_def End_ok [OF n] bind_outcome.simps Let_def lower_bound_def fst_conv snd_conv
      cov Int_Un_distrib2 Un_empty de_Morgan_conj xs ys
    by simp
qed

text \<open>The entry an \<open>upper_bound\<close> search steps back to, with what it leaves behind.\<close>

lemma upper_bound_split:
  fixes address :: nat
  assumes "separated 0 m"
  defines "xs \<equiv> takeWhile (\<lambda>r. fst r \<le> address) m" and "ys \<equiv> dropWhile (\<lambda>r. fst r \<le> address) m"
  shows "upper_bound address m = (xs, ys)" "covered m = covered xs \<union> covered ys" "separated 0 (xs @ ys)"
    and "\<And>x. x \<in> covered ys \<Longrightarrow> address < x"
    and "xs \<noteq> [] \<Longrightarrow> \<exists>zs a b. xs = zs @ [(a, b)] \<and> a \<le> address \<and> a < b \<and>
           (\<forall>x\<in>covered zs. x < a) \<and> (\<forall>x\<in>covered ys. b < x)"
proof -
  show "upper_bound address m = (xs, ys)" by (simp add: upper_bound_def xs_def ys_def)
  have m: "xs @ ys = m" by (simp add: xs_def ys_def)
  then show sep: "separated 0 (xs @ ys)" using assms(1) by simp
  show "covered m = covered xs \<union> covered ys" using m covered_append by metis
  show above: "address < x" if "x \<in> covered ys" for x
  proof (cases ys)
    case (Cons r zs)
    obtain a b where r: "r = (a, b)" by (cases r)
    have "address < a" using hd_dropWhile [of "\<lambda>r. fst r \<le> address" m] unfolding ys_def [symmetric] Cons r by simp
    moreover have "separated a ((a, b) # zs)" using sep Cons r by (auto simp: separated_append)
    from covered_bound [OF this] that Cons r have "a \<le> x" by simp
    ultimately show ?thesis by simp
  qed (use that in simp)
  assume "xs \<noteq> []"
  then obtain zs a b where zs: "xs = zs @ [(a, b)]" by (metis append_butlast_last_id surj_pair)
  have in1: "(a, b) \<in> set xs" by (simp add: zs)
  then have "a \<le> address" unfolding xs_def by (auto dest: set_takeWhileD)
  moreover have "separated 0 (zs @ (a, b) # ys)" using sep zs by simp
  then have "separated (b + 1) ys" "a < b" "\<forall>r\<in>set zs. snd r < a"
    using separated_before by (auto simp: separated_append)
  moreover from this have "\<forall>x\<in>covered zs. x < a" by (fastforce simp: covered_iff)
  moreover have "\<forall>x\<in>covered ys. b < x" using covered_bound [OF \<open>separated (b + 1) ys\<close>] by fastforce
  ultimately show "\<exists>zs a b. xs = zs @ [(a, b)] \<and> a \<le> address \<and> a < b \<and>
      (\<forall>x\<in>covered zs. x < a) \<and> (\<forall>x\<in>covered ys. b < x)" using zs by blast
qed

lemma Contains_ok:
  assumes m: "separated 0 m" and n: "0 < bytes" "address + bytes \<le> UINT64_MAX"
  shows "Contains address bytes m = Inr ({address..<address + bytes} \<subseteq> covered m)"
proof -
  let ?xs = "takeWhile (\<lambda>r. fst r \<le> address) m" and ?ys = "dropWhile (\<lambda>r. fst r \<le> address) m"
  note s = upper_bound_split [OF m, where address = address]
  show ?thesis
  proof (cases "?xs = []")
    case True
    have "address \<notin> covered m" unfolding s(2) True using s(4) by auto
    moreover have "address \<in> {address..<address + bytes}" using n(1) by simp
    ultimately have "\<not> {address..<address + bytes} \<subseteq> covered m" by blast
    with s(1) True show ?thesis by (simp add: Contains_def End_ok [OF n] Let_def)
  next
    case False
    then obtain zs a b where zs: "?xs = zs @ [(a, b)]" "a \<le> address" "a < b" "\<forall>x\<in>covered zs. x < a"
      "\<forall>x\<in>covered ?ys. b < x" using s(5) by blast
    have cov: "covered m = covered zs \<union> {a..<b} \<union> covered ?ys" unfolding s(2) zs(1) by auto
    have "{address..<address + bytes} \<subseteq> covered m \<longleftrightarrow> address + bytes \<le> b"
    proof
      assume sub: "{address..<address + bytes} \<subseteq> covered m"
      show "address + bytes \<le> b"
      proof (rule ccontr)
        assume "\<not> address + bytes \<le> b"
        then have "max address b \<in> {address..<address + bytes}" using n(1) by auto
        then have "max address b \<in> covered m" using sub by blast
        moreover have "\<not> max address b < a" using zs(3) by simp
        then have "max address b \<notin> covered zs" using zs(4) by blast
        moreover have "max address b \<notin> {a..<b}" by simp
        ultimately have in_ys: "max address b \<in> covered ?ys" unfolding cov by blast
        have "b < max address b" by (rule bspec [OF zs(5) in_ys])
        moreover have "address < max address b" by (rule s(4) [OF in_ys])
        ultimately show False by simp
      qed
    next
      assume "address + bytes \<le> b"
      then show "{address..<address + bytes} \<subseteq> covered m" unfolding cov using zs(2) by auto
    qed
    moreover have "Contains address bytes m = Inr (a \<le> address \<and> address + bytes \<le> b)"
      unfolding Contains_def End_ok [OF n] bind_outcome.simps Let_def s(1) fst_conv snd_conv
      by (simp only: False if_False) (simp only: zs(1) last_snoc fst_conv snd_conv)
    ultimately show ?thesis using zs(2) by simp
  qed
qed

text \<open>The pieces, as the pairs of their first byte and the byte after the last.\<close>

abbreviation pieces :: "(nat \<times> nat) list \<Rightarrow> (nat \<times> nat) list" where
  "pieces \<equiv> map (\<lambda>(a, n). (a, a + n))"

lemma intersection_loop_spec:
  assumes "separated t m"
  shows "separated t (pieces (intersection_loop p q m)) \<and>
         covered (pieces (intersection_loop p q m)) = covered m \<inter> {p..<q}"
  using assms
proof (induction p q m arbitrary: t rule: intersection_loop.induct)
  case (2 p q a b m)
  then have m: "separated (b + 1) m" and ab: "a < b" "t \<le> a" by simp_all
  show ?case
  proof (cases "a < q")
    case True
    from "2.IH" [OF True refl refl m]
    have IH: "separated (b + 1) (pieces (intersection_loop p q m))"
      "covered (pieces (intersection_loop p q m)) = covered m \<inter> {p..<q}" by simp_all
    have "({a..<b} \<union> covered m) \<inter> {p..<q} = {max p a..<min q b} \<union> (covered m \<inter> {p..<q})" by auto
    moreover have "separated t (pieces (intersection_loop p q m))"
      using separated_mono [OF IH(1)] ab by simp
    moreover have "separated (min q b + 1) (pieces (intersection_loop p q m))"
      using separated_mono [OF IH(1)] by simp
    moreover have "t \<le> max p a" using ab by simp
    moreover have "{max p a..<min q b} = {}" if "\<not> max p a < min q b" using that by simp
    moreover have "max p a + (min q b - max p a) = min q b" if "max p a < min q b" using that by simp
    ultimately show ?thesis using True IH(2)
      by (cases "max p a < min q b") (simp_all add: Let_def del: min_less_iff_conj max_less_iff_conj)
  next
    case False
    have "({a..<b} \<union> covered m) \<inter> {p..<q} = {}" using False ab covered_bound [OF m] by fastforce
    with False show ?thesis by simp
  qed
qed simp

lemma ForEachIntersection_ok:
  assumes m: "separated 0 m" and n: "0 < bytes" "address + bytes \<le> UINT64_MAX"
  shows "\<exists>calls. ForEachIntersection address bytes m = Inr calls \<and> separated 0 (pieces calls) \<and>
           covered (pieces calls) = covered m \<inter> {address..<address + bytes}"
proof -
  let ?xs = "takeWhile (\<lambda>r. fst r \<le> address) m" and ?ys = "dropWhile (\<lambda>r. fst r \<le> address) m"
  note s = upper_bound_split [OF m, where address = address]
  show ?thesis
  proof (cases "?xs = []")
    case True
    then have "?ys = m" by (metis append_Nil takeWhile_dropWhile_id)
    with s(1) True have "ForEachIntersection address bytes m = Inr (intersection_loop address (address + bytes) m)"
      by (simp add: ForEachIntersection_def End_ok [OF n] Let_def)
    with intersection_loop_spec [OF m] show ?thesis by simp
  next
    case False
    then obtain zs a b where zs: "?xs = zs @ [(a, b)]" "a \<le> address" "a < b" "\<forall>x\<in>covered zs. x < a"
      "\<forall>x\<in>covered ?ys. b < x" using s(5) by blast
    have cov: "covered m \<inter> {address..<address + bytes} = covered ((a, b) # ?ys) \<inter> {address..<address + bytes}"
      unfolding s(2) zs(1) using zs(2,4) by fastforce
    have "separated 0 ((a, b) # ?ys)"
      by (rule separated_mono [of "if zs = [] then 0 else snd (last zs) + 1"])
        (use s(3) zs(1) in \<open>simp_all add: separated_append\<close>)
    note this [THEN intersection_loop_spec, of address "address + bytes"]
    moreover have "ForEachIntersection address bytes m =
        Inr (intersection_loop address (address + bytes) ((a, b) # ?ys))"
      unfolding ForEachIntersection_def End_ok [OF n] bind_outcome.simps Let_def s(1) fst_conv snd_conv
      by (simp only: False if_True not_False_eq_True step_back_def fst_conv snd_conv) (simp only: zs(1) last_snoc)
    ultimately show ?thesis unfolding cov by blast
  qed
qed

section \<open>The contract of a byte set\<close>

text \<open>
  What the buffer and image caches use: a set of bytes that ranges are added to and taken from, and asked
  about. A representation with one value for each set (\<open>canonical\<close>) may compare values for sets.
\<close>

locale byte_set =
  fixes ok :: "'r \<Rightarrow> bool" and mem :: "'r \<Rightarrow> nat set"
    and add sub :: "nat \<Rightarrow> nat \<Rightarrow> 'r \<Rightarrow> 'r outcome" and valid :: "nat \<Rightarrow> nat \<Rightarrow> bool"
  assumes add_ok: "ok m \<Longrightarrow> valid a n \<Longrightarrow> \<exists>m'. add a n m = Inr m' \<and> ok m' \<and> mem m' = mem m \<union> {a..<a + n}"
    and sub_ok: "ok m \<Longrightarrow> valid a n \<Longrightarrow> \<exists>m'. sub a n m = Inr m' \<and> ok m' \<and> mem m' = mem m - {a..<a + n}"
    and canonical: "ok m \<Longrightarrow> ok m' \<Longrightarrow> mem m = mem m' \<Longrightarrow> m = m'"
begin

lemma add_twice: "ok m \<Longrightarrow> valid a n \<Longrightarrow> bind_outcome (add a n m) (add a n) = add a n m"
  using add_ok canonical by (smt (verit) Un_absorb Un_assoc bind_outcome.simps(2))

lemma add_commute:
  assumes "ok m" "valid a n" "valid b k"
  shows "bind_outcome (add a n m) (add b k) = bind_outcome (add b k m) (add a n)"
proof -
  obtain m1 m2 where 1: "add a n m = Inr m1" "ok m1" "mem m1 = mem m \<union> {a..<a + n}"
    and 2: "add b k m = Inr m2" "ok m2" "mem m2 = mem m \<union> {b..<b + k}"
    using add_ok assms by meson
  obtain m3 m4 where 3: "add b k m1 = Inr m3" "ok m3" "mem m3 = mem m1 \<union> {b..<b + k}"
    and 4: "add a n m2 = Inr m4" "ok m4" "mem m4 = mem m2 \<union> {a..<a + n}"
    using add_ok 1(2) 2(2) assms by meson
  have "m3 = m4" by (rule canonical [OF 3(2) 4(2)]) (use 1(3) 2(3) 3(3) 4(3) in auto)
  with 1 2 3 4 show ?thesis by simp
qed

lemma sub_after_add:
  assumes "ok m" "valid a n" "mem m \<inter> {a..<a + n} = {}"
  shows "bind_outcome (add a n m) (sub a n) = Inr m"
proof -
  obtain m1 where 1: "add a n m = Inr m1" "ok m1" "mem m1 = mem m \<union> {a..<a + n}" using add_ok assms by meson
  obtain m2 where 2: "sub a n m1 = Inr m2" "ok m2" "mem m2 = mem m1 - {a..<a + n}" using sub_ok 1(2) assms by meson
  have "m2 = m" by (rule canonical [OF 2(2) assms(1)]) (use 1(3) 2(3) assms(3) in auto)
  with 1 2 show ?thesis by simp
qed

end

definition byte_range :: "nat \<Rightarrow> nat \<Rightarrow> bool" where
  "byte_range address bytes \<longleftrightarrow> 0 < bytes \<and> address + bytes \<le> UINT64_MAX"

interpretation range_set: byte_set "separated 0" covered Add Subtract byte_range
proof
  show "separated 0 m \<Longrightarrow> byte_range a n \<Longrightarrow>
      \<exists>m'. Add a n m = Inr m' \<and> separated 0 m' \<and> covered m' = covered m \<union> {a..<a + n}" for m a n
    using Add_ok [of m n a] by (simp add: byte_range_def)
  show "separated 0 m \<Longrightarrow> byte_range a n \<Longrightarrow>
      \<exists>m'. Subtract a n m = Inr m' \<and> separated 0 m' \<and> covered m' = covered m - {a..<a + n}" for m a n
    using Subtract_ok [of m n a] by (simp add: byte_range_def)
  show "separated 0 m \<Longrightarrow> separated 0 m' \<Longrightarrow> covered m = covered m' \<Longrightarrow> m = m'" for m m'
    by (rule separated_unique)
qed

section \<open>Properties\<close>

lemma End_exit: "\<not> byte_range address bytes \<Longrightarrow> address \<le> UINT64_MAX \<Longrightarrow> End address bytes = Inl EXIT"
  by (auto simp: byte_range_def End_def exit_if_def)

text \<open>
  C37: the map of ranges is a set of bytes. On a coalesced map \<open>Add\<close> is union, \<open>Subtract\<close> is difference,
  both leave a coalesced map (sorted, non-empty, a gap between any two), and an empty range or one that
  leaves the 64-bit addresses ends the process.
\<close>

theorem range_set_refines_bytes:
  assumes "separated 0 m" and "address \<le> UINT64_MAX"
  shows "if byte_range address bytes
         then (\<exists>m'. Add address bytes m = Inr m' \<and> separated 0 m' \<and> covered m' = covered m \<union> {address..<address + bytes}) \<and>
              (\<exists>m'. Subtract address bytes m = Inr m' \<and> separated 0 m' \<and> covered m' = covered m - {address..<address + bytes})
         else Add address bytes m = Inl EXIT \<and> Subtract address bytes m = Inl EXIT"
  using range_set.add_ok [OF assms(1)] range_set.sub_ok [OF assms(1)] End_exit [OF _ assms(2)]
  by (auto simp: Add_def Subtract_def)

lemma range_set_refines_bytes_witness:
  "(\<exists>m'. Add 20 10 [(10, 20), (40, 50)] = Inr m' \<and> separated 0 m' \<and>
      covered m' = covered [(10, 20), (40, 50)] \<union> {20..<30}) \<and>
   Add 20 10 [(10, 20), (40, 50)] = Inr [(10, 30), (40, 50)]"
proof -
  have "separated 0 [(10, 20), (40, 50)]" "(20::nat) \<le> UINT64_MAX" "byte_range 20 10"
    by (simp_all add: UINT64_MAX_def byte_range_def)
  from range_set_refines_bytes [OF this(1,2), of 10] this(3)
  have "\<exists>m'. Add 20 10 [(10, 20), (40, 50)] = Inr m' \<and> separated 0 m' \<and>
      covered m' = covered [(10, 20), (40, 50)] \<union> {20..<30}" by simp
  then show ?thesis by (simp add: Add_def End_def UINT64_MAX_def lower_bound_def step_back_def)
qed

text \<open>
  C38: the queries on the map answer for the bytes. \<open>Intersects\<close> and \<open>Contains\<close> say whether some or every
  byte of the range is in the set, and \<open>Intersections\<close> lists exactly the bytes of the range that are, as
  separate ranges in increasing order.
\<close>

theorem range_queries_exact:
  assumes "separated 0 m" and "byte_range address bytes"
  shows "Intersects address bytes m = Inr (covered m \<inter> {address..<address + bytes} \<noteq> {}) \<and>
         Contains address bytes m = Inr ({address..<address + bytes} \<subseteq> covered m) \<and>
         (\<exists>calls. Intersections address bytes m = Inr calls \<and> separated 0 (pieces calls) \<and>
            covered (pieces calls) = covered m \<inter> {address..<address + bytes})"
  using Intersects_ok [OF assms(1)] Contains_ok [OF assms(1)] ForEachIntersection_ok [OF assms(1)] assms(2)
  by (simp add: byte_range_def Intersections_def)

lemma range_queries_exact_witness:
  "Intersects 18 30 [(10, 20), (40, 50)] = Inr True \<and> Contains 18 30 [(10, 20), (40, 50)] = Inr False \<and>
   Intersections 18 30 [(10, 20), (40, 50)] = Inr [(18, 2), (40, 8)]"
proof -
  let ?m = "[(10, 20), (40, 50)] :: range_map"
  have "separated 0 ?m" "byte_range 18 30" by (simp_all add: UINT64_MAX_def byte_range_def)
  note q = range_queries_exact [OF this]
  have "18 \<in> covered ?m \<inter> {18..<18 + 30}" by simp
  then have "covered ?m \<inter> {18..<18 + 30} \<noteq> {}" by blast
  moreover have "30 \<in> {18..<18 + 30 :: nat}" "30 \<notin> covered ?m" by simp_all
  then have "\<not> {18..<18 + 30} \<subseteq> covered ?m" by blast
  moreover have "Intersections 18 30 ?m = Inr [(18, 2), (40, 8)]"
    by (simp add: Intersections_def ForEachIntersection_def End_def UINT64_MAX_def upper_bound_def step_back_def)
  ultimately show ?thesis using q by (simp only: simp_thms)
qed

text \<open>
  Equal sets of bytes have equal maps, so adding twice is adding once, adding commutes, and taking
  away what was added to free bytes restores the map itself.
\<close>

theorem range_set_canonical:
  assumes "separated 0 m" and "byte_range a n" and "byte_range b k"
  shows "bind_outcome (Add a n m) (Add a n) = Add a n m \<and>
         bind_outcome (Add a n m) (Add b k) = bind_outcome (Add b k m) (Add a n) \<and>
         (covered m \<inter> {a..<a + n} = {} \<longrightarrow> bind_outcome (Add a n m) (Subtract a n) = Inr m)"
  using range_set.add_twice [OF assms(1,2)] range_set.add_commute [OF assms]
    range_set.sub_after_add [OF assms(1,2)] by blast

lemma range_set_canonical_witness:
  "bind_outcome (Add 20 10 [(10, 20), (40, 50)]) (Subtract 20 10) = Inr [(10, 20), (40, 50)]"
proof -
  have "separated 0 [(10, 20), (40, 50)]" "byte_range 20 10"
    by (simp_all add: UINT64_MAX_def byte_range_def)
  moreover have "covered [(10, 20), (40, 50)] \<inter> {20..<20 + 10} = {}" by auto
  ultimately show ?thesis using range_set_canonical [of _ 20 10 20 10] by blast
qed

end
