(* ===== verification/DirtyValidation.thy ===== *)
theory DirtyValidation
  imports MemoryTracker RangeSet
begin

text \<open>
  The debug checks of src/src/graphics/host_gpu/memoryTracker.cpp that compare the tracker's pages with
  the bytes a cache says the GPU wrote: \<open>ValidateGpuDirtyPages\<close> and \<open>ValidateGpuDirtyOwnership\<close>.
  Both walk the pages of a range; the walk is over the list of page addresses.
\<close>

definition page_addresses :: "nat \<Rightarrow> nat \<Rightarrow> nat list" where
  "page_addresses begin1 end1 = map (\<lambda>i. begin1 + i * PAGE_SIZE) [0..<(end1 - begin1 + PAGE_SIZE - 1) div PAGE_SIZE]"

definition has_dirty_bytes :: "range_map \<Rightarrow> nat \<Rightarrow> bool outcome" where
  "has_dirty_bytes owned page =
     bind_outcome (ForEachIntersection page PAGE_SIZE owned) (\<lambda>calls. Inr (calls \<noteq> []))"

fun check_pages :: "range_map \<Rightarrow> nat list \<Rightarrow> unit outcome" where
  "check_pages owned [] = Inr ()"
| "check_pages owned (page # pages) =
     bind_outcome (has_dirty_bytes owned page) (\<lambda>found. exit_if (\<not> found) (check_pages owned pages))"

definition ValidateGpuDirtyPages :: "range_map \<Rightarrow> nat \<Rightarrow> nat \<Rightarrow> unit outcome" where
  "ValidateGpuDirtyPages owned vaddr bytes =
     exit_if (\<not> range_Valid \<lparr>gr_address = vaddr, gr_size = bytes\<rparr> \<or> vaddr mod PAGE_SIZE \<noteq> 0 \<or>
              bytes mod PAGE_SIZE \<noteq> 0)
       (check_pages owned (page_addresses vaddr (vaddr + bytes)))"

fun check_ownership :: "range_map \<Rightarrow> nat list \<Rightarrow> tracker \<Rightarrow> tracker outcome" where
  "check_ownership owned [] t = Inr t"
| "check_ownership owned (page # pages) t =
     bind_outcome (has_dirty_bytes owned page) (\<lambda>found.
       bind_outcome (IsRegionGpuModified t page PAGE_SIZE) (\<lambda>(modified, t).
         exit_if (modified \<noteq> found) (check_ownership owned pages t)))"

definition ValidateGpuDirtyOwnership :: "range_map \<Rightarrow> tracker \<Rightarrow> nat \<Rightarrow> nat \<Rightarrow> tracker outcome" where
  "ValidateGpuDirtyOwnership owned t vaddr bytes =
     bind_outcome (ValidateRange vaddr bytes) (\<lambda>_.
       check_ownership owned (page_addresses (PageStart vaddr) (PageStart (vaddr + bytes + PAGE_SIZE - 1))) t)"

section \<open>What the checks decide\<close>

definition page_bytes_of :: "nat \<Rightarrow> nat set" where
  "page_bytes_of pg = {pg * PAGE_SIZE..<pg * PAGE_SIZE + PAGE_SIZE}"

lemma pieces_empty: "separated 0 (pieces calls) \<Longrightarrow> calls = [] \<longleftrightarrow> covered (pieces calls) = {}"
proof (cases calls)
  case (Cons c cs)
  assume "separated 0 (pieces calls)"
  with Cons show ?thesis by (cases c) auto
qed simp

lemma has_dirty_bytes_ok:
  assumes "separated 0 owned" "pg * PAGE_SIZE < ADDRESS_SIZE"
  shows "has_dirty_bytes owned (pg * PAGE_SIZE) = Inr (covered owned \<inter> page_bytes_of pg \<noteq> {})"
proof -
  have "pg * PAGE_SIZE + PAGE_SIZE \<le> UINT64_MAX" using assms(2) by (simp add: tracker_sizes UINT64_MAX_def)
  then obtain calls where "ForEachIntersection (pg * PAGE_SIZE) PAGE_SIZE owned = Inr calls"
    "separated 0 (pieces calls)" "covered (pieces calls) = covered owned \<inter> page_bytes_of pg"
    using ForEachIntersection_ok [OF assms(1), of PAGE_SIZE "pg * PAGE_SIZE"]
    by (auto simp: page_bytes_of_def)
  then show ?thesis using pieces_empty [of calls] by (simp add: has_dirty_bytes_def)
qed

lemma page_addresses_touched:
  assumes "0 < bytes"
  shows "page_addresses (PageStart vaddr) (PageStart (vaddr + bytes + PAGE_SIZE - 1)) =
         map (\<lambda>pg. pg * PAGE_SIZE) [vaddr div PAGE_SIZE..<(vaddr + bytes - 1) div PAGE_SIZE + 1]"
proof -
  let ?a = "vaddr div PAGE_SIZE" and ?b = "(vaddr + bytes - 1) div PAGE_SIZE + 1"
  have b: "(vaddr + bytes + PAGE_SIZE - 1) div PAGE_SIZE = ?b"
    using assms by (simp add: PAGE_SIZE_def)
  have "?b * PAGE_SIZE - ?a * PAGE_SIZE + PAGE_SIZE - 1 = (?b - ?a) * PAGE_SIZE + (PAGE_SIZE - 1)"
    unfolding diff_mult_distrib by (simp add: PAGE_SIZE_def)
  then have n: "(?b * PAGE_SIZE - ?a * PAGE_SIZE + PAGE_SIZE - 1) div PAGE_SIZE = ?b - ?a"
    by (simp only: div_mult_self3) (simp add: PAGE_SIZE_def)
  have "page_addresses (PageStart vaddr) (PageStart (vaddr + bytes + PAGE_SIZE - 1)) =
      map (\<lambda>i. (?a + i) * PAGE_SIZE) [0..<?b - ?a]"
    unfolding page_addresses_def PageStart_def b n by (simp add: add_mult_distrib)
  also have "\<dots> = map (\<lambda>pg. pg * PAGE_SIZE) (map (\<lambda>i. i + ?a) [0..<?b - ?a])"
    by (simp add: add.commute)
  also have "\<dots> = map (\<lambda>pg. pg * PAGE_SIZE) [?a..<?b]"
    by (simp only: map_add_upt) (simp add: div_le_mono)
  finally show ?thesis .
qed

text \<open>The pages the GPU owns are the pages with owned bytes, on a set of pages.\<close>

definition ownership_agrees :: "range_map \<Rightarrow> tracker \<Rightarrow> nat set \<Rightarrow> bool" where
  "ownership_agrees owned t S \<longleftrightarrow>
     (\<forall>pg\<in>S. pg \<in> dirty_pages Gpu t \<longleftrightarrow> covered owned \<inter> page_bytes_of pg \<noteq> {})"

lemma page_usable:
  assumes "usable mapped vaddr bytes" "pg \<in> touched vaddr bytes"
  shows "usable mapped (pg * PAGE_SIZE) PAGE_SIZE" "touched (pg * PAGE_SIZE) PAGE_SIZE = {pg}"
    "pg * PAGE_SIZE < ADDRESS_SIZE"
proof -
  have r: "PAGE_SIZE \<le> vaddr" "vaddr + bytes \<le> ADDRESS_SIZE" "0 < bytes"
    using assms(1) by (auto simp: usable_def range_Valid_def)
  obtain x where x: "pg = x div PAGE_SIZE" "vaddr \<le> x" "x < vaddr + bytes" using assms(2) by (auto simp: touched_def)
  have le: "pg * PAGE_SIZE \<le> x" "x < pg * PAGE_SIZE + PAGE_SIZE"
    unfolding x(1) using dividend_less_div_times [of PAGE_SIZE x] by (simp_all add: add.commute)
  show lt: "pg * PAGE_SIZE < ADDRESS_SIZE" using le x(2,3) r(2) by linarith
  have "pg < ADDRESS_SIZE div PAGE_SIZE" using lt by (simp add: tracker_sizes)
  then have top: "pg * PAGE_SIZE + PAGE_SIZE \<le> ADDRESS_SIZE" by (simp add: tracker_sizes)
  have pos: "PAGE_SIZE \<le> pg * PAGE_SIZE"
    using r(1) x by (simp add: x(1) tracker_sizes)
  show t: "touched (pg * PAGE_SIZE) PAGE_SIZE = {pg}"
    unfolding touched_interval [OF tracker_sizes_pos(1)] by (auto simp: PAGE_SIZE_def)
  show "usable mapped (pg * PAGE_SIZE) PAGE_SIZE"
    unfolding usable_def t using assms top pos lt by (auto simp: usable_def range_Valid_def PAGE_SIZE_def)
qed

lemma check_ownership_ok:
  assumes "separated 0 owned" "set pgs \<subseteq> touched vaddr bytes"
    and "tracker_inv base t" "usable (pm_mapped (mt_pages t)) vaddr bytes" "\<not> mt_in_upload t"
  shows "if ownership_agrees owned t (set pgs)
         then \<exists>t'. check_ownership owned (map (\<lambda>pg. pg * PAGE_SIZE) pgs) t = Inr t' \<and>
                tracker_frame base t t' \<and> tracker_abs t' = tracker_abs t
         else check_ownership owned (map (\<lambda>pg. pg * PAGE_SIZE) pgs) t = Inl EXIT"
  using assms
proof (induction pgs arbitrary: t)
  case Nil
  then show ?case by (simp add: ownership_agrees_def tracker_frame_refl)
next
  case (Cons pg pgs)
  have "pg \<in> touched vaddr bytes" using Cons.prems(2) by simp
  note p = page_usable [OF Cons.prems(4) this]
  note h = has_dirty_bytes_ok [OF Cons.prems(1) p(3)]
  obtain t1 where t1: "IsRegionGpuModified t (pg * PAGE_SIZE) PAGE_SIZE = Inr (pg \<in> dirty_pages Gpu t, t1)"
    "tracker_frame base t t1" "tracker_abs t1 = tracker_abs t"
    using query_implements [OF Cons.prems(3) p(1), where create = False and source = Gpu] Cons.prems(5) p(2)
    by (auto simp: implements_def IsRegionGpuModified_def CheckNotInUploadCallback_def)
  have t1': "tracker_inv base t1" "usable (pm_mapped (mt_pages t1)) vaddr bytes" "\<not> mt_in_upload t1"
    using t1(2) Cons.prems(4,5) by (simp_all add: tracker_frame_def)
  have same: "ownership_agrees owned t1 S = ownership_agrees owned t S" for S
    using t1(3) by (simp add: ownership_agrees_def tracker_abs_def)
  have sub: "set pgs \<subseteq> touched vaddr bytes" using Cons.prems(2) by simp
  note IH = Cons.IH [OF Cons.prems(1) sub t1', unfolded same t1(3)]
  have step: "check_ownership owned (map (\<lambda>pg. pg * PAGE_SIZE) (pg # pgs)) t =
      exit_if ((pg \<in> dirty_pages Gpu t) \<noteq> (covered owned \<inter> page_bytes_of pg \<noteq> {}))
        (check_ownership owned (map (\<lambda>pg. pg * PAGE_SIZE) pgs) t1)"
    using h t1(1) by simp
  have agr: "ownership_agrees owned t (set (pg # pgs)) \<longleftrightarrow>
      (pg \<in> dirty_pages Gpu t \<longleftrightarrow> covered owned \<inter> page_bytes_of pg \<noteq> {}) \<and> ownership_agrees owned t (set pgs)"
    by (simp add: ownership_agrees_def)
  show ?case
  proof (cases "pg \<in> dirty_pages Gpu t \<longleftrightarrow> covered owned \<inter> page_bytes_of pg \<noteq> {}")
    case True
    then show ?thesis
      unfolding step agr using IH tracker_frame_trans [OF t1(2)] by (auto split: if_splits)
  next
    case False
    then show ?thesis unfolding step agr by simp
  qed
qed

text \<open>
  C39: \<open>ValidateGpuDirtyOwnership\<close> passes exactly when the tracker and the byte ownership agree on every
  page of the range: the GPU owns the page in the tracker when, and only when, some byte of it is in the
  set. It changes neither page set and ends the process on the first page they disagree on.
\<close>

theorem ownership_validated:
  assumes "separated 0 owned" and "tracker_inv base t"
    and "usable (pm_mapped (mt_pages t)) vaddr bytes" and "\<not> mt_in_upload t"
  shows "if ownership_agrees owned t (touched vaddr bytes)
         then \<exists>t'. ValidateGpuDirtyOwnership owned t vaddr bytes = Inr t' \<and>
                tracker_frame base t t' \<and> tracker_abs t' = tracker_abs t
         else ValidateGpuDirtyOwnership owned t vaddr bytes = Inl EXIT"
proof -
  have n: "0 < bytes" using assms(3) by (simp add: usable_def range_Valid_def)
  let ?pgs = "[vaddr div PAGE_SIZE..<(vaddr + bytes - 1) div PAGE_SIZE + 1]"
  have set: "set ?pgs = touched vaddr bytes" by (simp only: set_upt touched_interval [OF n])
  have eq: "ValidateGpuDirtyOwnership owned t vaddr bytes = check_ownership owned (map (\<lambda>pg. pg * PAGE_SIZE) ?pgs) t"
  proof -
    have "ValidateRange vaddr bytes = Inr ()" using assms(3) by (simp add: ValidateRange_def usable_def)
    then show ?thesis
      unfolding ValidateGpuDirtyOwnership_def page_addresses_touched [OF n] by (simp only: bind_outcome.simps)
  qed
  from check_ownership_ok [OF assms(1) _ assms(2-4), of ?pgs, unfolded set] show ?thesis
    unfolding eq by blast
qed

lemma ownership_validated_witness:
  "ValidateGpuDirtyOwnership [(4096, 4097)] (new_tracker (new_page_manager (\<lambda>_. True))) 4190208 8192 \<noteq> Inl EXIT \<and>
   ValidateGpuDirtyOwnership [(4190208, 4190209)] (new_tracker (new_page_manager (\<lambda>_. True))) 4190208 8192 = Inl EXIT"
proof -
  let ?t = "new_tracker (new_page_manager (\<lambda>_. True))"
  have sep: "separated 0 [(4096, 4097)]" "separated 0 [(4190208, 4190209)]" by simp_all
  have t: "touched 4190208 8192 = {1023, 1024}" by (subst touched_interval) (auto simp: PAGE_SIZE_def)
  have "ownership_agrees [(4096, 4097)] ?t (touched 4190208 8192)"
    by (simp add: t ownership_agrees_def new_tracker_pages page_bytes_of_def PAGE_SIZE_def)
  moreover have "4190208 \<in> covered [(4190208, 4190209)] \<inter> page_bytes_of 1023"
    by (simp add: page_bytes_of_def PAGE_SIZE_def)
  then have "\<not> ownership_agrees [(4190208, 4190209)] ?t (touched 4190208 8192)"
    unfolding t ownership_agrees_def new_tracker_pages by blast
  ultimately show ?thesis
    using ownership_validated [OF sep(1) tracker_example] ownership_validated [OF sep(2) tracker_example] by auto
qed

end
