(* ===== verification/WaitRegistry.thy ===== *)
theory WaitRegistry
  imports Prelude "HOL-Library.AList" "HOL-Library.Multiset"
begin

text \<open>
  The labels that suspended command buffers wait on: src/src/graphics/guest_gpu/waitRegistry.cpp, with
  \<open>TestWaitRegMemValue\<close> and \<open>CommandProcessor::WaitRegMem\<close> of src/src/graphics/guest_gpu/graphicsRun.cpp.
  The map from labels to waiters is an association list in an arbitrary order; guest memory is a function
  from addresses to bytes, the clock is a parameter of the operations that read it. An operation runs
  under the registry's lock.
\<close>

section \<open>State and operations\<close>

record waiter =
  wtr_address :: u64
  wtr_reference :: u64
  wtr_mask :: u64
  wtr_function :: u32
  wtr_is64 :: bool
  wtr_latched :: bool
  wtr_registered_tick :: u64
  wtr_last_produced :: u64
  wtr_produced_valid :: bool
  wtr_produced_frame :: u64

record registry =
  wr_waiters :: "(u64 \<times> waiter list) list"
  wr_frame_id :: u64

definition new_registry :: registry where
  "new_registry = \<lparr>wr_waiters = [], wr_frame_id = 0\<rparr>"

definition TestWaitRegMemValue :: "u64 \<Rightarrow> u64 \<Rightarrow> u64 \<Rightarrow> u32 \<Rightarrow> bool outcome" where
  "TestWaitRegMemValue value ref msk func =
     (if func = 0 then Inr True
      else if func = 1 then Inr (value AND msk < ref)
      else if func = 2 then Inr (value AND msk \<le> ref)
      else if func = 3 then Inr (value AND msk = ref)
      else if func = 4 then Inr (value AND msk \<noteq> ref)
      else if func = 5 then Inr (value AND msk \<ge> ref)
      else if func = 6 then Inr (value AND msk > ref)
      else Inl EXIT)"

definition Compare :: "waiter \<Rightarrow> u64 \<Rightarrow> bool outcome" where
  "Compare w value = TestWaitRegMemValue value (wtr_reference w) (wtr_mask w) (wtr_function w)"

text \<open>Little-endian reads of a label.\<close>

definition read_label :: "(u64 \<Rightarrow> u8) \<Rightarrow> u64 \<Rightarrow> bool \<Rightarrow> u64" where
  "read_label mem a is64 =
     word_rcat (rev (map (\<lambda>i. mem (a + word_of_nat i)) [0..<if is64 then 8 else 4]))"

definition same_waiter :: "waiter \<Rightarrow> waiter \<Rightarrow> bool" where
  "same_waiter v w \<longleftrightarrow> wtr_function v = wtr_function w \<and> wtr_reference v = wtr_reference w \<and>
     wtr_mask v = wtr_mask w \<and> wtr_is64 v = wtr_is64 w"

fun refresh :: "waiter \<Rightarrow> u64 \<Rightarrow> waiter list \<Rightarrow> waiter list option" where
  "refresh w now [] = None"
| "refresh w now (v # vs) =
     (if same_waiter v w then Some (v\<lparr>wtr_latched := False, wtr_registered_tick := now\<rparr> # vs)
      else map_option ((#) v) (refresh w now vs))"

definition bucket :: "registry \<Rightarrow> u64 \<Rightarrow> waiter list" where
  "bucket r a = (case map_of (wr_waiters r) a of None \<Rightarrow> [] | Some ws \<Rightarrow> ws)"

definition Register :: "waiter \<Rightarrow> u64 \<Rightarrow> registry \<Rightarrow> registry" where
  "Register w now r =
     (case refresh w now (bucket r (wtr_address w)) of
        Some ws \<Rightarrow> r\<lparr>wr_waiters := AList.update (wtr_address w) ws (wr_waiters r)\<rparr>
      | None \<Rightarrow>
          let registered = w\<lparr>wtr_latched := False, wtr_registered_tick := now, wtr_produced_frame := wr_frame_id r\<rparr>
          in r\<lparr>wr_waiters := AList.update (wtr_address w) (bucket r (wtr_address w) @ [registered]) (wr_waiters r)\<rparr>)"

text \<open>The loop both collectors run: the waiters taken, and the registry without them and without empty buckets.\<close>

fun collect_bucket :: "(waiter \<Rightarrow> bool outcome) \<Rightarrow> waiter list \<Rightarrow> (waiter list \<times> waiter list) outcome" where
  "collect_bucket release [] = Inr ([], [])"
| "collect_bucket release (w # ws) =
     bind_outcome (release w) (\<lambda>b.
       bind_outcome (collect_bucket release ws) (\<lambda>(taken, kept).
         Inr (if b then (w # taken, kept) else (taken, w # kept))))"

fun collect_all ::
    "(waiter \<Rightarrow> bool outcome) \<Rightarrow> (u64 \<times> waiter list) list \<Rightarrow> (waiter list \<times> (u64 \<times> waiter list) list) outcome" where
  "collect_all release [] = Inr ([], [])"
| "collect_all release ((a, ws) # m) =
     bind_outcome (collect_bucket release ws) (\<lambda>(taken, kept).
       bind_outcome (collect_all release m) (\<lambda>(taken', m').
         Inr (taken @ taken', if kept = [] then m' else (a, kept) # m')))"

definition satisfied :: "(u64 \<Rightarrow> u8) \<Rightarrow> waiter \<Rightarrow> bool outcome" where
  "satisfied mem w =
     (if wtr_latched w then Inr True else Compare w (read_label mem (wtr_address w) (wtr_is64 w)))"

definition CollectSatisfied :: "(u64 \<Rightarrow> u8) \<Rightarrow> registry \<Rightarrow> (waiter list \<times> registry) outcome" where
  "CollectSatisfied mem r =
     bind_outcome (collect_all (satisfied mem) (wr_waiters r)) (\<lambda>(woken, m). Inr (woken, r\<lparr>wr_waiters := m\<rparr>))"

definition record_waiter :: "u64 \<Rightarrow> u64 \<Rightarrow> bool \<Rightarrow> u64 \<Rightarrow> waiter \<Rightarrow> (bool \<times> waiter) outcome" where
  "record_waiter frame value is64 now w =
     (let w = w\<lparr>wtr_last_produced := value, wtr_produced_valid := True, wtr_produced_frame := frame\<rparr>;
          fresh = (wtr_produced_frame w = frame \<or> wtr_registered_tick w \<ge> now - 1)
      in if \<not> wtr_latched w \<and> wtr_is64 w = is64 \<and> fresh
         then bind_outcome (Compare w value) (\<lambda>b. Inr (b, if b then w\<lparr>wtr_latched := True\<rparr> else w))
         else Inr (False, w))"

fun record_bucket :: "u64 \<Rightarrow> u64 \<Rightarrow> bool \<Rightarrow> u64 \<Rightarrow> waiter list \<Rightarrow> (bool \<times> waiter list) outcome" where
  "record_bucket frame value is64 now [] = Inr (False, [])"
| "record_bucket frame value is64 now (w # ws) =
     bind_outcome (record_waiter frame value is64 now w) (\<lambda>(b, w').
       bind_outcome (record_bucket frame value is64 now ws) (\<lambda>(b', ws'). Inr (b \<or> b', w' # ws')))"

definition RecordProduced :: "u64 \<Rightarrow> u64 \<Rightarrow> bool \<Rightarrow> u64 \<Rightarrow> registry \<Rightarrow> (bool \<times> registry) outcome" where
  "RecordProduced address value is64 now r =
     (case map_of (wr_waiters r) address of
        None \<Rightarrow> Inr (False, r)
      | Some ws \<Rightarrow>
          bind_outcome (record_bucket (wr_frame_id r) value is64 now ws) (\<lambda>(latched_any, ws').
            Inr (latched_any, r\<lparr>wr_waiters := AList.update address ws' (wr_waiters r)\<rparr>)))"

definition deadlock_broken :: "u64 \<Rightarrow> u64 \<Rightarrow> u64 \<Rightarrow> waiter \<Rightarrow> bool outcome" where
  "deadlock_broken frame now_tick min_age_ticks w =
     (if wtr_latched w \<or> \<not> wtr_produced_valid w \<or> wtr_produced_frame w \<noteq> frame \<or>
         now_tick - wtr_registered_tick w < min_age_ticks
      then Inr False else Compare w (wtr_last_produced w))"

definition CollectDeadlockBroken :: "u64 \<Rightarrow> u64 \<Rightarrow> registry \<Rightarrow> (waiter list \<times> registry) outcome" where
  "CollectDeadlockBroken now_tick min_age_ticks r =
     bind_outcome (collect_all (deadlock_broken (wr_frame_id r) now_tick min_age_ticks) (wr_waiters r))
       (\<lambda>(broken, m). Inr (broken, r\<lparr>wr_waiters := m\<rparr>))"

definition AdvanceFrame :: "registry \<Rightarrow> registry" where
  "AdvanceFrame r = r\<lparr>wr_frame_id := wr_frame_id r + 1\<rparr>"

definition registry_Clear :: "registry \<Rightarrow> registry" where
  "registry_Clear r = r\<lparr>wr_waiters := []\<rparr>"

definition registry_Empty :: "registry \<Rightarrow> bool" where
  "registry_Empty r \<longleftrightarrow> wr_waiters r = []"

definition Count :: "registry \<Rightarrow> nat" where
  "Count r = sum_list (map (\<lambda>(_, ws). length ws) (wr_waiters r))"

text \<open>\<open>WaitRegMem\<close>: the submission goes on, or is suspended and polls again later.\<close>

datatype wait_result = Continues | Suspends

definition WaitRegMem ::
    "(u64 \<Rightarrow> u8) \<Rightarrow> u32 \<Rightarrow> u64 \<Rightarrow> u64 \<Rightarrow> u64 \<Rightarrow> u32 \<Rightarrow> bool \<Rightarrow> u64 \<Rightarrow> registry \<Rightarrow> (wait_result \<times> registry) outcome" where
  "WaitRegMem mem func address ref msk wait_op is64 now r =
     exit_if (address = 0) (exit_if (wait_op AND NOT 1 \<noteq> 0)
       (let waiter = \<lparr>wtr_address = address, wtr_reference = ref, wtr_mask = msk, wtr_function = func,
                      wtr_is64 = is64, wtr_latched = False, wtr_registered_tick = 0, wtr_last_produced = 0,
                      wtr_produced_valid = False, wtr_produced_frame = 0\<rparr>
        in bind_outcome (CollectSatisfied mem (Register waiter now r)) (\<lambda>(woken, r).
             if woken \<noteq> [] then Inr (Continues, r)
             else bind_outcome (TestWaitRegMemValue (read_label mem address is64) ref msk func)
                    (\<lambda>b. Inr (if b then Continues else Suspends, r)))))"

section \<open>Collecting\<close>

definition waiters_in :: "(u64 \<times> waiter list) list \<Rightarrow> waiter list" where
  "waiters_in m = concat (map snd m)"

lemma waiters_in_simps [simp]:
  "waiters_in [] = []" "waiters_in ((a, ws) # m) = ws @ waiters_in m"
  by (simp_all add: waiters_in_def)

lemma collect_bucket_spec:
  assumes "collect_bucket release ws = Inr (taken, kept)"
  shows "mset taken + mset kept = mset ws \<and> (\<forall>w\<in>set taken. release w = Inr True) \<and>
         (\<forall>w\<in>set kept. release w = Inr False)"
  using assms
  by (induction ws arbitrary: taken kept) (auto simp: bind_outcome_Inr split: if_splits)

lemma collect_all_spec:
  assumes "collect_all release m = Inr (taken, m')"
  shows "mset taken + mset (waiters_in m') = mset (waiters_in m) \<and> (\<forall>w\<in>set taken. release w = Inr True) \<and>
         (\<forall>w\<in>set (waiters_in m'). release w = Inr False)"
  using assms
proof (induction m arbitrary: taken m')
  case (Cons b m)
  obtain a ws where b: "b = (a, ws)" by (cases b)
  from Cons.prems obtain t1 k1 t2 m2 where 1: "collect_bucket release ws = Inr (t1, k1)"
    "collect_all release m = Inr (t2, m2)" "taken = t1 @ t2" "m' = (if k1 = [] then m2 else (a, k1) # m2)"
    by (auto simp: b bind_outcome_Inr)
  have w: "waiters_in m' = k1 @ waiters_in m2" using 1(4) by simp
  note s1 = collect_bucket_spec [OF 1(1)] and s2 = Cons.IH [OF 1(2)]
  have ws: "mset ws = mset t1 + mset k1" using s1 by simp
  have "mset (waiters_in m) = mset t2 + mset (waiters_in m2)" using s2 by simp
  then have "mset taken + mset (waiters_in m') = mset (waiters_in (b # m))"
    by (simp add: w ws b 1(3) ac_simps)
  with s1 s2 1(3) w show ?case by auto
qed auto

lemma collect_all_keys:
  assumes "collect_all release m = Inr (taken, m')" "distinct (map fst m)"
  shows "set (map fst m') \<subseteq> set (map fst m) \<and> distinct (map fst m')"
  using assms
proof (induction m arbitrary: taken m')
  case (Cons b m)
  obtain a ws where b: "b = (a, ws)" by (cases b)
  from Cons.prems(1) obtain k1 t2 m2 where 1: "collect_all release m = Inr (t2, m2)"
    "m' = (if k1 = [] then m2 else (a, k1) # m2)"
    by (auto simp: b bind_outcome_Inr)
  have d: "distinct (map fst m)" "a \<notin> set (map fst m)" using Cons.prems(2) by (simp_all add: b)
  note IH = Cons.IH [OF 1(1) d(1)]
  then have "a \<notin> set (map fst m2)" using d(2) by blast
  with IH show ?case unfolding 1(2) b by auto
qed auto

lemma collect_all_buckets:
  "collect_all release m = Inr (taken, m') \<Longrightarrow> \<forall>(a, ws)\<in>set m. \<forall>w\<in>set ws. P a w \<Longrightarrow>
   \<forall>(a, ws)\<in>set m'. ws \<noteq> [] \<and> (\<forall>w\<in>set ws. P a w)"
proof (induction m arbitrary: taken m')
  case (Cons b m)
  obtain a ws where b: "b = (a, ws)" by (cases b)
  from Cons.prems(1) obtain t1 k1 t2 m2 where 1: "collect_bucket release ws = Inr (t1, k1)"
    "collect_all release m = Inr (t2, m2)" "m' = (if k1 = [] then m2 else (a, k1) # m2)"
    by (auto simp: b bind_outcome_Inr)
  have "set k1 \<subseteq> set ws"
    using collect_bucket_spec [OF 1(1)] by (metis mset_subset_eq_add_right set_mset_mono set_mset_mset)
  with Cons.IH [OF 1(2)] Cons.prems(2) 1(3) show ?case by (auto simp: b)
qed auto

section \<open>Reachable registries\<close>

text \<open>
  A registry with what the producers wrote so far, newest first. Waiting goes through \<open>WaitRegMem\<close>; the
  scheduler collects the waiters a dead lock holds back, and ends frames.
\<close>

type_synonym production = "u64 \<times> u64 \<times> bool"

inductive wait_step :: "registry \<times> production list \<Rightarrow> registry \<times> production list \<Rightarrow> bool" where
  ws_wait: "WaitRegMem mem func a ref msk wait_op is64 now r = Inr (res, r') \<Longrightarrow> wait_step (r, h) (r', h)"
| ws_record: "RecordProduced a v is64 now r = Inr (b, r') \<Longrightarrow> wait_step (r, h) (r', (a, v, is64) # h)"
| ws_collect: "CollectSatisfied mem r = Inr (woken, r') \<Longrightarrow> wait_step (r, h) (r', h)"
| ws_broken: "CollectDeadlockBroken now age r = Inr (broken, r') \<Longrightarrow> wait_step (r, h) (r', h)"
| ws_frame: "wait_step (r, h) (AdvanceFrame r, h)"
| ws_clear: "wait_step (r, h) (registry_Clear r, h)"

definition wait_init :: "registry \<times> production list \<Rightarrow> bool" where
  "wait_init y \<longleftrightarrow> y = (new_registry, [])"

definition justified :: "production list \<Rightarrow> u64 \<Rightarrow> waiter \<Rightarrow> bool" where
  "justified h a w \<longleftrightarrow> wtr_address w = a \<and>
     (wtr_latched w \<longrightarrow> (\<exists>v. (a, v, wtr_is64 w) \<in> set h \<and> Compare w v = Inr True)) \<and>
     (wtr_produced_valid w \<longrightarrow> (\<exists>b. (a, wtr_last_produced w, b) \<in> set h))"

definition registry_inv :: "registry \<times> production list \<Rightarrow> bool" where
  "registry_inv = (\<lambda>(r, h). distinct (map fst (wr_waiters r)) \<and>
     (\<forall>(a, ws)\<in>set (wr_waiters r). ws \<noteq> [] \<and> (\<forall>w\<in>set ws. justified h a w)))"

lemma Compare_cong [simp]:
  "Compare (w\<lparr>wtr_latched := x\<rparr>) v = Compare w v" "Compare (w\<lparr>wtr_registered_tick := y\<rparr>) v = Compare w v"
  "Compare (w\<lparr>wtr_produced_frame := y\<rparr>) v = Compare w v" "Compare (w\<lparr>wtr_last_produced := y\<rparr>) v = Compare w v"
  "Compare (w\<lparr>wtr_produced_valid := x\<rparr>) v = Compare w v"
  by (simp_all add: Compare_def)

lemma set_AList_update: "set (AList.update k v m) \<subseteq> insert (k, v) (set m)"
  by (induction m) auto

lemma AList_update_keys: "distinct (map fst m) \<Longrightarrow> distinct (map fst (AList.update k v m))"
  by (rule distinct_update)

lemma update_inv:
  assumes "registry_inv (r, h)" "ws \<noteq> []" "\<forall>w\<in>set ws. justified h a w"
  shows "registry_inv (r\<lparr>wr_waiters := AList.update a ws (wr_waiters r)\<rparr>, h)"
  using assms set_AList_update [of a ws "wr_waiters r"] AList_update_keys [of "wr_waiters r" a ws]
  by (auto simp: registry_inv_def) blast+

lemma bucket_justified: "registry_inv (r, h) \<Longrightarrow> w \<in> set (bucket r a) \<Longrightarrow> justified h a w"
  by (auto simp: registry_inv_def bucket_def dest!: map_of_SomeD split: option.splits)

lemma refresh_spec:
  "refresh w now vs = Some ws \<Longrightarrow> ws \<noteq> [] \<and>
     (\<forall>u\<in>set ws. \<exists>v\<in>set vs. u = v \<or> u = v\<lparr>wtr_latched := False, wtr_registered_tick := now\<rparr>)"
  by (induction vs arbitrary: ws) (fastforce split: if_splits)+

lemma Register_inv:
  assumes "registry_inv (r, h)" "\<not> wtr_produced_valid w"
  shows "registry_inv (Register w now r, h)"
proof (cases "refresh w now (bucket r (wtr_address w))")
  case None
  then have "Register w now r = r\<lparr>wr_waiters := AList.update (wtr_address w)
      (bucket r (wtr_address w) @ [w\<lparr>wtr_latched := False, wtr_registered_tick := now,
         wtr_produced_frame := wr_frame_id r\<rparr>]) (wr_waiters r)\<rparr>" by (simp add: Register_def)
  then show ?thesis
    using update_inv [OF assms(1), of "bucket r (wtr_address w) @ [w\<lparr>wtr_latched := False,
        wtr_registered_tick := now, wtr_produced_frame := wr_frame_id r\<rparr>]" "wtr_address w"]
      bucket_justified [OF assms(1)] assms(2) by (auto simp: justified_def)
next
  case (Some ws)
  have "\<forall>u\<in>set ws. justified h (wtr_address w) u"
  proof
    fix u assume "u \<in> set ws"
    then obtain v where "v \<in> set (bucket r (wtr_address w))"
      "u = v \<or> u = v\<lparr>wtr_latched := False, wtr_registered_tick := now\<rparr>"
      using refresh_spec [OF Some] by blast
    with bucket_justified [OF assms(1)] show "justified h (wtr_address w) u" by (auto simp: justified_def)
  qed
  with Some refresh_spec [OF Some] update_inv [OF assms(1), of ws "wtr_address w"] show ?thesis
    by (simp add: Register_def)
qed

lemma collect_inv:
  assumes "registry_inv (r, h)" "collect_all release (wr_waiters r) = Inr (taken, m')"
  shows "registry_inv (r\<lparr>wr_waiters := m'\<rparr>, h) \<and> (\<forall>w\<in>set taken. justified h (wtr_address w) w)"
proof
  show "registry_inv (r\<lparr>wr_waiters := m'\<rparr>, h)"
    using assms collect_all_keys [OF assms(2)] collect_all_buckets [OF assms(2), of "justified h"]
    by (auto simp: registry_inv_def)
  have "set taken \<subseteq> set (waiters_in (wr_waiters r))"
    using collect_all_spec [OF assms(2)] by (metis mset_subset_eq_add_left set_mset_mono set_mset_mset)
  show "\<forall>w\<in>set taken. justified h (wtr_address w) w"
  proof
    fix w assume "w \<in> set taken"
    with \<open>set taken \<subseteq> _\<close> obtain a ws where "(a, ws) \<in> set (wr_waiters r)" "w \<in> set ws"
      by (auto simp: waiters_in_def)
    with assms(1) have "justified h a w" by (auto simp: registry_inv_def)
    then show "justified h (wtr_address w) w" by (simp add: justified_def)
  qed
qed

lemma CollectSatisfied_inv:
  assumes "registry_inv (r, h)" "CollectSatisfied mem r = Inr (woken, r')"
  shows "registry_inv (r', h)"
proof -
  from assms(2) obtain m where "collect_all (satisfied mem) (wr_waiters r) = Inr (woken, m)"
    "r' = r\<lparr>wr_waiters := m\<rparr>" by (auto simp: CollectSatisfied_def bind_outcome_Inr)
  with collect_inv [OF assms(1)] show ?thesis by simp
qed

lemma CollectDeadlockBroken_inv:
  assumes "registry_inv (r, h)" "CollectDeadlockBroken now age r = Inr (broken, r')"
  shows "registry_inv (r', h)"
proof -
  from assms(2) obtain m where
    "collect_all (deadlock_broken (wr_frame_id r) now age) (wr_waiters r) = Inr (broken, m)"
    "r' = r\<lparr>wr_waiters := m\<rparr>" by (auto simp: CollectDeadlockBroken_def bind_outcome_Inr)
  with collect_inv [OF assms(1)] show ?thesis by simp
qed

lemma record_waiter_justified:
  assumes "record_waiter frame v is64 now w = Inr (b, w')" "justified h a w"
  shows "justified ((a, v, is64) # h) a w'"
  using assms by (auto simp: record_waiter_def justified_def Let_def bind_outcome_Inr split: if_splits)

lemma record_bucket_justified:
  "record_bucket frame v is64 now ws = Inr (b, ws') \<Longrightarrow> \<forall>w\<in>set ws. justified h a w \<Longrightarrow>
   length ws' = length ws \<and> (\<forall>w\<in>set ws'. justified ((a, v, is64) # h) a w)"
proof (induction ws arbitrary: b ws')
  case (Cons w ws)
  from Cons.prems(1) obtain b1 w1 b2 ws2 where 1: "record_waiter frame v is64 now w = Inr (b1, w1)"
    "record_bucket frame v is64 now ws = Inr (b2, ws2)" "ws' = w1 # ws2"
    by (auto simp: bind_outcome_Inr)
  with Cons.IH [OF 1(2)] Cons.prems(2) record_waiter_justified [OF 1(1)] show ?case by simp
qed simp

lemma justified_mono: "justified h a w \<Longrightarrow> justified (p # h) a w"
  by (auto simp: justified_def)

lemma registry_inv_mono: "registry_inv (r, h) \<Longrightarrow> registry_inv (r, p # h)"
  unfolding registry_inv_def using justified_mono [where h = h and p = p] by (simp add: split_beta)

lemma RecordProduced_inv:
  assumes "registry_inv (r, h)" "RecordProduced a v is64 now r = Inr (b, r')"
  shows "registry_inv (r', (a, v, is64) # h)"
proof (cases "map_of (wr_waiters r) a")
  case None
  with assms show ?thesis by (simp add: RecordProduced_def registry_inv_mono)
next
  case (Some ws)
  with assms(2) obtain ws' where ws': "record_bucket (wr_frame_id r) v is64 now ws = Inr (b, ws')"
    "r' = r\<lparr>wr_waiters := AList.update a ws' (wr_waiters r)\<rparr>"
    by (auto simp: RecordProduced_def bind_outcome_Inr)
  have "ws \<noteq> []" "\<forall>w\<in>set ws. justified h a w"
    using assms(1) map_of_SomeD [OF Some] by (auto simp: registry_inv_def)
  with record_bucket_justified [OF ws'(1)]
  have "ws' \<noteq> []" "\<forall>w\<in>set ws'. justified ((a, v, is64) # h) a w" by auto
  then show ?thesis unfolding ws'(2) by (rule update_inv [OF registry_inv_mono [OF assms(1)]])
qed

lemma WaitRegMem_inv:
  assumes "registry_inv (r, h)" "WaitRegMem mem func a ref msk wait_op is64 now r = Inr (res, r')"
  shows "registry_inv (r', h)"
proof -
  define w where "w = \<lparr>wtr_address = a, wtr_reference = ref, wtr_mask = msk, wtr_function = func,
    wtr_is64 = is64, wtr_latched = False, wtr_registered_tick = 0, wtr_last_produced = 0,
    wtr_produced_valid = False, wtr_produced_frame = 0\<rparr>"
  have "registry_inv (Register w now r, h)" by (rule Register_inv [OF assms(1)]) (simp add: w_def)
  moreover have "bind_outcome (CollectSatisfied mem (Register w now r)) (\<lambda>(woken, r).
      if woken \<noteq> [] then Inr (Continues, r)
      else bind_outcome (TestWaitRegMemValue (read_label mem a is64) ref msk func)
             (\<lambda>b. Inr (if b then Continues else Suspends, r))) = Inr (res, r')"
    using assms(2) unfolding WaitRegMem_def Let_def w_def [symmetric] by simp
  then obtain woken where "CollectSatisfied mem (Register w now r) = Inr (woken, r')"
    by (auto simp: bind_outcome_Inr split: if_splits)
  ultimately show ?thesis by (rule CollectSatisfied_inv)
qed

lemma wait_step_inv: "wait_step y z \<Longrightarrow> registry_inv y \<Longrightarrow> registry_inv z"
proof (induction rule: wait_step.induct)
  case (ws_wait mem func a ref msk wait_op is64 now r res r' h)
  then show ?case using WaitRegMem_inv by blast
next
  case (ws_record a v is64 now r b r' h)
  then show ?case using RecordProduced_inv by blast
next
  case (ws_collect mem r woken r' h)
  then show ?case using CollectSatisfied_inv by blast
next
  case (ws_broken now age r broken r' h)
  then show ?case using CollectDeadlockBroken_inv by blast
next
  case (ws_frame r h)
  then show ?case by (simp add: registry_inv_def AdvanceFrame_def)
next
  case (ws_clear r h)
  then show ?case by (simp add: registry_inv_def registry_Clear_def)
qed

interpretation wait_registry: step_invariant wait_init wait_step registry_inv
proof
  show "wait_init y \<Longrightarrow> registry_inv y" for y by (simp add: wait_init_def registry_inv_def new_registry_def)
  show "registry_inv y \<Longrightarrow> wait_step y z \<Longrightarrow> registry_inv z" for y z by (rule wait_step_inv)
qed

abbreviation wait_reachable :: "registry \<times> production list \<Rightarrow> bool" where
  "wait_reachable \<equiv> reachable wait_init wait_step"

section \<open>Properties\<close>

text \<open>
  C40: no value is made up. In every reachable registry, a waiter that \<open>CollectSatisfied\<close> releases is
  satisfied by its label in memory or by a value some producer wrote to the label at its width, and one
  that \<open>CollectDeadlockBroken\<close> releases is satisfied by a value some producer wrote to the label.
\<close>

theorem wait_releases_justified:
  assumes "wait_reachable (r, h)"
  shows "(CollectSatisfied mem r = Inr (woken, r') \<and> w \<in> set woken \<longrightarrow>
            Compare w (read_label mem (wtr_address w) (wtr_is64 w)) = Inr True \<or>
            (\<exists>v. (wtr_address w, v, wtr_is64 w) \<in> set h \<and> Compare w v = Inr True)) \<and>
         (CollectDeadlockBroken now age r = Inr (broken, r') \<and> w \<in> set broken \<longrightarrow>
            (\<exists>v b. (wtr_address w, v, b) \<in> set h \<and> Compare w v = Inr True))"
proof -
  note inv = wait_registry.reachable_inv [OF assms]
  have "Compare w (read_label mem (wtr_address w) (wtr_is64 w)) = Inr True \<or>
      (\<exists>v. (wtr_address w, v, wtr_is64 w) \<in> set h \<and> Compare w v = Inr True)"
    if "collect_all (satisfied mem) (wr_waiters r) = Inr (woken, m)" "w \<in> set woken" for m
    using collect_inv [OF inv that(1)] collect_all_spec [OF that(1)] that(2)
    by (auto simp: satisfied_def justified_def split: if_splits)
  moreover have "\<exists>v b. (wtr_address w, v, b) \<in> set h \<and> Compare w v = Inr True"
    if "collect_all (deadlock_broken (wr_frame_id r) now age) (wr_waiters r) = Inr (broken, m)"
      "w \<in> set broken" for m
    using collect_inv [OF inv that(1)] collect_all_spec [OF that(1)] that(2)
    by (fastforce simp: deadlock_broken_def justified_def split: if_splits)
  ultimately show ?thesis
    by (auto simp: CollectSatisfied_def CollectDeadlockBroken_def bind_outcome_Inr)
qed

text \<open>A label in memory that is zero throughout, and a wait for it to become 5.\<close>

abbreviation zero_mem :: "u64 \<Rightarrow> u8" where
  "zero_mem \<equiv> \<lambda>_. 0"

lemma read_zero_mem [simp]: "read_label zero_mem a is64 = 0"
  by (cases is64) (simp_all add: read_label_def word_rcat_def horner_sum_simps upt_rec)

definition example_waiter :: "u64 \<Rightarrow> waiter" where
  "example_waiter a = \<lparr>wtr_address = a, wtr_reference = 5, wtr_mask = -1, wtr_function = 3, wtr_is64 = True,
     wtr_latched = False, wtr_registered_tick = 100, wtr_last_produced = 0, wtr_produced_valid = False,
     wtr_produced_frame = 0\<rparr>"

definition example_registry :: registry where
  "example_registry = \<lparr>wr_waiters = [(64, [example_waiter 64])], wr_frame_id = 0\<rparr>"

definition latched_registry :: registry where
  "latched_registry = \<lparr>wr_waiters = [(64, [(example_waiter 64)\<lparr>wtr_last_produced := 5, wtr_produced_valid := True,
     wtr_latched := True\<rparr>])], wr_frame_id = 0\<rparr>"

lemmas registry_eval = WaitRegMem_def CollectSatisfied_def Register_def bucket_def satisfied_def Compare_def
  TestWaitRegMemValue_def Let_def example_registry_def latched_registry_def example_waiter_def
  new_registry_def RecordProduced_def record_waiter_def same_waiter_def exit_if_def

lemma example_wait:
  "WaitRegMem zero_mem 3 64 5 (-1) 0 True 100 new_registry = Inr (Suspends, example_registry)"
  by (simp add: registry_eval)

lemma example_record: "RecordProduced 64 5 True 101 example_registry = Inr (True, latched_registry)"
  by (simp add: registry_eval)

lemma latched_reachable: "wait_reachable (latched_registry, [(64, 5, True)])"
proof -
  have "wait_reachable (new_registry, [])" by (intro reachable_init) (simp add: wait_init_def)
  then have "wait_reachable (example_registry, [])" by (rule reachable_step) (rule ws_wait [OF example_wait])
  then show ?thesis by (rule reachable_step) (rule ws_record [OF example_record])
qed

lemma wait_releases_justified_witness:
  "\<exists>woken r'. CollectSatisfied zero_mem latched_registry = Inr (woken, r') \<and>
     (\<forall>w\<in>set woken. Compare w 0 = Inr True \<or>
        (\<exists>v. (wtr_address w, v, wtr_is64 w) \<in> set [(64, 5, True)] \<and> Compare w v = Inr True))"
proof -
  have "\<exists>woken r'. CollectSatisfied zero_mem latched_registry = Inr (woken, r')" by (simp add: registry_eval)
  then obtain woken r' where c: "CollectSatisfied zero_mem latched_registry = Inr (woken, r')" by blast
  have "\<forall>w\<in>set woken. Compare w 0 = Inr True \<or>
      (\<exists>v. (wtr_address w, v, wtr_is64 w) \<in> set [(64, 5, True)] \<and> Compare w v = Inr True)"
    using wait_releases_justified [OF latched_reachable, of zero_mem woken r'] c by simp
  with c show ?thesis by blast
qed

text \<open>
  Collecting takes exactly what is satisfied. Every waiter is either returned, latched or satisfied
  by memory, or stays, neither; none is lost or repeated, none that is satisfied stays, and in a reachable
  registry no empty bucket is left, so the registry is empty exactly when it counts no waiter.
\<close>

theorem collect_exact:
  assumes "wait_reachable (r, h)" and "CollectSatisfied mem r = Inr (woken, r')"
  shows "mset woken + mset (waiters_in (wr_waiters r')) = mset (waiters_in (wr_waiters r)) \<and>
         (\<forall>w\<in>set woken. satisfied mem w = Inr True) \<and>
         (\<forall>w\<in>set (waiters_in (wr_waiters r')). satisfied mem w = Inr False) \<and>
         Count r = Count r' + length woken \<and> (registry_Empty r' \<longleftrightarrow> Count r' = 0)"
proof -
  from assms(2) obtain m where m: "collect_all (satisfied mem) (wr_waiters r) = Inr (woken, m)"
    "r' = r\<lparr>wr_waiters := m\<rparr>" by (auto simp: CollectSatisfied_def bind_outcome_Inr)
  note s = collect_all_spec [OF m(1)]
  have count: "Count x = size (mset (waiters_in (wr_waiters x)))" for x
    by (simp add: Count_def waiters_in_def length_concat comp_def case_prod_beta')
  have "Count r = Count r' + length woken"
    unfolding count using s m(2) by (metis add.commute registry.select_convs(1) registry.surjective
      registry.update_convs(1) size_mset size_union)
  moreover have "registry_inv (r', h)"
    by (rule CollectSatisfied_inv [OF wait_registry.reachable_inv [OF assms(1)] assms(2)])
  then have "\<forall>(a, ws)\<in>set (wr_waiters r'). ws \<noteq> []" by (auto simp: registry_inv_def)
  then have "registry_Empty r' \<longleftrightarrow> Count r' = 0"
    by (cases "wr_waiters r'") (auto simp: registry_Empty_def Count_def)
  ultimately show ?thesis using s m(2) by simp
qed

lemma collect_exact_witness:
  "\<exists>woken r'. CollectSatisfied zero_mem latched_registry = Inr (woken, r') \<and> Count r' + length woken = 1"
proof -
  have "\<exists>woken r'. CollectSatisfied zero_mem latched_registry = Inr (woken, r')" by (simp add: registry_eval)
  then obtain woken r' where c: "CollectSatisfied zero_mem latched_registry = Inr (woken, r')" by blast
  have "Count latched_registry = 1" by (simp add: Count_def latched_registry_def)
  with collect_exact [OF latched_reachable c] c show ?thesis by auto
qed

text \<open>
  The latch does not survive the poll it is for. A submission waits, a producer writes the awaited
  value and latches the waiter, the guest resets the label, and the submission polls again: \<open>Register\<close>
  finds the waiter and clears its latch before \<open>CollectSatisfied\<close> looks, so the wait suspends again.
  Without the second \<open>Register\<close>, collecting would have released it.
\<close>

theorem wait_latch_lost:
  "WaitRegMem zero_mem 3 64 5 (-1) 0 True 100 new_registry = Inr (Suspends, example_registry) \<and>
   RecordProduced 64 5 True 101 example_registry = Inr (True, latched_registry) \<and>
   (\<exists>r. CollectSatisfied zero_mem latched_registry = Inr ([(example_waiter 64)\<lparr>wtr_last_produced := 5,
        wtr_produced_valid := True, wtr_latched := True\<rparr>], r)) \<and>
   (\<exists>r. WaitRegMem zero_mem 3 64 5 (-1) 0 True 102 latched_registry = Inr (Suspends, r))"
proof (intro conjI)
  show "\<exists>r. CollectSatisfied zero_mem latched_registry = Inr ([(example_waiter 64)\<lparr>wtr_last_produced := 5,
        wtr_produced_valid := True, wtr_latched := True\<rparr>], r)" by (simp add: registry_eval)
  show "\<exists>r. WaitRegMem zero_mem 3 64 5 (-1) 0 True 102 latched_registry = Inr (Suspends, r)"
    by (simp add: registry_eval)
qed (rule example_wait example_record)+

text \<open>
  A wait can fall through for another label. \<open>WaitRegMem\<close> takes any released waiter for its own: with
  the waiter of label 64 latched, a wait on label 128, whose value nobody wrote and memory does not hold,
  continues without being satisfied, and its waiter stays in the registry.
\<close>

theorem wait_falls_through:
  "\<exists>r. WaitRegMem zero_mem 3 128 5 (-1) 0 True 102 latched_registry = Inr (Continues, r) \<and>
       TestWaitRegMemValue (read_label zero_mem 128 True) 5 (-1) 3 = Inr False \<and>
       map wtr_address (waiters_in (wr_waiters r)) = [128]"
  by (simp add: registry_eval)

text \<open>
  The frame guard of \<open>RecordProduced\<close> never holds a latch back: the frame is stored in the waiter
  just before it is compared, so the result does not depend on the clock nor on the frame the waiter was
  registered in, and a latch is still there after \<open>AdvanceFrame\<close>.
\<close>

theorem frame_guard_vacuous:
  "RecordProduced a v is64 now r = RecordProduced a v is64 now' r \<and>
   record_waiter frame v is64 now w =
     (let w = w\<lparr>wtr_last_produced := v, wtr_produced_valid := True, wtr_produced_frame := frame\<rparr>
      in if \<not> wtr_latched w \<and> wtr_is64 w = is64
         then bind_outcome (Compare w v) (\<lambda>b. Inr (b, if b then w\<lparr>wtr_latched := True\<rparr> else w))
         else Inr (False, w)) \<and>
   wr_waiters (AdvanceFrame r) = wr_waiters r"
proof -
  have one: "record_waiter f v is64 now w = record_waiter f v is64 now' w" for f w
    by (simp add: record_waiter_def)
  have "record_bucket f v is64 now ws = record_bucket f v is64 now' ws" for f ws
    by (induction ws) (simp_all add: one [of f])
  then have eq: "record_bucket f v is64 now = record_bucket f v is64 now'" for f by (rule ext)
  have "RecordProduced a v is64 now r = RecordProduced a v is64 now' r"
    unfolding RecordProduced_def eq [of "wr_frame_id r"] by (rule refl)
  then show ?thesis by (simp add: record_waiter_def AdvanceFrame_def)
qed

end
