(* ===== verification/SyncOnAddress.thy ===== *)
theory SyncOnAddress
  imports KernelErrors
begin

text \<open>
  Waiting on a guest address, src/src/kernel/syncOnAddress.cpp, both builds: \<open>WaitLinux\<close> on the futex
  system call, and the portable registry of waiters. A futex call is a function of its arguments that
  the passes of the loop supply with the memory and the clock they see. The portable call is split where
  it gives the entry's mutex up: from \<open>WaitPortable\<close> to its sleep, from the sleep to the next one or to
  the first section of \<open>UnregisterPortableWaiter\<close>, and the second section; other calls run in between.
  The clock counts nanoseconds, as \<open>steady_clock\<close> does.
\<close>

section \<open>Addresses, deadlines, slices\<close>

definition SIGNAL_POLL_MICROS :: u32 where
  "SIGNAL_POLL_MICROS = 10000"

definition UINT32_MAX :: u32 where
  "UINT32_MAX = -1"

definition IsValidWaitAddress :: "u64 \<Rightarrow> bool \<Rightarrow> bool" where
  "IsValidWaitAddress address is64 \<longleftrightarrow> address \<noteq> 0 \<and> address AND (if is64 then 7 else 3) = 0"

definition IsValidWakeAddress :: "u64 \<Rightarrow> bool" where
  "IsValidWakeAddress address \<longleftrightarrow> address \<noteq> 0 \<and> address AND 3 = 0"

definition ReadWord :: "(u64 \<Rightarrow> u8) \<Rightarrow> u64 \<Rightarrow> bool \<Rightarrow> u64" where
  "ReadWord mem address is64 =
     word_rcat (rev (map (\<lambda>i. mem (address + word_of_nat i)) [0..<if is64 then 8 else 4]))"

record wait_deadline =
  wd_finite :: bool
  wd_end :: nat

definition MakeDeadline :: "u32 option \<Rightarrow> nat \<Rightarrow> wait_deadline" where
  "MakeDeadline timeout_micros now =
     (case timeout_micros of
        None \<Rightarrow> \<lparr>wd_finite = False, wd_end = 0\<rparr>
      | Some micros \<Rightarrow> \<lparr>wd_finite = True, wd_end = now + 1000 * unat micros\<rparr>)"

definition GetWaitSliceMicros :: "wait_deadline \<Rightarrow> bool \<Rightarrow> nat \<Rightarrow> u32" where
  "GetWaitSliceMicros deadline first_wait now =
     (if \<not> wd_finite deadline then SIGNAL_POLL_MICROS
      else if now \<ge> wd_end deadline then (if first_wait then 0 else UINT32_MAX)
      else word_of_nat (min ((wd_end deadline - now) div 1000) (unat SIGNAL_POLL_MICROS)))"

section \<open>The futex build\<close>

datatype futex_result = Futex_Woken | Futex_EAGAIN | Futex_ETIMEDOUT | Futex_EINTR | Futex_Error

text \<open>
  What one pass of the loop meets: memory and clock before the call, the call (the word to compare, the
  seconds and nanoseconds of the time-out), clock and memory after it.
\<close>

record futex_pass =
  fp_mem :: "u64 \<Rightarrow> u8"
  fp_now :: nat
  fp_futex :: "u32 \<Rightarrow> nat \<Rightarrow> nat \<Rightarrow> futex_result"
  fp_now_after :: nat
  fp_mem_after :: "u64 \<Rightarrow> u8"

definition linux_pass ::
    "u64 \<Rightarrow> u64 \<Rightarrow> bool \<Rightarrow> wait_deadline \<Rightarrow> bool \<Rightarrow> futex_pass \<Rightarrow> int option" where
  "linux_pass address expected is64 deadline first_wait p =
     (if ReadWord (fp_mem p) address is64 \<noteq> expected then Some OK
      else let slice_micros = GetWaitSliceMicros deadline first_wait (fp_now p)
           in if slice_micros = UINT32_MAX
              then Some (if ReadWord (fp_mem_after p) address is64 = expected then KERNEL_ERROR_ETIMEDOUT else OK)
              else let wait_error = fp_futex p (ucast expected) (unat slice_micros div 1000000)
                                      (unat slice_micros mod 1000000 * 1000)
                   in if wait_error = Futex_Woken \<or> wait_error = Futex_EAGAIN then Some OK
                      else if wait_error \<noteq> Futex_ETIMEDOUT \<and> wait_error \<noteq> Futex_EINTR
                      then Some KERNEL_ERROR_EINVAL
                      else if wd_finite deadline \<and> fp_now_after p \<ge> wd_end deadline
                      then Some (if ReadWord (fp_mem_after p) address is64 = expected
                                 then KERNEL_ERROR_ETIMEDOUT else OK)
                      else None)"

text \<open>\<open>None\<close>: the call has not returned after these passes.\<close>

fun linux_loop ::
    "u64 \<Rightarrow> u64 \<Rightarrow> bool \<Rightarrow> wait_deadline \<Rightarrow> bool \<Rightarrow> futex_pass list \<Rightarrow> int option" where
  "linux_loop address expected is64 deadline first_wait [] = None"
| "linux_loop address expected is64 deadline first_wait (p # ps) =
     (case linux_pass address expected is64 deadline first_wait p of
        Some result \<Rightarrow> Some result
      | None \<Rightarrow> linux_loop address expected is64 deadline False ps)"

definition WaitLinux :: "u64 \<Rightarrow> u64 \<Rightarrow> bool \<Rightarrow> u32 option \<Rightarrow> nat \<Rightarrow> futex_pass list \<Rightarrow> int option" where
  "WaitLinux address expected is64 timeout_micros now passes =
     linux_loop address expected is64 (MakeDeadline timeout_micros now) True passes"

text \<open>\<open>WakeLinux\<close>, with the value the system call returns.\<close>

definition WakeLinux :: "int \<Rightarrow> (int \<Rightarrow> int) \<Rightarrow> int" where
  "WakeLinux count futex_wake =
     (if count = 0 then OK else if futex_wake count < 0 then KERNEL_ERROR_EINVAL else OK)"

section \<open>The portable build\<close>

text \<open>
  Entries and waiters are heap objects, named by numbers; \<open>sy_entries\<close> is the registry's table.
  \<open>sy_leaving\<close>: calls between the two sections of \<open>UnregisterPortableWaiter\<close>.
\<close>

record portable_waiter =
  pw_address :: u64
  pw_expected :: u64
  pw_is64 :: bool
  pw_deadline :: wait_deadline
  pw_entry :: nat
  pw_wake_requested :: bool

record sync =
  sy_mem :: "u64 \<Rightarrow> u8"
  sy_entries :: "u64 \<Rightarrow> nat option"
  sy_lists :: "nat \<Rightarrow> nat list"
  sy_next :: nat
  sy_waiters :: "nat \<Rightarrow> portable_waiter option"
  sy_leaving :: "nat \<Rightarrow> (u64 \<times> nat) option"

definition new_sync :: "(u64 \<Rightarrow> u8) \<Rightarrow> sync" where
  "new_sync mem = \<lparr>sy_mem = mem, sy_entries = Map.empty, sy_lists = (\<lambda>_. []), sy_next = 0,
                   sy_waiters = Map.empty, sy_leaving = Map.empty\<rparr>"

definition find_or_make_entry :: "u64 \<Rightarrow> sync \<Rightarrow> nat \<times> sync" where
  "find_or_make_entry address s =
     (case sy_entries s address of
        Some entry \<Rightarrow> (entry, s)
      | None \<Rightarrow>
          let entry = sy_next s
          in (entry, s\<lparr>sy_entries := (sy_entries s)(address \<mapsto> entry),
                       sy_lists := (sy_lists s)(entry := []), sy_next := entry + 1\<rparr>))"

definition RegisterPortableWaiter :: "u64 \<Rightarrow> nat \<Rightarrow> sync \<Rightarrow> nat \<times> sync" where
  "RegisterPortableWaiter address waiter s =
     (let (entry, s) = find_or_make_entry address s
      in (entry, s\<lparr>sy_lists := (sy_lists s)(entry := sy_lists s entry @ [waiter])\<rparr>))"

text \<open>The two sections of \<open>UnregisterPortableWaiter\<close>.\<close>

definition unregister_first :: "nat \<Rightarrow> nat \<Rightarrow> sync \<Rightarrow> bool \<times> sync" where
  "unregister_first entry waiter s =
     (let waiters = removeAll waiter (sy_lists s entry)
      in (waiters = [], s\<lparr>sy_lists := (sy_lists s)(entry := waiters)\<rparr>))"

definition unregister_second :: "u64 \<Rightarrow> nat \<Rightarrow> sync \<Rightarrow> sync" where
  "unregister_second address entry s =
     (if sy_entries s address = Some entry \<and> sy_lists s entry = []
      then s\<lparr>sy_entries := (sy_entries s)(address := None)\<rparr> else s)"

text \<open>The loop of \<open>WaitPortable\<close> from its test to the sleep or to the return.\<close>

datatype portable_turn = Sync_Sleeps u32 | Sync_Leaves int

definition portable_test :: "(u64 \<Rightarrow> u8) \<Rightarrow> nat \<Rightarrow> bool \<Rightarrow> portable_waiter \<Rightarrow> portable_turn" where
  "portable_test mem now first_wait w =
     (if ReadWord mem (pw_address w) (pw_is64 w) = pw_expected w \<and> \<not> pw_wake_requested w
      then let slice_micros = GetWaitSliceMicros (pw_deadline w) first_wait now
           in if slice_micros = UINT32_MAX then Sync_Leaves KERNEL_ERROR_ETIMEDOUT
              else if slice_micros = 0 then Sync_Leaves KERNEL_ERROR_ETIMEDOUT
              else Sync_Sleeps slice_micros
      else Sync_Leaves OK)"

definition portable_after_sleep :: "(u64 \<Rightarrow> u8) \<Rightarrow> nat \<Rightarrow> nat \<Rightarrow> portable_waiter \<Rightarrow> portable_turn" where
  "portable_after_sleep mem now now_test w =
     (if wd_finite (pw_deadline w) \<and> now \<ge> wd_end (pw_deadline w) \<and>
         ReadWord mem (pw_address w) (pw_is64 w) = pw_expected w \<and> \<not> pw_wake_requested w
      then Sync_Leaves KERNEL_ERROR_ETIMEDOUT
      else portable_test mem now_test False w)"

text \<open>What follows a turn: the waiter sleeps on, or leaves the list (and has the second section ahead).\<close>

definition take_turn :: "nat \<Rightarrow> portable_waiter \<Rightarrow> portable_turn \<Rightarrow> sync \<Rightarrow> sync \<times> int option" where
  "take_turn waiter w turn s =
     (case turn of
        Sync_Sleeps slice_micros \<Rightarrow> (s\<lparr>sy_waiters := (sy_waiters s)(waiter \<mapsto> w)\<rparr>, None)
      | Sync_Leaves result \<Rightarrow>
          let (empty, s) = unregister_first (pw_entry w) waiter s
          in (s\<lparr>sy_waiters := (sy_waiters s)(waiter := None),
                sy_leaving := (sy_leaving s)(waiter := if empty then Some (pw_address w, pw_entry w) else None)\<rparr>,
              Some result))"

definition WaitPortable ::
    "nat \<Rightarrow> u64 \<Rightarrow> u64 \<Rightarrow> bool \<Rightarrow> u32 option \<Rightarrow> nat \<Rightarrow> nat \<Rightarrow> sync \<Rightarrow> sync \<times> int option" where
  "WaitPortable waiter address expected is64 timeout_micros now now_test s =
     (let (entry, s) = RegisterPortableWaiter address waiter s;
          w = \<lparr>pw_address = address, pw_expected = expected, pw_is64 = is64,
               pw_deadline = MakeDeadline timeout_micros now, pw_entry = entry, pw_wake_requested = False\<rparr>
      in take_turn waiter w (portable_test (sy_mem s) now_test True w) s)"

definition WaitPortable_resume :: "nat \<Rightarrow> portable_waiter \<Rightarrow> nat \<Rightarrow> nat \<Rightarrow> sync \<Rightarrow> sync \<times> int option" where
  "WaitPortable_resume waiter w now now_test s =
     take_turn waiter w (portable_after_sleep (sy_mem s) now now_test w) s"

definition INT_MAX :: int where
  "INT_MAX = 2147483647"

fun portable_wake_loop ::
    "int \<Rightarrow> nat list \<Rightarrow> (nat \<Rightarrow> portable_waiter option) \<Rightarrow> nat \<Rightarrow> portable_waiter option" where
  "portable_wake_loop remaining [] waiters = waiters"
| "portable_wake_loop remaining (waiter # rest) waiters =
     (case waiters waiter of
        None \<Rightarrow> portable_wake_loop remaining rest waiters
      | Some w \<Rightarrow>
          if \<not> pw_wake_requested w
          then let waiters = waiters(waiter \<mapsto> w\<lparr>pw_wake_requested := True\<rparr>)
               in if remaining \<noteq> INT_MAX
                  then if remaining - 1 = 0 then waiters
                       else portable_wake_loop (remaining - 1) rest waiters
                  else portable_wake_loop remaining rest waiters
          else portable_wake_loop remaining rest waiters)"

definition WakePortable :: "u64 \<Rightarrow> int \<Rightarrow> sync \<Rightarrow> sync \<times> int" where
  "WakePortable address count s =
     (if count = 0 then (s, OK)
      else case sy_entries s address of
             None \<Rightarrow> (s, OK)
           | Some entry \<Rightarrow>
               (s\<lparr>sy_waiters := portable_wake_loop count (sy_lists s entry) (sy_waiters s)\<rparr>, OK))"

section \<open>Entry points\<close>

definition WaitImpl ::
    "nat \<Rightarrow> u64 \<Rightarrow> u64 \<Rightarrow> bool \<Rightarrow> u32 option \<Rightarrow> nat \<Rightarrow> nat \<Rightarrow> sync \<Rightarrow> sync \<times> int option" where
  "WaitImpl waiter address expected is64 timeout_micros now now_test s =
     (if \<not> IsValidWaitAddress address is64 then (s, Some KERNEL_ERROR_EINVAL)
      else WaitPortable waiter address expected is64 timeout_micros now now_test s)"

definition Wait32 :: "nat \<Rightarrow> u64 \<Rightarrow> u32 \<Rightarrow> u32 option \<Rightarrow> nat \<Rightarrow> nat \<Rightarrow> sync \<Rightarrow> sync \<times> int option" where
  "Wait32 waiter address expected = WaitImpl waiter address (ucast expected) False"

definition Wait64 :: "nat \<Rightarrow> u64 \<Rightarrow> u64 \<Rightarrow> u32 option \<Rightarrow> nat \<Rightarrow> nat \<Rightarrow> sync \<Rightarrow> sync \<times> int option" where
  "Wait64 waiter address expected = WaitImpl waiter address expected True"

definition WaitImpl_linux :: "u64 \<Rightarrow> u64 \<Rightarrow> bool \<Rightarrow> u32 option \<Rightarrow> nat \<Rightarrow> futex_pass list \<Rightarrow> int option" where
  "WaitImpl_linux address expected is64 timeout_micros now passes =
     (if \<not> IsValidWaitAddress address is64 then Some KERNEL_ERROR_EINVAL
      else WaitLinux address expected is64 timeout_micros now passes)"

definition SyncWake :: "u64 \<Rightarrow> int \<Rightarrow> sync \<Rightarrow> sync \<times> int" where
  "SyncWake address count s =
     (if \<not> IsValidWakeAddress address \<or> count < 0 then (s, KERNEL_ERROR_EINVAL)
      else WakePortable address count s)"

definition SyncWake_linux :: "u64 \<Rightarrow> int \<Rightarrow> (int \<Rightarrow> int) \<Rightarrow> int" where
  "SyncWake_linux address count futex_wake =
     (if \<not> IsValidWakeAddress address \<or> count < 0 then KERNEL_ERROR_EINVAL
      else WakeLinux count futex_wake)"

section \<open>The registry with its callers\<close>

text \<open>
  A waiter's number is used for one call at a time. Clocks are free, so what holds of every run holds
  whatever the time each section runs at.
\<close>

inductive sync_step :: "sync \<Rightarrow> sync \<Rightarrow> bool" where
  sync_wait32:
    "sy_waiters s t = None \<Longrightarrow> sy_leaving s t = None \<Longrightarrow>
       Wait32 t a e32 timeout now now' s = (s', r) \<Longrightarrow> sync_step s s'"
| sync_wait64:
    "sy_waiters s t = None \<Longrightarrow> sy_leaving s t = None \<Longrightarrow>
       Wait64 t a e64 timeout now now' s = (s', r) \<Longrightarrow> sync_step s s'"
| sync_resume:
    "sy_waiters s t = Some w \<Longrightarrow> WaitPortable_resume t w now now' s = (s', r) \<Longrightarrow> sync_step s s'"
| sync_unregister:
    "sy_leaving s t = Some (a, e) \<Longrightarrow>
       sync_step s (unregister_second a e (s\<lparr>sy_leaving := (sy_leaving s)(t := None)\<rparr>))"
| sync_wake: "count \<le> INT_MAX \<Longrightarrow> SyncWake a count s = (s', r) \<Longrightarrow> sync_step s s'"
| sync_write: "sync_step s (s\<lparr>sy_mem := mem\<rparr>)"

definition sync_init :: "sync \<Rightarrow> bool" where
  "sync_init s \<longleftrightarrow> (\<exists>mem. s = new_sync mem)"

text \<open>
  The lists of the entries hold the waiters once each, a waiter's entry is the one its address is
  registered under, and an entry without waiters is on its way out.
\<close>

definition listed :: "sync \<Rightarrow> bool" where
  "listed s \<longleftrightarrow>
     (\<forall>t w. sy_waiters s t = Some w \<longrightarrow>
        sy_entries s (pw_address w) = Some (pw_entry w) \<and> t \<in> set (sy_lists s (pw_entry w))) \<and>
     (\<forall>e. distinct (sy_lists s e) \<and>
        (\<forall>t\<in>set (sy_lists s e). \<exists>w. sy_waiters s t = Some w \<and> pw_entry w = e)) \<and>
     (\<forall>t. sy_leaving s t \<noteq> None \<longrightarrow> sy_waiters s t = None)"

definition registered :: "sync \<Rightarrow> bool" where
  "registered s \<longleftrightarrow>
     (\<forall>a e. sy_entries s a = Some e \<longrightarrow> e < sy_next s \<and>
        (sy_lists s e \<noteq> [] \<or> (\<exists>t. sy_leaving s t = Some (a, e)))) \<and>
     (\<forall>a b e. sy_entries s a = Some e \<longrightarrow> sy_entries s b = Some e \<longrightarrow> a = b)"

definition sync_inv :: "sync \<Rightarrow> bool" where
  "sync_inv s \<longleftrightarrow> listed s \<and> registered s"

lemma listed_waiter:
  "listed s \<Longrightarrow> sy_waiters s t = Some w \<Longrightarrow> sy_entries s (pw_address w) = Some (pw_entry w)"
  "listed s \<Longrightarrow> sy_waiters s t = Some w \<Longrightarrow> t \<in> set (sy_lists s (pw_entry w))"
  by (auto simp: listed_def)

lemma listed_member:
  "listed s \<Longrightarrow> t \<in> set (sy_lists s e) \<Longrightarrow> \<exists>w. sy_waiters s t = Some w \<and> pw_entry w = e"
  by (auto simp: listed_def)

lemma listed_distinct: "listed s \<Longrightarrow> distinct (sy_lists s e)"
  by (simp add: listed_def)

lemma listed_leaving: "listed s \<Longrightarrow> sy_leaving s t = Some x \<Longrightarrow> sy_waiters s t = None"
  by (simp add: listed_def)

lemma registeredD:
  assumes "registered s" "sy_entries s a = Some e"
  shows "e < sy_next s" "sy_lists s e = [] \<Longrightarrow> \<exists>t. sy_leaving s t = Some (a, e)"
    "sy_entries s b = Some e \<Longrightarrow> a = b"
  using assms by (auto simp: registered_def)

lemma listedI:
  assumes "\<And>t w. sy_waiters s t = Some w \<Longrightarrow> sy_entries s (pw_address w) = Some (pw_entry w)"
    and "\<And>t w. sy_waiters s t = Some w \<Longrightarrow> t \<in> set (sy_lists s (pw_entry w))"
    and "\<And>e. distinct (sy_lists s e)"
    and "\<And>e t. t \<in> set (sy_lists s e) \<Longrightarrow> \<exists>w. sy_waiters s t = Some w \<and> pw_entry w = e"
    and "\<And>t x. sy_leaving s t = Some x \<Longrightarrow> sy_waiters s t = None"
  shows "listed s"
  using assms by (auto simp: listed_def)

lemma registeredI:
  assumes "\<And>a e. sy_entries s a = Some e \<Longrightarrow> e < sy_next s"
    and "\<And>a e. sy_entries s a = Some e \<Longrightarrow> sy_lists s e = [] \<Longrightarrow> \<exists>t. sy_leaving s t = Some (a, e)"
    and "\<And>a b e. sy_entries s a = Some e \<Longrightarrow> sy_entries s b = Some e \<Longrightarrow> a = b"
  shows "registered s"
  using assms by (auto simp: registered_def)

section \<open>A turn keeps the registry\<close>

text \<open>The state in which a call takes its turn: its number is in its entry's list, nothing else is amiss.\<close>

definition at_turn :: "nat \<Rightarrow> portable_waiter \<Rightarrow> sync \<Rightarrow> bool" where
  "at_turn t w s \<longleftrightarrow> listed (s\<lparr>sy_waiters := (sy_waiters s)(t \<mapsto> w)\<rparr>) \<and>
     registered s \<and> sy_leaving s t = None"

lemma at_turn_entry: "at_turn t w s \<Longrightarrow> sy_entries s (pw_address w) = Some (pw_entry w)"
  using listed_waiter(1) [of "s\<lparr>sy_waiters := (sy_waiters s)(t \<mapsto> w)\<rparr>" t w] by (simp add: at_turn_def)

lemma registered_waiters [simp]: "registered (s\<lparr>sy_waiters := ws\<rparr>) = registered s"
  by (simp add: registered_def)

lemma leave_inv:
  assumes turn: "at_turn t w s" and ws: "ws = removeAll t (sy_lists s (pw_entry w))"
  shows "sync_inv (s\<lparr>sy_lists := (sy_lists s)(pw_entry w := ws), sy_waiters := (sy_waiters s)(t := None),
           sy_leaving := (sy_leaving s)(t := if ws = [] then Some (pw_address w, pw_entry w) else None)\<rparr>)"
    (is "sync_inv ?s'")
proof -
  let ?s = "s\<lparr>sy_waiters := (sy_waiters s)(t \<mapsto> w)\<rparr>"
  have l: "listed ?s" and r: "registered s" and gone: "sy_leaving s t = None" using turn by (simp_all add: at_turn_def)
  have in_list: "k = pw_entry w" if "t \<in> set (sy_lists s k)" for k using listed_member [OF l, of t k] that by simp
  have "listed ?s'"
  proof (rule listedI)
    fix u v assume "sy_waiters ?s' u = Some v"
    then have u: "u \<noteq> t" "sy_waiters s u = Some v" by (auto split: if_splits)
    then show "sy_entries ?s' (pw_address v) = Some (pw_entry v)" "u \<in> set (sy_lists ?s' (pw_entry v))"
      using listed_waiter [OF l, of u v] ws by auto
  next
    fix k show "distinct (sy_lists ?s' k)" using listed_distinct [OF l, of k] ws by (auto simp: distinct_removeAll)
  next
    fix k u assume "u \<in> set (sy_lists ?s' k)"
    then have "u \<noteq> t" "u \<in> set (sy_lists s k)" using in_list ws by (auto split: if_splits)
    then show "\<exists>v. sy_waiters ?s' u = Some v \<and> pw_entry v = k" using listed_member [OF l, of u k] by simp
  next
    fix u x assume "sy_leaving ?s' u = Some x"
    then show "sy_waiters ?s' u = None" using listed_leaving [OF l, of u x] by (auto split: if_splits)
  qed
  moreover have "registered ?s'"
  proof (rule registeredI)
    fix a k assume a: "sy_entries ?s' a = Some k"
    then show "k < sy_next ?s'" using registeredD(1) [OF r] by simp
    assume empty: "sy_lists ?s' k = []"
    show "\<exists>u. sy_leaving ?s' u = Some (a, k)"
    proof (cases "k = pw_entry w")
      case True
      then have "a = pw_address w" using registeredD(3) [OF r _ at_turn_entry [OF turn]] a by simp
      with True empty show ?thesis by auto
    next
      case False
      then obtain u where "sy_leaving s u = Some (a, k)" using registeredD(2) [OF r, of a k] a empty by auto
      with gone show ?thesis by (intro exI [of _ u]) auto
    qed
  qed (use registeredD(3) [OF r] in simp)
  ultimately show ?thesis by (simp add: sync_inv_def)
qed

lemma take_turn_inv:
  assumes "at_turn t w s" and "take_turn t w turn s = (s', r)"
  shows "sync_inv s'"
proof (cases turn)
  case (Sync_Sleeps slice)
  with assms show ?thesis by (auto simp: take_turn_def at_turn_def sync_inv_def)
next
  case (Sync_Leaves result)
  with assms(2) leave_inv [OF assms(1) refl] show ?thesis
    by (auto simp: take_turn_def unregister_first_def Let_def)
qed

text \<open>A state with an entry for \<open>a\<close> that may still be without waiters.\<close>

lemma find_or_make_entry_ok:
  assumes "sync_inv s" "find_or_make_entry a s = (e, s1)"
  shows "listed s1" "sy_entries s1 a = Some e" "sy_waiters s1 = sy_waiters s" "sy_leaving s1 = sy_leaving s"
    "registered (s1\<lparr>sy_lists := (sy_lists s1)(e := sy_lists s1 e @ [t])\<rparr>)"
proof -
  have l: "listed s" and r: "registered s" using assms(1) by (simp_all add: sync_inv_def)
  have "listed s1 \<and> sy_entries s1 a = Some e \<and> sy_waiters s1 = sy_waiters s \<and> sy_leaving s1 = sy_leaving s \<and>
      registered (s1\<lparr>sy_lists := (sy_lists s1)(e := sy_lists s1 e @ [t])\<rparr>)"
  proof (cases "sy_entries s a")
    case None
    have e: "e = sy_next s" and s1: "s1 = s\<lparr>sy_entries := (sy_entries s)(a \<mapsto> e), sy_lists := (sy_lists s)(e := []), sy_next := e + 1\<rparr>"
      using assms(2) None by (auto simp: find_or_make_entry_def Let_def)
    have other: "pw_entry v \<noteq> e \<and> pw_address v \<noteq> a" if "sy_waiters s u = Some v" for u v
      using listed_waiter(1) [OF l that] registeredD(1) [OF r] None e by fastforce
    have fresh: "k \<noteq> e" if "sy_entries s b = Some k" for b k using registeredD(1) [OF r that] e by simp
    have "listed s1"
    proof (rule listedI)
      fix u v assume "sy_waiters s1 u = Some v"
      then have v: "sy_waiters s u = Some v" by (simp add: s1)
      from other [OF v] listed_waiter [OF l v]
      show "sy_entries s1 (pw_address v) = Some (pw_entry v)" "u \<in> set (sy_lists s1 (pw_entry v))" by (simp_all add: s1)
    qed (use listed_distinct [OF l] listed_member [OF l] listed_leaving [OF l] in \<open>auto simp: s1 split: if_splits\<close>)
    moreover have "registered (s1\<lparr>sy_lists := (sy_lists s1)(e := sy_lists s1 e @ [t])\<rparr>)"
    proof (rule registeredI)
      fix b k assume k: "sy_entries (s1\<lparr>sy_lists := (sy_lists s1)(e := sy_lists s1 e @ [t])\<rparr>) b = Some k"
      then show "k < sy_next (s1\<lparr>sy_lists := (sy_lists s1)(e := sy_lists s1 e @ [t])\<rparr>)"
        using registeredD(1) [OF r, of b k] by (auto simp: s1 e split: if_splits)
      assume "sy_lists (s1\<lparr>sy_lists := (sy_lists s1)(e := sy_lists s1 e @ [t])\<rparr>) k = []"
      with k show "\<exists>u. sy_leaving (s1\<lparr>sy_lists := (sy_lists s1)(e := sy_lists s1 e @ [t])\<rparr>) u = Some (b, k)"
        using registeredD(2) [OF r, of b k] by (auto simp: s1 split: if_splits)
    next
      fix b c k assume "sy_entries (s1\<lparr>sy_lists := (sy_lists s1)(e := sy_lists s1 e @ [t])\<rparr>) b = Some k"
        and "sy_entries (s1\<lparr>sy_lists := (sy_lists s1)(e := sy_lists s1 e @ [t])\<rparr>) c = Some k"
      then show "b = c" using registeredD(3) [OF r, of b k c] fresh by (auto simp: s1 split: if_splits)
    qed
    ultimately show ?thesis by (simp add: s1)
  next
    case (Some k)
    then have s1: "k = e" "s1 = s" using assms(2) by (auto simp: find_or_make_entry_def)
    have "registered (s\<lparr>sy_lists := (sy_lists s)(e := sy_lists s e @ [t])\<rparr>)"
      by (rule registeredI) (use registeredD [OF r] in \<open>auto split: if_splits\<close>)
    with s1 l Some show ?thesis by simp
  qed
  then show "listed s1" "sy_entries s1 a = Some e" "sy_waiters s1 = sy_waiters s" "sy_leaving s1 = sy_leaving s"
    "registered (s1\<lparr>sy_lists := (sy_lists s1)(e := sy_lists s1 e @ [t])\<rparr>)" by blast+
qed

lemma register_at_turn:
  assumes "sync_inv s" "sy_waiters s t = None" "sy_leaving s t = None"
    "RegisterPortableWaiter a t s = (e, s')" "pw_entry w = e" "pw_address w = a"
  shows "at_turn t w s'"
proof -
  obtain s1 where s1: "find_or_make_entry a s = (e, s1)"
    and s': "s' = s1\<lparr>sy_lists := (sy_lists s1)(e := sy_lists s1 e @ [t])\<rparr>"
    using assms(4) by (auto simp: RegisterPortableWaiter_def split: prod.splits)
  note ok = find_or_make_entry_ok [OF assms(1) s1]
  have out: "t \<notin> set (sy_lists s1 k)" for k using listed_member [OF ok(1), of t k] assms(2) ok(3) by auto
  have "listed (s'\<lparr>sy_waiters := (sy_waiters s')(t \<mapsto> w)\<rparr>)"
  proof (rule listedI)
    fix u v assume "sy_waiters (s'\<lparr>sy_waiters := (sy_waiters s')(t \<mapsto> w)\<rparr>) u = Some v"
    then have "u = t \<and> v = w \<or> sy_waiters s1 u = Some v" by (auto simp: s' split: if_splits)
    then show "sy_entries (s'\<lparr>sy_waiters := (sy_waiters s')(t \<mapsto> w)\<rparr>) (pw_address v) = Some (pw_entry v)"
      "u \<in> set (sy_lists (s'\<lparr>sy_waiters := (sy_waiters s')(t \<mapsto> w)\<rparr>) (pw_entry v))"
      using listed_waiter [OF ok(1), of u v] ok(2) assms(5,6) by (auto simp: s')
  next
    fix k show "distinct (sy_lists (s'\<lparr>sy_waiters := (sy_waiters s')(t \<mapsto> w)\<rparr>) k)"
      using listed_distinct [OF ok(1)] out by (simp add: s')
  next
    fix k u assume "u \<in> set (sy_lists (s'\<lparr>sy_waiters := (sy_waiters s')(t \<mapsto> w)\<rparr>) k)"
    then have "u = t \<and> k = e \<or> u \<in> set (sy_lists s1 k)" by (auto simp: s' split: if_splits)
    then show "\<exists>v. sy_waiters (s'\<lparr>sy_waiters := (sy_waiters s')(t \<mapsto> w)\<rparr>) u = Some v \<and> pw_entry v = k"
      using listed_member [OF ok(1), of u k] out assms(5) by (auto simp: s')
  next
    fix u x assume "sy_leaving (s'\<lparr>sy_waiters := (sy_waiters s')(t \<mapsto> w)\<rparr>) u = Some x"
    then show "sy_waiters (s'\<lparr>sy_waiters := (sy_waiters s')(t \<mapsto> w)\<rparr>) u = None"
      using listed_leaving [OF ok(1), of u x] ok(4) assms(3) by (auto simp: s')
  qed
  with ok(4,5) assms(3) show ?thesis by (simp add: at_turn_def s')
qed

lemma WaitImpl_inv:
  assumes "sync_inv s" "sy_waiters s t = None" "sy_leaving s t = None"
    "WaitImpl t a expected is64 timeout now now' s = (s', r)"
  shows "sync_inv s'"
proof (cases "IsValidWaitAddress a is64")
  case True
  obtain e s1 where reg: "RegisterPortableWaiter a t s = (e, s1)" by fastforce
  let ?w = "\<lparr>pw_address = a, pw_expected = expected, pw_is64 = is64, pw_deadline = MakeDeadline timeout now,
             pw_entry = e, pw_wake_requested = False\<rparr>"
  have "at_turn t ?w s1" by (rule register_at_turn [OF assms(1-3) reg]) simp_all
  from take_turn_inv [OF this] True assms(4) reg show ?thesis
    by (simp add: WaitImpl_def WaitPortable_def Let_def)
qed (use assms in \<open>simp add: WaitImpl_def\<close>)

lemma resume_inv:
  assumes "sync_inv s" "sy_waiters s t = Some w" "WaitPortable_resume t w now now' s = (s', r)"
  shows "sync_inv s'"
proof -
  have "s\<lparr>sy_waiters := (sy_waiters s)(t \<mapsto> w)\<rparr> = s" using assms(2) by (simp add: fun_upd_idem)
  moreover have "sy_leaving s t = None"
    using assms(1,2) listed_leaving [of s t] by (cases "sy_leaving s t") (auto simp: sync_inv_def)
  ultimately have "at_turn t w s" using assms(1) by (simp add: at_turn_def sync_inv_def)
  then show ?thesis using take_turn_inv assms(3) by (simp add: WaitPortable_resume_def)
qed

lemma unregister_second_inv:
  assumes inv: "sync_inv s" and leaving: "sy_leaving s t = Some (a, e)"
  shows "sync_inv (unregister_second a e (s\<lparr>sy_leaving := (sy_leaving s)(t := None)\<rparr>))" (is "sync_inv ?s'")
proof -
  have l: "listed s" and r: "registered s" using inv by (simp_all add: sync_inv_def)
  let ?gone = "sy_entries s a = Some e \<and> sy_lists s e = []"
  have s': "?s' = s\<lparr>sy_leaving := (sy_leaving s)(t := None),
      sy_entries := if ?gone then (sy_entries s)(a := None) else sy_entries s\<rparr>"
    by (simp add: unregister_second_def)
  have "listed ?s'"
  proof (rule listedI)
    fix u v assume "sy_waiters ?s' u = Some v"
    then have v: "sy_waiters s u = Some v" by (simp add: s')
    note w = listed_waiter [OF l v]
    then show "u \<in> set (sy_lists ?s' (pw_entry v))" by (simp add: s')
    have "\<not> (?gone \<and> pw_address v = a)" using w by auto
    with w(1) show "sy_entries ?s' (pw_address v) = Some (pw_entry v)" by (auto simp: s')
  qed (use listed_distinct [OF l] listed_member [OF l] listed_leaving [OF l] in \<open>auto simp: s' split: if_splits\<close>)
  moreover have "registered ?s'"
  proof (rule registeredI)
    fix b k assume k: "sy_entries ?s' b = Some k"
    then have b: "sy_entries s b = Some k" "?gone \<longrightarrow> b \<noteq> a" by (auto simp: s' split: if_splits)
    then show "k < sy_next ?s'" using registeredD(1) [OF r] by (simp add: s')
    assume "sy_lists ?s' k = []"
    then have empty: "sy_lists s k = []" by (simp add: s')
    then obtain u where u: "sy_leaving s u = Some (b, k)" using registeredD(2) [OF r b(1)] by blast
    have "u \<noteq> t" using u leaving b empty by auto
    with u show "\<exists>u. sy_leaving ?s' u = Some (b, k)" by (auto simp: s' intro!: exI [of _ u])
  qed (use registeredD(3) [OF r] in \<open>auto simp: s' split: if_splits\<close>)
  ultimately show ?thesis by (simp add: sync_inv_def)
qed

text \<open>Waking sets \<open>wake_requested\<close> of the first waiters that do not have it.\<close>

definition pending :: "(nat \<Rightarrow> portable_waiter option) \<Rightarrow> nat \<Rightarrow> bool" where
  "pending ws t \<longleftrightarrow> (case ws t of None \<Rightarrow> False | Some w \<Rightarrow> \<not> pw_wake_requested w)"

definition wake_all :: "nat set \<Rightarrow> (nat \<Rightarrow> portable_waiter option) \<Rightarrow> nat \<Rightarrow> portable_waiter option" where
  "wake_all T ws t = (if t \<in> T then map_option (\<lambda>w. w\<lparr>pw_wake_requested := True\<rparr>) (ws t) else ws t)"

definition first_pending :: "int \<Rightarrow> nat list \<Rightarrow> (nat \<Rightarrow> portable_waiter option) \<Rightarrow> nat list" where
  "first_pending n ts ws = take (if n = INT_MAX then length ts else nat n) (filter (pending ws) ts)"

lemma wake_all_insert:
  "ws t = Some w \<Longrightarrow> wake_all T (ws(t \<mapsto> w\<lparr>pw_wake_requested := True\<rparr>)) = wake_all (insert t T) ws"
  by (auto simp: wake_all_def)

lemma wake_loop_eq:
  "distinct ts \<Longrightarrow> 1 \<le> n \<Longrightarrow> n \<le> INT_MAX \<Longrightarrow>
     portable_wake_loop n ts ws = wake_all (set (first_pending n ts ws)) ws"
proof (induction ts arbitrary: n ws)
  case Nil
  then show ?case by (simp add: wake_all_def first_pending_def)
next
  case (Cons t ts)
  show ?case
  proof (cases "pending ws t")
    case False
    then have "portable_wake_loop n (t # ts) ws = portable_wake_loop n ts ws"
      by (auto simp: pending_def split: option.splits)
    moreover have "set (first_pending n (t # ts) ws) = set (first_pending n ts ws)"
      using False le_SucI [OF length_filter_le [of "pending ws" ts]] by (simp add: first_pending_def)
    ultimately show ?thesis using Cons by simp
  next
    case True
    then obtain w where w: "ws t = Some w" "\<not> pw_wake_requested w" by (auto simp: pending_def split: option.splits)
    let ?ws = "ws(t \<mapsto> w\<lparr>pw_wake_requested := True\<rparr>)"
    have "pending ?ws u = pending ws u" if "u \<in> set ts" for u
      using Cons.prems(1) that by (cases "u = t") (auto simp: pending_def)
    then have same: "filter (pending ?ws) ts = filter (pending ws) ts" by (rule filter_cong [OF refl])
    show ?thesis
    proof (cases "n = INT_MAX")
      case all: True
      then have "set (first_pending n (t # ts) ws) = insert t (set (first_pending n ts ?ws))"
        using True same by (simp add: first_pending_def)
      then show ?thesis using Cons w all by (simp add: wake_all_insert)
    next
      case False
      then have "set (first_pending n (t # ts) ws) =
          (if n = 1 then {t} else insert t (set (first_pending (n - 1) ts ?ws)))"
        using True same Cons.prems(2,3) by (cases "nat n") (auto simp: first_pending_def nat_diff_distrib)
      moreover have "wake_all {t} ws = ?ws" using w by (auto simp: wake_all_def)
      ultimately show ?thesis using Cons w False by (simp add: wake_all_insert)
    qed
  qed
qed

lemma wake_all_Some:
  "wake_all T ws t = Some w' \<longleftrightarrow>
     (\<exists>w. ws t = Some w \<and> w' = (if t \<in> T then w\<lparr>pw_wake_requested := True\<rparr> else w))"
  by (auto simp: wake_all_def)

lemma wake_all_inv:
  assumes "sync_inv s"
  shows "sync_inv (s\<lparr>sy_waiters := wake_all T (sy_waiters s)\<rparr>)"
proof -
  have l: "listed s" using assms by (simp add: sync_inv_def)
  have "listed (s\<lparr>sy_waiters := wake_all T (sy_waiters s)\<rparr>)"
  proof (rule listedI)
    fix e t assume "t \<in> set (sy_lists (s\<lparr>sy_waiters := wake_all T (sy_waiters s)\<rparr>) e)"
    then obtain w where "sy_waiters s t = Some w" "pw_entry w = e" using listed_member [OF l] by auto
    then show "\<exists>w. sy_waiters (s\<lparr>sy_waiters := wake_all T (sy_waiters s)\<rparr>) t = Some w \<and> pw_entry w = e"
      by (simp add: wake_all_def)
  next
    fix t x assume "sy_leaving (s\<lparr>sy_waiters := wake_all T (sy_waiters s)\<rparr>) t = Some x"
    then show "sy_waiters (s\<lparr>sy_waiters := wake_all T (sy_waiters s)\<rparr>) t = None"
      using listed_leaving [OF l] by (simp add: wake_all_def)
  qed (use listed_waiter [OF l] listed_distinct [OF l] in \<open>auto simp: wake_all_Some split: if_splits\<close>)
  then show ?thesis using assms by (simp add: sync_inv_def)
qed

lemma SyncWake_eq:
  assumes "sync_inv s" "IsValidWakeAddress a" "0 < count" "count \<le> INT_MAX"
  shows "SyncWake a count s =
    (case sy_entries s a of None \<Rightarrow> s
     | Some e \<Rightarrow> s\<lparr>sy_waiters := wake_all (set (first_pending count (sy_lists s e) (sy_waiters s))) (sy_waiters s)\<rparr>, OK)"
  using assms wake_loop_eq [OF listed_distinct]
  by (auto simp: SyncWake_def WakePortable_def sync_inv_def split: option.splits)

lemma SyncWake_inv:
  assumes "sync_inv s" "SyncWake a count s = (s', r)" "count \<le> INT_MAX"
  shows "sync_inv s'"
proof (cases "IsValidWakeAddress a \<and> 0 < count")
  case True
  with SyncWake_eq [OF assms(1) _ _ assms(3)] assms(1,2) show ?thesis
    by (auto split: option.splits intro: wake_all_inv)
next
  case False
  with assms(1,2) show ?thesis by (auto simp: SyncWake_def WakePortable_def split: if_splits)
qed

interpretation sync_registry: step_invariant sync_init sync_step sync_inv
proof
  fix s assume "sync_init s"
  then show "sync_inv s" by (auto simp: sync_init_def new_sync_def sync_inv_def listed_def registered_def)
next
  fix s s' assume inv: "sync_inv s" and "sync_step s s'"
  from this(2) show "sync_inv s'"
  proof cases
    case sync_wake
    then show ?thesis using SyncWake_inv [OF inv] by blast
  next
    case sync_write
    then show ?thesis using inv by (simp add: sync_inv_def listed_def registered_def)
  qed (use inv in \<open>auto simp: Wait32_def Wait64_def intro: WaitImpl_inv resume_inv unregister_second_inv\<close>)
qed

section \<open>Results\<close>

lemma GetWaitSliceMicros_max:
  "GetWaitSliceMicros d first now = UINT32_MAX \<longleftrightarrow> wd_finite d \<and> now \<ge> wd_end d \<and> \<not> first"
proof -
  have "word_of_nat (min n (unat SIGNAL_POLL_MICROS)) \<noteq> UINT32_MAX" for n
  proof
    assume "word_of_nat (min n (unat SIGNAL_POLL_MICROS)) = UINT32_MAX"
    then have "unat (word_of_nat (min n 10000) :: u32) = unat UINT32_MAX" by (simp add: SIGNAL_POLL_MICROS_def)
    moreover have "unat UINT32_MAX = 4294967295"
      by (simp add: UINT32_MAX_def unsigned_minus_1_eq_mask mask_eq_exp_minus_1)
    moreover have "unat (word_of_nat (min n 10000) :: u32) = min n 10000"
      by (simp add: unat_of_nat take_bit_nat_eq_self)
    ultimately show False by simp
  qed
  then show ?thesis by (auto simp: GetWaitSliceMicros_def UINT32_MAX_def SIGNAL_POLL_MICROS_def)
qed

text \<open>What a pass of the futex loop that returns has seen.\<close>

definition saw_change :: "u64 \<Rightarrow> u64 \<Rightarrow> bool \<Rightarrow> futex_pass \<Rightarrow> bool" where
  "saw_change address expected is64 p \<longleftrightarrow>
     ReadWord (fp_mem p) address is64 \<noteq> expected \<or> ReadWord (fp_mem_after p) address is64 \<noteq> expected"

definition futex_said :: "u64 \<Rightarrow> futex_result set \<Rightarrow> futex_pass \<Rightarrow> bool" where
  "futex_said expected answers p \<longleftrightarrow> (\<exists>sec nsec. fp_futex p (ucast expected) sec nsec \<in> answers)"

definition pass_justifies :: "u64 \<Rightarrow> u64 \<Rightarrow> bool \<Rightarrow> wait_deadline \<Rightarrow> int \<Rightarrow> futex_pass \<Rightarrow> bool" where
  "pass_justifies address expected is64 deadline r p \<longleftrightarrow>
     (r = OK \<and> (saw_change address expected is64 p \<or> futex_said expected {Futex_Woken, Futex_EAGAIN} p)) \<or>
     (r = KERNEL_ERROR_ETIMEDOUT \<and> wd_finite deadline \<and>
        max (fp_now p) (fp_now_after p) \<ge> wd_end deadline \<and>
        ReadWord (fp_mem_after p) address is64 = expected) \<or>
     (r = KERNEL_ERROR_EINVAL \<and> futex_said expected {Futex_Error} p)"

lemma linux_pass_justified:
  assumes "linux_pass address expected is64 deadline first p = Some r"
  shows "pass_justifies address expected is64 deadline r p"
proof (cases "ReadWord (fp_mem p) address is64 \<noteq> expected \<or> GetWaitSliceMicros deadline first (fp_now p) = UINT32_MAX")
  case True
  with assms show ?thesis
    by (auto simp: linux_pass_def pass_justifies_def saw_change_def Let_def GetWaitSliceMicros_max split: if_splits)
next
  case False
  let ?slice = "unat (GetWaitSliceMicros deadline first (fp_now p))"
  define e where "e = fp_futex p (ucast expected) (?slice div 1000000) (?slice mod 1000000 * 1000)"
  have said: "futex_said expected {e} p" unfolding futex_said_def e_def by blast
  have res: "(if e = Futex_Woken \<or> e = Futex_EAGAIN then Some OK
      else if e \<noteq> Futex_ETIMEDOUT \<and> e \<noteq> Futex_EINTR then Some KERNEL_ERROR_EINVAL
      else if wd_finite deadline \<and> fp_now_after p \<ge> wd_end deadline
      then Some (if ReadWord (fp_mem_after p) address is64 = expected then KERNEL_ERROR_ETIMEDOUT else OK)
      else None) = Some r"
    using assms False unfolding linux_pass_def Let_def e_def by simp
  show ?thesis
    by (cases e; use res said in
        \<open>auto simp: pass_justifies_def futex_said_def saw_change_def max_def split: if_splits\<close>)
qed

lemma linux_pass_deadline:
  assumes "wd_finite deadline" "fp_now_after p \<ge> wd_end deadline"
  shows "linux_pass address expected is64 deadline first p \<noteq> None"
  using assms by (simp add: linux_pass_def Let_def)

lemma linux_loop_justified:
  "linux_loop address expected is64 deadline first ps = Some r \<Longrightarrow>
     \<exists>p\<in>set ps. pass_justifies address expected is64 deadline r p"
  by (induction ps arbitrary: first) (auto split: option.splits dest: linux_pass_justified)

lemma linux_loop_returns:
  "wd_finite deadline \<Longrightarrow> p \<in> set ps \<Longrightarrow> fp_now_after p \<ge> wd_end deadline \<Longrightarrow>
     linux_loop address expected is64 deadline first ps \<noteq> None"
  by (induction ps arbitrary: first) (auto split: option.splits dest: linux_pass_deadline)

text \<open>
  C29: waiters can be found. In every reachable registry a waiter is exactly once in the list of the entry
  its address is registered under, however the two sections of other calls' unregistration interleave with
  it, so no wake misses it; and when no call is under way the table is empty, so no entry leaks.
\<close>

theorem sync_waiters_found:
  assumes "reachable sync_init sync_step s"
  shows "(\<forall>t w. sy_waiters s t = Some w \<longrightarrow>
            (\<exists>e. sy_entries s (pw_address w) = Some e \<and> t \<in> set (sy_lists s e) \<and> distinct (sy_lists s e))) \<and>
         (sy_waiters s = Map.empty \<and> sy_leaving s = Map.empty \<longrightarrow> sy_entries s = Map.empty)"
proof -
  have l: "listed s" and r: "registered s" using sync_registry.reachable_inv [OF assms] by (simp_all add: sync_inv_def)
  have "sy_entries s = Map.empty" if none: "sy_waiters s = Map.empty" "sy_leaving s = Map.empty"
  proof
    fix a
    show "sy_entries s a = None"
    proof (rule ccontr)
      assume "sy_entries s a \<noteq> None"
      then obtain e where e: "sy_entries s a = Some e" by blast
      have "t \<notin> set (sy_lists s e)" for t using listed_member [OF l, of t e] none(1) by auto
      then have "sy_lists s e = []" by (cases "sy_lists s e") auto
      with registeredD(2) [OF r e] none(2) show False by simp
    qed
  qed
  then show ?thesis using listed_waiter [OF l] listed_distinct [OF l] by blast
qed

definition example_sync :: sync where
  "example_sync = fst (Wait32 7 64 0 None 0 0 (new_sync (\<lambda>_. 0)))"

lemma example_sync_eq:
  "example_sync = (new_sync (\<lambda>_. 0))\<lparr>sy_entries := [64 \<mapsto> 0], sy_lists := (\<lambda>_. [])(0 := [7]), sy_next := 1,
     sy_waiters := [7 \<mapsto> \<lparr>pw_address = 64, pw_expected = 0, pw_is64 = False,
        pw_deadline = \<lparr>wd_finite = False, wd_end = 0\<rparr>, pw_entry = 0, pw_wake_requested = False\<rparr>]\<rparr>"
proof -
  have "ReadWord (\<lambda>_. 0) 64 False = 0"
    by (simp add: ReadWord_def word_rcat_def horner_sum_simps upt_rec)
  then show ?thesis
    by (simp add: example_sync_def Wait32_def WaitImpl_def WaitPortable_def RegisterPortableWaiter_def
        find_or_make_entry_def new_sync_def take_turn_def portable_test_def MakeDeadline_def Let_def
        GetWaitSliceMicros_def SIGNAL_POLL_MICROS_def UINT32_MAX_def IsValidWaitAddress_def fun_eq_iff)
qed

lemma sync_step_Wait32:
  "sy_waiters s t = None \<Longrightarrow> sy_leaving s t = None \<Longrightarrow> sync_step s (fst (Wait32 t a e timeout now now' s))"
  by (rule sync_wait32 [OF _ _ prod.collapse [symmetric]])

lemma example_sync_reachable: "reachable sync_init sync_step example_sync"
proof -
  let ?s = "new_sync (\<lambda>_. 0)"
  have "sync_step ?s example_sync"
    unfolding example_sync_def by (rule sync_step_Wait32) (simp_all add: new_sync_def)
  moreover have "reachable sync_init sync_step ?s" by (rule reachable_init) (auto simp: sync_init_def)
  ultimately show ?thesis by (blast intro: reachable_step)
qed

lemma sync_waiters_found_witness: "\<exists>e. sy_entries example_sync 64 = Some e \<and> 7 \<in> set (sy_lists example_sync e)"
proof -
  obtain w where w: "sy_waiters example_sync 7 = Some w" "pw_address w = 64" by (simp add: example_sync_eq)
  from sync_waiters_found [OF example_sync_reachable] w(1)
  have "\<exists>e. sy_entries example_sync (pw_address w) = Some e \<and> 7 \<in> set (sy_lists example_sync e)" by meson
  with w(2) show ?thesis by simp
qed

text \<open>
  A wake is exact. \<open>Wake\<close> marks the first \<open>count\<close> waiters of the address in the order they came that
  are not marked yet (all of them for \<open>INT_MAX\<close>) and nothing else; a marked waiter returns \<open>OK\<close> at its
  next look, whatever the clock and memory, and one that times out was not marked, so no wake is spent on
  a call that reports a time-out.
\<close>

theorem sync_wake_exact:
  assumes "reachable sync_init sync_step s" and "IsValidWakeAddress a" and "0 < count" and "count \<le> INT_MAX"
    and "sy_entries s a = Some e"
  shows "SyncWake a count s =
           (s\<lparr>sy_waiters := wake_all (set (first_pending count (sy_lists s e) (sy_waiters s))) (sy_waiters s)\<rparr>, OK) \<and>
         (pw_wake_requested w \<longrightarrow> portable_after_sleep mem now now' w = Sync_Leaves OK) \<and>
         (portable_after_sleep mem now now' w = Sync_Leaves KERNEL_ERROR_ETIMEDOUT \<longrightarrow>
            \<not> pw_wake_requested w \<and> ReadWord mem (pw_address w) (pw_is64 w) = pw_expected w)"
proof -
  have inv: "sync_inv s" by (rule sync_registry.reachable_inv [OF assms(1)])
  have "pw_wake_requested w \<longrightarrow> portable_after_sleep mem now now' w = Sync_Leaves OK"
    by (simp add: portable_after_sleep_def portable_test_def)
  moreover have "portable_after_sleep mem now now' w = Sync_Leaves KERNEL_ERROR_ETIMEDOUT \<longrightarrow>
      \<not> pw_wake_requested w \<and> ReadWord mem (pw_address w) (pw_is64 w) = pw_expected w"
    by (auto simp: portable_after_sleep_def portable_test_def errno_defs)
  ultimately show ?thesis using SyncWake_eq [OF inv assms(2-4)] assms(5) by simp
qed

lemma sync_wake_exact_witness:
  "pw_wake_requested (the (sy_waiters (fst (SyncWake 64 1 example_sync)) 7))"
proof -
  have "SyncWake 64 1 example_sync = (example_sync\<lparr>sy_waiters :=
      wake_all (set (first_pending 1 (sy_lists example_sync 0) (sy_waiters example_sync))) (sy_waiters example_sync)\<rparr>, OK)"
    using sync_wake_exact [OF example_sync_reachable, of 64 1 0]
    by (simp add: IsValidWakeAddress_def INT_MAX_def example_sync_eq)
  then show ?thesis
    by (simp add: example_sync_eq first_pending_def pending_def wake_all_def INT_MAX_def)
qed

text \<open>
  The futex wait keeps its deadline. A wait with a time-out returns in the first pass that ends at or
  after the deadline at the latest; it reports a time-out only when the deadline has passed and the word
  still has the expected value, \<open>OK\<close> only after a change or the futex's own answer.
\<close>

theorem sync_futex_deadline:
  assumes "p \<in> set ps" and "fp_now_after p \<ge> now + 1000 * unat micros" and "IsValidWaitAddress address is64"
  shows "\<exists>r. WaitImpl_linux address expected is64 (Some micros) now ps = Some r \<and>
             (\<exists>q\<in>set ps. pass_justifies address expected is64 (MakeDeadline (Some micros) now) r q)"
proof -
  have "WaitImpl_linux address expected is64 (Some micros) now ps \<noteq> None"
    using assms linux_loop_returns [OF _ assms(1)] by (simp add: WaitImpl_linux_def WaitLinux_def MakeDeadline_def)
  then show ?thesis using linux_loop_justified assms(3) by (auto simp: WaitImpl_linux_def WaitLinux_def)
qed

lemma sync_futex_deadline_witness:
  "\<exists>r. WaitImpl_linux 64 0 False (Some 5) 0
     [\<lparr>fp_mem = (\<lambda>_. 0), fp_now = 0, fp_futex = (\<lambda>_ _ _. Futex_ETIMEDOUT), fp_now_after = 5000, fp_mem_after = (\<lambda>_. 0)\<rparr>] = Some r"
proof -
  let ?p = "\<lparr>fp_mem = (\<lambda>_. 0), fp_now = 0, fp_futex = (\<lambda>_ _ _. Futex_ETIMEDOUT), fp_now_after = 5000,
             fp_mem_after = (\<lambda>_. 0)\<rparr>"
  have "?p \<in> set [?p]" "fp_now_after ?p \<ge> 0 + 1000 * unat (5 :: u32)" "IsValidWaitAddress 64 False"
    by (simp_all add: IsValidWaitAddress_def)
  from sync_futex_deadline [OF this] show ?thesis by blast
qed

end
