(* ===== verification/SlotVector.thy ===== *)
theory SlotVector
  imports Prelude
begin

text \<open>
  Slot storage with generations, src/src/common/slotVector.h: the handles of the texture, buffer and
  image caches. A slot's value is an option, \<open>m_values\<close> a list, the free list a stack whose top is its
  last element. The contract a cache relies on, a store of values under handles, is the locale
  \<open>handle_store\<close>.
\<close>

section \<open>State and operations\<close>

record slot_id =
  si_index :: u32
  si_generation :: u32

record 'a slot =
  sl_value :: "'a option"
  sl_generation :: u32

record 'a slot_vector =
  sv_values :: "'a slot list"
  sv_free_list :: "u32 list"
  sv_size :: nat

definition INVALID_INDEX :: u32 where
  "INVALID_INDEX = 0xffffffff"

definition new_slot :: "'a slot" where
  "new_slot = \<lparr>sl_value = None, sl_generation = 1\<rparr>"

definition new_slot_vector :: "'a slot_vector" where
  "new_slot_vector = \<lparr>sv_values = [], sv_free_list = [], sv_size = 0\<rparr>"

definition is_valid_id :: "slot_id \<Rightarrow> bool" where
  "is_valid_id ident \<longleftrightarrow> si_index ident \<noteq> INVALID_INDEX"

definition slot_at :: "'a slot_vector \<Rightarrow> slot_id \<Rightarrow> 'a slot" where
  "slot_at v ident = sv_values v ! unat (si_index ident)"

definition is_allocated :: "'a slot_vector \<Rightarrow> slot_id \<Rightarrow> bool" where
  "is_allocated v ident \<longleftrightarrow>
     is_valid_id ident \<and> unat (si_index ident) < length (sv_values v) \<and>
     sl_generation (slot_at v ident) = si_generation ident \<and> sl_value (slot_at v ident) \<noteq> None"

definition slot_get :: "'a slot_vector \<Rightarrow> slot_id \<Rightarrow> 'a outcome" where
  "slot_get v ident = exit_if (\<not> is_allocated v ident) (Inr (the (sl_value (slot_at v ident))))"

definition try_get :: "'a slot_vector \<Rightarrow> slot_id \<Rightarrow> 'a option" where
  "try_get v ident = (if is_allocated v ident then sl_value (slot_at v ident) else None)"

definition set_slot :: "'a slot_vector \<Rightarrow> nat \<Rightarrow> 'a slot \<Rightarrow> 'a slot_vector" where
  "set_slot v i s = v\<lparr>sv_values := (sv_values v)[i := s]\<rparr>"

definition slot_insert :: "'a \<Rightarrow> 'a slot_vector \<Rightarrow> (slot_id \<times> 'a slot_vector) outcome" where
  "slot_insert x v =
     (if sv_free_list v = []
      then let index = (word_of_nat (length (sv_values v)) :: u32);
               v = v\<lparr>sv_values := sv_values v @ [new_slot\<lparr>sl_value := Some x\<rparr>], sv_size := sv_size v + 1\<rparr>
           in Inr (\<lparr>si_index = index, si_generation = sl_generation (sv_values v ! unat index)\<rparr>, v)
      else let index = last (sv_free_list v);
               v = v\<lparr>sv_free_list := butlast (sv_free_list v)\<rparr>;
               s = sv_values v ! unat index
           in exit_if (sl_value s \<noteq> None)
                (let v = (set_slot v (unat index) (s\<lparr>sl_value := Some x\<rparr>))\<lparr>sv_size := sv_size v + 1\<rparr>
                 in Inr (\<lparr>si_index = index, si_generation = sl_generation s\<rparr>, v)))"

definition next_generation :: "u32 \<Rightarrow> u32" where
  "next_generation g = (if g + 1 = 0 then 1 else g + 1)"

definition slot_erase :: "slot_id \<Rightarrow> 'a slot_vector \<Rightarrow> 'a slot_vector outcome" where
  "slot_erase ident v =
     exit_if (\<not> is_allocated v ident)
       (let s = slot_at v ident;
            s = s\<lparr>sl_value := None, sl_generation := next_generation (sl_generation s)\<rparr>;
            v = set_slot v (unat (si_index ident)) s
        in Inr (v\<lparr>sv_free_list := sv_free_list v @ [si_index ident], sv_size := sv_size v - 1\<rparr>))"

definition slot_size :: "'a slot_vector \<Rightarrow> nat" where
  "slot_size v = sv_size v"

definition slot_capacity :: "'a slot_vector \<Rightarrow> nat" where
  "slot_capacity v = length (sv_values v)"

text \<open>The calls \<open>fn(id, value)\<close> of \<open>ForEach\<close>.\<close>

definition slot_ForEach :: "'a slot_vector \<Rightarrow> (slot_id \<times> 'a) list" where
  "slot_ForEach v =
     map (\<lambda>i. (\<lparr>si_index = word_of_nat i, si_generation = sl_generation (sv_values v ! i)\<rparr>,
               the (sl_value (sv_values v ! i))))
       (filter (\<lambda>i. sl_value (sv_values v ! i) \<noteq> None) [0..<length (sv_values v)])"

section \<open>What a cache relies on\<close>

locale handle_store =
  fixes inv :: "'s \<Rightarrow> bool"
    and room :: "'s \<Rightarrow> bool"
    and lookup :: "'s \<Rightarrow> 'i \<Rightarrow> 'a option"
    and ins :: "'a \<Rightarrow> 's \<Rightarrow> ('i \<times> 's) outcome"
    and del :: "'i \<Rightarrow> 's \<Rightarrow> 's outcome"
  assumes ins_ok: "inv s \<Longrightarrow> room s \<Longrightarrow>
      \<exists>i s'. ins x s = Inr (i, s') \<and> inv s' \<and> lookup s i = None \<and> lookup s' = (lookup s)(i \<mapsto> x)"
    and del_ok: "inv s \<Longrightarrow> lookup s i \<noteq> None \<Longrightarrow>
      \<exists>s'. del i s = Inr s' \<and> inv s' \<and> lookup s' = (lookup s)(i := None)"
    and del_exit: "inv s \<Longrightarrow> lookup s i = None \<Longrightarrow> del i s = Inl EXIT"
begin

lemma found_after_insert:
  assumes "inv s" "room s"
  shows "\<exists>i s'. ins x s = Inr (i, s') \<and> lookup s' i = Some x \<and> (\<forall>j. j \<noteq> i \<longrightarrow> lookup s' j = lookup s j)"
  using ins_ok [OF assms, of x] by force

lemma insert_erase:
  assumes "inv s" "room s"
  shows "\<exists>i s'. bind_outcome (ins x s) (\<lambda>(i, s). del i s) = Inr s' \<and> lookup s' = lookup s"
proof -
  obtain i s1 where i: "ins x s = Inr (i, s1)" "inv s1" "lookup s i = None" "lookup s1 = (lookup s)(i \<mapsto> x)"
    using ins_ok [OF assms] by blast
  from i(4) have "lookup s1 i \<noteq> None" by simp
  from del_ok [OF i(2) this] i show ?thesis by (auto simp: fun_upd_idem)
qed

lemma erase_twice:
  assumes "inv s" "lookup s i \<noteq> None"
  shows "bind_outcome (del i s) (del i) = Inl EXIT"
proof -
  obtain s1 where "del i s = Inr s1" "inv s1" "lookup s1 = (lookup s)(i := None)" using del_ok [OF assms] by blast
  then show ?thesis using del_exit [of s1 i] by simp
qed

end

section \<open>The invariant\<close>

text \<open>The free list holds the empty slots once each, and no generation is zero.\<close>

definition empty_slots :: "'a slot_vector \<Rightarrow> nat set" where
  "empty_slots v = {i. i < length (sv_values v) \<and> sl_value (sv_values v ! i) = None}"

definition slot_inv :: "'a slot_vector \<Rightarrow> bool" where
  "slot_inv v \<longleftrightarrow>
     distinct (sv_free_list v) \<and> unat ` set (sv_free_list v) = empty_slots v \<and>
     length (sv_values v) = sv_size v + length (sv_free_list v) \<and>
     length (sv_values v) \<le> unat INVALID_INDEX \<and> (\<forall>s\<in>set (sv_values v). sl_generation s \<noteq> 0)"

definition slot_room :: "'a slot_vector \<Rightarrow> bool" where
  "slot_room v \<longleftrightarrow> sv_free_list v \<noteq> [] \<or> length (sv_values v) < unat INVALID_INDEX"

lemma invalid_index [simp]: "unat INVALID_INDEX = 4294967295"
  by (simp add: INVALID_INDEX_def)

lemma index_of_nat: "n < 4294967295 \<Longrightarrow> unat (word_of_nat n :: u32) = n"
  by (simp add: unat_of_nat take_bit_nat_eq_self)

lemma index_valid: "n < 4294967295 \<Longrightarrow> (word_of_nat n :: u32) \<noteq> INVALID_INDEX"
  using index_of_nat by (metis invalid_index nat_neq_iff)

lemma index_inject: "unat x = unat (y :: u32) \<longleftrightarrow> x = y"
  by (simp add: word_unat_eq_iff)

text \<open>A handle is the index and the generation of its slot.\<close>

lemma try_get_slot:
  assumes "length (sv_values v) \<le> 4294967295"
  shows "try_get v ident = (if unat (si_index ident) < length (sv_values v) \<and>
     sl_generation (sv_values v ! unat (si_index ident)) = si_generation ident
     then sl_value (sv_values v ! unat (si_index ident)) else None)"
proof -
  have "unat (si_index ident) < length (sv_values v) \<Longrightarrow> si_index ident \<noteq> INVALID_INDEX"
    using assms by (metis invalid_index leD)
  then show ?thesis by (auto simp: try_get_def is_allocated_def is_valid_id_def slot_at_def)
qed

lemma try_get_update:
  assumes "length (sv_values v) \<le> 4294967295" "k < length (sv_values v)" "sv_values v' = (sv_values v)[k := s]"
  shows "try_get v' j =
    (if unat (si_index j) = k then (if sl_generation s = si_generation j then sl_value s else None) else try_get v j)"
proof -
  have len: "length (sv_values v') \<le> 4294967295" using assms by simp
  show ?thesis unfolding try_get_slot [OF len] try_get_slot [OF assms(1)] using assms(2,3) by simp
qed

lemma same_handle:
  "unat (si_index j) = unat (si_index i) \<Longrightarrow> si_generation j = si_generation i \<Longrightarrow> j = (i :: slot_id)"
  by (cases i; cases j) (simp add: index_inject)

lemma next_generation_nonzero [simp]: "next_generation g \<noteq> 0" "next_generation g \<noteq> g"
  by (auto simp: next_generation_def)

lemma slot_insert_ok:
  assumes inv: "slot_inv v" and room: "slot_room v"
  shows "\<exists>i v'. slot_insert x v = Inr (i, v') \<and> slot_inv v' \<and> try_get v i = None \<and>
     try_get v' = (try_get v)(i \<mapsto> x) \<and> sv_size v' = sv_size v + 1 \<and>
     (if sv_free_list v = []
      then unat (si_index i) = length (sv_values v) \<and> si_generation i = 1 \<and>
           sv_values v' = sv_values v @ [\<lparr>sl_value = Some x, sl_generation = 1\<rparr>]
      else unat (si_index i) \<in> empty_slots v \<and> si_generation i = sl_generation (sv_values v ! unat (si_index i)) \<and>
           sv_values v' = (sv_values v)[unat (si_index i) := (sv_values v ! unat (si_index i))\<lparr>sl_value := Some x\<rparr>])"
proof (cases "sv_free_list v = []")
  case True
  let ?n = "length (sv_values v)"
  let ?i = "\<lparr>si_index = (word_of_nat ?n :: u32), si_generation = 1\<rparr>"
  let ?v = "v\<lparr>sv_values := sv_values v @ [\<lparr>sl_value = Some x, sl_generation = 1\<rparr>], sv_size := sv_size v + 1\<rparr>"
  from True room have n: "?n < 4294967295" by (simp add: slot_room_def)
  note idx = index_of_nat [OF n]
  have "slot_insert x v = Inr (?i, ?v)" using True idx by (simp add: slot_insert_def new_slot_def)
  moreover have "slot_inv ?v"
    using inv True n by (auto simp: slot_inv_def empty_slots_def nth_append less_Suc_eq)
  moreover have "try_get v ?i = None" using inv idx by (subst try_get_slot) (auto simp: slot_inv_def)
  moreover have "try_get ?v = (try_get v)(?i \<mapsto> x)"
  proof
    fix j :: slot_id
    have "j = ?i" if "unat (si_index j) = ?n" "si_generation j = 1" using that idx by (cases j) (auto simp: word_unat_eq_iff)
    then have "j = ?i \<or> \<not> (unat (si_index j) = ?n \<and> si_generation j = 1)" by blast
    moreover have "try_get ?v ?i = Some x" using n idx by (simp add: try_get_slot nth_append)
    moreover have "try_get ?v j = try_get v j" if "\<not> (unat (si_index j) = ?n \<and> si_generation j = 1)"
      using n that by (auto simp: try_get_slot nth_append less_Suc_eq)
    ultimately show "try_get ?v j = ((try_get v)(?i \<mapsto> x)) j" unfolding fun_upd_apply by metis
  qed
  ultimately show ?thesis using True idx by auto
next
  case False
  let ?k = "last (sv_free_list v)"
  let ?s = "sv_values v ! unat ?k"
  let ?i = "\<lparr>si_index = ?k, si_generation = sl_generation ?s\<rparr>"
  let ?v = "v\<lparr>sv_free_list := butlast (sv_free_list v), sv_values := (sv_values v)[unat ?k := ?s\<lparr>sl_value := Some x\<rparr>],
             sv_size := sv_size v + 1\<rparr>"
  have k: "unat ?k \<in> empty_slots v" using inv False by (auto simp: slot_inv_def)
  then have kl: "unat ?k < length (sv_values v)" "sl_value ?s = None" by (simp_all add: empty_slots_def)
  have len: "length (sv_values v) \<le> 4294967295" using inv by (simp add: slot_inv_def)
  have split: "sv_free_list v = butlast (sv_free_list v) @ [?k]" using False by simp
  have "slot_insert x v = Inr (?i, ?v)" using False kl by (simp add: slot_insert_def set_slot_def Let_def)
  moreover have "slot_inv ?v"
  proof -
    have d: "distinct (butlast (sv_free_list v) @ [?k])" using inv split by (simp add: slot_inv_def)
    have "unat ` set (butlast (sv_free_list v) @ [?k]) = empty_slots v" using inv split by (simp add: slot_inv_def)
    moreover have "unat ?k \<notin> unat ` set (butlast (sv_free_list v))" using d by (auto simp: index_inject)
    moreover have "unat ` set (butlast (sv_free_list v) @ [?k]) = insert (unat ?k) (unat ` set (butlast (sv_free_list v)))"
      by simp
    ultimately have "unat ` set (butlast (sv_free_list v)) = empty_slots v - {unat ?k}" by blast
    moreover have "empty_slots ?v = empty_slots v - {unat ?k}" using kl by (auto simp: empty_slots_def nth_list_update)
    moreover have "\<forall>s\<in>set (sv_values ?v). sl_generation s \<noteq> 0"
      using inv kl(1) nth_mem [OF kl(1)] set_update_subset_insert [of "sv_values v" "unat ?k"]
      by (fastforce simp: slot_inv_def)
    moreover have "length (sv_free_list v) = Suc (length (butlast (sv_free_list v)))" using False by simp
    moreover have "distinct (butlast (sv_free_list v))" using d by (simp only: distinct_append)
    ultimately show ?thesis using inv False by (simp add: slot_inv_def)
  qed
  moreover have "try_get v ?i = None" using len kl by (subst try_get_slot) auto
  moreover have "try_get ?v = (try_get v)(?i \<mapsto> x)"
  proof
    fix j :: slot_id
    have "try_get ?v j = (if unat (si_index j) = unat ?k then (if sl_generation ?s = si_generation j then Some x else None)
        else try_get v j)"
      using try_get_update [OF len kl(1), of ?v "?s\<lparr>sl_value := Some x\<rparr>" j] by simp
    moreover have "try_get v j = None" if "unat (si_index j) = unat ?k"
      using that kl len by (simp add: try_get_slot)
    ultimately show "try_get ?v j = ((try_get v)(?i \<mapsto> x)) j"
      using same_handle [of j ?i] by (cases "j = ?i") auto
  qed
  ultimately show ?thesis using False k by auto
qed

lemma slot_erase_ok:
  assumes inv: "slot_inv v" and live: "try_get v i \<noteq> None"
  shows "\<exists>v'. slot_erase i v = Inr v' \<and> slot_inv v' \<and> try_get v' = (try_get v)(i := None) \<and>
     sv_size v = sv_size v' + 1 \<and> unat (si_index i) < length (sv_values v) \<and>
     sv_values v' = (sv_values v)[unat (si_index i) :=
       \<lparr>sl_value = None, sl_generation = next_generation (si_generation i)\<rparr>]"
proof -
  let ?k = "unat (si_index i)" let ?s = "sv_values v ! ?k"
  let ?t = "\<lparr>sl_value = None, sl_generation = next_generation (si_generation i)\<rparr>"
  let ?v = "v\<lparr>sv_values := (sv_values v)[?k := ?t], sv_free_list := sv_free_list v @ [si_index i], sv_size := sv_size v - 1\<rparr>"
  have len: "length (sv_values v) \<le> 4294967295" using inv by (simp add: slot_inv_def)
  from live have a: "is_allocated v i" by (auto simp: try_get_def split: if_splits)
  then have k: "?k < length (sv_values v)" "sl_generation ?s = si_generation i" "sl_value ?s \<noteq> None"
    by (auto simp: is_allocated_def slot_at_def)
  have "slot_erase i v = Inr ?v"
    using a k by (cases ?s) (simp add: slot_erase_def slot_at_def set_slot_def Let_def)
  moreover have "slot_inv ?v"
  proof -
    have out: "?k \<notin> unat ` set (sv_free_list v)" using inv k(3) by (auto simp: slot_inv_def empty_slots_def)
    have "empty_slots ?v = insert ?k (empty_slots v)" using k(1) by (auto simp: empty_slots_def nth_list_update)
    moreover have "sv_size v > 0"
    proof -
      have "empty_slots v \<subseteq> {..<length (sv_values v)} - {?k}" unfolding empty_slots_def using k(3) by blast
      then have "card (empty_slots v) \<le> card ({..<length (sv_values v)} - {?k})" by (rule card_mono [rotated]) simp
      then have "card (empty_slots v) < length (sv_values v)" using k(1) by simp
      moreover have "card (unat ` A) = card A" for A :: "u32 set"
        by (rule card_image) (simp add: inj_on_def word_unat_eq_iff)
      moreover have "unat ` set (sv_free_list v) = empty_slots v" "distinct (sv_free_list v)"
        using inv by (simp_all add: slot_inv_def)
      then have "card (empty_slots v) = card (unat ` set (sv_free_list v))" "card (set (sv_free_list v)) = length (sv_free_list v)"
        by (simp_all add: distinct_card)
      ultimately show ?thesis using inv by (simp add: slot_inv_def)
    qed
    moreover have "\<forall>s\<in>set (sv_values ?v). sl_generation s \<noteq> 0"
      using inv set_update_subset_insert [of "sv_values v" ?k ?t] by (fastforce simp: slot_inv_def)
    ultimately show ?thesis using inv out by (auto simp: slot_inv_def)
  qed
  moreover have "try_get ?v = (try_get v)(i := None)"
  proof
    fix j :: slot_id
    have "try_get ?v j = (if unat (si_index j) = ?k then None else try_get v j)"
      using try_get_update [OF len k(1), of ?v ?t j] by simp
    moreover have "try_get v j = None" if "unat (si_index j) = ?k" "j \<noteq> i"
      using that k len same_handle [of j i] by (auto simp: try_get_slot)
    ultimately show "try_get ?v j = ((try_get v)(i := None)) j" by (cases "j = i") auto
  qed
  moreover have "sv_size v = sv_size ?v + 1"
  proof -
    have "length (sv_values ?v) = sv_size ?v + length (sv_free_list ?v)" using calculation(2) by (simp add: slot_inv_def)
    moreover have "length (sv_values v) = sv_size v + length (sv_free_list v)" using inv by (simp add: slot_inv_def)
    ultimately show ?thesis by simp
  qed
  ultimately show ?thesis using k(1) by auto
qed

lemma slot_erase_exit: "try_get v i = None \<Longrightarrow> slot_erase i v = Inl EXIT"
  by (auto simp: slot_erase_def try_get_def is_allocated_def exit_if_def)

interpretation slots: handle_store slot_inv slot_room try_get slot_insert slot_erase
proof
  show "\<exists>i v'. slot_insert x v = Inr (i, v') \<and> slot_inv v' \<and> try_get v i = None \<and> try_get v' = (try_get v)(i \<mapsto> x)"
    if "slot_inv v" "slot_room v" for x :: 'a and v
    using slot_insert_ok [OF that, of x] by blast
  show "\<exists>v'. slot_erase i v = Inr v' \<and> slot_inv v' \<and> try_get v' = (try_get v)(i := None)"
    if "slot_inv v" "try_get v i \<noteq> None" for v :: "'a slot_vector" and i
    using slot_erase_ok [OF that] by blast
qed (rule slot_erase_exit)

section \<open>Handles over a run\<close>

text \<open>The handles given out so far and the number of erasures.\<close>

inductive slots_step :: "'a slot_vector \<times> slot_id set \<times> nat \<Rightarrow> 'a slot_vector \<times> slot_id set \<times> nat \<Rightarrow> bool" where
  slots_insert:
    "slot_room v \<Longrightarrow> slot_insert x v = Inr (i, v') \<Longrightarrow> slots_step (v, issued, n) (v', insert i issued, n)"
| slots_erase: "slot_erase i v = Inr v' \<Longrightarrow> slots_step (v, issued, n) (v', issued, n + 1)"

definition slots_init :: "'a slot_vector \<times> slot_id set \<times> nat \<Rightarrow> bool" where
  "slots_init y \<longleftrightarrow> y = (new_slot_vector, {}, 0)"

definition generations :: nat where
  "generations = 4294967295"

text \<open>An issued handle has the generation of its slot while it is live and a smaller one after that.\<close>

definition issued_ok :: "'a slot list \<Rightarrow> slot_id \<Rightarrow> bool" where
  "issued_ok ss i \<longleftrightarrow> unat (si_index i) < length ss \<and>
     (let s = ss ! unat (si_index i)
      in si_generation i < sl_generation s \<or> si_generation i = sl_generation s \<and> sl_value s \<noteq> None)"

definition slots_inv :: "'a slot_vector \<times> slot_id set \<times> nat \<Rightarrow> bool" where
  "slots_inv = (\<lambda>(v, issued, n). slot_inv v \<and> sv_size v = card {i. try_get v i \<noteq> None} \<and> finite {i. try_get v i \<noteq> None} \<and>
     {i. try_get v i \<noteq> None} \<subseteq> issued \<and>
     (n < generations \<longrightarrow> (\<forall>i\<in>issued. issued_ok (sv_values v) i) \<and>
        (\<forall>s\<in>set (sv_values v). unat (sl_generation s) \<le> n + 1)))"

lemma next_generation_unat: "unat g < 4294967295 \<Longrightarrow> unat (next_generation g) = unat g + 1"
proof -
  assume "unat g < 4294967295"
  then have up: "unat (g + 1) = unat g + 1" by (simp add: unat_word_ariths)
  have "g + 1 \<noteq> 0"
  proof
    assume "g + 1 = 0"
    then have "unat (g + 1) = 0" by (metis unsigned_0)
    with up show False by simp
  qed
  with up show ?thesis by (simp add: next_generation_def)
qed

lemma insert_fresh:
  assumes "slot_insert x v = Inr (i, v')" "slot_inv v" "slot_room v" "\<forall>j\<in>issued. issued_ok (sv_values v) j"
  shows "i \<notin> issued"
proof
  assume "i \<in> issued"
  with assms(4) have ok: "issued_ok (sv_values v) i" by blast
  show False
    using slot_insert_ok [OF assms(2,3), of x] assms(1) ok
    by (auto simp: issued_ok_def empty_slots_def Let_def split: if_splits)
qed

lemma slots_insert_inv:
  assumes inv: "slots_inv (v, issued, n)" and room: "slot_room v" and ins: "slot_insert x v = Inr (i, v')"
  shows "slots_inv (v', insert i issued, n)"
proof -
  have v: "slot_inv v" using inv by (simp add: slots_inv_def)
  note ok = slot_insert_ok [OF v room, of x, unfolded ins]
  have get: "try_get v' = (try_get v)(i \<mapsto> x)" "try_get v i = None" "slot_inv v'" "sv_size v' = sv_size v + 1"
    using ok by auto
  have dom: "{j. try_get v' j \<noteq> None} = insert i {j. try_get v j \<noteq> None}" using get(1) by auto
  have "(\<forall>j\<in>insert i issued. issued_ok (sv_values v') j) \<and> (\<forall>s\<in>set (sv_values v'). unat (sl_generation s) \<le> n + 1)"
    if n: "n < generations"
  proof (cases "sv_free_list v = []")
    case True
    then have i: "unat (si_index i) = length (sv_values v)" "si_generation i = 1"
      "sv_values v' = sv_values v @ [\<lparr>sl_value = Some x, sl_generation = 1\<rparr>]" using ok by auto
    have "issued_ok (sv_values v') j" if "issued_ok (sv_values v) j" for j
      using that unfolding i(3) issued_ok_def by (simp add: nth_append)
    with i inv n show ?thesis by (auto simp: slots_inv_def issued_ok_def)
  next
    case False
    then have i: "unat (si_index i) \<in> empty_slots v" "si_generation i = sl_generation (sv_values v ! unat (si_index i))"
      "sv_values v' = (sv_values v)[unat (si_index i) := (sv_values v ! unat (si_index i))\<lparr>sl_value := Some x\<rparr>]"
      using ok by auto
    have "issued_ok (sv_values v') j" if "issued_ok (sv_values v) j" for j
      using that i(1) unfolding i(3) issued_ok_def by (auto simp: nth_list_update Let_def empty_slots_def)
    moreover have "issued_ok (sv_values v') i" using i by (simp add: issued_ok_def empty_slots_def)
    moreover have "unat (sl_generation s) \<le> n + 1" if "s \<in> set (sv_values v')" for s
    proof -
      have "unat (si_index i) < length (sv_values v)" using i(1) by (simp add: empty_slots_def)
      moreover have "s \<in> insert ((sv_values v ! unat (si_index i))\<lparr>sl_value := Some x\<rparr>) (set (sv_values v))"
        using that unfolding i(3) by (rule subsetD [OF set_update_subset_insert])
      ultimately show ?thesis using inv n by (auto simp: slots_inv_def)
    qed
    ultimately show ?thesis using inv n by (simp add: slots_inv_def)
  qed
  moreover have "card (insert i {j. try_get v j \<noteq> None}) = sv_size v'"
    using inv get(2,4) by (subst card_insert_disjoint) (auto simp: slots_inv_def)
  ultimately show ?thesis using get(3) dom inv by (auto simp: slots_inv_def)
qed

lemma slots_erase_inv:
  assumes inv: "slots_inv (v, issued, n)" and del: "slot_erase i v = Inr v'"
  shows "slots_inv (v', issued, n + 1)"
proof -
  have v: "slot_inv v" using inv by (simp add: slots_inv_def)
  have live: "try_get v i \<noteq> None" using del slot_erase_exit [of v i] by auto
  note ok = slot_erase_ok [OF v live, unfolded del]
  let ?k = "unat (si_index i)" let ?t = "\<lparr>sl_value = None, sl_generation = next_generation (si_generation i)\<rparr>"
  have get: "try_get v' = (try_get v)(i := None)" "slot_inv v'" "sv_size v = sv_size v' + 1" "?k < length (sv_values v)"
    "sv_values v' = (sv_values v)[?k := ?t]" using ok by auto
  have dom: "{j. try_get v' j \<noteq> None} = {j. try_get v j \<noteq> None} - {i}" using get(1) by auto
  have "(\<forall>j\<in>issued. issued_ok (sv_values v') j) \<and> (\<forall>s\<in>set (sv_values v'). unat (sl_generation s) \<le> n + 1 + 1)"
    if n: "n + 1 < generations"
  proof -
    have old: "\<forall>j\<in>issued. issued_ok (sv_values v) j" "\<forall>s\<in>set (sv_values v). unat (sl_generation s) \<le> n + 1"
      using inv n by (simp_all add: slots_inv_def)
    have gen: "sl_generation (sv_values v ! ?k) = si_generation i"
      using live by (auto simp: try_get_def is_allocated_def slot_at_def split: if_splits)
    then have g: "unat (si_generation i) \<le> n + 1" using old(2) nth_mem [OF get(4)] by metis
    then have up: "unat (next_generation (si_generation i)) = unat (si_generation i) + 1"
      using next_generation_unat n by (simp add: generations_def)
    have "issued_ok (sv_values v') j" if "j \<in> issued" for j
    proof (cases "unat (si_index j) = ?k")
      case True
      then have "si_generation j \<le> si_generation i" using old(1) that gen by (auto simp: issued_ok_def Let_def)
      then have "si_generation j < next_generation (si_generation i)"
        using up by (simp add: word_less_nat_alt word_le_nat_alt)
      with True get(4,5) show ?thesis by (simp add: issued_ok_def)
    next
      case False
      with old(1) that get(5) show ?thesis by (simp add: issued_ok_def)
    qed
    moreover have "unat (sl_generation s) \<le> n + 1 + 1" if "s \<in> set (sv_values v')" for s
    proof -
      have "s \<in> insert ?t (set (sv_values v))" 
        using that unfolding get(5) by (rule subsetD [OF set_update_subset_insert])
      then consider "s = ?t" | "s \<in> set (sv_values v)" by blast
      then show ?thesis
      proof cases
        case 1
        with up g show ?thesis by simp
      next
        case 2
        with old(2) show ?thesis by (simp add: le_SucI)
      qed
    qed
    ultimately show ?thesis by blast
  qed
  moreover have "card ({j. try_get v j \<noteq> None} - {i}) = sv_size v'"
  proof -
    have "card ({j. try_get v j \<noteq> None} - {i}) = card {j. try_get v j \<noteq> None} - 1"
      using live by (simp add: card_Diff_singleton)
    moreover have "card {j. try_get v j \<noteq> None} = sv_size v" using inv by (simp add: slots_inv_def)
    ultimately show ?thesis using get(3) by simp
  qed
  ultimately show ?thesis using get(2) dom inv by (auto simp: slots_inv_def)
qed

interpretation slot_run: step_invariant slots_init slots_step slots_inv
proof
  fix y :: "'a slot_vector \<times> slot_id set \<times> nat" assume "slots_init y"
  moreover have "try_get (new_slot_vector :: 'a slot_vector) = (\<lambda>_. None)"
    by (rule ext) (simp add: try_get_def is_allocated_def new_slot_vector_def)
  ultimately show "slots_inv y"
    by (simp add: slots_init_def slots_inv_def slot_inv_def empty_slots_def new_slot_vector_def)
next
  fix y y' :: "'a slot_vector \<times> slot_id set \<times> nat" assume "slots_inv y" "slots_step y y'"
  from this(2,1) show "slots_inv y'"
    by cases (auto intro: slots_insert_inv slots_erase_inv [simplified])
qed

text \<open>
  The bound of the next property is the code's: the erasure of a slot in its last generation starts again at
  generation 1, and the handle then given out is the one its first value had.
\<close>

lemma slot_generation_wraps:
  "bind_outcome
     (slot_erase \<lparr>si_index = 0, si_generation = 0xffffffff\<rparr>
        \<lparr>sv_values = [\<lparr>sl_value = Some x, sl_generation = 0xffffffff\<rparr>], sv_free_list = [], sv_size = 1\<rparr>)
     (slot_insert y) =
   Inr (\<lparr>si_index = 0, si_generation = 1\<rparr>,
        \<lparr>sv_values = [\<lparr>sl_value = Some y, sl_generation = 1\<rparr>], sv_free_list = [], sv_size = 1\<rparr>)"
  by (simp add: slot_erase_def slot_insert_def is_allocated_def is_valid_id_def INVALID_INDEX_def slot_at_def
      set_slot_def next_generation_def)

text \<open>
  C30: up to the bounds of its 32-bit fields, a handle never comes to mean another value. As long as fewer than
  \<open>2^32 - 1\<close> erasures have happened (\<open>n < generations\<close>; beyond that a generation can wrap and a handle be given
  out again), \<open>insert\<close>, if a free slot or an index below \<open>INVALID_INDEX\<close> is left (\<open>slot_room\<close>), returns a handle that
  was never given out before and finds the new value, with no other change; \<open>erase\<close> ends the handle it is given
  alone, and a second \<open>erase\<close> of it exits; \<open>size\<close> is the number of live handles.
\<close>

theorem slot_handles_unique:
  assumes "reachable slots_init slots_step (v, issued, n)" and "n < generations"
  shows "(slot_room v \<longrightarrow> (\<exists>i v'. slot_insert x v = Inr (i, v') \<and> i \<notin> issued \<and> try_get v' = (try_get v)(i \<mapsto> x))) \<and>
         (try_get v j \<noteq> None \<longrightarrow>
            (\<exists>v'. slot_erase j v = Inr v' \<and> try_get v' = (try_get v)(j := None) \<and> slot_erase j v' = Inl EXIT)) \<and>
         slot_size v = card {i. try_get v i \<noteq> None}"
proof -
  note inv = slot_run.reachable_inv [OF assms(1)]
  then have v: "slot_inv v" "\<forall>j\<in>issued. issued_ok (sv_values v) j" using assms(2) by (simp_all add: slots_inv_def)
  have "\<exists>i v'. slot_insert x v = Inr (i, v') \<and> i \<notin> issued \<and> try_get v' = (try_get v)(i \<mapsto> x)" if "slot_room v"
    using slots.ins_ok [OF v(1) that, of x] insert_fresh [OF _ v(1) that v(2)] by blast
  moreover have "\<exists>v'. slot_erase j v = Inr v' \<and> try_get v' = (try_get v)(j := None) \<and> slot_erase j v' = Inl EXIT"
    if "try_get v j \<noteq> None"
    using slots.del_ok [OF v(1) that] slots.erase_twice [OF v(1) that] by (metis bind_outcome.simps(2))
  ultimately show ?thesis using inv by (auto simp: slots_inv_def slot_size_def)
qed

lemma slot_handles_unique_witness:
  "\<exists>i v'. slot_insert ''t'' new_slot_vector = Inr (i, v') \<and> try_get v' i = Some ''t''"
proof -
  have "reachable slots_init slots_step (new_slot_vector :: string slot_vector, {}, 0)"
    by (rule reachable_init) (simp add: slots_init_def)
  from slot_handles_unique [OF this, of "''t''", THEN conjunct1]
  have "slot_room (new_slot_vector :: string slot_vector) \<longrightarrow>
      (\<exists>i v'. slot_insert ''t'' new_slot_vector = Inr (i, v') \<and> try_get v' i = Some ''t'')"
    by (auto simp: generations_def)
  moreover have "slot_room (new_slot_vector :: string slot_vector)" by (simp add: slot_room_def new_slot_vector_def)
  ultimately show ?thesis by blast
qed

end
