(* ===== verification/LruCache.thy ===== *)
theory LruCache
  imports Prelude
begin

text \<open>
  The least-recently-used list of the buffer and texture caches, src/src/common/lruCache.h: items in a
  deque, linked both ways in the order of their last use. A pointer to an item is its index in the deque,
  whose elements never move. The operations write the links one by one, as the code does; that they keep
  a list is proved against the list of the linked items.
\<close>

section \<open>State and operations\<close>

record 'a lru_item =
  li_object :: 'a
  li_tick :: u64
  li_next :: "nat option"
  li_prev :: "nat option"

record 'a lru =
  lr_items :: "'a lru_item list"
  lr_free :: "nat list"
  lr_first :: "nat option"
  lr_last :: "nat option"

definition new_lru :: "'a lru" where
  "new_lru = \<lparr>lr_items = [], lr_free = [], lr_first = None, lr_last = None\<rparr>"

definition new_item :: "'a \<Rightarrow> 'a lru_item" where
  "new_item dflt = \<lparr>li_object = dflt, li_tick = 0, li_next = None, li_prev = None\<rparr>"

definition upd_item :: "nat \<Rightarrow> ('a lru_item \<Rightarrow> 'a lru_item) \<Rightarrow> 'a lru \<Rightarrow> 'a lru" where
  "upd_item i f c = c\<lparr>lr_items := (lr_items c)[i := f (lr_items c ! i)]\<rparr>"

definition nx :: "'a lru \<Rightarrow> nat \<Rightarrow> nat option" where
  "nx c i = li_next (lr_items c ! i)"

definition pv :: "'a lru \<Rightarrow> nat \<Rightarrow> nat option" where
  "pv c i = li_prev (lr_items c ! i)"

definition set_next :: "nat \<Rightarrow> nat option \<Rightarrow> 'a lru \<Rightarrow> 'a lru" where
  "set_next i p = upd_item i (\<lambda>item. item\<lparr>li_next := p\<rparr>)"

definition set_prev :: "nat \<Rightarrow> nat option \<Rightarrow> 'a lru \<Rightarrow> 'a lru" where
  "set_prev i p = upd_item i (\<lambda>item. item\<lparr>li_prev := p\<rparr>)"

text \<open>\<open>dflt\<close> is the value-initialised object of a new item.\<close>

definition Build :: "'a \<Rightarrow> 'a lru \<Rightarrow> nat \<times> 'a lru" where
  "Build dflt c =
     (if lr_free c = [] then (length (lr_items c), c\<lparr>lr_items := lr_items c @ [new_item dflt]\<rparr>)
      else (hd (lr_free c), c\<lparr>lr_free := tl (lr_free c)\<rparr>))"

definition Attach :: "nat \<Rightarrow> 'a lru \<Rightarrow> 'a lru" where
  "Attach item c =
     (let c = (if lr_first c = None then c\<lparr>lr_first := Some item\<rparr> else c)
      in case lr_last c of
           None \<Rightarrow> c\<lparr>lr_last := Some item\<rparr>
         | Some last1 \<Rightarrow>
             let c = set_prev item (Some last1) c;
                 c = set_next last1 (Some item) c;
                 c = set_next item None c
             in c\<lparr>lr_last := Some item\<rparr>)"

definition unlink_prev :: "nat \<Rightarrow> 'a lru \<Rightarrow> 'a lru" where
  "unlink_prev item c = (case pv c item of None \<Rightarrow> c | Some p \<Rightarrow> set_next p (nx c item) c)"

definition unlink_next :: "nat \<Rightarrow> 'a lru \<Rightarrow> 'a lru" where
  "unlink_next item c = (case nx c item of None \<Rightarrow> c | Some n \<Rightarrow> set_prev n (pv c item) c)"

definition Detach :: "nat \<Rightarrow> 'a lru \<Rightarrow> 'a lru" where
  "Detach item c =
     (let c = unlink_prev item c;
          c = unlink_next item c;
          c = (if lr_first c = Some item then c\<lparr>lr_first := nx c item\<rparr> else c)
      in if lr_last c = Some item then c\<lparr>lr_last := pv c item\<rparr> else c)"

definition lru_Insert :: "'a \<Rightarrow> 'a \<Rightarrow> u64 \<Rightarrow> 'a lru \<Rightarrow> nat \<times> 'a lru" where
  "lru_Insert dflt obj tick c =
     (let (ident, c) = Build dflt c;
          c = upd_item ident (\<lambda>item. item\<lparr>li_object := obj, li_tick := tick\<rparr>) c
      in (ident, Attach ident c))"

definition Touch :: "nat \<Rightarrow> u64 \<Rightarrow> 'a lru \<Rightarrow> 'a lru" where
  "Touch ident tick c =
     (if li_tick (lr_items c ! ident) \<ge> tick then c
      else let c = upd_item ident (\<lambda>item. item\<lparr>li_tick := tick\<rparr>) c
           in if lr_last c \<noteq> Some ident then Attach ident (Detach ident c) else c)"

definition Free :: "nat \<Rightarrow> 'a lru \<Rightarrow> 'a lru" where
  "Free ident c =
     (let c = set_prev ident None (set_next ident None (Detach ident c))
      in c\<lparr>lr_free := lr_free c @ [ident]\<rparr>)"

text \<open>
  \<open>ForEachItemBelow\<close>: the callback may change the cache, and a true answer ends the walk. The result is
  the objects visited and the cache; \<open>None\<close> when the walk is not over after \<open>fuel\<close> items.
\<close>

fun for_each_below ::
    "nat \<Rightarrow> u64 \<Rightarrow> ('a \<Rightarrow> 'a lru \<Rightarrow> bool \<times> 'a lru) \<Rightarrow> nat option \<Rightarrow> 'a lru \<Rightarrow> ('a list \<times> 'a lru) option" where
  "for_each_below fuel tick func None c = Some ([], c)"
| "for_each_below 0 tick func (Some item) c = None"
| "for_each_below (Suc fuel) tick func (Some item) c =
     (if li_tick (lr_items c ! item) > tick then Some ([], c)
      else let next = nx c item; obj = li_object (lr_items c ! item); (stop, c) = func obj c
           in if stop then Some ([obj], c)
              else map_option (\<lambda>(objs, c). (obj # objs, c)) (for_each_below fuel tick func next c))"

definition ForEachItemBelow ::
    "nat \<Rightarrow> u64 \<Rightarrow> ('a \<Rightarrow> 'a lru \<Rightarrow> bool \<times> 'a lru) \<Rightarrow> 'a lru \<Rightarrow> ('a list \<times> 'a lru) option" where
  "ForEachItemBelow fuel tick func c = for_each_below fuel tick func (lr_first c) c"

section \<open>Links\<close>

text \<open>The neighbours of every element are the ones the list gives it.\<close>

definition last_opt :: "'b list \<Rightarrow> 'b option" where
  "last_opt xs = (if xs = [] then None else Some (last xs))"

definition hd_opt :: "'b list \<Rightarrow> 'b option" where
  "hd_opt xs = (if xs = [] then None else Some (hd xs))"

definition linked :: "(nat \<Rightarrow> nat option) \<Rightarrow> (nat \<Rightarrow> nat option) \<Rightarrow> nat list \<Rightarrow> bool" where
  "linked n p xs \<longleftrightarrow> (\<forall>as x bs. xs = as @ x # bs \<longrightarrow> p x = last_opt as \<and> n x = hd_opt bs)"

lemma opt_simps [simp]:
  "last_opt [] = None" "hd_opt [] = None" "last_opt (as @ [x]) = Some x" "hd_opt (x # bs) = Some x"
  "last_opt (as @ x # bs) = Some (last (x # bs))"
  by (simp_all add: last_opt_def hd_opt_def)

lemma opt_None [simp]: "last_opt xs = None \<longleftrightarrow> xs = []" "hd_opt xs = None \<longleftrightarrow> xs = []"
  by (simp_all add: last_opt_def hd_opt_def)

lemma opt_in_set: "last_opt xs = Some x \<Longrightarrow> x \<in> set xs" "hd_opt xs = Some x \<Longrightarrow> x \<in> set xs"
  by (auto simp: last_opt_def hd_opt_def split: if_splits)

lemma linkedD: "linked n p (as @ x # bs) \<Longrightarrow> p x = last_opt as \<and> n x = hd_opt bs"
  by (simp add: linked_def)

lemma linked_append_one:
  assumes "linked n p xs" "distinct xs" "x \<notin> set xs" "xs \<noteq> []"
  shows "linked (n(last xs := Some x, x := None)) (p(x := Some (last xs))) (xs @ [x])"
  unfolding linked_def
proof (intro allI impI)
  fix as y bs assume split: "xs @ [x] = as @ y # bs"
  show "(p(x := Some (last xs))) y = last_opt as \<and> (n(last xs := Some x, x := None)) y = hd_opt bs"
  proof (cases bs rule: rev_cases)
    case Nil
    with split have "as = xs" "y = x" by auto
    with Nil assms(4) show ?thesis by (simp add: last_opt_def)
  next
    case (snoc cs z)
    with split have xs: "xs = as @ y # cs" "z = x" by auto
    from linkedD [OF assms(1) [unfolded xs(1)]] have y: "p y = last_opt as" "n y = hd_opt cs" by simp_all
    have "y \<noteq> x" using xs assms(3) by auto
    moreover have "y = last xs \<longleftrightarrow> cs = []" using assms(2) xs(1) by (auto simp: last_append)
    ultimately show ?thesis using y snoc xs by (cases cs) auto
  qed
qed

lemma linked_remove:
  assumes l: "linked n p (xs @ x # ys)" and d: "distinct (xs @ x # ys)"
    and n': "\<And>i. i \<in> set (xs @ ys) \<Longrightarrow> n' i = (if last_opt xs = Some i then hd_opt ys else n i)"
    and p': "\<And>i. i \<in> set (xs @ ys) \<Longrightarrow> p' i = (if hd_opt ys = Some i then last_opt xs else p i)"
  shows "linked n' p' (xs @ ys)"
  unfolding linked_def
proof (intro allI impI)
  fix as y bs assume split: "xs @ ys = as @ y # bs"
  then have y: "y \<in> set (xs @ ys)" by simp
  from split consider (left) ds where "xs = as @ y # ds" "bs = ds @ ys" | (right) ds where "as = xs @ ds" "ys = ds @ y # bs"
  proof -
    obtain us where "xs = as @ us \<and> us @ ys = y # bs \<or> xs @ us = as \<and> ys = us @ y # bs"
      using split by (auto simp: append_eq_append_conv2)
    then show thesis using left right [of "[]"] right [of us] by (cases us) auto
  qed
  then show "p' y = last_opt as \<and> n' y = hd_opt bs"
  proof cases
    case left
    from linkedD [of n p as y "ds @ x # ys"] l left have yl: "p y = last_opt as" "n y = hd_opt (ds @ x # ys)" by simp_all
    have "hd_opt ys \<noteq> Some y" using d left opt_in_set(2) [of ys y] by auto
    moreover have "last_opt xs = Some y \<longleftrightarrow> ds = []" using d left by (auto simp: last_opt_def last_append)
    ultimately show ?thesis using n' [OF y] p' [OF y] yl left by (cases ds) (simp_all add: hd_opt_def)
  next
    case right
    from linkedD [of n p "xs @ x # ds" y bs] l right have yl: "p y = last_opt (xs @ x # ds)" "n y = hd_opt bs" by simp_all
    have "last_opt xs \<noteq> Some y" using d right opt_in_set(1) [of xs y] by auto
    moreover have "hd_opt ys = Some y \<longleftrightarrow> ds = []" using d right by (cases ds) (auto simp: hd_opt_def)
    ultimately show ?thesis using n' [OF y] p' [OF y] yl right by (cases ds) (simp_all add: last_opt_def)
  qed
qed

section \<open>The pointers hold a list\<close>

definition lru_repr :: "'a lru \<Rightarrow> nat list \<Rightarrow> bool" where
  "lru_repr c xs \<longleftrightarrow>
     distinct xs \<and> distinct (lr_free c) \<and> set xs \<inter> set (lr_free c) = {} \<and>
     set xs \<union> set (lr_free c) = {..<length (lr_items c)} \<and>
     lr_first c = hd_opt xs \<and> lr_last c = last_opt xs \<and> linked (nx c) (pv c) xs \<and>
     (\<forall>i\<in>set (lr_free c). nx c i = None \<and> pv c i = None)"

text \<open>What a client sees: index, object and tick, the longest unused first.\<close>

definition entry :: "'a lru \<Rightarrow> nat \<Rightarrow> nat \<times> 'a \<times> u64" where
  "entry c i = (i, li_object (lr_items c ! i), li_tick (lr_items c ! i))"

definition lru_queue :: "'a lru \<Rightarrow> (nat \<times> 'a \<times> u64) list \<Rightarrow> bool" where
  "lru_queue c q \<longleftrightarrow> lru_repr c (map fst q) \<and> map (entry c) (map fst q) = q"

lemma upd_item_simps [simp]:
  "lr_free (upd_item i f c) = lr_free c" "lr_first (upd_item i f c) = lr_first c" "lr_last (upd_item i f c) = lr_last c"
  "length (lr_items (upd_item i f c)) = length (lr_items c)"
  by (simp_all add: upd_item_def)

lemma upd_item_nth:
  "i < length (lr_items c) \<Longrightarrow> lr_items (upd_item i f c) ! j = (if j = i then f (lr_items c ! j) else lr_items c ! j)"
  by (auto simp: upd_item_def nth_list_update)

lemma set_link_simps:
  "i < length (lr_items c) \<Longrightarrow> nx (set_next i p c) = (nx c)(i := p)"
  "i < length (lr_items c) \<Longrightarrow> pv (set_next i p c) = pv c"
  "i < length (lr_items c) \<Longrightarrow> pv (set_prev i p c) = (pv c)(i := p)"
  "i < length (lr_items c) \<Longrightarrow> nx (set_prev i p c) = nx c"
  "i < length (lr_items c) \<Longrightarrow> entry (set_next i p c) = entry c"
  "i < length (lr_items c) \<Longrightarrow> entry (set_prev i p c) = entry c"
  by (auto simp: nx_def pv_def set_next_def set_prev_def entry_def upd_item_nth fun_eq_iff)

lemma set_link_other [simp]:
  "lr_free (set_next i p c) = lr_free c" "lr_first (set_next i p c) = lr_first c" "lr_last (set_next i p c) = lr_last c"
  "length (lr_items (set_next i p c)) = length (lr_items c)"
  "lr_free (set_prev i p c) = lr_free c" "lr_first (set_prev i p c) = lr_first c" "lr_last (set_prev i p c) = lr_last c"
  "length (lr_items (set_prev i p c)) = length (lr_items c)"
  by (simp_all add: set_next_def set_prev_def)

lemma links_of_update [simp]:
  "nx (c\<lparr>lr_first := a\<rparr>) = nx c" "pv (c\<lparr>lr_first := a\<rparr>) = pv c" "entry (c\<lparr>lr_first := a\<rparr>) = entry c"
  "nx (c\<lparr>lr_last := a\<rparr>) = nx c" "pv (c\<lparr>lr_last := a\<rparr>) = pv c" "entry (c\<lparr>lr_last := a\<rparr>) = entry c"
  "nx (c\<lparr>lr_free := fs\<rparr>) = nx c" "pv (c\<lparr>lr_free := fs\<rparr>) = pv c" "entry (c\<lparr>lr_free := fs\<rparr>) = entry c"
  by (auto simp: nx_def pv_def entry_def fun_eq_iff)

text \<open>An item that is in neither list, as between \<open>Build\<close> or \<open>Detach\<close> and what follows.\<close>

definition loose :: "'a lru \<Rightarrow> nat list \<Rightarrow> nat \<Rightarrow> bool" where
  "loose c xs x \<longleftrightarrow>
     distinct xs \<and> distinct (lr_free c) \<and> set xs \<inter> set (lr_free c) = {} \<and> x \<notin> set xs \<and> x \<notin> set (lr_free c) \<and>
     insert x (set xs \<union> set (lr_free c)) = {..<length (lr_items c)} \<and>
     lr_first c = hd_opt xs \<and> lr_last c = last_opt xs \<and> linked (nx c) (pv c) xs \<and>
     (\<forall>i\<in>set (lr_free c). nx c i = None \<and> pv c i = None)"

lemma Attach_repr:
  assumes lo: "loose c xs x" and alone: "xs = [] \<Longrightarrow> nx c x = None \<and> pv c x = None"
  shows "lru_repr (Attach x c) (xs @ [x])" "entry (Attach x c) = entry c"
    "lr_free (Attach x c) = lr_free c" "length (lr_items (Attach x c)) = length (lr_items c)"
proof -
  have x: "x < length (lr_items c)" using lo by (auto simp: loose_def)
  have "lru_repr (Attach x c) (xs @ [x]) \<and> entry (Attach x c) = entry c \<and> lr_free (Attach x c) = lr_free c \<and>
      length (lr_items (Attach x c)) = length (lr_items c)"
  proof (cases "xs = []")
    case True
    then have "Attach x c = c\<lparr>lr_first := Some x, lr_last := Some x\<rparr>" using lo by (simp add: Attach_def loose_def)
    moreover have "linked (nx c) (pv c) [x]" using alone [OF True] by (auto simp: linked_def Cons_eq_append_conv)
    ultimately show ?thesis using lo True by (auto simp: lru_repr_def loose_def last_opt_def)
  next
    case False
    have l: "last xs < length (lr_items c)" "last xs \<noteq> x" using lo False by (auto simp: loose_def)
    let ?c = "set_next x None (set_next (last xs) (Some x) (set_prev x (Some (last xs)) c))"
    have c: "Attach x c = ?c\<lparr>lr_last := Some x\<rparr>"
      using lo False by (simp add: Attach_def loose_def last_opt_def hd_opt_def)
    have "nx ?c = (nx c)(last xs := Some x, x := None)" "pv ?c = (pv c)(x := Some (last xs))" "entry ?c = entry c"
      using x l by (simp_all add: set_link_simps)
    moreover have "linked ((nx c)(last xs := Some x, x := None)) ((pv c)(x := Some (last xs))) (xs @ [x])"
      using lo False by (intro linked_append_one) (auto simp: loose_def)
    moreover have "i \<noteq> last xs" if "i \<in> set (lr_free c)" for i
      using that lo last_in_set [OF False] by (auto simp: loose_def)
    ultimately show ?thesis
      using lo False unfolding c lru_repr_def loose_def by (auto simp: hd_opt_def)
  qed
  then show "lru_repr (Attach x c) (xs @ [x])" "entry (Attach x c) = entry c"
    "lr_free (Attach x c) = lr_free c" "length (lr_items (Attach x c)) = length (lr_items c)" by blast+
qed

lemma Detach_loose:
  assumes r: "lru_repr c (xs @ x # ys)"
  shows "loose (Detach x c) (xs @ ys) x" "entry (Detach x c) = entry c" "lr_free (Detach x c) = lr_free c"
    "length (lr_items (Detach x c)) = length (lr_items c)"
proof -
  have d: "distinct (xs @ x # ys)" and l: "linked (nx c) (pv c) (xs @ x # ys)" using r by (simp_all add: lru_repr_def)
  have len: "i < length (lr_items c)" if "i \<in> set (xs @ x # ys)" for i using that r by (auto simp: lru_repr_def)
  have x: "pv c x = last_opt xs" "nx c x = hd_opt ys" using linkedD [OF l] by simp_all
  define c1 where "c1 = unlink_prev x c"
  define c2 where "c2 = unlink_next x c1"
  have p: "p < length (lr_items c)" "p \<noteq> x" if "last_opt xs = Some p" for p
    using len opt_in_set(1) [OF that] d by auto
  have n: "n < length (lr_items c)" "n \<noteq> x" if "hd_opt ys = Some n" for n
    using len opt_in_set(2) [OF that] d by auto
  have c1: "nx c1 = (\<lambda>i. if last_opt xs = Some i then hd_opt ys else nx c i)" "pv c1 = pv c" "entry c1 = entry c"
    "lr_free c1 = lr_free c" "lr_first c1 = lr_first c" "lr_last c1 = lr_last c" "length (lr_items c1) = length (lr_items c)"
    using p x by (auto simp: c1_def unlink_prev_def set_link_simps fun_eq_iff split: option.splits)
  have xx: "last_opt xs \<noteq> Some x" "hd_opt ys \<noteq> Some x" using p n by auto
  have x1: "nx c1 x = hd_opt ys" "pv c1 x = last_opt xs" using xx c1 x by simp_all
  have c2: "nx c2 = nx c1" "pv c2 = (\<lambda>i. if hd_opt ys = Some i then last_opt xs else pv c i)" "entry c2 = entry c"
    "lr_free c2 = lr_free c" "lr_first c2 = lr_first c" "lr_last c2 = lr_last c" "length (lr_items c2) = length (lr_items c)"
    using n c1 x1 by (auto simp: c2_def unlink_next_def set_link_simps fun_eq_iff split: option.splits)
  have D: "Detach x c = (let c = (if lr_first c2 = Some x then c2\<lparr>lr_first := nx c2 x\<rparr> else c2)
      in if lr_last c = Some x then c\<lparr>lr_last := pv c x\<rparr> else c)"
    unfolding Detach_def c2_def c1_def by (simp only: Let_def)
  have links: "nx (Detach x c) = nx c2" "pv (Detach x c) = pv c2" "entry (Detach x c) = entry c"
    "lr_free (Detach x c) = lr_free c" "length (lr_items (Detach x c)) = length (lr_items c)"
    unfolding D by (simp_all add: c2 Let_def)
  have c2x: "nx c2 x = hd_opt ys" "pv c2 x = last_opt xs" using xx x c1 c2 by simp_all
  have ends: "lr_first c = hd_opt (xs @ x # ys)" "lr_last c = last_opt (xs @ x # ys)" using r by (simp_all add: lru_repr_def)
  have first: "lr_first (Detach x c) = hd_opt (xs @ ys)"
    unfolding D using c2x c2 ends d by (cases xs) (auto simp: Let_def hd_opt_def)
  have last: "lr_last (Detach x c) = last_opt (xs @ ys)"
    unfolding D using c2x c2 ends d by (cases ys rule: rev_cases) (auto simp: Let_def last_opt_def)
  have "linked (nx (Detach x c)) (pv (Detach x c)) (xs @ ys)"
    by (rule linked_remove [OF l d]) (simp_all add: links c2 c1)
  moreover have "nx c2 i = None \<and> pv c2 i = None" if "i \<in> set (lr_free c)" for i
  proof -
    have "i \<notin> set (xs @ x # ys)" "nx c i = None" "pv c i = None" using that r by (auto simp: lru_repr_def)
    then show ?thesis using opt_in_set(1) [of xs i] opt_in_set(2) [of ys i] c1 c2 by auto
  qed
  ultimately show "loose (Detach x c) (xs @ ys) x"
    using r first last unfolding loose_def lru_repr_def links by auto
  show "entry (Detach x c) = entry c" "lr_free (Detach x c) = lr_free c"
    "length (lr_items (Detach x c)) = length (lr_items c)" using links by simp_all
qed

section \<open>The operations on the queue\<close>

definition touch_queue :: "nat \<Rightarrow> u64 \<Rightarrow> (nat \<times> 'a \<times> u64) list \<Rightarrow> (nat \<times> 'a \<times> u64) list" where
  "touch_queue ident tick q =
     (case map_of q ident of
        None \<Rightarrow> q
      | Some (obj, used) \<Rightarrow>
          if used \<ge> tick then q else filter (\<lambda>e. fst e \<noteq> ident) q @ [(ident, obj, tick)])"

lemma map_entry_cong: "(\<And>i. i \<in> set is \<Longrightarrow> entry c i = entry d i) \<Longrightarrow> map (entry c) is = map (entry d) is"
  by simp

lemma loose_upd:
  assumes "loose c xs x" "\<And>item. li_next (f item) = li_next item \<and> li_prev (f item) = li_prev item"
  shows "loose (upd_item x f c) xs x"
proof -
  have "x < length (lr_items c)" using assms(1) by (auto simp: loose_def)
  then have "nx (upd_item x f c) = nx c" "pv (upd_item x f c) = pv c"
    using assms(2) by (auto simp: nx_def pv_def upd_item_nth fun_eq_iff)
  with assms(1) show ?thesis by (simp add: loose_def)
qed

lemma Build_loose:
  assumes r: "lru_repr c xs" and b: "Build dflt c = (x, c')"
  shows "loose c' xs x" "nx c' x = None" "pv c' x = None" "\<And>i. i \<in> set xs \<Longrightarrow> entry c' i = entry c i"
proof -
  have "loose c' xs x \<and> nx c' x = None \<and> pv c' x = None \<and> (\<forall>i\<in>set xs. entry c' i = entry c i)"
  proof (cases "lr_free c")
    case Nil
    then have b: "x = length (lr_items c)" "c' = c\<lparr>lr_items := lr_items c @ [new_item dflt]\<rparr>"
      using b by (simp_all add: Build_def)
    have old: "i < length (lr_items c) \<Longrightarrow> nx c' i = nx c i \<and> pv c' i = pv c i \<and> entry c' i = entry c i" for i
      by (simp add: b nx_def pv_def entry_def nth_append)
    have len: "i < length (lr_items c)" if "i \<in> set xs" for i using that r by (auto simp: lru_repr_def)
    have "linked (nx c') (pv c') xs"
      unfolding linked_def
    proof (intro allI impI)
      fix as y bs assume xs: "xs = as @ y # bs"
      then have "y < length (lr_items c)" using len by simp
      with old linkedD [of "nx c" "pv c" as y bs] r xs show "pv c' y = last_opt as \<and> nx c' y = hd_opt bs"
        by (simp add: lru_repr_def)
    qed
    moreover have "nx c' x = None" "pv c' x = None" by (simp_all add: b nx_def pv_def new_item_def)
    moreover have "set xs = {..<length (lr_items c)}" using r Nil by (simp add: lru_repr_def)
    ultimately show ?thesis using r Nil old len by (auto simp: loose_def lru_repr_def b)
  next
    case (Cons k ks)
    then have b: "x = k" "c' = c\<lparr>lr_free := ks\<rparr>" using b by (simp_all add: Build_def)
    show ?thesis using r Cons by (auto simp: loose_def lru_repr_def b)
  qed
  then show "loose c' xs x" "nx c' x = None" "pv c' x = None" "\<And>i. i \<in> set xs \<Longrightarrow> entry c' i = entry c i"
    by blast+
qed

lemma lru_queueI: "lru_repr c xs \<Longrightarrow> map (entry c) xs = q \<Longrightarrow> lru_queue c q"
  by (auto simp: lru_queue_def entry_def comp_def)

lemma entry_upd:
  "x < length (lr_items c) \<Longrightarrow> i \<noteq> x \<Longrightarrow> entry (upd_item x f c) i = entry c i"
  by (simp add: entry_def upd_item_nth)

lemma lru_Insert_ok:
  assumes q: "lru_queue c q" and ins: "lru_Insert dflt obj tick c = (x, c')"
  shows "lru_queue c' (q @ [(x, obj, tick)])" "x \<notin> fst ` set q"
proof -
  let ?xs = "map fst q" let ?f = "\<lambda>item :: 'a lru_item. item\<lparr>li_object := obj, li_tick := tick\<rparr>"
  obtain c1 where b: "Build dflt c = (x, c1)" and c': "c' = Attach x (upd_item x ?f c1)"
    using ins by (auto simp: lru_Insert_def Let_def split: prod.splits)
  have r: "lru_repr c ?xs" and e: "map (entry c) ?xs = q" using q by (simp_all add: lru_queue_def)
  note B = Build_loose [OF r b]
  have x: "x < length (lr_items c1)" "x \<notin> set ?xs" using B(1) by (auto simp: loose_def)
  let ?c = "upd_item x ?f c1"
  have lo: "loose ?c ?xs x" by (rule loose_upd [OF B(1)]) simp
  have "nx ?c x = None" "pv ?c x = None" using B(2,3) x(1) by (simp_all add: nx_def pv_def upd_item_nth)
  then have A: "lru_repr c' (?xs @ [x])" "entry c' = entry ?c"
    unfolding c' by (auto intro: Attach_repr [OF lo])
  have "map (entry c') ?xs = map (entry c) ?xs"
    by (rule map_entry_cong) (use A(2) B(4) entry_upd x in \<open>metis (no_types, lifting)\<close>)
  moreover have "entry c' x = (x, obj, tick)" unfolding A(2) using x(1) by (simp add: entry_def upd_item_nth)
  ultimately have "map (entry c') (?xs @ [x]) = q @ [(x, obj, tick)]" unfolding e by (simp only: map_append list.map)
  then show "lru_queue c' (q @ [(x, obj, tick)])" by (rule lru_queueI [OF A(1)])
  show "x \<notin> fst ` set q" using x(2) by simp
qed

lemma queue_split:
  assumes "lru_queue c q" "x \<in> fst ` set q"
  obtains as obj used bs where "q = as @ (x, obj, used) # bs" "x \<notin> fst ` set as" "x \<notin> fst ` set bs"
    "entry c x = (x, obj, used)" "map_of q x = Some (obj, used)"
proof -
  from assms(2) obtain obj used where "(x, obj, used) \<in> set q" by auto
  then obtain as bs where q: "q = as @ (x, obj, used) # bs" by (metis split_list)
  have "distinct (map fst q)" using assms(1) by (simp add: lru_queue_def lru_repr_def)
  with q have d: "x \<notin> fst ` set as" "x \<notin> fst ` set bs" by auto
  have "entry c x = (x, obj, used)" using assms(1) q by (simp add: lru_queue_def)
  moreover have "map_of as x = None" using d(1) by (simp add: map_of_eq_None_iff)
  then have "map_of q x = Some (obj, used)" using q by (simp add: map_add_def)
  ultimately show ?thesis using that q d by blast
qed

lemma queue_remove:
  "q = as @ (x, v) # bs \<Longrightarrow> x \<notin> fst ` set as \<Longrightarrow> x \<notin> fst ` set bs \<Longrightarrow>
     filter (\<lambda>e. fst e \<noteq> x) q = as @ bs"
proof -
  assume q: "q = as @ (x, v) # bs" and "x \<notin> fst ` set as" "x \<notin> fst ` set bs"
  then have "filter (\<lambda>e. fst e \<noteq> x) as = as" "filter (\<lambda>e. fst e \<noteq> x) bs = bs" by (auto simp: filter_id_conv)
  with q show ?thesis by simp
qed

lemma map_fix: "map f xs = xs \<Longrightarrow> x \<in> set xs \<Longrightarrow> f x = x"
  by (induction xs) auto

lemma queue_entry: "lru_queue c q \<Longrightarrow> e \<in> set q \<Longrightarrow> entry c (fst e) = e"
  using map_fix [of "entry c \<circ> fst" q e] by (simp add: lru_queue_def)

lemma lru_Detach_ok:
  assumes "lru_queue c (as @ (x, v) # bs)"
  shows "loose (Detach x c) (map fst (as @ bs)) x" "entry (Detach x c) = entry c"
    "map (entry c) (map fst (as @ bs)) = as @ bs" "x < length (lr_items c)"
proof -
  have r: "lru_repr c (map fst as @ x # map fst bs)" using assms by (simp add: lru_queue_def)
  show "loose (Detach x c) (map fst (as @ bs)) x" "entry (Detach x c) = entry c" using Detach_loose [OF r] by simp_all
  show "map (entry c) (map fst (as @ bs)) = as @ bs" using assms by (simp add: lru_queue_def)
  show "x < length (lr_items c)" using r by (auto simp: lru_repr_def)
qed

lemma Free_ok:
  assumes q: "lru_queue c q" and x: "x \<in> fst ` set q"
  shows "lru_queue (Free x c) (filter (\<lambda>e. fst e \<noteq> x) q)"
proof -
  obtain as obj used bs where s: "q = as @ (x, obj, used) # bs" "x \<notin> fst ` set as" "x \<notin> fst ` set bs"
    "entry c x = (x, obj, used)" "map_of q x = Some (obj, used)" by (rule queue_split [OF q x])
  note D = lru_Detach_ok [OF q [unfolded s(1)]]
  let ?c = "set_prev x None (set_next x None (Detach x c))"
  have len: "x < length (lr_items (Detach x c))" using D(1) by (auto simp: loose_def)
  have links: "nx ?c = (nx (Detach x c))(x := None)" "pv ?c = (pv (Detach x c))(x := None)" "entry ?c = entry c"
    using len D(2) by (simp_all add: set_link_simps)
  have "linked (nx ?c) (pv ?c) (map fst (as @ bs))"
    unfolding linked_def
  proof (intro allI impI)
    fix us y vs assume us: "map fst (as @ bs) = us @ y # vs"
    then have "y \<noteq> x" using D(1) by (auto simp: loose_def)
    moreover have "linked (nx (Detach x c)) (pv (Detach x c)) (us @ y # vs)" using D(1) us by (simp add: loose_def)
    ultimately show "pv ?c y = last_opt us \<and> nx ?c y = hd_opt vs" using linkedD links by simp
  qed
  then have "lru_repr (Free x c) (map fst (as @ bs))"
    using D(1) links unfolding Free_def Let_def by (auto simp: lru_repr_def loose_def)
  moreover have "entry (Free x c) = entry c" unfolding Free_def Let_def using links(3) by simp
  ultimately have "lru_queue (Free x c) (as @ bs)" using D(3) by (intro lru_queueI) (simp_all only:)
  then show ?thesis using queue_remove [OF s(1-3)] by simp
qed

lemma Touch_ok:
  assumes q: "lru_queue c q" and x: "x \<in> fst ` set q"
  shows "lru_queue (Touch x tick c) (touch_queue x tick q)"
proof -
  obtain as obj used bs where s: "q = as @ (x, obj, used) # bs" "x \<notin> fst ` set as" "x \<notin> fst ` set bs"
    "entry c x = (x, obj, used)" "map_of q x = Some (obj, used)" by (rule queue_split [OF q x])
  have used: "li_tick (lr_items c ! x) = used" "li_object (lr_items c ! x) = obj" using s(4) by (simp_all add: entry_def)
  show ?thesis
  proof (cases "used \<ge> tick")
    case True
    then show ?thesis using q s(5) used by (simp add: Touch_def touch_queue_def)
  next
    case False
    let ?f = "\<lambda>item :: 'a lru_item. item\<lparr>li_tick := tick\<rparr>" let ?c = "upd_item x ?f c"
    have xl: "x < length (lr_items c)" using lru_Detach_ok(4) q s(1) by metis
    have same: "nx ?c = nx c" "pv ?c = pv c" using xl by (auto simp: nx_def pv_def upd_item_nth fun_eq_iff)
    have e: "entry ?c i = (if i = x then (x, obj, tick) else entry c i)" for i
      using xl used by (simp add: entry_def upd_item_nth)
    let ?q = "as @ (x, obj, tick) # bs"
    have "lru_repr ?c (map fst q)" using q same by (simp add: lru_queue_def lru_repr_def)
    moreover have "map (entry ?c) (map fst q) = ?q"
    proof -
      have "entry ?c (fst a) = a" if "a \<in> set as \<union> set bs" for a
      proof -
        have "fst a \<noteq> x" using that s(2,3) by auto
        moreover have "entry c (fst a) = a" using queue_entry [OF q, of a] that s(1) by auto
        ultimately show ?thesis by (simp add: e)
      qed
      then show ?thesis using s(1) e [of x] by (simp add: map_idI)
    qed
    ultimately have q1: "lru_queue ?c ?q" using s(1) by (auto intro: lru_queueI)
    have T: "Touch x tick c = (if lr_last c \<noteq> Some x then Attach x (Detach x ?c) else ?c)"
      using False used by (simp add: Touch_def Let_def)
    have spec: "touch_queue x tick q = as @ bs @ [(x, obj, tick)]"
      using False s(5) queue_remove [OF s(1-3)] by (simp add: touch_queue_def)
    have last: "lr_last c = last_opt (map fst q)" using q by (simp add: lru_queue_def lru_repr_def)
    show ?thesis
    proof (cases "lr_last c = Some x")
      case True
      have "bs = []"
      proof (rule ccontr)
        assume "bs \<noteq> []"
        then have "last (map fst q) = last (map fst bs)" "last (map fst bs) \<in> fst ` set bs" using s(1) by (auto simp: last_map)
        with True last s(3) show False by (auto simp: last_opt_def split: if_splits)
      qed
      then show ?thesis using q1 T True spec by simp
    next
      case False
      have ne: "as @ bs \<noteq> []" using False last s(1) by (auto simp: last_opt_def)
      note D = lru_Detach_ok [OF q1]
      have "map fst (as @ bs) = [] \<Longrightarrow> nx (Detach x ?c) x = None \<and> pv (Detach x ?c) x = None" using ne by simp
      note A = Attach_repr(1,2) [OF D(1) this]
      have "entry ?c x = (x, obj, tick)" using e [of x] by simp
      then have "map (entry (Attach x (Detach x ?c))) (map fst (as @ bs) @ [x]) = as @ bs @ [(x, obj, tick)]"
        by (simp only: A(2) D(2) D(3) map_append [of _ _ "[x]"] list.map append_assoc)
      with A(1) have "lru_queue (Attach x (Detach x ?c)) (as @ bs @ [(x, obj, tick)])" by (rule lru_queueI)
      then show ?thesis using T False spec by simp
    qed
  qed
qed

section \<open>Eviction\<close>

text \<open>The callback of a collection: it deletes the objects it does not keep, each by its item's index.\<close>

definition collect :: "('a \<Rightarrow> nat) \<Rightarrow> ('a \<Rightarrow> bool) \<Rightarrow> 'a \<Rightarrow> 'a lru \<Rightarrow> bool \<times> 'a lru" where
  "collect ident keep obj c = (False, if keep obj then c else Free (ident obj) c)"

definition obj_of :: "nat \<times> 'a \<times> u64 \<Rightarrow> 'a" where
  "obj_of e = fst (snd e)"

definition used_of :: "nat \<times> 'a \<times> u64 \<Rightarrow> u64" where
  "used_of e = snd (snd e)"

lemma for_each_below_ok:
  "lru_queue c (kept @ q) \<Longrightarrow> (\<And>e. e \<in> set q \<Longrightarrow> ident (obj_of e) = fst e) \<Longrightarrow> length q \<le> fuel \<Longrightarrow>
     \<exists>c'. for_each_below fuel tick (collect ident keep) (hd_opt (map fst q)) c =
            Some (map obj_of (takeWhile (\<lambda>e. used_of e \<le> tick) q), c') \<and>
          lru_queue c' (kept @ filter (\<lambda>e. keep (obj_of e)) (takeWhile (\<lambda>e. used_of e \<le> tick) q) @
                        dropWhile (\<lambda>e. used_of e \<le> tick) q)"
proof (induction q arbitrary: c kept fuel)
  case Nil
  then show ?case by simp
next
  case (Cons e q)
  obtain x obj used where e: "e = (x, obj, used)" by (metis prod_cases3)
  obtain n where fuel: "fuel = Suc n" "length q \<le> n" using Cons.prems(3) by (cases fuel) auto
  have ent: "entry c x = (x, obj, used)" using queue_entry [OF Cons.prems(1), of e] e by simp
  then have fields: "li_tick (lr_items c ! x) = used" "li_object (lr_items c ! x) = obj" by (simp_all add: entry_def)
  have "linked (nx c) (pv c) (map fst kept @ x # map fst q)"
    using Cons.prems(1) e by (simp add: lru_queue_def lru_repr_def)
  from linkedD [OF this] have after: "nx c x = hd_opt (map fst q)" by simp
  have id_x: "ident obj = x" using Cons.prems(2) [of e] e by (simp add: obj_of_def)
  show ?case
  proof (cases "used \<le> tick")
    case False
    then show ?thesis using Cons.prems(1) e fuel fields by (auto simp: used_of_def)
  next
    case True
    let ?c = "if keep obj then c else Free x c" let ?kept = "kept @ (if keep obj then [e] else [])"
    have "distinct (map fst (kept @ e # q))" using Cons.prems(1) by (simp add: lru_queue_def lru_repr_def)
    then have out: "x \<notin> fst ` set kept" "x \<notin> fst ` set q" using e by auto
    have "lru_queue ?c (?kept @ q)"
    proof (cases "keep obj")
      case False
      have "lru_queue (Free x c) (filter (\<lambda>e. fst e \<noteq> x) (kept @ e # q))" by (rule Free_ok [OF Cons.prems(1)]) (simp add: e)
      then show ?thesis using False queue_remove [OF _ out] e by simp
    qed (use Cons.prems(1) in simp)
    from Cons.IH [OF this Cons.prems(2) fuel(2)] obtain c' where
      "for_each_below n tick (collect ident keep) (hd_opt (map fst q)) ?c =
         Some (map obj_of (takeWhile (\<lambda>e. used_of e \<le> tick) q), c')"
      "lru_queue c' (?kept @ filter (\<lambda>e. keep (obj_of e)) (takeWhile (\<lambda>e. used_of e \<le> tick) q) @
         dropWhile (\<lambda>e. used_of e \<le> tick) q)" by auto
    moreover have "collect ident keep obj c = (False, ?c)" using id_x by (simp add: collect_def)
    ultimately show ?thesis using fuel fields after e leD [OF True] True
      by (cases "keep obj") (simp_all add: used_of_def obj_of_def)
  qed
qed

lemma takeWhile_sorted:
  "sorted (map used_of q) \<Longrightarrow>
     takeWhile (\<lambda>e. used_of e \<le> tick) q = filter (\<lambda>e. used_of e \<le> tick) q \<and>
     dropWhile (\<lambda>e. used_of e \<le> tick) q = filter (\<lambda>e. \<not> used_of e \<le> tick) q"
proof (induction q)
  case (Cons e q)
  have "filter (\<lambda>e. used_of e \<le> tick) q = []" "filter (\<lambda>e. \<not> used_of e \<le> tick) q = q" if "\<not> used_of e \<le> tick"
    using Cons.prems that by (auto simp: filter_empty_conv filter_id_conv)
  with Cons show ?case by auto
qed simp

section \<open>The list in use\<close>

definition live :: "'a lru \<Rightarrow> nat \<Rightarrow> bool" where
  "live c x \<longleftrightarrow> x < length (lr_items c) \<and> x \<notin> set (lr_free c)"

text \<open>The caches stamp with a clock that does not go back, and touch and free the items they hold.\<close>

inductive lru_step :: "'a lru \<times> u64 \<Rightarrow> 'a lru \<times> u64 \<Rightarrow> bool" where
  lru_insert: "lru_Insert dflt obj now c = (x, c') \<Longrightarrow> lru_step (c, now) (c', now)"
| lru_touch: "live c x \<Longrightarrow> lru_step (c, now) (Touch x now c, now)"
| lru_free: "live c x \<Longrightarrow> lru_step (c, now) (Free x c, now)"
| lru_tick: "now \<le> now' \<Longrightarrow> lru_step (c, now) (c, now')"

definition lru_init :: "'a lru \<times> u64 \<Rightarrow> bool" where
  "lru_init y \<longleftrightarrow> fst y = new_lru"

definition lru_inv :: "'a lru \<times> u64 \<Rightarrow> bool" where
  "lru_inv = (\<lambda>(c, now). \<exists>q. lru_queue c q \<and> sorted (map used_of q) \<and> (\<forall>e\<in>set q. used_of e \<le> now))"

lemma live_queue: "lru_queue c q \<Longrightarrow> live c x \<longleftrightarrow> x \<in> fst ` set q"
proof -
  assume "lru_queue c q"
  then have u: "set (map fst q) \<union> set (lr_free c) = {..<length (lr_items c)}"
    and d: "set (map fst q) \<inter> set (lr_free c) = {}" unfolding lru_queue_def lru_repr_def by blast+
  have "live c x \<longleftrightarrow> x \<in> {..<length (lr_items c)} \<and> x \<notin> set (lr_free c)" by (simp add: live_def)
  also have "\<dots> \<longleftrightarrow> x \<in> set (map fst q)" unfolding u [symmetric] using d by blast
  finally show ?thesis by simp
qed

lemma sorted_filter_used: "sorted (map used_of q) \<Longrightarrow> sorted (map used_of (filter P q))"
  by (rule sorted_filter)

lemma touch_queue_inv:
  assumes "sorted (map used_of q)" "\<forall>e\<in>set q. used_of e \<le> now"
  shows "sorted (map used_of (touch_queue x now q))" "\<forall>e\<in>set (touch_queue x now q). used_of e \<le> now"
proof -
  have "sorted (map used_of (filter (\<lambda>e. fst e \<noteq> x) q @ [(x, obj, now)]))" for obj
    using sorted_filter_used [OF assms(1)] assms(2) by (auto simp: sorted_append used_of_def)
  then show "sorted (map used_of (touch_queue x now q))"
    using assms(1) by (auto simp: touch_queue_def split: option.splits)
  show "\<forall>e\<in>set (touch_queue x now q). used_of e \<le> now"
    using assms(2) by (auto simp: touch_queue_def used_of_def split: option.splits)
qed

lemma lru_step_inv:
  assumes "lru_step y y'" and "lru_inv y"
  shows "lru_inv y'"
  using assms
proof cases
  case (lru_insert dflt obj now c x c')
  from assms(2) obtain q where q: "lru_queue c q" "sorted (map used_of q)" "\<forall>e\<in>set q. used_of e \<le> now"
    unfolding lru_insert lru_inv_def by auto
  have "sorted (map used_of (q @ [(x, obj, now)]))" using q(2,3) by (simp add: sorted_append used_of_def)
  with lru_Insert_ok(1) [OF q(1) lru_insert(3)] q(3) show ?thesis
    unfolding lru_insert lru_inv_def by (auto simp: used_of_def intro!: exI [of _ "q @ [(x, obj, now)]"])
next
  case (lru_touch c x now)
  from assms(2) obtain q where q: "lru_queue c q" "sorted (map used_of q)" "\<forall>e\<in>set q. used_of e \<le> now"
    unfolding lru_touch lru_inv_def by auto
  have "lru_queue (Touch x now c) (touch_queue x now q)"
    using Touch_ok [OF q(1)] lru_touch(3) live_queue [OF q(1)] by blast
  with touch_queue_inv [OF q(2,3)] show ?thesis unfolding lru_touch lru_inv_def by blast
next
  case (lru_free c x now)
  from assms(2) obtain q where q: "lru_queue c q" "sorted (map used_of q)" "\<forall>e\<in>set q. used_of e \<le> now"
    unfolding lru_free lru_inv_def by auto
  have "lru_queue (Free x c) (filter (\<lambda>e. fst e \<noteq> x) q)"
    using Free_ok [OF q(1)] lru_free(3) live_queue [OF q(1)] by blast
  with sorted_filter_used [OF q(2)] q(3) show ?thesis
    unfolding lru_free lru_inv_def by (auto intro!: exI [of _ "filter (\<lambda>e. fst e \<noteq> x) q"])
next
  case (lru_tick now now' c)
  then show ?thesis using assms(2) unfolding lru_inv_def by (auto intro: order_trans)
qed

interpretation lru_list: step_invariant lru_init lru_step lru_inv
proof
  fix y :: "'a lru \<times> u64" assume "lru_init y"
  then show "lru_inv y"
    by (auto simp: lru_init_def lru_inv_def lru_queue_def lru_repr_def new_lru_def linked_def intro!: exI [of _ "[]"])
next
  fix y y' :: "'a lru \<times> u64" assume "lru_inv y" "lru_step y y'"
  then show "lru_inv y'" by (rule lru_step_inv [rotated])
qed

text \<open>
  C31: the linked items are a queue. Whatever list the pointers hold, \<open>Insert\<close> appends an item under an
  index no item of the list has, \<open>Touch\<close> with a later tick moves its item to the end and with another tick
  does nothing, and \<open>Free\<close> takes its item out; the links in both directions are those of the new list.
\<close>

theorem lru_refines_queue:
  assumes "lru_queue c q"
  shows "(lru_Insert dflt obj tick c = (x, c') \<longrightarrow> lru_queue c' (q @ [(x, obj, tick)]) \<and> x \<notin> fst ` set q) \<and>
         (live c y \<longrightarrow> lru_queue (Touch y tick c) (touch_queue y tick q)) \<and>
         (live c y \<longrightarrow> lru_queue (Free y c) (filter (\<lambda>e. fst e \<noteq> y) q))"
  using lru_Insert_ok [OF assms] Touch_ok [OF assms] Free_ok [OF assms] live_queue [OF assms] by metis

lemma new_lru_queue: "lru_queue new_lru []"
  by (simp add: lru_queue_def lru_repr_def new_lru_def linked_def)

lemma lru_refines_queue_witness:
  "\<exists>x c'. lru_Insert CHR ''-'' CHR ''a'' 5 new_lru = (x, c') \<and> lru_queue c' [(x, CHR ''a'', 5)]"
proof -
  obtain x c' where "lru_Insert CHR ''-'' CHR ''a'' 5 new_lru = (x, c')" by fastforce
  with lru_refines_queue [OF new_lru_queue, of "CHR ''-''" "CHR ''a''" 5 x c'] show ?thesis by auto
qed

text \<open>
  A collection visits exactly the stale items. In every reachable list \<open>ForEachItemBelow\<close> calls back
  for the objects last used at or before the tick, the longest unused first, and for no other, also when
  the callback frees the items it is called for; what the callback keeps and what was used later stays, in
  its order. As much fuel as there are items is enough.
\<close>

theorem lru_evicts_stale:
  assumes "reachable lru_init lru_step (c, now)"
  shows "\<exists>q. lru_queue c q \<and> sorted (map used_of q) \<and>
           ((\<forall>e\<in>set q. ident (obj_of e) = fst e) \<longrightarrow>
             (\<exists>c'. ForEachItemBelow (length q) tick (collect ident keep) c =
                     Some (map obj_of (filter (\<lambda>e. used_of e \<le> tick) q), c') \<and>
                   lru_queue c' (filter (\<lambda>e. used_of e \<le> tick \<and> keep (obj_of e)) q @ filter (\<lambda>e. \<not> used_of e \<le> tick) q)))"
proof -
  from lru_list.reachable_inv [OF assms] obtain q where q: "lru_queue c q" "sorted (map used_of q)"
    by (auto simp: lru_inv_def)
  have "lr_first c = hd_opt (map fst q)" using q(1) by (simp add: lru_queue_def lru_repr_def)
  then have "\<exists>c'. ForEachItemBelow (length q) tick (collect ident keep) c =
         Some (map obj_of (filter (\<lambda>e. used_of e \<le> tick) q), c') \<and>
       lru_queue c' (filter (\<lambda>e. used_of e \<le> tick \<and> keep (obj_of e)) q @ filter (\<lambda>e. \<not> used_of e \<le> tick) q)"
    if "\<forall>e\<in>set q. ident (obj_of e) = fst e"
    using for_each_below_ok [of c "[]" q ident "length q" tick keep] q that
    by (simp add: ForEachItemBelow_def takeWhile_sorted filter_filter conj_commute)
  with q show ?thesis by blast
qed

lemma lru_evicts_stale_witness:
  "\<exists>q :: (nat \<times> nat \<times> u64) list. lru_queue new_lru q \<and> sorted (map used_of q)"
proof -
  have "reachable lru_init lru_step (new_lru :: nat lru, 0)" by (rule reachable_init) (simp add: lru_init_def)
  from lru_evicts_stale [OF this] show ?thesis by blast
qed

end
