(* ===== verification/StringUtils.thy ===== *)
theory StringUtils
  imports Prelude
begin

text \<open>
  The string helpers of src/src/common/stringUtils.h on lists of characters, and the formatting of
  integers by \<open>fmt\<close> and \<open>printf\<close> (\<open>{}\<close>, \<open>{:0wd}\<close>, \<open>%0wu\<close>, \<open>{:02X}\<close>) that other components share.
  \<open>std::string::npos\<close> is \<open>None\<close>; a 32-bit index that reports it is \<open>FIND_INVALID_INDEX\<close>.
\<close>

named_theorems string_defs

section \<open>Characters and numbers\<close>

definition code :: "char \<Rightarrow> nat" where
  "code c = of_char c"

definition is_digit :: "char \<Rightarrow> bool" where
  "is_digit c \<longleftrightarrow> 48 \<le> code c \<and> code c \<le> 57"

definition digit_char :: "nat \<Rightarrow> char" where
  "digit_char d = char_of (48 + d)"

definition hex_char :: "nat \<Rightarrow> char" where
  "hex_char d = char_of (if d < 10 then 48 + d else 55 + d)"

fun show_nat :: "nat \<Rightarrow> string" where
  "show_nat n = (if n < 10 then [digit_char n] else show_nat (n div 10) @ [digit_char (n mod 10)])"

declare show_nat.simps [simp del]

definition pad :: "nat \<Rightarrow> string \<Rightarrow> string" where
  "pad width s = replicate (width - length s) (CHR ''0'') @ s"

definition fmt_int :: "nat \<Rightarrow> int \<Rightarrow> string" where
  "fmt_int width x =
     (if x < 0 then CHR ''-'' # pad (width - 1) (show_nat (nat (- x))) else pad width (show_nat (nat x)))"

text \<open>The value of a digit of \<open>std::from_chars\<close>; 36 for a character that is none.\<close>

definition digit_value :: "char \<Rightarrow> nat" where
  "digit_value c =
     (if is_digit c then code c - 48
      else if 97 \<le> code c \<and> code c \<le> 122 then code c - 87
      else if 65 \<le> code c \<and> code c \<le> 90 then code c - 55 else 36)"

definition digits_value :: "nat \<Rightarrow> string \<Rightarrow> nat" where
  "digits_value base s = foldl (\<lambda>v c. base * v + digit_value c) 0 s"

definition leading_digits :: "nat \<Rightarrow> string \<Rightarrow> string" where
  "leading_digits base s = takeWhile (\<lambda>c. digit_value c < base) s"

text \<open>\<open>from_chars\<close> leaves the result alone when there is no digit and when the value is out of range.\<close>

definition from_chars_nat :: "nat \<Rightarrow> nat \<Rightarrow> string \<Rightarrow> nat" where
  "from_chars_nat limit base s =
     (let v = digits_value base (leading_digits base s) in if v > limit then 0 else v)"

definition from_chars_int :: "nat \<Rightarrow> nat \<Rightarrow> string \<Rightarrow> int" where
  "from_chars_int limit base s =
     (if s \<noteq> [] \<and> hd s = CHR ''-'' then - int (from_chars_nat (limit + 1) base (tl s))
      else int (from_chars_nat limit base s))"

definition ToUint32 :: "string \<Rightarrow> nat \<Rightarrow> nat" where
  "ToUint32 text base = from_chars_nat 4294967295 base text"

definition ToUint64 :: "string \<Rightarrow> nat \<Rightarrow> nat" where
  "ToUint64 text base = from_chars_nat 18446744073709551615 base text"

definition ToInt32 :: "string \<Rightarrow> nat \<Rightarrow> int" where
  "ToInt32 text base = from_chars_int 2147483647 base text"

definition ToInt64 :: "string \<Rightarrow> nat \<Rightarrow> int" where
  "ToInt64 text base = from_chars_int 9223372036854775807 base text"

section \<open>Case and tests\<close>

definition IsSpace :: "char \<Rightarrow> bool" where
  "IsSpace c \<longleftrightarrow> code c = 32 \<or> (9 \<le> code c \<and> code c \<le> 13)"

definition to_lower :: "char \<Rightarrow> char" where
  "to_lower c = (if 65 \<le> code c \<and> code c \<le> 90 then char_of (code c + 32) else c)"

definition EqualNoCase :: "string \<Rightarrow> string \<Rightarrow> bool" where
  "EqualNoCase lhs rhs \<longleftrightarrow>
     length lhs = length rhs \<and> list_all (\<lambda>(l, r). to_lower l = to_lower r) (zip lhs rhs)"

definition ToLower :: "string \<Rightarrow> string" where
  "ToLower text = map to_lower text"

definition StartsWith :: "string \<Rightarrow> string \<Rightarrow> bool" where
  "StartsWith text prefix \<longleftrightarrow> take (length prefix) text = prefix"

definition StartsWith_char :: "string \<Rightarrow> char \<Rightarrow> bool" where
  "StartsWith_char text prefix \<longleftrightarrow> text \<noteq> [] \<and> hd text = prefix"

definition EndsWith :: "string \<Rightarrow> string \<Rightarrow> bool" where
  "EndsWith text suffix \<longleftrightarrow> length suffix \<le> length text \<and> drop (length text - length suffix) text = suffix"

definition EndsWith_char :: "string \<Rightarrow> char \<Rightarrow> bool" where
  "EndsWith_char text suffix \<longleftrightarrow> text \<noteq> [] \<and> last text = suffix"

section \<open>Searching\<close>

text \<open>\<open>text.find(needle, from)\<close> and \<open>text.rfind(needle, from)\<close>.\<close>

fun find_first :: "string \<Rightarrow> string \<Rightarrow> nat option" where
  "find_first needle [] = (if needle = [] then Some 0 else None)"
| "find_first needle (c # cs) =
     (if StartsWith (c # cs) needle then Some 0 else map_option Suc (find_first needle cs))"

definition str_find :: "string \<Rightarrow> string \<Rightarrow> nat \<Rightarrow> nat option" where
  "str_find text needle from1 =
     (if from1 > length text then None else map_option ((+) from1) (find_first needle (drop from1 text)))"

definition str_rfind :: "string \<Rightarrow> string \<Rightarrow> nat \<Rightarrow> nat option" where
  "str_rfind text needle from1 =
     (if length needle > length text then None
      else List.find (\<lambda>i. StartsWith (drop i text) needle) (rev [0..<Suc (min from1 (length text - length needle))]))"

definition FIND_INVALID_INDEX :: u32 where
  "FIND_INVALID_INDEX = -1"

definition index_or_invalid :: "nat option \<Rightarrow> u32" where
  "index_or_invalid p = (case p of None \<Rightarrow> FIND_INVALID_INDEX | Some i \<Rightarrow> word_of_nat i)"

definition ContainsStr :: "string \<Rightarrow> string \<Rightarrow> bool" where
  "ContainsStr text needle \<longleftrightarrow> str_find text needle 0 \<noteq> None"

definition ContainsChar :: "string \<Rightarrow> char \<Rightarrow> bool" where
  "ContainsChar text needle \<longleftrightarrow> str_find text [needle] 0 \<noteq> None"

definition IndexValid :: "string \<Rightarrow> u32 \<Rightarrow> bool" where
  "IndexValid text index \<longleftrightarrow> unat index < length text"

definition FindIndex :: "string \<Rightarrow> string \<Rightarrow> nat \<Rightarrow> u32" where
  "FindIndex text needle from1 = index_or_invalid (str_find text needle from1)"

definition last_from :: "string \<Rightarrow> nat \<Rightarrow> nat" where
  "last_from text from1 = (if from1 = unat FIND_INVALID_INDEX \<or> from1 > length text then length text else from1)"

definition FindLastIndex :: "string \<Rightarrow> string \<Rightarrow> nat \<Rightarrow> u32" where
  "FindLastIndex text needle from1 =
     (if needle = [] then 0 else index_or_invalid (str_rfind text needle (last_from text from1)))"

definition FindLastIndex_char :: "string \<Rightarrow> char \<Rightarrow> nat \<Rightarrow> u32" where
  "FindLastIndex_char text needle from1 = index_or_invalid (str_rfind text [needle] (last_from text from1))"

section \<open>Parts\<close>

definition substr :: "string \<Rightarrow> nat \<Rightarrow> nat \<Rightarrow> string" where
  "substr text first count = take count (drop first text)"

text \<open>\<open>Mid\<close> with its default count, and with one.\<close>

definition Mid :: "string \<Rightarrow> nat \<Rightarrow> string" where
  "Mid text first = (if first \<ge> length text then [] else drop first text)"

definition Mid_count :: "string \<Rightarrow> nat \<Rightarrow> nat \<Rightarrow> string" where
  "Mid_count text first count = (if first \<ge> length text then [] else substr text first count)"

definition Left :: "string \<Rightarrow> nat \<Rightarrow> string" where
  "Left text count = Mid_count text 0 count"

definition Right :: "string \<Rightarrow> nat \<Rightarrow> string" where
  "Right text count = (if count \<ge> length text then text else Mid_count text (length text - count) count)"

definition RemoveLast :: "string \<Rightarrow> nat \<Rightarrow> string" where
  "RemoveLast text count = (if count \<ge> length text then [] else Left text (length text - count))"

definition RemoveFirst :: "string \<Rightarrow> nat \<Rightarrow> string" where
  "RemoveFirst text count = (if count \<ge> length text then [] else Right text (length text - count))"

fun trim_end :: "string \<Rightarrow> nat \<Rightarrow> nat" where
  "trim_end text 0 = 0"
| "trim_end text (Suc e) = (if IsSpace (text ! e) then trim_end text e else Suc e)"

definition TrimRight :: "string \<Rightarrow> string" where
  "TrimRight text = substr text 0 (trim_end text (length text))"

definition TrimLeft :: "string \<Rightarrow> string" where
  "TrimLeft text = dropWhile IsSpace text"

definition Trim :: "string \<Rightarrow> string" where
  "Trim text = TrimRight (TrimLeft text)"

definition ReplaceChar :: "string \<Rightarrow> char \<Rightarrow> char \<Rightarrow> string" where
  "ReplaceChar text old_char new_char = map (\<lambda>c. if c = old_char then new_char else c) text"

text \<open>Positions of the last slash or dot.\<close>

definition last_of :: "string \<Rightarrow> char \<Rightarrow> nat option" where
  "last_of text c = str_rfind text [c] (length text)"

definition DirectoryWithoutFilename :: "string \<Rightarrow> string" where
  "DirectoryWithoutFilename text =
     (case last_of text (CHR ''/'') of None \<Rightarrow> [] | Some pos \<Rightarrow> substr text 0 (pos + 1))"

definition FilenameWithoutDirectory :: "string \<Rightarrow> string" where
  "FilenameWithoutDirectory text =
     (case last_of text (CHR ''/'') of None \<Rightarrow> text | Some pos \<Rightarrow> drop (pos + 1) text)"

definition FilenameWithoutExtension :: "string \<Rightarrow> string" where
  "FilenameWithoutExtension text =
     (case last_of text (CHR ''.'') of None \<Rightarrow> text | Some pos \<Rightarrow> substr text 0 pos)"

definition ExtensionWithoutFilename :: "string \<Rightarrow> string" where
  "ExtensionWithoutFilename text =
     (case last_of text (CHR ''.'') of None \<Rightarrow> [] | Some pos \<Rightarrow> drop pos text)"

definition FixFilenameSlash :: "string \<Rightarrow> string" where
  "FixFilenameSlash text = ReplaceChar text (CHR 0x5C) (CHR ''/'')"

definition FixDirectorySlash :: "string \<Rightarrow> string" where
  "FixDirectorySlash text =
     (let ret = FixFilenameSlash text in if EndsWith_char ret (CHR ''/'') then ret else ret @ ''/'')"

section \<open>Splitting and joining\<close>

lemma find_first_Some: "find_first needle s = Some i \<Longrightarrow> i + length needle \<le> length s \<and> take (length needle) (drop i s) = needle"
proof (induction s arbitrary: i)
  case (Cons c cs)
  show ?case
  proof (cases "StartsWith (c # cs) needle")
    case True
    with Cons.prems have "i = 0" by simp
    with True show ?thesis using take_all_iff [of "length needle" "c # cs"]
      by (auto simp: StartsWith_def)
  next
    case False
    with Cons show ?thesis by fastforce
  qed
qed (auto split: if_splits)

lemma str_find_Some:
  assumes "str_find text needle s = Some pos"
  shows "s \<le> pos" "pos + length needle \<le> length text" "take (length needle) (drop pos text) = needle"
  using assms find_first_Some [of needle "drop s text"]
  by (auto simp: str_find_def drop_drop add.commute split: if_splits)

function split_loop :: "string \<Rightarrow> string \<Rightarrow> bool \<Rightarrow> nat \<Rightarrow> string list" where
  "split_loop text sep keep_empty start =
     (if sep = [] then []
      else case str_find text sep start of
             None \<Rightarrow> if keep_empty \<or> start \<noteq> length text then [drop start text] else []
           | Some pos \<Rightarrow>
               (if keep_empty \<or> pos \<noteq> start then [substr text start (pos - start)] else []) @
               split_loop text sep keep_empty (pos + length sep))"
  by auto
termination
proof (relation "measure (\<lambda>(text, sep, keep_empty, start). Suc (length text) - start)", simp_all)
  fix s sep :: string and start pos
  assume "sep \<noteq> []" "str_find s sep start = Some pos"
  then show "Suc (length s) - (pos + length sep) < Suc (length s) - start"
    using str_find_Some [of s sep start pos] by (cases sep) auto
qed

declare split_loop.simps [simp del]

definition Split :: "string \<Rightarrow> string \<Rightarrow> bool \<Rightarrow> string list" where
  "Split text sep keep_empty = (if sep = [] then map (\<lambda>c. [c]) text else split_loop text sep keep_empty 0)"

fun Concat :: "string list \<Rightarrow> string \<Rightarrow> string" where
  "Concat [] sep = []"
| "Concat [s] sep = s"
| "Concat (s # t # ss) sep = s @ sep @ Concat (t # ss) sep"

text \<open>\<open>ReplaceStr\<close>: each search starts after the text put in by the last one.\<close>

function replace_loop :: "string \<Rightarrow> string \<Rightarrow> string \<Rightarrow> nat \<Rightarrow> string" where
  "replace_loop old_str new_str text pos =
     (if old_str = [] then text
      else case str_find text old_str pos of
             None \<Rightarrow> text
           | Some p \<Rightarrow> replace_loop old_str new_str
                (take p text @ new_str @ drop (p + length old_str) text) (p + length new_str))"
  by auto
termination
proof (relation "measure (\<lambda>(old_str, new_str, text, pos). length text - pos)", simp_all)
  fix old_str new_str s :: string and pos p
  assume "old_str \<noteq> []" "str_find s old_str pos = Some p"
  then show "min (length s) p + (length s - (p + length old_str)) - p < length s - pos"
    using str_find_Some [of s old_str pos p] by (cases old_str) auto
qed

declare replace_loop.simps [simp del]

definition ReplaceStr :: "string \<Rightarrow> string \<Rightarrow> string \<Rightarrow> string" where
  "ReplaceStr text old_str new_str = (if old_str = [] then text else replace_loop old_str new_str text 0)"

definition SafeCsv :: "string \<Rightarrow> string" where
  "SafeCsv text =
     (let add_space = text \<noteq> [] \<and> hd text \<in> {CHR ''+'', CHR ''='', CHR ''-''}
      in if ContainsChar text (CHR 0x22) \<or> ContainsChar text (CHR '';'') \<or> ContainsChar text (CHR ''+'') \<or>
            ContainsChar text (CHR ''='') \<or> ContainsChar text (CHR ''-'')
         then [CHR 0x22] @ (if add_space then '' '' else []) @
              ReplaceStr text [CHR 0x22] [CHR 0x22, CHR 0x22] @ [CHR 0x22]
         else text)"

section \<open>Bytes as hexadecimal text\<close>

text \<open>The loop of \<open>HexToBin\<close> takes two characters at a time and leaves an odd last one.\<close>

fun HexToBin :: "string \<Rightarrow> u8 list" where
  "HexToBin (a # b # cs) = word_of_nat (ToUint32 [a, b] 16 mod 256) # HexToBin cs"
| "HexToBin cs = []"

definition HexFromBin :: "u8 list \<Rightarrow> string" where
  "HexFromBin bin = concat (map (\<lambda>x. [hex_char (unat x div 16), hex_char (unat x mod 16)]) bin)"

section \<open>Digits\<close>

lemma code_char_of [simp]: "n < 256 \<Longrightarrow> code (char_of n) = n"
  by (simp add: code_def)

lemma is_digit_char: "d < 10 \<Longrightarrow> is_digit (digit_char d)"
  by (simp add: is_digit_def digit_char_def)

lemma digit_value_char: "d < 10 \<Longrightarrow> digit_value (digit_char d) = d"
  by (simp add: digit_value_def is_digit_char) (simp add: digit_char_def)

lemma digit_value_hex: "d < 16 \<Longrightarrow> digit_value (hex_char d) = d"
  by (simp add: digit_value_def is_digit_def hex_char_def)

lemma digit_value_digit: "digit_value c < 10 \<longleftrightarrow> is_digit c"
  by (auto simp: digit_value_def is_digit_def)

lemma digits_value_append:
  "digits_value base (s @ t) = digits_value base s * base ^ length t + digits_value base t"
proof (induction t rule: rev_induct)
  case (snoc c t)
  have "digits_value base (s @ t @ [c]) = base * digits_value base (s @ t) + digit_value c"
    by (simp add: digits_value_def)
  moreover have "digits_value base (t @ [c]) = base * digits_value base t + digit_value c"
    by (simp add: digits_value_def)
  ultimately show ?case using snoc.IH by (simp add: algebra_simps)
qed (simp add: digits_value_def)

lemma digits_value_zeros: "digits_value base (replicate n (CHR ''0'')) = 0"
  by (induction n) (simp_all add: digits_value_def foldl_conv_fold, simp add: digit_value_def is_digit_def code_def)

lemma show_nat_digits: "c \<in> set (show_nat n) \<Longrightarrow> is_digit c"
  by (induction n rule: show_nat.induct) (subst (asm) (2) show_nat.simps, auto simp: is_digit_char split: if_splits)

lemma show_nat_value: "digits_value 10 (show_nat n) = n"
proof (induction n rule: show_nat.induct)
  case (1 n)
  show ?case
  proof (cases "n < 10")
    case True
    then show ?thesis by (simp add: show_nat.simps [of n] digits_value_def digit_value_char)
  next
    case False
    have "digits_value 10 [digit_char (n mod 10)] = n mod 10" by (simp add: digits_value_def digit_value_char)
    with 1 False show ?thesis by (simp add: show_nat.simps [of n] digits_value_append)
  qed
qed

lemma show_nat_length: "n < 10 ^ k \<Longrightarrow> 0 < k \<Longrightarrow> length (show_nat n) \<le> k"
proof (induction n arbitrary: k rule: show_nat.induct)
  case (1 n)
  show ?case
  proof (cases "n < 10")
    case False
    then obtain j where j: "k = Suc j" "0 < j" using 1(2,3) by (cases k; cases "k - 1") auto
    have "n div 10 < 10 ^ j" using 1(2) j by (simp add: less_mult_imp_div_less mult.commute)
    from 1(1) [OF False this j(2)] show ?thesis using False j by (simp add: show_nat.simps [of n])
  qed (use 1(3) in \<open>simp add: show_nat.simps [of n]\<close>)
qed

lemma pad_digits: "c \<in> set (pad k (show_nat n)) \<Longrightarrow> is_digit c"
  using show_nat_digits by (auto simp: pad_def is_digit_def code_def)

lemma pad_value: "digits_value 10 (pad k (show_nat n)) = n"
  by (simp add: pad_def digits_value_append digits_value_zeros show_nat_value)

lemma pad_length: "n < 10 ^ k \<Longrightarrow> 0 < k \<Longrightarrow> length (pad k (show_nat n)) = k"
  using show_nat_length [of n k] by (simp add: pad_def)

lemma show_nat_nonempty [simp]: "show_nat n \<noteq> []"
  by (subst show_nat.simps) simp

lemma pad_nonempty [simp]: "pad k (show_nat n) \<noteq> []"
  by (simp add: pad_def)

lemma takeWhile_digits:
  "(\<And>x. x \<in> set s \<Longrightarrow> is_digit x) \<Longrightarrow> rest = [] \<or> \<not> is_digit (hd rest) \<Longrightarrow>
     takeWhile is_digit (s @ rest) = s \<and> dropWhile is_digit (s @ rest) = rest"
  by (induction s) (cases rest, auto)

section \<open>What the pieces are\<close>

lemma find_first_least:
  "find_first needle s = Some i \<Longrightarrow> j < i \<Longrightarrow> take (length needle) (drop j s) \<noteq> needle"
proof (induction s arbitrary: i j)
  case (Cons c cs)
  then show ?case
  proof (cases "StartsWith (c # cs) needle")
    case False
    then obtain k where k: "find_first needle cs = Some k" "i = Suc k" using Cons.prems(1) by auto
    show ?thesis
    proof (cases j)
      case 0
      with False show ?thesis by (simp add: StartsWith_def)
    next
      case (Suc m)
      with Cons.IH [OF k(1), of m] Cons.prems(2) k(2) show ?thesis by simp
    qed
  qed simp
qed (auto split: if_splits)

lemma find_first_None: "find_first needle s = None \<Longrightarrow> j \<le> length s \<Longrightarrow> take (length needle) (drop j s) \<noteq> needle"
proof (induction s arbitrary: j)
  case (Cons c cs)
  then have no: "\<not> StartsWith (c # cs) needle" "find_first needle cs = None" by (auto split: if_splits)
  show ?case
  proof (cases j)
    case 0
    with no show ?thesis by (simp add: StartsWith_def)
  next
    case (Suc m)
    with Cons.IH [OF no(2), of m] Cons.prems(2) show ?thesis by simp
  qed
qed (auto split: if_splits)

definition occurs_in :: "string \<Rightarrow> string \<Rightarrow> bool" where
  "occurs_in needle s \<longleftrightarrow> (\<exists>j. j + length needle \<le> length s \<and> take (length needle) (drop j s) = needle)"

lemma ContainsStr_occurs: "ContainsStr s needle \<longleftrightarrow> occurs_in needle s"
proof
  assume "ContainsStr s needle"
  then obtain p where "str_find s needle 0 = Some p" by (auto simp: ContainsStr_def)
  from str_find_Some [OF this] show "occurs_in needle s" by (auto simp: occurs_in_def)
next
  assume "occurs_in needle s"
  then obtain j where "j + length needle \<le> length s" "take (length needle) (drop j s) = needle" by (auto simp: occurs_in_def)
  with find_first_None [of needle s j] show "ContainsStr s needle" by (auto simp: ContainsStr_def str_find_def)
qed

lemma no_occurrence_before:
  assumes "str_find s sep start = Some pos" and "sep \<noteq> []"
  shows "\<not> occurs_in sep (substr s start (pos - start))"
proof
  let ?n = "length sep"
  assume "occurs_in sep (substr s start (pos - start))"
  then obtain j where "j + ?n \<le> length (substr s start (pos - start))"
    "take ?n (drop j (substr s start (pos - start))) = sep" by (auto simp: occurs_in_def)
  then have j: "j + ?n \<le> pos - start" "take ?n (drop j (drop start s)) = sep"
    by (simp_all add: substr_def drop_take min_def split: if_splits)
  obtain i where i: "find_first sep (drop start s) = Some i" "pos = start + i"
    using assms by (auto simp: str_find_def split: if_splits)
  have "j < i" using j(1) i(2) assms(2) by (cases sep) auto
  with find_first_least [OF i(1)] j(2) show False by blast
qed

lemma no_occurrence_after:
  assumes "str_find s sep start = None" and "sep \<noteq> []"
  shows "\<not> occurs_in sep (drop start s)"
proof
  assume "occurs_in sep (drop start s)"
  then obtain j where j: "j + length sep \<le> length (drop start s)" "take (length sep) (drop j (drop start s)) = sep"
    by (auto simp: occurs_in_def)
  have "start \<le> length s" using j(1) assms(2) by (cases sep) auto
  then have "find_first sep (drop start s) = None" using assms(1) by (auto simp: str_find_def)
  with find_first_None [OF this, of j] j show False by auto
qed

lemma Concat_Cons: "ss \<noteq> [] \<Longrightarrow> Concat (s # ss) sep = s @ sep @ Concat ss sep"
  by (cases ss) auto

lemma split_loop_nonempty: "sep \<noteq> [] \<Longrightarrow> split_loop s sep True start \<noteq> []"
  by (subst split_loop.simps) (simp split: option.split)

lemma split_loop_joins:
  "sep \<noteq> [] \<Longrightarrow> start \<le> length s \<Longrightarrow> Concat (split_loop s sep True start) sep = drop start s"
proof (induction s sep True start rule: split_loop.induct)
  case (1 s sep start)
  show ?case
  proof (cases "str_find s sep start")
    case None
    then show ?thesis using 1(2) by (simp add: split_loop.simps [of s])
  next
    case (Some pos)
    note p = str_find_Some [OF Some]
    have "Concat (split_loop s sep True (pos + length sep)) sep = drop (pos + length sep) s"
      using 1(1) [OF 1(2) Some] 1(2) p by simp
    moreover have "drop start s = substr s start (pos - start) @ sep @ drop (pos + length sep) s"
    proof -
      have "drop start s = take (pos - start) (drop start s) @ drop (pos - start) (drop start s)"
        by (rule append_take_drop_id [symmetric])
      also have "drop (pos - start) (drop start s) = drop pos s" using p(1) by simp
      also have "drop pos s = take (length sep) (drop pos s) @ drop (length sep) (drop pos s)"
        by (rule append_take_drop_id [symmetric])
      finally show ?thesis using p(3) by (simp add: substr_def add.commute)
    qed
    ultimately show ?thesis using Some 1(2)
      by (simp add: split_loop.simps [of s sep True start] Concat_Cons split_loop_nonempty)
  qed
qed

lemma split_loop_pieces:
  "sep \<noteq> [] \<Longrightarrow> piece \<in> set (split_loop s sep keep start) \<Longrightarrow> \<not> occurs_in sep piece"
proof (induction s sep keep start rule: split_loop.induct)
  case (1 s sep keep start)
  show ?case
  proof (cases "str_find s sep start")
    case None
    then have "piece = drop start s" using 1(2,3) by (auto simp: split_loop.simps [of s sep keep start] split: if_splits)
    with no_occurrence_after [OF None 1(2)] show ?thesis by simp
  next
    case (Some pos)
    then have "piece = substr s start (pos - start) \<or> piece \<in> set (split_loop s sep keep (pos + length sep))"
      using 1(2,3) by (auto simp: split_loop.simps [of s sep keep start] split: if_splits)
    then show ?thesis using 1(1) [OF 1(2) Some 1(2)] no_occurrence_before [OF Some 1(2)] by blast
  qed
qed

lemma byte_bound: "unat (x :: u8) < 256"
  using unsigned_less [of x, where ?'a = nat] by simp

lemma hex_pair:
  "ToUint32 [hex_char (unat (x :: u8) div 16), hex_char (unat x mod 16)] 16 = unat x"
proof -
  have x: "unat x < 256" by (rule byte_bound)
  let ?a = "unat x div 16" and ?b = "unat x mod 16"
  have "?a < 16" "?b < 16" using x by auto
  then have "leading_digits 16 [hex_char ?a, hex_char ?b] = [hex_char ?a, hex_char ?b]"
    by (simp add: leading_digits_def digit_value_hex)
  moreover have "digits_value 16 [hex_char ?a, hex_char ?b] = unat x"
    using \<open>?a < 16\<close> by (simp add: digits_value_def digit_value_hex)
  ultimately show ?thesis using x by (simp add: ToUint32_def from_chars_nat_def)
qed

lemma HexToBin_HexFromBin: "HexToBin (HexFromBin bin) = bin"
proof (induction bin)
  case (Cons x bin)
  have "unat x mod 256 = unat x" using byte_bound [of x] by simp
  then have "word_of_nat (unat x mod 256) = x" by simp
  with Cons show ?case by (simp add: HexFromBin_def hex_pair)
qed (simp add: HexFromBin_def)

lemma FixDirectorySlash_idem: "FixDirectorySlash (FixDirectorySlash s) = FixDirectorySlash s"
proof -
  have fixed: "FixFilenameSlash (FixFilenameSlash s) = FixFilenameSlash s"
    by (simp add: FixFilenameSlash_def ReplaceChar_def)
  moreover have "FixFilenameSlash (r @ ''/'') = FixFilenameSlash r @ ''/''" for r
    by (simp add: FixFilenameSlash_def ReplaceChar_def)
  ultimately show ?thesis
    by (simp add: FixDirectorySlash_def Let_def EndsWith_char_def)
qed

text \<open>
  Splitting loses nothing. With the empty pieces kept, joining the pieces of \<open>Split\<close> with the
  separator gives the text back, no piece holds the separator, and the bytes of \<open>HexFromBin\<close> are read back
  by \<open>HexToBin\<close>.
\<close>

theorem split_joins:
  assumes "sep \<noteq> []"
  shows "Concat (Split s sep True) sep = s \<and> (\<forall>piece\<in>set (Split s sep keep). \<not> ContainsStr piece sep) \<and>
         HexToBin (HexFromBin bin) = bin"
  using assms split_loop_joins [of sep 0 s] split_loop_pieces [of sep _ s keep 0] HexToBin_HexFromBin [of bin]
  by (auto simp: Split_def ContainsStr_occurs)

lemma split_joins_witness: "Concat (Split ''a::b'' ''::'' True) ''::'' = ''a::b''"
  using split_joins [of "''::''" "''a::b''"] by simp

end
