(* ===== verification/DateTime.thy ===== *)
theory DateTime
  imports StringUtils
begin

text \<open>
  Dates as Julian days and times as milliseconds, src/src/common/dateTime.h and dateTime.cpp. The
  numbers are 32-bit: a sum or product that leaves 32 bits wraps as \<open>i32\<close> (the C++ leaves it undefined).
  \<open>YmdToJd_julian\<close> and \<open>JdToYmd_calendar\<close> show where none does and the conversions are those of the
  unbounded calendar, \<open>julian_day\<close> and \<open>calendar_date\<close>. A null output pointer is a component nobody
  looks at, so the functions return all components.
\<close>

section \<open>Conversions\<close>

definition FloorDiv :: "int \<Rightarrow> int \<Rightarrow> int" where
  "FloorDiv a b =
     (if b < 0 \<and> a < 0 then i32 (a sdiv b)
      else let b' = (if b < 0 then i32 (- b) else b); a' = (if b < 0 then i32 (- a) else a)
           in i32 (a' - (if a' < 0 then i32 (b' - 1) else 0)) sdiv b')"

definition YmdToJd :: "int \<Rightarrow> int \<Rightarrow> int \<Rightarrow> int" where
  "YmdToJd year month day =
     (let t_year = (if year < 0 then year + 1 else year);
          a = FloorDiv (i32 (14 - month)) 12;
          y = i32 (t_year + 4800 - a);
          m = i32 (month + 12 * a - 3)
      in i32 (day + FloorDiv (i32 (153 * m + 2)) 5 + 365 * y + FloorDiv y 4 - FloorDiv y 100 + FloorDiv y 400 - 32045))"

definition JdToYmd :: "int \<Rightarrow> int \<times> int \<times> int" where
  "JdToYmd jd =
     (let a = i32 (jd + 32044);
          b = FloorDiv (i32 (4 * a + 3)) 146097;
          c = i32 (a - FloorDiv (i32 (146097 * b)) 4);
          d = FloorDiv (i32 (4 * c + 3)) 1461;
          e = i32 (c - FloorDiv (i32 (1461 * d)) 4);
          m = FloorDiv (i32 (5 * e + 2)) 153;
          t_day = i32 (e - FloorDiv (i32 (153 * m + 2)) 5 + 1);
          t_month = i32 (m + 3 - 12 * FloorDiv m 10);
          t_year = i32 (100 * b + d - 4800 + FloorDiv m 10)
      in (if t_year \<le> 0 then i32 (t_year - 1) else t_year, t_month, t_day))"

definition HmsToMs :: "int \<Rightarrow> int \<Rightarrow> int \<Rightarrow> int \<Rightarrow> int" where
  "HmsToMs hour minute second msec = hour * 60 * 60 * 1000 + minute * 60 * 1000 + second * 1000 + msec"

definition MsToHms :: "int \<Rightarrow> int \<times> int \<times> int \<times> int" where
  "MsToHms ms =
     (ms sdiv (60 * 60 * 1000), (ms smod (60 * 60 * 1000)) sdiv (60 * 1000), (ms sdiv 1000) smod 60, ms smod 1000)"

section \<open>Dates\<close>

type_synonym date = int

definition DATE_JD_INVALID :: date where
  "DATE_JD_INVALID = -2147483648"

definition date_IsInvalid :: "date \<Rightarrow> bool" where
  "date_IsInvalid d \<longleftrightarrow> d = DATE_JD_INVALID"

definition DaysInMonth :: "int \<Rightarrow> int" where
  "DaysInMonth month =
     (let month = (if month < 1 \<or> month > 12 then 0 else month)
      in [0, 31, 28, 31, 30, 31, 30, 31, 31, 30, 31, 30, 31] ! nat month)"

definition IsLeapYear :: "int \<Rightarrow> bool" where
  "IsLeapYear year =
     (let year = (if year < 1 then year + 1 else year)
      in (year smod 4 = 0 \<and> year smod 100 \<noteq> 0) \<or> year smod 400 = 0)"

definition DaysInYear :: "int \<Rightarrow> int" where
  "DaysInYear year = (if IsLeapYear year then 366 else 365)"

definition date_IsValid :: "int \<Rightarrow> int \<Rightarrow> int \<Rightarrow> bool" where
  "date_IsValid year month day \<longleftrightarrow>
     year \<noteq> 0 \<and> day \<ge> 1 \<and> (day \<le> DaysInMonth month \<or> (day = 29 \<and> month = 2 \<and> IsLeapYear year))"

text \<open>\<open>Set\<close> and the constructor from year, month and day.\<close>

definition date_Set :: "int \<Rightarrow> int \<Rightarrow> int \<Rightarrow> date" where
  "date_Set year month day = (if date_IsValid year month day then YmdToJd year month day else DATE_JD_INVALID)"

definition date_Get :: "date \<Rightarrow> int \<times> int \<times> int" where
  "date_Get d = (if date_IsInvalid d then (0, 0, 0) else JdToYmd d)"

definition Year :: "date \<Rightarrow> int" where
  "Year d = (if date_IsInvalid d then 0 else fst (JdToYmd d))"

definition Month :: "date \<Rightarrow> int" where
  "Month d = (if date_IsInvalid d then 0 else fst (snd (JdToYmd d)))"

definition Day :: "date \<Rightarrow> int" where
  "Day d = (if date_IsInvalid d then 0 else snd (snd (JdToYmd d)))"

definition date_IsLeapYear :: "date \<Rightarrow> bool" where
  "date_IsLeapYear d = (if date_IsInvalid d then False else IsLeapYear (fst (JdToYmd d)))"

definition date_DaysInMonth :: "date \<Rightarrow> int" where
  "date_DaysInMonth d =
     (if date_IsInvalid d then 0
      else let (year, month, _) = JdToYmd d in if month = 2 \<and> IsLeapYear year then 29 else DaysInMonth month)"

definition date_DaysInYear :: "date \<Rightarrow> int" where
  "date_DaysInYear d = (if date_IsInvalid d then 0 else if date_IsLeapYear d then 366 else 365)"

definition DayOfWeek :: "date \<Rightarrow> int" where
  "DayOfWeek d =
     (if date_IsInvalid d then 0 else if d \<ge> 0 then d smod 7 + 1 else (d + 1) smod 7 + 7)"

definition DayOfYear :: "date \<Rightarrow> int" where
  "DayOfYear d = (if date_IsInvalid d then 0 else i32 (d - YmdToJd (Year d) 1 1 + 1))"

definition QuarterOfYear :: "date \<Rightarrow> int" where
  "QuarterOfYear d = (if date_IsInvalid d then 0 else (Month d - 1) sdiv 3 + 1)"

text \<open>\<open>operator+\<close> and \<open>operator-\<close>, and the assigning ones, which do the same.\<close>

definition date_add :: "date \<Rightarrow> int \<Rightarrow> date" where
  "date_add d days = i32 (d + days)"

definition date_sub :: "date \<Rightarrow> int \<Rightarrow> date" where
  "date_sub d days = i32 (d - days)"

section \<open>Times\<close>

type_synonym time = int

definition TIME_MS_INVALID :: time where
  "TIME_MS_INVALID = -1"

definition TIME_MS_IN_DAY :: int where
  "TIME_MS_IN_DAY = 24 * 3600 * 1000"

definition time_IsInvalid :: "time \<Rightarrow> bool" where
  "time_IsInvalid t \<longleftrightarrow> t < 0 \<or> t \<ge> TIME_MS_IN_DAY"

definition new_Time :: "int \<Rightarrow> time" where
  "new_Time msec = (if msec < 0 \<or> msec \<ge> TIME_MS_IN_DAY then TIME_MS_INVALID else msec)"

definition time_IsValid :: "int \<Rightarrow> int \<Rightarrow> int \<Rightarrow> int \<Rightarrow> bool" where
  "time_IsValid hour minute second msec \<longleftrightarrow>
     (hour \<ge> 0 \<and> hour \<le> 23) \<and> (minute \<ge> 0 \<and> minute \<le> 59) \<and> (second \<ge> 0 \<and> second \<le> 59) \<and>
     (msec \<ge> 0 \<and> msec \<le> 999)"

definition time_Set :: "int \<Rightarrow> int \<Rightarrow> int \<Rightarrow> int \<Rightarrow> time" where
  "time_Set hour minute second msec =
     (if time_IsValid hour minute second msec then HmsToMs hour minute second msec else TIME_MS_INVALID)"

definition time_Get :: "time \<Rightarrow> int \<times> int \<times> int \<times> int" where
  "time_Get t = (if time_IsInvalid t then (-1, -1, -1, -1) else MsToHms t)"

definition Hour24 :: "time \<Rightarrow> int" where
  "Hour24 t = (if time_IsInvalid t then -1 else fst (MsToHms t))"

definition Hour12 :: "time \<Rightarrow> int" where
  "Hour12 t =
     (if time_IsInvalid t then -1 else let h = fst (MsToHms t) smod 12 in if h = 0 then 12 else h)"

definition Minute :: "time \<Rightarrow> int" where
  "Minute t = (if time_IsInvalid t then -1 else fst (snd (MsToHms t)))"

definition Second :: "time \<Rightarrow> int" where
  "Second t = (if time_IsInvalid t then -1 else fst (snd (snd (MsToHms t))))"

definition Msec :: "time \<Rightarrow> int" where
  "Msec t = (if time_IsInvalid t then -1 else snd (snd (snd (MsToHms t))))"

definition IsAM :: "time \<Rightarrow> bool" where
  "IsAM t = (if time_IsInvalid t then False else fst (MsToHms t) < 12)"

definition IsPM :: "time \<Rightarrow> bool" where
  "IsPM t = (if time_IsInvalid t then False else fst (MsToHms t) \<ge> 12)"

definition wrap_day :: "int \<Rightarrow> int" where
  "wrap_day r =
     (let r = (if r < 0 then r + TIME_MS_IN_DAY else r)
      in if r \<ge> TIME_MS_IN_DAY then r - TIME_MS_IN_DAY else r)"

definition time_add :: "time \<Rightarrow> int \<Rightarrow> time outcome" where
  "time_add t secs =
     (let ms_secs = i32 (secs * 1000)
      in exit_if (ms_secs > TIME_MS_IN_DAY \<or> ms_secs < - TIME_MS_IN_DAY)
           (if time_IsInvalid t then Inr TIME_MS_INVALID else Inr (new_Time (wrap_day (t + ms_secs)))))"

definition time_sub :: "time \<Rightarrow> int \<Rightarrow> time outcome" where
  "time_sub t secs =
     (let ms_secs = i32 (secs * 1000)
      in exit_if (ms_secs > TIME_MS_IN_DAY \<or> ms_secs < - TIME_MS_IN_DAY)
           (if time_IsInvalid t then Inr TIME_MS_INVALID else Inr (new_Time (wrap_day (t - ms_secs)))))"

text \<open>The assigning operators leave an invalid time as it is.\<close>

definition time_add_assign :: "time \<Rightarrow> int \<Rightarrow> time outcome" where
  "time_add_assign t secs =
     (let ms_secs = i32 (secs * 1000)
      in exit_if (ms_secs > TIME_MS_IN_DAY \<or> ms_secs < - TIME_MS_IN_DAY)
           (Inr (if \<not> time_IsInvalid t then wrap_day (t + ms_secs) else t)))"

definition time_sub_assign :: "time \<Rightarrow> int \<Rightarrow> time outcome" where
  "time_sub_assign t secs =
     (let ms_secs = i32 (secs * 1000)
      in exit_if (ms_secs > TIME_MS_IN_DAY \<or> ms_secs < - TIME_MS_IN_DAY)
           (Inr (if \<not> time_IsInvalid t then wrap_day (t - ms_secs) else t)))"

section \<open>Text\<close>

text \<open>
  \<open>FormatDate\<close> and \<open>FormatTime\<close> give the text of the field at position \<open>i\<close> and the characters to skip
  after the first, or \<open>None\<close> when no field starts there.
\<close>

definition month_short :: "string list" where
  "month_short = [''Jan'', ''Feb'', ''Mar'', ''Apr'', ''May'', ''Jun'', ''Jul'', ''Aug'', ''Sep'', ''Oct'', ''Nov'', ''Dec'']"

definition month_long :: "string list" where
  "month_long = [''January'', ''February'', ''March'', ''April'', ''May'', ''June'', ''July'', ''August'',
                 ''September'', ''October'', ''November'', ''December'']"

definition day_short :: "string list" where
  "day_short = [''Mon'', ''Tue'', ''Wed'', ''Thu'', ''Fri'', ''Sat'', ''Sun'']"

definition day_long :: "string list" where
  "day_long = [''Monday'', ''Tuesday'', ''Wednesday'', ''Thursday'', ''Friday'', ''Saturday'', ''Sunday'']"

definition at :: "string \<Rightarrow> nat \<Rightarrow> string \<Rightarrow> bool" where
  "at f i pattern \<longleftrightarrow> substr f i (length pattern) = pattern"

definition year_field :: "date \<Rightarrow> nat \<Rightarrow> nat \<Rightarrow> (string \<times> nat) option outcome" where
  "year_field d first skip =
     (let y = Year d
      in exit_if (y < 0 \<or> y > 9999) (Inr (Some (if first = 0 then fmt_int 4 y else Mid (fmt_int 4 y) first, skip))))"

definition FormatDate :: "date \<Rightarrow> string \<Rightarrow> nat \<Rightarrow> (string \<times> nat) option outcome" where
  "FormatDate d f i =
     (if at f i ''YYYY'' then year_field d 0 3
      else if at f i ''YYY'' then year_field d 1 2
      else if at f i ''YY'' then year_field d 2 1
      else if at f i ''Y'' then year_field d 3 0
      else if at f i ''Q'' then Inr (Some (fmt_int 0 (QuarterOfYear d), 0))
      else if at f i ''MM'' then Inr (Some (fmt_int 2 (Month d), 1))
      else if at f i ''MONTH'' then Inr (Some (month_long ! nat (Month d - 1), 4))
      else if at f i ''MON'' then Inr (Some (month_short ! nat (Month d - 1), 2))
      else if at f i ''DDD'' then Inr (Some (fmt_int 3 (DayOfYear d), 2))
      else if at f i ''DD'' then Inr (Some (fmt_int 2 (Day d), 1))
      else if at f i ''DY'' then Inr (Some (day_short ! nat (DayOfWeek d - 1), 1))
      else if at f i ''DAY'' then Inr (Some (day_long ! nat (DayOfWeek d - 1), 2))
      else if at f i ''D'' then Inr (Some (fmt_int 0 (DayOfWeek d), 0))
      else if at f i ''J'' then Inr (Some (fmt_int 0 d, 0))
      else Inr None)"

definition FormatTime :: "time \<Rightarrow> string \<Rightarrow> nat \<Rightarrow> (string \<times> nat) option outcome" where
  "FormatTime t f i =
     (if at f i ''HH24'' then Inr (Some (fmt_int 2 (Hour24 t), 3))
      else if at f i ''HH12'' then Inr (Some (fmt_int 2 (Hour12 t), 3))
      else if at f i ''HH'' then Inr (Some (fmt_int 2 (Hour12 t), 1))
      else if at f i ''MI'' then Inr (Some (fmt_int 2 (Minute t), 1))
      else if at f i ''SSSSS'' then Inr (Some (fmt_int 5 (t sdiv 1000), 4))
      else if at f i ''SS'' then Inr (Some (fmt_int 2 (Second t), 1))
      else if at f i ''FFF'' then Inr (Some (fmt_int 3 (Msec t), 2))
      else if at f i ''AM'' then Inr (Some (if IsAM t then ''AM'' else ''PM'', 1))
      else if at f i ''A.M.'' then Inr (Some (if IsAM t then ''A.M.'' else ''P.M.'', 3))
      else Inr None)"

text \<open>The loop of the three \<open>ToString\<close>.\<close>

function format_loop ::
    "(nat \<Rightarrow> (string \<times> nat) option outcome) \<Rightarrow> string \<Rightarrow> nat \<Rightarrow> string \<Rightarrow> string outcome" where
  "format_loop field f i r =
     (if i < length f
      then case field i of
             Inl e \<Rightarrow> Inl e
           | Inr None \<Rightarrow> format_loop field f (i + 1) (r @ [f ! i])
           | Inr (Some (t, skip)) \<Rightarrow> format_loop field f (i + skip + 1) (r @ t)
      else Inr r)"
  by auto
termination by (relation "measure (\<lambda>(field, f, i, r). length f - i)") auto

declare format_loop.simps [simp del]

definition date_ToString :: "date \<Rightarrow> string \<Rightarrow> string outcome" where
  "date_ToString d f = (if date_IsInvalid d then Inr [] else format_loop (FormatDate d f) f 0 [])"

definition time_ToString :: "time \<Rightarrow> string \<Rightarrow> string outcome" where
  "time_ToString t f = (if time_IsInvalid t then Inr [] else format_loop (FormatTime t f) f 0 [])"

record date_time =
  dt_date :: date
  dt_time :: time

definition dt_IsInvalid :: "date_time \<Rightarrow> bool" where
  "dt_IsInvalid dt \<longleftrightarrow> date_IsInvalid (dt_date dt) \<or> time_IsInvalid (dt_time dt)"

definition dt_field :: "date_time \<Rightarrow> string \<Rightarrow> nat \<Rightarrow> (string \<times> nat) option outcome" where
  "dt_field dt f i =
     bind_outcome (FormatDate (dt_date dt) f i)
       (\<lambda>r. case r of Some x \<Rightarrow> Inr (Some x) | None \<Rightarrow> FormatTime (dt_time dt) f i)"

definition dt_ToString :: "date_time \<Rightarrow> string \<Rightarrow> string outcome" where
  "dt_ToString dt f = (if dt_IsInvalid dt then Inr [] else format_loop (dt_field dt f) f 0 [])"

text \<open>\<open>FromSystem\<close> and \<open>FromSystemUTC\<close> on what the clock of the host says; \<open>operator<\<close>.\<close>

definition FromSystem :: "(int \<times> int \<times> int \<times> int \<times> int \<times> int \<times> int) option \<Rightarrow> date_time" where
  "FromSystem clock =
     (case clock of
        None \<Rightarrow> \<lparr>dt_date = DATE_JD_INVALID, dt_time = TIME_MS_INVALID\<rparr>
      | Some (y, mo, d, h, mi, s, ms) \<Rightarrow> \<lparr>dt_date = date_Set y mo d, dt_time = time_Set h mi s ms\<rparr>)"

definition dt_less :: "date_time \<Rightarrow> date_time \<Rightarrow> bool" where
  "dt_less a b \<longleftrightarrow> dt_date a < dt_date b \<or> (dt_date a = dt_date b \<and> dt_time a < dt_time b)"

text \<open>\<open>FromMacros\<close> reads the format of the compiler's \<open>__DATE__\<close>.\<close>

definition month_named :: "string \<Rightarrow> int" where
  "month_named s = (case List.find (\<lambda>i. month_short ! i = s) [0..<12] of None \<Rightarrow> -1 | Some i \<Rightarrow> int i + 1)"

definition FromMacros :: "string \<Rightarrow> date" where
  "FromMacros s =
     (let lst = Split s '' '' False
      in if length lst \<noteq> 3 then DATE_JD_INVALID
         else let month = month_named (lst ! 0)
              in if month < 0 then DATE_JD_INVALID
                 else date_Set (ToInt32 (lst ! 2) 10) month (ToInt32 (lst ! 1) 10))"

section \<open>Division\<close>

lemma sdiv_nonneg: "0 \<le> a \<Longrightarrow> 0 < (b :: int) \<Longrightarrow> a sdiv b = a div b"
  by (cases "a = 0") (auto simp: signed_divide_int_def sgn_if)

lemma smod_nonneg: "0 \<le> a \<Longrightarrow> 0 < (b :: int) \<Longrightarrow> a smod b = a mod b"
  by (cases "a = 0") (auto simp: signed_modulo_int_def sgn_if)

lemma sdiv_neg: "a < 0 \<Longrightarrow> 0 < (b :: int) \<Longrightarrow> a sdiv b = - ((- a) div b)"
  by (simp add: signed_divide_int_def)

lemma smod_zero: "0 < (b :: int) \<Longrightarrow> a smod b = 0 \<longleftrightarrow> a mod b = 0"
proof (cases "a < 0")
  case True
  assume "0 < b"
  then have "a smod b = - ((- a) mod b)" using True by (simp add: signed_modulo_int_def)
  then show ?thesis by (simp add: mod_eq_0_iff_dvd)
qed (simp add: smod_nonneg)

lemma div_is: "q * k \<le> x \<Longrightarrow> x < q * k + k \<Longrightarrow> x div k = (q :: int)"
  by (rule int_div_pos_eq [of _ _ _ "x - q * k"]) (auto simp: mult.commute)

lemma div_split: "0 < k \<Longrightarrow> (q * k + r) div k = q + r div (k :: int)"
  by simp

lemma mod_split: "(q * k + r) mod k = r mod (k :: int)"
  by simp

lemma FloorDiv_div:
  assumes b: "0 < b" "b \<le> 2147483647" and a: "b - 2147483649 \<le> a" "a \<le> 2147483647"
  shows "FloorDiv a b = a div b"
proof (cases "a < 0")
  case False
  with b a show ?thesis by (simp add: FloorDiv_def sdiv_nonneg i32_ident)
next
  case True
  let ?q = "a div b" and ?r = "a mod b"
  have r: "0 \<le> ?r" "?r < b" using b by simp_all
  have "b - 1 - a = (- ?q) * b + (b - 1 - ?r)" by (simp add: algebra_simps minus_mult_div_eq_mod [symmetric])
  then have "(b - 1 - a) div b = - ?q + (b - 1 - ?r) div b" using div_split [OF b(1)] by metis
  moreover have "(b - 1 - ?r) div b = 0" using r by (intro div_pos_pos_trivial) auto
  ultimately have "(a - (b - 1)) sdiv b = ?q" using sdiv_neg [of "a - (b - 1)" b] True b by (simp add: algebra_simps)
  then show ?thesis using True b a by (simp add: FloorDiv_def i32_ident)
qed

section \<open>The calendar\<close>

text \<open>
  The code counts years from March: \<open>y\<close> is the year the last March was in, \<open>m\<close> the months since then,
  \<open>day_index y m d\<close> the days since March 1 of year 0.
\<close>

definition leap :: "int \<Rightarrow> bool" where
  "leap y \<longleftrightarrow> (y mod 4 = 0 \<and> y mod 100 \<noteq> 0) \<or> y mod 400 = 0"

definition march_days :: "int \<Rightarrow> int \<Rightarrow> int" where
  "march_days y m =
     (if m = 11 then (if leap (y + 1) then 29 else 28) else if m \<in> {1, 3, 6, 8} then 30 else 31)"

definition year_start :: "int \<Rightarrow> int" where
  "year_start y = 365 * y + y div 4 - y div 100 + y div 400"

definition day_index :: "int \<Rightarrow> int \<Rightarrow> int \<Rightarrow> int" where
  "day_index y m d = year_start y + (153 * m + 2) div 5 + d - 1"

definition march_valid :: "int \<Rightarrow> int \<Rightarrow> int \<Rightarrow> bool" where
  "march_valid y m d \<longleftrightarrow> 0 \<le> m \<and> m \<le> 11 \<and> 1 \<le> d \<and> d \<le> march_days y m"

text \<open>The steps of the conversion back.\<close>

definition century_of :: "int \<Rightarrow> int" where
  "century_of a = (4 * a + 3) div 146097"

definition in_century :: "int \<Rightarrow> int" where
  "in_century a = a - (146097 * century_of a) div 4"

definition year_of :: "int \<Rightarrow> int" where
  "year_of c = (4 * c + 3) div 1461"

definition day_of :: "int \<Rightarrow> int" where
  "day_of c = c - (1461 * year_of c) div 4"

definition month_of :: "int \<Rightarrow> int" where
  "month_of e = (5 * e + 2) div 153"

definition march_of :: "int \<Rightarrow> int \<times> int \<times> int" where
  "march_of a =
     (let c = in_century a; e = day_of c
      in (100 * century_of a + year_of c, month_of e, e - (153 * month_of e + 2) div 5 + 1))"

lemma quarter_days: "(146097 * b) div 4 = 36524 * b + b div (4 :: int)" "(1461 * r) div 4 = 365 * r + r div (4 :: int)"
  using div_split [of 4 "36524 * b" b] div_split [of 4 "365 * r" r] by (simp_all add: algebra_simps)

lemma year_start_split: "year_start (100 * b + r) = (146097 * b) div 4 + (365 * r + r div 4)" if "0 \<le> r" "r < 100"
proof -
  have b: "(100 * b + r) div 100 = b" using that by simp
  have "(100 * b + r) div 400 = ((100 * b + r) div 100) div 4" by (simp add: zdiv_zmult2_eq [symmetric])
  then have "(100 * b + r) div 400 = b div 4" using b by simp
  moreover have "(100 * b + r) div 4 = 25 * b + r div 4" using div_split [of 4 "25 * b" r] by (simp add: algebra_simps)
  ultimately show ?thesis using b by (simp add: year_start_def quarter_days)
qed

lemma leap_split: "leap (100 * b + r + 1) \<longleftrightarrow> (if r = 99 then b mod 4 = 3 else r mod 4 = 3)" if "0 \<le> r" "r < 100"
proof (cases "r = 99")
  case True
  have "100 * b + r + 1 = 100 * (b + 1)" using True by simp
  moreover have "(100 * (b + 1)) mod 400 = 100 * ((b + 1) mod 4)" using mult_mod_right [of 100 "b + 1" 4] by simp
  moreover have "(b + 1) mod 4 = 0 \<longleftrightarrow> b mod 4 = 3" by presburger
  ultimately show ?thesis using True by (simp only: leap_def) simp
next
  case False
  let ?x = "100 * b + r + 1"
  have m: "?x mod 100 = r + 1" using that False by (simp add: add.assoc)
  have "?x mod 400 mod 100 = ?x mod 100" by (rule mod_mod_cancel) simp
  then have "?x mod 400 \<noteq> 0" using m that by (metis mod_0 add_pos_nonneg add.commute less_irrefl zero_less_one)
  moreover have "?x mod 4 = 0 \<longleftrightarrow> r mod 4 = 3" by presburger
  ultimately show ?thesis using m False that by (simp only: leap_def) auto
qed

lemma month_cases:
  fixes m :: int
  assumes "0 \<le> m" "m \<le> 11"
  shows "m = 0 \<or> m = 1 \<or> m = 2 \<or> m = 3 \<or> m = 4 \<or> m = 5 \<or> m = 6 \<or> m = 7 \<or> m = 8 \<or> m = 9 \<or> m = 10 \<or> m = 11"
proof -
  obtain n where "m = int n" "n < 12" using assms by (cases m) auto
  then show ?thesis by (auto simp: numeral_eq_Suc less_Suc_eq)
qed

text \<open>The days of the months are those \<open>(153 m + 2) / 5\<close> counts, the last one short.\<close>

lemma month_of_day:
  assumes "0 \<le> m" "m \<le> 11" "1 \<le> d" "d \<le> (if m = 11 then 29 else if m \<in> {1, 3, 6, 8} then 30 else 31)"
  shows "month_of ((153 * m + 2) div 5 + d - 1) = m"
  unfolding month_of_def
proof (rule div_is)
  show "m * 153 \<le> 5 * ((153 * m + 2) div 5 + d - 1) + 2" "5 * ((153 * m + 2) div 5 + d - 1) + 2 < m * 153 + 153"
    using month_cases [OF assms(1,2)] assms(3,4) by (elim disjE; simp)+
qed

lemma day_of_month:
  assumes "0 \<le> e" "e \<le> 365"
  shows "0 \<le> month_of e \<and> month_of e \<le> 11 \<and> 1 \<le> e - (153 * month_of e + 2) div 5 + 1 \<and>
    e - (153 * month_of e + 2) div 5 + 1 \<le>
      (if month_of e = 11 then (if e = 365 then 29 else 28) else if month_of e \<in> {1, 3, 6, 8} then 30 else 31)"
proof -
  let ?m = "month_of e"
  have m: "?m * 153 \<le> 5 * e + 2" "5 * e + 2 < ?m * 153 + 153"
    using mult_div_mod_eq [of 153 "5 * e + 2"] pos_mod_bound [of 153 "5 * e + 2"] pos_mod_sign [of 153 "5 * e + 2"]
    by (simp_all add: month_of_def)
  then have r: "0 \<le> ?m" "?m \<le> 11" using assms by linarith+
  show ?thesis using month_cases [OF r] m assms by (elim disjE; simp)
qed

lemma mod4: "4 * (x div 4) = x - x mod (4 :: int)" "0 \<le> x mod (4 :: int)" "x mod (4 :: int) < 4"
  using minus_mod_eq_mult_div [of x 4] by simp_all

lemma century_split:
  assumes "0 \<le> c" "c \<le> 36524" "c = 36524 \<Longrightarrow> b mod 4 = 3"
  shows "century_of ((146097 * b) div 4 + c) = b" "in_century ((146097 * b) div 4 + c) = c"
proof -
  have "4 * c + b mod 4 * 0 \<le> 146093 + b mod 4" using assms(2,3) mod4 [of b] by (cases "c = 36524") auto
  then show "century_of ((146097 * b) div 4 + c) = b"
    using assms(1) mod4 [of b] unfolding century_of_def quarter_days by (intro div_is) auto
  then show "in_century ((146097 * b) div 4 + c) = c" by (simp add: in_century_def)
qed

lemma year_split:
  assumes "0 \<le> e" "e \<le> 365" "e = 365 \<Longrightarrow> r mod 4 = 3"
  shows "year_of (365 * r + r div 4 + e) = r" "day_of (365 * r + r div 4 + e) = e"
proof -
  have "4 * e + r mod 4 * 0 \<le> 1457 + r mod 4" using assms(2,3) mod4 [of r] by (cases "e = 365") auto
  then show "year_of (365 * r + r div 4 + e) = r"
    using assms(1) mod4 [of r] unfolding year_of_def by (intro div_is) auto
  then show "day_of (365 * r + r div 4 + e) = e" by (simp add: day_of_def quarter_days)
qed

lemma march_day:
  assumes "march_valid y m d"
  shows "0 \<le> (153 * m + 2) div 5 + d - 1" "(153 * m + 2) div 5 + d - 1 \<le> 365"
    "(153 * m + 2) div 5 + d - 1 = 365 \<Longrightarrow> leap (y + 1)" "month_of ((153 * m + 2) div 5 + d - 1) = m"
proof -
  have v: "0 \<le> m" "m \<le> 11" "1 \<le> d" "d \<le> march_days y m" using assms by (simp_all add: march_valid_def)
  have "0 \<le> (153 * m + 2) div 5 + d - 1 \<and> (153 * m + 2) div 5 + d - 1 \<le> 365 \<and>
      ((153 * m + 2) div 5 + d - 1 = 365 \<longrightarrow> leap (y + 1))"
    using month_cases [OF v(1,2)] v(3,4) by (elim disjE; simp add: march_days_def split: if_splits)
  then show "0 \<le> (153 * m + 2) div 5 + d - 1" "(153 * m + 2) div 5 + d - 1 \<le> 365"
    "(153 * m + 2) div 5 + d - 1 = 365 \<Longrightarrow> leap (y + 1)" by blast+
  show "month_of ((153 * m + 2) div 5 + d - 1) = m"
    by (rule month_of_day [OF v(1-3)]) (use v(4) in \<open>simp add: march_days_def split: if_splits\<close>)
qed

lemma march_of_day_index:
  assumes v: "march_valid y m d"
  shows "march_of (day_index y m d) = (y, m, d)"
proof -
  let ?b = "y div 100" and ?r = "y mod 100"
  define e where "e = (153 * m + 2) div 5 + d - 1"
  note e = march_day [OF v, folded e_def]
  have y: "y = 100 * ?b + ?r" "0 \<le> ?r" "?r < 100" by simp_all
  have lp: "leap (y + 1) \<longleftrightarrow> (if ?r = 99 then ?b mod 4 = 3 else ?r mod 4 = 3)"
    using leap_split [OF y(2,3), of ?b] by simp
  have r4: "e = 365 \<Longrightarrow> ?r mod 4 = 3" using e(3) lp by (simp split: if_splits)
  let ?c = "365 * ?r + ?r div 4 + e"
  have "?r div 4 \<le> 24" using y(3) by simp
  then have c: "0 \<le> ?c" "?c \<le> 36524" using e(1,2) y(2,3) by simp_all
  have "?r = 99 \<and> e = 365" if "?c = 36524" using that e(2) y(3) \<open>?r div 4 \<le> 24\<close> by linarith
  then have b4: "?c = 36524 \<Longrightarrow> ?b mod 4 = 3" using e(3) lp by simp
  have day: "day_index y m d = (146097 * ?b) div 4 + ?c"
    using year_start_split [OF y(2,3), of ?b] by (simp add: day_index_def e_def)
  have cs: "century_of ((146097 * ?b) div 4 + ?c) = ?b" "in_century ((146097 * ?b) div 4 + ?c) = ?c"
    using century_split [of ?c ?b] c b4 by blast+
  have ys: "year_of ?c = ?r" "day_of ?c = e" using year_split [of e ?r] e(1,2) r4 by blast+
  have "march_of (day_index y m d) = (100 * ?b + ?r, m, e - (153 * m + 2) div 5 + 1)"
    unfolding march_of_def Let_def day cs ys e(4) by (rule refl)
  moreover have "e - (153 * m + 2) div 5 + 1 = d" by (simp add: e_def)
  ultimately show ?thesis using y(1) by simp
qed

lemma march_terms:
  fixes a :: int
  defines "b \<equiv> century_of a" and "c \<equiv> in_century a" and "r \<equiv> year_of (in_century a)" and "e \<equiv> day_of (in_century a)"
  shows "146097 * b \<le> 4 * a + 3" "4 * a + 3 < 146097 * b + 146097" "0 \<le> c" "c \<le> 36524"
    "c = 36524 \<Longrightarrow> b mod 4 = 3" "0 \<le> r" "r < 100" "0 \<le> e" "e \<le> 365" "e = 365 \<Longrightarrow> r mod 4 = 3"
proof -
  show a: "146097 * b \<le> 4 * a + 3" "4 * a + 3 < 146097 * b + 146097"
    using mult_div_mod_eq [of 146097 "4 * a + 3"] pos_mod_bound [of 146097 "4 * a + 3"] pos_mod_sign [of 146097 "4 * a + 3"]
    by (simp_all add: b_def century_of_def)
  have c4: "4 * c = 4 * a - 146097 * b + b mod 4" using mod4(1) [of b] by (simp add: c_def in_century_def b_def quarter_days)
  then show c: "0 \<le> c" "c \<le> 36524" "c = 36524 \<Longrightarrow> b mod 4 = 3" using a mod4(2,3) [of b] by linarith+
  have r1: "1461 * r \<le> 4 * c + 3" "4 * c + 3 < 1461 * r + 1461"
    using mult_div_mod_eq [of 1461 "4 * c + 3"] pos_mod_bound [of 1461 "4 * c + 3"] pos_mod_sign [of 1461 "4 * c + 3"]
    by (simp_all add: r_def c_def year_of_def)
  then show r: "0 \<le> r" "r < 100" using c by linarith+
  have e4: "4 * e = 4 * c - 1461 * r + r mod 4" using mod4(1) [of r] by (simp add: e_def c_def day_of_def r_def quarter_days)
  then show "0 \<le> e" "e \<le> 365" "e = 365 \<Longrightarrow> r mod 4 = 3" using r1 mod4(2,3) [of r] by linarith+
qed

lemma day_index_march_of:
  assumes "march_of a = (y, m, d)"
  shows "march_valid y m d" "day_index y m d = a"
proof -
  define b where "b = century_of a"
  define c where "c = in_century a"
  define r where "r = year_of c"
  define e where "e = day_of c"
  note t = march_terms [of a, folded b_def, folded c_def, folded r_def, folded e_def]
  note c = t(3-5) and r = t(6,7) and e = t(8-10)
  have ca: "a = (146097 * b) div 4 + c" by (simp add: c_def in_century_def b_def)
  have rc: "c = 365 * r + r div 4 + e" by (simp add: e_def day_of_def r_def quarter_days)
  have lp: "leap (100 * b + r + 1)" if "e = 365"
  proof -
    have "b mod 4 = 3" if "r = 99" using c(3) rc \<open>e = 365\<close> that by simp
    then show ?thesis using leap_split [OF r, of b] e(3) that by simp
  qed
  have "march_of a = (100 * b + r, month_of e, e - (153 * month_of e + 2) div 5 + 1)"
    by (simp only: march_of_def Let_def b_def c_def r_def e_def)
  then have ymd: "y = 100 * b + r" "m = month_of e" "d = e - (153 * m + 2) div 5 + 1" using assms by auto
  show "march_valid y m d"
    using day_of_month [OF e(1,2)] lp ymd by (auto simp: march_valid_def march_days_def split: if_splits)
  show "day_index y m d = a"
    using year_start_split [OF r, of b] ca rc ymd by (simp add: day_index_def)
qed

definition march_next :: "int \<Rightarrow> int \<Rightarrow> int \<Rightarrow> int \<times> int \<times> int" where
  "march_next y m d =
     (if d < march_days y m then (y, m, d + 1) else if m < 11 then (y, m + 1, 1) else (y + 1, 0, 1))"

lemma div_step:
  assumes "0 < (k :: int)"
  shows "(x + 1) div k = x div k + (if (x + 1) mod k = 0 then 1 else 0)"
proof -
  let ?q = "x div k" and ?s = "x mod k"
  have x: "x = ?q * k + ?s" "0 \<le> ?s" "?s < k" using assms by simp_all
  show ?thesis
  proof (cases "?s + 1 = k")
    case True
    have "x + 1 = ?q * k + (?s + 1)" using x(1) by simp
    also have "\<dots> = (?q + 1) * k" unfolding True by (simp add: algebra_simps)
    finally have "x + 1 = (?q + 1) * k" .
    then show ?thesis using assms by simp
  next
    case False
    then have s: "0 \<le> ?s + 1" "?s + 1 < k" using x by simp_all
    have x1: "x + 1 = ?q * k + (?s + 1)" using x(1) by simp
    have "(?q * k + (?s + 1)) div k = ?q" using div_split [OF assms, of ?q "?s + 1"] s by simp
    moreover have "(?q * k + (?s + 1)) mod k = ?s + 1" unfolding mod_split by (rule mod_pos_pos_trivial [OF s])
    ultimately have "(x + 1) div k = ?q" "(x + 1) mod k = ?s + 1" by (simp_all only: x1 [symmetric])
    then show ?thesis using x(2) by simp
  qed
qed

lemma mod_step:
  assumes "0 < (k :: int)"
  shows "(x + 1) mod k = (if x mod k + 1 = k then 0 else x mod k + 1)"
proof -
  let ?q = "x div k" and ?s = "x mod k"
  have s: "0 \<le> ?s + 1" "?s + 1 \<le> k"
    using pos_mod_bound [OF assms, of x] pos_mod_sign [OF assms, of x] by linarith+
  have x1: "x + 1 = ?q * k + (?s + 1)" by simp
  have "(x + 1) mod k = (?s + 1) mod k" unfolding x1 mod_split by (rule refl)
  also have "\<dots> = (if ?s + 1 = k then 0 else ?s + 1)" using s by (auto intro!: mod_pos_pos_trivial)
  finally show ?thesis .
qed

lemma year_start_Suc: "year_start (y + 1) = year_start y + 365 + (if leap (y + 1) then 1 else 0)"
proof -
  define P where "P k \<longleftrightarrow> (y + 1) mod k = 0" for k
  have "P 400 \<Longrightarrow> P 100" "P 100 \<Longrightarrow> P 4"
    using mod_mod_cancel [of 100 400 "y + 1"] mod_mod_cancel [of 4 100 "y + 1"] by (simp_all add: P_def)
  moreover have "(y + 1) div k = y div k + (if P k then 1 else 0)" if "0 < k" for k
    using div_step [OF that] by (simp only: P_def)
  moreover have "leap (y + 1) \<longleftrightarrow> (P 4 \<and> \<not> P 100) \<or> P 400" by (simp only: P_def leap_def)
  ultimately show ?thesis unfolding year_start_def by (simp only: zero_less_numeral) (simp split: if_splits)
qed

lemma march_next_index:
  assumes "march_valid y m d" "march_next y m d = (y', m', d')"
  shows "march_valid y' m' d'" "day_index y' m' d' = day_index y m d + 1"
proof -
  have v: "0 \<le> m" "m \<le> 11" "1 \<le> d" "d \<le> march_days y m" using assms(1) by (simp_all add: march_valid_def)
  have pos: "1 \<le> march_days y m" for y m by (simp add: march_days_def)
  consider (day) "d < march_days y m" | (month) "d = march_days y m" "m < 11" | (year) "d = march_days y m" "m = 11"
    using v by linarith
  then show "march_valid y' m' d'"
    using assms(2) v pos by cases (auto simp: march_next_def march_valid_def)
  have "day_index y' m' d' = day_index y m d + 1"
  proof (cases "d < march_days y m")
    case True
    then show ?thesis using assms(2) by (auto simp: march_next_def day_index_def)
  next
    case False
    then have d: "d = march_days y m" using v by simp
    show ?thesis
    proof (cases "m = 11")
      case True
      then show ?thesis using assms(2) d by (auto simp: march_next_def day_index_def year_start_Suc march_days_def)
    next
      case False
      then have "m \<le> 10" using v by simp
      then show ?thesis
        using month_cases [OF v(1,2)] assms(2) d False
        by (elim disjE; auto simp: march_next_def day_index_def march_days_def)
    qed
  qed
  then show "day_index y' m' d' = day_index y m d + 1" .
qed

section \<open>The code's dates\<close>

text \<open>The years of the code have no year 0; \<open>astro\<close> and \<open>civil\<close> convert.\<close>

definition astro :: "int \<Rightarrow> int" where
  "astro year = (if year < 0 then year + 1 else year)"

definition civil :: "int \<Rightarrow> int" where
  "civil y = (if y \<le> 0 then y - 1 else y)"

lemma astro_civil [simp]: "astro (civil y) = y"
  by (simp add: astro_def civil_def)

lemma civil_astro: "year \<noteq> 0 \<Longrightarrow> civil (astro year) = year"
  by (simp add: astro_def civil_def)

lemma civil_nonzero [simp]: "civil y \<noteq> 0"
  by (simp add: civil_def)

definition from_march :: "int \<times> int \<times> int \<Rightarrow> int \<times> int \<times> int" where
  "from_march = (\<lambda>(y, m, d). (civil (y - 4800 + m div 10), m + 3 - 12 * (m div 10), d))"

definition to_march :: "int \<Rightarrow> int \<Rightarrow> int \<Rightarrow> int \<times> int \<times> int" where
  "to_march year month day =
     (astro year + 4800 - (14 - month) div 12, month + 12 * ((14 - month) div 12) - 3, day)"

definition julian_day :: "int \<Rightarrow> int \<Rightarrow> int \<Rightarrow> int" where
  "julian_day year month day = (case to_march year month day of (y, m, d) \<Rightarrow> day_index y m d) - 32044"

definition calendar_date :: "int \<Rightarrow> int \<times> int \<times> int" where
  "calendar_date jd = from_march (march_of (jd + 32044))"

lemma day_sum_bound:
  fixes y :: int
  assumes y: "- L \<le> y" "y \<le> L" and m: "0 \<le> m" "m \<le> 11" and day: "1 \<le> day" "day \<le> 31"
    and B: "146105 * L + 16000000 \<le> 400 * B"
  shows "- B \<le> day + (153 * m + 2) div 5 + 365 * y + y div 4 - y div 100 + y div 400 - 32045"
    "day + (153 * m + 2) div 5 + 365 * y + y div 4 - y div 100 + y div 400 - 32045 \<le> B"
proof -
  define M where "M = (153 * m + 2) div 5"
  define Q where "Q = y div 4"
  define R where "R = y div 100"
  define S where "S = y div 400"
  have q: "4 * Q \<le> y" "y \<le> 4 * Q + 3" "100 * R \<le> y" "y \<le> 100 * R + 99" "400 * S \<le> y" "y \<le> 400 * S + 399"
    unfolding Q_def R_def S_def by presburger+
  have M: "0 \<le> M" "M \<le> 337" using m unfolding M_def by simp_all
  have "- B \<le> day + M + 365 * y + Q - R + S - 32045" "day + M + 365 * y + Q - R + S - 32045 \<le> B"
    using y day B q M by linarith+
  then show "- B \<le> day + (153 * m + 2) div 5 + 365 * y + y div 4 - y div 100 + y div 400 - 32045"
    "day + (153 * m + 2) div 5 + 365 * y + y div 4 - y div 100 + y div 400 - 32045 \<le> B"
    by (simp_all only: M_def Q_def R_def S_def)
qed

text \<open>Within these bounds the 32-bit conversions are those of the calendar.\<close>

lemma YmdToJd_julian:
  assumes "\<bar>year\<bar> \<le> 5800000" "1 \<le> month" "month \<le> 12" "1 \<le> day" "day \<le> 31"
  shows "YmdToJd year month day = julian_day year month day"
proof -
  let ?a = "(14 - month) div 12"
  let ?y = "astro year + 4800 - ?a" and ?m = "month + 12 * ?a - 3"
  have year: "- 5800000 \<le> year" "year \<le> 5800000" using assms(1) by (simp_all add: abs_le_iff)
  have a: "?a = (if month \<le> 2 then 1 else 0)" using month_cases [of "month - 1"] assms(2,3) by auto
  have y: "- 5800000 \<le> ?y" "?y \<le> 5804801" using year by (simp_all add: astro_def a)
  have m: "0 \<le> ?m" "?m \<le> 11" using assms(2,3) by (simp_all add: a)
  have fa: "FloorDiv (i32 (14 - month)) 12 = ?a" using assms(2,3) by (simp add: i32_ident FloorDiv_div)
  have iy: "i32 ((if year < 0 then year + 1 else year) + 4800 - ?a) = ?y"
    using y by (simp add: astro_def i32_ident)
  have im: "i32 ?m = ?m" using m by (simp add: i32_ident)
  have f5: "FloorDiv (i32 (153 * ?m + 2)) 5 = (153 * ?m + 2) div 5" using m by (simp add: i32_ident FloorDiv_div)
  have fy: "FloorDiv ?y 4 = ?y div 4" "FloorDiv ?y 100 = ?y div 100" "FloorDiv ?y 400 = ?y div 400"
    using y by (simp_all add: FloorDiv_div)
  let ?s = "day + (153 * ?m + 2) div 5 + 365 * ?y + ?y div 4 - ?y div 100 + ?y div 400 - 32045"
  have "YmdToJd year month day = i32 ?s"
    by (simp only: YmdToJd_def Let_def fa iy im f5 fy)
  also have "\<dots> = ?s"
  proof -
    have b: "- 2147483647 \<le> ?s" "?s \<le> 2147483647"
      using y by (intro day_sum_bound [of 5804804 _ _ _ 2147483647, OF _ _ m assms(4,5)]; simp)+
    show ?thesis by (rule i32_ident) (rule order_trans [OF _ b(1)] le_less_trans [OF b(2)], simp)+
  qed
  also have "\<dots> = julian_day year month day"
    by (simp add: julian_day_def to_march_def day_index_def year_start_def)
  finally show ?thesis .
qed

lemma JdToYmd_calendar:
  assumes "\<bar>jd\<bar> \<le> 536000000"
  shows "JdToYmd jd = calendar_date jd" "\<bar>fst (calendar_date jd)\<bar> \<le> 1500000"
proof -
  have jd: "- 536000000 \<le> jd" "jd \<le> 536000000" using assms by (simp_all add: abs_le_iff)
  define a where "a = jd + 32044"
  define b where "b = century_of a"
  define c where "c = in_century a"
  define d where "d = year_of c"
  define e where "e = day_of c"
  define m where "m = month_of e"
  note t = march_terms [of a, folded b_def, folded c_def, folded d_def, folded e_def]
  have b: "- 14677 \<le> b" "b \<le> 14677" using t(1,2) jd by (simp_all add: a_def)
  have m: "0 \<le> m" "m \<le> 11" using day_of_month [OF t(8,9)] by (simp_all add: m_def)
  have m10: "0 \<le> m div 10" "m div 10 \<le> 1" using m by simp_all
  have m5: "0 \<le> (153 * m + 2) div 5" "(153 * m + 2) div 5 \<le> 337" using m by simp_all
  have fa: "i32 (jd + 32044) = a" using jd by (simp add: a_def i32_ident)
  have fb: "FloorDiv (i32 (4 * a + 3)) 146097 = b"
    using jd by (simp add: b_def century_of_def a_def i32_ident FloorDiv_div)
  have ib: "i32 (146097 * b) = 146097 * b" using b by (simp add: i32_ident)
  have "FloorDiv (i32 (146097 * b)) 4 = (146097 * b) div 4" unfolding ib by (rule FloorDiv_div) (use b in simp_all)
  then have fc: "i32 (a - FloorDiv (i32 (146097 * b)) 4) = c"
    using t(3,4) by (simp add: c_def b_def in_century_def i32_ident)
  have fd: "FloorDiv (i32 (4 * c + 3)) 1461 = d" using t(3,4) by (simp add: d_def year_of_def i32_ident FloorDiv_div)
  have fe: "i32 (c - FloorDiv (i32 (1461 * d)) 4) = e"
    using t(6-9) by (simp add: e_def d_def day_of_def i32_ident FloorDiv_div)
  have fm: "FloorDiv (i32 (5 * e + 2)) 153 = m" using t(8,9) by (simp add: m_def month_of_def i32_ident FloorDiv_div)
  have f5: "FloorDiv (i32 (153 * m + 2)) 5 = (153 * m + 2) div 5" "FloorDiv m 10 = m div 10"
    using m by (simp_all add: i32_ident FloorDiv_div)
  let ?y = "100 * b + d - 4800 + m div 10"
  have fy: "i32 (e - (153 * m + 2) div 5 + 1) = e - (153 * m + 2) div 5 + 1" "i32 (m + 3 - 12 * (m div 10)) = m + 3 - 12 * (m div 10)"
    "i32 ?y = ?y" "i32 (?y - 1) = ?y - 1"
    by (rule i32_ident; use t(6-9) m m5 m10 b in linarith)+
  have cal: "calendar_date jd = (civil ?y, m + 3 - 12 * (m div 10), e - (153 * m + 2) div 5 + 1)"
    unfolding calendar_date_def a_def [symmetric] march_of_def Let_def c_def [symmetric] b_def [symmetric] d_def [symmetric]
      e_def [symmetric] m_def [symmetric] from_march_def prod.case by (simp add: algebra_simps)
  show "JdToYmd jd = calendar_date jd"
    unfolding JdToYmd_def Let_def fa fb fc fd fe fm f5 fy cal by (simp only: civil_def)
  show "\<bar>fst (calendar_date jd)\<bar> \<le> 1500000"
    unfolding cal fst_conv civil_def using b t(6,7) m10 by simp
qed

lemma IsLeapYear_leap: "year \<noteq> 0 \<Longrightarrow> IsLeapYear year \<longleftrightarrow> leap (astro year)"
  by (auto simp: IsLeapYear_def leap_def astro_def Let_def smod_zero)

lemma leap_4800: "leap (y + 4800) \<longleftrightarrow> leap y"
proof -
  have "(y + 4800) mod 4 = y mod 4" "(y + 4800) mod 100 = y mod 100" "(y + 4800) mod 400 = y mod 400"
    using mod_mult_self1 [of y 1200 4] mod_mult_self1 [of y 48 100] mod_mult_self1 [of y 12 400] by simp_all
  then show ?thesis by (simp add: leap_def)
qed

lemma month_range: "DaysInMonth month \<noteq> 0 \<longleftrightarrow> 1 \<le> month \<and> month \<le> 12"
proof (cases "1 \<le> month \<and> month \<le> 12")
  case True
  then have "0 \<le> month - 1" "month - 1 \<le> 11" by simp_all
  from month_cases [OF this] show ?thesis using True by (elim disjE; simp add: DaysInMonth_def)
qed (auto simp: DaysInMonth_def)

lemma month_12: "1 \<le> month \<Longrightarrow> month \<le> 12 \<Longrightarrow>
    month = 1 \<or> month = 2 \<or> month = 3 \<or> month = 4 \<or> month = 5 \<or> month = 6 \<or> month = 7 \<or> month = 8 \<or>
    month = 9 \<or> month = 10 \<or> month = 11 \<or> month = (12 :: int)"
  using month_cases [of "month - 1"] by auto

lemma to_march_valid:
  assumes "date_IsValid year month day" "to_march year month day = (y, m, d)"
  shows "march_valid y m d" "from_march (y, m, d) = (year, month, day)"
proof -
  have nz: "year \<noteq> 0" and d1: "1 \<le> day" using assms(1) by (simp_all add: date_IsValid_def)
  have "1 \<le> month \<and> month \<le> 12" using assms(1) month_range [of month] by (auto simp: date_IsValid_def)
  then have m: "1 \<le> month" "month \<le> 12" by simp_all
  have lp: "leap (astro year + 4800) \<longleftrightarrow> IsLeapYear year" using IsLeapYear_leap [OF nz] leap_4800 by simp
  have y: "y = astro year + 4800 - (14 - month) div 12" using assms(2) by (simp add: to_march_def)
  have lp: "leap (y + 1) \<longleftrightarrow> IsLeapYear year" if "month \<le> 2"
  proof -
    have "month = 1 \<or> month = 2" using m that by auto
    then have "y + 1 = astro year + 4800" unfolding y by auto
    then show ?thesis using lp by (simp only:)
  qed
  have v: "day \<le> DaysInMonth month \<or> (day = 29 \<and> month = 2 \<and> IsLeapYear year)" using assms(1) by (simp add: date_IsValid_def)
  show "march_valid y m d"
    using month_12 [OF m] v d1 assms(2) lp
    by (elim disjE; auto simp: to_march_def march_valid_def march_days_def DaysInMonth_def)
  show "from_march (y, m, d) = (year, month, day)"
    using month_12 [OF m] assms(2) civil_astro [OF nz]
    by (elim disjE; auto simp: to_march_def from_march_def)
qed

lemma from_march_valid:
  assumes "march_valid y m d" "from_march (y, m, d) = (year, month, day)"
  shows "date_IsValid year month day" "to_march year month day = (y, m, d)"
proof -
  have v: "0 \<le> m" "m \<le> 11" "1 \<le> d" "d \<le> march_days y m" using assms(1) by (simp_all add: march_valid_def)
  have yr: "year = civil (y - 4800 + m div 10)" and mo: "month = m + 3 - 12 * (m div 10)" "day = d"
    using assms(2) by (simp_all add: from_march_def)
  have lp: "IsLeapYear (civil (y - 4799)) \<longleftrightarrow> leap (y + 1)"
    using IsLeapYear_leap [of "civil (y - 4799)"] leap_4800 [of "y - 4799"] by (simp add: add.commute)
  have "civil (y - 4800 + m div 10) \<noteq> 0" by simp
  then show "date_IsValid year month day"
    using month_cases [OF v(1,2)] v(3,4) lp unfolding yr mo
    by (elim disjE; auto simp: march_days_def date_IsValid_def DaysInMonth_def split: if_splits)
  show "to_march year month day = (y, m, d)"
    using month_cases [OF v(1,2)] unfolding yr mo by (elim disjE; simp add: to_march_def)
qed

text \<open>The day after, as a calendar has it.\<close>

definition next_day :: "int \<times> int \<times> int \<Rightarrow> int \<times> int \<times> int" where
  "next_day = (\<lambda>(year, month, day).
     if day < (if month = 2 \<and> IsLeapYear year then 29 else DaysInMonth month) then (year, month, day + 1)
     else if month < 12 then (year, month + 1, 1)
     else (if year = -1 then 1 else year + 1, 1, 1))"

lemma next_day_march:
  assumes "march_valid y m d"
  shows "from_march (march_next y m d) = next_day (from_march (y, m, d))"
proof -
  have v: "0 \<le> m" "m \<le> 11" "1 \<le> d" "d \<le> march_days y m" using assms(1) by (simp_all add: march_valid_def)
  have lp: "IsLeapYear (civil (y - 4799)) \<longleftrightarrow> leap (y + 1)"
    using IsLeapYear_leap [of "civil (y - 4799)"] leap_4800 [of "y - 4799"] by (simp add: add.commute)
  have c1: "civil (t + 1) = (if civil t = -1 then 1 else civil t + 1)" for t by (simp add: civil_def)
  show ?thesis
    using month_cases [OF v(1,2)] v(3,4) lp c1 [of "y - 4800"]
    by (elim disjE; simp add: march_next_def march_days_def from_march_def next_day_def DaysInMonth_def)
qed

lemma julian_calendar:
  "calendar_date jd = (year, month, day) \<longleftrightarrow> date_IsValid year month day \<and> julian_day year month day = jd"
proof
  assume jd: "calendar_date jd = (year, month, day)"
  obtain y m d where ymd: "march_of (jd + 32044) = (y, m, d)" by (metis prod_cases3)
  have f: "from_march (y, m, d) = (year, month, day)" using jd ymd by (simp add: calendar_date_def)
  note v = from_march_valid [OF day_index_march_of(1) [OF ymd] f]
  show "date_IsValid year month day \<and> julian_day year month day = jd"
    using v day_index_march_of(2) [OF ymd] by (simp add: julian_day_def)
next
  assume a: "date_IsValid year month day \<and> julian_day year month day = jd"
  obtain y m d where ymd: "to_march year month day = (y, m, d)" by (metis prod_cases3)
  note v = to_march_valid [OF _ ymd]
  have "jd + 32044 = day_index y m d" using a ymd by (auto simp: julian_day_def)
  then show "calendar_date jd = (year, month, day)"
    using march_of_day_index v a by (simp add: calendar_date_def)
qed

lemma date_valid_range:
  assumes "date_IsValid year month day"
  shows "1 \<le> month" "month \<le> 12" "1 \<le> day" "day \<le> 31"
proof -
  show m: "1 \<le> month" "month \<le> 12" "1 \<le> day" using assms month_range [of month] by (auto simp: date_IsValid_def)
  show "day \<le> 31" using month_12 [OF m(1,2)] assms by (elim disjE; simp add: date_IsValid_def DaysInMonth_def) auto
qed

lemma YmdToJd_valid:
  "date_IsValid year month day \<Longrightarrow> \<bar>year\<bar> \<le> 5800000 \<Longrightarrow> YmdToJd year month day = julian_day year month day"
  by (rule YmdToJd_julian) (simp_all add: date_valid_range)

lemma julian_day_bound:
  assumes "date_IsValid year month day" "\<bar>year\<bar> \<le> 1460000"
  shows "\<bar>julian_day year month day\<bar> \<le> 536000000"
proof -
  note v = date_valid_range [OF assms(1)]
  let ?a = "(14 - month) div 12"
  let ?y = "astro year + 4800 - ?a" and ?m = "month + 12 * ?a - 3"
  have year: "- 1460000 \<le> year" "year \<le> 1460000" using assms(2) by (simp_all add: abs_le_iff)
  have a: "?a = (if month \<le> 2 then 1 else 0)" using month_cases [of "month - 1"] v by auto
  have y: "- 1456000 \<le> ?y" "?y \<le> 1464801" using year by (simp_all add: astro_def a)
  have m: "0 \<le> ?m" "?m \<le> 11" using v by (simp_all add: a)
  have "julian_day year month day =
      day + (153 * ?m + 2) div 5 + 365 * ?y + ?y div 4 - ?y div 100 + ?y div 400 - 32045"
    by (simp add: julian_day_def to_march_def day_index_def year_start_def)
  note j = this
  have "- 536000000 \<le> julian_day year month day" "julian_day year month day \<le> 536000000"
    unfolding j using y by (intro day_sum_bound [of 1464804 _ _ _ 536000000, OF _ _ m v(3,4)]; simp)+
  then show ?thesis by (simp add: abs_le_iff)
qed

section \<open>Properties\<close>

text \<open>
  C32: Julian days and calendar dates correspond one to one, where the code's 32-bit arithmetic does not overflow:
  for Julian days up to 536 million either way (the dates of those are in the years up to 1.5 million) and years up
  to 5.8 million. A date is then valid and has Julian day \<open>jd\<close> exactly when \<open>jd\<close> converts to it: both round trips,
  every such Julian day gives a valid date, and two valid dates with the same day are equal, in the years before 1
  and after as well; and the valid dates of all years up to 1.46 million have Julian days in that range.
\<close>

theorem date_julian_day:
  assumes "\<bar>jd\<bar> \<le> 536000000" "\<bar>year\<bar> \<le> 5800000"
  shows "(JdToYmd jd = (year, month, day) \<longleftrightarrow> date_IsValid year month day \<and> YmdToJd year month day = jd) \<and>
    \<bar>fst (JdToYmd jd)\<bar> \<le> 1500000 \<and>
    (date_IsValid year month day \<and> \<bar>year\<bar> \<le> 1460000 \<longrightarrow> \<bar>YmdToJd year month day\<bar> \<le> 536000000)"
  using JdToYmd_calendar [OF assms(1)] julian_calendar [of jd year month day] julian_day_bound [of year month day]
    YmdToJd_valid [OF _ assms(2), of month day] by auto

theorem date_julian_day_witness: "JdToYmd 2440588 = (1970, 1, 1)"
proof -
  have "date_IsValid 1970 1 1 \<and> YmdToJd 1970 1 1 = 2440588" by code_simp
  then show ?thesis using date_julian_day [of 2440588 1970 1 1] by simp
qed

text \<open>
  Consecutive Julian days are consecutive days of the calendar. The date of \<open>jd + 1\<close> is the day after the
  date of \<open>jd\<close>, over the ends of months, of leap years and of the year before year 1, the week day moves on
  by one, and day 2440588 is the 1st of January 1970, a Thursday; so the conversion is the Gregorian calendar,
  within the bounds of the previous property.
\<close>

theorem date_next_day:
  assumes "\<bar>jd\<bar> \<le> 536000000" "\<bar>jd + 1\<bar> \<le> 536000000"
  shows "JdToYmd (jd + 1) = next_day (JdToYmd jd) \<and> JdToYmd 2440588 = (1970, 1, 1) \<and> DayOfWeek 2440588 = 4 \<and>
   (\<not> date_IsInvalid jd \<and> \<not> date_IsInvalid (jd + 1) \<longrightarrow>
     DayOfWeek (jd + 1) = (if DayOfWeek jd = 7 then 1 else DayOfWeek jd + 1))"
proof -
  obtain y m d where ymd: "march_of (jd + 32044) = (y, m, d)" by (metis prod_cases3)
  note v = day_index_march_of [OF ymd]
  obtain y' m' d' where n: "march_next y m d = (y', m', d')" by (metis prod_cases3)
  note nv = march_next_index [OF v(1) n]
  have "march_of (jd + 1 + 32044) = (y', m', d')"
    using march_of_day_index [OF nv(1)] nv(2) v(2) by (simp add: add.commute add.left_commute)
  then have "JdToYmd (jd + 1) = next_day (JdToYmd jd)"
    using next_day_march [OF v(1)] ymd n JdToYmd_calendar(1) [OF assms(1)] JdToYmd_calendar(1) [OF assms(2)]
    by (simp add: calendar_date_def)
  moreover have "JdToYmd 2440588 = (1970, 1, 1)" by code_simp
  moreover have "DayOfWeek 2440588 = 4" by code_simp
  moreover have "DayOfWeek (jd + 1) = (if DayOfWeek jd = 7 then 1 else DayOfWeek jd + 1)"
    if "\<not> date_IsInvalid jd" "\<not> date_IsInvalid (jd + 1)"
  proof (cases "jd < - 1")
    case True
    let ?s = "(- (jd + 1)) mod 7"
    have w: "DayOfWeek jd = 7 - ?s" using that True by (simp add: DayOfWeek_def signed_modulo_int_def sgn_if)
    show ?thesis
    proof (cases "jd = - 2")
      case False
      have "DayOfWeek (jd + 1) = 7 - (- (jd + 2)) mod 7"
        using that True False by (simp add: DayOfWeek_def signed_modulo_int_def sgn_if add.commute)
      moreover have "- (jd + 1) = - (jd + 2) + 1" by simp
      then have "?s = (if (- (jd + 2)) mod 7 + 1 = 7 then 0 else (- (jd + 2)) mod 7 + 1)"
        by (simp only: mod_step zero_less_numeral)
      moreover have "0 \<le> (- (jd + 2)) mod 7" by simp
      ultimately show ?thesis using w by (auto split: if_splits)
    qed (use that in \<open>simp add: DayOfWeek_def signed_modulo_int_def\<close>)
  next
    case False
    show ?thesis
    proof (cases "jd = - 1")
      case False
      then have jd: "0 \<le> jd" using \<open>\<not> jd < - 1\<close> by simp
      have "(jd + 1) mod 7 = (if jd mod 7 = 6 then 0 else jd mod 7 + 1)" using mod_step [of 7 jd] by simp
      then show ?thesis using that jd by (simp add: DayOfWeek_def smod_nonneg)
    qed (use that in \<open>simp add: DayOfWeek_def\<close>)
  qed
  ultimately show ?thesis by blast
qed

lemma date_next_day_witness: "JdToYmd 2440589 = (1970, 1, 2) \<and> DayOfWeek 2440589 = 5"
  using date_next_day [of 2440588] by (simp add: next_day_def DaysInMonth_def date_IsInvalid_def DATE_JD_INVALID_def)

end
