(* ===== verification/Rtc.thy ===== *)
theory Rtc
  imports DateTime KernelErrors
begin

text \<open>
  The real-time clock library, src/src/libs/libRtc.cpp: clock values of six fields and a microsecond,
  ticks of a microsecond since the first day of year 1, and conversions between them, to seconds of the
  Unix epoch, to Windows file times and to RFC 3339 text. Values are \<open>int\<close>; \<open>w64\<close> is the unsigned
  64-bit result where it can wrap. A null pointer is \<open>None\<close>; an operation with an output pointer returns
  its code and what the pointer then points at.
\<close>

section \<open>Clock values\<close>

named_theorems rtc_errors

definition RTC_ERROR_DATETIME_UNINITIALIZED :: int where [rtc_errors]: "RTC_ERROR_DATETIME_UNINITIALIZED = 0x7ffef9fe"
definition RTC_ERROR_INVALID_POINTER :: int where [rtc_errors]: "RTC_ERROR_INVALID_POINTER = -2135621630"
definition RTC_ERROR_INVALID_VALUE :: int where [rtc_errors]: "RTC_ERROR_INVALID_VALUE = -2135621629"
definition RTC_ERROR_INVALID_YEAR :: int where [rtc_errors]: "RTC_ERROR_INVALID_YEAR = -2135621624"
definition RTC_ERROR_INVALID_MONTH :: int where [rtc_errors]: "RTC_ERROR_INVALID_MONTH = -2135621623"
definition RTC_ERROR_INVALID_DAY :: int where [rtc_errors]: "RTC_ERROR_INVALID_DAY = -2135621622"
definition RTC_ERROR_INVALID_HOUR :: int where [rtc_errors]: "RTC_ERROR_INVALID_HOUR = -2135621621"
definition RTC_ERROR_INVALID_MINUTE :: int where [rtc_errors]: "RTC_ERROR_INVALID_MINUTE = -2135621620"
definition RTC_ERROR_INVALID_SECOND :: int where [rtc_errors]: "RTC_ERROR_INVALID_SECOND = -2135621619"
definition RTC_ERROR_INVALID_MICROSECOND :: int where [rtc_errors]: "RTC_ERROR_INVALID_MICROSECOND = -2135621618"

definition RTC_UNIX_EPOCH_TICKS :: int where
  "RTC_UNIX_EPOCH_TICKS = 0xdcbffeff2bc000"

definition RTC_WIN32_FILETIME_EPOCH_TICKS :: int where
  "RTC_WIN32_FILETIME_EPOCH_TICKS = 0xb36168b6a58000"

definition u64_max :: int where
  "u64_max = 18446744073709551615"

definition w64 :: "int \<Rightarrow> int" where
  "w64 x = x mod 18446744073709551616"

definition w16 :: "int \<Rightarrow> int" where
  "w16 x = x mod 65536"

record rtc_time =
  rt_year :: int
  rt_month :: int
  rt_day :: int
  rt_hour :: int
  rt_minute :: int
  rt_second :: int
  rt_microsecond :: int

definition RtcCheckValid :: "rtc_time option \<Rightarrow> int" where
  "RtcCheckValid time =
     (case time of
        None \<Rightarrow> RTC_ERROR_INVALID_POINTER
      | Some t \<Rightarrow>
          if rt_year t = 0 \<or> rt_year t > 9999 then RTC_ERROR_INVALID_YEAR
          else if rt_month t = 0 \<or> rt_month t > 12 then RTC_ERROR_INVALID_MONTH
          else if rt_day t = 0 \<or> \<not> date_IsValid (rt_year t) (rt_month t) (rt_day t) then RTC_ERROR_INVALID_DAY
          else if rt_hour t \<ge> 24 then RTC_ERROR_INVALID_HOUR
          else if rt_minute t \<ge> 60 then RTC_ERROR_INVALID_MINUTE
          else if rt_second t \<ge> 60 then RTC_ERROR_INVALID_SECOND
          else if rt_microsecond t \<ge> 1000000 then RTC_ERROR_INVALID_MICROSECOND
          else OK)"

definition GetDaysInMonth :: "int \<Rightarrow> int \<Rightarrow> int" where
  "GetDaysInMonth year month =
     (if year \<le> 0 \<or> year > 9999 then RTC_ERROR_INVALID_YEAR
      else if month \<le> 0 \<or> month > 12 then RTC_ERROR_INVALID_MONTH
      else if month = 2 \<and> IsLeapYear year then 29
      else DaysInMonth month)"

definition RtcIsLeapYear :: "int \<Rightarrow> int" where
  "RtcIsLeapYear year =
     (if year \<le> 0 \<or> year > 9999 then RTC_ERROR_INVALID_YEAR else if IsLeapYear year then 1 else 0)"

definition RtcGetDayOfWeek :: "int \<Rightarrow> int \<Rightarrow> int \<Rightarrow> int" where
  "RtcGetDayOfWeek year month day =
     (let days = GetDaysInMonth year month
      in if days < 0 then days
         else if day \<le> 0 \<or> day > days then RTC_ERROR_INVALID_DAY
         else let dow = DayOfWeek (date_Set year month day) in if dow = 7 then 0 else dow)"

definition RtcGetDaysInMonth :: "int \<Rightarrow> int \<Rightarrow> int" where
  "RtcGetDaysInMonth year month = GetDaysInMonth year month"

definition RtcGetTickResolution :: int where
  "RtcGetTickResolution = 1000000"

text \<open>The casts to the fields' widths are those of an invalid \<open>now\<close> as well.\<close>

definition RtcGetCurrentClockLocalTime :: "rtc_time option \<Rightarrow> date_time \<Rightarrow> int \<times> rtc_time option" where
  "RtcGetCurrentClockLocalTime time now =
     (case time of
        None \<Rightarrow> (RTC_ERROR_DATETIME_UNINITIALIZED, None)
      | Some _ \<Rightarrow>
          let date = dt_date now; tod = dt_time now
          in (OK, Some \<lparr>rt_year = w16 (Year date), rt_month = w16 (Month date), rt_day = w16 (Day date),
                        rt_hour = w16 (Hour24 tod), rt_minute = w16 (Minute tod), rt_second = w16 (Second tod),
                        rt_microsecond = (Msec tod * 1000) mod 4294967296\<rparr>))"

section \<open>Ticks\<close>

text \<open>The date of a day number, counted from the first day of year 1.\<close>

definition tick_date :: "int \<Rightarrow> int \<times> int \<times> int" where
  "tick_date days0 =
     (let days = days0 + 307;
          j = 4 * days - 1;
          ly = j div 146097;
          j = j - 146097 * ly;
          ld = j div 4;
          j = (4 * ld + 3) div 1461;
          ld = ((4 * ld + 7) - 1461 * j) div 4;
          lm = (5 * ld - 3) div 153;
          ld = (5 * ld + 2 - 153 * lm) div 5;
          ly = 100 * ly + j
      in if lm < 10 then (ly, lm + 3, ld) else (ly + 1, lm - 9, ld))"

definition RtcSetTick :: "rtc_time option \<Rightarrow> int option \<Rightarrow> int \<times> rtc_time option" where
  "RtcSetTick time tick =
     (case (time, tick) of
        (Some t, Some n) \<Rightarrow>
          (let usec = n mod 86400000000;
               (ly, lm, ld) = tick_date (n div 86400000000)
           in if ly = 0 \<or> ly > 9999 then (RTC_ERROR_INVALID_VALUE, Some t)
              else let t = \<lparr>rt_year = w16 ly, rt_month = w16 lm, rt_day = w16 ld,
                            rt_hour = usec div 3600000000,
                            rt_minute = (usec mod 3600000000) div 60000000,
                            rt_second = (usec mod 3600000000 mod 60000000) div 1000000,
                            rt_microsecond = usec mod 3600000000 mod 60000000 mod 1000000\<rparr>
                   in (RtcCheckValid (Some t), Some t))
      | _ \<Rightarrow> (RTC_ERROR_INVALID_POINTER, time))"

definition time_days :: "rtc_time \<Rightarrow> int" where
  "time_days t =
     (let (year, month) = (if rt_month t > 2 then (rt_year t, rt_month t - 3) else (rt_year t - 1, rt_month t + 9));
          c = year div 100;
          ya = year - 100 * c
      in (146097 * c) div 4 + (1461 * ya) div 4 + (153 * month + 2) div 5 + rt_day t - 307)"

definition time_usec :: "rtc_time \<Rightarrow> int" where
  "time_usec t = rt_hour t * 3600000000 + rt_minute t * 60000000 + rt_second t * 1000000 + rt_microsecond t"

definition RtcGetTick :: "rtc_time option \<Rightarrow> int option \<Rightarrow> int \<times> int option" where
  "RtcGetTick time tick =
     (case (time, tick) of
        (Some t, Some n) \<Rightarrow>
          (let valid = RtcCheckValid (Some t)
           in if valid \<noteq> OK then (valid, Some n)
              else (OK, Some (w64 (time_days t * 86400000000 + time_usec t))))
      | _ \<Rightarrow> (RTC_ERROR_INVALID_POINTER, tick))"

text \<open>\<open>now_us\<close> is the host's clock; the network tick is the same.\<close>

definition RtcGetCurrentTick :: "int \<Rightarrow> int option \<Rightarrow> int \<times> int option" where
  "RtcGetCurrentTick now_us tick =
     (case tick of
        None \<Rightarrow> (RTC_ERROR_DATETIME_UNINITIALIZED, None)
      | Some _ \<Rightarrow> (OK, Some (w64 (RTC_UNIX_EPOCH_TICKS + now_us))))"

definition RtcGetCurrentNetworkTick :: "int \<Rightarrow> int option \<Rightarrow> int \<times> int option" where
  "RtcGetCurrentNetworkTick = RtcGetCurrentTick"

definition RtcGetCurrentClock :: "int \<Rightarrow> rtc_time option \<Rightarrow> int \<Rightarrow> int \<times> rtc_time option" where
  "RtcGetCurrentClock now_us time time_zone_minutes =
     (case time of
        None \<Rightarrow> (RTC_ERROR_DATETIME_UNINITIALIZED, None)
      | Some t \<Rightarrow>
          (case RtcGetCurrentTick now_us (Some 0) of
             (ret, tick) \<Rightarrow>
               if ret \<noteq> OK then (ret, Some t)
               else RtcSetTick (Some t) (map_option (\<lambda>n. w64 (n + time_zone_minutes * 60000000)) tick)))"

definition RtcConvertUtcToLocalTime :: "int option \<Rightarrow> int option \<Rightarrow> int \<times> int option" where
  "RtcConvertUtcToLocalTime utc local_time =
     (if utc = None \<or> local_time = None then (RTC_ERROR_INVALID_POINTER, local_time) else (OK, utc))"

definition RtcConvertLocalTimeToUtc :: "int option \<Rightarrow> int option \<Rightarrow> int \<times> int option" where
  "RtcConvertLocalTimeToUtc local_time utc =
     (if local_time = None \<or> utc = None then (RTC_ERROR_INVALID_POINTER, utc) else (OK, local_time))"

definition RtcGetTime_t :: "rtc_time option \<Rightarrow> int option \<Rightarrow> int \<times> int option" where
  "RtcGetTime_t time seconds =
     (if time = None \<or> seconds = None then (RTC_ERROR_INVALID_POINTER, seconds)
      else case RtcGetTick time (Some 0) of
             (ret, tick) \<Rightarrow>
               if ret \<noteq> OK then (ret, seconds)
               else (OK, map_option (\<lambda>n. if n < RTC_UNIX_EPOCH_TICKS then 0
                                         else (n - RTC_UNIX_EPOCH_TICKS) div 1000000) tick))"

definition RtcGetWin32FileTime :: "rtc_time option \<Rightarrow> int option \<Rightarrow> int \<times> int option" where
  "RtcGetWin32FileTime time win32_time =
     (if time = None \<or> win32_time = None then (RTC_ERROR_INVALID_POINTER, win32_time)
      else case RtcGetTick time (Some 0) of
             (ret, tick) \<Rightarrow>
               if ret \<noteq> OK then (ret, win32_time)
               else (OK, map_option (\<lambda>n. if n < RTC_WIN32_FILETIME_EPOCH_TICKS then 0
                                         else w64 ((n - RTC_WIN32_FILETIME_EPOCH_TICKS) * 10)) tick))"

definition RtcSetWin32FileTime :: "rtc_time option \<Rightarrow> int \<Rightarrow> int \<times> rtc_time option" where
  "RtcSetWin32FileTime time win32_time =
     (if time = None then (RTC_ERROR_INVALID_POINTER, None)
      else if win32_time div 10 > u64_max - RTC_WIN32_FILETIME_EPOCH_TICKS then (RTC_ERROR_INVALID_VALUE, time)
      else RtcSetTick time (Some (win32_time div 10 + RTC_WIN32_FILETIME_EPOCH_TICKS)))"

definition RtcSetTime_t :: "rtc_time option \<Rightarrow> int \<Rightarrow> int \<times> rtc_time option" where
  "RtcSetTime_t time seconds =
     (if time = None then (RTC_ERROR_INVALID_POINTER, None)
      else if seconds < 0 then (RTC_ERROR_INVALID_VALUE, time)
      else if seconds > (u64_max - RTC_UNIX_EPOCH_TICKS) div 1000000 then (RTC_ERROR_INVALID_VALUE, time)
      else RtcSetTick time (Some (seconds * 1000000 + RTC_UNIX_EPOCH_TICKS)))"

definition RtcTickAddTicks :: "int option \<Rightarrow> int option \<Rightarrow> int \<Rightarrow> int \<times> int option" where
  "RtcTickAddTicks dst src ticks =
     (case (dst, src) of
        (Some _, Some n) \<Rightarrow> (OK, Some (w64 (n + ticks)))
      | _ \<Rightarrow> (RTC_ERROR_INVALID_POINTER, dst))"

definition RtcTickAddMicroseconds :: "int option \<Rightarrow> int option \<Rightarrow> int \<Rightarrow> int \<times> int option" where
  "RtcTickAddMicroseconds dst src usec = RtcTickAddTicks dst src usec"

definition RtcTickAddSeconds :: "int option \<Rightarrow> int option \<Rightarrow> int \<Rightarrow> int \<times> int option" where
  "RtcTickAddSeconds dst src seconds = RtcTickAddTicks dst src (i64 (seconds * 1000000))"

definition RtcTickAddMinutes :: "int option \<Rightarrow> int option \<Rightarrow> int \<Rightarrow> int \<times> int option" where
  "RtcTickAddMinutes dst src minutes = RtcTickAddTicks dst src (i64 (minutes * 60000000))"

definition RtcTickAddHours :: "int option \<Rightarrow> int option \<Rightarrow> int \<Rightarrow> int \<times> int option" where
  "RtcTickAddHours dst src hours = RtcTickAddTicks dst src (i64 (hours * 3600000000))"

definition RtcTickAddDays :: "int option \<Rightarrow> int option \<Rightarrow> int \<Rightarrow> int \<times> int option" where
  "RtcTickAddDays dst src days = RtcTickAddTicks dst src (i64 (days * 86400000000))"

definition RtcTickAddWeeks :: "int option \<Rightarrow> int option \<Rightarrow> int \<Rightarrow> int \<times> int option" where
  "RtcTickAddWeeks dst src weeks = RtcTickAddTicks dst src (i64 (weeks * 604800000000))"

section \<open>Text\<close>

definition zone_text :: "int \<Rightarrow> string" where
  "zone_text time_zone_minutes =
     (if time_zone_minutes = 0 then ''Z''
      else let sign = (if time_zone_minutes < 0 then CHR ''-'' else CHR ''+'');
               minutes = (if time_zone_minutes < 0 then i32 (- time_zone_minutes) else time_zone_minutes)
           in take 7 (sign # fmt_int 2 (minutes sdiv 60) @ '':'' @ fmt_int 2 (minutes smod 60)))"

definition rfc3339_text :: "rtc_time \<Rightarrow> string \<Rightarrow> string" where
  "rfc3339_text t zone =
     take 31 (fmt_int 4 (rt_year t) @ ''-'' @ fmt_int 2 (rt_month t) @ ''-'' @ fmt_int 2 (rt_day t) @ ''T'' @
       fmt_int 2 (rt_hour t) @ '':'' @ fmt_int 2 (rt_minute t) @ '':'' @ fmt_int 2 (rt_second t) @ ''.'' @
       fmt_int 2 (rt_microsecond t div 10000) @ zone)"

text \<open>The result is the code and the text written, \<open>None\<close> when none is.\<close>

definition RtcFormatRFC3339 :: "int \<Rightarrow> bool \<Rightarrow> int option \<Rightarrow> int \<Rightarrow> int \<times> string option" where
  "RtcFormatRFC3339 now_us date_time_is_null utc time_zone_minutes =
     (if date_time_is_null then (RTC_ERROR_INVALID_POINTER, None)
      else let (ret, tick) = (case utc of None \<Rightarrow> RtcGetCurrentTick now_us (Some 0) | Some n \<Rightarrow> (OK, Some n))
           in if ret \<noteq> OK then (ret, None)
              else let n = the tick; offset_ticks = time_zone_minutes * 60000000
                   in if offset_ticks < 0 \<and> n < - offset_ticks then (RTC_ERROR_INVALID_VALUE, None)
                      else case RtcSetTick (Some \<lparr>rt_year = 0, rt_month = 0, rt_day = 0, rt_hour = 0, rt_minute = 0,
                                                   rt_second = 0, rt_microsecond = 0\<rparr>) (Some (w64 (n + offset_ticks))) of
                             (ret, time) \<Rightarrow>
                               if ret \<noteq> OK then (ret, None)
                               else (OK, Some (rfc3339_text (the time) (zone_text time_zone_minutes))))"

text \<open>
  \<open>sscanf\<close>: a conversion skips white space, takes a sign and digits, at most \<open>width\<close> characters, and fails
  without a digit; \<open>%hu\<close> stores the value of \<open>strtoul\<close> modulo \<open>2 ^ 16\<close>.
\<close>

definition scan_number :: "nat option \<Rightarrow> string \<Rightarrow> (int \<times> string) option" where
  "scan_number width s =
     (let s = dropWhile IsSpace s;
          field = (case width of None \<Rightarrow> s | Some w \<Rightarrow> take w s);
          signed1 = field \<noteq> [] \<and> (hd field = CHR ''-'' \<or> hd field = CHR ''+'');
          digits = takeWhile is_digit (if signed1 then tl field else field);
          v = int (digits_value 10 digits)
      in if digits = [] then None
         else Some (if signed1 \<and> hd field = CHR ''-'' then - v else v,
                    drop (length digits + (if signed1 then 1 else 0)) s))"

definition scan_hu :: "string \<Rightarrow> (int \<times> string) option" where
  "scan_hu s =
     map_option (\<lambda>(v, rest). (if \<bar>v\<bar> > u64_max then 65535 else w16 v, rest)) (scan_number None s)"

definition scan_char :: "char \<Rightarrow> string \<Rightarrow> string option" where
  "scan_char c s = (if s \<noteq> [] \<and> hd s = c then Some (tl s) else None)"

text \<open>A number and the literal character after it.\<close>

definition scan_field :: "char \<Rightarrow> string \<Rightarrow> (int \<times> string) option" where
  "scan_field c s =
     (case scan_hu s of
        None \<Rightarrow> None
      | Some (v, rest) \<Rightarrow> map_option (\<lambda>rest. (v, rest)) (scan_char c rest))"

definition scan_date_time :: "string \<Rightarrow> (rtc_time \<times> string) option" where
  "scan_date_time s =
     (case scan_field (CHR ''-'') s of None \<Rightarrow> None | Some (year, s) \<Rightarrow>
      case scan_field (CHR ''-'') s of None \<Rightarrow> None | Some (month, s) \<Rightarrow>
      case scan_field (CHR ''T'') s of None \<Rightarrow> None | Some (day, s) \<Rightarrow>
      case scan_field (CHR '':'') s of None \<Rightarrow> None | Some (hour, s) \<Rightarrow>
      case scan_field (CHR '':'') s of None \<Rightarrow> None | Some (minute, s) \<Rightarrow>
      case scan_hu s of None \<Rightarrow> None | Some (second, s) \<Rightarrow>
        Some (\<lparr>rt_year = year, rt_month = month, rt_day = day, rt_hour = hour, rt_minute = minute,
               rt_second = second, rt_microsecond = 0\<rparr>, s))"

text \<open>The fraction: six digits count, fewer are filled up with zeros, the others are skipped.\<close>

definition scan_fraction :: "string \<Rightarrow> int \<times> string" where
  "scan_fraction s =
     (let digits = takeWhile is_digit s; n = length digits
      in (int (digits_value 10 (take 6 digits)) * (if 0 < n \<and> n < 6 then 10 ^ (6 - n) else 1), drop n s))"

definition scan_zone :: "string \<Rightarrow> (int \<times> int) option" where
  "scan_zone s =
     (case scan_number (Some 2) s of None \<Rightarrow> None | Some (zone_hour, s) \<Rightarrow>
      case scan_char (CHR '':'') s of None \<Rightarrow> None | Some s \<Rightarrow>
      case scan_number (Some 2) s of None \<Rightarrow> None | Some (zone_min, s) \<Rightarrow> Some (zone_hour, zone_min))"

definition RtcParseRFC3339 :: "int option \<Rightarrow> string option \<Rightarrow> int \<times> int option" where
  "RtcParseRFC3339 utc date_time =
     (if utc = None \<or> date_time = None then (RTC_ERROR_INVALID_POINTER, utc)
      else case scan_date_time (the date_time) of
             None \<Rightarrow> (RTC_ERROR_INVALID_VALUE, utc)
           | Some (time, pos) \<Rightarrow>
               let (time, pos) = (if pos \<noteq> [] \<and> hd pos = CHR ''.''
                                  then let (microsecond, pos) = scan_fraction (tl pos)
                                       in (time\<lparr>rt_microsecond := microsecond\<rparr>, pos)
                                  else (time, pos));
                   (ret, utc) = RtcGetTick (Some time) utc
               in if ret \<noteq> OK then (ret, utc)
                  else if pos = [] \<or> hd pos = CHR ''Z'' then (OK, utc)
                  else if hd pos \<noteq> CHR ''+'' \<and> hd pos \<noteq> CHR ''-'' then (RTC_ERROR_INVALID_VALUE, utc)
                  else case scan_zone (tl pos) of
                         None \<Rightarrow> (RTC_ERROR_INVALID_VALUE, utc)
                       | Some (zone_hour, zone_min) \<Rightarrow>
                           let zone_minutes = zone_hour * 60 + zone_min;
                               zone_minutes = (if hd pos = CHR ''-'' then - zone_minutes else zone_minutes);
                               offset_ticks = zone_minutes * 60000000
                           in if offset_ticks > 0 \<and> the utc < offset_ticks then (RTC_ERROR_INVALID_VALUE, utc)
                              else (OK, Some (w64 (the utc - offset_ticks))))"

section \<open>Days\<close>

lemma mod5: "5 * (x div 5) = x - x mod (5 :: int)" "0 \<le> x mod (5 :: int)" "x mod (5 :: int) < 5"
  using minus_mod_eq_mult_div [of x 5] by simp_all

lemma tick_date_march:
  assumes "march_of (days + 306) = (y, m, d)"
  shows "tick_date days = (if m < 10 then (y, m + 3, d) else (y + 1, m - 9, d))"
proof -
  define a where "a = days + 306"
  define b where "b = century_of a"
  define c where "c = in_century a"
  define r where "r = year_of c"
  define e where "e = day_of c"
  have c4: "4 * c = 4 * a - 146097 * b + b mod 4"
    using mod4(1) [of b] by (simp add: c_def in_century_def b_def quarter_days)
  have e4: "4 * e = 4 * c - 1461 * r + r mod 4"
    using mod4(1) [of r] by (simp add: e_def day_of_def r_def quarter_days)
  have j: "4 * (days + 307) - 1 = 4 * a + 3" by (simp add: a_def)
  have ld: "(4 * a + 3 - 146097 * b) div 4 = c" using c4 mod4(2,3) [of b] by (intro div_is) linarith+
  have le: "(4 * c + 7 - 1461 * r) div 4 = e + 1"
  proof (rule div_is)
    show "(e + 1) * 4 \<le> 4 * c + 7 - 1461 * r" using e4 mod4(3) [of r] by (simp add: algebra_simps)
    show "4 * c + 7 - 1461 * r < (e + 1) * 4 + 4" using e4 mod4(2) [of r] by (simp add: algebra_simps)
  qed
  have lm: "(5 * (e + 1) - 3) div 153 = month_of e" by (simp add: month_of_def)
  have da: "(5 * (e + 1) + 2 - 153 * month_of e) div 5 = e - (153 * month_of e + 2) div 5 + 1"
  proof -
    define x where "x = 153 * month_of e + 2"
    define q where "q = x div 5"
    define k where "k = x mod 5"
    have q: "(153 * month_of e + 2) div 5 = q" "153 * month_of e = 5 * q + k - 2" "0 \<le> k" "k < 5"
      using mod5 [of x, folded q_def k_def] by (simp_all add: x_def [symmetric] q_def) (simp add: x_def)
    show ?thesis unfolding q(1) using q(2-4) by (intro div_is) (simp_all add: algebra_simps)
  qed
  have "march_of a = (100 * b + r, month_of e, e - (153 * month_of e + 2) div 5 + 1)"
    by (simp only: march_of_def Let_def b_def c_def r_def e_def)
  then have ymd: "y = 100 * b + r" "m = month_of e" "d = e - (153 * month_of e + 2) div 5 + 1"
    using assms by (auto simp: a_def)
  have "tick_date days = (if month_of e < 10 then (100 * b + r, month_of e + 3, e - (153 * month_of e + 2) div 5 + 1)
      else (100 * b + r + 1, month_of e - 9, e - (153 * month_of e + 2) div 5 + 1))"
    unfolding tick_date_def Let_def j b_def [symmetric, unfolded century_of_def] ld
      r_def [symmetric, unfolded year_of_def] le lm da by (rule refl)
  then show ?thesis by (simp only: ymd)
qed

text \<open>The year that starts in March, here without the 4800 years of the Julian day.\<close>

definition rtc_march :: "int \<Rightarrow> int \<Rightarrow> int \<times> int" where
  "rtc_march year month = (if month > 2 then (year, month - 3) else (year - 1, month + 9))"

lemma day_index_4800: "day_index (y + 4800) m d = day_index y m d + 1753164"
proof -
  have "(y + 4800) div 4 = y div 4 + 1200" "(y + 4800) div 100 = y div 100 + 48" "(y + 4800) div 400 = y div 400 + 12"
    using div_split [of 4 1200 y] div_split [of 100 48 y] div_split [of 400 12 y] by (simp_all add: add.commute)
  then show ?thesis by (simp add: day_index_def year_start_def)
qed

lemma march_valid_4800: "march_valid (y + 4800) m d \<longleftrightarrow> march_valid y m d"
proof -
  have "leap (y + 4800 + 1) \<longleftrightarrow> leap (y + 1)" using leap_4800 [of "y + 1"] by (simp add: add.commute add.left_commute)
  then have "march_days (y + 4800) m = march_days y m" by (simp only: march_days_def)
  then show ?thesis by (simp add: march_valid_def)
qed

lemma to_march_rtc:
  assumes "0 < year" "1 \<le> month" "month \<le> 12" "rtc_march year month = (y, m)"
  shows "to_march year month day = (y + 4800, m, day)"
  using month_12 [OF assms(2,3)] assms(1,4) by (elim disjE; auto simp: to_march_def rtc_march_def astro_def)

lemma time_days_index:
  assumes "rtc_march (rt_year t) (rt_month t) = (y, m)"
  shows "time_days t = day_index y m (rt_day t) - 306"
proof -
  have ym: "(if rt_month t > 2 then (rt_year t, rt_month t - 3) else (rt_year t - 1, rt_month t + 9)) = (y, m)"
    using assms by (simp add: rtc_march_def)
  have ya: "y - 100 * (y div 100) = y mod 100" by (simp add: minus_mult_div_eq_mod)
  have "year_start y = (146097 * (y div 100)) div 4 + (1461 * (y mod 100)) div 4"
    using year_start_split [of "y mod 100" "y div 100"] by (simp add: quarter_days)
  then show ?thesis unfolding time_days_def ym Let_def prod.case ya by (simp add: day_index_def)
qed

definition rtc_typed :: "rtc_time \<Rightarrow> bool" where
  "rtc_typed t \<longleftrightarrow>
     (\<forall>x\<in>{rt_year t, rt_month t, rt_day t, rt_hour t, rt_minute t, rt_second t}. 0 \<le> x \<and> x < 65536) \<and>
     0 \<le> rt_microsecond t \<and> rt_microsecond t < 4294967296"

definition rtc_valid :: "rtc_time \<Rightarrow> bool" where
  "rtc_valid t \<longleftrightarrow> 1 \<le> rt_year t \<and> rt_year t \<le> 9999 \<and> date_IsValid (rt_year t) (rt_month t) (rt_day t) \<and>
     0 \<le> rt_hour t \<and> rt_hour t < 24 \<and> 0 \<le> rt_minute t \<and> rt_minute t < 60 \<and>
     0 \<le> rt_second t \<and> rt_second t < 60 \<and> 0 \<le> rt_microsecond t \<and> rt_microsecond t < 1000000"

lemma RtcCheckValid_OK: "rtc_typed t \<Longrightarrow> RtcCheckValid (Some t) = OK \<longleftrightarrow> rtc_valid t"
  using date_valid_range [of "rt_year t" "rt_month t" "rt_day t"]
  by (auto simp: RtcCheckValid_def rtc_valid_def rtc_typed_def rtc_errors OK_def)

text \<open>A valid date in the terms of the calendar theory.\<close>

lemma rtc_valid_march:
  assumes "rtc_valid t" "rtc_march (rt_year t) (rt_month t) = (y, m)"
  shows "march_valid y m (rt_day t)" "time_days t = YmdToJd (rt_year t) (rt_month t) (rt_day t) - 1721426"
    "tick_date (time_days t) = (rt_year t, rt_month t, rt_day t)" "0 \<le> time_days t"
proof -
  have v: "date_IsValid (rt_year t) (rt_month t) (rt_day t)" "1 \<le> rt_year t" using assms(1) by (simp_all add: rtc_valid_def)
  note mo = date_valid_range [OF v(1)]
  have tm: "to_march (rt_year t) (rt_month t) (rt_day t) = (y + 4800, m, rt_day t)"
    by (rule to_march_rtc [OF _ mo(1,2) assms(2)]) (use v(2) in simp)
  show mv: "march_valid y m (rt_day t)" using to_march_valid(1) [OF v(1) tm] march_valid_4800 by simp
  show "time_days t = YmdToJd (rt_year t) (rt_month t) (rt_day t) - 1721426"
    using time_days_index [OF assms(2)] tm day_index_4800 YmdToJd_valid [OF v(1)] assms(1)
    by (simp add: julian_day_def rtc_valid_def)
  have "march_of (time_days t + 306) = (y, m, rt_day t)"
    using time_days_index [OF assms(2)] march_of_day_index [OF mv] by simp
  from tick_date_march [OF this] show "tick_date (time_days t) = (rt_year t, rt_month t, rt_day t)"
    using assms(2) mo by (auto simp: rtc_march_def split: if_splits)
  have y: "0 \<le> y" "y = 0 \<Longrightarrow> 10 \<le> m" using assms(2) v(2) mo by (auto simp: rtc_march_def split: if_splits)
  have D: "(153 * m + 2) div 5 \<ge> 306" if "10 \<le> m" using that zdiv_mono1 [of 1532 "153 * m + 2" 5] by simp
  have m0: "0 \<le> (153 * m + 2) div 5" using mv by (simp add: march_valid_def pos_imp_zdiv_nonneg_iff)
  have ys: "365 * y \<le> year_start y"
  proof -
    have "y div 100 \<le> y div 4" using zdiv_mono2 [of y 4 100] y(1) by simp
    moreover have "0 \<le> y div 400" using y(1) by simp
    ultimately show ?thesis by (simp add: year_start_def)
  qed
  show "0 \<le> time_days t"
  proof (cases "y = 0")
    case True
    then show ?thesis using time_days_index [OF assms(2)] D y(2) mo by (simp add: day_index_def year_start_def)
  next
    case False
    then have "365 \<le> year_start y" using ys y(1) by linarith
    then show ?thesis using time_days_index [OF assms(2)] m0 mo by (simp add: day_index_def)
  qed
qed

section \<open>Ticks and clock values\<close>

lemma time_usec_split:
  assumes "0 \<le> h" "0 \<le> mi" "mi < 60" "0 \<le> s" "s < 60" "0 \<le> us" "us < (1000000 :: int)"
    "usec = h * 3600000000 + mi * 60000000 + s * 1000000 + us"
  shows "usec div 3600000000 = h" "usec mod 3600000000 div 60000000 = mi"
    "usec mod 3600000000 mod 60000000 div 1000000 = s" "usec mod 3600000000 mod 60000000 mod 1000000 = us"
proof -
  have r3: "s * 1000000 + us < 60000000" "0 \<le> s * 1000000 + us" using assms by linarith+
  have r2: "mi * 60000000 + (s * 1000000 + us) < 3600000000" "0 \<le> mi * 60000000 + (s * 1000000 + us)"
    using assms r3 by linarith+
  have u: "usec = h * 3600000000 + (mi * 60000000 + (s * 1000000 + us))" using assms(8) by simp
  show "usec div 3600000000 = h" using r2 u by (intro div_is) linarith+
  have m1: "usec mod 3600000000 = mi * 60000000 + (s * 1000000 + us)"
    unfolding u mod_split by (rule mod_pos_pos_trivial [OF r2(2,1)])
  show "usec mod 3600000000 div 60000000 = mi" unfolding m1 using r3 by (intro div_is) linarith+
  have m2: "usec mod 3600000000 mod 60000000 = s * 1000000 + us"
    unfolding m1 mod_split by (rule mod_pos_pos_trivial [OF r3(2,1)])
  show "usec mod 3600000000 mod 60000000 div 1000000 = s" unfolding m2 using assms by (intro div_is) linarith+
  show "usec mod 3600000000 mod 60000000 mod 1000000 = us"
    unfolding m2 mod_split by (rule mod_pos_pos_trivial [OF assms(6,7)])
qed

lemma time_usec_join:
  assumes "0 \<le> usec" "usec < 86400000000"
  shows "usec div 3600000000 * 3600000000 + usec mod 3600000000 div 60000000 * 60000000 +
      usec mod 3600000000 mod 60000000 div 1000000 * 1000000 + usec mod 3600000000 mod 60000000 mod 1000000 = usec"
    "0 \<le> usec div 3600000000" "usec div 3600000000 < 24"
    "0 \<le> usec mod 3600000000 div 60000000" "usec mod 3600000000 div 60000000 < 60"
    "0 \<le> usec mod 3600000000 mod 60000000 div 1000000" "usec mod 3600000000 mod 60000000 div 1000000 < 60"
    "0 \<le> usec mod 3600000000 mod 60000000 mod 1000000" "usec mod 3600000000 mod 60000000 mod 1000000 < (1000000 :: int)"
proof -
  have j: "a div k * k + a mod k = a" for a k :: int by simp
  show "usec div 3600000000 * 3600000000 + usec mod 3600000000 div 60000000 * 60000000 +
      usec mod 3600000000 mod 60000000 div 1000000 * 1000000 + usec mod 3600000000 mod 60000000 mod 1000000 = usec"
    using j [of usec 3600000000] j [of "usec mod 3600000000" 60000000] j [of "usec mod 3600000000 mod 60000000" 1000000]
    by linarith
  have lt: "a div k < n" if "a < n * k" "0 < k" for a k n :: int 
    using that mod_split [of "a div k" k "a mod k"] pos_mod_sign [of k a] mult_less_cancel_right [of "a div k" k n]
      minus_mod_eq_div_mult [of a k] by linarith
  have ge: "0 \<le> a div k" if "0 \<le> a" "0 < k" for a k :: int using that by (simp add: pos_imp_zdiv_nonneg_iff)
  show "0 \<le> usec div 3600000000" by (rule ge) (use assms in simp_all)
  show "usec div 3600000000 < 24" by (rule lt) (use assms in simp_all)
  show "0 \<le> usec mod 3600000000 div 60000000" by (rule ge) simp_all
  show "usec mod 3600000000 div 60000000 < 60" by (rule lt) simp_all
  show "0 \<le> usec mod 3600000000 mod 60000000 div 1000000" by (rule ge) simp_all
  show "usec mod 3600000000 mod 60000000 div 1000000 < 60" by (rule lt) simp_all
  show "0 \<le> usec mod 3600000000 mod 60000000 mod 1000000" by (rule pos_mod_sign) simp
  show "usec mod 3600000000 mod 60000000 mod 1000000 < 1000000" by (rule pos_mod_bound) simp
qed

lemma rtc_valid_usec: "rtc_valid t \<Longrightarrow> 0 \<le> time_usec t \<and> time_usec t < 86400000000"
  by (simp add: rtc_valid_def time_usec_def)

lemma rtc_valid_typed: "rtc_valid t \<Longrightarrow> rtc_typed t"
  using date_valid_range [of "rt_year t" "rt_month t" "rt_day t"] by (auto simp: rtc_valid_def rtc_typed_def)

text \<open>The tick of a valid clock value and the clock value of a tick.\<close>

definition tick_of :: "rtc_time \<Rightarrow> int" where
  "tick_of t = time_days t * 86400000000 + time_usec t"

lemma tick_of_split:
  assumes "rtc_valid t"
  shows "tick_of t div 86400000000 = time_days t" "tick_of t mod 86400000000 = time_usec t"
proof -
  note u = rtc_valid_usec [OF assms]
  show "tick_of t div 86400000000 = time_days t" using u by (intro div_is) (simp_all add: tick_of_def)
  have "(time_days t * 86400000000 + time_usec t) mod 86400000000 = time_usec t"
    unfolding mod_split by (rule mod_pos_pos_trivial) (use u in simp_all)
  then show "tick_of t mod 86400000000 = time_usec t" by (simp only: tick_of_def)
qed

lemma rtc_valid_date:
  assumes "rtc_valid t"
  shows "time_days t = YmdToJd (rt_year t) (rt_month t) (rt_day t) - 1721426"
    "tick_date (time_days t) = (rt_year t, rt_month t, rt_day t)" "0 \<le> time_days t"
  using rtc_valid_march [OF assms, of "fst (rtc_march (rt_year t) (rt_month t))" "snd (rtc_march (rt_year t) (rt_month t))"]
  by simp_all

lemma rtc_eta:
  "\<lparr>rt_year = rt_year t, rt_month = rt_month t, rt_day = rt_day t, rt_hour = rt_hour t, rt_minute = rt_minute t,
     rt_second = rt_second t, rt_microsecond = rt_microsecond t\<rparr> = (t :: rtc_time)"
  by simp

lemma RtcSetTick_tick_of:
  assumes v: "rtc_valid t"
  shows "RtcSetTick (Some t0) (Some (tick_of t)) = (OK, Some t)"
proof -
  note d = rtc_valid_date [OF v] and u = tick_of_split [OF v]
  have r: "1 \<le> rt_year t" "rt_year t \<le> 9999" "date_IsValid (rt_year t) (rt_month t) (rt_day t)"
    "0 \<le> rt_hour t" "0 \<le> rt_minute t" "rt_minute t < 60" "0 \<le> rt_second t" "rt_second t < 60"
    "0 \<le> rt_microsecond t" "rt_microsecond t < 1000000" using v by (simp_all add: rtc_valid_def)
  note s = time_usec_split [OF r(4-10) time_usec_def]
  note w = rtc_valid_typed [OF v]
  have "RtcSetTick (Some t0) (Some (tick_of t)) = (RtcCheckValid (Some t), Some t)"
    using r(1,2) w by (simp add: RtcSetTick_def u d(2) s w16_def rtc_typed_def Let_def rtc_eta del: rtc_time.surjective [symmetric])
  then show ?thesis using RtcCheckValid_OK [OF w] v by simp
qed

lemma RtcSetTick_tick:
  assumes n: "0 \<le> n" and s: "RtcSetTick (Some t0) (Some n) = (OK, Some t)"
  shows "rtc_valid t" "tick_of t = n"
proof -
  define days where "days = n div 86400000000"
  define usec where "usec = n mod 86400000000"
  obtain ly lm ld where d: "tick_date days = (ly, lm, ld)" by (metis prod_cases3)
  obtain y m dd where mo: "march_of (days + 306) = (y, m, dd)" by (metis prod_cases3)
  note mv = day_index_march_of [OF mo]
  have days0: "0 \<le> days" using n by (simp add: days_def pos_imp_zdiv_nonneg_iff)
  have usec: "0 \<le> usec" "usec < 86400000000" by (simp_all add: usec_def)
  have ymd: "(ly, lm, ld) = (if m < 10 then (y, m + 3, dd) else (y + 1, m - 9, dd))"
    using tick_date_march [OF mo] d by simp
  have ok: "\<not> (ly = 0 \<or> ly > 9999)"
    and t: "t = \<lparr>rt_year = w16 ly, rt_month = w16 lm, rt_day = w16 ld, rt_hour = usec div 3600000000,
        rt_minute = usec mod 3600000000 div 60000000, rt_second = usec mod 3600000000 mod 60000000 div 1000000,
        rt_microsecond = usec mod 3600000000 mod 60000000 mod 1000000\<rparr>"
    and cv: "RtcCheckValid (Some t) = OK"
    using s d by (auto simp: RtcSetTick_def days_def usec_def Let_def rtc_errors OK_def split: if_splits)
  have ly: "1 \<le> ly"
  proof -
    have "365 * y + y div 4 - y div 100 + y div 400 + (153 * m + 2) div 5 + dd - 1 \<ge> 306"
      using mv(2) days0 by (simp add: day_index_def year_start_def)
    moreover have "(153 * m + 2) div 5 + dd - 1 \<le> 365" by (rule march_day(2) [OF mv(1)])
    moreover have "0 \<le> y"
    proof (rule ccontr)
      assume "\<not> 0 \<le> y"
      have "year_start y \<le> 365 * y"
      proof -
        have "y div 4 \<le> y div 100" using \<open>\<not> 0 \<le> y\<close> zdiv_mono2_neg [of y 4 100] by simp
        moreover have "y div 400 \<le> 0" using \<open>\<not> 0 \<le> y\<close> by (simp add: div_nonpos_pos_le0)
        ultimately show ?thesis by (simp add: year_start_def)
      qed
      then show False using calculation \<open>\<not> 0 \<le> y\<close> by (simp add: year_start_def)
    qed
    moreover have "10 \<le> m" if "y = 0"
    proof (rule ccontr)
      assume m9: "\<not> 10 \<le> m"
      then have d275: "(153 * m + 2) div 5 \<le> 275" using zdiv_mono1 [of "153 * m + 2" 1379 5] by simp
      moreover have "dd \<le> 31" using mv(1) by (auto simp: march_valid_def march_days_def split: if_splits)
      moreover have "m = 9 \<Longrightarrow> dd \<le> 31" "m < 9 \<Longrightarrow> (153 * m + 2) div 5 \<le> 245"
        using \<open>dd \<le> 31\<close> zdiv_mono1 [of "153 * m + 2" 1226 5] by simp_all
      ultimately show False using mv days0 \<open>y = 0\<close> by (simp add: day_index_def year_start_def)
    qed
    ultimately have y: "0 \<le> y" "y = 0 \<Longrightarrow> 10 \<le> m" by blast+
    have "1 \<le> y" if "m < 10" using y that by (cases "y = 0") auto
    then show ?thesis using ymd y(1) by (auto split: if_splits)
  qed
  have mm: "0 \<le> m" "m \<le> 11" "1 \<le> dd" "dd \<le> 31"
    using mv(1) by (auto simp: march_valid_def march_days_def split: if_splits)
  have w: "w16 ly = ly" "w16 lm = lm" "w16 ld = ld" using ok ly mm ymd by (auto simp: w16_def split: if_splits)
  define h where "h = usec div 3600000000"
  define mi where "mi = usec mod 3600000000 div 60000000"
  define s where "s = usec mod 3600000000 mod 60000000 div 1000000"
  define us where "us = usec mod 3600000000 mod 60000000 mod 1000000"
  note j = time_usec_join [OF usec, folded h_def mi_def s_def us_def]
  note t = t [unfolded w, folded h_def mi_def s_def us_def]
  have "0 \<le> ly" "ly < 65536" "0 \<le> lm" "lm < 65536" "0 \<le> ld" "ld < 65536"
    using ok ly mm ymd by (auto split: if_splits)
  then have "rtc_typed t" using j(2-9) by (simp add: rtc_typed_def t)
  then show v: "rtc_valid t" using cv RtcCheckValid_OK by simp
  have "rtc_march (rt_year t) (rt_month t) = (y, m)"
    using ymd mm by (auto simp: t rtc_march_def split: if_splits)
  from time_days_index [OF this] have "time_days t = days" using mv(2) ymd by (auto simp: t split: if_splits)
  moreover have "time_usec t = usec" using j(1) by (simp add: time_usec_def t)
  moreover have "days * 86400000000 + usec = n" by (simp add: days_def usec_def)
  ultimately show "tick_of t = n" by (simp add: tick_of_def)
qed

lemma tick_of_bound:
  assumes v: "rtc_valid t"
  shows "0 \<le> tick_of t" "tick_of t < 400000000000000000"
proof -
  obtain y m where ym: "rtc_march (rt_year t) (rt_month t) = (y, m)" by (metis prod.exhaust)
  note mv = rtc_valid_march [OF v ym]
  have y: "0 \<le> y" "y \<le> 9999" using ym v by (auto simp: rtc_march_def rtc_valid_def split: if_splits)
  have "y div 4 \<le> 2499" using y zdiv_mono1 [of y 9999 4] by simp
  moreover have "0 \<le> y div 100" "y div 400 \<le> 24" using y zdiv_mono1 [of y 9999 400] by (simp_all add: pos_imp_zdiv_nonneg_iff)
  ultimately have "time_days t \<le> 4000000"
    using time_days_index [OF ym] march_day(2) [OF mv(1)] y by (simp add: day_index_def year_start_def)
  then show "0 \<le> tick_of t" "tick_of t < 400000000000000000"
    using mv(4) rtc_valid_usec [OF v] by (simp_all add: tick_of_def)
qed

lemma RtcGetTick_OK:
  assumes "rtc_typed t"
  shows "RtcGetTick (Some t) (Some n0) = (OK, Some n) \<longleftrightarrow> rtc_valid t \<and> n = tick_of t"
proof (cases "rtc_valid t")
  case True
  have "w64 (tick_of t) = tick_of t" using tick_of_bound [OF True] by (simp add: w64_def)
  then have "w64 (time_days t * 86400000000 + time_usec t) = tick_of t" by (simp only: tick_of_def)
  then show ?thesis using RtcCheckValid_OK [OF assms] True by (auto simp: RtcGetTick_def)
qed (use RtcCheckValid_OK [OF assms] in \<open>auto simp: RtcGetTick_def\<close>)

lemma RtcSetTick_OK:
  assumes "0 \<le> n"
  shows "RtcSetTick (Some t0) (Some n) = (OK, Some t) \<longleftrightarrow> rtc_valid t \<and> n = tick_of t"
proof
  assume "RtcSetTick (Some t0) (Some n) = (OK, Some t)"
  from RtcSetTick_tick [OF assms this] show "rtc_valid t \<and> n = tick_of t" by simp
next
  assume "rtc_valid t \<and> n = tick_of t"
  then show "RtcSetTick (Some t0) (Some n) = (OK, Some t)" by (simp only: RtcSetTick_tick_of)
qed

text \<open>
  C33: ticks and clock values are converted both ways without loss: a tick is split into exactly the clock
  values whose tick it is, and every clock value that passes the validity check comes back from its tick.
\<close>

theorem rtc_tick_roundtrip:
  assumes "0 \<le> n" "n \<le> u64_max" "rtc_typed t"
  shows "RtcSetTick (Some t0) (Some n) = (OK, Some t) \<longleftrightarrow> RtcGetTick (Some t) (Some n0) = (OK, Some n)"
  unfolding RtcSetTick_OK [OF assms(1)] RtcGetTick_OK [OF assms(3)] by (rule refl)

definition sample_time :: rtc_time where
  "sample_time = \<lparr>rt_year = 2024, rt_month = 2, rt_day = 29, rt_hour = 23, rt_minute = 59, rt_second = 58, rt_microsecond = 7\<rparr>"

lemma sample_time_valid: "rtc_valid sample_time" "rtc_typed sample_time" "tick_of sample_time = 63844847998000007"
proof -
  show v: "rtc_valid sample_time" by code_simp
  show "rtc_typed sample_time" by (rule rtc_valid_typed [OF v])
  show "tick_of sample_time = 63844847998000007" by code_simp
qed

lemma rtc_tick_roundtrip_witness:
  "RtcSetTick (Some sample_time) (Some 63844847998000007) = (OK, Some sample_time) \<longleftrightarrow>
     RtcGetTick (Some sample_time) (Some 0) = (OK, Some 63844847998000007)"
  by (rule rtc_tick_roundtrip) (simp_all add: u64_max_def sample_time_valid)

text \<open>
  The library's own day count and the calendar functions agree: the day of a tick is the Julian day
  number of its date, counted from January 1 of year 1, and the weekday is the Julian day's.
\<close>

theorem rtc_matches_calendar:
  assumes "rtc_typed t" "RtcGetTick (Some t) (Some n0) = (OK, Some n)"
  shows "n div 86400000000 = YmdToJd (rt_year t) (rt_month t) (rt_day t) - YmdToJd 1 1 1 \<and>
    RtcGetDayOfWeek (rt_year t) (rt_month t) (rt_day t) = (n div 86400000000 + 1) mod 7"
proof -
  have v: "rtc_valid t" and n: "n = tick_of t" using assms RtcGetTick_OK by blast+
  have one: "YmdToJd 1 1 1 = 1721426" by code_simp
  have jd: "n div 86400000000 = YmdToJd (rt_year t) (rt_month t) (rt_day t) - 1721426"
    using tick_of_split(1) [OF v] rtc_valid_date(1) [OF v] n by simp
  have days0: "1721426 \<le> YmdToJd (rt_year t) (rt_month t) (rt_day t)"
    using rtc_valid_date(1,3) [OF v] by simp
  have r: "1 \<le> rt_year t" "rt_year t \<le> 9999" "date_IsValid (rt_year t) (rt_month t) (rt_day t)"
    using v by (simp_all add: rtc_valid_def)
  note mo = date_valid_range [OF r(3)]
  have dm: "rt_day t \<le> GetDaysInMonth (rt_year t) (rt_month t)" "0 \<le> GetDaysInMonth (rt_year t) (rt_month t)"
    using r mo month_12 [OF mo(1,2)] by (auto simp: GetDaysInMonth_def date_IsValid_def DaysInMonth_def)
  have "RtcGetDayOfWeek (rt_year t) (rt_month t) (rt_day t) =
      (let dow = DayOfWeek (date_Set (rt_year t) (rt_month t) (rt_day t)) in if dow = 7 then 0 else dow)"
    using dm mo by (simp add: RtcGetDayOfWeek_def)
  also have "\<dots> = (YmdToJd (rt_year t) (rt_month t) (rt_day t) + 1) mod 7"
    using days0 r(3) mod_step [of 7 "YmdToJd (rt_year t) (rt_month t) (rt_day t)"]
    by (simp add: date_Set_def DayOfWeek_def date_IsInvalid_def DATE_JD_INVALID_def smod_nonneg)
  also have "\<dots> = (n div 86400000000 + 1) mod 7"
  proof -
    have "YmdToJd (rt_year t) (rt_month t) (rt_day t) + 1 = 245918 * 7 + (n div 86400000000 + 1)" using jd by simp
    then show ?thesis by (simp only: mod_split)
  qed
  finally show ?thesis using jd one by (simp add: add.commute)
qed

text \<open>
  Setting a clock value from Unix seconds or from a Windows file time and reading it back gives the
  same seconds, and the file time without its last digit.
\<close>

theorem rtc_epochs_roundtrip:
  "(RtcSetTime_t (Some t0) s = (OK, Some t) \<longrightarrow> RtcGetTime_t (Some t) (Some s0) = (OK, Some s)) \<and>
   (0 \<le> w \<and> w \<le> u64_max \<and> RtcSetWin32FileTime (Some t0) w = (OK, Some t) \<longrightarrow>
     RtcGetWin32FileTime (Some t) (Some w0) = (OK, Some (w - w mod 10)))"
proof (intro conjI impI)
  assume s: "RtcSetTime_t (Some t0) s = (OK, Some t)"
  let ?n = "s * 1000000 + RTC_UNIX_EPOCH_TICKS"
  have s0: "0 \<le> s" and st: "RtcSetTick (Some t0) (Some ?n) = (OK, Some t)"
    using s by (auto simp: RtcSetTime_t_def rtc_errors OK_def split: if_splits)
  have n0: "0 \<le> ?n" using s0 by (simp add: RTC_UNIX_EPOCH_TICKS_def)
  have v: "rtc_valid t" "?n = tick_of t" using st RtcSetTick_OK [OF n0] by simp_all
  have "RtcGetTick (Some t) (Some 0) = (OK, Some ?n)" using RtcGetTick_OK [OF rtc_valid_typed [OF v(1)]] v by simp
  then show "RtcGetTime_t (Some t) (Some s0) = (OK, Some s)" using s0 by (simp add: RtcGetTime_t_def)
next
  assume w: "0 \<le> w \<and> w \<le> u64_max \<and> RtcSetWin32FileTime (Some t0) w = (OK, Some t)"
  let ?n = "w div 10 + RTC_WIN32_FILETIME_EPOCH_TICKS"
  have w10: "0 \<le> w div 10" using w by (simp add: pos_imp_zdiv_nonneg_iff)
  have st: "RtcSetTick (Some t0) (Some ?n) = (OK, Some t)"
    using w by (auto simp: RtcSetWin32FileTime_def rtc_errors OK_def split: if_splits)
  have n0: "0 \<le> ?n" using w10 by (simp add: RTC_WIN32_FILETIME_EPOCH_TICKS_def)
  have v: "rtc_valid t" "?n = tick_of t" using st RtcSetTick_OK [OF n0] by simp_all
  have g: "RtcGetTick (Some t) (Some 0) = (OK, Some ?n)" using RtcGetTick_OK [OF rtc_valid_typed [OF v(1)]] v by simp
  have "w div 10 * 10 = w - w mod 10" using minus_mod_eq_div_mult [of w 10] by simp
  moreover have "w64 (w - w mod 10) = w - w mod 10"
    unfolding w64_def
  proof (rule mod_pos_pos_trivial)
    show "0 \<le> w - w mod 10" using w10 calculation by simp
    have "0 \<le> w mod 10" "w \<le> 18446744073709551615" using w by (simp_all add: u64_max_def)
    then show "w - w mod 10 < 18446744073709551616" by linarith
  qed
  ultimately show "RtcGetWin32FileTime (Some t) (Some w0) = (OK, Some (w - w mod 10))"
    using g w10 by (simp add: RtcGetWin32FileTime_def)
qed

section \<open>RFC 3339 text\<close>

lemma digit_not_space: "is_digit c \<Longrightarrow> \<not> IsSpace c \<and> c \<noteq> CHR ''-'' \<and> c \<noteq> CHR ''+''"
  by (auto simp: is_digit_def IsSpace_def code_def)

lemma scan_number_digits:
  assumes "ds \<noteq> []" "\<And>c. c \<in> set ds \<Longrightarrow> is_digit c" "rest = [] \<or> \<not> is_digit (hd rest)"
  shows "scan_number None (ds @ rest) = Some (int (digits_value 10 ds), rest)"
    "scan_number (Some (length ds)) (ds @ rest) = Some (int (digits_value 10 ds), rest)"
proof -
  obtain d ds' where d: "ds = d # ds'" using assms(1) by (cases ds) auto
  have hd: "\<not> IsSpace d" "d \<noteq> CHR ''-''" "d \<noteq> CHR ''+''" using digit_not_space [of d] assms(2) d by simp_all
  have t: "takeWhile is_digit (ds @ rest) = ds" using takeWhile_digits [of ds rest] assms(2,3) by blast
  have t2: "takeWhile is_digit ds = ds" using takeWhile_digits [of ds "[]"] assms(2) by simp
  show "scan_number None (ds @ rest) = Some (int (digits_value 10 ds), rest)"
    using hd t d by (simp add: scan_number_def)
  show "scan_number (Some (length ds)) (ds @ rest) = Some (int (digits_value 10 ds), rest)"
    using hd t2 d by (simp add: scan_number_def)
qed

definition stops :: "string \<Rightarrow> bool" where
  "stops rest \<longleftrightarrow> rest = [] \<or> \<not> is_digit (hd rest)"

lemma scan_hu_fmt:
  assumes "0 \<le> x" "x < 65536" "stops rest"
  shows "scan_hu (fmt_int k x @ rest) = Some (x, rest)"
proof -
  have "scan_number None (pad k (show_nat (nat x)) @ rest) = Some (int (digits_value 10 (pad k (show_nat (nat x)))), rest)"
    by (rule scan_number_digits(1)) (use assms(3) pad_digits in \<open>auto simp: stops_def\<close>)
  then show ?thesis using assms by (simp add: scan_hu_def fmt_int_def pad_value u64_max_def w16_def)
qed

lemma scan_field_fmt:
  assumes "0 \<le> x" "x < 65536" "\<not> is_digit c"
  shows "scan_field c (fmt_int k x @ c # rest) = Some (x, rest)"
  using scan_hu_fmt [of x "c # rest" k] assms by (simp add: scan_field_def scan_char_def stops_def)

lemma scan_two:
  assumes "0 \<le> x" "x < 100" "stops rest"
  shows "scan_number (Some 2) (fmt_int 2 x @ rest) = Some (x, rest)"
proof -
  have l: "length (pad 2 (show_nat (nat x))) = 2" using assms by (intro pad_length) auto
  have "scan_number (Some 2) (pad 2 (show_nat (nat x)) @ rest) = Some (int (digits_value 10 (pad 2 (show_nat (nat x)))), rest)"
    using scan_number_digits(2) [of "pad 2 (show_nat (nat x))" rest] pad_digits assms(3) l by (auto simp: stops_def)
  then show ?thesis using assms by (simp add: fmt_int_def pad_value)
qed

lemma scan_fraction_two:
  assumes "0 \<le> x" "x < 100" "stops rest"
  shows "scan_fraction (fmt_int 2 x @ rest) = (x * 10000, rest)"
proof -
  have l: "length (pad 2 (show_nat (nat x))) = 2" using assms by (intro pad_length) auto
  have "takeWhile is_digit (pad 2 (show_nat (nat x)) @ rest) = pad 2 (show_nat (nat x))"
    using takeWhile_digits [of "pad 2 (show_nat (nat x))" rest] pad_digits assms(3) unfolding stops_def by blast
  then show ?thesis using assms l by (simp add: scan_fraction_def fmt_int_def pad_value)
qed

lemma fmt_length: "0 \<le> x \<Longrightarrow> x < 10 ^ k \<Longrightarrow> 0 < k \<Longrightarrow> length (fmt_int k x) = k"
  using pad_length [of "nat x" k] by (simp add: fmt_int_def nat_less_iff)

lemma digit_chars [simp]: "\<not> is_digit (CHR ''-'')" "\<not> is_digit (CHR ''+'')" "\<not> is_digit (CHR '':'')"
    "\<not> is_digit (CHR ''T'')" "\<not> is_digit (CHR ''Z'')" "\<not> is_digit (CHR ''.'')"
  by (simp_all add: is_digit_def code_def)

definition whole_text :: "rtc_time \<Rightarrow> string \<Rightarrow> string" where
  "whole_text t zone =
      fmt_int 4 (rt_year t) @ CHR ''-'' # fmt_int 2 (rt_month t) @ CHR ''-'' # fmt_int 2 (rt_day t) @ CHR ''T'' #
      fmt_int 2 (rt_hour t) @ CHR '':'' # fmt_int 2 (rt_minute t) @ CHR '':'' # fmt_int 2 (rt_second t) @
      CHR ''.'' # fmt_int 2 (rt_microsecond t div 10000) @ zone"

lemma scan_text:
  assumes v: "rtc_valid t" and z: "length zone \<le> 9" "stops zone"
  shows "rfc3339_text t zone = whole_text t zone"
    "scan_date_time (whole_text t zone) = Some (t\<lparr>rt_microsecond := 0\<rparr>, CHR ''.'' # fmt_int 2 (rt_microsecond t div 10000) @ zone)"
    "scan_fraction (fmt_int 2 (rt_microsecond t div 10000) @ zone) = (rt_microsecond t div 10000 * 10000, zone)"
proof -
  have r: "1 \<le> rt_year t" "rt_year t \<le> 9999" "date_IsValid (rt_year t) (rt_month t) (rt_day t)"
    "0 \<le> rt_hour t" "rt_hour t < 24" "0 \<le> rt_minute t" "rt_minute t < 60" "0 \<le> rt_second t" "rt_second t < 60"
    "0 \<le> rt_microsecond t" "rt_microsecond t < 1000000" using v by (simp_all add: rtc_valid_def)
  note mo = date_valid_range [OF r(3)]
  have us: "0 \<le> rt_microsecond t div 10000" "rt_microsecond t div 10000 < 100"
    using r(10,11) zdiv_mono1 [of "rt_microsecond t" 999999 10000] by (simp_all add: pos_imp_zdiv_nonneg_iff)
  have "length (whole_text t zone) \<le> 31" using r(1,2,4-9) mo us z(1) by (simp add: fmt_length whole_text_def)
  then show "rfc3339_text t zone = whole_text t zone" by (simp add: rfc3339_text_def whole_text_def)
  show "scan_date_time (whole_text t zone) =
      Some (t\<lparr>rt_microsecond := 0\<rparr>, CHR ''.'' # fmt_int 2 (rt_microsecond t div 10000) @ zone)"
    using r(1,2,4-9) mo by (simp add: whole_text_def scan_date_time_def scan_field_fmt scan_hu_fmt stops_def)
  show "scan_fraction (fmt_int 2 (rt_microsecond t div 10000) @ zone) = (rt_microsecond t div 10000 * 10000, zone)"
    by (rule scan_fraction_two [OF us z(2)])
qed

lemma zone_text_scan:
  assumes "\<bar>tz\<bar> < 6000" "tz \<noteq> 0"
  shows "\<exists>h m. zone_text tz = (if tz < 0 then CHR ''-'' else CHR ''+'') # fmt_int 2 h @ CHR '':'' # fmt_int 2 m \<and>
    length (zone_text tz) \<le> 9 \<and> h * 60 + m = \<bar>tz\<bar> \<and> scan_zone (fmt_int 2 h @ CHR '':'' # fmt_int 2 m) = Some (h, m)"
proof -
  let ?h = "\<bar>tz\<bar> div 60" and ?m = "\<bar>tz\<bar> mod 60"
  have h: "0 \<le> ?h" "?h < 100" "0 \<le> ?m" "?m < 100"
    using assms(1) zdiv_mono1 [of "\<bar>tz\<bar>" 5999 60] pos_mod_bound [of 60 "\<bar>tz\<bar>"] by (simp_all add: pos_imp_zdiv_nonneg_iff)
  have i: "i32 (- tz) = \<bar>tz\<bar>" if "tz < 0" using assms(1) that by (simp add: i32_def signed_take_bit_int_eq_self)
  have l: "length (fmt_int 2 ?h) = 2" "length (fmt_int 2 ?m) = 2" by (rule fmt_length; use h in simp)+
  have t: "zone_text tz = (if tz < 0 then CHR ''-'' else CHR ''+'') # fmt_int 2 ?h @ CHR '':'' # fmt_int 2 ?m"
  proof -
    have a: "(if tz < 0 then i32 (- tz) else tz) = \<bar>tz\<bar>" using i by simp
    have e: "\<bar>tz\<bar> sdiv 60 = ?h" "\<bar>tz\<bar> smod 60 = ?m" by (rule sdiv_nonneg smod_nonneg; simp)+
    have "take 7 (c # fmt_int 2 ?h @ CHR '':'' # fmt_int 2 ?m) = c # fmt_int 2 ?h @ CHR '':'' # fmt_int 2 ?m" for c
      by (rule take_all) (simp only: length_Cons length_append l)
    then show ?thesis using assms(2) unfolding zone_text_def Let_def a e by simp
  qed
  have s1: "scan_number (Some 2) (fmt_int 2 ?h @ CHR '':'' # fmt_int 2 ?m) = Some (?h, CHR '':'' # fmt_int 2 ?m)"
    by (rule scan_two) (use h in \<open>simp_all add: stops_def\<close>)
  have s2: "scan_number (Some 2) (fmt_int 2 ?m) = Some (?m, [])"
    using scan_two [of ?m "[]"] h by (simp add: stops_def)
  have "scan_zone (fmt_int 2 ?h @ CHR '':'' # fmt_int 2 ?m) = Some (?h, ?m)"
    by (simp add: scan_zone_def s1 s2 scan_char_def)
  then show ?thesis using t l by (intro exI [of _ ?h] exI [of _ ?m]) simp
qed

lemma tick_of_hundredths:
  assumes v: "rtc_valid t"
  shows "rtc_valid (t\<lparr>rt_microsecond := rt_microsecond t div 10000 * 10000\<rparr>)"
    "tick_of (t\<lparr>rt_microsecond := rt_microsecond t div 10000 * 10000\<rparr>) = tick_of t - tick_of t mod 10000"
proof -
  have us: "rt_microsecond t div 10000 * 10000 = rt_microsecond t - rt_microsecond t mod 10000"
    using minus_mod_eq_div_mult [of "rt_microsecond t" 10000] by simp
  show "rtc_valid (t\<lparr>rt_microsecond := rt_microsecond t div 10000 * 10000\<rparr>)"
    using v us pos_mod_sign [of 10000 "rt_microsecond t"]
    by (auto simp: rtc_valid_def pos_imp_zdiv_nonneg_iff zmod_le_nonneg_dividend)
  have "tick_of t = (time_days t * 8640000 + rt_hour t * 360000 + rt_minute t * 6000 + rt_second t * 100) * 10000 +
      rt_microsecond t" by (simp add: tick_of_def time_usec_def)
  then have "tick_of t mod 10000 = rt_microsecond t mod 10000" by (simp only: mod_split)
  then show "tick_of (t\<lparr>rt_microsecond := rt_microsecond t div 10000 * 10000\<rparr>) = tick_of t - tick_of t mod 10000"
    using us by (simp add: tick_of_def time_usec_def time_days_def)
qed

lemma RtcSetTick_Some: "\<exists>c u. RtcSetTick (Some t0) (Some n) = (c, Some u)"
  by (auto simp: RtcSetTick_def Let_def split: prod.split)

lemma format_steps:
  assumes "0 \<le> n" "n \<le> u64_max \<and> n + tz * 60000000 \<le> u64_max" "\<bar>tz\<bar> < 6000"
    "RtcFormatRFC3339 now False (Some n) tz = (OK, Some s)"
  shows "\<exists>t. rtc_valid t \<and> tick_of t = n + tz * 60000000 \<and> s = rfc3339_text t (zone_text tz)"
proof -
  let ?z = "\<lparr>rt_year = 0, rt_month = 0, rt_day = 0, rt_hour = 0, rt_minute = 0, rt_second = 0, rt_microsecond = 0\<rparr>"
  have ok: "\<not> (tz * 60000000 < 0 \<and> n < - (tz * 60000000))" using assms(4)
    by (auto simp: RtcFormatRFC3339_def rtc_errors OK_def split: if_splits)
  then have n0: "0 \<le> n + tz * 60000000" using assms(1) by linarith
  have w: "w64 (n + tz * 60000000) = n + tz * 60000000"
    unfolding w64_def by (rule mod_pos_pos_trivial [OF n0]) (use assms(2) in \<open>simp add: u64_max_def\<close>)
  obtain ret t where st: "RtcSetTick (Some ?z) (Some (n + tz * 60000000)) = (ret, t)" by (metis prod.exhaust)
  have "ret = OK" "s = rfc3339_text (the t) (zone_text tz)"
    using assms(4) ok w st by (auto simp: RtcFormatRFC3339_def split: if_splits)
  moreover have "\<exists>u. t = Some u" using st RtcSetTick_Some [of ?z "n + tz * 60000000"] by auto
  ultimately show ?thesis using st RtcSetTick_OK [OF n0] by auto
qed

text \<open>
  C34: a tick that was formatted is parsed again: the text carries hundredths of a second and the zone, so the
  parsed tick is the formatted one cut to hundredths of a second. This holds for every zone of less than 6000
  minutes (its hours then have two digits) and every tick that the zone does not carry beyond 64 bits; beyond
  them the code formats the wrapped tick, and can refuse its own text (\<open>rtc_rfc3339_wrapped\<close> is an instance).
\<close>

theorem rtc_rfc3339_roundtrip:
  assumes "0 \<le> n" "n \<le> u64_max \<and> n + tz * 60000000 \<le> u64_max" "\<bar>tz\<bar> < 6000"
    "RtcFormatRFC3339 now False (Some n) tz = (OK, Some s)"
  shows "RtcParseRFC3339 (Some u0) (Some s) = (OK, Some (n - n mod 10000))"
proof -
  obtain t where t: "rtc_valid t" "tick_of t = n + tz * 60000000" "s = rfc3339_text t (zone_text tz)"
    using format_steps [OF assms] by blast
  let ?us = "rt_microsecond t div 10000 * 10000"
  have zone: "length (zone_text tz) \<le> 9" "stops (zone_text tz)"
    using zone_text_scan [OF assms(3)] by (cases "tz = 0"; auto simp: stops_def zone_text_def)+
  note sc = scan_text [OF t(1) zone]
  note h = tick_of_hundredths [OF t(1)]
  have n': "tick_of t - tick_of t mod 10000 = n - n mod 10000 + tz * 60000000"
  proof -
    have "(tz * 6000 * 10000 + n) mod 10000 = n mod 10000" by (rule mod_split)
    then show ?thesis unfolding t(2) by (simp add: algebra_simps)
  qed
  have tick: "RtcGetTick (Some (t\<lparr>rt_microsecond := ?us\<rparr>)) (Some u0) = (OK, Some (n - n mod 10000 + tz * 60000000))"
    using RtcGetTick_OK [OF rtc_valid_typed [OF h(1)]] h n' by simp
  have n0: "0 \<le> n - n mod 10000" using zmod_le_nonneg_dividend [OF assms(1), of 10000] by simp
  have w: "w64 (n - n mod 10000) = n - n mod 10000"
  proof -
    have "0 \<le> n mod 10000" by simp
    then have "n - n mod 10000 < 18446744073709551616" using assms(2) unfolding u64_max_def by linarith
    with n0 show ?thesis by (simp add: w64_def)
  qed
  have p: "RtcParseRFC3339 (Some u0) (Some s) =
      (let pos = zone_text tz; utc = Some (n - n mod 10000 + tz * 60000000)
       in if pos = [] \<or> hd pos = CHR ''Z'' then (OK, utc)
          else if hd pos \<noteq> CHR ''+'' \<and> hd pos \<noteq> CHR ''-'' then (RTC_ERROR_INVALID_VALUE, utc)
          else case scan_zone (tl pos) of
                 None \<Rightarrow> (RTC_ERROR_INVALID_VALUE, utc)
               | Some (zone_hour, zone_min) \<Rightarrow>
                   let zone_minutes = zone_hour * 60 + zone_min;
                       zone_minutes = (if hd pos = CHR ''-'' then - zone_minutes else zone_minutes);
                       offset_ticks = zone_minutes * 60000000
                   in if offset_ticks > 0 \<and> the utc < offset_ticks then (RTC_ERROR_INVALID_VALUE, utc)
                      else (OK, Some (w64 (the utc - offset_ticks))))"
    by (simp add: RtcParseRFC3339_def t(3) sc tick Let_def)
  show ?thesis
  proof (cases "tz = 0")
    case True
    then show ?thesis unfolding p by (simp add: zone_text_def)
  next
    case False
    obtain hh mm where z: "zone_text tz = (if tz < 0 then CHR ''-'' else CHR ''+'') # fmt_int 2 hh @ CHR '':'' # fmt_int 2 mm"
      "hh * 60 + mm = \<bar>tz\<bar>" "scan_zone (fmt_int 2 hh @ CHR '':'' # fmt_int 2 mm) = Some (hh, mm)"
      using zone_text_scan [OF assms(3) False] by blast
    have o': "3600000000 * hh + mm * 60000000 = \<bar>tz\<bar> * 60000000" using z(2) by linarith
    show ?thesis unfolding p using n0 w o' by (cases "tz < 0") (simp_all add: z Let_def)
  qed
qed

lemma rtc_rfc3339_wrapped:
  "RtcFormatRFC3339 0 False (Some u64_max) 1 = (OK, Some ''0001-01-01T00:00:59.99+00:01'') \<and>
   fst (RtcParseRFC3339 (Some 0) (Some ''0001-01-01T00:00:59.99+00:01'')) = RTC_ERROR_INVALID_VALUE"
  by code_simp

lemma rtc_rfc3339_roundtrip_witness:
  "RtcParseRFC3339 (Some 0) (Some ''2024-02-29T23:59:58.00Z'') = (OK, Some (63844847998000007 - 63844847998000007 mod 10000))"
  by (rule rtc_rfc3339_roundtrip [where tz = 0 and now = 0]) code_simp+

lemma rtc_matches_calendar_witness:
  "(63844847998000007 :: int) div 86400000000 = YmdToJd 2024 2 29 - YmdToJd 1 1 1 \<and>
    RtcGetDayOfWeek 2024 2 29 = (63844847998000007 div 86400000000 + 1) mod 7"
  using rtc_matches_calendar [of sample_time 0 63844847998000007] sample_time_valid RtcGetTick_OK [of sample_time]
  by (simp add: sample_time_def)

lemma rtc_epochs_roundtrip_witness:
  "RtcGetTime_t (Some \<lparr>rt_year = 2001, rt_month = 9, rt_day = 9, rt_hour = 1, rt_minute = 46, rt_second = 40,
     rt_microsecond = 0\<rparr>) (Some 0) = (OK, Some 1000000000)"
proof -
  have "RtcSetTime_t (Some sample_time) 1000000000 = (OK, Some \<lparr>rt_year = 2001, rt_month = 9, rt_day = 9, rt_hour = 1,
      rt_minute = 46, rt_second = 40, rt_microsecond = 0\<rparr>)" by code_simp
  then show ?thesis using rtc_epochs_roundtrip by blast
qed

end
