(* ===== verification/PthreadMutex.thy ===== *)
theory PthreadMutex
  imports KernelErrors
begin

text \<open>
  The mutexes of src/src/kernel/pthread.cpp: attributes, the object and the operations on it. A thread is
  the address of its \<open>PthreadPrivate\<close>; \<open>self\<close> is \<open>g_pthread_self\<close>, never null here (the code exits). The
  clock counts nanoseconds. A call that may sleep is split at its sleeps: \<open>NativeMutexLock\<close> up to the first
  one, \<open>mutex_look\<close> for each time it holds \<open>m\<close> again; \<open>mutex_step\<close> is every interleaving of the calls.
\<close>

section \<open>Attributes and the object\<close>

text \<open>The host's error numbers, which differ between the hosts.\<close>

datatype host_error = H_OK | H_EPERM | H_EAGAIN | H_ENOMEM | H_EBUSY | H_EINVAL | H_EDEADLK | H_ETIMEDOUT

definition SIGNAL_APC_POLL_MICROS :: nat where
  "SIGNAL_APC_POLL_MICROS = 10000"

definition KERNEL_PTHREAD_MUTEX_ERRORCHECK :: int where
  "KERNEL_PTHREAD_MUTEX_ERRORCHECK = 1"

definition KERNEL_PTHREAD_MUTEX_RECURSIVE :: int where
  "KERNEL_PTHREAD_MUTEX_RECURSIVE = 2"

definition KERNEL_PTHREAD_MUTEX_NORMAL :: int where
  "KERNEL_PTHREAD_MUTEX_NORMAL = 3"

definition KERNEL_PTHREAD_MUTEX_ADAPTIVE :: int where
  "KERNEL_PTHREAD_MUTEX_ADAPTIVE = 4"

lemmas mutex_types = KERNEL_PTHREAD_MUTEX_ERRORCHECK_def KERNEL_PTHREAD_MUTEX_RECURSIVE_def
  KERNEL_PTHREAD_MUTEX_NORMAL_def KERNEL_PTHREAD_MUTEX_ADAPTIVE_def

datatype mutex_protocol = PRIO_NONE | PRIO_INHERIT | PRIO_PROTECT

datatype host_mutex_type = Host_Errorcheck | Host_Recursive | Host_Normal

record mutexattr =
  ma_p :: host_mutex_type
  ma_pprotocol :: mutex_protocol
  ma_type :: int

record mutex =
  mx_name :: string
  mx_owner :: "nat option"
  mx_count :: u32
  mx_type :: int
  mx_pprotocol :: mutex_protocol

definition to_kernel_init :: "host_error \<Rightarrow> int" where
  "to_kernel_init result =
     (if result = H_OK then OK else if result = H_ENOMEM then KERNEL_ERROR_ENOMEM else KERNEL_ERROR_EINVAL)"

text \<open>\<open>settype\<close> is what \<open>pthread_mutexattr_settype\<close> of the host returns; it keeps the type when it fails.\<close>

definition PthreadMutexattrSettype ::
    "(host_mutex_type \<Rightarrow> host_error) \<Rightarrow> mutexattr option \<Rightarrow> int \<Rightarrow> (int \<times> mutexattr option) outcome" where
  "PthreadMutexattrSettype settype attr type =
     (case attr of
        None \<Rightarrow> Inl EXIT
      | Some a \<Rightarrow>
          let set_host = (\<lambda>ptype. if settype ptype = H_OK then Inr (OK, Some (a\<lparr>ma_p := ptype, ma_type := type\<rparr>))
                                   else Inr (KERNEL_ERROR_EINVAL, Some a))
          in if type = KERNEL_PTHREAD_MUTEX_ERRORCHECK then set_host Host_Errorcheck
             else if type = KERNEL_PTHREAD_MUTEX_RECURSIVE then set_host Host_Recursive
             else if type = KERNEL_PTHREAD_MUTEX_NORMAL \<or> type = KERNEL_PTHREAD_MUTEX_ADAPTIVE then set_host Host_Normal
             else Inr (KERNEL_ERROR_EINVAL, Some a))"

definition PthreadMutexattrSetprotocol :: "mutexattr option \<Rightarrow> int \<Rightarrow> (int \<times> mutexattr option) outcome" where
  "PthreadMutexattrSetprotocol attr protocol =
     (case attr of
        None \<Rightarrow> Inl EXIT
      | Some a \<Rightarrow>
          if protocol = 0 then Inr (OK, Some (a\<lparr>ma_pprotocol := PRIO_NONE\<rparr>))
          else if protocol = 1 then Inr (OK, Some (a\<lparr>ma_pprotocol := PRIO_INHERIT\<rparr>))
          else if protocol = 2 then Inr (OK, Some (a\<lparr>ma_pprotocol := PRIO_PROTECT\<rparr>))
          else Inl EXIT)"

text \<open>
  \<open>init\<close> is the result of the host's \<open>pthread_mutexattr_init\<close>, which leaves the host's default type (a normal
  mutex). The second operation's own error is a kernel number, which the final \<open>switch\<close> turns into
  \<open>EINVAL\<close>.
\<close>

definition PthreadMutexattrInit ::
    "host_error \<Rightarrow> (host_mutex_type \<Rightarrow> host_error) \<Rightarrow> (int \<times> mutexattr option) outcome" where
  "PthreadMutexattrInit init settype =
     (let attr = Some \<lparr>ma_p = Host_Normal, ma_pprotocol = PRIO_NONE, ma_type = 0\<rparr>
      in if init \<noteq> H_OK then Inr (to_kernel_init init, attr)
         else bind_outcome (PthreadMutexattrSettype settype attr 1) (\<lambda>(result, attr).
              if result \<noteq> OK then Inr (KERNEL_ERROR_EINVAL, attr)
              else bind_outcome (PthreadMutexattrSetprotocol attr 0) (\<lambda>(result, attr).
                   Inr (if result = OK then OK else KERNEL_ERROR_EINVAL, attr))))"

definition PthreadMutexattrDestroy :: "host_error \<Rightarrow> mutexattr option \<Rightarrow> (int \<times> mutexattr option) outcome" where
  "PthreadMutexattrDestroy destroy attr =
     (if attr = None then Inl EXIT else Inr (to_kernel_init destroy, None))"

section \<open>Operations on the object\<close>

datatype mutex_call = Mutex_Returned host_error | Mutex_Blocked "nat option" | Mutex_Blocked_Owner

definition mutex_acquire :: "nat \<Rightarrow> mutex \<Rightarrow> mutex" where
  "mutex_acquire self m = m\<lparr>mx_owner := Some self, mx_count := 1\<rparr>"

text \<open>
  The test of the waiting loops: done first and after every sleep. A sleep lasts at most the rest of the
  time-out, and never longer than the interval at which signals are polled.
\<close>

definition mutex_look :: "nat \<Rightarrow> nat option \<Rightarrow> nat \<Rightarrow> mutex \<Rightarrow> mutex \<times> mutex_call" where
  "mutex_look self deadline now m =
     (if mx_owner m = None then (mutex_acquire self m, Mutex_Returned H_OK)
      else case deadline of
             None \<Rightarrow> (m, Mutex_Blocked None)
           | Some d \<Rightarrow> if now \<ge> d then (m, Mutex_Returned H_ETIMEDOUT) else (m, Mutex_Blocked (Some d)))"

definition mutex_sleep :: "nat option \<Rightarrow> nat \<Rightarrow> nat" where
  "mutex_sleep deadline now =
     (case deadline of
        None \<Rightarrow> SIGNAL_APC_POLL_MICROS * 1000
      | Some d \<Rightarrow> if d - now < SIGNAL_APC_POLL_MICROS * 1000 then d - now else SIGNAL_APC_POLL_MICROS * 1000)"

text \<open>The sleep that follows a test which did not return; the owner's is the whole time-out at once.\<close>

definition mutex_call_sleep :: "nat \<Rightarrow> mutex_call \<Rightarrow> nat \<Rightarrow> nat" where
  "mutex_call_sleep us call now =
     (case call of
        Mutex_Returned r \<Rightarrow> 0
      | Mutex_Blocked deadline \<Rightarrow> mutex_sleep deadline now
      | Mutex_Blocked_Owner \<Rightarrow> us * 1000)"

text \<open>\<open>timeout_us\<close> is \<open>None\<close> for the null pointer; an owner's timed call sleeps once and times out.\<close>

definition NativeMutexLock :: "nat \<Rightarrow> nat option \<Rightarrow> nat \<Rightarrow> mutex \<Rightarrow> mutex \<times> mutex_call" where
  "NativeMutexLock self timeout_us now m =
     (if mx_owner m = Some self
      then if mx_type m = 2
           then if mx_count m = 4294967295 then (m, Mutex_Returned H_EAGAIN)
                else (m\<lparr>mx_count := mx_count m + 1\<rparr>, Mutex_Returned H_OK)
           else case timeout_us of
                  None \<Rightarrow> (m, Mutex_Returned H_EDEADLK)
                | Some us \<Rightarrow> if us > 0 then (m, Mutex_Blocked_Owner) else (m, Mutex_Returned H_ETIMEDOUT)
      else case timeout_us of
             None \<Rightarrow> mutex_look self None now m
           | Some us \<Rightarrow>
               if us = 0
               then if mx_owner m \<noteq> None then (m, Mutex_Returned H_ETIMEDOUT)
                    else (mutex_acquire self m, Mutex_Returned H_OK)
               else mutex_look self (Some (now + us * 1000)) now m)"

text \<open>A blocked call after a sleep.\<close>

definition NativeMutexLock_resume :: "nat \<Rightarrow> mutex_call \<Rightarrow> nat \<Rightarrow> mutex \<Rightarrow> mutex \<times> mutex_call" where
  "NativeMutexLock_resume self call now m =
     (case call of
        Mutex_Blocked deadline \<Rightarrow> mutex_look self deadline now m
      | Mutex_Blocked_Owner \<Rightarrow> (m, Mutex_Returned H_ETIMEDOUT)
      | Mutex_Returned r \<Rightarrow> (m, call))"

definition NativeMutexTrylock :: "nat \<Rightarrow> mutex \<Rightarrow> mutex \<times> host_error" where
  "NativeMutexTrylock self m =
     (if mx_owner m = Some self
      then if mx_type m = 2
           then if mx_count m = 4294967295 then (m, H_EAGAIN) else (m\<lparr>mx_count := mx_count m + 1\<rparr>, H_OK)
           else (m, H_EBUSY)
      else if mx_owner m \<noteq> None then (m, H_EBUSY)
      else (mutex_acquire self m, H_OK))"

definition mutex_release :: "mutex \<Rightarrow> mutex" where
  "mutex_release m =
     (if mx_type m = 2 \<and> mx_count m > 1 then m\<lparr>mx_count := mx_count m - 1\<rparr>
      else m\<lparr>mx_owner := None, mx_count := 0\<rparr>)"

definition NativeMutexUnlock :: "nat \<Rightarrow> mutex \<Rightarrow> mutex \<times> host_error" where
  "NativeMutexUnlock self m = (if mx_owner m \<noteq> Some self then (m, H_EPERM) else (mutex_release m, H_OK))"

text \<open>With the pointer \<open>recurse\<close>: the count is handed out and all of it is given up.\<close>

definition NativeMutexUnlock_recurse :: "nat \<Rightarrow> mutex \<Rightarrow> mutex \<times> host_error \<times> u32" where
  "NativeMutexUnlock_recurse self m =
     (if mx_owner m \<noteq> Some self then (m, H_EPERM, 0)
      else (mutex_release (m\<lparr>mx_count := 1\<rparr>), H_OK, mx_count m))"

text \<open>The end of \<open>NativeMutexLockRecurse\<close>, once its \<open>NativeMutexLock\<close> has returned.\<close>

definition lock_recurse_end :: "u32 \<Rightarrow> mutex \<times> mutex_call \<Rightarrow> mutex \<times> mutex_call" where
  "lock_recurse_end recurse mc =
     (case mc of
        (m, Mutex_Returned H_OK) \<Rightarrow> (m\<lparr>mx_count := max recurse 1\<rparr>, Mutex_Returned H_OK)
      | _ \<Rightarrow> mc)"

definition NativeMutexLockRecurse :: "nat \<Rightarrow> u32 \<Rightarrow> nat \<Rightarrow> mutex \<Rightarrow> mutex \<times> mutex_call" where
  "NativeMutexLockRecurse self recurse now m = lock_recurse_end recurse (NativeMutexLock self None now m)"

definition NativeMutexLockRecurse_resume :: "nat \<Rightarrow> u32 \<Rightarrow> nat option \<Rightarrow> nat \<Rightarrow> mutex \<Rightarrow> mutex \<times> mutex_call" where
  "NativeMutexLockRecurse_resume self recurse deadline now m =
     lock_recurse_end recurse (mutex_look self deadline now m)"

section \<open>The interleavings\<close>

text \<open>
  \<open>my_calls\<close> are the calls asleep: the thread, where it is and the count to restore when the call ends a
  condition wait; \<open>my_saved\<close> are the counts condition waits have given up and not yet asked back; \<open>my_held\<close>
  counts what each thread has acquired and not released. A thread can have several calls under way: the
  signal handlers it runs between two looks may call in again.
\<close>

record mutex_sys =
  my_mutex :: mutex
  my_calls :: "nat \<Rightarrow> (nat \<times> mutex_call \<times> u32 option) option"
  my_saved :: "nat \<Rightarrow> (nat \<times> u32) option"
  my_held :: "nat \<Rightarrow> nat"

definition mutex_resume :: "nat \<Rightarrow> mutex_call \<Rightarrow> u32 option \<Rightarrow> nat \<Rightarrow> mutex \<Rightarrow> mutex \<times> mutex_call" where
  "mutex_resume self call recurse now m =
     (case recurse of
        None \<Rightarrow> NativeMutexLock_resume self call now m
      | Some u \<Rightarrow> lock_recurse_end u (NativeMutexLock_resume self call now m))"

definition credit :: "host_error \<Rightarrow> u32 option \<Rightarrow> nat \<Rightarrow> (nat \<Rightarrow> nat) \<Rightarrow> nat \<Rightarrow> nat" where
  "credit r recurse self held =
     (if r \<noteq> H_OK then held
      else held(self := (case recurse of None \<Rightarrow> held self + 1 | Some u \<Rightarrow> unat (max u 1))))"

inductive mutex_step :: "mutex_sys \<Rightarrow> mutex_sys \<Rightarrow> bool" where
  mutex_lock_return:
    "NativeMutexLock self us now (my_mutex y) = (m, Mutex_Returned r) \<Longrightarrow>
       mutex_step y (y\<lparr>my_mutex := m, my_held := credit r None self (my_held y)\<rparr>)"
| mutex_lock_block:
    "NativeMutexLock self us now (my_mutex y) = (m, call) \<Longrightarrow> (\<And>r. call \<noteq> Mutex_Returned r) \<Longrightarrow> my_calls y k = None \<Longrightarrow>
       mutex_step y (y\<lparr>my_mutex := m, my_calls := (my_calls y)(k \<mapsto> (self, call, None))\<rparr>)"
| mutex_look_return:
    "my_calls y k = Some (self, call, recurse) \<Longrightarrow>
       mutex_resume self call recurse now (my_mutex y) = (m, Mutex_Returned r) \<Longrightarrow>
       mutex_step y (y\<lparr>my_mutex := m, my_calls := (my_calls y)(k := None), my_held := credit r recurse self (my_held y)\<rparr>)"
| mutex_look_block:
    "my_calls y k = Some (self, call, recurse) \<Longrightarrow>
       mutex_resume self call recurse now (my_mutex y) = (m, call') \<Longrightarrow> (\<And>r. call' \<noteq> Mutex_Returned r) \<Longrightarrow>
       mutex_step y (y\<lparr>my_mutex := m, my_calls := (my_calls y)(k \<mapsto> (self, call', recurse))\<rparr>)"
| mutex_trylock:
    "NativeMutexTrylock self (my_mutex y) = (m, r) \<Longrightarrow>
       mutex_step y (y\<lparr>my_mutex := m, my_held := credit r None self (my_held y)\<rparr>)"
| mutex_unlock:
    "NativeMutexUnlock self (my_mutex y) = (m, r) \<Longrightarrow>
       mutex_step y (y\<lparr>my_mutex := m,
         my_held := if r = H_OK then (my_held y)(self := my_held y self - 1) else my_held y\<rparr>)"
| mutex_cond_unlock:
    "NativeMutexUnlock_recurse self (my_mutex y) = (m, H_OK, u) \<Longrightarrow> my_saved y k = None \<Longrightarrow>
       mutex_step y (y\<lparr>my_mutex := m, my_saved := (my_saved y)(k \<mapsto> (self, u)), my_held := (my_held y)(self := 0)\<rparr>)"
| mutex_relock_return:
    "my_saved y k = Some (self, u) \<Longrightarrow> NativeMutexLockRecurse self u now (my_mutex y) = (m, Mutex_Returned r) \<Longrightarrow>
       mutex_step y (y\<lparr>my_mutex := m, my_saved := (my_saved y)(k := None), my_held := credit r (Some u) self (my_held y)\<rparr>)"
| mutex_relock_block:
    "my_saved y k = Some (self, u) \<Longrightarrow> NativeMutexLockRecurse self u now (my_mutex y) = (m, call) \<Longrightarrow>
       (\<And>r. call \<noteq> Mutex_Returned r) \<Longrightarrow> my_calls y k = None \<Longrightarrow>
       mutex_step y (y\<lparr>my_mutex := m, my_saved := (my_saved y)(k := None),
         my_calls := (my_calls y)(k \<mapsto> (self, call, Some u))\<rparr>)"

definition new_mutex :: "string \<Rightarrow> mutexattr \<Rightarrow> mutex" where
  "new_mutex name attr =
     \<lparr>mx_name = name, mx_owner = None, mx_count = 0, mx_type = ma_type attr, mx_pprotocol = ma_pprotocol attr\<rparr>"

definition mutex_init :: "mutex_sys \<Rightarrow> bool" where
  "mutex_init y \<longleftrightarrow> (\<exists>name attr. my_mutex y = new_mutex name attr) \<and> my_calls y = Map.empty \<and>
     my_saved y = Map.empty \<and> my_held y = (\<lambda>_. 0)"

section \<open>The invariant\<close>

text \<open>\<open>units m\<close> is what each thread holds by the fields of the object.\<close>

definition units :: "mutex \<Rightarrow> nat \<Rightarrow> nat" where
  "units m = (\<lambda>t. if mx_owner m = Some t then unat (mx_count m) else 0)"

definition mutex_ok :: "mutex \<Rightarrow> bool" where
  "mutex_ok m \<longleftrightarrow> (mx_owner m = None \<longleftrightarrow> mx_count m = 0) \<and> (mx_type m \<noteq> 2 \<longrightarrow> mx_count m \<le> 1)"

definition restores :: "mutex \<Rightarrow> u32 \<Rightarrow> bool" where
  "restores m u \<longleftrightarrow> (mx_type m \<noteq> 2 \<longrightarrow> u \<le> 1)"

definition mutex_sys_inv :: "mutex_sys \<Rightarrow> bool" where
  "mutex_sys_inv y \<longleftrightarrow> mutex_ok (my_mutex y) \<and> my_held y = units (my_mutex y) \<and>
     (\<forall>k t c ru. my_calls y k = Some (t, c, ru) \<longrightarrow>
        (\<forall>r. c \<noteq> Mutex_Returned r) \<and> (\<forall>u. ru = Some u \<longrightarrow> restores (my_mutex y) u)) \<and>
     (\<forall>k t u. my_saved y k = Some (t, u) \<longrightarrow> restores (my_mutex y) u)"

text \<open>What an operation may do: keep the type and the meaning of the counts.\<close>

definition mutex_moves :: "mutex \<Rightarrow> mutex \<Rightarrow> (nat \<Rightarrow> nat) \<Rightarrow> bool" where
  "mutex_moves m m' held \<longleftrightarrow> mutex_ok m' \<and> units m' = held \<and> mx_type m' = mx_type m"

lemma count_Suc: "(c :: u32) \<noteq> 4294967295 \<Longrightarrow> unat (c + 1) = Suc (unat c) \<and> c + 1 \<noteq> 0"
proof -
  assume c: "c \<noteq> 4294967295"
  have "c + 1 \<noteq> 0"
  proof
    assume "c + 1 = 0"
    then have "c = - 1" by (simp add: eq_neg_iff_add_eq_0)
    then show False using c by simp
  qed
  then show ?thesis using unatSuc [of c] by (simp add: add.commute)
qed

lemma acquire_moves: "mutex_ok m \<Longrightarrow> mx_owner m = None \<Longrightarrow> mutex_moves m (mutex_acquire self m) ((units m)(self := Suc (units m self)))"
  by (auto simp: mutex_moves_def mutex_ok_def units_def mutex_acquire_def)

lemma again_moves:
  "mutex_ok m \<Longrightarrow> mx_owner m = Some self \<Longrightarrow> mx_type m = 2 \<Longrightarrow> mx_count m \<noteq> 4294967295 \<Longrightarrow>
     mutex_moves m (m\<lparr>mx_count := mx_count m + 1\<rparr>) ((units m)(self := Suc (units m self)))"
  using count_Suc [of "mx_count m"] by (auto simp: mutex_moves_def mutex_ok_def units_def)

lemma stay_moves: "mutex_ok m \<Longrightarrow> mutex_moves m m (units m)"
  by (simp add: mutex_moves_def)

lemma look_moves:
  "mutex_ok m \<Longrightarrow> mutex_look self d now m = (m', c) \<Longrightarrow>
     mutex_moves m m' (if c = Mutex_Returned H_OK then (units m)(self := Suc (units m self)) else units m)"
  by (auto simp: mutex_look_def acquire_moves stay_moves split: if_splits option.splits)

lemma lock_moves:
  "mutex_ok m \<Longrightarrow> NativeMutexLock self us now m = (m', c) \<Longrightarrow>
     mutex_moves m m' (if c = Mutex_Returned H_OK then (units m)(self := Suc (units m self)) else units m)"
  by (auto simp: NativeMutexLock_def again_moves stay_moves acquire_moves look_moves split: if_splits option.splits
      dest: look_moves)

lemma try_moves:
  "mutex_ok m \<Longrightarrow> NativeMutexTrylock self m = (m', r) \<Longrightarrow>
     mutex_moves m m' (if r = H_OK then (units m)(self := Suc (units m self)) else units m)"
  by (auto simp: NativeMutexTrylock_def again_moves stay_moves acquire_moves split: if_splits)

lemma unlock_moves:
  assumes "mutex_ok m" "NativeMutexUnlock self m = (m', r)"
  shows "mutex_moves m m' (if r = H_OK then (units m)(self := units m self - 1) else units m)"
proof (cases "mx_owner m = Some self")
  case True
  have c: "unat (mx_count m - 1) = unat (mx_count m) - 1" if "mx_count m > 1"
    using that by (simp add: unat_sub_if' word_less_nat_alt)
  have one: "mx_count m = 1" if "\<not> (mx_type m = 2 \<and> mx_count m > 1)"
  proof -
    have "mx_count m \<noteq> 0" "mx_count m \<le> 1" using assms(1) True that by (auto simp: mutex_ok_def)
    then show ?thesis using word_le_less_eq [of "mx_count m" 1] by (auto simp: word_less_1)
  qed
  have nz: "mx_count m - 1 \<noteq> 0" if "mx_count m > 1" using that by auto
  show ?thesis
  proof (cases "mx_type m = 2 \<and> mx_count m > 1")
    case True
    then show ?thesis
      using assms \<open>mx_owner m = Some self\<close> c nz
      by (auto simp: NativeMutexUnlock_def mutex_release_def mutex_moves_def mutex_ok_def units_def)
  next
    case False
    then show ?thesis
      using assms \<open>mx_owner m = Some self\<close> one
      by (auto simp: NativeMutexUnlock_def mutex_release_def mutex_moves_def mutex_ok_def units_def)
  qed
qed (use assms in \<open>simp add: NativeMutexUnlock_def stay_moves\<close>)

lemma unlock_recurse_moves:
  "mutex_ok m \<Longrightarrow> NativeMutexUnlock_recurse self m = (m', H_OK, u) \<Longrightarrow>
     mutex_moves m m' ((units m)(self := 0)) \<and> restores m u"
  by (auto simp: NativeMutexUnlock_recurse_def mutex_release_def mutex_moves_def mutex_ok_def units_def restores_def
      split: if_splits)

lemma recurse_moves:
  assumes "restores m u" "mutex_moves m m' (if c = Mutex_Returned H_OK then (units m)(self := Suc (units m self)) else units m)"
    and "lock_recurse_end u (m', c) = (m'', c'')"
  shows "c'' = c" "mutex_moves m m'' (if c = Mutex_Returned H_OK then (units m)(self := unat (max u 1)) else units m)"
proof -
  show "c'' = c" using assms(3) by (auto simp: lock_recurse_end_def split: mutex_call.splits host_error.splits)
  show "mutex_moves m m'' (if c = Mutex_Returned H_OK then (units m)(self := unat (max u 1)) else units m)"
  proof (cases "c = Mutex_Returned H_OK")
    case True
    have m'': "m'' = m'\<lparr>mx_count := max u 1\<rparr>" using assms(3) True by (auto simp: lock_recurse_end_def)
    have u: "units m' = (units m)(self := Suc (units m self))" using assms(2) True by (simp add: mutex_moves_def)
    have "units m' self \<noteq> 0" using u by simp
    then have o: "mx_owner m' = Some self" by (simp add: units_def split: if_splits)
    have others: "units m t = 0" if "t \<noteq> self" for t using fun_cong [OF u, of t] o that by (simp add: units_def)
    have "max u 1 \<noteq> 0" "mx_type m \<noteq> 2 \<Longrightarrow> max u 1 \<le> 1" using assms(1) by (auto simp: restores_def max_def)
    then show ?thesis
      using assms(2) True others o by (auto simp: m'' mutex_moves_def mutex_ok_def units_def fun_eq_iff)
  next
    case False
    then have "m'' = m'" using assms(3) by (auto simp: lock_recurse_end_def split: mutex_call.splits host_error.splits)
    then show ?thesis using assms(2) False by simp
  qed
qed

lemma resume_moves:
  assumes "mutex_ok m" "\<forall>u. recurse = Some u \<longrightarrow> restores m u" "mutex_resume self c recurse now m = (m', c')"
    and "\<And>r. c \<noteq> Mutex_Returned r"
  shows "mutex_moves m m' (case c' of Mutex_Returned r \<Rightarrow> credit r recurse self (units m) | _ \<Rightarrow> units m)"
proof -
  obtain m1 c1 where l: "NativeMutexLock_resume self c now m = (m1, c1)" by (metis prod.exhaust)
  have mv: "mutex_moves m m1 (if c1 = Mutex_Returned H_OK then (units m)(self := Suc (units m self)) else units m)"
  proof (cases c)
    case (Mutex_Blocked d)
    then show ?thesis using l look_moves [OF assms(1), of self d now m1 c1] by (simp add: NativeMutexLock_resume_def)
  qed (use l assms(1,4) in \<open>auto simp: NativeMutexLock_resume_def stay_moves\<close>)
  show ?thesis
  proof (cases recurse)
    case None
    then have "m' = m1" "c' = c1" using assms(3) l by (simp_all add: mutex_resume_def)
    then show ?thesis using mv None by (auto simp: credit_def split: mutex_call.splits)
  next
    case (Some u)
    then have e: "lock_recurse_end u (m1, c1) = (m', c')" using assms(3) l by (simp add: mutex_resume_def)
    have r: "restores m u" using assms(2) Some by simp
    show ?thesis using recurse_moves [OF r mv e] Some by (auto simp: credit_def split: mutex_call.splits)
  qed
qed

lemma relock_moves:
  assumes "mutex_ok m" "restores m u" "NativeMutexLockRecurse self u now m = (m', c)"
  shows "mutex_moves m m' (case c of Mutex_Returned r \<Rightarrow> credit r (Some u) self (units m) | _ \<Rightarrow> units m)"
proof -
  obtain m1 c1 where l: "NativeMutexLock self None now m = (m1, c1)" by (metis prod.exhaust)
  have e: "lock_recurse_end u (m1, c1) = (m', c)" using assms(3) l by (simp add: NativeMutexLockRecurse_def)
  show ?thesis using recurse_moves [OF assms(2) lock_moves [OF assms(1) l] e] by (auto simp: credit_def split: mutex_call.splits)
qed

lemma moves_inv:
  assumes "mutex_sys_inv y" "mutex_moves (my_mutex y) (my_mutex y') (my_held y')"
    and "\<And>k t c ru. my_calls y' k = Some (t, c, ru) \<Longrightarrow>
           my_calls y k = Some (t, c, ru) \<or> (\<forall>r. c \<noteq> Mutex_Returned r) \<and> (\<forall>u. ru = Some u \<longrightarrow> restores (my_mutex y) u)"
    and "\<And>k t u. my_saved y' k = Some (t, u) \<Longrightarrow> my_saved y k = Some (t, u) \<or> restores (my_mutex y) u"
  shows "mutex_sys_inv y'"
proof -
  have ty: "mx_type (my_mutex y') = mx_type (my_mutex y)" using assms(2) by (simp add: mutex_moves_def)
  have r: "restores (my_mutex y') u = restores (my_mutex y) u" for u by (simp add: restores_def ty)
  have "(\<forall>r. c \<noteq> Mutex_Returned r) \<and> (\<forall>u. ru = Some u \<longrightarrow> restores (my_mutex y) u)"
    if "my_calls y' k = Some (t, c, ru)" for k t c ru
    using assms(3) [OF that] assms(1) unfolding mutex_sys_inv_def by blast
  moreover have "restores (my_mutex y) u" if "my_saved y' k = Some (t, u)" for k t u
    using assms(4) [OF that] assms(1) unfolding mutex_sys_inv_def by blast
  ultimately show ?thesis using assms(2) unfolding mutex_sys_inv_def mutex_moves_def r by auto
qed

lemma credit_None: "credit r None self held = (if r = H_OK then held(self := Suc (held self)) else held)"
  by (simp add: credit_def)

lemma mutex_step_inv:
  assumes "mutex_sys_inv y" "mutex_step y y'"
  shows "mutex_sys_inv y'"
  using assms(2)
proof cases
  have ok: "mutex_ok (my_mutex y)" and held: "my_held y = units (my_mutex y)"
    and calls: "\<And>k t c ru. my_calls y k = Some (t, c, ru) \<Longrightarrow>
      (\<forall>r. c \<noteq> Mutex_Returned r) \<and> (\<forall>u. ru = Some u \<longrightarrow> restores (my_mutex y) u)"
    and saved: "\<And>k t u. my_saved y k = Some (t, u) \<Longrightarrow> restores (my_mutex y) u"
    using assms(1) unfolding mutex_sys_inv_def by blast+
  {
    case (mutex_lock_return self us now m r)
    show ?thesis by (rule moves_inv [OF assms(1)])
      (use lock_moves [OF ok mutex_lock_return(2)] held in \<open>auto simp: mutex_lock_return(1) credit_None\<close>)
  next
    case (mutex_lock_block self us now m call k)
    show ?thesis by (rule moves_inv [OF assms(1)])
      (use lock_moves [OF ok mutex_lock_block(2)] held mutex_lock_block(3)
        in \<open>auto simp: mutex_lock_block(1) split: if_splits\<close>)
  next
    case (mutex_look_return k self call recurse now m r)
    have c: "\<And>r. call \<noteq> Mutex_Returned r" "\<forall>u. recurse = Some u \<longrightarrow> restores (my_mutex y) u"
      using calls [OF mutex_look_return(2)] by blast+
    show ?thesis by (rule moves_inv [OF assms(1)])
      (use resume_moves [OF ok c(2) mutex_look_return(3) c(1)] held in \<open>auto simp: mutex_look_return(1) split: if_splits\<close>)
  next
    case (mutex_look_block k self call recurse now m call')
    have c: "\<And>r. call \<noteq> Mutex_Returned r" "\<forall>u. recurse = Some u \<longrightarrow> restores (my_mutex y) u"
      using calls [OF mutex_look_block(2)] by blast+
    have "mutex_moves (my_mutex y) m (units (my_mutex y))"
      using resume_moves [OF ok c(2) mutex_look_block(3) c(1)] mutex_look_block(4) by (cases call') auto
    then show ?thesis by - (rule moves_inv [OF assms(1)],
      use held c(2) mutex_look_block(4) in \<open>auto simp: mutex_look_block(1) split: if_splits\<close>)
  next
    case (mutex_trylock self m r)
    show ?thesis by (rule moves_inv [OF assms(1)])
      (use try_moves [OF ok mutex_trylock(2)] held in \<open>auto simp: mutex_trylock(1) credit_None\<close>)
  next
    case (mutex_unlock self m r)
    show ?thesis by (rule moves_inv [OF assms(1)])
      (use unlock_moves [OF ok mutex_unlock(2)] held in \<open>auto simp: mutex_unlock(1)\<close>)
  next
    case (mutex_cond_unlock self m u k)
    show ?thesis by (rule moves_inv [OF assms(1)])
      (use unlock_recurse_moves [OF ok mutex_cond_unlock(2)] held in \<open>auto simp: mutex_cond_unlock(1) split: if_splits\<close>)
  next
    case (mutex_relock_return k self u now m r)
    show ?thesis by (rule moves_inv [OF assms(1)])
      (use relock_moves [OF ok saved [OF mutex_relock_return(2)] mutex_relock_return(3)] held
        in \<open>auto simp: mutex_relock_return(1) split: if_splits\<close>)
  next
    case (mutex_relock_block k self u now m call)
    have "mutex_moves (my_mutex y) m (units (my_mutex y))"
      using relock_moves [OF ok saved [OF mutex_relock_block(2)] mutex_relock_block(3)] mutex_relock_block(4)
      by (cases call) auto
    then show ?thesis by - (rule moves_inv [OF assms(1)],
      use held saved [OF mutex_relock_block(2)] mutex_relock_block(4) in \<open>auto simp: mutex_relock_block(1) split: if_splits\<close>)
  }
qed

lemma mutex_init_inv: "mutex_init y \<Longrightarrow> mutex_sys_inv y"
  by (auto simp: mutex_init_def mutex_sys_inv_def new_mutex_def mutex_ok_def units_def fun_eq_iff)

interpretation mutex_run: step_invariant mutex_init mutex_step mutex_sys_inv
  by unfold_locales (auto intro: mutex_init_inv mutex_step_inv)

section \<open>Properties\<close>

text \<open>
  C4: mutual exclusion, and counts that mean what was acquired. In every reachable state at most one thread
  holds the mutex, the owner field names exactly that thread and the count is what it has acquired and not
  released, whatever tries, time-outs, condition waits and signal handlers interleave; only a recursive
  mutex is held more than once; and only the owner can unlock.
\<close>

theorem mutex_exclusive:
  assumes "reachable mutex_init mutex_step y"
  shows "(0 < my_held y t \<longleftrightarrow> mx_owner (my_mutex y) = Some t) \<and>
    (0 < my_held y t \<and> 0 < my_held y u \<longrightarrow> t = u) \<and>
    (0 < my_held y t \<longrightarrow> my_held y t = unat (mx_count (my_mutex y))) \<and>
    (mx_type (my_mutex y) \<noteq> 2 \<longrightarrow> my_held y t \<le> 1) \<and>
    (my_held y t = 0 \<longrightarrow> NativeMutexUnlock t (my_mutex y) = (my_mutex y, H_EPERM))"
proof -
  have ok: "mutex_ok (my_mutex y)" and held: "my_held y = units (my_mutex y)"
    using mutex_run.reachable_inv [OF assms] by (simp_all add: mutex_sys_inv_def)
  have pos: "0 < units (my_mutex y) t \<longleftrightarrow> mx_owner (my_mutex y) = Some t" for t
    using ok by (auto simp: units_def mutex_ok_def unat_gt_0)
  have "units (my_mutex y) t \<le> 1" if "mx_type (my_mutex y) \<noteq> 2"
    using ok that by (auto simp: units_def mutex_ok_def word_le_nat_alt)
  then show ?thesis using pos [of t] pos [of u] unfolding held by (auto simp: NativeMutexUnlock_def units_def split: if_splits)
qed

definition plain_attr :: mutexattr where
  "plain_attr = \<lparr>ma_p = Host_Errorcheck, ma_pprotocol = PRIO_NONE, ma_type = 1\<rparr>"

definition mutex_start :: mutex_sys where
  "mutex_start = \<lparr>my_mutex = new_mutex ''m'' plain_attr, my_calls = Map.empty, my_saved = Map.empty, my_held = (\<lambda>_. 0)\<rparr>"

lemma mutex_start_reachable:
  "reachable mutex_init mutex_step
     (mutex_start\<lparr>my_mutex := mutex_acquire 7 (my_mutex mutex_start), my_held := credit H_OK None 7 (my_held mutex_start)\<rparr>)"
proof (rule reachable_step)
  show "reachable mutex_init mutex_step mutex_start"
    by (rule reachable_init) (auto simp: mutex_init_def mutex_start_def)
  show "mutex_step mutex_start
      (mutex_start\<lparr>my_mutex := mutex_acquire 7 (my_mutex mutex_start), my_held := credit H_OK None 7 (my_held mutex_start)\<rparr>)"
    by (rule mutex_lock_return [where us = None and now = 0]) (simp add: NativeMutexLock_def mutex_look_def mutex_start_def new_mutex_def)
qed

lemma mutex_exclusive_witness:
  "NativeMutexUnlock 8 (mutex_acquire 7 (my_mutex mutex_start)) = (mutex_acquire 7 (my_mutex mutex_start), H_EPERM)"
  using mutex_exclusive [OF mutex_start_reachable, of 8] by (simp add: credit_def mutex_start_def)

text \<open>
  A whole call: its first part, then one resumption for every time it wakes, with the clock and the object it
  meets there; \<open>None\<close> when it is still asleep after those.
\<close>

fun mutex_wait :: "nat \<Rightarrow> mutex \<times> mutex_call \<Rightarrow> (nat \<times> mutex) list \<Rightarrow> (mutex \<times> host_error) option" where
  "mutex_wait self (m, call) looks =
     (case call of
        Mutex_Returned r \<Rightarrow> Some (m, r)
      | _ \<Rightarrow> (case looks of
               [] \<Rightarrow> None
             | (now, m') # looks' \<Rightarrow> mutex_wait self (NativeMutexLock_resume self call now m') looks'))"

declare mutex_wait.simps [simp del]

definition NativeMutexLock_timed :: "nat \<Rightarrow> nat \<Rightarrow> nat \<Rightarrow> mutex \<Rightarrow> (nat \<times> mutex) list \<Rightarrow> (mutex \<times> host_error) option" where
  "NativeMutexLock_timed self us now m looks = mutex_wait self (NativeMutexLock self (Some us) now m) looks"

text \<open>The first test that finds the mutex free or the deadline passed ends the loop.\<close>

definition decided_at :: "nat \<Rightarrow> nat \<Rightarrow> (nat \<times> mutex) list \<Rightarrow> (mutex \<times> host_error) option \<Rightarrow> bool" where
  "decided_at self d tests result \<longleftrightarrow>
     (\<exists>pre now m post. tests = pre @ (now, m) # post \<and>
        (\<forall>(x, n)\<in>set pre. mx_owner n \<noteq> None \<and> x < d) \<and> (mx_owner m = None \<or> d \<le> now) \<and>
        result = Some (if mx_owner m = None then (mutex_acquire self m, H_OK) else (m, H_ETIMEDOUT)))"

lemma decided_now:
  "mx_owner m = None \<or> d \<le> now \<Longrightarrow>
     result = Some (if mx_owner m = None then (mutex_acquire self m, H_OK) else (m, H_ETIMEDOUT)) \<Longrightarrow>
     decided_at self d ((now, m) # looks) result"
  unfolding decided_at_def by (intro exI [of _ "[]"] exI [of _ now] exI [of _ m] exI [of _ looks]) simp

lemma decided_later:
  assumes "mx_owner m \<noteq> None" "now < d" "decided_at self d looks result"
  shows "decided_at self d ((now, m) # looks) result"
proof -
  obtain pre x n post where "looks = pre @ (x, n) # post" "\<forall>(x, n)\<in>set pre. mx_owner n \<noteq> None \<and> x < d"
    "mx_owner n = None \<or> d \<le> x"
    "result = Some (if mx_owner n = None then (mutex_acquire self n, H_OK) else (n, H_ETIMEDOUT))"
    using assms(3) unfolding decided_at_def by blast
  then show ?thesis
    unfolding decided_at_def using assms(1,2)
    by (intro exI [of _ "(now, m) # pre"] exI [of _ x] exI [of _ n] exI [of _ post]) simp
qed

lemma mutex_wait_decided:
  assumes "mx_owner m = None \<or> d \<le> now \<or> (\<exists>(t, n)\<in>set looks. d \<le> t)"
  shows "decided_at self d ((now, m) # looks) (mutex_wait self (mutex_look self (Some d) now m) looks)"
  using assms
proof (induction looks arbitrary: now m)
  case Nil
  then show ?case by (intro decided_now) (auto simp: mutex_look_def mutex_wait.simps)
next
  case (Cons l looks)
  show ?case
  proof (cases "mx_owner m = None \<or> d \<le> now")
    case True
    then show ?thesis by (intro decided_now) (auto simp: mutex_look_def mutex_wait.simps)
  next
    case False
    obtain t n where l: "l = (t, n)" by (cases l)
    have "mx_owner n = None \<or> d \<le> t \<or> (\<exists>(t, n)\<in>set looks. d \<le> t)" using Cons.prems False l by auto
    then have "decided_at self d (l # looks) (mutex_wait self (mutex_look self (Some d) t n) looks)"
      unfolding l by (rule Cons.IH)
    moreover have "mutex_wait self (mutex_look self (Some d) now m) (l # looks) =
        mutex_wait self (mutex_look self (Some d) t n) looks"
      using False by (auto simp: l mutex_look_def [of self "Some d" now m] mutex_wait.simps [of self m _ "(t, n) # looks"]
          NativeMutexLock_resume_def)
    ultimately show ?thesis using False by (intro decided_later) auto
  qed
qed

text \<open>
  C27: a timed lock returns, and with the right result. The deadline is the time-out after the call. When another
  thread or nobody owns the mutex at the call, the call ends at the first test, the one at the call included, that
  finds the mutex free, which it takes, or the deadline passed, which leaves it as it was; one wake-up at or after
  the deadline is enough. The owner of a recursive mutex returns at once, with one more count or \<open>EAGAIN\<close> at the
  top; the owner of any other times out, at once or after one sleep. A sleep is positive, never longer than the
  time left, and, except for the owner's, never longer than the signal polling interval.
\<close>

theorem mutex_timed_wait:
  assumes "(t, n) \<in> set looks" "t0 + us * 1000 \<le> t"
  shows "(mx_owner m \<noteq> Some self \<longrightarrow>
            decided_at self (t0 + us * 1000) ((t0, m) # looks) (NativeMutexLock_timed self us t0 m looks)) \<and>
         (mx_owner m = Some self \<longrightarrow>
            NativeMutexLock_timed self us t0 m looks =
              (if mx_type m = 2
               then if mx_count m = 4294967295 then Some (m, H_EAGAIN)
                    else Some (m\<lparr>mx_count := mx_count m + 1\<rparr>, H_OK)
               else Some (if us = 0 then m else snd (hd looks), H_ETIMEDOUT))) \<and>
         (case snd (NativeMutexLock self (Some us) t0 m) of
            Mutex_Returned r \<Rightarrow> True
          | Mutex_Blocked deadline \<Rightarrow> deadline = Some (t0 + us * 1000) \<and> mx_owner m \<noteq> Some self
          | Mutex_Blocked_Owner \<Rightarrow> mx_owner m = Some self \<and> 0 < us \<and>
              mutex_call_sleep us Mutex_Blocked_Owner t0 = us * 1000) \<and>
         (x < t0 + us * 1000 \<longrightarrow>
            0 < mutex_call_sleep us (Mutex_Blocked (Some (t0 + us * 1000))) x \<and>
            x + mutex_call_sleep us (Mutex_Blocked (Some (t0 + us * 1000))) x \<le> t0 + us * 1000 \<and>
            mutex_call_sleep us (Mutex_Blocked (Some (t0 + us * 1000))) x \<le> 10000000)"
proof (intro conjI impI)
  assume o: "mx_owner m \<noteq> Some self"
  show "decided_at self (t0 + us * 1000) ((t0, m) # looks) (NativeMutexLock_timed self us t0 m looks)"
  proof (cases "us = 0")
    case True
    then show ?thesis using o
      by (intro decided_now) (auto simp: NativeMutexLock_timed_def NativeMutexLock_def mutex_wait.simps)
  next
    case False
    then have "NativeMutexLock self (Some us) t0 m = mutex_look self (Some (t0 + us * 1000)) t0 m"
      using o by (simp add: NativeMutexLock_def)
    moreover have "\<exists>(t, n)\<in>set looks. t0 + us * 1000 \<le> t" using assms by blast
    ultimately show ?thesis
      using mutex_wait_decided [of m "t0 + us * 1000" t0 looks self] by (simp add: NativeMutexLock_timed_def)
  qed
next
  assume "mx_owner m = Some self"
  moreover obtain l ls where "looks = l # ls" using assms(1) by (cases looks) auto
  ultimately show "NativeMutexLock_timed self us t0 m looks =
      (if mx_type m = 2
       then if mx_count m = 4294967295 then Some (m, H_EAGAIN) else Some (m\<lparr>mx_count := mx_count m + 1\<rparr>, H_OK)
       else Some (if us = 0 then m else snd (hd looks), H_ETIMEDOUT))"
    by (cases l) (simp add: NativeMutexLock_timed_def NativeMutexLock_def mutex_wait.simps NativeMutexLock_resume_def)
next
  show "case snd (NativeMutexLock self (Some us) t0 m) of
            Mutex_Returned r \<Rightarrow> True
          | Mutex_Blocked deadline \<Rightarrow> deadline = Some (t0 + us * 1000) \<and> mx_owner m \<noteq> Some self
          | Mutex_Blocked_Owner \<Rightarrow> mx_owner m = Some self \<and> 0 < us \<and>
              mutex_call_sleep us Mutex_Blocked_Owner t0 = us * 1000"
    by (simp add: NativeMutexLock_def mutex_look_def mutex_call_sleep_def)
qed (auto simp: mutex_call_sleep_def mutex_sleep_def SIGNAL_APC_POLL_MICROS_def)

lemma mutex_timed_wait_witness:
  "NativeMutexLock_timed 7 1 0 (mutex_acquire 7 (my_mutex mutex_start)) [(2000, my_mutex mutex_start)]
     = Some (my_mutex mutex_start, H_ETIMEDOUT) \<and> mutex_call_sleep 1 (Mutex_Blocked (Some 1000)) 20 \<le> 980"
  using mutex_timed_wait [of 2000 "my_mutex mutex_start" "[(2000, my_mutex mutex_start)]" 0 1
      "mutex_acquire 7 (my_mutex mutex_start)" 7 20]
  by (simp add: mutex_start_def new_mutex_def mutex_acquire_def plain_attr_def)

text \<open>A try is a timed lock without time, up to the number of its error.\<close>

lemma mutex_trylock_timedlock:
  "NativeMutexLock self (Some 0) now m =
     (case NativeMutexTrylock self m of (m', r) \<Rightarrow> (m', Mutex_Returned (if r = H_EBUSY then H_ETIMEDOUT else r)))"
  by (simp add: NativeMutexLock_def NativeMutexTrylock_def)

text \<open>Giving all of a mutex up and asking it back while nobody took it restores the object.\<close>

lemma mutex_cond_roundtrip:
  assumes "mutex_ok m" "mx_owner m = Some self" "NativeMutexUnlock_recurse self m = (m', r, u)"
  shows "r = H_OK" "mx_owner m' = None" "NativeMutexLockRecurse self u now m' = (m, Mutex_Returned H_OK)"
proof -
  have m': "m' = m\<lparr>mx_owner := None, mx_count := 0\<rparr>" "r = H_OK" "u = mx_count m"
    using assms(2,3) by (auto simp: NativeMutexUnlock_recurse_def mutex_release_def)
  have "mx_count m \<noteq> 0" using assms(1,2) by (auto simp: mutex_ok_def)
  then have "max (mx_count m) 1 = mx_count m" by (simp add: max_def word_le_less_eq word_less_1)
  then show "r = H_OK" "mx_owner m' = None" "NativeMutexLockRecurse self u now m' = (m, Mutex_Returned H_OK)"
    using m' assms(2)
    by (auto simp: NativeMutexLockRecurse_def NativeMutexLock_def mutex_look_def mutex_acquire_def lock_recurse_end_def
        intro!: mutex.equality)
qed

end
