(* ===== verification/PthreadRwlock.thy ===== *)
theory PthreadRwlock
  imports PthreadMutex
begin

text \<open>
  The read-write locks of src/src/kernel/pthread.cpp on the object: readers counted per thread, one writer,
  and the count of waiting writers that keeps new readers out. \<open>self\<close> is \<open>None\<close> for a thread the library
  does not know. \<open>rw_look\<close> is one pass of the loop of \<open>RwlockLockCooperative\<close> under \<open>m\<close>; \<open>rw_step\<close> is
  every interleaving of the calls.
\<close>

section \<open>The object\<close>

record reader =
  rd_thread :: nat
  rd_count :: u32

record rwlock =
  rw_name :: string
  rw_writer :: "nat option"
  rw_writer_count :: u32
  rw_reader_count :: u32
  rw_waiting_writers :: u32
  rw_readers :: "reader list"

definition new_rwlock :: "string \<Rightarrow> rwlock" where
  "new_rwlock name =
     \<lparr>rw_name = name, rw_writer = None, rw_writer_count = 0, rw_reader_count = 0, rw_waiting_writers = 0, rw_readers = []\<rparr>"

definition RwlockFindReader :: "nat \<Rightarrow> reader list \<Rightarrow> reader option" where
  "RwlockFindReader thread readers = find (\<lambda>r. rd_thread r = thread) readers"

fun reader_inc :: "nat \<Rightarrow> reader list \<Rightarrow> reader list" where
  "reader_inc thread [] = []"
| "reader_inc thread (r # rs) =
     (if rd_thread r = thread then r\<lparr>rd_count := rd_count r + 1\<rparr> # rs else r # reader_inc thread rs)"

definition RwlockAddReader :: "nat \<Rightarrow> rwlock \<Rightarrow> rwlock" where
  "RwlockAddReader thread rw =
     rw\<lparr>rw_readers := (if RwlockFindReader thread (rw_readers rw) \<noteq> None then reader_inc thread (rw_readers rw)
                       else rw_readers rw @ [\<lparr>rd_thread = thread, rd_count = 1\<rparr>]),
        rw_reader_count := rw_reader_count rw + 1\<rparr>"

fun reader_dec :: "nat \<Rightarrow> reader list \<Rightarrow> reader list" where
  "reader_dec thread [] = []"
| "reader_dec thread (r # rs) =
     (if rd_thread r = thread
      then if rd_count r - 1 = 0 then rs else r\<lparr>rd_count := rd_count r - 1\<rparr> # rs
      else r # reader_dec thread rs)"

definition RwlockRemoveReader :: "nat \<Rightarrow> rwlock \<Rightarrow> rwlock \<times> bool" where
  "RwlockRemoveReader thread rw =
     (if RwlockFindReader thread (rw_readers rw) = None then (rw, False)
      else (rw\<lparr>rw_readers := reader_dec thread (rw_readers rw), rw_reader_count := rw_reader_count rw - 1\<rparr>, True))"

section \<open>Locking\<close>

text \<open>A call asleep is told by whether it is registered as a waiting writer.\<close>

datatype rw_call = Rw_Returned int | Rw_Blocked bool

definition unregister_writer_wait :: "bool \<Rightarrow> rwlock \<Rightarrow> rwlock" where
  "unregister_writer_wait registered rw =
     (if registered then rw\<lparr>rw_waiting_writers := rw_waiting_writers rw - 1\<rparr> else rw)"

definition may_read :: "nat \<Rightarrow> rwlock \<Rightarrow> bool" where
  "may_read self rw \<longleftrightarrow>
     (rw_writer rw = None \<and> (rw_waiting_writers rw = 0 \<or> RwlockFindReader self (rw_readers rw) \<noteq> None)) \<or>
     rw_writer rw = Some self"

text \<open>A time-out is its length in microseconds and the deadline.\<close>

definition rw_sleep_or_timeout :: "(nat \<times> nat) option \<Rightarrow> bool \<Rightarrow> nat \<Rightarrow> rwlock \<Rightarrow> rwlock \<times> rw_call" where
  "rw_sleep_or_timeout timeout registered now rw =
     (case timeout of
        None \<Rightarrow> (rw, Rw_Blocked registered)
      | Some (us, deadline) \<Rightarrow>
          if us = 0 \<or> now \<ge> deadline
          then (unregister_writer_wait registered rw, Rw_Returned KERNEL_ERROR_ETIMEDOUT)
          else (rw, Rw_Blocked registered))"

definition rw_look :: "nat \<Rightarrow> bool \<Rightarrow> (nat \<times> nat) option \<Rightarrow> bool \<Rightarrow> nat \<Rightarrow> rwlock \<Rightarrow> rwlock \<times> rw_call" where
  "rw_look self write timeout registered now rw =
     (if write
      then if rw_writer rw = Some self \<or> RwlockFindReader self (rw_readers rw) \<noteq> None
           then (unregister_writer_wait registered rw, Rw_Returned KERNEL_ERROR_EDEADLK)
           else if rw_writer rw = None \<and> rw_reader_count rw = 0
           then ((unregister_writer_wait registered rw)\<lparr>rw_writer := Some self, rw_writer_count := 1\<rparr>, Rw_Returned OK)
           else rw_sleep_or_timeout timeout True now
                  (if registered then rw else rw\<lparr>rw_waiting_writers := rw_waiting_writers rw + 1\<rparr>)
      else if may_read self rw then (RwlockAddReader self rw, Rw_Returned OK)
      else rw_sleep_or_timeout timeout registered now rw)"

text \<open>Up to the first sleep.\<close>

definition RwlockLockCooperative :: "nat option \<Rightarrow> bool \<Rightarrow> nat option \<Rightarrow> nat \<Rightarrow> rwlock \<Rightarrow> rwlock \<times> rw_call" where
  "RwlockLockCooperative self write timeout_us now rw =
     (case self of
        None \<Rightarrow> (rw, Rw_Returned KERNEL_ERROR_EINVAL)
      | Some t \<Rightarrow> rw_look t write (map_option (\<lambda>us. (us, now + us * 1000)) timeout_us) False now rw)"

definition rw_Tryrdlock :: "nat option \<Rightarrow> rwlock \<Rightarrow> rwlock \<times> int" where
  "rw_Tryrdlock self rw =
     (case self of
        None \<Rightarrow> (rw, KERNEL_ERROR_EINVAL)
      | Some t \<Rightarrow> if may_read t rw then (RwlockAddReader t rw, OK) else (rw, KERNEL_ERROR_EBUSY))"

definition rw_Trywrlock :: "nat option \<Rightarrow> rwlock \<Rightarrow> rwlock \<times> int" where
  "rw_Trywrlock self rw =
     (case self of
        None \<Rightarrow> (rw, KERNEL_ERROR_EINVAL)
      | Some t \<Rightarrow>
          if rw_writer rw = Some t \<or> RwlockFindReader t (rw_readers rw) \<noteq> None then (rw, KERNEL_ERROR_EDEADLK)
          else if rw_writer rw = None \<and> rw_reader_count rw = 0
          then (rw\<lparr>rw_writer := Some t, rw_writer_count := 1\<rparr>, OK)
          else (rw, KERNEL_ERROR_EBUSY))"

definition rw_Unlock :: "nat option \<Rightarrow> rwlock \<Rightarrow> (rwlock \<times> int) outcome" where
  "rw_Unlock self rw =
     (case self of
        None \<Rightarrow> Inr (rw, KERNEL_ERROR_EINVAL)
      | Some t \<Rightarrow>
          (case RwlockRemoveReader t rw of
             (rw', removed) \<Rightarrow>
               if removed then Inr (rw', OK)
               else if rw_writer rw' = Some t
               then exit_if (rw_writer_count rw' = 0)
                      (let rw' = rw'\<lparr>rw_writer_count := rw_writer_count rw' - 1\<rparr>
                       in Inr (if rw_writer_count rw' = 0 then rw'\<lparr>rw_writer := None\<rparr> else rw', OK))
               else Inr (rw', KERNEL_ERROR_EPERM)))"

definition rw_busy :: "rwlock \<Rightarrow> bool" where
  "rw_busy rw \<longleftrightarrow> rw_writer rw \<noteq> None \<or> rw_reader_count rw \<noteq> 0"

section \<open>The interleavings\<close>

text \<open>
  \<open>ry_calls\<close> are the calls asleep with their arguments, \<open>ry_reads\<close> and \<open>ry_writes\<close> count what each thread has
  acquired and not released. The steps assume that fewer than \<open>2 ^ 32 - 1\<close> read locks are held and fewer
  writers wait at a time, each of which is a call under way or a lock to release.
\<close>

record rw_sys =
  ry_lock :: rwlock
  ry_calls :: "nat \<Rightarrow> (nat \<times> bool \<times> (nat \<times> nat) option \<times> bool) option"
  ry_reads :: "nat \<Rightarrow> nat"
  ry_writes :: "nat \<Rightarrow> nat"

definition room :: "rwlock \<Rightarrow> bool" where
  "room rw \<longleftrightarrow> rw_reader_count rw \<noteq> 4294967295 \<and> rw_waiting_writers rw \<noteq> 4294967295"

definition credit_rw :: "int \<Rightarrow> bool \<Rightarrow> bool \<Rightarrow> nat \<Rightarrow> (nat \<Rightarrow> nat) \<Rightarrow> nat \<Rightarrow> nat" where
  "credit_rw r write kind self held = (if r = OK \<and> write = kind then held(self := Suc (held self)) else held)"

inductive rw_step :: "rw_sys \<Rightarrow> rw_sys \<Rightarrow> bool" where
  rw_lock_return:
    "room (ry_lock y) \<Longrightarrow> RwlockLockCooperative (Some self) write us now (ry_lock y) = (rw, Rw_Returned r) \<Longrightarrow>
       rw_step y (y\<lparr>ry_lock := rw, ry_reads := credit_rw r write False self (ry_reads y),
                    ry_writes := credit_rw r write True self (ry_writes y)\<rparr>)"
| rw_lock_block:
    "room (ry_lock y) \<Longrightarrow> RwlockLockCooperative (Some self) write us now (ry_lock y) = (rw, Rw_Blocked registered) \<Longrightarrow>
       ry_calls y k = None \<Longrightarrow>
       rw_step y (y\<lparr>ry_lock := rw,
         ry_calls := (ry_calls y)(k \<mapsto> (self, write, map_option (\<lambda>us. (us, now + us * 1000)) us, registered))\<rparr>)"
| rw_look_return:
    "room (ry_lock y) \<Longrightarrow> ry_calls y k = Some (self, write, timeout, registered) \<Longrightarrow>
       rw_look self write timeout registered now (ry_lock y) = (rw, Rw_Returned r) \<Longrightarrow>
       rw_step y (y\<lparr>ry_lock := rw, ry_calls := (ry_calls y)(k := None),
                    ry_reads := credit_rw r write False self (ry_reads y),
                    ry_writes := credit_rw r write True self (ry_writes y)\<rparr>)"
| rw_look_block:
    "room (ry_lock y) \<Longrightarrow> ry_calls y k = Some (self, write, timeout, registered) \<Longrightarrow>
       rw_look self write timeout registered now (ry_lock y) = (rw, Rw_Blocked registered') \<Longrightarrow>
       rw_step y (y\<lparr>ry_lock := rw, ry_calls := (ry_calls y)(k \<mapsto> (self, write, timeout, registered'))\<rparr>)"
| rw_tryrd:
    "room (ry_lock y) \<Longrightarrow> rw_Tryrdlock (Some self) (ry_lock y) = (rw, r) \<Longrightarrow>
       rw_step y (y\<lparr>ry_lock := rw, ry_reads := credit_rw r False False self (ry_reads y)\<rparr>)"
| rw_trywr:
    "rw_Trywrlock (Some self) (ry_lock y) = (rw, r) \<Longrightarrow>
       rw_step y (y\<lparr>ry_lock := rw, ry_writes := credit_rw r True True self (ry_writes y)\<rparr>)"
| rw_unlock:
    "rw_Unlock (Some self) (ry_lock y) = Inr (rw, r) \<Longrightarrow>
       rw_step y (y\<lparr>ry_lock := rw,
         ry_reads := if r = OK \<and> 0 < ry_reads y self then (ry_reads y)(self := ry_reads y self - 1) else ry_reads y,
         ry_writes := if r = OK \<and> ry_reads y self = 0 then (ry_writes y)(self := ry_writes y self - 1)
                      else ry_writes y\<rparr>)"

definition rw_init :: "rw_sys \<Rightarrow> bool" where
  "rw_init y \<longleftrightarrow> (\<exists>name. ry_lock y = new_rwlock name) \<and> ry_calls y = Map.empty \<and>
     ry_reads y = (\<lambda>_. 0) \<and> ry_writes y = (\<lambda>_. 0)"

section \<open>The readers\<close>

definition reads_of :: "reader list \<Rightarrow> nat \<Rightarrow> nat" where
  "reads_of readers t = (case RwlockFindReader t readers of None \<Rightarrow> 0 | Some r \<Rightarrow> unat (rd_count r))"

definition total_reads :: "reader list \<Rightarrow> nat" where
  "total_reads readers = sum_list (map (\<lambda>r. unat (rd_count r)) readers)"

definition readers_ok :: "reader list \<Rightarrow> bool" where
  "readers_ok readers \<longleftrightarrow> distinct (map rd_thread readers) \<and> (\<forall>r\<in>set readers. rd_count r \<noteq> 0)"

lemma find_reader_Cons:
  "RwlockFindReader t (r # rs) = (if rd_thread r = t then Some r else RwlockFindReader t rs)"
  by (simp add: RwlockFindReader_def)

lemma find_reader_Nil [simp]: "RwlockFindReader t [] = None"
  by (simp add: RwlockFindReader_def)

lemma find_reader_None: "RwlockFindReader t rs = None \<longleftrightarrow> t \<notin> rd_thread ` set rs"
  by (auto simp: RwlockFindReader_def find_None_iff)

lemma reads_of_simps [simp]:
  "reads_of [] t = 0" "reads_of (r # rs) t = (if rd_thread r = t then unat (rd_count r) else reads_of rs t)"
  by (simp_all add: reads_of_def find_reader_Cons)

lemma total_simps [simp]: "total_reads [] = 0" "total_reads (r # rs) = unat (rd_count r) + total_reads rs"
  "total_reads (rs @ rs') = total_reads rs + total_reads rs'"
  by (simp_all add: total_reads_def)

lemma reads_of_snoc:
  "t \<notin> rd_thread ` set rs \<Longrightarrow> reads_of (rs @ [\<lparr>rd_thread = t, rd_count = c\<rparr>]) u = (if u = t then unat c else reads_of rs u)"
  by (induction rs) auto

lemma reads_of_zero: "readers_ok rs \<Longrightarrow> reads_of rs t = 0 \<longleftrightarrow> t \<notin> rd_thread ` set rs"
  by (induction rs) (auto simp: readers_ok_def unat_eq_0)

lemma total_zero: "readers_ok rs \<Longrightarrow> total_reads rs = 0 \<longleftrightarrow> rs = []"
  by (cases rs) (auto simp: readers_ok_def unat_eq_0)

lemma count_le_total: "r \<in> set rs \<Longrightarrow> unat (rd_count r) \<le> total_reads rs"
  by (induction rs) auto

lemma reader_inc_props:
  assumes "t \<in> rd_thread ` set rs" "\<forall>r\<in>set rs. rd_count r \<noteq> 4294967295"
  shows "reads_of (reader_inc t rs) = (reads_of rs)(t := Suc (reads_of rs t)) \<and>
    map rd_thread (reader_inc t rs) = map rd_thread rs \<and> total_reads (reader_inc t rs) = Suc (total_reads rs) \<and>
    ((\<forall>r\<in>set rs. rd_count r \<noteq> 0) \<longrightarrow> (\<forall>r\<in>set (reader_inc t rs). rd_count r \<noteq> 0))"
  using assms
proof (induction rs)
  case (Cons r rs)
  show ?case
  proof (cases "rd_thread r = t")
    case True
    then show ?thesis using Cons.prems count_Suc [of "rd_count r"] by (auto simp: fun_eq_iff)
  next
    case False
    then have "t \<in> rd_thread ` set rs" using Cons.prems by auto
    note IH = Cons.IH [OF this]
    then show ?thesis using Cons.prems False by (auto simp: fun_eq_iff)
  qed
qed simp

lemma count_pred: "(c :: u32) \<noteq> 0 \<Longrightarrow> unat (c - 1) = unat c - 1"
  by (simp add: unat_sub_if' word_le_nat_alt unat_gt_0 Suc_le_eq)

lemma reader_dec_props:
  assumes "t \<in> rd_thread ` set rs" "readers_ok rs"
  shows "reads_of (reader_dec t rs) = (reads_of rs)(t := reads_of rs t - 1) \<and> readers_ok (reader_dec t rs) \<and>
    Suc (total_reads (reader_dec t rs)) = total_reads rs \<and> rd_thread ` set (reader_dec t rs) \<subseteq> rd_thread ` set rs"
  using assms
proof (induction rs)
  case (Cons r rs)
  have ok: "readers_ok rs" and new: "rd_thread r \<notin> rd_thread ` set rs" and c: "rd_count r \<noteq> 0"
    using Cons.prems(2) by (auto simp: readers_ok_def)
  have pos: "0 < unat (rd_count r)" using c by (simp add: unat_gt_0)
  show ?case
  proof (cases "rd_thread r = t")
    case True
    have t0: "reads_of rs t = 0" using reads_of_zero [OF ok] new True by simp
    show ?thesis
    proof (cases "rd_count r - 1 = 0")
      case one: True
      then have "unat (rd_count r) = 1" using count_pred [OF c] pos by simp
      then show ?thesis using True one ok t0 by (auto simp: fun_eq_iff)
    next
      case False
      then show ?thesis using True ok new count_pred [OF c] pos by (auto simp: fun_eq_iff readers_ok_def)
    qed
  next
    case False
    then have "t \<in> rd_thread ` set rs" using Cons.prems by auto
    from Cons.IH [OF this ok] show ?thesis using False new c by (auto simp: fun_eq_iff readers_ok_def)
  qed
qed simp

section \<open>The invariant\<close>

definition rw_ok :: "rwlock \<Rightarrow> bool" where
  "rw_ok rw \<longleftrightarrow> readers_ok (rw_readers rw) \<and> unat (rw_reader_count rw) = total_reads (rw_readers rw) \<and>
     (\<forall>r\<in>set (rw_readers rw). rw_writer rw = None \<or> rw_writer rw = Some (rd_thread r)) \<and>
     rw_writer_count rw = (if rw_writer rw = None then 0 else 1)"

definition writes_of :: "rwlock \<Rightarrow> nat \<Rightarrow> nat" where
  "writes_of rw t = (if rw_writer rw = Some t then 1 else 0)"

definition rw_moves :: "rwlock \<Rightarrow> rwlock \<Rightarrow> (nat \<Rightarrow> nat) \<Rightarrow> (nat \<Rightarrow> nat) \<Rightarrow> bool" where
  "rw_moves rw rw' reads writes \<longleftrightarrow> rw_ok rw' \<and> reads_of (rw_readers rw') = reads \<and> writes_of rw' = writes"

lemma add_reader_moves:
  assumes "rw_ok rw" "room rw" "may_read t rw"
  shows "rw_moves rw (RwlockAddReader t rw) ((reads_of (rw_readers rw))(t := Suc (reads_of (rw_readers rw) t))) (writes_of rw)"
    "rw_waiting_writers (RwlockAddReader t rw) = rw_waiting_writers rw"
proof -
  let ?rs = "rw_readers rw"
  have ok: "readers_ok ?rs" "unat (rw_reader_count rw) = total_reads ?rs" using assms(1) by (simp_all add: rw_ok_def)
  have c: "unat (rw_reader_count rw + 1) = Suc (total_reads ?rs)"
    using assms(2) ok(2) count_Suc [of "rw_reader_count rw"] by (simp add: room_def)
  have "rd_count r \<noteq> 4294967295" if "r \<in> set ?rs" for r
  proof
    assume "rd_count r = 4294967295"
    then have "4294967295 \<le> unat (rw_reader_count rw)" using count_le_total [OF that] ok(2) by simp
    moreover have "unat (rw_reader_count rw) < 2 ^ 32" using unsigned_less [of "rw_reader_count rw", where ?'a = nat] by simp
    ultimately have "unat (rw_reader_count rw) = unat (4294967295 :: u32)" by simp
    then have "rw_reader_count rw = 4294967295" by (simp only: word_unat_eq_iff)
    then show False using assms(2) by (simp add: room_def)
  qed
  then have small: "\<forall>r\<in>set ?rs. rd_count r \<noteq> 4294967295" by blast
  have w: "rw_writer rw = None \<or> rw_writer rw = Some t" using assms(3) by (auto simp: may_read_def)
  show "rw_moves rw (RwlockAddReader t rw) ((reads_of ?rs)(t := Suc (reads_of ?rs t))) (writes_of rw)"
  proof (cases "t \<in> rd_thread ` set ?rs")
    case True
    note i = reader_inc_props [OF True small]
    have th: "rd_thread ` set (reader_inc t ?rs) = rd_thread ` set ?rs" using i by (metis list.set_map)
    have "\<forall>r\<in>set (reader_inc t ?rs). rw_writer rw = None \<or> rw_writer rw = Some (rd_thread r)"
    proof -
      have "\<forall>x\<in>rd_thread ` set ?rs. rw_writer rw = None \<or> rw_writer rw = Some x" using assms(1) by (auto simp: rw_ok_def)
      then have "\<forall>x\<in>rd_thread ` set (reader_inc t ?rs). rw_writer rw = None \<or> rw_writer rw = Some x" by (simp only: th)
      then show ?thesis by blast
    qed
    then show ?thesis using True i ok assms(1) c
      by (auto simp: rw_moves_def rw_ok_def RwlockAddReader_def find_reader_None readers_ok_def writes_of_def fun_eq_iff)
  next
    case False
    have f: "RwlockFindReader t ?rs = None" using False by (simp add: find_reader_None)
    have a: "reads_of (?rs @ [\<lparr>rd_thread = t, rd_count = 1\<rparr>]) = (reads_of ?rs)(t := Suc (reads_of ?rs t))"
      using False reads_of_zero [OF ok(1)] by (simp add: fun_eq_iff reads_of_snoc)
    then show ?thesis using f ok assms(1) c False w
      by (auto simp: rw_moves_def rw_ok_def RwlockAddReader_def readers_ok_def writes_of_def fun_eq_iff)
  qed
qed (simp add: RwlockAddReader_def)

lemma rw_stay: "rw_ok rw \<Longrightarrow> rw_moves rw (unregister_writer_wait g rw) (reads_of (rw_readers rw)) (writes_of rw)"
  by (auto simp: rw_moves_def rw_ok_def unregister_writer_wait_def writes_of_def fun_eq_iff)

lemma rw_take:
  assumes "rw_ok rw" "rw_writer rw = None" "rw_reader_count rw = 0"
  shows "rw_moves rw ((unregister_writer_wait g rw)\<lparr>rw_writer := Some self, rw_writer_count := 1\<rparr>)
    (reads_of (rw_readers rw)) ((writes_of rw)(self := Suc (writes_of rw self)))"
proof -
  have "rw_readers rw = []" using assms total_zero [of "rw_readers rw"] by (simp add: rw_ok_def)
  then show ?thesis using assms
    by (auto simp: rw_moves_def rw_ok_def unregister_writer_wait_def writes_of_def fun_eq_iff readers_ok_def)
qed

lemma rw_wait_more:
  "rw_ok rw \<Longrightarrow> rw_moves rw (rw\<lparr>rw_waiting_writers := n\<rparr>) (reads_of (rw_readers rw)) (writes_of rw)"
  by (simp add: rw_moves_def rw_ok_def writes_of_def fun_eq_iff)

definition waits :: "rw_call \<Rightarrow> nat" where
  "waits c = (if c = Rw_Blocked True then 1 else 0)"

lemma rw_look_moves:
  assumes ok: "rw_ok rw" and rm: "room rw" and g: "g \<Longrightarrow> write" "g \<Longrightarrow> rw_waiting_writers rw \<noteq> 0"
    and l: "rw_look self write timeout g now rw = (rw', c)"
  shows "rw_moves rw rw'
      (case c of Rw_Returned r \<Rightarrow> credit_rw r write False self (reads_of (rw_readers rw)) | _ \<Rightarrow> reads_of (rw_readers rw))
      (case c of Rw_Returned r \<Rightarrow> credit_rw r write True self (writes_of rw) | _ \<Rightarrow> writes_of rw)"
    "unat (rw_waiting_writers rw') + (if g then 1 else 0) = unat (rw_waiting_writers rw) + waits c"
    "c = Rw_Blocked g' \<Longrightarrow> g' = write"
proof -
  have e: "KERNEL_ERROR_EDEADLK \<noteq> OK" "KERNEL_ERROR_ETIMEDOUT \<noteq> OK" by (simp_all add: errno_defs)
  have un: "unat (rw_waiting_writers (unregister_writer_wait g rw)) + (if g then 1 else 0) = unat (rw_waiting_writers rw)"
    using g(2) count_pred [of "rw_waiting_writers rw"] by (auto simp: unregister_writer_wait_def unat_gt_0 Suc_le_eq)
  let ?rw1 = "if g then rw else rw\<lparr>rw_waiting_writers := rw_waiting_writers rw + 1\<rparr>"
  have w1: "unat (rw_waiting_writers ?rw1) + (if g then 1 else 0) = unat (rw_waiting_writers rw) + 1"
    using rm count_Suc [of "rw_waiting_writers rw"] by (simp add: room_def)
  have w1z: "rw_waiting_writers ?rw1 \<noteq> 0"
    using rm g(2) count_Suc [of "rw_waiting_writers rw"] by (simp add: room_def)
  have m1: "rw_moves rw ?rw1 (reads_of (rw_readers rw)) (writes_of rw)"
    using rw_wait_more [OF ok] rw_stay [OF ok, of False] by (simp add: unregister_writer_wait_def)
  have un1: "unat (rw_waiting_writers (unregister_writer_wait True ?rw1)) + (if g then 1 else 0) = unat (rw_waiting_writers rw)"
    using w1 w1z count_pred [OF w1z] by (cases g) (simp_all add: unregister_writer_wait_def unat_gt_0 Suc_pred)
  have mu1: "rw_moves rw (unregister_writer_wait True ?rw1) (reads_of (rw_readers rw)) (writes_of rw)"
    using m1 by (auto simp: unregister_writer_wait_def rw_moves_def rw_ok_def writes_of_def fun_eq_iff)
  have sleep: "rw_sleep_or_timeout timeout h now x = (x, Rw_Blocked h) \<or>
      rw_sleep_or_timeout timeout h now x = (unregister_writer_wait h x, Rw_Returned KERNEL_ERROR_ETIMEDOUT)" for h x
    by (auto simp: rw_sleep_or_timeout_def split: option.split)
  have un0: "unregister_writer_wait False rw = rw" by (simp add: unregister_writer_wait_def)
  consider (deadlk) "write" "rw_writer rw = Some self \<or> RwlockFindReader self (rw_readers rw) \<noteq> None"
      "rw' = unregister_writer_wait g rw" "c = Rw_Returned KERNEL_ERROR_EDEADLK"
    | (take) "write" "rw_writer rw = None" "rw_reader_count rw = 0"
      "rw' = (unregister_writer_wait g rw)\<lparr>rw_writer := Some self, rw_writer_count := 1\<rparr>" "c = Rw_Returned OK"
    | (wsleep) "write" "rw' = ?rw1" "c = Rw_Blocked True"
    | (wtime) "write" "rw' = unregister_writer_wait True ?rw1" "c = Rw_Returned KERNEL_ERROR_ETIMEDOUT"
    | (read) "\<not> write" "may_read self rw" "rw' = RwlockAddReader self rw" "c = Rw_Returned OK"
    | (rsleep) "\<not> write" "rw' = rw" "c = Rw_Blocked False"
    | (rtime) "\<not> write" "rw' = rw" "c = Rw_Returned KERNEL_ERROR_ETIMEDOUT"
  proof (cases "write")
    case True
    note w = True
    show ?thesis
    proof (cases "rw_writer rw = Some self \<or> RwlockFindReader self (rw_readers rw) \<noteq> None")
      case True
      then show ?thesis using l w by (intro deadlk) (simp_all add: rw_look_def)
    next
      case dl: False
      show ?thesis
      proof (cases "rw_writer rw = None \<and> rw_reader_count rw = 0")
        case True
        then show ?thesis using l w dl by (intro take) (simp_all add: rw_look_def)
      next
        case False
        then have "rw_sleep_or_timeout timeout True now ?rw1 = (rw', c)" 
          using l unfolding rw_look_def by (simp only: w dl False if_True if_False)
        then show ?thesis using sleep [of True ?rw1] w by (elim disjE) (simp_all add: wsleep wtime)
      qed
    qed
  next
    case False
    note w = False
    have g0: "g = False" using g(1) w by (cases g) simp_all
    show ?thesis
    proof (cases "may_read self rw")
      case True
      then show ?thesis using l w by (intro read) (simp_all add: rw_look_def)
    next
      case False
      then have "rw_sleep_or_timeout timeout False now rw = (rw', c)" using l w g0 by (simp add: rw_look_def)
      then show ?thesis using sleep [of False rw] w un0 by (elim disjE) (simp_all add: rsleep rtime)
    qed
  qed
  note cs = this
  show "unat (rw_waiting_writers rw') + (if g then 1 else 0) = unat (rw_waiting_writers rw) + waits c"
    using cs
  proof cases
    case read
    then show ?thesis using g(1) add_reader_moves(2) [OF ok rm read(2)] by (auto simp: waits_def)
  next
    case take
    then show ?thesis using un by (simp add: waits_def)
  qed (use un un1 w1 g(1) in \<open>auto simp: waits_def\<close>)
  show "c = Rw_Blocked g' \<Longrightarrow> g' = write" using cs by cases auto
  show "rw_moves rw rw'
      (case c of Rw_Returned r \<Rightarrow> credit_rw r write False self (reads_of (rw_readers rw)) | _ \<Rightarrow> reads_of (rw_readers rw))
      (case c of Rw_Returned r \<Rightarrow> credit_rw r write True self (writes_of rw) | _ \<Rightarrow> writes_of rw)"
    using cs
  proof cases
    case deadlk
    then show ?thesis using rw_stay [OF ok] e by (simp add: credit_rw_def)
  next
    case take
    then show ?thesis using rw_take [OF ok] by (simp add: credit_rw_def)
  next
    case wsleep
    then show ?thesis using m1 by simp
  next
    case wtime
    then show ?thesis using mu1 e by (simp add: credit_rw_def)
  next
    case read
    then show ?thesis using add_reader_moves(1) [OF ok rm] by (simp add: credit_rw_def)
  qed (use rw_stay [OF ok, of False] e in \<open>simp_all add: credit_rw_def unregister_writer_wait_def\<close>)
qed

lemma rw_unlock_moves:
  assumes ok: "rw_ok rw" and u: "rw_Unlock (Some self) rw = Inr (rw', r)"
  shows "rw_moves rw rw'
      (if r = OK \<and> 0 < reads_of (rw_readers rw) self then (reads_of (rw_readers rw))(self := reads_of (rw_readers rw) self - 1)
       else reads_of (rw_readers rw))
      (if r = OK \<and> reads_of (rw_readers rw) self = 0 then (writes_of rw)(self := writes_of rw self - 1) else writes_of rw) \<and>
    rw_waiting_writers rw' = rw_waiting_writers rw"
proof -
  have rok: "readers_ok (rw_readers rw)" using ok by (simp add: rw_ok_def)
  show ?thesis
  proof (cases "self \<in> rd_thread ` set (rw_readers rw)")
    case True
    note d = reader_dec_props [OF True rok]
    have "rw_readers rw \<noteq> []" using True by auto
    then have "rw_reader_count rw \<noteq> 0" using ok total_zero [OF rok] by (auto simp: rw_ok_def)
    then have c: "unat (rw_reader_count rw - 1) = total_reads (reader_dec self (rw_readers rw))"
    proof -
      have "Suc (total_reads (reader_dec self (rw_readers rw))) = unat (rw_reader_count rw)"
        using d ok by (simp add: rw_ok_def)
      then show ?thesis using count_pred [OF \<open>rw_reader_count rw \<noteq> 0\<close>] by linarith
    qed
    have rp: "0 < reads_of (rw_readers rw) self" using reads_of_zero [OF rok] True by (simp add: zero_less_iff_neq_zero)
    have rw': "rw' = rw\<lparr>rw_readers := reader_dec self (rw_readers rw), rw_reader_count := rw_reader_count rw - 1\<rparr>" "r = OK"
      using u True by (auto simp: rw_Unlock_def RwlockRemoveReader_def find_reader_None)
    have "\<forall>x\<in>set (reader_dec self (rw_readers rw)). rw_writer rw = None \<or> rw_writer rw = Some (rd_thread x)"
    proof -
      have "\<forall>x\<in>rd_thread ` set (rw_readers rw). rw_writer rw = None \<or> rw_writer rw = Some x" using ok by (auto simp: rw_ok_def)
      then have "\<forall>x\<in>rd_thread ` set (reader_dec self (rw_readers rw)). rw_writer rw = None \<or> rw_writer rw = Some x"
        using d by blast
      then show ?thesis by blast
    qed
    then show ?thesis using d ok c rp rw' by (simp add: rw_moves_def rw_ok_def writes_of_def fun_eq_iff)
  next
    case False
    then have z: "reads_of (rw_readers rw) self = 0" using reads_of_zero [OF rok] by simp
    have f: "RwlockFindReader self (rw_readers rw) = None" using False by (simp add: find_reader_None)
    have "r = OK \<longleftrightarrow> rw_writer rw = Some self"
      using u f by (auto simp: rw_Unlock_def RwlockRemoveReader_def errno_defs Let_def split: if_splits)
    then show ?thesis using u f ok z
      by (auto simp: rw_Unlock_def RwlockRemoveReader_def rw_moves_def rw_ok_def writes_of_def fun_eq_iff Let_def split: if_splits)
  qed
qed

section \<open>Every reachable state\<close>

definition waiting_calls :: "(nat \<Rightarrow> (nat \<times> bool \<times> (nat \<times> nat) option \<times> bool) option) \<Rightarrow> nat set" where
  "waiting_calls calls = {k. \<exists>s w timeout. calls k = Some (s, w, timeout, True)}"

definition calls_ok :: "(nat \<Rightarrow> (nat \<times> bool \<times> (nat \<times> nat) option \<times> bool) option) \<Rightarrow> bool" where
  "calls_ok calls \<longleftrightarrow> finite (dom calls) \<and> (\<forall>k s w timeout g. calls k = Some (s, w, timeout, g) \<longrightarrow> g = w)"

definition rw_sys_inv :: "rw_sys \<Rightarrow> bool" where
  "rw_sys_inv y \<longleftrightarrow> rw_ok (ry_lock y) \<and> ry_reads y = reads_of (rw_readers (ry_lock y)) \<and>
     ry_writes y = writes_of (ry_lock y) \<and> calls_ok (ry_calls y) \<and>
     unat (rw_waiting_writers (ry_lock y)) = card (waiting_calls (ry_calls y))"

lemma finite_waiting: "calls_ok calls \<Longrightarrow> finite (waiting_calls calls)"
  by (rule finite_subset [of _ "dom calls"]) (auto simp: waiting_calls_def calls_ok_def)

lemma waiting_upd: "waiting_calls (calls(k \<mapsto> (s, w, timeout, g))) = (if g then insert k else id) (waiting_calls calls - {k})"
  by (auto simp: waiting_calls_def)

lemma waiting_del: "waiting_calls (calls(k := None)) = waiting_calls calls - {k}"
  by (auto simp: waiting_calls_def)

lemma waiting_mem: "calls k = Some (s, w, timeout, g) \<Longrightarrow> k \<in> waiting_calls calls \<longleftrightarrow> g"
  by (auto simp: waiting_calls_def)

lemma waiting_fresh: "calls k = None \<Longrightarrow> k \<notin> waiting_calls calls"
  by (auto simp: waiting_calls_def)

lemma rw_sys_moves:
  assumes "rw_moves (ry_lock y) (ry_lock y') (ry_reads y') (ry_writes y')" "calls_ok (ry_calls y')"
    "unat (rw_waiting_writers (ry_lock y')) = card (waiting_calls (ry_calls y'))"
  shows "rw_sys_inv y'"
  using assms by (auto simp: rw_sys_inv_def rw_moves_def)

lemma rw_step_inv:
  assumes "rw_sys_inv y" "rw_step y y'"
  shows "rw_sys_inv y'"
  using assms(2)
proof cases
  let ?l = "ry_lock y"
  have ok: "rw_ok ?l" and rd: "ry_reads y = reads_of (rw_readers ?l)" and wr: "ry_writes y = writes_of ?l"
    and cs: "calls_ok (ry_calls y)" and ww: "unat (rw_waiting_writers ?l) = card (waiting_calls (ry_calls y))"
    using assms(1) by (simp_all add: rw_sys_inv_def)
  note fin = finite_waiting [OF cs]
  have reg: "g = w" "g \<Longrightarrow> rw_waiting_writers ?l \<noteq> 0" "g \<Longrightarrow> 0 < card (waiting_calls (ry_calls y))"
    if "ry_calls y k = Some (s, w, timeout, g)" for k s w timeout g
  proof -
    show "g = w" using cs that by (auto simp: calls_ok_def)
    show pos: "0 < card (waiting_calls (ry_calls y))" if "g"
      using waiting_mem [of "ry_calls y", OF \<open>ry_calls y k = _\<close>] that fin by (auto simp: card_gt_0_iff)
    show "rw_waiting_writers ?l \<noteq> 0" if "g" using pos [OF that] ww by (auto simp: unat_eq_0)
  qed
  {
    case (rw_lock_return self w us now rw r)
    let ?t = "map_option (\<lambda>us. (us, now + us * 1000)) us"
    have l: "rw_look self w ?t False now ?l = (rw, Rw_Returned r)"
      using rw_lock_return(3) by (simp add: RwlockLockCooperative_def)
    note m = rw_look_moves [OF ok rw_lock_return(2) _ _ l]
    show ?thesis by (rule rw_sys_moves [of y]) (use m(1,2) rd wr cs ww in \<open>simp_all add: rw_lock_return(1) waits_def\<close>)
  next
    case (rw_lock_block self w us now rw g k)
    let ?t = "map_option (\<lambda>us. (us, now + us * 1000)) us"
    have l: "rw_look self w ?t False now ?l = (rw, Rw_Blocked g)"
      using rw_lock_block(3) by (simp add: RwlockLockCooperative_def)
    note m = rw_look_moves [OF ok rw_lock_block(2) _ _ l]
    have g: "g = w" using m(3) by simp
    have c: "calls_ok ((ry_calls y)(k \<mapsto> (self, w, ?t, g)))" using cs g by (auto simp: calls_ok_def)
    have "unat (rw_waiting_writers rw) = card (waiting_calls ((ry_calls y)(k \<mapsto> (self, w, ?t, g))))"
      using m(2) ww fin waiting_fresh [of "ry_calls y", OF rw_lock_block(4)] by (simp add: waits_def waiting_upd)
    then show ?thesis by - (rule rw_sys_moves [of y], use m(1) rd wr c in \<open>simp_all add: rw_lock_block(1)\<close>)
  next
    case (rw_look_return k self w timeout g now rw r)
    note m = rw_look_moves [OF ok rw_look_return(2) _ reg(2) [OF rw_look_return(3)] rw_look_return(4)]
    have gw: "g \<Longrightarrow> w" using reg(1) [OF rw_look_return(3)] by simp
    have c: "calls_ok ((ry_calls y)(k := None))" using cs by (auto simp: calls_ok_def)
    have "unat (rw_waiting_writers rw) = card (waiting_calls ((ry_calls y)(k := None)))"
      using m(2) [OF gw] ww fin waiting_mem [of "ry_calls y", OF rw_look_return(3)] by (simp add: waits_def waiting_del split: if_splits)
    then show ?thesis by - (rule rw_sys_moves [of y], use m(1) [OF gw] rd wr c in \<open>simp_all add: rw_look_return(1)\<close>)
  next
    case (rw_look_block k self w timeout g now rw g')
    note m = rw_look_moves [OF ok rw_look_block(2) _ reg(2) [OF rw_look_block(3)] rw_look_block(4)]
    have gw: "g \<Longrightarrow> w" "g = w" using reg(1) [OF rw_look_block(3)] by simp_all
    have g': "g' = g" using m(3) [OF gw(1)] gw(2) by simp
    have same: "(ry_calls y)(k \<mapsto> (self, w, timeout, g)) = ry_calls y" using rw_look_block(3) by (simp add: fun_upd_idem)
    have "unat (rw_waiting_writers rw) = unat (rw_waiting_writers ?l)" using m(2) [OF gw(1)] g' by (simp add: waits_def split: if_splits)
    then show ?thesis by - (rule rw_sys_moves [of y], use m(1) [OF gw(1)] rd wr cs ww in \<open>simp_all add: rw_look_block(1) g' same\<close>)
  next
    case (rw_tryrd self rw r)
    have "rw_moves ?l rw (credit_rw r False False self (reads_of (rw_readers ?l))) (writes_of ?l) \<and>
        rw_waiting_writers rw = rw_waiting_writers ?l"
      using rw_tryrd(3) add_reader_moves [OF ok rw_tryrd(2)] rw_stay [OF ok, of False]
      by (auto simp: rw_Tryrdlock_def credit_rw_def unregister_writer_wait_def errno_defs split: if_splits)
    then show ?thesis by - (rule rw_sys_moves [of y], use rd wr cs ww in \<open>simp_all add: rw_tryrd(1)\<close>)
  next
    case (rw_trywr self rw r)
    have "rw_moves ?l rw (reads_of (rw_readers ?l)) (credit_rw r True True self (writes_of ?l)) \<and>
        rw_waiting_writers rw = rw_waiting_writers ?l"
      using rw_trywr(2) rw_take [OF ok, where g = False] rw_stay [OF ok, of False]
      by (auto simp: rw_Trywrlock_def credit_rw_def unregister_writer_wait_def errno_defs split: if_splits)
    then show ?thesis by - (rule rw_sys_moves [of y], use rd wr cs ww in \<open>simp_all add: rw_trywr(1)\<close>)
  next
    case (rw_unlock self rw r)
    show ?thesis
      by (rule rw_sys_moves [of y]) (use rw_unlock_moves [OF ok rw_unlock(2)] rd wr cs ww
        in \<open>auto simp: rw_unlock(1) split: if_splits\<close>)
  }
qed

lemma new_rwlock_ok: "rw_ok (new_rwlock name)" "reads_of (rw_readers (new_rwlock name)) = (\<lambda>_. 0)"
    "writes_of (new_rwlock name) = (\<lambda>_. 0)" "rw_waiting_writers (new_rwlock name) = 0"
  by (simp_all add: new_rwlock_def rw_ok_def readers_ok_def writes_of_def fun_eq_iff)

lemma rw_init_inv: "rw_init y \<Longrightarrow> rw_sys_inv y"
  by (auto simp: rw_init_def rw_sys_inv_def new_rwlock_ok calls_ok_def waiting_calls_def)

interpretation rwlock_run: step_invariant rw_init rw_step rw_sys_inv
  by unfold_locales (auto intro: rw_init_inv rw_step_inv)

section \<open>Properties\<close>

text \<open>
  C5: a writer is alone. In every reachable state a thread that holds the write lock is the one named by the
  object, no other thread holds anything, and the lock counts as busy exactly while some thread holds it;
  the reader count is the sum of the readers' counts, and unlocking what one does not hold is refused.
\<close>

theorem rw_exclusive:
  assumes "reachable rw_init rw_step y"
  shows "(0 < ry_writes y t \<longleftrightarrow> rw_writer (ry_lock y) = Some t) \<and>
    (0 < ry_writes y t \<and> u \<noteq> t \<longrightarrow> ry_writes y u = 0 \<and> ry_reads y u = 0) \<and>
    (rw_busy (ry_lock y) \<longleftrightarrow> (\<exists>v. 0 < ry_reads y v \<or> 0 < ry_writes y v)) \<and>
    unat (rw_reader_count (ry_lock y)) = (\<Sum>r\<leftarrow>rw_readers (ry_lock y). ry_reads y (rd_thread r)) \<and>
    (ry_reads y t = 0 \<and> ry_writes y t = 0 \<longrightarrow> rw_Unlock (Some t) (ry_lock y) = Inr (ry_lock y, KERNEL_ERROR_EPERM))"
proof -
  let ?l = "ry_lock y"
  have ok: "rw_ok ?l" and rd: "ry_reads y = reads_of (rw_readers ?l)" and wr: "ry_writes y = writes_of ?l"
    using rwlock_run.reachable_inv [OF assms] by (simp_all add: rw_sys_inv_def)
  have rok: "readers_ok (rw_readers ?l)" using ok by (simp add: rw_ok_def)
  have pos: "0 < reads_of (rw_readers ?l) v \<longleftrightarrow> v \<in> rd_thread ` set (rw_readers ?l)" for v
    using reads_of_zero [OF rok, of v] by auto
  have busy: "rw_reader_count ?l \<noteq> 0 \<longleftrightarrow> (\<exists>v. 0 < reads_of (rw_readers ?l) v)"
    using ok total_zero [OF rok] unat_eq_0 [of "rw_reader_count ?l"] by (auto simp: pos rw_ok_def neq_Nil_conv)
  have only: "v = t" if "rw_writer ?l = Some t" "0 < reads_of (rw_readers ?l) v" for v t
    using that ok unfolding pos by (auto simp: rw_ok_def)
  have each: "reads_of rs (rd_thread r) = unat (rd_count r)" if "readers_ok rs" "r \<in> set rs" for rs r
    using that by (induction rs) (auto simp: readers_ok_def)
  have "(\<Sum>r\<leftarrow>rw_readers ?l. reads_of (rw_readers ?l) (rd_thread r)) = total_reads (rw_readers ?l)"
    using each [OF rok] by (auto simp: total_reads_def intro!: arg_cong [of _ _ sum_list])
  then have sum: "unat (rw_reader_count ?l) = (\<Sum>r\<leftarrow>rw_readers ?l. ry_reads y (rd_thread r))"
    using ok by (simp add: rd rw_ok_def)
  have unl: "rw_Unlock (Some t) ?l = Inr (?l, KERNEL_ERROR_EPERM)" if "ry_reads y t = 0" "ry_writes y t = 0"
    using that pos [of t] by (auto simp: rd wr writes_of_def rw_Unlock_def RwlockRemoveReader_def find_reader_None split: if_splits)
  have w: "0 < ry_writes y v \<longleftrightarrow> rw_writer ?l = Some v" for v by (simp add: wr writes_of_def)
  have alone: "ry_writes y u = 0 \<and> ry_reads y u = 0" if "0 < ry_writes y t" "u \<noteq> t"
    using w [of t] w [of u] only [of t u] that by (auto simp: rd)
  have "rw_busy ?l \<longleftrightarrow> (\<exists>v. 0 < ry_reads y v \<or> 0 < ry_writes y v)"
    using busy w by (auto simp: rw_busy_def rd)
  then show ?thesis using w alone sum unl by blast
qed

text \<open>
  C26: writers are not starved. In every reachable state the object counts exactly the writers asleep, timed
  ones that gave up and those that got the lock included in neither; while one is asleep, no thread that holds
  nothing gets a read lock; and once no thread holds the lock, the next look of any sleeping writer, at any time
  and whatever its deadline, returns \<open>OK\<close> with that writer as the owner and itself no longer counted as waiting.
\<close>

theorem rw_writer_preference:
  assumes "reachable rw_init rw_step y"
  shows "unat (rw_waiting_writers (ry_lock y)) = card {k. \<exists>s timeout. ry_calls y k = Some (s, True, timeout, True)} \<and>
    (ry_calls y k = Some (s, True, timeout, g) \<and> ry_reads y t = 0 \<and> ry_writes y t = 0 \<longrightarrow>
       rw_Tryrdlock (Some t) (ry_lock y) = (ry_lock y, KERNEL_ERROR_EBUSY) \<and>
       fst (RwlockLockCooperative (Some t) False us now (ry_lock y)) = ry_lock y) \<and>
    (ry_calls y k = Some (s, True, timeout, g) \<and> (\<forall>u. ry_reads y u = 0 \<and> ry_writes y u = 0) \<longrightarrow>
       rw_look s True timeout g now (ry_lock y) =
         ((ry_lock y)\<lparr>rw_waiting_writers := rw_waiting_writers (ry_lock y) - 1,
            rw_writer := Some s, rw_writer_count := 1\<rparr>, Rw_Returned OK))"
proof -
  let ?l = "ry_lock y"
  have ok: "rw_ok ?l" and rd: "ry_reads y = reads_of (rw_readers ?l)" and wr: "ry_writes y = writes_of ?l"
    and cs: "calls_ok (ry_calls y)" and ww: "unat (rw_waiting_writers ?l) = card (waiting_calls (ry_calls y))"
    using rwlock_run.reachable_inv [OF assms] by (simp_all add: rw_sys_inv_def)
  have rok: "readers_ok (rw_readers ?l)" using ok by (simp add: rw_ok_def)
  have eq: "waiting_calls (ry_calls y) = {k. \<exists>s timeout. ry_calls y k = Some (s, True, timeout, True)}"
  proof -
    have g: "g = w" if "ry_calls y k = Some (s, w, timeout, g)" for k s w timeout g
      using cs that unfolding calls_ok_def by blast
    have "w" if "ry_calls y k = Some (s, w, timeout, True)" for k s w timeout using g [OF that] by simp
    then have "ry_calls y k = Some (s, w, timeout, True) \<Longrightarrow> ry_calls y k = Some (s, True, timeout, True)" for k s w timeout
      by fastforce
    then show ?thesis unfolding waiting_calls_def by blast
  qed
  have no: "\<not> may_read t ?l" if "ry_calls y k = Some (s, True, timeout, g)" "ry_reads y t = 0" "ry_writes y t = 0"
  proof -
    have "g = True" using cs that(1) unfolding calls_ok_def by blast
    then have "g" by simp
    then have "0 < card (waiting_calls (ry_calls y))"
      using waiting_mem [of "ry_calls y", OF that(1)] finite_waiting [OF cs] by (auto simp: card_gt_0_iff)
    then have "rw_waiting_writers ?l \<noteq> 0" using ww by (auto simp: unat_eq_0)
    moreover have "RwlockFindReader t (rw_readers ?l) = None"
      using that(2) reads_of_zero [OF rok] by (simp add: rd find_reader_None)
    moreover have "rw_writer ?l \<noteq> Some t" using that(3) by (simp add: wr writes_of_def split: if_splits)
    ultimately show ?thesis by (simp add: may_read_def)
  qed
  have refused: "rw_Tryrdlock (Some t) ?l = (?l, KERNEL_ERROR_EBUSY) \<and>
      fst (RwlockLockCooperative (Some t) False us now ?l) = ?l"
    if "ry_calls y k = Some (s, True, timeout, g)" "ry_reads y t = 0" "ry_writes y t = 0"
    using no [OF that]
    by (simp add: rw_Tryrdlock_def RwlockLockCooperative_def rw_look_def rw_sleep_or_timeout_def unregister_writer_wait_def
        split: option.split)
  have gets: "rw_look s True timeout g now ?l = (?l\<lparr>rw_waiting_writers := rw_waiting_writers ?l - 1,
      rw_writer := Some s, rw_writer_count := 1\<rparr>, Rw_Returned OK)"
    if c: "ry_calls y k = Some (s, True, timeout, g)" and free: "\<forall>u. ry_reads y u = 0 \<and> ry_writes y u = 0"
  proof -
    have "g = True" using cs c unfolding calls_ok_def by blast
    moreover have "rw_readers ?l = []"
    proof (rule ccontr)
      assume "rw_readers ?l \<noteq> []"
      then obtain u where "u \<in> rd_thread ` set (rw_readers ?l)" by (cases "rw_readers ?l") auto
      then show False using free reads_of_zero [OF rok, of u] by (simp add: rd)
    qed
    moreover from this have "rw_reader_count ?l = 0" using ok by (simp add: rw_ok_def unat_eq_0)
    moreover have "rw_writer ?l = None"
    proof (cases "rw_writer ?l")
      case (Some u)
      then have "ry_writes y u = 1" by (simp add: wr writes_of_def)
      then show ?thesis using free by simp
    qed
    ultimately show ?thesis by (simp add: rw_look_def unregister_writer_wait_def)
  qed
  show ?thesis
    by (rule conjI [OF ww [unfolded eq]], rule conjI; rule impI, elim conjE; (rule refused gets; assumption))
qed

text \<open>A run for the witnesses: thread 5 writes, thread 6 waits to write.\<close>

definition rw_start :: rw_sys where
  "rw_start = \<lparr>ry_lock = new_rwlock ''rw'', ry_calls = Map.empty, ry_reads = (\<lambda>_. 0), ry_writes = (\<lambda>_. 0)\<rparr>"

definition rw_run1 :: rw_sys where
  "rw_run1 = rw_start\<lparr>ry_lock := (new_rwlock ''rw'')\<lparr>rw_writer := Some 5, rw_writer_count := 1\<rparr>, ry_writes := (\<lambda>_. 0)(5 := 1)\<rparr>"

definition rw_run2 :: rw_sys where
  "rw_run2 = rw_run1\<lparr>ry_lock := (ry_lock rw_run1)\<lparr>rw_waiting_writers := 1\<rparr>, ry_calls := [9 \<mapsto> (6, True, None, True)]\<rparr>"

lemma rw_run1_reachable: "reachable rw_init rw_step rw_run1"
proof (rule reachable_step)
  show "reachable rw_init rw_step rw_start" by (rule reachable_init) (auto simp: rw_init_def rw_start_def)
  have "RwlockLockCooperative (Some 5) True None 0 (ry_lock rw_start) = (ry_lock rw_run1, Rw_Returned OK)"
    by (simp add: RwlockLockCooperative_def rw_look_def rw_start_def rw_run1_def new_rwlock_def unregister_writer_wait_def)
  from rw_lock_return [OF _ this] show "rw_step rw_start rw_run1"
    by (simp add: rw_run1_def rw_start_def credit_rw_def room_def new_rwlock_def)
qed

lemma rw_run2_reachable: "reachable rw_init rw_step rw_run2"
proof (rule reachable_step [OF rw_run1_reachable])
  have "RwlockLockCooperative (Some 6) True None 0 (ry_lock rw_run1) = (ry_lock rw_run2, Rw_Blocked True)"
    by (simp add: RwlockLockCooperative_def rw_look_def rw_start_def rw_run1_def rw_run2_def new_rwlock_def rw_sleep_or_timeout_def)
  from rw_lock_block [OF _ this, of 9] show "rw_step rw_run1 rw_run2"
    by (simp add: rw_run2_def rw_run1_def rw_start_def room_def new_rwlock_def)
qed

lemma rw_exclusive_witness:
  "rw_Unlock (Some 7) (ry_lock rw_run2) = Inr (ry_lock rw_run2, KERNEL_ERROR_EPERM) \<and> ry_reads rw_run2 7 = 0"
  using rw_exclusive [OF rw_run2_reachable, of 7 5] by (simp add: rw_run2_def rw_run1_def rw_start_def)

lemma rw_writer_preference_witness:
  "rw_Tryrdlock (Some 7) (ry_lock rw_run2) = (ry_lock rw_run2, KERNEL_ERROR_EBUSY)"
  using rw_writer_preference [OF rw_run2_reachable, of 9 6 None True 7 None 0]
  by (simp add: rw_run2_def rw_run1_def rw_start_def)

end
