(* ===== verification/PthreadCond.thy ===== *)
theory PthreadCond
  imports PthreadMutex
begin

text \<open>
  The condition variables of src/src/kernel/pthread.cpp: the object with its list of waiting threads, the
  sequence numbers that tell a woken wait from a sleeping one, and the three kinds of wait, split at their
  sleeps. \<open>c\<close> is the address of the object. \<open>cond_step\<close> is every interleaving of waits, signals and
  broadcasts on one object.
\<close>

section \<open>The object and the threads\<close>

record cond =
  cv_name :: string
  cv_sequence :: u64
  cv_clock_id :: int
  cv_waiters :: "nat list"

text \<open>The two fields of \<open>PthreadPrivate\<close> that belong to condition variables, of every thread.\<close>

record threads =
  th_cond_sequence :: "nat \<Rightarrow> u64"
  th_waiting_cond :: "nat \<Rightarrow> nat option"

definition new_cond :: "string \<Rightarrow> int \<Rightarrow> cond" where
  "new_cond name clock_id = \<lparr>cv_name = name, cv_sequence = 0, cv_clock_id = clock_id, cv_waiters = []\<rparr>"

definition forget_waiting :: "nat \<Rightarrow> nat \<Rightarrow> threads \<Rightarrow> threads" where
  "forget_waiting c thread th =
     (if th_waiting_cond th thread = Some c then th\<lparr>th_waiting_cond := (th_waiting_cond th)(thread := None)\<rparr> else th)"

definition CondAddWaiter :: "nat \<Rightarrow> nat \<Rightarrow> cond \<times> threads \<Rightarrow> cond \<times> threads" where
  "CondAddWaiter c thread = (\<lambda>(cv, th).
     (cv\<lparr>cv_waiters := cv_waiters cv @ [thread]\<rparr>, th\<lparr>th_waiting_cond := (th_waiting_cond th)(thread \<mapsto> c)\<rparr>))"

definition CondRemoveWaiter :: "nat \<Rightarrow> nat \<Rightarrow> cond \<times> threads \<Rightarrow> (cond \<times> threads) \<times> bool" where
  "CondRemoveWaiter c thread = (\<lambda>(cv, th).
     if thread \<notin> set (cv_waiters cv) then ((cv, th), False)
     else ((cv\<lparr>cv_waiters := remove1 thread (cv_waiters cv)\<rparr>, forget_waiting c thread th), True))"

text \<open>\<open>None\<close> wakes the thread that has waited longest.\<close>

definition CondWakeWaiter :: "nat \<Rightarrow> nat option \<Rightarrow> cond \<times> threads \<Rightarrow> (cond \<times> threads) \<times> bool" where
  "CondWakeWaiter c thread = (\<lambda>(cv, th).
     if thread = None \<and> cv_waiters cv = [] then ((cv, th), False)
     else let t = (case thread of None \<Rightarrow> hd (cv_waiters cv) | Some t \<Rightarrow> t)
          in if t \<notin> set (cv_waiters cv) then ((cv, th), False)
             else let th' = forget_waiting c t th
                  in ((cv\<lparr>cv_waiters := remove1 t (cv_waiters cv)\<rparr>,
                       th'\<lparr>th_cond_sequence := (th_cond_sequence th')(t := th_cond_sequence th' t + 1)\<rparr>), True))"

definition CondClearWaiters :: "nat \<Rightarrow> cond \<times> threads \<Rightarrow> cond \<times> threads" where
  "CondClearWaiters c = (\<lambda>(cv, th).
     (cv\<lparr>cv_waiters := []\<rparr>, foldl (\<lambda>th t. forget_waiting c t th) th (cv_waiters cv)))"

text \<open>Whether the sleepers of the condition the thread waits on are notified.\<close>

definition PthreadWakeForSignal :: "nat option \<Rightarrow> threads \<Rightarrow> nat option" where
  "PthreadWakeForSignal thread th = (case thread of None \<Rightarrow> None | Some t \<Rightarrow> th_waiting_cond th t)"

text \<open>The sections of \<open>PthreadCondSignal\<close>, \<open>PthreadCondSignalto\<close> and \<open>PthreadCondBroadcast\<close> under \<open>m\<close>.\<close>

definition cond_signal :: "nat \<Rightarrow> nat option \<Rightarrow> cond \<times> threads \<Rightarrow> cond \<times> threads" where
  "cond_signal c thread s = fst (CondWakeWaiter c thread s)"

definition cond_broadcast :: "nat \<Rightarrow> cond \<times> threads \<Rightarrow> cond \<times> threads" where
  "cond_broadcast c = (\<lambda>(cv, th).
     if cv_waiters cv \<noteq> [] then CondClearWaiters c (cv\<lparr>cv_sequence := cv_sequence cv + 1\<rparr>, th) else (cv, th))"

section \<open>Waiting\<close>

text \<open>
  A wait is asleep on the condition with the two sequence numbers it saw, its deadline and the mutex count to
  restore; or asleep on the mutex with the result it will return.
\<close>

datatype cond_wait =
  Cond_Sleeping u64 u64 "nat option" u32
| Cond_Relocking host_error u32
| Cond_Returned int

text \<open>
  The common beginning: the owner is checked, the sequence numbers read, the thread listed and the mutex given
  up, all while \<open>m\<close> of the condition is held, so nothing of the condition happens in between.
\<close>

definition cond_begin ::
    "nat \<Rightarrow> nat \<Rightarrow> nat option \<Rightarrow> cond \<times> threads \<Rightarrow> mutex \<Rightarrow> (cond \<times> threads) \<times> mutex \<times> cond_wait" where
  "cond_begin c self deadline s m =
     (if mx_owner m \<noteq> Some self then (s, m, Cond_Returned KERNEL_ERROR_EPERM)
      else let sequence = cv_sequence (fst s); thread_sequence = th_cond_sequence (snd s) self;
               s = CondAddWaiter c self s;
               (m, result, recurse) = NativeMutexUnlock_recurse self m
           in if result \<noteq> H_OK
              then (fst (CondRemoveWaiter c self s), m,
                    Cond_Returned (if result = H_EPERM then KERNEL_ERROR_EPERM else KERNEL_ERROR_EINVAL))
              else (s, m, Cond_Sleeping sequence thread_sequence deadline recurse))"

definition cond_ready :: "u64 \<Rightarrow> u64 \<Rightarrow> nat \<Rightarrow> cond \<times> threads \<Rightarrow> bool" where
  "cond_ready sequence thread_sequence self s \<longleftrightarrow>
     cv_sequence (fst s) \<noteq> sequence \<or> th_cond_sequence (snd s) self \<noteq> thread_sequence"

definition cond_leave :: "nat \<Rightarrow> nat \<Rightarrow> host_error \<Rightarrow> u32 \<Rightarrow> cond \<times> threads \<Rightarrow> (cond \<times> threads) \<times> cond_wait" where
  "cond_leave c self result recurse s = (fst (CondRemoveWaiter c self s), Cond_Relocking result recurse)"

text \<open>The loop's test and the end of the wait on the condition, with \<open>m\<close> held.\<close>

definition cond_look ::
    "nat \<Rightarrow> nat \<Rightarrow> nat \<Rightarrow> u64 \<Rightarrow> u64 \<Rightarrow> nat option \<Rightarrow> u32 \<Rightarrow> cond \<times> threads \<Rightarrow> (cond \<times> threads) \<times> cond_wait" where
  "cond_look c self now sequence thread_sequence deadline recurse s =
     (if cond_ready sequence thread_sequence self s then cond_leave c self H_OK recurse s
      else case deadline of
             None \<Rightarrow> (s, Cond_Sleeping sequence thread_sequence None recurse)
           | Some d \<Rightarrow> if now \<ge> d then cond_leave c self H_ETIMEDOUT recurse s
                       else (s, Cond_Sleeping sequence thread_sequence (Some d) recurse))"

text \<open>The number returned once \<open>NativeMutexLockRecurse\<close> has returned \<open>lock_result\<close>.\<close>

definition cond_result :: "host_error \<Rightarrow> host_error \<Rightarrow> int" where
  "cond_result result lock_result =
     (let result = (if result = H_OK then lock_result else result)
      in if result = H_OK then OK
         else if result = H_ETIMEDOUT then KERNEL_ERROR_ETIMEDOUT
         else if result = H_EPERM then KERNEL_ERROR_EPERM
         else KERNEL_ERROR_EINVAL)"

definition cond_relock :: "nat \<Rightarrow> nat \<Rightarrow> host_error \<Rightarrow> u32 \<Rightarrow> mutex \<Rightarrow> mutex \<times> cond_wait" where
  "cond_relock self now result recurse m =
     (case NativeMutexLockRecurse self recurse now m of
        (m, Mutex_Returned r) \<Rightarrow> (m, Cond_Returned (cond_result result r))
      | (m, _) \<Rightarrow> (m, Cond_Relocking result recurse))"

text \<open>
  The three waits from the lookup of their objects to the first sleep: without a time-out, with one in
  microseconds (zero never looks at the condition), and until a time of the condition's clock.
\<close>

definition cond_Wait ::
    "nat \<Rightarrow> nat \<Rightarrow> nat \<Rightarrow> cond \<times> threads \<Rightarrow> mutex \<Rightarrow> (cond \<times> threads) \<times> mutex \<times> cond_wait" where
  "cond_Wait c self now s m =
     (case cond_begin c self None s m of
        (s, m, Cond_Sleeping q tq deadline u) \<Rightarrow> (case cond_look c self now q tq deadline u s of (s, w) \<Rightarrow> (s, m, w))
      | r \<Rightarrow> r)"

definition cond_Timedwait ::
    "nat \<Rightarrow> nat \<Rightarrow> nat \<Rightarrow> nat \<Rightarrow> cond \<times> threads \<Rightarrow> mutex \<Rightarrow> (cond \<times> threads) \<times> mutex \<times> cond_wait" where
  "cond_Timedwait c self now usec s m =
     (case cond_begin c self (Some (now + usec * 1000)) s m of
        (s, m, Cond_Sleeping q tq deadline u) \<Rightarrow>
          (case (if usec = 0 then cond_leave c self H_ETIMEDOUT u s else cond_look c self now q tq deadline u s) of
             (s, w) \<Rightarrow> (s, m, w))
      | r \<Rightarrow> r)"

record timespec =
  ts_sec :: int
  ts_nsec :: int

text \<open>
  The deadline on the steady clock of a time of the clock \<open>clock_id\<close>, whose present value is \<open>clock\<close> (\<open>None\<close>
  when the host has none). The durations are signed 64-bit numbers of seconds and nanoseconds.
\<close>

definition NativeCondDeadlineFromAbs :: "timespec option \<Rightarrow> timespec option \<Rightarrow> int \<Rightarrow> int option" where
  "NativeCondDeadlineFromAbs clock abstime steady_now =
     (case abstime of
        None \<Rightarrow> None
      | Some a \<Rightarrow>
          if ts_sec a < 0 \<or> ts_nsec a < 0 \<or> ts_nsec a \<ge> 1000000000 then None
          else case clock of
                 None \<Rightarrow> None
               | Some n \<Rightarrow>
                   let delta = i64 (i64 (i64 (ts_sec a - ts_sec n) * 1000000000) + i64 (ts_nsec a - ts_nsec n))
                   in Some (i64 (steady_now + delta)))"

definition cond_TimedwaitAbs ::
    "nat \<Rightarrow> nat \<Rightarrow> nat \<Rightarrow> timespec option \<Rightarrow> timespec option \<Rightarrow> cond \<times> threads \<Rightarrow> mutex \<Rightarrow>
       (cond \<times> threads) \<times> mutex \<times> cond_wait" where
  "cond_TimedwaitAbs c self now clock abstime s m =
     (case NativeCondDeadlineFromAbs clock abstime (int now) of
        None \<Rightarrow> (s, m, Cond_Returned KERNEL_ERROR_EINVAL)
      | Some d \<Rightarrow>
          (case cond_begin c self (Some (nat d)) s m of
             (s, m, Cond_Sleeping q tq deadline u) \<Rightarrow>
               (case cond_look c self now q tq deadline u s of (s, w) \<Rightarrow> (s, m, w))
           | r \<Rightarrow> r))"

section \<open>The interleavings\<close>

text \<open>
  A thread waits on the object at most once at a time (no signal handler waits on the condition its thread
  is asleep on), and fewer than \<open>2 ^ 64 - 1\<close> broadcasts happen.
\<close>

record cond_sys =
  cy_state :: "cond \<times> threads"
  cy_calls :: "nat \<Rightarrow> cond_wait option"

inductive cond_step :: "nat \<Rightarrow> cond_sys \<Rightarrow> cond_sys \<Rightarrow> bool" for c where
  cond_wait:
    "cy_calls y t = None \<Longrightarrow> cond_begin c t deadline (cy_state y) m = (s, m', Cond_Sleeping q tq d u) \<Longrightarrow>
       cond_step c y \<lparr>cy_state = s, cy_calls = (cy_calls y)(t \<mapsto> Cond_Sleeping q tq d u)\<rparr>"
| cond_wait_zero:
    "cy_calls y t = None \<Longrightarrow> cond_Timedwait c t now 0 (cy_state y) m = (s, m', Cond_Relocking r u) \<Longrightarrow>
       cond_step c y \<lparr>cy_state = s, cy_calls = (cy_calls y)(t \<mapsto> Cond_Relocking r u)\<rparr>"
| cond_looks:
    "cy_calls y t = Some (Cond_Sleeping q tq d u) \<Longrightarrow> cond_look c t now q tq d u (cy_state y) = (s, w) \<Longrightarrow>
       cond_step c y \<lparr>cy_state = s, cy_calls = (cy_calls y)(t \<mapsto> w)\<rparr>"
| cond_relocked:
    "cy_calls y t = Some (Cond_Relocking r u) \<Longrightarrow> cond_step c y (y\<lparr>cy_calls := (cy_calls y)(t := None)\<rparr>)"
| cond_signals:
    "cond_step c y (y\<lparr>cy_state := cond_signal c thread (cy_state y)\<rparr>)"
| cond_broadcasts:
    "cv_sequence (fst (cy_state y)) \<noteq> 18446744073709551615 \<Longrightarrow>
       cond_step c y (y\<lparr>cy_state := cond_broadcast c (cy_state y)\<rparr>)"

definition cond_init :: "cond_sys \<Rightarrow> bool" where
  "cond_init y \<longleftrightarrow> (\<exists>name clock th. cy_state y = (new_cond name clock, th) \<and> th_waiting_cond th = (\<lambda>_. None)) \<and>
     cy_calls y = Map.empty"

section \<open>The invariant\<close>

text \<open>\<open>unwoken\<close>: the threads asleep on the condition that nothing has woken.\<close>

definition unwoken :: "(nat \<Rightarrow> cond_wait option) \<Rightarrow> cond \<times> threads \<Rightarrow> nat set" where
  "unwoken calls s = {t. \<exists>q tq d u. calls t = Some (Cond_Sleeping q tq d u) \<and> \<not> cond_ready q tq t s}"

definition cond_ok :: "nat \<Rightarrow> cond \<times> threads \<Rightarrow> (nat \<Rightarrow> cond_wait option) \<Rightarrow> bool" where
  "cond_ok c s calls \<longleftrightarrow> distinct (cv_waiters (fst s)) \<and> set (cv_waiters (fst s)) = unwoken calls s \<and>
     (\<forall>t q tq d u. calls t = Some (Cond_Sleeping q tq d u) \<longrightarrow> q \<le> cv_sequence (fst s)) \<and>
     (\<forall>t. th_waiting_cond (snd s) t = (if t \<in> set (cv_waiters (fst s)) then Some c else None))"

definition cond_sys_inv :: "nat \<Rightarrow> cond_sys \<Rightarrow> bool" where
  "cond_sys_inv c y \<longleftrightarrow> cond_ok c (cy_state y) (cy_calls y)"

lemma cond_okI:
  assumes "distinct (cv_waiters cv)" "set (cv_waiters cv) = unwoken calls (cv, th)"
    "\<And>t q tq d u. calls t = Some (Cond_Sleeping q tq d u) \<Longrightarrow> q \<le> cv_sequence cv"
    "\<And>t. th_waiting_cond th t = (if t \<in> set (cv_waiters cv) then Some c else None)"
  shows "cond_ok c (cv, th) calls"
  using assms unfolding cond_ok_def by auto

lemma cond_okD:
  assumes "cond_ok c (cv, th) calls"
  shows "distinct (cv_waiters cv)" "set (cv_waiters cv) = unwoken calls (cv, th)"
    "calls t = Some (Cond_Sleeping q tq d u) \<Longrightarrow> q \<le> cv_sequence cv"
    "th_waiting_cond th v = (if v \<in> set (cv_waiters cv) then Some c else None)"
proof -
  show "distinct (cv_waiters cv)" "set (cv_waiters cv) = unwoken calls (cv, th)"
    "th_waiting_cond th v = (if v \<in> set (cv_waiters cv) then Some c else None)"
    using assms by (simp_all add: cond_ok_def)
  show "calls t = Some (Cond_Sleeping q tq d u) \<Longrightarrow> q \<le> cv_sequence cv"
    using assms unfolding cond_ok_def fst_conv by blast
qed

lemma forget_waiting_simps [simp]:
  "th_cond_sequence (forget_waiting c t th) = th_cond_sequence th"
  "th_waiting_cond (forget_waiting c t th) v = (if v = t \<and> th_waiting_cond th t = Some c then None else th_waiting_cond th v)"
  by (simp_all add: forget_waiting_def)

lemma u64_Suc: "(x :: u64) \<noteq> 18446744073709551615 \<Longrightarrow> x < x + 1"
proof -
  assume x: "x \<noteq> 18446744073709551615"
  have "1 + x \<noteq> 0"
  proof
    assume "1 + x = 0"
    then have "x = - 1" by (simp add: eq_neg_iff_add_eq_0 add.commute)
    then show False using x by simp
  qed
  then have "unat (x + 1) = Suc (unat x)" using unatSuc [of x] by (simp add: add.commute)
  then show ?thesis by (simp add: word_less_nat_alt)
qed

lemma begin_ok:
  assumes ok: "cond_ok c s calls" and new: "calls t = None"
    and b: "cond_begin c t deadline s m = (s', m', Cond_Sleeping q tq d u)"
  shows "cond_ok c s' (calls(t \<mapsto> Cond_Sleeping q tq d u))" "d = deadline" "q = cv_sequence (fst s)"
    "tq = th_cond_sequence (snd s) t" "s' = CondAddWaiter c t s" "mx_owner m = Some t"
    "NativeMutexUnlock_recurse t m = (m', H_OK, u)"
proof -
  show e: "d = deadline" "q = cv_sequence (fst s)" "tq = th_cond_sequence (snd s) t" "s' = CondAddWaiter c t s"
    "mx_owner m = Some t" "NativeMutexUnlock_recurse t m = (m', H_OK, u)"
    using b by (auto simp: cond_begin_def Let_def split: if_splits prod.splits)
  obtain cv th where s: "s = (cv, th)" by (cases s)
  have nt: "t \<notin> set (cv_waiters cv)" using ok new by (auto simp: cond_ok_def unwoken_def s)
  have uw: "unwoken (calls(t \<mapsto> Cond_Sleeping q tq d u)) s' = insert t (unwoken calls s)"
    unfolding e(2-4) by (auto simp: unwoken_def cond_ready_def s CondAddWaiter_def)
  show "cond_ok c s' (calls(t \<mapsto> Cond_Sleeping q tq d u))"
  proof -
    note k = ok [unfolded s]
    have s': "s' = (cv\<lparr>cv_waiters := cv_waiters cv @ [t]\<rparr>, th\<lparr>th_waiting_cond := (th_waiting_cond th)(t \<mapsto> c)\<rparr>)"
      using e(4) by (simp add: s CondAddWaiter_def)
    have q: "q = cv_sequence cv" using e(2) by (simp add: s)
    show ?thesis unfolding s'
    proof (rule cond_okI)
      show "distinct (cv_waiters (cv\<lparr>cv_waiters := cv_waiters cv @ [t]\<rparr>))" using cond_okD(1) [OF k] nt by simp
      show "set (cv_waiters (cv\<lparr>cv_waiters := cv_waiters cv @ [t]\<rparr>)) = unwoken (calls(t \<mapsto> Cond_Sleeping q tq d u))
          (cv\<lparr>cv_waiters := cv_waiters cv @ [t]\<rparr>, th\<lparr>th_waiting_cond := (th_waiting_cond th)(t \<mapsto> c)\<rparr>)"
        using uw cond_okD(2) [OF k] unfolding s' s by simp
    next
      fix v q' tq' d' u'
      assume "(calls(t \<mapsto> Cond_Sleeping q tq d u)) v = Some (Cond_Sleeping q' tq' d' u')"
      then show "q' \<le> cv_sequence (cv\<lparr>cv_waiters := cv_waiters cv @ [t]\<rparr>)"
        using cond_okD(3) [OF k] q by (auto split: if_splits)
    next
      fix v
      show "th_waiting_cond (th\<lparr>th_waiting_cond := (th_waiting_cond th)(t \<mapsto> c)\<rparr>) v =
          (if v \<in> set (cv_waiters (cv\<lparr>cv_waiters := cv_waiters cv @ [t]\<rparr>)) then Some c else None)"
        using cond_okD(4) [OF k, of v] by simp
    qed
  qed
qed

lemma leave_ok:
  assumes ok: "cond_ok c s calls" and l: "cond_leave c t r u s = (s', w)" and w: "calls' = calls(t := w')"
    and nw: "\<And>q tq d u. w' \<noteq> Some (Cond_Sleeping q tq d u)"
  shows "cond_ok c s' calls'"
proof -
  obtain cv th where s: "s = (cv, th)" by (cases s)
  note d = cond_okD(1) [OF ok [unfolded s]] and un = cond_okD(2) [OF ok [unfolded s]]
    and seq = cond_okD(3) [OF ok [unfolded s]] and wc = cond_okD(4) [OF ok [unfolded s]]
  have s': "s' = (cv\<lparr>cv_waiters := remove1 t (cv_waiters cv)\<rparr>, forget_waiting c t th)"
    using l wc by (auto simp: cond_leave_def CondRemoveWaiter_def s forget_waiting_def remove1_idem)
  have un': "unwoken calls' s' = unwoken calls (cv, th) - {t}"
    unfolding unwoken_def cond_ready_def s' w using nw by auto
  show ?thesis unfolding s'
  proof (rule cond_okI)
    show "distinct (cv_waiters (cv\<lparr>cv_waiters := remove1 t (cv_waiters cv)\<rparr>))" using d by simp
    show "set (cv_waiters (cv\<lparr>cv_waiters := remove1 t (cv_waiters cv)\<rparr>)) =
        unwoken calls' (cv\<lparr>cv_waiters := remove1 t (cv_waiters cv)\<rparr>, forget_waiting c t th)"
      using un un' unfolding s' by (simp add: set_remove1_eq [OF d])
  next
    fix v q tq d u
    assume "calls' v = Some (Cond_Sleeping q tq d u)"
    then have "calls v = Some (Cond_Sleeping q tq d u)" using nw [of q tq d u] by (cases "v = t") (simp_all add: w)
    then show "q \<le> cv_sequence (cv\<lparr>cv_waiters := remove1 t (cv_waiters cv)\<rparr>)" using seq by simp
  next
    fix v
    show "th_waiting_cond (forget_waiting c t th) v =
        (if v \<in> set (cv_waiters (cv\<lparr>cv_waiters := remove1 t (cv_waiters cv)\<rparr>)) then Some c else None)"
      using wc [of v] wc [of t] by (auto simp: set_remove1_eq [OF d])
  qed
qed

lemma look_ok:
  assumes ok: "cond_ok c s calls" and t: "calls t = Some (Cond_Sleeping q tq d u)"
    and l: "cond_look c t now q tq d u s = (s', w)"
  shows "cond_ok c s' (calls(t \<mapsto> w))"
proof -
  have "(s' = s \<and> w = Cond_Sleeping q tq d u) \<or> (\<exists>r. cond_leave c t r u s = (s', w))"
    using l by (auto simp: cond_look_def split: if_splits option.splits)
  then show ?thesis
  proof
    assume "s' = s \<and> w = Cond_Sleeping q tq d u"
    then show ?thesis using ok t by (simp add: fun_upd_idem)
  next
    assume "\<exists>r. cond_leave c t r u s = (s', w)"
    then obtain r where r: "cond_leave c t r u s = (s', w)" by blast
    have "w = Cond_Relocking r u" using r by (simp add: cond_leave_def)
    then show ?thesis by (intro leave_ok [OF ok r, where w' = "Some w"]) auto
  qed
qed

lemma wake_ok:
  assumes ok: "cond_ok c s calls" and k: "CondWakeWaiter c thread s = (s', woken)"
  shows "cond_ok c s' calls"
    "woken \<Longrightarrow> \<exists>t. t \<in> unwoken calls s \<and> (thread = None \<or> thread = Some t) \<and> unwoken calls s' = unwoken calls s - {t} \<and>
       cv_waiters (fst s') = remove1 t (cv_waiters (fst s)) \<and> (thread = None \<longrightarrow> t = hd (cv_waiters (fst s)))"
    "\<not> woken \<Longrightarrow> s' = s"
proof -
  obtain cv th where s: "s = (cv, th)" by (cases s)
  note d = cond_okD(1) [OF ok [unfolded s]] and un = cond_okD(2) [OF ok [unfolded s]]
    and seq = cond_okD(3) [OF ok [unfolded s]] and wc = cond_okD(4) [OF ok [unfolded s]]
  show nw: "\<not> woken \<Longrightarrow> s' = s"
    using k by (auto simp: CondWakeWaiter_def s Let_def split: if_splits)
  have W: "\<exists>t. t \<in> set (cv_waiters cv) \<and> (thread = None \<or> thread = Some t) \<and> (thread = None \<longrightarrow> t = hd (cv_waiters cv)) \<and>
      s' = (cv\<lparr>cv_waiters := remove1 t (cv_waiters cv)\<rparr>,
        (forget_waiting c t th)\<lparr>th_cond_sequence := (th_cond_sequence th)(t := th_cond_sequence th t + 1)\<rparr>)" if "woken"
    using k that by (cases thread) (auto simp: CondWakeWaiter_def s Let_def split: if_splits)
  have un': "unwoken calls (cv\<lparr>cv_waiters := ws\<rparr>, (forget_waiting c t th)\<lparr>th_cond_sequence := (th_cond_sequence th)(t := th_cond_sequence th t + 1)\<rparr>) =
      unwoken calls (cv, th) - {t}" if "t \<in> unwoken calls (cv, th)" for t ws
    using that by (auto simp: unwoken_def cond_ready_def)
  show "woken \<Longrightarrow> \<exists>t. t \<in> unwoken calls s \<and> (thread = None \<or> thread = Some t) \<and> unwoken calls s' = unwoken calls s - {t} \<and>
       cv_waiters (fst s') = remove1 t (cv_waiters (fst s)) \<and> (thread = None \<longrightarrow> t = hd (cv_waiters (fst s)))"
    using W un un' unfolding s by fastforce
  show "cond_ok c s' calls"
  proof (cases "woken")
    case True
    then obtain t where t: "t \<in> set (cv_waiters cv)"
      "s' = (cv\<lparr>cv_waiters := remove1 t (cv_waiters cv)\<rparr>,
        (forget_waiting c t th)\<lparr>th_cond_sequence := (th_cond_sequence th)(t := th_cond_sequence th t + 1)\<rparr>)"
      using W by blast
    show ?thesis unfolding t(2)
      by (intro cond_okI) (use d un un' [of t] seq wc t(1) in \<open>auto split: if_splits\<close>)
  qed (use nw ok in simp)
qed

lemma forget_all:
  "th_cond_sequence (foldl (\<lambda>th t. forget_waiting c t th) th ts) = th_cond_sequence th \<and>
   th_waiting_cond (foldl (\<lambda>th t. forget_waiting c t th) th ts) v =
     (if v \<in> set ts \<and> th_waiting_cond th v = Some c then None else th_waiting_cond th v)"
  by (induction ts arbitrary: th) auto

lemma broadcast_ok:
  assumes ok: "cond_ok c s calls" and rm: "cv_sequence (fst s) \<noteq> 18446744073709551615"
  shows "cond_ok c (cond_broadcast c s) calls" "unwoken calls (cond_broadcast c s) = {}"
proof -
  obtain cv th where s: "s = (cv, th)" by (cases s)
  note d = cond_okD(1) [OF ok [unfolded s]] and un = cond_okD(2) [OF ok [unfolded s]]
    and seq = cond_okD(3) [OF ok [unfolded s]] and wc = cond_okD(4) [OF ok [unfolded s]]
  have lt: "cv_sequence cv < cv_sequence cv + 1"
    using u64_Suc rm by (simp add: s)
  have "cond_ok c (cond_broadcast c s) calls \<and> unwoken calls (cond_broadcast c s) = {}"
  proof (cases "cv_waiters cv = []")
    case True
    then have "cond_broadcast c s = s" by (simp add: cond_broadcast_def s)
    then show ?thesis using ok un True by (simp add: s)
  next
    case False
    let ?th = "foldl (\<lambda>th t. forget_waiting c t th) th (cv_waiters cv)"
    have b: "cond_broadcast c s = (cv\<lparr>cv_sequence := cv_sequence cv + 1, cv_waiters := []\<rparr>, ?th)"
      using False by (simp add: cond_broadcast_def CondClearWaiters_def s)
    have e: "unwoken calls (cv\<lparr>cv_sequence := cv_sequence cv + 1, cv_waiters := []\<rparr>, ?th) = {}"
      using seq lt by (fastforce simp: unwoken_def cond_ready_def)
    have le: "q \<le> cv_sequence cv + 1" if "calls t = Some (Cond_Sleeping q tq d u)" for t q tq d u
      using seq [OF that] lt by simp
    show ?thesis unfolding b
      by (intro conjI cond_okI) (use e le wc forget_all [of c th "cv_waiters cv"] in auto)
  qed
  then show "cond_ok c (cond_broadcast c s) calls" "unwoken calls (cond_broadcast c s) = {}" by simp_all
qed

lemma cond_step_inv:
  assumes "cond_sys_inv c y" "cond_step c y y'"
  shows "cond_sys_inv c y'"
  using assms(2)
proof cases
  note ok = assms(1) [unfolded cond_sys_inv_def]
  {
    case (cond_wait t deadline m s m' q tq d u)
    show ?thesis using begin_ok(1) [OF ok cond_wait(2,3)] by (simp add: cond_sys_inv_def cond_wait(1))
  next
    case (cond_wait_zero t now m s m' r u)
    obtain s1 m1 w1 where b: "cond_begin c t (Some now) (cy_state y) m = (s1, m1, w1)" by (metis prod_cases3)
    have "\<exists>q tq d v. w1 = Cond_Sleeping q tq d v"
      using cond_wait_zero(3) b by (auto simp: cond_Timedwait_def cond_begin_def Let_def split: if_splits prod.splits)
    then obtain q tq d v where w1: "w1 = Cond_Sleeping q tq d v" by blast
    have l: "cond_leave c t H_ETIMEDOUT v s1 = (s, Cond_Relocking r u)"
      using cond_wait_zero(3) b w1 by (simp add: cond_Timedwait_def split: prod.splits)
    have "cond_ok c s1 ((cy_calls y)(t \<mapsto> Cond_Sleeping q tq d v))"
      using begin_ok(1) [OF ok cond_wait_zero(2)] b w1 by blast
    from leave_ok [OF this l, of "(cy_calls y)(t \<mapsto> Cond_Relocking r u)" "Some (Cond_Relocking r u)"]
    show ?thesis by (simp add: cond_sys_inv_def cond_wait_zero(1))
  next
    case (cond_looks t q tq d u now s w)
    show ?thesis using look_ok [OF ok cond_looks(2,3)] by (simp add: cond_sys_inv_def cond_looks(1))
  next
    case (cond_relocked t r u)
    have "unwoken ((cy_calls y)(t := None)) (cy_state y) = unwoken (cy_calls y) (cy_state y)"
      using cond_relocked(2) by (auto simp: unwoken_def)
    then have "cond_ok c (cy_state y) ((cy_calls y)(t := None))"
      using ok unfolding cond_ok_def by (metis fun_upd_apply option.distinct(1))
    then show ?thesis by (simp add: cond_sys_inv_def cond_relocked(1))
  next
    case (cond_signals thread)
    obtain s w where "CondWakeWaiter c thread (cy_state y) = (s, w)" by (metis prod.exhaust)
    then show ?thesis using wake_ok(1) [OF ok] by (simp add: cond_sys_inv_def cond_signals(1) cond_signal_def)
  next
    case cond_broadcasts
    show ?thesis using broadcast_ok(1) [OF ok cond_broadcasts(2)] by (simp add: cond_sys_inv_def cond_broadcasts(1))
  }
qed

lemma cond_init_inv: "cond_init y \<Longrightarrow> cond_sys_inv c y"
  by (auto simp: cond_init_def cond_sys_inv_def cond_ok_def new_cond_def unwoken_def)

interpretation cond_run: step_invariant cond_init "cond_step c" "cond_sys_inv c" for c
  by unfold_locales (auto intro: cond_init_inv cond_step_inv)

section \<open>Properties\<close>

text \<open>
  C6: no wakeup is lost. In every reachable state the list of a condition variable holds exactly the threads
  asleep on it that nothing has woken, each once, so a signal finds them; a wait that was woken returns
  success at its next look even when its deadline has passed by then; and only a wait that was not woken
  times out.
\<close>

theorem cond_no_lost_wakeup:
  assumes "reachable cond_init (cond_step c) y" "cy_calls y t = Some (Cond_Sleeping q tq d u)"
  shows "(t \<in> set (cv_waiters (fst (cy_state y))) \<longleftrightarrow> \<not> cond_ready q tq t (cy_state y)) \<and>
    distinct (cv_waiters (fst (cy_state y))) \<and>
    (cond_ready q tq t (cy_state y) \<longrightarrow> snd (cond_look c t now q tq d u (cy_state y)) = Cond_Relocking H_OK u) \<and>
    (snd (cond_look c t now q tq d u (cy_state y)) = Cond_Relocking H_ETIMEDOUT u \<longrightarrow>
       \<not> cond_ready q tq t (cy_state y) \<and> (\<exists>deadline. d = Some deadline \<and> deadline \<le> now))"
proof -
  have ok: "cond_ok c (cy_state y) (cy_calls y)" using cond_run.reachable_inv [OF assms(1)] by (simp add: cond_sys_inv_def)
  have "set (cv_waiters (fst (cy_state y))) = unwoken (cy_calls y) (cy_state y)" using ok by (simp add: cond_ok_def)
  then have "t \<in> set (cv_waiters (fst (cy_state y))) \<longleftrightarrow> \<not> cond_ready q tq t (cy_state y)"
    using assms(2) by (auto simp: unwoken_def)
  moreover have "distinct (cv_waiters (fst (cy_state y)))" using ok by (simp add: cond_ok_def)
  ultimately show ?thesis
    by (auto simp: cond_look_def cond_leave_def split: if_splits option.splits prod.splits)
qed

text \<open>
  C24: a signal wakes exactly the thread that has waited longest and a signal to a thread exactly that thread
  if it waits here, a broadcast wakes all of them, and nothing else changes for the others; a signal without
  a waiting thread changes nothing.
\<close>

theorem cond_signal_exact:
  assumes "reachable cond_init (cond_step c) y"
  shows "(cv_waiters (fst (cy_state y)) = t # ts \<longrightarrow>
            cv_waiters (fst (cond_signal c None (cy_state y))) = ts \<and>
            unwoken (cy_calls y) (cond_signal c None (cy_state y)) = unwoken (cy_calls y) (cy_state y) - {t}) \<and>
         (v \<in> set (cv_waiters (fst (cy_state y))) \<longrightarrow>
            unwoken (cy_calls y) (cond_signal c (Some v) (cy_state y)) = unwoken (cy_calls y) (cy_state y) - {v}) \<and>
         (v \<notin> set (cv_waiters (fst (cy_state y))) \<longrightarrow> cond_signal c (Some v) (cy_state y) = cy_state y) \<and>
         (cv_sequence (fst (cy_state y)) \<noteq> 18446744073709551615 \<longrightarrow>
            unwoken (cy_calls y) (cond_broadcast c (cy_state y)) = {})"
proof -
  let ?s = "cy_state y" and ?w = "cv_waiters (fst (cy_state y))"
  have ok: "cond_ok c ?s (cy_calls y)" using cond_run.reachable_inv [OF assms] by (simp add: cond_sys_inv_def)
  have first: "cv_waiters (fst (cond_signal c None ?s)) = ts \<and>
      unwoken (cy_calls y) (cond_signal c None ?s) = unwoken (cy_calls y) ?s - {t}" if "?w = t # ts"
  proof -
    obtain s' k where w: "CondWakeWaiter c None ?s = (s', k)" by (metis prod.exhaust)
    have "k" using w that by (auto simp: CondWakeWaiter_def Let_def split: prod.splits if_splits)
    then show ?thesis using wake_ok(2) [OF ok w] w that by (auto simp: cond_signal_def)
  qed
  have to: "unwoken (cy_calls y) (cond_signal c (Some v) ?s) = unwoken (cy_calls y) ?s - {v}" if "v \<in> set ?w"
  proof -
    obtain s' k where w: "CondWakeWaiter c (Some v) ?s = (s', k)" by (metis prod.exhaust)
    have "k" using w that by (auto simp: CondWakeWaiter_def Let_def split: prod.splits if_splits)
    then show ?thesis using wake_ok(2) [OF ok w] w by (auto simp: cond_signal_def)
  qed
  have none: "cond_signal c (Some v) ?s = ?s" if "v \<notin> set ?w"
    using that by (auto simp: cond_signal_def CondWakeWaiter_def Let_def split: prod.splits)
  show ?thesis using first to none broadcast_ok(2) [OF ok] by blast
qed

text \<open>
  C25: a wait gives its mutex up and gets it back. While the thread is listed the mutex is free, and when the
  call returns success or a time-out, with no handler of its own thread holding the mutex, the thread owns it
  with the count it had before the wait.
\<close>

theorem cond_mutex_restored:
  assumes "cond_begin c t deadline s m = (s', m1, Cond_Sleeping q tq d u)" "mutex_ok m"
    "mx_owner m2 \<noteq> Some t" "r \<in> {H_OK, H_ETIMEDOUT}" "cond_relock t now r u m2 = (m3, Cond_Returned v)"
  shows "mx_owner m1 = None \<and> t \<in> set (cv_waiters (fst s')) \<and> mx_owner m3 = Some t \<and> mx_count m3 = mx_count m \<and>
    v = (if r = H_OK then OK else KERNEL_ERROR_ETIMEDOUT)"
proof -
  have b: "s' = CondAddWaiter c t s" "mx_owner m = Some t" "NativeMutexUnlock_recurse t m = (m1, H_OK, u)"
    using assms(1) by (auto simp: cond_begin_def Let_def split: if_splits prod.splits)
  have u: "u = mx_count m" "mx_owner m1 = None" "u \<noteq> 0"
    using b(2,3) assms(2) by (auto simp: NativeMutexUnlock_recurse_def mutex_release_def mutex_ok_def split: if_splits)
  have mx: "max u 1 = u" using u(3) by (simp add: max_def word_le_less_eq word_less_1)
  have "mx_owner m3 = Some t \<and> mx_count m3 = u \<and> v = cond_result r H_OK"
    using assms(3,5) mx
    by (auto simp: cond_relock_def NativeMutexLockRecurse_def NativeMutexLock_def mutex_look_def lock_recurse_end_def
        mutex_acquire_def split: if_splits)
  then show ?thesis using b(1) u assms(4)
    by (auto simp: CondAddWaiter_def cond_result_def split: prod.splits)
qed

text \<open>A run for the witnesses: thread 5 is asleep on condition 1.\<close>

definition held_mutex :: mutex where
  "held_mutex = mutex_acquire 5 (my_mutex mutex_start)"

definition cond_start :: cond_sys where
  "cond_start = \<lparr>cy_state = (new_cond ''c'' 0, \<lparr>th_cond_sequence = (\<lambda>_. 0), th_waiting_cond = (\<lambda>_. None)\<rparr>), cy_calls = Map.empty\<rparr>"

definition cond_run1 :: cond_sys where
  "cond_run1 = \<lparr>cy_state = CondAddWaiter 1 5 (cy_state cond_start), cy_calls = [5 \<mapsto> Cond_Sleeping 0 0 None 1]\<rparr>"

lemma held_mutex_begin:
  "cond_begin 1 5 None (cy_state cond_start) held_mutex =
     (cy_state cond_run1, held_mutex\<lparr>mx_owner := None, mx_count := 0\<rparr>, Cond_Sleeping 0 0 None 1)"
  by (simp add: cond_begin_def held_mutex_def mutex_acquire_def NativeMutexUnlock_recurse_def mutex_release_def
      cond_start_def cond_run1_def mutex_start_def new_mutex_def plain_attr_def new_cond_def)

lemma cond_run1_reachable: "reachable cond_init (cond_step 1) cond_run1"
proof (rule reachable_step)
  show "reachable cond_init (cond_step 1) cond_start"
    by (rule reachable_init) (auto simp: cond_init_def cond_start_def)
  have "cy_calls cond_start 5 = None" by (simp add: cond_start_def)
  from cond_wait [OF this held_mutex_begin] show "cond_step 1 cond_start cond_run1"
    by (simp add: cond_run1_def cond_start_def)
qed

lemma cond_no_lost_wakeup_witness:
  "5 \<in> set (cv_waiters (fst (cy_state cond_run1))) \<longleftrightarrow> \<not> cond_ready 0 0 5 (cy_state cond_run1)"
  using cond_no_lost_wakeup [OF cond_run1_reachable, of 5 0 0 None 1] by (simp add: cond_run1_def)

lemma cond_signal_exact_witness:
  "cv_waiters (fst (cond_signal 1 None (cy_state cond_run1))) = [] \<and> cv_waiters (fst (cy_state cond_run1)) = [5]"
  using cond_signal_exact [OF cond_run1_reachable, of 5 "[]"] by (simp add: cond_run1_def cond_start_def CondAddWaiter_def new_cond_def)

lemma cond_mutex_restored_witness:
  "mx_owner held_mutex = Some 5 \<and> mx_owner (held_mutex\<lparr>mx_owner := None, mx_count := 0\<rparr>) = None"
proof -
  let ?m = "held_mutex\<lparr>mx_owner := None, mx_count := 0\<rparr>"
  have "mutex_ok held_mutex"
    by (simp add: mutex_ok_def held_mutex_def mutex_acquire_def mutex_start_def new_mutex_def plain_attr_def)
  moreover have "cond_relock 5 0 H_OK 1 ?m = (held_mutex, Cond_Returned OK)"
    by (simp add: cond_relock_def NativeMutexLockRecurse_def NativeMutexLock_def mutex_look_def lock_recurse_end_def
        held_mutex_def mutex_acquire_def cond_result_def)
  ultimately show ?thesis using cond_mutex_restored [OF held_mutex_begin, of ?m H_OK 0 held_mutex OK] by simp
qed

text \<open>
  The deadline of an absolute time is exact while the seconds to it fit into nanoseconds. Past that, such as
  for the largest time, which a caller gives to wait forever, it wraps and lies in the past.
\<close>

lemma deadline_exact:
  assumes "0 \<le> ts_sec a" "ts_sec a < 9000000000" "0 \<le> ts_nsec a" "ts_nsec a < 1000000000"
    "0 \<le> ts_sec n" "ts_sec n < 9000000000" "0 \<le> ts_nsec n" "ts_nsec n < 1000000000"
    "0 \<le> steady_now" "steady_now < 100000000000000000"
  shows "NativeCondDeadlineFromAbs (Some n) (Some a) steady_now =
    Some (steady_now + (ts_sec a - ts_sec n) * 1000000000 + (ts_nsec a - ts_nsec n))"
proof -
  have "i64 (ts_sec a - ts_sec n) = ts_sec a - ts_sec n" "i64 (ts_nsec a - ts_nsec n) = ts_nsec a - ts_nsec n"
    "i64 ((ts_sec a - ts_sec n) * 1000000000) = (ts_sec a - ts_sec n) * 1000000000"
    "i64 ((ts_sec a - ts_sec n) * 1000000000 + (ts_nsec a - ts_nsec n)) = (ts_sec a - ts_sec n) * 1000000000 + (ts_nsec a - ts_nsec n)"
    "i64 (steady_now + ((ts_sec a - ts_sec n) * 1000000000 + (ts_nsec a - ts_nsec n))) =
       steady_now + ((ts_sec a - ts_sec n) * 1000000000 + (ts_nsec a - ts_nsec n))"
    using assms by (auto intro!: i64_ident)
  then show ?thesis using assms by (simp add: NativeCondDeadlineFromAbs_def Let_def)
qed

lemma deadline_wraps:
  "NativeCondDeadlineFromAbs (Some \<lparr>ts_sec = 1700000000, ts_nsec = 0\<rparr>) (Some \<lparr>ts_sec = 9223372036854775807, ts_nsec = 0\<rparr>)
     5000000000 = Some (5000000000 - 1700000001000000000)"
  by code_simp

end
