(* ===== verification/PthreadObjects.thy ===== *)
theory PthreadObjects
  imports PthreadRwlock PthreadCond
begin

text \<open>
  How the guest reaches the mutexes, condition variables and read-write locks of src/src/kernel/pthread.cpp:
  the guest's pointer-sized words, the host objects they point at, their creation at first use
  (\<open>PthreadStaticObjects\<close>), initialisation and destruction, and the exported calls up to their first sleep.
  \<open>Inl EXIT\<close> is the process ending: an \<open>EXIT\<close> of the code, or a pointer that is none being followed.
\<close>

section \<open>Words, objects and bookkeeping\<close>

text \<open>The word of an object in guest memory: null, the 1 of a static adaptive mutex, or a host pointer.\<close>

datatype slot = Slot_Null | Slot_Adaptive | Slot_Object nat

datatype object = Obj_Mutex mutex | Obj_Cond cond | Obj_Rwlock rwlock

datatype static_type = Static_Mutex | Static_Cond | Static_Rwlock

record static_object =
  so_type :: static_type
  so_vaddr :: nat
  so_program :: nat

record world =
  pw_slots :: "nat \<Rightarrow> slot"
  pw_heap :: "nat \<Rightarrow> object option"
  pw_next :: nat
  pw_objects :: "static_object option list"
  pw_threads :: threads
  pw_mutexattr :: mutexattr
  pw_condattr :: int

text \<open>\<open>new\<close> gives an address nothing has; \<open>delete\<close> takes the object away.\<close>

definition store_new :: "nat \<Rightarrow> object \<Rightarrow> world \<Rightarrow> world" where
  "store_new a ob w =
     w\<lparr>pw_heap := (pw_heap w)(pw_next w \<mapsto> ob), pw_slots := (pw_slots w)(a := Slot_Object (pw_next w)),
       pw_next := pw_next w + 1\<rparr>"

definition object_at :: "nat \<Rightarrow> world \<Rightarrow> (nat \<times> object) option" where
  "object_at a w =
     (case pw_slots w a of
        Slot_Object p \<Rightarrow> map_option (\<lambda>ob. (p, ob)) (pw_heap w p)
      | _ \<Rightarrow> None)"

definition delete_at :: "nat \<Rightarrow> nat \<Rightarrow> world \<Rightarrow> world" where
  "delete_at a p w = w\<lparr>pw_heap := (pw_heap w)(p := None), pw_slots := (pw_slots w)(a := Slot_Null)\<rparr>"

definition write_object :: "nat \<Rightarrow> object \<Rightarrow> world \<Rightarrow> world" where
  "write_object p ob w = w\<lparr>pw_heap := (pw_heap w)(p \<mapsto> ob)\<rparr>"

section \<open>Initialisation and destruction\<close>

text \<open>
  \<open>static_type\<close> is the type of a static mutex, 0 for none; its attribute object starts with type 0 and what
  \<open>PthreadMutexattrSettype\<close> returns is not looked at. \<open>attr\<close> is \<open>None\<close> for the null pointer.
\<close>

definition PthreadMutexInitNamed ::
    "(host_mutex_type \<Rightarrow> host_error) \<Rightarrow> nat option \<Rightarrow> mutexattr option \<Rightarrow> string \<Rightarrow> int \<Rightarrow> world \<Rightarrow> (world \<times> int) outcome" where
  "PthreadMutexInitNamed settype addr attr name static_type w =
     (case addr of
        None \<Rightarrow> Inr (w, KERNEL_ERROR_EINVAL)
      | Some a \<Rightarrow>
          let init = (\<lambda>at. Inr (store_new a (Obj_Mutex (new_mutex name at)) w, OK))
          in if static_type \<noteq> 0
             then bind_outcome (PthreadMutexattrSettype settype
                    (Some \<lparr>ma_p = Host_Normal, ma_pprotocol = PRIO_NONE, ma_type = 0\<rparr>) static_type) (\<lambda>(_, at).
                  bind_outcome (PthreadMutexattrSetprotocol at 0) (\<lambda>(_, at). init (the at)))
             else init (case attr of None \<Rightarrow> pw_mutexattr w | Some at \<Rightarrow> at))"

definition PthreadMutexInit ::
    "(host_mutex_type \<Rightarrow> host_error) \<Rightarrow> nat option \<Rightarrow> mutexattr option \<Rightarrow> string \<Rightarrow> world \<Rightarrow> (world \<times> int) outcome" where
  "PthreadMutexInit settype addr attr name w = PthreadMutexInitNamed settype addr attr name 0 w"

definition PthreadMutexDestroy :: "nat option \<Rightarrow> world \<Rightarrow> (world \<times> int) outcome" where
  "PthreadMutexDestroy addr w =
     (case addr of
        None \<Rightarrow> Inr (w, KERNEL_ERROR_EINVAL)
      | Some a \<Rightarrow>
          if pw_slots w a = Slot_Null then Inr (w, KERNEL_ERROR_EINVAL)
          else case object_at a w of
                 Some (p, Obj_Mutex m) \<Rightarrow>
                   if mx_owner m \<noteq> None then Inr (w, KERNEL_ERROR_EBUSY) else Inr (delete_at a p w, OK)
               | _ \<Rightarrow> Inl EXIT)"

definition PthreadCondInitNamed :: "nat option \<Rightarrow> int option \<Rightarrow> string \<Rightarrow> world \<Rightarrow> world \<times> int" where
  "PthreadCondInitNamed addr attr name w =
     (case addr of
        None \<Rightarrow> (w, KERNEL_ERROR_EINVAL)
      | Some a \<Rightarrow> (store_new a (Obj_Cond (new_cond name (case attr of None \<Rightarrow> pw_condattr w | Some cl \<Rightarrow> cl))) w, OK))"

definition PthreadCondInit :: "nat option \<Rightarrow> int option \<Rightarrow> string \<Rightarrow> world \<Rightarrow> world \<times> int" where
  "PthreadCondInit addr attr name w = PthreadCondInitNamed addr attr name w"

definition PthreadCondDestroy :: "nat option \<Rightarrow> world \<Rightarrow> (world \<times> int) outcome" where
  "PthreadCondDestroy addr w =
     (case addr of
        None \<Rightarrow> Inr (w, KERNEL_ERROR_EINVAL)
      | Some a \<Rightarrow>
          (case object_at a w of
             Some (p, Obj_Cond cv) \<Rightarrow> Inr (delete_at a p w, OK)
           | _ \<Rightarrow> Inl EXIT))"

definition PthreadRwlockInitNamed :: "nat option \<Rightarrow> string \<Rightarrow> world \<Rightarrow> world \<times> int" where
  "PthreadRwlockInitNamed addr name w =
     (case addr of
        None \<Rightarrow> (w, KERNEL_ERROR_EINVAL)
      | Some a \<Rightarrow> (store_new a (Obj_Rwlock (new_rwlock name)) w, OK))"

definition PthreadRwlockInit :: "nat option \<Rightarrow> string \<Rightarrow> world \<Rightarrow> world \<times> int" where
  "PthreadRwlockInit addr name w = PthreadRwlockInitNamed addr name w"

definition PthreadRwlockDestroy :: "nat option \<Rightarrow> world \<Rightarrow> (world \<times> int) outcome" where
  "PthreadRwlockDestroy addr w =
     (case addr of
        None \<Rightarrow> Inr (w, KERNEL_ERROR_EINVAL)
      | Some a \<Rightarrow>
          (case object_at a w of
             Some (p, Obj_Rwlock rw) \<Rightarrow>
               if rw_busy rw then Inr (w, KERNEL_ERROR_EBUSY) else Inr (delete_at a p w, OK)
           | _ \<Rightarrow> Inl EXIT))"

section \<open>Creation at first use\<close>

definition hex_lower :: "nat \<Rightarrow> char" where
  "hex_lower d = char_of (if d < 10 then 48 + d else 87 + d)"

definition static_name :: "nat \<Rightarrow> string" where
  "static_name vaddr = ''Static'' @ map (\<lambda>i. hex_lower (vaddr div 16 ^ (15 - i) mod 16)) [0..<16]"

fun put_object :: "static_object \<Rightarrow> static_object option list \<Rightarrow> static_object option list" where
  "put_object ob [] = [Some ob]"
| "put_object ob (None # obs) = Some ob # obs"
| "put_object ob (Some x # obs) = Some x # put_object ob obs"

definition init_static ::
    "(host_mutex_type \<Rightarrow> host_error) \<Rightarrow> nat \<Rightarrow> static_type \<Rightarrow> bool \<Rightarrow> world \<Rightarrow> (world \<times> int) outcome" where
  "init_static settype a type adaptive w =
     (case type of
        Static_Mutex \<Rightarrow> PthreadMutexInitNamed settype (Some a) None (static_name a) (if adaptive then 4 else 0) w
      | Static_Cond \<Rightarrow> Inr (PthreadCondInitNamed (Some a) None (static_name a) w)
      | Static_Rwlock \<Rightarrow> Inr (PthreadRwlockInitNamed (Some a) (static_name a) w))"

text \<open>
  \<open>program\<close> is \<open>FindProgramByAddr\<close>. The word is read again under the lock; no other call can come in between
  in this model, where an operation is one step, so the second look is the first.
\<close>

definition CreateObject ::
    "(host_mutex_type \<Rightarrow> host_error) \<Rightarrow> (nat \<Rightarrow> nat option) \<Rightarrow> nat option \<Rightarrow> static_type \<Rightarrow> world \<Rightarrow> world outcome" where
  "CreateObject settype program addr type w =
     (case addr of
        None \<Rightarrow> Inr w
      | Some a \<Rightarrow>
          let adaptive = (type = Static_Mutex \<and> pw_slots w a = Slot_Adaptive)
          in if pw_slots w a \<noteq> Slot_Null \<and> \<not> adaptive then Inr w
             else bind_outcome (init_static settype a type adaptive w) (\<lambda>(w, result).
                  exit_if (result \<noteq> OK)
                    (Inr (case program a of
                            None \<Rightarrow> w
                          | Some prog \<Rightarrow>
                              w\<lparr>pw_objects := put_object \<lparr>so_type = type, so_vaddr = a, so_program = prog\<rparr> (pw_objects w)\<rparr>))))"

definition destroy_static :: "static_object \<Rightarrow> world \<Rightarrow> (world \<times> int) outcome" where
  "destroy_static ob w =
     (case so_type ob of
        Static_Mutex \<Rightarrow> PthreadMutexDestroy (Some (so_vaddr ob)) w
      | Static_Cond \<Rightarrow> PthreadCondDestroy (Some (so_vaddr ob)) w
      | Static_Rwlock \<Rightarrow> PthreadRwlockDestroy (Some (so_vaddr ob)) w)"

text \<open>The loop of \<open>DeleteObjects\<close> over the entries still to look at, with those already seen.\<close>

fun delete_objects :: "nat \<Rightarrow> static_object option list \<Rightarrow> world \<Rightarrow> (world \<times> static_object option list) outcome" where
  "delete_objects program [] w = Inr (w, [])"
| "delete_objects program (x # xs) w =
     (case x of
        Some ob \<Rightarrow>
          if so_program ob = program
          then bind_outcome (destroy_static ob w) (\<lambda>(w, result).
               exit_if (result \<noteq> OK)
                 (bind_outcome (delete_objects program xs w) (\<lambda>(w, xs). Inr (w, None # xs))))
          else bind_outcome (delete_objects program xs w) (\<lambda>(w, xs). Inr (w, Some ob # xs))
      | None \<Rightarrow> bind_outcome (delete_objects program xs w) (\<lambda>(w, xs). Inr (w, None # xs)))"

definition DeleteObjects :: "nat \<Rightarrow> world \<Rightarrow> world outcome" where
  "DeleteObjects program w =
     bind_outcome (delete_objects program (pw_objects w) w) (\<lambda>(w, obs). Inr (w\<lparr>pw_objects := obs\<rparr>))"

section \<open>The exported calls\<close>

text \<open>A call that sleeps is told by where it sleeps.\<close>

datatype api_call = Api_Returned int | Api_Mutex mutex_call | Api_Cond cond_wait | Api_Rwlock rw_call

definition with_mutex ::
    "nat option \<Rightarrow> (nat \<Rightarrow> mutex \<Rightarrow> world \<Rightarrow> (world \<times> api_call) outcome) \<Rightarrow> world \<Rightarrow> (world \<times> api_call) outcome" where
  "with_mutex addr f w =
     (case addr of
        None \<Rightarrow> Inr (w, Api_Returned KERNEL_ERROR_EINVAL)
      | Some a \<Rightarrow> (case object_at a w of Some (p, Obj_Mutex m) \<Rightarrow> f p m w | _ \<Rightarrow> Inl EXIT))"

definition with_cond ::
    "nat option \<Rightarrow> (nat \<Rightarrow> cond \<Rightarrow> world \<Rightarrow> (world \<times> api_call) outcome) \<Rightarrow> world \<Rightarrow> (world \<times> api_call) outcome" where
  "with_cond addr f w =
     (case addr of
        None \<Rightarrow> Inr (w, Api_Returned KERNEL_ERROR_EINVAL)
      | Some a \<Rightarrow> (case object_at a w of Some (p, Obj_Cond cv) \<Rightarrow> f p cv w | _ \<Rightarrow> Inl EXIT))"

definition with_rwlock ::
    "nat option \<Rightarrow> (nat \<Rightarrow> rwlock \<Rightarrow> world \<Rightarrow> (world \<times> api_call) outcome) \<Rightarrow> world \<Rightarrow> (world \<times> api_call) outcome" where
  "with_rwlock addr f w =
     (case addr of
        None \<Rightarrow> Inr (w, Api_Returned KERNEL_ERROR_EINVAL)
      | Some a \<Rightarrow> (case object_at a w of Some (p, Obj_Rwlock rw) \<Rightarrow> f p rw w | _ \<Rightarrow> Inl EXIT))"

definition lock_code :: "host_error \<Rightarrow> int" where
  "lock_code result =
     (if result = H_OK then OK else if result = H_EAGAIN then KERNEL_ERROR_EAGAIN
      else if result = H_EDEADLK then KERNEL_ERROR_EDEADLK else KERNEL_ERROR_EINVAL)"

definition trylock_code :: "host_error \<Rightarrow> int" where
  "trylock_code result =
     (if result = H_OK then OK else if result = H_EAGAIN then KERNEL_ERROR_EAGAIN
      else if result = H_EBUSY then KERNEL_ERROR_EBUSY else KERNEL_ERROR_EINVAL)"

definition timedlock_code :: "host_error \<Rightarrow> int" where
  "timedlock_code result =
     (if result = H_OK then OK else if result = H_ETIMEDOUT then KERNEL_ERROR_ETIMEDOUT
      else if result = H_EAGAIN then KERNEL_ERROR_EAGAIN
      else if result = H_EDEADLK then KERNEL_ERROR_EDEADLK else KERNEL_ERROR_EINVAL)"

definition unlock_code :: "host_error \<Rightarrow> int" where
  "unlock_code result =
     (if result = H_OK then OK else if result = H_EPERM then KERNEL_ERROR_EPERM else KERNEL_ERROR_EINVAL)"

definition mutex_answer :: "(host_error \<Rightarrow> int) \<Rightarrow> mutex_call \<Rightarrow> api_call" where
  "mutex_answer code call = (case call of Mutex_Returned r \<Rightarrow> Api_Returned (code r) | _ \<Rightarrow> Api_Mutex call)"

record host_env =
  he_settype :: "host_mutex_type \<Rightarrow> host_error"
  he_program :: "nat \<Rightarrow> nat option"

definition PthreadMutexLock :: "host_env \<Rightarrow> nat \<Rightarrow> nat \<Rightarrow> nat option \<Rightarrow> world \<Rightarrow> (world \<times> api_call) outcome" where
  "PthreadMutexLock env self now addr w =
     bind_outcome (CreateObject (he_settype env) (he_program env) addr Static_Mutex w)
       (with_mutex addr (\<lambda>p m w. case NativeMutexLock self None now m of
          (m', call) \<Rightarrow> Inr (write_object p (Obj_Mutex m') w, mutex_answer lock_code call)))"

definition PthreadMutexTrylock :: "host_env \<Rightarrow> nat \<Rightarrow> nat option \<Rightarrow> world \<Rightarrow> (world \<times> api_call) outcome" where
  "PthreadMutexTrylock env self addr w =
     bind_outcome (CreateObject (he_settype env) (he_program env) addr Static_Mutex w)
       (with_mutex addr (\<lambda>p m w. case NativeMutexTrylock self m of
          (m', r) \<Rightarrow> Inr (write_object p (Obj_Mutex m') w, Api_Returned (trylock_code r))))"

definition PthreadMutexTimedlock ::
    "host_env \<Rightarrow> nat \<Rightarrow> nat \<Rightarrow> nat option \<Rightarrow> nat \<Rightarrow> world \<Rightarrow> (world \<times> api_call) outcome" where
  "PthreadMutexTimedlock env self now addr usec w =
     bind_outcome (CreateObject (he_settype env) (he_program env) addr Static_Mutex w)
       (with_mutex addr (\<lambda>p m w. case NativeMutexLock self (Some usec) now m of
          (m', call) \<Rightarrow> Inr (write_object p (Obj_Mutex m') w, mutex_answer timedlock_code call)))"

definition PthreadMutexUnlock :: "host_env \<Rightarrow> nat \<Rightarrow> nat option \<Rightarrow> world \<Rightarrow> (world \<times> api_call) outcome" where
  "PthreadMutexUnlock env self addr w =
     bind_outcome (CreateObject (he_settype env) (he_program env) addr Static_Mutex w)
       (with_mutex addr (\<lambda>p m w. case NativeMutexUnlock self m of
          (m', r) \<Rightarrow> Inr (write_object p (Obj_Mutex m') w, Api_Returned (unlock_code r))))"

text \<open>A call of the condition variable's own functions writes the object and the threads back.\<close>

definition write_cond :: "nat \<Rightarrow> cond \<times> threads \<Rightarrow> world \<Rightarrow> world" where
  "write_cond p s w = (write_object p (Obj_Cond (fst s)) w)\<lparr>pw_threads := snd s\<rparr>"

definition PthreadCondBroadcast :: "host_env \<Rightarrow> nat option \<Rightarrow> world \<Rightarrow> (world \<times> api_call) outcome" where
  "PthreadCondBroadcast env addr w =
     bind_outcome (CreateObject (he_settype env) (he_program env) addr Static_Cond w)
       (with_cond addr (\<lambda>p cv w. Inr (write_cond p (cond_broadcast p (cv, pw_threads w)) w, Api_Returned OK)))"

definition PthreadCondSignal :: "host_env \<Rightarrow> nat option \<Rightarrow> world \<Rightarrow> (world \<times> api_call) outcome" where
  "PthreadCondSignal env addr w =
     bind_outcome (CreateObject (he_settype env) (he_program env) addr Static_Cond w)
       (with_cond addr (\<lambda>p cv w. Inr (write_cond p (cond_signal p None (cv, pw_threads w)) w, Api_Returned OK)))"

definition PthreadCondSignalto :: "host_env \<Rightarrow> nat option \<Rightarrow> nat option \<Rightarrow> world \<Rightarrow> (world \<times> api_call) outcome" where
  "PthreadCondSignalto env addr thread w =
     bind_outcome (CreateObject (he_settype env) (he_program env) addr Static_Cond w) (\<lambda>w.
       if thread = None then Inr (w, Api_Returned KERNEL_ERROR_EINVAL)
       else with_cond addr (\<lambda>p cv w. Inr (write_cond p (cond_signal p thread (cv, pw_threads w)) w, Api_Returned OK)) w)"

definition cond_answer :: "cond_wait \<Rightarrow> api_call" where
  "cond_answer c = (case c of Cond_Returned r \<Rightarrow> Api_Returned r | _ \<Rightarrow> Api_Cond c)"

text \<open>Both objects of a wait are looked up first; \<open>wait\<close> is the wait itself.\<close>

definition with_cond_mutex ::
    "host_env \<Rightarrow> nat option \<Rightarrow> nat option \<Rightarrow>
     (nat \<Rightarrow> cond \<times> threads \<Rightarrow> mutex \<Rightarrow> (cond \<times> threads) \<times> mutex \<times> cond_wait) \<Rightarrow> world \<Rightarrow> (world \<times> api_call) outcome" where
  "with_cond_mutex env ca ma wait w =
     bind_outcome (CreateObject (he_settype env) (he_program env) ca Static_Cond w) (\<lambda>w.
     bind_outcome (CreateObject (he_settype env) (he_program env) ma Static_Mutex w) (\<lambda>w.
       if ca = None \<or> ma = None then Inr (w, Api_Returned KERNEL_ERROR_EINVAL)
       else with_cond ca (\<lambda>pc cv. with_mutex ma (\<lambda>pm m w.
              case wait pc (cv, pw_threads w) m of
                (s, m', call) \<Rightarrow> Inr (write_object pm (Obj_Mutex m') (write_cond pc s w), cond_answer call))) w))"

definition PthreadCondWait :: "host_env \<Rightarrow> nat \<Rightarrow> nat \<Rightarrow> nat option \<Rightarrow> nat option \<Rightarrow> world \<Rightarrow> (world \<times> api_call) outcome" where
  "PthreadCondWait env self now ca ma w = with_cond_mutex env ca ma (\<lambda>c. cond_Wait c self now) w"

definition PthreadCondTimedwait ::
    "host_env \<Rightarrow> nat \<Rightarrow> nat \<Rightarrow> nat option \<Rightarrow> nat option \<Rightarrow> nat \<Rightarrow> world \<Rightarrow> (world \<times> api_call) outcome" where
  "PthreadCondTimedwait env self now ca ma usec w = with_cond_mutex env ca ma (\<lambda>c. cond_Timedwait c self now usec) w"

text \<open>\<open>clocks\<close> reads the clock with a number.\<close>

definition PthreadCondTimedwaitAbs ::
    "host_env \<Rightarrow> nat \<Rightarrow> nat \<Rightarrow> (int \<Rightarrow> timespec option) \<Rightarrow> nat option \<Rightarrow> nat option \<Rightarrow> timespec option \<Rightarrow> world \<Rightarrow>
       (world \<times> api_call) outcome" where
  "PthreadCondTimedwaitAbs env self now clocks ca ma abstime w =
     with_cond_mutex env ca ma (\<lambda>c s. cond_TimedwaitAbs c self now (clocks (cv_clock_id (fst s))) abstime s) w"

definition rw_answer :: "rwlock \<times> rw_call \<Rightarrow> rwlock \<times> api_call" where
  "rw_answer = (\<lambda>(rw, call). (rw, case call of Rw_Returned r \<Rightarrow> Api_Returned r | _ \<Rightarrow> Api_Rwlock call))"

definition on_rwlock ::
    "nat option \<Rightarrow> (rwlock \<Rightarrow> rwlock \<times> api_call) \<Rightarrow> world \<Rightarrow> (world \<times> api_call) outcome" where
  "on_rwlock addr f w =
     with_rwlock addr (\<lambda>p rw w. case f rw of (rw', call) \<Rightarrow> Inr (write_object p (Obj_Rwlock rw') w, call)) w"

definition PthreadRwlockRdlock ::
    "host_env \<Rightarrow> nat option \<Rightarrow> nat \<Rightarrow> nat option \<Rightarrow> world \<Rightarrow> (world \<times> api_call) outcome" where
  "PthreadRwlockRdlock env self now addr w =
     bind_outcome (CreateObject (he_settype env) (he_program env) addr Static_Rwlock w)
       (on_rwlock addr (\<lambda>rw. rw_answer (RwlockLockCooperative self False None now rw)))"

definition PthreadRwlockWrlock ::
    "host_env \<Rightarrow> nat option \<Rightarrow> nat \<Rightarrow> nat option \<Rightarrow> world \<Rightarrow> (world \<times> api_call) outcome" where
  "PthreadRwlockWrlock env self now addr w =
     bind_outcome (CreateObject (he_settype env) (he_program env) addr Static_Rwlock w)
       (on_rwlock addr (\<lambda>rw. rw_answer (RwlockLockCooperative self True None now rw)))"

definition PthreadRwlockTimedrdlock ::
    "nat option \<Rightarrow> nat \<Rightarrow> nat option \<Rightarrow> nat \<Rightarrow> world \<Rightarrow> (world \<times> api_call) outcome" where
  "PthreadRwlockTimedrdlock self now addr usec w =
     on_rwlock addr (\<lambda>rw. rw_answer (RwlockLockCooperative self False (Some usec) now rw)) w"

definition PthreadRwlockTimedwrlock ::
    "nat option \<Rightarrow> nat \<Rightarrow> nat option \<Rightarrow> nat \<Rightarrow> world \<Rightarrow> (world \<times> api_call) outcome" where
  "PthreadRwlockTimedwrlock self now addr usec w =
     on_rwlock addr (\<lambda>rw. rw_answer (RwlockLockCooperative self True (Some usec) now rw)) w"

definition PthreadRwlockTryrdlock :: "nat option \<Rightarrow> nat option \<Rightarrow> world \<Rightarrow> (world \<times> api_call) outcome" where
  "PthreadRwlockTryrdlock self addr w =
     on_rwlock addr (\<lambda>rw. case rw_Tryrdlock self rw of (rw, r) \<Rightarrow> (rw, Api_Returned r)) w"

definition PthreadRwlockTrywrlock :: "nat option \<Rightarrow> nat option \<Rightarrow> world \<Rightarrow> (world \<times> api_call) outcome" where
  "PthreadRwlockTrywrlock self addr w =
     on_rwlock addr (\<lambda>rw. case rw_Trywrlock self rw of (rw, r) \<Rightarrow> (rw, Api_Returned r)) w"

definition PthreadRwlockUnlock :: "host_env \<Rightarrow> nat option \<Rightarrow> nat option \<Rightarrow> world \<Rightarrow> (world \<times> api_call) outcome" where
  "PthreadRwlockUnlock env self addr w =
     bind_outcome (CreateObject (he_settype env) (he_program env) addr Static_Rwlock w)
       (with_rwlock addr (\<lambda>p rw w. bind_outcome (rw_Unlock self rw) (\<lambda>(rw', r).
          Inr (write_object p (Obj_Rwlock rw') w, Api_Returned r))))"

text \<open>The time-out of \<open>pthread_mutex_timedlock\<close> in microseconds, \<open>None\<close> for a refused time.\<close>

definition posix_timeout :: "timespec option \<Rightarrow> timespec option \<Rightarrow> nat option" where
  "posix_timeout clock abstime =
     (case (abstime, clock) of
        (Some a, Some n) \<Rightarrow>
          if ts_sec a < 0 \<or> ts_nsec a < 0 \<or> ts_nsec a \<ge> 1000000000 then None
          else let sec_delta = ts_sec a - ts_sec n;
                   nsec_delta = ts_nsec a - ts_nsec n;
                   (sec_delta, nsec_delta) = (if nsec_delta < 0 then (sec_delta - 1, nsec_delta + 1000000000)
                                              else (sec_delta, nsec_delta))
               in if sec_delta > 0 \<or> (sec_delta = 0 \<and> nsec_delta > 0)
                  then let usec = (if sec_delta > 4294967295 div 1000000 then 4294967295 else sec_delta * 1000000)
                       in Some (nat (min 4294967295 (usec + nsec_delta div 1000)))
                  else Some 0
      | _ \<Rightarrow> None)"

definition PTHREAD_CALL :: "(world \<times> api_call) outcome \<Rightarrow> (world \<times> api_call) outcome" where
  "PTHREAD_CALL r =
     bind_outcome r (\<lambda>(w, call).
       Inr (w, case call of Api_Returned c \<Rightarrow> Api_Returned (if c \<noteq> OK then KernelToPosix c else 0) | _ \<Rightarrow> call))"

definition pthread_mutex_timedlock ::
    "host_env \<Rightarrow> nat \<Rightarrow> nat \<Rightarrow> timespec option \<Rightarrow> nat option \<Rightarrow> timespec option \<Rightarrow> world \<Rightarrow> (world \<times> api_call) outcome" where
  "pthread_mutex_timedlock env self now clock addr abstime w =
     (case posix_timeout clock abstime of
        None \<Rightarrow> Inr (w, Api_Returned (KernelToPosix KERNEL_ERROR_EINVAL))
      | Some usec \<Rightarrow> PTHREAD_CALL (PthreadMutexTimedlock env self now addr usec w))"

section \<open>Well-typed worlds\<close>

definition type_of :: "object \<Rightarrow> static_type" where
  "type_of ob = (case ob of Obj_Mutex _ \<Rightarrow> Static_Mutex | Obj_Cond _ \<Rightarrow> Static_Cond | Obj_Rwlock _ \<Rightarrow> Static_Rwlock)"

text \<open>\<open>ty\<close> is the kind of object the guest uses each address for.\<close>

definition world_ok :: "(nat \<Rightarrow> static_type) \<Rightarrow> world \<Rightarrow> bool" where
  "world_ok ty w \<longleftrightarrow>
     (\<forall>a p. pw_slots w a = Slot_Object p \<longrightarrow> (\<exists>ob. pw_heap w p = Some ob \<and> type_of ob = ty a)) \<and>
     (\<forall>a b p. pw_slots w a = Slot_Object p \<and> pw_slots w b = Slot_Object p \<longrightarrow> a = b) \<and>
     (\<forall>p\<ge>pw_next w. pw_heap w p = None) \<and>
     (\<forall>a. pw_slots w a = Slot_Adaptive \<longrightarrow> ty a = Static_Mutex) \<and>
     (\<forall>ob. Some ob \<in> set (pw_objects w) \<longrightarrow> so_type ob = ty (so_vaddr ob))"

definition plain_host :: "host_env \<Rightarrow> bool" where
  "plain_host env \<longleftrightarrow> (\<forall>t. he_settype env t = H_OK)"

text \<open>The object the guest means by an address: the one there, or the one its first use makes.\<close>

definition fresh_object :: "static_type \<Rightarrow> nat \<Rightarrow> world \<Rightarrow> object" where
  "fresh_object type a w =
     (case type of
        Static_Mutex \<Rightarrow> Obj_Mutex (new_mutex (static_name a)
          (if pw_slots w a = Slot_Adaptive then \<lparr>ma_p = Host_Normal, ma_pprotocol = PRIO_NONE, ma_type = 4\<rparr> else pw_mutexattr w))
      | Static_Cond \<Rightarrow> Obj_Cond (new_cond (static_name a) (pw_condattr w))
      | Static_Rwlock \<Rightarrow> Obj_Rwlock (new_rwlock (static_name a)))"

definition view :: "static_type \<Rightarrow> nat \<Rightarrow> world \<Rightarrow> object" where
  "view type a w = (case object_at a w of Some (p, ob) \<Rightarrow> ob | None \<Rightarrow> fresh_object type a w)"

text \<open>Nothing of the other addresses differs.\<close>

definition untouched :: "nat set \<Rightarrow> world \<Rightarrow> world \<Rightarrow> bool" where
  "untouched A w w' \<longleftrightarrow> (\<forall>b. b \<notin> A \<longrightarrow> pw_slots w' b = pw_slots w b \<and> object_at b w' = object_at b w)"

lemma untouched_refl [simp]: "untouched A w w"
  by (simp add: untouched_def)

lemma untouched_trans: "untouched A w w' \<Longrightarrow> untouched A w' w'' \<Longrightarrow> untouched A w w''"
  by (simp add: untouched_def)

lemma put_object_set: "set (put_object ob obs) \<subseteq> insert (Some ob) (insert None (set obs))"
  by (induction ob obs rule: put_object.induct) auto

lemma put_object_mem: "Some ob \<in> set (put_object ob obs)" "Some x \<in> set obs \<Longrightarrow> Some x \<in> set (put_object ob obs)"
  by (induction ob obs rule: put_object.induct) auto

lemma world_okD:
  assumes "world_ok ty w"
  shows "pw_slots w a = Slot_Object p \<Longrightarrow> \<exists>ob. pw_heap w p = Some ob \<and> type_of ob = ty a"
    "pw_slots w a = Slot_Object p \<Longrightarrow> pw_slots w b = Slot_Object p \<Longrightarrow> a = b"
    "pw_next w \<le> p \<Longrightarrow> pw_heap w p = None"
    "pw_slots w a = Slot_Adaptive \<Longrightarrow> ty a = Static_Mutex"
    "Some ob \<in> set (pw_objects w) \<Longrightarrow> so_type ob = ty (so_vaddr ob)"
  using assms unfolding world_ok_def by blast+

lemma below_next: "world_ok ty w \<Longrightarrow> pw_slots w a = Slot_Object p \<Longrightarrow> p < pw_next w"
  using world_okD(1) [of ty w a p] world_okD(3) [of ty w p] by (metis linorder_not_less option.distinct(1))

lemma store_new_ok:
  assumes ok: "world_ok ty w" and t: "type_of ob = ty a"
  shows "world_ok ty (store_new a ob w)" "object_at a (store_new a ob w) = Some (pw_next w, ob)"
    "untouched {a} w (store_new a ob w)"
proof -
  have ne: "pw_slots w b \<noteq> Slot_Object (pw_next w)" for b using below_next [OF ok, of b "pw_next w"] by auto
  show "object_at a (store_new a ob w) = Some (pw_next w, ob)" by (simp add: object_at_def store_new_def)
  show "untouched {a} w (store_new a ob w)"
    using ne by (auto simp: untouched_def object_at_def store_new_def split: slot.split)
  show "world_ok ty (store_new a ob w)"
    unfolding world_ok_def
  proof (intro conjI allI impI)
    fix b p assume "pw_slots (store_new a ob w) b = Slot_Object p"
    then show "\<exists>ob'. pw_heap (store_new a ob w) p = Some ob' \<and> type_of ob' = ty b"
      using t ne [of b] world_okD(1) [OF ok] by (auto simp: store_new_def split: if_splits)
  next
    fix b c p assume "pw_slots (store_new a ob w) b = Slot_Object p \<and> pw_slots (store_new a ob w) c = Slot_Object p"
    then show "b = c" using ne world_okD(2) [OF ok] by (auto simp: store_new_def split: if_splits)
  next
    fix p assume "pw_next (store_new a ob w) \<le> p"
    then show "pw_heap (store_new a ob w) p = None" using world_okD(3) [OF ok] by (simp add: store_new_def)
  next
    fix b assume "pw_slots (store_new a ob w) b = Slot_Adaptive"
    then show "ty b = Static_Mutex" using world_okD(4) [OF ok] by (simp add: store_new_def split: if_splits)
  next
    fix x assume "Some x \<in> set (pw_objects (store_new a ob w))"
    then show "so_type x = ty (so_vaddr x)" using world_okD(5) [OF ok] by (simp add: store_new_def)
  qed
qed

lemma write_object_ok:
  assumes ok: "world_ok ty w" and at: "object_at a w = Some (p, ob)" and t: "type_of ob' = type_of ob"
  shows "world_ok ty (write_object p ob' w)" "object_at a (write_object p ob' w) = Some (p, ob')"
    "untouched {a} w (write_object p ob' w)"
proof -
  have a: "pw_slots w a = Slot_Object p" "pw_heap w p = Some ob" using at by (auto simp: object_at_def split: slot.splits)
  have ne: "pw_slots w b \<noteq> Slot_Object p" if "b \<noteq> a" for b using world_okD(2) [OF ok a(1), of b] that by auto
  show "object_at a (write_object p ob' w) = Some (p, ob')" using a by (simp add: object_at_def write_object_def)
  show "untouched {a} w (write_object p ob' w)"
    using ne by (auto simp: untouched_def object_at_def write_object_def split: slot.split)
  have "type_of ob = ty a" using world_okD(1) [OF ok a(1)] a(2) by simp
  then have ty': "type_of ob' = ty b" if "pw_slots w b = Slot_Object p" for b
    using that ne [of b] t by (cases "b = a") auto
  have pn: "p < pw_next w" by (rule below_next [OF ok a(1)])
  show "world_ok ty (write_object p ob' w)"
    unfolding world_ok_def
  proof (intro conjI allI impI)
    fix b q assume "pw_slots (write_object p ob' w) b = Slot_Object q"
    then show "\<exists>x. pw_heap (write_object p ob' w) q = Some x \<and> type_of x = ty b"
      using ty' [of b] world_okD(1) [OF ok, of b q] by (cases "q = p") (auto simp: write_object_def)
  next
    fix b c q assume "pw_slots (write_object p ob' w) b = Slot_Object q \<and> pw_slots (write_object p ob' w) c = Slot_Object q"
    then show "b = c" using world_okD(2) [OF ok] by (simp add: write_object_def)
  next
    fix q assume "pw_next (write_object p ob' w) \<le> q"
    then show "pw_heap (write_object p ob' w) q = None" using pn world_okD(3) [OF ok, of q] by (simp add: write_object_def)
  next
    fix b assume "pw_slots (write_object p ob' w) b = Slot_Adaptive"
    then show "ty b = Static_Mutex" using world_okD(4) [OF ok] by (simp add: write_object_def)
  next
    fix x assume "Some x \<in> set (pw_objects (write_object p ob' w))"
    then show "so_type x = ty (so_vaddr x)" using world_okD(5) [OF ok] by (simp add: write_object_def)
  qed
qed

lemma delete_ok:
  assumes ok: "world_ok ty w" and at: "object_at a w = Some (p, ob)"
  shows "world_ok ty (delete_at a p w)" "untouched {a} w (delete_at a p w)"
proof -
  have a: "pw_slots w a = Slot_Object p" using at by (auto simp: object_at_def split: slot.splits)
  have ne: "pw_slots w b \<noteq> Slot_Object p" if "b \<noteq> a" for b using world_okD(2) [OF ok a, of b] that by auto
  show "untouched {a} w (delete_at a p w)"
    using ne by (auto simp: untouched_def object_at_def delete_at_def split: slot.split)
  show "world_ok ty (delete_at a p w)"
    unfolding world_ok_def
  proof (intro conjI allI impI)
    fix b q assume b: "pw_slots (delete_at a p w) b = Slot_Object q"
    then show "\<exists>x. pw_heap (delete_at a p w) q = Some x \<and> type_of x = ty b"
      using world_okD(1) [OF ok, of b q] ne [of b] by (auto simp: delete_at_def split: if_splits)
  next
    fix b c q assume "pw_slots (delete_at a p w) b = Slot_Object q \<and> pw_slots (delete_at a p w) c = Slot_Object q"
    then show "b = c" using world_okD(2) [OF ok] by (auto simp: delete_at_def split: if_splits)
  next
    fix q assume "pw_next (delete_at a p w) \<le> q"
    then show "pw_heap (delete_at a p w) q = None" using world_okD(3) [OF ok, of q] by (simp add: delete_at_def)
  next
    fix b assume "pw_slots (delete_at a p w) b = Slot_Adaptive"
    then show "ty b = Static_Mutex" using world_okD(4) [OF ok] by (simp add: delete_at_def split: if_splits)
  next
    fix x assume "Some x \<in> set (pw_objects (delete_at a p w))"
    then show "so_type x = ty (so_vaddr x)" using world_okD(5) [OF ok] by (simp add: delete_at_def)
  qed
qed

lemma book_ok:
  assumes "world_ok ty w" "ty (so_vaddr ob) = so_type ob"
  shows "world_ok ty (w\<lparr>pw_objects := put_object ob (pw_objects w)\<rparr>)"
proof -
  have "so_type x = ty (so_vaddr x)" if "Some x \<in> set (put_object ob (pw_objects w))" for x
  proof -
    have "x = ob \<or> Some x \<in> set (pw_objects w)" using put_object_set [of ob "pw_objects w"] that by auto
    then show ?thesis using assms(2) world_okD(5) [OF assms(1), of x] by (elim disjE) simp_all
  qed
  then show ?thesis
    unfolding world_ok_def
  proof (intro conjI allI impI)
    fix b p assume "pw_slots (w\<lparr>pw_objects := put_object ob (pw_objects w)\<rparr>) b = Slot_Object p"
    then show "\<exists>x. pw_heap (w\<lparr>pw_objects := put_object ob (pw_objects w)\<rparr>) p = Some x \<and> type_of x = ty b"
      using world_okD(1) [OF assms(1), of b p] by simp
  qed (use world_okD [OF assms(1)] in auto)
qed

lemma object_at_book [simp]: "object_at a (w\<lparr>pw_objects := obs\<rparr>) = object_at a w"
  by (simp add: object_at_def split: slot.split)

lemma untouched_book [simp]: "untouched A w (w'\<lparr>pw_objects := obs\<rparr>) = untouched A w w'"
  by (simp add: untouched_def)

lemma init_static_fresh:
  assumes "plain_host env"
  shows "init_static (he_settype env) a type (type = Static_Mutex \<and> pw_slots w a = Slot_Adaptive) w
           = Inr (store_new a (fresh_object type a w) w, OK)"
  using assms
  by (cases type) (auto simp: init_static_def PthreadMutexInitNamed_def PthreadCondInitNamed_def PthreadRwlockInitNamed_def
      fresh_object_def plain_host_def PthreadMutexattrSettype_def PthreadMutexattrSetprotocol_def mutex_types)

lemma type_of_fresh [simp]: "type_of (fresh_object type a w) = type"
  by (simp add: type_of_def fresh_object_def split: static_type.split)

lemma create_makes:
  assumes "world_ok ty w" "plain_host env" "\<And>p. pw_slots w a \<noteq> Slot_Object p"
  shows "CreateObject (he_settype env) (he_program env) (Some a) (ty a) w
           = Inr (let w' = store_new a (fresh_object (ty a) a w) w in
                  case he_program env a of
                    None \<Rightarrow> w'
                  | Some prog \<Rightarrow>
                      w'\<lparr>pw_objects := put_object \<lparr>so_type = ty a, so_vaddr = a, so_program = prog\<rparr> (pw_objects w')\<rparr>)"
proof -
  have ad: "pw_slots w a \<noteq> Slot_Null \<Longrightarrow> ty a = Static_Mutex \<and> pw_slots w a = Slot_Adaptive"
    using assms(3) world_okD(4) [OF assms(1), of a] by (cases "pw_slots w a") blast+
  show ?thesis
    unfolding CreateObject_def Let_def option.case
    by (subst init_static_fresh [OF assms(2)]) (use ad in auto)
qed

text \<open>What the guest's word denotes after \<open>CreateObject\<close> is what it meant before.\<close>

lemma create_ok:
  assumes ok: "world_ok ty w" and host: "plain_host env"
  shows "\<exists>w' p. CreateObject (he_settype env) (he_program env) (Some a) (ty a) w = Inr w' \<and> world_ok ty w' \<and>
           object_at a w' = Some (p, view (ty a) a w) \<and> type_of (view (ty a) a w) = ty a \<and> untouched {a} w w' \<and>
           pw_threads w' = pw_threads w"
proof (cases "\<exists>p. pw_slots w a = Slot_Object p")
  case True
  then obtain p where p: "pw_slots w a = Slot_Object p" by blast
  obtain ob where ob: "pw_heap w p = Some ob" "type_of ob = ty a" using world_okD(1) [OF ok p] by auto
  then have "object_at a w = Some (p, ob)" using p by (simp add: object_at_def)
  then show ?thesis using ok ob p by (simp add: CreateObject_def view_def)
next
  case False
  let ?w = "store_new a (fresh_object (ty a) a w) w"
  note new = store_new_ok [OF ok, of "fresh_object (ty a) a w" a, simplified]
  have "object_at a w = None" using False by (simp add: object_at_def split: slot.split)
  then have v: "view (ty a) a w = fresh_object (ty a) a w" by (simp add: view_def)
  have th: "pw_threads ?w = pw_threads w" by (simp add: store_new_def)
  have no: "pw_slots w a \<noteq> Slot_Object p" for p using False by blast
  show ?thesis
    unfolding create_makes [OF ok host no] v
    using new th by (cases "he_program env a") (auto simp: Let_def intro!: book_ok)
qed

text \<open>An operation on the object of \<open>a\<close> that leaves \<open>ob\<close> there and nothing else changed.\<close>

definition becomes :: "(nat \<Rightarrow> static_type) \<Rightarrow> nat \<Rightarrow> object \<Rightarrow> world \<Rightarrow> world \<Rightarrow> bool" where
  "becomes ty a ob w w' \<longleftrightarrow>
     world_ok ty w' \<and> view (ty a) a w' = ob \<and> untouched {a} w w' \<and> pw_threads w' = pw_threads w"

lemma write_becomes:
  assumes "world_ok ty w'" "object_at a w' = Some (p, ob)" "type_of ob' = type_of ob" "untouched {a} w w'"
    "pw_threads w' = pw_threads w"
  shows "becomes ty a ob' w (write_object p ob' w')"
  using write_object_ok [OF assms(1,2,3)] untouched_trans [OF assms(4)] assms(5)
  by (simp add: becomes_def view_def write_object_def)

lemma mutex_viewE:
  assumes "world_ok ty w" "plain_host env" "ty a = Static_Mutex"
  obtains w' p m where "CreateObject (he_settype env) (he_program env) (Some a) Static_Mutex w = Inr w'"
    "view Static_Mutex a w = Obj_Mutex m" "object_at a w' = Some (p, Obj_Mutex m)"
    "\<And>m'. becomes ty a (Obj_Mutex m') w (write_object p (Obj_Mutex m') w')"
proof -
  obtain w' p where c: "CreateObject (he_settype env) (he_program env) (Some a) Static_Mutex w = Inr w'" "world_ok ty w'"
      "object_at a w' = Some (p, view Static_Mutex a w)" "type_of (view Static_Mutex a w) = Static_Mutex" "untouched {a} w w'"
      "pw_threads w' = pw_threads w"
    using create_ok [OF assms(1,2), of a] assms(3) by auto
  obtain m where m: "view Static_Mutex a w = Obj_Mutex m" using c(4) by (cases "view Static_Mutex a w") (simp_all add: type_of_def)
  have "becomes ty a (Obj_Mutex m') w (write_object p (Obj_Mutex m') w')" for m'
    by (rule write_becomes [OF c(2) c(3) _ c(5,6)]) (simp add: m type_of_def)
  then show ?thesis using that c(1,3) m by simp
qed

text \<open>
  C7: An exported mutex call on an address the guest uses for a mutex - null, the 1 of a static adaptive mutex or
  already pointing at an object - acts on the object it denotes exactly as the mutex operation does, answers with
  the kernel's number for its result, keeps the heap of objects well typed and leaves every other address and every
  thread as it was: creation at first use cannot be told from creation in advance.
\<close>

theorem mutex_calls_act_on_object:
  assumes "world_ok ty w" "plain_host env" "ty a = Static_Mutex"
  shows "\<exists>m w1 w2 w3 w4. view Static_Mutex a w = Obj_Mutex m \<and>
    PthreadMutexLock env self now (Some a) w = Inr (w1, mutex_answer lock_code (snd (NativeMutexLock self None now m))) \<and>
    becomes ty a (Obj_Mutex (fst (NativeMutexLock self None now m))) w w1 \<and>
    PthreadMutexTrylock env self (Some a) w = Inr (w2, Api_Returned (trylock_code (snd (NativeMutexTrylock self m)))) \<and>
    becomes ty a (Obj_Mutex (fst (NativeMutexTrylock self m))) w w2 \<and>
    PthreadMutexTimedlock env self now (Some a) usec w
      = Inr (w3, mutex_answer timedlock_code (snd (NativeMutexLock self (Some usec) now m))) \<and>
    becomes ty a (Obj_Mutex (fst (NativeMutexLock self (Some usec) now m))) w w3 \<and>
    PthreadMutexUnlock env self (Some a) w = Inr (w4, Api_Returned (unlock_code (snd (NativeMutexUnlock self m)))) \<and>
    becomes ty a (Obj_Mutex (fst (NativeMutexUnlock self m))) w w4"
proof -
  from mutex_viewE [OF assms] obtain w' p m where
    c: "CreateObject (he_settype env) (he_program env) (Some a) Static_Mutex w = Inr w'"
    and v: "view Static_Mutex a w = Obj_Mutex m" and at: "object_at a w' = Some (p, Obj_Mutex m)"
    and b: "\<And>m'. becomes ty a (Obj_Mutex m') w (write_object p (Obj_Mutex m') w')" by metis
  note unf = PthreadMutexLock_def PthreadMutexTrylock_def PthreadMutexTimedlock_def PthreadMutexUnlock_def
    with_mutex_def case_prod_beta
  show ?thesis
    by (rule exI [of _ m], rule exI [of _ "write_object p (Obj_Mutex (fst (NativeMutexLock self None now m))) w'"],
        rule exI [of _ "write_object p (Obj_Mutex (fst (NativeMutexTrylock self m))) w'"],
        rule exI [of _ "write_object p (Obj_Mutex (fst (NativeMutexLock self (Some usec) now m))) w'"],
        rule exI [of _ "write_object p (Obj_Mutex (fst (NativeMutexUnlock self m))) w'"])
      (simp add: unf c at v b)
qed

section \<open>Unloading a module\<close>

definition busy :: "object \<Rightarrow> bool" where
  "busy ob = (case ob of Obj_Mutex m \<Rightarrow> mx_owner m \<noteq> None | Obj_Cond _ \<Rightarrow> False | Obj_Rwlock rw \<Rightarrow> rw_busy rw)"

definition idle :: "world \<Rightarrow> static_object \<Rightarrow> bool" where
  "idle w ob = (case object_at (so_vaddr ob) w of Some (p, x) \<Rightarrow> \<not> busy x | None \<Rightarrow> False)"

definition of_program :: "nat \<Rightarrow> static_object option list \<Rightarrow> static_object list" where
  "of_program program obs = [ob \<leftarrow> map the (filter (\<lambda>x. x \<noteq> None) obs). so_program ob = program]"

lemma of_program_simps [simp]:
  "of_program q [] = []" "of_program q (None # obs) = of_program q obs"
  "of_program q (Some ob # obs) = (if so_program ob = q then ob # of_program q obs else of_program q obs)"
  by (simp_all add: of_program_def)

lemma destroy_static_idle:
  assumes ok: "world_ok ty w" and t: "so_type ob = ty (so_vaddr ob)"
  shows "idle w ob \<Longrightarrow> \<exists>p x. object_at (so_vaddr ob) w = Some (p, x) \<and> destroy_static ob w = Inr (delete_at (so_vaddr ob) p w, OK)"
    and "\<not> idle w ob \<Longrightarrow> destroy_static ob w = Inr (w', r) \<Longrightarrow> r \<noteq> OK"
proof -
  have ty: "type_of x = so_type ob" if "object_at (so_vaddr ob) w = Some (p, x)" for p x
    using that t world_okD(1) [OF ok, of "so_vaddr ob"] by (auto simp: object_at_def split: slot.splits)
  have no: "object_at (so_vaddr ob) w \<noteq> None" if "pw_slots w (so_vaddr ob) = Slot_Object p" for p
    using that world_okD(1) [OF ok that] by (auto simp: object_at_def)
  show "\<exists>p x. object_at (so_vaddr ob) w = Some (p, x) \<and> destroy_static ob w = Inr (delete_at (so_vaddr ob) p w, OK)"
    if i: "idle w ob"
  proof -
    obtain p x where x: "object_at (so_vaddr ob) w = Some (p, x)" "\<not> busy x" using i by (auto simp: idle_def split: option.splits)
    have "pw_slots w (so_vaddr ob) \<noteq> Slot_Null" using x(1) by (auto simp: object_at_def)
    then show ?thesis using x ty [OF x(1)]
      by (cases x) (simp_all add: destroy_static_def PthreadMutexDestroy_def PthreadCondDestroy_def PthreadRwlockDestroy_def
          type_of_def busy_def split: static_type.splits)
  qed
  show "r \<noteq> OK" if i: "\<not> idle w ob" and d: "destroy_static ob w = Inr (w', r)"
  proof (cases "object_at (so_vaddr ob) w")
    case None
    then show ?thesis using d
      by (cases "so_type ob") (auto simp: destroy_static_def PthreadMutexDestroy_def PthreadCondDestroy_def
          PthreadRwlockDestroy_def errno_defs split: if_splits)
  next
    case (Some y)
    obtain p x where y: "y = (p, x)" by (cases y)
    have "busy x" using i Some y by (simp add: idle_def)
    then show ?thesis using d Some y ty [of p x]
      by (cases x; cases "so_type ob") (auto simp: destroy_static_def PthreadMutexDestroy_def PthreadCondDestroy_def
          PthreadRwlockDestroy_def type_of_def busy_def errno_defs split: if_splits)
  qed
qed

lemma delete_frame:
  assumes ok: "world_ok ty w" and x: "object_at a w = Some (p, x)"
  shows "b \<noteq> a \<Longrightarrow> object_at b (delete_at a p w) = object_at b w" "object_at a (delete_at a p w) = None"
    "pw_slots (delete_at a p w) a = Slot_Null"
  using delete_ok(2) [OF ok x] by (simp_all add: untouched_def object_at_def delete_at_def)

definition unloadable :: "nat \<Rightarrow> static_object option list \<Rightarrow> world \<Rightarrow> bool" where
  "unloadable program obs w \<longleftrightarrow>
     distinct (map so_vaddr (of_program program obs)) \<and> (\<forall>ob\<in>set (of_program program obs). idle w ob)"

text \<open>What is left of the bookkeeping: the module's entries are emptied in place.\<close>

definition unloaded :: "nat \<Rightarrow> static_object option list \<Rightarrow> static_object option list" where
  "unloaded program obs = map (\<lambda>x. case x of Some ob \<Rightarrow> if so_program ob = program then None else x | None \<Rightarrow> None) obs"

definition well_typed :: "(nat \<Rightarrow> static_type) \<Rightarrow> static_object option list \<Rightarrow> bool" where
  "well_typed ty obs \<longleftrightarrow> (\<forall>ob. Some ob \<in> set obs \<longrightarrow> so_type ob = ty (so_vaddr ob))"

lemma unloadable_Cons:
  assumes "world_ok ty w" "object_at (so_vaddr ob) w = Some (p, x)" "idle w ob" "so_program ob = q"
  shows "unloadable q (Some ob # obs) w = unloadable q obs (delete_at (so_vaddr ob) p w)"
proof -
  note f = delete_frame [OF assms(1,2)]
  have "idle (delete_at (so_vaddr ob) p w) y = (idle w y \<and> so_vaddr y \<noteq> so_vaddr ob)" for y
    using f(1) [of "so_vaddr y"] f(2) by (cases "so_vaddr y = so_vaddr ob") (simp_all add: idle_def)
  then show ?thesis using assms(3,4) by (auto simp: unloadable_def image_iff)
qed

lemma delete_objects_exact:
  assumes "world_ok ty w" "well_typed ty obs"
  shows "if unloadable q obs w
         then \<exists>w'. delete_objects q obs w = Inr (w', unloaded q obs) \<and> world_ok ty w' \<and>
                pw_objects w' = pw_objects w \<and>
                (\<forall>ob\<in>set (of_program q obs). pw_slots w' (so_vaddr ob) = Slot_Null) \<and>
                untouched (so_vaddr ` set (of_program q obs)) w w'
         else delete_objects q obs w = Inl EXIT"
  using assms
proof (induction obs arbitrary: w)
  case Nil
  then show ?case by (simp add: unloadable_def unloaded_def)
next
  case (Cons y obs)
  have wt: "well_typed ty obs" using Cons.prems(2) by (simp add: well_typed_def)
  show ?case
  proof (cases "\<exists>ob. y = Some ob \<and> so_program ob = q")
    case False
    then have "of_program q (y # obs) = of_program q obs" "unloaded q (y # obs) = y # unloaded q obs"
      by (cases y; simp add: unloaded_def)+
    then show ?thesis using Cons.IH [OF Cons.prems(1) wt] False
      by (cases y) (auto simp: unloadable_def split: if_splits)
  next
    case True
    then obtain ob where y: "y = Some ob" "so_program ob = q" by blast
    have t: "so_type ob = ty (so_vaddr ob)" using Cons.prems(2) y by (simp add: well_typed_def)
    note d = destroy_static_idle [OF Cons.prems(1) t]
    show ?thesis
    proof (cases "idle w ob")
      case True
      then obtain p x where x: "object_at (so_vaddr ob) w = Some (p, x)"
          "destroy_static ob w = Inr (delete_at (so_vaddr ob) p w, OK)" using d(1) by blast
      let ?w = "delete_at (so_vaddr ob) p w"
      have ih: "if unloadable q obs ?w
         then \<exists>w'. delete_objects q obs ?w = Inr (w', unloaded q obs) \<and> world_ok ty w' \<and>
                pw_objects w' = pw_objects ?w \<and>
                (\<forall>ob\<in>set (of_program q obs). pw_slots w' (so_vaddr ob) = Slot_Null) \<and>
                untouched (so_vaddr ` set (of_program q obs)) ?w w'
         else delete_objects q obs ?w = Inl EXIT"
        by (rule Cons.IH [OF delete_ok(1) [OF Cons.prems(1) x(1)] wt])
      show ?thesis
      proof (cases "unloadable q obs ?w")
        case True
        then obtain w' where w': "delete_objects q obs ?w = Inr (w', unloaded q obs)" "world_ok ty w'"
            "pw_objects w' = pw_objects ?w" "\<forall>ob\<in>set (of_program q obs). pw_slots w' (so_vaddr ob) = Slot_Null"
            "untouched (so_vaddr ` set (of_program q obs)) ?w w'" using ih by auto
        have "so_vaddr ob \<notin> so_vaddr ` set (of_program q obs)"
          using True unloadable_Cons [OF Cons.prems(1) x(1) \<open>idle w ob\<close> y(2)] y(2) by (auto simp: unloadable_def)
        then have "pw_slots w' (so_vaddr ob) = Slot_Null"
          using w'(5) delete_frame(3) [OF Cons.prems(1) x(1)] by (simp add: untouched_def)
        moreover have "untouched (so_vaddr ` set (of_program q (y # obs))) w w'"
          using delete_ok(2) [OF Cons.prems(1) x(1)] w'(5) y by (auto simp: untouched_def)
        ultimately show ?thesis
          using True unloadable_Cons [OF Cons.prems(1) x(1) \<open>idle w ob\<close> y(2)] w' x(2) y
          by (auto simp: unloaded_def delete_at_def)
      next
        case False
        then show ?thesis using unloadable_Cons [OF Cons.prems(1) x(1) \<open>idle w ob\<close> y(2)] ih x(2) y by simp
      qed
    next
      case False
      then have "\<not> unloadable q (y # obs) w" using y by (simp add: unloadable_def)
      moreover have "delete_objects q (y # obs) w = Inl EXIT"
      proof (cases "destroy_static ob w")
        case (Inl e)
        then show ?thesis using y by (cases e) simp
      next
        case (Inr z)
        then show ?thesis using y d(2) [OF False, of "fst z" "snd z"] by (cases z) simp
      qed
      ultimately show ?thesis by simp
    qed
  qed
qed

text \<open>
  C28: Unloading a module ends the process exactly when an object the module first used statically was destroyed
  since, was created twice or is held at that moment; otherwise every such object is deleted and its word set to
  null, the bookkeeping keeps exactly the other modules' entries, and no other address is touched.
\<close>

theorem unload_exact:
  assumes "world_ok ty w"
  shows "if unloadable q (pw_objects w) w
         then \<exists>w'. DeleteObjects q w = Inr w' \<and> world_ok ty w' \<and> pw_objects w' = unloaded q (pw_objects w) \<and>
                (\<forall>ob\<in>set (of_program q (pw_objects w)). pw_slots w' (so_vaddr ob) = Slot_Null) \<and>
                untouched (so_vaddr ` set (of_program q (pw_objects w))) w w'
         else DeleteObjects q w = Inl EXIT"
proof -
  have wt: "well_typed ty (pw_objects w)" using world_okD(5) [OF assms] by (simp add: well_typed_def)
  have sub: "world_ok ty (w'\<lparr>pw_objects := unloaded q (pw_objects w)\<rparr>)" if "world_ok ty w'" for w'
    unfolding world_ok_def
  proof (intro conjI allI impI)
    fix x assume "Some x \<in> set (pw_objects (w'\<lparr>pw_objects := unloaded q (pw_objects w)\<rparr>))"
    then show "so_type x = ty (so_vaddr x)"
      using wt by (auto simp: unloaded_def well_typed_def split: option.splits if_splits)
  qed (use world_okD [OF that] in auto)
  show ?thesis
    using delete_objects_exact [OF assms wt, of q] sub by (auto simp: DeleteObjects_def split: if_splits)
qed

section \<open>Witnesses\<close>

definition empty_world :: world where
  "empty_world = \<lparr>pw_slots = (\<lambda>_. Slot_Null), pw_heap = (\<lambda>_. None), pw_next = 0, pw_objects = [],
     pw_threads = \<lparr>th_cond_sequence = (\<lambda>_. 0), th_waiting_cond = (\<lambda>_. None)\<rparr>, pw_mutexattr = \<lparr>ma_p = Host_Errorcheck, ma_pprotocol = PRIO_NONE, ma_type = 1\<rparr>,
     pw_condattr = 0\<rparr>"

definition plain_env :: host_env where
  "plain_env = \<lparr>he_settype = (\<lambda>_. H_OK), he_program = (\<lambda>_. Some 7)\<rparr>"

lemma empty_world_ok: "world_ok ty empty_world"
  by (simp add: world_ok_def empty_world_def)

lemma plain_env_ok: "plain_host plain_env"
  by (simp add: plain_host_def plain_env_def)

text \<open>A mutex is locked for the first time, unlocked, destroyed, and its module unloaded.\<close>

lemma mutex_calls_act_on_object_witness:
  "\<exists>w1. PthreadMutexLock plain_env 1 0 (Some 4096) empty_world = Inr (w1, Api_Returned OK)"
  using mutex_calls_act_on_object [OF empty_world_ok [of "\<lambda>_. Static_Mutex"] plain_env_ok, of 4096 1 0 5]
  by (auto simp: view_def object_at_def empty_world_def fresh_object_def new_mutex_def NativeMutexLock_def mutex_look_def
      mutex_answer_def lock_code_def)

definition used_world :: world where
  "used_world = empty_world\<lparr>pw_objects := [Some \<lparr>so_type = Static_Mutex, so_vaddr = 4096, so_program = 7\<rparr>]\<rparr>"

lemma used_world_arises:
  "\<exists>w1 w2 w3. PthreadMutexLock plain_env 1 0 (Some 4096) empty_world = Inr (w1, Api_Returned OK) \<and>
     PthreadMutexUnlock plain_env 1 (Some 4096) w1 = Inr (w2, Api_Returned OK) \<and>
     PthreadMutexDestroy (Some 4096) w2 = Inr (w3, OK) \<and> pw_slots w3 = pw_slots used_world \<and>
     pw_heap w3 = pw_heap used_world \<and> pw_objects w3 = pw_objects used_world"
  by (simp add: empty_world_def used_world_def plain_env_def PthreadMutexLock_def PthreadMutexUnlock_def PthreadMutexDestroy_def
      CreateObject_def init_static_def PthreadMutexInitNamed_def store_new_def with_mutex_def object_at_def write_object_def
      delete_at_def NativeMutexLock_def NativeMutexUnlock_def mutex_look_def mutex_acquire_def mutex_release_def new_mutex_def
      mutex_answer_def lock_code_def unlock_code_def fun_eq_iff)

lemma unload_exact_witness: "DeleteObjects 7 used_world = Inl EXIT"
proof -
  have ok: "world_ok (\<lambda>_. Static_Mutex) used_world"
    by (simp add: world_ok_def used_world_def empty_world_def)
  have "\<not> unloadable 7 (pw_objects used_world) used_world"
    by (simp add: unloadable_def used_world_def empty_world_def idle_def object_at_def)
  then show ?thesis using unload_exact [OF ok, of 7] by simp
qed

end
