(* ===== verification/VirtualRanges.thy ===== *)
theory VirtualRanges
  imports Prelude
begin

text \<open>
  The ranges of guest virtual memory of src/src/kernel/memory.cpp: the class \<open>VirtualRanges\<close> with the
  protection bits and the helpers before it. \<open>m_ranges\<close> is a list in order of start addresses; addresses and
  sizes are naturals below \<open>2^64\<close>, and every range ends by \<open>UINT64_MAX\<close>, so that no sum of the code wraps.
  The mutex of the class is the atomicity of an operation.
\<close>

section \<open>Protection\<close>

definition PROT_CPU_READ :: u32 where "PROT_CPU_READ = 0x01"
definition PROT_CPU_WRITE :: u32 where "PROT_CPU_WRITE = 0x02"
definition PROT_CPU_EXEC :: u32 where "PROT_CPU_EXEC = 0x04"
definition PROT_GPU_READ :: u32 where "PROT_GPU_READ = 0x10"
definition PROT_GPU_WRITE :: u32 where "PROT_GPU_WRITE = 0x20"

lemmas prot_bits = PROT_CPU_READ_def PROT_CPU_WRITE_def PROT_CPU_EXEC_def PROT_GPU_READ_def PROT_GPU_WRITE_def

datatype gpu_access_mode = Gpu_NoAccess | Gpu_Read | Gpu_Write | Gpu_ReadWrite

datatype vm_mode =
  Mode_NoAccess | Mode_Read | Mode_Write | Mode_ReadWrite
| Mode_Execute | Mode_ExecuteRead | Mode_ExecuteWrite | Mode_ExecuteReadWrite

text \<open>\<open>None\<close> is the result \<open>false\<close>: some bit is set, but none the code knows.\<close>

definition DecodeMemoryProtection :: "u32 \<Rightarrow> (vm_mode \<times> gpu_access_mode) option" where
  "DecodeMemoryProtection prot =
     (let cpu_read = (prot AND PROT_CPU_READ \<noteq> 0);
          cpu_write = (prot AND PROT_CPU_WRITE \<noteq> 0);
          cpu_exec = (prot AND PROT_CPU_EXEC \<noteq> 0);
          gpu_read = (prot AND PROT_GPU_READ \<noteq> 0);
          gpu_write = (prot AND PROT_GPU_WRITE \<noteq> 0)
      in if prot AND (PROT_CPU_READ OR PROT_CPU_WRITE OR PROT_CPU_EXEC OR PROT_GPU_READ OR PROT_GPU_WRITE) = 0 \<and> prot \<noteq> 0
         then None
         else let gpu_mode = (if gpu_read \<and> gpu_write then Gpu_ReadWrite else if gpu_read then Gpu_Read
                              else if gpu_write then Gpu_Write else Gpu_NoAccess);
                  host_write = (cpu_write \<or> gpu_write);
                  host_read = (cpu_read \<or> gpu_read \<or> host_write);
                  mode = (if cpu_exec
                          then (if host_write then Mode_ExecuteReadWrite
                                else if host_read then Mode_ExecuteRead else Mode_Execute)
                          else if host_write then Mode_ReadWrite
                          else if host_read then Mode_Read else Mode_NoAccess)
              in Some (mode, gpu_mode))"

section \<open>Ranges\<close>

definition KERNEL_MAXIMUM_NAME_LENGTH :: nat where
  "KERNEL_MAXIMUM_NAME_LENGTH = 32"

text \<open>A name in its array, without the zeros that follow it.\<close>

definition CopyVirtualRangeName :: "string option \<Rightarrow> string" where
  "CopyVirtualRangeName name =
     (case name of None \<Rightarrow> '''' | Some s \<Rightarrow> take (KERNEL_MAXIMUM_NAME_LENGTH - 1) s)"

definition clamped_End :: "nat \<Rightarrow> nat \<Rightarrow> nat" where
  "clamped_End start bytes = (if UINT64_MAX - start < bytes then UINT64_MAX else start + bytes)"

definition VirtualRangesOverlap :: "nat \<Rightarrow> nat \<Rightarrow> nat \<Rightarrow> nat \<Rightarrow> bool" where
  "VirtualRangesOverlap left_start left_size right_start right_size =
     (if left_size = 0 \<or> right_size = 0 then False
      else let left_end = clamped_End left_start left_size; right_end = clamped_End right_start right_size
           in left_start < right_end \<and> right_start < left_end)"

datatype range_type = Reserved | PoolReserved | Direct | Flexible | Pooled | Stack | Code | Runtime

definition IsReservedRangeType :: "range_type \<Rightarrow> bool" where
  "IsReservedRangeType type \<longleftrightarrow> type = Reserved \<or> type = PoolReserved"

definition IsPooledRangeType :: "range_type \<Rightarrow> bool" where
  "IsPooledRangeType type \<longleftrightarrow> type = Pooled \<or> type = PoolReserved"

definition IsCommittedRangeType :: "range_type \<Rightarrow> bool" where
  "IsCommittedRangeType type \<longleftrightarrow> \<not> IsReservedRangeType type"

definition IsPrivateCommittedRangeType :: "range_type \<Rightarrow> bool" where
  "IsPrivateCommittedRangeType type \<longleftrightarrow> type = Stack \<or> type = Code \<or> type = Runtime"

record vrange =
  vr_start :: nat
  vr_size :: nat
  vr_offset :: nat
  vr_protection :: u32
  vr_memory_type :: int
  vr_type :: range_type
  vr_disallow_merge :: bool
  vr_name :: string

abbreviation vr_end :: "vrange \<Rightarrow> nat" where
  "vr_end r \<equiv> clamped_End (vr_start r) (vr_size r)"

definition SameMergeKey :: "vrange \<Rightarrow> vrange \<Rightarrow> bool" where
  "SameMergeKey left right =
     (if vr_disallow_merge left \<or> vr_disallow_merge right \<or> vr_type left = Direct \<or> vr_type right = Direct then False
      else vr_type left = vr_type right \<and> vr_protection left = vr_protection right \<and>
           vr_memory_type left = vr_memory_type right \<and> vr_name left = vr_name right)"

text \<open>What \<open>AddPiece\<close> appends.\<close>

definition AddPiece :: "vrange \<Rightarrow> nat \<Rightarrow> nat \<Rightarrow> vrange list" where
  "AddPiece source start end1 =
     (if end1 \<le> start then []
      else [source\<lparr>vr_start := start, vr_size := end1 - start,
              vr_offset := (if vr_type source = Direct then vr_offset source + (start - vr_start source)
                            else vr_offset source)\<rparr>])"

text \<open>\<open>lower_bound\<close> and \<open>upper_bound\<close>: the ranges before the iterator and those from it on.\<close>

definition LowerBound :: "nat \<Rightarrow> vrange list \<Rightarrow> vrange list \<times> vrange list" where
  "LowerBound start rs = (takeWhile (\<lambda>r. vr_start r < start) rs, dropWhile (\<lambda>r. vr_start r < start) rs)"

definition UpperBound :: "nat \<Rightarrow> vrange list \<Rightarrow> vrange list \<times> vrange list" where
  "UpperBound addr rs = (takeWhile (\<lambda>r. vr_start r \<le> addr) rs, dropWhile (\<lambda>r. vr_start r \<le> addr) rs)"

section \<open>Merging\<close>

definition mergeable :: "vrange \<Rightarrow> vrange \<Rightarrow> bool" where
  "mergeable left right \<longleftrightarrow> vr_end left = vr_start right \<and> SameMergeKey left right"

definition join :: "vrange \<Rightarrow> vrange \<Rightarrow> vrange" where
  "join left right = left\<lparr>vr_size := vr_size left + vr_size right\<rparr>"

text \<open>The loop of \<open>MergeUnlocked\<close>, whose \<open>merged.back()\<close> is the first range of the list here.\<close>

fun merge_loop :: "vrange list \<Rightarrow> vrange list" where
  "merge_loop (l # r # rs) = (if mergeable l r then merge_loop (join l r # rs) else l # merge_loop (r # rs))"
| "merge_loop rs = rs"

definition MergeUnlocked :: "vrange list \<Rightarrow> vrange list" where
  "MergeUnlocked rs = (if length rs < 2 then rs else merge_loop (sort_key vr_start rs))"

text \<open>\<open>MergeAroundUnlocked\<close>: with the range before, then with those after.\<close>

fun merge_after :: "vrange \<Rightarrow> vrange list \<Rightarrow> vrange list" where
  "merge_after current [] = [current]"
| "merge_after current (r # rs) =
     (if mergeable current r then merge_after (join current r) rs else current # r # rs)"

definition MergeAroundUnlocked :: "nat \<Rightarrow> vrange list \<Rightarrow> vrange list" where
  "MergeAroundUnlocked index rs =
     (if index \<ge> length rs then rs
      else let before = take index rs; current = rs ! index; rest = drop (index + 1) rs
           in if index \<noteq> 0 \<and> mergeable (last before) current
              then butlast before @ merge_after (join (last before) current) rest
              else before @ merge_after current rest)"

section \<open>Operations\<close>

text \<open>The operation's result comes with the ranges it leaves.\<close>

definition vr_Add ::
    "nat \<Rightarrow> nat \<Rightarrow> nat \<Rightarrow> u32 \<Rightarrow> int \<Rightarrow> range_type \<Rightarrow> string option \<Rightarrow> bool \<Rightarrow> vrange list \<Rightarrow> vrange list \<times> bool" where
  "vr_Add start bytes offset protection memory_type type name disallow_merge rs =
     (if start = 0 \<or> bytes = 0 then (rs, False)
      else case LowerBound start rs of
        (before, rest) \<Rightarrow>
          if (rest \<noteq> [] \<and> VirtualRangesOverlap start bytes (vr_start (hd rest)) (vr_size (hd rest))) \<or>
             (before \<noteq> [] \<and> VirtualRangesOverlap start bytes (vr_start (last before)) (vr_size (last before)))
          then (rs, False)
          else let r = \<lparr>vr_start = start, vr_size = bytes, vr_offset = offset, vr_protection = protection,
                        vr_memory_type = memory_type, vr_type = type, vr_disallow_merge = disallow_merge,
                        vr_name = CopyVirtualRangeName name\<rparr>
               in (MergeAroundUnlocked (length before) (before @ r # rest), True))"

definition remove_one :: "nat \<Rightarrow> nat \<Rightarrow> vrange \<Rightarrow> vrange list" where
  "remove_one start bytes r =
     (if \<not> VirtualRangesOverlap start bytes (vr_start r) (vr_size r) then [r]
      else AddPiece r (vr_start r) (max start (vr_start r)) @ AddPiece r (min (clamped_End start bytes) (vr_end r)) (vr_end r))"

definition RemoveUnlocked :: "nat \<Rightarrow> nat \<Rightarrow> vrange list \<Rightarrow> vrange list \<times> bool" where
  "RemoveUnlocked start bytes rs =
     (if bytes = 0 then (rs, False)
      else (concat (map (remove_one start bytes) rs),
            \<exists>r\<in>set rs. VirtualRangesOverlap start bytes (vr_start r) (vr_size r)))"

definition vr_Remove :: "nat \<Rightarrow> nat \<Rightarrow> vrange list \<Rightarrow> vrange list \<times> bool" where
  "vr_Remove start bytes rs =
     (case LowerBound start rs of
        (before, rest) \<Rightarrow>
          if rest \<noteq> [] \<and> vr_start (hd rest) = start \<and> vr_size (hd rest) = bytes
          then (before @ tl rest, True)
          else case RemoveUnlocked start bytes rs of (rs, removed) \<Rightarrow> (MergeUnlocked rs, removed))"

definition FindOverlap :: "nat \<Rightarrow> nat \<Rightarrow> vrange list \<Rightarrow> vrange option" where
  "FindOverlap start bytes rs =
     (case LowerBound start rs of
        (before, rest) \<Rightarrow>
          if rest \<noteq> [] \<and> VirtualRangesOverlap start bytes (vr_start (hd rest)) (vr_size (hd rest)) then Some (hd rest)
          else if before \<noteq> [] \<and> VirtualRangesOverlap start bytes (vr_start (last before)) (vr_size (last before))
          then Some (last before)
          else None)"

definition HasOverlap :: "nat \<Rightarrow> nat \<Rightarrow> vrange list \<Rightarrow> bool" where
  "HasOverlap start bytes rs \<longleftrightarrow> FindOverlap start bytes rs \<noteq> None"

definition QueryOverlap :: "nat \<Rightarrow> nat \<Rightarrow> vrange list \<Rightarrow> vrange option" where
  "QueryOverlap start bytes rs = FindOverlap start bytes rs"

fun ReleaseReserved :: "nat \<Rightarrow> nat \<Rightarrow> vrange list \<Rightarrow> vrange list" where
  "ReleaseReserved start bytes [] = []"
| "ReleaseReserved start bytes (r # rs) =
     (if vr_start r = start \<and> vr_size r = bytes \<and> IsReservedRangeType (vr_type r) then rs
      else r # ReleaseReserved start bytes rs)"

definition ConsumeReserved :: "nat \<Rightarrow> nat \<Rightarrow> range_type \<Rightarrow> vrange list \<Rightarrow> vrange list \<times> bool" where
  "ConsumeReserved start bytes type rs =
     (if \<exists>r\<in>set rs. vr_type r = type \<and> start \<ge> vr_start r \<and> clamped_End start bytes \<le> vr_end r
      then (MergeUnlocked (fst (RemoveUnlocked start bytes rs)), True)
      else (rs, False))"

text \<open>
  The loop of \<open>ConsumeReservedSpan\<close> that looks for a range of the type at every position; the first one found is
  \<open>first_range\<close>. It advances past a range each time, so as many turns as there are ranges are enough.
\<close>

definition candidate :: "range_type \<Rightarrow> nat \<Rightarrow> vrange list \<Rightarrow> vrange option" where
  "candidate type current rs = find (\<lambda>r. vr_type r = type \<and> current \<ge> vr_start r \<and> current < vr_end r) rs"

function span_of_type :: "range_type \<Rightarrow> nat \<Rightarrow> nat \<Rightarrow> vrange list \<Rightarrow> bool" where
  "span_of_type type current end1 rs =
     (if current < end1
      then case candidate type current rs of
             None \<Rightarrow> False
           | Some r \<Rightarrow> span_of_type type (min end1 (vr_end r)) end1 rs
      else True)"
  by pat_completeness auto

termination
proof (relation "measure (\<lambda>(type, current, end1, rs). end1 - current)")
  fix type current end1 rs r
  assume "current < end1" "candidate type current rs = Some r"
  then have "current < vr_end r" by (auto simp: candidate_def find_Some_iff)
  then show "((type, min end1 (vr_end r), end1, rs), (type, current, end1, rs))
      \<in> measure (\<lambda>(type, current, end1, rs). end1 - current)"
    using \<open>current < end1\<close> by auto
qed simp

definition ConsumeReservedSpan ::
    "nat \<Rightarrow> nat \<Rightarrow> range_type \<Rightarrow> vrange list \<Rightarrow> vrange list \<times> vrange option \<times> bool" where
  "ConsumeReservedSpan start bytes type rs =
     (if bytes = 0 then (rs, None, False)
      else let first_range = (if start < clamped_End start bytes then candidate type start rs else None)
           in if \<not> span_of_type type start (clamped_End start bytes) rs then (rs, first_range, False)
              else (MergeUnlocked (fst (RemoveUnlocked start bytes rs)), first_range, True))"

text \<open>\<open>EditUnlocked\<close> cuts the ranges at both ends of the edited part.\<close>

definition edit_one :: "nat \<Rightarrow> nat \<Rightarrow> (vrange \<Rightarrow> vrange) \<Rightarrow> vrange \<Rightarrow> vrange list" where
  "edit_one start bytes edit r =
     (if \<not> VirtualRangesOverlap start bytes (vr_start r) (vr_size r) then [r]
      else let mid_start = max start (vr_start r); mid_end = min (clamped_End start bytes) (vr_end r);
               mid = r\<lparr>vr_start := mid_start, vr_size := mid_end - mid_start,
                       vr_offset := (if vr_type r = Direct then vr_offset r + (mid_start - vr_start r) else vr_offset r)\<rparr>
           in AddPiece r (vr_start r) mid_start @ [edit mid] @ AddPiece r mid_end (vr_end r))"

definition EditUnlocked :: "nat \<Rightarrow> nat \<Rightarrow> (vrange \<Rightarrow> vrange) \<Rightarrow> vrange list \<Rightarrow> vrange list" where
  "EditUnlocked start bytes edit rs =
     (if bytes = 0 then rs else MergeUnlocked (concat (map (edit_one start bytes edit) rs)))"

definition vr_Rename :: "nat \<Rightarrow> nat \<Rightarrow> string option \<Rightarrow> vrange list \<Rightarrow> vrange list" where
  "vr_Rename start bytes name rs =
     (case LowerBound start rs of
        (before, rest) \<Rightarrow>
          if rest \<noteq> [] \<and> vr_start (hd rest) = start \<and> vr_size (hd rest) = bytes
          then MergeAroundUnlocked (length before)
                 (before @ (hd rest)\<lparr>vr_name := CopyVirtualRangeName name\<rparr> # tl rest)
          else EditUnlocked start bytes (\<lambda>r. r\<lparr>vr_name := CopyVirtualRangeName name\<rparr>) rs)"

definition vr_Protect :: "nat \<Rightarrow> nat \<Rightarrow> u32 \<Rightarrow> vrange list \<Rightarrow> vrange list" where
  "vr_Protect start bytes protection rs = EditUnlocked start bytes (\<lambda>r. r\<lparr>vr_protection := protection\<rparr>) rs"

definition vr_SetMemoryType :: "nat \<Rightarrow> nat \<Rightarrow> int \<Rightarrow> vrange list \<Rightarrow> vrange list" where
  "vr_SetMemoryType start bytes memory_type rs = EditUnlocked start bytes (\<lambda>r. r\<lparr>vr_memory_type := memory_type\<rparr>) rs"

definition vr_Query :: "nat \<Rightarrow> int \<Rightarrow> vrange list \<Rightarrow> vrange option" where
  "vr_Query addr flags rs =
     (case UpperBound addr rs of
        (before, rest) \<Rightarrow>
          if before \<noteq> [] \<and> addr < vr_end (last before) then Some (last before)
          else if flags \<noteq> 1 \<or> rest = [] then None
          else Some (hd rest))"

fun query_span :: "nat \<Rightarrow> nat \<Rightarrow> vrange list \<Rightarrow> vrange list option" where
  "query_span end1 current [] = None"
| "query_span end1 current (r # rs) =
     (if vr_end r \<le> current then query_span end1 current rs
      else if vr_start r > current then None
      else let part = r\<lparr>vr_start := current, vr_size := min end1 (vr_end r) - current,
                        vr_offset := (if vr_type r = Direct then vr_offset r + (current - vr_start r) else vr_offset r)\<rparr>;
               current = current + vr_size part
           in if current = end1 then Some [part]
              else map_option (\<lambda>parts. part # parts) (query_span end1 current rs))"

definition QuerySpan :: "nat \<Rightarrow> nat \<Rightarrow> vrange list \<Rightarrow> vrange list option" where
  "QuerySpan start bytes rs =
     (if start = 0 \<or> bytes = 0 \<or> bytes > UINT64_MAX - start then None else query_span (start + bytes) start rs)"

fun clamp_loop :: "nat \<Rightarrow> nat \<Rightarrow> nat \<Rightarrow> vrange list \<Rightarrow> nat" where
  "clamp_loop bytes clamped_size expected [] = clamped_size"
| "clamp_loop bytes clamped_size expected (r # rs) =
     (if vr_start r = expected \<and> IsCommittedRangeType (vr_type r) \<and> clamped_size < bytes
      then let chunk = min (bytes - clamped_size) (vr_size r)
           in clamp_loop bytes (clamped_size + chunk) (expected + chunk) rs
      else clamped_size)"

definition vr_ClampRangeSize :: "nat \<Rightarrow> nat \<Rightarrow> vrange list \<Rightarrow> nat" where
  "vr_ClampRangeSize virtual_addr bytes rs =
     (if virtual_addr = 0 \<or> bytes = 0 \<or> bytes > UINT64_MAX - virtual_addr then 0
      else case UpperBound virtual_addr rs of
        (before, rest) \<Rightarrow>
          if before = [] then 0
          else let vma = last before
               in if virtual_addr < vr_start vma \<or> virtual_addr \<ge> vr_end vma \<or> \<not> IsCommittedRangeType (vr_type vma)
                  then 0
                  else let clamped_size = min bytes (vr_end vma - virtual_addr)
                       in clamp_loop bytes clamped_size (virtual_addr + clamped_size) rest)"

definition PAGE_TABLE_GRANULARITY :: nat where
  "PAGE_TABLE_GRANULARITY = 2 * 1024 * 1024"

definition page_table_entries :: "bool \<Rightarrow> vrange \<Rightarrow> nat" where
  "page_table_entries gpu r =
     (if \<not> IsCommittedRangeType (vr_type r) \<or> vr_size r = 0 then 0
      else let has_cpu_access = (vr_protection r AND (PROT_CPU_READ OR PROT_CPU_WRITE OR PROT_CPU_EXEC) \<noteq> 0);
               has_gpu_access = (vr_protection r AND (PROT_GPU_READ OR PROT_GPU_WRITE) \<noteq> 0)
           in if (if gpu then \<not> has_gpu_access else \<not> has_cpu_access) then 0
              else (vr_end r - 1) div PAGE_TABLE_GRANULARITY - vr_start r div PAGE_TABLE_GRANULARITY + 1)"

definition CountPageTableEntries :: "bool \<Rightarrow> vrange list \<Rightarrow> nat" where
  "CountPageTableEntries gpu rs = sum_list (map (page_table_entries gpu) rs)"

section \<open>What a list of ranges says of an address\<close>

abbreviation stop :: "vrange \<Rightarrow> nat" where
  "stop r \<equiv> vr_start r + vr_size r"

text \<open>
  Type, protection, memory type, whether it must not be merged, name, and the physical offset of a direct
  range at an address.
\<close>

definition attr :: "vrange \<Rightarrow> nat \<Rightarrow> range_type \<times> u32 \<times> int \<times> bool \<times> string \<times> nat" where
  "attr r a = (vr_type r, vr_protection r, vr_memory_type r, vr_disallow_merge r, vr_name r,
     if vr_type r = Direct then vr_offset r + (a - vr_start r) else 0)"

fun attrs :: "vrange list \<Rightarrow> nat \<Rightarrow> (range_type \<times> u32 \<times> int \<times> bool \<times> string \<times> nat) option" where
  "attrs [] a = None"
| "attrs (r # rs) a = (if vr_start r \<le> a \<and> a < stop r then Some (attr r a) else attrs rs a)"

text \<open>Nonempty ranges one after the other that end by \<open>UINT64_MAX\<close>.\<close>

fun spaced :: "nat \<Rightarrow> vrange list \<Rightarrow> bool" where
  "spaced s [] \<longleftrightarrow> True"
| "spaced s (r # rs) \<longleftrightarrow> s \<le> vr_start r \<and> 0 < vr_size r \<and> stop r \<le> UINT64_MAX \<and> spaced (stop r) rs"

fun merged :: "vrange list \<Rightarrow> bool" where
  "merged (l # r # rs) \<longleftrightarrow> \<not> mergeable l r \<and> merged (r # rs)"
| "merged rs \<longleftrightarrow> True"

definition ranges_ok :: "vrange list \<Rightarrow> bool" where
  "ranges_ok rs \<longleftrightarrow> spaced 1 rs \<and> merged rs"

lemma clamped_End_fits: "start + bytes \<le> UINT64_MAX \<Longrightarrow> clamped_End start bytes = start + bytes"
  by (auto simp: clamped_End_def)

lemma spaced_mono: "spaced s rs \<Longrightarrow> s' \<le> s \<Longrightarrow> spaced s' rs"
  by (cases rs) auto

lemma spaced_mem: "spaced s rs \<Longrightarrow> r \<in> set rs \<Longrightarrow> s \<le> vr_start r \<and> 0 < vr_size r \<and> stop r \<le> UINT64_MAX"
proof (induction s rs rule: spaced.induct)
  case (2 s q rs)
  then show ?case using spaced_mono [of "stop q" rs s] by auto
qed simp

lemma spaced_append:
  "spaced s (xs @ ys) \<longleftrightarrow> spaced s xs \<and> spaced (if xs = [] then s else stop (last xs)) ys"
  by (induction s xs rule: spaced.induct) auto

lemma spaced_append_below:
  assumes "spaced s xs" "\<forall>p\<in>set xs. stop p \<le> t" "s \<le> t" "spaced t ys"
  shows "spaced s (xs @ ys)"
  using assms spaced_mono [of t ys] by (auto simp: spaced_append)

lemma spaced_sorted: "spaced s rs \<Longrightarrow> sorted (map vr_start rs)"
proof (induction s rs rule: spaced.induct)
  case (2 s r rs)
  then show ?case using spaced_mem [of "stop r" rs] by fastforce
qed simp

lemma attrs_append: "attrs (xs @ ys) a = (case attrs xs a of None \<Rightarrow> attrs ys a | Some v \<Rightarrow> Some v)"
  by (induction xs) auto

lemma attrs_Some: "attrs rs a = Some v \<Longrightarrow> \<exists>r\<in>set rs. vr_start r \<le> a \<and> a < stop r \<and> v = attr r a"
  by (induction rs) (auto split: if_splits)

lemma attrs_None: "attrs rs a = None \<longleftrightarrow> (\<forall>r\<in>set rs. \<not> (vr_start r \<le> a \<and> a < stop r))"
  by (induction rs) auto

lemma attrs_below: "spaced s rs \<Longrightarrow> a < s \<Longrightarrow> attrs rs a = None"
  unfolding attrs_None using spaced_mem by fastforce

lemma attrs_mem:
  "spaced s rs \<Longrightarrow> r \<in> set rs \<Longrightarrow> vr_start r \<le> a \<Longrightarrow> a < stop r \<Longrightarrow> attrs rs a = Some (attr r a)"
proof (induction s rs rule: spaced.induct)
  case (2 s q rs)
  show ?case
  proof (cases "r = q")
    case False
    then have "r \<in> set rs" using 2 by simp
    then have "stop q \<le> vr_start r" "attrs rs a = Some (attr r a)" using 2 spaced_mem [of "stop q" rs r] by auto
    then show ?thesis using 2 by simp
  qed (use 2 in simp)
qed simp

lemma same_range:
  "spaced s rs \<Longrightarrow> r \<in> set rs \<Longrightarrow> q \<in> set rs \<Longrightarrow> vr_start r \<le> a \<Longrightarrow> a < stop r \<Longrightarrow> vr_start q \<le> a \<Longrightarrow> a < stop q \<Longrightarrow> r = q"
proof (induction s rs rule: spaced.induct)
  case (2 s x rs)
  then show ?case using spaced_mem [of "stop x" rs r] spaced_mem [of "stop x" rs q] by auto
qed simp

section \<open>Merging changes nothing\<close>

lemma mergeable_key:
  assumes "vr_start l' = vr_start l" "vr_size l' = vr_size l" "vr_start r' = vr_start r"
    "\<And>x. SameMergeKey l' x = SameMergeKey l x" "\<And>x. SameMergeKey x r' = SameMergeKey x r"
  shows "mergeable l' r' = mergeable l r"
  using assms by (simp add: mergeable_def)

lemma join_simps [simp]:
  "vr_start (join l r) = vr_start l" "vr_size (join l r) = vr_size l + vr_size r"
  "SameMergeKey (join l r) x = SameMergeKey l x" "SameMergeKey x (join l r) = SameMergeKey x l"
  by (simp_all add: join_def SameMergeKey_def)

lemma mergeable_join [simp]: "mergeable x (join l r) = mergeable x l"
  by (simp add: mergeable_def)

lemma mergeableD:
  assumes "mergeable l r" "stop l \<le> UINT64_MAX"
  shows "vr_start r = stop l" "attr r a = attr l a" "attr (join l r) a = attr l a"
  using assms by (auto simp: mergeable_def SameMergeKey_def clamped_End_fits attr_def join_def split: if_splits)

lemma join_spaced: "mergeable l r \<Longrightarrow> spaced s (l # r # rs) \<Longrightarrow> spaced s (join l r # rs)"
  using mergeableD(1) [of l r] by (auto simp: add.assoc)

lemma join_attrs:
  assumes "mergeable l r" "spaced s (l # r # rs)"
  shows "attrs (join l r # rs) a = attrs (l # r # rs) a"
proof -
  note d = mergeableD(1) [OF assms(1)] mergeableD(2,3) [OF assms(1), of a]
  have "stop l \<le> UINT64_MAX" using assms(2) by simp
  then show ?thesis using d by auto
qed

lemma merge_loop_head:
  "\<exists>r' rs'. merge_loop (r # rs) = r' # rs' \<and> vr_start r' = vr_start r \<and> (\<forall>x. mergeable x r' = mergeable x r)"
proof (induction rs arbitrary: r)
  case (Cons q rs)
  show ?case
  proof (cases "mergeable r q")
    case True
    obtain r' rs' where "merge_loop (join r q # rs) = r' # rs'" "vr_start r' = vr_start (join r q)"
        "\<forall>x. mergeable x r' = mergeable x (join r q)" using Cons.IH by blast
    then show ?thesis using True by simp
  qed simp
qed simp

lemma merge_loop_ok:
  "spaced s rs \<Longrightarrow> spaced s (merge_loop rs) \<and> merged (merge_loop rs) \<and> (\<forall>a. attrs (merge_loop rs) a = attrs rs a)"
proof (induction rs arbitrary: s rule: merge_loop.induct)
  case (1 l r rs)
  show ?case
  proof (cases "mergeable l r")
    case True
    then show ?thesis using 1(1) [OF True join_spaced [OF True 1(3)]] join_attrs [OF True 1(3)] by simp
  next
    case False
    have ih: "spaced (stop l) (merge_loop (r # rs)) \<and> merged (merge_loop (r # rs)) \<and>
        (\<forall>a. attrs (merge_loop (r # rs)) a = attrs (r # rs) a)"
      by (rule 1(2) [OF False]) (use 1(3) in simp)
    obtain r' rs' where "merge_loop (r # rs) = r' # rs'" "mergeable l r' = mergeable l r"
      using merge_loop_head [of r rs] by blast
    then show ?thesis using False ih 1(3) by simp
  qed
qed simp_all

lemma MergeUnlocked_ok:
  assumes "spaced s rs"
  shows "spaced s (MergeUnlocked rs)" "merged (MergeUnlocked rs)" "attrs (MergeUnlocked rs) a = attrs rs a"
proof -
  have "sort_key vr_start rs = rs" using spaced_sorted [OF assms] by (rule sort_key_id_if_sorted)
  moreover have "merged rs" if "length rs < 2" using that by (cases rs rule: merged.cases) simp_all
  ultimately show "spaced s (MergeUnlocked rs)" "merged (MergeUnlocked rs)" "attrs (MergeUnlocked rs) a = attrs rs a"
    using merge_loop_ok [OF assms] assms by (auto simp: MergeUnlocked_def)
qed

lemma merged_append:
  "merged (xs @ ys) \<longleftrightarrow> merged xs \<and> merged ys \<and> (xs \<noteq> [] \<longrightarrow> ys \<noteq> [] \<longrightarrow> \<not> mergeable (last xs) (hd ys))"
  by (induction xs rule: merged.induct; cases ys) auto

lemma merge_after_ok:
  "spaced s (c # rs) \<Longrightarrow> merged rs \<Longrightarrow>
     spaced s (merge_after c rs) \<and> merged (merge_after c rs) \<and> (\<forall>a. attrs (merge_after c rs) a = attrs (c # rs) a) \<and>
     merge_after c rs \<noteq> [] \<and> (\<forall>x. mergeable x (hd (merge_after c rs)) = mergeable x c)"
proof (induction c rs rule: merge_after.induct)
  case (2 c r rs)
  show ?case
  proof (cases "mergeable c r")
    case True
    have "merged rs" using 2(3) by (cases rs) simp_all
    then have ih: "spaced s (merge_after (join c r) rs) \<and> merged (merge_after (join c r) rs) \<and>
        (\<forall>a. attrs (merge_after (join c r) rs) a = attrs (join c r # rs) a) \<and> merge_after (join c r) rs \<noteq> [] \<and>
        (\<forall>x. mergeable x (hd (merge_after (join c r) rs)) = mergeable x (join c r))"
      by (rule 2(1) [OF True join_spaced [OF True 2(2)]])
    show ?thesis using True ih join_attrs [OF True 2(2)] by simp
  qed (use 2 in simp)
qed simp

lemma MergeAround_ok:
  assumes "spaced s (before @ c # rest)" "merged before" "merged rest"
  defines "rs \<equiv> MergeAroundUnlocked (length before) (before @ c # rest)"
  shows "spaced s rs" "merged rs" "attrs rs a = attrs (before @ c # rest) a"
proof -
  have ok: "spaced s rs \<and> merged rs \<and> attrs rs a = attrs (before @ c # rest) a"
  proof (cases "before \<noteq> [] \<and> mergeable (last before) c")
    case True
    then obtain bs p where b: "before = bs @ [p]" "mergeable p c" by (cases before rule: rev_cases) auto
    let ?s = "if bs = [] then s else stop (last bs)"
    have sp: "spaced s bs" "spaced ?s (p # c # rest)" using assms(1) by (simp_all add: b spaced_append)
    note m = merge_after_ok [OF join_spaced [OF b(2) sp(2)] assms(3)]
    have mb: "merged bs" "bs \<noteq> [] \<longrightarrow> \<not> mergeable (last bs) p" using assms(2) by (simp_all add: b merged_append)
    have rs: "rs = bs @ merge_after (join p c) rest" using b by (simp add: rs_def MergeAroundUnlocked_def Let_def nth_append)
    show ?thesis using m sp(1) mb join_attrs [OF b(2) sp(2)]
      by (simp add: rs b spaced_append merged_append attrs_append split: option.split)
  next
    case False
    let ?s = "if before = [] then s else stop (last before)"
    have sp: "spaced s before" "spaced ?s (c # rest)" using assms(1) by (simp_all add: spaced_append)
    note m = merge_after_ok [OF sp(2) assms(3)]
    have rs: "rs = before @ merge_after c rest" using False by (auto simp: rs_def MergeAroundUnlocked_def)
    show ?thesis using m sp(1) assms(2) False
      by (auto simp: rs spaced_append merged_append attrs_append split: option.split)
  qed
  then show "spaced s rs" "merged rs" "attrs rs a = attrs (before @ c # rest) a" by simp_all
qed

section \<open>Cutting\<close>

text \<open>\<open>ps\<close> are ranges inside \<open>r\<close>, in order.\<close>

definition fragments :: "vrange \<Rightarrow> vrange list \<Rightarrow> bool" where
  "fragments r ps \<longleftrightarrow> spaced (vr_start r) ps \<and> (\<forall>p\<in>set ps. stop p \<le> stop r)"

lemma fragments_spaced:
  assumes "\<And>r. r \<in> set rs \<Longrightarrow> fragments r (f r)" "spaced s rs"
  shows "spaced s (concat (map f rs))"
  using assms
proof (induction rs arbitrary: s)
  case (Cons r rs)
  have "fragments r (f r)" "spaced (stop r) (concat (map f rs))" using Cons by auto
  then show ?case using Cons.prems(2) spaced_mono [of "vr_start r" "f r" s]
    by (auto simp: fragments_def intro: spaced_append_below)
qed simp

lemma fragments_attrs:
  assumes "\<And>r a. r \<in> set rs \<Longrightarrow> attrs (f r) a = (if vr_start r \<le> a \<and> a < stop r then g a (attr r a) else None)"
    and "spaced s rs"
  shows "attrs (concat (map f rs)) a = Option.bind (attrs rs a) (g a)"
  using assms
proof (induction rs arbitrary: s)
  case (Cons r rs)
  have f: "attrs (f r) a = (if vr_start r \<le> a \<and> a < stop r then g a (attr r a) else None)" using Cons.prems(1) by simp
  have ih: "attrs (concat (map f rs)) a = Option.bind (attrs rs a) (g a)"
    by (rule Cons.IH [where s = "stop r"]) (use Cons.prems in auto)
  have "attrs rs a = None" if "a < stop r" using attrs_below [of "stop r" rs a] that Cons.prems(2) by simp
  then show ?case using f ih by (auto simp: attrs_append split: option.split)
qed simp

lemma AddPiece_spaced:
  "stop r \<le> UINT64_MAX \<Longrightarrow> e \<le> stop r \<Longrightarrow> t \<le> s \<Longrightarrow> spaced t (AddPiece r s e) \<and> (\<forall>p\<in>set (AddPiece r s e). stop p \<le> e)"
  by (auto simp: AddPiece_def)

lemma AddPiece_attrs:
  "vr_start r \<le> s \<Longrightarrow> attrs (AddPiece r s e) a = (if s \<le> a \<and> a < e then Some (attr r a) else None)"
  by (auto simp: AddPiece_def attr_def)

lemma overlap_iff:
  assumes "0 < vr_size r" "stop r \<le> UINT64_MAX"
  shows "VirtualRangesOverlap start bytes (vr_start r) (vr_size r) \<longleftrightarrow>
           bytes \<noteq> 0 \<and> start < stop r \<and> vr_start r < clamped_End start bytes"
  using assms by (simp add: VirtualRangesOverlap_def clamped_End_fits Let_def conj_commute)

text \<open>Three ranges in a row.\<close>

lemma spaced_three:
  assumes "spaced s xs" "\<forall>p\<in>set xs. stop p \<le> t" "s \<le> t" "spaced t ys" "\<forall>p\<in>set ys. stop p \<le> u" "t \<le> u" "spaced u zs"
  shows "spaced s (xs @ ys @ zs)"
  using spaced_append_below [OF assms(1-3), of "ys @ zs"] spaced_append_below [OF assms(4-7)] by simp

lemma attrs_three:
  assumes "attrs xs a = (if A then Some x else None)" "attrs ys a = (if B then Some y else None)"
    "attrs zs a = (if C then Some z else None)"
  shows "attrs (xs @ ys @ zs) a = (if A then Some x else if B then Some y else if C then Some z else None)"
  using assms by (simp add: attrs_append)

lemma remove_one_ok:
  assumes r: "0 < vr_size r" "stop r \<le> UINT64_MAX"
  shows "fragments r (remove_one start bytes r)"
    "attrs (remove_one start bytes r) a =
       (if vr_start r \<le> a \<and> a < stop r then if start \<le> a \<and> a < clamped_End start bytes then None else Some (attr r a) else None)"
proof -
  let ?E = "clamped_End start bytes"
  have e: "vr_end r = stop r" by (rule clamped_End_fits [OF r(2)])
  show "fragments r (remove_one start bytes r)"
  proof (cases "VirtualRangesOverlap start bytes (vr_start r) (vr_size r)")
    case True
    then have o: "start < stop r" "vr_start r < ?E" by (simp_all add: overlap_iff [OF r])
    have le: "start \<le> ?E" using o r(2) by (auto simp: clamped_End_def)
    let ?s = "max start (vr_start r)" and ?e = "min ?E (stop r)"
    have m: "?s \<le> ?e" "?s \<le> stop r" "?e \<le> stop r" "vr_start r \<le> ?s" using o r le by auto
    have L: "spaced (vr_start r) (AddPiece r (vr_start r) ?s)" "\<forall>p\<in>set (AddPiece r (vr_start r) ?s). stop p \<le> ?s"
      using AddPiece_spaced [OF r(2) m(2) order_refl] by simp_all
    have R: "spaced ?s (AddPiece r ?e (stop r))" "\<forall>p\<in>set (AddPiece r ?e (stop r)). stop p \<le> stop r"
      using AddPiece_spaced [OF r(2) order_refl m(1)] by simp_all
    have "spaced (vr_start r) (AddPiece r (vr_start r) ?s @ AddPiece r ?e (stop r))"
      by (rule spaced_append_below [OF L m(4) R(1)])
    moreover have "\<forall>p\<in>set (AddPiece r (vr_start r) ?s @ AddPiece r ?e (stop r)). stop p \<le> stop r"
      unfolding set_append using L(2) R(2) m(2) order_trans by blast
    ultimately show ?thesis using True by (simp add: remove_one_def fragments_def e)
  qed (use r in \<open>simp add: remove_one_def fragments_def\<close>)
  show "attrs (remove_one start bytes r) a =
      (if vr_start r \<le> a \<and> a < stop r then if start \<le> a \<and> a < ?E then None else Some (attr r a) else None)"
  proof (cases "VirtualRangesOverlap start bytes (vr_start r) (vr_size r)")
    case True
    then have "start < stop r" "vr_start r < ?E" by (simp_all add: overlap_iff [OF r])
    then show ?thesis using True by (auto simp: remove_one_def e attrs_append AddPiece_attrs split: option.split)
  next
    case False
    then show ?thesis using r by (auto simp: remove_one_def overlap_iff [OF r] clamped_End_def split: if_splits)
  qed
qed

text \<open>An edit that keeps the bounds and changes the attributes by \<open>ed\<close>.\<close>

definition edits :: "(vrange \<Rightarrow> vrange) \<Rightarrow> (range_type \<times> u32 \<times> int \<times> bool \<times> string \<times> nat \<Rightarrow>
    range_type \<times> u32 \<times> int \<times> bool \<times> string \<times> nat) \<Rightarrow> bool" where
  "edits edit ed \<longleftrightarrow>
     (\<forall>r a. vr_start (edit r) = vr_start r \<and> vr_size (edit r) = vr_size r \<and> attr (edit r) a = ed (attr r a))"

lemma edit_one_ok:
  assumes r: "0 < vr_size r" "stop r \<le> UINT64_MAX" and ed: "edits edit ed"
  shows "fragments r (edit_one start bytes edit r)"
    "attrs (edit_one start bytes edit r) a =
       (if vr_start r \<le> a \<and> a < stop r
        then Some (if start \<le> a \<and> a < clamped_End start bytes then ed (attr r a) else attr r a) else None)"
proof -
  let ?E = "clamped_End start bytes"
  let ?s = "max start (vr_start r)" and ?e = "min ?E (stop r)"
  have e: "vr_end r = stop r" by (rule clamped_End_fits [OF r(2)])
  let ?mid = "r\<lparr>vr_start := ?s, vr_size := ?e - ?s,
      vr_offset := (if vr_type r = Direct then vr_offset r + (?s - vr_start r) else vr_offset r)\<rparr>"
  have mid: "vr_start (edit ?mid) = ?s" "vr_size (edit ?mid) = ?e - ?s" "attr (edit ?mid) a = ed (attr ?mid a)" for a
    using ed by (simp_all add: edits_def)
  have am: "attr ?mid a = attr r a" if "?s \<le> a" for a using that by (auto simp: attr_def)
  have eq: "edit_one start bytes edit r = AddPiece r (vr_start r) ?s @ [edit ?mid] @ AddPiece r ?e (stop r)"
    if "VirtualRangesOverlap start bytes (vr_start r) (vr_size r)" using that by (simp add: edit_one_def Let_def e)
  have lt: "?s < ?e" if "VirtualRangesOverlap start bytes (vr_start r) (vr_size r)"
  proof -
    have o: "bytes \<noteq> 0" "start < stop r" "vr_start r < ?E" using that by (simp_all add: overlap_iff [OF r])
    then have "start < ?E" using r by (auto simp: clamped_End_def)
    then show ?thesis using o r by simp
  qed
  show "fragments r (edit_one start bytes edit r)"
  proof (cases "VirtualRangesOverlap start bytes (vr_start r) (vr_size r)")
    case True
    note l = lt [OF True]
    have m: "vr_start r \<le> ?s" "?s \<le> ?e" "?s \<le> stop r" "?e \<le> stop r" using l r by auto
    have L: "spaced (vr_start r) (AddPiece r (vr_start r) ?s)" "\<forall>p\<in>set (AddPiece r (vr_start r) ?s). stop p \<le> ?s"
      using AddPiece_spaced [OF r(2) m(3) order_refl] by simp_all
    have R: "spaced ?e (AddPiece r ?e (stop r))" "\<forall>p\<in>set (AddPiece r ?e (stop r)). stop p \<le> stop r"
      using AddPiece_spaced [OF r(2) order_refl order_refl] by simp_all
    have st: "stop (edit ?mid) = ?e" unfolding mid(1,2) using m(2) by (rule le_add_diff_inverse)
    have M: "spaced ?s [edit ?mid]" "\<forall>p\<in>set [edit ?mid]. stop p \<le> ?e"
      unfolding spaced.simps list.set st mid(1,2) using st l order_trans [OF m(4) r(2)] by simp_all
    have "spaced (vr_start r) (AddPiece r (vr_start r) ?s @ [edit ?mid] @ AddPiece r ?e (stop r))"
      by (rule spaced_three [OF L m(1) M m(2) R(1)])
    moreover have "\<forall>p\<in>set (AddPiece r (vr_start r) ?s @ [edit ?mid] @ AddPiece r ?e (stop r)). stop p \<le> stop r"
      unfolding set_append using L(2) R(2) M(2) m(3,4) order_trans by blast
    ultimately show ?thesis unfolding eq [OF True] fragments_def by simp
  qed (use r in \<open>simp add: edit_one_def fragments_def\<close>)
  show "attrs (edit_one start bytes edit r) a =
      (if vr_start r \<le> a \<and> a < stop r then Some (if start \<le> a \<and> a < ?E then ed (attr r a) else attr r a) else None)"
  proof (cases "VirtualRangesOverlap start bytes (vr_start r) (vr_size r)")
    case True
    note l = lt [OF True]
    have st: "stop (edit ?mid) = ?e" unfolding mid(1,2) using less_imp_le [OF l] by (rule le_add_diff_inverse)
    have m: "attrs [edit ?mid] a = (if ?s \<le> a \<and> a < ?e then Some (ed (attr r a)) else None)"
      unfolding attrs.simps st unfolding mid(1) mid(3) by (rule if_cong [OF refl _ refl], drule conjunct1, simp only: am)
    have "vr_start r \<le> ?e" using l r by auto
    note p = AddPiece_attrs [OF order_refl, of r ?s a] AddPiece_attrs [OF this, of "stop r" a]
    show ?thesis unfolding eq [OF True] attrs_three [OF p(1) m p(2)] using l r by auto
  next
    case False
    then show ?thesis using r by (auto simp: edit_one_def overlap_iff [OF r] clamped_End_def split: if_splits)
  qed
qed

section \<open>Positions\<close>

lemma LowerBound_split:
  assumes "LowerBound start rs = (before, rest)" "spaced s rs"
  shows "rs = before @ rest" "\<forall>r\<in>set before. vr_start r < start" "\<forall>r\<in>set rest. start \<le> vr_start r"
proof -
  have b: "before = takeWhile (\<lambda>r. vr_start r < start) rs" "rest = dropWhile (\<lambda>r. vr_start r < start) rs"
    using assms(1) by (simp_all add: LowerBound_def)
  then show rs: "rs = before @ rest" by simp
  show "\<forall>r\<in>set before. vr_start r < start" using b(1) set_takeWhileD by fastforce
  show "\<forall>r\<in>set rest. start \<le> vr_start r"
  proof (cases rest)
    case (Cons h t)
    have "dropWhile (\<lambda>r. vr_start r < start) rs = h # t" using b(2) Cons by simp
    then have "\<not> vr_start h < start" by (simp add: dropWhile_eq_Cons_conv)
    moreover have "sorted (map vr_start (h # t))"
      using spaced_sorted [OF assms(2)] by (simp add: rs Cons sorted_append)
    ultimately show ?thesis using Cons by fastforce
  qed simp
qed

lemma UpperBound_split:
  assumes "UpperBound addr rs = (before, rest)" "spaced s rs"
  shows "rs = before @ rest" "\<forall>r\<in>set before. vr_start r \<le> addr" "\<forall>r\<in>set rest. addr < vr_start r"
proof -
  have "UpperBound addr rs = LowerBound (addr + 1) rs"
    by (simp add: UpperBound_def LowerBound_def less_Suc_eq_le)
  with assms LowerBound_split [of "addr + 1" rs before rest s]
  show "rs = before @ rest" "\<forall>r\<in>set before. vr_start r \<le> addr" "\<forall>r\<in>set rest. addr < vr_start r"
    by auto
qed

lemma before_last:
  assumes "spaced s (before @ rest)" "before \<noteq> []" "r \<in> set before" "r \<noteq> last before"
  shows "stop r \<le> vr_start (last before)"
proof -
  obtain bs l where b: "before = bs @ [l]" using assms(2) by (cases before rule: rev_cases) auto
  have "spaced s bs \<Longrightarrow> r \<in> set bs \<Longrightarrow> stop r \<le> stop (last bs)"
  proof (induction s bs rule: spaced.induct)
    case (2 s x xs)
    show ?case
    proof (cases "xs = []")
      case False
      then have "last xs \<in> set xs" by simp
      then have "stop x \<le> stop (last xs)" using spaced_mem [of "stop x" xs "last xs"] 2(2) by auto
      then show ?thesis using 2 False by auto
    qed (use 2 in simp)
  qed simp
  moreover have "r \<in> set bs" using assms(3,4) b by auto
  moreover have "spaced s bs" "stop (last bs) \<le> vr_start l" using assms(1) b \<open>r \<in> set bs\<close> by (auto simp: spaced_append split: if_splits)
  ultimately show ?thesis using b by auto
qed

lemma rest_first:
  assumes "spaced s (before @ h # t)" "r \<in> set t"
  shows "stop h \<le> vr_start r"
  using assms spaced_mem [of "stop h" t r] by (simp add: spaced_append)

lemma FindOverlap_iff:
  assumes "spaced s rs"
  shows "FindOverlap start bytes rs = None \<longleftrightarrow> (\<forall>r\<in>set rs. \<not> VirtualRangesOverlap start bytes (vr_start r) (vr_size r))"
    "FindOverlap start bytes rs = Some r \<Longrightarrow> r \<in> set rs \<and> VirtualRangesOverlap start bytes (vr_start r) (vr_size r)"
proof -
  obtain before rest where b: "LowerBound start rs = (before, rest)" by (cases "LowerBound start rs")
  note sp = LowerBound_split [OF b assms]
  have fit: "0 < vr_size r \<and> stop r \<le> UINT64_MAX" if "r \<in> set rs" for r using spaced_mem [OF assms that] by simp
  have hdo: "VirtualRangesOverlap start bytes (vr_start (hd rest)) (vr_size (hd rest))"
    if r: "r \<in> set rest" "VirtualRangesOverlap start bytes (vr_start r) (vr_size r)" for r
  proof -
    obtain h t where h: "rest = h # t" using r(1) by (cases rest) auto
    have "h \<in> set rs" using h sp(1) by simp
    note o = overlap_iff [of _ start bytes] fit
    have "vr_start h \<le> vr_start r" using rest_first [of s before h t r] assms sp(1) h r(1) by (cases "r = h") auto
    moreover have "r \<in> set rs" using r(1) sp(1) by simp
    moreover have "start \<le> vr_start h" using sp(3) h by simp
    ultimately show ?thesis using o(1) [of r] o(1) [of h] o(2) [of r] o(2) [OF \<open>h \<in> set rs\<close>] r(2) h by simp
  qed
  have lo: "r = last before" if "r \<in> set before" "VirtualRangesOverlap start bytes (vr_start r) (vr_size r)" for r
  proof (rule ccontr)
    assume n: "r \<noteq> last before"
    have ne: "before \<noteq> []" using that(1) by auto
    have "stop r \<le> vr_start (last before)" using before_last [OF _ ne that(1) n, of s rest] assms sp(1) by simp
    moreover have "vr_start (last before) < start" using sp(2) ne by simp
    moreover have "r \<in> set rs" using that(1) sp(1) by simp
    ultimately show False using that(2) overlap_iff [of r start bytes] fit [of r] by simp
  qed
  have eq: "FindOverlap start bytes rs = None \<longleftrightarrow>
      \<not> (rest \<noteq> [] \<and> VirtualRangesOverlap start bytes (vr_start (hd rest)) (vr_size (hd rest))) \<and>
      \<not> (before \<noteq> [] \<and> VirtualRangesOverlap start bytes (vr_start (last before)) (vr_size (last before)))"
    by (simp add: FindOverlap_def b)
  have set: "set rs = set before \<union> set rest" using sp(1) by simp
  show "FindOverlap start bytes rs = None \<longleftrightarrow> (\<forall>r\<in>set rs. \<not> VirtualRangesOverlap start bytes (vr_start r) (vr_size r))"
    unfolding eq set
  proof (intro iffI ballI notI)
    fix r assume n: "\<not> (rest \<noteq> [] \<and> VirtualRangesOverlap start bytes (vr_start (hd rest)) (vr_size (hd rest))) \<and>
        \<not> (before \<noteq> [] \<and> VirtualRangesOverlap start bytes (vr_start (last before)) (vr_size (last before)))"
      and r: "r \<in> set before \<union> set rest" and o: "VirtualRangesOverlap start bytes (vr_start r) (vr_size r)"
    from r show False
    proof
      assume "r \<in> set before"
      then show False using lo [OF _ o] n o by auto
    next
      assume "r \<in> set rest"
      then show False using hdo [OF _ o] n by auto
    qed
  qed auto
  show "r \<in> set rs \<and> VirtualRangesOverlap start bytes (vr_start r) (vr_size r)" if "FindOverlap start bytes rs = Some r"
    using that by (auto simp: FindOverlap_def b set split: if_splits)
qed

text \<open>The range found: the first that starts in the queried addresses, else the one that reaches into them.\<close>

lemma FindOverlap_first:
  assumes sp: "spaced s rs" and find: "FindOverlap start bytes rs = Some r"
  shows "r \<in> set rs" "start < stop r" "vr_start r < clamped_End start bytes"
    and "\<forall>q\<in>set rs. start \<le> vr_start q \<and> vr_start q < clamped_End start bytes \<longrightarrow>
           start \<le> vr_start r \<and> vr_start r \<le> vr_start q"
proof -
  have r: "r \<in> set rs" "VirtualRangesOverlap start bytes (vr_start r) (vr_size r)"
    using FindOverlap_iff(2) [OF sp find] by simp_all
  have fit: "0 < vr_size q \<and> stop q \<le> UINT64_MAX" if "q \<in> set rs" for q using spaced_mem [OF sp that] by simp
  show "r \<in> set rs" by (rule r(1))
  show o: "start < stop r" "vr_start r < clamped_End start bytes" using r fit [OF r(1)] overlap_iff [of r start bytes] by simp_all
  obtain before rest where b: "LowerBound start rs = (before, rest)" by (cases "LowerBound start rs")
  note l = LowerBound_split [OF b sp]
  show "\<forall>q\<in>set rs. start \<le> vr_start q \<and> vr_start q < clamped_End start bytes \<longrightarrow>
      start \<le> vr_start r \<and> vr_start r \<le> vr_start q"
  proof (intro ballI impI)
    fix q assume q: "q \<in> set rs" "start \<le> vr_start q \<and> vr_start q < clamped_End start bytes"
    then have "q \<in> set rest" using l by auto
    then obtain h t where h: "rest = h # t" by (cases rest) auto
    have hq: "vr_start h \<le> vr_start q"
      using rest_first [of s before h t q] sp l(1) h \<open>q \<in> set rest\<close> by (cases "q = h") auto
    have hs: "h \<in> set rs" "start \<le> vr_start h" using l h by simp_all
    have "bytes \<noteq> 0" using r(2) by (auto simp: VirtualRangesOverlap_def split: if_splits)
    then have "VirtualRangesOverlap start bytes (vr_start h) (vr_size h)"
      using overlap_iff [of h start bytes] fit [OF hs(1)] hs(2) hq q(2) by simp
    then have "r = h" using find h by (simp add: FindOverlap_def b)
    then show "start \<le> vr_start r \<and> vr_start r \<le> vr_start q" using hs(2) hq by simp
  qed
qed

text \<open>A range of addresses is free when no range overlaps it.\<close>

lemma no_overlap_clamped:
  assumes "spaced s rs"
  shows "(\<forall>r\<in>set rs. \<not> VirtualRangesOverlap start bytes (vr_start r) (vr_size r)) \<longleftrightarrow>
           (\<forall>a. start \<le> a \<and> a < clamped_End start bytes \<longrightarrow> attrs rs a = None)"
proof
  have empty: "clamped_End start bytes \<le> start" if "bytes = 0" using that by (simp add: clamped_End_def)
  assume n: "\<forall>r\<in>set rs. \<not> VirtualRangesOverlap start bytes (vr_start r) (vr_size r)"
  show "\<forall>a. start \<le> a \<and> a < clamped_End start bytes \<longrightarrow> attrs rs a = None"
  proof (intro allI impI)
    fix a assume a: "start \<le> a \<and> a < clamped_End start bytes"
    show "attrs rs a = None" unfolding attrs_None
    proof (intro ballI notI)
      fix r assume r: "r \<in> set rs" "vr_start r \<le> a \<and> a < stop r"
      then show False using n spaced_mem [OF assms r(1)] overlap_iff [of r start bytes] empty a by auto
    qed
  qed
next
  assume n: "\<forall>a. start \<le> a \<and> a < clamped_End start bytes \<longrightarrow> attrs rs a = None"
  show "\<forall>r\<in>set rs. \<not> VirtualRangesOverlap start bytes (vr_start r) (vr_size r)"
  proof (intro ballI notI)
    fix r assume r: "r \<in> set rs" "VirtualRangesOverlap start bytes (vr_start r) (vr_size r)"
    then have o: "bytes \<noteq> 0" "start < stop r" "vr_start r < clamped_End start bytes"
      using spaced_mem [OF assms r(1)] overlap_iff [of r start bytes] by auto
    have "start < clamped_End start bytes" using o spaced_mem [OF assms r(1)] by (simp add: clamped_End_def)
    then have "attrs rs (max start (vr_start r)) = None" using n o by simp
    then show False using attrs_mem [OF assms r(1), of "max start (vr_start r)"] o spaced_mem [OF assms r(1)] by simp
  qed
qed

lemma no_overlap_attrs:
  assumes "spaced s rs" "start + bytes \<le> UINT64_MAX"
  shows "(\<forall>r\<in>set rs. \<not> VirtualRangesOverlap start bytes (vr_start r) (vr_size r)) \<longleftrightarrow>
           (\<forall>a. start \<le> a \<and> a < start + bytes \<longrightarrow> attrs rs a = None)"
  using no_overlap_clamped [OF assms(1), of start bytes] by (simp add: clamped_End_fits [OF assms(2)])

section \<open>The operations on the attributes of addresses\<close>

lemma vr_Add_ok:
  assumes ok: "ranges_ok rs" and fit: "start + bytes \<le> UINT64_MAX"
    and add: "vr_Add start bytes offset prot mt type name dm rs = (rs', b)"
  shows "ranges_ok rs'"
    "b \<longleftrightarrow> start \<noteq> 0 \<and> bytes \<noteq> 0 \<and> (\<forall>a. start \<le> a \<and> a < start + bytes \<longrightarrow> attrs rs a = None)"
    "attrs rs' a = (if b \<and> start \<le> a \<and> a < start + bytes
       then Some (type, prot, mt, dm, CopyVirtualRangeName name, if type = Direct then offset + (a - start) else 0)
       else attrs rs a)"
proof -
  note sp = ok [unfolded ranges_ok_def, THEN conjunct1] and mg = ok [unfolded ranges_ok_def, THEN conjunct2]
  obtain before rest where l: "LowerBound start rs = (before, rest)" by (cases "LowerBound start rs")
  note s = LowerBound_split [OF l sp]
  let ?new = "\<lparr>vr_start = start, vr_size = bytes, vr_offset = offset, vr_protection = prot, vr_memory_type = mt,
      vr_type = type, vr_disallow_merge = dm, vr_name = CopyVirtualRangeName name\<rparr>"
  have find: "FindOverlap start bytes rs = None \<longleftrightarrow>
      \<not> ((rest \<noteq> [] \<and> VirtualRangesOverlap start bytes (vr_start (hd rest)) (vr_size (hd rest))) \<or>
        (before \<noteq> [] \<and> VirtualRangesOverlap start bytes (vr_start (last before)) (vr_size (last before))))"
    by (simp add: FindOverlap_def l)
  have free: "FindOverlap start bytes rs = None \<longleftrightarrow> (\<forall>a. start \<le> a \<and> a < start + bytes \<longrightarrow> attrs rs a = None)"
    using FindOverlap_iff(1) [OF sp] no_overlap_attrs [OF sp fit] by simp
  have def: "(rs', b) = (if start = 0 \<or> bytes = 0 then (rs, False)
      else if FindOverlap start bytes rs \<noteq> None then (rs, False)
      else (MergeAroundUnlocked (length before) (before @ ?new # rest), True))"
    unfolding add [symmetric] vr_Add_def l prod.case Let_def find by (simp only: not_not)
  show b: "b \<longleftrightarrow> start \<noteq> 0 \<and> bytes \<noteq> 0 \<and> (\<forall>a. start \<le> a \<and> a < start + bytes \<longrightarrow> attrs rs a = None)"
    using def free by (auto split: if_splits)
  have res: "ranges_ok rs' \<and> (\<forall>a. attrs rs' a = (if start \<le> a \<and> a < start + bytes then Some (attr ?new a) else attrs rs a))" if b
  proof -
    have rs': "rs' = MergeAroundUnlocked (length before) (before @ ?new # rest)" using def that by (auto split: if_splits)
    have no: "\<forall>r\<in>set rs. \<not> VirtualRangesOverlap start bytes (vr_start r) (vr_size r)" and pos: "start \<noteq> 0" "bytes \<noteq> 0"
      using that b no_overlap_attrs [OF sp fit] by simp_all
    have fitr: "0 < vr_size r \<and> stop r \<le> UINT64_MAX" if "r \<in> set rs" for r using spaced_mem [OF sp that] by simp
    have bl: "stop r \<le> start" if "r \<in> set before" for r
    proof -
      have "r \<in> set rs" "vr_start r < start" using that s by auto
      then show ?thesis using no overlap_iff [of r start bytes] fitr [of r] pos clamped_End_fits [OF fit] by auto
    qed
    have ab: "start + bytes \<le> vr_start r" if "r \<in> set rest" for r
    proof -
      have "r \<in> set rs" "start \<le> vr_start r" using that s by auto
      then show ?thesis using no overlap_iff [of r start bytes] fitr [of r] pos clamped_End_fits [OF fit] by auto
    qed
    have spr: "spaced (start + bytes) rest"
    proof (cases rest)
      case (Cons h t)
      then show ?thesis using sp s(1) ab [of h] by (simp add: spaced_append)
    qed simp
    have new: "spaced 1 (before @ ?new # rest)"
      by (rule spaced_append_below [where t = start]) (use sp s(1) bl spr pos fit in \<open>auto simp: spaced_append\<close>)
    have m: "merged before" "merged rest" using mg s(1) by (simp_all add: merged_append)
    note r = MergeAround_ok [OF new m, folded rs']
    have "attrs (before @ ?new # rest) a = (if start \<le> a \<and> a < start + bytes then Some (attr ?new a) else attrs rs a)" for a
    proof -
      have nb: "attrs before a = None" if "start \<le> a" using bl that by (force simp: attrs_None)
      then show ?thesis by (auto simp: s(1) attrs_append split: option.split)
    qed
    then show ?thesis using r by (simp add: ranges_ok_def)
  qed
  show "ranges_ok rs'" using res ok def by (cases b) (auto split: if_splits)
  show "attrs rs' a = (if b \<and> start \<le> a \<and> a < start + bytes
       then Some (type, prot, mt, dm, CopyVirtualRangeName name, if type = Direct then offset + (a - start) else 0)
       else attrs rs a)"
    using res def by (cases b) (auto simp: attr_def split: if_splits)
qed

lemma spaced_removed:
  assumes "spaced s (before @ h # t)"
  shows "spaced s (before @ t)"
    "attrs (before @ t) a = (if vr_start h \<le> a \<and> a < stop h then None else attrs (before @ h # t) a)"
proof -
  let ?s = "if before = [] then s else stop (last before)"
  have sp: "spaced s before" "?s \<le> vr_start h" "spaced (stop h) t" using assms by (simp_all add: spaced_append)
  then have "spaced ?s t" using spaced_mono [of "stop h" t ?s] by simp
  then show "spaced s (before @ t)" using sp(1) by (simp add: spaced_append)
  have "attrs before a = None" if a: "vr_start h \<le> a"
  proof -
    have "stop r \<le> vr_start h" if "r \<in> set before" for r
      using before_last [OF assms _ that] sp(2) that by (cases "r = last before") (auto split: if_splits dest: spaced_mem [OF assms])
    then show ?thesis using a by (force simp: attrs_None)
  qed
  moreover have "attrs t a = None" if "a < stop h" using attrs_below [OF sp(3) that] .
  ultimately show "attrs (before @ t) a = (if vr_start h \<le> a \<and> a < stop h then None else attrs (before @ h # t) a)"
    by (auto simp: attrs_append split: option.split)
qed

lemma merged_removed:
  assumes "spaced s (before @ h # t)" "merged (before @ h # t)"
  shows "merged (before @ t)"
proof -
  have "merged before" "merged t" using assms(2) by (cases t; simp add: merged_append)+
  moreover have "\<not> mergeable (last before) (hd t)" if "before \<noteq> []" "t \<noteq> []"
  proof -
    have "stop (last before) \<le> vr_start h" "stop h \<le> vr_start (hd t)" "0 < vr_size h" "stop (last before) \<le> UINT64_MAX"
      using assms(1) that spaced_mem [OF assms(1), of "last before"] by (cases t; simp add: spaced_append)+
    then show ?thesis by (simp add: mergeable_def clamped_End_fits)
  qed
  ultimately show ?thesis by (simp add: merged_append)
qed

lemma RemoveUnlocked_ok:
  assumes "spaced s rs"
  shows "spaced s (fst (RemoveUnlocked start bytes rs))"
    "attrs (fst (RemoveUnlocked start bytes rs)) a = (if start \<le> a \<and> a < clamped_End start bytes then None else attrs rs a)"
proof -
  have fit: "0 < vr_size r" "stop r \<le> UINT64_MAX" if "r \<in> set rs" for r using spaced_mem [OF assms that] by simp_all
  have "spaced s (concat (map (remove_one start bytes) rs))"
    by (rule fragments_spaced [OF _ assms]) (use remove_one_ok(1) fit in blast)
  then show "spaced s (fst (RemoveUnlocked start bytes rs))" using assms by (simp add: RemoveUnlocked_def)
  have "attrs (concat (map (remove_one start bytes) rs)) a =
      Option.bind (attrs rs a) ((\<lambda>a v. if start \<le> a \<and> a < clamped_End start bytes then None else Some v) a)"
    by (rule fragments_attrs [OF _ assms]) (use remove_one_ok(2) fit in auto)
  then show "attrs (fst (RemoveUnlocked start bytes rs)) a = (if start \<le> a \<and> a < clamped_End start bytes then None else attrs rs a)"
    by (cases "attrs rs a") (auto simp: RemoveUnlocked_def clamped_End_def split: if_splits)
qed

lemma vr_Remove_ok:
  assumes ok: "ranges_ok rs" and rem: "vr_Remove start bytes rs = (rs', b)"
  shows "ranges_ok rs'"
    "attrs rs' a = (if start \<le> a \<and> a < clamped_End start bytes then None else attrs rs a)"
proof -
  note sp = ok [unfolded ranges_ok_def, THEN conjunct1] and mg = ok [unfolded ranges_ok_def, THEN conjunct2]
  obtain before rest where l: "LowerBound start rs = (before, rest)" by (cases "LowerBound start rs")
  note s = LowerBound_split [OF l sp]
  have "ranges_ok rs' \<and> attrs rs' a = (if start \<le> a \<and> a < clamped_End start bytes then None else attrs rs a)"
  proof (cases "rest \<noteq> [] \<and> vr_start (hd rest) = start \<and> vr_size (hd rest) = bytes")
    case True
    then obtain h t where h: "rest = h # t" "vr_start h = start" "vr_size h = bytes" by (cases rest) auto
    have spl: "spaced 1 (before @ h # t)" "merged (before @ h # t)" using sp mg s(1) h(1) by simp_all
    have "rs' = before @ t" using rem True h(1) by (simp add: vr_Remove_def l)
    moreover have "clamped_End start bytes = stop h"
      using spaced_mem [OF spl(1), of h] h by (simp add: clamped_End_fits)
    ultimately show ?thesis using spaced_removed [OF spl(1)] merged_removed [OF spl] h s(1) by (simp add: ranges_ok_def)
  next
    case False
    then have "rs' = MergeUnlocked (fst (RemoveUnlocked start bytes rs))"
      using rem by (auto simp: vr_Remove_def l split: prod.splits)
    then show ?thesis
      using MergeUnlocked_ok [OF RemoveUnlocked_ok(1) [OF sp]] RemoveUnlocked_ok(2) [OF sp] by (simp add: ranges_ok_def)
  qed
  then show "ranges_ok rs'" "attrs rs' a = (if start \<le> a \<and> a < clamped_End start bytes then None else attrs rs a)"
    by simp_all
qed

lemma EditUnlocked_ok:
  assumes ok: "ranges_ok rs" and ed: "edits edit ed"
  shows "ranges_ok (EditUnlocked start bytes edit rs)"
    "attrs (EditUnlocked start bytes edit rs) a
       = (if start \<le> a \<and> a < clamped_End start bytes then map_option ed (attrs rs a) else attrs rs a)"
proof -
  note sp = ok [unfolded ranges_ok_def, THEN conjunct1]
  have fit: "0 < vr_size r" "stop r \<le> UINT64_MAX" if "r \<in> set rs" for r using spaced_mem [OF sp that] by simp_all
  have c: "spaced 1 (concat (map (edit_one start bytes edit) rs))"
    by (rule fragments_spaced [OF _ sp]) (use edit_one_ok(1) fit ed in blast)
  show "ranges_ok (EditUnlocked start bytes edit rs)"
    using MergeUnlocked_ok [OF c] ok by (simp add: EditUnlocked_def ranges_ok_def)
  have "attrs (concat (map (edit_one start bytes edit) rs)) a =
      Option.bind (attrs rs a) ((\<lambda>a v. Some (if start \<le> a \<and> a < clamped_End start bytes then ed v else v)) a)"
    by (rule fragments_attrs [OF _ sp]) (use edit_one_ok(2) fit ed in auto)
  then show "attrs (EditUnlocked start bytes edit rs) a
      = (if start \<le> a \<and> a < clamped_End start bytes then map_option ed (attrs rs a) else attrs rs a)"
    using MergeUnlocked_ok(3) [OF c, of a]
    by (cases "attrs rs a") (auto simp: EditUnlocked_def clamped_End_def split: if_splits)
qed

lemma edits_fields:
  "edits (\<lambda>r. r\<lparr>vr_protection := p\<rparr>) (\<lambda>(t, p', m, d, n, x). (t, p, m, d, n, x))"
  "edits (\<lambda>r. r\<lparr>vr_memory_type := mt\<rparr>) (\<lambda>(t, p', m, d, n, x). (t, p', mt, d, n, x))"
  "edits (\<lambda>r. r\<lparr>vr_name := nm\<rparr>) (\<lambda>(t, p', m, d, n, x). (t, p', m, d, nm, x))"
  by (simp_all add: edits_def attr_def)

lemma vr_Rename_ok:
  assumes ok: "ranges_ok rs"
  shows "ranges_ok (vr_Rename start bytes name rs)"
    "attrs (vr_Rename start bytes name rs) a
       = (if start \<le> a \<and> a < clamped_End start bytes
          then map_option (\<lambda>(t, p, m, d, n, x). (t, p, m, d, CopyVirtualRangeName name, x)) (attrs rs a) else attrs rs a)"
proof -
  note sp = ok [unfolded ranges_ok_def, THEN conjunct1] and mg = ok [unfolded ranges_ok_def, THEN conjunct2]
  obtain before rest where l: "LowerBound start rs = (before, rest)" by (cases "LowerBound start rs")
  note s = LowerBound_split [OF l sp]
  let ?ed = "\<lambda>(t, p, m, d, n, x). (t, p, m, d, CopyVirtualRangeName name, x)"
  have "ranges_ok (vr_Rename start bytes name rs) \<and> attrs (vr_Rename start bytes name rs) a
      = (if start \<le> a \<and> a < clamped_End start bytes then map_option ?ed (attrs rs a) else attrs rs a)"
  proof (cases "rest \<noteq> [] \<and> vr_start (hd rest) = start \<and> vr_size (hd rest) = bytes")
    case True
    then obtain h t where h: "rest = h # t" "vr_start h = start" "vr_size h = bytes" by (cases rest) auto
    let ?h = "h\<lparr>vr_name := CopyVirtualRangeName name\<rparr>"
    have spl: "spaced 1 (before @ h # t)" "merged (before @ h # t)" using sp mg s(1) h(1) by simp_all
    have sp': "spaced 1 (before @ ?h # t)" using spl(1) by (simp add: spaced_append)
    have m: "merged before" "merged t" using spl(2) by (cases t; simp add: merged_append)+
    have rs': "vr_Rename start bytes name rs = MergeAroundUnlocked (length before) (before @ ?h # t)"
      using True h(1) by (simp add: vr_Rename_def l)
    have e: "clamped_End start bytes = stop h" using spaced_mem [OF spl(1), of h] h by (simp add: clamped_End_fits)
    have nb: "attrs before a = None" if "start \<le> a" using before_last [OF spl(1)] that spaced_append [of 1 before "h # t"] spl(1) h(2)
      by (force simp: attrs_None split: if_splits)
    have "attrs (before @ ?h # t) a
        = (if start \<le> a \<and> a < clamped_End start bytes then map_option ?ed (attrs rs a) else attrs rs a)"
      unfolding e using nb h by (auto simp: s(1) attrs_append attr_def split: option.split)
    then show ?thesis using MergeAround_ok [OF sp' m] by (simp add: rs' ranges_ok_def)
  next
    case False
    then have "vr_Rename start bytes name rs = EditUnlocked start bytes (\<lambda>r. r\<lparr>vr_name := CopyVirtualRangeName name\<rparr>) rs"
      by (auto simp: vr_Rename_def l)
    then show ?thesis using EditUnlocked_ok [OF ok edits_fields(3)] by simp
  qed
  then show "ranges_ok (vr_Rename start bytes name rs)"
    "attrs (vr_Rename start bytes name rs) a
      = (if start \<le> a \<and> a < clamped_End start bytes then map_option ?ed (attrs rs a) else attrs rs a)" by simp_all
qed

section \<open>Queries\<close>

abbreviation type_at :: "vrange list \<Rightarrow> nat \<Rightarrow> range_type option" where
  "type_at rs a \<equiv> map_option fst (attrs rs a)"

lemma type_at_Some:
  assumes "spaced s rs"
  shows "type_at rs a = Some t \<longleftrightarrow> (\<exists>r\<in>set rs. vr_start r \<le> a \<and> a < stop r \<and> vr_type r = t)"
proof
  assume "type_at rs a = Some t"
  then obtain v where "attrs rs a = Some v" "fst v = t" by (cases "attrs rs a") auto
  then show "\<exists>r\<in>set rs. vr_start r \<le> a \<and> a < stop r \<and> vr_type r = t" using attrs_Some [of rs a v] by (auto simp: attr_def)
qed (use attrs_mem [OF assms] in \<open>auto simp: attr_def\<close>)

lemma candidate_ok:
  assumes sp: "spaced s rs"
  shows "candidate type a rs = Some r \<longleftrightarrow> r \<in> set rs \<and> vr_start r \<le> a \<and> a < stop r \<and> vr_type r = type"
    "candidate type a rs = None \<longleftrightarrow> type_at rs a \<noteq> Some type"
proof -
  have e: "vr_end q = stop q" if "q \<in> set rs" for q using spaced_mem [OF sp that] by (simp add: clamped_End_fits)
  show n: "candidate type a rs = None \<longleftrightarrow> type_at rs a \<noteq> Some type"
    using e unfolding candidate_def find_None_iff type_at_Some [OF sp] by auto
  have s: "r \<in> set rs \<and> vr_start r \<le> a \<and> a < stop r \<and> vr_type r = type" if "candidate type a rs = Some r" for r
    using that e unfolding candidate_def find_Some_iff by (metis nth_mem)
  show "candidate type a rs = Some r \<longleftrightarrow> r \<in> set rs \<and> vr_start r \<le> a \<and> a < stop r \<and> vr_type r = type"
  proof
    assume r: "r \<in> set rs \<and> vr_start r \<le> a \<and> a < stop r \<and> vr_type r = type"
    then have "candidate type a rs \<noteq> None" unfolding n type_at_Some [OF sp] by auto
    then obtain q where q: "candidate type a rs = Some q" by blast
    then show "candidate type a rs = Some r" using s [OF q] r same_range [OF sp, of r q a] by simp
  qed (use s in simp)
qed

lemma span_of_type_ok:
  assumes sp: "spaced s rs"
  shows "span_of_type type current end1 rs \<longleftrightarrow> (\<forall>a. current \<le> a \<and> a < end1 \<longrightarrow> type_at rs a = Some type)"
  using sp
proof (induction type current end1 rs rule: span_of_type.induct)
  case (1 type current end1 rs)
  show ?case
  proof (cases "current < end1")
    case True
    show ?thesis
    proof (cases "candidate type current rs")
      case None
      then have "type_at rs current \<noteq> Some type" using candidate_ok(2) [OF 1(2)] by simp
      then show ?thesis using True None by (subst span_of_type.simps) auto
    next
      case (Some r)
      then have r: "r \<in> set rs" "vr_start r \<le> current" "current < stop r" "vr_type r = type"
        using candidate_ok(1) [OF 1(2)] by simp_all
      have e: "vr_end r = stop r" using spaced_mem [OF 1(2) r(1)] by (simp add: clamped_End_fits)
      have "type_at rs a = Some type" if "current \<le> a" "a < stop r" for a
        using type_at_Some [OF 1(2)] r that by force
      then have "(\<forall>a. current \<le> a \<and> a < end1 \<longrightarrow> type_at rs a = Some type) \<longleftrightarrow>
          (\<forall>a. min end1 (stop r) \<le> a \<and> a < end1 \<longrightarrow> type_at rs a = Some type)"
        using r(3) by (metis (no_types, lifting) leI less_imp_le order_trans min_le_iff_disj not_le)
      then show ?thesis using 1(1) [OF True Some 1(2)] True Some e by (subst span_of_type.simps) simp
    qed
  qed (subst span_of_type.simps, auto)
qed

lemma ConsumeReservedSpan_ok:
  assumes ok: "ranges_ok rs" and fit: "start + bytes \<le> UINT64_MAX" "bytes \<noteq> 0"
    and con: "ConsumeReservedSpan start bytes type rs = (rs', first, b)"
  shows "b \<longleftrightarrow> (\<forall>a. start \<le> a \<and> a < start + bytes \<longrightarrow> type_at rs a = Some type)"
    "ranges_ok rs'" "attrs rs' a = (if b \<and> start \<le> a \<and> a < start + bytes then None else attrs rs a)"
    "b \<Longrightarrow> \<exists>r. first = Some r \<and> r \<in> set rs \<and> vr_start r \<le> start \<and> start < stop r \<and> vr_type r = type"
proof -
  note sp = ok [unfolded ranges_ok_def, THEN conjunct1]
  note e = clamped_End_fits [OF fit(1)]
  note t = span_of_type_ok [OF sp, of type start "start + bytes"]
  have def: "(rs', first, b) = (let first_range = candidate type start rs
      in if \<not> span_of_type type start (start + bytes) rs then (rs, first_range, False)
         else (MergeUnlocked (fst (RemoveUnlocked start bytes rs)), first_range, True))"
    unfolding con [symmetric] using fit(2) by (simp add: ConsumeReservedSpan_def e)
  show "b \<longleftrightarrow> (\<forall>a. start \<le> a \<and> a < start + bytes \<longrightarrow> type_at rs a = Some type)"
    using def t by (auto simp: Let_def split: if_splits)
  show "ranges_ok rs'" "attrs rs' a = (if b \<and> start \<le> a \<and> a < start + bytes then None else attrs rs a)"
    using def ok MergeUnlocked_ok [OF RemoveUnlocked_ok(1) [OF sp]] RemoveUnlocked_ok(2) [OF sp, of start bytes]
    by (auto simp: Let_def ranges_ok_def e split: if_splits)
  assume b
  then have "type_at rs start = Some type" using def t fit(2) by (auto simp: Let_def split: if_splits)
  then have "candidate type start rs \<noteq> None" using candidate_ok(2) [OF sp] by simp
  then obtain r where r: "candidate type start rs = Some r" by blast
  then have "first = Some r" using def by (auto simp: Let_def split: if_splits)
  then show "\<exists>r. first = Some r \<and> r \<in> set rs \<and> vr_start r \<le> start \<and> start < stop r \<and> vr_type r = type"
    using r candidate_ok(1) [OF sp] by auto
qed

lemma vr_Query_ok:
  assumes sp: "spaced s rs"
  shows "vr_Query a 0 rs = Some r \<longleftrightarrow> r \<in> set rs \<and> vr_start r \<le> a \<and> a < stop r"
    "vr_Query a 0 rs = None \<longleftrightarrow> attrs rs a = None"
    "vr_Query a 1 rs = None \<longleftrightarrow> (\<forall>b\<ge>a. attrs rs b = None)"
    "vr_Query a 1 rs = Some r \<Longrightarrow> r \<in> set rs \<and> a < stop r \<and> (\<forall>b. a \<le> b \<and> b < vr_start r \<longrightarrow> attrs rs b = None)"
proof -
  obtain before rest where u: "UpperBound a rs = (before, rest)" by (cases "UpperBound a rs")
  note s = UpperBound_split [OF u sp]
  have e: "vr_end q = stop q" if "q \<in> set rs" for q using spaced_mem [OF sp that] by (simp add: clamped_End_fits)
  have lb: "r = last before" if "r \<in> set rs" "vr_start r \<le> a" "a < stop r" for r
  proof -
    have "r \<in> set before" using that s by auto
    moreover have "before \<noteq> []" using calculation by auto
    moreover have "stop r \<le> vr_start (last before)" if "r \<noteq> last before"
      by (rule before_last [of s before rest r]) (use sp s(1) that calculation in auto)
    moreover have "vr_start (last before) \<le> a" using s(2) calculation(2) by simp
    ultimately show ?thesis using that(3) by fastforce
  qed
  have at: "before \<noteq> [] \<and> a < vr_end (last before) \<longleftrightarrow> (\<exists>r\<in>set rs. vr_start r \<le> a \<and> a < stop r)"
  proof
    assume b: "before \<noteq> [] \<and> a < vr_end (last before)"
    then have "last before \<in> set rs" "vr_start (last before) \<le> a" using s by auto
    then show "\<exists>r\<in>set rs. vr_start r \<le> a \<and> a < stop r" using b e by auto
  next
    assume "\<exists>r\<in>set rs. vr_start r \<le> a \<and> a < stop r"
    then obtain r where r: "r \<in> set rs" "vr_start r \<le> a" "a < stop r" by blast
    then show "before \<noteq> [] \<and> a < vr_end (last before)" using lb [OF r] e [OF r(1)] s by fastforce
  qed
  have q: "vr_Query a f rs = (if before \<noteq> [] \<and> a < vr_end (last before) then Some (last before)
      else if f \<noteq> 1 \<or> rest = [] then None else Some (hd rest))" for f by (simp add: vr_Query_def u)
  have lm: "last before \<in> set rs \<and> vr_start (last before) \<le> a" if "before \<noteq> []" using that s by auto
  show "vr_Query a 0 rs = None \<longleftrightarrow> attrs rs a = None" unfolding q attrs_None using at by auto
  show "vr_Query a 0 rs = Some r \<longleftrightarrow> r \<in> set rs \<and> vr_start r \<le> a \<and> a < stop r"
    unfolding q using at lb lm e by (auto split: if_splits)
  have none: "attrs rs b = None" if "\<not> (before \<noteq> [] \<and> a < vr_end (last before))" "a \<le> b" "\<forall>h\<in>set rest. b < vr_start (hd rest)" for b
    unfolding attrs_None
  proof (intro ballI notI)
    fix r assume r: "r \<in> set rs" "vr_start r \<le> b \<and> b < stop r"
    show False
    proof (cases "vr_start r \<le> a")
      case True
      then show False using at that r by force
    next
      case False
      then have "r \<in> set rest" using r(1) s by auto
      moreover obtain h t where h: "rest = h # t" using calculation by (cases rest) auto
      moreover have "vr_start h \<le> vr_start r" using rest_first [of s before h t r] sp s(1) h calculation(1) by (cases "r = h") auto
      ultimately show False using that(3) r(2) by auto
    qed
  qed
  have hr: "hd rest \<in> set rs \<and> a < vr_start (hd rest)" if "rest \<noteq> []" using that s by auto
  show "vr_Query a 1 rs = None \<longleftrightarrow> (\<forall>b\<ge>a. attrs rs b = None)"
  proof
    assume "vr_Query a 1 rs = None"
    then have "\<not> (before \<noteq> [] \<and> a < vr_end (last before))" "rest = []" by (auto simp: q split: if_splits)
    then show "\<forall>b\<ge>a. attrs rs b = None" using none by simp
  next
    assume n: "\<forall>b\<ge>a. attrs rs b = None"
    then have "\<not> (before \<noteq> [] \<and> a < vr_end (last before))" using at by (auto simp: attrs_None)
    moreover have "rest = []"
    proof (rule ccontr)
      assume "rest \<noteq> []"
      then have h: "hd rest \<in> set rs" "a < vr_start (hd rest)" using hr by simp_all
      then have "attrs rs (vr_start (hd rest)) = Some (attr (hd rest) (vr_start (hd rest)))"
        using attrs_mem [OF sp h(1)] spaced_mem [OF sp h(1)] by simp
      then show False using n h(2) by simp
    qed
    ultimately show "vr_Query a 1 rs = None" by (simp add: q)
  qed
  show "r \<in> set rs \<and> a < stop r \<and> (\<forall>b. a \<le> b \<and> b < vr_start r \<longrightarrow> attrs rs b = None)" if "vr_Query a 1 rs = Some r"
  proof (cases "before \<noteq> [] \<and> a < vr_end (last before)")
    case True
    then show ?thesis using that lm e by (auto simp: q)
  next
    case False
    then have "r = hd rest" "rest \<noteq> []" using that by (auto simp: q split: if_splits)
    then show ?thesis using hr none [OF False] spaced_mem [OF sp, of "hd rest"] by auto
  qed
qed

text \<open>The parts \<open>QuerySpan\<close> returns are the span, cut at the bounds of the ranges.\<close>

definition part_of :: "vrange \<Rightarrow> vrange \<Rightarrow> bool" where
  "part_of p r \<longleftrightarrow> vr_start r \<le> vr_start p \<and> stop p \<le> stop r \<and> (\<forall>a\<ge>vr_start p. attr p a = attr r a)"

definition span_parts :: "nat \<Rightarrow> nat \<Rightarrow> vrange list \<Rightarrow> vrange list \<Rightarrow> bool" where
  "span_parts current end1 rs ps \<longleftrightarrow>
     spaced current ps \<and> (\<forall>a. attrs ps a = (if current \<le> a \<and> a < end1 then attrs rs a else None)) \<and>
     (\<forall>a. current \<le> a \<and> a < end1 \<longrightarrow> attrs rs a \<noteq> None) \<and> (\<forall>p\<in>set ps. \<exists>r\<in>set rs. part_of p r)"

lemma query_span_ok:
  assumes "spaced s rs" "current < end1" "end1 \<le> UINT64_MAX"
  shows "case query_span end1 current rs of
      None \<Rightarrow> \<exists>a. current \<le> a \<and> a < end1 \<and> attrs rs a = None
    | Some ps \<Rightarrow> span_parts current end1 rs ps"
  using assms
proof (induction rs arbitrary: s current)
  case (Cons r rs)
  have sp: "spaced (stop r) rs" "0 < vr_size r" "stop r \<le> UINT64_MAX" using Cons.prems(1) by simp_all
  have e: "vr_end r = stop r" using sp by (simp add: clamped_End_fits)
  consider "stop r \<le> current" | "current < stop r" "current < vr_start r" | "vr_start r \<le> current" "current < stop r" by linarith
  then show ?case
  proof cases
    case 1
    have q: "query_span end1 current (r # rs) = query_span end1 current rs" using 1 e by simp
    have at: "attrs (r # rs) a = attrs rs a" if "current \<le> a" for a using that 1 by simp
    note ih = Cons.IH [OF sp(1) Cons.prems(2,3)]
    show ?thesis
    proof (cases "query_span end1 current rs")
      case None
      then obtain a where "current \<le> a" "a < end1" "attrs rs a = None" using ih by auto
      then have "\<exists>a. current \<le> a \<and> a < end1 \<and> attrs (r # rs) a = None" using at by metis
      then show ?thesis by (simp only: q None option.case)
    next
      case (Some ps)
      then have "span_parts current end1 rs ps" using ih by simp
      then have "span_parts current end1 (r # rs) ps" using at by (auto simp: span_parts_def)
      then show ?thesis by (simp only: q Some option.case)
    qed
  next
    case 2
    then have "attrs (r # rs) current = None" using attrs_below [OF sp(1), of current] by simp
    then have "\<exists>a. current \<le> a \<and> a < end1 \<and> attrs (r # rs) a = None" using Cons.prems(2) by blast
    moreover have "query_span end1 current (r # rs) = None" using 2 e by simp
    ultimately show ?thesis by (simp only: option.case)
  next
    case p: 3
    let ?part = "r\<lparr>vr_start := current, vr_size := min end1 (stop r) - current,
        vr_offset := (if vr_type r = Direct then vr_offset r + (current - vr_start r) else vr_offset r)\<rparr>"
    have pt: "part_of ?part r" using p by (auto simp: part_of_def attr_def)
    have pa: "attr ?part a = attr r a" if "current \<le> a" for a using pt that by (simp add: part_of_def)
    show ?thesis
    proof (cases "end1 \<le> stop r")
      case True
      then have "query_span end1 current (r # rs) = Some [?part]" using p e Cons.prems(2) by (simp add: Let_def min_def)
      then show ?thesis using True p pa Cons.prems(2,3) pt by (auto simp: span_parts_def min_def)
    next
      case False
      then have lt: "stop r < end1" by simp
      have q: "query_span end1 current (r # rs) = map_option (\<lambda>ps. ?part # ps) (query_span end1 (stop r) rs)"
        using p e lt by (simp add: Let_def min_def)
      note ih = Cons.IH [OF sp(1) lt Cons.prems(3)]
      show ?thesis
      proof (cases "query_span end1 (stop r) rs")
        case None
        then obtain a where "stop r \<le> a" "a < end1" "attrs rs a = None" using ih by auto
        then have "current \<le> a \<and> a < end1 \<and> attrs (r # rs) a = None" using p by simp
        then have "\<exists>a. current \<le> a \<and> a < end1 \<and> attrs (r # rs) a = None" by blast
        then show ?thesis by (simp only: q None option.map option.case)
      next
        case (Some qs)
        have i: "spaced (stop r) qs" "\<And>a. attrs qs a = (if stop r \<le> a \<and> a < end1 then attrs rs a else None)"
          "\<And>a. stop r \<le> a \<and> a < end1 \<Longrightarrow> attrs rs a \<noteq> None" "\<forall>p\<in>set qs. \<exists>r\<in>set rs. part_of p r"
          using ih Some by (simp_all add: span_parts_def)
        have z: "stop ?part = stop r" using lt p by (simp add: min_def)
        have "spaced current (?part # qs)" unfolding spaced.simps z using i(1) p sp(3) lt by simp
        moreover have "attrs (?part # qs) a = (if current \<le> a \<and> a < end1 then attrs (r # rs) a else None)" for a
          unfolding attrs.simps z using i(2) [of a] p lt pa [of a] by auto
        moreover have "attrs (r # rs) a \<noteq> None" if "current \<le> a \<and> a < end1" for a
          using i(3) [of a] that p by (cases "a < stop r") simp_all
        ultimately have "span_parts current end1 (r # rs) (?part # qs)"
          unfolding span_parts_def using i(4) pt by auto
        then show ?thesis by (simp only: q Some option.map option.case)
      qed
    qed
  qed
qed auto

definition committed_at :: "vrange list \<Rightarrow> nat \<Rightarrow> bool" where
  "committed_at rs a \<longleftrightarrow> (\<exists>t. type_at rs a = Some t \<and> IsCommittedRangeType t)"

lemma committed_at_Cons:
  "committed_at (r # rs) a \<longleftrightarrow> (if vr_start r \<le> a \<and> a < stop r then IsCommittedRangeType (vr_type r) else committed_at rs a)"
  by (simp add: committed_at_def attr_def)

lemma clamp_loop_full: "bytes \<le> c \<Longrightarrow> clamp_loop bytes c e rs = c"
  by (cases rs) auto

lemma clamp_loop_ok:
  assumes "spaced e rs" "c \<le> bytes"
  shows "c \<le> clamp_loop bytes c e rs \<and> clamp_loop bytes c e rs \<le> bytes \<and>
     (\<forall>a. e \<le> a \<and> a < e + (clamp_loop bytes c e rs - c) \<longrightarrow> committed_at rs a) \<and>
     (clamp_loop bytes c e rs < bytes \<longrightarrow> \<not> committed_at rs (e + (clamp_loop bytes c e rs - c)))"
  using assms
proof (induction bytes c e rs rule: clamp_loop.induct)
  case (1 bytes c e)
  then show ?case by (simp add: committed_at_def)
next
  case (2 bytes c e r rs)
  show ?case
  proof (cases "vr_start r = e \<and> IsCommittedRangeType (vr_type r) \<and> c < bytes")
    case True
    show ?thesis
    proof (cases "vr_size r \<le> bytes - c")
      case s: True
      then have m: "min (bytes - c) (vr_size r) = vr_size r" by simp
      have le: "c + vr_size r \<le> bytes" using s True by linarith
      have st: "vr_start r = e" using True by simp
      have prem: "spaced (e + vr_size r) rs" using 2(2) st by simp
      define X where "X = clamp_loop bytes (c + vr_size r) (e + vr_size r) rs"
      have res: "clamp_loop bytes c e (r # rs) = X" using True m by (simp add: X_def Let_def)
      have X: "c + vr_size r \<le> X" "X \<le> bytes"
          "\<And>a. e + vr_size r \<le> a \<Longrightarrow> a < e + vr_size r + (X - (c + vr_size r)) \<Longrightarrow> committed_at rs a"
          "X < bytes \<Longrightarrow> \<not> committed_at rs (e + vr_size r + (X - (c + vr_size r)))"
        using 2(1) [OF True m [symmetric] prem le] unfolding X_def by blast+
      have eq: "e + (X - c) = e + vr_size r + (X - (c + vr_size r))" using X(1) by simp
      show ?thesis unfolding res
      proof (intro conjI allI impI)
        fix a assume "e \<le> a \<and> a < e + (X - c)"
        then show "committed_at (r # rs) a" unfolding eq using X(3) [of a] True by (auto simp: committed_at_Cons)
      next
        assume "X < bytes"
        then show "\<not> committed_at (r # rs) (e + (X - c))" unfolding eq using X(4) st by (simp add: committed_at_Cons)
      qed (use X in auto)
    next
      case False
      then have m: "min (bytes - c) (vr_size r) = bytes - c" by simp
      then show ?thesis using True False by (auto simp: clamp_loop_full committed_at_Cons)
    qed
  next
    case False
    then have res: "clamp_loop bytes c e (r # rs) = c" by auto
    have "\<not> committed_at (r # rs) e" if "c < bytes"
    proof (cases "vr_start r = e")
      case True
      then show ?thesis using False that 2(2) by (simp add: committed_at_Cons)
    next
      case ne: False
      then have "e < vr_start r" "e < stop r" using 2(2) by simp_all
      then show ?thesis using attrs_below [of "stop r" rs e] 2(2) by (simp add: committed_at_def)
    qed
    then show ?thesis using 2(3) unfolding res by auto
  qed
qed

section \<open>Properties\<close>

text \<open>
  C8: On any well-formed list of ranges, \<open>Add\<close> succeeds exactly when the new range is nonempty, does not start at
  null and every address of it is free, and then gives exactly its addresses the new attributes; \<open>Remove\<close>,
  \<open>Rename\<close>, \<open>Protect\<close> and \<open>SetMemoryType\<close> change exactly the addresses of their range, direct ranges keeping the
  physical address of each byte however they are cut; and each leaves nonempty disjoint ranges in order of which no
  two neighbours could be merged.
\<close>

theorem ranges_refine_addresses:
  assumes ok: "ranges_ok rs" and fit: "start + bytes \<le> UINT64_MAX"
  shows "(case vr_Add start bytes offset prot mt type name dm rs of (rs', b) \<Rightarrow>
       ranges_ok rs' \<and>
       (b \<longleftrightarrow> start \<noteq> 0 \<and> bytes \<noteq> 0 \<and> (\<forall>a. start \<le> a \<and> a < start + bytes \<longrightarrow> attrs rs a = None)) \<and>
       (\<forall>a. attrs rs' a = (if b \<and> start \<le> a \<and> a < start + bytes
          then Some (type, prot, mt, dm, CopyVirtualRangeName name, if type = Direct then offset + (a - start) else 0)
          else attrs rs a))) \<and>
    ranges_ok (fst (vr_Remove start bytes rs)) \<and>
    (\<forall>a. attrs (fst (vr_Remove start bytes rs)) a = (if start \<le> a \<and> a < start + bytes then None else attrs rs a)) \<and>
    ranges_ok (vr_Rename start bytes name rs) \<and>
    (\<forall>a. attrs (vr_Rename start bytes name rs) a = (if start \<le> a \<and> a < start + bytes
       then map_option (\<lambda>(t, p, m, d, n, x). (t, p, m, d, CopyVirtualRangeName name, x)) (attrs rs a) else attrs rs a)) \<and>
    ranges_ok (vr_Protect start bytes prot rs) \<and>
    (\<forall>a. attrs (vr_Protect start bytes prot rs) a = (if start \<le> a \<and> a < start + bytes
       then map_option (\<lambda>(t, p, m, d, n, x). (t, prot, m, d, n, x)) (attrs rs a) else attrs rs a)) \<and>
    ranges_ok (vr_SetMemoryType start bytes mt rs) \<and>
    (\<forall>a. attrs (vr_SetMemoryType start bytes mt rs) a = (if start \<le> a \<and> a < start + bytes
       then map_option (\<lambda>(t, p, m, d, n, x). (t, p, mt, d, n, x)) (attrs rs a) else attrs rs a))"
proof -
  note e = clamped_End_fits [OF fit]
  note add = vr_Add_ok [OF ok fit, of offset prot mt type name dm]
  have A: "case vr_Add start bytes offset prot mt type name dm rs of (rs', b) \<Rightarrow>
       ranges_ok rs' \<and>
       (b \<longleftrightarrow> start \<noteq> 0 \<and> bytes \<noteq> 0 \<and> (\<forall>a. start \<le> a \<and> a < start + bytes \<longrightarrow> attrs rs a = None)) \<and>
       (\<forall>a. attrs rs' a = (if b \<and> start \<le> a \<and> a < start + bytes
          then Some (type, prot, mt, dm, CopyVirtualRangeName name, if type = Direct then offset + (a - start) else 0)
          else attrs rs a))"
    by (cases "vr_Add start bytes offset prot mt type name dm rs") (use add in \<open>simp only: prod.case, blast\<close>)
  show ?thesis
    using A vr_Remove_ok [OF ok, where start = start and bytes = bytes, OF surjective_pairing]
      vr_Rename_ok [OF ok, of start bytes name]
      EditUnlocked_ok [OF ok edits_fields(1), of start bytes prot]
      EditUnlocked_ok [OF ok edits_fields(2), of start bytes mt]
    unfolding e vr_Protect_def vr_SetMemoryType_def by blast
qed

lemma QuerySpan_ok:
  assumes "spaced s rs"
  shows "case QuerySpan a bytes rs of
      None \<Rightarrow> a = 0 \<or> bytes = 0 \<or> bytes > UINT64_MAX - a \<or> (\<exists>b. a \<le> b \<and> b < a + bytes \<and> attrs rs b = None)
    | Some ps \<Rightarrow> a \<noteq> 0 \<and> bytes \<noteq> 0 \<and> bytes \<le> UINT64_MAX - a \<and> span_parts a (a + bytes) rs ps"
proof (cases "a = 0 \<or> bytes = 0 \<or> bytes > UINT64_MAX - a")
  case False
  then have "a < a + bytes" "a + bytes \<le> UINT64_MAX" by auto
  from query_span_ok [OF assms this] False show ?thesis
    by (cases "query_span (a + bytes) a rs") (auto simp: QuerySpan_def)
qed (auto simp: QuerySpan_def)

lemma vr_ClampRangeSize_ok:
  assumes sp: "spaced s rs" and a: "\<not> (a = 0 \<or> bytes = 0 \<or> bytes > UINT64_MAX - a)"
  defines "n \<equiv> vr_ClampRangeSize a bytes rs"
  shows "n \<le> bytes" "a \<le> b \<Longrightarrow> b < a + n \<Longrightarrow> committed_at rs b" "n < bytes \<Longrightarrow> \<not> committed_at rs (a + n)"
proof -
  obtain before rest where u: "UpperBound a rs = (before, rest)" by (cases "UpperBound a rs")
  note s = UpperBound_split [OF u sp]
  have res: "n = (if before = [] then 0
      else let vma = last before
           in if a < vr_start vma \<or> a \<ge> vr_end vma \<or> \<not> IsCommittedRangeType (vr_type vma) then 0
              else let clamped_size = min bytes (vr_end vma - a)
                   in clamp_loop bytes clamped_size (a + clamped_size) rest)"
    using a by (simp add: n_def vr_ClampRangeSize_def u)
  have found: "vr_Query a 0 rs = (if before \<noteq> [] \<and> a < vr_end (last before) then Some (last before) else None)"
    by (simp add: vr_Query_def u)
  show "n \<le> bytes" "a \<le> b \<Longrightarrow> b < a + n \<Longrightarrow> committed_at rs b" "n < bytes \<Longrightarrow> \<not> committed_at rs (a + n)"
  proof -
    have all: "n \<le> bytes \<and> (\<forall>b. a \<le> b \<and> b < a + n \<longrightarrow> committed_at rs b) \<and> (n < bytes \<longrightarrow> \<not> committed_at rs (a + n))"
    proof (cases "vr_Query a 0 rs")
      case None
      then have "\<not> committed_at rs a" using vr_Query_ok(2) [OF sp, of a] by (simp add: committed_at_def)
      moreover have "n = 0" using None found by (auto simp: res split: if_splits)
      ultimately show ?thesis by auto
    next
      case (Some r)
      then have r: "r \<in> set rs" "vr_start r \<le> a" "a < stop r" using vr_Query_ok(1) [OF sp] by simp_all
      have b: "before \<noteq> []" "r = last before" using Some found by (auto split: if_splits)
      have e: "vr_end r = stop r" using spaced_mem [OF sp r(1)] by (simp add: clamped_End_fits)
      have at: "committed_at rs x = IsCommittedRangeType (vr_type r)" if "vr_start r \<le> x" "x < stop r" for x
        using attrs_mem [OF sp r(1) that] by (simp add: committed_at_def attr_def)
      show ?thesis
      proof (cases "IsCommittedRangeType (vr_type r)")
        case False
        then have "n = 0" using b by (simp add: res)
        then show ?thesis using at [OF r(2,3)] False by auto
      next
        case c: True
        have n: "n = clamp_loop bytes (min bytes (stop r - a)) (a + min bytes (stop r - a)) rest"
          using b c r e by (simp add: res Let_def)
        show ?thesis
        proof (cases "bytes \<le> stop r - a")
          case True
          then have "n = bytes" by (simp add: n clamp_loop_full)
          then show ?thesis using at c True r by auto
        next
          case False
          then have m: "min bytes (stop r - a) = stop r - a" "a + (stop r - a) = stop r" using r(3) by simp_all
          define X where "X = clamp_loop bytes (stop r - a) (stop r) rest"
          have nX: "n = X" using n m by (simp add: X_def)
          obtain bs where bs: "before = bs @ [r]" using b by (metis append_butlast_last_id)
          have spr: "spaced (stop r) rest" using sp s(1) bs by (simp add: spaced_append)
          have X: "stop r - a \<le> X" "X \<le> bytes"
              "\<And>x. stop r \<le> x \<Longrightarrow> x < stop r + (X - (stop r - a)) \<Longrightarrow> committed_at rest x"
              "X < bytes \<Longrightarrow> \<not> committed_at rest (stop r + (X - (stop r - a)))"
            using clamp_loop_ok [OF spr, of "stop r - a" bytes] False unfolding X_def by auto
          have eq: "a + X = stop r + (X - (stop r - a))" using X(1) r(3) by simp
          have above: "committed_at rs x = committed_at rest x" if "stop r \<le> x" for x
          proof -
            have "stop q \<le> stop r" if "q \<in> set before" for q
              using before_last [of s before rest q] sp s(1) that b by (cases "q = r") auto
            then have "attrs before x = None" using that by (force simp: attrs_None)
            then show ?thesis by (simp add: committed_at_def s(1) attrs_append)
          qed
          show ?thesis unfolding nX
          proof (intro conjI allI impI)
            fix x assume x: "a \<le> x \<and> x < a + X"
            show "committed_at rs x"
            proof (cases "x < stop r")
              case True
              then show ?thesis using at c x r(2) by simp
            next
              case False
              then show ?thesis using X(3) [of x] above [of x] x eq by simp
            qed
          next
            assume "X < bytes"
            then show "\<not> committed_at rs (a + X)" unfolding eq using X(4) above by simp
          qed (rule X(2))
        qed
      qed
    qed
    then show "n \<le> bytes" "a \<le> b \<Longrightarrow> b < a + n \<Longrightarrow> committed_at rs b" "n < bytes \<Longrightarrow> \<not> committed_at rs (a + n)" by blast+
  qed
qed

definition sample_ranges :: "vrange list" where
  "sample_ranges =
     [\<lparr>vr_start = 0x4000, vr_size = 0x8000, vr_offset = 0, vr_protection = 0x3, vr_memory_type = 0, vr_type = Flexible,
        vr_disallow_merge = False, vr_name = ''heap''\<rparr>,
      \<lparr>vr_start = 0x10000, vr_size = 0x8000, vr_offset = 0x100000, vr_protection = 0x33, vr_memory_type = 3, vr_type = Direct,
        vr_disallow_merge = False, vr_name = ''gpu''\<rparr>]"

lemma sample_ranges_ok: "ranges_ok sample_ranges"
  by (simp add: sample_ranges_def ranges_ok_def mergeable_def clamped_End_def UINT64_MAX_def)

lemma ranges_refine_addresses_witness:
  "attrs (vr_Protect 0x14000 0x2000 0x13 sample_ranges) 0x15000 = Some (Direct, 0x13, 3, False, ''gpu'', 0x105000) \<and>
   attrs (vr_Protect 0x14000 0x2000 0x13 sample_ranges) 0x17000 = Some (Direct, 0x33, 3, False, ''gpu'', 0x107000)"
proof -
  have fit: "0x14000 + 0x2000 \<le> UINT64_MAX" by (simp add: UINT64_MAX_def)
  have "\<forall>a. attrs (vr_Protect 0x14000 0x2000 0x13 sample_ranges) a = (if 0x14000 \<le> a \<and> a < 0x14000 + 0x2000
       then map_option (\<lambda>(t, p, m, d, n, x). (t, 0x13, m, d, n, x)) (attrs sample_ranges a) else attrs sample_ranges a)"
    using ranges_refine_addresses [OF sample_ranges_ok fit, where prot = "0x13"] by blast
  then show ?thesis by (simp add: sample_ranges_def attr_def)
qed

text \<open>
  C15: A query finds the range that holds the address, with the flag the first one that ends after it; a span query
  succeeds exactly when every address of the span is mapped and returns it cut at the ranges' bounds, with the
  attributes of each address unchanged; and \<open>ClampRangeSize\<close> is the largest size, up to the one asked for, of
  committed memory from the address on. \<open>HasOverlap\<close> holds exactly when an address of the queried range, cut at
  the end of the address space, is mapped; \<open>QueryOverlap\<close> then gives the first range that starts in the queried
  addresses if there is one, else the one that reaches into them, and nothing otherwise.
\<close>

theorem ranges_queries_exact:
  assumes ok: "ranges_ok rs"
  shows "(\<forall>r. vr_Query a 0 rs = Some r \<longleftrightarrow> r \<in> set rs \<and> vr_start r \<le> a \<and> a < stop r) \<and>
    (vr_Query a 1 rs = None \<longleftrightarrow> (\<forall>b\<ge>a. attrs rs b = None)) \<and>
    (\<forall>r. vr_Query a 1 rs = Some r \<longrightarrow>
       r \<in> set rs \<and> a < stop r \<and> (\<forall>b. a \<le> b \<and> b < vr_start r \<longrightarrow> attrs rs b = None)) \<and>
    (case QuerySpan a bytes rs of
       None \<Rightarrow> a = 0 \<or> bytes = 0 \<or> bytes > UINT64_MAX - a \<or> (\<exists>b. a \<le> b \<and> b < a + bytes \<and> attrs rs b = None)
     | Some ps \<Rightarrow> a \<noteq> 0 \<and> bytes \<noteq> 0 \<and> bytes \<le> UINT64_MAX - a \<and> span_parts a (a + bytes) rs ps) \<and>
    (if a = 0 \<or> bytes = 0 \<or> bytes > UINT64_MAX - a then vr_ClampRangeSize a bytes rs = 0
     else vr_ClampRangeSize a bytes rs \<le> bytes \<and>
       (\<forall>b. a \<le> b \<and> b < a + vr_ClampRangeSize a bytes rs \<longrightarrow> committed_at rs b) \<and>
       (vr_ClampRangeSize a bytes rs < bytes \<longrightarrow> \<not> committed_at rs (a + vr_ClampRangeSize a bytes rs))) \<and>
    (HasOverlap a bytes rs \<longleftrightarrow> (\<exists>b. a \<le> b \<and> b < clamped_End a bytes \<and> attrs rs b \<noteq> None)) \<and>
    (case QueryOverlap a bytes rs of
       None \<Rightarrow> \<forall>b. a \<le> b \<and> b < clamped_End a bytes \<longrightarrow> attrs rs b = None
     | Some r \<Rightarrow> r \<in> set rs \<and> a < stop r \<and> vr_start r < clamped_End a bytes \<and>
         (\<forall>q\<in>set rs. a \<le> vr_start q \<and> vr_start q < clamped_End a bytes \<longrightarrow>
            a \<le> vr_start r \<and> vr_start r \<le> vr_start q))"
proof -
  note sp = ok [unfolded ranges_ok_def, THEN conjunct1]
  have C: "if a = 0 \<or> bytes = 0 \<or> bytes > UINT64_MAX - a then vr_ClampRangeSize a bytes rs = 0
     else vr_ClampRangeSize a bytes rs \<le> bytes \<and>
       (\<forall>b. a \<le> b \<and> b < a + vr_ClampRangeSize a bytes rs \<longrightarrow> committed_at rs b) \<and>
       (vr_ClampRangeSize a bytes rs < bytes \<longrightarrow> \<not> committed_at rs (a + vr_ClampRangeSize a bytes rs))"
  proof (cases "a = 0 \<or> bytes = 0 \<or> bytes > UINT64_MAX - a")
    case False
    show ?thesis unfolding if_not_P [OF False] using vr_ClampRangeSize_ok [OF sp False] by blast
  qed (simp add: vr_ClampRangeSize_def)
  have none: "FindOverlap a bytes rs = None \<longleftrightarrow> (\<forall>b. a \<le> b \<and> b < clamped_End a bytes \<longrightarrow> attrs rs b = None)"
    using FindOverlap_iff(1) [OF sp] no_overlap_clamped [OF sp] by simp
  have Q: "case QueryOverlap a bytes rs of
       None \<Rightarrow> \<forall>b. a \<le> b \<and> b < clamped_End a bytes \<longrightarrow> attrs rs b = None
     | Some r \<Rightarrow> r \<in> set rs \<and> a < stop r \<and> vr_start r < clamped_End a bytes \<and>
         (\<forall>q\<in>set rs. a \<le> vr_start q \<and> vr_start q < clamped_End a bytes \<longrightarrow>
            a \<le> vr_start r \<and> vr_start r \<le> vr_start q)"
    using none FindOverlap_first [OF sp, of a bytes] by (cases "FindOverlap a bytes rs") (simp_all add: QueryOverlap_def)
  have H: "HasOverlap a bytes rs \<longleftrightarrow> (\<exists>b. a \<le> b \<and> b < clamped_End a bytes \<and> attrs rs b \<noteq> None)"
    by (simp add: HasOverlap_def none conj_assoc)
  have V: "\<forall>r. vr_Query a 1 rs = Some r \<longrightarrow>
      r \<in> set rs \<and> a < stop r \<and> (\<forall>b. a \<le> b \<and> b < vr_start r \<longrightarrow> attrs rs b = None)"
    by (intro allI impI) (rule vr_Query_ok(4) [OF sp])
  show ?thesis
    by (rule conjI, rule allI, rule vr_Query_ok(1) [OF sp])
      (intro conjI vr_Query_ok(3) [OF sp] V QuerySpan_ok [OF sp] C H Q)
qed

lemma ranges_queries_exact_witness:
  "vr_ClampRangeSize 0x8000 0x10000 sample_ranges = 0x4000"
proof -
  define n where "n = vr_ClampRangeSize 0x8000 0x10000 sample_ranges"
  have g: "\<not> ((0x8000 :: nat) = 0 \<or> (0x10000 :: nat) = 0 \<or> 0x10000 > UINT64_MAX - 0x8000)" by (simp add: UINT64_MAX_def)
  note q = ranges_queries_exact [OF sample_ranges_ok, of "0x8000" "0x10000", THEN conjunct2, THEN conjunct2, THEN conjunct2,
      THEN conjunct2, THEN conjunct1, unfolded if_not_P [OF g], folded n_def]
  have n: "\<forall>b. 0x8000 \<le> b \<and> b < 0x8000 + n \<longrightarrow> committed_at sample_ranges b"
      "n < 0x10000 \<longrightarrow> \<not> committed_at sample_ranges (0x8000 + n)"
    using q by blast+
  have c: "committed_at sample_ranges b" if "0x8000 \<le> b" "b < 0xc000" for b
    using that by (simp add: committed_at_def sample_ranges_def attr_def IsCommittedRangeType_def IsReservedRangeType_def)
  have "\<not> committed_at sample_ranges 0xc000" by (simp add: committed_at_def sample_ranges_def)
  then have "n \<le> 0x4000" using n(1) [rule_format, of "0xc000"] by (cases "n \<le> 0x4000") auto
  moreover have "\<not> n < 0x4000" using n(2) c [of "0x8000 + n"] by auto
  ultimately show ?thesis unfolding n_def by simp
qed

end
