(* ===== verification/FreeRanges.thy ===== *)
theory FreeRanges
  imports RangeSet
begin

text \<open>
  The free lists of src/src/kernel/memory.cpp: the \<open>std::map\<close> from the start of a free range to its size that
  \<open>PhysicalMemory\<close> and \<open>FlexibleMemory\<close> both keep, with the two functions each has for it. The map is the list of its
  entries in key order; an iterator is the entries before the one it points at, that one, and those after it.
\<close>

type_synonym free_map = "(nat \<times> nat) list"

definition ConsumeFreeRange :: "free_map \<Rightarrow> nat \<times> nat \<Rightarrow> free_map \<Rightarrow> nat \<Rightarrow> nat \<Rightarrow> free_map" where
  "ConsumeFreeRange before entry after start bytes =
     (let range_start = fst entry; range_end = fst entry + snd entry;
          m = before @ after;
          m = (if range_start < start then emplace range_start (start - range_start) m else m)
      in if start + bytes < range_end then emplace (start + bytes) (range_end - start - bytes) m else m)"

fun absorb_free :: "nat \<Rightarrow> free_map \<Rightarrow> nat \<times> free_map" where
  "absorb_free end1 [] = (end1, [])"
| "absorb_free end1 ((a, n) # m) = (if a \<le> end1 then absorb_free (max end1 (a + n)) m else (end1, (a, n) # m))"

definition AddFreeRange :: "nat \<Rightarrow> nat \<Rightarrow> free_map \<Rightarrow> free_map" where
  "AddFreeRange start bytes m =
     (let end1 = start + bytes;
          (before, next1) = lower_bound start m;
          (start, end1, before) =
            (if before \<noteq> [] \<and> fst (last before) + snd (last before) \<ge> start
             then (fst (last before), max end1 (fst (last before) + snd (last before)), butlast before)
             else (start, end1, before));
          (end1, next1) = absorb_free end1 next1
      in emplace start (end1 - start) (before @ next1))"

section \<open>The set of free bytes\<close>

definition free_ok :: "free_map \<Rightarrow> bool" where
  "free_ok m \<longleftrightarrow> separated 0 (pieces m)"

definition free_bytes :: "free_map \<Rightarrow> nat set" where
  "free_bytes m = covered (pieces m)"

lemma free_bytes_simps [simp]:
  "free_bytes [] = {}" "free_bytes ((a, n) # m) = {a..<a + n} \<union> free_bytes m" "free_bytes (xs @ ys) = free_bytes xs \<union> free_bytes ys"
  by (simp_all add: free_bytes_def)

lemma free_bytes_iff: "x \<in> free_bytes m \<longleftrightarrow> (\<exists>r\<in>set m. fst r \<le> x \<and> x < fst r + snd r)"
proof (induction m)
  case (Cons r m)
  then show ?case by (cases r) auto
qed simp

lemma pieces_mem: "r \<in> set m \<Longrightarrow> (fst r, fst r + snd r) \<in> set (pieces m)"
  using imageI [of r "set m" "\<lambda>(a, n). (a, a + n)"] by (simp add: case_prod_beta)

lemma emplace_mid:
  "\<forall>r\<in>set xs. fst r < k \<Longrightarrow> ys = [] \<or> k < fst (hd ys) \<Longrightarrow> emplace k v (xs @ ys) = xs @ (k, v) # ys"
proof (induction xs)
  case Nil
  then show ?case by (cases ys) auto
qed auto

lemma emplace_pieces: "k \<le> l \<Longrightarrow> pieces (emplace k (l - k) m) = emplace k l (pieces m)"
  by (induction m) auto

lemma pieces_takeWhile: "takeWhile (\<lambda>r. fst r < k) (pieces m) = pieces (takeWhile (\<lambda>r. fst r < k) m)"
  by (induction m) auto

lemma pieces_dropWhile: "dropWhile (\<lambda>r. fst r < k) (pieces m) = pieces (dropWhile (\<lambda>r. fst r < k) m)"
  by (induction m) auto

lemma absorb_pieces:
  "\<forall>r\<in>set m. p \<le> fst r \<Longrightarrow> absorb p e (pieces m) = (p, fst (absorb_free e m), pieces (snd (absorb_free e m)))"
  by (induction e m rule: absorb_free.induct) auto

lemma absorb_free_grows: "e \<le> fst (absorb_free e m)"
  by (induction e m rule: absorb_free.induct) (auto intro: order_trans)

text \<open>\<open>AddFreeRange\<close> is the \<open>Add\<close> of the range sets, on sizes instead of ends.\<close>

lemma free_ok_sorted: "free_ok m \<Longrightarrow> sorted (map fst m)"
proof -
  have "separated s (pieces m) \<Longrightarrow> sorted (map fst m) \<and> (\<forall>r\<in>set m. s \<le> fst r)" for s
  proof (induction m arbitrary: s)
    case (Cons r m)
    then show ?case by (cases r) fastforce
  qed simp
  then show "free_ok m \<Longrightarrow> sorted (map fst m)" unfolding free_ok_def by blast
qed

lemma AddFreeRange_Add:
  assumes m: "free_ok m" and n: "0 < bytes" "start + bytes \<le> UINT64_MAX"
  shows "Add start bytes (pieces m) = Inr (pieces (AddFreeRange start bytes m))"
proof -
  let ?xs = "takeWhile (\<lambda>r. fst r < start) m" and ?ys = "dropWhile (\<lambda>r. fst r < start) m"
  have ys: "\<forall>r\<in>set ?ys. start \<le> fst r"
  proof -
    have "sorted (map fst m)" by (rule free_ok_sorted [OF m])
    then show ?thesis
    proof (induction m)
      case (Cons r m)
      then show ?case by (cases "fst r < start") auto
    qed simp
  qed
  have xs: "\<forall>r\<in>set ?xs. fst r < start" using set_takeWhileD by fastforce
  have lb: "lower_bound start m = (?xs, ?ys)" "lower_bound start (pieces m) = (pieces ?xs, pieces ?ys)"
    by (simp_all add: lower_bound_def pieces_takeWhile pieces_dropWhile)
  have fin: "Inr (emplace p (fst ab) (pieces (zs @ snd ab))) = Inr (pieces (emplace p (fst ab - p) (zs @ snd ab)))"
    if "p \<le> fst ab" for p ab zs using emplace_pieces [OF that] by simp
  show ?thesis
  proof (cases "?xs \<noteq> [] \<and> fst (last ?xs) + snd (last ?xs) \<ge> start")
    case False
    let ?ab = "absorb_free (start + bytes) ?ys"
    have "start \<le> fst ?ab" using absorb_free_grows [of "start + bytes" ?ys] by simp
    note f = fin [OF this, of ?xs]
    have "\<not> (pieces ?xs \<noteq> [] \<and> snd (last (pieces ?xs)) \<ge> start)"
      using False by (auto simp: last_map case_prod_beta)
    then show ?thesis
      using absorb_pieces [OF ys, of "start + bytes"] f n False
      by (cases "?xs = []") (simp_all add: Add_def End_ok AddFreeRange_def lb Let_def case_prod_beta)
  next
    case True
    then obtain zs a k where z: "?xs = zs @ [(a, k)]" by (metis append_butlast_last_id surj_pair)
    have a: "a < start" "start \<le> a + k" using xs z True by simp_all
    let ?ab = "absorb_free (max (start + bytes) (a + k)) ?ys"
    have "\<forall>r\<in>set ?ys. a \<le> fst r" using ys a by fastforce
    note ap = absorb_pieces [OF this, of "max (start + bytes) (a + k)"]
    have "a \<le> fst ?ab" using absorb_free_grows [of "max (start + bytes) (a + k)" ?ys] a by simp
    note f = fin [OF this, of zs]
    show ?thesis
      using ap f n z a by (simp add: Add_def End_ok AddFreeRange_def lb Let_def step_back_def case_prod_beta)
  qed
qed

lemma AddFreeRange_ok:
  assumes "free_ok m" "0 < bytes" "start + bytes \<le> UINT64_MAX"
  shows "free_ok (AddFreeRange start bytes m)" "free_bytes (AddFreeRange start bytes m) = free_bytes m \<union> {start..<start + bytes}"
  using Add_ok [OF assms(1) [unfolded free_ok_def] assms(2,3)] AddFreeRange_Add [OF assms] by (auto simp: free_ok_def free_bytes_def)

lemma ConsumeFreeRange_ok:
  assumes m: "free_ok (before @ (a, n) # after)" and s: "a \<le> start" "start + bytes \<le> a + n" "0 < bytes"
  shows "free_ok (ConsumeFreeRange before (a, n) after start bytes)"
    "free_bytes (ConsumeFreeRange before (a, n) after start bytes)
       = free_bytes (before @ (a, n) # after) - {start..<start + bytes}"
proof -
  have sep: "separated 0 (pieces before @ (a, a + n) # pieces after)" using m by (simp add: free_ok_def)
  have b: "\<forall>r\<in>set before. fst r < a \<and> fst r + snd r < a"
    using separated_before [OF sep] by force
  have h: "after = [] \<or> a + n < fst (hd after)"
    using sep by (cases after) (auto simp: separated_append)
  let ?l = "if a < start then [(a, start - a)] else []" and ?r = "if start + bytes < a + n then [(start + bytes, a + n - start - bytes)] else []"
  have eq: "ConsumeFreeRange before (a, n) after start bytes = before @ ?l @ ?r @ after"
  proof -
    have 1: "emplace a (start - a) (before @ after) = before @ (a, start - a) # after"
      by (rule emplace_mid) (use b h in auto)
    have 2: "emplace (start + bytes) v ((before @ ?l) @ after) = (before @ ?l) @ (start + bytes, v) # after" if "start + bytes < a + n" for v
      by (rule emplace_mid) (use b h s that in \<open>auto simp: trans_less_add1\<close>)
    show ?thesis using 1 2 by (cases "a < start") (simp_all add: ConsumeFreeRange_def Let_def)
  qed
  have bl: "snd r + 1 \<le> a" if "r \<in> set (pieces before)" for r using b that by auto
  have sb: "separated 0 (pieces before)" "(if pieces before = [] then 0 else snd (last (pieces before)) + 1) \<le> a"
      "separated (a + n + 1) (pieces after)"
    using sep by (auto simp: separated_append)
  have "separated (a + n + 1) (pieces after)" by (rule sb(3))
  then have af: "separated (start + bytes + 1) (pieces after)" by (rule separated_mono) (use s in simp)
  have "separated 0 (pieces before @ pieces ?l @ pieces ?r @ pieces after)"
    using sb af s separated_mono [OF af] by (auto simp: separated_append dest: separated_mono intro: separated_mono)
  then show "free_ok (ConsumeFreeRange before (a, n) after start bytes)" by (simp add: eq free_ok_def)
  have da: "x \<notin> {start..<start + bytes}" if "x \<in> free_bytes after" for x
    using covered_bound [OF sb(3)] that s by (force simp: free_bytes_def)
  have db: "x \<notin> {start..<start + bytes}" if "x \<in> free_bytes before" for x
    using b that s unfolding free_bytes_iff by fastforce
  show "free_bytes (ConsumeFreeRange before (a, n) after start bytes)
      = free_bytes (before @ (a, n) # after) - {start..<start + bytes}"
    unfolding eq using da db s by auto
qed

text \<open>A run of free bytes lies in one free range.\<close>

lemma free_run:
  assumes "free_ok m" "{a..<a + len} \<subseteq> free_bytes m" "0 < len"
  shows "\<exists>r\<in>set m. fst r \<le> a \<and> a + len \<le> fst r + snd r"
proof -
  have "a \<in> free_bytes m" using assms(2,3) by auto
  then obtain r where r: "r \<in> set m" "fst r \<le> a" "a < fst r + snd r" by (auto simp: free_bytes_iff)
  have out: "fst r + snd r \<notin> free_bytes m"
  proof
    assume "fst r + snd r \<in> free_bytes m"
    then obtain q where q: "q \<in> set m" "fst q \<le> fst r + snd r" "fst r + snd r < fst q + snd q"
      by (auto simp: free_bytes_iff)
    obtain xs ys where m: "m = xs @ r # ys" using r(1) by (auto simp: in_set_conv_decomp)
    have sep: "separated 0 (pieces xs @ (fst r, fst r + snd r) # pieces ys)"
      using assms(1) by (simp add: free_ok_def m case_prod_beta)
    have "q \<in> set xs \<or> q = r \<or> q \<in> set ys" using q(1) m by auto
    then show False
    proof (elim disjE)
      assume "q \<in> set xs"
      then have "(fst q, fst q + snd q) \<in> set (pieces xs)" by (rule pieces_mem)
      then have "fst q + snd q < fst r" using separated_before [OF sep] by fastforce
      then show False using q(3) by simp
    next
      assume "q \<in> set ys"
      then have "(fst q, fst q + snd q) \<in> set (pieces ys)" by (rule pieces_mem)
      moreover have "separated (fst r + snd r + 1) (pieces ys)" using sep by (auto simp: separated_append)
      ultimately have "fst r + snd r + 1 \<le> fst q" using separated_bound by blast
      then show False using q(2) by simp
    qed (use q in simp)
  qed
  have "a + len \<le> fst r + snd r"
  proof (rule ccontr)
    assume "\<not> a + len \<le> fst r + snd r"
    then have "fst r + snd r \<in> {a..<a + len}" using r(3) by simp
    then show False using out assms(2) by blast
  qed
  then show ?thesis using r by blast
qed

end
