(* ===== verification/MappingLists.thy ===== *)
theory MappingLists
  imports Prelude
begin

text \<open>
  Lists of mappings, as direct and flexible memory keep them in src/src/kernel/memory.cpp: each entry covers the
  addresses from \<open>first b\<close> on, \<open>bytes b\<close> of them, and \<open>view b a\<close> is what it says of the address \<open>a\<close>. The entries are
  in no order, but no two cover one address; what the list says of an address is then the same in every order.
\<close>

definition apart :: "('b \<Rightarrow> nat) \<Rightarrow> ('b \<Rightarrow> nat) \<Rightarrow> 'b \<Rightarrow> 'b \<Rightarrow> bool" where
  "apart first bytes b c \<longleftrightarrow> first b + bytes b \<le> first c \<or> first c + bytes c \<le> first b"

definition covers :: "('b \<Rightarrow> nat) \<Rightarrow> ('b \<Rightarrow> nat) \<Rightarrow> 'b \<Rightarrow> nat \<Rightarrow> bool" where
  "covers first bytes b a \<longleftrightarrow> first b \<le> a \<and> a < first b + bytes b"

definition within :: "('b \<Rightarrow> nat) \<Rightarrow> ('b \<Rightarrow> nat) \<Rightarrow> 'b \<Rightarrow> 'b list \<Rightarrow> bool" where
  "within first bytes b ps \<longleftrightarrow> (\<forall>p\<in>set ps. first b \<le> first p \<and> first p + bytes p \<le> first b + bytes b)"

definition maps_ok :: "('b \<Rightarrow> nat) \<Rightarrow> ('b \<Rightarrow> nat) \<Rightarrow> 'b list \<Rightarrow> bool" where
  "maps_ok first bytes ms \<longleftrightarrow>
     (\<forall>b\<in>set ms. 0 < bytes b \<and> first b + bytes b \<le> UINT64_MAX) \<and> sorted_wrt (apart first bytes) ms"

fun seen_at :: "('b \<Rightarrow> nat) \<Rightarrow> ('b \<Rightarrow> nat) \<Rightarrow> ('b \<Rightarrow> nat \<Rightarrow> 'v) \<Rightarrow> 'b list \<Rightarrow> nat \<Rightarrow> 'v option" where
  "seen_at first bytes view [] a = None"
| "seen_at first bytes view (b # bs) a =
     (if first b \<le> a \<and> a < first b + bytes b then Some (view b a) else seen_at first bytes view bs a)"

lemma maps_ok_Nil [simp]: "maps_ok first bytes []"
  by (simp add: maps_ok_def)

lemma maps_ok_append:
  "maps_ok first bytes (xs @ ys) \<longleftrightarrow>
     maps_ok first bytes xs \<and> maps_ok first bytes ys \<and> (\<forall>x\<in>set xs. \<forall>y\<in>set ys. apart first bytes x y)"
  by (auto simp: maps_ok_def sorted_wrt_append)

lemma maps_ok_Cons:
  "maps_ok first bytes (b # ys) \<longleftrightarrow>
     0 < bytes b \<and> first b + bytes b \<le> UINT64_MAX \<and> maps_ok first bytes ys \<and> (\<forall>y\<in>set ys. apart first bytes b y)"
  by (auto simp: maps_ok_def)

lemma maps_ok_mem: "maps_ok first bytes ms \<Longrightarrow> b \<in> set ms \<Longrightarrow> 0 < bytes b \<and> first b + bytes b \<le> UINT64_MAX"
  by (simp add: maps_ok_def)

lemma apart_sym: "apart first bytes b c \<Longrightarrow> apart first bytes c b"
  by (auto simp: apart_def)

lemma not_apart_common:
  assumes "\<not> apart first bytes b c" "0 < bytes b" "0 < bytes c"
  shows "\<exists>a. covers first bytes b a \<and> covers first bytes c a"
  using assms by (intro exI [of _ "max (first b) (first c)"]) (auto simp: apart_def covers_def)

lemma seen_at_append:
  "seen_at first bytes view (xs @ ys) a =
     (case seen_at first bytes view xs a of None \<Rightarrow> seen_at first bytes view ys a | Some v \<Rightarrow> Some v)"
  by (induction xs) auto

lemma seen_at_None: "seen_at first bytes view ms a = None \<longleftrightarrow> (\<forall>b\<in>set ms. \<not> covers first bytes b a)"
  by (induction ms) (auto simp: covers_def)

lemma seen_at_SomeD:
  "seen_at first bytes view ms a = Some v \<Longrightarrow> \<exists>b\<in>set ms. covers first bytes b a \<and> v = view b a"
  by (induction ms) (auto simp: covers_def split: if_splits)

lemma seen_at_mem:
  "maps_ok first bytes ms \<Longrightarrow> b \<in> set ms \<Longrightarrow> covers first bytes b a \<Longrightarrow> seen_at first bytes view ms a = Some (view b a)"
proof (induction ms)
  case (Cons c ms)
  then show ?case by (cases "b = c") (auto simp: maps_ok_Cons covers_def apart_def)
qed simp

lemma seen_at_iff:
  "maps_ok first bytes ms \<Longrightarrow>
     seen_at first bytes view ms a = Some v \<longleftrightarrow> (\<exists>b\<in>set ms. covers first bytes b a \<and> v = view b a)"
  using seen_at_SomeD [of first bytes view ms a v] seen_at_mem [of first bytes ms _ a view] by auto

lemma seen_at_unique:
  "maps_ok first bytes ms \<Longrightarrow> b \<in> set ms \<Longrightarrow> c \<in> set ms \<Longrightarrow> covers first bytes b a \<Longrightarrow> covers first bytes c a \<Longrightarrow> b = c"
proof (induction ms)
  case (Cons x ms)
  then show ?case by (auto simp: maps_ok_Cons covers_def apart_def)
qed simp

text \<open>The same entries in another order say the same.\<close>

lemma seen_at_same_set:
  assumes "maps_ok first bytes ms" "maps_ok first bytes ns" "set ms = set ns"
  shows "seen_at first bytes view ms a = seen_at first bytes view ns a"
proof (cases "seen_at first bytes view ns a")
  case None
  then have "seen_at first bytes view ms a = None" using assms(3) by (simp add: seen_at_None)
  then show ?thesis using None by simp
next
  case (Some v)
  then obtain b where "b \<in> set ns" "covers first bytes b a" "v = view b a" using seen_at_SomeD by fast
  then show ?thesis using seen_at_mem [OF assms(1), of b a view] assms(3) Some by simp
qed

lemma maps_ok_swap: "maps_ok first bytes (xs @ ys @ zs) \<longleftrightarrow> maps_ok first bytes (xs @ zs @ ys)"
proof -
  have "(\<forall>y\<in>set ys. \<forall>z\<in>set zs. apart first bytes y z) \<longleftrightarrow> (\<forall>z\<in>set zs. \<forall>y\<in>set ys. apart first bytes z y)"
    by (meson apart_sym)
  then show ?thesis by (simp add: maps_ok_append ball_Un) blast
qed

text \<open>Entries put in the place of one, inside it.\<close>

lemma maps_ok_replace:
  assumes "maps_ok first bytes (xs @ b # ys)" "maps_ok first bytes ps" "within first bytes b ps"
  shows "maps_ok first bytes (xs @ ps @ ys)"
  using assms by (fastforce simp: maps_ok_append maps_ok_Cons within_def apart_def)

lemma seen_at_within: "within first bytes b ps \<Longrightarrow> \<not> covers first bytes b a \<Longrightarrow> seen_at first bytes view ps a = None"
  by (fastforce simp: seen_at_None within_def covers_def)

lemma seen_at_replace:
  assumes "maps_ok first bytes (xs @ b # ys)" "within first bytes b ps"
  shows "seen_at first bytes view (xs @ ps @ ys) a =
    (if covers first bytes b a then seen_at first bytes view ps a else seen_at first bytes view (xs @ b # ys) a)"
proof (cases "covers first bytes b a")
  case True
  then have "seen_at first bytes view xs a = None" "seen_at first bytes view ys a = None"
    using assms(1) by (auto simp: seen_at_None maps_ok_append maps_ok_Cons covers_def apart_def)
  then show ?thesis using True by (auto simp: seen_at_append split: option.splits)
next
  case False
  then have "seen_at first bytes view (b # ys) a = seen_at first bytes view ys a" by (auto simp: covers_def)
  then show ?thesis using False seen_at_within [OF assms(2) False, of view]
    by (auto simp: seen_at_append simp del: seen_at.simps split: option.splits)
qed

lemma maps_ok_concat:
  assumes "maps_ok first bytes ms" "\<And>b. b \<in> set ms \<Longrightarrow> maps_ok first bytes (g b) \<and> within first bytes b (g b)"
  shows "maps_ok first bytes (concat (map g ms))"
  using assms
proof (induction ms)
  case (Cons b ms)
  then have ih: "maps_ok first bytes (concat (map g ms))" by (simp add: maps_ok_Cons)
  have "apart first bytes p q" if "p \<in> set (g b)" "c \<in> set ms" "q \<in> set (g c)" for p c q
  proof -
    have "apart first bytes b c" using Cons.prems(1) that(2) by (simp add: maps_ok_Cons)
    moreover have "first b \<le> first p \<and> first p + bytes p \<le> first b + bytes b" "first c \<le> first q \<and> first q + bytes q \<le> first c + bytes c"
      using Cons.prems(2) that by (auto simp: within_def)
    ultimately show ?thesis by (auto simp: apart_def)
  qed
  then show ?case using ih Cons.prems(2) [of b] by (auto simp: maps_ok_append)
qed simp

lemma seen_at_concat:
  assumes "maps_ok first bytes ms" "\<And>b. b \<in> set ms \<Longrightarrow> within first bytes b (g b)"
    "\<And>b. b \<in> set ms \<Longrightarrow> covers first bytes b a \<Longrightarrow> seen_at first bytes view (g b) a = h (view b a)"
  shows "seen_at first bytes view (concat (map g ms)) a = Option.bind (seen_at first bytes view ms a) h"
  using assms
proof (induction ms)
  case (Cons b ms)
  have ih: "seen_at first bytes view (concat (map g ms)) a = Option.bind (seen_at first bytes view ms a) h"
    using Cons by (simp add: maps_ok_Cons)
  show ?case
  proof (cases "covers first bytes b a")
    case True
    have "seen_at first bytes view ms a = None"
      using Cons.prems(1) True by (auto simp: maps_ok_Cons seen_at_None covers_def apart_def)
    then show ?thesis using ih Cons.prems(3) [of b] True by (auto simp: seen_at_append covers_def split: option.splits)
  next
    case False
    then have "seen_at first bytes view (g b) a = None" using Cons.prems(2) by (auto intro: seen_at_within)
    then show ?thesis using ih False by (auto simp: seen_at_append covers_def)
  qed
qed simp

end
