(* ===== verification/PhysicalMemory.thy ===== *)
theory PhysicalMemory
  imports FreeRanges VirtualRanges MappingLists
begin

text \<open>
  The class \<open>PhysicalMemory\<close> of src/src/kernel/memory.cpp: direct memory as blocks allocated from one
  backing object, with the list of the virtual mappings of it. The \<open>std::map\<close> of the blocks is the list of them in
  order of their addresses, which are its keys. \<open>ph_size\<close> is \<open>Size()\<close>, fixed before the object is made.
\<close>

section \<open>State\<close>

record pblock =
  pb_start_addr :: nat
  pb_size :: nat
  pb_map_vaddr :: nat
  pb_map_size :: nat
  pb_host_vaddr :: nat
  pb_host_size :: nat
  pb_prot :: u32
  pb_mode :: vm_mode
  pb_gpu_mode :: gpu_access_mode
  pb_memory_type :: int
  pb_pool_expansion :: bool
  pb_name :: string

record physical =
  ph_blocks :: "pblock list"
  ph_free :: free_map
  ph_mappings :: "pblock list"
  ph_size :: nat

definition new_physical :: "nat \<Rightarrow> physical" where
  "new_physical total_size = \<lparr>ph_blocks = [], ph_free = [(0, total_size)], ph_mappings = [], ph_size = total_size\<rparr>"

abbreviation pb_end :: "pblock \<Rightarrow> nat" where
  "pb_end b \<equiv> pb_start_addr b + pb_size b"

abbreviation map_end :: "pblock \<Rightarrow> nat" where
  "map_end b \<equiv> pb_map_vaddr b + pb_map_size b"

text \<open>\<open>emplace\<close> into the map of blocks, \<open>None\<close> where the key is taken.\<close>

fun block_emplace :: "pblock \<Rightarrow> pblock list \<Rightarrow> pblock list option" where
  "block_emplace b [] = Some [b]"
| "block_emplace b (c # bs) =
     (if pb_start_addr b < pb_start_addr c then Some (b # c # bs)
      else if pb_start_addr b = pb_start_addr c then None
      else map_option (\<lambda>bs. c # bs) (block_emplace b bs))"

definition block_upper_bound :: "nat \<Rightarrow> pblock list \<Rightarrow> pblock list \<times> pblock list" where
  "block_upper_bound addr bs = (takeWhile (\<lambda>b. pb_start_addr b \<le> addr) bs, dropWhile (\<lambda>b. pb_start_addr b \<le> addr) bs)"

section \<open>Allocation\<close>

text \<open>\<open>None\<close> is the position that is not valid.\<close>

definition GetAlignedPos :: "nat \<Rightarrow> nat \<Rightarrow> nat option" where
  "GetAlignedPos pos alignment =
     (if alignment = 0 then Some pos
      else let remainder = pos mod alignment;
               increment = (if remainder \<noteq> 0 then alignment - remainder else 0)
           in if increment > UINT64_MAX - pos then None else Some (pos + increment))"

text \<open>The loop over the free ranges from the iterator on; \<open>before\<close> are the entries already passed.\<close>

fun alloc_loop :: "nat \<Rightarrow> nat \<Rightarrow> nat \<Rightarrow> nat \<Rightarrow> free_map \<Rightarrow> free_map \<Rightarrow> (nat \<times> free_map) option" where
  "alloc_loop search_start search_end len alignment before [] = None"
| "alloc_loop search_start search_end len alignment before ((a, n) # m) =
     (if a \<ge> search_end then None
      else let range_end = min (a + n) search_end; lower = max a search_start
           in case GetAlignedPos lower alignment of
                None \<Rightarrow> alloc_loop search_start search_end len alignment (before @ [(a, n)]) m
              | Some free_pos \<Rightarrow>
                  if free_pos < lower \<or> free_pos > range_end \<or> len > range_end - free_pos
                  then alloc_loop search_start search_end len alignment (before @ [(a, n)]) m
                  else Some (free_pos, ConsumeFreeRange before (a, n) m free_pos len))"

definition new_block :: "nat \<Rightarrow> nat \<Rightarrow> int \<Rightarrow> bool \<Rightarrow> pblock" where
  "new_block start len memory_type pool_expansion =
     \<lparr>pb_start_addr = start, pb_size = len, pb_map_vaddr = 0, pb_map_size = 0, pb_host_vaddr = 0, pb_host_size = 0,
      pb_prot = 0, pb_mode = Mode_NoAccess, pb_gpu_mode = Gpu_NoAccess, pb_memory_type = memory_type,
      pb_pool_expansion = pool_expansion, pb_name = ''''\<rparr>"

text \<open>The result is the address, \<open>None\<close> for \<open>false\<close>; the null output pointer is left to the callers, which pass their own.\<close>

definition ph_Alloc ::
    "nat \<Rightarrow> nat \<Rightarrow> nat \<Rightarrow> nat \<Rightarrow> int \<Rightarrow> bool \<Rightarrow> physical \<Rightarrow> (physical \<times> nat option) outcome" where
  "ph_Alloc search_start search_end len alignment memory_type pool_expansion ph =
     (let search_end = min search_end (ph_size ph)
      in if search_start \<ge> search_end then Inr (ph, None)
         else let it = upper_bound search_start (ph_free ph);
                  it = (if fst it \<noteq> [] then step_back it else it)
              in case alloc_loop search_start search_end len alignment (fst it) (snd it) of
                   None \<Rightarrow> Inr (ph, None)
                 | Some (free_pos, free) \<Rightarrow>
                     (case block_emplace (new_block free_pos len memory_type pool_expansion) (ph_blocks ph) of
                        None \<Rightarrow> Inl EXIT
                      | Some blocks \<Rightarrow> Inr (ph\<lparr>ph_free := free, ph_blocks := blocks\<rparr>, Some free_pos)))"

fun available_loop :: "nat \<Rightarrow> nat \<Rightarrow> nat \<Rightarrow> nat \<times> nat \<Rightarrow> free_map \<Rightarrow> nat \<times> nat" where
  "available_loop search_start search_end alignment best [] = best"
| "available_loop search_start search_end alignment best ((a, n) # m) =
     (if a \<ge> search_end then best
      else let range_end = min (a + n) search_end; lower = max a search_start
           in available_loop search_start search_end alignment
                (case GetAlignedPos lower alignment of
                   None \<Rightarrow> best
                 | Some free_pos \<Rightarrow>
                     if free_pos \<ge> lower \<and> free_pos < range_end \<and> range_end - free_pos > snd best
                     then (free_pos, range_end - free_pos) else best) m)"

definition ph_Available :: "nat \<Rightarrow> nat \<Rightarrow> nat \<Rightarrow> physical \<Rightarrow> (nat \<times> nat) option" where
  "ph_Available search_start search_end alignment ph =
     (let search_end = min search_end (ph_size ph)
      in if search_start \<ge> search_end then None
         else let best = available_loop search_start search_end alignment (0, 0) (ph_free ph)
              in if snd best = 0 then None else Some best)"

section \<open>Release\<close>

text \<open>
  What \<open>Release\<close> does to the block the address is in, with the virtual address and size it reports. Blocks in
  \<open>m_physical\<close> are made with no mapping and never get one, but the code carries one through.
\<close>

definition release_block :: "nat \<Rightarrow> nat \<Rightarrow> pblock \<Rightarrow> (pblock list \<times> nat \<times> nat) option" where
  "release_block start len b =
     (if start = pb_start_addr b \<and> len = pb_size b then Some ([], pb_map_vaddr b, pb_map_size b)
      else if start > pb_start_addr b \<and> start + len < pb_end b
      then let right_start = start + len;
               right = b\<lparr>pb_start_addr := right_start, pb_size := pb_end b - right_start\<rparr>;
               right = (if pb_map_vaddr right \<noteq> 0
                        then right\<lparr>pb_map_vaddr := pb_map_vaddr right + (right_start - pb_start_addr b), pb_map_size := pb_size right\<rparr>
                        else right);
               left = b\<lparr>pb_size := start - pb_start_addr b\<rparr>;
               left = (if pb_map_vaddr b \<noteq> 0 then left\<lparr>pb_map_size := pb_size left\<rparr> else left)
           in Some ([left, right],
                    if pb_map_vaddr b \<noteq> 0 then pb_map_vaddr b + (start - pb_start_addr b) else 0,
                    if pb_map_vaddr b \<noteq> 0 then len else 0)
      else if start = pb_start_addr b \<and> len < pb_size b
      then let remaining = b\<lparr>pb_start_addr := pb_start_addr b + len, pb_size := pb_size b - len\<rparr>;
               remaining = (if pb_map_vaddr remaining \<noteq> 0
                            then remaining\<lparr>pb_map_vaddr := pb_map_vaddr remaining + len, pb_map_size := pb_map_size remaining - len\<rparr>
                            else remaining)
           in Some ([remaining], pb_map_vaddr b, if pb_map_vaddr b \<noteq> 0 then len else 0)
      else if start > pb_start_addr b \<and> start + len = pb_end b
      then let left = b\<lparr>pb_size := start - pb_start_addr b\<rparr>;
               left = (if pb_map_vaddr b \<noteq> 0 then left\<lparr>pb_map_size := pb_size left\<rparr> else left)
           in Some ([left],
                    if pb_map_vaddr b \<noteq> 0 then pb_map_vaddr b + (start - pb_start_addr b) else 0,
                    if pb_map_vaddr b \<noteq> 0 then len else 0)
      else None)"

definition ph_Release :: "nat \<Rightarrow> nat \<Rightarrow> physical \<Rightarrow> physical \<times> (nat \<times> nat \<times> gpu_access_mode) option" where
  "ph_Release start len ph =
     (case block_upper_bound start (ph_blocks ph) of
        (before, rest) \<Rightarrow>
          if before = [] then (ph, None)
          else let b = last before
               in if pb_pool_expansion b \<or> start < pb_start_addr b \<or> start \<ge> pb_end b \<or> len > pb_end b - start
                  then (ph, None)
                  else case release_block start len b of
                         None \<Rightarrow> (ph, None)
                       | Some (parts, vaddr, bytes) \<Rightarrow>
                           (ph\<lparr>ph_blocks := butlast before @ parts @ rest, ph_free := AddFreeRange start len (ph_free ph)\<rparr>,
                            Some (vaddr, bytes, pb_gpu_mode b)))"

definition ph_ReleasePoolExpansion :: "nat \<Rightarrow> nat \<Rightarrow> physical \<Rightarrow> physical \<times> bool" where
  "ph_ReleasePoolExpansion phys_addr len ph =
     (case find (\<lambda>b. pb_start_addr b = phys_addr) (ph_blocks ph) of
        None \<Rightarrow> (ph, False)
      | Some b \<Rightarrow>
          if \<not> pb_pool_expansion b \<or> pb_size b \<noteq> len then (ph, False)
          else (ph\<lparr>ph_blocks := remove1 b (ph_blocks ph), ph_free := AddFreeRange phys_addr len (ph_free ph)\<rparr>, True))"

section \<open>Spans of blocks\<close>

text \<open>
  The block of a position: the last one that starts at or before it, if it reaches it and is not a pool's.
\<close>

definition span_block :: "nat \<Rightarrow> pblock list \<Rightarrow> (pblock \<times> pblock list) option" where
  "span_block current bs =
     (case block_upper_bound current bs of
        (before, rest) \<Rightarrow>
          if before = [] then None
          else let b = last before
               in if pb_pool_expansion b \<or> current < pb_start_addr b \<or> current \<ge> pb_end b then None else Some (b, rest))"

text \<open>
  The loop \<open>Map\<close>, \<open>CanMapDirect\<close> and \<open>GetAllocatedSpan\<close> share, with the parts the last collects. It goes on only
  when the next block starts where this one ends.
\<close>

function span_loop :: "nat \<Rightarrow> nat \<Rightarrow> pblock list \<Rightarrow> pblock list option" where
  "span_loop end1 current bs =
     (if current < end1
      then case span_block current bs of
             None \<Rightarrow> None
           | Some (b, rest) \<Rightarrow>
               let part = b\<lparr>pb_start_addr := current, pb_size := min end1 (pb_end b) - current\<rparr>;
                   current' = min end1 (pb_end b)
               in if current' < end1 \<and> (rest = [] \<or> pb_start_addr (hd rest) \<noteq> current') then None
                  else map_option (\<lambda>parts. part # parts) (span_loop end1 current' bs)
      else Some [])"
  by pat_completeness auto

termination
proof (relation "measure (\<lambda>(end1, current, bs). end1 - current)")
  fix end1 current :: nat and bs x b rest part current'
  assume "current < end1" "span_block current bs = Some x" "(b, rest) = x" "current' = min end1 (pb_end b)"
  then show "((end1, current', bs), (end1, current, bs)) \<in> measure (\<lambda>(end1, current, bs). end1 - current)"
    by (auto simp: span_block_def Let_def split: prod.splits if_splits)
qed simp

declare span_loop.simps [simp del]

definition ph_CanMapDirect :: "nat \<Rightarrow> nat \<Rightarrow> physical \<Rightarrow> bool" where
  "ph_CanMapDirect phys_addr len ph =
     (if len = 0 \<or> UINT64_MAX - phys_addr < len then False
      else span_loop (phys_addr + len) phys_addr (ph_blocks ph) \<noteq> None)"

definition ph_GetAllocatedSpan :: "nat \<Rightarrow> nat \<Rightarrow> physical \<Rightarrow> pblock list option" where
  "ph_GetAllocatedSpan phys_addr len ph =
     (if len = 0 \<or> UINT64_MAX - phys_addr < len then None
      else span_loop (phys_addr + len) phys_addr (ph_blocks ph))"

text \<open>A mapping takes the rest of its fields from the first block of the span.\<close>

definition ph_Map :: "nat \<Rightarrow> nat \<Rightarrow> nat \<Rightarrow> u32 \<Rightarrow> vm_mode \<Rightarrow> gpu_access_mode \<Rightarrow> physical \<Rightarrow> physical \<times> bool" where
  "ph_Map vaddr phys_addr len prot mode gpu_mode ph =
     (if len = 0 \<or> UINT64_MAX - phys_addr < len then (ph, False)
      else let before = fst (block_upper_bound phys_addr (ph_blocks ph))
           in if before = [] \<or> span_loop (phys_addr + len) phys_addr (ph_blocks ph) = None then (ph, False)
              else let mapping = (last before)
                         \<lparr>pb_start_addr := phys_addr, pb_size := len, pb_map_vaddr := vaddr, pb_map_size := len,
                          pb_host_vaddr := vaddr, pb_host_size := len, pb_prot := prot, pb_mode := mode, pb_gpu_mode := gpu_mode\<rparr>
                   in (ph\<lparr>ph_mappings := ph_mappings ph @ [mapping]\<rparr>, True))"

section \<open>Mappings\<close>

text \<open>
  What is left of a mapping at its place, what is put at the end of the list, and whether all of it went; \<open>None\<close>
  when the part is not one of the four the code knows.
\<close>

definition unmap_block :: "nat \<Rightarrow> nat \<Rightarrow> pblock \<Rightarrow> (pblock list \<times> pblock list \<times> bool) option" where
  "unmap_block vaddr bytes b =
     (if pb_map_vaddr b = vaddr \<and> pb_map_size b = bytes then Some ([], [], True)
      else if vaddr > pb_map_vaddr b \<and> vaddr + bytes < map_end b
      then Some ([b\<lparr>pb_size := vaddr - pb_map_vaddr b, pb_map_size := vaddr - pb_map_vaddr b\<rparr>],
                 [b\<lparr>pb_start_addr := pb_start_addr b + (vaddr + bytes - pb_map_vaddr b), pb_size := map_end b - (vaddr + bytes),
                    pb_map_size := map_end b - (vaddr + bytes), pb_map_vaddr := vaddr + bytes\<rparr>], False)
      else if vaddr = pb_map_vaddr b \<and> bytes < pb_map_size b
      then Some ([b\<lparr>pb_start_addr := pb_start_addr b + bytes, pb_size := pb_size b - bytes,
                    pb_map_vaddr := pb_map_vaddr b + bytes, pb_map_size := pb_map_size b - bytes\<rparr>], [], False)
      else if vaddr > pb_map_vaddr b \<and> vaddr + bytes = map_end b
      then Some ([b\<lparr>pb_size := vaddr - pb_map_vaddr b, pb_map_size := vaddr - pb_map_vaddr b\<rparr>], [], False)
      else None)"

text \<open>The mapping found, whether all of it went, and the new list.\<close>

fun unmap_loop :: "nat \<Rightarrow> nat \<Rightarrow> pblock list \<Rightarrow> (pblock \<times> bool \<times> pblock list) option" where
  "unmap_loop vaddr bytes [] = None"
| "unmap_loop vaddr bytes (b # bs) =
     (case unmap_block vaddr bytes b of
        Some (here, at_end, exact) \<Rightarrow> Some (b, exact, here @ bs @ at_end)
      | None \<Rightarrow> map_option (\<lambda>(m, exact, bs). (m, exact, b # bs)) (unmap_loop vaddr bytes bs))"

definition host_release :: "pblock \<Rightarrow> pblock list \<Rightarrow> nat" where
  "host_release b bs =
     (if pb_host_vaddr b = 0 \<or> pb_host_size b = 0 then 0
      else if \<exists>c\<in>set bs. pb_host_vaddr c = pb_host_vaddr b \<and> pb_host_size c = pb_host_size b then 0 else pb_host_vaddr b)"

text \<open>On success the mode of access of the mapping and \<open>host_vaddr_to_release\<close>.\<close>

definition ph_Unmap :: "nat \<Rightarrow> nat \<Rightarrow> physical \<Rightarrow> physical \<times> (gpu_access_mode \<times> nat) option" where
  "ph_Unmap vaddr bytes ph =
     (case unmap_loop vaddr bytes (ph_mappings ph) of
        None \<Rightarrow> (ph, None)
      | Some (b, exact, bs) \<Rightarrow>
          (ph\<lparr>ph_mappings := bs\<rparr>, Some (pb_gpu_mode b, if exact then host_release b bs else 0)))"

definition protect_block :: "nat \<Rightarrow> nat \<Rightarrow> u32 \<Rightarrow> vm_mode \<Rightarrow> gpu_access_mode \<Rightarrow> pblock \<Rightarrow> pblock list" where
  "protect_block vaddr bytes prot mode gpu_mode b =
     (if \<not> VirtualRangesOverlap vaddr bytes (pb_map_vaddr b) (pb_map_size b) then [b]
      else let overlap_start = max vaddr (pb_map_vaddr b); overlap_end = min (vaddr + bytes) (map_end b)
           in (if pb_map_vaddr b < overlap_start
               then [b\<lparr>pb_size := overlap_start - pb_map_vaddr b, pb_map_size := overlap_start - pb_map_vaddr b\<rparr>] else []) @
              [b\<lparr>pb_start_addr := pb_start_addr b + overlap_start - pb_map_vaddr b, pb_size := overlap_end - overlap_start,
                 pb_map_vaddr := overlap_start, pb_map_size := overlap_end - overlap_start,
                 pb_prot := prot, pb_mode := mode, pb_gpu_mode := gpu_mode\<rparr>] @
              (if overlap_end < map_end b
               then [b\<lparr>pb_start_addr := pb_start_addr b + overlap_end - pb_map_vaddr b, pb_size := map_end b - overlap_end,
                       pb_map_vaddr := overlap_end, pb_map_size := map_end b - overlap_end\<rparr>] else []))"

definition ph_ProtectMapping :: "nat \<Rightarrow> nat \<Rightarrow> u32 \<Rightarrow> vm_mode \<Rightarrow> gpu_access_mode \<Rightarrow> physical \<Rightarrow> physical" where
  "ph_ProtectMapping vaddr bytes prot mode gpu_mode ph =
     (if bytes = 0 \<or> UINT64_MAX - vaddr < bytes then ph
      else ph\<lparr>ph_mappings := concat (map (protect_block vaddr bytes prot mode gpu_mode) (ph_mappings ph))\<rparr>)"

definition ph_Find_block :: "nat \<Rightarrow> bool \<Rightarrow> physical \<Rightarrow> pblock option" where
  "ph_Find_block phys_addr find_next ph =
     (case block_upper_bound phys_addr (ph_blocks ph) of
        (before, rest) \<Rightarrow>
          if before \<noteq> [] \<and> phys_addr < pb_end (last before) then Some (last before)
          else if find_next \<and> rest \<noteq> [] then Some (hd rest)
          else None)"

definition mapping_part :: "nat \<Rightarrow> nat \<Rightarrow> pblock \<Rightarrow> pblock" where
  "mapping_part phys_addr len m =
     (let overlap_start = max phys_addr (pb_start_addr m); overlap_end = min (phys_addr + len) (pb_end m)
      in m\<lparr>pb_start_addr := overlap_start, pb_size := overlap_end - overlap_start,
           pb_map_vaddr := pb_map_vaddr m + (overlap_start - pb_start_addr m), pb_map_size := overlap_end - overlap_start\<rparr>)"

definition ph_FindMappings :: "nat \<Rightarrow> nat \<Rightarrow> physical \<Rightarrow> pblock list" where
  "ph_FindMappings phys_addr len ph =
     sort_key pb_map_vaddr (map (mapping_part phys_addr len)
       (filter (\<lambda>m. VirtualRangesOverlap phys_addr len (pb_start_addr m) (pb_size m)) (ph_mappings ph)))"

definition ph_Find :: "nat \<Rightarrow> physical \<Rightarrow> pblock option" where
  "ph_Find vaddr ph = find (\<lambda>b. vaddr \<ge> pb_map_vaddr b \<and> vaddr < map_end b) (ph_mappings ph)"

definition ph_SetVirtualRangeName :: "nat \<Rightarrow> nat \<Rightarrow> string option \<Rightarrow> physical \<Rightarrow> physical" where
  "ph_SetVirtualRangeName vaddr len name ph =
     ph\<lparr>ph_mappings := map (\<lambda>b. if VirtualRangesOverlap vaddr len (pb_map_vaddr b) (pb_map_size b)
          then b\<lparr>pb_name := CopyVirtualRangeName name\<rparr> else b) (ph_mappings ph)\<rparr>"

definition ph_SetVirtualRangeMemoryType :: "nat \<Rightarrow> nat \<Rightarrow> int \<Rightarrow> physical \<Rightarrow> physical" where
  "ph_SetVirtualRangeMemoryType vaddr len memory_type ph =
     ph\<lparr>ph_mappings := map (\<lambda>b. if VirtualRangesOverlap vaddr len (pb_map_vaddr b) (pb_map_size b)
          then b\<lparr>pb_memory_type := memory_type\<rparr> else b) (ph_mappings ph)\<rparr>"

section \<open>Who has a byte of direct memory\<close>

text \<open>Blocks one after the other; memory type and pool of the block at an address.\<close>

fun stacked :: "nat \<Rightarrow> pblock list \<Rightarrow> bool" where
  "stacked s [] \<longleftrightarrow> True"
| "stacked s (b # bs) \<longleftrightarrow> s \<le> pb_start_addr b \<and> 0 < pb_size b \<and> stacked (pb_end b) bs"

fun owner :: "pblock list \<Rightarrow> nat \<Rightarrow> (int \<times> bool) option" where
  "owner [] a = None"
| "owner (b # bs) a =
     (if pb_start_addr b \<le> a \<and> a < pb_end b then Some (pb_memory_type b, pb_pool_expansion b) else owner bs a)"

text \<open>Every byte is either free or in exactly one block.\<close>

definition blocks_ok :: "physical \<Rightarrow> bool" where
  "blocks_ok ph \<longleftrightarrow>
     free_ok (ph_free ph) \<and> stacked 0 (ph_blocks ph) \<and> ph_size ph \<le> UINT64_MAX \<and>
     (\<forall>a. a \<in> free_bytes (ph_free ph) \<longleftrightarrow> a < ph_size ph \<and> owner (ph_blocks ph) a = None) \<and>
     (\<forall>a. owner (ph_blocks ph) a \<noteq> None \<longrightarrow> a < ph_size ph)"

lemma stacked_mono: "stacked s bs \<Longrightarrow> s' \<le> s \<Longrightarrow> stacked s' bs"
  by (cases bs) auto

lemma stacked_append: "stacked s (xs @ ys) \<longleftrightarrow> stacked s xs \<and> stacked (if xs = [] then s else pb_end (last xs)) ys"
  by (induction s xs rule: stacked.induct) auto

lemma stacked_mem: "stacked s bs \<Longrightarrow> b \<in> set bs \<Longrightarrow> s \<le> pb_start_addr b \<and> 0 < pb_size b"
proof (induction s bs rule: stacked.induct)
  case (2 s c bs)
  then show ?case using stacked_mono [of "pb_end c" bs s] by auto
qed simp

lemma owner_append: "owner (xs @ ys) a = (case owner xs a of None \<Rightarrow> owner ys a | Some v \<Rightarrow> Some v)"
  by (induction xs) auto

lemma owner_None: "owner bs a = None \<longleftrightarrow> (\<forall>b\<in>set bs. \<not> (pb_start_addr b \<le> a \<and> a < pb_end b))"
  by (induction bs) auto

lemma owner_below: "stacked s bs \<Longrightarrow> a < s \<Longrightarrow> owner bs a = None"
  unfolding owner_None using stacked_mem by fastforce

lemma owner_mem:
  "stacked s bs \<Longrightarrow> b \<in> set bs \<Longrightarrow> pb_start_addr b \<le> a \<Longrightarrow> a < pb_end b \<Longrightarrow>
     owner bs a = Some (pb_memory_type b, pb_pool_expansion b)"
proof (induction s bs rule: stacked.induct)
  case (2 s c bs)
  show ?case
  proof (cases "b = c")
    case False
    then have "b \<in> set bs" using 2 by simp
    then have "pb_end c \<le> pb_start_addr b" using 2 stacked_mem [of "pb_end c" bs b] by auto
    then show ?thesis using 2 \<open>b \<in> set bs\<close> by simp
  qed (use 2 in simp)
qed simp

text \<open>Before the last block that starts at or before an address, none reaches it; those after start above it.\<close>

lemma block_bound_split:
  assumes "block_upper_bound addr bs = (before, rest)" "stacked s bs"
  shows "bs = before @ rest" "\<forall>b\<in>set before. pb_start_addr b \<le> addr" "\<forall>b\<in>set rest. addr < pb_start_addr b"
proof -
  have b: "before = takeWhile (\<lambda>b. pb_start_addr b \<le> addr) bs" "rest = dropWhile (\<lambda>b. pb_start_addr b \<le> addr) bs"
    using assms(1) by (simp_all add: block_upper_bound_def)
  then show "bs = before @ rest" by simp
  show "\<forall>b\<in>set before. pb_start_addr b \<le> addr" using b(1) set_takeWhileD by fastforce
  have "\<forall>b\<in>set (dropWhile (\<lambda>b. pb_start_addr b \<le> addr) bs). addr < pb_start_addr b"
    using assms(2)
  proof (induction s bs rule: stacked.induct)
    case (2 s c bs)
    show ?case
    proof (cases "pb_start_addr c \<le> addr")
      case False
      then show ?thesis using stacked_mem [of "pb_end c" bs] 2(2) by fastforce
    qed (use 2 in simp)
  qed simp
  then show "\<forall>b\<in>set rest. addr < pb_start_addr b" using b(2) by simp
qed

lemma stacked_last:
  assumes "stacked s (before @ rest)" "before \<noteq> []" "b \<in> set before" "b \<noteq> last before"
  shows "pb_end b \<le> pb_start_addr (last before)"
proof -
  obtain bs l where b: "before = bs @ [l]" using assms(2) by (cases before rule: rev_cases) auto
  have "stacked s bs \<Longrightarrow> b \<in> set bs \<Longrightarrow> pb_end b \<le> pb_end (last bs)"
  proof (induction s bs rule: stacked.induct)
    case (2 s x xs)
    show ?case
    proof (cases "xs = []")
      case False
      then have "last xs \<in> set xs" by simp
      then have "pb_end x \<le> pb_end (last xs)" using stacked_mem [of "pb_end x" xs "last xs"] 2(2) by auto
      then show ?thesis using 2 False by auto
    qed (use 2 in simp)
  qed simp
  moreover have "b \<in> set bs" using assms(3,4) b by auto
  moreover have "stacked s bs" "pb_end (last bs) \<le> pb_start_addr l"
    using assms(1) b \<open>b \<in> set bs\<close> by (auto simp: stacked_append split: if_splits)
  ultimately show ?thesis using b by auto
qed

section \<open>Allocation finds the lowest place\<close>

definition aligned :: "nat \<Rightarrow> nat \<Rightarrow> bool" where
  "aligned alignment a \<longleftrightarrow> alignment = 0 \<or> a mod alignment = 0"

lemma next_multiple:
  fixes pos al q :: nat
  assumes "pos mod al \<noteq> 0" "q mod al = 0" "pos \<le> q"
  shows "pos + (al - pos mod al) \<le> q"
proof -
  have al: "0 < al"
  proof (rule ccontr)
    assume "\<not> 0 < al"
    then have "q = 0" "pos \<noteq> 0" using assms by simp_all
    then show False using assms(3) by simp
  qed
  obtain k where q: "q = al * k" using assms(2) by auto
  have "al * (pos div al) < al * k" using assms(1,3) mult_div_mod_eq [of al pos] unfolding q by linarith
  then have "pos div al < k" by simp
  then have "al * (pos div al + 1) \<le> al * k" by (intro mult_le_mono2) simp
  moreover have "pos mod al < al" using al by simp
  ultimately show ?thesis using mult_div_mod_eq [of al pos] unfolding q by (simp only: distrib_left mult_1_right)
qed

lemma GetAlignedPos_Some:
  assumes "GetAlignedPos pos al = Some p"
  shows "aligned al p" "pos \<le> p" "aligned al q \<Longrightarrow> pos \<le> q \<Longrightarrow> p \<le> q"
proof -
  have p: "p = (if al = 0 \<or> pos mod al = 0 then pos else pos + (al - pos mod al))"
    using assms by (auto simp: GetAlignedPos_def Let_def split: if_splits)
  show "pos \<le> p"
    using p le_add1 [of pos "al - pos mod al"]
    by (cases "al = 0 \<or> pos mod al = 0") (simp_all only: if_True if_False order_refl)
  show "aligned al p"
  proof (cases "al = 0 \<or> pos mod al = 0")
    case False
    then have "pos mod al < al" by simp
    then have "pos + (al - pos mod al) = al * (pos div al) + al" using mult_div_mod_eq [of al pos] by linarith
    then show ?thesis using p False by (simp add: aligned_def)
  qed (use p in \<open>auto simp: aligned_def\<close>)
  show "p \<le> q" if "aligned al q" "pos \<le> q"
    using p next_multiple [of pos al q] that by (auto simp: aligned_def split: if_splits)
qed

lemma GetAlignedPos_None:
  assumes "GetAlignedPos pos al = None" "aligned al q" "pos \<le> q"
  shows "UINT64_MAX < q"
proof -
  have "al \<noteq> 0" "pos mod al \<noteq> 0" "UINT64_MAX - pos < al - pos mod al"
    using assms(1) by (auto simp: GetAlignedPos_def Let_def split: if_splits)
  then show ?thesis using next_multiple [of pos al q] assms(2,3) by (auto simp: aligned_def)
qed

text \<open>A place for an allocation inside one free range.\<close>

definition room :: "nat \<Rightarrow> nat \<Rightarrow> nat \<Rightarrow> nat \<Rightarrow> nat \<times> nat \<Rightarrow> nat \<Rightarrow> bool" where
  "room search_start search_end len alignment r a \<longleftrightarrow>
     aligned alignment a \<and> search_start \<le> a \<and> a + len \<le> search_end \<and> fst r \<le> a \<and> a + len \<le> fst r + snd r"

lemma alloc_loop_ok:
  assumes "free_ok (before @ m)" "0 < len" "search_end \<le> UINT64_MAX"
  shows "case alloc_loop search_start search_end len alignment before m of
      None \<Rightarrow> \<forall>r\<in>set m. \<forall>a. \<not> room search_start search_end len alignment r a
    | Some (p, free) \<Rightarrow>
        (\<exists>r\<in>set m. room search_start search_end len alignment r p) \<and>
        (\<forall>r\<in>set m. \<forall>a. room search_start search_end len alignment r a \<longrightarrow> p \<le> a) \<and>
        free_ok free \<and> free_bytes free = free_bytes (before @ m) - {p..<p + len}"
  using assms
proof (induction search_start search_end len alignment before m rule: alloc_loop.induct)
  case (2 search_start search_end len alignment before a n m)
  let ?room = "room search_start search_end len alignment"
  have sep: "separated 0 (pieces before @ (a, a + n) # pieces m)" using 2(3) by (simp add: free_ok_def)
  have above: "a + n < fst r" if "r \<in> set m" for r
  proof -
    have "separated (a + n + 1) (pieces m)" using sep by (auto simp: separated_append)
    moreover have "(fst r, fst r + snd r) \<in> set (pieces m)" using that by (rule pieces_mem)
    ultimately show ?thesis using separated_bound by fastforce
  qed
  show ?case
  proof (cases "search_end \<le> a")
    case True
    have "\<not> ?room r x" if "r \<in> set ((a, n) # m)" for r x
    proof
      assume "?room r x"
      then have "fst r \<le> x" "x + len \<le> search_end" by (simp_all add: room_def)
      moreover have "a \<le> fst r" using that above [of r] by auto
      ultimately show False using True 2(4) by linarith
    qed
    then show ?thesis using True by auto
  next
    case False
    let ?e = "min (a + n) search_end" and ?l = "max a search_start"
    have pre: "free_ok ((before @ [(a, n)]) @ m)" using 2(3) by simp
    let ?next = "alloc_loop search_start search_end len alignment (before @ [(a, n)]) m"
    have skip: ?thesis
      if eq: "alloc_loop search_start search_end len alignment before ((a, n) # m) = ?next"
        and no: "\<And>x. \<not> ?room (a, n) x"
        and ih: "case ?next of None \<Rightarrow> \<forall>r\<in>set m. \<forall>a. \<not> ?room r a
          | Some (p, free) \<Rightarrow> (\<exists>r\<in>set m. ?room r p) \<and> (\<forall>r\<in>set m. \<forall>a. ?room r a \<longrightarrow> p \<le> a) \<and>
              free_ok free \<and> free_bytes free = free_bytes ((before @ [(a, n)]) @ m) - {p..<p + len}"
      using ih no unfolding eq by (auto split: option.splits)
    show ?thesis
    proof (cases "GetAlignedPos ?l alignment")
      case None
      have "\<not> ?room (a, n) x" for x
        using GetAlignedPos_None [OF None, of x] 2(5) False 2(3) sep by (auto simp: room_def) 
      then show ?thesis
        using skip 2(1) [OF False refl refl None pre 2(4,5)] None False by (simp add: Let_def)
    next
      case (Some p)
      note g = GetAlignedPos_Some [OF Some]
      show ?thesis
      proof (cases "p < ?l \<or> p > ?e \<or> len > ?e - p")
        case True
        have "\<not> ?room (a, n) x" for x
        proof
          assume r: "?room (a, n) x"
          then have "p \<le> x" by (intro g(3)) (auto simp: room_def)
          then show False using True g(2) r by (auto simp: room_def)
        qed
        then show ?thesis
          using skip 2(2) [OF False refl refl Some True pre 2(4,5)] Some False True by (simp add: Let_def)
      next
        case ok: False
        then have p: "a \<le> p" "search_start \<le> p" "p + len \<le> a + n" "p + len \<le> search_end" using g(2) by auto
        have res: "alloc_loop search_start search_end len alignment before ((a, n) # m)
            = Some (p, ConsumeFreeRange before (a, n) m p len)"
          using False Some ok by (simp add: Let_def)
        note c = ConsumeFreeRange_ok [OF 2(3) p(1,3) 2(4)]
        have "?room (a, n) p" using p g(1) by (simp add: room_def)
        moreover have "p \<le> x" if "r \<in> set ((a, n) # m)" "?room r x" for r x
        proof (cases "r = (a, n)")
          case True
          then show ?thesis using that(2) by (intro g(3)) (auto simp: room_def)
        next
          case False
          then have "a + n < fst r" using that(1) above by auto
          then show ?thesis using that(2) p by (simp add: room_def)
        qed
        ultimately show ?thesis using c unfolding res option.case prod.case by auto
      qed
    qed
  qed
qed simp

lemma block_emplace_ok:
  assumes "stacked s bs" "s \<le> pb_start_addr b" "0 < pb_size b"
    "\<forall>a. pb_start_addr b \<le> a \<and> a < pb_end b \<longrightarrow> owner bs a = None"
  shows "\<exists>bs'. block_emplace b bs = Some bs' \<and> stacked s bs' \<and>
    (\<forall>a. owner bs' a = (if pb_start_addr b \<le> a \<and> a < pb_end b then Some (pb_memory_type b, pb_pool_expansion b) else owner bs a))"
  using assms
proof (induction s bs rule: stacked.induct)
  case (2 s c bs)
  have c: "s \<le> pb_start_addr c" "0 < pb_size c" "stacked (pb_end c) bs" using 2(2) by simp_all
  have nc: "\<not> (pb_start_addr c \<le> a \<and> a < pb_end c)" if "pb_start_addr b \<le> a" "a < pb_end b" for a
    using 2(5) that by (auto split: if_splits)
  consider "pb_start_addr b < pb_start_addr c" | "pb_start_addr b = pb_start_addr c" | "pb_start_addr c < pb_start_addr b" by linarith
  then show ?case
  proof cases
    case 1
    have "\<not> pb_start_addr c < pb_end b" using nc [of "pb_start_addr c"] c(2) 1 by auto
    then have "pb_end b \<le> pb_start_addr c" by simp
    then show ?thesis using 1 2(3,4) c by auto
  next
    case 2
    then show ?thesis using nc [of "pb_start_addr b"] \<open>0 < pb_size b\<close> c(2) by auto
  next
    case 3
    then have e: "pb_end c \<le> pb_start_addr b" using nc [of "pb_start_addr b"] 2(4) by auto
    have "\<forall>a. pb_start_addr b \<le> a \<and> a < pb_end b \<longrightarrow> owner bs a = None" using 2(5) nc by (auto split: if_splits)
    from 2(1) [OF c(3) e 2(4) this] obtain bs' where b': "block_emplace b bs = Some bs'" "stacked (pb_end c) bs'"
      "\<forall>a. owner bs' a = (if pb_start_addr b \<le> a \<and> a < pb_end b then Some (pb_memory_type b, pb_pool_expansion b) else owner bs a)"
      by blast
    have "owner (c # bs') a = (if pb_start_addr b \<le> a \<and> a < pb_end b then Some (pb_memory_type b, pb_pool_expansion b)
        else owner (c # bs) a)" for a
      using b'(3) nc [of a] by (cases "pb_start_addr b \<le> a \<and> a < pb_end b") auto
    then show ?thesis using 3 b'(1,2) c by auto
  qed
qed simp

text \<open>A place for \<open>len\<close> bytes of direct memory.\<close>

definition place :: "physical \<Rightarrow> nat \<Rightarrow> nat \<Rightarrow> nat \<Rightarrow> nat \<Rightarrow> nat \<Rightarrow> bool" where
  "place ph search_start search_end len alignment a \<longleftrightarrow>
     aligned alignment a \<and> search_start \<le> a \<and> a + len \<le> search_end \<and> a + len \<le> ph_size ph \<and>
     (\<forall>x. a \<le> x \<and> x < a + len \<longrightarrow> owner (ph_blocks ph) x = None)"

lemma blocks_okD:
  assumes "blocks_ok ph"
  shows "free_ok (ph_free ph)" "stacked 0 (ph_blocks ph)" "ph_size ph \<le> UINT64_MAX"
    "a \<in> free_bytes (ph_free ph) \<longleftrightarrow> a < ph_size ph \<and> owner (ph_blocks ph) a = None"
    "owner (ph_blocks ph) a \<noteq> None \<Longrightarrow> a < ph_size ph"
  using assms unfolding blocks_ok_def by blast+

lemma place_room:
  assumes "blocks_ok ph" "0 < len"
  shows "place ph s e len al a \<longleftrightarrow> (\<exists>r\<in>set (ph_free ph). room s (min e (ph_size ph)) len al r a)"
proof
  assume p: "place ph s e len al a"
  then have "{a..<a + len} \<subseteq> free_bytes (ph_free ph)" using blocks_okD(4) [OF assms(1)] by (auto simp: place_def)
  from free_run [OF blocks_okD(1) [OF assms(1)] this assms(2)] p
  show "\<exists>r\<in>set (ph_free ph). room s (min e (ph_size ph)) len al r a" by (auto simp: room_def place_def)
next
  assume "\<exists>r\<in>set (ph_free ph). room s (min e (ph_size ph)) len al r a"
  then obtain r where r: "r \<in> set (ph_free ph)" "room s (min e (ph_size ph)) len al r a" by blast
  have "x \<in> free_bytes (ph_free ph)" if "a \<le> x" "x < a + len" for x
    using r that by (auto simp: free_bytes_iff room_def intro!: bexI [of _ r])
  then show "place ph s e len al a" using r(2) blocks_okD(4) [OF assms(1)] by (auto simp: place_def room_def)
qed

lemma ph_Alloc_ok:
  assumes ok: "blocks_ok ph" and len: "0 < len"
  shows "case ph_Alloc s e len al mt pool ph of
      Inl x \<Rightarrow> False
    | Inr (ph', None) \<Rightarrow> ph' = ph \<and> (\<forall>a. \<not> place ph s e len al a)
    | Inr (ph', Some p) \<Rightarrow>
        place ph s e len al p \<and> (\<forall>a. place ph s e len al a \<longrightarrow> p \<le> a) \<and>
        blocks_ok ph' \<and> ph_mappings ph' = ph_mappings ph \<and> ph_size ph' = ph_size ph \<and>
        (\<forall>a. owner (ph_blocks ph') a = (if p \<le> a \<and> a < p + len then Some (mt, pool) else owner (ph_blocks ph) a))"
proof -
  let ?e = "min e (ph_size ph)"
  note d = blocks_okD [OF ok]
  show ?thesis
  proof (cases "s \<ge> ?e")
    case True
    then have "\<not> place ph s e len al a" for a using len by (auto simp: place_def)
    then show ?thesis using True by (simp add: ph_Alloc_def)
  next
    case False
    let ?it = "upper_bound s (ph_free ph)"
    let ?it' = "if fst ?it \<noteq> [] then step_back ?it else ?it"
    have it: "fst ?it @ snd ?it = ph_free ph" by (simp add: upper_bound_def)
    have it': "fst ?it' @ snd ?it' = ph_free ph"
    proof (cases "fst ?it = []")
      case False
      then have "butlast (fst ?it) @ [last (fst ?it)] @ snd ?it = fst ?it @ snd ?it" by simp
      then show ?thesis using it False by (simp add: step_back_def)
    qed (use it in simp)
    have le: "fst r \<le> s" if "r \<in> set (fst ?it)" for r
      using set_takeWhileD that unfolding upper_bound_def by fastforce
    have early: "\<not> room s ?e len al r a" if r: "r \<in> set (fst ?it')" for r a
    proof
      assume rm: "room s ?e len al r a"
      have ne: "fst ?it \<noteq> []" using r by (auto split: if_splits)
      then obtain xs l where x: "fst ?it = xs @ [l]" by (metis append_butlast_last_id)
      then have rx: "r \<in> set xs" using r ne by (simp add: step_back_def)
      have m: "ph_free ph = xs @ l # snd ?it" using it [symmetric] unfolding x append_assoc append_Cons append_Nil .
      have fl: "free_ok (xs @ l # snd ?it)" by (rule subst [where P = free_ok, OF m d(1)])
      have sep: "separated 0 (pieces xs @ (fst l, fst l + snd l) # pieces (snd ?it))"
        using fl [unfolded free_ok_def] by (simp only: list.map map_append case_prod_beta)
      have "fst r + snd r < fst l" using separated_before [OF sep pieces_mem [OF rx]] by simp
      moreover have "fst l \<le> s" using le [of l] x by simp
      ultimately show False using rm len by (simp add: room_def)
    qed
    have fo: "free_ok (fst ?it' @ snd ?it')" unfolding it' by (rule d(1))
    have "?e \<le> UINT64_MAX" using d(3) by simp
    note al = alloc_loop_ok [OF fo len this, of s al, unfolded it']
    have pl: "place ph s e len al a \<longleftrightarrow> (\<exists>r\<in>set (snd ?it'). room s ?e len al r a)" for a
    proof -
      have "set (ph_free ph) = set (fst ?it') \<union> set (snd ?it')" by (metis it' set_append)
      then show ?thesis unfolding place_room [OF ok len] using early by blast
    qed
    have def: "ph_Alloc s e len al mt pool ph =
      (case alloc_loop s ?e len al (fst ?it') (snd ?it') of
         None \<Rightarrow> Inr (ph, None)
       | Some (free_pos, free) \<Rightarrow>
           (case block_emplace (new_block free_pos len mt pool) (ph_blocks ph) of
              None \<Rightarrow> Inl EXIT
            | Some blocks \<Rightarrow> Inr (ph\<lparr>ph_free := free, ph_blocks := blocks\<rparr>, Some free_pos)))"
      using False by (simp add: ph_Alloc_def Let_def)
    show ?thesis
    proof (cases "alloc_loop s ?e len al (fst ?it') (snd ?it')")
      case None
      then have "\<not> place ph s e len al a" for a using al unfolding pl by simp
      then show ?thesis unfolding def None by simp
    next
      case (Some pf)
      obtain p free where pf: "pf = (p, free)" by (cases pf)
      have f: "\<exists>r\<in>set (snd ?it'). room s ?e len al r p" "\<forall>r\<in>set (snd ?it'). \<forall>a. room s ?e len al r a \<longrightarrow> p \<le> a"
          "free_ok free" "free_bytes free = free_bytes (ph_free ph) - {p..<p + len}"
        using al unfolding Some pf option.case prod.case by blast+
      have pp: "place ph s e len al p" and lo: "\<forall>a. place ph s e len al a \<longrightarrow> p \<le> a" using f(1,2) pl by auto
      let ?b = "new_block p len mt pool"
      have b: "pb_start_addr ?b = p" "pb_size ?b = len" "pb_memory_type ?b = mt" "pb_pool_expansion ?b = pool"
        by (simp_all add: new_block_def)
      obtain bs' where bs': "block_emplace ?b (ph_blocks ph) = Some bs'" "stacked 0 bs'"
          "\<forall>a. owner bs' a = (if p \<le> a \<and> a < p + len then Some (mt, pool) else owner (ph_blocks ph) a)"
        using block_emplace_ok [OF d(2), of ?b] b len pp by (auto simp: place_def)
      let ?ph = "ph\<lparr>ph_free := free, ph_blocks := bs'\<rparr>"
      have "blocks_ok ?ph"
        unfolding blocks_ok_def
      proof (intro conjI allI impI)
        fix a
        show "a \<in> free_bytes (ph_free ?ph) \<longleftrightarrow> a < ph_size ?ph \<and> owner (ph_blocks ?ph) a = None"
          using d(4) [of a] bs'(3) by (auto simp: f(4))
        show "a < ph_size ?ph" if "owner (ph_blocks ?ph) a \<noteq> None"
          using that bs'(3) d(5) [of a] pp by (auto simp: place_def split: if_splits)
      qed (use f bs' d in simp_all)
      moreover have "ph_Alloc s e len al mt pool ph = Inr (?ph, Some p)"
        unfolding def Some pf option.case prod.case bs'(1) by (rule refl)
      ultimately show ?thesis using pp lo bs'(3) by simp
    qed
  qed
qed

section \<open>Release gives back exactly the range\<close>

lemma release_block_ok:
  assumes b: "0 < pb_size b" "pb_start_addr b \<le> start" "start + len \<le> pb_end b" "0 < len" "\<not> pb_pool_expansion b"
  shows "\<exists>parts vaddr bytes. release_block start len b = Some (parts, vaddr, bytes) \<and>
    stacked (pb_start_addr b) parts \<and> (\<forall>p\<in>set parts. pb_end p \<le> pb_end b) \<and>
    (\<forall>a. owner parts a = (if pb_start_addr b \<le> a \<and> a < pb_end b \<and> \<not> (start \<le> a \<and> a < start + len)
       then Some (pb_memory_type b, pb_pool_expansion b) else None))"
proof -
  consider (all) "start = pb_start_addr b" "len = pb_size b"
    | (mid) "start > pb_start_addr b" "start + len < pb_end b"
    | (left) "start = pb_start_addr b" "len < pb_size b"
    | (right) "start > pb_start_addr b" "start + len = pb_end b"
    using b by linarith
  then show ?thesis
  proof cases
    case all
    then show ?thesis by (auto simp: release_block_def)
  next
    case mid
    then show ?thesis using b by (auto simp: release_block_def Let_def)
  next
    case left
    then show ?thesis using b by (auto simp: release_block_def Let_def)
  next
    case right
    then show ?thesis using b by (auto simp: release_block_def Let_def)
  qed
qed

lemma stacked_replace:
  assumes "stacked s (xs @ b # ys)" "stacked (pb_start_addr b) parts" "\<forall>p\<in>set parts. pb_end p \<le> pb_end b"
  shows "stacked s (xs @ parts @ ys)"
    "owner (xs @ parts @ ys) a = (if pb_start_addr b \<le> a \<and> a < pb_end b then owner parts a else owner (xs @ b # ys) a)"
proof -
  let ?s = "if xs = [] then s else pb_end (last xs)"
  have s: "stacked s xs" "?s \<le> pb_start_addr b" "0 < pb_size b" "stacked (pb_end b) ys"
    using assms(1) by (simp_all add: stacked_append)
  have p: "stacked ?s parts" using assms(2) s(2) by (rule stacked_mono)
  have "stacked (if parts = [] then ?s else pb_end (last parts)) ys"
    using s(2,4) assms(3) by (auto intro: stacked_mono [OF s(4)])
  with s p show "stacked s (xs @ parts @ ys)" by (simp add: stacked_append)
  have before: "pb_end x \<le> pb_start_addr b" if "x \<in> set xs" for x
    using stacked_last [OF assms(1) _ that] s(2) that by (cases "x = last xs") (auto split: if_splits dest: stacked_mem [OF assms(1)])
  have ox: "owner xs a = None" if "pb_start_addr b \<le> a" using before that by (force simp: owner_None)
  have oy: "owner ys a = None" if "a < pb_end b" by (rule owner_below [OF s(4) that])
  have op: "owner parts a = None" if "\<not> (pb_start_addr b \<le> a \<and> a < pb_end b)"
    unfolding owner_None using that assms(3) stacked_mem [OF assms(2)] by fastforce
  show "owner (xs @ parts @ ys) a = (if pb_start_addr b \<le> a \<and> a < pb_end b then owner parts a else owner (xs @ b # ys) a)"
    using ox oy op by (auto simp: owner_append split: option.split)
qed

text \<open>What a successful release does, of one block or of a pool's expansion.\<close>

definition released :: "nat \<Rightarrow> nat \<Rightarrow> physical \<Rightarrow> physical \<Rightarrow> bool" where
  "released start len ph ph' \<longleftrightarrow>
     blocks_ok ph' \<and> ph_mappings ph' = ph_mappings ph \<and> ph_size ph' = ph_size ph \<and>
     (\<forall>a. owner (ph_blocks ph') a = (if start \<le> a \<and> a < start + len then None else owner (ph_blocks ph) a))"

lemma released_intro:
  assumes ok: "blocks_ok ph" and len: "0 < len" "start + len \<le> ph_size ph" and st: "stacked 0 bs"
    and own: "\<And>a. owner bs a = (if start \<le> a \<and> a < start + len then None else owner (ph_blocks ph) a)"
  shows "released start len ph (ph\<lparr>ph_blocks := bs, ph_free := AddFreeRange start len (ph_free ph)\<rparr>)"
proof -
  note d = blocks_okD [OF ok]
  have "start + len \<le> UINT64_MAX" using len(2) d(3) by simp
  note f = AddFreeRange_ok [OF d(1) len(1) this]
  let ?ph = "ph\<lparr>ph_blocks := bs, ph_free := AddFreeRange start len (ph_free ph)\<rparr>"
  have "blocks_ok ?ph"
    unfolding blocks_ok_def
  proof (intro conjI allI impI)
    fix a
    show "a \<in> free_bytes (ph_free ?ph) \<longleftrightarrow> a < ph_size ?ph \<and> owner (ph_blocks ?ph) a = None"
      using d(4) [of a] own [of a] len by (auto simp: f(2))
    show "a < ph_size ?ph" if "owner (ph_blocks ?ph) a \<noteq> None" using that own d(5) [of a] by (simp split: if_splits)
  qed (use f d st in simp_all)
  then show ?thesis using own by (simp add: released_def)
qed

lemma block_below_size:
  assumes "blocks_ok ph" "b \<in> set (ph_blocks ph)"
  shows "pb_end b \<le> ph_size ph"
proof -
  note d = blocks_okD [OF assms(1)]
  have p: "0 < pb_size b" using stacked_mem [OF d(2) assms(2)] by simp
  then have "owner (ph_blocks ph) (pb_end b - 1) \<noteq> None" using owner_mem [OF d(2) assms(2), of "pb_end b - 1"] by simp
  then show ?thesis using d(5) p by fastforce
qed

lemma ph_Release_ok:
  assumes ok: "blocks_ok ph" and len: "0 < len" and rel: "ph_Release start len ph = (ph', res)"
  shows "if \<exists>b\<in>set (ph_blocks ph). \<not> pb_pool_expansion b \<and> pb_start_addr b \<le> start \<and> start + len \<le> pb_end b
    then res \<noteq> None \<and> released start len ph ph' else res = None \<and> ph' = ph"
proof -
  note d = blocks_okD [OF ok]
  obtain before rest where u: "block_upper_bound start (ph_blocks ph) = (before, rest)"
    by (cases "block_upper_bound start (ph_blocks ph)")
  note s = block_bound_split [OF u d(2)]
  have uniq: "b = last before" if "b \<in> set (ph_blocks ph)" "pb_start_addr b \<le> start" "start + len \<le> pb_end b" for b
  proof -
    have bb: "b \<in> set before" using that s by auto
    then have ne: "before \<noteq> []" by auto
    show ?thesis
    proof (rule ccontr)
      assume "b \<noteq> last before"
      then have "pb_end b \<le> pb_start_addr (last before)" using stacked_last [of 0 before rest b] d(2) s(1) ne bb by simp
      moreover have "pb_start_addr (last before) \<le> start" using s(2) ne by simp
      ultimately show False using that(3) len by simp
    qed
  qed
  show ?thesis
  proof (cases "\<exists>b\<in>set (ph_blocks ph). \<not> pb_pool_expansion b \<and> pb_start_addr b \<le> start \<and> start + len \<le> pb_end b")
    case True
    then obtain b where b: "b \<in> set (ph_blocks ph)" "\<not> pb_pool_expansion b" "pb_start_addr b \<le> start" "start + len \<le> pb_end b"
      by blast
    have "b \<in> set before" using b s by auto
    then obtain xs where x: "before = xs @ [b]" using uniq [OF b(1,3,4)] by (metis append_butlast_last_id empty_iff list.set(1))
    have pos: "0 < pb_size b" using stacked_mem [OF d(2) b(1)] by simp
    obtain parts vaddr bytes where r: "release_block start len b = Some (parts, vaddr, bytes)"
        "stacked (pb_start_addr b) parts" "\<forall>p\<in>set parts. pb_end p \<le> pb_end b"
        "\<forall>a. owner parts a = (if pb_start_addr b \<le> a \<and> a < pb_end b \<and> \<not> (start \<le> a \<and> a < start + len)
           then Some (pb_memory_type b, pb_pool_expansion b) else None)"
      using release_block_ok [OF pos b(3,4) len b(2)] by blast
    have "ph_Release start len ph = (ph\<lparr>ph_blocks := xs @ parts @ rest, ph_free := AddFreeRange start len (ph_free ph)\<rparr>,
        Some (vaddr, bytes, pb_gpu_mode b))"
      using b len r(1) by (auto simp: ph_Release_def u x)
    then have res: "ph' = ph\<lparr>ph_blocks := xs @ parts @ rest, ph_free := AddFreeRange start len (ph_free ph)\<rparr>" "res \<noteq> None"
      using rel by auto
    have bl: "ph_blocks ph = xs @ b # rest" using s(1) x by simp
    have st: "stacked 0 (xs @ b # rest)" using d(2) bl by simp
    note rep = stacked_replace [OF st r(2,3)]
    have "released start len ph ph'" unfolding res(1)
    proof (rule released_intro [OF ok len _ rep(1)])
      show "start + len \<le> ph_size ph" using block_below_size [OF ok b(1)] b(4) by simp
      fix a
      show "owner (xs @ parts @ rest) a = (if start \<le> a \<and> a < start + len then None else owner (ph_blocks ph) a)"
        using rep(2) [of a] r(4) owner_mem [OF d(2) b(1), of a] b(3,4) by (auto simp: bl)
    qed
    then show ?thesis using True res(2) by simp
  next
    case False
    have "res = None \<and> ph' = ph"
    proof (cases "before = []")
      case True
      then show ?thesis using rel by (simp add: ph_Release_def u)
    next
      case ne: False
      then have m: "last before \<in> set (ph_blocks ph)" using s(1) by simp
      have "pb_pool_expansion (last before) \<or> start < pb_start_addr (last before) \<or> start \<ge> pb_end (last before) \<or>
          len > pb_end (last before) - start"
      proof (rule ccontr)
        assume c: "\<not> ?thesis"
        then have "start + len \<le> pb_end (last before)" by linarith
        then show False using False m c by auto
      qed
      then show ?thesis using rel ne by (auto simp: ph_Release_def u Let_def)
    qed
    then show ?thesis using False by simp
  qed
qed

lemma stacked_unique:
  "stacked s bs \<Longrightarrow> b \<in> set bs \<Longrightarrow> c \<in> set bs \<Longrightarrow> pb_start_addr b = pb_start_addr c \<Longrightarrow> b = c"
proof (induction s bs rule: stacked.induct)
  case (2 s x bs)
  have "pb_start_addr x < pb_start_addr y" if "y \<in> set bs" for y
    using that 2(2) stacked_mem [of "pb_end x" bs y] by auto
  then show ?case using 2 by fastforce
qed simp

lemma ph_ReleasePoolExpansion_ok:
  assumes ok: "blocks_ok ph" and len: "0 < len" and rel: "ph_ReleasePoolExpansion a len ph = (ph', r)"
  shows "if \<exists>b\<in>set (ph_blocks ph). pb_pool_expansion b \<and> pb_start_addr b = a \<and> pb_size b = len
    then r \<and> released a len ph ph' else \<not> r \<and> ph' = ph"
proof -
  note d = blocks_okD [OF ok]
  have uniq: "b = c" if "b \<in> set (ph_blocks ph)" "c \<in> set (ph_blocks ph)" "pb_start_addr b = pb_start_addr c" for b c
    by (rule stacked_unique [OF d(2) that])
  show ?thesis
  proof (cases "find (\<lambda>b. pb_start_addr b = a) (ph_blocks ph)")
    case None
    then have "\<not> (\<exists>b\<in>set (ph_blocks ph). pb_start_addr b = a)" unfolding find_None_iff by blast
    then show ?thesis using rel None by (auto simp: ph_ReleasePoolExpansion_def)
  next
    case (Some b)
    then have b: "b \<in> set (ph_blocks ph)" "pb_start_addr b = a" by (auto simp: find_Some_iff)
    show ?thesis
    proof (cases "pb_pool_expansion b \<and> pb_size b = len")
      case False
      then have "\<not> (\<exists>c\<in>set (ph_blocks ph). pb_pool_expansion c \<and> pb_start_addr c = a \<and> pb_size c = len)"
        using uniq [OF b(1)] b(2) by metis
      then show ?thesis using rel Some False by (auto simp: ph_ReleasePoolExpansion_def)
    next
      case True
      obtain xs ys where x: "ph_blocks ph = xs @ b # ys" "b \<notin> set xs" using b(1) by (metis split_list_first)
      have res: "ph' = ph\<lparr>ph_blocks := xs @ [] @ ys, ph_free := AddFreeRange a len (ph_free ph)\<rparr>" "r"
        using rel Some True x by (auto simp: ph_ReleasePoolExpansion_def remove1_append)
      have st: "stacked 0 (xs @ b # ys)" using d(2) x(1) by simp
      note rep = stacked_replace [OF st, of "[]", simplified]
      have "released a len ph ph'" unfolding res(1)
      proof (rule released_intro [OF ok len])
        show "a + len \<le> ph_size ph" using block_below_size [OF ok b(1)] b(2) True by simp
        show "stacked 0 (xs @ [] @ ys)" using rep(1) by simp
        fix x
        show "owner (xs @ [] @ ys) x = (if a \<le> x \<and> x < a + len then None else owner (ph_blocks ph) x)"
          using rep(2) [of x] b(2) True \<open>ph_blocks ph = xs @ b # ys\<close> by simp
      qed
      then show ?thesis using b True res(2) by auto
    qed
  qed
qed

section \<open>Spans are allocated bytes\<close>

lemma span_block_ok:
  assumes st: "stacked s bs"
  shows "case span_block a bs of
      None \<Rightarrow> \<not> (\<exists>mt. owner bs a = Some (mt, False))
    | Some (b, rest) \<Rightarrow> b \<in> set bs \<and> pb_start_addr b \<le> a \<and> a < pb_end b \<and> \<not> pb_pool_expansion b \<and>
        (\<exists>xs. bs = xs @ b # rest)"
proof -
  obtain before rest where u: "block_upper_bound a bs = (before, rest)" by (cases "block_upper_bound a bs")
  note sp = block_bound_split [OF u st]
  have at: "owner bs a = (if before \<noteq> [] \<and> a < pb_end (last before)
      then Some (pb_memory_type (last before), pb_pool_expansion (last before)) else None)"
  proof (cases "before \<noteq> [] \<and> a < pb_end (last before)")
    case True
    then have "last before \<in> set bs" "pb_start_addr (last before) \<le> a" using sp by auto
    then show ?thesis using owner_mem [OF st] True by simp
  next
    case False
    have "\<not> (pb_start_addr b \<le> a \<and> a < pb_end b)" if "b \<in> set bs" for b
    proof
      assume b: "pb_start_addr b \<le> a \<and> a < pb_end b"
      then have bb: "b \<in> set before" using that sp by auto
      then have "before \<noteq> []" by auto
      moreover have "pb_start_addr (last before) \<le> a" using sp(2) calculation by simp
      moreover have "b = last before \<or> pb_end b \<le> pb_start_addr (last before)"
        using stacked_last [of s before rest b] st sp(1) calculation(1) bb by auto
      ultimately show False using b False by auto
    qed
    then have "owner bs a = None" by (simp add: owner_None)
    then show ?thesis using False by auto
  qed
  show ?thesis
  proof (cases "before = []")
    case True
    then show ?thesis using at by (simp add: span_block_def u)
  next
    case False
    then have m: "last before \<in> set bs" "pb_start_addr (last before) \<le> a" using sp by auto
    have x: "bs = butlast before @ last before # rest"
    proof -
      have "before = butlast before @ [last before]" using False by simp
      then have "before @ rest = butlast before @ last before # rest" by (metis append.assoc append_Cons append_Nil)
      then show ?thesis using sp(1) by simp
    qed
    then have xs: "\<exists>xs. bs = xs @ last before # rest" by blast
    show ?thesis
      using False at m xs by (auto simp: span_block_def u Let_def)
  qed
qed

lemma span_loop_ok:
  assumes "stacked s bs"
  shows "case span_loop end1 current bs of
      None \<Rightarrow> \<exists>a. current \<le> a \<and> a < end1 \<and> \<not> (\<exists>mt. owner bs a = Some (mt, False))
    | Some ps \<Rightarrow> stacked current ps \<and> (\<forall>p\<in>set ps. \<not> pb_pool_expansion p) \<and>
        (\<forall>a. owner ps a = (if current \<le> a \<and> a < end1 then owner bs a else None)) \<and>
        (\<forall>a. current \<le> a \<and> a < end1 \<longrightarrow> (\<exists>mt. owner bs a = Some (mt, False)))"
  using assms
proof (induction end1 current bs rule: span_loop.induct)
  case (1 end1 current bs)
  note sb = span_block_ok [OF 1(2), of current]
  show ?case
  proof (cases "current < end1")
    case False
    then have "span_loop end1 current bs = Some []" by (subst span_loop.simps) simp
    then show ?thesis using False by auto
  next
    case True
    show ?thesis
    proof (cases "span_block current bs")
      case None
      then have "span_loop end1 current bs = None" using True by (subst span_loop.simps) simp
      then show ?thesis using sb None True by auto
    next
      case (Some br)
      obtain b rest where br: "br = (b, rest)" by (cases br)
      have b: "b \<in> set bs" "pb_start_addr b \<le> current" "current < pb_end b" "\<not> pb_pool_expansion b" "\<exists>xs. bs = xs @ b # rest"
        using sb Some br by simp_all
      obtain xs where xs: "bs = xs @ b # rest" using b(5) by blast
      let ?part = "b\<lparr>pb_start_addr := current, pb_size := min end1 (pb_end b) - current\<rparr>"
      let ?c = "min end1 (pb_end b)"
      have ob: "owner bs a = Some (pb_memory_type b, False)" if "pb_start_addr b \<le> a" "a < pb_end b" for a
        using owner_mem [OF 1(2) b(1) that] b(4) by simp
      show ?thesis
      proof (cases "?c < end1 \<and> (rest = [] \<or> pb_start_addr (hd rest) \<noteq> ?c)")
        case stop: True
        then have "span_loop end1 current bs = None" using True Some br by (subst span_loop.simps) (simp add: Let_def)
        moreover have e: "?c = pb_end b" "pb_end b < end1" using stop by auto
        moreover have "owner bs (pb_end b) = None"
        proof -
          have st: "stacked (pb_end b) rest" using 1(2) by (simp add: xs stacked_append)
          have "owner rest (pb_end b) = None"
          proof (cases rest)
            case (Cons h t)
            then have "pb_end b < pb_start_addr h" using st stop e by auto
            moreover have "stacked (pb_end h) t" using st Cons by simp
            ultimately show ?thesis using owner_below [of "pb_end h" t "pb_end b"] Cons by simp
          qed simp
          moreover have "owner xs (pb_end b) = None"
          proof -
            have "pb_end x \<le> pb_end b" if "x \<in> set xs" for x
              using stacked_last [of s xs "b # rest" x] that 1(2) stacked_mem [OF 1(2)] xs
              by (cases "x = last xs") (auto simp: stacked_append split: if_splits)
            then show ?thesis by (force simp: owner_None)
          qed
          ultimately show ?thesis by (simp add: xs owner_append)
        qed
        ultimately show ?thesis using b(3) by (auto intro!: exI [of _ "pb_end b"])
      next
        case go: False
        have eq: "span_loop end1 current bs = map_option (\<lambda>ps. ?part # ps) (span_loop end1 ?c bs)"
          unfolding span_loop.simps [of end1 current bs] using True Some br go by (auto simp: Let_def simp del: span_loop.simps)
        note ih = 1(1) [OF True Some br [symmetric] refl refl go 1(2)]
        have le: "current < ?c" "?c \<le> end1" "?c \<le> pb_end b" using True b(3) by simp_all
        show ?thesis
        proof (cases "span_loop end1 ?c bs")
          case None
          then obtain a where "?c \<le> a" "a < end1" "\<not> (\<exists>mt. owner bs a = Some (mt, False))" using ih by auto
          then have "\<exists>a. current \<le> a \<and> a < end1 \<and> \<not> (\<exists>mt. owner bs a = Some (mt, False))"
            using le(1) by (metis less_imp_le order_trans)
          then show ?thesis unfolding eq None option.map option.case .
        next
          case (Some ps)
          have i: "stacked ?c ps" "\<forall>p\<in>set ps. \<not> pb_pool_expansion p"
            "\<forall>a. owner ps a = (if ?c \<le> a \<and> a < end1 then owner bs a else None)"
            "\<forall>a. ?c \<le> a \<and> a < end1 \<longrightarrow> (\<exists>mt. owner bs a = Some (mt, False))"
            using ih unfolding Some option.case by blast+
          have pe: "pb_end ?part = ?c" "pb_start_addr ?part = current" using le(1) by simp_all
          have "stacked current (?part # ps)" unfolding stacked.simps pe using i(1) le(1) by simp
          moreover have "owner (?part # ps) a = (if current \<le> a \<and> a < end1 then owner bs a else None)" for a
            unfolding owner.simps pe using i(3) ob [of a] b(2,4) le by auto
          moreover have "\<exists>mt. owner bs a = Some (mt, False)" if "current \<le> a \<and> a < end1" for a
            using i(4) ob [of a] b(2) le that by (cases "a < ?c") auto
          ultimately show ?thesis unfolding eq Some option.map option.case using i(2) b(4) by auto
        qed
      qed
    qed
  qed
qed

section \<open>What the mappings say of an address\<close>

text \<open>The physical address, the protection, the memory type and the name at a virtual address.\<close>

record translation =
  tr_phys :: nat
  tr_prot :: u32
  tr_mode :: vm_mode
  tr_gpu_mode :: gpu_access_mode
  tr_memory_type :: int
  tr_name :: string

definition map_view :: "pblock \<Rightarrow> nat \<Rightarrow> translation" where
  "map_view b a = \<lparr>tr_phys = pb_start_addr b + (a - pb_map_vaddr b), tr_prot = pb_prot b, tr_mode = pb_mode b,
     tr_gpu_mode = pb_gpu_mode b, tr_memory_type = pb_memory_type b, tr_name = pb_name b\<rparr>"

abbreviation translate :: "pblock list \<Rightarrow> nat \<Rightarrow> translation option" where
  "translate \<equiv> seen_at pb_map_vaddr pb_map_size map_view"

abbreviation map_covers :: "pblock \<Rightarrow> nat \<Rightarrow> bool" where
  "map_covers \<equiv> covers pb_map_vaddr pb_map_size"

text \<open>The mappings are apart and as long in physical as in virtual addresses.\<close>

definition mappings_ok :: "pblock list \<Rightarrow> bool" where
  "mappings_ok ms \<longleftrightarrow> maps_ok pb_map_vaddr pb_map_size ms \<and> (\<forall>b\<in>set ms. pb_size b = pb_map_size b)"

lemmas maps_simps = maps_ok_append maps_ok_Cons within_def apart_def covers_def map_view_def

lemma unmap_block_ok:
  assumes u: "unmap_block vaddr bytes b = Some (here, at_end, exact)"
    and bytes: "0 < bytes" and b: "0 < pb_map_size b" "map_end b \<le> UINT64_MAX" "pb_size b = pb_map_size b"
  shows "pb_map_vaddr b \<le> vaddr" "vaddr + bytes \<le> map_end b" "mappings_ok (here @ at_end)"
    "within pb_map_vaddr pb_map_size b (here @ at_end)"
    "map_covers b a \<Longrightarrow> translate (here @ at_end) a = (if vaddr \<le> a \<and> a < vaddr + bytes then None else Some (map_view b a))"
    "exact \<longleftrightarrow> here @ at_end = []"
proof -
  consider (all) "pb_map_vaddr b = vaddr \<and> pb_map_size b = bytes"
    | (middle) "vaddr > pb_map_vaddr b \<and> vaddr + bytes < map_end b"
    | (left) "vaddr = pb_map_vaddr b \<and> bytes < pb_map_size b"
    | (right) "vaddr > pb_map_vaddr b \<and> vaddr + bytes = map_end b"
    using u by (auto simp: unmap_block_def split: if_splits)
  note cases = this
  show "pb_map_vaddr b \<le> vaddr" "vaddr + bytes \<le> map_end b" using cases by (cases; simp)+
  show "mappings_ok (here @ at_end)"
    using cases u b bytes by cases (auto simp: unmap_block_def mappings_ok_def maps_simps)
  show "within pb_map_vaddr pb_map_size b (here @ at_end)"
    using cases u b bytes by cases (auto simp: unmap_block_def maps_simps)
  show "exact \<longleftrightarrow> here @ at_end = []"
    using cases u b bytes by cases (auto simp: unmap_block_def)
  show "translate (here @ at_end) a = (if vaddr \<le> a \<and> a < vaddr + bytes then None else Some (map_view b a))"
    if "map_covers b a"
    using cases u b bytes that by cases (auto simp: unmap_block_def maps_simps)
qed

lemma unmap_block_None:
  "unmap_block vaddr bytes b = None \<longleftrightarrow> \<not> (pb_map_vaddr b \<le> vaddr \<and> vaddr + bytes \<le> map_end b)"
  by (auto simp: unmap_block_def)

lemma unmap_loop_split:
  "unmap_loop vaddr bytes bs = Some (b, exact, bs') \<Longrightarrow>
     \<exists>xs ys here at_end. bs = xs @ b # ys \<and> unmap_block vaddr bytes b = Some (here, at_end, exact) \<and> bs' = xs @ here @ ys @ at_end"
proof (induction bs arbitrary: bs')
  case (Cons c bs)
  show ?case
  proof (cases "unmap_block vaddr bytes c")
    case None
    then obtain bs'' where "unmap_loop vaddr bytes bs = Some (b, exact, bs'')" "bs' = c # bs''"
      using Cons.prems by auto
    with Cons.IH obtain xs ys here at_end where "bs = xs @ b # ys" "unmap_block vaddr bytes b = Some (here, at_end, exact)"
      "bs'' = xs @ here @ ys @ at_end" by blast
    then have "c # bs = (c # xs) @ b # ys" "bs' = (c # xs) @ here @ ys @ at_end" using \<open>bs' = c # bs''\<close> by simp_all
    then show ?thesis using \<open>unmap_block vaddr bytes b = Some (here, at_end, exact)\<close> by blast
  next
    case (Some p)
    then have "c # bs = [] @ b # bs" using Cons.prems by (cases p) auto
    moreover obtain here at_end where "unmap_block vaddr bytes b = Some (here, at_end, exact)" "bs' = [] @ here @ bs @ at_end"
      using Some Cons.prems by (cases p) auto
    ultimately show ?thesis by blast
  qed
qed simp

lemma unmap_loop_None:
  "unmap_loop vaddr bytes bs = None \<longleftrightarrow> (\<forall>b\<in>set bs. \<not> (pb_map_vaddr b \<le> vaddr \<and> vaddr + bytes \<le> map_end b))"
  unfolding unmap_block_None [symmetric] by (induction bs) (auto split: option.splits)

lemma ph_Unmap_ok:
  assumes ok: "mappings_ok (ph_mappings ph)" and bytes: "0 < bytes" and un: "ph_Unmap vaddr bytes ph = (ph', r)"
  shows "if \<exists>b\<in>set (ph_mappings ph). pb_map_vaddr b \<le> vaddr \<and> vaddr + bytes \<le> map_end b
    then (\<exists>h. r = Some (tr_gpu_mode (the (translate (ph_mappings ph) vaddr)), h)) \<and> mappings_ok (ph_mappings ph') \<and>
      ph' = ph\<lparr>ph_mappings := ph_mappings ph'\<rparr> \<and>
      (\<forall>a. translate (ph_mappings ph') a =
        (if vaddr \<le> a \<and> a < vaddr + bytes then None else translate (ph_mappings ph) a))
    else r = None \<and> ph' = ph"
proof (cases "unmap_loop vaddr bytes (ph_mappings ph)")
  case None
  then show ?thesis using un unfolding unmap_loop_None by (auto simp: ph_Unmap_def None)
next
  case (Some p)
  obtain b exact bs' where p: "p = (b, exact, bs')" by (metis prod_cases3)
  from unmap_loop_split [OF Some [unfolded p]] obtain xs ys here at_end where
    x: "ph_mappings ph = xs @ b # ys" "unmap_block vaddr bytes b = Some (here, at_end, exact)" "bs' = xs @ here @ ys @ at_end"
    by blast
  have m: "maps_ok pb_map_vaddr pb_map_size (xs @ b # ys)" and sz: "\<forall>c\<in>set (xs @ b # ys). pb_size c = pb_map_size c"
    using ok x(1) by (simp_all add: mappings_ok_def)
  have b: "0 < pb_map_size b" "map_end b \<le> UINT64_MAX" "pb_size b = pb_map_size b"
    using maps_ok_mem [OF m, of b] sz by simp_all
  note ub = unmap_block_ok [OF x(2) bytes b]
  have m1: "maps_ok pb_map_vaddr pb_map_size (xs @ (here @ at_end) @ ys)"
    using maps_ok_replace [OF m _ ub(4)] ub(3) by (simp add: mappings_ok_def)
  have m2: "maps_ok pb_map_vaddr pb_map_size bs'"
    using m1 maps_ok_swap [of pb_map_vaddr pb_map_size "xs @ here" at_end ys] x(3) by simp
  have res: "ph' = ph\<lparr>ph_mappings := bs'\<rparr>" "r = Some (pb_gpu_mode b, if exact then host_release b bs' else 0)"
    using un Some p by (simp_all add: ph_Unmap_def)
  have cov: "map_covers b vaddr" using ub(1,2) bytes by (simp add: covers_def)
  have "translate (ph_mappings ph) vaddr = Some (map_view b vaddr)"
    by (rule seen_at_mem [OF _ _ cov]) (use m x(1) in simp_all)
  then have "\<exists>h. r = Some (tr_gpu_mode (the (translate (ph_mappings ph) vaddr)), h)" using res(2) by (simp add: map_view_def)
  moreover have "mappings_ok bs'" using m2 sz ub(3) x(3) by (auto simp: mappings_ok_def)
  moreover have "translate bs' a = (if vaddr \<le> a \<and> a < vaddr + bytes then None else translate (ph_mappings ph) a)" for a
  proof -
    have "translate bs' a = translate (xs @ (here @ at_end) @ ys) a"
      by (rule seen_at_same_set [OF m2 m1]) (auto simp: x(3))
    also have "\<dots> = (if map_covers b a then translate (here @ at_end) a else translate (ph_mappings ph) a)"
      unfolding x(1) by (rule seen_at_replace [OF m ub(4)])
    also have "\<dots> = (if vaddr \<le> a \<and> a < vaddr + bytes then None else translate (ph_mappings ph) a)"
    proof (cases "map_covers b a")
      case True
      then have "translate (ph_mappings ph) a = Some (map_view b a)"
        by (intro seen_at_mem [OF _ _ True]) (use m x(1) in simp_all)
      then show ?thesis using ub(5) [OF True] True by simp
    next
      case False
      then have "\<not> (vaddr \<le> a \<and> a < vaddr + bytes)" using ub(1,2) by (auto simp: covers_def)
      then show ?thesis using False by auto
    qed
    finally show ?thesis .
  qed
  moreover have "\<exists>c\<in>set (ph_mappings ph). pb_map_vaddr c \<le> vaddr \<and> vaddr + bytes \<le> map_end c" using ub(1,2) x(1) by auto
  ultimately show ?thesis using res(1) by auto
qed

section \<open>Making a mapping\<close>

lemma block_first_covering:
  assumes st: "stacked s bs" and o: "owner bs a = Some (mt, pool)"
  shows "fst (block_upper_bound a bs) \<noteq> []" "last (fst (block_upper_bound a bs)) \<in> set bs"
    "pb_memory_type (last (fst (block_upper_bound a bs))) = mt"
proof -
  obtain before rest where u: "block_upper_bound a bs = (before, rest)" by (cases "block_upper_bound a bs")
  note sp = block_bound_split [OF u st]
  from o obtain c where c: "c \<in> set bs" "pb_start_addr c \<le> a" "a < pb_end c" using owner_None [of bs a] by auto
  then have cb: "c \<in> set before" using sp by auto
  then have ne: "before \<noteq> []" by auto
  then have l: "last before \<in> set bs" "pb_start_addr (last before) \<le> a" using sp by auto
  have "c = last before"
  proof (rule ccontr)
    assume "c \<noteq> last before"
    then have "pb_end c \<le> pb_start_addr (last before)" using stacked_last [of s before rest c] st sp(1) ne cb by simp
    then show False using c(3) l(2) by simp
  qed
  then have "owner bs a = Some (pb_memory_type (last before), pb_pool_expansion (last before))"
    using owner_mem [OF st c] by simp
  then show "fst (block_upper_bound a bs) \<noteq> []" "last (fst (block_upper_bound a bs)) \<in> set bs"
    "pb_memory_type (last (fst (block_upper_bound a bs))) = mt"
    using o u ne l by simp_all
qed

definition all_direct :: "nat \<Rightarrow> nat \<Rightarrow> physical \<Rightarrow> bool" where
  "all_direct phys_addr len ph \<longleftrightarrow>
     0 < len \<and> phys_addr + len \<le> UINT64_MAX \<and>
     (\<forall>a. phys_addr \<le> a \<and> a < phys_addr + len \<longrightarrow> (\<exists>mt. owner (ph_blocks ph) a = Some (mt, False)))"

lemma span_ok:
  assumes ok: "blocks_ok ph"
  shows "\<not> (len = 0 \<or> UINT64_MAX - phys_addr < len) \<and> span_loop (phys_addr + len) phys_addr (ph_blocks ph) \<noteq> None \<longleftrightarrow>
    all_direct phys_addr len ph"
proof (cases "len = 0 \<or> UINT64_MAX - phys_addr < len")
  case True
  then show ?thesis by (auto simp: all_direct_def)
next
  case False
  have st: "stacked 0 (ph_blocks ph)" using ok by (simp add: blocks_ok_def)
  note sl = span_loop_ok [OF st, where ?end1.0 = "phys_addr + len" and current = phys_addr]
  show ?thesis
  proof (cases "span_loop (phys_addr + len) phys_addr (ph_blocks ph)")
    case None
    then show ?thesis using sl by (auto simp: all_direct_def)
  next
    case (Some ps)
    have "\<forall>a. phys_addr \<le> a \<and> a < phys_addr + len \<longrightarrow> (\<exists>mt. owner (ph_blocks ph) a = Some (mt, False))"
      using sl unfolding Some option.case by blast
    then show ?thesis using Some False by (auto simp: all_direct_def)
  qed
qed

lemma ph_CanMapDirect_ok: "blocks_ok ph \<Longrightarrow> ph_CanMapDirect phys_addr len ph \<longleftrightarrow> all_direct phys_addr len ph"
  using span_ok [of ph len phys_addr] unfolding ph_CanMapDirect_def by presburger

lemma ph_GetAllocatedSpan_ok:
  assumes ok: "blocks_ok ph"
  shows "case ph_GetAllocatedSpan phys_addr len ph of
      None \<Rightarrow> \<not> all_direct phys_addr len ph
    | Some ps \<Rightarrow> all_direct phys_addr len ph \<and> stacked phys_addr ps \<and>
        (\<forall>a. owner ps a = (if phys_addr \<le> a \<and> a < phys_addr + len then owner (ph_blocks ph) a else None))"
proof (cases "ph_GetAllocatedSpan phys_addr len ph")
  case None
  then show ?thesis using span_ok [OF ok, of len phys_addr] by (auto simp: ph_GetAllocatedSpan_def split: if_splits)
next
  case (Some ps)
  have st: "stacked 0 (ph_blocks ph)" using ok by (simp add: blocks_ok_def)
  have s: "span_loop (phys_addr + len) phys_addr (ph_blocks ph) = Some ps" "\<not> (len = 0 \<or> UINT64_MAX - phys_addr < len)"
    using Some by (auto simp: ph_GetAllocatedSpan_def split: if_splits)
  note sl = span_loop_ok [OF st, where ?end1.0 = "phys_addr + len" and current = phys_addr, unfolded s(1) option.case]
  have "all_direct phys_addr len ph" using span_ok [OF ok, of len phys_addr] s by simp
  then show ?thesis using sl Some by simp
qed

text \<open>A new mapping says what was asked of its addresses, and changes nothing elsewhere.\<close>

lemma ph_Map_ok:
  assumes ok: "blocks_ok ph" "mappings_ok (ph_mappings ph)" and v: "vaddr + len \<le> UINT64_MAX"
    and free: "\<And>a. vaddr \<le> a \<Longrightarrow> a < vaddr + len \<Longrightarrow> translate (ph_mappings ph) a = None"
    and m: "ph_Map vaddr phys_addr len prot mode gpu_mode ph = (ph', r)"
  shows "if all_direct phys_addr len ph
    then r \<and> mappings_ok (ph_mappings ph') \<and> ph' = ph\<lparr>ph_mappings := ph_mappings ph'\<rparr> \<and>
      (\<exists>mt name. owner (ph_blocks ph) phys_addr = Some (mt, False) \<and>
        (\<forall>a. translate (ph_mappings ph') a =
          (if vaddr \<le> a \<and> a < vaddr + len
           then Some \<lparr>tr_phys = phys_addr + (a - vaddr), tr_prot = prot, tr_mode = mode, tr_gpu_mode = gpu_mode,
                      tr_memory_type = mt, tr_name = name\<rparr>
           else translate (ph_mappings ph) a)))
    else \<not> r \<and> ph' = ph"
proof (cases "all_direct phys_addr len ph")
  case False
  then have "len = 0 \<or> UINT64_MAX - phys_addr < len \<or> span_loop (phys_addr + len) phys_addr (ph_blocks ph) = None"
    using span_ok [OF ok(1), of len phys_addr] by blast
  then show ?thesis using m False by (auto simp: ph_Map_def Let_def split: if_splits)
next
  case True
  then have n: "\<not> (len = 0 \<or> UINT64_MAX - phys_addr < len)" "span_loop (phys_addr + len) phys_addr (ph_blocks ph) \<noteq> None"
    using span_ok [OF ok(1), of len phys_addr] by blast+
  have len: "0 < len" using n by simp
  obtain mt where o: "owner (ph_blocks ph) phys_addr = Some (mt, False)" using True len by (auto simp: all_direct_def)
  have st: "stacked 0 (ph_blocks ph)" using ok(1) by (simp add: blocks_ok_def)
  note f = block_first_covering [OF st o]
  let ?first = "last (fst (block_upper_bound phys_addr (ph_blocks ph)))"
  let ?b = "?first\<lparr>pb_start_addr := phys_addr, pb_size := len, pb_map_vaddr := vaddr, pb_map_size := len,
      pb_host_vaddr := vaddr, pb_host_size := len, pb_prot := prot, pb_mode := mode, pb_gpu_mode := gpu_mode\<rparr>"
  have res: "ph' = ph\<lparr>ph_mappings := ph_mappings ph @ [?b]\<rparr>" "r" using m n f(1) by (auto simp: ph_Map_def Let_def)
  have ap: "apart pb_map_vaddr pb_map_size c ?b" if "c \<in> set (ph_mappings ph)" for c
  proof (rule ccontr)
    assume a: "\<not> apart pb_map_vaddr pb_map_size c ?b"
    let ?x = "max (pb_map_vaddr c) vaddr"
    have "0 < pb_map_size c" using ok(2) that by (auto simp: mappings_ok_def maps_ok_def)
    then have "map_covers c ?x" "vaddr \<le> ?x" "?x < vaddr + len" using a len by (auto simp: apart_def covers_def)
    then show False using free [of ?x] that by (auto simp: seen_at_None)
  qed
  have "mappings_ok (ph_mappings ph @ [?b])"
    using ok(2) ap len v by (simp add: mappings_ok_def maps_ok_append maps_ok_Cons)
  moreover have "translate (ph_mappings ph @ [?b]) a =
      (if vaddr \<le> a \<and> a < vaddr + len
       then Some \<lparr>tr_phys = phys_addr + (a - vaddr), tr_prot = prot, tr_mode = mode, tr_gpu_mode = gpu_mode,
                  tr_memory_type = mt, tr_name = pb_name ?first\<rparr>
       else translate (ph_mappings ph) a)" for a
    using free [of a] f(3) by (auto simp: seen_at_append map_view_def split: option.splits)
  ultimately show ?thesis using True res o by auto
qed

section \<open>Protecting, naming and finding mappings\<close>

lemma overlap_ends:
  "a + m \<le> UINT64_MAX \<Longrightarrow> b + n \<le> UINT64_MAX \<Longrightarrow>
     VirtualRangesOverlap a m b n \<longleftrightarrow> 0 < m \<and> 0 < n \<and> a < b + n \<and> b < a + m"
  by (auto simp: VirtualRangesOverlap_def clamped_End_def Let_def)

lemma protect_block_ok:
  assumes b: "0 < pb_map_size b" "map_end b \<le> UINT64_MAX" "pb_size b = pb_map_size b"
    and bytes: "0 < bytes" "vaddr + bytes \<le> UINT64_MAX"
  shows "mappings_ok (protect_block vaddr bytes prot mode gpu_mode b)"
    "within pb_map_vaddr pb_map_size b (protect_block vaddr bytes prot mode gpu_mode b)"
    "map_covers b a \<Longrightarrow> translate (protect_block vaddr bytes prot mode gpu_mode b) a =
       Some (if vaddr \<le> a \<and> a < vaddr + bytes
             then map_view b a\<lparr>tr_prot := prot, tr_mode := mode, tr_gpu_mode := gpu_mode\<rparr> else map_view b a)"
proof -
  note ov = overlap_ends [OF bytes(2) b(2)]
  show "mappings_ok (protect_block vaddr bytes prot mode gpu_mode b)"
    using b bytes by (auto simp: protect_block_def mappings_ok_def maps_simps Let_def ov)
  show "within pb_map_vaddr pb_map_size b (protect_block vaddr bytes prot mode gpu_mode b)"
    using b bytes by (auto simp: protect_block_def maps_simps Let_def ov)
  show "translate (protect_block vaddr bytes prot mode gpu_mode b) a =
       Some (if vaddr \<le> a \<and> a < vaddr + bytes
             then map_view b a\<lparr>tr_prot := prot, tr_mode := mode, tr_gpu_mode := gpu_mode\<rparr> else map_view b a)"
    if "map_covers b a" using that b bytes
    by (auto simp: protect_block_def maps_simps Let_def ov)
qed

lemma mappings_okD:
  assumes "mappings_ok ms"
  shows "maps_ok pb_map_vaddr pb_map_size ms"
    "b \<in> set ms \<Longrightarrow> 0 < pb_map_size b" "b \<in> set ms \<Longrightarrow> map_end b \<le> UINT64_MAX" "b \<in> set ms \<Longrightarrow> pb_size b = pb_map_size b"
  using assms by (auto simp: mappings_ok_def maps_ok_def)

lemma ph_ProtectMapping_ok:
  assumes ok: "mappings_ok (ph_mappings ph)" and v: "0 < bytes" "vaddr + bytes \<le> UINT64_MAX"
    and ph': "ph' = ph_ProtectMapping vaddr bytes prot mode gpu_mode ph"
  shows "mappings_ok (ph_mappings ph')" "ph' = ph\<lparr>ph_mappings := ph_mappings ph'\<rparr>"
    "translate (ph_mappings ph') a =
      (if vaddr \<le> a \<and> a < vaddr + bytes
       then map_option (tr_prot_update (\<lambda>_. prot) \<circ> tr_mode_update (\<lambda>_. mode) \<circ> tr_gpu_mode_update (\<lambda>_. gpu_mode))
              (translate (ph_mappings ph) a)
       else translate (ph_mappings ph) a)"
proof -
  let ?g = "protect_block vaddr bytes prot mode gpu_mode"
  note d = mappings_okD [OF ok]
  have eq: "ph' = ph\<lparr>ph_mappings := concat (map ?g (ph_mappings ph))\<rparr>"
    using v by (simp add: ph' ph_ProtectMapping_def)
  then show "ph' = ph\<lparr>ph_mappings := ph_mappings ph'\<rparr>" by simp
  note pb = protect_block_ok [OF d(2-4) v]
  have "maps_ok pb_map_vaddr pb_map_size (concat (map ?g (ph_mappings ph)))"
    using d(1) by (rule maps_ok_concat) (use pb in \<open>auto simp: mappings_ok_def\<close>)
  moreover have "\<forall>c\<in>set (concat (map ?g (ph_mappings ph))). pb_size c = pb_map_size c"
    using pb(1) by (auto simp: mappings_ok_def)
  ultimately show "mappings_ok (ph_mappings ph')" by (simp add: eq mappings_ok_def)
  have "translate (concat (map ?g (ph_mappings ph))) a = Option.bind (translate (ph_mappings ph) a)
      (\<lambda>t. Some (if vaddr \<le> a \<and> a < vaddr + bytes then t\<lparr>tr_prot := prot, tr_mode := mode, tr_gpu_mode := gpu_mode\<rparr> else t))"
    using d(1) by (rule seen_at_concat) (use pb in auto)
  then show "translate (ph_mappings ph') a =
      (if vaddr \<le> a \<and> a < vaddr + bytes
       then map_option (tr_prot_update (\<lambda>_. prot) \<circ> tr_mode_update (\<lambda>_. mode) \<circ> tr_gpu_mode_update (\<lambda>_. gpu_mode))
              (translate (ph_mappings ph) a)
       else translate (ph_mappings ph) a)"
    by (cases "translate (ph_mappings ph) a") (simp_all add: eq)
qed

section \<open>The largest free place\<close>

lemma available_loop_ok:
  assumes "sorted (map fst m)" "search_end \<le> UINT64_MAX" "available_loop search_start search_end alignment best m = (p, n)"
  shows "snd best \<le> n \<and> ((p, n) = best \<or> 0 < n \<and> (\<exists>r\<in>set m. room search_start search_end n alignment r p)) \<and>
    (\<forall>r\<in>set m. \<forall>a l. 0 < l \<and> room search_start search_end l alignment r a \<longrightarrow> l \<le> n)"
  using assms
proof (induction search_start search_end alignment best m rule: available_loop.induct)
  case (2 search_start search_end alignment best a k m)
  show ?case
  proof (cases "a \<ge> search_end")
    case True
    have "\<not> room search_start search_end l alignment r x" if "r \<in> set ((a, k) # m)" "0 < l" for r x l
    proof
      assume r: "room search_start search_end l alignment r x"
      have "a \<le> fst r" using that(1) 2(2) by auto
      then show False using r that(2) True by (simp add: room_def)
    qed
    then show ?thesis using 2(4) True by auto
  next
    case False
    let ?e = "min (a + k) search_end" and ?l = "max a search_start"
    let ?best = "case GetAlignedPos ?l alignment of None \<Rightarrow> best
      | Some free_pos \<Rightarrow> if free_pos \<ge> ?l \<and> free_pos < ?e \<and> ?e - free_pos > snd best then (free_pos, ?e - free_pos) else best"
    have ih: "snd ?best \<le> n \<and> ((p, n) = ?best \<or> 0 < n \<and> (\<exists>r\<in>set m. room search_start search_end n alignment r p)) \<and>
        (\<forall>r\<in>set m. \<forall>a l. 0 < l \<and> room search_start search_end l alignment r a \<longrightarrow> l \<le> n)"
      by (rule 2(1) [OF False refl refl _ 2(3)]) (use 2(2,4) False in \<open>simp_all add: Let_def\<close>)
    have b: "snd best \<le> snd ?best \<and> (?best = best \<or> 0 < snd ?best \<and> room search_start search_end (snd ?best) alignment (a, k) (fst ?best)) \<and>
        (\<forall>x l. 0 < l \<and> room search_start search_end l alignment (a, k) x \<longrightarrow> l \<le> snd ?best)"
    proof (cases "GetAlignedPos ?l alignment")
      case None
      have "\<not> room search_start search_end l alignment (a, k) x" for x l
        using GetAlignedPos_None [OF None, of x] 2(3) by (auto simp: room_def)
      then show ?thesis using None by simp
    next
      case (Some q)
      note g = GetAlignedPos_Some [OF Some]
      have all: "l \<le> ?e - q" if "room search_start search_end l alignment (a, k) x" for x l
      proof -
        have "q \<le> x" by (rule g(3)) (use that in \<open>auto simp: room_def\<close>)
        then show ?thesis using that by (auto simp: room_def)
      qed
      have here: "room search_start search_end (?e - q) alignment (a, k) q" if "q < ?e"
        using g(1,2) that by (auto simp: room_def)
      have eq: "?best = (if q < ?e \<and> ?e - q > snd best then (q, ?e - q) else best)" using Some g(2) by simp
      show ?thesis
      proof (cases "q < ?e \<and> ?e - q > snd best")
        case True
        then have b: "?best = (q, ?e - q)" by (simp add: eq)
        have "0 < ?e - q" "snd best \<le> ?e - q" using True by linarith+
        then show ?thesis unfolding b fst_conv snd_conv using True here all by blast
      next
        case False
        then have b: "?best = best" unfolding eq by (simp only: if_False)
        have "l \<le> snd best" if "0 < l" "room search_start search_end l alignment (a, k) x" for x l
          using all [OF that(2)] that(1) False by linarith
        then show ?thesis unfolding b by blast
      qed
    qed
    define bb where "bb = ?best"
    note ih = ih [folded bb_def] and b = b [folded bb_def]
    have "l \<le> n" if "r \<in> set ((a, k) # m)" "0 < l" "room search_start search_end l alignment r x" for r x l
    proof (cases "r = (a, k)")
      case True
      then have "l \<le> snd bb" using that(2,3) b by blast
      then show ?thesis using ih by linarith
    next
      case False
      then have "r \<in> set m" using that(1) by simp
      then show ?thesis using that(2,3) ih by blast
    qed
    moreover have "(p, n) = best \<or> 0 < n \<and> (\<exists>r\<in>set ((a, k) # m). room search_start search_end n alignment r p)"
    proof (cases "(p, n) = bb")
      case True
      then have "bb = best \<or> 0 < n \<and> room search_start search_end n alignment (a, k) p" using b by auto
      then show ?thesis using True by auto
    next
      case False
      then show ?thesis using ih by auto
    qed
    moreover have "snd best \<le> n" using ih b by linarith
    ultimately show ?thesis by blast
  qed
qed simp

lemma ph_Available_ok:
  assumes ok: "blocks_ok ph"
  shows "case ph_Available s e al ph of
      None \<Rightarrow> \<forall>a. \<not> place ph s e 1 al a
    | Some (p, n) \<Rightarrow> 0 < n \<and> place ph s e n al p \<and> (\<forall>a l. 0 < l \<and> place ph s e l al a \<longrightarrow> l \<le> n)"
proof (cases "s \<ge> min e (ph_size ph)")
  case True
  then show ?thesis by (auto simp: ph_Available_def place_def)
next
  case False
  note d = blocks_okD [OF ok]
  have so: "sorted (map fst (ph_free ph))" using d(1) by (rule free_ok_sorted)
  obtain p n where pn: "available_loop s (min e (ph_size ph)) al (0, 0) (ph_free ph) = (p, n)" by fastforce
  note a = available_loop_ok [OF so _ pn]
  have m: "min e (ph_size ph) \<le> UINT64_MAX" using d(3) by simp
  show ?thesis
  proof (cases "n = 0")
    case True
    then have "ph_Available s e al ph = None" using False pn by (simp add: ph_Available_def Let_def)
    moreover have "\<not> place ph s e 1 al x" for x
      using a [OF m] True place_room [OF ok, of 1 s e al x] by fastforce
    ultimately show ?thesis by simp
  next
    case nz: False
    then have "ph_Available s e al ph = Some (p, n)" using False pn by (simp add: ph_Available_def Let_def)
    then show ?thesis using a [OF m] nz place_room [OF ok] by auto
  qed
qed

section \<open>Names, types and searches\<close>

text \<open>A name or a memory type goes to the whole of every mapping that the range touches.\<close>

lemma maps_ok_map:
  assumes "\<And>b. b \<in> set ms \<Longrightarrow> first (g b) = first b \<and> bytes (g b) = bytes b"
  shows "maps_ok first bytes (map g ms) \<longleftrightarrow> maps_ok first bytes ms"
proof -
  have "sorted_wrt (apart first bytes) (map g ms) \<longleftrightarrow> sorted_wrt (apart first bytes) ms"
    using assms by (induction ms) (auto simp: apart_def)
  then show ?thesis using assms by (auto simp: maps_ok_def)
qed

lemma ph_names_ok:
  assumes ok: "mappings_ok (ph_mappings ph)"
  shows "mappings_ok (ph_mappings (ph_SetVirtualRangeName vaddr len name ph))"
    "mappings_ok (ph_mappings (ph_SetVirtualRangeMemoryType vaddr len mt ph))"
  using ok by (auto simp: mappings_ok_def ph_SetVirtualRangeName_def ph_SetVirtualRangeMemoryType_def maps_ok_map)

lemma ph_names_translate:
  assumes ok: "mappings_ok (ph_mappings ph)" and v: "0 < len" "vaddr + len \<le> UINT64_MAX"
  shows "translate (ph_mappings (ph_SetVirtualRangeName vaddr len name ph)) a =
      map_option (\<lambda>t. if \<exists>b\<in>set (ph_mappings ph). map_covers b a \<and> (\<exists>x. vaddr \<le> x \<and> x < vaddr + len \<and> map_covers b x)
        then t\<lparr>tr_name := CopyVirtualRangeName name\<rparr> else t) (translate (ph_mappings ph) a)" (is ?name)
    "translate (ph_mappings (ph_SetVirtualRangeMemoryType vaddr len mt ph)) a =
      map_option (\<lambda>t. if \<exists>b\<in>set (ph_mappings ph). map_covers b a \<and> (\<exists>x. vaddr \<le> x \<and> x < vaddr + len \<and> map_covers b x)
        then t\<lparr>tr_memory_type := mt\<rparr> else t) (translate (ph_mappings ph) a)" (is ?type)
proof -
  note d = mappings_okD [OF ok]
  let ?ov = "\<lambda>b. VirtualRangesOverlap vaddr len (pb_map_vaddr b) (pb_map_size b)"
  have ov: "?ov b \<longleftrightarrow> (\<exists>x. vaddr \<le> x \<and> x < vaddr + len \<and> map_covers b x)" if "b \<in> set (ph_mappings ph)" for b
  proof
    assume "?ov b"
    then have "vaddr < map_end b" "pb_map_vaddr b < vaddr + len" using overlap_ends [OF v(2) d(3) [OF that]] by simp_all
    then show "\<exists>x. vaddr \<le> x \<and> x < vaddr + len \<and> map_covers b x"
      using v(1) d(2) [OF that] by (intro exI [of _ "max vaddr (pb_map_vaddr b)"]) (auto simp: covers_def)
  next
    assume "\<exists>x. vaddr \<le> x \<and> x < vaddr + len \<and> map_covers b x"
    then show "?ov b" using overlap_ends [OF v(2) d(3) [OF that]] v(1) d(2) [OF that] by (auto simp: covers_def)
  qed
  have upd: "translate (map (\<lambda>b. if ?ov b then g b else b) (ph_mappings ph)) a =
      map_option (\<lambda>t. if \<exists>b\<in>set (ph_mappings ph). map_covers b a \<and> (\<exists>x. vaddr \<le> x \<and> x < vaddr + len \<and> map_covers b x)
        then h t else t) (translate (ph_mappings ph) a)"
    if g: "\<And>b. pb_map_vaddr (g b) = pb_map_vaddr b \<and> pb_map_size (g b) = pb_map_size b \<and> (\<forall>a. map_view (g b) a = h (map_view b a))"
    for g h
  proof -
    let ?h = "\<lambda>b. if ?ov b then g b else b"
    have cov: "map_covers (?h b) = map_covers b" for b using g [of b] by (simp add: covers_def fun_eq_iff)
    have ok': "maps_ok pb_map_vaddr pb_map_size (map ?h (ph_mappings ph))" using d(1) g by (simp add: maps_ok_map)
    show ?thesis
    proof (cases "translate (ph_mappings ph) a")
      case None
      then have "translate (map ?h (ph_mappings ph)) a = None"
        unfolding seen_at_None set_map ball_simps(9) cov .
      then show ?thesis using None by simp
    next
      case (Some t)
      then obtain b where b: "b \<in> set (ph_mappings ph)" "map_covers b a" "t = map_view b a"
        using seen_at_SomeD by fast
      have t': "translate (map ?h (ph_mappings ph)) a = Some (map_view (?h b) a)"
        by (rule seen_at_mem [OF ok']) (use b cov in auto)
      have "(\<exists>c\<in>set (ph_mappings ph). map_covers c a \<and> (\<exists>x. vaddr \<le> x \<and> x < vaddr + len \<and> map_covers c x)) \<longleftrightarrow> ?ov b"
        using seen_at_unique [OF d(1) b(1) _ b(2)] b ov [OF b(1)] by metis
      then show ?thesis using t' Some b(3) g [of b] by simp
    qed
  qed
  have "ph_mappings (ph_SetVirtualRangeName vaddr len name ph) =
      map (\<lambda>b. if ?ov b then b\<lparr>pb_name := CopyVirtualRangeName name\<rparr> else b) (ph_mappings ph)"
    by (simp add: ph_SetVirtualRangeName_def)
  then show ?name by (simp only:) (rule upd, simp add: map_view_def)
  have "ph_mappings (ph_SetVirtualRangeMemoryType vaddr len mt ph) =
      map (\<lambda>b. if ?ov b then b\<lparr>pb_memory_type := mt\<rparr> else b) (ph_mappings ph)"
    by (simp add: ph_SetVirtualRangeMemoryType_def)
  then show ?type by (simp only:) (rule upd, simp add: map_view_def)
qed

lemma ph_Find_ok:
  "case ph_Find a ph of
     None \<Rightarrow> translate (ph_mappings ph) a = None
   | Some b \<Rightarrow> b \<in> set (ph_mappings ph) \<and> map_covers b a \<and> translate (ph_mappings ph) a = Some (map_view b a)"
proof -
  have "translate ms a = map_option (\<lambda>b. map_view b a) (find (\<lambda>b. a \<ge> pb_map_vaddr b \<and> a < map_end b) ms)" for ms
    by (induction ms) auto
  then show ?thesis
    by (auto simp: ph_Find_def covers_def find_Some_iff split: option.split)
qed

text \<open>The mappings of a span of direct memory: one part for each, over the addresses whose bytes are in the span.\<close>

lemma ph_FindMappings_ok:
  assumes ok: "mappings_ok (ph_mappings ph)" and p: "phys_addr + len \<le> UINT64_MAX"
    and e: "\<And>b. b \<in> set (ph_mappings ph) \<Longrightarrow> pb_end b \<le> UINT64_MAX"
  shows "sorted (map pb_map_vaddr (ph_FindMappings phys_addr len ph))"
    "(\<exists>m\<in>set (ph_FindMappings phys_addr len ph). map_covers m a \<and> map_view m a = t) \<longleftrightarrow>
       translate (ph_mappings ph) a = Some t \<and> phys_addr \<le> tr_phys t \<and> tr_phys t < phys_addr + len"
proof -
  note d = mappings_okD [OF ok]
  show "sorted (map pb_map_vaddr (ph_FindMappings phys_addr len ph))"
    by (simp add: ph_FindMappings_def)
  have part: "map_covers (mapping_part phys_addr len m) a \<and> map_view (mapping_part phys_addr len m) a = t \<longleftrightarrow>
      map_covers m a \<and> map_view m a = t \<and> phys_addr \<le> tr_phys t \<and> tr_phys t < phys_addr + len"
    if "m \<in> set (ph_mappings ph)" "phys_addr < pb_end m" "pb_start_addr m < phys_addr + len" for m
    using d(2,4) [OF that(1)] that(2,3) by (auto simp: mapping_part_def Let_def covers_def map_view_def)
  have out: "\<not> (map_covers m a \<and> phys_addr \<le> tr_phys (map_view m a) \<and> tr_phys (map_view m a) < phys_addr + len)"
    if "m \<in> set (ph_mappings ph)" "\<not> VirtualRangesOverlap phys_addr len (pb_start_addr m) (pb_size m)" for m
    using that overlap_ends [OF p e [OF that(1)]] d(2,4) [OF that(1)]
    by (auto simp: covers_def map_view_def)
  have "(\<exists>m\<in>set (ph_FindMappings phys_addr len ph). map_covers m a \<and> map_view m a = t) \<longleftrightarrow>
      (\<exists>m\<in>set (ph_mappings ph). VirtualRangesOverlap phys_addr len (pb_start_addr m) (pb_size m) \<and>
        map_covers (mapping_part phys_addr len m) a \<and> map_view (mapping_part phys_addr len m) a = t)"
    by (auto simp: ph_FindMappings_def)
  also have "\<dots> \<longleftrightarrow> (\<exists>m\<in>set (ph_mappings ph). map_covers m a \<and> map_view m a = t \<and> phys_addr \<le> tr_phys t \<and> tr_phys t < phys_addr + len)"
  proof (rule bex_cong [OF refl])
    fix m
    assume m: "m \<in> set (ph_mappings ph)"
    show "(VirtualRangesOverlap phys_addr len (pb_start_addr m) (pb_size m) \<and>
        map_covers (mapping_part phys_addr len m) a \<and> map_view (mapping_part phys_addr len m) a = t) \<longleftrightarrow>
      (map_covers m a \<and> map_view m a = t \<and> phys_addr \<le> tr_phys t \<and> tr_phys t < phys_addr + len)"
    proof (cases "VirtualRangesOverlap phys_addr len (pb_start_addr m) (pb_size m)")
      case True
      then have "phys_addr < pb_end m" "pb_start_addr m < phys_addr + len" using overlap_ends [OF p e [OF m]] by simp_all
      then show ?thesis using part [OF m] True by blast
    next
      case False
      then show ?thesis using out [OF m False] by auto
    qed
  qed
  also have "\<dots> \<longleftrightarrow> translate (ph_mappings ph) a = Some t \<and> phys_addr \<le> tr_phys t \<and> tr_phys t < phys_addr + len"
    unfolding seen_at_iff [OF d(1)] by auto
  finally show "(\<exists>m\<in>set (ph_FindMappings phys_addr len ph). map_covers m a \<and> map_view m a = t) \<longleftrightarrow>
       translate (ph_mappings ph) a = Some t \<and> phys_addr \<le> tr_phys t \<and> tr_phys t < phys_addr + len" .
qed

section \<open>Direct memory as the owner of each byte and the translation of each address\<close>

lemma blocks_ok_new:
  assumes "0 < total_size" "total_size \<le> UINT64_MAX"
  shows "blocks_ok (new_physical total_size)"
  using assms by (auto simp: blocks_ok_def new_physical_def free_ok_def free_bytes_iff)

text \<open>C9: for every length but zero, and with the free list and the map of blocks describing the same bytes, an allocation
  of direct memory takes the lowest address of its alignment in the range searched at which all its bytes are free, and
  fails only if there is none; the query for free memory answers with a largest one; a release succeeds exactly for a part
  of one block that is not a pool's. Each step changes the owner of its own bytes and no other, keeps the mappings, and
  keeps the free list the complement of the blocks.\<close>

theorem direct_memory_refines_owner:
  assumes "blocks_ok ph" "0 < len"
  shows "(case ph_Alloc search_start search_end len alignment memory_type pool ph of
        Inl x \<Rightarrow> False
      | Inr (ph', None) \<Rightarrow> ph' = ph \<and> (\<forall>a. \<not> place ph search_start search_end len alignment a)
      | Inr (ph', Some p) \<Rightarrow>
          place ph search_start search_end len alignment p \<and>
          (\<forall>a. place ph search_start search_end len alignment a \<longrightarrow> p \<le> a) \<and>
          blocks_ok ph' \<and> ph_mappings ph' = ph_mappings ph \<and> ph_size ph' = ph_size ph \<and>
          (\<forall>a. owner (ph_blocks ph') a =
            (if p \<le> a \<and> a < p + len then Some (memory_type, pool) else owner (ph_blocks ph) a))) \<and>
    (case ph_Available search_start search_end alignment ph of
        None \<Rightarrow> \<forall>a. \<not> place ph search_start search_end 1 alignment a
      | Some (p, n) \<Rightarrow> 0 < n \<and> place ph search_start search_end n alignment p \<and>
          (\<forall>a l. 0 < l \<and> place ph search_start search_end l alignment a \<longrightarrow> l \<le> n)) \<and>
    (case ph_Release start len ph of
        (ph', None) \<Rightarrow> ph' = ph \<and>
          \<not> (\<exists>b\<in>set (ph_blocks ph). \<not> pb_pool_expansion b \<and> pb_start_addr b \<le> start \<and> start + len \<le> pb_end b)
      | (ph', Some answer) \<Rightarrow> released start len ph ph' \<and>
          (\<exists>b\<in>set (ph_blocks ph). \<not> pb_pool_expansion b \<and> pb_start_addr b \<le> start \<and> start + len \<le> pb_end b))"
proof (intro conjI)
  obtain ph' r where r: "ph_Release start len ph = (ph', r)" by fastforce
  show "case ph_Release start len ph of
        (ph', None) \<Rightarrow> ph' = ph \<and>
          \<not> (\<exists>b\<in>set (ph_blocks ph). \<not> pb_pool_expansion b \<and> pb_start_addr b \<le> start \<and> start + len \<le> pb_end b)
      | (ph', Some answer) \<Rightarrow> released start len ph ph' \<and>
          (\<exists>b\<in>set (ph_blocks ph). \<not> pb_pool_expansion b \<and> pb_start_addr b \<le> start \<and> start + len \<le> pb_end b)"
    using ph_Release_ok [OF assms r] unfolding r prod.case by (auto split: if_splits option.split)
qed (rule ph_Alloc_ok [OF assms], rule ph_Available_ok [OF assms(1)])

theorem direct_memory_refines_owner_witness:
  "(case ph_Alloc 1 8192 16 64 3 False (new_physical 8192) of
      Inr (ph', Some p) \<Rightarrow> p = 64 \<and> blocks_ok ph' \<and> owner (ph_blocks ph') 70 = Some (3, False) \<and>
        owner (ph_blocks ph') 80 = None
    | _ \<Rightarrow> False) \<and> ph_Available 1 8192 64 (new_physical 8192) = Some (64, 8128)"
proof -
  have "blocks_ok (new_physical 8192)" by (rule blocks_ok_new) (simp_all add: UINT64_MAX_def)
  from direct_memory_refines_owner [OF this, of 16 1 8192 64 3 False 0]
  show ?thesis by (auto simp: new_physical_def ph_Alloc_def ph_Available_def upper_bound_def step_back_def GetAlignedPos_def
    Let_def new_block_def UINT64_MAX_def split: option.splits)
qed

text \<open>C10: a mapping of direct memory succeeds exactly when every byte of it is allocated to blocks that are no pool's; then
  the addresses asked for translate to those bytes in order, with the protection given and the memory type of the first.
  An unmapping succeeds exactly when its range lies in one mapping, and then takes the translation of exactly its range
  away; a protection changes the protection of exactly its range. No other address changes its translation, mappings never
  come to overlap, and the search for the mappings of a span of bytes finds exactly the addresses that translate into it.\<close>

theorem direct_mappings_refine_translation:
  assumes "blocks_ok ph" "mappings_ok (ph_mappings ph)" "0 < len" "vaddr + len \<le> UINT64_MAX"
    "\<forall>b\<in>set (ph_mappings ph). pb_end b \<le> UINT64_MAX" "phys_addr + len \<le> UINT64_MAX"
  shows "((\<forall>a. vaddr \<le> a \<and> a < vaddr + len \<longrightarrow> translate (ph_mappings ph) a = None) \<longrightarrow>
      (case ph_Map vaddr phys_addr len prot mode gpu_mode ph of (ph', r) \<Rightarrow>
        (r \<longleftrightarrow> ph_CanMapDirect phys_addr len ph) \<and> (r \<longleftrightarrow> all_direct phys_addr len ph) \<and>
        (if r then mappings_ok (ph_mappings ph') \<and>
           (\<exists>mt name. owner (ph_blocks ph) phys_addr = Some (mt, False) \<and>
             (\<forall>a. translate (ph_mappings ph') a =
               (if vaddr \<le> a \<and> a < vaddr + len
                then Some \<lparr>tr_phys = phys_addr + (a - vaddr), tr_prot = prot, tr_mode = mode, tr_gpu_mode = gpu_mode,
                           tr_memory_type = mt, tr_name = name\<rparr>
                else translate (ph_mappings ph) a)))
         else ph' = ph))) \<and>
    (case ph_Unmap vaddr len ph of (ph', r) \<Rightarrow>
      (r \<noteq> None \<longleftrightarrow> (\<exists>b\<in>set (ph_mappings ph). pb_map_vaddr b \<le> vaddr \<and> vaddr + len \<le> map_end b)) \<and>
      mappings_ok (ph_mappings ph') \<and>
      (\<forall>a. translate (ph_mappings ph') a =
        (if r \<noteq> None \<and> vaddr \<le> a \<and> a < vaddr + len then None else translate (ph_mappings ph) a))) \<and>
    mappings_ok (ph_mappings (ph_ProtectMapping vaddr len prot mode gpu_mode ph)) \<and>
    (\<forall>a. translate (ph_mappings (ph_ProtectMapping vaddr len prot mode gpu_mode ph)) a =
      (if vaddr \<le> a \<and> a < vaddr + len
       then map_option (tr_prot_update (\<lambda>_. prot) \<circ> tr_mode_update (\<lambda>_. mode) \<circ> tr_gpu_mode_update (\<lambda>_. gpu_mode))
              (translate (ph_mappings ph) a)
       else translate (ph_mappings ph) a)) \<and>
    (\<forall>a t. (\<exists>m\<in>set (ph_FindMappings phys_addr len ph). map_covers m a \<and> map_view m a = t) \<longleftrightarrow>
       translate (ph_mappings ph) a = Some t \<and> phys_addr \<le> tr_phys t \<and> tr_phys t < phys_addr + len)"
proof (intro conjI impI allI)
  obtain ph' r where m: "ph_Map vaddr phys_addr len prot mode gpu_mode ph = (ph', r)" by fastforce
  assume "\<forall>a. vaddr \<le> a \<and> a < vaddr + len \<longrightarrow> translate (ph_mappings ph) a = None"
  then show "case ph_Map vaddr phys_addr len prot mode gpu_mode ph of (ph', r) \<Rightarrow>
        (r \<longleftrightarrow> ph_CanMapDirect phys_addr len ph) \<and> (r \<longleftrightarrow> all_direct phys_addr len ph) \<and>
        (if r then mappings_ok (ph_mappings ph') \<and>
           (\<exists>mt name. owner (ph_blocks ph) phys_addr = Some (mt, False) \<and>
             (\<forall>a. translate (ph_mappings ph') a =
               (if vaddr \<le> a \<and> a < vaddr + len
                then Some \<lparr>tr_phys = phys_addr + (a - vaddr), tr_prot = prot, tr_mode = mode, tr_gpu_mode = gpu_mode,
                           tr_memory_type = mt, tr_name = name\<rparr>
                else translate (ph_mappings ph) a)))
         else ph' = ph)"
    using ph_Map_ok [OF assms(1,2,4) _ m] ph_CanMapDirect_ok [OF assms(1), of phys_addr len] unfolding m prod.case
    by (cases "all_direct phys_addr len ph") (simp_all only: if_True if_False simp_thms)
next
  obtain ph' r where u: "ph_Unmap vaddr len ph = (ph', r)" by fastforce
  show "case ph_Unmap vaddr len ph of (ph', r) \<Rightarrow>
      (r \<noteq> None \<longleftrightarrow> (\<exists>b\<in>set (ph_mappings ph). pb_map_vaddr b \<le> vaddr \<and> vaddr + len \<le> map_end b)) \<and>
      mappings_ok (ph_mappings ph') \<and>
      (\<forall>a. translate (ph_mappings ph') a =
        (if r \<noteq> None \<and> vaddr \<le> a \<and> a < vaddr + len then None else translate (ph_mappings ph) a))"
    using ph_Unmap_ok [OF assms(2,3) u] assms(2) unfolding u prod.case by (auto split: if_splits)
next
  fix a t
  show "(\<exists>m\<in>set (ph_FindMappings phys_addr len ph). map_covers m a \<and> map_view m a = t) \<longleftrightarrow>
       translate (ph_mappings ph) a = Some t \<and> phys_addr \<le> tr_phys t \<and> tr_phys t < phys_addr + len"
    by (rule ph_FindMappings_ok(2) [OF assms(2,6)]) (use assms(5) in blast)
qed (use ph_ProtectMapping_ok [OF assms(2-4) refl] in simp_all)

theorem direct_mappings_refine_translation_witness:
  "\<exists>ph ph'. ph_Alloc 0 8192 4096 0 3 False (new_physical 8192) = Inr (ph, Some 0) \<and>
     ph_Map 65536 1024 2048 1 Mode_Read Gpu_NoAccess ph = (ph', True) \<and>
     map_option tr_phys (translate (ph_mappings ph') 65537) = Some 1025 \<and> translate (ph_mappings ph') 65535 = None"
proof -
  let ?b = "new_block 0 4096 3 False"
  let ?ph = "\<lparr>ph_blocks = [?b], ph_free = [(4096, 4096)], ph_mappings = [], ph_size = 8192\<rparr>"
  have al: "ph_Alloc 0 8192 4096 0 3 False (new_physical 8192) = Inr (?ph, Some 0)"
    by (simp add: new_physical_def ph_Alloc_def upper_bound_def step_back_def GetAlignedPos_def ConsumeFreeRange_def Let_def)
  have new: "blocks_ok (new_physical 8192)" by (rule blocks_ok_new) (simp_all add: UINT64_MAX_def)
  have ok: "blocks_ok ?ph" using ph_Alloc_ok [OF new, of 4096 0 8192 0 3 False] unfolding al by simp
  have can: "ph_CanMapDirect 1024 2048 ?ph"
    by (simp add: ph_CanMapDirect_def span_loop.simps [of 3072 1024] span_loop.simps [of 3072 3072] span_block_def
      block_upper_bound_def new_block_def UINT64_MAX_def Let_def)
  obtain ph' r where m: "ph_Map 65536 1024 2048 1 Mode_Read Gpu_NoAccess ?ph = (ph', r)" by fastforce
  have none: "translate (ph_mappings ?ph) a = None" for a by simp
  have "0 < (2048::nat)" "65536 + 2048 \<le> UINT64_MAX" "1024 + 2048 \<le> UINT64_MAX" "mappings_ok (ph_mappings ?ph)"
    "\<forall>b\<in>set (ph_mappings ?ph). pb_end b \<le> UINT64_MAX" by (simp_all add: UINT64_MAX_def mappings_ok_def)
  note main = direct_mappings_refine_translation [OF ok this(4,1,2,5,3), of 1 Mode_Read Gpu_NoAccess, THEN conjunct1]
  have r: "r" using main can none unfolding m prod.case by blast
  then have t: "translate (ph_mappings ph') a = (if 65536 \<le> a \<and> a < 65536 + 2048 then translate (ph_mappings ph') a else None)"
    "65536 \<le> a \<Longrightarrow> a < 65536 + 2048 \<Longrightarrow> map_option tr_phys (translate (ph_mappings ph') a) = Some (1024 + (a - 65536))" for a
    using main none unfolding m prod.case by auto
  show ?thesis using al m r t(1) [of 65535] t(2) [of 65537] by (intro exI [of _ ?ph] exI [of _ ph']) simp
qed

end
