(* ===== verification/PooledMemory.thy ===== *)
theory PooledMemory
  imports FreeRanges MappingLists VirtualRanges "HOL-Library.Multiset"
begin

text \<open>
  The class \<open>PooledMemory\<close> of src/src/kernel/memory.cpp: physical ranges given to the pool, of which pieces are taken
  for virtual addresses and put back. The mutex is the atomicity of an operation.
\<close>

section \<open>State and operations\<close>

record pmapping =
  pm_vaddr :: nat
  pm_size :: nat
  pm_phys_addr :: nat
  pm_gpu_mode :: gpu_access_mode

record pooled =
  po_free :: "(nat \<times> nat) list"
  po_expansions :: "(nat \<times> nat) list"
  po_mappings :: "pmapping list"

definition new_pooled :: pooled where
  "new_pooled = \<lparr>po_free = [], po_expansions = [], po_mappings = []\<rparr>"

text \<open>The loop that merges sorted ranges; \<open>merged.back()\<close> is the first range of the list.\<close>

fun pool_merge :: "(nat \<times> nat) list \<Rightarrow> (nat \<times> nat) list" where
  "pool_merge ((a, n) # (b, m) # rs) =
     (if b \<le> a + n then pool_merge ((a, max (a + n) (b + m) - a) # rs) else (a, n) # pool_merge ((b, m) # rs))"
| "pool_merge rs = rs"

definition pool_AddFree :: "nat \<Rightarrow> nat \<Rightarrow> (nat \<times> nat) list \<Rightarrow> (nat \<times> nat) list" where
  "pool_AddFree start bytes free = (if bytes = 0 then free else pool_merge (sort_key fst (free @ [(start, bytes)])))"

definition pool_Expand :: "nat \<Rightarrow> nat \<Rightarrow> pooled \<Rightarrow> pooled" where
  "pool_Expand phys_addr bytes po =
     po\<lparr>po_expansions := po_expansions po @ [(phys_addr, bytes)], po_free := pool_AddFree phys_addr bytes (po_free po)\<rparr>"

definition pool_ReleaseExpansion :: "nat \<Rightarrow> nat \<Rightarrow> pooled \<Rightarrow> pooled \<times> bool" where
  "pool_ReleaseExpansion phys_addr bytes po =
     (if (phys_addr, bytes) \<notin> set (po_expansions po) then (po, False)
      else if \<exists>m\<in>set (po_mappings po). VirtualRangesOverlap phys_addr bytes (pm_phys_addr m) (pm_size m) then (po, False)
      else let end1 = phys_addr + bytes
           in case find (\<lambda>r. phys_addr \<ge> fst r \<and> end1 \<le> fst r + snd r) (po_free po) of
                None \<Rightarrow> (po, False)
              | Some old \<Rightarrow>
                  let old_end = fst old + snd old; left_size = phys_addr - fst old; right_size = old_end - end1;
                      free = remove1 old (po_free po)
                             @ (if left_size \<noteq> 0 then [(fst old, left_size)] else [])
                             @ (if right_size \<noteq> 0 then [(end1, right_size)] else [])
                  in (po\<lparr>po_free := sort_key fst free, po_expansions := remove1 (phys_addr, bytes) (po_expansions po)\<rparr>, True))"

text \<open>The loop of \<open>Allocate\<close>: the new mappings, what is left of each free range, and the bytes still wanted.\<close>

fun pool_take :: "nat \<Rightarrow> nat \<Rightarrow> gpu_access_mode \<Rightarrow> (nat \<times> nat) list \<Rightarrow> pmapping list \<times> (nat \<times> nat) list \<times> nat" where
  "pool_take current remaining gpu_mode [] = ([], [], remaining)"
| "pool_take current remaining gpu_mode ((a, n) # free) =
     (if remaining = 0 \<or> n = 0
      then case pool_take current remaining gpu_mode free of (ms, free, rest) \<Rightarrow> (ms, (a, n) # free, rest)
      else let part_size = min n remaining;
               m = \<lparr>pm_vaddr = current, pm_size = part_size, pm_phys_addr = a, pm_gpu_mode = gpu_mode\<rparr>
           in case pool_take (current + part_size) (remaining - part_size) gpu_mode free of
                (ms, free, rest) \<Rightarrow> (m # ms, (a + part_size, n - part_size) # free, rest))"

definition pool_Allocate :: "nat \<Rightarrow> nat \<Rightarrow> gpu_access_mode \<Rightarrow> pooled \<Rightarrow> pooled \<times> pmapping list option" where
  "pool_Allocate vaddr bytes gpu_mode po =
     (if vaddr = 0 \<or> bytes = 0 \<or> UINT64_MAX - vaddr < bytes then (po, None)
      else case pool_take vaddr bytes gpu_mode (po_free po) of
             (ms, free, rest) \<Rightarrow>
               if rest \<noteq> 0 then (po, None)
               else (po\<lparr>po_free := filter (\<lambda>r. snd r \<noteq> 0) free, po_mappings := po_mappings po @ ms\<rparr>, Some ms))"

function pool_query :: "nat \<Rightarrow> nat \<Rightarrow> pmapping list \<Rightarrow> pmapping list option" where
  "pool_query current end1 ms =
     (if current < end1
      then case find (\<lambda>m. current \<ge> pm_vaddr m \<and> current < pm_vaddr m + pm_size m) ms of
             None \<Rightarrow> None
           | Some it \<Rightarrow>
               let part_size = min end1 (pm_vaddr it + pm_size it) - current
               in map_option (\<lambda>parts. \<lparr>pm_vaddr = current, pm_size = part_size,
                       pm_phys_addr = pm_phys_addr it + (current - pm_vaddr it), pm_gpu_mode = pm_gpu_mode it\<rparr> # parts)
                    (pool_query (current + part_size) end1 ms)
      else Some [])"
  by pat_completeness auto

termination
  by (relation "measure (\<lambda>(current, end1, ms). end1 - current)") (auto simp: find_Some_iff)

declare pool_query.simps [simp del]

definition pool_QueryUnlocked :: "nat \<Rightarrow> nat \<Rightarrow> pooled \<Rightarrow> pmapping list option" where
  "pool_QueryUnlocked vaddr bytes po =
     (if vaddr = 0 \<or> bytes = 0 \<or> UINT64_MAX - vaddr < bytes then None
      else pool_query vaddr (vaddr + bytes) (po_mappings po))"

definition pool_Query :: "nat \<Rightarrow> nat \<Rightarrow> pooled \<Rightarrow> pmapping list option" where
  "pool_Query vaddr bytes po = pool_QueryUnlocked vaddr bytes po"

definition pool_cut :: "nat \<Rightarrow> nat \<Rightarrow> pmapping \<Rightarrow> pmapping list" where
  "pool_cut vaddr end1 m =
     (let mapping_end = pm_vaddr m + pm_size m; cut_start = max vaddr (pm_vaddr m); cut_end = min end1 mapping_end
      in if cut_start \<ge> cut_end then [m]
         else (if pm_vaddr m < cut_start then [m\<lparr>pm_size := cut_start - pm_vaddr m\<rparr>] else []) @
              (if cut_end < mapping_end
               then [m\<lparr>pm_vaddr := cut_end, pm_size := mapping_end - cut_end,
                       pm_phys_addr := pm_phys_addr m + (cut_end - pm_vaddr m)\<rparr>] else []))"

definition pool_Release :: "nat \<Rightarrow> nat \<Rightarrow> pooled \<Rightarrow> pooled \<times> gpu_access_mode option" where
  "pool_Release vaddr bytes po =
     (case pool_QueryUnlocked vaddr bytes po of
        None \<Rightarrow> (po, None)
      | Some released \<Rightarrow>
          (po\<lparr>po_mappings := concat (map (pool_cut vaddr (vaddr + bytes)) (po_mappings po)),
              po_free := fold (\<lambda>m. pool_AddFree (pm_phys_addr m) (pm_size m)) released (po_free po)\<rparr>,
           Some (pm_gpu_mode (hd released))))"

definition pool_Available :: "pooled \<Rightarrow> nat" where
  "pool_Available po = sum_list (map snd (po_free po))"

definition pool_GetMappings :: "pooled \<Rightarrow> pmapping list" where
  "pool_GetMappings po = po_mappings po"

section \<open>The free bytes of the pool\<close>

lemma pool_merge_ok:
  assumes "sorted (map fst m)" "\<forall>r\<in>set m. 0 < snd r" "\<forall>r\<in>set m. s \<le> fst r"
  shows "separated s (pieces (pool_merge m)) \<and> free_bytes (pool_merge m) = free_bytes m"
  using assms
proof (induction m arbitrary: s rule: pool_merge.induct)
  case (1 a n b m rs)
  show ?case
  proof (cases "b \<le> a + n")
    case True
    have "separated s (pieces (pool_merge ((a, max (a + n) (b + m) - a) # rs))) \<and>
        free_bytes (pool_merge ((a, max (a + n) (b + m) - a) # rs)) = free_bytes ((a, max (a + n) (b + m) - a) # rs)"
      by (rule 1(1) [OF True]) (use 1(3-5) in auto)
    moreover have "{a..<max (a + n) (b + m)} = {a..<a + n} \<union> {b..<b + m}" using 1(3) True by auto
    moreover have "a \<le> max (a + n) (b + m)" by simp
    ultimately show ?thesis using True by (simp add: Un_assoc)
  next
    case False
    have "separated (a + n + 1) (pieces (pool_merge ((b, m) # rs))) \<and> free_bytes (pool_merge ((b, m) # rs)) = free_bytes ((b, m) # rs)"
      by (rule 1(2) [OF False]) (use 1(3-5) False in \<open>auto simp: less_eq_Suc_le\<close>)
    then show ?thesis using False 1(4,5) by auto
  qed
qed auto

lemma pool_AddFree_ok:
  assumes "free_ok free"
  shows "free_ok (pool_AddFree start bytes free)" "free_bytes (pool_AddFree start bytes free) = free_bytes free \<union> {start..<start + bytes}"
proof -
  have pos: "0 < snd r" if "r \<in> set free" for r
    using separated_bound [of 0 "pieces free" "fst r" "fst r + snd r"] pieces_mem [OF that] assms by (simp add: free_ok_def)
  let ?m = "sort_key fst (free @ [(start, bytes)])"
  have m: "separated 0 (pieces (pool_merge ?m)) \<and> free_bytes (pool_merge ?m) = free_bytes ?m" if "bytes \<noteq> 0"
    by (rule pool_merge_ok) (use pos that in auto)
  have s: "free_bytes ?m = free_bytes free \<union> {start..<start + bytes}" by (auto simp: free_bytes_iff)
  show "free_ok (pool_AddFree start bytes free)" using m assms by (auto simp: pool_AddFree_def free_ok_def)
  show "free_bytes (pool_AddFree start bytes free) = free_bytes free \<union> {start..<start + bytes}"
    using m s by (auto simp: pool_AddFree_def)
qed

lemma free_bytes_finite [simp]: "finite (free_bytes m)"
  by (induction m) auto

lemma free_ok_card:
  assumes "free_ok m"
  shows "card (free_bytes m) = sum_list (map snd m)"
proof -
  have "separated s (pieces m) \<Longrightarrow> card (free_bytes m) = sum_list (map snd m) \<and> (\<forall>x\<in>free_bytes m. s \<le> x)" for s
  proof (induction m arbitrary: s)
    case (Cons r m)
    obtain a n where r: "r = (a, n)" by (cases r)
    have ih: "card (free_bytes m) = sum_list (map snd m)" "\<forall>x\<in>free_bytes m. a + n + 1 \<le> x"
      using Cons.IH [of "a + n + 1"] Cons.prems r by auto
    then have "{a..<a + n} \<inter> free_bytes m = {}" by fastforce
    then have "card ({a..<a + n} \<union> free_bytes m) = n + card (free_bytes m)" by (simp add: card_Un_disjoint)
    then show ?case using ih r Cons.prems by fastforce
  qed simp
  then show ?thesis using assms by (simp add: free_ok_def)
qed

section \<open>What the mappings say\<close>

definition pool_view :: "pmapping \<Rightarrow> nat \<Rightarrow> nat \<times> gpu_access_mode" where
  "pool_view m a = (pm_phys_addr m + (a - pm_vaddr m), pm_gpu_mode m)"

abbreviation pool_at :: "pmapping list \<Rightarrow> nat \<Rightarrow> (nat \<times> gpu_access_mode) option" where
  "pool_at \<equiv> seen_at pm_vaddr pm_size pool_view"

definition used :: "pmapping list \<Rightarrow> nat set" where
  "used ms = {x. \<exists>m\<in>set ms. pm_phys_addr m \<le> x \<and> x < pm_phys_addr m + pm_size m}"

text \<open>The addresses of the mappings with their bytes.\<close>

definition pairs :: "pmapping list \<Rightarrow> (nat \<times> nat) set" where
  "pairs ms = {(a, x). \<exists>m\<in>set ms. pm_vaddr m \<le> a \<and> a < pm_vaddr m + pm_size m \<and> x = pm_phys_addr m + (a - pm_vaddr m)}"

lemma used_pairs: "used ms = snd ` pairs ms"
proof (intro equalityI subsetI)
  fix x
  assume "x \<in> used ms"
  then obtain m where "m \<in> set ms" "pm_phys_addr m \<le> x" "x < pm_phys_addr m + pm_size m" by (auto simp: used_def)
  then have "(pm_vaddr m + (x - pm_phys_addr m), x) \<in> pairs ms" by (auto simp: pairs_def intro!: bexI [of _ m])
  then show "x \<in> snd ` pairs ms" by force
next
  fix x
  assume "x \<in> snd ` pairs ms"
  then obtain a m where m: "m \<in> set ms" "pm_vaddr m \<le> a" "a < pm_vaddr m + pm_size m" "x = pm_phys_addr m + (a - pm_vaddr m)"
    by (auto simp: pairs_def)
  then have "pm_phys_addr m \<le> x" "x < pm_phys_addr m + pm_size m" by auto
  then show "x \<in> used ms" using m(1) by (auto simp: used_def)
qed

lemma used_simps [simp]: "used [] = {}" "used (m # ms) = {pm_phys_addr m..<pm_phys_addr m + pm_size m} \<union> used ms"
  "used (xs @ ys) = used xs \<union> used ys"
  by (auto simp: used_def)

text \<open>Virtual addresses one after the other.\<close>

fun chain :: "nat \<Rightarrow> pmapping list \<Rightarrow> nat \<Rightarrow> bool" where
  "chain s [] e \<longleftrightarrow> s = e"
| "chain s (m # ms) e \<longleftrightarrow> pm_vaddr m = s \<and> 0 < pm_size m \<and> chain (s + pm_size m) ms e"

lemma chain_le: "chain s ms e \<Longrightarrow> s \<le> e"
  by (induction s ms e rule: chain.induct) auto

lemma chain_ok:
  assumes "chain s ms e" "e \<le> UINT64_MAX"
  shows "s \<le> e" "maps_ok pm_vaddr pm_size ms" "\<forall>m\<in>set ms. s \<le> pm_vaddr m \<and> pm_vaddr m + pm_size m \<le> e"
    "pool_at ms a \<noteq> None \<longleftrightarrow> s \<le> a \<and> a < e"
proof -
  have "s \<le> e \<and> maps_ok pm_vaddr pm_size ms \<and> (\<forall>m\<in>set ms. s \<le> pm_vaddr m \<and> pm_vaddr m + pm_size m \<le> e) \<and>
      (pool_at ms a \<noteq> None \<longleftrightarrow> s \<le> a \<and> a < e)"
    using assms
  proof (induction s ms e rule: chain.induct)
    case (2 s m ms e)
    then show ?case by (fastforce simp: maps_ok_Cons apart_def)
  qed auto
  then show "s \<le> e" "maps_ok pm_vaddr pm_size ms" "\<forall>m\<in>set ms. s \<le> pm_vaddr m \<and> pm_vaddr m + pm_size m \<le> e"
    "pool_at ms a \<noteq> None \<longleftrightarrow> s \<le> a \<and> a < e" by blast+
qed

definition pool_ok :: "pooled \<Rightarrow> bool" where
  "pool_ok po \<longleftrightarrow>
     free_ok (po_free po) \<and> maps_ok pm_vaddr pm_size (po_mappings po) \<and> maps_ok pm_phys_addr pm_size (po_mappings po) \<and>
     maps_ok fst snd (po_expansions po) \<and> free_bytes (po_free po) \<inter> used (po_mappings po) = {} \<and>
     free_bytes (po_free po) \<union> used (po_mappings po) = free_bytes (po_expansions po)"

lemma pool_okD:
  assumes "pool_ok po"
  shows "free_ok (po_free po)" "maps_ok pm_vaddr pm_size (po_mappings po)" "maps_ok pm_phys_addr pm_size (po_mappings po)"
    "maps_ok fst snd (po_expansions po)" "free_bytes (po_free po) \<inter> used (po_mappings po) = {}"
    "free_bytes (po_free po) \<union> used (po_mappings po) = free_bytes (po_expansions po)"
  using assms by (simp_all add: pool_ok_def)

lemma pool_Available_card: "pool_ok po \<Longrightarrow> pool_Available po = card (free_bytes (po_free po))"
  by (simp add: pool_Available_def free_ok_card pool_ok_def)

lemma pool_Expand_ok:
  assumes ok: "pool_ok po" and new: "0 < bytes" "phys_addr + bytes \<le> UINT64_MAX"
    "{phys_addr..<phys_addr + bytes} \<inter> free_bytes (po_expansions po) = {}"
  shows "pool_ok (pool_Expand phys_addr bytes po)"
    "free_bytes (po_free (pool_Expand phys_addr bytes po)) = free_bytes (po_free po) \<union> {phys_addr..<phys_addr + bytes}"
    "po_mappings (pool_Expand phys_addr bytes po) = po_mappings po"
proof -
  note d = pool_okD [OF ok]
  note f = pool_AddFree_ok [OF d(1), of phys_addr bytes]
  have "apart fst snd e (phys_addr, bytes)" if "e \<in> set (po_expansions po)" for e
  proof (rule ccontr)
    assume "\<not> apart fst snd e (phys_addr, bytes)"
    moreover have "0 < snd e" using maps_ok_mem [OF d(4) that] by simp
    ultimately have "max (fst e) phys_addr \<in> {phys_addr..<phys_addr + bytes} \<inter> free_bytes (po_expansions po)"
      using that new(1) by (auto simp: apart_def free_bytes_iff intro!: bexI [of _ e])
    then show False using new(3) by blast
  qed
  then have "maps_ok fst snd (po_expansions po @ [(phys_addr, bytes)])"
    using d(4) new(1,2) by (simp add: maps_ok_append maps_ok_Cons)
  then show "pool_ok (pool_Expand phys_addr bytes po)"
    using d f new(3) unfolding pool_ok_def pool_Expand_def by auto
  show "free_bytes (po_free (pool_Expand phys_addr bytes po)) = free_bytes (po_free po) \<union> {phys_addr..<phys_addr + bytes}"
    "po_mappings (pool_Expand phys_addr bytes po) = po_mappings po"
    using f(2) by (simp_all add: pool_Expand_def)
qed

section \<open>Taking from the pool\<close>

definition nonzero :: "(nat \<times> nat) list \<Rightarrow> (nat \<times> nat) list" where
  "nonzero = filter (\<lambda>r. snd r \<noteq> 0)"

lemma nonzero_simps [simp]:
  "nonzero [] = []" "nonzero ((a, n) # m) = (if n = 0 then nonzero m else (a, n) # nonzero m)"
  by (simp_all add: nonzero_def)

lemma nonzero_id: "separated s (pieces m) \<Longrightarrow> nonzero m = m"
  by (induction m arbitrary: s) auto

lemma separated_low: "separated s (pieces m) \<Longrightarrow> x \<in> free_bytes m \<Longrightarrow> s \<le> x"
proof (induction m arbitrary: s)
  case (Cons r m)
  then show ?case by (cases r) fastforce
qed simp

lemma pool_take_ok:
  assumes "separated s (pieces free)" "\<forall>x\<in>free_bytes free. x < UINT64_MAX" "pool_take current remaining gpu_mode free = (ms, free', rest)"
  shows "rest = remaining - sum_list (map snd free)" "chain current ms (current + (remaining - rest))"
    "maps_ok pm_phys_addr pm_size ms" "separated s (pieces (nonzero free'))"
    "used ms \<union> free_bytes (nonzero free') = free_bytes free" "used ms \<inter> free_bytes (nonzero free') = {}"
    "\<forall>m\<in>set ms. pm_gpu_mode m = gpu_mode"
proof -
  have "rest = remaining - sum_list (map snd free) \<and> chain current ms (current + (remaining - rest)) \<and>
    maps_ok pm_phys_addr pm_size ms \<and> separated s (pieces (nonzero free')) \<and>
    used ms \<union> free_bytes (nonzero free') = free_bytes free \<and> used ms \<inter> free_bytes (nonzero free') = {} \<and>
    (\<forall>m\<in>set ms. pm_gpu_mode m = gpu_mode)"
    using assms
  proof (induction current remaining gpu_mode free arbitrary: s ms free' rest rule: pool_take.induct)
    case (1 current remaining gpu_mode)
    then show ?case by simp
  next
    case (2 current remaining gpu_mode a n free)
    have sep: "s \<le> a" "0 < n" "separated (a + n + 1) (pieces free)" using 2(3) by auto
    have low: "a + n < x" if "x \<in> free_bytes free" for x using separated_low [OF sep(3) that] by simp
    show ?case
    proof (cases "remaining = 0")
      case True
      obtain ms1 free1 rest1 where t: "pool_take current remaining gpu_mode free = (ms1, free1, rest1)" by (metis prod_cases3)
      have ih: "rest1 = remaining - sum_list (map snd free)" "chain current ms1 (current + (remaining - rest1))"
        "maps_ok pm_phys_addr pm_size ms1" "separated (a + n + 1) (pieces (nonzero free1))"
        "used ms1 \<union> free_bytes (nonzero free1) = free_bytes free" "used ms1 \<inter> free_bytes (nonzero free1) = {}"
        "\<forall>m\<in>set ms1. pm_gpu_mode m = gpu_mode"
        using 2(1) [OF _ sep(3) _ t] 2(4) True by auto
      have r: "ms = ms1" "free' = (a, n) # free1" "rest = rest1" using 2(5) True t by simp_all
      have "ms1 = []" using ih(2) True by (cases ms1) (auto dest!: chain_le)
      then show ?thesis using ih r True sep by auto
    next
      case False
      let ?p = "min n remaining"
      obtain ms1 free1 rest1 where t: "pool_take (current + ?p) (remaining - ?p) gpu_mode free = (ms1, free1, rest1)"
        by (metis prod_cases3)
      have np: "\<not> (remaining = 0 \<or> n = 0)" using False sep(2) by simp
      have ih: "rest1 = remaining - ?p - sum_list (map snd free)" "chain (current + ?p) ms1 (current + ?p + (remaining - ?p - rest1))"
        "maps_ok pm_phys_addr pm_size ms1" "separated (a + n + 1) (pieces (nonzero free1))"
        "used ms1 \<union> free_bytes (nonzero free1) = free_bytes free" "used ms1 \<inter> free_bytes (nonzero free1) = {}"
        "\<forall>m\<in>set ms1. pm_gpu_mode m = gpu_mode"
        using 2(2) [OF np refl refl sep(3) _ t] 2(4) by auto
      let ?m = "\<lparr>pm_vaddr = current, pm_size = ?p, pm_phys_addr = a, pm_gpu_mode = gpu_mode\<rparr>"
      have r: "ms = ?m # ms1" "free' = (a + ?p, n - ?p) # free1" "rest = rest1" using 2(5) np t by (simp_all add: Let_def)
      have above: "a + n < pm_phys_addr m" if "m \<in> set ms1" for m
      proof -
        have "0 < pm_size m" using maps_ok_mem [OF ih(3) that] by simp
        then have "pm_phys_addr m \<in> used ms1" using that by (auto simp: used_def)
        then show ?thesis using ih(5) low by blast
      qed
      have end1: "a + n \<le> UINT64_MAX"
      proof -
        have "a + n - 1 \<in> free_bytes ((a, n) # free)" using sep(2) by auto
        then have "a + n - 1 < UINT64_MAX" using 2(4) by blast
        then show ?thesis by simp
      qed
      have "maps_ok pm_phys_addr pm_size ms" using r(1) ih(3) above end1 sep(2) False by (auto simp: maps_ok_Cons apart_def dest!: above)
      moreover have "separated s (pieces (nonzero free'))"
        using ih(4) sep separated_mono [OF ih(4), of s] by (auto simp: r(2) min_def)
      moreover have "chain current ms (current + (remaining - rest))"
        using ih(2) r(1,3) sep(2) False ih(1) by auto
      moreover have part: "{a..<a + n} = {a..<a + ?p} \<union> {a + ?p..<a + n}" "{a..<a + ?p} \<inter> {a + ?p..<a + n} = {}" by auto
      have nz: "free_bytes (nonzero free') = {a + ?p..<a + n} \<union> free_bytes (nonzero free1)" by (auto simp: r(2))
      have us: "used ms = {a..<a + ?p} \<union> used ms1" by (simp add: r(1))
      have ab: "{a..<a + n} \<inter> free_bytes free = {}" using low by fastforce
      have "used ms \<union> free_bytes (nonzero free') = free_bytes ((a, n) # free)"
        unfolding nz us free_bytes_simps part(1) using ih(5) by blast
      moreover have "used ms \<inter> free_bytes (nonzero free') = {}"
        unfolding nz us using part ih(5,6) ab by blast
      ultimately show ?thesis using ih(1,7) r by auto
    qed
  qed
  then show "rest = remaining - sum_list (map snd free)" "chain current ms (current + (remaining - rest))"
    "maps_ok pm_phys_addr pm_size ms" "separated s (pieces (nonzero free'))"
    "used ms \<union> free_bytes (nonzero free') = free_bytes free" "used ms \<inter> free_bytes (nonzero free') = {}"
    "\<forall>m\<in>set ms. pm_gpu_mode m = gpu_mode" by blast+
qed

text \<open>An allocation takes as many free bytes as it needs, and fails only if there are too few.\<close>

lemma pool_Allocate_ok:
  assumes ok: "pool_ok po" and un: "\<And>a. vaddr \<le> a \<Longrightarrow> a < vaddr + bytes \<Longrightarrow> pool_at (po_mappings po) a = None"
    and al: "pool_Allocate vaddr bytes gpu_mode po = (po', r)"
  shows "if vaddr \<noteq> 0 \<and> bytes \<noteq> 0 \<and> vaddr + bytes \<le> UINT64_MAX \<and> bytes \<le> card (free_bytes (po_free po))
    then \<exists>ms. r = Some ms \<and> pool_ok po' \<and> po_expansions po' = po_expansions po \<and> po_mappings po' = po_mappings po @ ms \<and>
      chain vaddr ms (vaddr + bytes) \<and> (\<forall>m\<in>set ms. pm_gpu_mode m = gpu_mode) \<and>
      used ms \<subseteq> free_bytes (po_free po) \<and> free_bytes (po_free po') = free_bytes (po_free po) - used ms
    else r = None \<and> po' = po"
proof (cases "vaddr = 0 \<or> bytes = 0 \<or> UINT64_MAX - vaddr < bytes")
  case True
  then show ?thesis using al by (auto simp: pool_Allocate_def)
next
  case False
  note d = pool_okD [OF ok]
  obtain ms free rest where t: "pool_take vaddr bytes gpu_mode (po_free po) = (ms, free, rest)" by (metis prod_cases3)
  have lim: "\<forall>x\<in>free_bytes (po_free po). x < UINT64_MAX"
  proof
    fix x
    assume "x \<in> free_bytes (po_free po)"
    then have "x \<in> free_bytes (po_expansions po)" using d(6) by blast
    then obtain e where "e \<in> set (po_expansions po)" "x < fst e + snd e" by (auto simp: free_bytes_iff)
    then show "x < UINT64_MAX" using maps_ok_mem [OF d(4), of e] by simp
  qed
  note tk = pool_take_ok [OF d(1) [unfolded free_ok_def] lim t]
  have rest: "rest = bytes - card (free_bytes (po_free po))" using tk(1) free_ok_card [OF d(1)] by simp
  show ?thesis
  proof (cases "rest = 0")
    case no: False
    then show ?thesis using False al t rest by (auto simp: pool_Allocate_def)
  next
    case yes: True
    have res: "po' = po\<lparr>po_free := nonzero free, po_mappings := po_mappings po @ ms\<rparr>" "r = Some ms"
      using False al t yes by (auto simp: pool_Allocate_def nonzero_def)
    have ch: "chain vaddr ms (vaddr + bytes)" using tk(2) yes by simp
    have fit: "vaddr + bytes \<le> UINT64_MAX" using False by linarith
    note c = chain_ok [OF ch fit]
    have apv: "apart pm_vaddr pm_size m n" if mn: "m \<in> set (po_mappings po)" "n \<in> set ms" for m n
    proof (rule ccontr)
      assume "\<not> apart pm_vaddr pm_size m n"
      then obtain a where a: "covers pm_vaddr pm_size m a" "covers pm_vaddr pm_size n a"
        using not_apart_common [of _ _ m n] maps_ok_mem [OF d(2) mn(1)] maps_ok_mem [OF c(2) mn(2)] by metis
      then have "vaddr \<le> a" "a < vaddr + bytes" using c(3) mn(2) by (fastforce simp: covers_def)+
      then show False using un a(1) mn(1) by (auto simp: seen_at_None)
    qed
    have app: "apart pm_phys_addr pm_size m n" if mn: "m \<in> set (po_mappings po)" "n \<in> set ms" for m n
    proof (rule ccontr)
      assume "\<not> apart pm_phys_addr pm_size m n"
      then obtain x where "covers pm_phys_addr pm_size m x" "covers pm_phys_addr pm_size n x"
        using not_apart_common [of _ _ m n] maps_ok_mem [OF d(2) mn(1)] maps_ok_mem [OF c(2) mn(2)] by metis
      then have "x \<in> used (po_mappings po) \<inter> used ms" using mn by (auto simp: covers_def used_def)
      then show False using tk(5) d(5) by blast
    qed
    have "pool_ok po'"
      unfolding pool_ok_def res
    proof (intro conjI; simp?)
      show "free_ok (nonzero free)" using tk(4) by (simp add: free_ok_def)
      show "maps_ok pm_vaddr pm_size (po_mappings po @ ms)" using d(2) c(2) apv by (simp add: maps_ok_append)
      show "maps_ok pm_phys_addr pm_size (po_mappings po @ ms)" using d(3) tk(3) app by (simp add: maps_ok_append)
      show "maps_ok fst snd (po_expansions po)" by (rule d(4))
      show "free_bytes (nonzero free) \<inter> (used (po_mappings po) \<union> used ms) = {}" using tk(5,6) d(5) by blast
      show "free_bytes (nonzero free) \<union> (used (po_mappings po) \<union> used ms) = free_bytes (po_expansions po)"
        using tk(5) d(6) by blast
    qed
    moreover have "free_bytes (po_free po') = free_bytes (po_free po) - used ms" using tk(5,6) res(1) by auto
    moreover have "used ms \<subseteq> free_bytes (po_free po)" using tk(5) by blast
    ultimately show ?thesis using res ch tk(7) False rest yes fit by auto
  qed
qed

section \<open>Queries and releases\<close>

lemma pool_query_ok:
  assumes "maps_ok pm_vaddr pm_size ms" "end1 \<le> UINT64_MAX"
  shows "case pool_query current end1 ms of
      None \<Rightarrow> \<exists>a. current \<le> a \<and> a < end1 \<and> pool_at ms a = None
    | Some ps \<Rightarrow> chain current ps (max current end1) \<and>
        (\<forall>a. current \<le> a \<and> a < end1 \<longrightarrow> pool_at ms a \<noteq> None \<and> pool_at ps a = pool_at ms a) \<and>
        pairs ps = {(a, x) \<in> pairs ms. current \<le> a \<and> a < end1}"
  using assms
proof (induction current end1 ms rule: pool_query.induct)
  case (1 current end1 ms)
  show ?case
  proof (cases "current < end1")
    case False
    then have "pool_query current end1 ms = Some []" by (subst pool_query.simps) simp
    then show ?thesis using False by (auto simp: pairs_def max_def)
  next
    case True
    let ?find = "find (\<lambda>m. current \<ge> pm_vaddr m \<and> current < pm_vaddr m + pm_size m) ms"
    show ?thesis
    proof (cases ?find)
      case None
      then have "pool_at ms current = None" by (auto simp: seen_at_None covers_def find_None_iff)
      moreover have "pool_query current end1 ms = None" using True None by (subst pool_query.simps) simp
      ultimately show ?thesis using True by auto
    next
      case (Some it)
      then have it: "it \<in> set ms" "pm_vaddr it \<le> current" "current < pm_vaddr it + pm_size it" by (auto simp: find_Some_iff)
      let ?p = "min end1 (pm_vaddr it + pm_size it) - current"
      let ?m = "\<lparr>pm_vaddr = current, pm_size = ?p, pm_phys_addr = pm_phys_addr it + (current - pm_vaddr it), pm_gpu_mode = pm_gpu_mode it\<rparr>"
      have eq: "pool_query current end1 ms = map_option (\<lambda>ps. ?m # ps) (pool_query (current + ?p) end1 ms)"
        unfolding pool_query.simps [of current end1 ms] using True Some by (simp add: Let_def)
      note ih = 1(1) [OF True Some refl 1(2,3)]
      have p: "0 < ?p" "current + ?p \<le> end1" "current + ?p \<le> pm_vaddr it + pm_size it" using True it by auto
      have at: "pool_at ms a = Some (pool_view it a)" if "current \<le> a" "a < current + ?p" for a
        by (rule seen_at_mem [OF 1(2) it(1)]) (use that it(2) p(3) in \<open>auto simp: covers_def\<close>)
      show ?thesis
      proof (cases "pool_query (current + ?p) end1 ms")
        case None
        then show ?thesis using ih unfolding eq None option.map option.case
          by (metis add_leE)
      next
        case (Some ps)
        have i: "chain (current + ?p) ps (max (current + ?p) end1)"
          "\<forall>a. current + ?p \<le> a \<and> a < end1 \<longrightarrow> pool_at ms a \<noteq> None \<and> pool_at ps a = pool_at ms a"
          "pairs ps = {(a, x) \<in> pairs ms. current + ?p \<le> a \<and> a < end1}"
          using ih unfolding Some option.case by blast+
        have "chain current (?m # ps) (max current end1)" using i(1) p True by (simp add: max_def)
        moreover have "pool_at ms a \<noteq> None \<and> pool_at (?m # ps) a = pool_at ms a" if "current \<le> a \<and> a < end1" for a
          using i(2) at [of a] that it(2) by (cases "a < current + ?p") (auto simp: pool_view_def)
        moreover have "pairs (?m # ps) = {(a, x) \<in> pairs ms. current \<le> a \<and> a < end1}"
        proof -
          have one: "pairs [?m] = {(a, x) \<in> pairs ms. current \<le> a \<and> a < current + ?p}"
          proof (intro equalityI subrelI)
            fix a x
            assume "(a, x) \<in> pairs [?m]"
            then have "current \<le> a" "a < current + ?p" "x = pm_phys_addr it + (a - pm_vaddr it)" using it(2) by (auto simp: pairs_def)
            then show "(a, x) \<in> {(a, x) \<in> pairs ms. current \<le> a \<and> a < current + ?p}"
              using it p(3) by (auto simp: pairs_def intro!: bexI [of _ it])
          next
            fix a x
            assume a: "(a, x) \<in> {(a, x) \<in> pairs ms. current \<le> a \<and> a < current + ?p}"
            then obtain m where m: "m \<in> set ms" "covers pm_vaddr pm_size m a" "x = pm_phys_addr m + (a - pm_vaddr m)"
              by (auto simp: pairs_def covers_def)
            have "covers pm_vaddr pm_size it a" using a it p(3) by (auto simp: covers_def)
            then have "m = it" using seen_at_unique [OF 1(2) m(1) it(1) m(2)] by simp
            then show "(a, x) \<in> pairs [?m]" using a m it(2) by (auto simp: pairs_def)
          qed
          have "pairs (?m # ps) = pairs [?m] \<union> pairs ps" by (auto simp: pairs_def)
          then show ?thesis unfolding one i(3) using p(2) by auto
        qed
        ultimately show ?thesis unfolding eq Some option.map option.case by blast
      qed
    qed
  qed
qed

lemma pool_cut_ok:
  assumes "0 < pm_size m" "vaddr < end1"
  shows "within pm_vaddr pm_size m (pool_cut vaddr end1 m)" "within pm_phys_addr pm_size m (pool_cut vaddr end1 m)"
    "pairs (pool_cut vaddr end1 m) = {(a, x) \<in> pairs [m]. \<not> (vaddr \<le> a \<and> a < end1)}"
    "covers pm_vaddr pm_size m a \<Longrightarrow>
       pool_at (pool_cut vaddr end1 m) a = (if vaddr \<le> a \<and> a < end1 then None else Some (pool_view m a))"
    "pm_vaddr m + pm_size m \<le> UINT64_MAX \<Longrightarrow> maps_ok pm_vaddr pm_size (pool_cut vaddr end1 m)"
    "pm_phys_addr m + pm_size m \<le> UINT64_MAX \<Longrightarrow> maps_ok pm_phys_addr pm_size (pool_cut vaddr end1 m)"
  using assms by (auto simp: pool_cut_def within_def pairs_def covers_def maps_ok_Cons apart_def pool_view_def Let_def)

lemma pairs_concat: "pairs (concat (map g ms)) = (\<Union>m\<in>set ms. pairs (g m))"
  by (auto simp: pairs_def)

lemma pairs_unique:
  assumes "maps_ok pm_phys_addr pm_size ms" "(a, x) \<in> pairs ms" "(b, x) \<in> pairs ms"
  shows "a = b"
proof -
  from assms(2,3) obtain m n where mn: "m \<in> set ms" "pm_vaddr m \<le> a" "a < pm_vaddr m + pm_size m" "x = pm_phys_addr m + (a - pm_vaddr m)"
    "n \<in> set ms" "pm_vaddr n \<le> b" "b < pm_vaddr n + pm_size n" "x = pm_phys_addr n + (b - pm_vaddr n)"
    by (auto simp: pairs_def)
  have "covers pm_phys_addr pm_size m x" "covers pm_phys_addr pm_size n x" using mn by (auto simp: covers_def)
  then have "m = n" using seen_at_unique [OF assms(1) mn(1,5)] by blast
  then show ?thesis using mn by simp
qed

lemma pool_AddFree_fold:
  assumes "free_ok free"
  shows "free_ok (fold (\<lambda>m. pool_AddFree (pm_phys_addr m) (pm_size m)) ms free) \<and>
    free_bytes (fold (\<lambda>m. pool_AddFree (pm_phys_addr m) (pm_size m)) ms free) = free_bytes free \<union> used ms"
  using assms
proof (induction ms arbitrary: free)
  case (Cons m ms)
  then show ?case using pool_AddFree_ok [OF Cons.prems, of "pm_phys_addr m" "pm_size m"] by (auto simp: Un_assoc)
qed simp

text \<open>A release succeeds exactly when all of its addresses are mapped, and puts exactly their bytes back.\<close>

lemma pool_Release_ok:
  assumes ok: "pool_ok po" and rel: "pool_Release vaddr bytes po = (po', r)"
  shows "if vaddr \<noteq> 0 \<and> bytes \<noteq> 0 \<and> vaddr + bytes \<le> UINT64_MAX \<and>
      (\<forall>a. vaddr \<le> a \<and> a < vaddr + bytes \<longrightarrow> pool_at (po_mappings po) a \<noteq> None)
    then r = Some (snd (the (pool_at (po_mappings po) vaddr))) \<and> pool_ok po' \<and> po_expansions po' = po_expansions po \<and>
      (\<forall>a. pool_at (po_mappings po') a = (if vaddr \<le> a \<and> a < vaddr + bytes then None else pool_at (po_mappings po) a)) \<and>
      free_bytes (po_free po') = free_bytes (po_free po) \<union>
        {x. \<exists>a. vaddr \<le> a \<and> a < vaddr + bytes \<and> (a, x) \<in> pairs (po_mappings po)}
    else r = None \<and> po' = po"
proof (cases "vaddr = 0 \<or> bytes = 0 \<or> UINT64_MAX - vaddr < bytes")
  case True
  then show ?thesis using rel by (auto simp: pool_Release_def pool_QueryUnlocked_def)
next
  case False
  note d = pool_okD [OF ok]
  have fit: "vaddr + bytes \<le> UINT64_MAX" "vaddr < vaddr + bytes" using False by auto
  let ?stop = "vaddr + bytes"
  note q = pool_query_ok [OF d(2) fit(1), of vaddr]
  have qu: "pool_QueryUnlocked vaddr bytes po = pool_query vaddr ?stop (po_mappings po)"
    using False by (auto simp: pool_QueryUnlocked_def)
  show ?thesis
  proof (cases "pool_query vaddr ?stop (po_mappings po)")
    case None
    then have "\<exists>a. vaddr \<le> a \<and> a < ?stop \<and> pool_at (po_mappings po) a = None" using q by simp
    moreover have "r = None" "po' = po" using rel qu None by (simp_all add: pool_Release_def)
    ultimately show ?thesis by auto
  next
    case (Some ps)
    have i: "chain vaddr ps ?stop"
      "\<forall>a. vaddr \<le> a \<and> a < ?stop \<longrightarrow> pool_at (po_mappings po) a \<noteq> None \<and> pool_at ps a = pool_at (po_mappings po) a"
      "pairs ps = {(a, x) \<in> pairs (po_mappings po). vaddr \<le> a \<and> a < ?stop}"
      using q fit(2) unfolding Some option.case max_absorb2 [OF less_imp_le [OF fit(2)]] by blast+
    let ?ms = "concat (map (pool_cut vaddr ?stop) (po_mappings po))"
    let ?free = "fold (\<lambda>m. pool_AddFree (pm_phys_addr m) (pm_size m)) ps (po_free po)"
    have res: "po' = po\<lparr>po_mappings := ?ms, po_free := ?free\<rparr>" "r = Some (pm_gpu_mode (hd ps))"
      using rel qu Some by (simp_all add: pool_Release_def)
    note fr = pool_AddFree_fold [OF d(1), of ps]
    have cut: "0 < pm_size m" "pm_vaddr m + pm_size m \<le> UINT64_MAX" "pm_phys_addr m + pm_size m \<le> UINT64_MAX"
      if "m \<in> set (po_mappings po)" for m
      using maps_ok_mem [OF d(2) that] maps_ok_mem [OF d(3) that] by simp_all
    have m1: "maps_ok pm_vaddr pm_size ?ms"
      by (rule maps_ok_concat [OF d(2)]) (use pool_cut_ok [OF cut(1) fit(2)] cut(2) in blast)
    have m2: "maps_ok pm_phys_addr pm_size ?ms"
      by (rule maps_ok_concat [OF d(3)]) (use pool_cut_ok [OF cut(1) fit(2)] cut(3) in blast)
    have at: "pool_at ?ms a = (if vaddr \<le> a \<and> a < ?stop then None else pool_at (po_mappings po) a)" for a
    proof -
      have "pool_at ?ms a = Option.bind (pool_at (po_mappings po) a) (\<lambda>v. if vaddr \<le> a \<and> a < ?stop then None else Some v)"
        by (rule seen_at_concat [OF d(2)]) (use pool_cut_ok cut fit(2) in auto)
      then show ?thesis by (cases "pool_at (po_mappings po) a") simp_all
    qed
    have pr: "pairs ?ms = {(a, x) \<in> pairs (po_mappings po). \<not> (vaddr \<le> a \<and> a < ?stop)}"
    proof -
      have "pairs ?ms = (\<Union>m\<in>set (po_mappings po). {(a, x) \<in> pairs [m]. \<not> (vaddr \<le> a \<and> a < ?stop)})"
        unfolding pairs_concat by (rule SUP_cong [OF refl]) (use pool_cut_ok(3) cut(1) fit(2) in blast)
      then show ?thesis by (auto simp: pairs_def)
    qed
    have split: "used ?ms \<union> used ps = used (po_mappings po)" "used ?ms \<inter> used ps = {}"
    proof -
      show "used ?ms \<union> used ps = used (po_mappings po)" unfolding used_pairs pr i(3) by force
      show "used ?ms \<inter> used ps = {}"
        unfolding used_pairs pr i(3) using pairs_unique [OF d(3)] by fastforce
    qed
    have "pool_ok po'"
      unfolding pool_ok_def res using fr m1 m2 d(4,5,6) split by auto
    moreover have "r = Some (snd (the (pool_at (po_mappings po) vaddr)))"
    proof -
      obtain m ms where ps: "ps = m # ms" "pm_vaddr m = vaddr" "0 < pm_size m" using i(1) fit(2) by (cases ps) auto
      then have "pool_at ps vaddr = Some (pool_view m vaddr)" by simp
      moreover have "pool_at ps vaddr = pool_at (po_mappings po) vaddr" using i(2) fit(2) by auto
      ultimately have "pool_at (po_mappings po) vaddr = Some (pool_view m vaddr)" by simp
      then show ?thesis using res(2) ps(1) by (simp add: pool_view_def)
    qed
    moreover have "free_bytes (po_free po') = free_bytes (po_free po) \<union>
        {x. \<exists>a. vaddr \<le> a \<and> a < ?stop \<and> (a, x) \<in> pairs (po_mappings po)}"
      using fr res(1) unfolding used_pairs i(3) by (auto simp: image_def)
    ultimately show ?thesis using at i(2) False fit(1) res(1) by auto
  qed
qed

lemma sort_free:
  assumes "separated 0 (pieces ys)" "mset xs = mset ys"
  shows "sort_key fst xs = ys"
proof -
  have "separated s (pieces m) \<Longrightarrow> sorted (map fst m) \<and> distinct (map fst m) \<and> (\<forall>r\<in>set m. s \<le> fst r)" for s and m :: "(nat \<times> nat) list"
  proof (induction m arbitrary: s)
    case (Cons r m)
    then show ?case by (cases r) fastforce
  qed simp
  then have "sorted (map fst ys)" "inj_on fst (set ys)" using assms(1) by (auto simp: distinct_map)
  then show ?thesis using assms(2) mset_eq_setD [OF assms(2)] by (intro sort_key_inj_key_eq) simp_all
qed

text \<open>An expansion can be taken back exactly when none of its bytes is in use.\<close>

lemma pool_ReleaseExpansion_ok:
  assumes ok: "pool_ok po" and rel: "pool_ReleaseExpansion phys_addr bytes po = (po', r)"
  shows "if (phys_addr, bytes) \<in> set (po_expansions po) \<and> {phys_addr..<phys_addr + bytes} \<inter> used (po_mappings po) = {}
    then r \<and> pool_ok po' \<and> po_mappings po' = po_mappings po \<and>
      free_bytes (po_free po') = free_bytes (po_free po) - {phys_addr..<phys_addr + bytes} \<and>
      po_expansions po' = remove1 (phys_addr, bytes) (po_expansions po)
    else \<not> r \<and> po' = po"
proof (cases "(phys_addr, bytes) \<in> set (po_expansions po)")
  case False
  then show ?thesis using rel by (simp add: pool_ReleaseExpansion_def)
next
  case mem: True
  note d = pool_okD [OF ok]
  have e: "0 < bytes" "phys_addr + bytes \<le> UINT64_MAX" using maps_ok_mem [OF d(4) mem] by simp_all
  have ov: "VirtualRangesOverlap phys_addr bytes (pm_phys_addr m) (pm_size m) \<longleftrightarrow>
      phys_addr < pm_phys_addr m + pm_size m \<and> pm_phys_addr m < phys_addr + bytes" if "m \<in> set (po_mappings po)" for m
    using maps_ok_mem [OF d(3) that] e by (auto simp: VirtualRangesOverlap_def clamped_End_def Let_def)
  have busy: "(\<exists>m\<in>set (po_mappings po). VirtualRangesOverlap phys_addr bytes (pm_phys_addr m) (pm_size m)) \<longleftrightarrow>
      {phys_addr..<phys_addr + bytes} \<inter> used (po_mappings po) \<noteq> {}"
  proof
    assume "\<exists>m\<in>set (po_mappings po). VirtualRangesOverlap phys_addr bytes (pm_phys_addr m) (pm_size m)"
    then obtain m where m: "m \<in> set (po_mappings po)" "phys_addr < pm_phys_addr m + pm_size m" "pm_phys_addr m < phys_addr + bytes"
      using ov by blast
    then have "max phys_addr (pm_phys_addr m) \<in> {phys_addr..<phys_addr + bytes} \<inter> used (po_mappings po)"
      using e(1) maps_ok_mem [OF d(3) m(1)] by (auto simp: used_def intro!: bexI [of _ m])
    then show "{phys_addr..<phys_addr + bytes} \<inter> used (po_mappings po) \<noteq> {}" by blast
  qed (use ov in \<open>fastforce simp: used_def\<close>)
  show ?thesis
  proof (cases "{phys_addr..<phys_addr + bytes} \<inter> used (po_mappings po) = {}")
    case False
    then show ?thesis using rel mem busy by (auto simp: pool_ReleaseExpansion_def)
  next
    case True
    have "{phys_addr..<phys_addr + bytes} \<subseteq> free_bytes (po_expansions po)" using mem by (force simp: free_bytes_iff)
    then have sub: "{phys_addr..<phys_addr + bytes} \<subseteq> free_bytes (po_free po)" using d(6) True by blast
    from free_run [OF d(1) this e(1)] have "find (\<lambda>r. phys_addr \<ge> fst r \<and> phys_addr + bytes \<le> fst r + snd r) (po_free po) \<noteq> None"
      unfolding find_None_iff by blast
    then obtain old where old: "find (\<lambda>r. phys_addr \<ge> fst r \<and> phys_addr + bytes \<le> fst r + snd r) (po_free po) = Some old" by blast
    then have o: "old \<in> set (po_free po)" "fst old \<le> phys_addr" "phys_addr + bytes \<le> fst old + snd old"
      by (auto simp: find_Some_iff)
    obtain xs ys where x: "po_free po = xs @ old # ys" "old \<notin> set xs" using o(1) by (metis split_list_first)
    let ?l = "if phys_addr - fst old \<noteq> 0 then [(fst old, phys_addr - fst old)] else []"
    let ?r = "if fst old + snd old - (phys_addr + bytes) \<noteq> 0 then [(phys_addr + bytes, fst old + snd old - (phys_addr + bytes))] else []"
    have sep: "separated 0 (pieces xs @ (fst old, fst old + snd old) # pieces ys)"
      using d(1) x(1) by (simp add: free_ok_def case_prod_beta)
    have sep': "separated 0 (pieces (xs @ (?l @ ?r) @ ys))"
      using sep o(2,3) e(1) by (auto simp: separated_append intro: separated_mono)
    have so: "sort_key fst ((xs @ ys) @ ?l @ ?r) = xs @ (?l @ ?r) @ ys"
      by (rule sort_free [OF sep']) (simp only: mset_append ac_simps)
    have res: "po' = po\<lparr>po_free := xs @ (?l @ ?r) @ ys, po_expansions := remove1 (phys_addr, bytes) (po_expansions po)\<rparr>" "r"
      using rel mem busy True old so x by (auto simp: pool_ReleaseExpansion_def Let_def remove1_append)
    have above: "x < fst old" if fx: "x \<in> free_bytes xs" for x
    proof -
      obtain q where q: "q \<in> set xs" "x < fst q + snd q" using fx unfolding free_bytes_iff by blast
      then show ?thesis using separated_before [OF sep pieces_mem [OF q(1)]] by simp
    qed
    have below: "fst old + snd old < x" if "x \<in> free_bytes ys" for x
      using separated_low [of "fst old + snd old + 1" ys x] that sep by (auto simp: separated_append)
    have "free_bytes (?l @ ?r) = {fst old..<fst old + snd old} - {phys_addr..<phys_addr + bytes}" using o(2,3) by auto
    then have fb: "free_bytes (xs @ (?l @ ?r) @ ys) = free_bytes (po_free po) - {phys_addr..<phys_addr + bytes}"
      unfolding x(1) using above below o(2,3) by (cases old) (fastforce simp del: append_assoc)
    obtain es fs where ex: "po_expansions po = es @ (phys_addr, bytes) # fs" "(phys_addr, bytes) \<notin> set es"
      using mem by (metis split_list_first)
    then have ex': "remove1 (phys_addr, bytes) (po_expansions po) = es @ fs" by (simp add: remove1_append)
    have m: "maps_ok fst snd (es @ fs)" using d(4) by (simp add: ex(1) maps_ok_append maps_ok_Cons)
    have "apart fst snd (phys_addr, bytes) c" if "c \<in> set (es @ fs)" for c
      using d(4) that apart_sym [of fst snd c] by (auto simp: ex(1) maps_ok_append maps_ok_Cons)
    then have "{phys_addr..<phys_addr + bytes} \<inter> free_bytes (es @ fs) = {}"
      by (fastforce simp: free_bytes_iff apart_def)
    moreover have "free_bytes (po_expansions po) = {phys_addr..<phys_addr + bytes} \<union> free_bytes (es @ fs)"
      by (auto simp: ex(1))
    ultimately have "pool_ok po'"
      using d(2,3,5,6) sep' m fb True unfolding pool_ok_def res ex' free_ok_def by auto
    then show ?thesis using res fb mem True by simp
  qed
qed

section \<open>The pool hands out each of its bytes once\<close>

lemma new_pooled_ok: "pool_ok new_pooled"
  by (simp add: pool_ok_def new_pooled_def free_ok_def)

text \<open>C12: the bytes of the pool's expansions are at every moment either free or mapped at exactly one address. With the
  virtual range free of mappings, an allocation succeeds exactly when the pool has as many free bytes as it wants, maps
  consecutive addresses onto free bytes, and takes exactly those; a release succeeds exactly when all its addresses are
  mapped, unmaps exactly those and frees exactly their bytes; an expansion can be taken back exactly when none of its bytes
  is mapped. A failing call changes nothing.\<close>

theorem pool_conserves_bytes:
  assumes "pool_ok po"
  shows "pool_Available po = card (free_bytes (po_free po)) \<and>
    ((\<forall>a. vaddr \<le> a \<and> a < vaddr + bytes \<longrightarrow> pool_at (po_mappings po) a = None) \<longrightarrow>
      (case pool_Allocate vaddr bytes gpu_mode po of
         (po', None) \<Rightarrow> po' = po \<and> \<not> (vaddr \<noteq> 0 \<and> bytes \<noteq> 0 \<and> vaddr + bytes \<le> UINT64_MAX \<and> bytes \<le> pool_Available po)
       | (po', Some ms) \<Rightarrow> vaddr \<noteq> 0 \<and> bytes \<noteq> 0 \<and> vaddr + bytes \<le> UINT64_MAX \<and> bytes \<le> pool_Available po \<and>
           pool_ok po' \<and> po_mappings po' = po_mappings po @ ms \<and> chain vaddr ms (vaddr + bytes) \<and>
           used ms \<subseteq> free_bytes (po_free po) \<and> free_bytes (po_free po') = free_bytes (po_free po) - used ms)) \<and>
    (case pool_Release vaddr bytes po of (po', r) \<Rightarrow>
       (r \<noteq> None \<longleftrightarrow> vaddr \<noteq> 0 \<and> bytes \<noteq> 0 \<and> vaddr + bytes \<le> UINT64_MAX \<and>
          (\<forall>a. vaddr \<le> a \<and> a < vaddr + bytes \<longrightarrow> pool_at (po_mappings po) a \<noteq> None)) \<and>
       (if r = None then po' = po
        else pool_ok po' \<and>
          (\<forall>a. pool_at (po_mappings po') a = (if vaddr \<le> a \<and> a < vaddr + bytes then None else pool_at (po_mappings po) a)) \<and>
          free_bytes (po_free po') = free_bytes (po_free po) \<union>
            {x. \<exists>a. vaddr \<le> a \<and> a < vaddr + bytes \<and> (a, x) \<in> pairs (po_mappings po)})) \<and>
    (case pool_ReleaseExpansion phys_addr len po of (po', r) \<Rightarrow>
       (r \<longleftrightarrow> (phys_addr, len) \<in> set (po_expansions po) \<and> {phys_addr..<phys_addr + len} \<inter> used (po_mappings po) = {}) \<and>
       (if r then pool_ok po' \<and> po_mappings po' = po_mappings po \<and>
          free_bytes (po_free po') = free_bytes (po_free po) - {phys_addr..<phys_addr + len}
        else po' = po))"
proof (intro conjI impI)
  show "pool_Available po = card (free_bytes (po_free po))" by (rule pool_Available_card [OF assms])
  obtain po' r where al: "pool_Allocate vaddr bytes gpu_mode po = (po', r)" by fastforce
  assume un: "\<forall>a. vaddr \<le> a \<and> a < vaddr + bytes \<longrightarrow> pool_at (po_mappings po) a = None"
  show "case pool_Allocate vaddr bytes gpu_mode po of
         (po', None) \<Rightarrow> po' = po \<and> \<not> (vaddr \<noteq> 0 \<and> bytes \<noteq> 0 \<and> vaddr + bytes \<le> UINT64_MAX \<and> bytes \<le> pool_Available po)
       | (po', Some ms) \<Rightarrow> vaddr \<noteq> 0 \<and> bytes \<noteq> 0 \<and> vaddr + bytes \<le> UINT64_MAX \<and> bytes \<le> pool_Available po \<and>
           pool_ok po' \<and> po_mappings po' = po_mappings po @ ms \<and> chain vaddr ms (vaddr + bytes) \<and>
           used ms \<subseteq> free_bytes (po_free po) \<and> free_bytes (po_free po') = free_bytes (po_free po) - used ms"
    using pool_Allocate_ok [OF assms _ al] un unfolding al prod.case pool_Available_card [OF assms]
    by (auto split: option.split if_splits)
next
  obtain po' r where rel: "pool_Release vaddr bytes po = (po', r)" by fastforce
  show "case pool_Release vaddr bytes po of (po', r) \<Rightarrow>
       (r \<noteq> None \<longleftrightarrow> vaddr \<noteq> 0 \<and> bytes \<noteq> 0 \<and> vaddr + bytes \<le> UINT64_MAX \<and>
          (\<forall>a. vaddr \<le> a \<and> a < vaddr + bytes \<longrightarrow> pool_at (po_mappings po) a \<noteq> None)) \<and>
       (if r = None then po' = po
        else pool_ok po' \<and>
          (\<forall>a. pool_at (po_mappings po') a = (if vaddr \<le> a \<and> a < vaddr + bytes then None else pool_at (po_mappings po) a)) \<and>
          free_bytes (po_free po') = free_bytes (po_free po) \<union>
            {x. \<exists>a. vaddr \<le> a \<and> a < vaddr + bytes \<and> (a, x) \<in> pairs (po_mappings po)})"
    using pool_Release_ok [OF assms rel] unfolding rel prod.case by (simp split: if_splits)
next
  obtain po' r where rel: "pool_ReleaseExpansion phys_addr len po = (po', r)" by fastforce
  show "case pool_ReleaseExpansion phys_addr len po of (po', r) \<Rightarrow>
       (r \<longleftrightarrow> (phys_addr, len) \<in> set (po_expansions po) \<and> {phys_addr..<phys_addr + len} \<inter> used (po_mappings po) = {}) \<and>
       (if r then pool_ok po' \<and> po_mappings po' = po_mappings po \<and>
          free_bytes (po_free po') = free_bytes (po_free po) - {phys_addr..<phys_addr + len}
        else po' = po)"
    using pool_ReleaseExpansion_ok [OF assms rel] unfolding rel prod.case by (simp split: if_splits)
qed

theorem pool_conserves_bytes_witness:
  "\<exists>po'. pool_Allocate 0x10000 12 Gpu_Read (pool_Expand 100 8 (pool_Expand 200 8 new_pooled)) = (po', Some
      [\<lparr>pm_vaddr = 0x10000, pm_size = 8, pm_phys_addr = 100, pm_gpu_mode = Gpu_Read\<rparr>,
       \<lparr>pm_vaddr = 0x10008, pm_size = 4, pm_phys_addr = 200, pm_gpu_mode = Gpu_Read\<rparr>]) \<and>
     free_bytes (po_free po') = {204..<208}"
proof -
  let ?po = "pool_Expand 100 8 (pool_Expand 200 8 new_pooled)"
  have ok: "pool_ok ?po"
    by (intro pool_Expand_ok(1) new_pooled_ok) (simp_all add: UINT64_MAX_def pool_Expand_def new_pooled_def)
  let ?ms = "[\<lparr>pm_vaddr = 0x10000, pm_size = 8, pm_phys_addr = 100, pm_gpu_mode = Gpu_Read\<rparr>,
       \<lparr>pm_vaddr = 0x10008, pm_size = 4, pm_phys_addr = 200, pm_gpu_mode = Gpu_Read\<rparr>]"
  have f: "po_free ?po = [(100, 8), (200, 8)]" "po_mappings ?po = []"
    by (simp_all add: pool_Expand_def pool_AddFree_def new_pooled_def)
  obtain po' where al: "pool_Allocate 0x10000 12 Gpu_Read ?po = (po', Some ?ms)"
    by (simp add: pool_Allocate_def f UINT64_MAX_def)
  have "free_bytes (po_free po') = free_bytes (po_free ?po) - used ?ms"
    using pool_conserves_bytes [OF ok, of "0x10000" 12 Gpu_Read] f(2) unfolding al prod.case option.case by simp
  also have "\<dots> = {204..<208}" by (auto simp: f(1))
  finally show ?thesis using al by blast
qed

end
