(* ===== verification/AddressSpace.thy ===== *)
theory AddressSpace
  imports FreeRanges MappingLists VirtualRanges
begin

text \<open>
  src/src/kernel/memoryAddressSpace.inc on Linux: the shared backing object with its views in the guest's addresses
  (\<open>GuestBackingStore\<close>) and the guest address space with its free and mapped regions (\<open>GuestAddressSpace\<close>). The two
  objects are one record. The system calls are numbered by the log of those made so far, and \<open>sp_answers\<close> says of each
  whether it succeeds; with \<open>MAP_FIXED\<close> one that succeeds is at the address asked for. Failure reasons, which only
  the log shows, and the mutexes, which are the atomicity of an operation, are left out.
\<close>

section \<open>State and system calls\<close>

definition HOST_SYSTEM_MANAGED_MIN :: nat where "HOST_SYSTEM_MANAGED_MIN = 0x0000040000"
definition HOST_SYSTEM_MANAGED_MAX :: nat where "HOST_SYSTEM_MANAGED_MAX = 0x07ffffbfff"
definition HOST_SYSTEM_RESERVED_MIN :: nat where "HOST_SYSTEM_RESERVED_MIN = HOST_SYSTEM_MANAGED_MAX + 1"
definition HOST_SYSTEM_RESERVED_MAX :: nat where "HOST_SYSTEM_RESERVED_MAX = 0x0fffffffff"
definition HOST_USER_MIN :: nat where "HOST_USER_MIN = 0x1000000000"
definition HOST_USER_MAX :: nat where "HOST_USER_MAX = 0xfbffffffff"

text \<open>\<open>mmap\<close> of the backing object, \<open>mmap\<close> of nothing (\<open>PROT_NONE\<close>), and \<open>VirtualMemory::Protect\<close>.\<close>

datatype host_call = Map_View nat nat nat vm_mode | Map_None nat nat | Host_Protect nat nat vm_mode

record map_entry =
  me_vaddr :: nat
  me_size :: nat
  me_backing_offset :: nat
  me_mode :: vm_mode

datatype mapping_type = Mapped_Backing | Mapped_Private

record region =
  mr_vaddr :: nat
  mr_size :: nat
  mr_type :: mapping_type

record space =
  sp_answers :: "nat \<Rightarrow> bool"
  sp_log :: "(host_call \<times> bool) list"
  bk_available :: bool
  bk_size :: nat
  bk_bytes :: "nat \<Rightarrow> u8"
  bk_maps :: "map_entry list"
  sp_free :: free_map
  sp_mapped :: "region list"
  sp_owned :: "(nat \<times> nat) list"

definition host_do :: "host_call \<Rightarrow> space \<Rightarrow> space \<times> bool" where
  "host_do c s = (let ok = sp_answers s (length (sp_log s)) in (s\<lparr>sp_log := sp_log s @ [(c, ok)]\<rparr>, ok))"

text \<open>\<open>emplace\<close> into a map that is the list of its values in order of their keys; \<open>None\<close> where the key is taken.\<close>

fun emplace_by :: "('b \<Rightarrow> nat) \<Rightarrow> 'b \<Rightarrow> 'b list \<Rightarrow> 'b list option" where
  "emplace_by key b [] = Some [b]"
| "emplace_by key b (c # bs) =
     (if key b < key c then Some (b # c # bs)
      else if key b = key c then None
      else map_option (\<lambda>bs. c # bs) (emplace_by key b bs))"

text \<open>The entry before \<open>upper_bound\<close>.\<close>

definition last_at :: "('b \<Rightarrow> nat) \<Rightarrow> nat \<Rightarrow> 'b list \<Rightarrow> 'b option" where
  "last_at key addr bs =
     (let before = takeWhile (\<lambda>b. key b \<le> addr) bs in if before = [] then None else Some (last before))"

section \<open>The backing object\<close>

definition RangeOk :: "nat \<Rightarrow> nat \<Rightarrow> space \<Rightarrow> bool" where
  "RangeOk backing_offset bytes s \<longleftrightarrow> bytes \<noteq> 0 \<and> backing_offset < bk_size s \<and> bytes \<le> bk_size s - backing_offset"

definition CommitBackingRange :: "nat \<Rightarrow> nat \<Rightarrow> space \<Rightarrow> bool" where
  "CommitBackingRange backing_offset bytes s \<longleftrightarrow> \<not> (\<not> bk_available s \<or> \<not> RangeOk backing_offset bytes s)"

definition ZeroRange :: "nat \<Rightarrow> nat \<Rightarrow> space \<Rightarrow> space \<times> bool" where
  "ZeroRange backing_offset bytes s =
     (if \<not> CommitBackingRange backing_offset bytes s then (s, False)
      else (s\<lparr>bk_bytes := (\<lambda>x. if backing_offset \<le> x \<and> x < backing_offset + bytes then 0 else bk_bytes s x)\<rparr>, True))"

definition FindContainingUnlocked :: "nat \<Rightarrow> nat \<Rightarrow> space \<Rightarrow> map_entry option" where
  "FindContainingUnlocked vaddr bytes s =
     (if bytes = 0 \<or> UINT64_MAX - vaddr < bytes then None
      else case last_at me_vaddr vaddr (bk_maps s) of
             None \<Rightarrow> None
           | Some e \<Rightarrow> if vaddr + bytes \<le> me_vaddr e + me_size e then Some e else None)"

text \<open>
  The entries that cover \<open>current\<close> to \<open>end\<close>, cut to it. The loops of \<open>Unmap\<close>, \<open>Contains\<close> and \<open>TryTransferBacking\<close>
  walk them one by one.
\<close>

function backing_parts :: "nat \<Rightarrow> nat \<Rightarrow> space \<Rightarrow> map_entry list option" where
  "backing_parts current end1 s =
     (if current < end1
      then case FindContainingUnlocked current 1 s of
             None \<Rightarrow> None
           | Some e \<Rightarrow>
               let part_size = min end1 (me_vaddr e + me_size e) - current
               in map_option (\<lambda>parts. \<lparr>me_vaddr = current, me_size = part_size,
                      me_backing_offset = me_backing_offset e + current - me_vaddr e, me_mode = me_mode e\<rparr> # parts)
                    (backing_parts (current + part_size) end1 s)
      else Some [])"
  by pat_completeness auto

termination
proof (relation "measure (\<lambda>(current, end1, s). end1 - current)")
  fix current end1 :: nat and s e part_size
  assume "current < end1" "FindContainingUnlocked current 1 s = Some e" "part_size = min end1 (me_vaddr e + me_size e) - current"
  then show "((current + part_size, end1, s), (current, end1, s)) \<in> measure (\<lambda>(current, end1, s). end1 - current)"
    by (auto simp: FindContainingUnlocked_def split: if_splits option.splits)
qed simp

declare backing_parts.simps [simp del]

definition BackingContains :: "nat \<Rightarrow> nat \<Rightarrow> space \<Rightarrow> bool" where
  "BackingContains vaddr bytes s \<longleftrightarrow>
     (if bytes = 0 \<or> UINT64_MAX - vaddr < bytes then False else backing_parts vaddr (vaddr + bytes) s \<noteq> None)"

text \<open>\<open>TryTransferBacking\<close>: the calls of \<open>transfer\<close> as offset in the object, offset in the data, and size.\<close>

definition TryTransferBacking :: "nat \<Rightarrow> nat \<Rightarrow> space \<Rightarrow> (nat \<times> nat \<times> nat) list option" where
  "TryTransferBacking vaddr bytes s =
     (if \<not> bk_available s \<or> bytes = 0 \<or> UINT64_MAX - vaddr < bytes then None
      else case backing_parts vaddr (vaddr + bytes) s of
             None \<Rightarrow> None
           | Some parts \<Rightarrow>
               if \<exists>p\<in>set parts. \<not> RangeOk (me_backing_offset p) (me_size p) s then None
               else Some (map (\<lambda>p. (me_backing_offset p, me_vaddr p - vaddr, me_size p)) parts))"

definition copy_in :: "u8 list \<Rightarrow> nat \<times> nat \<times> nat \<Rightarrow> (nat \<Rightarrow> u8) \<Rightarrow> nat \<Rightarrow> u8" where
  "copy_in data t mem = (case t of (offset, data_offset, n) \<Rightarrow>
     (\<lambda>x. if offset \<le> x \<and> x < offset + n then data ! (data_offset + (x - offset)) else mem x))"

definition TryWriteBacking :: "nat \<Rightarrow> u8 list option \<Rightarrow> nat \<Rightarrow> space \<Rightarrow> space \<times> bool" where
  "TryWriteBacking vaddr data bytes s =
     (case data of
        None \<Rightarrow> (s, False)
      | Some data \<Rightarrow>
          (case TryTransferBacking vaddr bytes s of
             None \<Rightarrow> (s, False)
           | Some ts \<Rightarrow> (s\<lparr>bk_bytes := fold (copy_in data) ts (bk_bytes s)\<rparr>, True)))"

definition copy_out :: "(nat \<Rightarrow> u8) \<Rightarrow> nat \<times> nat \<times> nat \<Rightarrow> u8 list \<Rightarrow> u8 list" where
  "copy_out mem t data = (case t of (offset, data_offset, n) \<Rightarrow>
     take data_offset data @ map mem [offset..<offset + n] @ drop (data_offset + n) data)"

text \<open>The buffer as the call leaves it; \<open>None\<close> where the call fails and leaves it alone.\<close>

definition TryReadBacking :: "nat \<Rightarrow> u8 list option \<Rightarrow> nat \<Rightarrow> space \<Rightarrow> u8 list option" where
  "TryReadBacking vaddr data bytes s =
     (case data of
        None \<Rightarrow> None
      | Some data \<Rightarrow> map_option (\<lambda>ts. fold (copy_out (bk_bytes s)) ts data) (TryTransferBacking vaddr bytes s))"

definition sparse_parts :: "nat \<Rightarrow> nat \<Rightarrow> space \<Rightarrow> (nat \<times> nat \<times> nat) list" where
  "sparse_parts vaddr end1 s =
     (let before = takeWhile (\<lambda>e. me_vaddr e < vaddr) (bk_maps s); first = dropWhile (\<lambda>e. me_vaddr e < vaddr) (bk_maps s);
          first = (if before \<noteq> [] \<and> me_vaddr (last before) + me_size (last before) > vaddr then last before # first else first)
      in map (\<lambda>e. let start = max vaddr (me_vaddr e); n = min end1 (me_vaddr e + me_size e) - start
                  in (me_backing_offset e + start - me_vaddr e, start - vaddr, n))
           (takeWhile (\<lambda>e. me_vaddr e < end1) first))"

definition TryReadSparseBacking :: "nat \<Rightarrow> u8 list option \<Rightarrow> nat \<Rightarrow> space \<Rightarrow> u8 list option" where
  "TryReadSparseBacking vaddr data bytes s =
     (if \<not> bk_available s \<or> data = None \<or> bytes = 0 \<or> UINT64_MAX - vaddr < bytes then None
      else let ts = sparse_parts vaddr (vaddr + bytes) s
           in if \<exists>(offset, data_offset, n)\<in>set ts. \<not> RangeOk offset n s then None
              else Some (fold (copy_out (bk_bytes s)) ts (replicate bytes 0 @ drop bytes (the data))))"

section \<open>Views of the backing object\<close>

definition MapExistingPlaceholderFixed :: "nat \<Rightarrow> nat \<Rightarrow> nat \<Rightarrow> vm_mode \<Rightarrow> space \<Rightarrow> (space \<times> bool) outcome" where
  "MapExistingPlaceholderFixed vaddr bytes backing_offset mode s =
     (if \<not> bk_available s \<or> \<not> RangeOk backing_offset bytes s then Inr (s, False)
      else case host_do (Map_View vaddr bytes backing_offset mode) s of
             (s, mapped) \<Rightarrow>
               if \<not> mapped then Inr (s, False)
               else case emplace_by me_vaddr
                           \<lparr>me_vaddr = vaddr, me_size = bytes, me_backing_offset = backing_offset, me_mode = mode\<rparr> (bk_maps s) of
                      None \<Rightarrow> Inl EXIT
                    | Some maps \<Rightarrow> Inr (s\<lparr>bk_maps := maps\<rparr>, True))"

text \<open>
  \<open>emplace\<close> without a look at its result, as where an entry is put back.
\<close>

definition put_back :: "map_entry \<Rightarrow> space \<Rightarrow> space" where
  "put_back e s = (case emplace_by me_vaddr e (bk_maps s) of None \<Rightarrow> s | Some maps \<Rightarrow> s\<lparr>bk_maps := maps\<rparr>)"

text \<open>
  \<open>UnmapOne\<close>; the calls it makes of itself are for entries that are mapped as a whole, so they make no further ones and
  a depth of two is enough. The depth stands for the recursion: nothing else uses the value at zero.
\<close>

fun UnmapOne :: "nat \<Rightarrow> nat \<Rightarrow> nat \<Rightarrow> space \<Rightarrow> (space \<times> bool) outcome" where
  "UnmapOne 0 vaddr bytes s = Inl EXIT"
| "UnmapOne (Suc depth) vaddr bytes s =
     (case last_at me_vaddr vaddr (bk_maps s) of
        None \<Rightarrow> Inr (s, False)
      | Some old \<Rightarrow>
          if \<not> vaddr + bytes \<le> me_vaddr old + me_size old \<or> me_size old = 0
          then Inr (if vaddr + bytes \<le> me_vaddr old + me_size old then s\<lparr>bk_maps := remove1 old (bk_maps s)\<rparr> else s, False)
          else
            case host_do (Map_None (me_vaddr old) (me_size old)) (s\<lparr>bk_maps := remove1 old (bk_maps s)\<rparr>) of
              (s, unmapped) \<Rightarrow>
                if \<not> unmapped then Inr (put_back old s, False)
                else if vaddr = me_vaddr old \<and> bytes = me_size old then Inr (s, True)
                else
                  let left_size = vaddr - me_vaddr old; right_addr = vaddr + bytes;
                      right_size = me_vaddr old + me_size old - right_addr
                  in bind_outcome
                       (if left_size \<noteq> 0
                        then MapExistingPlaceholderFixed (me_vaddr old) left_size (me_backing_offset old) (me_mode old) s
                        else Inr (s, True))
                     (\<lambda>(s, ok). bind_outcome
                       (if right_size \<noteq> 0
                        then bind_outcome (MapExistingPlaceholderFixed right_addr right_size
                               (me_backing_offset old + (right_addr - me_vaddr old)) (me_mode old) s) (\<lambda>(s, r). Inr (s, r \<and> ok))
                        else Inr (s, ok))
                     (\<lambda>(s, ok).
                       if ok then Inr (s, True)
                       else bind_outcome
                         (if left_size \<noteq> 0 \<and> BackingContains (me_vaddr old) left_size s
                          then bind_outcome (UnmapOne depth (me_vaddr old) left_size s) (\<lambda>(s, r). exit_if (\<not> r) (Inr s))
                          else Inr s)
                       (\<lambda>s. bind_outcome
                         (if right_size \<noteq> 0 \<and> BackingContains right_addr right_size s
                          then bind_outcome (UnmapOne depth right_addr right_size s) (\<lambda>(s, r). exit_if (\<not> r) (Inr s))
                          else Inr s)
                       (\<lambda>s. bind_outcome
                         (MapExistingPlaceholderFixed (me_vaddr old) (me_size old) (me_backing_offset old) (me_mode old) s)
                         (\<lambda>(s, r). exit_if (\<not> r) (Inr (s, False))))))))"

fun remap_all :: "map_entry list \<Rightarrow> space \<Rightarrow> space outcome" where
  "remap_all [] s = Inr s"
| "remap_all (e # es) s =
     bind_outcome (MapExistingPlaceholderFixed (me_vaddr e) (me_size e) (me_backing_offset e) (me_mode e) s)
       (\<lambda>(s, ok). exit_if (\<not> ok) (remap_all es s))"

text \<open>\<open>removed\<close> holds the parts already unmapped, the last one first, as the way back takes them.\<close>

fun unmap_all :: "map_entry list \<Rightarrow> map_entry list \<Rightarrow> space \<Rightarrow> (space \<times> bool) outcome" where
  "unmap_all removed [] s = Inr (s, True)"
| "unmap_all removed (e # es) s =
     bind_outcome (UnmapOne 2 (me_vaddr e) (me_size e) s)
       (\<lambda>(s, ok). if ok then unmap_all (e # removed) es s
                  else bind_outcome (remap_all removed s) (\<lambda>s. Inr (s, False)))"

definition Unmap :: "nat \<Rightarrow> nat \<Rightarrow> space \<Rightarrow> (space \<times> bool) outcome" where
  "Unmap vaddr bytes s =
     (if bytes = 0 \<or> UINT64_MAX - vaddr < bytes then Inr (s, False)
      else case backing_parts vaddr (vaddr + bytes) s of
             None \<Rightarrow> Inr (s, False)
           | Some targets \<Rightarrow> unmap_all [] targets s)"

section \<open>Free addresses\<close>

definition GUEST_PAGE_SIZE :: nat where "GUEST_PAGE_SIZE = 0x4000"

definition AlignUp :: "nat \<Rightarrow> nat \<Rightarrow> nat" where
  "AlignUp x alignment =
     (if alignment = 0 then 0
      else let remainder = x mod alignment; increment = (if remainder \<noteq> 0 then alignment - remainder else 0)
           in if increment \<le> UINT64_MAX - x then x + increment else 0)"

definition AlignDown :: "nat \<Rightarrow> nat \<Rightarrow> nat" where
  "AlignDown x alignment = unat ((of_nat x :: u64) AND NOT (of_nat alignment - 1))"

definition IsPageAligned :: "nat \<Rightarrow> bool" where
  "IsPageAligned x \<longleftrightarrow> x AND (GUEST_PAGE_SIZE - 1) = 0"

definition GuestFreeRangeContains :: "nat \<Rightarrow> nat \<Rightarrow> nat \<Rightarrow> nat \<Rightarrow> bool" where
  "GuestFreeRangeContains base range_size pos bytes =
     (if UINT64_MAX - base < range_size \<or> pos < base then False
      else let range_end = base + range_size in pos \<le> range_end \<and> bytes \<le> range_end - pos)"

fun free_candidate :: "nat \<Rightarrow> nat \<Rightarrow> nat \<Rightarrow> nat \<Rightarrow> free_map \<Rightarrow> nat" where
  "free_candidate search_start search_end bytes alignment [] = 0"
| "free_candidate search_start search_end bytes alignment ((base, range_size) # m) =
     (let pos = AlignUp (max base search_start) alignment
      in if pos < search_end \<and> bytes \<le> search_end - pos \<and> GuestFreeRangeContains base range_size pos bytes
         then pos else free_candidate search_start search_end bytes alignment m)"

definition FindFreeAlignedUnlocked :: "nat \<Rightarrow> nat \<Rightarrow> nat \<Rightarrow> nat \<Rightarrow> space \<Rightarrow> nat" where
  "FindFreeAlignedUnlocked search_start search_end bytes alignment s =
     (if search_start \<ge> search_end \<or> bytes > search_end - search_start then 0
      else free_candidate search_start search_end bytes alignment (sp_free s))"

definition FindFreeAligned :: "nat \<Rightarrow> nat \<Rightarrow> nat \<Rightarrow> nat \<Rightarrow> space \<Rightarrow> nat" where
  "FindFreeAligned search_start search_end bytes alignment s =
     (if bytes = 0 \<or> alignment = 0 then 0
      else FindFreeAlignedUnlocked search_start search_end bytes (max alignment GUEST_PAGE_SIZE) s)"

definition ReserveAligned :: "nat \<Rightarrow> nat \<Rightarrow> nat \<Rightarrow> space \<Rightarrow> nat" where
  "ReserveAligned search_addr bytes alignment s =
     (if bytes = 0 then 0
      else let alignment = max (if alignment \<noteq> 0 then alignment else GUEST_PAGE_SIZE) GUEST_PAGE_SIZE
           in if search_addr = 0
              then let addr = FindFreeAlignedUnlocked HOST_SYSTEM_MANAGED_MIN (HOST_SYSTEM_MANAGED_MAX + 1) bytes alignment s
                   in if addr \<noteq> 0 then addr else FindFreeAlignedUnlocked HOST_USER_MIN (HOST_USER_MAX + 1) bytes alignment s
              else FindFreeAlignedUnlocked search_addr (HOST_USER_MAX + 1) bytes alignment s)"

text \<open>
  The free range that holds a range: the entries before it, itself, and those after it. Neither this nor the
  functions below test that the end of a range fits in 64 bits: their sums and differences wrap.
\<close>

definition FindContaining :: "nat \<Rightarrow> nat \<Rightarrow> free_map \<Rightarrow> (free_map \<times> (nat \<times> nat) \<times> free_map) option" where
  "FindContaining vaddr bytes m =
     (case upper_bound vaddr m of
        (before, rest) \<Rightarrow>
          if before = [] then None
          else let r = last before
               in if vaddr \<ge> fst r \<and> add64 vaddr bytes \<le> add64 (fst r) (snd r) then Some (butlast before, r, rest) else None)"

definition ReserveFixed :: "nat \<Rightarrow> nat \<Rightarrow> space \<Rightarrow> bool" where
  "ReserveFixed vaddr bytes s =
     (if vaddr = 0 \<or> bytes = 0 \<or> \<not> IsPageAligned vaddr \<or> \<not> IsPageAligned bytes then False
      else FindContaining vaddr bytes (sp_free s) \<noteq> None)"

definition ReleaseFree :: "nat \<Rightarrow> nat \<Rightarrow> space \<Rightarrow> bool" where
  "ReleaseFree vaddr bytes s \<longleftrightarrow> FindContaining vaddr bytes (sp_free s) \<noteq> None"

text \<open>\<open>SplitUnlocked\<close> always succeeds on Linux; each \<open>emplace\<close> keeps an entry that has the key.\<close>

definition SplitUnlocked :: "free_map \<times> (nat \<times> nat) \<times> free_map \<Rightarrow> nat \<Rightarrow> nat \<Rightarrow> free_map" where
  "SplitUnlocked it vaddr bytes =
     (case it of (before, (base, n), rest) \<Rightarrow>
        if base = vaddr \<and> add64 base n = add64 vaddr bytes then before @ (base, n) # rest
        else let end1 = add64 base n;
                 (before, k, n) =
                   (if base \<noteq> vaddr then (before @ [(base, sub64 vaddr base)], vaddr, sub64 end1 vaddr) else (before, base, n))
             in if n \<noteq> bytes then emplace (add64 k bytes) (sub64 n bytes) (before @ (k, bytes) # rest)
                else before @ (k, n) # rest)"

definition ConsumeUnlocked :: "nat \<Rightarrow> nat \<Rightarrow> space \<Rightarrow> space \<times> bool" where
  "ConsumeUnlocked vaddr bytes s =
     (case FindContaining vaddr bytes (sp_free s) of
        None \<Rightarrow> (s, False)
      | Some it \<Rightarrow>
          let m = SplitUnlocked it vaddr bytes
          in if (vaddr, bytes) \<notin> set m then (s\<lparr>sp_free := m\<rparr>, False)
             else (s\<lparr>sp_free := remove1 (vaddr, bytes) m\<rparr>, True))"

fun absorb_back :: "nat \<Rightarrow> free_map \<Rightarrow> nat \<times> free_map" where
  "absorb_back base [] = (base, [])"
| "absorb_back base ((a, n) # m) = (if add64 a n \<noteq> base then (base, (a, n) # m) else absorb_back a m)"

fun absorb_next :: "nat \<Rightarrow> free_map \<Rightarrow> nat \<times> free_map" where
  "absorb_next end1 [] = (end1, [])"
| "absorb_next end1 ((a, n) # m) = (if end1 = a then absorb_next (add64 a n) m else (end1, (a, n) # m))"

text \<open>The entries before go backwards from the one next to the new one.\<close>

definition AddFreeUnlocked :: "nat \<Rightarrow> nat \<Rightarrow> space \<Rightarrow> space" where
  "AddFreeUnlocked vaddr bytes s =
     (if vaddr = 0 \<or> bytes = 0 then s
      else let before = takeWhile (\<lambda>r. fst r < vaddr) (sp_free s);
               rest = dropWhile (\<lambda>r. fst r \<le> vaddr) (sp_free s);
               (base, back) = absorb_back vaddr (rev before);
               (end1, rest) = absorb_next (add64 vaddr bytes) rest
           in s\<lparr>sp_free := rev back @ (base, sub64 end1 base) # rest\<rparr>)"

section \<open>Mapped regions\<close>

definition FindMappedContainingUnlocked :: "nat \<Rightarrow> space \<Rightarrow> region option" where
  "FindMappedContainingUnlocked vaddr s =
     (case last_at mr_vaddr vaddr (sp_mapped s) of
        None \<Rightarrow> None
      | Some r \<Rightarrow> if vaddr < mr_vaddr r + mr_size r then Some r else None)"

lemma FindMapped_after: "FindMappedContainingUnlocked vaddr s = Some r \<Longrightarrow> vaddr < mr_vaddr r + mr_size r"
  by (auto simp: FindMappedContainingUnlocked_def split: option.splits if_splits)

function mapped_span :: "nat \<Rightarrow> nat \<Rightarrow> mapping_type \<Rightarrow> space \<Rightarrow> bool" where
  "mapped_span current end1 type s =
     (if current < end1
      then case FindMappedContainingUnlocked current s of
             None \<Rightarrow> False
           | Some r \<Rightarrow> if mr_type r \<noteq> type then False else mapped_span (min end1 (mr_vaddr r + mr_size r)) end1 type s
      else True)"
  by pat_completeness auto

termination
  by (relation "measure (\<lambda>(current, end1, type, s). end1 - current)") (auto dest: FindMapped_after)

declare mapped_span.simps [simp del]

definition ContainsMappedUnlocked :: "nat \<Rightarrow> nat \<Rightarrow> mapping_type \<Rightarrow> space \<Rightarrow> bool" where
  "ContainsMappedUnlocked vaddr bytes type s =
     (if bytes = 0 \<or> UINT64_MAX - vaddr < bytes then False else mapped_span vaddr (vaddr + bytes) type s)"

definition AddMappedUnlocked :: "nat \<Rightarrow> nat \<Rightarrow> mapping_type \<Rightarrow> space \<Rightarrow> space \<times> bool" where
  "AddMappedUnlocked vaddr bytes type s =
     (if bytes = 0 \<or> UINT64_MAX - vaddr < bytes then (s, False)
      else let before = takeWhile (\<lambda>r. mr_vaddr r < vaddr) (sp_mapped s); next1 = dropWhile (\<lambda>r. mr_vaddr r < vaddr) (sp_mapped s)
           in if next1 \<noteq> [] \<and> mr_vaddr (hd next1) < vaddr + bytes then (s, False)
              else if before \<noteq> [] \<and> mr_vaddr (last before) + mr_size (last before) > vaddr then (s, False)
              else case emplace_by mr_vaddr \<lparr>mr_vaddr = vaddr, mr_size = bytes, mr_type = type\<rparr> (sp_mapped s) of
                     None \<Rightarrow> (s, False)
                   | Some mapped \<Rightarrow> (s\<lparr>sp_mapped := mapped\<rparr>, True))"

text \<open>The loop of \<open>RemoveMappedUnlocked\<close>: the original region goes, what it had on either side comes back.\<close>

function remove_mapped :: "nat \<Rightarrow> nat \<Rightarrow> space \<Rightarrow> space outcome" where
  "remove_mapped current end1 s =
     (if current < end1
      then case FindMappedContainingUnlocked current s of
             None \<Rightarrow> Inl EXIT
           | Some original \<Rightarrow>
               let part_end = min end1 (mr_vaddr original + mr_size original);
                   s1 = s\<lparr>sp_mapped := remove1 original (sp_mapped s)\<rparr>
               in case (if mr_vaddr original < current
                        then AddMappedUnlocked (mr_vaddr original) (current - mr_vaddr original) (mr_type original) s1
                        else (s1, True)) of
                    (s2, ok) \<Rightarrow>
                      if \<not> ok then Inl EXIT
                      else case (if part_end < mr_vaddr original + mr_size original
                                 then AddMappedUnlocked part_end (mr_vaddr original + mr_size original - part_end) (mr_type original) s2
                                 else (s2, True)) of
                             (s3, ok) \<Rightarrow> if \<not> ok then Inl EXIT else remove_mapped part_end end1 s3
      else Inr s)"
  by pat_completeness auto

termination
  by (relation "measure (\<lambda>(current, end1, s). end1 - current)") (auto dest: FindMapped_after)

declare remove_mapped.simps [simp del]

definition RemoveMappedUnlocked :: "nat \<Rightarrow> nat \<Rightarrow> mapping_type \<Rightarrow> space \<Rightarrow> (space \<times> bool) outcome" where
  "RemoveMappedUnlocked vaddr bytes type s =
     (if \<not> ContainsMappedUnlocked vaddr bytes type s then Inr (s, False)
      else bind_outcome (remove_mapped vaddr (vaddr + bytes) s) (\<lambda>s. Inr (s, True)))"

section \<open>Operations of the address space\<close>

definition IsExecute :: "vm_mode \<Rightarrow> bool" where
  "IsExecute mode \<longleftrightarrow> mode = Mode_Execute \<or> mode = Mode_ExecuteRead \<or> mode = Mode_ExecuteWrite \<or> mode = Mode_ExecuteReadWrite"

definition host_mode :: "vm_mode \<Rightarrow> vm_mode" where
  "host_mode mode = (if IsExecute mode then Mode_ExecuteReadWrite else Mode_ReadWrite)"

definition Owns :: "nat \<Rightarrow> nat \<Rightarrow> space \<Rightarrow> bool" where
  "Owns vaddr bytes s =
     (if bytes = 0 \<or> UINT64_MAX - vaddr < bytes then False
      else \<exists>r\<in>set (sp_owned s). vaddr \<ge> fst r \<and> vaddr + bytes \<le> fst r + snd r)"

definition OverlapsOwned :: "nat \<Rightarrow> nat \<Rightarrow> space \<Rightarrow> bool" where
  "OverlapsOwned vaddr bytes s =
     (if bytes = 0 \<or> UINT64_MAX - vaddr < bytes then False
      else \<exists>r\<in>set (sp_owned s). VirtualRangesOverlap vaddr bytes (fst r) (snd r))"

fun protect_loop :: "nat \<Rightarrow> nat \<Rightarrow> vm_mode \<Rightarrow> region list \<Rightarrow> space \<Rightarrow> space \<times> bool" where
  "protect_loop vaddr end1 mode [] s = (s, True)"
| "protect_loop vaddr end1 mode (r # rs) s =
     (if \<not> mr_vaddr r < end1 then (s, True)
      else let range_start = max vaddr (mr_vaddr r); range_end = min end1 (mr_vaddr r + mr_size r)
           in if range_start < range_end
              then case host_do (Host_Protect range_start (range_end - range_start) mode) s of
                     (s, ok) \<Rightarrow> if \<not> ok then (s, False) else protect_loop vaddr end1 mode rs s
              else protect_loop vaddr end1 mode rs s)"

definition ProtectMappedUnlocked :: "nat \<Rightarrow> nat \<Rightarrow> vm_mode \<Rightarrow> space \<Rightarrow> space \<times> bool" where
  "ProtectMappedUnlocked vaddr bytes mode s =
     (let before = takeWhile (\<lambda>r. mr_vaddr r \<le> vaddr) (sp_mapped s); rest = dropWhile (\<lambda>r. mr_vaddr r \<le> vaddr) (sp_mapped s)
      in protect_loop vaddr (vaddr + bytes) mode ((if before \<noteq> [] then [last before] else []) @ rest) s)"

definition sp_Protect :: "nat \<Rightarrow> nat \<Rightarrow> vm_mode \<Rightarrow> space \<Rightarrow> space \<times> bool" where
  "sp_Protect vaddr bytes mode s =
     (if bytes = 0 \<or> UINT64_MAX - vaddr < bytes then (s, False) else ProtectMappedUnlocked vaddr bytes mode s)"

definition MapBacking :: "nat \<Rightarrow> nat \<Rightarrow> nat \<Rightarrow> vm_mode \<Rightarrow> space \<Rightarrow> (space \<times> bool) outcome" where
  "MapBacking vaddr bytes backing_offset mode s =
     (case ConsumeUnlocked vaddr bytes s of
        (s, consumed) \<Rightarrow>
          if \<not> consumed then Inr (s, False)
          else bind_outcome (MapExistingPlaceholderFixed vaddr bytes backing_offset (host_mode mode) s)
            (\<lambda>(s, mapped).
              if mapped then case AddMappedUnlocked vaddr bytes Mapped_Backing s of (s, added) \<Rightarrow> exit_if (\<not> added) (Inr (s, True))
              else Inr (AddFreeUnlocked vaddr bytes s, False)))"

definition UnmapBacking :: "nat \<Rightarrow> nat \<Rightarrow> space \<Rightarrow> (space \<times> bool) outcome" where
  "UnmapBacking vaddr bytes s =
     (if \<not> ContainsMappedUnlocked vaddr bytes Mapped_Backing s then Inr (s, False)
      else bind_outcome (Unmap vaddr bytes s)
        (\<lambda>(s, unmapped).
          if \<not> unmapped then Inr (s, False)
          else bind_outcome (RemoveMappedUnlocked vaddr bytes Mapped_Backing s)
            (\<lambda>(s, removed). exit_if (\<not> removed) (Inr (AddFreeUnlocked vaddr bytes s, True)))))"

definition sp_Commit :: "nat \<Rightarrow> nat \<Rightarrow> vm_mode \<Rightarrow> space \<Rightarrow> (space \<times> bool) outcome" where
  "sp_Commit vaddr bytes mode s =
     (case ConsumeUnlocked vaddr bytes s of
        (s, consumed) \<Rightarrow>
          if \<not> consumed then Inr (s, False)
          else case host_do (Host_Protect vaddr bytes (host_mode mode)) s of
                 (s, ok) \<Rightarrow>
                   if ok then case AddMappedUnlocked vaddr bytes Mapped_Private s of (s, added) \<Rightarrow> exit_if (\<not> added) (Inr (s, True))
                   else Inr (AddFreeUnlocked vaddr bytes s, False))"

text \<open>The loop of \<open>ReleaseCommitted\<close> that collects the regions, and \<open>RestorePlaceholder\<close> on each.\<close>

function committed_regions :: "nat \<Rightarrow> nat \<Rightarrow> space \<Rightarrow> (nat \<times> nat) list" where
  "committed_regions current end1 s =
     (if current < end1
      then case FindMappedContainingUnlocked current s of
             None \<Rightarrow> []
           | Some r \<Rightarrow> let part_end = min end1 (mr_vaddr r + mr_size r)
                       in (current, part_end - current) # committed_regions part_end end1 s
      else [])"
  by pat_completeness auto

termination
  by (relation "measure (\<lambda>(current, end1, s). end1 - current)") (auto dest: FindMapped_after)

declare committed_regions.simps [simp del]

fun restore_all :: "(nat \<times> nat) list \<Rightarrow> space \<Rightarrow> space outcome" where
  "restore_all [] s = Inr s"
| "restore_all ((vaddr, bytes) # rs) s =
     (case host_do (Map_None vaddr bytes) s of (s, ok) \<Rightarrow> exit_if (\<not> ok) (restore_all rs s))"

definition ReleaseCommitted :: "nat \<Rightarrow> nat \<Rightarrow> space \<Rightarrow> (space \<times> bool) outcome" where
  "ReleaseCommitted vaddr bytes s =
     (if vaddr = 0 \<or> bytes = 0 \<or> \<not> IsPageAligned vaddr \<or> \<not> IsPageAligned bytes then Inr (s, False)
      else if \<not> ContainsMappedUnlocked vaddr bytes Mapped_Private s then Inr (s, False)
      else bind_outcome (restore_all (committed_regions vaddr (vaddr + bytes) s) s)
        (\<lambda>s. bind_outcome (RemoveMappedUnlocked vaddr bytes Mapped_Private s)
        (\<lambda>(s, removed). exit_if (\<not> removed) (Inr (AddFreeUnlocked vaddr bytes s, True)))))"

section \<open>Construction\<close>

text \<open>The lambda \<open>reserve_range\<close>; \<open>mmap\<close> of a range with no address of its own in use is one more numbered call.\<close>

definition reserve_range :: "nat \<Rightarrow> nat \<Rightarrow> space \<Rightarrow> space" where
  "reserve_range start end1 s =
     (let start = AlignUp start GUEST_PAGE_SIZE; end1 = AlignDown end1 GUEST_PAGE_SIZE
      in if start = 0 \<or> end1 \<le> start then s
         else case host_do (Map_None start (end1 - start)) s of
                (s, ok) \<Rightarrow>
                  if \<not> ok then s
                  else (AddFreeUnlocked start (end1 - start) s)\<lparr>sp_owned := sp_owned s @ [(start, end1 - start)]\<rparr>)"

fun reserve_gaps :: "nat \<Rightarrow> nat \<Rightarrow> (nat \<times> nat) list \<Rightarrow> space \<Rightarrow> nat \<times> space" where
  "reserve_gaps current region_end [] s = (current, s)"
| "reserve_gaps current region_end ((mapping_start, mapping_end) # occupied) s =
     (if mapping_end \<le> current then reserve_gaps current region_end occupied s
      else if mapping_start \<ge> region_end then (current, s)
      else let s = (if mapping_start > current then reserve_range current (min mapping_start region_end) s else s);
               current = max current mapping_end
           in if current \<ge> region_end then (current, s) else reserve_gaps current region_end occupied s)"

definition reserve_region :: "(nat \<times> nat) list \<Rightarrow> nat \<times> nat \<Rightarrow> space \<Rightarrow> space" where
  "reserve_region occupied r s =
     (case reserve_gaps (fst r) (snd r) occupied s of
        (current, s) \<Rightarrow> if current < snd r then reserve_range current (snd r) s else s)"

text \<open>\<open>occupied\<close> is what /proc/self/maps lists.\<close>

definition ReserveGuestRegions :: "(nat \<times> nat) list \<Rightarrow> space \<Rightarrow> space" where
  "ReserveGuestRegions occupied s =
     fold (reserve_region occupied)
       [(HOST_SYSTEM_MANAGED_MIN, HOST_SYSTEM_MANAGED_MAX + 1), (HOST_SYSTEM_RESERVED_MIN, HOST_SYSTEM_RESERVED_MAX + 1),
        (HOST_USER_MIN, HOST_USER_MAX + 1)] s"

definition new_space :: "(nat \<Rightarrow> bool) \<Rightarrow> (nat \<times> nat) list \<Rightarrow> bool \<Rightarrow> nat \<Rightarrow> space outcome" where
  "new_space answers occupied available backing_size =
     exit_if (\<not> available)
       (Inr (ReserveGuestRegions occupied
         \<lparr>sp_answers = answers, sp_log = [], bk_available = available, bk_size = backing_size, bk_bytes = (\<lambda>_. 0), bk_maps = [],
          sp_free = [], sp_mapped = [], sp_owned = []\<rparr>))"

section \<open>Maps from addresses to regions\<close>

definition ordered :: "('b \<Rightarrow> nat) \<Rightarrow> ('b \<Rightarrow> nat) \<Rightarrow> 'b list \<Rightarrow> bool" where
  "ordered key bytes bs \<longleftrightarrow>
     (\<forall>b\<in>set bs. 0 < bytes b \<and> key b + bytes b \<le> UINT64_MAX) \<and> sorted_wrt (\<lambda>b c. key b + bytes b \<le> key c) bs"

lemma ordered_Nil [simp]: "ordered key bytes []"
  by (simp add: ordered_def)

lemma ordered_Cons:
  "ordered key bytes (b # bs) \<longleftrightarrow>
     0 < bytes b \<and> key b + bytes b \<le> UINT64_MAX \<and> (\<forall>c\<in>set bs. key b + bytes b \<le> key c) \<and> ordered key bytes bs"
  by (auto simp: ordered_def)

lemma ordered_append:
  "ordered key bytes (xs @ ys) \<longleftrightarrow>
     ordered key bytes xs \<and> ordered key bytes ys \<and> (\<forall>x\<in>set xs. \<forall>y\<in>set ys. key x + bytes x \<le> key y)"
  by (induction xs) (auto simp: ordered_Cons)

lemma ordered_maps_ok: "ordered key bytes bs \<Longrightarrow> maps_ok key bytes bs"
  unfolding ordered_def maps_ok_def by (auto simp: apart_def intro: sorted_wrt_mono_rel [rotated])

lemma ordered_mem: "ordered key bytes bs \<Longrightarrow> b \<in> set bs \<Longrightarrow> 0 < bytes b \<and> key b + bytes b \<le> UINT64_MAX"
  by (simp add: ordered_def)

text \<open>The entry before \<open>upper_bound\<close> is the one that covers the address, if any does.\<close>

lemma last_at_covers:
  assumes "ordered key bytes bs"
  shows "last_at key a bs = Some b \<and> a < key b + bytes b \<longleftrightarrow> b \<in> set bs \<and> covers key bytes b a"
proof -
  let ?before = "takeWhile (\<lambda>b. key b \<le> a) bs" and ?rest = "dropWhile (\<lambda>b. key b \<le> a) bs"
  have bs: "bs = ?before @ ?rest" by simp
  have rest: "\<forall>c\<in>set ?rest. a < key c"
    using assms
  proof (induction bs)
    case (Cons c bs)
    show ?case
    proof (cases "key c \<le> a")
      case False
      then have "a < key d" if "d \<in> set bs" for d using Cons.prems that by (fastforce simp: ordered_Cons)
      then show ?thesis using False by auto
    qed (use Cons in \<open>simp add: ordered_Cons\<close>)
  qed simp
  have before: "\<forall>c\<in>set ?before. key c \<le> a" using set_takeWhileD by fastforce
  show ?thesis
  proof
    assume l: "last_at key a bs = Some b \<and> a < key b + bytes b"
    then have "?before \<noteq> []" "b = last ?before" by (auto simp: last_at_def Let_def split: if_splits)
    then have "b \<in> set ?before" by simp
    then show "b \<in> set bs \<and> covers key bytes b a" using before l bs by (auto simp: covers_def dest: set_takeWhileD)
  next
    assume b: "b \<in> set bs \<and> covers key bytes b a"
    then have "b \<in> set ?before" using rest bs by (metis (no_types, lifting) Un_iff covers_def not_less set_append)
    then obtain xs ys where x: "?before = xs @ b # ys" by (auto simp: in_set_conv_decomp)
    have "ys = []"
    proof (rule ccontr)
      assume "ys \<noteq> []"
      then obtain c where c: "c \<in> set ys" by (cases ys) auto
      have "ordered key bytes ((xs @ b # ys) @ ?rest)" using assms x bs by metis
      then have "key b + bytes b \<le> key c" using c by (auto simp: ordered_append ordered_Cons)
      moreover have "key c \<le> a" using before x c by auto
      ultimately show False using b by (simp add: covers_def)
    qed
    then show "last_at key a bs = Some b \<and> a < key b + bytes b" using x b by (simp add: last_at_def Let_def covers_def)
  qed
qed

lemma last_at_None:
  assumes "ordered key bytes bs" "\<And>b. last_at key a bs = Some b \<Longrightarrow> \<not> a < key b + bytes b"
  shows "seen_at key bytes view bs a = None"
  using last_at_covers [OF assms(1), of a] assms(2) by (auto simp: seen_at_None)

lemma emplace_by_ok:
  assumes "ordered key bytes bs" "0 < bytes b" "key b + bytes b \<le> UINT64_MAX" "\<forall>c\<in>set bs. apart key bytes b c"
  shows "\<exists>bs'. emplace_by key b bs = Some bs' \<and> ordered key bytes bs' \<and> set bs' = insert b (set bs)"
  using assms
proof (induction bs)
  case (Cons c bs)
  have c: "0 < bytes c" "\<forall>d\<in>set bs. key c + bytes c \<le> key d" "ordered key bytes bs" "apart key bytes b c"
    using Cons.prems by (simp_all add: ordered_Cons)
  show ?case
  proof (cases "key b < key c")
    case True
    then have "key b + bytes b \<le> key c" using c(1,4) by (auto simp: apart_def)
    then have "\<forall>d\<in>set (c # bs). key b + bytes b \<le> key d" using c(1,2) by fastforce
    then have "ordered key bytes (b # c # bs)" using Cons.prems by (simp add: ordered_Cons)
    then show ?thesis using True by auto
  next
    case False
    then have bc: "key c + bytes c \<le> key b" using c(1,4) Cons.prems(2) by (auto simp: apart_def)
    obtain bs' where ih: "emplace_by key b bs = Some bs'" "ordered key bytes bs'" "set bs' = insert b (set bs)"
      using Cons.IH [OF c(3) Cons.prems(2,3)] Cons.prems(4) by auto
    have "key b \<noteq> key c" using bc c(1) by auto
    moreover have "ordered key bytes (c # bs')" using ih c bc Cons.prems(1) by (auto simp: ordered_Cons)
    ultimately show ?thesis using False ih by auto
  qed
qed (simp add: ordered_Cons)

lemma ordered_remove:
  assumes "ordered key bytes bs" "b \<in> set bs"
  shows "ordered key bytes (remove1 b bs)" "set (remove1 b bs) = set bs - {b}"
proof -
  obtain xs ys where x: "bs = xs @ b # ys" "b \<notin> set xs" using assms(2) by (metis split_list_first)
  then have r: "remove1 b bs = xs @ ys" by (simp add: remove1_append)
  show "ordered key bytes (remove1 b bs)" using assms(1) x(1) r by (auto simp: ordered_append ordered_Cons)
  have "b \<notin> set ys" using assms(1) x(1) by (auto simp: ordered_append ordered_Cons)
  then show "set (remove1 b bs) = set bs - {b}" using x r by auto
qed

text \<open>What a map says after an entry was put in, taken out, or cut.\<close>

lemma seen_at_insert:
  assumes "maps_ok key bytes bs'" "set bs' = insert b (set bs)" "\<forall>c\<in>set bs. apart key bytes b c" "maps_ok key bytes bs"
  shows "seen_at key bytes view bs' a = (if covers key bytes b a then Some (view b a) else seen_at key bytes view bs a)"
proof (cases "covers key bytes b a")
  case True
  then show ?thesis using seen_at_mem [OF assms(1), of b a view] assms(2) by simp
next
  case False
  show ?thesis
  proof (cases "seen_at key bytes view bs a")
    case None
    then have "seen_at key bytes view bs' a = None" using False assms(2) by (simp add: seen_at_None)
    then show ?thesis using None False by simp
  next
    case (Some v)
    then obtain c where c: "c \<in> set bs" "covers key bytes c a" "v = view c a" using seen_at_SomeD by fast
    then show ?thesis using seen_at_mem [OF assms(1), of c a view] assms(2) False Some by simp
  qed
qed

lemma seen_at_remove:
  assumes "maps_ok key bytes bs" "b \<in> set bs" "set bs' = set bs - {b}" "maps_ok key bytes bs'"
  shows "seen_at key bytes view bs' a = (if covers key bytes b a then None else seen_at key bytes view bs a)"
proof (cases "covers key bytes b a")
  case True
  have "\<not> covers key bytes c a" if "c \<in> set bs'" for c
    using seen_at_unique [OF assms(1) assms(2) _ True, of c] that assms(3) by auto
  then show ?thesis using True by (simp add: seen_at_None)
next
  case False
  show ?thesis
  proof (cases "seen_at key bytes view bs a")
    case None
    then have "seen_at key bytes view bs' a = None" using assms(3) by (simp add: seen_at_None)
    then show ?thesis using None False by simp
  next
    case (Some v)
    then obtain c where c: "c \<in> set bs" "covers key bytes c a" "v = view c a" using seen_at_SomeD by fast
    then have "c \<in> set bs'" using assms(3) False by auto
    then show ?thesis using seen_at_mem [OF assms(4) _ c(2), of view] c(3) False Some by simp
  qed
qed

text \<open>A range no entry covers any address of is apart from every entry.\<close>

lemma apart_unseen:
  assumes "maps_ok key bytes bs" "0 < bytes b" "\<And>a. covers key bytes b a \<Longrightarrow> seen_at key bytes view bs a = None" "c \<in> set bs"
  shows "apart key bytes b c"
proof (rule ccontr)
  assume "\<not> apart key bytes b c"
  then obtain a where "covers key bytes b a" "covers key bytes c a"
    using not_apart_common [of key bytes b c] assms(2) maps_ok_mem [OF assms(1,4)] by auto
  then show False using assms(3,4) by (auto simp: seen_at_None)
qed

section \<open>The free addresses\<close>

lemma free_ok_split:
  assumes "free_ok (xs @ (a, n) # ys)"
  shows "0 < n" "\<forall>x\<in>free_bytes xs. x < a" "\<forall>x\<in>free_bytes ys. a + n < x"
    "\<forall>r\<in>set xs. fst r + snd r < a" "\<forall>r\<in>set ys. a + n < fst r"
proof -
  have sep: "separated 0 (pieces xs @ (a, a + n) # pieces ys)" using assms by (simp add: free_ok_def)
  then show "0 < n" by (auto simp: separated_append)
  show l: "\<forall>r\<in>set xs. fst r + snd r < a" using separated_before [OF sep pieces_mem] by fastforce
  then show "\<forall>x\<in>free_bytes xs. x < a" by (fastforce simp: free_bytes_iff)
  have s: "separated (a + n + 1) (pieces ys)" using sep by (auto simp: separated_append)
  show g: "\<forall>r\<in>set ys. a + n < fst r" using separated_bound [OF s pieces_mem] by fastforce
  then show "\<forall>x\<in>free_bytes ys. a + n < x" by (fastforce simp: free_bytes_iff)
qed

lemma free_fits:
  assumes "free_ok m" "\<forall>x\<in>free_bytes m. x < UINT64_MAX" "r \<in> set m"
  shows "0 < snd r" "fst r + snd r \<le> UINT64_MAX"
proof -
  show n: "0 < snd r" using separated_bound [of 0 "pieces m"] pieces_mem [OF assms(3)] assms(1) by (fastforce simp: free_ok_def)
  then have "fst r + snd r - 1 \<in> free_bytes m" using assms(3) by (auto simp: free_bytes_iff intro!: bexI [of _ r])
  then have "fst r + snd r - 1 < UINT64_MAX" using assms(2) by blast
  then show "fst r + snd r \<le> UINT64_MAX" using n by simp
qed

lemma FindContaining_ok:
  assumes m: "free_ok m" and n: "0 < bytes" and lim: "\<forall>x\<in>free_bytes m. x < UINT64_MAX" "vaddr + bytes \<le> UINT64_MAX"
  shows "case FindContaining vaddr bytes m of
      None \<Rightarrow> \<not> {vaddr..<vaddr + bytes} \<subseteq> free_bytes m
    | Some (before, r, rest) \<Rightarrow> m = before @ r # rest \<and> fst r \<le> vaddr \<and> vaddr + bytes \<le> fst r + snd r"
proof -
  obtain before rest where u: "upper_bound vaddr m = (before, rest)" by (cases "upper_bound vaddr m")
  have b: "before = takeWhile (\<lambda>r. fst r \<le> vaddr) m" "rest = dropWhile (\<lambda>r. fst r \<le> vaddr) m"
    using u by (simp_all add: upper_bound_def)
  have bs: "m = before @ rest" using b by simp
  have low: "\<forall>r\<in>set before. fst r \<le> vaddr" using b(1) set_takeWhileD by fastforce
  have high: "\<forall>r\<in>set rest. vaddr < fst r"
  proof -
    have "sorted (map fst m) \<Longrightarrow> \<forall>r\<in>set (dropWhile (\<lambda>r. fst r \<le> vaddr) m). vaddr < fst r"
    proof (induction m)
      case (Cons r m)
      show ?case
      proof (cases "fst r \<le> vaddr")
        case False
        then have "vaddr < fst q" if "q \<in> set m" for q using Cons.prems that by fastforce
        then show ?thesis using False by auto
      qed (use Cons in simp)
    qed simp
    then show ?thesis using free_ok_sorted [OF m] b(2) by simp
  qed
  have fc: "FindContaining vaddr bytes m =
      (if before \<noteq> [] \<and> fst (last before) \<le> vaddr \<and> vaddr + bytes \<le> fst (last before) + snd (last before)
       then Some (butlast before, last before, rest) else None)"
  proof (cases "before = []")
    case False
    then have "last before \<in> set m" by (simp add: bs)
    from free_fits(2) [OF m lim(1) this] show ?thesis
      using lim(2) by (simp add: FindContaining_def u Let_def add64_ident)
  qed (simp add: FindContaining_def u)
  have whole: "m = butlast before @ last before # rest" if "before \<noteq> []" using that bs by simp
  show ?thesis
  proof (cases "FindContaining vaddr bytes m")
    case (Some t)
    then have "t = (butlast before, last before, rest)" "before \<noteq> []" "fst (last before) \<le> vaddr"
      "vaddr + bytes \<le> fst (last before) + snd (last before)" unfolding fc by (simp_all split: if_splits)
    then show ?thesis using Some whole by simp
  next
    case None
    have "\<not> {vaddr..<vaddr + bytes} \<subseteq> free_bytes m"
    proof
      assume "{vaddr..<vaddr + bytes} \<subseteq> free_bytes m"
      from free_run [OF m this n] obtain r where r: "r \<in> set m" "fst r \<le> vaddr" "vaddr + bytes \<le> fst r + snd r" by blast
      then have rb: "r \<in> set before" using bs high by (metis Un_iff not_less set_append)
      then have ne: "before \<noteq> []" by auto
      have "r = last before"
      proof (rule ccontr)
        assume "r \<noteq> last before"
        then have "r \<in> set (butlast before)" using rb ne by (metis append_butlast_last_id in_set_conv_decomp rotate1.simps(2) set_ConsD set_rotate1)
        moreover have "m = butlast before @ (fst (last before), snd (last before)) # rest" using bs ne by simp
        ultimately have "fst r + snd r < fst (last before)" using free_ok_split(4) m by metis
        moreover have "fst (last before) \<le> vaddr" using low ne by simp
        ultimately show False using r(3) by simp
      qed
      then show False using None ne r unfolding fc by simp
    qed
    then show ?thesis using None by simp
  qed
qed

text \<open>Splitting and erasing is consuming.\<close>

lemma SplitUnlocked_ok:
  assumes m: "free_ok (before @ (a, n) # rest)" and r: "a \<le> vaddr" "vaddr + bytes \<le> a + n" "0 < bytes"
    and lim: "a + n \<le> UINT64_MAX"
  shows "(vaddr, bytes) \<in> set (SplitUnlocked (before, (a, n), rest) vaddr bytes)"
    "remove1 (vaddr, bytes) (SplitUnlocked (before, (a, n), rest) vaddr bytes) = ConsumeFreeRange before (a, n) rest vaddr bytes"
proof -
  note sp = free_ok_split [OF m]
  let ?left = "if a < vaddr then [(a, vaddr - a)] else []"
  let ?right = "if vaddr + bytes < a + n then [(vaddr + bytes, a + n - (vaddr + bytes))] else []"
  have low: "\<forall>r\<in>set (before @ ?left). fst r < vaddr" using sp(4) r(1) by fastforce
  have high: "rest = [] \<or> a + n < fst (hd rest)" using sp(5) by (cases rest) auto
  have em1: "emplace (vaddr + bytes) k (before @ ?left @ (vaddr, bytes) # rest) = before @ ?left @ (vaddr, bytes) # (vaddr + bytes, k) # rest"
    if "vaddr + bytes < a + n" for k
  proof -
    have "fst q < vaddr + bytes" if "q \<in> set (before @ ?left @ [(vaddr, bytes)])" for q
    proof (cases "q = (vaddr, bytes)")
      case False
      then have "q \<in> set (before @ ?left)" using that by simp
      then have "fst q < vaddr" using low by blast
      then show ?thesis by simp
    qed (use r(3) in simp)
    then have "\<forall>r\<in>set (before @ ?left @ [(vaddr, bytes)]). fst r < vaddr + bytes" by blast
    moreover have "rest = [] \<or> vaddr + bytes < fst (hd rest)" using high that by auto
    ultimately show ?thesis using emplace_mid [of "before @ ?left @ [(vaddr, bytes)]" "vaddr + bytes" rest k]
      by (simp split del: if_split)
  qed
  have w: "add64 a n = a + n" "add64 vaddr bytes = vaddr + bytes" "sub64 vaddr a = vaddr - a"
    "sub64 (a + n) vaddr = a + n - vaddr" "sub64 (a + n - vaddr) bytes = a + n - vaddr - bytes"
    using r lim by (simp_all add: add64_ident sub64_ident)
  have w0: "add64 a bytes = a + bytes" "sub64 n bytes = n - bytes" if "a = vaddr"
    using r lim that by (simp_all add: add64_ident sub64_ident)
  have split: "SplitUnlocked (before, (a, n), rest) vaddr bytes = before @ ?left @ (vaddr, bytes) # ?right @ rest"
  proof (cases "a = vaddr")
    case True
    then show ?thesis using em1 r w w0 by (auto simp: SplitUnlocked_def)
  next
    case False
    then have av: "a < vaddr" using r(1) by simp
    show ?thesis
    proof (cases "vaddr + bytes < a + n")
      case True
      then have "a + n - vaddr \<noteq> bytes" "a + n - vaddr - bytes = a + n - (vaddr + bytes)" by auto
      then show ?thesis using em1 [OF True] True av False w by (simp add: SplitUnlocked_def)
    next
      case no: False
      then have "a + n - vaddr = bytes" using r(2) by simp
      then show ?thesis using no av False w by (simp add: SplitUnlocked_def)
    qed
  qed
  show "(vaddr, bytes) \<in> set (SplitUnlocked (before, (a, n), rest) vaddr bytes)" unfolding split by simp
  have "(vaddr, bytes) \<notin> set (before @ ?left)" using low by fastforce
  then have rem: "remove1 (vaddr, bytes) (SplitUnlocked (before, (a, n), rest) vaddr bytes) = before @ ?left @ ?right @ rest"
    unfolding split using remove1_append [of "(vaddr, bytes)" "before @ ?left"] by simp
  have e1: "emplace a (vaddr - a) (before @ rest) = before @ (a, vaddr - a) # rest" if "a < vaddr"
    by (rule emplace_mid) (use sp(4) high sp(1) in fastforce)+
  have e2: "emplace (vaddr + bytes) k (before @ ?left @ rest) = before @ ?left @ (vaddr + bytes, k) # rest" if "vaddr + bytes < a + n" for k
  proof -
    have "\<forall>r\<in>set (before @ ?left). fst r < vaddr + bytes" using low trans_less_add1 by blast
    moreover have "rest = [] \<or> vaddr + bytes < fst (hd rest)" using high that by auto
    ultimately show ?thesis using emplace_mid [of "before @ ?left" "vaddr + bytes" rest k] by (simp split del: if_split)
  qed
  show "remove1 (vaddr, bytes) (SplitUnlocked (before, (a, n), rest) vaddr bytes) = ConsumeFreeRange before (a, n) rest vaddr bytes"
    unfolding rem ConsumeFreeRange_def using e1 e2 by (auto simp: Let_def)
qed

lemma ConsumeUnlocked_ok:
  assumes m: "free_ok (sp_free s)" and n: "0 < bytes" "\<forall>x\<in>free_bytes (sp_free s). x < UINT64_MAX" and lim: "vaddr + bytes \<le> UINT64_MAX"
    and c: "ConsumeUnlocked vaddr bytes s = (s', r)"
  shows "r \<longleftrightarrow> {vaddr..<vaddr + bytes} \<subseteq> free_bytes (sp_free s)" "\<not> r \<Longrightarrow> s' = s"
    "r \<Longrightarrow> s' = s\<lparr>sp_free := sp_free s'\<rparr> \<and> free_ok (sp_free s') \<and>
       free_bytes (sp_free s') = free_bytes (sp_free s) - {vaddr..<vaddr + bytes}"
proof -
  note f = FindContaining_ok [OF m n(1,2) lim]
  have "(r \<longleftrightarrow> {vaddr..<vaddr + bytes} \<subseteq> free_bytes (sp_free s)) \<and> (\<not> r \<longrightarrow> s' = s) \<and>
    (r \<longrightarrow> s' = s\<lparr>sp_free := sp_free s'\<rparr> \<and> free_ok (sp_free s') \<and>
       free_bytes (sp_free s') = free_bytes (sp_free s) - {vaddr..<vaddr + bytes})"
  proof (cases "FindContaining vaddr bytes (sp_free s)")
    case None
    then show ?thesis using c f by (auto simp: ConsumeUnlocked_def)
  next
    case (Some t)
    obtain before a k rest where t: "t = (before, (a, k), rest)" by (metis prod.exhaust)
    have x: "sp_free s = before @ (a, k) # rest" "a \<le> vaddr" "vaddr + bytes \<le> a + k" using f Some t by auto
    note m' = m [unfolded x(1)]
    have "a + k \<le> UINT64_MAX" using free_fits(2) [OF m n(2), of "(a, k)"] x(1) by simp
    note sp = SplitUnlocked_ok [OF m' x(2,3) n(1) this]
    have res: "s' = s\<lparr>sp_free := ConsumeFreeRange before (a, k) rest vaddr bytes\<rparr>" "r"
      using c Some t sp by (auto simp: ConsumeUnlocked_def Let_def)
    have "{vaddr..<vaddr + bytes} \<subseteq> free_bytes (sp_free s)" using x by auto
    then show ?thesis using res ConsumeFreeRange_ok [OF m' x(2,3) n(1)] x(1) lim by auto
  qed
  then show "r \<longleftrightarrow> {vaddr..<vaddr + bytes} \<subseteq> free_bytes (sp_free s)" "\<not> r \<Longrightarrow> s' = s"
    "r \<Longrightarrow> s' = s\<lparr>sp_free := sp_free s'\<rparr> \<and> free_ok (sp_free s') \<and>
       free_bytes (sp_free s') = free_bytes (sp_free s) - {vaddr..<vaddr + bytes}" by blast+
qed

lemma absorb_back_ok:
  assumes "free_ok m" "\<forall>r\<in>set m. fst r + snd r \<le> base" "absorb_back base (rev m) = (base', back)"
    and lim: "base \<le> UINT64_MAX"
  shows "\<exists>n. m = rev back @ (if base' = base then [] else [(base', n)]) \<and> (base' \<noteq> base \<longrightarrow> base' + n = base) \<and>
    (\<forall>r\<in>set back. fst r + snd r < base') \<and> base' \<le> base"
proof (cases "rev m")
  case Nil
  then show ?thesis using assms(3) by auto
next
  case (Cons r bs)
  obtain a n where r: "r = (a, n)" by (cases r)
  have m: "m = rev bs @ [(a, n)]" using Cons r by (metis rev.simps(2) rev_rev_ident)
  have sp: "0 < n" "\<forall>r\<in>set (rev bs). fst r + snd r < a" using free_ok_split(1,4) [of "rev bs" a n "[]"] assms(1) m by simp_all
  have an: "a + n \<le> base" using assms(2) m by simp
  have w: "add64 (fst r) (snd r) = fst r + snd r" if "r \<in> set m" for r
    using assms(2) lim that by (intro add64_ident) fastforce
  have wa: "add64 a n = a + n" using w [of "(a, n)"] m by simp
  show ?thesis
  proof (cases "a + n = base")
    case False
    then have "base' = base" "back = (a, n) # bs" using assms(3) Cons r wa by simp_all
    then show ?thesis using m False an sp(2) by fastforce
  next
    case True
    have "absorb_back a bs = (a, bs)"
    proof (cases bs)
      case (Cons q qs)
      then have "fst q + snd q < a" "q \<in> set m" using sp(2) m by simp_all
      then show ?thesis using Cons w [of q] by (cases q) simp
    qed simp
    then have "base' = a" "back = bs" using assms(3) Cons r True wa by simp_all
    then show ?thesis using m True sp by auto
  qed
qed

lemma absorb_next_ok:
  assumes "free_ok m" "\<forall>r\<in>set m. end1 \<le> fst r" "absorb_next end1 m = (end', rest)"
    and lim: "\<forall>r\<in>set m. fst r + snd r \<le> UINT64_MAX"
  shows "\<exists>n. m = (if end' = end1 then [] else [(end1, n)]) @ rest \<and> (end' \<noteq> end1 \<longrightarrow> end' = end1 + n) \<and>
    (\<forall>r\<in>set rest. end' < fst r) \<and> end1 \<le> end'"
proof (cases m)
  case Nil
  then show ?thesis using assms(3) by auto
next
  case (Cons r bs)
  obtain a n where r: "r = (a, n)" by (cases r)
  have sp: "0 < n" "\<forall>r\<in>set bs. a + n < fst r" using free_ok_split(1,5) [of "[]" a n bs] assms(1) Cons r by simp_all
  have an: "end1 \<le> a" using assms(2) Cons r by simp
  show ?thesis
  proof (cases "a = end1")
    case False
    then have "end' = end1" "rest = (a, n) # bs" using assms(3) Cons r by simp_all
    then show ?thesis using Cons r False an sp(2) by fastforce
  next
    case True
    have wa: "add64 a n = a + n" using lim Cons r by (intro add64_ident) simp
    have "absorb_next (a + n) bs = (a + n, bs)"
    proof (cases bs)
      case (Cons q qs)
      then have "a + n < fst q" using sp(2) by simp
      then show ?thesis using Cons by (cases q) simp
    qed simp
    then have "end' = a + n" "rest = bs" using assms(3) Cons r True wa by simp_all
    then show ?thesis using Cons r True sp by auto
  qed
qed

lemma AddFreeUnlocked_ok:
  assumes m: "free_ok (sp_free s)" and n: "vaddr \<noteq> 0" "0 < bytes" and d: "{vaddr..<vaddr + bytes} \<inter> free_bytes (sp_free s) = {}"
    and lim: "vaddr + bytes \<le> UINT64_MAX" "\<forall>x\<in>free_bytes (sp_free s). x < UINT64_MAX"
    and s': "s' = AddFreeUnlocked vaddr bytes s"
  shows "s' = s\<lparr>sp_free := sp_free s'\<rparr>" "free_ok (sp_free s')"
    "free_bytes (sp_free s') = free_bytes (sp_free s) \<union> {vaddr..<vaddr + bytes}"
proof -
  let ?m = "sp_free s"
  let ?before = "takeWhile (\<lambda>r. fst r < vaddr) ?m" and ?rest = "dropWhile (\<lambda>r. fst r \<le> vaddr) ?m"
  have pos: "0 < snd r" if "r \<in> set ?m" for r
    using separated_bound [of 0 "pieces ?m"] pieces_mem [OF that] m by (fastforce simp: free_ok_def)
  have out: "fst r \<noteq> vaddr" if "r \<in> set ?m" for r
  proof
    assume "fst r = vaddr"
    then have "vaddr \<in> {vaddr..<vaddr + bytes} \<inter> free_bytes ?m" using pos [OF that] that n by (auto simp: free_bytes_iff)
    then show False using d by blast
  qed
  have dw: "?rest = dropWhile (\<lambda>r. fst r < vaddr) ?m"
    by (rule dropWhile_cong [OF refl]) (use out in fastforce)
  have split: "?m = ?before @ ?rest" unfolding dw by simp
  have okb: "free_ok ?before" "free_ok ?rest"
  proof -
    have "separated 0 (pieces ?before @ pieces ?rest)" using m split by (metis free_ok_def map_append)
    then show "free_ok ?before" "free_ok ?rest"
      unfolding separated_append free_ok_def by (auto intro: separated_mono)
  qed
  have low: "fst r + snd r \<le> vaddr" if "r \<in> set ?before" for r
  proof (rule ccontr)
    assume "\<not> fst r + snd r \<le> vaddr"
    moreover have "fst r < vaddr" "r \<in> set ?m" using that set_takeWhileD by fastforce+
    ultimately have "vaddr \<in> {vaddr..<vaddr + bytes} \<inter> free_bytes ?m" using n by (auto simp: free_bytes_iff intro!: bexI [of _ r])
    then show False using d by blast
  qed
  have high: "vaddr + bytes \<le> fst r" if "r \<in> set ?rest" for r
  proof (rule ccontr)
    assume a: "\<not> vaddr + bytes \<le> fst r"
    have rm: "r \<in> set ?m" using that set_dropWhileD by metis
    have "sorted (map fst m) \<Longrightarrow> r \<in> set (dropWhile (\<lambda>r. fst r < vaddr) m) \<Longrightarrow> vaddr \<le> fst r" for m :: free_map
      by (induction m) (auto split: if_splits)
    then have "vaddr \<le> fst r" using free_ok_sorted [OF m] that dw by simp
    then have "fst r \<in> {vaddr..<vaddr + bytes} \<inter> free_bytes ?m" using a rm pos [OF rm] by (auto simp: free_bytes_iff intro!: bexI [of _ r])
    then show False using d by blast
  qed
  have fits: "\<forall>r\<in>set ?rest. fst r + snd r \<le> UINT64_MAX"
    using free_fits(2) [OF m lim(2)] by (auto dest: set_dropWhileD)
  obtain base pre where b: "absorb_back vaddr (rev ?before) = (base, pre)" by fastforce
  obtain end1 rest where e: "absorb_next (vaddr + bytes) ?rest = (end1, rest)" by fastforce
  obtain k where k: "?before = rev pre @ (if base = vaddr then [] else [(base, k)])" "base \<noteq> vaddr \<longrightarrow> base + k = vaddr"
    "\<forall>r\<in>set pre. fst r + snd r < base" "base \<le> vaddr"
    using absorb_back_ok [OF okb(1) _ b] low lim(1) by fastforce
  obtain l where l: "?rest = (if end1 = vaddr + bytes then [] else [(vaddr + bytes, l)]) @ rest"
    "end1 \<noteq> vaddr + bytes \<longrightarrow> end1 = vaddr + bytes + l" "\<forall>r\<in>set rest. end1 < fst r" "vaddr + bytes \<le> end1"
    using absorb_next_ok [OF okb(2) _ e] high fits by blast
  have "end1 \<le> UINT64_MAX"
  proof (cases "end1 = vaddr + bytes")
    case False
    then have "(vaddr + bytes, l) \<in> set ?rest" by (subst l(1)) simp
    then show ?thesis using fits l(2) False by fastforce
  qed (use lim(1) in simp)
  then have "sub64 end1 base = end1 - base" using k(4) l(4) by (intro sub64_ident) simp_all
  then have res: "s' = s\<lparr>sp_free := rev pre @ (base, end1 - base) # rest\<rparr>"
    using n b e by (simp add: s' AddFreeUnlocked_def add64_ident [OF lim(1)])
  then show "s' = s\<lparr>sp_free := sp_free s'\<rparr>" by simp
  have fb: "free_bytes ?m = free_bytes (rev pre) \<union> {base..<vaddr} \<union> ({vaddr + bytes..<end1} \<union> free_bytes rest)"
  proof -
    have "free_bytes ?m = free_bytes ?before \<union> free_bytes ?rest" by (subst split) (rule free_bytes_simps(3))
    moreover have "free_bytes ?before = free_bytes (rev pre) \<union> {base..<vaddr}" using k(2) by (subst k(1)) auto
    moreover have "free_bytes ?rest = {vaddr + bytes..<end1} \<union> free_bytes rest" using l(2) by (subst l(1)) auto
    ultimately show ?thesis by blast
  qed
  show "free_bytes (sp_free s') = free_bytes (sp_free s) \<union> {vaddr..<vaddr + bytes}"
    unfolding fb using k(4) l(4) by (auto simp: res)
  have sb: "separated 0 (pieces (rev pre))"
  proof -
    have "separated 0 (pieces (rev pre) @ pieces (if base = vaddr then [] else [(base, k)]))"
      using okb(1) k(1) unfolding free_ok_def by (metis map_append)
    then show ?thesis by (simp add: separated_append)
  qed
  have sr: "separated (end1 + 1) (pieces rest)"
  proof -
    have "separated 0 (pieces (if end1 = vaddr + bytes then [] else [(vaddr + bytes, l)]) @ pieces rest)"
      using okb(2) l(1) unfolding free_ok_def by (metis map_append)
    then have "\<exists>t. separated t (pieces rest)" unfolding separated_append by blast
    moreover have "separated t m \<Longrightarrow> \<forall>r\<in>set m. end1 + 1 \<le> fst r \<Longrightarrow> separated (end1 + 1) m" for t m
      by (cases m) auto
    ultimately show ?thesis using l(3) by fastforce
  qed
  have last: "snd (last (pieces (rev pre))) + 1 \<le> base" if "pre \<noteq> []"
  proof -
    have "last (rev pre) \<in> set pre" using that by (metis last_in_set rev_is_Nil_conv set_rev)
    then have "fst (last (rev pre)) + snd (last (rev pre)) < base" using k(3) by blast
    then show ?thesis using that by (simp add: last_map case_prod_beta)
  qed
  show "free_ok (sp_free s')"
    unfolding free_ok_def using sb sr last n k(4) l(4) by (auto simp: res separated_append)
qed

section \<open>The invariant\<close>

text \<open>What the system maps at an address after the calls of a log: an offset in the backing object or nothing.\<close>

fun apply_call :: "host_call \<times> bool \<Rightarrow> (nat \<Rightarrow> nat option) \<Rightarrow> nat \<Rightarrow> nat option" where
  "apply_call (Map_View vaddr n offset mode, True) f a = (if vaddr \<le> a \<and> a < vaddr + n then Some (offset + (a - vaddr)) else f a)"
| "apply_call (Map_None vaddr n, True) f a = (if vaddr \<le> a \<and> a < vaddr + n then None else f a)"
| "apply_call c f a = f a"

definition host_view :: "space \<Rightarrow> nat \<Rightarrow> nat option" where
  "host_view s = fold apply_call (sp_log s) (\<lambda>_. None)"

definition entry_view :: "map_entry \<Rightarrow> nat \<Rightarrow> nat" where
  "entry_view e a = me_backing_offset e + (a - me_vaddr e)"

text \<open>The offset the map of the views gives for an address, and the type of the region it is in.\<close>

abbreviation offset_at :: "map_entry list \<Rightarrow> nat \<Rightarrow> nat option" where
  "offset_at \<equiv> seen_at me_vaddr me_size entry_view"

abbreviation region_at :: "region list \<Rightarrow> nat \<Rightarrow> mapping_type option" where
  "region_at \<equiv> seen_at mr_vaddr mr_size (\<lambda>r _. mr_type r)"

definition backing_ok :: "space \<Rightarrow> bool" where
  "backing_ok s \<longleftrightarrow>
     ordered me_vaddr me_size (bk_maps s) \<and> (\<forall>e\<in>set (bk_maps s). RangeOk (me_backing_offset e) (me_size e) s) \<and>
     bk_available s \<and> host_view s = offset_at (bk_maps s)"

lemma backing_okD:
  assumes "backing_ok s"
  shows "ordered me_vaddr me_size (bk_maps s)" "maps_ok me_vaddr me_size (bk_maps s)"
    "e \<in> set (bk_maps s) \<Longrightarrow> RangeOk (me_backing_offset e) (me_size e) s" "bk_available s" "host_view s a = offset_at (bk_maps s) a"
  using assms ordered_maps_ok by (auto simp: backing_ok_def)

text \<open>The calls change the views, the log, and nothing else.\<close>

definition views_only :: "space \<Rightarrow> space \<Rightarrow> bool" where
  "views_only s s' \<longleftrightarrow> s' = s\<lparr>bk_maps := bk_maps s', sp_log := sp_log s'\<rparr>"

lemma views_only_refl [simp]: "views_only s s"
  by (simp add: views_only_def)

lemma views_only_trans: "views_only s t \<Longrightarrow> views_only t u \<Longrightarrow> views_only s u"
  unfolding views_only_def by (metis (no_types, lifting) space.surjective space.update_convs(2,6))

lemma views_only_fields:
  assumes "views_only s s'"
  shows "sp_answers s' = sp_answers s" "bk_available s' = bk_available s" "bk_size s' = bk_size s" "bk_bytes s' = bk_bytes s"
    "sp_free s' = sp_free s" "sp_mapped s' = sp_mapped s" "sp_owned s' = sp_owned s"
  by (subst assms [unfolded views_only_def], simp)+

lemma host_do_view:
  assumes "host_do c s = (s', ok)"
  shows "host_view s' = (if ok then apply_call (c, True) (host_view s) else host_view s)" "s' = s\<lparr>sp_log := sp_log s'\<rparr>"
    "ok = sp_answers s (length (sp_log s))"
proof -
  have e: "s' = s\<lparr>sp_log := sp_log s @ [(c, ok)]\<rparr>" "ok = sp_answers s (length (sp_log s))"
    using assms by (auto simp: host_do_def Let_def)
  have "apply_call (c, False) f = f" for f by (cases c) (simp_all add: fun_eq_iff)
  then show "host_view s' = (if ok then apply_call (c, True) (host_view s) else host_view s)"
    by (cases ok) (simp_all add: host_view_def e(1))
  show "s' = s\<lparr>sp_log := sp_log s'\<rparr>" "ok = sp_answers s (length (sp_log s))" using e by simp_all
qed

section \<open>The views of the backing object\<close>

text \<open>
  A new view where there was none: it is there when the range of the object is in bounds and the system call succeeds.
\<close>

lemma MapExisting_ok:
  assumes ok: "backing_ok s" and v: "vaddr + bytes \<le> UINT64_MAX"
    and none: "\<And>a. vaddr \<le> a \<Longrightarrow> a < vaddr + bytes \<Longrightarrow> offset_at (bk_maps s) a = None"
  shows "\<exists>s' r. MapExistingPlaceholderFixed vaddr bytes offset mode s = Inr (s', r) \<and> backing_ok s' \<and> views_only s s' \<and>
    (r \<longleftrightarrow> RangeOk offset bytes s \<and> sp_answers s (length (sp_log s))) \<and>
    set (bk_maps s') = (if r then insert \<lparr>me_vaddr = vaddr, me_size = bytes, me_backing_offset = offset, me_mode = mode\<rparr> (set (bk_maps s))
      else set (bk_maps s)) \<and>
    (\<forall>a. offset_at (bk_maps s') a =
      (if r \<and> vaddr \<le> a \<and> a < vaddr + bytes then Some (offset + (a - vaddr)) else offset_at (bk_maps s) a))"
proof (cases "RangeOk offset bytes s")
  case False
  then have "MapExistingPlaceholderFixed vaddr bytes offset mode s = Inr (s, False)" by (simp add: MapExistingPlaceholderFixed_def)
  then show ?thesis using ok False by auto
next
  case True
  note d = backing_okD [OF ok]
  obtain s1 ok1 where h: "host_do (Map_View vaddr bytes offset mode) s = (s1, ok1)" by fastforce
  note hv = host_do_view [OF h]
  have f: "bk_maps s1 = bk_maps s" "bk_size s1 = bk_size s" "bk_available s1 = bk_available s" by (subst hv(2), simp)+
  show ?thesis
  proof (cases ok1)
    case False
    have "backing_ok s1" unfolding backing_ok_def RangeOk_def f using ok hv(1) False by (simp add: backing_ok_def RangeOk_def)
    moreover have "views_only s s1" unfolding views_only_def by (subst hv(2)) (simp add: f(1))
    moreover have "MapExistingPlaceholderFixed vaddr bytes offset mode s = Inr (s1, False)"
      using True d(4) h False by (simp add: MapExistingPlaceholderFixed_def)
    ultimately show ?thesis using hv(3) False f(1) by auto
  next
    case ok1: True
    let ?e = "\<lparr>me_vaddr = vaddr, me_size = bytes, me_backing_offset = offset, me_mode = mode\<rparr>"
    have pos: "0 < bytes" using True by (auto simp: RangeOk_def)
    have ap: "\<forall>c\<in>set (bk_maps s). apart me_vaddr me_size ?e c"
      using apart_unseen [OF d(2), of ?e entry_view] none pos by (simp add: covers_def)
    obtain maps where m: "emplace_by me_vaddr ?e (bk_maps s) = Some maps" "ordered me_vaddr me_size maps" "set maps = insert ?e (set (bk_maps s))"
      using emplace_by_ok [OF d(1), of ?e] pos v ap by auto
    let ?s = "s1\<lparr>bk_maps := maps\<rparr>"
    have at: "offset_at maps a = (if vaddr \<le> a \<and> a < vaddr + bytes then Some (offset + (a - vaddr)) else offset_at (bk_maps s) a)" for a
      using seen_at_insert [OF ordered_maps_ok [OF m(2)] m(3) ap d(2), of entry_view a] by (simp add: covers_def entry_view_def)
    have "host_view ?s = offset_at maps"
    proof
      fix a
      have "host_view ?s a = host_view s1 a" by (simp add: host_view_def)
      then show "host_view ?s a = offset_at maps a" unfolding at hv(1) using ok1 d(5) by simp
    qed
    then have "backing_ok ?s" using m d(3,4) True by (auto simp: backing_ok_def RangeOk_def f)
    moreover have "views_only s ?s" unfolding views_only_def by (subst hv(2)) simp
    moreover have "MapExistingPlaceholderFixed vaddr bytes offset mode s = Inr (?s, True)"
      using True d(4) h ok1 m(1) by (simp add: MapExistingPlaceholderFixed_def f)
    ultimately show ?thesis using at hv(3) ok1 True m(3) by auto
  qed
qed

text \<open>A part of an entry that ends where the range ends or where the entry does.\<close>

definition part_of :: "nat \<Rightarrow> map_entry \<Rightarrow> map_entry \<Rightarrow> bool" where
  "part_of end1 p e \<longleftrightarrow> me_vaddr e \<le> me_vaddr p \<and> me_vaddr p + me_size p \<le> me_vaddr e + me_size e \<and>
     me_backing_offset p = me_backing_offset e + (me_vaddr p - me_vaddr e) \<and> me_mode p = me_mode e \<and>
     (me_vaddr p + me_size p = end1 \<or> me_vaddr p + me_size p = me_vaddr e + me_size e)"

lemma backing_parts_ok:
  assumes "ordered me_vaddr me_size (bk_maps s)" "end1 \<le> UINT64_MAX"
  shows "case backing_parts current end1 s of
      None \<Rightarrow> \<exists>a. current \<le> a \<and> a < end1 \<and> offset_at (bk_maps s) a = None
    | Some ps \<Rightarrow> ordered me_vaddr me_size ps \<and>
        (\<forall>a. offset_at ps a = (if current \<le> a \<and> a < end1 then offset_at (bk_maps s) a else None)) \<and>
        (\<forall>a. current \<le> a \<and> a < end1 \<longrightarrow> offset_at (bk_maps s) a \<noteq> None) \<and>
        (\<forall>p\<in>set ps. current \<le> me_vaddr p \<and> me_vaddr p + me_size p \<le> end1 \<and>
          (\<exists>e\<in>set (bk_maps s). part_of end1 p e))"
  using assms
proof (induction current end1 s rule: backing_parts.induct)
  case (1 current end1 s)
  note mo = ordered_maps_ok [OF 1(2)]
  show ?case
  proof (cases "current < end1")
    case False
    then have "backing_parts current end1 s = Some []" by (subst backing_parts.simps) simp
    then show ?thesis using False by auto
  next
    case True
    have lim: "\<not> UINT64_MAX - current < 1" using True 1(3) by auto
    show ?thesis
    proof (cases "FindContainingUnlocked current 1 s")
      case None
      then have "\<not> current < me_vaddr b + me_size b" if "last_at me_vaddr current (bk_maps s) = Some b" for b
        using lim that by (auto simp: FindContainingUnlocked_def split: if_splits)
      then have "offset_at (bk_maps s) current = None" by (rule last_at_None [OF 1(2)])
      moreover have "backing_parts current end1 s = None" using True None by (subst backing_parts.simps) simp
      ultimately show ?thesis using True by auto
    next
      case (Some e)
      then have "last_at me_vaddr current (bk_maps s) = Some e \<and> current < me_vaddr e + me_size e"
        by (auto simp: FindContainingUnlocked_def split: option.splits if_splits)
      then have e: "e \<in> set (bk_maps s)" "me_vaddr e \<le> current" "current < me_vaddr e + me_size e"
        using last_at_covers [OF 1(2), of current e] by (auto simp: covers_def)
      let ?p = "min end1 (me_vaddr e + me_size e) - current"
      let ?m = "\<lparr>me_vaddr = current, me_size = ?p, me_backing_offset = me_backing_offset e + current - me_vaddr e, me_mode = me_mode e\<rparr>"
      have eq: "backing_parts current end1 s = map_option (\<lambda>ps. ?m # ps) (backing_parts (current + ?p) end1 s)"
        unfolding backing_parts.simps [of current end1 s] using True Some by (simp add: Let_def)
      note ih = 1(1) [OF True Some refl 1(2,3)]
      have p: "0 < ?p" "current + ?p \<le> end1" "current + ?p \<le> me_vaddr e + me_size e" using True e by auto
      have at: "offset_at (bk_maps s) a = Some (entry_view e a)" if "current \<le> a" "a < current + ?p" for a
        by (rule seen_at_mem [OF mo e(1)]) (use that e(2) p(3) in \<open>auto simp: covers_def\<close>)
      show ?thesis
      proof (cases "backing_parts (current + ?p) end1 s")
        case None
        then show ?thesis using ih unfolding eq None option.map option.case by (metis add_leE)
      next
        case (Some ps)
        have i: "ordered me_vaddr me_size ps"
          "\<forall>a. offset_at ps a = (if current + ?p \<le> a \<and> a < end1 then offset_at (bk_maps s) a else None)"
          "\<forall>a. current + ?p \<le> a \<and> a < end1 \<longrightarrow> offset_at (bk_maps s) a \<noteq> None"
          "\<forall>p\<in>set ps. current + ?p \<le> me_vaddr p \<and> me_vaddr p + me_size p \<le> end1 \<and>
            (\<exists>e\<in>set (bk_maps s). part_of end1 p e)"
          using ih unfolding Some option.case by blast+
        have "ordered me_vaddr me_size (?m # ps)" using i(1,4) p 1(3) by (auto simp: ordered_Cons)
        moreover have "offset_at (?m # ps) a = (if current \<le> a \<and> a < end1 then offset_at (bk_maps s) a else None)" for a
        proof (cases "current \<le> a \<and> a < current + ?p")
          case True
          then show ?thesis using at [of a] e(2) p(2) by (auto simp: entry_view_def)
        next
          case False
          then have "offset_at (?m # ps) a = offset_at ps a" by auto
          then show ?thesis using i(2) False p(1) by auto
        qed
        moreover have "offset_at (bk_maps s) a \<noteq> None" if "current \<le> a \<and> a < end1" for a
          using i(3) at [of a] that by (cases "a < current + ?p") auto
        moreover have "\<exists>e\<in>set (bk_maps s). part_of end1 ?m e"
          using e p by (intro bexI [of _ e]) (auto simp: part_of_def)
        ultimately show ?thesis unfolding eq Some option.map option.case using i(4) p by (auto dest: add_leE)
      qed
    qed
  qed
qed

text \<open>Taking out the view of a whole entry; it stays where the system call fails.\<close>

lemma UnmapOne_exact:
  assumes ok: "backing_ok s" and e: "e \<in> set (bk_maps s)"
  shows "\<exists>s' r. UnmapOne (Suc depth) (me_vaddr e) (me_size e) s = Inr (s', r) \<and> backing_ok s' \<and> views_only s s' \<and>
    (r \<longleftrightarrow> sp_answers s (length (sp_log s))) \<and> set (bk_maps s') = (if r then set (bk_maps s) - {e} else set (bk_maps s))"
proof -
  note d = backing_okD [OF ok]
  have pos: "0 < me_size e" using ordered_mem [OF d(1) e] by simp
  have la: "last_at me_vaddr (me_vaddr e) (bk_maps s) = Some e"
    using last_at_covers [OF d(1), of "me_vaddr e" e] e pos by (simp add: covers_def)
  note rm = ordered_remove [OF d(1) e]
  let ?s = "s\<lparr>bk_maps := remove1 e (bk_maps s)\<rparr>"
  obtain s1 unmapped where h: "host_do (Map_None (me_vaddr e) (me_size e)) ?s = (s1, unmapped)" by fastforce
  note hv = host_do_view [OF h]
  have f: "bk_maps s1 = remove1 e (bk_maps s)" "bk_size s1 = bk_size s" "bk_available s1 = bk_available s"
    "host_view ?s = host_view s" by (subst hv(2), simp)+ (simp add: host_view_def)
  have vo: "views_only s s1" unfolding views_only_def by (subst hv(2)) (simp add: f(1))
  show ?thesis
  proof (cases unmapped)
    case True
    have "host_view s1 = offset_at (bk_maps s1)"
      unfolding hv(1) f using True seen_at_remove [OF d(2) e rm(2) ordered_maps_ok [OF rm(1)], of entry_view] d(5)
      by (auto simp: fun_eq_iff covers_def)
    then have "backing_ok s1" using rm d(3,4) by (auto simp: backing_ok_def f RangeOk_def)
    moreover have "UnmapOne (Suc depth) (me_vaddr e) (me_size e) s = Inr (s1, True)"
      using la h True pos by simp
    ultimately show ?thesis using vo hv(3) True rm(2) f(1) by auto
  next
    case False
    have ap: "\<forall>c\<in>set (remove1 e (bk_maps s)). apart me_vaddr me_size e c"
    proof
      fix c
      assume c: "c \<in> set (remove1 e (bk_maps s))"
      show "apart me_vaddr me_size e c"
        by (rule apart_unseen [OF ordered_maps_ok [OF rm(1)] pos _ c, where view = entry_view])
          (simp add: seen_at_remove [OF d(2) e rm(2) ordered_maps_ok [OF rm(1)]])
    qed
    obtain maps where m: "emplace_by me_vaddr e (remove1 e (bk_maps s)) = Some maps" "ordered me_vaddr me_size maps"
      "set maps = insert e (set (remove1 e (bk_maps s)))"
      using emplace_by_ok [OF rm(1) pos _ ap] ordered_mem [OF d(1) e] by auto
    have set: "set maps = set (bk_maps s)" using m(3) rm(2) e by auto
    let ?t = "s1\<lparr>bk_maps := maps\<rparr>"
    have pb: "put_back e s1 = ?t" by (simp add: put_back_def f m(1))
    have "host_view ?t = offset_at maps"
    proof
      fix a
      have "host_view ?t a = offset_at (bk_maps s) a" using hv(1) f(4) False d(5) by (simp add: host_view_def)
      then show "host_view ?t a = offset_at maps a"
        using seen_at_same_set [OF d(2) ordered_maps_ok [OF m(2)] set [symmetric]] by simp
    qed
    then have "backing_ok ?t" using m(2) set d(3,4) by (auto simp: backing_ok_def f RangeOk_def)
    moreover have "UnmapOne (Suc depth) (me_vaddr e) (me_size e) s = Inr (?t, False)"
      using la h False pos pb by simp
    moreover have "views_only s ?t" unfolding views_only_def by (subst hv(2)) simp
    ultimately show ?thesis using hv(3) False set by auto
  qed
qed

lemma offset_set:
  "backing_ok s \<Longrightarrow> backing_ok t \<Longrightarrow> set (bk_maps s) = set (bk_maps t) \<Longrightarrow> offset_at (bk_maps s) a = offset_at (bk_maps t) a"
  using seen_at_same_set backing_okD(2) by metis

lemma contains_entry:
  assumes "backing_ok s" "e \<in> set (bk_maps s)"
  shows "BackingContains (me_vaddr e) (me_size e) s"
proof -
  note d = backing_okD [OF assms(1)]
  have e: "0 < me_size e" "me_vaddr e + me_size e \<le> UINT64_MAX" using ordered_mem [OF d(1) assms(2)] by auto
  have "offset_at (bk_maps s) a \<noteq> None" if "me_vaddr e \<le> a" "a < me_vaddr e + me_size e" for a
    using seen_at_mem [OF d(2) assms(2), of a entry_view] that by (simp add: covers_def)
  then have "backing_parts (me_vaddr e) (me_vaddr e + me_size e) s \<noteq> None"
    using backing_parts_ok [OF d(1) e(2), of "me_vaddr e"] by (fastforce split: option.splits)
  then show ?thesis using e by (auto simp: BackingContains_def)
qed

lemma not_contains:
  assumes "backing_ok s" "offset_at (bk_maps s) vaddr = None"
  shows "\<not> BackingContains vaddr bytes s"
proof (cases "bytes = 0 \<or> UINT64_MAX - vaddr < bytes")
  case False
  then have "vaddr + bytes \<le> UINT64_MAX" "vaddr < vaddr + bytes" by auto
  then have "backing_parts vaddr (vaddr + bytes) s = None"
    using backing_parts_ok [OF backing_okD(1) [OF assms(1)], of "vaddr + bytes" vaddr] assms(2) by (auto split: option.splits)
  then show ?thesis by (simp add: BackingContains_def)
qed (simp add: BackingContains_def)

lemma optional_map:
  assumes ok: "backing_ok s" and v: "vaddr + n \<le> UINT64_MAX" "n \<noteq> 0 \<Longrightarrow> RangeOk offset n s"
    and none: "\<And>a. vaddr \<le> a \<Longrightarrow> a < vaddr + n \<Longrightarrow> offset_at (bk_maps s) a = None"
  shows "\<exists>s' r. (if n \<noteq> 0 then MapExistingPlaceholderFixed vaddr n offset mode s else Inr (s, True)) = Inr (s', r) \<and>
    backing_ok s' \<and> views_only s s' \<and> ((\<forall>k. sp_answers s k) \<longrightarrow> r) \<and>
    set (bk_maps s') = (if r \<and> n \<noteq> 0
      then insert \<lparr>me_vaddr = vaddr, me_size = n, me_backing_offset = offset, me_mode = mode\<rparr> (set (bk_maps s)) else set (bk_maps s)) \<and>
    (\<forall>a. offset_at (bk_maps s') a =
      (if r \<and> vaddr \<le> a \<and> a < vaddr + n then Some (offset + (a - vaddr)) else offset_at (bk_maps s) a))"
proof (cases "n = 0")
  case False
  obtain s' r where m: "MapExistingPlaceholderFixed vaddr n offset mode s = Inr (s', r)" "backing_ok s'" "views_only s s'"
    "r \<longleftrightarrow> RangeOk offset n s \<and> sp_answers s (length (sp_log s))"
    "set (bk_maps s') = (if r then insert \<lparr>me_vaddr = vaddr, me_size = n, me_backing_offset = offset, me_mode = mode\<rparr> (set (bk_maps s))
      else set (bk_maps s))"
    "\<forall>a. offset_at (bk_maps s') a =
      (if r \<and> vaddr \<le> a \<and> a < vaddr + n then Some (offset + (a - vaddr)) else offset_at (bk_maps s) a)"
    using MapExisting_ok [OF ok v(1) none, of offset mode] by blast
  have "(if n \<noteq> 0 then MapExistingPlaceholderFixed vaddr n offset mode s else Inr (s, True)) = Inr (s', r)" using m(1) False by simp
  moreover have "(\<forall>k. sp_answers s k) \<longrightarrow> r" using m(4) v(2) [OF False] by blast
  moreover have "set (bk_maps s') = (if r \<and> n \<noteq> 0
      then insert \<lparr>me_vaddr = vaddr, me_size = n, me_backing_offset = offset, me_mode = mode\<rparr> (set (bk_maps s)) else set (bk_maps s))"
    using m(5) False by simp
  ultimately show ?thesis using m(2,3,6) by blast
next
  case True
  then show ?thesis using ok by (intro exI [of _ s] exI [of _ True]) auto
qed

declare UnmapOne.simps [simp del]

text \<open>Taking out an entry that is there, or nothing where its address has none.\<close>

lemma optional_unmap:
  assumes ok: "backing_ok s" and e: "e \<in> set (bk_maps s) \<or> me_size e = 0 \<or> offset_at (bk_maps s) (me_vaddr e) = None"
  shows "case (if me_size e \<noteq> 0 \<and> BackingContains (me_vaddr e) (me_size e) s
      then bind_outcome (UnmapOne (Suc depth) (me_vaddr e) (me_size e) s) (\<lambda>(s, r). exit_if (\<not> r) (Inr s)) else Inr s) of
      Inl x \<Rightarrow> True
    | Inr s' \<Rightarrow> backing_ok s' \<and> views_only s s' \<and> set (bk_maps s') = set (bk_maps s) - {e}"
proof (cases "e \<in> set (bk_maps s)")
  case True
  have "0 < me_size e" using ordered_mem [OF backing_okD(1) [OF ok] True] by simp
  moreover obtain s' r where "UnmapOne (Suc depth) (me_vaddr e) (me_size e) s = Inr (s', r)" "backing_ok s'" "views_only s s'"
    "set (bk_maps s') = (if r then set (bk_maps s) - {e} else set (bk_maps s))" using UnmapOne_exact [OF ok True] by blast
  ultimately show ?thesis using contains_entry [OF ok True] by (cases r) simp_all
next
  case False
  then have no: "(me_size e \<noteq> 0 \<and> BackingContains (me_vaddr e) (me_size e) s) = False"
    using e not_contains [OF ok, of "me_vaddr e" "me_size e"] by auto
  show ?thesis unfolding no if_False sum.case using ok False by simp
qed

text \<open>
  Taking a part out of an entry is all or nothing: the call either takes exactly the part out, or fails and leaves every
  address as it was, or the process ends because not even the way back succeeded.
\<close>

definition unmapped_part :: "nat \<Rightarrow> nat \<Rightarrow> space \<Rightarrow> (space \<times> bool) outcome \<Rightarrow> bool" where
  "unmapped_part vaddr bytes s res \<longleftrightarrow>
     (case res of
        Inl x \<Rightarrow> \<not> (\<forall>k. sp_answers s k)
      | Inr (s', r) \<Rightarrow> backing_ok s' \<and> views_only s s' \<and> ((\<forall>k. sp_answers s k) \<longrightarrow> r) \<and>
          (r \<longrightarrow> (\<forall>e\<in>set (bk_maps s). me_vaddr e + me_size e \<le> vaddr \<or> vaddr + bytes \<le> me_vaddr e \<longrightarrow> e \<in> set (bk_maps s'))) \<and>
          (\<forall>a. offset_at (bk_maps s') a =
            (if r \<and> vaddr \<le> a \<and> a < vaddr + bytes then None else offset_at (bk_maps s) a)))"

lemma optional_insert_Diff: "x \<notin> A \<Longrightarrow> (if b then insert x A else A) - {x} = A"
  by simp

lemma two_removed: "A - {x} = B \<Longrightarrow> B - {y} = C \<Longrightarrow> A - {y} - {x} = C"
  by auto

lemma RangeOk_part: "RangeOk offset n s \<Longrightarrow> k + m \<le> n \<Longrightarrow> 0 < m \<Longrightarrow> RangeOk (offset + k) m s"
  by (auto simp: RangeOk_def)

lemma UnmapOne_ok:
  assumes ok: "backing_ok s" and old: "old \<in> set (bk_maps s)" "me_vaddr old \<le> vaddr" "vaddr + bytes \<le> me_vaddr old + me_size old"
    and bytes: "0 < bytes"
  shows "unmapped_part vaddr bytes s (UnmapOne (Suc (Suc depth)) vaddr bytes s)"
proof -
  note d = backing_okD [OF ok]
  let ?v = "me_vaddr old" and ?n = "me_size old" and ?o = "me_backing_offset old" and ?m = "me_mode old"
  have n: "0 < ?n" "?v + ?n \<le> UINT64_MAX" "RangeOk ?o ?n s" using ordered_mem [OF d(1) old(1)] d(3) [OF old(1)] by simp_all
  have at: "offset_at (bk_maps s) a = Some (?o + (a - ?v))" if "?v \<le> a" "a < ?v + ?n" for a
    using seen_at_mem [OF d(2) old(1), of a entry_view] that by (simp add: covers_def entry_view_def)
  show ?thesis
  proof (cases "vaddr = ?v \<and> bytes = ?n")
    case True
    then obtain s' r where u: "UnmapOne (Suc (Suc depth)) vaddr bytes s = Inr (s', r)" "backing_ok s'" "views_only s s'"
      "r \<longleftrightarrow> sp_answers s (length (sp_log s))" "set (bk_maps s') = (if r then set (bk_maps s) - {old} else set (bk_maps s))"
      using UnmapOne_exact [OF ok old(1), of "Suc depth"] by auto
    have "offset_at (bk_maps s') a = (if r \<and> vaddr \<le> a \<and> a < vaddr + bytes then None else offset_at (bk_maps s) a)" for a
      using seen_at_remove [OF d(2) old(1), of "bk_maps s'" entry_view a] u(5) backing_okD(2) [OF u(2)]
        offset_set [OF u(2) ok] True by (cases r) (auto simp: covers_def)
    then show ?thesis using u True n(1) by (auto simp: unmapped_part_def)
  next
    case part: False
    have la: "last_at me_vaddr vaddr (bk_maps s) = Some old"
      using last_at_covers [OF d(1), of vaddr old] old bytes by (simp add: covers_def)
    obtain s1 r1 where u1: "UnmapOne (Suc depth) ?v ?n s = Inr (s1, r1)" "backing_ok s1" "views_only s s1"
      "r1 \<longleftrightarrow> sp_answers s (length (sp_log s))" "set (bk_maps s1) = (if r1 then set (bk_maps s) - {old} else set (bk_maps s))"
      using UnmapOne_exact [OF ok old(1), of depth] by auto
    obtain s0 r0 where h: "host_do (Map_None ?v ?n) (s\<lparr>bk_maps := remove1 old (bk_maps s)\<rparr>) = (s0, r0)" by fastforce
    have la': "last_at me_vaddr ?v (bk_maps s) = Some old"
      using last_at_covers [OF d(1), of ?v old] old n(1) by (simp add: covers_def)
    have s1: "s1 = (if r0 then s0 else put_back old s0)" "r1 = r0"
      using u1(1) la' n(1) h by (auto simp: UnmapOne.simps(2) split: if_splits)
    show ?thesis
    proof (cases r0)
      case False
      then have "UnmapOne (Suc (Suc depth)) vaddr bytes s = Inr (s1, False)"
        using la old(3) n(1) h s1 by (simp add: UnmapOne.simps(2))
      moreover have "offset_at (bk_maps s1) a = offset_at (bk_maps s) a" for a
        by (rule offset_set [OF u1(2) ok]) (use u1(5) s1 False in simp)
      ultimately show ?thesis using u1 s1 False by (auto simp: unmapped_part_def)
    next
      case r0: True
      have at1: "offset_at (bk_maps s1) a = (if ?v \<le> a \<and> a < ?v + ?n then None else offset_at (bk_maps s) a)" for a
        using seen_at_remove [OF d(2) old(1), of "bk_maps s1" entry_view a] u1(5) backing_okD(2) [OF u1(2)] s1(2) r0
        by (simp add: covers_def)
      note f1 = views_only_fields [OF u1(3)]
      let ?l = "vaddr - ?v" and ?ra = "vaddr + bytes"
      let ?r = "?v + ?n - ?ra"
      let ?el = "\<lparr>me_vaddr = ?v, me_size = ?l, me_backing_offset = ?o, me_mode = ?m\<rparr>"
      let ?er = "\<lparr>me_vaddr = ?ra, me_size = ?r, me_backing_offset = ?o + (?ra - ?v), me_mode = ?m\<rparr>"
      have ro1: "RangeOk (?o + k) m s1" if "k + m \<le> ?n" "0 < m" for k m
        using RangeOk_part [OF n(3) that] f1(3) by (simp add: RangeOk_def)
      have ro: "RangeOk ?o ?l s1" if "?l \<noteq> 0" using ro1 [of 0 ?l] that old by simp
      have le1: "?v + ?l \<le> UINT64_MAX" using old bytes n(2) by simp
      have free1: "offset_at (bk_maps s1) a = None" if "?v \<le> a" "a < ?v + ?l" for a using at1 that old by simp
      obtain s2 r2 where m2: "(if ?l \<noteq> 0 then MapExistingPlaceholderFixed ?v ?l ?o ?m s1 else Inr (s1, True)) = Inr (s2, r2)"
        "backing_ok s2" "views_only s1 s2" "(\<forall>k. sp_answers s1 k) \<longrightarrow> r2"
        "set (bk_maps s2) = (if r2 \<and> ?l \<noteq> 0 then insert ?el (set (bk_maps s1)) else set (bk_maps s1))"
        "\<forall>a. offset_at (bk_maps s2) a = (if r2 \<and> ?v \<le> a \<and> a < ?v + ?l then Some (?o + (a - ?v)) else offset_at (bk_maps s1) a)"
        using optional_map [OF u1(2) le1 ro free1, of ?m] by blast
      note f2 = views_only_fields [OF m2(3)]
      have ror: "RangeOk (?o + (?ra - ?v)) ?r s2" if "?r \<noteq> 0"
        using ro1 [of "?ra - ?v" ?r] that old f2(3) by (simp add: RangeOk_def)
      have free2: "offset_at (bk_maps s2) a = None" if "?ra \<le> a" "a < ?ra + ?r" for a
        using m2(6) at1 [of a] that old bytes by auto
      have le2: "?ra + ?r \<le> UINT64_MAX" using old n(2) by simp
      obtain s3 r3 where m3: "(if ?r \<noteq> 0 then MapExistingPlaceholderFixed ?ra ?r (?o + (?ra - ?v)) ?m s2 else Inr (s2, True)) = Inr (s3, r3)"
        "backing_ok s3" "views_only s2 s3" "(\<forall>k. sp_answers s2 k) \<longrightarrow> r3"
        "set (bk_maps s3) = (if r3 \<and> ?r \<noteq> 0 then insert ?er (set (bk_maps s2)) else set (bk_maps s2))"
        "\<forall>a. offset_at (bk_maps s3) a = (if r3 \<and> ?ra \<le> a \<and> a < ?ra + ?r then Some (?o + (?ra - ?v) + (a - ?ra)) else offset_at (bk_maps s2) a)"
        using optional_map [OF m2(2) le2 ror free2, of ?m] by blast
      have vo3: "views_only s s3" using views_only_trans u1(3) m2(3) m3(3) by blast
      let ?undo = "bind_outcome
          (if ?l \<noteq> 0 \<and> BackingContains ?v ?l s3
           then bind_outcome (UnmapOne (Suc depth) ?v ?l s3) (\<lambda>(s, r). exit_if (\<not> r) (Inr s)) else Inr s3)
        (\<lambda>s. bind_outcome
          (if ?r \<noteq> 0 \<and> BackingContains ?ra ?r s
           then bind_outcome (UnmapOne (Suc depth) ?ra ?r s) (\<lambda>(s, r). exit_if (\<not> r) (Inr s)) else Inr s)
        (\<lambda>s. bind_outcome (MapExistingPlaceholderFixed ?v ?n ?o ?m s) (\<lambda>(s, r). exit_if (\<not> r) (Inr (s, False)))))"
      have c: "(\<not> vaddr + bytes \<le> ?v + ?n \<or> ?n = 0) = False" "(vaddr = ?v \<and> bytes = ?n) = False" "(\<not> True) = False"
        using old(3) n(1) part by auto
      have L: "(if ?l \<noteq> 0 then MapExistingPlaceholderFixed ?v ?l ?o ?m s0 else Inr (s0, True)) = Inr (s2, r2)"
        using m2(1) unfolding s1(1) if_P [OF r0] .
      have R: "(if ?r \<noteq> 0 then bind_outcome (MapExistingPlaceholderFixed ?ra ?r (?o + (?ra - ?v)) ?m s2) (\<lambda>(s, r). Inr (s, r \<and> r2))
          else Inr (s2, r2)) = Inr (s3, r3 \<and> r2)"
        using m3(1) by (cases "?r = 0") auto
      have res: "UnmapOne (Suc (Suc depth)) vaddr bytes s = (if r3 \<and> r2 then Inr (s3, True) else ?undo)"
        unfolding UnmapOne.simps(2) [of "Suc depth"] la option.case h prod.case c if_False Let_def L bind_outcome.simps R
          eqTrueI [OF r0] not_True_eq_False if_False ..
      show ?thesis
      proof (cases "r3 \<and> r2")
        case True
        have "offset_at (bk_maps s3) a = (if vaddr \<le> a \<and> a < vaddr + bytes then None else offset_at (bk_maps s) a)" for a
        proof (cases "?v \<le> a \<and> a < ?v + ?n")
          case in_old: True
          then show ?thesis using m3(6) m2(6) at1 [of a] at [of a] old bytes True by (auto split: if_splits)
        next
          case False
          then show ?thesis using m3(6) m2(6) at1 [of a] old bytes True by auto
        qed
        moreover have "e \<in> set (bk_maps s3)" if "e \<in> set (bk_maps s)" "me_vaddr e + me_size e \<le> vaddr \<or> ?ra \<le> me_vaddr e" for e
          using that m3(5) m2(5) u1(5) s1(2) r0 old bytes by auto
        ultimately show ?thesis using True m3(2) vo3 by (simp add: unmapped_part_def res)
      next
        case False
        have ans: "\<not> (\<forall>k. sp_answers s k)" using False m2(4) m3(4) f1(1) f2(1) by auto
        have none1: "offset_at (bk_maps s1) a = None" if "?v \<le> a" "a < ?v + ?n" for a using at1 [of a] that by simp
        have new: "e \<notin> set (bk_maps s1)" if "?v \<le> me_vaddr e" "me_vaddr e + me_size e \<le> ?v + ?n" for e
        proof
          assume e: "e \<in> set (bk_maps s1)"
          then have "0 < me_size e" using ordered_mem [OF backing_okD(1) [OF u1(2)]] by simp
          then have "offset_at (bk_maps s1) (me_vaddr e) = Some (entry_view e (me_vaddr e))"
            by (intro seen_at_mem [OF backing_okD(2) [OF u1(2)] e]) (simp add: covers_def)
          then show False using none1 [of "me_vaddr e"] that \<open>0 < me_size e\<close> by simp
        qed
        have fresh: "?el \<notin> set (bk_maps s1)" "?er \<notin> set (bk_maps s1)" using new [of ?el] new [of ?er] old by simp_all
        have l3: "?el \<in> set (bk_maps s3) \<or> me_size ?el = 0 \<or> offset_at (bk_maps s3) (me_vaddr ?el) = None"
        proof (cases "r2 \<and> ?l \<noteq> 0")
          case True
          then show ?thesis using m2(5) m3(5) by auto
        next
          case False
          then show ?thesis using m3(6) m2(6) none1 [of ?v] n(1) old bytes by auto
        qed
        note b1 = optional_unmap [OF m3(2) l3, of depth, unfolded map_entry.simps]
        show ?thesis
        proof (cases "if ?l \<noteq> 0 \<and> BackingContains ?v ?l s3
           then bind_outcome (UnmapOne (Suc depth) ?v ?l s3) (\<lambda>(s, r). exit_if (\<not> r) (Inr s)) else Inr s3")
          case (Inl x)
          then have "?undo = Inl x" by (simp only: bind_outcome.simps)
          then show ?thesis using False ans res by (simp only: if_False unmapped_part_def sum.case not_False_eq_True)
        next
          case i4: (Inr s4)
          have s4: "backing_ok s4" "views_only s3 s4" "set (bk_maps s4) = set (bk_maps s3) - {?el}"
            using b1 unfolding i4 sum.case by blast+
          have r4: "?er \<in> set (bk_maps s4) \<or> me_size ?er = 0 \<or> offset_at (bk_maps s4) (me_vaddr ?er) = None"
          proof (cases "r3 \<and> ?r \<noteq> 0")
            case True
            then have "?er \<in> set (bk_maps s3)" "?er \<noteq> ?el" using m3(5) old bytes by simp_all
            then show ?thesis using s4(3) by blast
          next
            case no: False
            show ?thesis
            proof (cases "?r = 0")
              case False
              have "set (bk_maps s4) = set (bk_maps s1)" using s4(3) m2(5) m3(5) no fresh(1) by auto
              then have "offset_at (bk_maps s4) ?ra = offset_at (bk_maps s1) ?ra" by (rule offset_set [OF s4(1) u1(2)])
              then show ?thesis using none1 [of ?ra] False old by simp
            qed simp
          qed
          note b2 = optional_unmap [OF s4(1) r4, of depth, unfolded map_entry.simps]
          show ?thesis
          proof (cases "if ?r \<noteq> 0 \<and> BackingContains ?ra ?r s4
             then bind_outcome (UnmapOne (Suc depth) ?ra ?r s4) (\<lambda>(s, r). exit_if (\<not> r) (Inr s)) else Inr s4")
            case (Inl x)
            then have "?undo = Inl x" by (simp only: bind_outcome.simps i4)
            then show ?thesis using False ans res by (simp only: if_False unmapped_part_def sum.case not_False_eq_True)
          next
            case i5: (Inr s5)
            have s5: "backing_ok s5" "views_only s4 s5" "set (bk_maps s5) = set (bk_maps s4) - {?er}"
              using b2 unfolding i5 sum.case by blast+
            have "?er \<noteq> ?el" using old bytes by simp
            then have "?er \<notin> set (bk_maps s2)" unfolding m2(5) using fresh(2) by (auto simp only: insert_iff split: if_splits)
            then have "set (bk_maps s3) - {?er} = set (bk_maps s2)" unfolding m3(5) by (rule optional_insert_Diff)
            moreover have "set (bk_maps s2) - {?el} = set (bk_maps s1)" unfolding m2(5) by (rule optional_insert_Diff [OF fresh(1)])
            ultimately have "set (bk_maps s5) = set (bk_maps s1)" unfolding s5(3) s4(3) by (rule two_removed)
            then have at5: "offset_at (bk_maps s5) a = offset_at (bk_maps s1) a" for a by (rule offset_set [OF s5(1) u1(2)])
            obtain s6 r6 where m6: "MapExistingPlaceholderFixed ?v ?n ?o ?m s5 = Inr (s6, r6)" "backing_ok s6" "views_only s5 s6"
              "\<forall>a. offset_at (bk_maps s6) a = (if r6 \<and> ?v \<le> a \<and> a < ?v + ?n then Some (?o + (a - ?v)) else offset_at (bk_maps s5) a)"
              using MapExisting_ok [OF s5(1) n(2), of ?o ?m] none1 at5 by auto
            have bk: "?undo = exit_if (\<not> r6) (Inr (s6, False))" by (simp only: bind_outcome.simps i4 i5 m6(1) prod.case)
            show ?thesis
            proof (cases r6)
              case no: False
              then have "?undo = Inl EXIT" using bk by simp
              then show ?thesis using False ans res by (simp only: if_False unmapped_part_def sum.case not_False_eq_True)
            next
              case yes: True
              then have "?undo = Inr (s6, False)" using bk by simp
              then have out: "UnmapOne (Suc (Suc depth)) vaddr bytes s = Inr (s6, False)" using res False by (simp only: if_False)
              have "views_only s s6" using views_only_trans vo3 s4(2) s5(2) m6(3) by blast
              moreover have "offset_at (bk_maps s6) a = offset_at (bk_maps s) a" for a
                using m6(4) yes at5 [of a] at1 [of a] at [of a] by auto
              ultimately show ?thesis using m6(2) ans by (simp add: unmapped_part_def out)
            qed
          qed
        qed
      qed
    qed
  qed
qed

text \<open>
  The parts taken out so far, as the way back puts them in again: apart from each other, gone from the map, and each a
  part of the views there were at first.
\<close>

definition gone :: "space \<Rightarrow> map_entry list \<Rightarrow> space \<Rightarrow> bool" where
  "gone s0 ps s \<longleftrightarrow>
     maps_ok me_vaddr me_size ps \<and> (\<forall>p\<in>set ps. RangeOk (me_backing_offset p) (me_size p) s) \<and>
     (\<forall>p\<in>set ps. \<forall>a. covers me_vaddr me_size p a \<longrightarrow> offset_at (bk_maps s0) a = Some (entry_view p a)) \<and>
     (\<forall>a. offset_at (bk_maps s) a = (if \<exists>p\<in>set ps. covers me_vaddr me_size p a then None else offset_at (bk_maps s0) a))"

lemma remap_all_ok:
  assumes "backing_ok s" "gone s0 ps s"
  shows "case remap_all ps s of
      Inl x \<Rightarrow> \<not> (\<forall>k. sp_answers s k)
    | Inr s' \<Rightarrow> backing_ok s' \<and> views_only s s' \<and> (\<forall>a. offset_at (bk_maps s') a = offset_at (bk_maps s0) a)"
  using assms
proof (induction ps arbitrary: s)
  case Nil
  then show ?case by (simp add: gone_def)
next
  case (Cons p ps)
  note g = Cons.prems(2)[unfolded gone_def]
  have p: "me_vaddr p + me_size p \<le> UINT64_MAX" "RangeOk (me_backing_offset p) (me_size p) s" "maps_ok me_vaddr me_size ps"
    "\<forall>q\<in>set ps. apart me_vaddr me_size p q" using g by (auto simp: maps_ok_Cons)
  have none: "offset_at (bk_maps s) a = None" if "me_vaddr p \<le> a" "a < me_vaddr p + me_size p" for a
    using g that by (auto simp: covers_def)
  obtain s1 r where m: "MapExistingPlaceholderFixed (me_vaddr p) (me_size p) (me_backing_offset p) (me_mode p) s = Inr (s1, r)"
    "backing_ok s1" "views_only s s1" "r \<longleftrightarrow> RangeOk (me_backing_offset p) (me_size p) s \<and> sp_answers s (length (sp_log s))"
    "\<forall>a. offset_at (bk_maps s1) a = (if r \<and> me_vaddr p \<le> a \<and> a < me_vaddr p + me_size p then Some (me_backing_offset p + (a - me_vaddr p))
      else offset_at (bk_maps s) a)"
    using MapExisting_ok [OF Cons.prems(1) p(1) none] by blast
  note f = views_only_fields [OF m(3)]
  show ?case
  proof (cases r)
    case False
    then show ?thesis using m(1,4) p(2) by auto
  next
    case True
    have "offset_at (bk_maps s1) a = (if \<exists>q\<in>set ps. covers me_vaddr me_size q a then None else offset_at (bk_maps s0) a)" for a
    proof (cases "covers me_vaddr me_size p a")
      case in_p: True
      then have "\<not> covers me_vaddr me_size q a" if "q \<in> set ps" for q using p(4) that by (auto simp: covers_def apart_def)
      moreover have "offset_at (bk_maps s0) a = Some (entry_view p a)" using g in_p by simp
      ultimately show ?thesis using m(5) True in_p by (auto simp: covers_def entry_view_def)
    next
      case False
      then have "offset_at (bk_maps s1) a = offset_at (bk_maps s) a" using m(5) by (auto simp: covers_def)
      then show ?thesis using g False by simp
    qed
    then have "gone s0 ps s1" using g p(3) f(3) by (simp add: gone_def RangeOk_def)
    from Cons.IH [OF m(2) this] show ?thesis using m(1,3) True f(1) by (auto split: sum.splits intro: views_only_trans)
  qed
qed

text \<open>Entries to be taken out yet: each a part of an entry that is there, no two of one entry.\<close>

definition to_go :: "map_entry list \<Rightarrow> space \<Rightarrow> bool" where
  "to_go ps s \<longleftrightarrow> ordered me_vaddr me_size ps \<and>
     (\<forall>p\<in>set ps. \<exists>e\<in>set (bk_maps s). me_vaddr e \<le> me_vaddr p \<and> me_vaddr p + me_size p \<le> me_vaddr e + me_size e \<and>
        me_backing_offset p = me_backing_offset e + (me_vaddr p - me_vaddr e) \<and>
        (\<forall>q\<in>set ps. q = p \<or> apart me_vaddr me_size q e))"

lemma unmap_all_ok:
  assumes "backing_ok s" "gone s0 removed s" "to_go ps s" "\<forall>p\<in>set ps. \<forall>q\<in>set removed. apart me_vaddr me_size p q"
  shows "case unmap_all removed ps s of
      Inl x \<Rightarrow> \<not> (\<forall>k. sp_answers s k)
    | Inr (s', r) \<Rightarrow> backing_ok s' \<and> views_only s s' \<and> ((\<forall>k. sp_answers s k) \<longrightarrow> r) \<and>
        (\<forall>a. offset_at (bk_maps s') a =
          (if r \<and> (\<exists>p\<in>set ps \<union> set removed. covers me_vaddr me_size p a) then None else offset_at (bk_maps s0) a))"
  using assms
proof (induction ps arbitrary: removed s)
  case Nil
  then show ?case by (simp add: gone_def)
next
  case (Cons p ps)
  note g = Cons.prems(2)[unfolded gone_def] and t = Cons.prems(3)[unfolded to_go_def]
  obtain e where e: "e \<in> set (bk_maps s)" "me_vaddr e \<le> me_vaddr p" "me_vaddr p + me_size p \<le> me_vaddr e + me_size e"
    "me_backing_offset p = me_backing_offset e + (me_vaddr p - me_vaddr e)" using t by auto
  have p: "0 < me_size p" "me_vaddr p + me_size p \<le> UINT64_MAX" "ordered me_vaddr me_size ps"
    "\<forall>q\<in>set ps. me_vaddr p + me_size p \<le> me_vaddr q" using t by (auto simp: ordered_Cons)
  note d = backing_okD [OF Cons.prems(1)]
  have up: "unmapped_part (me_vaddr p) (me_size p) s (UnmapOne 2 (me_vaddr p) (me_size p) s)"
    using UnmapOne_ok [OF Cons.prems(1) e(1-3) p(1), of 0] by (simp add: numeral_2_eq_2)
  show ?case
  proof (cases "UnmapOne 2 (me_vaddr p) (me_size p) s")
    case (Inl x)
    then show ?thesis using up by (simp add: unmapped_part_def)
  next
    case (Inr sr)
    obtain s1 r where sr: "sr = (s1, r)" by (cases sr)
    have u: "backing_ok s1" "views_only s s1" "(\<forall>k. sp_answers s k) \<longrightarrow> r"
      "r \<longrightarrow> (\<forall>e\<in>set (bk_maps s). me_vaddr e + me_size e \<le> me_vaddr p \<or> me_vaddr p + me_size p \<le> me_vaddr e \<longrightarrow> e \<in> set (bk_maps s1))"
      "\<And>a. offset_at (bk_maps s1) a =
        (if r \<and> me_vaddr p \<le> a \<and> a < me_vaddr p + me_size p then None else offset_at (bk_maps s) a)"
      using up unfolding Inr sr unmapped_part_def sum.case prod.case by blast+
    note f = views_only_fields [OF u(2)]
    show ?thesis
    proof (cases r)
      case False
      then have "gone s0 removed s1" using g u(5) f(3) by (simp add: gone_def RangeOk_def)
      from remap_all_ok [OF u(1) this] show ?thesis
        using Inr sr False u(2,3) f(1) by (auto split: sum.splits intro: views_only_trans)
    next
      case True
      have at: "offset_at (bk_maps s0) a = Some (entry_view p a)" if "covers me_vaddr me_size p a" for a
      proof -
        have "offset_at (bk_maps s) a = Some (entry_view e a)"
          by (rule seen_at_mem [OF d(2) e(1)]) (use that e in \<open>auto simp: covers_def\<close>)
        moreover have "entry_view e a = entry_view p a" using e that by (auto simp: entry_view_def covers_def)
        ultimately show ?thesis using g by (auto split: if_splits)
      qed
      have "RangeOk (me_backing_offset p) (me_size p) s1"
        using RangeOk_part [OF d(3) [OF e(1)], of "me_vaddr p - me_vaddr e" "me_size p"] e p(1) f(3) by (simp add: RangeOk_def)
      moreover have "\<forall>q\<in>set removed. apart me_vaddr me_size p q" using Cons.prems(4) by simp
      ultimately have g1: "gone s0 (p # removed) s1" using g u(5) True at p(1,2) f(3) by (auto simp: gone_def RangeOk_def maps_ok_Cons covers_def)
      have t1: "to_go ps s1"
        unfolding to_go_def
      proof (intro conjI ballI)
        show "ordered me_vaddr me_size ps" by (rule p(3))
        fix q assume q: "q \<in> set ps"
        then obtain eq where eq: "eq \<in> set (bk_maps s)" "me_vaddr eq \<le> me_vaddr q" "me_vaddr q + me_size q \<le> me_vaddr eq + me_size eq"
          "me_backing_offset q = me_backing_offset eq + (me_vaddr q - me_vaddr eq)"
          "\<forall>x\<in>set (p # ps). x = q \<or> apart me_vaddr me_size x eq" using t by fastforce
        have "p \<noteq> q" using p(1,4) q by fastforce
        then have "eq \<in> set (bk_maps s1)" using u(4) True eq(1,5) by (auto simp: apart_def)
        then show "\<exists>e\<in>set (bk_maps s1). me_vaddr e \<le> me_vaddr q \<and> me_vaddr q + me_size q \<le> me_vaddr e + me_size e \<and>
          me_backing_offset q = me_backing_offset e + (me_vaddr q - me_vaddr e) \<and> (\<forall>x\<in>set ps. x = q \<or> apart me_vaddr me_size x e)"
          using eq by auto
      qed
      have "\<forall>q\<in>set ps. \<forall>x\<in>set (p # removed). apart me_vaddr me_size q x"
        using Cons.prems(4) p(4) by (auto simp: apart_def)
      note ih = Cons.IH [OF u(1) g1 t1 this]
      have eq: "unmap_all removed (p # ps) s = unmap_all (p # removed) ps s1" using Inr sr True by simp
      have un: "set ps \<union> set (p # removed) = set (p # ps) \<union> set removed" by simp
      show ?thesis
      proof (cases "unmap_all (p # removed) ps s1")
        case (Inl x)
        then show ?thesis using ih f(1) eq by simp
      next
        case (Inr sr)
        obtain s2 r2 where sr: "sr = (s2, r2)" by (cases sr)
        show ?thesis using ih views_only_trans [OF u(2), of s2] unfolding eq Inr sr sum.case prod.case un f(1) by blast
      qed
    qed
  qed
qed

lemma to_go_parts:
  assumes ok: "backing_ok s" and v: "end1 \<le> UINT64_MAX" and ps: "backing_parts current end1 s = Some ps"
  shows "to_go ps s"
proof -
  note d = backing_okD [OF ok]
  have b: "ordered me_vaddr me_size ps" "\<forall>p\<in>set ps. me_vaddr p + me_size p \<le> end1 \<and> (\<exists>e\<in>set (bk_maps s). part_of end1 p e)"
    using backing_parts_ok [OF d(1) v, of current] ps by simp_all
  have "\<exists>e\<in>set (bk_maps s). me_vaddr e \<le> me_vaddr p \<and> me_vaddr p + me_size p \<le> me_vaddr e + me_size e \<and>
    me_backing_offset p = me_backing_offset e + (me_vaddr p - me_vaddr e) \<and> (\<forall>q\<in>set ps. q = p \<or> apart me_vaddr me_size q e)"
    if p: "p \<in> set ps" for p
  proof -
    obtain e where e: "e \<in> set (bk_maps s)" "part_of end1 p e" using b(2) p by auto
    have "apart me_vaddr me_size q e" if q: "q \<in> set ps" "q \<noteq> p" for q
    proof (rule ccontr)
      assume no: "\<not> apart me_vaddr me_size q e"
      obtain eq where eq: "eq \<in> set (bk_maps s)" "part_of end1 q eq" using b(2) q by auto
      have pos: "0 < me_size q" "0 < me_size e" "0 < me_size p"
        using ordered_mem [OF b(1)] ordered_mem [OF d(1)] q(1) e(1) p by simp_all
      obtain a where "covers me_vaddr me_size q a" "covers me_vaddr me_size e a" using not_apart_common [OF no pos(1,2)] by auto
      then have "eq = e" using seen_at_unique [OF d(2) eq(1) e(1), of a] eq(2) by (auto simp: covers_def part_of_def)
      moreover have "apart me_vaddr me_size q p"
      proof (rule ccontr)
        assume "\<not> apart me_vaddr me_size q p"
        then show False using not_apart_common [of me_vaddr me_size q p] pos seen_at_unique [OF ordered_maps_ok [OF b(1)] q(1) p] q(2)
          by blast
      qed
      moreover have "me_vaddr q + me_size q \<le> end1" "me_vaddr p + me_size p \<le> end1" using b(2) q(1) p by auto
      ultimately show False using e(2) eq(2) pos by (auto simp: apart_def part_of_def)
    qed
    then show ?thesis using e by (intro bexI [of _ e]) (auto simp: part_of_def)
  qed
  then show ?thesis using b(1) by (simp add: to_go_def)
qed

text \<open>
  \<open>Unmap\<close> takes a range out of the views, all of it or nothing: where a call fails, what was taken out is put back, and
  where that fails too the process ends.
\<close>

lemma Unmap_ok:
  assumes ok: "backing_ok s"
  shows "case Unmap vaddr bytes s of
      Inl x \<Rightarrow> \<not> (\<forall>k. sp_answers s k)
    | Inr (s', r) \<Rightarrow> backing_ok s' \<and> views_only s s' \<and>
        ((\<forall>k. sp_answers s k) \<longrightarrow> (r \<longleftrightarrow> BackingContains vaddr bytes s)) \<and> (r \<longrightarrow> BackingContains vaddr bytes s) \<and>
        (\<forall>a. offset_at (bk_maps s') a = (if r \<and> vaddr \<le> a \<and> a < vaddr + bytes then None else offset_at (bk_maps s) a))"
proof (cases "bytes = 0 \<or> UINT64_MAX - vaddr < bytes")
  case True
  then show ?thesis using ok by (simp add: Unmap_def BackingContains_def)
next
  case False
  then have v: "vaddr + bytes \<le> UINT64_MAX" by auto
  note d = backing_okD [OF ok] and parts = backing_parts_ok [OF backing_okD(1) [OF ok] v, of vaddr]
  show ?thesis
  proof (cases "backing_parts vaddr (vaddr + bytes) s")
    case None
    then show ?thesis using ok False by (simp add: Unmap_def BackingContains_def)
  next
    case (Some ps)
    have at: "offset_at ps a = (if vaddr \<le> a \<and> a < vaddr + bytes then offset_at (bk_maps s) a else None)"
      "vaddr \<le> a \<and> a < vaddr + bytes \<Longrightarrow> offset_at (bk_maps s) a \<noteq> None" for a
      using parts unfolding Some option.case by blast+
    have cov: "(\<exists>p\<in>set ps. covers me_vaddr me_size p a) \<longleftrightarrow> vaddr \<le> a \<and> a < vaddr + bytes" for a
    proof -
      have "(\<exists>p\<in>set ps. covers me_vaddr me_size p a) \<longleftrightarrow> offset_at ps a \<noteq> None" by (simp add: seen_at_None)
      then show ?thesis using at [of a] by simp
    qed
    have u: "Unmap vaddr bytes s = unmap_all [] ps s" using False Some by (simp add: Unmap_def)
    have c: "BackingContains vaddr bytes s" using False Some by (simp add: BackingContains_def)
    have g: "gone s [] s" by (simp add: gone_def)
    note ih = unmap_all_ok [OF ok g to_go_parts [OF ok v Some]]
    show ?thesis
    proof (cases "unmap_all [] ps s")
      case (Inl x)
      then show ?thesis using ih u by simp
    next
      case (Inr sr)
      obtain s2 r2 where sr: "sr = (s2, r2)" by (cases sr)
      have "backing_ok s2 \<and> views_only s s2 \<and> ((\<forall>k. sp_answers s k) \<longrightarrow> r2) \<and>
        (\<forall>a. offset_at (bk_maps s2) a = (if r2 \<and> (\<exists>p\<in>set ps. covers me_vaddr me_size p a) then None else offset_at (bk_maps s) a))"
        using ih Inr sr by simp
      then show ?thesis using c unfolding u Inr sr sum.case prod.case cov by blast
    qed
  qed
qed

section \<open>Regions\<close>

text \<open>The two neighbours decide whether a range is apart from every region.\<close>

lemma neighbours_apart:
  assumes m: "ordered key bytes bs" and n: "0 < n"
    and b: "before = takeWhile (\<lambda>r. key r < vaddr) bs" "rest = dropWhile (\<lambda>r. key r < vaddr) bs"
  shows "(\<exists>c\<in>set bs. \<exists>x. vaddr \<le> x \<and> x < vaddr + n \<and> covers key bytes c x) \<longleftrightarrow>
    rest \<noteq> [] \<and> key (hd rest) < vaddr + n \<or> before \<noteq> [] \<and> key (last before) + bytes (last before) > vaddr"
proof -
  have bs: "bs = before @ rest" using b by simp
  then have o: "ordered key bytes before" "ordered key bytes rest" using m by (simp_all add: ordered_append)
  have low: "key c < vaddr" if "c \<in> set before" for c using that b(1) set_takeWhileD by fastforce
  have high: "vaddr \<le> key c" if "c \<in> set rest" for c
  proof -
    have "rest \<noteq> []" using that by auto
    then have "\<not> key (hd rest) < vaddr" unfolding b(2) by (rule hd_dropWhile)
    moreover have "c = hd rest \<or> key (hd rest) \<le> key c"
      using o(2) that by (cases rest) (auto simp: ordered_Cons dest: add_leD1)
    ultimately show ?thesis by auto
  qed
  have first: "(\<exists>c\<in>set rest. key c < vaddr + n) \<longleftrightarrow> rest \<noteq> [] \<and> key (hd rest) < vaddr + n"
    using o(2) by (cases rest) (auto simp: ordered_Cons)
  have end1: "(\<exists>c\<in>set before. key c + bytes c > vaddr) \<longleftrightarrow> before \<noteq> [] \<and> key (last before) + bytes (last before) > vaddr"
  proof (cases before rule: rev_cases)
    case (snoc xs x)
    have "key c + bytes c \<le> key x" if "c \<in> set xs" for c using o(1) that snoc by (auto simp: ordered_append)
    then show ?thesis using snoc by fastforce
  qed simp
  have "(\<exists>x. vaddr \<le> x \<and> x < vaddr + n \<and> covers key bytes c x) \<longleftrightarrow> key c < vaddr + n" if "c \<in> set rest" for c
    using high [OF that] ordered_mem [OF o(2) that] by (auto simp: covers_def intro: exI [of _ "key c"])
  moreover have "(\<exists>x. vaddr \<le> x \<and> x < vaddr + n \<and> covers key bytes c x) \<longleftrightarrow> key c + bytes c > vaddr" if "c \<in> set before" for c
    using low [OF that] n by (auto simp: covers_def intro: exI [of _ vaddr])
  ultimately show ?thesis unfolding first [symmetric] end1 [symmetric] bs by (simp add: bex_Un disj_commute cong: bex_cong)
qed

lemma AddMapped_ok:
  assumes m: "ordered mr_vaddr mr_size (sp_mapped s)" and a: "AddMappedUnlocked vaddr bytes type s = (s', r)"
  shows "r \<longleftrightarrow> bytes \<noteq> 0 \<and> vaddr + bytes \<le> UINT64_MAX \<and> (\<forall>x. vaddr \<le> x \<and> x < vaddr + bytes \<longrightarrow> region_at (sp_mapped s) x = None)"
    "s' = s\<lparr>sp_mapped := sp_mapped s'\<rparr>" "ordered mr_vaddr mr_size (sp_mapped s')" "\<not> r \<Longrightarrow> s' = s"
    "region_at (sp_mapped s') x = (if r \<and> vaddr \<le> x \<and> x < vaddr + bytes then Some type else region_at (sp_mapped s) x)"
    "r \<Longrightarrow> set (sp_mapped s') = insert \<lparr>mr_vaddr = vaddr, mr_size = bytes, mr_type = type\<rparr> (set (sp_mapped s))"
proof -
  let ?free = "\<forall>x. vaddr \<le> x \<and> x < vaddr + bytes \<longrightarrow> region_at (sp_mapped s) x = None"
  let ?new = "\<lparr>mr_vaddr = vaddr, mr_size = bytes, mr_type = type\<rparr>"
  have "(r \<longleftrightarrow> bytes \<noteq> 0 \<and> vaddr + bytes \<le> UINT64_MAX \<and> ?free) \<and> s' = s\<lparr>sp_mapped := sp_mapped s'\<rparr> \<and>
    ordered mr_vaddr mr_size (sp_mapped s') \<and> (\<not> r \<longrightarrow> s' = s) \<and>
    (\<forall>x. region_at (sp_mapped s') x = (if r \<and> vaddr \<le> x \<and> x < vaddr + bytes then Some type else region_at (sp_mapped s) x)) \<and>
    (r \<longrightarrow> set (sp_mapped s') = insert ?new (set (sp_mapped s)))"
  proof (cases "bytes = 0 \<or> UINT64_MAX - vaddr < bytes")
    case True
    then show ?thesis using a m by (auto simp: AddMappedUnlocked_def)
  next
    case False
    then have v: "0 < bytes" "vaddr + bytes \<le> UINT64_MAX" by auto
    note n = neighbours_apart [OF m v(1) refl refl, of vaddr]
    have free: "?free \<longleftrightarrow> \<not> (\<exists>c\<in>set (sp_mapped s). \<exists>x. vaddr \<le> x \<and> x < vaddr + bytes \<and> covers mr_vaddr mr_size c x)"
      by (auto simp: seen_at_None)
    show ?thesis
    proof (cases ?free)
      case no: False
      then show ?thesis using a m False free n by (auto simp: AddMappedUnlocked_def Let_def split: if_splits)
    next
      case True
      have ap: "\<forall>c\<in>set (sp_mapped s). apart mr_vaddr mr_size ?new c"
      proof
        fix c assume "c \<in> set (sp_mapped s)"
        then show "apart mr_vaddr mr_size ?new c"
          using apart_unseen [OF ordered_maps_ok [OF m], of ?new "\<lambda>r _. mr_type r" c] True v(1) by (auto simp: covers_def)
      qed
      obtain ms where ms: "emplace_by mr_vaddr ?new (sp_mapped s) = Some ms" "ordered mr_vaddr mr_size ms"
        "set ms = insert ?new (set (sp_mapped s))" using emplace_by_ok [OF m, of ?new] ap v by auto
      have "region_at ms x = (if vaddr \<le> x \<and> x < vaddr + bytes then Some type else region_at (sp_mapped s) x)" for x
        using seen_at_insert [OF ordered_maps_ok [OF ms(2)] ms(3) ap ordered_maps_ok [OF m], of "\<lambda>r _. mr_type r" x]
        by (simp add: covers_def)
      moreover have "s' = s\<lparr>sp_mapped := ms\<rparr> \<and> r" using a False True free n ms(1) by (auto simp: AddMappedUnlocked_def Let_def)
      ultimately show ?thesis using ms v True by simp
    qed
  qed
  then show "r \<longleftrightarrow> bytes \<noteq> 0 \<and> vaddr + bytes \<le> UINT64_MAX \<and> ?free" "s' = s\<lparr>sp_mapped := sp_mapped s'\<rparr>"
    "ordered mr_vaddr mr_size (sp_mapped s')" "\<not> r \<Longrightarrow> s' = s"
    "region_at (sp_mapped s') x = (if r \<and> vaddr \<le> x \<and> x < vaddr + bytes then Some type else region_at (sp_mapped s) x)"
    "r \<Longrightarrow> set (sp_mapped s') = insert ?new (set (sp_mapped s))" by blast+
qed

lemma FindMapped_ok:
  assumes m: "ordered mr_vaddr mr_size (sp_mapped s)"
  shows "case FindMappedContainingUnlocked vaddr s of
      None \<Rightarrow> region_at (sp_mapped s) vaddr = None
    | Some r \<Rightarrow> r \<in> set (sp_mapped s) \<and> covers mr_vaddr mr_size r vaddr"
proof (cases "FindMappedContainingUnlocked vaddr s")
  case None
  then have "\<not> vaddr < mr_vaddr b + mr_size b" if "last_at mr_vaddr vaddr (sp_mapped s) = Some b" for b
    using that by (auto simp: FindMappedContainingUnlocked_def split: if_splits)
  then have "region_at (sp_mapped s) vaddr = None" by (rule last_at_None [OF m])
  then show ?thesis using None by simp
next
  case (Some r)
  then have "last_at mr_vaddr vaddr (sp_mapped s) = Some r \<and> vaddr < mr_vaddr r + mr_size r"
    by (auto simp: FindMappedContainingUnlocked_def split: option.splits if_splits)
  then show ?thesis using last_at_covers [OF m, of vaddr r] Some by simp
qed

lemma region_covered:
  "ordered mr_vaddr mr_size ms \<Longrightarrow> r \<in> set ms \<Longrightarrow> mr_vaddr r \<le> x \<Longrightarrow> x < mr_vaddr r + mr_size r \<Longrightarrow> region_at ms x = Some (mr_type r)"
  using seen_at_mem [OF ordered_maps_ok, of mr_vaddr mr_size ms r x "\<lambda>r _. mr_type r"] by (simp add: covers_def)

lemma mapped_span_ok:
  "ordered mr_vaddr mr_size (sp_mapped s) \<Longrightarrow>
     mapped_span current end1 type s \<longleftrightarrow> (\<forall>x. current \<le> x \<and> x < end1 \<longrightarrow> region_at (sp_mapped s) x = Some type)"
proof (induction current end1 type s rule: mapped_span.induct)
  case (1 current end1 type s)
  note f = FindMapped_ok [OF 1(2), of current]
  show ?case
  proof (cases "current < end1")
    case False
    then show ?thesis by (subst mapped_span.simps) auto
  next
    case True
    show ?thesis
    proof (cases "FindMappedContainingUnlocked current s")
      case None
      then show ?thesis using f True by (subst mapped_span.simps) auto
    next
      case (Some r)
      have r: "r \<in> set (sp_mapped s)" "mr_vaddr r \<le> current" "current < mr_vaddr r + mr_size r" using f Some by (auto simp: covers_def)
      have at: "region_at (sp_mapped s) x = Some (mr_type r)" if "current \<le> x" "x < mr_vaddr r + mr_size r" for x
        by (rule region_covered [OF 1(2) r(1)]) (use that r in auto)
      show ?thesis
      proof (cases "mr_type r = type")
        case False
        then show ?thesis using True Some at [of current] r(3) by (subst mapped_span.simps) auto
      next
        case same: True
        have "mapped_span current end1 type s = mapped_span (min end1 (mr_vaddr r + mr_size r)) end1 type s"
          using True Some same by (subst mapped_span.simps) simp
        also have "\<dots> \<longleftrightarrow> (\<forall>x. min end1 (mr_vaddr r + mr_size r) \<le> x \<and> x < end1 \<longrightarrow> region_at (sp_mapped s) x = Some type)"
          using 1(1) [OF True Some _ 1(2)] same by simp
        also have "\<dots> \<longleftrightarrow> (\<forall>x. current \<le> x \<and> x < end1 \<longrightarrow> region_at (sp_mapped s) x = Some type)"
        proof -
          have "current \<le> x \<and> x < end1 \<longleftrightarrow> current \<le> x \<and> x < min end1 (mr_vaddr r + mr_size r) \<or>
            min end1 (mr_vaddr r + mr_size r) \<le> x \<and> x < end1" for x using r(3) True by auto
          moreover have "region_at (sp_mapped s) x = Some type" if "current \<le> x \<and> x < min end1 (mr_vaddr r + mr_size r)" for x
            using at [of x] same that by simp
          ultimately show ?thesis by blast
        qed
        finally show ?thesis .
      qed
    qed
  qed
qed

lemma remove_mapped_ok:
  assumes "ordered mr_vaddr mr_size (sp_mapped s)" "end1 \<le> UINT64_MAX" "\<And>x. current \<le> x \<Longrightarrow> x < end1 \<Longrightarrow> region_at (sp_mapped s) x \<noteq> None"
  shows "\<exists>ms. remove_mapped current end1 s = Inr (s\<lparr>sp_mapped := ms\<rparr>) \<and> ordered mr_vaddr mr_size ms \<and>
    (\<forall>x. region_at ms x = (if current \<le> x \<and> x < end1 then None else region_at (sp_mapped s) x))"
  using assms
proof (induction current end1 s rule: remove_mapped.induct)
  case (1 current end1 s)
  note m = 1(2)
  show ?case
  proof (cases "current < end1")
    case False
    then have "remove_mapped current end1 s = Inr (s\<lparr>sp_mapped := sp_mapped s\<rparr>)" by (subst remove_mapped.simps) simp
    then show ?thesis using m False by (intro exI [of _ "sp_mapped s"]) auto
  next
    case True
    obtain r where f: "FindMappedContainingUnlocked current s = Some r" "r \<in> set (sp_mapped s)" "mr_vaddr r \<le> current"
      "current < mr_vaddr r + mr_size r"
      using FindMapped_ok [OF m, of current] 1(4) [of current] True by (auto simp: covers_def split: option.splits)
    let ?p = "min end1 (mr_vaddr r + mr_size r)" and ?e = "mr_vaddr r + mr_size r" and ?s1 = "s\<lparr>sp_mapped := remove1 r (sp_mapped s)\<rparr>"
    have r: "?e \<le> UINT64_MAX" using ordered_mem [OF m f(2)] by simp
    have o1: "ordered mr_vaddr mr_size (sp_mapped ?s1)" "set (sp_mapped ?s1) = set (sp_mapped s) - {r}"
      using ordered_remove [OF m f(2)] by simp_all
    have at1: "region_at (sp_mapped ?s1) x = (if mr_vaddr r \<le> x \<and> x < ?e then None else region_at (sp_mapped s) x)" for x
      using seen_at_remove [OF ordered_maps_ok [OF m] f(2) o1(2) ordered_maps_ok [OF o1(1)], of "\<lambda>r _. mr_type r" x]
      by (simp add: covers_def)
    obtain s2 ok2 where a2: "(if mr_vaddr r < current then AddMappedUnlocked (mr_vaddr r) (current - mr_vaddr r) (mr_type r) ?s1
      else (?s1, True)) = (s2, ok2)" by fastforce
    have s2: "ok2" "s2 = ?s1\<lparr>sp_mapped := sp_mapped s2\<rparr>" "ordered mr_vaddr mr_size (sp_mapped s2)"
      "\<And>x. region_at (sp_mapped s2) x = (if mr_vaddr r \<le> x \<and> x < current then Some (mr_type r) else region_at (sp_mapped ?s1) x)"
    proof -
      have "ok2 \<and> s2 = ?s1\<lparr>sp_mapped := sp_mapped s2\<rparr> \<and> ordered mr_vaddr mr_size (sp_mapped s2) \<and>
        (\<forall>x. region_at (sp_mapped s2) x = (if mr_vaddr r \<le> x \<and> x < current then Some (mr_type r) else region_at (sp_mapped ?s1) x))"
      proof (cases "mr_vaddr r < current")
        case left: True
        then have a: "AddMappedUnlocked (mr_vaddr r) (current - mr_vaddr r) (mr_type r) ?s1 = (s2, ok2)" using a2 by simp
        have "ok2" unfolding AddMapped_ok(1) [OF o1(1) a] using left f(4) r at1 by auto
        then show ?thesis using AddMapped_ok(2,3,5) [OF o1(1) a] left by simp
      next
        case False
        then have "s2 = ?s1" "ok2" using a2 by simp_all
        then show ?thesis using o1(1) False by auto
      qed
      then show "ok2" "s2 = ?s1\<lparr>sp_mapped := sp_mapped s2\<rparr>" "ordered mr_vaddr mr_size (sp_mapped s2)"
        "\<And>x. region_at (sp_mapped s2) x = (if mr_vaddr r \<le> x \<and> x < current then Some (mr_type r) else region_at (sp_mapped ?s1) x)"
        by blast+
    qed
    obtain s3 ok3 where a3: "(if ?p < ?e then AddMappedUnlocked ?p (?e - ?p) (mr_type r) s2 else (s2, True)) = (s3, ok3)" by fastforce
    have s3: "ok3" "s3 = s2\<lparr>sp_mapped := sp_mapped s3\<rparr>" "ordered mr_vaddr mr_size (sp_mapped s3)"
      "\<And>x. region_at (sp_mapped s3) x = (if ?p \<le> x \<and> x < ?e then Some (mr_type r) else region_at (sp_mapped s2) x)"
    proof -
      have "ok3 \<and> s3 = s2\<lparr>sp_mapped := sp_mapped s3\<rparr> \<and> ordered mr_vaddr mr_size (sp_mapped s3) \<and>
        (\<forall>x. region_at (sp_mapped s3) x = (if ?p \<le> x \<and> x < ?e then Some (mr_type r) else region_at (sp_mapped s2) x))"
      proof (cases "?p < ?e")
        case right: True
        have a: "AddMappedUnlocked ?p (?e - ?p) (mr_type r) s2 = (s3, ok3)" using a3 unfolding if_P [OF right] .
        have "ok3" unfolding AddMapped_ok(1) [OF s2(3) a] using right f True r at1 s2(4) by auto
        then show ?thesis using AddMapped_ok(2,3,5) [OF s2(3) a] right by simp
      next
        case False
        have "s3 = s2" "ok3" using a3 unfolding if_not_P [OF False] by simp_all
        then show ?thesis using s2(3) False by auto
      qed
      then show "ok3" "s3 = s2\<lparr>sp_mapped := sp_mapped s3\<rparr>" "ordered mr_vaddr mr_size (sp_mapped s3)"
        "\<And>x. region_at (sp_mapped s3) x = (if ?p \<le> x \<and> x < ?e then Some (mr_type r) else region_at (sp_mapped s2) x)"
        by blast+
    qed
    have at3: "region_at (sp_mapped s3) x = (if current \<le> x \<and> x < ?p then None else region_at (sp_mapped s) x)" for x
    proof (cases "mr_vaddr r \<le> x \<and> x < ?e")
      case in_r: True
      then have "region_at (sp_mapped s) x = Some (mr_type r)" using region_covered [OF m f(2)] by simp
      then show ?thesis using s3(4) s2(4) at1 in_r by auto
    next
      case False
      then show ?thesis using s3(4) s2(4) at1 f True by auto
    qed
    have eq: "remove_mapped current end1 s = remove_mapped ?p end1 s3"
      unfolding remove_mapped.simps [of current end1 s] f(1) option.case Let_def a2 prod.case a3 using True s2(1) s3(1) by simp
    have nn: "\<not> \<not> ok2" "\<not> \<not> ok3" using s2(1) s3(1) by simp_all
    have dom: "region_at (sp_mapped s3) x \<noteq> None" if "?p \<le> x" "x < end1" for x using at3 [of x] 1(4) [of x] that True f(4) by auto
    obtain ms where ms: "remove_mapped ?p end1 s3 = Inr (s3\<lparr>sp_mapped := ms\<rparr>)" "ordered mr_vaddr mr_size ms"
      "\<forall>x. region_at ms x = (if ?p \<le> x \<and> x < end1 then None else region_at (sp_mapped s3) x)"
      using 1(1) [OF True f(1) refl refl a2 [symmetric] nn(1) a3 [symmetric] nn(2) s3(3) 1(3)] dom by blast
    have "s3\<lparr>sp_mapped := ms\<rparr> = s\<lparr>sp_mapped := ms\<rparr>" by (subst s3(2), subst s2(2)) simp
    moreover have "region_at ms x = (if current \<le> x \<and> x < end1 then None else region_at (sp_mapped s) x)" for x
      using ms(3) at3 [of x] True f(4) by auto
    ultimately show ?thesis using ms(1,2) eq by auto
  qed
qed

lemma RemoveMapped_ok:
  assumes m: "ordered mr_vaddr mr_size (sp_mapped s)"
  shows "if ContainsMappedUnlocked vaddr bytes type s
    then \<exists>ms. RemoveMappedUnlocked vaddr bytes type s = Inr (s\<lparr>sp_mapped := ms\<rparr>, True) \<and> ordered mr_vaddr mr_size ms \<and>
      (\<forall>x. region_at ms x = (if vaddr \<le> x \<and> x < vaddr + bytes then None else region_at (sp_mapped s) x))
    else RemoveMappedUnlocked vaddr bytes type s = Inr (s, False)"
proof (cases "ContainsMappedUnlocked vaddr bytes type s")
  case True
  then have v: "vaddr + bytes \<le> UINT64_MAX" "mapped_span vaddr (vaddr + bytes) type s"
    by (auto simp: ContainsMappedUnlocked_def split: if_splits)
  then have "region_at (sp_mapped s) x \<noteq> None" if "vaddr \<le> x" "x < vaddr + bytes" for x
    using mapped_span_ok [OF m, of vaddr "vaddr + bytes" type] that by simp
  then obtain ms where "remove_mapped vaddr (vaddr + bytes) s = Inr (s\<lparr>sp_mapped := ms\<rparr>)" "ordered mr_vaddr mr_size ms"
    "\<forall>x. region_at ms x = (if vaddr \<le> x \<and> x < vaddr + bytes then None else region_at (sp_mapped s) x)"
    using remove_mapped_ok [OF m v(1), of vaddr] by blast
  then show ?thesis using True by (auto simp: RemoveMappedUnlocked_def)
qed (simp add: RemoveMappedUnlocked_def)

section \<open>The address space as a map of uses\<close>

definition space_ok :: "space \<Rightarrow> bool" where
  "space_ok s \<longleftrightarrow>
     backing_ok s \<and> ordered mr_vaddr mr_size (sp_mapped s) \<and> free_ok (sp_free s) \<and>
     (\<forall>x\<in>free_bytes (sp_free s). 0 < x \<and> x < UINT64_MAX \<and> region_at (sp_mapped s) x = None) \<and>
     (\<forall>x. offset_at (bk_maps s) x \<noteq> None \<longleftrightarrow> region_at (sp_mapped s) x = Some Mapped_Backing) \<and> region_at (sp_mapped s) 0 = None"

lemma space_okD:
  assumes "space_ok s"
  shows "backing_ok s" "ordered mr_vaddr mr_size (sp_mapped s)" "free_ok (sp_free s)"
    "x \<in> free_bytes (sp_free s) \<Longrightarrow> 0 < x \<and> x < UINT64_MAX \<and> region_at (sp_mapped s) x = None"
    "offset_at (bk_maps s) x \<noteq> None \<longleftrightarrow> region_at (sp_mapped s) x = Some Mapped_Backing" "region_at (sp_mapped s) 0 = None"
  using assms by (simp_all add: space_ok_def)

lemma backing_ok_cong:
  "bk_maps t = bk_maps s \<Longrightarrow> sp_log t = sp_log s \<Longrightarrow> bk_available t = bk_available s \<Longrightarrow> bk_size t = bk_size s \<Longrightarrow>
     backing_ok t \<longleftrightarrow> backing_ok s"
  by (simp add: backing_ok_def host_view_def RangeOk_def)

text \<open>What the guest finds at an address: a byte of the backing object, memory of its own, or nothing.\<close>

datatype guest_use = Use_None | Use_Free | Use_Private | Use_View nat

definition use_at :: "space \<Rightarrow> nat \<Rightarrow> guest_use" where
  "use_at s a =
     (case host_view s a of
        Some offset \<Rightarrow> Use_View offset
      | None \<Rightarrow> if region_at (sp_mapped s) a = Some Mapped_Private then Use_Private
                else if a \<in> free_bytes (sp_free s) then Use_Free else Use_None)"

definition set_use :: "nat \<Rightarrow> nat \<Rightarrow> (nat \<Rightarrow> guest_use) \<Rightarrow> (nat \<Rightarrow> guest_use) \<Rightarrow> nat \<Rightarrow> guest_use" where
  "set_use vaddr bytes new u a = (if vaddr \<le> a \<and> a < vaddr + bytes then new a else u a)"

lemma use_at_free: "space_ok s \<Longrightarrow> use_at s a = Use_Free \<longleftrightarrow> a \<in> free_bytes (sp_free s)"
  using space_okD(1) [of s] space_okD(4,5) [of s a] backing_okD(5) [of s a] by (auto simp: use_at_def split: option.splits)

lemma all_free: "space_ok s \<Longrightarrow> {vaddr..<vaddr + bytes} \<subseteq> free_bytes (sp_free s) \<longleftrightarrow>
    (\<forall>a. vaddr \<le> a \<and> a < vaddr + bytes \<longrightarrow> use_at s a = Use_Free)"
  by (auto simp: use_at_free)

text \<open>A range taken from the free ones, and given back.\<close>

lemma consume_bound: "0 < bytes \<Longrightarrow> space_ok s \<Longrightarrow> {vaddr..<vaddr + bytes} \<subseteq> free_bytes (sp_free s) \<Longrightarrow> vaddr \<noteq> 0 \<and> vaddr + bytes \<le> UINT64_MAX"
  using space_okD(4) [of s vaddr] space_okD(4) [of s "vaddr + bytes - 1"] by (auto simp: subset_iff)

definition taken :: "nat \<Rightarrow> nat \<Rightarrow> space \<Rightarrow> space \<Rightarrow> bool" where
  "taken vaddr bytes s t \<longleftrightarrow>
     {vaddr..<vaddr + bytes} \<subseteq> free_bytes (sp_free s) \<and> backing_ok t \<and> sp_mapped t = sp_mapped s \<and> free_ok (sp_free t) \<and>
     free_bytes (sp_free t) = free_bytes (sp_free s) - {vaddr..<vaddr + bytes} \<and> bk_bytes t = bk_bytes s"

lemma Consume_taken:
  assumes ok: "space_ok s" and n: "0 < bytes" and v: "vaddr + bytes \<le> UINT64_MAX"
    and c: "ConsumeUnlocked vaddr bytes s = (t, r)"
  shows "r \<longleftrightarrow> (\<forall>a. vaddr \<le> a \<and> a < vaddr + bytes \<longrightarrow> use_at s a = Use_Free)" "\<not> r \<Longrightarrow> t = s"
    "r \<Longrightarrow> taken vaddr bytes s t" "r \<Longrightarrow> t = s\<lparr>sp_free := sp_free t\<rparr>"
proof -
  note d = space_okD [OF ok]
  have lim: "\<forall>x\<in>free_bytes (sp_free s). x < UINT64_MAX" using d(4) by blast
  note cu = ConsumeUnlocked_ok [OF d(3) n lim v c]
  show "r \<longleftrightarrow> (\<forall>a. vaddr \<le> a \<and> a < vaddr + bytes \<longrightarrow> use_at s a = Use_Free)" using cu(1) all_free [OF ok] by simp
  show "\<not> r \<Longrightarrow> t = s" by (rule cu(2))
  assume r: r
  then show t: "t = s\<lparr>sp_free := sp_free t\<rparr>" using cu(3) by blast
  have f: "bk_maps t = bk_maps s" "sp_log t = sp_log s" "bk_available t = bk_available s" "bk_size t = bk_size s"
    "sp_mapped t = sp_mapped s" "bk_bytes t = bk_bytes s" by (subst t, simp)+
  show "taken vaddr bytes s t" using backing_ok_cong [OF f(1-4)] d(1) f(5,6) cu(1) cu(3) r unfolding taken_def by blast
qed

lemma taken_views:
  "taken vaddr bytes s t \<Longrightarrow> views_only t t' \<Longrightarrow> backing_ok t' \<Longrightarrow> taken vaddr bytes s t'"
  using views_only_fields [of t t'] by (simp add: taken_def)

lemma give_up_ok:
  assumes ok: "space_ok s" and n: "0 < bytes" and t: "taken vaddr bytes s t" and off: "\<And>a. offset_at (bk_maps t) a = offset_at (bk_maps s) a"
  shows "space_ok (AddFreeUnlocked vaddr bytes t)" "use_at (AddFreeUnlocked vaddr bytes t) = use_at s"
    "bk_bytes (AddFreeUnlocked vaddr bytes t) = bk_bytes s"
proof -
  let ?t = "AddFreeUnlocked vaddr bytes t"
  note d = space_okD [OF ok] and t = t [unfolded taken_def]
  have v: "vaddr \<noteq> 0" "vaddr + bytes \<le> UINT64_MAX" using consume_bound [OF n ok] t by blast+
  have dis: "{vaddr..<vaddr + bytes} \<inter> free_bytes (sp_free t) = {}" "free_ok (sp_free t)" using t by auto
  have lim: "\<forall>x\<in>free_bytes (sp_free t). x < UINT64_MAX" using t d(4) by auto
  note af = AddFreeUnlocked_ok [OF dis(2) v(1) n dis(1) v(2) lim refl]
  have fr: "free_bytes (sp_free ?t) = free_bytes (sp_free s)" using af(3) t by auto
  have f: "bk_maps ?t = bk_maps t" "sp_log ?t = sp_log t" "bk_available ?t = bk_available t" "bk_size ?t = bk_size t"
    "sp_mapped ?t = sp_mapped t" "bk_bytes ?t = bk_bytes t" by (subst af(1), simp)+
  have bo: "backing_ok ?t" using backing_ok_cong [OF f(1-4)] t by simp
  show "space_ok ?t" using bo af(2) d off fr f(1,5) t by (simp add: space_ok_def)
  show "use_at ?t = use_at s"
    using backing_okD(5) [OF bo] backing_okD(5) [OF d(1)] off fr f(1,5) t by (simp add: use_at_def fun_eq_iff)
  show "bk_bytes ?t = bk_bytes s" using f(6) t by simp
qed

lemma add_region_ok:
  assumes ok: "space_ok s" and n: "0 < bytes" and t: "taken vaddr bytes s t"
    and off: "\<And>a. offset_at (bk_maps t) a = (if vaddr \<le> a \<and> a < vaddr + bytes then g a else offset_at (bk_maps s) a)"
    and g: "\<And>a. g a \<noteq> None \<longleftrightarrow> type = Mapped_Backing" and a: "AddMappedUnlocked vaddr bytes type t = (u, ad)"
  shows "ad" "space_ok u" "bk_bytes u = bk_bytes s"
    "use_at u = set_use vaddr bytes (\<lambda>a. case g a of None \<Rightarrow> Use_Private | Some offset \<Rightarrow> Use_View offset) (use_at s)"
proof -
  note d = space_okD [OF ok] and t = t [unfolded taken_def]
  have v: "vaddr \<noteq> 0" "vaddr + bytes \<le> UINT64_MAX" using consume_bound [OF n ok] t by blast+
  have o: "ordered mr_vaddr mr_size (sp_mapped t)" using d(2) t by simp
  note am = AddMapped_ok [OF o a]
  have free: "region_at (sp_mapped t) a = None" if "vaddr \<le> a" "a < vaddr + bytes" for a using d(4) [of a] t that by auto
  show ad: "ad" unfolding am(1) using n v(2) free by simp
  have f: "bk_maps u = bk_maps t" "sp_log u = sp_log t" "bk_available u = bk_available t" "bk_size u = bk_size t"
    "sp_free u = sp_free t" "bk_bytes u = bk_bytes t" by (subst am(2), simp)+
  have bo: "backing_ok u" using backing_ok_cong [OF f(1-4)] t by simp
  have reg: "region_at (sp_mapped u) a = (if vaddr \<le> a \<and> a < vaddr + bytes then Some type else region_at (sp_mapped s) a)" for a
    using am(5) [of a] ad t by simp
  have off: "offset_at (bk_maps u) a = (if vaddr \<le> a \<and> a < vaddr + bytes then g a else offset_at (bk_maps s) a)" for a
    using off [of a] f(1) by simp
  show "space_ok u" unfolding space_ok_def using bo am(3) t f(5) off reg d(4-6) v(1) g by auto
  show "bk_bytes u = bk_bytes s" using f(6) t by simp
  have "type = Mapped_Private" if "g a = None" for a using g [of a] that by (cases type) auto
  then show "use_at u = set_use vaddr bytes (\<lambda>a. case g a of None \<Rightarrow> Use_Private | Some offset \<Rightarrow> Use_View offset) (use_at s)"
    using backing_okD(5) [OF bo] backing_okD(5) [OF d(1)] off reg f(5) t by (auto simp: use_at_def set_use_def fun_eq_iff split: option.splits)
qed

lemma MapBacking_ok:
  assumes ok: "space_ok s" and n: "0 < bytes" and v: "vaddr + bytes \<le> UINT64_MAX"
  shows "\<exists>s' r. MapBacking vaddr bytes offset mode s = Inr (s', r) \<and> space_ok s' \<and> bk_bytes s' = bk_bytes s \<and>
    (r \<longleftrightarrow> (\<forall>a. vaddr \<le> a \<and> a < vaddr + bytes \<longrightarrow> use_at s a = Use_Free) \<and> RangeOk offset bytes s \<and> sp_answers s (length (sp_log s))) \<and>
    use_at s' = (if r then set_use vaddr bytes (\<lambda>a. Use_View (offset + (a - vaddr))) (use_at s) else use_at s)"
proof -
  note d = space_okD [OF ok]
  obtain s1 c where c: "ConsumeUnlocked vaddr bytes s = (s1, c)" by (cases "ConsumeUnlocked vaddr bytes s")
  note ct = Consume_taken [OF ok n v c]
  show ?thesis
  proof (cases c)
    case False
    then show ?thesis using c ct(1,2) ok by (intro exI [of _ s] exI [of _ False]) (simp add: MapBacking_def)
  next
    case True
    note t = ct(3) [OF True]
    have f: "bk_maps s1 = bk_maps s" "sp_log s1 = sp_log s" "bk_size s1 = bk_size s" "sp_answers s1 = sp_answers s"
      by (subst ct(4) [OF True], simp)+
    have sub: "{vaddr..<vaddr + bytes} \<subseteq> free_bytes (sp_free s)" and ok1: "backing_ok s1" using t by (simp_all add: taken_def)
    have none: "offset_at (bk_maps s1) a = None" if "vaddr \<le> a" "a < vaddr + bytes" for a
      using d(4,5) [of a] sub f(1) that by fastforce
    obtain s2 r where m: "MapExistingPlaceholderFixed vaddr bytes offset (host_mode mode) s1 = Inr (s2, r)" "backing_ok s2"
      "views_only s1 s2" "r \<longleftrightarrow> RangeOk offset bytes s1 \<and> sp_answers s1 (length (sp_log s1))"
      "\<forall>a. offset_at (bk_maps s2) a = (if r \<and> vaddr \<le> a \<and> a < vaddr + bytes then Some (offset + (a - vaddr)) else offset_at (bk_maps s1) a)"
      using MapExisting_ok [OF ok1 v none, of offset "host_mode mode"] by blast
    note t2 = taken_views [OF t m(3,2)]
    have r: "r \<longleftrightarrow> RangeOk offset bytes s \<and> sp_answers s (length (sp_log s))" using m(4) f by (simp add: RangeOk_def)
    show ?thesis
    proof (cases r)
      case no: False
      have "MapBacking vaddr bytes offset mode s = Inr (AddFreeUnlocked vaddr bytes s2, False)" using c True m(1) no by (simp add: MapBacking_def)
      moreover have off: "offset_at (bk_maps s2) a = offset_at (bk_maps s) a" for a using m(5) f(1) no by simp
      ultimately show ?thesis using give_up_ok [OF ok n t2 off] r no by auto
    next
      case yes: True
      obtain s3 ad where a: "AddMappedUnlocked vaddr bytes Mapped_Backing s2 = (s3, ad)" by (cases "AddMappedUnlocked vaddr bytes Mapped_Backing s2")
      have off: "offset_at (bk_maps s2) a = (if vaddr \<le> a \<and> a < vaddr + bytes then Some (offset + (a - vaddr)) else offset_at (bk_maps s) a)" for a
        using m(5) yes f(1) by simp
      note ar = add_region_ok [OF ok n t2 off _ a, simplified]
      have "MapBacking vaddr bytes offset mode s = Inr (s3, True)" using c True m(1) yes a ar(1) by (simp add: MapBacking_def)
      then show ?thesis using ar(2-4) r yes ct(1) True by auto
    qed
  qed
qed

lemma sp_Commit_ok:
  assumes ok: "space_ok s" and n: "0 < bytes" and v: "vaddr + bytes \<le> UINT64_MAX"
  shows "\<exists>s' r. sp_Commit vaddr bytes mode s = Inr (s', r) \<and> space_ok s' \<and> bk_bytes s' = bk_bytes s \<and>
    (r \<longleftrightarrow> (\<forall>a. vaddr \<le> a \<and> a < vaddr + bytes \<longrightarrow> use_at s a = Use_Free) \<and> sp_answers s (length (sp_log s))) \<and>
    use_at s' = (if r then set_use vaddr bytes (\<lambda>a. Use_Private) (use_at s) else use_at s)"
proof -
  note d = space_okD [OF ok]
  obtain s1 c where c: "ConsumeUnlocked vaddr bytes s = (s1, c)" by (cases "ConsumeUnlocked vaddr bytes s")
  note ct = Consume_taken [OF ok n v c]
  show ?thesis
  proof (cases c)
    case False
    then show ?thesis using c ct(1,2) ok by (intro exI [of _ s] exI [of _ False]) (simp add: sp_Commit_def)
  next
    case True
    note t = ct(3) [OF True]
    have f: "bk_maps s1 = bk_maps s" "sp_log s1 = sp_log s" "sp_answers s1 = sp_answers s" by (subst ct(4) [OF True], simp)+
    have sub: "{vaddr..<vaddr + bytes} \<subseteq> free_bytes (sp_free s)" and ok1: "backing_ok s1" using t by (simp_all add: taken_def)
    obtain s2 r where h: "host_do (Host_Protect vaddr bytes (host_mode mode)) s1 = (s2, r)" by fastforce
    note hv = host_do_view [OF h]
    have f2: "bk_maps s2 = bk_maps s1" "bk_available s2 = bk_available s1" "bk_size s2 = bk_size s1" by (subst hv(2), simp)+
    have "host_view s2 = host_view s1" using hv(1) by (simp add: fun_eq_iff)
    then have ok2: "backing_ok s2" using ok1 f2 by (simp add: backing_ok_def RangeOk_def)
    have "views_only s1 (s1\<lparr>sp_log := x\<rparr>)" for x by (simp add: views_only_def)
    then have vo: "views_only s1 s2" by (subst hv(2))
    note t2 = taken_views [OF t vo ok2]
    have r: "r \<longleftrightarrow> sp_answers s (length (sp_log s))" using hv(3) f by simp
    show ?thesis
    proof (cases r)
      case no: False
      have "sp_Commit vaddr bytes mode s = Inr (AddFreeUnlocked vaddr bytes s2, False)" using c True h no by (simp add: sp_Commit_def)
      moreover have off: "offset_at (bk_maps s2) a = offset_at (bk_maps s) a" for a using f2(1) f(1) by simp
      ultimately show ?thesis using give_up_ok [OF ok n t2 off] r no by auto
    next
      case yes: True
      obtain s3 ad where a: "AddMappedUnlocked vaddr bytes Mapped_Private s2 = (s3, ad)" by (cases "AddMappedUnlocked vaddr bytes Mapped_Private s2")
      have off: "offset_at (bk_maps s2) a = (if vaddr \<le> a \<and> a < vaddr + bytes then None else offset_at (bk_maps s) a)" for a
      proof -
        have "vaddr \<le> a \<and> a < vaddr + bytes \<Longrightarrow> offset_at (bk_maps s) a = None" using d(4,5) [of a] sub by fastforce
        then show ?thesis using f2(1) f(1) by auto
      qed
      note ar = add_region_ok [OF ok n t2 off _ a, simplified]
      have "sp_Commit vaddr bytes mode s = Inr (s3, True)" using c True h yes a ar(1) by (simp add: sp_Commit_def)
      then show ?thesis using ar(2-4) r yes ct(1) True by auto
    qed
  qed
qed

lemma ContainsMapped_ok:
  "ordered mr_vaddr mr_size (sp_mapped s) \<Longrightarrow>
     ContainsMappedUnlocked vaddr bytes type s \<longleftrightarrow> bytes \<noteq> 0 \<and> vaddr + bytes \<le> UINT64_MAX \<and>
       (\<forall>x. vaddr \<le> x \<and> x < vaddr + bytes \<longrightarrow> region_at (sp_mapped s) x = Some type)"
  using mapped_span_ok [of s vaddr "vaddr + bytes" type] by (auto simp: ContainsMappedUnlocked_def)

lemma use_at_region:
  "space_ok s \<Longrightarrow> region_at (sp_mapped s) a = Some Mapped_Backing \<longleftrightarrow> (\<exists>offset. use_at s a = Use_View offset)"
  "space_ok s \<Longrightarrow> region_at (sp_mapped s) a = Some Mapped_Private \<longleftrightarrow> use_at s a = Use_Private"
  using space_okD(1) [of s] space_okD(4,5) [of s a] backing_okD(5) [of s a] by (auto simp: use_at_def split: option.splits)

text \<open>A range whose views are gone loses its regions and becomes free.\<close>

lemma released_ok:
  assumes ok: "space_ok s" and c: "ContainsMappedUnlocked vaddr bytes type s" and t: "backing_ok t" "views_only s t"
    and off: "\<And>a. offset_at (bk_maps t) a = (if vaddr \<le> a \<and> a < vaddr + bytes then None else offset_at (bk_maps s) a)"
  shows "\<exists>u. RemoveMappedUnlocked vaddr bytes type t = Inr (u, True) \<and> space_ok (AddFreeUnlocked vaddr bytes u) \<and>
    bk_bytes (AddFreeUnlocked vaddr bytes u) = bk_bytes s \<and>
    use_at (AddFreeUnlocked vaddr bytes u) = set_use vaddr bytes (\<lambda>_. Use_Free) (use_at s)"
proof -
  note d = space_okD [OF ok] and f = views_only_fields [OF t(2)]
  have c': "bytes \<noteq> 0" "vaddr + bytes \<le> UINT64_MAX" "\<And>x. vaddr \<le> x \<Longrightarrow> x < vaddr + bytes \<Longrightarrow> region_at (sp_mapped s) x = Some type"
    using c ContainsMapped_ok [OF d(2), of vaddr bytes type] by simp_all
  then have v: "vaddr \<noteq> 0" using d(6) by force
  have o: "ordered mr_vaddr mr_size (sp_mapped t)" using d(2) f(6) by simp
  have ct: "ContainsMappedUnlocked vaddr bytes type t" using c' ContainsMapped_ok [OF o, of vaddr bytes type] f(6) by simp
  obtain ms where r: "RemoveMappedUnlocked vaddr bytes type t = Inr (t\<lparr>sp_mapped := ms\<rparr>, True)" "ordered mr_vaddr mr_size ms"
    "\<forall>x. region_at ms x = (if vaddr \<le> x \<and> x < vaddr + bytes then None else region_at (sp_mapped t) x)"
    using RemoveMapped_ok [OF o, of vaddr bytes type] ct by auto
  let ?u = "t\<lparr>sp_mapped := ms\<rparr>"
  let ?w = "AddFreeUnlocked vaddr bytes ?u"
  have dis: "{vaddr..<vaddr + bytes} \<inter> free_bytes (sp_free ?u) = {}" "free_ok (sp_free ?u)"
    using d(3,4) c'(3) f(5) by fastforce+
  have lim: "\<forall>x\<in>free_bytes (sp_free ?u). x < UINT64_MAX" using d(4) f(5) by simp
  note af = AddFreeUnlocked_ok [OF dis(2) v _ dis(1) c'(2) lim refl]
  have n: "0 < bytes" using c'(1) by simp
  have fr: "free_bytes (sp_free ?w) = free_bytes (sp_free s) \<union> {vaddr..<vaddr + bytes}" using af(3) [OF n] f(5) by simp
  have fw: "bk_maps ?w = bk_maps t" "sp_log ?w = sp_log t" "bk_available ?w = bk_available t" "bk_size ?w = bk_size t"
    "sp_mapped ?w = ms" "bk_bytes ?w = bk_bytes t" by (subst af(1) [OF n], simp)+
  have bo: "backing_ok ?w" using backing_ok_cong [OF fw(1-4)] t(1) by simp
  have reg: "region_at (sp_mapped ?w) x = (if vaddr \<le> x \<and> x < vaddr + bytes then None else region_at (sp_mapped s) x)" for x
    using r(3) f(6) fw(5) by simp
  have off: "offset_at (bk_maps ?w) a = (if vaddr \<le> a \<and> a < vaddr + bytes then None else offset_at (bk_maps s) a)" for a
    using off [of a] fw(1) by simp
  have "space_ok ?w" unfolding space_ok_def using bo r(2) fw(5) af(2) [OF n] reg fr off d(4-6) v c'(2) by auto
  moreover have "use_at ?w = set_use vaddr bytes (\<lambda>_. Use_Free) (use_at s)"
    using backing_okD(5) [OF bo] backing_okD(5) [OF d(1)] off reg fr by (auto simp: use_at_def set_use_def fun_eq_iff split: option.splits)
  ultimately show ?thesis using r(1) fw(6) f(4) by auto
qed

lemma UnmapBacking_ok:
  assumes ok: "space_ok s"
  shows "case UnmapBacking vaddr bytes s of
      Inl x \<Rightarrow> \<not> (\<forall>k. sp_answers s k)
    | Inr (s', r) \<Rightarrow> space_ok s' \<and> bk_bytes s' = bk_bytes s \<and> (r \<longrightarrow> ContainsMappedUnlocked vaddr bytes Mapped_Backing s) \<and>
        ((\<forall>k. sp_answers s k) \<longrightarrow> (r \<longleftrightarrow> ContainsMappedUnlocked vaddr bytes Mapped_Backing s)) \<and>
        use_at s' = (if r then set_use vaddr bytes (\<lambda>_. Use_Free) (use_at s) else use_at s)"
proof (cases "ContainsMappedUnlocked vaddr bytes Mapped_Backing s")
  case False
  then show ?thesis using ok by (simp add: UnmapBacking_def)
next
  case c: True
  note d = space_okD [OF ok]
  have c': "bytes \<noteq> 0" "vaddr + bytes \<le> UINT64_MAX" "\<And>x. vaddr \<le> x \<Longrightarrow> x < vaddr + bytes \<Longrightarrow> region_at (sp_mapped s) x = Some Mapped_Backing"
    using c ContainsMapped_ok [OF d(2), of vaddr bytes Mapped_Backing] by simp_all
  have bc: "BackingContains vaddr bytes s"
  proof -
    have "\<forall>a. vaddr \<le> a \<and> a < vaddr + bytes \<longrightarrow> offset_at (bk_maps s) a \<noteq> None" using c'(3) d(5) by simp
    then have "backing_parts vaddr (vaddr + bytes) s \<noteq> None"
      using backing_parts_ok [OF backing_okD(1) [OF d(1)] c'(2), of vaddr] by (auto split: option.splits)
    then show ?thesis using c'(1,2) by (auto simp: BackingContains_def)
  qed
  note u = Unmap_ok [OF d(1), of vaddr bytes]
  show ?thesis
  proof (cases "Unmap vaddr bytes s")
    case (Inl x)
    then show ?thesis using u c by (simp add: UnmapBacking_def)
  next
    case (Inr sr)
    obtain t r where sr: "sr = (t, r)" by (cases sr)
    have t: "backing_ok t" "views_only s t" "(\<forall>k. sp_answers s k) \<longrightarrow> (r \<longleftrightarrow> BackingContains vaddr bytes s)"
      "\<And>a. offset_at (bk_maps t) a = (if r \<and> vaddr \<le> a \<and> a < vaddr + bytes then None else offset_at (bk_maps s) a)"
      using u unfolding Inr sr sum.case prod.case by blast+
    show ?thesis
    proof (cases r)
      case False
      note f = views_only_fields [OF t(2)]
      have off: "offset_at (bk_maps t) a = offset_at (bk_maps s) a" for a using t(4) False by simp
      then have "space_ok t" using t(1) d f by (simp add: space_ok_def)
      moreover have "use_at t = use_at s"
        using backing_okD(5) [OF t(1)] backing_okD(5) [OF d(1)] off f(5,6) by (simp add: use_at_def fun_eq_iff)
      ultimately show ?thesis using Inr sr False t(3) bc c f(4) by (auto simp: UnmapBacking_def)
    next
      case True
      then have off: "offset_at (bk_maps t) a = (if vaddr \<le> a \<and> a < vaddr + bytes then None else offset_at (bk_maps s) a)" for a
        using t(4) by simp
      from released_ok [OF ok c t(1,2) off] show ?thesis using Inr sr True c by (auto simp: UnmapBacking_def)
    qed
  qed
qed

lemma committed_within: "(v, n) \<in> set (committed_regions current end1 s) \<Longrightarrow> current \<le> v \<and> v + n \<le> end1"
proof (induction current end1 s rule: committed_regions.induct)
  case (1 current end1 s)
  have lt: "current < end1" using 1(2) unfolding committed_regions.simps [of current end1 s]
    by (cases "current < end1") simp_all
  show ?case
  proof (cases "FindMappedContainingUnlocked current s")
    case None
    then show ?thesis using 1(2) lt unfolding committed_regions.simps [of current end1 s] by simp
  next
    case (Some r)
    let ?p = "min end1 (mr_vaddr r + mr_size r)"
    have p: "current < ?p" using lt FindMapped_after [OF Some] by simp
    have "(v, n) = (current, ?p - current) \<or> (v, n) \<in> set (committed_regions ?p end1 s)"
      using 1(2) lt Some unfolding committed_regions.simps [of current end1 s] by (simp add: Let_def)
    then show ?thesis using 1(1) [OF lt Some refl] p by auto
  qed
qed

lemma restore_all_ok:
  assumes "backing_ok s" "\<And>v n a. (v, n) \<in> set rs \<Longrightarrow> v \<le> a \<Longrightarrow> a < v + n \<Longrightarrow> offset_at (bk_maps s) a = None"
  shows "case restore_all rs s of
      Inl x \<Rightarrow> \<not> (\<forall>k. sp_answers s k) | Inr s' \<Rightarrow> backing_ok s' \<and> views_only s s' \<and> bk_maps s' = bk_maps s"
  using assms
proof (induction rs arbitrary: s)
  case (Cons r rs)
  obtain v n where r: "r = (v, n)" by (cases r)
  obtain s1 b where h: "host_do (Map_None v n) s = (s1, b)" by fastforce
  note hv = host_do_view [OF h]
  show ?case
  proof (cases b)
    case False
    then show ?thesis using hv(3) h r by auto
  next
    case True
    have f: "bk_maps s1 = bk_maps s" "bk_available s1 = bk_available s" "bk_size s1 = bk_size s" "sp_answers s1 = sp_answers s"
      by (subst hv(2), simp)+
    have "host_view s1 a = offset_at (bk_maps s) a" for a
      using hv(1) True Cons.prems(2) [of v n a] r backing_okD(5) [OF Cons.prems(1), of a] by simp
    then have ok1: "backing_ok s1" using Cons.prems(1) f by (auto simp: backing_ok_def RangeOk_def)
    have "views_only s (s\<lparr>sp_log := x\<rparr>)" for x by (simp add: views_only_def)
    then have vo: "views_only s s1" by (subst hv(2))
    have "case restore_all rs s1 of
      Inl x \<Rightarrow> \<not> (\<forall>k. sp_answers s1 k) | Inr s' \<Rightarrow> backing_ok s' \<and> views_only s1 s' \<and> bk_maps s' = bk_maps s1"
      by (rule Cons.IH [OF ok1]) (use Cons.prems(2) f(1) in auto)
    then show ?thesis using h r True f vo by (auto split: sum.splits intro: views_only_trans)
  qed
qed simp

lemma ReleaseCommitted_ok:
  assumes ok: "space_ok s"
  shows "case ReleaseCommitted vaddr bytes s of
      Inl x \<Rightarrow> \<not> (\<forall>k. sp_answers s k)
    | Inr (s', r) \<Rightarrow> space_ok s' \<and> bk_bytes s' = bk_bytes s \<and>
        (r \<longleftrightarrow> IsPageAligned vaddr \<and> IsPageAligned bytes \<and> ContainsMappedUnlocked vaddr bytes Mapped_Private s) \<and>
        use_at s' = (if r then set_use vaddr bytes (\<lambda>_. Use_Free) (use_at s) else use_at s)"
proof (cases "vaddr = 0 \<or> bytes = 0 \<or> \<not> IsPageAligned vaddr \<or> \<not> IsPageAligned bytes \<or> \<not> ContainsMappedUnlocked vaddr bytes Mapped_Private s")
  case True
  have "\<not> ContainsMappedUnlocked 0 bytes Mapped_Private s"
    using ContainsMapped_ok [OF space_okD(2) [OF ok], of 0 bytes] space_okD(6) [OF ok] by force
  moreover have "\<not> ContainsMappedUnlocked vaddr 0 Mapped_Private s" by (simp add: ContainsMappedUnlocked_def)
  ultimately show ?thesis using True ok by (auto simp: ReleaseCommitted_def)
next
  case False
  note d = space_okD [OF ok]
  let ?rs = "committed_regions vaddr (vaddr + bytes) s"
  have c: "ContainsMappedUnlocked vaddr bytes Mapped_Private s" using False by simp
  have none: "offset_at (bk_maps s) a = None" if "vaddr \<le> a" "a < vaddr + bytes" for a
    using c ContainsMapped_ok [OF d(2), of vaddr bytes Mapped_Private] d(5) [of a] that by auto
  have out: "offset_at (bk_maps s) a = None" if "(v, n) \<in> set ?rs" "v \<le> a" "a < v + n" for v n a
    using none [of a] committed_within [OF that(1)] that by simp
  have ra: "case restore_all ?rs s of
      Inl x \<Rightarrow> \<not> (\<forall>k. sp_answers s k) | Inr s' \<Rightarrow> backing_ok s' \<and> views_only s s' \<and> bk_maps s' = bk_maps s"
    by (rule restore_all_ok [OF d(1)]) (rule out)
  have eq: "ReleaseCommitted vaddr bytes s = bind_outcome (restore_all ?rs s) (\<lambda>s. bind_outcome (RemoveMappedUnlocked vaddr bytes Mapped_Private s)
    (\<lambda>(s, removed). exit_if (\<not> removed) (Inr (AddFreeUnlocked vaddr bytes s, True))))" using False by (simp add: ReleaseCommitted_def)
  show ?thesis
  proof (cases "restore_all ?rs s")
    case (Inl x)
    then show ?thesis using ra eq by auto
  next
    case (Inr t)
    have t: "backing_ok t" "views_only s t" "bk_maps t = bk_maps s" using ra Inr by auto
    have off: "offset_at (bk_maps t) a = (if vaddr \<le> a \<and> a < vaddr + bytes then None else offset_at (bk_maps s) a)" for a
      using none [of a] t(3) by auto
    from released_ok [OF ok c t(1,2) off] show ?thesis using Inr eq c False by auto
  qed
qed

section \<open>Alignment and construction\<close>

lemma AlignUp_ok:
  assumes "x \<le> UINT64_MAX" "0 < al"
  shows "AlignUp x al = 0 \<or> x \<le> AlignUp x al \<and> AlignUp x al \<le> UINT64_MAX \<and> AlignUp x al mod al = 0 \<and>
      (\<forall>y. x \<le> y \<and> y mod al = 0 \<longrightarrow> AlignUp x al \<le> y)"
    "AlignUp x al = 0 \<Longrightarrow> x = 0 \<or> (\<forall>y. x \<le> y \<and> y mod al = 0 \<longrightarrow> UINT64_MAX < y)"
proof -
  define inc where "inc = (if x mod al \<noteq> 0 then al - x mod al else 0)"
  have a: "AlignUp x al = (if inc \<le> UINT64_MAX - x then x + inc else 0)" using assms(2) by (simp add: AlignUp_def inc_def Let_def)
  have up: "x + (al - x mod al) = (x div al + 1) * al"
  proof -
    have "x div al * al + x mod al = x" by simp
    moreover have "x mod al < al" using assms(2) by simp
    ultimately have "x + (al - x mod al) = x div al * al + al" by linarith
    then show ?thesis by simp
  qed
  have m: "(x + inc) mod al = 0"
  proof (cases "x mod al = 0")
    case False
    have "x + (al - x mod al) = (x div al + 1) * al" by (rule up)
    then show ?thesis using False by (simp add: inc_def)
  qed (simp add: inc_def)
  have least: "x + inc \<le> y" if y: "x \<le> y" "y mod al = 0" for y
  proof (cases "x mod al = 0")
    case False
    have "x div al < y div al"
    proof (rule ccontr)
      assume "\<not> x div al < y div al"
      then have "y div al * al \<le> x div al * al" by simp
      moreover have "y div al * al = y" using y(2) by (metis add.right_neutral div_mult_mod_eq)
      ultimately have "y \<le> x div al * al" by simp
      moreover have "x div al * al < x" using False div_mult_mod_eq [of x al] by linarith
      ultimately show False using y(1) by simp
    qed
    then have "(x div al + 1) * al \<le> y div al * al" by (intro mult_le_mono1) simp
    moreover have "y div al * al = y" using y(2) by (metis add.right_neutral div_mult_mod_eq)
    moreover have "x + (al - x mod al) = (x div al + 1) * al" by (rule up)
    ultimately show ?thesis using False by (simp add: inc_def)
  qed (use y in \<open>simp add: inc_def\<close>)
  show "AlignUp x al = 0 \<or> x \<le> AlignUp x al \<and> AlignUp x al \<le> UINT64_MAX \<and> AlignUp x al mod al = 0 \<and>
      (\<forall>y. x \<le> y \<and> y mod al = 0 \<longrightarrow> AlignUp x al \<le> y)"
  proof (cases "inc \<le> UINT64_MAX - x")
    case True
    then have e: "AlignUp x al = x + inc" using a by (simp only: if_True)
    have "x + inc \<le> UINT64_MAX" using True assms(1) by linarith
    then show ?thesis unfolding e using m least le_add1 [of x inc] by (intro disjI2 conjI allI impI) (assumption | elim conjE)+
  next
    case False
    then have "AlignUp x al = 0" using a by (simp only: if_False)
    then show ?thesis by (rule disjI1)
  qed
  assume z: "AlignUp x al = 0"
  show "x = 0 \<or> (\<forall>y. x \<le> y \<and> y mod al = 0 \<longrightarrow> UINT64_MAX < y)"
  proof (cases "inc \<le> UINT64_MAX - x")
    case True
    then have "x + inc = 0" using z a by (simp only: if_True)
    then show ?thesis by linarith
  next
    case False
    have "UINT64_MAX < x + inc" using False assms(1) by linarith
    then have "UINT64_MAX < y" if "x \<le> y \<and> y mod al = 0" for y
      by (rule less_le_trans [OF _ least [OF that [THEN conjunct1] that [THEN conjunct2]]])
    then show ?thesis by (intro disjI2 allI impI)
  qed
qed

lemma AlignUp_ge: "AlignUp x al = 0 \<or> x \<le> AlignUp x al"
proof -
  have "(if al = 0 then 0 else if i \<le> UINT64_MAX - x then x + i else 0) = 0 \<or>
    x \<le> (if al = 0 then 0 else if i \<le> UINT64_MAX - x then x + i else 0)" for i by simp
  then show ?thesis unfolding AlignUp_def Let_def .
qed

lemma AlignDown_le: "x \<le> UINT64_MAX \<Longrightarrow> AlignDown x al \<le> x"
proof -
  assume "x \<le> UINT64_MAX"
  then have "unat (of_nat x :: u64) = x" by (simp add: unat_of_nat UINT64_MAX_def)
  moreover have "(of_nat x :: u64) AND m \<le> of_nat x" for m by (rule word_and_le2)
  ultimately show ?thesis by (metis AlignDown_def word_le_nat_alt)
qed

text \<open>Ranges are reserved upwards: what is free lies below the cursor.\<close>

definition free_below :: "nat \<Rightarrow> space \<Rightarrow> bool" where
  "free_below n s \<longleftrightarrow> space_ok s \<and> bk_maps s = [] \<and> sp_mapped s = [] \<and> (\<forall>x\<in>free_bytes (sp_free s). x < n)"

lemma free_below_mono: "free_below n s \<Longrightarrow> n \<le> m \<Longrightarrow> free_below m s"
  by (auto simp: free_below_def)

lemma reserve_range_ok:
  assumes b: "free_below start s" and le: "start \<le> end1" "end1 < UINT64_MAX"
  shows "free_below end1 (reserve_range start end1 s)"
proof (cases "AlignUp start GUEST_PAGE_SIZE = 0 \<or> AlignDown end1 GUEST_PAGE_SIZE \<le> AlignUp start GUEST_PAGE_SIZE")
  case True
  then show ?thesis using free_below_mono [OF b le(1)] by (simp add: reserve_range_def Let_def)
next
  case False
  let ?a = "AlignUp start GUEST_PAGE_SIZE" and ?e = "AlignDown end1 GUEST_PAGE_SIZE"
  have a: "start \<le> ?a" "?a \<noteq> 0" "?a < ?e" "?e \<le> end1"
    using False AlignUp_ok(1) [of start GUEST_PAGE_SIZE] AlignDown_le [of end1 GUEST_PAGE_SIZE] le by (auto simp: GUEST_PAGE_SIZE_def)
  note s = b [unfolded free_below_def]
  note d = space_okD [OF s [THEN conjunct1]]
  obtain t ok where h: "host_do (Map_None ?a (?e - ?a)) s = (t, ok)" by fastforce
  note hv = host_do_view [OF h]
  have f: "bk_maps t = bk_maps s" "bk_available t = bk_available s" "bk_size t = bk_size s" "sp_free t = sp_free s"
    "sp_mapped t = sp_mapped s" by (subst hv(2), simp)+
  have "host_view s = (\<lambda>_. None)" using backing_okD(5) [OF d(1)] s by auto
  then have "host_view t = (\<lambda>_. None)" using hv(1) by (auto simp: fun_eq_iff)
  then have ok1: "backing_ok t" using d(1) f s by (auto simp: backing_ok_def RangeOk_def)
  show ?thesis
  proof (cases ok)
    case no: False
    have "space_ok t" using ok1 d f by (simp add: space_ok_def)
    then have "free_below start t" using s f by (simp add: free_below_def)
    then show ?thesis using False h no free_below_mono [OF _ le(1)] by (simp add: reserve_range_def Let_def)
  next
    case True
    let ?n = "?e - ?a"
    have n: "0 < ?n" "?a + ?n = ?e" using a by simp_all
    have fr: "free_ok (sp_free t)" "{?a..<?a + ?n} \<inter> free_bytes (sp_free t) = {}"
      using d(3) f(4) s a(1) by fastforce+
    have lim: "?a + ?n \<le> UINT64_MAX" "\<forall>x\<in>free_bytes (sp_free t). x < UINT64_MAX"
      using n(2) a(4) le(2) d(4) f(4) by auto
    note af = AddFreeUnlocked_ok [OF fr(1) a(2) n(1) fr(2) lim refl]
    let ?u = "(AddFreeUnlocked ?a ?n t)\<lparr>sp_owned := sp_owned t @ [(?a, ?n)]\<rparr>"
    have fu: "bk_maps ?u = bk_maps t" "sp_log ?u = sp_log t" "bk_available ?u = bk_available t" "bk_size ?u = bk_size t"
      "sp_mapped ?u = sp_mapped t" "sp_free ?u = sp_free (AddFreeUnlocked ?a ?n t)" by (subst af(1), simp)+
    have bo: "backing_ok ?u" using backing_ok_cong [OF fu(1-4)] ok1 by simp
    have bytes: "free_bytes (sp_free ?u) = free_bytes (sp_free s) \<union> {?a..<?e}" using af(3) fu(6) f(4) n(2) by simp
    have "space_ok ?u" unfolding space_ok_def using bo af(2) fu f s a d(4) bytes le by (auto simp del: space.update_convs)
    then have "free_below end1 ?u" unfolding free_below_def using fu(1,5) f s a bytes le by (auto simp del: space.update_convs)
    moreover have "reserve_range start end1 s = ?u"
      using False h True hv(2) by (simp add: reserve_range_def Let_def)
    ultimately show ?thesis by simp
  qed
qed

lemma reserve_gaps_ok:
  assumes "free_below current s" "current \<le> region_end" "region_end < UINT64_MAX" "\<forall>(a, b)\<in>set occupied. a \<le> b"
    "reserve_gaps current region_end occupied s = (current', s')"
  shows "free_below (min current' region_end) s'"
  using assms
proof (induction current region_end occupied s rule: reserve_gaps.induct)
  case (1 current region_end s)
  then show ?case by (auto simp: min_absorb1)
next
  case (2 current region_end ms me occupied s)
  note p = 2(3-)
  show ?case
  proof (cases "me \<le> current \<or> ms \<ge> region_end")
    case True
    show ?thesis
    proof (cases "me \<le> current")
      case True
      then show ?thesis using 2(1) p by simp
    next
      case False
      then show ?thesis using p True by (auto simp: min_absorb1)
    qed
  next
    case False
    let ?s = "if ms > current then reserve_range current (min ms region_end) s else s" and ?c = "max current me"
    have b: "free_below (min ?c region_end) ?s"
    proof (cases "ms > current")
      case True
      have "free_below (min ms region_end) (reserve_range current (min ms region_end) s)"
        by (rule reserve_range_ok) (use p True in auto)
      moreover have "min ms region_end \<le> min ?c region_end" using p(4) by auto
      ultimately show ?thesis using True free_below_mono by auto
    next
      case no: False
      then show ?thesis using free_below_mono [OF p(1), of "min ?c region_end"] p(2) by simp
    qed
    show ?thesis
    proof (cases "?c \<ge> region_end")
      case True
      then have "current' = ?c" "s' = ?s" using p(5) False by (simp_all add: Let_def)
      then show ?thesis using b by simp
    next
      case no: False
      have "reserve_gaps ?c region_end occupied ?s = (current', s')" using p(5) False no by (simp add: Let_def)
      moreover have "free_below ?c ?s" using b unfolding min_absorb1 [OF less_imp_le [OF no [unfolded not_le]]] .
      ultimately show ?thesis using 2(2) False no p(3,4) by simp
    qed
  qed
qed

lemma reserve_region_ok:
  assumes "free_below (fst r) s" "fst r \<le> snd r" "snd r < UINT64_MAX" "\<forall>(a, b)\<in>set occupied. a \<le> b"
  shows "free_below (snd r) (reserve_region occupied r s)"
proof -
  obtain c t where g: "reserve_gaps (fst r) (snd r) occupied s = (c, t)" by fastforce
  have b: "free_below (min c (snd r)) t" by (rule reserve_gaps_ok [OF assms(1,2,3,4) g])
  show ?thesis
  proof (cases "c < snd r")
    case True
    then show ?thesis using reserve_range_ok [of c t "snd r"] b assms(3) g by (simp add: reserve_region_def min_absorb1)
  next
    case False
    then show ?thesis using b g by (simp add: reserve_region_def min_absorb2)
  qed
qed

lemma new_space_ok:
  assumes "\<forall>(a, b)\<in>set occupied. a \<le> b"
  shows "case new_space answers occupied available backing_size of
      Inl x \<Rightarrow> \<not> available | Inr s \<Rightarrow> space_ok s \<and> (\<forall>a. use_at s a = Use_Free \<or> use_at s a = Use_None)"
proof (cases available)
  case True
  let ?s = "\<lparr>sp_answers = answers, sp_log = [], bk_available = available, bk_size = backing_size, bk_bytes = (\<lambda>_. 0), bk_maps = [],
          sp_free = [], sp_mapped = [], sp_owned = []\<rparr>"
  have "free_below HOST_SYSTEM_MANAGED_MIN ?s"
    using True by (simp add: free_below_def space_ok_def backing_ok_def host_view_def fun_eq_iff free_ok_def free_bytes_def)
  then have 1: "free_below (HOST_SYSTEM_MANAGED_MAX + 1) (reserve_region occupied (HOST_SYSTEM_MANAGED_MIN, HOST_SYSTEM_MANAGED_MAX + 1) ?s)" (is "free_below _ ?s1")
    using reserve_region_ok [of "(HOST_SYSTEM_MANAGED_MIN, HOST_SYSTEM_MANAGED_MAX + 1)" ?s] assms
    by (simp add: HOST_SYSTEM_MANAGED_MIN_def HOST_SYSTEM_MANAGED_MAX_def UINT64_MAX_def)
  have 2: "free_below (HOST_SYSTEM_RESERVED_MAX + 1) (reserve_region occupied (HOST_SYSTEM_RESERVED_MIN, HOST_SYSTEM_RESERVED_MAX + 1) ?s1)" (is "free_below _ ?s2")
    using reserve_region_ok [of "(HOST_SYSTEM_RESERVED_MIN, HOST_SYSTEM_RESERVED_MAX + 1)" ?s1] 1 assms
    by (simp add: HOST_SYSTEM_RESERVED_MIN_def HOST_SYSTEM_RESERVED_MAX_def HOST_SYSTEM_MANAGED_MAX_def UINT64_MAX_def)
  have "free_below HOST_USER_MIN ?s2"
    by (rule free_below_mono [OF 2]) (simp add: HOST_USER_MIN_def HOST_SYSTEM_RESERVED_MAX_def)
  then have 3: "free_below (HOST_USER_MAX + 1) (reserve_region occupied (HOST_USER_MIN, HOST_USER_MAX + 1) ?s2)"
    using reserve_region_ok [of "(HOST_USER_MIN, HOST_USER_MAX + 1)" ?s2] assms
    by (simp add: HOST_USER_MIN_def HOST_USER_MAX_def UINT64_MAX_def)
  then have "use_at (reserve_region occupied (HOST_USER_MIN, HOST_USER_MAX + 1) ?s2) a \<in> {Use_Free, Use_None}" for a
    using backing_okD(5) by (auto simp: use_at_def free_below_def space_ok_def split: option.splits)
  then show ?thesis using 3 True by (auto simp: new_space_def ReserveGuestRegions_def free_below_def)
qed (simp add: new_space_def)

section \<open>Reading and writing through the views\<close>

abbreviation transfer_of :: "nat \<Rightarrow> map_entry \<Rightarrow> nat \<times> nat \<times> nat" where
  "transfer_of vaddr p \<equiv> (me_backing_offset p, me_vaddr p - vaddr, me_size p)"

definition parts_in :: "nat \<Rightarrow> nat \<Rightarrow> map_entry list \<Rightarrow> bool" where
  "parts_in vaddr bytes ps \<longleftrightarrow>
     ordered me_vaddr me_size ps \<and> (\<forall>p\<in>set ps. vaddr \<le> me_vaddr p \<and> me_vaddr p + me_size p \<le> vaddr + bytes)"

lemma parts_in_Cons:
  "parts_in vaddr bytes (p # ps) \<Longrightarrow> parts_in vaddr bytes ps \<and> vaddr \<le> me_vaddr p \<and> me_vaddr p + me_size p \<le> vaddr + bytes \<and>
     0 < me_size p \<and> (\<forall>a. covers me_vaddr me_size p a \<longrightarrow> offset_at ps a = None)"
  by (fastforce simp: parts_in_def ordered_Cons seen_at_None covers_def)

lemma copy_out_nth:
  assumes "d + n \<le> length data"
  shows "length (copy_out mem (offset, d, n) data) = length data"
    "i < length data \<Longrightarrow> copy_out mem (offset, d, n) data ! i = (if d \<le> i \<and> i < d + n then mem (offset + (i - d)) else data ! i)"
  using assms by (auto simp: copy_out_def nth_append)

lemma read_parts:
  "parts_in vaddr bytes ps \<Longrightarrow> bytes \<le> length data \<Longrightarrow>
     length (fold (copy_out mem) (map (transfer_of vaddr) ps) data) = length data \<and>
     (\<forall>i<length data. fold (copy_out mem) (map (transfer_of vaddr) ps) data ! i =
       (case offset_at ps (vaddr + i) of None \<Rightarrow> data ! i | Some offset \<Rightarrow> mem offset))"
proof (induction ps arbitrary: data)
  case (Cons p ps)
  note p = parts_in_Cons [OF Cons.prems(1)]
  let ?data = "copy_out mem (transfer_of vaddr p) data"
  have fit: "me_vaddr p - vaddr + me_size p \<le> length data" using p Cons.prems(2) by auto
  note c = copy_out_nth [OF fit, where mem = mem and offset = "me_backing_offset p"]
  have ih: "length (fold (copy_out mem) (map (transfer_of vaddr) ps) ?data) = length data \<and>
     (\<forall>i<length data. fold (copy_out mem) (map (transfer_of vaddr) ps) ?data ! i =
       (case offset_at ps (vaddr + i) of None \<Rightarrow> ?data ! i | Some offset \<Rightarrow> mem offset))"
    using Cons.IH [of ?data] p Cons.prems(2) c(1) by simp
  have "(case offset_at ps (vaddr + i) of None \<Rightarrow> ?data ! i | Some offset \<Rightarrow> mem offset) =
    (case offset_at (p # ps) (vaddr + i) of None \<Rightarrow> data ! i | Some offset \<Rightarrow> mem offset)" if i: "i < length data" for i
  proof (cases "covers me_vaddr me_size p (vaddr + i)")
    case True
    then have "offset_at ps (vaddr + i) = None" "me_vaddr p - vaddr \<le> i" "i < me_vaddr p - vaddr + me_size p"
      using p by (auto simp: covers_def)
    moreover have "vaddr + i - me_vaddr p = i - (me_vaddr p - vaddr)" using True p by (auto simp: covers_def)
    ultimately show ?thesis using c(2) [OF i] True by (simp add: covers_def entry_view_def)
  next
    case False
    then have "\<not> (me_vaddr p - vaddr \<le> i \<and> i < me_vaddr p - vaddr + me_size p)" using p by (auto simp: covers_def)
    then have "?data ! i = data ! i" unfolding c(2) [OF i] by (rule if_not_P)
    moreover have "offset_at (p # ps) (vaddr + i) = offset_at ps (vaddr + i)" using False by (auto simp: covers_def)
    ultimately show ?thesis by (cases "offset_at ps (vaddr + i)") simp_all
  qed
  then show ?case using ih by simp
qed simp

lemma write_parts:
  assumes "parts_in vaddr bytes ps" "inj_on (\<lambda>a. offset_at ps a) {a. offset_at ps a \<noteq> None}"
  shows "(\<forall>a x. offset_at ps a = Some x \<longrightarrow> fold (copy_in data) (map (transfer_of vaddr) ps) mem x = data ! (a - vaddr)) \<and>
    (\<forall>x. (\<forall>a. offset_at ps a \<noteq> Some x) \<longrightarrow> fold (copy_in data) (map (transfer_of vaddr) ps) mem x = mem x)"
  using assms
proof (induction ps arbitrary: mem)
  case (Cons p ps)
  note p = parts_in_Cons [OF Cons.prems(1)]
  let ?mem = "copy_in data (transfer_of vaddr p) mem"
  have at: "offset_at (p # ps) a = (if covers me_vaddr me_size p a then Some (entry_view p a) else offset_at ps a)" for a
    by (simp add: covers_def)
  have tail: "offset_at (p # ps) a = offset_at ps a" if "offset_at ps a \<noteq> None" for a using that p at [of a] by auto
  have inj: "inj_on (\<lambda>a. offset_at ps a) {a. offset_at ps a \<noteq> None}"
  proof (rule inj_onI, unfold mem_Collect_eq)
    fix a b assume ab: "offset_at ps a \<noteq> None" "offset_at ps b \<noteq> None" "offset_at ps a = offset_at ps b"
    show "a = b" by (rule inj_onD [OF Cons.prems(2)]) (use ab tail in simp_all)
  qed
  have "parts_in vaddr bytes ps" using p by blast
  note ih = Cons.IH [OF this inj, of ?mem]
  have mem: "?mem x = (if me_backing_offset p \<le> x \<and> x < me_backing_offset p + me_size p
      then data ! (me_vaddr p - vaddr + (x - me_backing_offset p)) else mem x)" for x by (simp add: copy_in_def)
  have hit: "\<exists>a. covers me_vaddr me_size p a \<and> entry_view p a = x"
    if "me_backing_offset p \<le> x" "x < me_backing_offset p + me_size p" for x
    using that by (intro exI [of _ "me_vaddr p + (x - me_backing_offset p)"]) (auto simp: covers_def entry_view_def)
  have "fold (copy_in data) (map (transfer_of vaddr) ps) ?mem x = data ! (a - vaddr)" if a: "offset_at (p # ps) a = Some x" for a x
  proof (cases "covers me_vaddr me_size p a")
    case True
    then have x: "x = entry_view p a" using a at [of a] by simp
    have "offset_at ps b \<noteq> Some x" for b
    proof
      assume b: "offset_at ps b = Some x"
      then have "offset_at (p # ps) b = Some x" using tail [of b] by simp
      then have "a = b" using inj_onD [OF Cons.prems(2), of a b] a by simp
      then show False using p True b by auto
    qed
    then have "fold (copy_in data) (map (transfer_of vaddr) ps) ?mem x = ?mem x" using ih by blast
    also have "\<dots> = data ! (me_vaddr p - vaddr + (x - me_backing_offset p))"
      unfolding mem using x True by (auto simp: entry_view_def covers_def)
    also have "me_vaddr p - vaddr + (x - me_backing_offset p) = a - vaddr" using x True p by (auto simp: entry_view_def covers_def)
    finally show ?thesis .
  next
    case False
    then show ?thesis using ih a at [of a] by simp
  qed
  moreover have "fold (copy_in data) (map (transfer_of vaddr) ps) ?mem x = mem x" if x: "\<forall>a. offset_at (p # ps) a \<noteq> Some x" for x
  proof -
    have "\<forall>a. offset_at ps a \<noteq> Some x"
    proof (intro allI notI)
      fix a assume "offset_at ps a = Some x"
      then show False using x tail [of a] by simp
    qed
    then have "fold (copy_in data) (map (transfer_of vaddr) ps) ?mem x = ?mem x" using ih by blast
    moreover have "\<not> (me_backing_offset p \<le> x \<and> x < me_backing_offset p + me_size p)"
    proof
      assume "me_backing_offset p \<le> x \<and> x < me_backing_offset p + me_size p"
      then obtain a where "covers me_vaddr me_size p a" "entry_view p a = x" using hit [of x] by blast
      then show False using x at [of a] by simp
    qed
    ultimately show ?thesis using mem by simp
  qed
  ultimately show ?case by simp
qed simp

lemma TryTransfer_ok:
  assumes ok: "backing_ok s"
  shows "case TryTransferBacking vaddr bytes s of
      None \<Rightarrow> \<not> BackingContains vaddr bytes s
    | Some ts \<Rightarrow> BackingContains vaddr bytes s \<and> (\<exists>ps. ts = map (transfer_of vaddr) ps \<and> parts_in vaddr bytes ps \<and>
        (\<forall>a. offset_at ps a = (if vaddr \<le> a \<and> a < vaddr + bytes then host_view s a else None)) \<and>
        (\<forall>a. vaddr \<le> a \<and> a < vaddr + bytes \<longrightarrow> host_view s a \<noteq> None))"
proof (cases "bytes = 0 \<or> UINT64_MAX - vaddr < bytes")
  case True
  then show ?thesis by (simp add: TryTransferBacking_def BackingContains_def)
next
  case False
  then have v: "vaddr + bytes \<le> UINT64_MAX" by auto
  note d = backing_okD [OF ok] and parts = backing_parts_ok [OF backing_okD(1) [OF ok] v, of vaddr]
  show ?thesis
  proof (cases "backing_parts vaddr (vaddr + bytes) s")
    case None
    then show ?thesis using False d(4) by (simp add: TryTransferBacking_def BackingContains_def)
  next
    case (Some ps)
    have p: "ordered me_vaddr me_size ps"
      "\<forall>a. offset_at ps a = (if vaddr \<le> a \<and> a < vaddr + bytes then offset_at (bk_maps s) a else None)"
      "\<forall>a. vaddr \<le> a \<and> a < vaddr + bytes \<longrightarrow> offset_at (bk_maps s) a \<noteq> None"
      "\<forall>p\<in>set ps. vaddr \<le> me_vaddr p \<and> me_vaddr p + me_size p \<le> vaddr + bytes \<and> (\<exists>e\<in>set (bk_maps s). part_of (vaddr + bytes) p e)"
      using parts unfolding Some option.case by blast+
    have "RangeOk (me_backing_offset p) (me_size p) s" if mem: "p \<in> set ps" for p
    proof -
      obtain e where e: "e \<in> set (bk_maps s)" "part_of (vaddr + bytes) p e"
        using bspec [OF p(4) mem] by (elim conjE bexE)
      then show ?thesis using RangeOk_part [OF d(3) [OF e(1)], of "me_vaddr p - me_vaddr e" "me_size p"] ordered_mem [OF p(1) mem]
        by (auto simp: part_of_def)
    qed
    then have no: "(\<exists>p\<in>set ps. \<not> RangeOk (me_backing_offset p) (me_size p) s) = False" by blast
    have "TryTransferBacking vaddr bytes s = Some (map (transfer_of vaddr) ps)"
      unfolding TryTransferBacking_def Some option.case no using False d(4) by simp
    moreover have "BackingContains vaddr bytes s" using False Some by (simp add: BackingContains_def)
    moreover have "parts_in vaddr bytes ps" using p(1,4) by (simp add: parts_in_def)
    moreover have "host_view s = offset_at (bk_maps s)" using d(5) by (simp add: fun_eq_iff)
    ultimately show ?thesis using p(2,3) by auto
  qed
qed

text \<open>The sparse read visits the entries that meet the range, each cut to it.\<close>

definition cut_to :: "nat \<Rightarrow> nat \<Rightarrow> map_entry \<Rightarrow> map_entry" where
  "cut_to vaddr end1 e = \<lparr>me_vaddr = max vaddr (me_vaddr e), me_size = min end1 (me_vaddr e + me_size e) - max vaddr (me_vaddr e),
     me_backing_offset = me_backing_offset e + max vaddr (me_vaddr e) - me_vaddr e, me_mode = me_mode e\<rparr>"

abbreviation meets :: "nat \<Rightarrow> nat \<Rightarrow> map_entry \<Rightarrow> bool" where
  "meets vaddr end1 e \<equiv> vaddr < me_vaddr e + me_size e \<and> me_vaddr e < end1"

lemma takeWhile_ordered:
  "ordered me_vaddr me_size bs \<Longrightarrow> takeWhile (\<lambda>e. me_vaddr e < x) bs = filter (\<lambda>e. me_vaddr e < x) bs"
  "ordered me_vaddr me_size bs \<Longrightarrow> dropWhile (\<lambda>e. me_vaddr e < x) bs = filter (\<lambda>e. \<not> me_vaddr e < x) bs"
proof (induction bs)
  case (Cons e bs)
  case 1
  show ?case
  proof (cases "me_vaddr e < x")
    case True
    then show ?thesis using Cons(1) 1 by (simp add: ordered_Cons)
  next
    case False
    then have "\<not> me_vaddr c < x" if "c \<in> set bs" for c using 1 that by (fastforce simp: ordered_Cons)
    then show ?thesis using False by (simp add: filter_empty_conv)
  qed
next
  case (Cons e bs)
  case 2
  show ?case
  proof (cases "me_vaddr e < x")
    case True
    then show ?thesis using Cons(2) 2 by (simp add: ordered_Cons)
  next
    case False
    then have "\<not> me_vaddr c < x" if "c \<in> set bs" for c using 2 that by (fastforce simp: ordered_Cons)
    then show ?thesis using False by (simp add: filter_id_conv)
  qed
qed simp_all

lemma sparse_parts_ok:
  assumes o: "ordered me_vaddr me_size (bk_maps s)" and lt: "vaddr < end1"
  shows "sparse_parts vaddr end1 s = map (transfer_of vaddr) (map (cut_to vaddr end1) (filter (meets vaddr end1) (bk_maps s)))"
proof -
  let ?before = "takeWhile (\<lambda>e. me_vaddr e < vaddr) (bk_maps s)" and ?rest = "dropWhile (\<lambda>e. me_vaddr e < vaddr) (bk_maps s)"
  have bs: "bk_maps s = ?before @ ?rest" by simp
  then have ob: "ordered me_vaddr me_size ?before" "ordered me_vaddr me_size ?rest" using o by (metis ordered_append)+
  have low: "me_vaddr e < vaddr" if "e \<in> set ?before" for e using that set_takeWhileD by fastforce
  have high: "vaddr \<le> me_vaddr e" if "e \<in> set ?rest" for e using that takeWhile_ordered(2) [OF o] by simp
  have r: "filter (meets vaddr end1) ?rest = takeWhile (\<lambda>e. me_vaddr e < end1) ?rest"
  proof -
    have "meets vaddr end1 e \<longleftrightarrow> me_vaddr e < end1" if "e \<in> set ?rest" for e using high [OF that] ordered_mem [OF ob(2) that] by auto
    then show ?thesis using takeWhile_ordered(1) [OF ob(2), of end1] by (metis (mono_tags, lifting) filter_cong)
  qed
  have l: "filter (meets vaddr end1) ?before =
    (if ?before \<noteq> [] \<and> me_vaddr (last ?before) + me_size (last ?before) > vaddr then [last ?before] else [])"
  proof (cases ?before rule: rev_cases)
    case (snoc xs x)
    have "\<not> meets vaddr end1 e" if "e \<in> set xs" for e
      using ob(1) low [of x] that unfolding snoc by (auto simp: ordered_append)
    then have "filter (meets vaddr end1) xs = []" by (simp add: filter_empty_conv)
    then show ?thesis unfolding snoc using low [of x] lt snoc by auto
  qed simp
  have "takeWhile (\<lambda>e. me_vaddr e < end1) (if ?before \<noteq> [] \<and> me_vaddr (last ?before) + me_size (last ?before) > vaddr
      then last ?before # ?rest else ?rest) = filter (meets vaddr end1) (?before @ ?rest)"
  proof -
    have "?before \<noteq> [] \<Longrightarrow> me_vaddr (last ?before) < end1" using low [OF last_in_set] lt less_trans by blast
    then show ?thesis unfolding filter_append l r by simp
  qed
  then show ?thesis unfolding sparse_parts_def Let_def by (simp add: cut_to_def)
qed

lemma cut_parts_in:
  "ordered me_vaddr me_size bs \<Longrightarrow> end1 \<le> UINT64_MAX \<Longrightarrow> vaddr < end1 \<Longrightarrow>
     parts_in vaddr (end1 - vaddr) (map (cut_to vaddr end1) (filter (meets vaddr end1) bs)) \<and>
     (\<forall>a. offset_at (map (cut_to vaddr end1) (filter (meets vaddr end1) bs)) a =
       (if vaddr \<le> a \<and> a < end1 then offset_at bs a else None))"
proof (induction bs)
  case (Cons e bs)
  have o: "ordered me_vaddr me_size bs" "0 < me_size e" "\<forall>c\<in>set bs. me_vaddr e + me_size e \<le> me_vaddr c"
    using Cons.prems(1) by (simp_all add: ordered_Cons)
  note ih = Cons.IH [OF o(1) Cons.prems(2,3)]
  show ?case
  proof (cases "meets vaddr end1 e")
    case True
    have "parts_in vaddr (end1 - vaddr) (cut_to vaddr end1 e # map (cut_to vaddr end1) (filter (meets vaddr end1) bs))"
    proof -
      have "me_vaddr (cut_to vaddr end1 e) + me_size (cut_to vaddr end1 e) \<le> me_vaddr (cut_to vaddr end1 c)"
        if "c \<in> set bs" "meets vaddr end1 c" for c using o(2,3) that True by (auto simp: cut_to_def)
      moreover have "0 < me_size (cut_to vaddr end1 e)" "vaddr \<le> me_vaddr (cut_to vaddr end1 e)"
        "me_vaddr (cut_to vaddr end1 e) + me_size (cut_to vaddr end1 e) \<le> end1"
        using True o(2) Cons.prems(3) by (auto simp: cut_to_def)
      ultimately show ?thesis using ih Cons.prems(2,3) by (simp add: parts_in_def ordered_Cons)
    qed
    moreover have "offset_at (cut_to vaddr end1 e # map (cut_to vaddr end1) (filter (meets vaddr end1) bs)) a =
      (if vaddr \<le> a \<and> a < end1 then offset_at (e # bs) a else None)" (is "offset_at (?e # ?l) a = _") for a
    proof -
      have l: "offset_at ?l a = (if vaddr \<le> a \<and> a < end1 then offset_at bs a else None)" using ih by blast
      have c: "me_vaddr ?e \<le> a \<and> a < me_vaddr ?e + me_size ?e \<longleftrightarrow>
        (vaddr \<le> a \<and> a < end1) \<and> me_vaddr e \<le> a \<and> a < me_vaddr e + me_size e" using True by (auto simp: cut_to_def)
      have v: "me_vaddr ?e \<le> a \<Longrightarrow> entry_view ?e a = entry_view e a" by (auto simp: cut_to_def entry_view_def)
      show ?thesis unfolding seen_at.simps c l using v c by auto
    qed
    ultimately show ?thesis using True by simp
  next
    case False
    have "offset_at (e # bs) a = offset_at bs a" if "vaddr \<le> a" "a < end1" for a using False that by auto
    then show ?thesis using ih False by auto
  qed
qed (simp add: parts_in_def)

section \<open>Properties\<close>

abbreviation fits :: "nat \<Rightarrow> nat \<Rightarrow> nat \<Rightarrow> nat \<Rightarrow> nat \<Rightarrow> bool" where
  "fits search_start search_end bytes al q \<equiv> search_start \<le> q \<and> q mod al = 0 \<and> q + bytes \<le> search_end"

lemma aligned_candidate_ok:
  assumes r: "0 < base" "base + n \<le> UINT64_MAX" "search_end \<le> UINT64_MAX" "0 < al" "0 < bytes"
    and p: "p = AlignUp (max base search_start) al"
  shows "p < search_end \<and> bytes \<le> search_end - p \<and> GuestFreeRangeContains base n p bytes \<longleftrightarrow>
      (\<exists>q. fits search_start search_end bytes al q \<and> base \<le> q \<and> q + bytes \<le> base + n)"
    "p < search_end \<and> bytes \<le> search_end - p \<and> GuestFreeRangeContains base n p bytes \<Longrightarrow>
      fits search_start search_end bytes al p \<and> base \<le> p \<and> p + bytes \<le> base + n"
    "fits search_start search_end bytes al q \<Longrightarrow> base \<le> q \<Longrightarrow> p \<le> q"
proof -
  let ?c = "p < search_end \<and> bytes \<le> search_end - p \<and> GuestFreeRangeContains base n p bytes"
  let ?fit = "\<lambda>q. fits search_start search_end bytes al q \<and> base \<le> q \<and> q + bytes \<le> base + n"
  have g: "GuestFreeRangeContains base n p bytes \<longleftrightarrow> base \<le> p \<and> p + bytes \<le> base + n"
    using r(2) by (auto simp: GuestFreeRangeContains_def Let_def)
  have up: "p = 0 \<or> max base search_start \<le> p \<and> p mod al = 0 \<and> (\<forall>y. max base search_start \<le> y \<and> y mod al = 0 \<longrightarrow> p \<le> y)"
    if "max base search_start \<le> UINT64_MAX" using AlignUp_ok(1) [OF that r(4)] p by metis
  have fit: "?fit p" if c: ?c
  proof -
    have p0: "p \<noteq> 0" using g r(1) c by linarith
    have "max base search_start \<le> UINT64_MAX"
    proof (rule ccontr)
      assume no: "\<not> max base search_start \<le> UINT64_MAX"
      have "p = 0 \<or> max base search_start \<le> p" unfolding p by (rule AlignUp_ge)
      then show False using c p0 no r(3) by linarith
    qed
    then have "max base search_start \<le> p" "p mod al = 0" using up p0 by blast+
    moreover have "p < search_end" "bytes \<le> search_end - p" "base \<le> p \<and> p + bytes \<le> base + n" using c g by blast+
    ultimately show ?thesis by auto
  qed
  then show "?c \<Longrightarrow> ?fit p" by blast
  have low: "p \<le> q" if q: "fits search_start search_end bytes al q" "base \<le> q" for q
  proof -
    have "max base search_start \<le> UINT64_MAX" using q r(2,3) by simp
    then show ?thesis using up q by (metis le_zero_eq max.bounded_iff nat_le_linear)
  qed
  then show "fits search_start search_end bytes al q \<Longrightarrow> base \<le> q \<Longrightarrow> p \<le> q" .
  have cand: "?c" if q: "?fit q" for q
  proof -
    have m: "max base search_start \<le> UINT64_MAX" using q r(2,3) by simp
    have mq: "max base search_start \<le> q" "q mod al = 0" using q by simp_all
    have p0: "p \<noteq> 0"
    proof
      assume "p = 0"
      then have "max base search_start = 0 \<or> (\<forall>y. max base search_start \<le> y \<and> y mod al = 0 \<longrightarrow> UINT64_MAX < y)"
        using AlignUp_ok(2) [OF m r(4)] p by metis
      moreover have n: "max base search_start \<noteq> 0" "\<not> UINT64_MAX < q" using r(1,3) q by simp_all
      ultimately have "\<forall>y. max base search_start \<le> y \<and> y mod al = 0 \<longrightarrow> UINT64_MAX < y" by (simp only: simp_thms)
      then have "UINT64_MAX < q" using mq by (metis (no_types))
      with n(2) show False by (rule notE)
    qed
    then have "max base search_start \<le> p" using AlignUp_ge [of "max base search_start" al, folded p] by (simp only: simp_thms)
    moreover have "p \<le> q" using low [of q] q by (simp only: simp_thms)
    moreover have "q + bytes \<le> search_end" "q + bytes \<le> base + n" using q by (simp_all only: simp_thms)
    ultimately have "p < search_end" "bytes \<le> search_end - p" "base \<le> p" "p + bytes \<le> base + n" using r(5) by linarith+
    then show ?c using g by (simp only: simp_thms)
  qed
  show "?c \<longleftrightarrow> (\<exists>q. ?fit q)"
  proof
    assume ?c
    then have "?fit p" by (rule fit)
    then show "\<exists>q. ?fit q" by (rule exI)
  next
    assume "\<exists>q. ?fit q"
    then obtain q where "?fit q" ..
    then show ?c by (rule cand)
  qed
qed

lemma free_run_first:
  assumes m: "free_ok ((base, n) # m)" and b: "0 < bytes"
  shows "{q..<q + bytes} \<subseteq> free_bytes ((base, n) # m) \<longleftrightarrow>
    base \<le> q \<and> q + bytes \<le> base + n \<or> {q..<q + bytes} \<subseteq> free_bytes m"
proof
  note sp = free_ok_split(1,3) [of "[]" base n m, unfolded append_Nil, OF m]
  assume sub: "{q..<q + bytes} \<subseteq> free_bytes ((base, n) # m)"
  show "base \<le> q \<and> q + bytes \<le> base + n \<or> {q..<q + bytes} \<subseteq> free_bytes m"
  proof (cases "q < base + n")
    case True
    have "base + n \<notin> free_bytes ((base, n) # m)" using sp(2) by auto
    then have "\<not> base + n < q + bytes" using subsetD [OF sub, of "base + n"] True by auto
    moreover have "q \<in> free_bytes ((base, n) # m)" using subsetD [OF sub, of q] b by simp
    then have "base \<le> q" using True sp(2) by auto
    ultimately show ?thesis by simp
  next
    case False
    have "x \<in> free_bytes m" if "x \<in> {q..<q + bytes}" for x
      using sub that False by (auto dest!: subsetD [OF _ that])
    then show ?thesis by blast
  qed
qed auto

lemma free_candidate_ok:
  assumes "free_ok m" "\<forall>x\<in>free_bytes m. 0 < x \<and> x < UINT64_MAX" "search_end \<le> UINT64_MAX" "0 < al" "0 < bytes"
    and p: "p = free_candidate search_start search_end bytes al m"
  shows "p = 0 \<Longrightarrow> fits search_start search_end bytes al q \<Longrightarrow> \<not> {q..<q + bytes} \<subseteq> free_bytes m"
    "p \<noteq> 0 \<Longrightarrow> fits search_start search_end bytes al p \<and> {p..<p + bytes} \<subseteq> free_bytes m"
    "p \<noteq> 0 \<Longrightarrow> fits search_start search_end bytes al q \<Longrightarrow> {q..<q + bytes} \<subseteq> free_bytes m \<Longrightarrow> p \<le> q"
proof -
  have all: "(p = 0 \<longrightarrow> (\<forall>q. fits search_start search_end bytes al q \<longrightarrow> \<not> {q..<q + bytes} \<subseteq> free_bytes m)) \<and>
    (p \<noteq> 0 \<longrightarrow> fits search_start search_end bytes al p \<and> {p..<p + bytes} \<subseteq> free_bytes m \<and>
       (\<forall>q. fits search_start search_end bytes al q \<and> {q..<q + bytes} \<subseteq> free_bytes m \<longrightarrow> p \<le> q))"
    using assms
  proof (induction m)
    case Nil
    then show ?case by simp
  next
    case (Cons r m)
    obtain base n where r: "r = (base, n)" by (cases r)
    note m = Cons.prems(1) [unfolded r]
    note sp = free_ok_split(1,3) [of "[]" base n m, unfolded append_Nil, OF m] and run = free_run_first [OF m Cons.prems(5)]
    have in_r: "base \<in> free_bytes (r # m)" "base + n - 1 \<in> free_bytes (r # m)" using sp(1) r by auto
    then have b: "0 < base" "base + n \<le> UINT64_MAX" using Cons.prems(2) sp(1) by fastforce+
    have ok: "free_ok m" using m by (auto simp: free_ok_def intro: separated_mono)
    let ?p = "AlignUp (max base search_start) al"
    note c = aligned_candidate_ok [OF b Cons.prems(3-5) refl, of search_start]
    show ?case
    proof (cases "?p < search_end \<and> bytes \<le> search_end - ?p \<and> GuestFreeRangeContains base n ?p bytes")
      case True
      then have p: "p = ?p" using Cons.prems(6) r by (simp add: Let_def)
      have f: "fits search_start search_end bytes al ?p \<and> base \<le> ?p \<and> ?p + bytes \<le> base + n" by (rule c(2) [OF True])
      then have f1: "?p \<noteq> 0" "{?p..<?p + bytes} \<subseteq> free_bytes (r # m)" using b(1) r by auto
      have low: "?p \<le> q" if q: "fits search_start search_end bytes al q" "{q..<q + bytes} \<subseteq> free_bytes (r # m)" for q
      proof (rule c(3) [OF q(1)])
        have "q \<in> free_bytes ((base, n) # m)" using subsetD [OF q(2), of q] Cons.prems(5) r by simp
        then show "base \<le> q" using sp(2) by fastforce
      qed
      show ?thesis unfolding p
      proof (intro conjI impI allI)
        show "\<not> {q..<q + bytes} \<subseteq> free_bytes (r # m)" if "?p = 0" for q using f1(1) that by (rule notE)
      qed (use f f1(2) low in auto)
    next
      case False
      then have p: "p = free_candidate search_start search_end bytes al m" using Cons.prems(6) r by (auto simp: Let_def)
      have no: "\<not> (fits search_start search_end bytes al q \<and> base \<le> q \<and> q + bytes \<le> base + n)" for q
      proof
        assume "fits search_start search_end bytes al q \<and> base \<le> q \<and> q + bytes \<le> base + n"
        then have "\<exists>q. fits search_start search_end bytes al q \<and> base \<le> q \<and> q + bytes \<le> base + n" by (rule exI)
        then have "?p < search_end \<and> bytes \<le> search_end - ?p \<and> GuestFreeRangeContains base n ?p bytes" by (rule c(1) [THEN iffD2])
        with False show False by (rule notE)
      qed
      have "\<forall>x\<in>free_bytes m. 0 < x \<and> x < UINT64_MAX" using Cons.prems(2) r by simp
      note ih = Cons.IH [OF ok this Cons.prems(3-5) p]
      have "{q..<q + bytes} \<subseteq> free_bytes (r # m) \<longleftrightarrow> {q..<q + bytes} \<subseteq> free_bytes m" if "fits search_start search_end bytes al q" for q
        using run [of q] no [of q] that unfolding r by (simp only: simp_thms)
      then show ?thesis using ih by (simp cong: conj_cong)
    qed
  qed
  show "\<not> {q..<q + bytes} \<subseteq> free_bytes m" if "p = 0" "fits search_start search_end bytes al q"
    by (rule all [THEN conjunct1, THEN mp, OF that(1), THEN spec, THEN mp, OF that(2)])
  show "fits search_start search_end bytes al p \<and> {p..<p + bytes} \<subseteq> free_bytes m" if "p \<noteq> 0"
    using all [THEN conjunct2, THEN mp, OF that] by (elim conjE) (intro conjI)
  show "p \<le> q" if "p \<noteq> 0" "fits search_start search_end bytes al q" "{q..<q + bytes} \<subseteq> free_bytes m"
    using all [THEN conjunct2, THEN mp, OF that(1), THEN conjunct2, THEN conjunct2, THEN spec [of _ q], THEN mp, OF conjI [OF that(2,3)]] .
qed

lemma contains_cong: "bk_maps t = bk_maps s \<Longrightarrow> BackingContains vaddr bytes t \<longleftrightarrow> BackingContains vaddr bytes s"
proof -
  assume m: "bk_maps t = bk_maps s"
  have "backing_parts current end1 u = backing_parts current end1 t" if "bk_maps u = bk_maps t" for current end1 t u
    using that
  proof (induction current end1 u rule: backing_parts.induct)
    case (1 current end1 u)
    have "FindContainingUnlocked current 1 u = FindContainingUnlocked current 1 t" using 1(2) by (simp add: FindContainingUnlocked_def)
    then have f: "FindContainingUnlocked current 1 t = FindContainingUnlocked current 1 u" ..
    show ?case
    proof (cases "current < end1")
      case lt: True
      show ?thesis
      proof (cases "FindContainingUnlocked current 1 u")
        case None
        then show ?thesis using lt f by (simp add: backing_parts.simps [of current end1])
      next
        case (Some e)
        show ?thesis
          unfolding backing_parts.simps [of current end1 u] backing_parts.simps [of current end1 t] f Some option.case Let_def
            1(1) [OF lt Some refl 1(2)] ..
      qed
    next
      case False
      then show ?thesis unfolding backing_parts.simps [of current end1 u] backing_parts.simps [of current end1 t] by simp
    qed
  qed
  from this [OF m [symmetric]] show ?thesis by (simp add: BackingContains_def)
qed

lemma TryRead_ok:
  assumes ok: "backing_ok s" and len: "bytes \<le> length buf"
  shows "case TryReadBacking vaddr (Some buf) bytes s of
       None \<Rightarrow> \<not> BackingContains vaddr bytes s
     | Some out \<Rightarrow> BackingContains vaddr bytes s \<and>
         out = map (\<lambda>i. bk_bytes s (the (host_view s (vaddr + i)))) [0..<bytes] @ drop bytes buf"
proof (cases "TryTransferBacking vaddr bytes s")
  case None
  then show ?thesis using TryTransfer_ok [OF ok, of vaddr bytes] by (simp add: TryReadBacking_def)
next
  case (Some ts)
  then obtain ps where c: "BackingContains vaddr bytes s" and ps: "ts = map (transfer_of vaddr) ps" "parts_in vaddr bytes ps"
    "\<And>a. offset_at ps a = (if vaddr \<le> a \<and> a < vaddr + bytes then host_view s a else None)"
    "\<And>a. vaddr \<le> a \<and> a < vaddr + bytes \<Longrightarrow> host_view s a \<noteq> None"
    using TryTransfer_ok [OF ok, of vaddr bytes] by auto
  note rp = read_parts [OF ps(2) len, of "bk_bytes s"]
  have "fold (copy_out (bk_bytes s)) ts buf = map (\<lambda>i. bk_bytes s (the (host_view s (vaddr + i)))) [0..<bytes] @ drop bytes buf"
  proof (rule nth_equalityI)
    show "length (fold (copy_out (bk_bytes s)) ts buf) = length (map (\<lambda>i. bk_bytes s (the (host_view s (vaddr + i)))) [0..<bytes] @ drop bytes buf)"
      using rp ps(1) len by simp
    fix i assume "i < length (fold (copy_out (bk_bytes s)) ts buf)"
    then have i: "i < length buf" using rp ps(1) by simp
    show "fold (copy_out (bk_bytes s)) ts buf ! i = (map (\<lambda>i. bk_bytes s (the (host_view s (vaddr + i)))) [0..<bytes] @ drop bytes buf) ! i"
      using rp [THEN conjunct2, rule_format, OF i] ps(3) [of "vaddr + i"] ps(4) [of "vaddr + i"] ps(1) len i
      by (cases "i < bytes") (auto simp: nth_append split: option.splits)
  qed
  then show ?thesis using Some c by (simp add: TryReadBacking_def)
qed

lemma TryReadSparse_ok:
  assumes ok: "backing_ok s" and len: "bytes \<le> length buf" and n: "bytes \<noteq> 0" "vaddr + bytes \<le> UINT64_MAX"
  shows "TryReadSparseBacking vaddr (Some buf) bytes s =
        Some (map (\<lambda>i. case host_view s (vaddr + i) of None \<Rightarrow> 0 | Some x \<Rightarrow> bk_bytes s x) [0..<bytes] @ drop bytes buf)"
proof -
  note d = backing_okD [OF ok]
  let ?ps = "map (cut_to vaddr (vaddr + bytes)) (filter (meets vaddr (vaddr + bytes)) (bk_maps s))"
  let ?buf = "replicate bytes 0 @ drop bytes buf"
  have lt: "vaddr < vaddr + bytes" using n by simp
  have ts: "sparse_parts vaddr (vaddr + bytes) s = map (transfer_of vaddr) ?ps" by (rule sparse_parts_ok [OF d(1) lt])
  have ps: "parts_in vaddr bytes ?ps"
    "\<And>a. offset_at ?ps a = (if vaddr \<le> a \<and> a < vaddr + bytes then host_view s a else None)"
    using cut_parts_in [OF d(1) n(2) lt] d(5) by simp_all
  have "RangeOk offset n s" if t: "(offset, doff, n) \<in> set (map (transfer_of vaddr) ?ps)" for offset doff n
  proof -
    obtain e where e: "e \<in> set (bk_maps s)" "meets vaddr (vaddr + bytes) e"
      "offset = me_backing_offset (cut_to vaddr (vaddr + bytes) e)" "n = me_size (cut_to vaddr (vaddr + bytes) e)" using t by auto
    have o: "offset = me_backing_offset e + (max vaddr (me_vaddr e) - me_vaddr e)" using e(3) by (simp add: cut_to_def)
    show ?thesis unfolding o
      by (rule RangeOk_part [OF d(3) [OF e(1)]])
         (use ordered_mem [OF d(1) e(1)] e(2,4) \<open>bytes \<noteq> 0\<close> in \<open>auto simp: cut_to_def\<close>)
  qed
  then have no: "(\<exists>(offset, doff, n)\<in>set (map (transfer_of vaddr) ?ps). \<not> RangeOk offset n s) = False" by fastforce
  have lb: "bytes \<le> length ?buf" by simp
  note rp = read_parts [OF ps(1) lb, of "bk_bytes s"]
  have "fold (copy_out (bk_bytes s)) (map (transfer_of vaddr) ?ps) ?buf =
    map (\<lambda>i. case host_view s (vaddr + i) of None \<Rightarrow> 0 | Some x \<Rightarrow> bk_bytes s x) [0..<bytes] @ drop bytes buf" (is "?l = ?r")
  proof (rule nth_equalityI)
    show "length ?l = length ?r" using rp [THEN conjunct1] by simp
    fix i assume "i < length ?l"
    then have i: "i < length ?buf" using rp [THEN conjunct1] by simp
    have "?l ! i = (case offset_at ?ps (vaddr + i) of None \<Rightarrow> ?buf ! i | Some offset \<Rightarrow> bk_bytes s offset)"
      by (rule rp [THEN conjunct2, rule_format, OF i])
    also have "\<dots> = ?r ! i" unfolding ps(2) using i by (cases "i < bytes") (auto simp: nth_append split: option.splits)
    finally show "?l ! i = ?r ! i" .
  qed
  then show ?thesis unfolding TryReadSparseBacking_def ts Let_def no using n d(4) by auto
qed

lemma TryWrite_ok:
  assumes ok: "backing_ok s" and len: "bytes \<le> length data" "bytes \<le> length buf"
    and inj: "inj_on (host_view s) {vaddr..<vaddr + bytes}"
  shows "case TryWriteBacking vaddr (Some data) bytes s of (s', r) \<Rightarrow>
        (r \<longleftrightarrow> BackingContains vaddr bytes s) \<and> backing_ok s' \<and> host_view s' = host_view s \<and>
        (r \<longrightarrow> TryReadBacking vaddr (Some buf) bytes s' = Some (take bytes data @ drop bytes buf)) \<and>
        (\<forall>x. (\<forall>a\<in>{vaddr..<vaddr + bytes}. host_view s a \<noteq> Some x) \<longrightarrow> bk_bytes s' x = bk_bytes s x)"
proof (cases "TryTransferBacking vaddr bytes s")
  case None
  then show ?thesis using ok TryTransfer_ok [OF ok, of vaddr bytes] by (simp add: TryWriteBacking_def)
next
  case (Some ts)
  then obtain ps where c: "BackingContains vaddr bytes s" and ps: "ts = map (transfer_of vaddr) ps" "parts_in vaddr bytes ps"
    "\<And>a. offset_at ps a = (if vaddr \<le> a \<and> a < vaddr + bytes then host_view s a else None)"
    "\<And>a. vaddr \<le> a \<and> a < vaddr + bytes \<Longrightarrow> host_view s a \<noteq> None"
    using TryTransfer_ok [OF ok, of vaddr bytes] by auto
  let ?mem = "fold (copy_in data) ts (bk_bytes s)"
  let ?s = "s\<lparr>bk_bytes := ?mem\<rparr>"
  have "inj_on (offset_at ps) {a. offset_at ps a \<noteq> None}"
  proof (rule inj_onI, unfold mem_Collect_eq)
    fix a b assume "offset_at ps a \<noteq> None" "offset_at ps b \<noteq> None" "offset_at ps a = offset_at ps b"
    then show "a = b" using inj_onD [OF inj, of a b] ps(3) by (auto split: if_splits)
  qed
  note w = write_parts [OF ps(2) this, of data "bk_bytes s", folded ps(1)]
  have ok': "backing_ok ?s" using backing_ok_cong [of ?s s] ok by simp
  have hv: "host_view ?s = host_view s" by (simp add: host_view_def)
  have c': "BackingContains vaddr bytes ?s"
    using TryTransfer_ok [OF ok', of vaddr bytes] c TryTransfer_ok [OF ok, of vaddr bytes] contains_cong [of ?s s] by simp
  have mem: "?mem (the (host_view s (vaddr + i))) = data ! i" if i: "i < bytes" for i
  proof -
    obtain x where x: "host_view s (vaddr + i) = Some x" using ps(4) [of "vaddr + i"] i by auto
    then have "offset_at ps (vaddr + i) = Some x" using ps(3) i by simp
    then show ?thesis using w [THEN conjunct1, rule_format, of "vaddr + i" x] x by simp
  qed
  have "TryReadBacking vaddr (Some buf) bytes ?s = Some (take bytes data @ drop bytes buf)"
  proof -
    have "TryReadBacking vaddr (Some buf) bytes ?s =
      Some (map (\<lambda>i. ?mem (the (host_view s (vaddr + i)))) [0..<bytes] @ drop bytes buf)"
      using TryRead_ok [OF ok' len(2), of vaddr] c' hv by (auto split: option.splits)
    also have "map (\<lambda>i. ?mem (the (host_view s (vaddr + i)))) [0..<bytes] = map (\<lambda>i. data ! i) [0..<bytes]"
      using mem by (intro map_cong) simp_all
    also have "map (\<lambda>i. data ! i) [0..<bytes] = take bytes data" using len(1) by (intro nth_equalityI) simp_all
    finally show ?thesis .
  qed
  moreover have "?mem x = bk_bytes s x" if "\<forall>a\<in>{vaddr..<vaddr + bytes}. host_view s a \<noteq> Some x" for x
  proof -
    have "\<forall>a. offset_at ps a \<noteq> Some x" using that ps(3) by (auto split: if_splits)
    then show ?thesis using w by blast
  qed
  ultimately show ?thesis using Some c ok' hv by (simp add: TryWriteBacking_def)
qed

text \<open>
  C11: The guest address space implements a map from addresses to uses: \<open>MapBacking\<close>, \<open>UnmapBacking\<close>, \<open>Commit\<close> and
  \<open>ReleaseCommitted\<close> each change the use of exactly the range they are asked for, or fail and leave every address as it
  was, whatever the system calls answer; what they map is what the host has mapped. A call that ends the process has seen
  a system call fail. The bytes of the backing object stay as they are. \<open>UnmapBacking\<close> and \<open>ReleaseCommitted\<close> refuse a
  range that leaves 64 bits; \<open>MapBacking\<close> and \<open>Commit\<close> do not test it, so for them the range is assumed to fit
  (\<open>guest_space_wrapped\<close> is what happens otherwise).
\<close>

theorem guest_space_refines_uses:
  assumes ok: "space_ok s" and n: "0 < bytes"
  shows "(vaddr + bytes \<le> UINT64_MAX \<longrightarrow> (\<exists>s' r. MapBacking vaddr bytes offset mode s = Inr (s', r) \<and> space_ok s' \<and> bk_bytes s' = bk_bytes s \<and>
      (r \<longleftrightarrow> (\<forall>a. vaddr \<le> a \<and> a < vaddr + bytes \<longrightarrow> use_at s a = Use_Free) \<and> RangeOk offset bytes s \<and> sp_answers s (length (sp_log s))) \<and>
      use_at s' = (if r then set_use vaddr bytes (\<lambda>a. Use_View (offset + (a - vaddr))) (use_at s) else use_at s))) \<and>
    (vaddr + bytes \<le> UINT64_MAX \<longrightarrow> (\<exists>s' r. sp_Commit vaddr bytes mode s = Inr (s', r) \<and> space_ok s' \<and> bk_bytes s' = bk_bytes s \<and>
      (r \<longleftrightarrow> (\<forall>a. vaddr \<le> a \<and> a < vaddr + bytes \<longrightarrow> use_at s a = Use_Free) \<and> sp_answers s (length (sp_log s))) \<and>
      use_at s' = (if r then set_use vaddr bytes (\<lambda>a. Use_Private) (use_at s) else use_at s))) \<and>
    (case UnmapBacking vaddr bytes s of
       Inl x \<Rightarrow> \<not> (\<forall>k. sp_answers s k)
     | Inr (s', r) \<Rightarrow> space_ok s' \<and> bk_bytes s' = bk_bytes s \<and>
         use_at s' = (if r then set_use vaddr bytes (\<lambda>_. Use_Free) (use_at s) else use_at s) \<and>
         ((\<forall>k. sp_answers s k) \<longrightarrow> (r \<longleftrightarrow> vaddr + bytes \<le> UINT64_MAX \<and>
            (\<forall>a. vaddr \<le> a \<and> a < vaddr + bytes \<longrightarrow> (\<exists>offset. use_at s a = Use_View offset))))) \<and>
    (case ReleaseCommitted vaddr bytes s of
       Inl x \<Rightarrow> \<not> (\<forall>k. sp_answers s k)
     | Inr (s', r) \<Rightarrow> space_ok s' \<and> bk_bytes s' = bk_bytes s \<and>
         use_at s' = (if r then set_use vaddr bytes (\<lambda>_. Use_Free) (use_at s) else use_at s) \<and>
         (r \<longleftrightarrow> IsPageAligned vaddr \<and> IsPageAligned bytes \<and> vaddr + bytes \<le> UINT64_MAX \<and>
            (\<forall>a. vaddr \<le> a \<and> a < vaddr + bytes \<longrightarrow> use_at s a = Use_Private)))"
proof -
  have c: "ContainsMappedUnlocked vaddr bytes Mapped_Backing s \<longleftrightarrow> vaddr + bytes \<le> UINT64_MAX \<and>
      (\<forall>a. vaddr \<le> a \<and> a < vaddr + bytes \<longrightarrow> (\<exists>offset. use_at s a = Use_View offset))"
    "ContainsMappedUnlocked vaddr bytes Mapped_Private s \<longleftrightarrow> vaddr + bytes \<le> UINT64_MAX \<and>
      (\<forall>a. vaddr \<le> a \<and> a < vaddr + bytes \<longrightarrow> use_at s a = Use_Private)"
    using ContainsMapped_ok [OF space_okD(2) [OF ok]] use_at_region [OF ok] n by simp_all
  show ?thesis
  proof (intro conjI)
    show "case UnmapBacking vaddr bytes s of
       Inl x \<Rightarrow> \<not> (\<forall>k. sp_answers s k)
     | Inr (s', r) \<Rightarrow> space_ok s' \<and> bk_bytes s' = bk_bytes s \<and>
         use_at s' = (if r then set_use vaddr bytes (\<lambda>_. Use_Free) (use_at s) else use_at s) \<and>
         ((\<forall>k. sp_answers s k) \<longrightarrow> (r \<longleftrightarrow> vaddr + bytes \<le> UINT64_MAX \<and>
            (\<forall>a. vaddr \<le> a \<and> a < vaddr + bytes \<longrightarrow> (\<exists>offset. use_at s a = Use_View offset))))"
    proof (cases "UnmapBacking vaddr bytes s")
      case (Inl x)
      then show ?thesis using UnmapBacking_ok [OF ok, of vaddr bytes] by simp
    next
      case (Inr sr)
      obtain s' r where sr: "sr = (s', r)" by (cases sr)
      show ?thesis using UnmapBacking_ok [OF ok, of vaddr bytes] unfolding Inr sr sum.case prod.case c by (elim conjE) (intro conjI)
    qed
    show "case ReleaseCommitted vaddr bytes s of
       Inl x \<Rightarrow> \<not> (\<forall>k. sp_answers s k)
     | Inr (s', r) \<Rightarrow> space_ok s' \<and> bk_bytes s' = bk_bytes s \<and>
         use_at s' = (if r then set_use vaddr bytes (\<lambda>_. Use_Free) (use_at s) else use_at s) \<and>
         (r \<longleftrightarrow> IsPageAligned vaddr \<and> IsPageAligned bytes \<and> vaddr + bytes \<le> UINT64_MAX \<and>
            (\<forall>a. vaddr \<le> a \<and> a < vaddr + bytes \<longrightarrow> use_at s a = Use_Private))"
    proof (cases "ReleaseCommitted vaddr bytes s")
      case (Inl x)
      then show ?thesis using ReleaseCommitted_ok [OF ok, of vaddr bytes] by simp
    next
      case (Inr sr)
      obtain s' r where sr: "sr = (s', r)" by (cases sr)
      show ?thesis using ReleaseCommitted_ok [OF ok, of vaddr bytes] unfolding Inr sr sum.case prod.case c by (elim conjE) (intro conjI)
    qed
  qed (rule impI, erule MapBacking_ok [OF ok n] sp_Commit_ok [OF ok n])+
qed

definition demo_space :: "(nat \<Rightarrow> bool) \<Rightarrow> space" where
  "demo_space answers = \<lparr>sp_answers = answers, sp_log = [], bk_available = True, bk_size = 0x100000, bk_bytes = (\<lambda>_. 0), bk_maps = [],
     sp_free = [(0x40000, 0x10000)], sp_mapped = [], sp_owned = [(0x40000, 0x10000)]\<rparr>"

lemma demo_space_ok: "space_ok (demo_space answers)"
  by (auto simp: demo_space_def space_ok_def backing_ok_def host_view_def fun_eq_iff free_ok_def UINT64_MAX_def)

theorem guest_space_refines_uses_witness:
  "\<exists>s' r. MapBacking 0x44000 0x8000 0x20000 Mode_ReadWrite (demo_space (\<lambda>_. True)) = Inr (s', r) \<and> space_ok s' \<and> r \<and>
     use_at s' 0x44010 = Use_View 0x20010 \<and> use_at s' 0x4c000 = Use_Free"
proof -
  let ?s = "demo_space (\<lambda>_. True)"
  have free: "use_at ?s a = Use_Free" if "0x40000 \<le> a" "a < 0x50000" for a
    using use_at_free [OF demo_space_ok, of "\<lambda>_. True" a] that by (simp add: demo_space_def)
  obtain s' r where m: "MapBacking 0x44000 0x8000 0x20000 Mode_ReadWrite ?s = Inr (s', r)" "space_ok s'"
    "r \<longleftrightarrow> (\<forall>a. 0x44000 \<le> a \<and> a < 0x44000 + 0x8000 \<longrightarrow> use_at ?s a = Use_Free) \<and> RangeOk 0x20000 0x8000 ?s \<and>
       sp_answers ?s (length (sp_log ?s))"
    "use_at s' = (if r then set_use 0x44000 0x8000 (\<lambda>a. Use_View (0x20000 + (a - 0x44000))) (use_at ?s) else use_at ?s)"
    using guest_space_refines_uses [where s = ?s and vaddr = "0x44000" and bytes = "0x8000" and offset = "0x20000" and mode = Mode_ReadWrite,
      OF demo_space_ok _, THEN conjunct1] by (auto simp: UINT64_MAX_def)
  have r unfolding m(3) using free by (simp add: RangeOk_def demo_space_def)
  then show ?thesis using m free [of "0x4c000"] by (auto simp: set_use_def)
qed

text \<open>
  A range that leaves 64 bits passes the test of \<open>FindContaining\<close> when its wrapped end is small. \<open>MapBacking\<close> of it then
  fails, as the backing object has no such range, but the free range it split is left with no bytes.
\<close>

lemma guest_space_wrapped:
  "case MapBacking 0x44000 18446744073709535232 0 Mode_ReadWrite (demo_space (\<lambda>_. True)) of
     Inl x \<Rightarrow> False
   | Inr (s', r) \<Rightarrow> \<not> r \<and> sp_free s' = [(0x40000, 0)]"
proof -
  let ?n = "18446744073709535232 :: nat"
  have w: "add64 0x44000 ?n = 0x40000" "add64 0x40000 0x10000 = 0x50000" "add64 0x40000 0x4000 = 0x44000"
    "sub64 0x50000 0x44000 = 0xc000" "sub64 0x44000 0x40000 = 0x4000" "sub64 0x40000 0x40000 = 0"
    by (simp_all add: add64_def sub64_def)
  have f: "FindContaining 0x44000 ?n [(0x40000, 0x10000)] = Some ([], (0x40000, 0x10000), [])"
    by (simp add: FindContaining_def upper_bound_def w)
  have "SplitUnlocked ([], (0x40000, 0x10000), []) 0x44000 ?n = [(0x40000, 0x4000), (0x44000, ?n)]"
    by (simp add: SplitUnlocked_def w)
  then show ?thesis
    by (simp add: MapBacking_def ConsumeUnlocked_def demo_space_def f MapExistingPlaceholderFixed_def RangeOk_def
        AddFreeUnlocked_def w)
qed

text \<open>
  C13: What the host reads and writes through the views: \<open>TryReadBacking\<close> succeeds exactly on ranges that are mapped
  throughout and fills the buffer with the bytes the views show; \<open>TryReadSparseBacking\<close> does so on any range, with zero
  where nothing is mapped; after \<open>TryWriteBacking\<close> of a range that shows no byte twice, reading gives the data back, and
  the bytes the range does not show are untouched.
\<close>

theorem backing_write_read:
  assumes ok: "backing_ok s" and len: "bytes \<le> length data" "bytes \<le> length buf"
  shows "(case TryReadBacking vaddr (Some buf) bytes s of
       None \<Rightarrow> \<not> BackingContains vaddr bytes s
     | Some out \<Rightarrow> BackingContains vaddr bytes s \<and>
         out = map (\<lambda>i. bk_bytes s (the (host_view s (vaddr + i)))) [0..<bytes] @ drop bytes buf) \<and>
    (bytes \<noteq> 0 \<and> vaddr + bytes \<le> UINT64_MAX \<longrightarrow>
      TryReadSparseBacking vaddr (Some buf) bytes s =
        Some (map (\<lambda>i. case host_view s (vaddr + i) of None \<Rightarrow> 0 | Some x \<Rightarrow> bk_bytes s x) [0..<bytes] @ drop bytes buf)) \<and>
    (inj_on (host_view s) {vaddr..<vaddr + bytes} \<longrightarrow>
      (case TryWriteBacking vaddr (Some data) bytes s of (s', r) \<Rightarrow>
        (r \<longleftrightarrow> BackingContains vaddr bytes s) \<and> backing_ok s' \<and> host_view s' = host_view s \<and>
        (r \<longrightarrow> TryReadBacking vaddr (Some buf) bytes s' = Some (take bytes data @ drop bytes buf)) \<and>
        (\<forall>x. (\<forall>a\<in>{vaddr..<vaddr + bytes}. host_view s a \<noteq> Some x) \<longrightarrow> bk_bytes s' x = bk_bytes s x)))"
proof (intro conjI impI)
  show read: "case TryReadBacking vaddr (Some buf) bytes s of
       None \<Rightarrow> \<not> BackingContains vaddr bytes s
     | Some out \<Rightarrow> BackingContains vaddr bytes s \<and>
         out = map (\<lambda>i. bk_bytes s (the (host_view s (vaddr + i)))) [0..<bytes] @ drop bytes buf"
    by (rule TryRead_ok [OF ok len(2)])
  show "TryReadSparseBacking vaddr (Some buf) bytes s =
        Some (map (\<lambda>i. case host_view s (vaddr + i) of None \<Rightarrow> 0 | Some x \<Rightarrow> bk_bytes s x) [0..<bytes] @ drop bytes buf)"
    if "bytes \<noteq> 0 \<and> vaddr + bytes \<le> UINT64_MAX"
    by (rule TryReadSparse_ok [OF ok len(2)]) (use that in simp_all)
  show "case TryWriteBacking vaddr (Some data) bytes s of (s', r) \<Rightarrow>
        (r \<longleftrightarrow> BackingContains vaddr bytes s) \<and> backing_ok s' \<and> host_view s' = host_view s \<and>
        (r \<longrightarrow> TryReadBacking vaddr (Some buf) bytes s' = Some (take bytes data @ drop bytes buf)) \<and>
        (\<forall>x. (\<forall>a\<in>{vaddr..<vaddr + bytes}. host_view s a \<noteq> Some x) \<longrightarrow> bk_bytes s' x = bk_bytes s x)"
    if "inj_on (host_view s) {vaddr..<vaddr + bytes}"
    by (rule TryWrite_ok [OF ok len that])
qed

theorem backing_write_read_witness:
  "\<exists>s. backing_ok s \<and> host_view s 0x44000 = Some 0x20000 \<and>
     (case TryWriteBacking 0x44000 (Some [1, 2, 3]) 2 s of (s', r) \<Rightarrow> r \<and> TryReadBacking 0x44000 (Some [9, 9, 9, 9]) 2 s' = Some [1, 2, 9, 9])"
proof -
  let ?e = "\<lparr>me_vaddr = 0x44000, me_size = 0x4000, me_backing_offset = 0x20000, me_mode = Mode_ReadWrite\<rparr>"
  let ?s = "(demo_space (\<lambda>_. True))\<lparr>bk_maps := [?e], sp_log := [(Map_View 0x44000 0x4000 0x20000 Mode_ReadWrite, True)]\<rparr>"
  have ok: "backing_ok ?s"
    by (auto simp: backing_ok_def demo_space_def ordered_def RangeOk_def host_view_def fun_eq_iff entry_view_def UINT64_MAX_def)
  have hv: "host_view ?s a = (if 0x44000 \<le> a \<and> a < 0x48000 then Some (0x20000 + (a - 0x44000)) else None)" for a
    by (simp add: host_view_def)
  have inj: "inj_on (host_view ?s) {0x44000..<0x44000 + 2}" by (auto simp: inj_on_def hv)
  have c: "BackingContains 0x44000 2 ?s"
    by (simp add: BackingContains_def backing_parts.simps FindContainingUnlocked_def last_at_def demo_space_def UINT64_MAX_def)
  have "case TryWriteBacking 0x44000 (Some [1, 2, 3]) 2 ?s of (s', r) \<Rightarrow> (r \<longleftrightarrow> BackingContains 0x44000 2 ?s) \<and>
      (r \<longrightarrow> TryReadBacking 0x44000 (Some [9, 9, 9, 9]) 2 s' = Some (take 2 [1, 2, 3] @ drop 2 [9, 9, 9, 9]))"
    using backing_write_read [where s = ?s and bytes = 2 and data = "[1, 2, 3]" and buf = "[9, 9, 9, 9]" and vaddr = "0x44000", OF ok _ _,
      THEN conjunct2, THEN conjunct2, THEN mp, OF _ _ inj]
    by (auto split: prod.splits)
  then show ?thesis using ok hv c by (intro exI [of _ ?s]) (auto split: prod.splits)
qed

text \<open>
  C14: The search for free addresses is exact: \<open>FindFreeAligned\<close> finds the lowest aligned address of the window from which
  the whole size is free, and gives 0 only when there is none.
\<close>

theorem free_search_lowest:
  assumes ok: "space_ok s" and n: "0 < bytes" "0 < alignment" "search_end \<le> UINT64_MAX"
    and p: "p = FindFreeAligned search_start search_end bytes alignment s"
  shows "(p = 0 \<longrightarrow> (\<forall>q. search_start \<le> q \<and> q mod max alignment GUEST_PAGE_SIZE = 0 \<and> q + bytes \<le> search_end \<longrightarrow>
        \<not> (\<forall>a. q \<le> a \<and> a < q + bytes \<longrightarrow> use_at s a = Use_Free))) \<and>
    (p \<noteq> 0 \<longrightarrow> search_start \<le> p \<and> p mod max alignment GUEST_PAGE_SIZE = 0 \<and> p + bytes \<le> search_end \<and>
      (\<forall>a. p \<le> a \<and> a < p + bytes \<longrightarrow> use_at s a = Use_Free) \<and>
      (\<forall>q. search_start \<le> q \<and> q mod max alignment GUEST_PAGE_SIZE = 0 \<and> q + bytes \<le> search_end \<and>
        (\<forall>a. q \<le> a \<and> a < q + bytes \<longrightarrow> use_at s a = Use_Free) \<longrightarrow> p \<le> q))"
proof -
  note d = space_okD [OF ok]
  let ?al = "max alignment GUEST_PAGE_SIZE"
  have al: "0 < ?al" using n by simp
  have b: "\<forall>x\<in>free_bytes (sp_free s). 0 < x \<and> x < UINT64_MAX" using d(4) by blast
  show ?thesis
  proof (cases "search_start \<ge> search_end \<or> bytes > search_end - search_start")
    case True
    have "p = 0" unfolding p FindFreeAligned_def FindFreeAlignedUnlocked_def if_P [OF True] using n by simp
    moreover have "\<not> (search_start \<le> q \<and> q + bytes \<le> search_end)" for q using True n(1) by linarith
    ultimately show ?thesis by blast
  next
    case False
    have eq: "p = free_candidate search_start search_end bytes ?al (sp_free s)"
      unfolding p FindFreeAligned_def FindFreeAlignedUnlocked_def if_not_P [OF False] using n by simp
    note c = free_candidate_ok [OF d(3) b n(3) al n(1) eq]
    show ?thesis unfolding all_free [OF ok, symmetric] using c by (intro conjI impI allI) (simp_all only: simp_thms)
  qed
qed

theorem free_search_lowest_witness:
  "FindFreeAligned 0x40001 0x80000 0x5000 0x8000 (demo_space (\<lambda>_. True)) = 0x48000 \<and>
   use_at (demo_space (\<lambda>_. True)) 0x48000 = Use_Free \<and> use_at (demo_space (\<lambda>_. True)) 0x4cfff = Use_Free"
proof -
  have p: "FindFreeAligned 0x40001 0x80000 0x5000 0x8000 (demo_space (\<lambda>_. True)) = 0x48000"
    by (simp add: FindFreeAligned_def FindFreeAlignedUnlocked_def demo_space_def AlignUp_def GuestFreeRangeContains_def
        GUEST_PAGE_SIZE_def UINT64_MAX_def Let_def)
  then show ?thesis
    using free_search_lowest [OF demo_space_ok _ _ _ p [symmetric]] by (simp add: UINT64_MAX_def GUEST_PAGE_SIZE_def)
qed

end
