(* ===== verification/Spec2Isabelle.thy ===== *)
theory Spec2Isabelle
  imports Prelude KernelErrors Semaphore PosixSem EventFlag EventQueue BitArray PageManager RegionManager
    MemoryTracker RangeSet DirtyValidation WaitRegistry SyncOnAddress SlotVector LruCache StringUtils DateTime Rtc
    PthreadMutex PthreadRwlock PthreadCond PthreadObjects
    VirtualRanges FreeRanges MappingLists PhysicalMemory PooledMemory AddressSpace
begin

text \<open>
  A verification library for the core of PKG_DoW, a PlayStation 5 emulator in C++ (sources under src/src). The
  guest's code runs natively; the emulator supplies the guest kernel (src/src/kernel), the exported libraries
  (src/src/libs), the graphics processor (src/src/graphics) and what they share (src/src/common). Modelled are the
  kernel's synchronisation objects and memory management, the tracking that keeps CPU and GPU copies of guest
  memory coherent, and the data structures and conversions under them.

  \<^bold>\<open>Conventions.\<close> A class is a record of its fields, a method a function that takes the object and gives it back
  updated beside its result; \<open>EXIT\<close>, \<open>EXIT_IF\<close> and \<open>EXIT_NOT_IMPLEMENTED\<close> (src/src/common/assert.h) are the value
  \<open>Inl EXIT\<close>; an error code is the number of the source (\<open>KernelErrors\<close>). A \<open>std::map\<close> is the list of its entries in
  key order, a vector a list, a pointer to shared data an address or index into a store. A mutex held through an
  operation is the atomicity of that operation; an operation that releases its mutex (a condition variable, a futex)
  is split there, and the interleavings of all calls are an inductive step relation. What the code does not compute
  itself, system calls, the clock, guest memory and callbacks, is an argument. Words of the source are words or
  numbers that wrap (\<open>i32\<close>, \<open>i64\<close>, \<open>add64\<close>, \<open>sub64\<close>) where they can; where a number is unbounded in the model, the
  code's own tests or a stated bound keep it in range.

  \<^bold>\<open>Theories and sources.\<close>
  \<^item> \<open>Prelude\<close>: machine integers, exits, reachability, the locale \<open>step_invariant\<close>, runs of numbers.
  \<^item> \<open>KernelErrors\<close> (libs/errno.h), \<open>Semaphore\<close>, \<open>PosixSem\<close> (kernel/semaphore.cpp), \<open>EventFlag\<close> (kernel/eventFlag.cpp),
    \<open>EventQueue\<close> (kernel/eventQueue.cpp and its users' callbacks), \<open>SyncOnAddress\<close> (kernel/syncOnAddress.cpp).
  \<^item> \<open>PthreadMutex\<close>, \<open>PthreadRwlock\<close>, \<open>PthreadCond\<close> (the objects of kernel/pthread.cpp) and \<open>PthreadObjects\<close> (the
    guest's words that denote them, their creation at first use, and the exported calls).
  \<^item> \<open>VirtualRanges\<close>, \<open>FreeRanges\<close>, \<open>PhysicalMemory\<close>, \<open>PooledMemory\<close> (the classes of kernel/memory.cpp), \<open>AddressSpace\<close>
    (kernel/memoryAddressSpace.inc, Linux build), with \<open>MappingLists\<close> for the lemmas on lists of mappings.
  \<^item> \<open>BitArray\<close> (common/bitArray.h), \<open>PageManager\<close>, \<open>RegionManager\<close>, \<open>MemoryTracker\<close>, \<open>RangeSet\<close>, \<open>DirtyValidation\<close>
    (graphics/host_gpu): the memory tracker calls a region manager per 4 MiB, which counts watchers in the page
    manager, which protects host pages; \<open>DirtyValidation\<close> are the debug checks of tracker against byte ranges.
  \<^item> \<open>WaitRegistry\<close> (graphics/guest_gpu/waitRegistry.cpp and the wait packet of graphicsRun.cpp).
  \<^item> \<open>SlotVector\<close>, \<open>LruCache\<close>, \<open>StringUtils\<close>, \<open>DateTime\<close> (src/src/common) and \<open>Rtc\<close> (libs/libRtc.cpp).

  \<^bold>\<open>Interfaces.\<close> \<open>step_invariant\<close> (an invariant that holds at the start and is kept by every step) is interpreted on each
  state machine. \<open>watcher_service\<close> is what a region manager relies on in the page manager, \<open>index_set\<close> what the
  tracker relies on in bit arrays, \<open>byte_set\<close> what a cache relies on in range sets, \<open>handle_store\<close> in slot storage, and
  \<open>event_channel\<close> what a waiter relies on in an event; each is interpreted on the model of the code that provides it.

  \<^bold>\<open>What is shown.\<close>
  \<^item> Synchronisation: no lost wake-up, conservation of units, mutual exclusion with exact counts, the waiting writers'
    precedence, exact wake-up sets of signals, results of cancelled, deleted and timed calls, over all interleavings
    (\<open>sema_step\<close>, \<open>posix_step\<close>, \<open>flag_step\<close>, \<open>mutex_step\<close>, \<open>rw_step\<close>, \<open>cond_step\<close>, \<open>sync_step\<close>, \<open>wait_step\<close>); exported calls
    refine operations on the object denoted. Events deliver each payload once and in order.
  \<^item> Memory: each operation on lists of ranges refines a map from addresses (to attributes, owners, translations or uses)
    and changes it for its own addresses only; success is characterised; allocation takes the lowest place; pools conserve
    bytes; reads and writes through views agree. Failing system calls are part of the statements.
  \<^item> Coherence: range operations on words refine sets of bits; watcher counts and host protections are exact for every page;
    the tracker refines two sets of dirty pages; uploads and downloads visit exactly the dirty bytes; in every reachable
    tracker the protections are those the dirty sets ask for.
  \<^item> Structures and conversions: range sets as sets of bytes, handles, the LRU list with both link directions, calendar
    dates, ticks and RFC 3339 text as round trips.

  \<^bold>\<open>Bounds and depths.\<close>
  \<^item> \<open>UnmapOne\<close> has a depth for its recursion; the calls it makes of itself are for whole entries, which make no further
    ones, so the depth 2 used is enough. \<open>for_each_below\<close> walks links with as much fuel as there are items, which is shown
    to be enough on well-linked lists. The other loops are total functions with their measures.
  \<^item> Signals of a semaphore may have any count and may overflow it: the exact statement is for runs without such signals,
    the one modulo \<open>2 ^ 32\<close> for all. \<open>MapBacking\<close> and \<open>Commit\<close> are specified for ranges within 64 bits. Handles are unique
    for fewer than \<open>2 ^ 32 - 1\<close> erasures. A read-write lock has fewer than \<open>2 ^ 32 - 1\<close> read locks and waiting writers at
    a time. Julian days are exact to 536 million days either way. Formatted ticks must stay within 64 bits in their zone.
    In each case a lemma beside the property, or its hypothesis, shows where the code leaves the bound.
  \<^item> Tracker operations are specified for usable ranges: valid, beyond the first page, with every page touched mapped.

  \<^bold>\<open>Not modelled.\<close> The shader recompiler, the Vulkan renderer, command processing and presentation (mostly calls into
  Vulkan and the window system, apart from the event callbacks); thread creation, stacks, keys and host scheduling; flexible
  memory and the exported memory handlers; the file system, the loader, packages and the other exported libraries (not
  reached); floating-point and path conversions of the string helpers, the UTC clock; the Windows builds; the launcher,
  third-party code and tests. Failure reasons and log output are left out of every operation.
\<close>

end
